(* ===== verification/Rust_Prelude.thy ===== *)
theory Rust_Prelude
  imports Main "HOL-Library.Word" "HOL-Library.Multiset" "HOL-Library.Monad_Syntax"
begin

text \<open>
  What the Zigbee stack uses of Rust and of \<^verbatim>\<open>core\<close>/\<^verbatim>\<open>heapless\<close>: machine integers as
  words, saturating and checked arithmetic, iterator searches over fixed arrays
  (\<^verbatim>\<open>find\<close>, \<^verbatim>\<open>position\<close>, \<^verbatim>\<open>max_by_key\<close>, \<^verbatim>\<open>iter_mut().filter\<close>), the bounded vector
  operations (\<^verbatim>\<open>push\<close>, \<^verbatim>\<open>remove\<close>, \<^verbatim>\<open>swap_remove\<close>, \<^verbatim>\<open>retain\<close>), and slice reads and
  writes.  A panic of the source (a slice index out of range) is the value \<^term>\<open>None\<close>
  of an option-typed operation.  The lemmas here are the automation the component
  theories share.
\<close>

unbundle bit_operations_syntax

section \<open>Machine integers\<close>

type_synonym u8 = "8 word"
type_synonym u16 = "16 word"
type_synonym u32 = "32 word"
type_synonym u64 = "64 word"

named_theorems rust_defs \<open>definitions of the modelled Rust library operations\<close>
named_theorems wf_intros \<open>well-formedness is kept by an operation\<close>

definition sat_add :: "'a::len word \<Rightarrow> 'a word \<Rightarrow> 'a word" where
  "sat_add a b = (if unat a + unat b < 2 ^ LENGTH('a) then a + b else - 1)"

definition sat_sub :: "'a::len word \<Rightarrow> 'a word \<Rightarrow> 'a word" where
  "sat_sub a b = (if b \<le> a then a - b else 0)"

lemma unat_of_minus_one: "unat (- 1 :: 'a::len word) = 2 ^ LENGTH('a) - 1"
  by (simp add: unsigned_minus_1_eq_mask mask_eq_exp_minus_1)

lemma unat_sat_add:
  "unat (sat_add a b) = min (unat a + unat b) (2 ^ LENGTH('a) - 1)"
  for a b :: "'a::len word"
proof (cases "unat a + unat b < 2 ^ LENGTH('a)")
  case True
  then show ?thesis
    by (simp add: sat_add_def unat_word_ariths)
next
  case False
  then show ?thesis
    by (simp add: sat_add_def unat_of_minus_one min_absorb2)
qed

lemma unat_sat_sub: "unat (sat_sub a b) = unat a - unat b"
  by (auto simp: sat_sub_def unat_sub word_le_nat_alt)

lemma sat_add_ge: "a \<le> sat_add a b"
  using unsigned_less[of a, where 'a = nat] by (simp add: word_le_nat_alt unat_sat_add Suc_leI le_diff_conv2)

lemma unat_ucast_up:
  "LENGTH('a::len) \<le> LENGTH('b::len) \<Longrightarrow> unat (ucast (w :: 'a word) :: 'b word) = unat w"
proof -
  assume "LENGTH('a) \<le> LENGTH('b)"
  then have "(2::nat) ^ LENGTH('a) \<le> 2 ^ LENGTH('b)" by simp
  with unsigned_less[of w, where 'a = nat] have "unat w < 2 ^ LENGTH('b)" by linarith
  then show ?thesis by (simp add: unsigned_ucast_eq take_bit_nat_eq_self_iff)
qed

lemma unat_ucast_widen [simp]:
  "unat (ucast (a :: u8) :: u16) = unat a" "unat (ucast (a :: u8) :: u32) = unat a"
  "unat (ucast (b :: u16) :: u32) = unat b"
  by (simp_all add: unat_ucast_up)

lemma unat_bounds: "unat (a :: u8) < 256" "unat (b :: u16) < 65536" "unat (c :: u32) < 4294967296"
  using unsigned_less[of a, where 'a = nat] unsigned_less[of b, where 'a = nat]
    unsigned_less[of c, where 'a = nat] by simp_all

section \<open>Iterator searches over arrays and vectors\<close>

text \<open>\<^verbatim>\<open>iter().position(P)\<close>\<close>

fun position :: "('a \<Rightarrow> bool) \<Rightarrow> 'a list \<Rightarrow> nat option" where
  "position P [] = None"
| "position P (x # xs) = (if P x then Some 0 else map_option Suc (position P xs))"

text \<open>\<^verbatim>\<open>if let Some(e) = iter_mut().find(P) { *e = f(e) }\<close>\<close>

fun update_first :: "('a \<Rightarrow> bool) \<Rightarrow> ('a \<Rightarrow> 'a) \<Rightarrow> 'a list \<Rightarrow> 'a list" where
  "update_first P f [] = []"
| "update_first P f (x # xs) = (if P x then f x # xs else x # update_first P f xs)"

text \<open>\<^verbatim>\<open>for e in iter_mut().filter(P) { *e = f(e) }\<close>\<close>

definition map_if :: "('a \<Rightarrow> bool) \<Rightarrow> ('a \<Rightarrow> 'a) \<Rightarrow> 'a list \<Rightarrow> 'a list" where
  [rust_defs]: "map_if P f xs = map (\<lambda>x. if P x then f x else x) xs"

text \<open>
  \<^verbatim>\<open>(0..len).filter(P).max_by_key(k)\<close>: the index of a largest key among the elements
  satisfying \<open>P\<close>; among equal keys Rust returns the last one.
\<close>

fun max_idx_from :: "nat \<Rightarrow> ('a \<Rightarrow> bool) \<Rightarrow> ('a \<Rightarrow> 'k::linorder) \<Rightarrow> (nat \<times> 'k) option \<Rightarrow>
    'a list \<Rightarrow> (nat \<times> 'k) option" where
  "max_idx_from i P k best [] = best"
| "max_idx_from i P k best (x # xs) =
     max_idx_from (Suc i) P k
       (if P x
        then (case best of
                None \<Rightarrow> Some (i, k x)
              | Some (j, m) \<Rightarrow> if m \<le> k x then Some (i, k x) else Some (j, m))
        else best) xs"

definition max_idx_by :: "('a \<Rightarrow> bool) \<Rightarrow> ('a \<Rightarrow> 'k::linorder) \<Rightarrow> 'a list \<Rightarrow> nat option" where
  "max_idx_by P k xs = map_option fst (max_idx_from 0 P k None xs)"

section \<open>Bounded vectors\<close>

text \<open>\<^verbatim>\<open>heapless::Vec::push\<close> into a vector of capacity \<open>cap\<close>; \<^term>\<open>None\<close> is \<^verbatim>\<open>Err\<close>.\<close>

definition vec_push :: "nat \<Rightarrow> 'a \<Rightarrow> 'a list \<Rightarrow> 'a list option" where
  [rust_defs]: "vec_push cap x xs = (if length xs < cap then Some (xs @ [x]) else None)"

text \<open>\<^verbatim>\<open>let _ = v.push(x)\<close>: a full vector ignores the element.\<close>

definition vec_push_ignore :: "nat \<Rightarrow> 'a \<Rightarrow> 'a list \<Rightarrow> 'a list" where
  [rust_defs]: "vec_push_ignore cap x xs = (if length xs < cap then xs @ [x] else xs)"

text \<open>\<^verbatim>\<open>v.swap_remove(i)\<close> for \<open>i\<close> in range: the last element takes the hole.\<close>

definition swap_remove :: "nat \<Rightarrow> 'a list \<Rightarrow> 'a list" where
  [rust_defs]: "swap_remove i xs = butlast (xs[i := last xs])"

text \<open>\<^verbatim>\<open>v.remove(i)\<close> for \<open>i\<close> in range: later elements move down.\<close>

definition vec_remove :: "nat \<Rightarrow> 'a list \<Rightarrow> 'a list" where
  [rust_defs]: "vec_remove i xs = take i xs @ drop (Suc i) xs"

section \<open>Byte slices\<close>

text \<open>\<^verbatim>\<open>buf[off..off + n].copy_from_slice(bs)\<close>: a write past the end panics.\<close>

definition put :: "nat \<Rightarrow> 'a list \<Rightarrow> 'a list \<Rightarrow> 'a list option" where
  "put off bs buf =
     (if off + length bs \<le> length buf
      then Some (take off buf @ bs @ drop (off + length bs) buf) else None)"

text \<open>
  A serializer's cursor: the buffer and the offset of the next write, \<^verbatim>\<open>offset += n\<close> after it.
\<close>

definition write_at :: "'a list \<Rightarrow> 'a list \<times> nat \<Rightarrow> ('a list \<times> nat) option" where
  "write_at bs c = map_option (\<lambda>b. (b, snd c + length bs)) (put (snd c) bs (fst c))"

text \<open>\<^verbatim>\<open>if let Some(x) = opt { write }\<close>\<close>

definition write_opt :: "('b \<Rightarrow> 'a list) \<Rightarrow> 'b option \<Rightarrow> 'a list \<times> nat \<Rightarrow> ('a list \<times> nat) option" where
  "write_opt f opt c = (case opt of None \<Rightarrow> Some c | Some x \<Rightarrow> write_at (f x) c)"

text \<open>\<^verbatim>\<open>for x in xs { write }\<close>\<close>

fun write_each :: "('b \<Rightarrow> 'a list) \<Rightarrow> 'b list \<Rightarrow> 'a list \<times> nat \<Rightarrow> ('a list \<times> nat) option" where
  "write_each f [] c = Some c"
| "write_each f (x # xs) c = write_at (f x) c \<bind> write_each f xs"

text \<open>\<^verbatim>\<open>data.get(off..off + n)\<close>.\<close>

definition slice :: "nat \<Rightarrow> nat \<Rightarrow> 'a list \<Rightarrow> 'a list option" where
  "slice off n xs = (if off + n \<le> length xs then Some (take n (drop off xs)) else None)"

definition u16_from_le :: "u8 \<Rightarrow> u8 \<Rightarrow> u16" where
  "u16_from_le lo hi = ucast lo OR push_bit 8 (ucast hi)"

definition u16_to_le :: "u16 \<Rightarrow> u8 list" where
  "u16_to_le w = [ucast (w AND 0xFF), ucast (drop_bit 8 w AND 0xFF)]"

definition u32_from_le :: "u8 \<Rightarrow> u8 \<Rightarrow> u8 \<Rightarrow> u8 \<Rightarrow> u32" where
  "u32_from_le a b c d =
     ucast a OR push_bit 8 (ucast b) OR push_bit 16 (ucast c) OR push_bit 24 (ucast d)"

definition u32_to_le :: "u32 \<Rightarrow> u8 list" where
  "u32_to_le w = [ucast w, ucast (drop_bit 8 w), ucast (drop_bit 16 w), ucast (drop_bit 24 w)]"

section \<open>Lemmas on searches\<close>

lemma position_None_iff: "position P xs = None \<longleftrightarrow> (\<forall>x\<in>set xs. \<not> P x)"
  by (induction xs) auto

lemma position_SomeD:
  "position P xs = Some i \<Longrightarrow> i < length xs \<and> P (xs ! i) \<and> (\<forall>j<i. \<not> P (xs ! j))"
proof (induction xs arbitrary: i)
  case Nil
  then show ?case by simp
next
  case (Cons x xs)
  show ?case
  proof (cases "P x")
    case True
    with Cons.prems show ?thesis by simp
  next
    case False
    with Cons.prems obtain k where k: "position P xs = Some k" "i = Suc k" by auto
    from Cons.IH[OF k(1)] False k(2) show ?thesis
      by (auto simp: less_Suc_eq_0_disj)
  qed
qed

lemma position_Some_exists: "x \<in> set xs \<Longrightarrow> P x \<Longrightarrow> \<exists>i. position P xs = Some i"
  by (induction xs) auto

lemma find_position: "find P xs = map_option ((!) xs) (position P xs)"
  by (induction xs) (auto simp: option.map_comp comp_def)

lemma update_first_position:
  "update_first P f xs = (case position P xs of None \<Rightarrow> xs | Some i \<Rightarrow> xs[i := f (xs ! i)])"
  by (induction xs) (auto split: option.splits)

lemma update_first_id: "(\<forall>x\<in>set xs. \<not> P x) \<Longrightarrow> update_first P f xs = xs"
  by (induction xs) auto

lemma length_update_first [simp]: "length (update_first P f xs) = length xs"
  by (induction xs) auto

lemma length_map_if [simp]: "length (map_if P f xs) = length xs"
  by (simp add: map_if_def)

lemma set_update_first: "set (update_first P f xs) \<subseteq> set xs \<union> f ` {x \<in> set xs. P x}"
  by (induction xs) auto

lemma find_cong_set: "(\<And>x. x \<in> set xs \<Longrightarrow> P x = Q x) \<Longrightarrow> find P xs = find Q xs"
  by (induction xs) auto

lemma find_append: "find P (xs @ ys) = (case find P xs of None \<Rightarrow> find P ys | Some x \<Rightarrow> Some x)"
  by (induction xs) auto

lemma find_SomeD: "find P xs = Some x \<Longrightarrow> x \<in> set xs \<and> P x"
  by (induction xs) (auto split: if_splits)

lemma find_split:
  "find P xs = Some x \<Longrightarrow> \<exists>as bs. xs = as @ x # bs \<and> (\<forall>y\<in>set as. \<not> P y) \<and> P x"
proof (induction xs)
  case Nil
  then show ?case by simp
next
  case (Cons y ys)
  show ?case
  proof (cases "P y")
    case True
    with Cons.prems show ?thesis by (intro exI[of _ "[]"] exI[of _ ys]) simp
  next
    case False
    with Cons obtain as bs where "ys = as @ x # bs" "\<forall>z\<in>set as. \<not> P z" "P x" by auto
    with False show ?thesis by (intro exI[of _ "y # as"] exI[of _ bs]) simp
  qed
qed

lemma find_filter_None: "(\<forall>x\<in>set xs. P x \<longrightarrow> \<not> Q x) \<Longrightarrow> find P (filter Q xs) = None"
  by (induction xs) auto

lemma find_filter_same: "(\<forall>x\<in>set xs. P x \<longrightarrow> Q x) \<Longrightarrow> find P (filter Q xs) = find P xs"
  by (induction xs) auto

section \<open>Lemmas on \<^verbatim>\<open>max_by_key\<close>\<close>

lemma max_idx_from_None: "max_idx_from i P k best xs = None \<longleftrightarrow> best = None \<and> (\<forall>x\<in>set xs. \<not> P x)"
  by (induction xs arbitrary: i best) (auto split: option.splits)

lemma max_idx_from_bound:
  "max_idx_from n P k best xs = Some (i, m) \<Longrightarrow>
     (\<forall>x\<in>set xs. P x \<longrightarrow> k x \<le> m) \<and> (\<forall>j b. best = Some (j, b) \<longrightarrow> b \<le> m)"
proof (induction xs arbitrary: n best)
  case Nil
  then show ?case by simp
next
  case (Cons x xs)
  let ?best = "if P x then (case best of None \<Rightarrow> Some (n, k x)
    | Some (j, b) \<Rightarrow> if b \<le> k x then Some (n, k x) else Some (j, b)) else best"
  from Cons.prems have "max_idx_from (Suc n) P k ?best xs = Some (i, m)" by simp
  from Cons.IH[OF this] show ?case
    by (cases best) (auto split: if_splits intro: order.trans)
qed

lemma max_idx_from_src:
  "max_idx_from n P k best xs = Some (i, m) \<Longrightarrow>
     best = Some (i, m) \<or> n \<le> i \<and> i < n + length xs \<and> P (xs ! (i - n)) \<and> m = k (xs ! (i - n))"
proof (induction xs arbitrary: n best)
  case Nil
  then show ?case by simp
next
  case (Cons x xs)
  let ?best = "if P x then (case best of None \<Rightarrow> Some (n, k x)
    | Some (j, b) \<Rightarrow> if b \<le> k x then Some (n, k x) else Some (j, b)) else best"
  from Cons.prems have "max_idx_from (Suc n) P k ?best xs = Some (i, m)" by simp
  from Cons.IH[OF this] consider "?best = Some (i, m)"
    | "Suc n \<le> i" "i < Suc n + length xs" "P (xs ! (i - Suc n))" "m = k (xs ! (i - Suc n))"
    by blast
  then show ?case
  proof cases
    case 1
    then show ?thesis by (cases best) (auto split: if_splits)
  next
    case 2
    then have "i - n = Suc (i - Suc n)" by simp
    with 2 show ?thesis by auto
  qed
qed

lemma max_idx_by_None_iff: "max_idx_by P k xs = None \<longleftrightarrow> (\<forall>x\<in>set xs. \<not> P x)"
  by (simp add: max_idx_by_def max_idx_from_None)

lemma max_idx_by_SomeD:
  assumes "max_idx_by P k xs = Some i"
  shows "i < length xs" and "P (xs ! i)" and "\<And>x. x \<in> set xs \<Longrightarrow> P x \<Longrightarrow> k x \<le> k (xs ! i)"
proof -
  from assms obtain m where m: "max_idx_from 0 P k None xs = Some (i, m)"
    by (auto simp: max_idx_by_def)
  from max_idx_from_src[OF m] have src: "i < length xs" "P (xs ! i)" "m = k (xs ! i)" by auto
  then show "i < length xs" and "P (xs ! i)" by simp_all
  show "k x \<le> k (xs ! i)" if "x \<in> set xs" "P x" for x
    using max_idx_from_bound[OF m] that src(3) by blast
qed

section \<open>Lemmas on bounded vectors\<close>

lemma mset_swap_remove:
  assumes "i < length xs"
  shows "add_mset (xs ! i) (mset (swap_remove i xs)) = mset xs"
proof (cases "i = length xs - 1")
  case True
  from assms have ne: "xs \<noteq> []" by auto
  with True have l: "last xs = xs ! i" by (simp add: last_conv_nth)
  then have "xs[i := last xs] = xs" by simp
  with l ne have "swap_remove i xs = butlast xs" "last xs = xs ! i" "xs \<noteq> []"
    by (simp_all add: swap_remove_def)
  then show ?thesis
    by (metis append_butlast_last_id add_mset_add_single mset.simps(1,2) mset_append)
next
  case False
  from assms obtain ys z where xs: "xs = ys @ [z]" by (cases xs rule: rev_cases) auto
  with assms False have i: "i < length ys" by auto
  with xs have "swap_remove i xs = ys[i := z]" by (simp add: swap_remove_def list_update_append)
  with xs i show ?thesis
    by (simp add: mset_update nth_append)
qed

lemma length_swap_remove [simp]: "length (swap_remove i xs) = length xs - 1"
  by (simp add: swap_remove_def)

lemma set_swap_remove: "i < length xs \<Longrightarrow> set (swap_remove i xs) \<subseteq> set xs"
  by (metis mset_swap_remove set_mset_add_mset_insert set_mset_mset subset_insertI)

lemma set_swap_remove_distinct:
  assumes "i < length xs" "distinct xs"
  shows "set (swap_remove i xs) = set xs - {xs ! i}" and "distinct (swap_remove i xs)"
proof -
  have m: "mset xs = add_mset (xs ! i) (mset (swap_remove i xs))"
    using mset_swap_remove[OF assms(1)] by simp
  have ni: "xs ! i \<notin> set (swap_remove i xs)"
    using assms(2) m
    by (metis distinct.simps(2) mset.simps(2) mset_eq_imp_distinct_iff)
  show "set (swap_remove i xs) = set xs - {xs ! i}"
    using arg_cong[OF m, of set_mset] ni by simp
  show "distinct (swap_remove i xs)"
    using assms(2) m by (metis distinct.simps(2) mset.simps(2) mset_eq_imp_distinct_iff)
qed

lemma length_vec_push: "vec_push cap x xs = Some ys \<Longrightarrow> length ys \<le> cap"
  by (auto simp: vec_push_def split: if_splits)

section \<open>Lemmas on slices\<close>

text \<open>Consecutive writes of a serializer are one write of the concatenation.\<close>

lemma put_put:
  "(put off bs buf \<bind> put (off + length bs) cs) = put off (bs @ cs) buf"
  by (auto simp: put_def Let_def bind_eq_None_conv ac_simps)

lemma put_0: "put 0 bs buf = (if length bs \<le> length buf then Some (bs @ drop (length bs) buf) else None)"
  by (simp add: put_def)

lemma write_at_append: "(write_at bs c \<bind> write_at cs) = write_at (bs @ cs) c"
  using put_put[of "snd c" bs "fst c" cs]
  by (cases "put (snd c) bs (fst c)") (auto simp: write_at_def add.assoc)

lemma write_at_then: "(write_at bs c \<bind> (\<lambda>c'. write_at cs c' \<bind> k)) = (write_at (bs @ cs) c \<bind> k)"
  unfolding write_at_append[symmetric] by (cases "write_at bs c") simp_all

lemma write_at_Nil: "snd c \<le> length (fst c) \<Longrightarrow> write_at [] c = Some c"
  by (simp add: write_at_def put_def)

lemma write_opt_then:
  "(write_at bs c \<bind> write_opt f opt) = write_at (bs @ (case opt of None \<Rightarrow> [] | Some x \<Rightarrow> f x)) c"
proof (cases opt)
  case None
  then show ?thesis by (cases "write_at bs c") (simp_all add: write_opt_def)
next
  case (Some x)
  then show ?thesis by (simp add: write_opt_def[abs_def] write_at_append)
qed

lemma write_each_then: "(write_at bs c \<bind> write_each f xs) = write_at (bs @ concat (map f xs)) c"
proof (induction xs arbitrary: bs)
  case Nil
  then show ?case by (cases "write_at bs c") simp_all
next
  case (Cons x xs)
  have "(write_at bs c \<bind> write_each f (x # xs)) = (write_at (bs @ f x) c \<bind> write_each f xs)"
    using write_at_then[of bs c "f x" "write_each f xs"] by (cases "write_at bs c") simp_all
  then show ?case by (simp add: Cons.IH del: write_each.simps)
qed

text \<open>A serializer that starts at offset 0 writes its bytes when they fit and panics otherwise.\<close>

lemma write_at_start:
  "write_at bs (buf, 0) =
     (if length bs \<le> length buf then Some (bs @ drop (length bs) buf, length bs) else None)"
  by (simp add: write_at_def put_0)

lemma slice_0: "slice 0 n xs = (if n \<le> length xs then Some (take n xs) else None)"
  by (simp add: slice_def)

lemma slice_append:
  "n \<le> length bs \<Longrightarrow> slice (length as) n (as @ bs @ cs) = Some (take n bs)"
  by (simp add: slice_def)

lemma and_0xFF_u16: "w AND 0xFF = take_bit 8 (w::u16)"
  by (simp add: take_bit_eq_mask mask_eq_exp_minus_1)

lemma u16_le_roundtrip [simp]: "u16_from_le (u16_to_le w ! 0) (u16_to_le w ! 1) = w"
  unfolding u16_from_le_def u16_to_le_def and_0xFF_u16
  by (rule bit_word_eqI) (auto simp: bit_simps not_less)

lemma u16_from_le_ucast [simp]:
  "u16_from_le (ucast (w AND 0xFF)) (ucast (drop_bit 8 w AND 0xFF)) = w"
  using u16_le_roundtrip[of w] by (simp add: u16_to_le_def)

lemma u16_to_le_from_le [simp]: "u16_to_le (u16_from_le lo hi) = [lo, hi]"
proof -
  have "ucast (u16_from_le lo hi AND 0xFF) = lo"
    unfolding u16_from_le_def and_0xFF_u16 by (rule bit_word_eqI) (auto simp: bit_simps)
  moreover have "ucast (drop_bit 8 (u16_from_le lo hi) AND 0xFF) = hi"
    unfolding u16_from_le_def and_0xFF_u16
    by (rule bit_word_eqI) (auto simp: bit_simps dest: bit_imp_le_length)
  ultimately show ?thesis by (simp add: u16_to_le_def)
qed

lemma length_u16_to_le [simp]: "length (u16_to_le w) = 2"
  by (simp add: u16_to_le_def)

lemma u32_from_le_ucast [simp]:
  "u32_from_le (ucast w) (ucast (drop_bit 8 w)) (ucast (drop_bit 16 w)) (ucast (drop_bit 24 w)) = w"
  unfolding u32_from_le_def
proof (rule bit_word_eqI)
  fix n
  assume "n < LENGTH(32)"
  then consider "n < 8" | "8 \<le> n" "n < 16" | "16 \<le> n" "n < 24" | "24 \<le> n" "n < 32" by fastforce
  then show "bit (ucast (ucast w :: u8) OR push_bit 8 (ucast (ucast (drop_bit 8 w) :: u8)) OR
      push_bit 16 (ucast (ucast (drop_bit 16 w) :: u8)) OR
      push_bit 24 (ucast (ucast (drop_bit 24 w) :: u8)) :: u32) n = bit w n"
    by cases (auto simp: bit_simps)
qed

lemma length_u32_to_le [simp]: "length (u32_to_le w) = 4"
  by (simp add: u32_to_le_def)

end
