(* ===== verification/Zb_Types.thy ===== *)
theory Zb_Types
  imports Rust_Prelude
begin

text \<open>
  \<^verbatim>\<open>zigbee-types/src/lib.rs\<close>: addresses, channels and the channel-mask iterator the
  scans and the commissioning code walk.  \<^verbatim>\<open>ShortAddress\<close> and \<^verbatim>\<open>PanId\<close> are transparent
  wrappers of \<^verbatim>\<open>u16\<close>; an \<^verbatim>\<open>IeeeAddress\<close> is an array of eight bytes, kept as a list
  whose length \<open>ieee_ok\<close> states.
\<close>

type_synonym ShortAddress = u16
type_synonym PanId = u16
type_synonym IeeeAddress = "u8 list"

definition ieee_ok :: "IeeeAddress \<Rightarrow> bool" where
  "ieee_ok a \<longleftrightarrow> length a = 8"

datatype MacAddress = Short PanId ShortAddress | Extended PanId IeeeAddress

fun MacAddress_pan_id :: "MacAddress \<Rightarrow> PanId" where
  "MacAddress_pan_id (Short pan _) = pan"
| "MacAddress_pan_id (Extended pan _) = pan"

datatype Channel = Ch11 | Ch12 | Ch13 | Ch14 | Ch15 | Ch16 | Ch17 | Ch18
  | Ch19 | Ch20 | Ch21 | Ch22 | Ch23 | Ch24 | Ch25 | Ch26

definition Channel_from_number :: "u8 \<Rightarrow> Channel option" where
  "Channel_from_number n =
     (if n = 11 then Some Ch11 else if n = 12 then Some Ch12
      else if n = 13 then Some Ch13 else if n = 14 then Some Ch14
      else if n = 15 then Some Ch15 else if n = 16 then Some Ch16
      else if n = 17 then Some Ch17 else if n = 18 then Some Ch18
      else if n = 19 then Some Ch19 else if n = 20 then Some Ch20
      else if n = 21 then Some Ch21 else if n = 22 then Some Ch22
      else if n = 23 then Some Ch23 else if n = 24 then Some Ch24
      else if n = 25 then Some Ch25 else if n = 26 then Some Ch26
      else None)"

fun Channel_number :: "Channel \<Rightarrow> u8" where
  "Channel_number Ch11 = 11" | "Channel_number Ch12 = 12"
| "Channel_number Ch13 = 13" | "Channel_number Ch14 = 14"
| "Channel_number Ch15 = 15" | "Channel_number Ch16 = 16"
| "Channel_number Ch17 = 17" | "Channel_number Ch18 = 18"
| "Channel_number Ch19 = 19" | "Channel_number Ch20 = 20"
| "Channel_number Ch21 = 21" | "Channel_number Ch22 = 22"
| "Channel_number Ch23 = 23" | "Channel_number Ch24 = 24"
| "Channel_number Ch25 = 25" | "Channel_number Ch26 = 26"

type_synonym ChannelMask = u32

definition ALL_2_4GHZ :: ChannelMask where
  "ALL_2_4GHZ = 0x07FFF800"

definition PREFERRED :: ChannelMask where
  "PREFERRED = push_bit 11 1 OR push_bit 14 1 OR push_bit 15 1 OR push_bit 19 1
     OR push_bit 20 1 OR push_bit 24 1 OR push_bit 25 1"

definition ChannelMask_contains :: "ChannelMask \<Rightarrow> Channel \<Rightarrow> bool" where
  "ChannelMask_contains m c \<longleftrightarrow> m AND push_bit (unat (Channel_number c)) 1 \<noteq> 0"

record ChannelMaskIter =
  cmi_mask :: ChannelMask
  cmi_current :: u8

definition ChannelMask_iter :: "ChannelMask \<Rightarrow> ChannelMaskIter" where
  "ChannelMask_iter m = \<lparr>cmi_mask = m, cmi_current = 11\<rparr>"

text \<open>
  One call of \<^verbatim>\<open>next\<close>: the loop stops at the first set bit, leaving the cursor behind it.
  A bit whose number is no channel (impossible from 11 on) would end the iteration.
\<close>

function ChannelMaskIter_next :: "ChannelMaskIter \<Rightarrow> Channel option \<times> ChannelMaskIter" where
  "ChannelMaskIter_next it =
     (if cmi_current it \<le> 26
      then let ch = cmi_current it; it' = it\<lparr>cmi_current := ch + 1\<rparr>
           in if cmi_mask it AND push_bit (unat ch) 1 \<noteq> 0
              then (Channel_from_number ch, it')
              else ChannelMaskIter_next it'
      else (None, it))"
  by pat_completeness auto
termination
  by (relation "measure (\<lambda>it. 27 - unat (cmi_current it))")
    (auto simp: word_le_nat_alt unat_word_ariths)

text \<open>A \<^verbatim>\<open>for\<close> loop over the iterator: the channels it yields, with a bound on the calls.\<close>

fun mask_collect :: "nat \<Rightarrow> ChannelMaskIter \<Rightarrow> Channel list" where
  "mask_collect 0 it = []"
| "mask_collect (Suc n) it =
     (case ChannelMaskIter_next it of
        (None, _) \<Rightarrow> []
      | (Some c, it') \<Rightarrow> c # mask_collect n it')"

definition all_channels :: "Channel list" where
  "all_channels = [Ch11, Ch12, Ch13, Ch14, Ch15, Ch16, Ch17, Ch18,
     Ch19, Ch20, Ch21, Ch22, Ch23, Ch24, Ch25, Ch26]"

instantiation Channel :: linorder
begin
definition less_eq_Channel :: "Channel \<Rightarrow> Channel \<Rightarrow> bool" where
  "less_eq_Channel a b \<longleftrightarrow> Channel_number a \<le> Channel_number b"
definition less_Channel :: "Channel \<Rightarrow> Channel \<Rightarrow> bool" where
  "less_Channel a b \<longleftrightarrow> Channel_number a < Channel_number b"
instance
proof
  fix x y z :: Channel
  show "(x < y) = (x \<le> y \<and> \<not> y \<le> x)"
    by (auto simp: less_eq_Channel_def less_Channel_def)
  show "x \<le> x"
    by (simp add: less_eq_Channel_def)
  show "x \<le> y \<Longrightarrow> y \<le> z \<Longrightarrow> x \<le> z"
    by (auto simp: less_eq_Channel_def)
  show "x \<le> y \<Longrightarrow> y \<le> x \<Longrightarrow> x = y"
    by (cases x; cases y) (simp_all add: less_eq_Channel_def)
  show "x \<le> y \<or> y \<le> x"
    by (auto simp: less_eq_Channel_def)
qed
end

declare ChannelMaskIter_next.simps [simp del]

lemma Channel_number_roundtrip [simp]: "Channel_from_number (Channel_number c) = Some c"
  by (cases c) (simp_all add: Channel_from_number_def)

lemma Channel_from_number_eq: "Channel_from_number n = Some c \<longleftrightarrow> n = Channel_number c"
  by (cases c) (auto simp: Channel_from_number_def split: if_splits)

lemma Channel_from_number_nth:
  assumes "11 \<le> unat n" "unat n \<le> 26"
  shows "Channel_from_number n = Some (all_channels ! (unat n - 11))"
proof -
  from assms have "unat n = 11 \<or> unat n = 12 \<or> unat n = 13 \<or> unat n = 14 \<or> unat n = 15 \<or>
    unat n = 16 \<or> unat n = 17 \<or> unat n = 18 \<or> unat n = 19 \<or> unat n = 20 \<or> unat n = 21 \<or>
    unat n = 22 \<or> unat n = 23 \<or> unat n = 24 \<or> unat n = 25 \<or> unat n = 26" by presburger
  then show ?thesis
    by (elim disjE) (simp_all add: Channel_from_number_def all_channels_def word_unat_eq_iff)
qed

lemma Channel_from_number_range: "Channel_from_number n = None \<longleftrightarrow> n < 11 \<or> 26 < n"
proof
  assume "Channel_from_number n = None"
  then show "n < 11 \<or> 26 < n"
    using Channel_from_number_nth[of n] by (force simp: word_le_nat_alt word_less_nat_alt not_less)
next
  assume "n < 11 \<or> 26 < n"
  then show "Channel_from_number n = None"
    by (auto simp: Channel_from_number_def)
qed

lemma length_all_channels: "length all_channels = 16"
  by (simp add: all_channels_def)

lemma next_step:
  assumes "11 \<le> unat (cmi_current it)" "unat (cmi_current it) \<le> 26"
  shows "ChannelMaskIter_next it =
    (if ChannelMask_contains (cmi_mask it) (all_channels ! (unat (cmi_current it) - 11))
     then (Some (all_channels ! (unat (cmi_current it) - 11)), it\<lparr>cmi_current := cmi_current it + 1\<rparr>)
     else ChannelMaskIter_next (it\<lparr>cmi_current := cmi_current it + 1\<rparr>))"
proof -
  have n: "Channel_number (all_channels ! (unat (cmi_current it) - 11)) = cmi_current it"
    using Channel_from_number_nth[OF assms] by (simp add: Channel_from_number_eq)
  show ?thesis
    using assms n
    by (subst ChannelMaskIter_next.simps)
      (simp add: Let_def ChannelMask_contains_def word_le_nat_alt Channel_from_number_nth)
qed

lemma mask_collect_from:
  assumes "11 \<le> unat (cmi_current it)" "unat (cmi_current it) \<le> 27" "27 - unat (cmi_current it) \<le> n"
  shows "mask_collect n it =
    filter (ChannelMask_contains (cmi_mask it)) (drop (unat (cmi_current it) - 11) all_channels)"
  using assms
proof (induction "27 - unat (cmi_current it)" arbitrary: it n)
  case 0
  then have "unat (cmi_current it) = 27" by simp
  then have "ChannelMaskIter_next it = (None, it)"
    by (subst ChannelMaskIter_next.simps) (simp add: word_le_nat_alt)
  with 0 show ?case by (cases n) (simp_all add: all_channels_def)
next
  case (Suc d)
  let ?c = "unat (cmi_current it)" and ?it = "it\<lparr>cmi_current := cmi_current it + 1\<rparr>"
  from Suc have c: "11 \<le> ?c" "?c \<le> 26" by simp_all
  from Suc.prems Suc.hyps(2) obtain m where m: "n = Suc m" by (cases n) auto
  have cur: "unat (cmi_current ?it) = Suc ?c" using c by (simp add: unat_word_ariths)
  have dr: "drop (?c - 11) all_channels = all_channels ! (?c - 11) # drop (Suc ?c - 11) all_channels"
  proof -
    have "?c - 11 < length all_channels" using c by (simp add: length_all_channels)
    moreover have "Suc ?c - 11 = Suc (?c - 11)" using c by simp
    ultimately show ?thesis by (metis Cons_nth_drop_Suc)
  qed
  show ?case
  proof (cases "ChannelMask_contains (cmi_mask it) (all_channels ! (?c - 11))")
    case True
    have "mask_collect m ?it =
        filter (ChannelMask_contains (cmi_mask it)) (drop (Suc ?c - 11) all_channels)"
      using Suc.hyps(1)[of ?it m] Suc.hyps(2) Suc.prems cur c m by simp
    then show ?thesis using True m dr c by (simp add: next_step)
  next
    case False
    have "mask_collect n ?it =
        filter (ChannelMask_contains (cmi_mask it)) (drop (Suc ?c - 11) all_channels)"
      using Suc.hyps(1)[of ?it n] Suc.hyps(2) Suc.prems cur c by simp
    moreover have "mask_collect n it = mask_collect n ?it"
      using False c m by (simp add: next_step)
    ultimately show ?thesis using False dr by simp
  qed
qed

text \<open>
  Iterating a channel mask yields exactly the 2.4 GHz channels the mask contains, in
  ascending order and each once, after at most sixteen calls of \<^verbatim>\<open>next\<close>; bits below 11 or
  above 26 are never reported.
\<close>

theorem channel_mask_iter_exact:
  "mask_collect 16 (ChannelMask_iter m) = filter (ChannelMask_contains m) all_channels"
  by (subst mask_collect_from) (simp_all add: ChannelMask_iter_def)

end
