(* ===== verification/Table_Interfaces.thy ===== *)
theory Table_Interfaces
  imports Rust_Prelude
begin

text \<open>
  The interfaces the components are written against.  \<open>slot_array\<close> is the shape of every
  fixed table of the stack: an array of slots with an occupancy flag, searched by key.
  \<open>bounded_cache\<close> is what a lossy key/value table promises its client: a lookup never
  returns anything but the last value written.  \<open>countdown_slot\<close> is the one-second ageing
  contract, and \<open>wire_codec\<close> the contract of a frame's serializer and parser.  Each is
  interpreted on the definitions of the component that provides it.
\<close>

section \<open>Arrays of slots with an occupancy flag\<close>

definition slot_lookup :: "('e \<Rightarrow> bool) \<Rightarrow> ('e \<Rightarrow> 'k) \<Rightarrow> 'k \<Rightarrow> 'e list \<Rightarrow> 'e option" where
  "slot_lookup live key k es = find (\<lambda>e. live e \<and> key e = k) es"

definition slot_uniq :: "('e \<Rightarrow> bool) \<Rightarrow> ('e \<Rightarrow> 'k) \<Rightarrow> 'e list \<Rightarrow> bool" where
  "slot_uniq live key es \<longleftrightarrow>
     (\<forall>i<length es. \<forall>j<length es.
        live (es ! i) \<and> live (es ! j) \<and> key (es ! i) = key (es ! j) \<longrightarrow> i = j)"

locale slot_array =
  fixes live :: "'e \<Rightarrow> bool" and key :: "'e \<Rightarrow> 'k" and retire :: "'e \<Rightarrow> 'e"
  assumes retire_dead: "\<not> live (retire e)"
begin

lemma uniq_live_index:
  assumes "slot_uniq live key es" "i < length es" "live (es ! i)" "e \<in> set es" "live e"
    "key e = key (es ! i)"
  shows "e = es ! i"
  using assms unfolding slot_uniq_def by (metis in_set_conv_nth)

lemma lookup_iff:
  assumes "slot_uniq live key es"
  shows "slot_lookup live key k es = Some e \<longleftrightarrow> e \<in> set es \<and> live e \<and> key e = k"
proof
  assume "slot_lookup live key k es = Some e"
  then show "e \<in> set es \<and> live e \<and> key e = k"
    unfolding slot_lookup_def by (rule find_SomeD)
next
  assume e: "e \<in> set es \<and> live e \<and> key e = k"
  then obtain x where x: "find (\<lambda>e. live e \<and> key e = k) es = Some x"
    by (metis (mono_tags, lifting) find_None_iff not_None_eq)
  with find_SomeD[OF x] e assms have "x = e"
    by (metis (mono_tags, lifting) in_set_conv_nth uniq_live_index)
  with x show "slot_lookup live key k es = Some e" by (simp add: slot_lookup_def)
qed

lemma lookup_None_iff:
  "slot_lookup live key k es = None \<longleftrightarrow> (\<forall>e\<in>set es. live e \<longrightarrow> key e \<noteq> k)"
  by (auto simp: slot_lookup_def find_None_iff)

text \<open>Writing slot \<open>i\<close>: unique keys survive when no other live slot has the new key.\<close>

lemma uniq_update:
  assumes "slot_uniq live key es"
    and "\<And>j. j < length es \<Longrightarrow> j \<noteq> i \<Longrightarrow> live (es ! j) \<Longrightarrow> live e \<Longrightarrow> key (es ! j) \<noteq> key e"
  shows "slot_uniq live key (es[i := e])"
  unfolding slot_uniq_def
proof (intro allI impI)
  fix a b
  assume a: "a < length (es[i := e])" and b: "b < length (es[i := e])"
    and ab: "live (es[i := e] ! a) \<and> live (es[i := e] ! b) \<and> key (es[i := e] ! a) = key (es[i := e] ! b)"
  show "a = b"
  proof (rule ccontr)
    assume "a \<noteq> b"
    with a b ab assms(1) assms(2)[of a] assms(2)[of b] show False
      unfolding slot_uniq_def by (cases "a = i"; cases "b = i") auto
  qed
qed

lemma lookup_update_same:
  assumes "slot_uniq live key (es[i := e])" "i < length es" "live e"
  shows "slot_lookup live key (key e) (es[i := e]) = Some e"
  using assms by (simp add: lookup_iff set_update_memI)

lemma lookup_update_other:
  assumes "slot_uniq live key es" "slot_uniq live key (es[i := e])" "i < length es"
    "live e \<Longrightarrow> key e \<noteq> k"
  shows "slot_lookup live key k (es[i := e]) \<in> {None, slot_lookup live key k es}"
proof (cases "slot_lookup live key k (es[i := e])")
  case (Some x)
  with assms(2) have x: "x \<in> set (es[i := e])" "live x" "key x = k" by (simp_all add: lookup_iff)
  with assms(4) have "x \<noteq> e" by auto
  with x(1) have "x \<in> set es" using set_update_subset_insert[of es i e] by auto
  with x assms(1) have "slot_lookup live key k es = Some x" by (simp add: lookup_iff)
  with Some show ?thesis by simp
qed simp

text \<open>Writing a slot that holds another key, or is free, hides nothing else.\<close>

lemma lookup_update_kept:
  assumes "slot_uniq live key es" "slot_uniq live key (es[i := e])" "i < length es"
    "live e \<Longrightarrow> key e \<noteq> k" "live (es ! i) \<Longrightarrow> key (es ! i) \<noteq> k"
  shows "slot_lookup live key k (es[i := e]) = slot_lookup live key k es"
proof (cases "slot_lookup live key k es")
  case None
  with lookup_update_other[OF assms(1-4)] show ?thesis by simp
next
  case (Some x)
  with assms(1) have x: "x \<in> set es" "live x" "key x = k" by (simp_all add: lookup_iff)
  then obtain j where j: "j < length es" "x = es ! j" by (auto simp: in_set_conv_nth)
  with x assms(5) have "j \<noteq> i" by auto
  with j have "x \<in> set (es[i := e])" by (auto simp: in_set_conv_nth intro!: exI[of _ j])
  with x assms(2) Some show ?thesis by (simp add: lookup_iff)
qed

text \<open>Updates that keep every slot's flag and key, or retire it.\<close>

lemma uniq_map:
  assumes "slot_uniq live key es" "\<And>e. live (f e) \<Longrightarrow> live e" "\<And>e. live (f e) \<Longrightarrow> key (f e) = key e"
  shows "slot_uniq live key (map f es)"
  using assms unfolding slot_uniq_def by (metis length_map nth_map)

lemma lookup_map_same:
  assumes "\<And>e. live (f e) = live e" "\<And>e. key (f e) = key e"
  shows "slot_lookup live key k (map f es) = map_option f (slot_lookup live key k es)"
  unfolding slot_lookup_def by (induction es) (auto simp: assms)

lemma uniq_update_first:
  assumes "slot_uniq live key es" "\<And>e. live (f e) \<Longrightarrow> live e" "\<And>e. live (f e) \<Longrightarrow> key (f e) = key e"
  shows "slot_uniq live key (update_first P f es)"
proof (cases "position P es")
  case None
  with assms(1) show ?thesis by (simp add: update_first_position)
next
  case (Some i)
  then have "i < length es" by (simp add: position_SomeD)
  with assms have "slot_uniq live key (es[i := f (es ! i)])"
    by (intro uniq_update) (auto simp: slot_uniq_def)
  with Some show ?thesis by (simp add: update_first_position)
qed

lemma uniq_retire_first: "slot_uniq live key es \<Longrightarrow> slot_uniq live key (update_first P retire es)"
  by (rule uniq_update_first) (simp_all add: retire_dead)

lemma lookup_retire_first:
  assumes "slot_uniq live key es"
  shows "slot_lookup live key k' (update_first (\<lambda>e. live e \<and> key e = k) retire es) =
    (if k' = k then None else slot_lookup live key k' es)"
proof (cases "position (\<lambda>e. live e \<and> key e = k) es")
  case None
  then have "update_first (\<lambda>e. live e \<and> key e = k) retire es = es"
    by (simp add: update_first_position)
  with None show ?thesis by (auto simp: position_None_iff lookup_None_iff)
next
  case (Some i)
  then have i: "i < length es" "live (es ! i)" "key (es ! i) = k" by (auto dest: position_SomeD)
  let ?es = "es[i := retire (es ! i)]"
  have eq: "update_first (\<lambda>e. live e \<and> key e = k) retire es = ?es"
    using Some by (simp add: update_first_position)
  have u: "slot_uniq live key ?es"
    using uniq_update[OF assms, of i "retire (es ! i)"] by (simp add: retire_dead)
  show ?thesis
  proof (cases "k' = k")
    case True
    have "\<not> (live e \<and> key e = k)" if "e \<in> set ?es" for e
    proof -
      from that obtain j where j: "j < length es" "e = ?es ! j" by (auto simp: in_set_conv_nth)
      with i assms show ?thesis
        by (cases "j = i") (auto simp: retire_dead slot_uniq_def)
    qed
    with True show ?thesis by (auto simp: eq lookup_None_iff)
  next
    case False
    with i show ?thesis
      using lookup_update_kept[OF assms u i(1), of k'] by (simp add: eq retire_dead)
  qed
qed

end

section \<open>Lossy key/value tables\<close>

datatype ('k, 'v) cache_op = Ins 'k 'v | Del 'k

text \<open>The table after a sequence of operations, and the ideal map after the same sequence.\<close>

fun cache_run :: "('k \<Rightarrow> 'v \<Rightarrow> 't \<Rightarrow> 't) \<Rightarrow> ('k \<Rightarrow> 't \<Rightarrow> 't) \<Rightarrow> ('k, 'v) cache_op list \<Rightarrow> 't \<Rightarrow> 't" where
  "cache_run ins del [] t = t"
| "cache_run ins del (Ins k v # ops) t = cache_run ins del ops (ins k v t)"
| "cache_run ins del (Del k # ops) t = cache_run ins del ops (del k t)"

fun ideal_run :: "('v \<Rightarrow> 'w) \<Rightarrow> ('k, 'v) cache_op list \<Rightarrow> ('k \<rightharpoonup> 'w) \<Rightarrow> ('k \<rightharpoonup> 'w)" where
  "ideal_run norm [] m = m"
| "ideal_run norm (Ins k v # ops) m = ideal_run norm ops (m(k \<mapsto> norm v))"
| "ideal_run norm (Del k # ops) m = ideal_run norm ops (m(k := None))"

locale bounded_cache =
  fixes empty :: 't and lookup :: "'t \<Rightarrow> 'k \<Rightarrow> 'w option" and ins :: "'k \<Rightarrow> 'v \<Rightarrow> 't \<Rightarrow> 't"
    and del :: "'k \<Rightarrow> 't \<Rightarrow> 't" and norm :: "'v \<Rightarrow> 'w" and invar :: "'t \<Rightarrow> bool"
  assumes invar_empty: "invar empty"
    and invar_ins: "invar t \<Longrightarrow> invar (ins k v t)"
    and invar_del: "invar t \<Longrightarrow> invar (del k t)"
    and lookup_empty: "lookup empty k = None"
    and lookup_ins_same: "invar t \<Longrightarrow> lookup (ins k v t) k \<in> {None, Some (norm v)}"
    and lookup_ins_other: "invar t \<Longrightarrow> k' \<noteq> k \<Longrightarrow> lookup (ins k v t) k' \<in> {None, lookup t k'}"
    and lookup_del_same: "invar t \<Longrightarrow> lookup (del k t) k = None"
    and lookup_del_other: "invar t \<Longrightarrow> k' \<noteq> k \<Longrightarrow> lookup (del k t) k' \<in> {None, lookup t k'}"
begin

lemma invar_run: "invar t \<Longrightarrow> invar (cache_run ins del ops t)"
proof (induction ops arbitrary: t)
  case Nil
  then show ?case by simp
next
  case (Cons op ops)
  then show ?case by (cases op) (auto intro: invar_ins invar_del)
qed

lemma ins_le: "invar t \<Longrightarrow> lookup t \<subseteq>\<^sub>m m \<Longrightarrow> lookup (ins k v t) \<subseteq>\<^sub>m m(k \<mapsto> norm v)"
  using lookup_ins_same[of t k v] lookup_ins_other[of t _ k v]
  by (fastforce simp: map_le_def dom_def)

lemma del_le: "invar t \<Longrightarrow> lookup t \<subseteq>\<^sub>m m \<Longrightarrow> lookup (del k t) \<subseteq>\<^sub>m m(k := None)"
  using lookup_del_same[of t k] lookup_del_other[of t _ k]
  by (fastforce simp: map_le_def dom_def)

lemma run_le:
  "invar t \<Longrightarrow> lookup t \<subseteq>\<^sub>m m \<Longrightarrow> lookup (cache_run ins del ops t) \<subseteq>\<^sub>m ideal_run norm ops m"
proof (induction ops arbitrary: t m)
  case Nil
  then show ?case by simp
next
  case (Cons op ops)
  then show ?case by (cases op) (auto intro!: Cons.IH ins_le del_le invar_ins invar_del)
qed

text \<open>Every lookup returns the last value written for its key, or nothing.\<close>

lemma run_refines: "lookup (cache_run ins del ops empty) \<subseteq>\<^sub>m ideal_run norm ops Map.empty"
  by (rule run_le) (simp_all add: invar_empty lookup_empty map_le_def dom_def)

end

section \<open>One-second countdowns\<close>

locale countdown_slot =
  fixes live :: "'e \<Rightarrow> bool" and ttl :: "'e \<Rightarrow> u8" and tick :: "'e \<Rightarrow> 'e"
  assumes tick_dead: "\<not> live e \<Longrightarrow> tick e = e"
    and tick_ttl: "live e \<Longrightarrow> ttl (tick e) = sat_sub (ttl e) 1"
    and tick_live: "live e \<Longrightarrow> live (tick e) \<longleftrightarrow> ttl (tick e) \<noteq> 0"
begin

lemma dead_stays: "\<not> live e \<Longrightarrow> \<not> live ((tick ^^ n) e)"
  by (induction n) (auto simp: tick_dead)

text \<open>An occupied slot lives for exactly its remaining lifetime.\<close>

lemma live_after: "live e \<Longrightarrow> ttl e \<noteq> 0 \<Longrightarrow> live ((tick ^^ n) e) \<longleftrightarrow> n < unat (ttl e)"
proof (induction n arbitrary: e)
  case 0
  then show ?case by (simp add: unat_gt_0)
next
  case (Suc n)
  have ttl: "unat (ttl (tick e)) = unat (ttl e) - 1"
    using Suc.prems by (simp add: tick_ttl unat_sat_sub)
  show ?case
  proof (cases "ttl (tick e) = 0")
    case True
    then have "\<not> live (tick e)" using Suc.prems(1) by (simp add: tick_live)
    then have "\<not> live ((tick ^^ n) (tick e))" by (rule dead_stays)
    moreover have "unat (ttl e) \<le> 1" using ttl True by simp
    ultimately show ?thesis by (simp add: funpow_Suc_right del: funpow.simps)
  next
    case False
    then have "live (tick e)" using Suc.prems(1) by (simp add: tick_live)
    with False have "live ((tick ^^ n) (tick e)) \<longleftrightarrow> n < unat (ttl (tick e))" by (intro Suc.IH)
    then show ?thesis using ttl by (auto simp: funpow_Suc_right simp del: funpow.simps)
  qed
qed

end

text \<open>
  A table of such slots under a stream of events: \<open>is_tick\<close> events age every slot, any other
  event leaves a live slot live and takes no lifetime from it (in particular it never
  evicts).  \<open>keep\<close> is what is worth remembering about a slot while it lives: its key, say.
\<close>

locale no_evict_table = countdown_slot live ttl tick
  for live :: "'e \<Rightarrow> bool" and ttl :: "'e \<Rightarrow> u8" and tick :: "'e \<Rightarrow> 'e" +
  fixes keep :: "'e \<Rightarrow> bool" and step :: "'ev \<Rightarrow> 'e list \<Rightarrow> 'e list" and is_tick :: "'ev \<Rightarrow> bool"
    and invar :: "'e list \<Rightarrow> bool"
  assumes tick_keep: "keep e \<Longrightarrow> keep (tick e)"
    and step_tick: "is_tick ev \<Longrightarrow> step ev t = map tick t"
    and step_length: "length (step ev t) = length t"
    and step_invar: "invar t \<Longrightarrow> invar (step ev t)"
    and step_live: "invar t \<Longrightarrow> \<not> is_tick ev \<Longrightarrow> i < length t \<Longrightarrow> live (t ! i) \<Longrightarrow>
      live (step ev t ! i) \<and> ttl (t ! i) \<le> ttl (step ev t ! i)"
    and step_keep: "invar t \<Longrightarrow> \<not> is_tick ev \<Longrightarrow> i < length t \<Longrightarrow> live (t ! i) \<Longrightarrow> keep (t ! i) \<Longrightarrow>
      keep (step ev t ! i)"
begin

lemma run_length: "length (fold step evs t) = length t"
  by (induction evs arbitrary: t) (simp_all add: step_length)

lemma run_invar: "invar t \<Longrightarrow> invar (fold step evs t)"
  by (induction evs arbitrary: t) (simp_all add: step_invar)

text \<open>A live slot outlasts every event sequence with fewer ticks than its lifetime.\<close>

lemma survives:
  "invar t \<Longrightarrow> i < length t \<Longrightarrow> live (t ! i) \<Longrightarrow> keep (t ! i) \<Longrightarrow>
     length (filter is_tick evs) < unat (ttl (t ! i)) \<Longrightarrow>
     live (fold step evs t ! i) \<and> keep (fold step evs t ! i)"
proof (induction evs arbitrary: t)
  case Nil
  then show ?case by simp
next
  case (Cons ev evs)
  note inv = step_invar[OF Cons.prems(1), of ev]
  show ?case
  proof (cases "is_tick ev")
    case True
    have ttl: "unat (ttl (tick (t ! i))) = unat (ttl (t ! i)) - 1"
      using Cons.prems by (simp add: tick_ttl unat_sat_sub)
    with Cons.prems(5) True have "ttl (tick (t ! i)) \<noteq> 0" by auto
    then have "live (tick (t ! i))" using Cons.prems(3) by (simp add: tick_live)
    with Cons.IH[OF inv] Cons.prems True ttl show ?thesis
      by (simp add: step_tick tick_keep)
  next
    case False
    from step_live[OF Cons.prems(1) False Cons.prems(2,3)]
      step_keep[OF Cons.prems(1) False Cons.prems(2,3,4)] Cons.prems False
    show ?thesis using Cons.IH[OF inv] by (simp add: step_length word_le_nat_alt)
  qed
qed

end

section \<open>Replay guards\<close>

text \<open>
  A store of frame-counter floors.  Events are frames, with the domain (source and key) and the
  counter they claim, and whatever else changes the store; a step says whether the frame is accepted.  \<open>held\<close> is that a domain
  has a floor.  A provider shows that steps under which a domain is protected keep
  its floor, that accepting a frame records one, and that nothing at or below a held floor is accepted.
\<close>

locale replay_guard =
  fixes step :: "'ev \<Rightarrow> 's \<Rightarrow> bool \<times> 's" and frame :: "'ev \<Rightarrow> ('d \<times> 'c::linorder) option"
    and prot :: "'d \<Rightarrow> 'ev \<Rightarrow> bool" and invar :: "'s \<Rightarrow> bool" and held :: "'s \<Rightarrow> 'd \<Rightarrow> 'c \<Rightarrow> bool"
  assumes invar_step: "invar s \<Longrightarrow> invar (snd (step e s))"
    and held_step: "invar s \<Longrightarrow> prot d e \<Longrightarrow> held s d c \<Longrightarrow> held (snd (step e s)) d c"
    and records: "invar s \<Longrightarrow> frame e = Some (d, c) \<Longrightarrow> fst (step e s) \<Longrightarrow> held (snd (step e s)) d c"
    and above: "invar s \<Longrightarrow> held s d c \<Longrightarrow> frame e = Some (d, c') \<Longrightarrow> fst (step e s) \<Longrightarrow> c < c'"
begin

definition run :: "'ev list \<Rightarrow> 's \<Rightarrow> 's" where
  "run = fold (\<lambda>e s. snd (step e s))"

lemma run_held:
  "invar s \<Longrightarrow> list_all (prot d) evs \<Longrightarrow> held s d c \<Longrightarrow> invar (run evs s) \<and> held (run evs s) d c"
  unfolding run_def
proof (induction evs arbitrary: s)
  case (Cons e evs)
  with invar_step[of s e] held_step[of s d e c] show ?case by simp
qed simp

text \<open>After a frame is accepted, no history in which its domain stays protected makes an older or equal counter acceptable.\<close>

lemma no_replay:
  assumes "invar s" "frame e = Some (d, c)" "fst (step e s)" "list_all (prot d) evs"
    "frame e' = Some (d, c')" "fst (step e' (run evs (snd (step e s))))"
  shows "c < c'"
proof -
  from run_held[OF invar_step[OF assms(1)] assms(4) records[OF assms(1-3)]]
  show ?thesis using above[OF _ _ assms(5,6)] by blast
qed

end

section \<open>Wire codecs\<close>

locale wire_codec =
  fixes enc :: "'a \<Rightarrow> u8 list" and dec :: "u8 list \<Rightarrow> 'a option" and wf :: "'a \<Rightarrow> bool"
  assumes dec_enc: "wf x \<Longrightarrow> dec (enc x @ rest) = Some x"
begin

lemma dec_exact: "wf x \<Longrightarrow> dec (enc x) = Some x"
  using dec_enc[of x "[]"] by simp

text \<open>No encoding is a prefix of another: a frame has one reading, whatever follows it.\<close>

lemma prefix_free: "wf x \<Longrightarrow> wf y \<Longrightarrow> enc x @ r = enc y @ s \<Longrightarrow> x = y"
  by (metis dec_enc option.inject)

lemma enc_inj: "inj_on enc {x. wf x}"
  by (rule inj_onI) (metis mem_Collect_eq dec_exact option.inject)

end

end
