(* ===== verification/Source_Routes.thy ===== *)
theory Source_Routes
  imports Zb_Types Table_Interfaces
begin

text \<open>
  The source route table of \<^verbatim>\<open>zigbee-nwk/src/routing.rs\<close> (router build): relay paths a
  concentrator learned from Route Record commands.  The table is an array of
  \<open>MAX_SOURCE_ROUTES\<close> slots; a full table evicts its oldest path.  The theory also holds
  the concentrator type and the routing jitter mixer of the same file.
\<close>

section \<open>Concentrator type and jitter\<close>

datatype ConcentratorType = LowRam | HighRam

fun rreq_options :: "ConcentratorType \<Rightarrow> u8" where
  "rreq_options LowRam = 0x10"
| "rreq_options HighRam = 0x08"

definition from_rreq_options :: "u8 \<Rightarrow> ConcentratorType option" where
  "from_rreq_options options =
     (let m = drop_bit 3 options AND 0x03
      in if m = 1 then Some HighRam else if m = 2 then Some LowRam else None)"

definition routing_random_sample :: "u32 \<Rightarrow> u32" where
  "routing_random_sample seed =
     (let s1 = seed XOR 0xA511E9B3;
          s2 = s1 XOR push_bit 13 s1;
          s3 = s2 XOR drop_bit 17 s2
      in s3 XOR push_bit 5 s3)"

section \<open>The table\<close>

definition MAX_SOURCE_ROUTE_RELAYS :: nat where
  "MAX_SOURCE_ROUTE_RELAYS = 8"

definition MAX_SOURCE_ROUTES :: nat where
  "MAX_SOURCE_ROUTES = 32"

record SourceRouteEntry =
  sre_destination :: ShortAddress
  sre_relay_list :: "ShortAddress list"
  sre_age :: u16
  sre_active :: bool

definition SourceRouteEntry_empty :: SourceRouteEntry where
  "SourceRouteEntry_empty =
     \<lparr>sre_destination = 0xFFFF, sre_relay_list = [], sre_age = 0, sre_active = False\<rparr>"

text \<open>\<^verbatim>\<open>SourceRouteTable { entries: [SourceRouteEntry; MAX_SOURCE_ROUTES] }\<close>\<close>

type_synonym SourceRouteTable = "SourceRouteEntry list"

definition SourceRouteTable_new :: SourceRouteTable where
  "SourceRouteTable_new = replicate MAX_SOURCE_ROUTES SourceRouteEntry_empty"

text \<open>\<^verbatim>\<open>relay_list.clear(); for addr in relay_list.iter().take(MAX) { push }\<close>\<close>

definition refill_relays :: "ShortAddress list \<Rightarrow> ShortAddress list" where
  "refill_relays relays =
     fold (vec_push_ignore MAX_SOURCE_ROUTE_RELAYS) (take MAX_SOURCE_ROUTE_RELAYS relays) []"

abbreviation sre_for :: "ShortAddress \<Rightarrow> SourceRouteEntry \<Rightarrow> bool" where
  "sre_for d e \<equiv> sre_active e \<and> sre_destination e = d"

definition SourceRouteTable_insert ::
    "SourceRouteTable \<Rightarrow> ShortAddress \<Rightarrow> ShortAddress list \<Rightarrow> SourceRouteTable" where
  "SourceRouteTable_insert t destination relay_list =
     (case position (sre_for destination) t of
        Some i \<Rightarrow> t[i := (t ! i)\<lparr>sre_relay_list := refill_relays relay_list, sre_age := 0\<rparr>]
      | None \<Rightarrow>
          (case (case position (\<lambda>e. \<not> sre_active e) t of
                   Some i \<Rightarrow> Some i
                 | None \<Rightarrow> max_idx_by sre_active sre_age t) of
             None \<Rightarrow> t
           | Some i \<Rightarrow> t[i := (t ! i)\<lparr>sre_destination := destination,
               sre_relay_list := refill_relays relay_list, sre_age := 0, sre_active := True\<rparr>]))"

definition SourceRouteTable_lookup :: "SourceRouteTable \<Rightarrow> ShortAddress \<Rightarrow> ShortAddress list option" where
  "SourceRouteTable_lookup t destination = map_option sre_relay_list (find (sre_for destination) t)"

definition SourceRouteTable_entry_age :: "SourceRouteTable \<Rightarrow> ShortAddress \<Rightarrow> u16 option" where
  "SourceRouteTable_entry_age t destination = map_option sre_age (find (sre_for destination) t)"

definition SourceRouteTable_remove :: "SourceRouteTable \<Rightarrow> ShortAddress \<Rightarrow> SourceRouteTable" where
  "SourceRouteTable_remove t destination =
     update_first (sre_for destination) (\<lambda>e. e\<lparr>sre_active := False\<rparr>) t"

definition SourceRouteTable_note_used :: "SourceRouteTable \<Rightarrow> ShortAddress \<Rightarrow> SourceRouteTable" where
  "SourceRouteTable_note_used t destination =
     update_first (sre_for destination) (\<lambda>e. e\<lparr>sre_age := 0\<rparr>) t"

definition SourceRouteTable_age_and_expire :: "SourceRouteTable \<Rightarrow> u16 \<Rightarrow> u16 \<Rightarrow> SourceRouteTable" where
  "SourceRouteTable_age_and_expire t elapsed_secs max_age =
     map_if sre_active
       (\<lambda>e. let e' = e\<lparr>sre_age := sat_add (sre_age e) elapsed_secs\<rparr>
            in if sre_age e' > max_age then e'\<lparr>sre_active := False\<rparr> else e') t"

definition SourceRouteTable_age_by :: "SourceRouteTable \<Rightarrow> u16 \<Rightarrow> SourceRouteTable" where
  "SourceRouteTable_age_by t elapsed_secs =
     map_if sre_active (\<lambda>e. e\<lparr>sre_age := sat_add (sre_age e) elapsed_secs\<rparr>) t"

definition SourceRouteTable_len :: "SourceRouteTable \<Rightarrow> nat" where
  "SourceRouteTable_len t = length (filter sre_active t)"

definition SourceRouteTable_is_empty :: "SourceRouteTable \<Rightarrow> bool" where
  "SourceRouteTable_is_empty t \<longleftrightarrow> SourceRouteTable_len t = 0"

text \<open>
  The table invariant: full array length, no two live entries for one destination, relay
  lists within their vector's capacity.
\<close>

definition srt_wf :: "SourceRouteTable \<Rightarrow> bool" where
  "srt_wf t \<longleftrightarrow> length t = MAX_SOURCE_ROUTES \<and> slot_uniq sre_active sre_destination t \<and>
     (\<forall>e\<in>set t. length (sre_relay_list e) \<le> MAX_SOURCE_ROUTE_RELAYS)"

section \<open>Lemmas\<close>

interpretation srt: slot_array sre_active sre_destination "\<lambda>e. e\<lparr>sre_active := False\<rparr>"
  by unfold_locales simp

lemma fold_push_ignore:
  "length acc + length xs \<le> cap \<Longrightarrow> fold (vec_push_ignore cap) xs acc = acc @ xs"
  by (induction xs arbitrary: acc) (auto simp: vec_push_ignore_def)

lemma refill_relays_take: "refill_relays relays = take MAX_SOURCE_ROUTE_RELAYS relays"
  unfolding refill_relays_def by (subst fold_push_ignore) simp_all

text \<open>Where an insertion writes, and what it writes there.\<close>

lemma srt_insert_cases:
  assumes "length t = MAX_SOURCE_ROUTES"
  obtains i e where "i < length t" "SourceRouteTable_insert t d rl = t[i := e]"
    "sre_active e" "sre_destination e = d" "sre_relay_list e = take MAX_SOURCE_ROUTE_RELAYS rl"
    "sre_age e = 0" "sre_for d (t ! i) \<or> (\<forall>x\<in>set t. \<not> sre_for d x)"
proof (cases "position (sre_for d) t")
  case (Some i)
  from position_SomeD[OF Some] Some show ?thesis
    by (intro that[of i "(t ! i)\<lparr>sre_relay_list := refill_relays rl, sre_age := 0\<rparr>"])
      (auto simp: SourceRouteTable_insert_def refill_relays_take)
next
  case None
  have "\<exists>i. (case position (\<lambda>e. \<not> sre_active e) t of Some i \<Rightarrow> Some i
      | None \<Rightarrow> max_idx_by sre_active sre_age t) = Some i \<and> i < length t"
  proof (cases "position (\<lambda>e. \<not> sre_active e) t")
    case (Some i)
    then show ?thesis by (auto dest: position_SomeD)
  next
    case 2: None
    have "hd t \<in> set t" using assms by (cases t) (auto simp: MAX_SOURCE_ROUTES_def)
    with 2 have "max_idx_by sre_active sre_age t \<noteq> None"
      by (auto simp: position_None_iff max_idx_by_None_iff)
    then show ?thesis using 2 by (auto dest: max_idx_by_SomeD(1))
  qed
  then obtain i where i: "(case position (\<lambda>e. \<not> sre_active e) t of Some i \<Rightarrow> Some i
      | None \<Rightarrow> max_idx_by sre_active sre_age t) = Some i" "i < length t" by blast
  have nf: "\<forall>x\<in>set t. \<not> sre_for d x" using None by (simp add: position_None_iff)
  with None i show ?thesis
    by (intro that[of i "(t ! i)\<lparr>sre_destination := d, sre_relay_list := refill_relays rl,
        sre_age := 0, sre_active := True\<rparr>"])
      (auto simp: SourceRouteTable_insert_def refill_relays_take)
qed

lemma srt_wf_new [wf_intros]: "srt_wf SourceRouteTable_new"
  by (auto simp: srt_wf_def SourceRouteTable_new_def SourceRouteEntry_empty_def slot_uniq_def)

lemma srt_uniq_insert:
  assumes "srt_wf t"
  shows "slot_uniq sre_active sre_destination (SourceRouteTable_insert t d rl)"
proof -
  from assms have len: "length t = MAX_SOURCE_ROUTES" and u: "slot_uniq sre_active sre_destination t"
    by (simp_all add: srt_wf_def)
  from len show ?thesis
  proof (rule srt_insert_cases[of _ d rl])
    fix i e
    assume i: "i < length t" and e: "SourceRouteTable_insert t d rl = t[i := e]"
      "sre_active e" "sre_destination e = d" "sre_for d (t ! i) \<or> (\<forall>x\<in>set t. \<not> sre_for d x)"
    have "sre_destination (t ! j) \<noteq> d" if "j < length t" "j \<noteq> i" "sre_active (t ! j)" for j
      using that e(4) u i by (auto simp: slot_uniq_def)
    with e u show ?thesis by (auto intro: srt.uniq_update)
  qed
qed

lemma srt_wf_insert [wf_intros]: "srt_wf t \<Longrightarrow> srt_wf (SourceRouteTable_insert t d rl)"
proof -
  assume wf: "srt_wf t"
  then have "length t = MAX_SOURCE_ROUTES" by (simp add: srt_wf_def)
  then show ?thesis
  proof (rule srt_insert_cases[of _ d rl])
    fix i e
    assume "SourceRouteTable_insert t d rl = t[i := e]"
      "sre_relay_list e = take MAX_SOURCE_ROUTE_RELAYS rl"
    with wf srt_uniq_insert[OF wf, of d rl] show ?thesis
      using set_update_subset_insert[of t i e] by (auto simp: srt_wf_def)
  qed
qed

lemma srt_wf_remove [wf_intros]: "srt_wf t \<Longrightarrow> srt_wf (SourceRouteTable_remove t d)"
  using set_update_first[of "sre_for d" "\<lambda>e. e\<lparr>sre_active := False\<rparr>" t]
  by (fastforce simp: srt_wf_def SourceRouteTable_remove_def intro: srt.uniq_retire_first)

lemma srt_wf_note_used [wf_intros]: "srt_wf t \<Longrightarrow> srt_wf (SourceRouteTable_note_used t d)"
  using set_update_first[of "sre_for d" "\<lambda>e. e\<lparr>sre_age := 0\<rparr>" t]
  by (fastforce simp: srt_wf_def SourceRouteTable_note_used_def intro: srt.uniq_update_first)

lemma srt_wf_age_and_expire [wf_intros]:
  "srt_wf t \<Longrightarrow> srt_wf (SourceRouteTable_age_and_expire t s m)"
  unfolding srt_wf_def SourceRouteTable_age_and_expire_def map_if_def
  by (auto simp: Let_def intro!: srt.uniq_map split: if_splits)

lemma srt_wf_age_by [wf_intros]: "srt_wf t \<Longrightarrow> srt_wf (SourceRouteTable_age_by t s)"
  unfolding srt_wf_def SourceRouteTable_age_by_def map_if_def
  by (auto intro!: srt.uniq_map split: if_splits)

lemma srt_lookup_slot:
  "SourceRouteTable_lookup t d = map_option sre_relay_list (slot_lookup sre_active sre_destination d t)"
  by (simp add: SourceRouteTable_lookup_def slot_lookup_def)

lemma srt_lookup_insert_same:
  assumes "srt_wf t"
  shows "SourceRouteTable_lookup (SourceRouteTable_insert t d rl) d =
    Some (take MAX_SOURCE_ROUTE_RELAYS rl)"
proof -
  from assms have "length t = MAX_SOURCE_ROUTES" by (simp add: srt_wf_def)
  then show ?thesis
  proof (rule srt_insert_cases[of _ d rl])
    fix i e
    assume "i < length t" "SourceRouteTable_insert t d rl = t[i := e]" "sre_active e"
      "sre_destination e = d" "sre_relay_list e = take MAX_SOURCE_ROUTE_RELAYS rl"
    then show ?thesis
      using srt.lookup_update_same[of t i e] srt_uniq_insert[OF assms, of d rl]
      by (simp add: srt_lookup_slot)
  qed
qed

lemma srt_lookup_insert_other:
  assumes "srt_wf t" "d' \<noteq> d"
  shows "SourceRouteTable_lookup (SourceRouteTable_insert t d rl) d' \<in>
    {None, SourceRouteTable_lookup t d'}"
proof -
  from assms have "length t = MAX_SOURCE_ROUTES" by (simp add: srt_wf_def)
  then show ?thesis
  proof (rule srt_insert_cases[of _ d rl])
    fix i e
    assume "i < length t" "SourceRouteTable_insert t d rl = t[i := e]" "sre_destination e = d"
    with assms show ?thesis
      using srt.lookup_update_other[of t i e d'] srt_uniq_insert[OF assms(1), of d rl]
      by (auto simp: srt_lookup_slot srt_wf_def)
  qed
qed

interpretation srt_cache: bounded_cache SourceRouteTable_new SourceRouteTable_lookup
  "\<lambda>d rl t. SourceRouteTable_insert t d rl" "\<lambda>d t. SourceRouteTable_remove t d"
  "take MAX_SOURCE_ROUTE_RELAYS" srt_wf
proof
  fix t k k' and v :: "ShortAddress list"
  show "srt_wf SourceRouteTable_new" by (rule srt_wf_new)
  show "srt_wf t \<Longrightarrow> srt_wf (SourceRouteTable_insert t k v)" by (rule srt_wf_insert)
  show "srt_wf t \<Longrightarrow> srt_wf (SourceRouteTable_remove t k)" by (rule srt_wf_remove)
  show "SourceRouteTable_lookup SourceRouteTable_new k = None"
    by (simp add: SourceRouteTable_lookup_def SourceRouteTable_new_def SourceRouteEntry_empty_def
        find_None_iff)
  show "srt_wf t \<Longrightarrow> SourceRouteTable_lookup (SourceRouteTable_insert t k v) k \<in>
      {None, Some (take MAX_SOURCE_ROUTE_RELAYS v)}"
    by (simp add: srt_lookup_insert_same)
  show "srt_wf t \<Longrightarrow> k' \<noteq> k \<Longrightarrow> SourceRouteTable_lookup (SourceRouteTable_insert t k v) k' \<in>
      {None, SourceRouteTable_lookup t k'}"
    by (rule srt_lookup_insert_other)
  show "srt_wf t \<Longrightarrow> SourceRouteTable_lookup (SourceRouteTable_remove t k) k = None"
    by (simp add: srt_lookup_slot SourceRouteTable_remove_def srt.lookup_retire_first srt_wf_def)
  show "srt_wf t \<Longrightarrow> k' \<noteq> k \<Longrightarrow> SourceRouteTable_lookup (SourceRouteTable_remove t k) k' \<in>
      {None, SourceRouteTable_lookup t k'}"
    by (simp add: srt_lookup_slot SourceRouteTable_remove_def srt.lookup_retire_first srt_wf_def)
qed

lemma srt_insert_evicts:
  assumes wf: "srt_wf t" and ne: "d' \<noteq> d"
    and ch: "SourceRouteTable_lookup (SourceRouteTable_insert t d rl) d' \<noteq> SourceRouteTable_lookup t d'"
  shows "(\<forall>e\<in>set t. sre_active e \<and> sre_destination e \<noteq> d) \<and>
    (\<exists>e\<in>set t. sre_destination e = d' \<and> (\<forall>x\<in>set t. sre_age x \<le> sre_age e))"
proof -
  have u: "slot_uniq sre_active sre_destination t" using wf by (simp add: srt_wf_def)
  have u': "slot_uniq sre_active sre_destination (SourceRouteTable_insert t d rl)"
    by (rule srt_uniq_insert[OF wf])
  have keep: "\<not> (i < length t \<and> SourceRouteTable_insert t d rl = t[i := e] \<and>
      sre_destination e = d \<and> \<not> sre_for d' (t ! i))" for i e
  proof
    assume a: "i < length t \<and> SourceRouteTable_insert t d rl = t[i := e] \<and>
      sre_destination e = d \<and> \<not> sre_for d' (t ! i)"
    then have "slot_lookup sre_active sre_destination d' (t[i := e]) =
        slot_lookup sre_active sre_destination d' t"
      using u' ne by (intro srt.lookup_update_kept[OF u]) auto
    with a ch show False by (simp add: srt_lookup_slot)
  qed
  have none: "position (sre_for d) t = None"
  proof (cases "position (sre_for d) t")
    case (Some i)
    from position_SomeD[OF Some] keep[of i "(t ! i)\<lparr>sre_relay_list := refill_relays rl, sre_age := 0\<rparr>"]
    show ?thesis using Some ne by (auto simp: SourceRouteTable_insert_def)
  qed simp
  let ?new = "\<lambda>i. (t ! i)\<lparr>sre_destination := d, sre_relay_list := refill_relays rl,
      sre_age := 0, sre_active := True\<rparr>"
  have full: "position (\<lambda>e. \<not> sre_active e) t = None"
  proof (cases "position (\<lambda>e. \<not> sre_active e) t")
    case (Some i)
    from position_SomeD[OF Some] keep[of i "?new i"] none Some
    show ?thesis by (auto simp: SourceRouteTable_insert_def)
  qed simp
  then have act: "\<forall>e\<in>set t. sre_active e" by (simp add: position_None_iff)
  then obtain i where i: "max_idx_by sre_active sre_age t = Some i"
    using full none ch by (fastforce simp: SourceRouteTable_insert_def)
  note mx = max_idx_by_SomeD[OF i]
  have "sre_destination (t ! i) = d'"
    using keep[of i "?new i"] mx(1) i none full act
    by (auto simp: SourceRouteTable_insert_def)
  then have "\<exists>e\<in>set t. sre_destination e = d' \<and> (\<forall>x\<in>set t. sre_age x \<le> sre_age e)"
    using mx act by (intro bexI[of _ "t ! i"]) auto
  with act none show ?thesis by (auto simp: position_None_iff)
qed

text \<open>
  A recorded source route is what the next lookup of its destination returns (the first
  eight relays), and recording it makes another destination's route unavailable only when
  every slot is taken by another destination and that route is the oldest of the table.
\<close>

theorem source_route_insert_spec:
  assumes "srt_wf t"
  shows "SourceRouteTable_lookup (SourceRouteTable_insert t d rl) d = Some (take MAX_SOURCE_ROUTE_RELAYS rl) \<and>
    (\<forall>d'. d' \<noteq> d \<longrightarrow>
       SourceRouteTable_lookup (SourceRouteTable_insert t d rl) d' = SourceRouteTable_lookup t d' \<or>
       (\<forall>e\<in>set t. sre_active e \<and> sre_destination e \<noteq> d) \<and>
       (\<exists>e\<in>set t. sre_destination e = d' \<and> (\<forall>x\<in>set t. sre_age x \<le> sre_age e)))"
  using srt_lookup_insert_same[OF assms] srt_insert_evicts[OF assms] by metis

theorem source_route_insert_spec_witness:
  "SourceRouteTable_lookup (SourceRouteTable_insert SourceRouteTable_new 5 [1, 2]) 5 = Some [1, 2]"
  using source_route_insert_spec[OF srt_wf_new, of 5 "[1, 2]"]
  by (simp add: MAX_SOURCE_ROUTE_RELAYS_def)

text \<open>
  C29: over any sequence of recordings and removals, a lookup in the bounded source route
  table returns the last path recorded for the destination (cut to eight relays) or nothing:
  the table refines the ideal map from destinations to paths.
\<close>

theorem source_route_cache_refines:
  "SourceRouteTable_lookup (cache_run (\<lambda>d rl t. SourceRouteTable_insert t d rl)
       (\<lambda>d t. SourceRouteTable_remove t d) ops SourceRouteTable_new)
     \<subseteq>\<^sub>m ideal_run (take MAX_SOURCE_ROUTE_RELAYS) ops Map.empty"
  by (rule srt_cache.run_refines)

end
