(* ===== verification/Routing_Table.thy ===== *)
theory Routing_Table
  imports Source_Routes
begin

text \<open>
  The routing and route discovery tables of \<^verbatim>\<open>zigbee-nwk/src/routing.rs\<close> (router build):
  route entries with their status, slot reclamation, many-to-one routes and their
  tombstones, route discoveries and their timeout, and the tree-addressing helper.
\<close>

section \<open>Data\<close>

definition MAX_ROUTES :: nat where "MAX_ROUTES = 32"
definition MAX_ROUTE_DISCOVERIES :: nat where "MAX_ROUTE_DISCOVERIES = 8"
definition ROUTE_EXPIRY_SECS :: u16 where "ROUTE_EXPIRY_SECS = 600"
definition ROUTE_EVICTION_MIN_AGE_SECS :: u16 where "ROUTE_EVICTION_MIN_AGE_SECS = 10"
definition ROUTE_DISCOVERY_TIMEOUT_US :: u32 where "ROUTE_DISCOVERY_TIMEOUT_US = 10000000"

datatype RouteStatus = RsActive | DiscoveryUnderway | DiscoveryFailed | RsInactive | ValidationUnderway

record RouteEntry =
  re_destination :: ShortAddress
  re_next_hop :: ShortAddress
  re_status :: RouteStatus
  re_many_to_one :: bool
  re_route_record_required :: bool
  re_route_record_every_frame :: bool
  re_group_id :: bool
  re_path_cost :: u8
  re_age :: u16
  re_active :: bool

definition RouteEntry_empty :: RouteEntry where
  "RouteEntry_empty = \<lparr>re_destination = 0xFFFF, re_next_hop = 0xFFFF, re_status = RsInactive,
     re_many_to_one = False, re_route_record_required = False,
     re_route_record_every_frame = False, re_group_id = False, re_path_cost = 0xFF,
     re_age = 0, re_active = False\<rparr>"

record RouteDiscovery =
  rd_request_id :: u8
  rd_originator :: ShortAddress
  rd_destination :: ShortAddress
  rd_sender :: ShortAddress
  rd_forward_cost :: u8
  rd_residual_cost :: u8
  rd_timestamp :: u32
  rd_active :: bool

definition RouteDiscovery_empty :: RouteDiscovery where
  "RouteDiscovery_empty = \<lparr>rd_request_id = 0, rd_originator = 0xFFFF, rd_destination = 0xFFFF,
     rd_sender = 0xFFFF, rd_forward_cost = 0xFF, rd_residual_cost = 0xFF, rd_timestamp = 0,
     rd_active = False\<rparr>"

record RoutingTable =
  rt_routes :: "RouteEntry list"
  rt_discoveries :: "RouteDiscovery list"

definition RoutingTable_new :: RoutingTable where
  "RoutingTable_new = \<lparr>rt_routes = replicate MAX_ROUTES RouteEntry_empty,
     rt_discoveries = replicate MAX_ROUTE_DISCOVERIES RouteDiscovery_empty\<rparr>"

section \<open>Routes\<close>

abbreviation re_for :: "ShortAddress \<Rightarrow> RouteEntry \<Rightarrow> bool" where
  "re_for d r \<equiv> re_active r \<and> re_destination r = d"

definition RoutingTable_next_hop :: "RoutingTable \<Rightarrow> ShortAddress \<Rightarrow> ShortAddress option" where
  "RoutingTable_next_hop t destination =
     map_option re_next_hop (find (\<lambda>r. re_active r \<and> re_destination r = destination
       \<and> re_status r = RsActive) (rt_routes t))"

text \<open>The four reclamation stages of \<^verbatim>\<open>reclaim_slot\<close>, as the index it picks.\<close>

abbreviation free_plain :: "RouteEntry \<Rightarrow> bool" where
  "free_plain r \<equiv> \<not> re_active r \<and> \<not> re_many_to_one r"

abbreviation dead_status :: "RouteEntry \<Rightarrow> bool" where
  "dead_status r \<equiv> re_active r \<and> re_status r \<noteq> RsActive"

abbreviation idle_normal :: "RouteEntry \<Rightarrow> bool" where
  "idle_normal r \<equiv> re_active r \<and> re_status r = RsActive \<and> \<not> re_many_to_one r
     \<and> re_age r \<ge> ROUTE_EVICTION_MIN_AGE_SECS"

definition or_else :: "'a option \<Rightarrow> 'a option \<Rightarrow> 'a option" where
  "or_else a b = (case a of Some x \<Rightarrow> Some x | None \<Rightarrow> b)"

definition reclaim_slot :: "RouteEntry list \<Rightarrow> nat option" where
  "reclaim_slot routes =
     or_else (position free_plain routes)
       (or_else (max_idx_by dead_status re_age routes)
         (or_else (max_idx_by idle_normal re_age routes)
           (position (\<lambda>r. \<not> re_active r) routes)))"

definition new_route :: "ShortAddress \<Rightarrow> ShortAddress \<Rightarrow> u8 \<Rightarrow> RouteEntry" where
  "new_route destination next_hop cost =
     \<lparr>re_destination = destination, re_next_hop = next_hop, re_status = RsActive,
      re_many_to_one = False, re_route_record_required = False,
      re_route_record_every_frame = False, re_group_id = False, re_path_cost = cost,
      re_age = 0, re_active = True\<rparr>"

text \<open>\<^term>\<open>None\<close> is \<^verbatim>\<open>Err(())\<close>: no slot could be reclaimed and the table is unchanged.\<close>

definition RoutingTable_update_route ::
    "RoutingTable \<Rightarrow> ShortAddress \<Rightarrow> ShortAddress \<Rightarrow> u8 \<Rightarrow> RoutingTable option" where
  "RoutingTable_update_route t destination next_hop cost =
     (case position (re_for destination) (rt_routes t) of
        Some i \<Rightarrow> Some (t\<lparr>rt_routes := (rt_routes t)[i := (rt_routes t ! i)
            \<lparr>re_next_hop := next_hop, re_path_cost := cost, re_status := RsActive, re_age := 0\<rparr>]\<rparr>)
      | None \<Rightarrow>
          (case reclaim_slot (rt_routes t) of
             None \<Rightarrow> None
           | Some i \<Rightarrow> Some (t\<lparr>rt_routes := (rt_routes t)[i := new_route destination next_hop cost]\<rparr>)))"

definition RoutingTable_note_used :: "RoutingTable \<Rightarrow> ShortAddress \<Rightarrow> ShortAddress \<Rightarrow> RoutingTable" where
  "RoutingTable_note_used t destination next_hop = t\<lparr>rt_routes :=
     update_first (\<lambda>r. re_active r \<and> re_status r = RsActive \<and> re_destination r = destination
       \<and> re_next_hop r = next_hop) (\<lambda>r. r\<lparr>re_age := 0\<rparr>) (rt_routes t)\<rparr>"

definition RoutingTable_mark_discovery :: "RoutingTable \<Rightarrow> ShortAddress \<Rightarrow> RoutingTable" where
  "RoutingTable_mark_discovery t destination = t\<lparr>rt_routes :=
     update_first (re_for destination) (\<lambda>r. r\<lparr>re_status := DiscoveryUnderway\<rparr>) (rt_routes t)\<rparr>"

abbreviation retire_route :: "RouteEntry \<Rightarrow> RouteEntry" where
  "retire_route r \<equiv> r\<lparr>re_active := False, re_status := RsInactive\<rparr>"

definition RoutingTable_remove :: "RoutingTable \<Rightarrow> ShortAddress \<Rightarrow> RoutingTable" where
  "RoutingTable_remove t destination = t\<lparr>rt_routes :=
     update_first (re_for destination) retire_route (rt_routes t)\<rparr>"

definition RoutingTable_remove_through :: "RoutingTable \<Rightarrow> ShortAddress \<Rightarrow> RoutingTable" where
  "RoutingTable_remove_through t addr = t\<lparr>rt_routes :=
     map_if (\<lambda>r. re_active r \<and> \<not> re_many_to_one r
         \<and> (re_destination r = addr \<or> re_next_hop r = addr)) retire_route (rt_routes t)\<rparr>"

definition RoutingTable_age_by :: "RoutingTable \<Rightarrow> u16 \<Rightarrow> RoutingTable" where
  "RoutingTable_age_by t elapsed_secs = t\<lparr>rt_routes :=
     map_if re_active (\<lambda>r. r\<lparr>re_age := sat_add (re_age r) elapsed_secs\<rparr>) (rt_routes t)\<rparr>"

definition RoutingTable_len :: "RoutingTable \<Rightarrow> nat" where
  "RoutingTable_len t = length (filter re_active (rt_routes t))"

definition RoutingTable_is_empty :: "RoutingTable \<Rightarrow> bool" where
  "RoutingTable_is_empty t \<longleftrightarrow> RoutingTable_len t = 0"

definition RoutingTable_get_entry :: "RoutingTable \<Rightarrow> ShortAddress \<Rightarrow> RouteEntry option" where
  "RoutingTable_get_entry t destination =
     find (\<lambda>r. re_active r \<and> re_destination r = destination \<and> re_status r = RsActive) (rt_routes t)"

definition RoutingTable_has_failed_many_to_one :: "RoutingTable \<Rightarrow> ShortAddress \<Rightarrow> bool" where
  "RoutingTable_has_failed_many_to_one t destination =
     (if RoutingTable_get_entry t destination \<noteq> None then False
      else list_ex (\<lambda>r. \<not> re_active r \<and> re_destination r = destination \<and> re_many_to_one r) (rt_routes t))"

definition RoutingTable_update_route_many_to_one ::
    "RoutingTable \<Rightarrow> ShortAddress \<Rightarrow> ShortAddress \<Rightarrow> u8 \<Rightarrow> ConcentratorType \<Rightarrow> RoutingTable option" where
  "RoutingTable_update_route_many_to_one t destination next_hop cost concentrator_type =
     (let no_route_cache = (concentrator_type = LowRam) in
      case position (\<lambda>r. re_destination r = destination) (rt_routes t) of
        Some i \<Rightarrow>
          let entry = rt_routes t ! i;
              new_or_changed_path = (\<not> re_active entry \<or> re_next_hop entry \<noteq> next_hop)
          in Some (t\<lparr>rt_routes := (rt_routes t)[i := entry
               \<lparr>re_next_hop := next_hop, re_path_cost := cost, re_status := RsActive,
                re_many_to_one := True, re_route_record_every_frame := no_route_cache,
                re_route_record_required :=
                  (if no_route_cache \<or> new_or_changed_path then True
                   else re_route_record_required entry),
                re_age := 0, re_active := True\<rparr>]\<rparr>)
      | None \<Rightarrow>
          (case reclaim_slot (rt_routes t) of
             None \<Rightarrow> None
           | Some i \<Rightarrow> Some (t\<lparr>rt_routes := (rt_routes t)[i := (new_route destination next_hop cost)
               \<lparr>re_many_to_one := True, re_route_record_required := True,
                re_route_record_every_frame := no_route_cache\<rparr>]\<rparr>)))"

definition RoutingTable_clear_route_record_required :: "RoutingTable \<Rightarrow> ShortAddress \<Rightarrow> RoutingTable" where
  "RoutingTable_clear_route_record_required t destination = t\<lparr>rt_routes :=
     update_first (re_for destination)
       (\<lambda>r. if \<not> re_route_record_every_frame r then r\<lparr>re_route_record_required := False\<rparr> else r)
       (rt_routes t)\<rparr>"

definition RoutingTable_iter :: "RoutingTable \<Rightarrow> RouteEntry list" where
  "RoutingTable_iter t = filter re_active (rt_routes t)"

definition RoutingTable_expire_stale :: "RoutingTable \<Rightarrow> u16 \<Rightarrow> RoutingTable" where
  "RoutingTable_expire_stale t max_age = t\<lparr>rt_routes :=
     map_if (\<lambda>r. re_active r \<and> \<not> re_many_to_one r \<and> re_status r \<noteq> DiscoveryUnderway)
       (\<lambda>r. if re_age r > max_age then retire_route r else r) (rt_routes t)\<rparr>"

section \<open>Route discoveries\<close>

abbreviation rd_for :: "ShortAddress \<Rightarrow> u8 \<Rightarrow> RouteDiscovery \<Rightarrow> bool" where
  "rd_for originator request_id d \<equiv>
     rd_active d \<and> rd_originator d = originator \<and> rd_request_id d = request_id"

definition RoutingTable_add_discovery :: "RoutingTable \<Rightarrow> RouteDiscovery \<Rightarrow> RoutingTable option" where
  "RoutingTable_add_discovery t discovery =
     (case position (\<lambda>d. \<not> rd_active d) (rt_discoveries t) of
        Some i \<Rightarrow> Some (t\<lparr>rt_discoveries := (rt_discoveries t)[i := discovery\<lparr>rd_active := True\<rparr>]\<rparr>)
      | None \<Rightarrow> None)"

definition RoutingTable_discoveries :: "RoutingTable \<Rightarrow> RouteDiscovery list" where
  "RoutingTable_discoveries t = filter rd_active (rt_discoveries t)"

definition RoutingTable_find_discovery_for ::
    "RoutingTable \<Rightarrow> ShortAddress \<Rightarrow> u8 \<Rightarrow> RouteDiscovery option" where
  "RoutingTable_find_discovery_for t originator request_id =
     find (rd_for originator request_id) (rt_discoveries t)"

definition RoutingTable_complete_discovery_for ::
    "RoutingTable \<Rightarrow> ShortAddress \<Rightarrow> u8 \<Rightarrow> RoutingTable" where
  "RoutingTable_complete_discovery_for t originator request_id = t\<lparr>rt_discoveries :=
     update_first (rd_for originator request_id) (\<lambda>d. d\<lparr>rd_active := False\<rparr>) (rt_discoveries t)\<rparr>"

definition RoutingTable_find_discovery :: "RoutingTable \<Rightarrow> u8 \<Rightarrow> RouteDiscovery option" where
  "RoutingTable_find_discovery t request_id =
     find (\<lambda>d. rd_active d \<and> rd_request_id d = request_id) (rt_discoveries t)"

definition RoutingTable_has_active_discovery :: "RoutingTable \<Rightarrow> ShortAddress \<Rightarrow> bool" where
  "RoutingTable_has_active_discovery t destination =
     list_ex (\<lambda>d. rd_active d \<and> rd_destination d = destination) (rt_discoveries t)"

text \<open>\<^verbatim>\<open>fail_discovery_entry\<close>: its effect on the routes; the discovery itself goes inactive.\<close>

definition fail_discovery_route :: "RouteDiscovery \<Rightarrow> RouteEntry list \<Rightarrow> RouteEntry list" where
  "fail_discovery_route disc routes =
     update_first (\<lambda>r. re_destination r = rd_destination disc \<and> re_status r = DiscoveryUnderway)
       (\<lambda>r. r\<lparr>re_status := DiscoveryFailed\<rparr>) routes"

definition fail_discovery_at :: "RoutingTable \<Rightarrow> nat \<Rightarrow> RoutingTable" where
  "fail_discovery_at t i =
     (let disc = rt_discoveries t ! i
      in t\<lparr>rt_discoveries := (rt_discoveries t)[i := disc\<lparr>rd_active := False\<rparr>],
           rt_routes := fail_discovery_route disc (rt_routes t)\<rparr>)"

definition RoutingTable_fail_discovery :: "RoutingTable \<Rightarrow> u8 \<Rightarrow> RoutingTable" where
  "RoutingTable_fail_discovery t request_id =
     (case position (\<lambda>d. rd_active d \<and> rd_request_id d = request_id) (rt_discoveries t) of
        None \<Rightarrow> t | Some i \<Rightarrow> fail_discovery_at t i)"

definition RoutingTable_fail_discovery_for :: "RoutingTable \<Rightarrow> ShortAddress \<Rightarrow> u8 \<Rightarrow> RoutingTable" where
  "RoutingTable_fail_discovery_for t originator request_id =
     (case position (rd_for originator request_id) (rt_discoveries t) of
        None \<Rightarrow> t | Some i \<Rightarrow> fail_discovery_at t i)"

definition RoutingTable_complete_discovery :: "RoutingTable \<Rightarrow> u8 \<Rightarrow> RoutingTable" where
  "RoutingTable_complete_discovery t request_id = t\<lparr>rt_discoveries :=
     update_first (\<lambda>d. rd_active d \<and> rd_request_id d = request_id)
       (\<lambda>d. d\<lparr>rd_active := False\<rparr>) (rt_discoveries t)\<rparr>"

text \<open>The loop of \<^verbatim>\<open>expire_discoveries\<close>: each timed-out discovery also fails its route.\<close>

fun expire_loop :: "u32 \<Rightarrow> u32 \<Rightarrow> RouteDiscovery list \<Rightarrow> RouteEntry list \<Rightarrow>
    RouteDiscovery list \<times> RouteEntry list" where
  "expire_loop max_age now [] routes = ([], routes)"
| "expire_loop max_age now (d # ds) routes =
     (if rd_active d \<and> now - rd_timestamp d > max_age
      then let (ds', routes') = expire_loop max_age now ds (fail_discovery_route d routes)
           in (d\<lparr>rd_active := False\<rparr> # ds', routes')
      else let (ds', routes') = expire_loop max_age now ds routes in (d # ds', routes'))"

definition RoutingTable_expire_discoveries :: "RoutingTable \<Rightarrow> u32 \<Rightarrow> u32 \<Rightarrow> RoutingTable" where
  "RoutingTable_expire_discoveries t max_age current_time =
     (let (ds, routes) = expire_loop max_age current_time (rt_discoveries t) (rt_routes t)
      in t\<lparr>rt_discoveries := ds, rt_routes := routes\<rparr>)"

section \<open>Tree addressing\<close>

definition checked_u32 :: "nat \<Rightarrow> nat option" where
  "checked_u32 v = (if v < 2 ^ 32 then Some v else None)"

text \<open>
  The \<^verbatim>\<open>u32\<close> computation of \<^verbatim>\<open>cskip_value\<close> on naturals, every checked step explicit.
  \<^verbatim>\<open>checked_pow\<close> fails exactly when the power itself leaves the \<^verbatim>\<open>u32\<close> range.
\<close>

definition cskip_value :: "u8 \<Rightarrow> u8 \<Rightarrow> u8 \<Rightarrow> u16" where
  "cskip_value depth max_routers max_depth =
     (if max_depth \<le> depth then 0
      else let rm = unat max_routers in
        if rm = 0 then 0 else if rm = 1 then 1
        else let cm = 20; remaining = unat max_depth - unat depth - 1 in
          case checked_u32 (rm ^ remaining) of
            None \<Rightarrow> 0
          | Some rm_pow \<Rightarrow>
              (case checked_u32 (cm * rm_pow) \<bind> (\<lambda>v. checked_u32 (v + rm)) \<bind>
                  (\<lambda>v. if cm + 1 \<le> v then Some (v - (cm + 1)) else None) of
                 None \<Rightarrow> 0
               | Some numerator \<Rightarrow>
                   let cskip = numerator div (rm - 1)
                   in if cskip < 2 ^ 16 then of_nat cskip else 0))"

definition tree_route :: "ShortAddress \<Rightarrow> ShortAddress \<Rightarrow> u8 \<Rightarrow> u8 \<Rightarrow> u8 \<Rightarrow> ShortAddress option" where
  "tree_route our_addr dst_addr depth max_routers max_depth =
     (let cskip = cskip_value depth max_routers max_depth in
      if cskip = 0 then None
      else let dst = ucast dst_addr :: u32; our = ucast our_addr :: u32 in
        if dst > our \<and> dst < our + ucast cskip
        then (case find (\<lambda>i. let child_addr = our + (of_nat i - 1) * ucast cskip + 1
                            in dst \<ge> child_addr \<and> dst < child_addr + ucast cskip)
                     [1..<Suc (unat max_routers)] of
                Some i \<Rightarrow> Some (ucast (our + (of_nat i - 1) * ucast cskip + 1))
              | None \<Rightarrow> Some (ucast dst))
        else None)"

section \<open>Invariant and operations\<close>

text \<open>Array sizes, and at most one live route per destination.\<close>

definition rt_wf :: "RoutingTable \<Rightarrow> bool" where
  "rt_wf t \<longleftrightarrow> length (rt_routes t) = MAX_ROUTES \<and>
     length (rt_discoveries t) = MAX_ROUTE_DISCOVERIES \<and>
     slot_uniq re_active re_destination (rt_routes t)"

text \<open>A route no newcomer may displace: in use, and either many-to-one or too young.\<close>

definition protected_route :: "RouteEntry \<Rightarrow> bool" where
  "protected_route r \<longleftrightarrow> re_active r \<and> re_status r = RsActive \<and>
     (re_many_to_one r \<or> re_age r < ROUTE_EVICTION_MIN_AGE_SECS)"

interpretation rt: slot_array re_active re_destination retire_route
  by unfold_locales simp

lemma or_else_simps [simp]: "or_else None b = b" "or_else (Some x) b = Some x"
  by (simp_all add: or_else_def)

lemma or_else_Some: "or_else a b = Some x \<longleftrightarrow> a = Some x \<or> a = None \<and> b = Some x"
  by (auto simp: or_else_def split: option.splits)

lemma or_else_None [simp]: "or_else a b = None \<longleftrightarrow> a = None \<and> b = None"
  by (auto simp: or_else_def split: option.splits)

lemma reclaim_slot_SomeD:
  assumes "reclaim_slot rs = Some i"
  shows "i < length rs" and "\<not> protected_route (rs ! i)"
proof -
  from assms consider "position free_plain rs = Some i" | "max_idx_by dead_status re_age rs = Some i"
    | "max_idx_by idle_normal re_age rs = Some i" | "position (\<lambda>r. \<not> re_active r) rs = Some i"
    unfolding reclaim_slot_def or_else_Some by blast
  then have "i < length rs \<and> \<not> protected_route (rs ! i)"
    by cases (auto simp: protected_route_def dest: position_SomeD max_idx_by_SomeD(1,2))
  then show "i < length rs" and "\<not> protected_route (rs ! i)" by simp_all
qed

lemma reclaim_slot_None_iff: "reclaim_slot rs = None \<longleftrightarrow> (\<forall>r\<in>set rs. protected_route r)"
  unfolding reclaim_slot_def or_else_None position_None_iff max_idx_by_None_iff
  by (auto simp: protected_route_def not_le)

text \<open>Writing one slot of a well-formed table with the only live route for \<open>d\<close>.\<close>

lemma rt_uniq_write:
  assumes "slot_uniq re_active re_destination rs" "i < length rs" "re_destination e = d"
    and "re_for d (rs ! i) \<or> (\<forall>r\<in>set rs. \<not> re_for d r)"
  shows "slot_uniq re_active re_destination (rs[i := e])"
  using assms by (intro rt.uniq_update) (auto simp: slot_uniq_def)

lemma update_route_cases:
  assumes "RoutingTable_update_route t d nh c = Some t'"
  obtains i e where "i < length (rt_routes t)" "t' = t\<lparr>rt_routes := (rt_routes t)[i := e]\<rparr>"
    "re_active e" "re_destination e = d" "re_next_hop e = nh" "re_status e = RsActive" "re_age e = 0"
    "re_path_cost e = c"
    "re_for d (rt_routes t ! i) \<or>
       (\<forall>r\<in>set (rt_routes t). \<not> re_for d r) \<and> \<not> protected_route (rt_routes t ! i)"
proof (cases "position (re_for d) (rt_routes t)")
  case (Some i)
  with assms position_SomeD[OF Some] show ?thesis
    by (intro that[of i "(rt_routes t ! i)\<lparr>re_next_hop := nh, re_path_cost := c,
        re_status := RsActive, re_age := 0\<rparr>"]) (auto simp: RoutingTable_update_route_def)
next
  case None
  then have nf: "\<forall>r\<in>set (rt_routes t). \<not> re_for d r" by (simp add: position_None_iff)
  from None assms obtain i where "reclaim_slot (rt_routes t) = Some i"
    "t' = t\<lparr>rt_routes := (rt_routes t)[i := new_route d nh c]\<rparr>"
    by (auto simp: RoutingTable_update_route_def split: option.splits)
  with nf show ?thesis
    by (intro that[of i "new_route d nh c"]) (auto simp: new_route_def dest: reclaim_slot_SomeD)
qed

lemma rt_wf_new [wf_intros]: "rt_wf RoutingTable_new"
  by (simp add: rt_wf_def RoutingTable_new_def RouteEntry_empty_def slot_uniq_def)

lemma rt_wf_update_route [wf_intros]:
  assumes "rt_wf t" "RoutingTable_update_route t d nh c = Some t'"
  shows "rt_wf t'"
  using assms(2)
proof (rule update_route_cases)
  fix i e
  assume "i < length (rt_routes t)" "t' = t\<lparr>rt_routes := (rt_routes t)[i := e]\<rparr>"
    "re_destination e = d" "re_for d (rt_routes t ! i) \<or>
       (\<forall>r\<in>set (rt_routes t). \<not> re_for d r) \<and> \<not> protected_route (rt_routes t ! i)"
  with assms(1) rt_uniq_write[of "rt_routes t" i e d] show ?thesis by (auto simp: rt_wf_def)
qed

text \<open>Operations that only rewrite or retire slots in place.\<close>

lemma rt_wf_map_if [wf_intros]:
  assumes "rt_wf t" "\<And>r. re_active (f r) \<Longrightarrow> re_active r" "\<And>r. re_active (f r) \<Longrightarrow> re_destination (f r) = re_destination r"
  shows "rt_wf (t\<lparr>rt_routes := map_if P f (rt_routes t)\<rparr>)"
  using assms unfolding rt_wf_def map_if_def by (auto intro!: rt.uniq_map split: if_splits)

lemma rt_wf_update_first [wf_intros]:
  assumes "rt_wf t" "\<And>r. re_active (f r) \<Longrightarrow> re_active r" "\<And>r. re_active (f r) \<Longrightarrow> re_destination (f r) = re_destination r"
  shows "rt_wf (t\<lparr>rt_routes := update_first P f (rt_routes t)\<rparr>)"
  using assms unfolding rt_wf_def by (auto intro!: rt.uniq_update_first)

lemmas rt_in_place_defs = RoutingTable_note_used_def RoutingTable_mark_discovery_def
  RoutingTable_remove_def RoutingTable_remove_through_def RoutingTable_age_by_def
  RoutingTable_clear_route_record_required_def RoutingTable_expire_stale_def

lemma rt_wf_in_place [wf_intros]:
  assumes "rt_wf t"
  shows "rt_wf (RoutingTable_note_used t d nh)" "rt_wf (RoutingTable_mark_discovery t d)"
    "rt_wf (RoutingTable_remove t d)" "rt_wf (RoutingTable_remove_through t d)"
    "rt_wf (RoutingTable_age_by t s)" "rt_wf (RoutingTable_clear_route_record_required t d)"
    "rt_wf (RoutingTable_expire_stale t m)"
  unfolding rt_in_place_defs using assms
  by (auto intro!: rt_wf_map_if rt_wf_update_first split: if_splits)

lemma rt_wf_fail_route:
  assumes "rt_wf t" shows "rt_wf (t\<lparr>rt_routes := fail_discovery_route d (rt_routes t)\<rparr>)"
  unfolding fail_discovery_route_def using assms by (auto intro: rt_wf_update_first)

lemma rt_wf_discovery_ops [wf_intros]:
  assumes "rt_wf t"
  shows "RoutingTable_add_discovery t disc = Some t' \<Longrightarrow> rt_wf t'"
    and "rt_wf (RoutingTable_complete_discovery_for t o' rid)"
    and "rt_wf (RoutingTable_complete_discovery t rid)"
    and "rt_wf (RoutingTable_fail_discovery t rid)" "rt_wf (RoutingTable_fail_discovery_for t o' rid)"
proof -
  have at: "rt_wf (fail_discovery_at t i)" for i
    using rt_wf_fail_route[OF assms] by (simp add: fail_discovery_at_def Let_def rt_wf_def)
  then show "rt_wf (RoutingTable_fail_discovery t rid)" "rt_wf (RoutingTable_fail_discovery_for t o' rid)"
    using assms by (auto simp: RoutingTable_fail_discovery_def RoutingTable_fail_discovery_for_def
        split: option.splits)
  show "RoutingTable_add_discovery t disc = Some t' \<Longrightarrow> rt_wf t'"
    using assms by (auto simp: RoutingTable_add_discovery_def rt_wf_def split: option.splits)
  show "rt_wf (RoutingTable_complete_discovery_for t o' rid)" "rt_wf (RoutingTable_complete_discovery t rid)"
    using assms by (simp_all add: RoutingTable_complete_discovery_for_def
        RoutingTable_complete_discovery_def rt_wf_def)
qed

section \<open>Next hops\<close>

lemma next_hop_slot:
  assumes "slot_uniq re_active re_destination (rt_routes t)"
  shows "RoutingTable_next_hop t d =
    (case slot_lookup re_active re_destination d (rt_routes t) of
       None \<Rightarrow> None | Some r \<Rightarrow> if re_status r = RsActive then Some (re_next_hop r) else None)"
proof (cases "find (\<lambda>r. re_active r \<and> re_destination r = d \<and> re_status r = RsActive) (rt_routes t)")
  case (Some r)
  from find_SomeD[OF Some] have "slot_lookup re_active re_destination d (rt_routes t) = Some r"
    by (simp add: rt.lookup_iff[OF assms])
  with find_SomeD[OF Some] Some show ?thesis by (simp add: RoutingTable_next_hop_def)
next
  case None
  then show ?thesis
    by (auto simp: RoutingTable_next_hop_def find_None_iff rt.lookup_iff[OF assms] split: option.splits)
qed

lemma next_hop_write:
  assumes "slot_uniq re_active re_destination rs" "slot_uniq re_active re_destination (rs[i := e])"
    "i < length rs" "re_active e" "re_status e = RsActive" "rt_routes t = rs"
  shows "RoutingTable_next_hop (t\<lparr>rt_routes := rs[i := e]\<rparr>) (re_destination e) = Some (re_next_hop e)"
    and "d' \<noteq> re_destination e \<Longrightarrow>
      RoutingTable_next_hop (t\<lparr>rt_routes := rs[i := e]\<rparr>) d' \<in> {None, RoutingTable_next_hop t d'}"
  using assms rt.lookup_update_same[of rs i e] rt.lookup_update_other[of rs i e d']
  by (auto simp: next_hop_slot)

lemma next_hop_update_route:
  assumes "rt_wf t" "RoutingTable_update_route t d nh c = Some t'"
  shows "RoutingTable_next_hop t' d = Some nh"
    and "d' \<noteq> d \<Longrightarrow> RoutingTable_next_hop t' d' \<in> {None, RoutingTable_next_hop t d'}"
proof -
  from assms(2) have "RoutingTable_next_hop t' d = Some nh \<and>
      (d' \<noteq> d \<longrightarrow> RoutingTable_next_hop t' d' \<in> {None, RoutingTable_next_hop t d'})"
  proof (rule update_route_cases)
    fix i e
    assume e: "i < length (rt_routes t)" "t' = t\<lparr>rt_routes := (rt_routes t)[i := e]\<rparr>"
      "re_active e" "re_destination e = d" "re_next_hop e = nh" "re_status e = RsActive"
    moreover from rt_wf_update_route[OF assms] e(2)
    have "slot_uniq re_active re_destination ((rt_routes t)[i := e])" by (simp add: rt_wf_def)
    ultimately show ?thesis
      using assms(1) next_hop_write(1)[of "rt_routes t" i e t]
        next_hop_write(2)[of "rt_routes t" i e t d'] by (auto simp: rt_wf_def)
  qed
  then show "RoutingTable_next_hop t' d = Some nh"
    and "d' \<noteq> d \<Longrightarrow> RoutingTable_next_hop t' d' \<in> {None, RoutingTable_next_hop t d'}" by simp_all
qed

lemma next_hop_remove:
  assumes "rt_wf t"
  shows "RoutingTable_next_hop (RoutingTable_remove t d) d' =
    (if d' = d then None else RoutingTable_next_hop t d')"
  using assms rt_wf_in_place(3)[OF assms, of d]
  by (simp add: next_hop_slot rt_wf_def RoutingTable_remove_def rt.lookup_retire_first)

text \<open>What a relay uses: install or refresh a route, ignoring a refusal.\<close>

definition try_update_route :: "ShortAddress \<Rightarrow> ShortAddress \<times> u8 \<Rightarrow> RoutingTable \<Rightarrow> RoutingTable" where
  "try_update_route d v t =
     (case RoutingTable_update_route t d (fst v) (snd v) of None \<Rightarrow> t | Some t' \<Rightarrow> t')"

lemma try_update_route_refused:
  "RoutingTable_update_route t d nh c = None \<Longrightarrow> RoutingTable_next_hop t d = None"
  by (auto simp: RoutingTable_update_route_def RoutingTable_next_hop_def position_None_iff find_None_iff
      split: option.splits)

interpretation rt_cache: bounded_cache RoutingTable_new RoutingTable_next_hop
  try_update_route "\<lambda>d t. RoutingTable_remove t d" fst rt_wf
proof
  fix t k k' and v :: "ShortAddress \<times> u8"
  show "rt_wf RoutingTable_new" by (rule rt_wf_new)
  show "rt_wf t \<Longrightarrow> rt_wf (try_update_route k v t)"
    by (auto simp: try_update_route_def intro: rt_wf_update_route split: option.splits)
  show "rt_wf t \<Longrightarrow> rt_wf (RoutingTable_remove t k)" by (rule rt_wf_in_place(3))
  show "RoutingTable_next_hop RoutingTable_new k = None"
    by (simp add: RoutingTable_next_hop_def RoutingTable_new_def RouteEntry_empty_def find_None_iff)
  show "rt_wf t \<Longrightarrow> RoutingTable_next_hop (try_update_route k v t) k \<in> {None, Some (fst v)}"
    by (auto simp: try_update_route_def try_update_route_refused next_hop_update_route(1)
        split: option.splits)
  show "rt_wf t \<Longrightarrow> k' \<noteq> k \<Longrightarrow>
      RoutingTable_next_hop (try_update_route k v t) k' \<in> {None, RoutingTable_next_hop t k'}"
    using next_hop_update_route(2)[of t k "fst v" "snd v" _ k']
    by (auto simp: try_update_route_def split: option.splits)
  show "rt_wf t \<Longrightarrow> RoutingTable_next_hop (RoutingTable_remove t k) k = None"
    by (simp add: next_hop_remove)
  show "rt_wf t \<Longrightarrow> k' \<noteq> k \<Longrightarrow>
      RoutingTable_next_hop (RoutingTable_remove t k) k' \<in> {None, RoutingTable_next_hop t k'}"
    by (simp add: next_hop_remove)
qed

section \<open>Discovery timeout\<close>

abbreviation timed_out :: "u32 \<Rightarrow> u32 \<Rightarrow> RouteDiscovery \<Rightarrow> bool" where
  "timed_out max_age now d \<equiv> rd_active d \<and> now - rd_timestamp d > max_age"

lemma expire_loop_Cons:
  "fst (expire_loop m now (d # ds) rs) =
     (if timed_out m now d
      then d\<lparr>rd_active := False\<rparr> # fst (expire_loop m now ds (fail_discovery_route d rs))
      else d # fst (expire_loop m now ds rs))"
  "snd (expire_loop m now (d # ds) rs) =
     snd (expire_loop m now ds (if timed_out m now d then fail_discovery_route d rs else rs))"
  by (simp_all add: split_def Let_def)

lemma expire_loop_discoveries:
  "fst (expire_loop m now ds rs) = map_if (timed_out m now) (\<lambda>d. d\<lparr>rd_active := False\<rparr>) ds"
  by (induction ds arbitrary: rs) (simp_all add: map_if_def expire_loop_Cons del: expire_loop.simps(2))

lemma length_expire_loop_routes [simp]: "length (snd (expire_loop m now ds rs)) = length rs"
  by (induction ds arbitrary: rs)
    (simp_all add: fail_discovery_route_def expire_loop_Cons del: expire_loop.simps(2))

lemma fail_discovery_route_nth:
  assumes "i < length rs"
  shows "fail_discovery_route d rs ! i = rs ! i \<or>
    re_status (rs ! i) = DiscoveryUnderway \<and> re_destination (rs ! i) = rd_destination d \<and>
    fail_discovery_route d rs ! i = (rs ! i)\<lparr>re_status := DiscoveryFailed\<rparr>"
  using assms unfolding fail_discovery_route_def update_first_position
  by (auto simp: nth_list_update dest!: position_SomeD split: option.splits if_splits)

lemma expire_loop_route_nth:
  "i < length rs \<Longrightarrow> snd (expire_loop m now ds rs) ! i = rs ! i \<or>
     (\<exists>d\<in>set ds. timed_out m now d \<and> rd_destination d = re_destination (rs ! i)) \<and>
     re_status (rs ! i) = DiscoveryUnderway \<and>
     snd (expire_loop m now ds rs) ! i = (rs ! i)\<lparr>re_status := DiscoveryFailed\<rparr>"
proof (induction ds arbitrary: rs)
  case Nil
  then show ?case by simp
next
  case (Cons d ds)
  let ?rs = "if timed_out m now d then fail_discovery_route d rs else rs"
  have eq: "snd (expire_loop m now (d # ds) rs) = snd (expire_loop m now ds ?rs)"
    by (rule expire_loop_Cons(2))
  have len: "length ?rs = length rs" by (simp add: fail_discovery_route_def)
  show ?case
    using Cons.IH[of ?rs] fail_discovery_route_nth[OF Cons.prems, of d] Cons.prems
    unfolding eq len by (cases "timed_out m now d") force+
qed

lemma expire_discoveries_fields:
  "rt_discoveries (RoutingTable_expire_discoveries t m now) =
     fst (expire_loop m now (rt_discoveries t) (rt_routes t))"
  "rt_routes (RoutingTable_expire_discoveries t m now) =
     snd (expire_loop m now (rt_discoveries t) (rt_routes t))"
  by (simp_all add: RoutingTable_expire_discoveries_def split_def Let_def)

section \<open>Tree addressing\<close>

lemma geometric_nat: "1 \<le> r \<Longrightarrow> (r - 1) * (\<Sum>i<k. r ^ i) + 1 = (r ^ k :: nat)"
proof (induction k)
  case (Suc k)
  have "(r - 1) * (\<Sum>i<Suc k. r ^ i) + 1 = ((r - 1) * (\<Sum>i<k. r ^ i) + 1) + (r - 1) * r ^ k"
    by (simp add: algebra_simps)
  also have "\<dots> = r ^ k + (r - 1) * r ^ k" using Suc by simp
  also have "\<dots> = r ^ Suc k" using Suc.prems by (cases r) simp_all
  finally show ?case .
qed simp

text \<open>The numerator is \<open>(Rm - 1) * CSkip\<close>, so the division is exact.\<close>

lemma cskip_numerator:
  fixes r :: nat
  assumes "2 \<le> r"
  shows "20 * r ^ k + r - 21 = (r - 1) * (1 + 20 * (\<Sum>i<k. r ^ i))"
proof -
  have "20 * r ^ k + r = 20 * ((r - 1) * (\<Sum>i<k. r ^ i) + 1) + ((r - 1) + 1)"
    using geometric_nat[of r k] assms by simp
  then show ?thesis by (simp add: algebra_simps)
qed

lemma cskip_fits:
  fixes r :: nat
  assumes "2 \<le> r" "r < 256" "1 + 20 * (\<Sum>i<k. r ^ i) < 2 ^ 16"
  shows "20 * r ^ k + r < (2 ^ 32 :: nat)"
proof -
  have "20 * r ^ k + r \<le> 21 + (r - 1) * (1 + 20 * (\<Sum>i<k. r ^ i))"
    using cskip_numerator[OF assms(1), of k] by simp
  also have "\<dots> \<le> 21 + 255 * 2 ^ 16"
    using assms by (intro add_left_mono mult_le_mono) simp_all
  also have "\<dots> < 2 ^ 32" by simp
  finally show ?thesis .
qed

lemma cskip_core:
  fixes r :: nat
  assumes r: "2 \<le> r" "r < 256"
  shows "(case checked_u32 (r ^ k) of
      None \<Rightarrow> 0
    | Some rm_pow \<Rightarrow>
        (case checked_u32 (20 * rm_pow) \<bind> (\<lambda>v. checked_u32 (v + r)) \<bind>
            (\<lambda>v. if 20 + 1 \<le> v then Some (v - (20 + 1)) else None) of
           None \<Rightarrow> 0
         | Some numerator \<Rightarrow>
             if numerator div (r - 1) < 2 ^ 16 then of_nat (numerator div (r - 1)) else 0)) =
    (if 1 + 20 * (\<Sum>i<k. r ^ i) < 2 ^ 16 then of_nat (1 + 20 * (\<Sum>i<k. r ^ i)) else (0 :: u16))"
    (is "?lhs = ?rhs")
proof -
  let ?v = "1 + 20 * (\<Sum>i<k. r ^ i)"
  have "1 \<le> r ^ k" using r by simp
  then have ge: "21 \<le> 20 * r ^ k + r" using r by linarith
  have dv: "(20 * r ^ k + r - 21) div (r - 1) = ?v"
    unfolding cskip_numerator[OF r(1), of k] using r by (intro nonzero_mult_div_cancel_left) simp
  show ?thesis
  proof (cases "20 * r ^ k + r < 2 ^ 32")
    case True
    then have "checked_u32 (r ^ k) = Some (r ^ k)" "checked_u32 (20 * r ^ k) = Some (20 * r ^ k)"
      "checked_u32 (20 * r ^ k + r) = Some (20 * r ^ k + r)" by (simp_all add: checked_u32_def)
    then have "?lhs = (if (20 * r ^ k + r - 21) div (r - 1) < 2 ^ 16
        then of_nat ((20 * r ^ k + r - 21) div (r - 1)) else 0)"
      using ge by simp
    then show ?thesis unfolding dv .
  next
    case False
    then have "\<not> ?v < 2 ^ 16" using cskip_fits[OF r, of k] by blast
    moreover have "?lhs = 0" using False by (simp add: checked_u32_def)
    ultimately show ?thesis by simp
  qed
qed

lemma cskip_value_eq:
  assumes "depth < max_depth" "2 \<le> unat max_routers"
  shows "cskip_value depth max_routers max_depth =
    (let v = 1 + 20 * (\<Sum>i<unat max_depth - unat depth - 1. unat max_routers ^ i)
     in if v < 2 ^ 16 then of_nat v else 0)"
proof -
  have "unat max_routers < 256" using unsigned_less[of max_routers] by simp
  from cskip_core[OF assms(2) this] assms show ?thesis
    unfolding cskip_value_def Let_def by (simp only: not_le if_False) simp
qed

lemma cskip_zero_routers: "cskip_value depth 0 max_depth = 0"
  by (simp add: cskip_value_def)

lemma tree_route_eq:
  "tree_route our dst depth max_routers max_depth =
     (let c = unat (cskip_value depth max_routers max_depth)
      in if c \<noteq> 0 \<and> unat our < unat dst \<and> unat dst < unat our + c then Some (our + 1) else None)"
proof (cases "cskip_value depth max_routers max_depth = 0")
  case True
  then show ?thesis by (simp add: tree_route_def)
next
  case False
  define c where "c = cskip_value depth max_routers max_depth"
  have mr: "max_routers \<noteq> 0" using False cskip_zero_routers by metis
  then have "0 < unat max_routers" by (simp add: unat_gt_0)
  then have up: "[1..<Suc (unat max_routers)] = 1 # [2..<Suc (unat max_routers)]"
    by (simp add: upt_conv_Cons numeral_2_eq_2 del: upt_Suc)
  have sum: "unat (ucast our + ucast c :: u32) = unat our + unat c"
    using unat_bounds(2)[of our] unat_bounds(2)[of c] by (simp add: unat_word_ariths)
  have sum1: "unat (ucast our + 1 + ucast c :: u32) = unat our + 1 + unat c"
    using unat_bounds(2)[of our] unat_bounds(2)[of c] by (simp add: unat_word_ariths)
  have one: "unat (ucast our + 1 :: u32) = unat our + 1"
    using unat_bounds(2)[of our] by (simp add: unat_word_ariths)
  have narrow: "ucast (ucast our + 1 :: u32) = our + 1"
    by (rule word_unat_eq_iff[THEN iffD2]) (simp add: unsigned_ucast_eq take_bit_eq_mod unat_word_ariths mod_mod_cancel)
  have guard: "(ucast dst :: u32) > ucast our \<and> (ucast dst :: u32) < ucast our + ucast c
      \<longleftrightarrow> unat our < unat dst \<and> unat dst < unat our + unat c"
    by (simp add: word_less_nat_alt sum)
  have hit: "find (\<lambda>i. (ucast dst :: u32) \<ge> ucast our + (of_nat i - 1) * ucast c + 1 \<and>
      (ucast dst :: u32) < ucast our + (of_nat i - 1) * ucast c + 1 + ucast c) (1 # ks) = Some 1"
    if "unat our < unat dst \<and> unat dst < unat our + unat c" for ks
    using that by (simp add: word_less_nat_alt word_le_nat_alt sum1 one)
  show ?thesis
    using False hit
    unfolding tree_route_def Let_def c_def[symmetric] up guard
    by (simp add: narrow unat_eq_0 del: find.simps)
qed

section \<open>Many-to-one routes\<close>

text \<open>
  The first slot that names \<open>d\<close>, live or retired, is the one a many-to-one update reuses; it
  shadows no live route for \<open>d\<close>.
\<close>

definition mto_slot_ok :: "RoutingTable \<Rightarrow> ShortAddress \<Rightarrow> bool" where
  "mto_slot_ok t d \<longleftrightarrow>
     (case position (\<lambda>r. re_destination r = d) (rt_routes t) of
        None \<Rightarrow> True
      | Some i \<Rightarrow> re_active (rt_routes t ! i) \<or> (\<forall>r\<in>set (rt_routes t). \<not> re_for d r))"

lemma update_mto_cases:
  assumes "RoutingTable_update_route_many_to_one t d nh c ct = Some t'" "mto_slot_ok t d"
  obtains i e where "i < length (rt_routes t)" "t' = t\<lparr>rt_routes := (rt_routes t)[i := e]\<rparr>"
    "re_active e" "re_destination e = d" "re_next_hop e = nh" "re_status e = RsActive"
    "re_many_to_one e" "re_age e = 0" "ct = LowRam \<Longrightarrow> re_route_record_required e"
    "(\<forall>r\<in>set (rt_routes t). \<not> re_for d r) \<Longrightarrow> re_route_record_required e"
    "re_for d (rt_routes t ! i) \<or> (\<forall>r\<in>set (rt_routes t). \<not> re_for d r)"
proof (cases "position (\<lambda>r. re_destination r = d) (rt_routes t)")
  case (Some i)
  let ?r = "rt_routes t ! i"
  from position_SomeD[OF Some] have i: "i < length (rt_routes t)" "re_destination ?r = d" by simp_all
  from Some assms(2) i have ok: "re_for d ?r \<or> (\<forall>r\<in>set (rt_routes t). \<not> re_for d r)"
    by (auto simp: mto_slot_ok_def)
  let ?e = "?r\<lparr>re_next_hop := nh, re_path_cost := c, re_status := RsActive,
      re_many_to_one := True, re_route_record_every_frame := (ct = LowRam),
      re_route_record_required := (if ct = LowRam \<or> (\<not> re_active ?r \<or> re_next_hop ?r \<noteq> nh)
        then True else re_route_record_required ?r), re_age := 0, re_active := True\<rparr>"
  have eq: "t' = t\<lparr>rt_routes := (rt_routes t)[i := ?e]\<rparr>"
    using assms(1) Some by (simp add: RoutingTable_update_route_many_to_one_def Let_def)
  have req: "re_route_record_required ?e" if "\<forall>r\<in>set (rt_routes t). \<not> re_for d r"
    using that i nth_mem[OF i(1)] by auto
  show ?thesis by (rule that[OF i(1) eq _ _ _ _ _ _ _ req ok]) (use i(2) in simp_all)
next
  case None
  then have nf: "\<forall>r\<in>set (rt_routes t). \<not> re_for d r" by (auto simp: position_None_iff)
  from None assms(1) obtain i where i: "reclaim_slot (rt_routes t) = Some i"
    and t': "t' = t\<lparr>rt_routes := (rt_routes t)[i := (new_route d nh c)\<lparr>re_many_to_one := True,
      re_route_record_required := True, re_route_record_every_frame := (ct = LowRam)\<rparr>]\<rparr>"
    by (auto simp: RoutingTable_update_route_many_to_one_def split: option.splits)
  from that[OF reclaim_slot_SomeD(1)[OF i] t'] nf show ?thesis by (simp add: new_route_def)
qed

lemma rt_wf_update_mto [wf_intros]:
  assumes "rt_wf t" "mto_slot_ok t d" "RoutingTable_update_route_many_to_one t d nh c ct = Some t'"
  shows "rt_wf t'"
  using assms(3,2)
proof (rule update_mto_cases)
  fix i e
  assume "i < length (rt_routes t)" "t' = t\<lparr>rt_routes := (rt_routes t)[i := e]\<rparr>"
    "re_destination e = d" "re_for d (rt_routes t ! i) \<or> (\<forall>r\<in>set (rt_routes t). \<not> re_for d r)"
  with assms(1) rt_uniq_write[of "rt_routes t" i e d] show ?thesis by (auto simp: rt_wf_def)
qed

lemma get_entry_next_hop: "RoutingTable_next_hop t d = map_option re_next_hop (RoutingTable_get_entry t d)"
  by (simp add: RoutingTable_next_hop_def RoutingTable_get_entry_def)

lemma get_entry_iff:
  assumes "rt_wf t"
  shows "RoutingTable_get_entry t d = Some r \<longleftrightarrow> r \<in> set (rt_routes t) \<and> re_for d r \<and> re_status r = RsActive"
proof
  assume "RoutingTable_get_entry t d = Some r"
  then show "r \<in> set (rt_routes t) \<and> re_for d r \<and> re_status r = RsActive"
    unfolding RoutingTable_get_entry_def by (auto dest: find_SomeD)
next
  assume r: "r \<in> set (rt_routes t) \<and> re_for d r \<and> re_status r = RsActive"
  then obtain x where x: "RoutingTable_get_entry t d = Some x"
    unfolding RoutingTable_get_entry_def by (metis (mono_tags, lifting) find_None_iff not_None_eq)
  have u: "slot_uniq re_active re_destination (rt_routes t)" using assms by (simp add: rt_wf_def)
  from x have "x \<in> set (rt_routes t)" "re_for d x"
    unfolding RoutingTable_get_entry_def by (auto dest: find_SomeD)
  with r have "slot_lookup re_active re_destination d (rt_routes t) = Some x"
    "slot_lookup re_active re_destination d (rt_routes t) = Some r"
    by (simp_all add: rt.lookup_iff[OF u])
  with x show "RoutingTable_get_entry t d = Some r" by simp
qed

lemma get_entry_update_mto:
  assumes "rt_wf t" "mto_slot_ok t d" "RoutingTable_update_route_many_to_one t d nh c ct = Some t'"
  shows "\<exists>r. RoutingTable_get_entry t' d = Some r \<and> re_many_to_one r \<and> re_next_hop r = nh \<and>
    (ct = LowRam \<or> (\<forall>x\<in>set (rt_routes t). \<not> re_for d x) \<longrightarrow> re_route_record_required r)"
  using assms(3,2)
proof (rule update_mto_cases)
  fix i e
  assume e: "i < length (rt_routes t)" "t' = t\<lparr>rt_routes := (rt_routes t)[i := e]\<rparr>"
    "re_active e" "re_destination e = d" "re_next_hop e = nh" "re_status e = RsActive"
    "re_many_to_one e" "ct = LowRam \<Longrightarrow> re_route_record_required e"
    "(\<forall>r\<in>set (rt_routes t). \<not> re_for d r) \<Longrightarrow> re_route_record_required e"
  have "RoutingTable_get_entry t' d = Some e"
    using e(1-7) unfolding get_entry_iff[OF rt_wf_update_mto[OF assms]] by (simp add: set_update_memI)
  with e show ?thesis by blast
qed

section \<open>Properties\<close>

text \<open>
  C18: installing a route makes it the next hop of its destination, keeps at most one live
  route per destination, and never displaces another destination's route in use that is
  many-to-one or younger than the eviction age.
\<close>

theorem route_update_safe:
  assumes "rt_wf t" "RoutingTable_update_route t d nh c = Some t'"
  shows "RoutingTable_next_hop t' d = Some nh \<and> rt_wf t' \<and>
    (\<forall>r\<in>set (rt_routes t). protected_route r \<and> re_destination r \<noteq> d \<longrightarrow> r \<in> set (rt_routes t'))"
proof -
  have "\<forall>r\<in>set (rt_routes t). protected_route r \<and> re_destination r \<noteq> d \<longrightarrow> r \<in> set (rt_routes t')"
    using assms(2)
  proof (rule update_route_cases)
    fix i e
    assume e: "i < length (rt_routes t)" "t' = t\<lparr>rt_routes := (rt_routes t)[i := e]\<rparr>"
      "re_for d (rt_routes t ! i) \<or>
       (\<forall>r\<in>set (rt_routes t). \<not> re_for d r) \<and> \<not> protected_route (rt_routes t ! i)"
    then have "r \<in> set ((rt_routes t)[i := e])"
      if "r \<in> set (rt_routes t)" "protected_route r" "re_destination r \<noteq> d" for r
      using that by (metis in_set_conv_nth length_list_update nth_list_update_neq)
    with e(2) show ?thesis by simp
  qed
  with next_hop_update_route(1)[OF assms] rt_wf_update_route[OF assms] show ?thesis by blast
qed

lemma replicate_unroll [simp]:
  "replicate (numeral n) x = x # replicate (pred_numeral n) x"
  by (simp add: numeral_eq_Suc)

lemmas rt_eval = RoutingTable_update_route_def RoutingTable_new_def RouteEntry_empty_def
  RouteDiscovery_empty_def MAX_ROUTES_def MAX_ROUTE_DISCOVERIES_def reclaim_slot_def new_route_def
  RoutingTable_update_route_many_to_one_def RoutingTable_remove_def RoutingTable_next_hop_def
  RoutingTable_get_entry_def

theorem route_update_safe_witness:
  "RoutingTable_next_hop (the (RoutingTable_update_route RoutingTable_new 5 7 1)) 5 = Some 7"
proof -
  have "RoutingTable_update_route RoutingTable_new 5 7 1 =
      Some (the (RoutingTable_update_route RoutingTable_new 5 7 1))"
    by (simp add: rt_eval)
  from route_update_safe[OF rt_wf_new this] show ?thesis by blast
qed

text \<open>
  Installing a route is refused exactly when every slot holds another destination's
  protected route: a table with any reclaimable slot always accepts.
\<close>

theorem route_update_refused_iff:
  "RoutingTable_update_route t d nh c = None \<longleftrightarrow>
     (\<forall>r\<in>set (rt_routes t). protected_route r \<and> re_destination r \<noteq> d)"
proof (cases "position (re_for d) (rt_routes t)")
  case None
  then have "\<forall>r\<in>set (rt_routes t). \<not> re_for d r" by (simp add: position_None_iff)
  moreover have "RoutingTable_update_route t d nh c = None \<longleftrightarrow> reclaim_slot (rt_routes t) = None"
    using None by (auto simp: RoutingTable_update_route_def split: option.splits)
  ultimately show ?thesis by (auto simp: reclaim_slot_None_iff protected_route_def)
next
  case (Some i)
  then show ?thesis using position_SomeD[OF Some] nth_mem[of i "rt_routes t"]
    by (auto simp: RoutingTable_update_route_def)
qed

theorem route_update_refused_iff_witness:
  "RoutingTable_update_route \<lparr>rt_routes = [new_route 5 7 1], rt_discoveries = []\<rparr> 6 7 1 = None"
  using route_update_refused_iff[of "\<lparr>rt_routes = [new_route 5 7 1], rt_discoveries = []\<rparr>" 6 7 1]
  by (simp add: new_route_def protected_route_def ROUTE_EVICTION_MIN_AGE_SECS_def)

text \<open>
  Over any sequence of unicast route updates and removals, the next hop the routing table answers for a destination is the last
  one installed for it, or none: the bounded table refines the ideal map from destinations to next hops.  Many-to-one
  announcements are not among the operations; \<open>many_to_one_revival_duplicates\<close> shows what they can do.
\<close>

lemma routing_cache_refines:
  "RoutingTable_next_hop (cache_run try_update_route (\<lambda>d t. RoutingTable_remove t d) ops RoutingTable_new)
     \<subseteq>\<^sub>m ideal_run fst ops Map.empty"
  by (rule rt_cache.run_refines)

text \<open>
  Retiring a concentrator's route leaves a tombstone: the destination has no next hop and
  is reported as a failed many-to-one route; the concentrator's next announcement is always
  accepted, revives the route with a Route Record owed, and clears the tombstone.
\<close>

theorem many_to_one_tombstone:
  assumes "rt_wf t" "RoutingTable_get_entry t d = Some r" "re_many_to_one r"
  shows "RoutingTable_next_hop (RoutingTable_remove t d) d = None \<and>
    RoutingTable_has_failed_many_to_one (RoutingTable_remove t d) d \<and>
    (\<exists>t' r'. RoutingTable_update_route_many_to_one (RoutingTable_remove t d) d nh c ct = Some t' \<and>
       RoutingTable_get_entry t' d = Some r' \<and> re_next_hop r' = nh \<and> re_many_to_one r' \<and>
       re_route_record_required r' \<and> \<not> RoutingTable_has_failed_many_to_one t' d)"
proof -
  let ?t = "RoutingTable_remove t d"
  have wf: "rt_wf ?t" using assms(1) by (rule rt_wf_in_place)
  have nh: "RoutingTable_next_hop ?t d = None" using assms(1) by (simp add: next_hop_remove)
  from assms(2) have r: "r \<in> set (rt_routes t)" "re_for d r" by (auto simp: get_entry_iff[OF assms(1)])
  obtain i where i: "position (re_for d) (rt_routes t) = Some i"
    using position_Some_exists[OF r(1), of "re_for d"] r(2) by blast
  note pi = position_SomeD[OF i]
  have "rt_routes t ! i = r"
    using rt.uniq_live_index[of "rt_routes t" i r] assms(1) pi r by (auto simp: rt_wf_def)
  with i have routes: "rt_routes ?t = (rt_routes t)[i := retire_route r]"
    by (simp add: RoutingTable_remove_def update_first_position)
  have dead: "\<forall>x\<in>set (rt_routes ?t). \<not> re_for d x"
  proof -
    have "slot_lookup re_active re_destination d (rt_routes ?t) = None"
      using assms(1) by (simp add: RoutingTable_remove_def rt.lookup_retire_first rt_wf_def)
    then show ?thesis by (auto simp: rt.lookup_None_iff)
  qed
  have tomb: "retire_route r \<in> set (rt_routes ?t)"
    using pi by (simp add: routes set_update_memI)
  then have failed: "RoutingTable_has_failed_many_to_one ?t d"
    using nh r(2) assms(3)
    by (auto simp: RoutingTable_has_failed_many_to_one_def get_entry_next_hop list_ex_iff
        intro!: bexI[of _ "retire_route r"])
  have ok: "mto_slot_ok ?t d" using dead by (auto simp: mto_slot_ok_def split: option.splits)
  obtain t' where t': "RoutingTable_update_route_many_to_one ?t d nh c ct = Some t'"
    using position_Some_exists[OF tomb, of "\<lambda>x. re_destination x = d"] r(2)
    by (auto simp: RoutingTable_update_route_many_to_one_def Let_def)
  from get_entry_update_mto[OF wf ok t'] dead obtain r' where
    "RoutingTable_get_entry t' d = Some r'" "re_many_to_one r'" "re_next_hop r' = nh"
    "re_route_record_required r'" by blast
  with t' nh failed show ?thesis by (simp add: RoutingTable_has_failed_many_to_one_def)
qed

theorem many_to_one_tombstone_witness:
  "RoutingTable_has_failed_many_to_one
     (RoutingTable_remove (the (RoutingTable_update_route_many_to_one RoutingTable_new 0 7 1 HighRam)) 0) 0"
proof -
  let ?t = "the (RoutingTable_update_route_many_to_one RoutingTable_new 0 7 1 HighRam)"
  have some: "RoutingTable_update_route_many_to_one RoutingTable_new 0 7 1 HighRam = Some ?t"
    by (simp add: rt_eval)
  have ok: "mto_slot_ok RoutingTable_new 0"
    by (simp add: mto_slot_ok_def rt_eval)
  from get_entry_update_mto[OF rt_wf_new ok some] obtain r where
    "RoutingTable_get_entry ?t 0 = Some r" "re_many_to_one r" by blast
  from many_to_one_tombstone[OF rt_wf_update_mto[OF rt_wf_new ok some] this, of 7 1 LowRam]
  show ?thesis by blast
qed

text \<open>
  The discovery timeout deactivates exactly the discoveries older than the limit, on the
  wrapping clock, and touches a route only by failing one whose discovery was underway for
  the destination of a timed-out discovery.
\<close>

theorem expire_discoveries_spec:
  assumes "t' = RoutingTable_expire_discoveries t max_age now"
  shows "RoutingTable_discoveries t' =
      filter (\<lambda>d. now - rd_timestamp d \<le> max_age) (RoutingTable_discoveries t) \<and>
    (\<forall>i<length (rt_routes t). rt_routes t' ! i = rt_routes t ! i \<or>
       re_status (rt_routes t ! i) = DiscoveryUnderway \<and>
       rt_routes t' ! i = (rt_routes t ! i)\<lparr>re_status := DiscoveryFailed\<rparr> \<and>
       (\<exists>d\<in>set (RoutingTable_discoveries t). now - rd_timestamp d > max_age \<and>
          rd_destination d = re_destination (rt_routes t ! i)))"
proof -
  have filt: "filter rd_active (map_if (timed_out max_age now) (\<lambda>d. d\<lparr>rd_active := False\<rparr>) ds) =
      filter (\<lambda>d. now - rd_timestamp d \<le> max_age) (filter rd_active ds)" for ds
    by (induction ds) (auto simp: map_if_def not_less)
  show ?thesis
    unfolding assms RoutingTable_discoveries_def expire_discoveries_fields expire_loop_discoveries
    using expire_loop_route_nth[of _ "rt_routes t" max_age now "rt_discoveries t"]
    by (auto simp: filt)
qed

theorem expire_discoveries_spec_witness:
  "RoutingTable_discoveries (RoutingTable_expire_discoveries
     \<lparr>rt_routes = [], rt_discoveries = [RouteDiscovery_empty\<lparr>rd_active := True, rd_timestamp := 0xFFFFFFFF\<rparr>,
        RouteDiscovery_empty\<lparr>rd_active := True, rd_timestamp := 3\<rparr>]\<rparr> 10 12) =
     [RouteDiscovery_empty\<lparr>rd_active := True, rd_timestamp := 3\<rparr>]"
  using expire_discoveries_spec[OF refl, of "\<lparr>rt_routes = [], rt_discoveries =
      [RouteDiscovery_empty\<lparr>rd_active := True, rd_timestamp := 0xFFFFFFFF\<rparr>,
       RouteDiscovery_empty\<lparr>rd_active := True, rd_timestamp := 3\<rparr>]\<rparr>" 10 12]
  by (simp add: RoutingTable_discoveries_def)

text \<open>
  The unsigned, overflow-checked CSkip computation is exact: with at least two router
  children it equals \<open>1 + Cm * (1 + Rm + ... + Rm^(Lm-d-2))\<close> for \<open>Cm = 20\<close> whenever that fits
  sixteen bits, and is 0 otherwise, never a wrapped value.
\<close>

theorem cskip_closed_form:
  assumes "depth < max_depth" "2 \<le> unat max_routers"
  shows "unat (cskip_value depth max_routers max_depth) =
    (let v = 1 + 20 * (\<Sum>i<unat max_depth - unat depth - 1. unat max_routers ^ i)
     in if v < 2 ^ 16 then v else 0)"
  using cskip_value_eq[OF assms] by (simp add: Let_def unat_of_nat del: of_nat_add of_nat_mult of_nat_Suc)

theorem cskip_closed_form_witness: "unat (cskip_value 0 4 5) = 1701"
  using cskip_closed_form[of 0 5 4] by (simp add: lessThan_nat_numeral lessThan_Suc)

text \<open>
  C31: tree routing toward a descendant never selects any child but the first: every answer
  is \<open>our + 1\<close>, and a destination at or beyond \<open>our + CSkip\<close>, such as the whole subtree of a
  second router child, is declared outside the subtree.
\<close>

theorem tree_route_only_first_child:
  "tree_route our dst depth max_routers max_depth \<in> {None, Some (our + 1)} \<and>
   (unat our + unat (cskip_value depth max_routers max_depth) \<le> unat dst \<longrightarrow>
      tree_route our dst depth max_routers max_depth = None)"
  by (simp add: tree_route_eq Let_def)

theorem tree_route_only_first_child_witness:
  "cskip_value 0 2 3 = 61 \<and> tree_route 0 62 0 2 3 = None"
proof
  show c: "cskip_value 0 2 3 = 61" by (simp add: cskip_value_def checked_u32_def)
  show "tree_route 0 62 0 2 3 = None"
    using tree_route_only_first_child[of 0 62 0 2 3] by (simp add: c)
qed

text \<open>
  A normal route learned while a concentrator's tombstone is held lets the next
  many-to-one announcement revive the tombstone beside it: the destination then has two live
  entries, and removing the route leaves the older next hop in use.
\<close>

theorem many_to_one_revival_duplicates:
  "\<exists>t1 t2 t3. RoutingTable_update_route_many_to_one RoutingTable_new 0 7 1 HighRam = Some t1 \<and>
     RoutingTable_update_route (RoutingTable_remove t1 0) 0 9 2 = Some t2 \<and>
     RoutingTable_update_route_many_to_one t2 0 7 1 HighRam = Some t3 \<and>
     length (filter (re_for 0) (rt_routes t3)) = 2 \<and>
     RoutingTable_next_hop (RoutingTable_remove t3 0) 0 = Some 9"
  by (simp add: rt_eval)

end
