(* ===== verification/Broadcast_Tables.thy ===== *)
theory Broadcast_Tables
  imports Zb_Types Table_Interfaces
begin

text \<open>
  The broadcast tables of \<^verbatim>\<open>zigbee-nwk/src/routing.rs\<close> (router build): the broadcast
  transaction records that suppress a broadcast heard again, the forwarding records that
  suppress a Route Request heard again, and the transmission schedule of the broadcasts a
  router still has to put on air.  The first two age once per second and never give up a
  live record; the schedule gives up only retransmissions.
\<close>

section \<open>Broadcast transaction records\<close>

definition MAX_BTR :: nat where
  "MAX_BTR = 16"

record BtrEntry =
  btr_src_addr :: ShortAddress
  btr_seq_number :: u8
  btr_expiry :: u8
  btr_active :: bool

definition BtrEntry_empty :: BtrEntry where
  "BtrEntry_empty =
     \<lparr>btr_src_addr = 0xFFFF, btr_seq_number = 0, btr_expiry = 0, btr_active = False\<rparr>"

type_synonym BtrTable = "BtrEntry list"

definition BtrTable_new :: BtrTable where
  "BtrTable_new = replicate MAX_BTR BtrEntry_empty"

definition BtrTable_is_duplicate :: "BtrTable \<Rightarrow> ShortAddress \<Rightarrow> u8 \<Rightarrow> bool" where
  "BtrTable_is_duplicate t src seqn =
     list_ex (\<lambda>e. btr_active e \<and> btr_src_addr e = src \<and> btr_seq_number e = seqn) t"

definition BtrTable_is_full :: "BtrTable \<Rightarrow> bool" where
  "BtrTable_is_full t = list_all btr_active t"

definition BtrTable_record :: "BtrTable \<Rightarrow> ShortAddress \<Rightarrow> u8 \<Rightarrow> bool \<times> BtrTable" where
  "BtrTable_record t src seqn =
     (case position (\<lambda>e. \<not> btr_active e) t of
        None \<Rightarrow> (False, t)
      | Some i \<Rightarrow> (True, t[i := \<lparr>btr_src_addr = src, btr_seq_number = seqn, btr_expiry = 9,
          btr_active = True\<rparr>]))"

definition btr_tick :: "BtrEntry \<Rightarrow> BtrEntry" where
  "btr_tick e =
     (if btr_active e
      then let e' = e\<lparr>btr_expiry := sat_sub (btr_expiry e) 1\<rparr>
           in if btr_expiry e' = 0 then e'\<lparr>btr_active := False\<rparr> else e'
      else e)"

definition BtrTable_age :: "BtrTable \<Rightarrow> BtrTable" where
  "BtrTable_age t = map btr_tick t"

text \<open>
  The broadcast gate of the receive path (\<^verbatim>\<open>process_incoming_nwk_frame_from_with_replay_commit\<close>), for a copy of a broadcast that is
  no Route Request, on a device that routes.  \<open>bc_authenticated\<close> says that the copy was secured and verified
  (\<^verbatim>\<open>authenticated_replay.is_some()\<close>), \<open>bc_deferred\<close> that the lifecycle persistence holds its replay floor back
  (\<^verbatim>\<open>lifecycle_kind.is_some()\<close>), \<open>bc_committed\<close> what \<^verbatim>\<open>commit_incoming_replay\<close> answers otherwise.
\<close>

record BroadcastCopy =
  bc_src :: ShortAddress
  bc_seq_number :: u8
  bc_radius :: u8
  bc_prev_hop :: "ShortAddress option"
  bc_authenticated :: bool
  bc_deferred :: bool
  bc_committed :: bool

record BtrGate =
  bg_btr :: BtrTable
  bg_pending_lifecycle_btr :: "(ShortAddress \<times> u8) option"

text \<open>A secured copy with radius one, straight from its originator, is not recorded: nobody relays it.\<close>

definition records_broadcast :: "BroadcastCopy \<Rightarrow> bool" where
  "records_broadcast c \<longleftrightarrow>
     \<not> (bc_authenticated c \<and> bc_radius c \<le> 1 \<and> (case bc_prev_hop c of Some p \<Rightarrow> p | None \<Rightarrow> bc_src c) = bc_src c)"

definition btr_admits :: "BtrTable \<Rightarrow> BroadcastCopy \<Rightarrow> bool" where
  "btr_admits t c =
     (if BtrTable_is_duplicate t (bc_src c) (bc_seq_number c) then False
      else if records_broadcast c \<and> BtrTable_is_full t then False
      else True)"

text \<open>
  What follows the admission: the copy's replay floor is held back, and the record with it, or committed, which may
  refuse the copy; the record is made here unless the lifecycle persistence is at work.
\<close>

definition btr_settle :: "BtrGate \<Rightarrow> BroadcastCopy \<Rightarrow> bool \<times> BtrGate" where
  "btr_settle g c =
     (if bc_authenticated c \<and> bc_deferred c
      then (True, if records_broadcast c then g\<lparr>bg_pending_lifecycle_btr := Some (bc_src c, bc_seq_number c)\<rparr> else g)
      else if bc_authenticated c \<and> \<not> bc_committed c then (False, g)
      else (True, if records_broadcast c \<and> \<not> bc_deferred c
                  then g\<lparr>bg_btr := snd (BtrTable_record (bg_btr g) (bc_src c) (bc_seq_number c))\<rparr> else g))"

definition btr_gate :: "BtrGate \<Rightarrow> BroadcastCopy \<Rightarrow> bool \<times> BtrGate" where
  "btr_gate g c = (if btr_admits (bg_btr g) c then btr_settle g c else (False, g))"

definition complete_btr :: "BtrGate \<Rightarrow> BtrGate" where
  "complete_btr g =
     (case bg_pending_lifecycle_btr g of
        Some (src, seqn) \<Rightarrow> g\<lparr>bg_pending_lifecycle_btr := None, bg_btr := snd (BtrTable_record (bg_btr g) src seqn)\<rparr>
      | None \<Rightarrow> g)"

definition abort_btr :: "BtrGate \<Rightarrow> BtrGate" where
  "abort_btr g = g\<lparr>bg_pending_lifecycle_btr := None\<rparr>"

datatype gate_event = Heard BroadcastCopy | Completed | Aborted | SecondPassed

fun gate_step :: "gate_event \<Rightarrow> BtrGate \<Rightarrow> BtrGate" where
  "gate_step (Heard c) g = snd (btr_gate g c)"
| "gate_step Completed g = complete_btr g"
| "gate_step Aborted g = abort_btr g"
| "gate_step SecondPassed g = g\<lparr>bg_btr := BtrTable_age (bg_btr g)\<rparr>"

abbreviation gate_run :: "gate_event list \<Rightarrow> BtrGate \<Rightarrow> BtrGate" where
  "gate_run evs g \<equiv> fold gate_step evs g"

abbreviation gate_seconds :: "gate_event list \<Rightarrow> nat" where
  "gate_seconds evs \<equiv> length (filter (\<lambda>ev. ev = SecondPassed) evs)"

text \<open>What these events do to the table alone.\<close>

datatype btr_event = Recorded "ShortAddress \<times> u8" | Second

fun btr_step :: "btr_event \<Rightarrow> BtrTable \<Rightarrow> BtrTable" where
  "btr_step (Recorded k) t = snd (BtrTable_record t (fst k) (snd k))"
| "btr_step Second t = BtrTable_age t"

abbreviation btr_run :: "btr_event list \<Rightarrow> BtrTable \<Rightarrow> BtrTable" where
  "btr_run evs t \<equiv> fold btr_step evs t"

abbreviation btr_seconds :: "btr_event list \<Rightarrow> nat" where
  "btr_seconds evs \<equiv> length (filter (\<lambda>ev. ev = Second) evs)"

abbreviation btr_key :: "BtrEntry \<Rightarrow> ShortAddress \<times> u8" where
  "btr_key e \<equiv> (btr_src_addr e, btr_seq_number e)"

lemma btr_is_duplicate_iff:
  "BtrTable_is_duplicate t s q \<longleftrightarrow> (\<exists>i<length t. btr_active (t ! i) \<and> btr_key (t ! i) = (s, q))"
  unfolding BtrTable_is_duplicate_def list_ex_iff by (metis in_set_conv_nth prod.inject)

lemma btr_record_cases:
  obtains (recorded) i where "i < length t" "\<not> btr_active (t ! i)"
    "BtrTable_record t s q = (True, t[i := \<lparr>btr_src_addr = s, btr_seq_number = q, btr_expiry = 9, btr_active = True\<rparr>])"
  | (full) "BtrTable_is_full t" "BtrTable_record t s q = (False, t)"
proof (cases "position (\<lambda>e. \<not> btr_active e) t")
  case None
  with full show ?thesis by (auto simp: position_None_iff BtrTable_is_full_def BtrTable_record_def list_all_iff)
next
  case (Some i)
  with recorded[of i] show ?thesis by (auto simp: BtrTable_record_def dest: position_SomeD)
qed

interpretation btr: no_evict_table btr_active btr_expiry btr_tick "\<lambda>e. btr_key e = k" btr_step
  "\<lambda>ev. ev = Second" "\<lambda>t. True" for k
proof
  fix e :: BtrEntry and ev :: btr_event and t :: BtrTable and i
  show "\<not> btr_active e \<Longrightarrow> btr_tick e = e" by (simp add: btr_tick_def)
  show "btr_active e \<Longrightarrow> btr_expiry (btr_tick e) = sat_sub (btr_expiry e) 1"
    by (simp add: btr_tick_def Let_def)
  show "btr_active e \<Longrightarrow> btr_active (btr_tick e) \<longleftrightarrow> btr_expiry (btr_tick e) \<noteq> 0"
    by (simp add: btr_tick_def Let_def)
  show "btr_key e = k \<Longrightarrow> btr_key (btr_tick e) = k" by (simp add: btr_tick_def Let_def)
  show "ev = Second \<Longrightarrow> btr_step ev t = map btr_tick t" by (simp add: BtrTable_age_def)
  show "length (btr_step ev t) = length t"
    by (cases ev) (auto simp: BtrTable_age_def BtrTable_record_def split: option.splits)
  show True ..
  have "btr_active (btr_step ev t ! i) \<and> btr_key (btr_step ev t ! i) = btr_key (t ! i) \<and>
      btr_expiry (t ! i) \<le> btr_expiry (btr_step ev t ! i)"
    if "ev \<noteq> Second" "i < length t" "btr_active (t ! i)"
  proof (cases ev)
    case (Recorded k')
    show ?thesis
      by (rule btr_record_cases[of t "fst k'" "snd k'"]) (use Recorded that in \<open>auto simp: nth_list_update\<close>)
  qed (use that in simp)
  then show "ev \<noteq> Second \<Longrightarrow> i < length t \<Longrightarrow> btr_active (t ! i) \<Longrightarrow>
      btr_active (btr_step ev t ! i) \<and> btr_expiry (t ! i) \<le> btr_expiry (btr_step ev t ! i)"
    and "ev \<noteq> Second \<Longrightarrow> i < length t \<Longrightarrow> btr_active (t ! i) \<Longrightarrow> btr_key (t ! i) = k \<Longrightarrow>
      btr_key (btr_step ev t ! i) = k" by simp_all
qed

lemma btr_tick_key: "btr_key (btr_tick e) = btr_key e"
  by (simp add: btr_tick_def Let_def)

text \<open>Without a new record of the key, its records only lose lifetime.\<close>

definition btr_at_most :: "ShortAddress \<times> u8 \<Rightarrow> nat \<Rightarrow> BtrTable \<Rightarrow> bool" where
  "btr_at_most k n t \<longleftrightarrow> (\<forall>e\<in>set t. btr_active e \<longrightarrow> btr_key e = k \<longrightarrow>
     0 < unat (btr_expiry e) \<and> unat (btr_expiry e) \<le> n)"

lemma btr_at_most_recorded:
  assumes "btr_at_most k n t" "k' \<noteq> k"
  shows "btr_at_most k n (btr_step (Recorded k') t)"
proof (cases rule: btr_record_cases[of t "fst k'" "snd k'"])
  case (recorded i)
  with assms show ?thesis by (auto simp: btr_at_most_def dest!: subsetD[OF set_update_subset_insert])
qed (use assms in simp)

lemma btr_at_most_age:
  assumes "btr_at_most k n t"
  shows "btr_at_most k (n - 1) (BtrTable_age t)"
  unfolding btr_at_most_def
proof (intro ballI impI)
  fix e
  assume "e \<in> set (BtrTable_age t)" and live: "btr_active e" "btr_key e = k"
  then obtain x where x: "x \<in> set t" "e = btr_tick x" by (auto simp: BtrTable_age_def)
  with live have xl: "btr_active x" using btr.tick_dead[of x] by (cases "btr_active x") auto
  with x live assms have "unat (btr_expiry x) \<le> n"
    using btr_tick_key[of x] by (auto simp: btr_at_most_def)
  moreover have "unat (btr_expiry e) = unat (btr_expiry x) - 1"
    using x btr.tick_ttl[OF xl] by (simp add: unat_sat_sub)
  moreover have "0 < unat (btr_expiry e)"
    using x live btr.tick_live[OF xl] by (simp add: unat_gt_0)
  ultimately show "0 < unat (btr_expiry e) \<and> unat (btr_expiry e) \<le> n - 1" by linarith
qed

lemma btr_at_most_run:
  "btr_at_most k n t \<Longrightarrow> Recorded k \<notin> set evs \<Longrightarrow> btr_at_most k (n - btr_seconds evs) (btr_run evs t)"
proof (induction evs arbitrary: t n)
  case Nil
  then show ?case by simp
next
  case (Cons ev evs)
  show ?case
  proof (cases ev)
    case (Recorded k')
    with Cons.prems have "btr_at_most k n (btr_step ev t)" using btr_at_most_recorded[of k n t k'] by (auto simp del: btr_step.simps)
    from Cons.IH[OF this] Cons.prems(2) Recorded show ?thesis by simp
  next
    case Second
    with Cons.prems have "btr_at_most k (n - 1) (btr_step ev t)"
      using btr_at_most_age[of k n t] by simp
    from Cons.IH[OF this] Cons.prems(2) Second show ?thesis by simp
  qed
qed

lemma btr_at_most_0: "btr_at_most (s, q) 0 t \<Longrightarrow> \<not> BtrTable_is_duplicate t s q"
  by (fastforce simp: btr_at_most_def BtrTable_is_duplicate_def list_ex_iff)

text \<open>A run of the gate is a run of the table; only copies that were heard, and the one held back, are recorded.\<close>

definition copy_of :: "ShortAddress \<times> u8 \<Rightarrow> gate_event \<Rightarrow> bool" where
  "copy_of k ev \<longleftrightarrow> (\<exists>c. ev = Heard c \<and> (bc_src c, bc_seq_number c) = k)"

lemma gate_step_table:
  "\<exists>evs. bg_btr (gate_step ev g) = btr_run evs (bg_btr g) \<and> btr_seconds evs = (if ev = SecondPassed then 1 else 0) \<and>
     (\<forall>k. Recorded k \<in> set evs \<longrightarrow> copy_of k ev \<or> bg_pending_lifecycle_btr g = Some k) \<and>
     (\<forall>k. bg_pending_lifecycle_btr (gate_step ev g) = Some k \<longrightarrow> copy_of k ev \<or> bg_pending_lifecycle_btr g = Some k)"
proof (cases ev)
  case (Heard c)
  let ?k = "(bc_src c, bc_seq_number c)"
  have c: "copy_of ?k ev" using Heard by (simp add: copy_of_def)
  have "snd (btr_gate g c) = g \<or> snd (btr_gate g c) = g\<lparr>bg_pending_lifecycle_btr := Some ?k\<rparr> \<or>
      snd (btr_gate g c) = g\<lparr>bg_btr := snd (BtrTable_record (bg_btr g) (bc_src c) (bc_seq_number c))\<rparr>"
    by (simp add: btr_gate_def btr_settle_def)
  then consider "snd (btr_gate g c) = g" | "snd (btr_gate g c) = g\<lparr>bg_pending_lifecycle_btr := Some ?k\<rparr>"
    | "snd (btr_gate g c) = g\<lparr>bg_btr := snd (BtrTable_record (bg_btr g) (bc_src c) (bc_seq_number c))\<rparr>" by blast
  then show ?thesis
  proof cases
    case 1
    then show ?thesis using Heard by (intro exI[of _ "[]"]) simp
  next
    case 2
    then show ?thesis using Heard c by (intro exI[of _ "[]"]) auto
  next
    case 3
    then show ?thesis using Heard c by (intro exI[of _ "[Recorded ?k]"]) auto
  qed
next
  case Completed
  show ?thesis
  proof (cases "bg_pending_lifecycle_btr g")
    case None
    then show ?thesis using Completed by (intro exI[of _ "[]"]) (simp add: complete_btr_def)
  next
    case (Some k)
    then show ?thesis using Completed by (intro exI[of _ "[Recorded k]"]) (auto simp: complete_btr_def split: prod.splits)
  qed
next
  case Aborted
  then show ?thesis by (intro exI[of _ "[]"]) (simp add: abort_btr_def)
next
  case SecondPassed
  then show ?thesis by (intro exI[of _ "[Second]"]) simp
qed

lemma gate_run_table:
  "\<exists>tevs. bg_btr (gate_run evs g) = btr_run tevs (bg_btr g) \<and> btr_seconds tevs = gate_seconds evs \<and>
     (\<forall>k. Recorded k \<in> set tevs \<longrightarrow> list_ex (copy_of k) evs \<or> bg_pending_lifecycle_btr g = Some k)"
proof (induction evs arbitrary: g)
  case Nil
  show ?case by (intro exI[of _ "[]"]) simp
next
  case (Cons ev evs)
  obtain t1 where t1: "bg_btr (gate_step ev g) = btr_run t1 (bg_btr g)" "btr_seconds t1 = (if ev = SecondPassed then 1 else 0)"
    "\<forall>k. Recorded k \<in> set t1 \<longrightarrow> copy_of k ev \<or> bg_pending_lifecycle_btr g = Some k"
    "\<forall>k. bg_pending_lifecycle_btr (gate_step ev g) = Some k \<longrightarrow> copy_of k ev \<or> bg_pending_lifecycle_btr g = Some k"
    using gate_step_table[of ev g] by blast
  obtain t2 where t2: "bg_btr (gate_run evs (gate_step ev g)) = btr_run t2 (bg_btr (gate_step ev g))" "btr_seconds t2 = gate_seconds evs"
    "\<forall>k. Recorded k \<in> set t2 \<longrightarrow> list_ex (copy_of k) evs \<or> bg_pending_lifecycle_btr (gate_step ev g) = Some k"
    using Cons.IH[of "gate_step ev g"] by blast
  have "bg_btr (gate_run (ev # evs) g) = btr_run (t1 @ t2) (bg_btr g)" using t1(1) t2(1) by simp
  moreover have "btr_seconds (t1 @ t2) = gate_seconds (ev # evs)" using t1(2) t2(2) by simp
  moreover have "list_ex (copy_of k) (ev # evs) \<or> bg_pending_lifecycle_btr g = Some k" if "Recorded k \<in> set (t1 @ t2)" for k
  proof -
    from that consider "Recorded k \<in> set t1" | "Recorded k \<in> set t2" by auto
    then show ?thesis
    proof cases
      case 1
      with t1(3) have "copy_of k ev \<or> bg_pending_lifecycle_btr g = Some k" by blast
      then show ?thesis by auto
    next
      case 2
      with t2(3) have "list_ex (copy_of k) evs \<or> bg_pending_lifecycle_btr (gate_step ev g) = Some k" by blast
      with t1(4) have "list_ex (copy_of k) evs \<or> copy_of k ev \<or> bg_pending_lifecycle_btr g = Some k" by blast
      then show ?thesis by auto
    qed
  qed
  ultimately show ?case by blast
qed

text \<open>The copy that is recorded, at once or when its floor is durable.\<close>

lemma accepted_copy_recorded:
  assumes "btr_gate g c = (True, g1)" "records_broadcast c" "bc_deferred c \<longrightarrow> bc_authenticated c" "bg_pending_lifecycle_btr g = None"
    and g2: "g2 = (if bc_deferred c then complete_btr g1 else g1)"
  obtains i where "i < length (bg_btr g)" "\<not> BtrTable_is_duplicate (bg_btr g) (bc_src c) (bc_seq_number c)"
    "bg_btr g2 = (bg_btr g)[i := \<lparr>btr_src_addr = bc_src c, btr_seq_number = bc_seq_number c, btr_expiry = 9, btr_active = True\<rparr>]"
    "bg_pending_lifecycle_btr g2 = None"
proof -
  have adm: "\<not> BtrTable_is_duplicate (bg_btr g) (bc_src c) (bc_seq_number c)" "\<not> BtrTable_is_full (bg_btr g)"
    using assms(1,2) by (auto simp: btr_gate_def btr_admits_def split: if_splits)
  have g1: "btr_settle g c = (True, g1)" using assms(1) by (simp add: btr_gate_def split: if_splits)
  have "bg_btr g2 = snd (BtrTable_record (bg_btr g) (bc_src c) (bc_seq_number c)) \<and> bg_pending_lifecycle_btr g2 = None"
    using g1 assms(2-4) unfolding g2 by (auto simp: btr_settle_def complete_btr_def split: if_splits)
  with adm that show thesis by (cases rule: btr_record_cases[of "bg_btr g" "bc_src c" "bc_seq_number c"]) auto
qed


definition example_copy :: "ShortAddress \<Rightarrow> u8 \<Rightarrow> u8 \<Rightarrow> ShortAddress \<Rightarrow> bool \<Rightarrow> BroadcastCopy" where
  "example_copy src seqn radius previous deferred = \<lparr>bc_src = src, bc_seq_number = seqn, bc_radius = radius, bc_prev_hop = Some previous,
     bc_authenticated = True, bc_deferred = deferred, bc_committed = True\<rparr>"


section \<open>Route Request forwarding records\<close>

definition MAX_RREQ_RECORDS :: nat where
  "MAX_RREQ_RECORDS = 8"

definition RREQ_RECORD_LIFETIME_SECS :: u8 where
  "RREQ_RECORD_LIFETIME_SECS = 12"

text \<open>\<^verbatim>\<open>MAX_RREQ_SENDERS = crate::neighbor::MAX_NEIGHBORS\<close>, 32 in the router build.\<close>

definition MAX_RREQ_SENDERS :: nat where
  "MAX_RREQ_SENDERS = 32"

record RreqRecord =
  rr_originator :: ShortAddress
  rr_route_request_id :: u8
  rr_senders :: "ShortAddress list"
  rr_sender_count :: u8
  rr_forward_cost :: u8
  rr_expiry :: u8
  rr_active :: bool

definition RreqRecord_empty :: RreqRecord where
  "RreqRecord_empty = \<lparr>rr_originator = 0xFFFF, rr_route_request_id = 0,
     rr_senders = replicate MAX_RREQ_SENDERS 0xFFFF, rr_sender_count = 0,
     rr_forward_cost = 0xFF, rr_expiry = 0, rr_active = False\<rparr>"

type_synonym RreqRecordTable = "RreqRecord list"

definition RreqRecordTable_new :: RreqRecordTable where
  "RreqRecordTable_new = replicate MAX_RREQ_RECORDS RreqRecord_empty"

abbreviation rr_for :: "ShortAddress \<Rightarrow> u8 \<Rightarrow> RreqRecord \<Rightarrow> bool" where
  "rr_for og rid e \<equiv> rr_active e \<and> rr_originator e = og \<and> rr_route_request_id e = rid"

text \<open>
  The update of the matching record in \<^verbatim>\<open>admit\<close>; \<^term>\<open>None\<close> is the refusal, which leaves the
  record as it is.
\<close>

definition rreq_readmit :: "RreqRecord \<Rightarrow> ShortAddress \<Rightarrow> u8 \<Rightarrow> RreqRecord option" where
  "rreq_readmit e sender forward_cost =
     (if forward_cost > rr_forward_cost e then None
      else if forward_cost < rr_forward_cost e
      then Some (e\<lparr>rr_senders := (rr_senders e)[0 := sender], rr_sender_count := 1,
             rr_forward_cost := forward_cost, rr_expiry := RREQ_RECORD_LIFETIME_SECS\<rparr>)
      else let sender_count = unat (rr_sender_count e)
           in if sender \<in> set (take sender_count (rr_senders e)) then None
              else if sender_count = length (rr_senders e) then None
              else Some (e\<lparr>rr_senders := (rr_senders e)[sender_count := sender],
                     rr_sender_count := rr_sender_count e + 1,
                     rr_forward_cost := forward_cost, rr_expiry := RREQ_RECORD_LIFETIME_SECS\<rparr>))"

definition RreqRecord_first :: "ShortAddress \<Rightarrow> u8 \<Rightarrow> ShortAddress \<Rightarrow> u8 \<Rightarrow> RreqRecord" where
  "RreqRecord_first originator rid sender forward_cost =
     \<lparr>rr_originator = originator, rr_route_request_id = rid,
      rr_senders = (replicate MAX_RREQ_SENDERS 0xFFFF)[0 := sender], rr_sender_count = 1,
      rr_forward_cost = forward_cost, rr_expiry = RREQ_RECORD_LIFETIME_SECS, rr_active = True\<rparr>"

definition RreqRecordTable_admit ::
    "RreqRecordTable \<Rightarrow> ShortAddress \<Rightarrow> u8 \<Rightarrow> ShortAddress \<Rightarrow> u8 \<Rightarrow> bool \<times> RreqRecordTable" where
  "RreqRecordTable_admit t originator rid sender forward_cost =
     (case position (rr_for originator rid) t of
        Some i \<Rightarrow>
          (case rreq_readmit (t ! i) sender forward_cost of
             None \<Rightarrow> (False, t)
           | Some e \<Rightarrow> (True, t[i := e]))
      | None \<Rightarrow>
          (case position (\<lambda>e. \<not> rr_active e) t of
             None \<Rightarrow> (False, t)
           | Some i \<Rightarrow> (True, t[i := RreqRecord_first originator rid sender forward_cost])))"

definition RreqRecordTable_remove :: "RreqRecordTable \<Rightarrow> ShortAddress \<Rightarrow> u8 \<Rightarrow> RreqRecordTable" where
  "RreqRecordTable_remove t originator rid =
     update_first (rr_for originator rid) (\<lambda>e. e\<lparr>rr_active := False\<rparr>) t"

definition rreq_tick :: "RreqRecord \<Rightarrow> RreqRecord" where
  "rreq_tick e =
     (if rr_active e
      then let e' = e\<lparr>rr_expiry := sat_sub (rr_expiry e) 1\<rparr>
           in if rr_expiry e' = 0 then e'\<lparr>rr_active := False\<rparr> else e'
      else e)"

definition RreqRecordTable_age :: "RreqRecordTable \<Rightarrow> RreqRecordTable" where
  "RreqRecordTable_age t = map rreq_tick t"

definition RreqRecordTable_recorded_cost :: "RreqRecordTable \<Rightarrow> ShortAddress \<Rightarrow> u8 \<Rightarrow> u8 option" where
  "RreqRecordTable_recorded_cost t originator rid =
     map_option rr_forward_cost (find (rr_for originator rid) t)"

datatype rreq_event = RreqCopy ShortAddress u8 ShortAddress u8 | RreqSecond

fun rreq_step :: "rreq_event \<Rightarrow> RreqRecordTable \<Rightarrow> RreqRecordTable" where
  "rreq_step (RreqCopy originator rid sender cost) t =
     snd (RreqRecordTable_admit t originator rid sender cost)"
| "rreq_step RreqSecond t = RreqRecordTable_age t"

abbreviation rreq_seconds :: "rreq_event list \<Rightarrow> nat" where
  "rreq_seconds evs \<equiv> length (filter (\<lambda>ev. ev = RreqSecond) evs)"

abbreviation rr_key :: "RreqRecord \<Rightarrow> ShortAddress \<times> u8" where
  "rr_key e \<equiv> (rr_originator e, rr_route_request_id e)"

definition rr_wf :: "RreqRecordTable \<Rightarrow> bool" where
  "rr_wf t \<longleftrightarrow> length t = MAX_RREQ_RECORDS \<and> slot_uniq rr_active rr_key t \<and>
     (\<forall>e\<in>set t. length (rr_senders e) = MAX_RREQ_SENDERS \<and>
        unat (rr_sender_count e) \<le> MAX_RREQ_SENDERS \<and> rr_expiry e \<le> RREQ_RECORD_LIFETIME_SECS)"

interpretation rr: slot_array rr_active rr_key "\<lambda>e. e\<lparr>rr_active := False\<rparr>"
  by unfold_locales simp

lemmas rreq_readmit_cases = rreq_readmit_def Let_def

lemma rreq_readmit_kept:
  assumes "rreq_readmit e s c = Some e'"
  shows "rr_active e' = rr_active e" "rr_key e' = rr_key e" "rr_expiry e' = RREQ_RECORD_LIFETIME_SECS"
    "rr_forward_cost e' = c" "c \<le> rr_forward_cost e"
    "length (rr_senders e') = length (rr_senders e)"
  using assms by (auto simp: rreq_readmit_cases split: if_splits)

lemma unat_succ_u8: "unat (w :: u8) < 255 \<Longrightarrow> unat (w + 1) = unat w + 1"
  by (simp add: unat_word_ariths)

lemma rreq_readmit_count:
  assumes "rreq_readmit e s c = Some e'" "length (rr_senders e) = MAX_RREQ_SENDERS"
    "unat (rr_sender_count e) \<le> MAX_RREQ_SENDERS"
  shows "unat (rr_sender_count e') \<le> MAX_RREQ_SENDERS"
  using assms by (auto simp: rreq_readmit_cases MAX_RREQ_SENDERS_def unat_succ_u8 split: if_splits)

text \<open>The sender of an accepted copy is in the record's list at its cost.\<close>

definition rr_seen :: "RreqRecord \<Rightarrow> ShortAddress \<Rightarrow> u8 \<Rightarrow> bool" where
  "rr_seen e s c \<longleftrightarrow> rr_forward_cost e < c \<or>
     rr_forward_cost e = c \<and> s \<in> set (take (unat (rr_sender_count e)) (rr_senders e))"

lemma rr_seen_refused: "rr_seen e s c \<Longrightarrow> c \<le> c' \<Longrightarrow> rreq_readmit e s c' = None"
  by (auto simp: rr_seen_def rreq_readmit_cases not_less dest: order.strict_trans1 order.strict_trans2)

lemma take_Suc_update: "n < length xs \<Longrightarrow> take (Suc n) (xs[n := x]) = take n xs @ [x]"
  by (simp add: take_Suc_conv_app_nth)

lemma rr_seen_readmit:
  assumes "rreq_readmit e s c = Some e'" "length (rr_senders e) = MAX_RREQ_SENDERS"
    "unat (rr_sender_count e) \<le> MAX_RREQ_SENDERS"
  shows "rr_seen e' s c" and "rr_seen e s' c' \<Longrightarrow> rr_seen e' s' c'"
proof -
  have ne: "0 < length (rr_senders e)" using assms(2) by (simp add: MAX_RREQ_SENDERS_def)
  then have t1: "take (Suc 0) ((rr_senders e)[0 := s]) = [s]" by (cases "rr_senders e") simp_all
  have cnt: "unat (rr_sender_count e + 1) = Suc (unat (rr_sender_count e))"
    using assms(3) by (simp add: unat_succ_u8 MAX_RREQ_SENDERS_def)
  show "rr_seen e' s c"
    using assms t1 cnt
    by (auto simp: rreq_readmit_cases rr_seen_def take_Suc_update MAX_RREQ_SENDERS_def split: if_splits)
  show "rr_seen e' s' c'" if "rr_seen e s' c'"
    using assms cnt that
    by (auto simp: rreq_readmit_cases rr_seen_def take_Suc_update MAX_RREQ_SENDERS_def not_less
        split: if_splits)
qed

lemma rr_update_wf:
  assumes "rr_wf t" "i < length t" "length (rr_senders e) = MAX_RREQ_SENDERS"
    "unat (rr_sender_count e) \<le> MAX_RREQ_SENDERS" "rr_expiry e \<le> RREQ_RECORD_LIFETIME_SECS"
    "rr_active (t ! i) \<and> rr_key (t ! i) = rr_key e \<or> (\<forall>x\<in>set t. rr_active x \<longrightarrow> rr_key x \<noteq> rr_key e)"
  shows "rr_wf (t[i := e])"
proof -
  have u: "slot_uniq rr_active rr_key t" using assms(1) by (simp add: rr_wf_def)
  have "rr_key (t ! j) \<noteq> rr_key e" if "j < length t" "j \<noteq> i" "rr_active (t ! j)" for j
    using that assms(2,6) u unfolding slot_uniq_def by (metis nth_mem)
  then have "slot_uniq rr_active rr_key (t[i := e])" using u by (intro rr.uniq_update) auto
  with assms(1,3-5) show ?thesis
    using set_update_subset_insert[of t i e] by (auto simp: rr_wf_def)
qed

lemma rr_admit_cases:
  assumes wf: "rr_wf t"
  obtains (refused) "RreqRecordTable_admit t og rid s c = (False, t)"
    | (again) i e where "i < length t" "rr_for og rid (t ! i)" "rreq_readmit (t ! i) s c = Some e"
        "RreqRecordTable_admit t og rid s c = (True, t[i := e])"
    | (fresh) i where "i < length t" "\<not> rr_active (t ! i)" "\<forall>x\<in>set t. \<not> rr_for og rid x"
        "RreqRecordTable_admit t og rid s c = (True, t[i := RreqRecord_first og rid s c])"
proof (cases "position (rr_for og rid) t")
  case None
  then have n: "\<forall>x\<in>set t. \<not> rr_for og rid x" unfolding position_None_iff .
  show ?thesis
  proof (cases "position (\<lambda>e. \<not> rr_active e) t")
    case None': None
    with None show ?thesis by (intro refused) (simp add: RreqRecordTable_admit_def)
  next
    case (Some i)
    with None n show ?thesis
      by (intro fresh[of i]) (auto simp: RreqRecordTable_admit_def dest: position_SomeD)
  qed
next
  case (Some i)
  then show ?thesis
    by (cases "rreq_readmit (t ! i) s c")
      (auto simp: RreqRecordTable_admit_def dest: position_SomeD intro: refused again[of i])
qed

lemma rr_wf_new [wf_intros]: "rr_wf RreqRecordTable_new"
  by (auto simp: rr_wf_def RreqRecordTable_new_def RreqRecord_empty_def slot_uniq_def)

lemma rr_wf_admit [wf_intros]:
  assumes wf: "rr_wf t"
  shows "rr_wf (snd (RreqRecordTable_admit t og rid s c))"
  using wf
proof (cases rule: rr_admit_cases[of _ og rid s c])
  case refused
  with wf show ?thesis by simp
next
  case (again i e)
  have ti: "length (rr_senders (t ! i)) = MAX_RREQ_SENDERS"
    "unat (rr_sender_count (t ! i)) \<le> MAX_RREQ_SENDERS"
    using wf again(1) by (auto simp: rr_wf_def)
  from rreq_readmit_kept[OF again(3)] rreq_readmit_count[OF again(3) ti] again ti
  show ?thesis by (auto intro!: rr_update_wf[OF wf])
next
  case (fresh i)
  then show ?thesis
    by (auto intro!: rr_update_wf[OF wf] simp: RreqRecord_first_def MAX_RREQ_SENDERS_def)
qed

lemma rreq_tick_fields:
  "rr_key (rreq_tick e) = rr_key e" "rr_senders (rreq_tick e) = rr_senders e"
  "rr_sender_count (rreq_tick e) = rr_sender_count e" "rr_forward_cost (rreq_tick e) = rr_forward_cost e"
  "rr_active (rreq_tick e) \<Longrightarrow> rr_active e" "rr_expiry (rreq_tick e) \<le> rr_expiry e"
  by (auto simp: rreq_tick_def Let_def word_le_nat_alt unat_sat_sub split: if_splits)

lemma rr_wf_age [wf_intros]: "rr_wf t \<Longrightarrow> rr_wf (RreqRecordTable_age t)"
  unfolding rr_wf_def RreqRecordTable_age_def
  using rreq_tick_fields by (auto intro!: rr.uniq_map order.trans[OF rreq_tick_fields(6)])

lemma rr_wf_remove [wf_intros]: "rr_wf t \<Longrightarrow> rr_wf (RreqRecordTable_remove t og rid)"
  using set_update_first[of "rr_for og rid" "\<lambda>e. e\<lparr>rr_active := False\<rparr>" t]
  by (fastforce simp: rr_wf_def RreqRecordTable_remove_def intro: rr.uniq_retire_first)

interpretation rreq: no_evict_table rr_active rr_expiry rreq_tick
  "\<lambda>e. rr_key e = k \<and> rr_seen e s c" rreq_step "\<lambda>ev. ev = RreqSecond" rr_wf for k s c
proof
  fix e :: RreqRecord and ev :: rreq_event and t :: RreqRecordTable and i
  show "\<not> rr_active e \<Longrightarrow> rreq_tick e = e" by (simp add: rreq_tick_def)
  show "rr_active e \<Longrightarrow> rr_expiry (rreq_tick e) = sat_sub (rr_expiry e) 1"
    by (simp add: rreq_tick_def Let_def)
  show "rr_active e \<Longrightarrow> rr_active (rreq_tick e) \<longleftrightarrow> rr_expiry (rreq_tick e) \<noteq> 0"
    by (simp add: rreq_tick_def Let_def)
  show "rr_key e = k \<and> rr_seen e s c \<Longrightarrow> rr_key (rreq_tick e) = k \<and> rr_seen (rreq_tick e) s c"
    using rreq_tick_fields(1)[of e] by (simp add: rr_seen_def rreq_tick_fields)
  show "ev = RreqSecond \<Longrightarrow> rreq_step ev t = map rreq_tick t" by (simp add: RreqRecordTable_age_def)
  show "length (rreq_step ev t) = length t"
    by (cases ev) (auto simp: RreqRecordTable_age_def RreqRecordTable_admit_def split: option.splits)
  show "rr_wf t \<Longrightarrow> rr_wf (rreq_step ev t)" by (cases ev) (simp_all add: rr_wf_admit rr_wf_age)
  have step: "rr_active (rreq_step ev t ! i) \<and> rr_expiry (t ! i) \<le> rr_expiry (rreq_step ev t ! i) \<and>
      rr_key (rreq_step ev t ! i) = rr_key (t ! i) \<and> (rr_seen (t ! i) s c \<longrightarrow> rr_seen (rreq_step ev t ! i) s c)"
    if wf: "rr_wf t" and ev: "ev \<noteq> RreqSecond" and i: "i < length t" "rr_active (t ! i)"
  proof -
    from ev obtain og rid s' c' where ev': "ev = RreqCopy og rid s' c'" by (cases ev) auto
    have ti: "length (rr_senders (t ! i)) = MAX_RREQ_SENDERS"
      "unat (rr_sender_count (t ! i)) \<le> MAX_RREQ_SENDERS" "rr_expiry (t ! i) \<le> RREQ_RECORD_LIFETIME_SECS"
      using wf i(1) by (auto simp: rr_wf_def)
    from wf show ?thesis
    proof (cases rule: rr_admit_cases[of _ og rid s' c'])
      case refused
      with ev' i show ?thesis by simp
    next
      case (again j e)
      show ?thesis
      proof (cases "j = i")
        case True
        from rreq_readmit_kept[OF again(3)] rr_seen_readmit(2)[OF again(3)] ti
        show ?thesis using again i ev' True by simp
      next
        case False
        with again i ev' show ?thesis by simp
      qed
    next
      case (fresh j)
      with i ev' show ?thesis by (cases "j = i") simp_all
    qed
  qed
  then show "rr_wf t \<Longrightarrow> ev \<noteq> RreqSecond \<Longrightarrow> i < length t \<Longrightarrow> rr_active (t ! i) \<Longrightarrow>
      rr_active (rreq_step ev t ! i) \<and> rr_expiry (t ! i) \<le> rr_expiry (rreq_step ev t ! i)"
    and "rr_wf t \<Longrightarrow> ev \<noteq> RreqSecond \<Longrightarrow> i < length t \<Longrightarrow> rr_active (t ! i) \<Longrightarrow>
      rr_key (t ! i) = k \<and> rr_seen (t ! i) s c \<Longrightarrow>
      rr_key (rreq_step ev t ! i) = k \<and> rr_seen (rreq_step ev t ! i) s c" by simp_all
qed

lemma rr_admit_records:
  assumes wf: "rr_wf t" and adm: "RreqRecordTable_admit t og rid s c = (True, t')"
  obtains i where "i < length t'" "rr_active (t' ! i)" "rr_key (t' ! i) = (og, rid)"
    "rr_seen (t' ! i) s c" "rr_expiry (t' ! i) = RREQ_RECORD_LIFETIME_SECS"
  using wf
proof (cases rule: rr_admit_cases[of _ og rid s c])
  case refused
  with adm show ?thesis by simp
next
  case (again i e)
  have ti: "length (rr_senders (t ! i)) = MAX_RREQ_SENDERS"
    "unat (rr_sender_count (t ! i)) \<le> MAX_RREQ_SENDERS"
    using wf again(1) by (auto simp: rr_wf_def)
  from that[of i] rreq_readmit_kept[OF again(3)] rr_seen_readmit(1)[OF again(3) ti] again adm
  show ?thesis by simp
next
  case (fresh i)
  have "take (Suc 0) ((replicate MAX_RREQ_SENDERS 0xFFFF)[0 := s]) = [s]"
    using take_Suc_update[of 0 "replicate MAX_RREQ_SENDERS 0xFFFF" s] by (simp add: MAX_RREQ_SENDERS_def)
  with fresh that[of i] adm show ?thesis
    by (simp add: RreqRecord_first_def rr_seen_def)
qed

text \<open>
  C28: after a Route Request copy is admitted, whatever further copies arrive within twelve
  seconds, a copy of the same discovery from the same neighbour with the same or a higher
  path cost is refused, so repeated transmissions never restart the flood; and the best
  cost recorded for the discovery never gets worse.
\<close>

theorem rreq_admits_no_repeat:
  assumes "rr_wf t" "RreqRecordTable_admit t og rid s c = (True, t')" "rreq_seconds evs < 12" "c \<le> c'"
  shows "\<not> fst (RreqRecordTable_admit (fold rreq_step evs t') og rid s c') \<and>
    (\<exists>best\<le>c. RreqRecordTable_recorded_cost (fold rreq_step evs t') og rid = Some best)"
proof -
  have wf': "rr_wf t'" using rr_wf_admit[OF assms(1), of og rid s c] assms(2) by simp
  from assms(1,2) obtain i where i: "i < length t'" "rr_active (t' ! i)" "rr_key (t' ! i) = (og, rid)"
    "rr_seen (t' ! i) s c" "rr_expiry (t' ! i) = RREQ_RECORD_LIFETIME_SECS" by (rule rr_admit_records)
  let ?t = "fold rreq_step evs t'"
  have alive: "rr_active (?t ! i) \<and> rr_key (?t ! i) = (og, rid) \<and> rr_seen (?t ! i) s c"
    by (rule rreq.survives[OF wf' i(1,2)]) (use i assms(3) in \<open>auto simp: RREQ_RECORD_LIFETIME_SECS_def\<close>)
  have len: "i < length ?t" using i(1) by (simp add: rreq.run_length)
  have wf: "rr_wf ?t" by (rule rreq.run_invar[OF wf'])
  have pos: "position (rr_for og rid) ?t = Some i"
  proof -
    obtain j where j: "position (rr_for og rid) ?t = Some j"
      using position_Some_exists[of "?t ! i" ?t "rr_for og rid"] alive len by auto
    with wf alive len show ?thesis
      by (auto simp: rr_wf_def slot_uniq_def dest!: position_SomeD)
  qed
  have "\<not> fst (RreqRecordTable_admit ?t og rid s c')"
    using pos alive rr_seen_refused[of "?t ! i" s c c'] assms(4) by (simp add: RreqRecordTable_admit_def)
  moreover have "RreqRecordTable_recorded_cost ?t og rid = Some (rr_forward_cost (?t ! i))"
    using pos by (simp add: RreqRecordTable_recorded_cost_def find_position)
  ultimately show ?thesis using alive by (auto simp: rr_seen_def)
qed

theorem rreq_admits_no_repeat_witness:
  "\<not> fst (RreqRecordTable_admit (fold rreq_step [RreqCopy 1 2 8 4, RreqSecond]
     (snd (RreqRecordTable_admit RreqRecordTable_new 1 2 9 5))) 1 2 9 5)"
  using rreq_admits_no_repeat[OF rr_wf_new, of 1 2 9 5
      "snd (RreqRecordTable_admit RreqRecordTable_new 1 2 9 5)" "[RreqCopy 1 2 8 4, RreqSecond]" 5]
  by (simp add: RreqRecordTable_admit_def RreqRecordTable_new_def MAX_RREQ_RECORDS_def
      RreqRecord_empty_def numeral_eq_Suc)

section \<open>The broadcast transmission schedule\<close>

definition MAX_PENDING_BROADCASTS :: nat where
  "MAX_PENDING_BROADCASTS = 4"

definition MAX_PASSIVE_ACK_NEIGHBORS :: nat where
  "MAX_PASSIVE_ACK_NEIGHBORS = 8"

record PendingBroadcast =
  pb_src :: ShortAddress
  pb_seq :: u8
  pb_frame :: "u8 list"
  pb_retries_left :: u8
  pb_deadline_us :: u32
  pb_sent :: bool
  pb_rreq :: bool
  pb_handle :: u8
  pb_heard :: "ShortAddress list"

type_synonym BroadcastTxTable = "PendingBroadcast list"

definition BroadcastTxTable_new :: BroadcastTxTable where
  "BroadcastTxTable_new = []"

definition BroadcastTxTable_can_schedule :: "BroadcastTxTable \<Rightarrow> bool" where
  "BroadcastTxTable_can_schedule t \<longleftrightarrow> length t \<noteq> MAX_PENDING_BROADCASTS \<or> list_ex pb_sent t"

definition BroadcastTxTable_unsent :: "BroadcastTxTable \<Rightarrow> nat" where
  "BroadcastTxTable_unsent t = length (filter (\<lambda>e. \<not> pb_sent e) t)"

definition BroadcastTxTable_can_schedule_route_request :: "BroadcastTxTable \<Rightarrow> bool" where
  "BroadcastTxTable_can_schedule_route_request t \<longleftrightarrow>
     BroadcastTxTable_unsent t + 1 < MAX_PENDING_BROADCASTS"

definition BroadcastTxTable_unsent_route_requests :: "BroadcastTxTable \<Rightarrow> nat" where
  "BroadcastTxTable_unsent_route_requests t = length (filter (\<lambda>e. pb_rreq e \<and> \<not> pb_sent e) t)"

definition schedule_victim :: "BroadcastTxTable \<Rightarrow> nat option" where
  "schedule_victim t =
     (case position (\<lambda>e. pb_sent e \<and> \<not> pb_rreq e) t of
        Some i \<Rightarrow> Some i
      | None \<Rightarrow> position pb_sent t)"

definition BroadcastTxTable_schedule ::
    "BroadcastTxTable \<Rightarrow> PendingBroadcast \<Rightarrow> bool \<times> BroadcastTxTable" where
  "BroadcastTxTable_schedule t pending =
     (let t' = (if length t = MAX_PENDING_BROADCASTS \<and> \<not> pb_sent pending
                then (case schedule_victim t of None \<Rightarrow> t | Some index \<Rightarrow> swap_remove index t)
                else t)
      in case vec_push MAX_PENDING_BROADCASTS pending t' of
           None \<Rightarrow> (False, t')
         | Some t'' \<Rightarrow> (True, t''))"

definition BroadcastTxTable_note_relay ::
    "BroadcastTxTable \<Rightarrow> ShortAddress \<Rightarrow> u8 \<Rightarrow> ShortAddress \<Rightarrow> BroadcastTxTable" where
  "BroadcastTxTable_note_relay t src seqn heard_by =
     update_first (\<lambda>e. pb_src e = src \<and> pb_seq e = seqn)
       (\<lambda>e. if heard_by \<in> set (pb_heard e) then e
            else e\<lparr>pb_heard := vec_push_ignore MAX_PASSIVE_ACK_NEIGHBORS heard_by (pb_heard e)\<rparr>) t"

definition BroadcastTxTable_clear :: "BroadcastTxTable \<Rightarrow> BroadcastTxTable" where
  "BroadcastTxTable_clear t = []"

definition btx_wf :: "BroadcastTxTable \<Rightarrow> bool" where
  "btx_wf t \<longleftrightarrow> length t \<le> MAX_PENDING_BROADCASTS \<and>
     (\<forall>e\<in>set t. length (pb_heard e) \<le> MAX_PASSIVE_ACK_NEIGHBORS \<and> distinct (pb_heard e))"

lemma schedule_victim_None: "schedule_victim t = None \<longleftrightarrow> \<not> list_ex pb_sent t"
  by (auto simp: schedule_victim_def position_None_iff list_ex_iff split: option.splits
      dest: position_SomeD nth_mem)

lemma schedule_victim_Some:
  assumes "schedule_victim t = Some i"
  shows "i < length t" "pb_sent (t ! i)" "pb_rreq (t ! i) \<Longrightarrow> x \<in> set t \<Longrightarrow> pb_sent x \<Longrightarrow> pb_rreq x"
proof -
  consider "position (\<lambda>e. pb_sent e \<and> \<not> pb_rreq e) t = Some i"
    | "position (\<lambda>e. pb_sent e \<and> \<not> pb_rreq e) t = None" "position pb_sent t = Some i"
    using assms by (auto simp: schedule_victim_def split: option.splits)
  then have "i < length t \<and> pb_sent (t ! i) \<and>
      (pb_rreq (t ! i) \<longrightarrow> (\<forall>x\<in>set t. pb_sent x \<longrightarrow> pb_rreq x))"
    by cases (auto simp: position_None_iff dest: position_SomeD)
  then show "i < length t" "pb_sent (t ! i)" "pb_rreq (t ! i) \<Longrightarrow> x \<in> set t \<Longrightarrow> pb_sent x \<Longrightarrow> pb_rreq x"
    by blast+
qed

lemma btx_wf_schedule [wf_intros]:
  assumes "btx_wf t" "length (pb_heard p) \<le> MAX_PASSIVE_ACK_NEIGHBORS" "distinct (pb_heard p)"
  shows "btx_wf (snd (BroadcastTxTable_schedule t p))"
proof (cases "length t = MAX_PENDING_BROADCASTS \<and> \<not> pb_sent p")
  case True
  show ?thesis
  proof (cases "schedule_victim t")
    case None
    with True assms show ?thesis by (simp add: BroadcastTxTable_schedule_def vec_push_def)
  next
    case (Some i)
    from schedule_victim_Some(1)[OF Some] set_swap_remove[of i t] True Some assms show ?thesis
      by (auto simp: BroadcastTxTable_schedule_def vec_push_def btx_wf_def Let_def)
  qed
next
  case False
  with assms show ?thesis
    by (auto simp: BroadcastTxTable_schedule_def vec_push_def btx_wf_def)
qed

lemma btx_wf_note_relay [wf_intros]: "btx_wf t \<Longrightarrow> btx_wf (BroadcastTxTable_note_relay t s q b)"
  using set_update_first[of "\<lambda>e. pb_src e = s \<and> pb_seq e = q"
      "\<lambda>e. if b \<in> set (pb_heard e) then e
            else e\<lparr>pb_heard := vec_push_ignore MAX_PASSIVE_ACK_NEIGHBORS b (pb_heard e)\<rparr>" t]
  by (auto simp: btx_wf_def BroadcastTxTable_note_relay_def vec_push_ignore_def split: if_splits
      dest!: subsetD)

text \<open>
  Scheduling a broadcast succeeds exactly when a slot is free or (for one not yet on
  air) some entry has already been transmitted; a refusal changes nothing; a success adds the
  broadcast and gives up at most one other, which is always one already on air, and a Route
  Request only when no ordinary broadcast on air could be given up instead.
\<close>

theorem schedule_displaces_only_sent:
  assumes "length t \<le> MAX_PENDING_BROADCASTS"
  shows "fst (BroadcastTxTable_schedule t p) =
      (length t < MAX_PENDING_BROADCASTS \<or> \<not> pb_sent p \<and> BroadcastTxTable_can_schedule t) \<and>
    (\<not> fst (BroadcastTxTable_schedule t p) \<longrightarrow> snd (BroadcastTxTable_schedule t p) = t) \<and>
    (fst (BroadcastTxTable_schedule t p) \<longrightarrow>
      (\<exists>lost. add_mset p (mset t) = mset (snd (BroadcastTxTable_schedule t p)) + mset lost \<and>
         length lost \<le> 1 \<and> (length t < MAX_PENDING_BROADCASTS \<or> pb_sent p \<longrightarrow> lost = []) \<and>
         (\<forall>e\<in>set lost. pb_sent e \<and> (pb_rreq e \<longrightarrow> (\<forall>x\<in>set t. pb_sent x \<longrightarrow> pb_rreq x)))))"
proof (cases "length t = MAX_PENDING_BROADCASTS \<and> \<not> pb_sent p")
  case False
  with assms show ?thesis
    by (auto simp: BroadcastTxTable_schedule_def BroadcastTxTable_can_schedule_def vec_push_def
        intro!: exI[of _ "[]"])
next
  case True
  show ?thesis
  proof (cases "schedule_victim t")
    case None
    with True show ?thesis
      by (simp add: BroadcastTxTable_schedule_def BroadcastTxTable_can_schedule_def vec_push_def
          schedule_victim_None[symmetric])
  next
    case (Some i)
    then have "list_ex pb_sent t" using schedule_victim_None[of t] by fastforce
    moreover note v = schedule_victim_Some[OF Some]
    moreover have "BroadcastTxTable_schedule t p = (True, swap_remove i t @ [p])"
      using True Some v(1) by (auto simp: BroadcastTxTable_schedule_def vec_push_def)
    moreover have "\<exists>lost. add_mset p (mset t) = mset (swap_remove i t @ [p]) + mset lost \<and>
         length lost \<le> 1 \<and> (length t < MAX_PENDING_BROADCASTS \<or> pb_sent p \<longrightarrow> lost = []) \<and>
         (\<forall>e\<in>set lost. pb_sent e \<and> (pb_rreq e \<longrightarrow> (\<forall>x\<in>set t. pb_sent x \<longrightarrow> pb_rreq x)))"
      using mset_swap_remove[OF v(1)] v(2,3) True by (intro exI[of _ "[t ! i]"]) auto
    ultimately show ?thesis
      using True by (simp add: BroadcastTxTable_can_schedule_def)
  qed
qed

theorem schedule_displaces_only_sent_witness:
  "fst (BroadcastTxTable_schedule []
     \<lparr>pb_src = 1, pb_seq = 1, pb_frame = [], pb_retries_left = 0, pb_deadline_us = 0,
      pb_sent = False, pb_rreq = False, pb_handle = 0, pb_heard = []\<rparr>)"
  using schedule_displaces_only_sent[of "[]" "\<lparr>pb_src = 1, pb_seq = 1, pb_frame = [],
      pb_retries_left = 0, pb_deadline_us = 0, pb_sent = False, pb_rreq = False, pb_handle = 0,
      pb_heard = []\<rparr>"]
  by (simp add: MAX_PENDING_BROADCASTS_def)

text \<open>
  While a Route Request forward is admitted only under its own guard, an ordinary relay
  always finds a slot afterwards.
\<close>

lemma rreq_leaves_room:
  assumes "length t \<le> MAX_PENDING_BROADCASTS" "BroadcastTxTable_can_schedule_route_request t"
    "\<not> pb_sent p"
  shows "BroadcastTxTable_can_schedule (snd (BroadcastTxTable_schedule t p))"
proof (rule ccontr)
  let ?t = "snd (BroadcastTxTable_schedule t p)"
  assume c: "\<not> BroadcastTxTable_can_schedule ?t"
  then have full: "length ?t = MAX_PENDING_BROADCASTS" and uns: "\<forall>e\<in>set ?t. \<not> pb_sent e"
    by (auto simp: BroadcastTxTable_can_schedule_def list_ex_iff)
  from uns full have "BroadcastTxTable_unsent ?t = MAX_PENDING_BROADCASTS"
    by (simp add: BroadcastTxTable_unsent_def filter_id_conv)
  moreover have "BroadcastTxTable_unsent ?t \<le> BroadcastTxTable_unsent t + 1"
  proof -
    have "set (swap_remove i t) \<subseteq> set t \<and>
        length (filter (\<lambda>e. \<not> pb_sent e) (swap_remove i t)) \<le> length (filter (\<lambda>e. \<not> pb_sent e) t)"
      if "i < length t" for i
      using mset_swap_remove[OF that] set_swap_remove[OF that]
      by (metis add_mset_add_single filter_mset_add_mset mset_filter mset_subset_eq_add_left
          size_mset size_mset_mono filter_union_mset)
    then show ?thesis
      using assms(3) schedule_victim_Some(1)
      by (auto simp: BroadcastTxTable_unsent_def BroadcastTxTable_schedule_def vec_push_def Let_def
          MAX_PENDING_BROADCASTS_def split: option.splits)
  qed
  ultimately show False
    using assms(2) by (simp add: BroadcastTxTable_can_schedule_route_request_def)
qed

end
