(* ===== verification/Nwk_Frames.thy ===== *)
theory Nwk_Frames
  imports Zb_Types Table_Interfaces
begin

text \<open>
  \<^verbatim>\<open>zigbee-nwk/src/frames.rs\<close>: the NWK header and the payloads of the NWK commands.  A
  parser is a function of the whole slice with the source's explicit offsets, \<^term>\<open>None\<close> for
  the early returns; a serializer writes into a caller's buffer through the cursor of the
  prelude, \<^term>\<open>None\<close> for the panic of a slice write out of range (or, where the source says
  so, for its own \<^verbatim>\<open>None\<close>).  The byte sequence each serializer writes is named, and each pair is
  an instance of \<open>wire_codec\<close>.
\<close>

section \<open>Identifiers\<close>

definition NWKC_PROTOCOL_VERSION :: u8 where
  "NWKC_PROTOCOL_VERSION = 0x02"

datatype NwkFrameType = NftData | NftCommand | NftInterPan

datatype NwkCommandId = NcRouteRequest | NcRouteReply | NcNetworkStatus | NcLeave | NcRouteRecord
  | NcRejoinRequest | NcRejoinResponse | NcLinkStatus | NcNetworkReport | NcNetworkUpdate
  | NcEdTimeoutRequest | NcEdTimeoutResponse | NcLinkPowerDelta

text \<open>The \<^verbatim>\<open>repr(u8)\<close> discriminants, and the parser of the identifier byte.\<close>

fun NwkCommandId_to_u8 :: "NwkCommandId \<Rightarrow> u8" where
  "NwkCommandId_to_u8 NcRouteRequest = 0x01"
| "NwkCommandId_to_u8 NcRouteReply = 0x02"
| "NwkCommandId_to_u8 NcNetworkStatus = 0x03"
| "NwkCommandId_to_u8 NcLeave = 0x04"
| "NwkCommandId_to_u8 NcRouteRecord = 0x05"
| "NwkCommandId_to_u8 NcRejoinRequest = 0x06"
| "NwkCommandId_to_u8 NcRejoinResponse = 0x07"
| "NwkCommandId_to_u8 NcLinkStatus = 0x08"
| "NwkCommandId_to_u8 NcNetworkReport = 0x09"
| "NwkCommandId_to_u8 NcNetworkUpdate = 0x0A"
| "NwkCommandId_to_u8 NcEdTimeoutRequest = 0x0B"
| "NwkCommandId_to_u8 NcEdTimeoutResponse = 0x0C"
| "NwkCommandId_to_u8 NcLinkPowerDelta = 0x0D"

definition NwkCommandId_from_u8 :: "u8 \<Rightarrow> NwkCommandId option" where
  "NwkCommandId_from_u8 val =
     (if val = 0x01 then Some NcRouteRequest else if val = 0x02 then Some NcRouteReply
      else if val = 0x03 then Some NcNetworkStatus else if val = 0x04 then Some NcLeave
      else if val = 0x05 then Some NcRouteRecord else if val = 0x06 then Some NcRejoinRequest
      else if val = 0x07 then Some NcRejoinResponse else if val = 0x08 then Some NcLinkStatus
      else if val = 0x09 then Some NcNetworkReport else if val = 0x0A then Some NcNetworkUpdate
      else if val = 0x0B then Some NcEdTimeoutRequest
      else if val = 0x0C then Some NcEdTimeoutResponse
      else if val = 0x0D then Some NcLinkPowerDelta else None)"

lemma command_id_exact: "NwkCommandId_from_u8 b = Some c \<longleftrightarrow> b = NwkCommandId_to_u8 c"
  by (cases c) (auto simp: NwkCommandId_from_u8_def split: if_splits)

definition read_ieee :: "u8 list \<Rightarrow> nat \<Rightarrow> (IeeeAddress \<times> nat) option" where
  "read_ieee data offset = map_option (\<lambda>bytes. (bytes, offset + 8)) (slice offset 8 data)"

section \<open>Frame control\<close>

record NwkFrameControl =
  fc_frame_type :: u8
  fc_protocol_version :: u8
  fc_discover_route :: u8
  fc_multicast :: bool
  fc_security :: bool
  fc_source_route :: bool
  fc_dst_ieee_present :: bool
  fc_src_ieee_present :: bool
  fc_end_device_initiator :: bool

definition NwkFrameControl_parse :: "u16 \<Rightarrow> NwkFrameControl" where
  "NwkFrameControl_parse raw =
     \<lparr>fc_frame_type = ucast (raw AND 0x03),
      fc_protocol_version = ucast (drop_bit 2 raw AND 0x0F),
      fc_discover_route = ucast (drop_bit 6 raw AND 0x03),
      fc_multicast = (drop_bit 8 raw AND 1 \<noteq> 0),
      fc_security = (drop_bit 9 raw AND 1 \<noteq> 0),
      fc_source_route = (drop_bit 10 raw AND 1 \<noteq> 0),
      fc_dst_ieee_present = (drop_bit 11 raw AND 1 \<noteq> 0),
      fc_src_ieee_present = (drop_bit 12 raw AND 1 \<noteq> 0),
      fc_end_device_initiator = (drop_bit 13 raw AND 1 \<noteq> 0)\<rparr>"

definition flag_at :: "nat \<Rightarrow> bool \<Rightarrow> 'a::len word" where
  "flag_at n b = (if b then push_bit n 1 else 0)"

definition NwkFrameControl_serialize :: "NwkFrameControl \<Rightarrow> u16" where
  "NwkFrameControl_serialize fc =
     (ucast (fc_frame_type fc) AND 0x03) OR push_bit 2 (ucast (fc_protocol_version fc) AND 0x0F) OR
     push_bit 6 (ucast (fc_discover_route fc) AND 0x03) OR
     flag_at 8 (fc_multicast fc) OR flag_at 9 (fc_security fc) OR flag_at 10 (fc_source_route fc) OR
     flag_at 11 (fc_dst_ieee_present fc) OR flag_at 12 (fc_src_ieee_present fc) OR
     flag_at 13 (fc_end_device_initiator fc)"

definition fc_wf :: "NwkFrameControl \<Rightarrow> bool" where
  "fc_wf fc \<longleftrightarrow> fc_frame_type fc < 4 \<and> fc_protocol_version fc < 16 \<and> fc_discover_route fc < 4"

lemma masks: "(3 :: 'a::len word) = mask 2" "(0x0F :: 'a word) = mask 4" "(0x07 :: 'a word) = mask 3"
  "(0x1F :: 'a word) = mask 5"
  by (simp_all add: mask_eq_exp_minus_1)

lemma bit_one_word: "bit (1 :: 'a::len word) n \<longleftrightarrow> n = 0"
  by (simp add: bit_1_iff)

lemma flag_bit: "(drop_bit n w AND 1 \<noteq> (0 :: 'a::len word)) = bit w n"
  by (simp add: and_one_eq bit_iff_odd_drop_bit odd_iff_mod_2_eq_one)

lemma bit_flag_at: "n < LENGTH('a) \<Longrightarrow> bit (flag_at n b :: 'a::len word) m \<longleftrightarrow> b \<and> m = n"
  by (auto simp: flag_at_def bit_simps)

lemma word_small_bits: "(w :: 'a::len word) < 2 ^ n \<Longrightarrow> n < LENGTH('a) \<Longrightarrow> bit w m \<Longrightarrow> m < n"
  by (metis bit_take_bit_iff less_mask_eq take_bit_eq_mask mask_eq_exp_minus_1)

lemma fc_wf_bits:
  assumes "fc_wf fc"
  shows "bit (fc_frame_type fc) m \<Longrightarrow> m < 2" "bit (fc_protocol_version fc) m \<Longrightarrow> m < 4"
    "bit (fc_discover_route fc) m \<Longrightarrow> m < 2"
  using assms word_small_bits[of "fc_frame_type fc" 2] word_small_bits[of "fc_protocol_version fc" 4]
    word_small_bits[of "fc_discover_route fc" 2] by (auto simp: fc_wf_def)

lemma fc_parse_serialize:
  assumes "fc_wf fc"
  shows "NwkFrameControl_parse (NwkFrameControl_serialize fc) = fc"
proof -
  have "ucast (NwkFrameControl_serialize fc AND 3) = fc_frame_type fc"
    by (rule bit_word_eqI) (auto simp: NwkFrameControl_serialize_def masks bit_simps bit_flag_at
        dest: fc_wf_bits[OF assms])
  moreover have "ucast (drop_bit 2 (NwkFrameControl_serialize fc) AND 0x0F) = fc_protocol_version fc"
    by (rule bit_word_eqI) (auto simp: NwkFrameControl_serialize_def masks bit_simps bit_flag_at
        dest: fc_wf_bits[OF assms])
  moreover have "ucast (drop_bit 6 (NwkFrameControl_serialize fc) AND 3) = fc_discover_route fc"
    by (rule bit_word_eqI) (auto simp: NwkFrameControl_serialize_def masks bit_simps bit_flag_at
        dest: fc_wf_bits[OF assms])
  ultimately show ?thesis
    unfolding NwkFrameControl_parse_def flag_bit
    by (simp add: NwkFrameControl_serialize_def masks bit_simps bit_flag_at)
qed

lemma fc_wf_parse: "fc_wf (NwkFrameControl_parse raw)"
proof -
  have small: "(ucast (x AND mask k :: u16) :: u8) < 2 ^ k" if "k < 8" for k and x :: u16
  proof -
    have "ucast (x AND mask k :: u16) = (take_bit k (ucast x) :: u8)"
      by (rule bit_word_eqI) (auto simp: bit_simps)
    then show ?thesis using that by (simp add: take_bit_eq_mask and_mask_less')
  qed
  show ?thesis
    unfolding fc_wf_def NwkFrameControl_parse_def masks
    using small[of 2] small[of 4] by simp
qed

text \<open>The two reserved bits are the only ones a parse forgets.\<close>

lemma fc_serialize_parse: "NwkFrameControl_serialize (NwkFrameControl_parse raw) = take_bit 14 raw"
proof (rule bit_word_eqI)
  fix n
  assume "n < LENGTH(16)"
  then have "n \<in> {0,1,2,3,4,5,6,7,8,9,10,11,12,13,14,15}" by (simp, arith)
  then show "bit (NwkFrameControl_serialize (NwkFrameControl_parse raw)) n = bit (take_bit 14 raw) n"
    unfolding NwkFrameControl_serialize_def NwkFrameControl_parse_def flag_bit masks
    by (elim insertE emptyE) (simp_all add: bit_simps bit_flag_at)
qed

section \<open>The NWK header\<close>

record SourceRoute =
  sr_relay_count :: u8
  sr_relay_index :: u8
  sr_relay_list :: "ShortAddress list"

record NwkHeader =
  nh_frame_control :: NwkFrameControl
  nh_dst_addr :: ShortAddress
  nh_src_addr :: ShortAddress
  nh_radius :: u8
  nh_seq_number :: u8
  nh_dst_ieee :: "IeeeAddress option"
  nh_src_ieee :: "IeeeAddress option"
  nh_multicast_control :: "u8 option"
  nh_source_route :: "SourceRoute option"

text \<open>\<^verbatim>\<open>if flag { Some(read_ieee(data, &mut offset)?) } else { None }\<close>\<close>

definition read_ieee_if :: "bool \<Rightarrow> u8 list \<Rightarrow> nat \<Rightarrow> (IeeeAddress option \<times> nat) option" where
  "read_ieee_if flag data offset =
     (if flag then map_option (\<lambda>(a, o'). (Some a, o')) (read_ieee data offset)
      else Some (None, offset))"

definition read_byte_if :: "bool \<Rightarrow> u8 list \<Rightarrow> nat \<Rightarrow> (u8 option \<times> nat) option" where
  "read_byte_if flag data offset =
     (if flag then if offset < length data then Some (Some (data ! offset), offset + 1) else None
      else Some (None, offset))"

text \<open>The relay loop: a push beyond the vector's sixteen places ends the parse.\<close>

fun read_relays :: "nat \<Rightarrow> u8 list \<Rightarrow> nat \<Rightarrow> ShortAddress list \<Rightarrow> (ShortAddress list \<times> nat) option" where
  "read_relays 0 data offset acc = Some (acc, offset)"
| "read_relays (Suc n) data offset acc =
     vec_push 16 (u16_from_le (data ! offset) (data ! (offset + 1))) acc \<bind>
       read_relays n data (offset + 2)"

definition SourceRoute_parse :: "u8 list \<Rightarrow> nat \<Rightarrow> (SourceRoute \<times> nat) option" where
  "SourceRoute_parse data offset =
     (if length data < offset + 2 then None
      else let relay_count = data ! offset; relay_index = data ! (offset + 1);
               offset = offset + 2; relay_count_usize = unat relay_count
           in if relay_count = 0 \<or> relay_index \<ge> relay_count \<or> relay_count_usize > 16 \<or>
                 length data < offset + relay_count_usize * 2
              then None
              else do {
                (relay_list, offset) \<leftarrow> read_relays (unat relay_count) data offset [];
                Some (\<lparr>sr_relay_count = relay_count, sr_relay_index = relay_index,
                  sr_relay_list = relay_list\<rparr>, offset)
              })"

definition NwkHeader_parse :: "u8 list \<Rightarrow> (NwkHeader \<times> nat) option" where
  "NwkHeader_parse data =
     (if length data < 8 then None
      else let frame_control = NwkFrameControl_parse (u16_from_le (data ! 0) (data ! 1))
           in if fc_protocol_version frame_control \<noteq> NWKC_PROTOCOL_VERSION then None
              else do {
                (dst_ieee, offset) \<leftarrow> read_ieee_if (fc_dst_ieee_present frame_control) data 8;
                (src_ieee, offset) \<leftarrow> read_ieee_if (fc_src_ieee_present frame_control) data offset;
                (multicast_control, offset) \<leftarrow> read_byte_if (fc_multicast frame_control) data offset;
                (source_route, offset) \<leftarrow>
                  (if fc_source_route frame_control
                   then map_option (\<lambda>(sr, o'). (Some sr, o')) (SourceRoute_parse data offset)
                   else Some (None, offset));
                Some (\<lparr>nh_frame_control = frame_control,
                  nh_dst_addr = u16_from_le (data ! 2) (data ! 3),
                  nh_src_addr = u16_from_le (data ! 4) (data ! 5),
                  nh_radius = data ! 6, nh_seq_number = data ! 7,
                  nh_dst_ieee = dst_ieee, nh_src_ieee = src_ieee,
                  nh_multicast_control = multicast_control, nh_source_route = source_route\<rparr>, offset)
              })"

definition nwk_header_fixed :: "NwkHeader \<Rightarrow> u8 list" where
  "nwk_header_fixed h =
     u16_to_le (NwkFrameControl_serialize (nh_frame_control h)) @ u16_to_le (nh_dst_addr h) @
     u16_to_le (nh_src_addr h) @ [nh_radius h, nh_seq_number h]"

definition NwkHeader_serialize :: "NwkHeader \<Rightarrow> u8 list \<Rightarrow> (u8 list \<times> nat) option" where
  "NwkHeader_serialize h buf =
     (case nh_source_route h of
        None \<Rightarrow> write_at (nwk_header_fixed h) (buf, 0) \<bind> write_opt id (nh_dst_ieee h) \<bind>
          write_opt id (nh_src_ieee h) \<bind> write_opt (\<lambda>mc. [mc]) (nh_multicast_control h)
      | Some sr \<Rightarrow> write_at (nwk_header_fixed h) (buf, 0) \<bind> write_opt id (nh_dst_ieee h) \<bind>
          write_opt id (nh_src_ieee h) \<bind> write_opt (\<lambda>mc. [mc]) (nh_multicast_control h) \<bind>
          write_at [sr_relay_count sr, sr_relay_index sr] \<bind> write_each u16_to_le (sr_relay_list sr))"

text \<open>The byte sequence of a header.\<close>

definition opt_bytes :: "('a \<Rightarrow> u8 list) \<Rightarrow> 'a option \<Rightarrow> u8 list" where
  "opt_bytes f x = (case x of None \<Rightarrow> [] | Some a \<Rightarrow> f a)"

definition SourceRoute_bytes :: "SourceRoute \<Rightarrow> u8 list" where
  "SourceRoute_bytes sr =
     [sr_relay_count sr, sr_relay_index sr] @ concat (map u16_to_le (sr_relay_list sr))"

definition NwkHeader_bytes :: "NwkHeader \<Rightarrow> u8 list" where
  "NwkHeader_bytes h = nwk_header_fixed h @ opt_bytes id (nh_dst_ieee h) @
     opt_bytes id (nh_src_ieee h) @ opt_bytes (\<lambda>mc. [mc]) (nh_multicast_control h) @
     opt_bytes SourceRoute_bytes (nh_source_route h)"

lemma NwkHeader_serialize_eq: "NwkHeader_serialize h buf = write_at (NwkHeader_bytes h) (buf, 0)"
  unfolding NwkHeader_serialize_def NwkHeader_bytes_def opt_bytes_def SourceRoute_bytes_def
  by (cases "nh_source_route h")
    (simp_all add: write_opt_then write_each_then write_at_append)

text \<open>A header the stack may build: its flags announce exactly the fields it has.\<close>

definition sr_wf :: "SourceRoute \<Rightarrow> bool" where
  "sr_wf sr \<longleftrightarrow> 0 < sr_relay_count sr \<and> sr_relay_index sr < sr_relay_count sr \<and>
     unat (sr_relay_count sr) \<le> 16 \<and> length (sr_relay_list sr) = unat (sr_relay_count sr)"

definition nwk_header_wf :: "NwkHeader \<Rightarrow> bool" where
  "nwk_header_wf h \<longleftrightarrow>
     fc_wf (nh_frame_control h) \<and> fc_protocol_version (nh_frame_control h) = NWKC_PROTOCOL_VERSION \<and>
     fc_dst_ieee_present (nh_frame_control h) = (nh_dst_ieee h \<noteq> None) \<and>
     fc_src_ieee_present (nh_frame_control h) = (nh_src_ieee h \<noteq> None) \<and>
     fc_multicast (nh_frame_control h) = (nh_multicast_control h \<noteq> None) \<and>
     fc_source_route (nh_frame_control h) = (nh_source_route h \<noteq> None) \<and>
     pred_option ieee_ok (nh_dst_ieee h) \<and> pred_option ieee_ok (nh_src_ieee h) \<and>
     pred_option sr_wf (nh_source_route h)"

subsection \<open>Reading at an offset\<close>

lemma nth_of_drop: "drop n xs = ys \<Longrightarrow> i < length ys \<Longrightarrow> xs ! (n + i) = ys ! i"
  by (cases "n \<le> length xs") auto

lemma drop_plus: "drop (n + k) xs = drop k (drop n xs)"
  by (simp add: add.commute)

lemma read_ieee_if_append:
  assumes "drop offset data = opt_bytes id x @ rest" "flag = (x \<noteq> None)" "pred_option ieee_ok x"
    "offset \<le> length data"
  shows "read_ieee_if flag data offset = Some (x, offset + length (opt_bytes id x))"
    and "drop (offset + length (opt_bytes id x)) data = rest"
proof -
  show "drop (offset + length (opt_bytes id x)) data = rest"
    unfolding drop_plus assms(1) by simp
  have "length data - offset = length (opt_bytes id x) + length rest"
    using arg_cong[OF assms(1), of length] by simp
  with assms show "read_ieee_if flag data offset = Some (x, offset + length (opt_bytes id x))"
    by (cases x) (auto simp: read_ieee_if_def read_ieee_def slice_def opt_bytes_def ieee_ok_def)
qed

lemma read_byte_if_append:
  assumes "drop offset data = opt_bytes (\<lambda>b. [b]) x @ rest" "flag = (x \<noteq> None)"
    "offset \<le> length data"
  shows "read_byte_if flag data offset = Some (x, offset + length (opt_bytes (\<lambda>b. [b]) x))"
    and "drop (offset + length (opt_bytes (\<lambda>b. [b]) x)) data = rest"
proof -
  show "drop (offset + length (opt_bytes (\<lambda>b. [b]) x)) data = rest"
    unfolding drop_plus assms(1) by simp
  show "read_byte_if flag data offset = Some (x, offset + length (opt_bytes (\<lambda>b. [b]) x))"
  proof (cases x)
    case (Some b)
    with assms have "drop offset data = b # rest" by (simp add: opt_bytes_def)
    then have "offset < length data" "data ! offset = b"
      by (metis drop_eq_Nil list.distinct(1) not_le, metis nth_via_drop)
    with Some assms(2) show ?thesis by (simp add: read_byte_if_def opt_bytes_def)
  qed (use assms in \<open>simp add: read_byte_if_def opt_bytes_def\<close>)
qed

lemma read_relays_append:
  "drop offset data = concat (map u16_to_le rs) @ rest \<Longrightarrow> length acc + length rs \<le> 16 \<Longrightarrow>
     read_relays (length rs) data offset acc = Some (acc @ rs, offset + 2 * length rs)"
proof (induction rs arbitrary: offset acc)
  case Nil
  then show ?case by simp
next
  case (Cons r rs)
  let ?lo = "ucast (r AND 0xFF) :: u8" and ?hi = "ucast (drop_bit 8 r AND 0xFF) :: u8"
  have d: "drop offset data = ?lo # ?hi # concat (map u16_to_le rs) @ rest"
    using Cons.prems(1) by (simp add: u16_to_le_def[of r])
  then have "data ! offset = ?lo" "data ! (offset + 1) = ?hi"
    using nth_of_drop[OF d, of 0] nth_of_drop[OF d, of 1] by simp_all
  moreover have "drop (offset + 2) data = concat (map u16_to_le rs) @ rest"
    unfolding drop_plus d by simp
  ultimately show ?case using Cons.IH[of "offset + 2" "acc @ [r]"] Cons.prems(2)
    by (simp add: vec_push_def)
qed

lemma length_concat_u16 [simp]: "length (concat (map u16_to_le rs)) = 2 * length rs"
  by (induction rs) simp_all

lemma SourceRoute_parse_append:
  assumes "drop offset data = SourceRoute_bytes sr @ rest" "sr_wf sr" "offset \<le> length data"
  shows "SourceRoute_parse data offset = Some (sr, offset + length (SourceRoute_bytes sr))"
proof -
  let ?n = "length (sr_relay_list sr)"
  have d: "drop offset data = sr_relay_count sr # sr_relay_index sr #
      concat (map u16_to_le (sr_relay_list sr)) @ rest"
    using assms(1) by (simp add: SourceRoute_bytes_def)
  have at: "data ! offset = sr_relay_count sr" "data ! (offset + 1) = sr_relay_index sr"
    using nth_of_drop[OF d, of 0] nth_of_drop[OF d, of 1] by simp_all
  have d2: "drop (offset + 2) data = concat (map u16_to_le (sr_relay_list sr)) @ rest"
    unfolding drop_plus d by simp
  have len: "offset + 2 + 2 * ?n \<le> length data"
    using arg_cong[OF d, of length] assms(3) by simp
  have rd: "read_relays ?n data (offset + 2) [] = Some (sr_relay_list sr, offset + 2 + 2 * ?n)"
    using read_relays_append[OF d2, of "[]"] assms(2) by (simp add: sr_wf_def)
  have "unat (sr_relay_count sr) = ?n" "sr_relay_count sr \<noteq> 0" "\<not> sr_relay_count sr \<le> sr_relay_index sr"
    "?n \<le> 16"
    using assms(2) by (auto simp: sr_wf_def)
  with at rd len show ?thesis
    by (simp add: SourceRoute_parse_def Let_def SourceRoute_bytes_def mult.commute)
qed

lemma length_nwk_header_fixed [simp]: "length (nwk_header_fixed h) = 8"
  by (simp add: nwk_header_fixed_def)

lemma nwk_header_fixed_nth:
  "nwk_header_fixed h = [ucast (f AND 0xFF), ucast (drop_bit 8 f AND 0xFF),
     ucast (nh_dst_addr h AND 0xFF), ucast (drop_bit 8 (nh_dst_addr h) AND 0xFF),
     ucast (nh_src_addr h AND 0xFF), ucast (drop_bit 8 (nh_src_addr h) AND 0xFF),
     nh_radius h, nh_seq_number h]"
  if "f = NwkFrameControl_serialize (nh_frame_control h)"
  using that by (simp add: nwk_header_fixed_def u16_to_le_def)

lemma nwk_header_roundtrip_aux:
  assumes "nwk_header_wf h"
  shows "NwkHeader_parse (NwkHeader_bytes h @ rest) = Some (h, length (NwkHeader_bytes h))"
proof -
  define D where "D = NwkHeader_bytes h @ rest"
  let ?fc = "nh_frame_control h"
  let ?b1 = "opt_bytes id (nh_dst_ieee h)" and ?b2 = "opt_bytes id (nh_src_ieee h)"
  let ?b3 = "opt_bytes (\<lambda>mc. [mc]) (nh_multicast_control h)"
  let ?b4 = "opt_bytes SourceRoute_bytes (nh_source_route h)"
  have wf: "fc_wf ?fc" "fc_protocol_version ?fc = NWKC_PROTOCOL_VERSION"
    "fc_dst_ieee_present ?fc = (nh_dst_ieee h \<noteq> None)" "fc_src_ieee_present ?fc = (nh_src_ieee h \<noteq> None)"
    "fc_multicast ?fc = (nh_multicast_control h \<noteq> None)"
    "fc_source_route ?fc = (nh_source_route h \<noteq> None)"
    "pred_option ieee_ok (nh_dst_ieee h)" "pred_option ieee_ok (nh_src_ieee h)"
    "pred_option sr_wf (nh_source_route h)"
    using assms by (simp_all add: nwk_header_wf_def)
  have d: "D = nwk_header_fixed h @ ?b1 @ ?b2 @ ?b3 @ ?b4 @ rest" by (simp add: D_def NwkHeader_bytes_def)
  have d0: "drop 8 D = ?b1 @ ?b2 @ ?b3 @ ?b4 @ rest"
    and len: "length D = 8 + length ?b1 + length ?b2 + length ?b3 + length ?b4 + length rest"
    unfolding d by simp_all
  note r1 = read_ieee_if_append[OF d0 wf(3) wf(7)]
  note r2 = read_ieee_if_append[OF r1(2) wf(4) wf(8)]
  note r3 = read_byte_if_append[OF r2(2) wf(5)]
  let ?o3 = "8 + length ?b1 + length ?b2 + length ?b3"
  have r4: "(if fc_source_route ?fc then map_option (\<lambda>(sr, o'). (Some sr, o')) (SourceRoute_parse D ?o3)
      else Some (None, ?o3)) = Some (nh_source_route h, ?o3 + length ?b4)"
  proof (cases "nh_source_route h")
    case (Some sr)
    have "drop ?o3 D = SourceRoute_bytes sr @ rest" "?o3 \<le> length D"
      using r3(2) Some by (simp_all add: opt_bytes_def len)
    from SourceRoute_parse_append[OF this(1)] this(2) Some wf(6,9) show ?thesis
      by (simp add: opt_bytes_def)
  qed (use wf(6) in \<open>simp add: opt_bytes_def\<close>)
  have fixed: "length D \<ge> 8" "u16_from_le (D ! 0) (D ! 1) = NwkFrameControl_serialize ?fc"
    "u16_from_le (D ! 2) (D ! 3) = nh_dst_addr h" "u16_from_le (D ! 4) (D ! 5) = nh_src_addr h"
    "D ! 6 = nh_radius h" "D ! 7 = nh_seq_number h"
    unfolding d by (simp_all add: nwk_header_fixed_nth)
  have "length (NwkHeader_bytes h) = ?o3 + length ?b4" by (simp add: NwkHeader_bytes_def)
  then show ?thesis
    using r1(1) r2(1) r3(1) r4 fixed wf(2) fc_parse_serialize[OF wf(1)]
    by (simp add: NwkHeader_parse_def Let_def len flip: D_def)
qed

interpretation nwk_header_codec: wire_codec NwkHeader_bytes "\<lambda>d. map_option fst (NwkHeader_parse d)"
  nwk_header_wf
  by unfold_locales (simp add: nwk_header_roundtrip_aux)

subsection \<open>What a successful parse has read\<close>

lemma drop_two: "n + 2 \<le> length xs \<Longrightarrow> drop n xs = xs ! n # xs ! (n + 1) # drop (n + 2) xs"
  by (simp add: Cons_nth_drop_Suc Suc_le_eq)

lemma read_ieee_if_SomeD:
  assumes "read_ieee_if flag data offset = Some (x, o')" "offset \<le> length data"
  shows "flag = (x \<noteq> None)" "pred_option ieee_ok x" "o' = offset + length (opt_bytes id x)"
    "o' \<le> length data" "drop offset data = opt_bytes id x @ drop o' data"
  using assms
  by (auto simp: read_ieee_if_def read_ieee_def slice_def opt_bytes_def ieee_ok_def drop_plus
      simp del: drop_drop split: if_splits)

lemma read_byte_if_SomeD:
  assumes "read_byte_if flag data offset = Some (x, o')" "offset \<le> length data"
  shows "flag = (x \<noteq> None)" "o' = offset + length (opt_bytes (\<lambda>b. [b]) x)"
    "o' \<le> length data" "drop offset data = opt_bytes (\<lambda>b. [b]) x @ drop o' data"
  using assms by (auto simp: read_byte_if_def opt_bytes_def Cons_nth_drop_Suc split: if_splits)

lemma read_relays_SomeD:
  "read_relays n data offset acc = Some (rs, o') \<Longrightarrow> offset + 2 * n \<le> length data \<Longrightarrow>
     \<exists>ys. rs = acc @ ys \<and> length ys = n \<and> o' = offset + 2 * n \<and>
       drop offset data = concat (map u16_to_le ys) @ drop o' data"
proof (induction n arbitrary: offset acc)
  case 0
  then show ?case by simp
next
  case (Suc n)
  let ?r = "u16_from_le (data ! offset) (data ! (offset + 1))"
  from Suc.prems(1) have "read_relays n data (offset + 2) (acc @ [?r]) = Some (rs, o')"
    by (auto simp: vec_push_def split: if_splits)
  from Suc.IH[OF this] Suc.prems(2) obtain ys where ys: "rs = acc @ ?r # ys" "length ys = n"
    "o' = offset + 2 + 2 * n" "drop (offset + 2) data = concat (map u16_to_le ys) @ drop o' data"
    by auto
  with Suc.prems(2) drop_two[of offset data] show ?case by (intro exI[of _ "?r # ys"]) simp
qed

lemma SourceRoute_parse_SomeD:
  assumes "SourceRoute_parse data offset = Some (sr, o')"
  shows "sr_wf sr \<and> o' = offset + length (SourceRoute_bytes sr) \<and> o' \<le> length data \<and>
    drop offset data = SourceRoute_bytes sr @ drop o' data"
proof -
  let ?n = "unat (data ! offset)"
  from assms obtain rs where g: "offset + 2 \<le> length data" "data ! offset \<noteq> 0"
    "data ! (offset + 1) < data ! offset" "?n \<le> 16" "offset + 2 + ?n * 2 \<le> length data"
    and rd: "read_relays ?n data (offset + 2) [] = Some (rs, o')"
    and sr: "sr = \<lparr>sr_relay_count = data ! offset, sr_relay_index = data ! (offset + 1), sr_relay_list = rs\<rparr>"
    by (auto simp: SourceRoute_parse_def Let_def not_less bind_eq_Some_conv split: if_splits)
  from read_relays_SomeD[OF rd] g(5) have "length rs = ?n" "o' = offset + 2 + 2 * ?n"
    "drop (offset + 2) data = concat (map u16_to_le rs) @ drop o' data" by (auto simp: mult.commute)
  with g sr drop_two[OF g(1)] show ?thesis
    by (auto simp: sr_wf_def SourceRoute_bytes_def word_neq_0_conv)
qed

lemma nwk_header_parse_sound_aux:
  assumes "NwkHeader_parse data = Some (h, n)"
  shows "nwk_header_wf h \<and> n = length (NwkHeader_bytes h) \<and> n \<le> length data \<and>
    take n data = take 2 data @ drop 2 (NwkHeader_bytes h)"
proof -
  let ?fc = "NwkFrameControl_parse (u16_from_le (data ! 0) (data ! 1))"
  from assms obtain d o1 s o2 m o3 r where
    g: "8 \<le> length data" "fc_protocol_version ?fc = NWKC_PROTOCOL_VERSION" and
    r1: "read_ieee_if (fc_dst_ieee_present ?fc) data 8 = Some (d, o1)" and
    r2: "read_ieee_if (fc_src_ieee_present ?fc) data o1 = Some (s, o2)" and
    r3: "read_byte_if (fc_multicast ?fc) data o2 = Some (m, o3)" and
    r4: "(if fc_source_route ?fc then map_option (\<lambda>(sr, o'). (Some sr, o')) (SourceRoute_parse data o3)
          else Some (None, o3)) = Some (r, n)" and
    h: "h = \<lparr>nh_frame_control = ?fc, nh_dst_addr = u16_from_le (data ! 2) (data ! 3),
      nh_src_addr = u16_from_le (data ! 4) (data ! 5), nh_radius = data ! 6, nh_seq_number = data ! 7,
      nh_dst_ieee = d, nh_src_ieee = s, nh_multicast_control = m, nh_source_route = r\<rparr>"
    unfolding NwkHeader_parse_def Let_def not_less
    by (auto simp: bind_eq_Some_conv not_less simp del: One_nat_def split: if_splits prod.splits)
  note p1 = read_ieee_if_SomeD[OF r1 g(1)]
  note p2 = read_ieee_if_SomeD[OF r2 p1(4)]
  note p3 = read_byte_if_SomeD[OF r3 p2(4)]
  have p4: "fc_source_route ?fc = (r \<noteq> None)" "pred_option sr_wf r"
      "n = o3 + length (opt_bytes SourceRoute_bytes r)" "n \<le> length data"
      "drop o3 data = opt_bytes SourceRoute_bytes r @ drop n data"
    using r4 p3(3) SourceRoute_parse_SomeD[of data o3] by (auto simp: opt_bytes_def split: if_splits)
  from g(1) obtain a0 a1 a2 a3 a4 a5 a6 a7 rest where
    data: "data = a0 # a1 # a2 # a3 # a4 # a5 # a6 # a7 # rest"
    by (auto simp: numeral_eq_Suc Suc_le_length_iff)
  let ?tail = "opt_bytes id d @ opt_bytes id s @ opt_bytes (\<lambda>b. [b]) m @ opt_bytes SourceRoute_bytes r"
  have "drop 8 data = ?tail @ drop n data"
    unfolding p1(5) p2(5) p3(4) p4(5) by simp
  then have rest: "rest = ?tail @ drop n data" by (simp add: data)
  have n: "n = 8 + length ?tail" using p1(3) p2(3) p3(2) p4(3) by simp
  have bytes: "drop 2 (NwkHeader_bytes h) = [a2, a3, a4, a5, a6, a7] @ ?tail"
    and len: "length (NwkHeader_bytes h) = 8 + length ?tail"
    by (simp_all add: NwkHeader_bytes_def h nwk_header_fixed_def data)
  have "take n data = [a0, a1, a2, a3, a4, a5, a6, a7] @ take (length ?tail) rest"
    unfolding n take_add by (simp add: data)
  also have "take (length ?tail) rest = ?tail" unfolding rest by simp
  finally have "take n data = take 2 data @ drop 2 (NwkHeader_bytes h)" by (simp add: bytes data)
  moreover have "nwk_header_wf h"
    using p1(1,2) p2(1,2) p3(1) p4(1,2) g fc_wf_parse by (simp add: nwk_header_wf_def h)
  ultimately show ?thesis using n len p4(4) by simp
qed

text \<open>
  C23: the NWK header codec is exact.  Serializing a well-formed header writes its byte
  sequence at the start of any buffer that has room (and panics otherwise), and whatever
  bytes follow, the parser reads the same header back and reports the same length.
\<close>

theorem nwk_header_roundtrip:
  assumes "nwk_header_wf h"
  shows "NwkHeader_serialize h buf =
      (if length (NwkHeader_bytes h) \<le> length buf
       then Some (NwkHeader_bytes h @ drop (length (NwkHeader_bytes h)) buf, length (NwkHeader_bytes h))
       else None) \<and>
    NwkHeader_parse (NwkHeader_bytes h @ payload) = Some (h, length (NwkHeader_bytes h))"
  using nwk_header_roundtrip_aux[OF assms] by (simp add: NwkHeader_serialize_eq write_at_start)

lemma u16_from_le_bit: "n < 16 \<Longrightarrow> bit (u16_from_le lo hi) n = (if n < 8 then bit lo n else bit hi (n - 8))"
  by (auto simp: u16_from_le_def bit_simps dest: bit_imp_le_length)

text \<open>The frame-control octets of a header and what they say.\<close>

lemma fc_octets:
  "u16_to_le (NwkFrameControl_serialize (NwkFrameControl_parse (u16_from_le lo hi))) = [lo, take_bit 6 hi]"
proof -
  have "take_bit 14 (u16_from_le lo hi) = u16_from_le lo (take_bit 6 hi)"
    by (rule bit_word_eqI) (auto simp: u16_from_le_bit bit_take_bit_iff)
  then show ?thesis by (simp add: fc_serialize_parse)
qed

lemma fc_parse_octets:
  assumes "f = NwkFrameControl_parse (u16_from_le lo hi)"
  shows "fc_frame_type f = take_bit 2 lo" "fc_discover_route f = drop_bit 6 lo"
    "fc_multicast f = bit hi 0" "fc_security f = bit hi 1" "fc_source_route f = bit hi 2"
    "fc_dst_ieee_present f = bit hi 3" "fc_src_ieee_present f = bit hi 4" "fc_end_device_initiator f = bit hi 5"
proof -
  show "fc_multicast f = bit hi 0" "fc_security f = bit hi 1" "fc_source_route f = bit hi 2"
    "fc_dst_ieee_present f = bit hi 3" "fc_src_ieee_present f = bit hi 4" "fc_end_device_initiator f = bit hi 5"
    unfolding assms NwkFrameControl_parse_def flag_bit by (simp_all add: u16_from_le_bit)
  show "fc_frame_type f = take_bit 2 lo" "fc_discover_route f = drop_bit 6 lo"
    unfolding assms NwkFrameControl_parse_def masks
    by (rule bit_word_eqI; auto simp: bit_simps u16_from_le_bit dest: bit_imp_le_length)+
qed

lemma nwk_header_parse_control:
  assumes "NwkHeader_parse data = Some (h, n)"
  shows "nh_frame_control h = NwkFrameControl_parse (u16_from_le (data ! 0) (data ! 1))" "8 \<le> length data"
  using assms unfolding NwkHeader_parse_def Let_def
  by (auto simp: bind_eq_Some_conv not_less simp del: One_nat_def split: if_splits prod.splits)

text \<open>
  C22: the NWK header parser accepts nothing it should not.  Whatever it returns for any byte
  string is a well-formed header of protocol version 2, its length is within the input, and
  re-serializing it gives exactly the consumed bytes back, with only the two reserved bits of
  the second frame-control octet cleared; the frame type, the route discovery mode and every flag
  are the bits of the two frame-control octets that the specification assigns to them.
\<close>

theorem nwk_header_parse_sound:
  assumes "NwkHeader_parse data = Some (h, n)"
  shows "nwk_header_wf h \<and> n = length (NwkHeader_bytes h) \<and> n \<le> length data \<and>
    NwkHeader_bytes h = (take n data)[1 := take_bit 6 (data ! 1)] \<and>
    fc_frame_type (nh_frame_control h) = take_bit 2 (data ! 0) \<and> fc_discover_route (nh_frame_control h) = drop_bit 6 (data ! 0) \<and>
    fc_multicast (nh_frame_control h) = bit (data ! 1) 0 \<and> fc_security (nh_frame_control h) = bit (data ! 1) 1 \<and>
    fc_source_route (nh_frame_control h) = bit (data ! 1) 2 \<and> fc_dst_ieee_present (nh_frame_control h) = bit (data ! 1) 3 \<and>
    fc_src_ieee_present (nh_frame_control h) = bit (data ! 1) 4 \<and> fc_end_device_initiator (nh_frame_control h) = bit (data ! 1) 5"
proof -
  note s = nwk_header_parse_sound_aux[OF assms] and c = nwk_header_parse_control[OF assms]
  obtain a0 a1 rest where data: "data = a0 # a1 # rest" using c(2) by (auto simp: numeral_eq_Suc Suc_le_length_iff)
  have "take 2 (NwkHeader_bytes h) = u16_to_le (NwkFrameControl_serialize (nh_frame_control h))"
    by (simp add: NwkHeader_bytes_def nwk_header_fixed_def u16_to_le_def)
  also have "\<dots> = [data ! 0, take_bit 6 (data ! 1)]" unfolding c(1) by (rule fc_octets)
  finally have "NwkHeader_bytes h = [a0, take_bit 6 a1] @ drop 2 (NwkHeader_bytes h)"
    by (metis append_take_drop_id data nth_Cons_0 nth_Cons_Suc One_nat_def)
  moreover have "take n data = [a0, a1] @ drop 2 (NwkHeader_bytes h)" using s by (metis append_Cons append_Nil data numeral_2_eq_2 take0 take_Suc_Cons)
  ultimately have "NwkHeader_bytes h = (take n data)[1 := take_bit 6 (data ! 1)]" by (simp add: data)
  then show ?thesis using s fc_parse_octets[OF c(1)] by simp
qed

definition example_header :: NwkHeader where
  "example_header =
     \<lparr>nh_frame_control = \<lparr>fc_frame_type = 0, fc_protocol_version = 2, fc_discover_route = 1,
        fc_multicast = False, fc_security = True, fc_source_route = True,
        fc_dst_ieee_present = False, fc_src_ieee_present = False, fc_end_device_initiator = False\<rparr>,
      nh_dst_addr = 0x1234, nh_src_addr = 0, nh_radius = 30, nh_seq_number = 7,
      nh_dst_ieee = None, nh_src_ieee = None, nh_multicast_control = None,
      nh_source_route = Some \<lparr>sr_relay_count = 1, sr_relay_index = 0, sr_relay_list = [0xABCD]\<rparr>\<rparr>"

lemma example_header_wf: "nwk_header_wf example_header"
  by (simp add: nwk_header_wf_def example_header_def fc_wf_def NWKC_PROTOCOL_VERSION_def sr_wf_def)

theorem nwk_header_roundtrip_witness:
  "NwkHeader_parse (NwkHeader_bytes example_header @ [1, 2, 3]) =
     Some (example_header, length (NwkHeader_bytes example_header))"
  using nwk_header_roundtrip[OF example_header_wf] by blast

theorem nwk_header_parse_sound_witness:
  "\<exists>h. NwkHeader_parse [0x48, 0x82, 1, 2, 3, 4, 5, 6, 9] = Some (h, 8) \<and> nwk_header_wf h \<and> fc_security (nh_frame_control h) \<and>
     NwkHeader_bytes h = [0x48, 0x02, 1, 2, 3, 4, 5, 6]"
proof -
  let ?data = "[0x48, 0x82, 1, 2, 3, 4, 5, 6, 9] :: u8 list"
  have "map_option snd (NwkHeader_parse ?data) = Some 8" by code_simp
  then obtain h where h: "NwkHeader_parse ?data = Some (h, 8)" by auto
  have "bit (0x82 :: u8) 1" "take_bit 6 (0x82 :: u8) = 2" by simp_all
  with nwk_header_parse_sound[OF h] h show ?thesis by simp
qed

section \<open>Leave and Rejoin Response\<close>

record LeaveCommand =
  lc_remove_children :: bool
  lc_request :: bool
  lc_rejoin :: bool

definition LeaveCommand_parse :: "u8 list \<Rightarrow> LeaveCommand option" where
  "LeaveCommand_parse data =
     (case data of
        [] \<Rightarrow> None
      | b # _ \<Rightarrow> Some \<lparr>lc_remove_children = (b AND push_bit 7 1 \<noteq> 0),
          lc_request = (b AND push_bit 6 1 \<noteq> 0), lc_rejoin = (b AND push_bit 5 1 \<noteq> 0)\<rparr>)"

definition LeaveCommand_serialize :: "LeaveCommand \<Rightarrow> u8" where
  "LeaveCommand_serialize c =
     flag_at 7 (lc_remove_children c) OR flag_at 6 (lc_request c) OR flag_at 5 (lc_rejoin c)"

record RejoinRequest =
  rjq_capability_info :: u8

record RejoinResponse =
  rjr_short_address :: ShortAddress
  rjr_rejoin_status :: u8

definition RejoinResponse_parse :: "u8 list \<Rightarrow> RejoinResponse option" where
  "RejoinResponse_parse data =
     (if length data < 3 then None
      else Some \<lparr>rjr_short_address = u16_from_le (data ! 0) (data ! 1), rjr_rejoin_status = data ! 2\<rparr>)"

lemma and_push_bit_1: "n < LENGTH('a) \<Longrightarrow> (w AND push_bit n 1 \<noteq> 0) = bit w n" for w :: "'a::len word"
proof -
  assume n: "n < LENGTH('a)"
  have "bit (w AND push_bit n 1) m \<longleftrightarrow> m = n \<and> bit w n" for m
    using n by (auto simp: bit_simps)
  then show ?thesis by (metis bit_0_eq bit_word_eqI bot_apply bot_bool_def)
qed

lemma u8_flags:
  "(w AND 128 = 0) = (\<not> bit w 7)" "(w AND 64 = 0) = (\<not> bit w 6)" "(w AND 32 = 0) = (\<not> bit w 5)"
  "(w AND 16 = 0) = (\<not> bit w 4)" "(w AND 8 = 0) = (\<not> bit w 3)" for w :: u8
  using and_push_bit_1[of 7 w] and_push_bit_1[of 6 w] and_push_bit_1[of 5 w] and_push_bit_1[of 4 w]
    and_push_bit_1[of 3 w]
  by auto

interpretation leave_codec: wire_codec "\<lambda>c. [LeaveCommand_serialize c]" LeaveCommand_parse "\<lambda>c. True"
  by unfold_locales
    (simp add: LeaveCommand_parse_def LeaveCommand_serialize_def u8_flags bit_simps bit_flag_at)

section \<open>Route Request and Route Reply\<close>

record RouteRequest =
  rq_command_options :: u8
  rq_route_request_id :: u8
  rq_dst_addr :: ShortAddress
  rq_path_cost :: u8
  rq_dst_ieee :: "IeeeAddress option"

definition RouteRequest_parse :: "u8 list \<Rightarrow> RouteRequest option" where
  "RouteRequest_parse data =
     (if length data < 5 then None
      else do {
        (dst_ieee, _) \<leftarrow> read_ieee_if (data ! 0 AND push_bit 5 1 \<noteq> 0) data 5;
        Some \<lparr>rq_command_options = data ! 0, rq_route_request_id = data ! 1,
          rq_dst_addr = u16_from_le (data ! 2) (data ! 3), rq_path_cost = data ! 4,
          rq_dst_ieee = dst_ieee\<rparr>
      })"

definition RouteRequest_serialize :: "RouteRequest \<Rightarrow> u8 list \<Rightarrow> (u8 list \<times> nat) option" where
  "RouteRequest_serialize r buf =
     write_at ([rq_command_options r, rq_route_request_id r] @ u16_to_le (rq_dst_addr r) @
       [rq_path_cost r]) (buf, 0) \<bind> write_opt id (rq_dst_ieee r)"

definition RouteRequest_bytes :: "RouteRequest \<Rightarrow> u8 list" where
  "RouteRequest_bytes r = [rq_command_options r, rq_route_request_id r] @ u16_to_le (rq_dst_addr r) @
     [rq_path_cost r] @ opt_bytes id (rq_dst_ieee r)"

definition rreq_wf :: "RouteRequest \<Rightarrow> bool" where
  "rreq_wf r \<longleftrightarrow> bit (rq_command_options r) 5 = (rq_dst_ieee r \<noteq> None) \<and>
     pred_option ieee_ok (rq_dst_ieee r)"

lemma RouteRequest_serialize_eq: "RouteRequest_serialize r buf = write_at (RouteRequest_bytes r) (buf, 0)"
  by (simp add: RouteRequest_serialize_def write_opt_then RouteRequest_bytes_def opt_bytes_def)

interpretation rreq_codec: wire_codec RouteRequest_bytes RouteRequest_parse rreq_wf
proof
  fix x :: RouteRequest and rest
  assume wf: "rreq_wf x"
  define D where "D = RouteRequest_bytes x @ rest"
  have D: "D = [rq_command_options x, rq_route_request_id x] @ u16_to_le (rq_dst_addr x) @
      [rq_path_cost x] @ opt_bytes id (rq_dst_ieee x) @ rest"
    by (simp add: D_def RouteRequest_bytes_def)
  have "drop 5 D = opt_bytes id (rq_dst_ieee x) @ rest" "5 \<le> length D" "D ! 0 = rq_command_options x"
    "D ! 1 = rq_route_request_id x" "u16_from_le (D ! 2) (D ! 3) = rq_dst_addr x" "D ! 4 = rq_path_cost x"
    by (simp_all add: D u16_to_le_def)
  with read_ieee_if_append(1)[OF this(1), of "bit (rq_command_options x) 5"] wf
  show "RouteRequest_parse (RouteRequest_bytes x @ rest) = Some x"
    by (simp add: RouteRequest_parse_def rreq_wf_def u8_flags flip: D_def)
qed

record RouteReply =
  rp_command_options :: u8
  rp_route_request_id :: u8
  rp_originator :: ShortAddress
  rp_responder :: ShortAddress
  rp_path_cost :: u8
  rp_originator_ieee :: "IeeeAddress option"
  rp_responder_ieee :: "IeeeAddress option"

definition RouteReply_parse :: "u8 list \<Rightarrow> RouteReply option" where
  "RouteReply_parse data =
     (if length data < 7 then None
      else do {
        (originator_ieee, offset) \<leftarrow> read_ieee_if (data ! 0 AND push_bit 4 1 \<noteq> 0) data 7;
        (responder_ieee, _) \<leftarrow> read_ieee_if (data ! 0 AND push_bit 5 1 \<noteq> 0) data offset;
        Some \<lparr>rp_command_options = data ! 0, rp_route_request_id = data ! 1,
          rp_originator = u16_from_le (data ! 2) (data ! 3),
          rp_responder = u16_from_le (data ! 4) (data ! 5), rp_path_cost = data ! 6,
          rp_originator_ieee = originator_ieee, rp_responder_ieee = responder_ieee\<rparr>
      })"

definition route_reply_fixed :: "RouteReply \<Rightarrow> u8 list" where
  "route_reply_fixed r = [rp_command_options r, rp_route_request_id r] @ u16_to_le (rp_originator r) @
     u16_to_le (rp_responder r) @ [rp_path_cost r]"

definition RouteReply_serialize :: "RouteReply \<Rightarrow> u8 list \<Rightarrow> (u8 list \<times> nat) option" where
  "RouteReply_serialize r buf =
     write_at (route_reply_fixed r) (buf, 0) \<bind> write_opt id (rp_originator_ieee r) \<bind>
       write_opt id (rp_responder_ieee r)"

definition RouteReply_bytes :: "RouteReply \<Rightarrow> u8 list" where
  "RouteReply_bytes r = route_reply_fixed r @ opt_bytes id (rp_originator_ieee r) @
     opt_bytes id (rp_responder_ieee r)"

definition rrep_wf :: "RouteReply \<Rightarrow> bool" where
  "rrep_wf r \<longleftrightarrow> bit (rp_command_options r) 4 = (rp_originator_ieee r \<noteq> None) \<and>
     bit (rp_command_options r) 5 = (rp_responder_ieee r \<noteq> None) \<and>
     pred_option ieee_ok (rp_originator_ieee r) \<and> pred_option ieee_ok (rp_responder_ieee r)"

lemma RouteReply_serialize_eq: "RouteReply_serialize r buf = write_at (RouteReply_bytes r) (buf, 0)"
  by (simp add: RouteReply_serialize_def write_opt_then RouteReply_bytes_def opt_bytes_def)

interpretation rrep_codec: wire_codec RouteReply_bytes RouteReply_parse rrep_wf
proof
  fix x :: RouteReply and rest
  assume wf: "rrep_wf x"
  define D where "D = RouteReply_bytes x @ rest"
  have D: "D = route_reply_fixed x @ opt_bytes id (rp_originator_ieee x) @
      opt_bytes id (rp_responder_ieee x) @ rest"
    by (simp add: D_def RouteReply_bytes_def)
  have D7: "drop 7 D = opt_bytes id (rp_originator_ieee x) @ opt_bytes id (rp_responder_ieee x) @ rest"
    and fixed: "7 \<le> length D" "7 + length (opt_bytes id (rp_originator_ieee x)) \<le> length D"
      "D ! 0 = rp_command_options x"
      "D ! 1 = rp_route_request_id x" "u16_from_le (D ! 2) (D ! 3) = rp_originator x"
      "u16_from_le (D ! 4) (D ! 5) = rp_responder x" "D ! 6 = rp_path_cost x"
    by (simp_all add: D route_reply_fixed_def u16_to_le_def)
  note r1 = read_ieee_if_append[OF D7, of "bit (rp_command_options x) 4"]
  have "drop (7 + length (opt_bytes id (rp_originator_ieee x))) D =
      opt_bytes id (rp_responder_ieee x) @ rest" unfolding drop_plus D7 by simp
  note r2 = read_ieee_if_append(1)[OF this, of "bit (rp_command_options x) 5"]
  from r1(1) r2 wf fixed show "RouteReply_parse (RouteReply_bytes x @ rest) = Some x"
    by (simp add: RouteReply_parse_def rrep_wf_def u8_flags flip: D_def)
qed

section \<open>Network Status\<close>

record NetworkStatusCommand =
  ns_status_code :: u8
  ns_destination :: ShortAddress

definition NO_ROUTE_AVAILABLE :: u8 where "NO_ROUTE_AVAILABLE = 0x00"
definition TREE_LINK_FAILURE :: u8 where "TREE_LINK_FAILURE = 0x01"
definition NON_TREE_LINK_FAILURE :: u8 where "NON_TREE_LINK_FAILURE = 0x02"
definition SOURCE_ROUTE_FAILURE :: u8 where "SOURCE_ROUTE_FAILURE = 0x0B"
definition MANY_TO_ONE_ROUTE_FAILURE :: u8 where "MANY_TO_ONE_ROUTE_FAILURE = 0x0C"
definition ADDRESS_CONFLICT :: u8 where "ADDRESS_CONFLICT = 0x0D"
definition PAN_ID_UPDATE :: u8 where "PAN_ID_UPDATE = 0x0F"
definition NETWORK_ADDRESS_UPDATE :: u8 where "NETWORK_ADDRESS_UPDATE = 0x10"

definition NetworkStatusCommand_parse :: "u8 list \<Rightarrow> NetworkStatusCommand option" where
  "NetworkStatusCommand_parse data =
     (if length data < 3 then None
      else Some \<lparr>ns_status_code = data ! 0, ns_destination = u16_from_le (data ! 1) (data ! 2)\<rparr>)"

definition NetworkStatusCommand_bytes :: "NetworkStatusCommand \<Rightarrow> u8 list" where
  "NetworkStatusCommand_bytes c = [ns_status_code c] @ u16_to_le (ns_destination c)"

definition NetworkStatusCommand_serialize :: "NetworkStatusCommand \<Rightarrow> u8 list \<Rightarrow> (u8 list \<times> nat) option" where
  "NetworkStatusCommand_serialize c buf =
     map_option (\<lambda>(b, _). (b, 3)) (write_at (NetworkStatusCommand_bytes c) (buf, 0))"

interpretation ns_codec: wire_codec NetworkStatusCommand_bytes NetworkStatusCommand_parse "\<lambda>c. True"
  by unfold_locales
    (simp add: NetworkStatusCommand_parse_def NetworkStatusCommand_bytes_def u16_to_le_def)

section \<open>Link Status\<close>

record LinkStatusEntry =
  ls_address :: ShortAddress
  ls_incoming_cost :: u8
  ls_outgoing_cost :: u8

definition MAX_LINK_STATUS_ENTRIES :: nat where "MAX_LINK_STATUS_ENTRIES = 31"
definition LINK_STATUS_ENTRIES_PER_FRAME :: nat where "LINK_STATUS_ENTRIES_PER_FRAME = 16"
definition LINK_STATUS_FIRST_FRAME :: u8 where "LINK_STATUS_FIRST_FRAME = 0x20"
definition LINK_STATUS_LAST_FRAME :: u8 where "LINK_STATUS_LAST_FRAME = 0x40"
definition LINK_STATUS_COUNT_MASK :: u8 where "LINK_STATUS_COUNT_MASK = 0x1F"

lemmas link_status_consts = LINK_STATUS_FIRST_FRAME_def LINK_STATUS_LAST_FRAME_def
  LINK_STATUS_COUNT_MASK_def

record LinkStatusCommand =
  lsc_first_frame :: bool
  lsc_last_frame :: bool
  lsc_entries :: "LinkStatusEntry list"

definition LinkStatusCommand_wire_size :: "LinkStatusCommand \<Rightarrow> nat" where
  "LinkStatusCommand_wire_size c = 1 + 3 * length (lsc_entries c)"

definition link_status_options :: "LinkStatusCommand \<Rightarrow> u8" where
  "link_status_options c =
     (of_nat (length (lsc_entries c)) AND LINK_STATUS_COUNT_MASK) OR
     (if lsc_first_frame c then LINK_STATUS_FIRST_FRAME else 0) OR
     (if lsc_last_frame c then LINK_STATUS_LAST_FRAME else 0)"

definition link_status_entry_bytes :: "LinkStatusEntry \<Rightarrow> u8 list" where
  "link_status_entry_bytes e =
     u16_to_le (ls_address e) @
     [(ls_incoming_cost e AND 0x07) OR push_bit 4 (ls_outgoing_cost e AND 0x07)]"

definition LinkStatusCommand_serialize :: "LinkStatusCommand \<Rightarrow> u8 list \<Rightarrow> (u8 list \<times> nat) option" where
  "LinkStatusCommand_serialize c buf =
     (let size' = LinkStatusCommand_wire_size c
      in if length buf < size' then None
         else do {
           (b, _) \<leftarrow> write_at [link_status_options c] (buf, 0) \<bind>
             write_each link_status_entry_bytes (lsc_entries c);
           Some (b, size')
         })"

definition LinkStatusCommand_bytes :: "LinkStatusCommand \<Rightarrow> u8 list" where
  "LinkStatusCommand_bytes c =
     link_status_options c # concat (map link_status_entry_bytes (lsc_entries c))"

text \<open>A received report borrows the entry octets of the payload.\<close>

record LinkStatusReport =
  lsr_first_frame :: bool
  lsr_last_frame :: bool
  lsr_entries :: "u8 list"

definition LinkStatusReport_parse :: "u8 list \<Rightarrow> LinkStatusReport option" where
  "LinkStatusReport_parse data =
     (case data of
        [] \<Rightarrow> None
      | options # _ \<Rightarrow>
          let count = unat (options AND LINK_STATUS_COUNT_MASK); end' = 1 + 3 * count
          in if length data < end' then None
             else Some \<lparr>lsr_first_frame = (options AND LINK_STATUS_FIRST_FRAME \<noteq> 0),
               lsr_last_frame = (options AND LINK_STATUS_LAST_FRAME \<noteq> 0),
               lsr_entries = drop 1 (take end' data)\<rparr>)"

definition LinkStatusReport_len :: "LinkStatusReport \<Rightarrow> nat" where
  "LinkStatusReport_len r = length (lsr_entries r) div 3"

definition LinkStatusReport_is_empty :: "LinkStatusReport \<Rightarrow> bool" where
  "LinkStatusReport_is_empty r \<longleftrightarrow> lsr_entries r = []"

text \<open>\<^verbatim>\<open>as_chunks::<3>().0\<close> mapped to entries: a trailing partial chunk is dropped.\<close>

fun link_status_chunks :: "u8 list \<Rightarrow> LinkStatusEntry list" where
  "link_status_chunks (a # b # c # rest) =
     \<lparr>ls_address = u16_from_le a b, ls_incoming_cost = c AND 0x07,
      ls_outgoing_cost = drop_bit 4 c AND 0x07\<rparr> # link_status_chunks rest"
| "link_status_chunks _ = []"

definition LinkStatusReport_iter :: "LinkStatusReport \<Rightarrow> LinkStatusEntry list" where
  "LinkStatusReport_iter r = link_status_chunks (lsr_entries r)"

definition LinkStatusReport_covers :: "LinkStatusReport \<Rightarrow> ShortAddress \<Rightarrow> bool" where
  "LinkStatusReport_covers r address =
     (case LinkStatusReport_iter r of
        [] \<Rightarrow> lsr_first_frame r \<and> lsr_last_frame r
      | first # entries \<Rightarrow>
          let final = (if entries = [] then first else last entries);
              lower = (if lsr_first_frame r then 0x0000 else ls_address first);
              upper = (if lsr_last_frame r then 0xFFFF else ls_address final)
          in lower \<le> address \<and> address \<le> upper)"

definition LinkStatusReport_incoming_cost_for :: "LinkStatusReport \<Rightarrow> ShortAddress \<Rightarrow> u8 option" where
  "LinkStatusReport_incoming_cost_for r address =
     map_option ls_incoming_cost (find (\<lambda>e. ls_address e = address) (LinkStatusReport_iter r))"

lemma length_link_status_entries [simp]:
  "length (concat (map link_status_entry_bytes es)) = 3 * length es"
  by (induction es) (simp_all add: link_status_entry_bytes_def)

lemma LinkStatusCommand_serialize_eq:
  "LinkStatusCommand_serialize c buf = write_at (LinkStatusCommand_bytes c) (buf, 0)"
  unfolding LinkStatusCommand_serialize_def Let_def write_each_then
  by (simp add: LinkStatusCommand_bytes_def LinkStatusCommand_wire_size_def write_at_start)

text \<open>What an entry is after its two costs passed through their three-bit fields.\<close>

definition ls_masked :: "LinkStatusEntry \<Rightarrow> LinkStatusEntry" where
  "ls_masked e = e\<lparr>ls_incoming_cost := ls_incoming_cost e AND 0x07, ls_outgoing_cost := ls_outgoing_cost e AND 0x07\<rparr>"

lemma ls_entry_bytes_masked:
  "link_status_chunks (link_status_entry_bytes e @ bs) = ls_masked e # link_status_chunks bs"
proof -
  let ?i = "ls_incoming_cost e" and ?u = "ls_outgoing_cost e"
  define c where "c = (?i AND 7) OR push_bit 4 (?u AND 7)"
  have "c AND 7 = ?i AND 7" "drop_bit 4 c AND 7 = ?u AND 7"
    unfolding c_def masks by (rule bit_word_eqI; auto simp: bit_simps)+
  moreover have "link_status_entry_bytes e = u16_to_le (ls_address e) @ [c]"
    unfolding c_def by (rule link_status_entry_bytes_def)
  ultimately show ?thesis by (simp add: u16_to_le_def ls_masked_def)
qed

lemma ls_entries_masked: "link_status_chunks (concat (map link_status_entry_bytes es)) = map ls_masked es"
  by (induction es) (simp_all add: ls_entry_bytes_masked)

definition LinkStatusReport_of :: "LinkStatusCommand \<Rightarrow> LinkStatusReport" where
  "LinkStatusReport_of c = \<lparr>lsr_first_frame = lsc_first_frame c, lsr_last_frame = lsc_last_frame c,
     lsr_entries = concat (map link_status_entry_bytes (lsc_entries c))\<rparr>"

lemma link_status_options_fields:
  assumes "length (lsc_entries c) \<le> 31"
  shows "unat (link_status_options c AND LINK_STATUS_COUNT_MASK) = length (lsc_entries c)"
    "(link_status_options c AND LINK_STATUS_FIRST_FRAME \<noteq> 0) = lsc_first_frame c"
    "(link_status_options c AND LINK_STATUS_LAST_FRAME \<noteq> 0) = lsc_last_frame c"
proof -
  define n :: u8 where "n = of_nat (length (lsc_entries c))"
  have n: "unat n = length (lsc_entries c)" using assms by (simp add: unat_of_nat n_def)
  then have "n < 32" using assms by (simp add: word_less_nat_alt)
  then have b: "bit n m \<Longrightarrow> m < 5" for m using word_small_bits[of n 5] by simp
  have opts: "link_status_options c = (n AND mask 5) OR flag_at 5 (lsc_first_frame c) OR
      flag_at 6 (lsc_last_frame c)"
    by (simp add: link_status_options_def link_status_consts flag_at_def masks(4)[symmetric] n_def)
  have "link_status_options c AND mask 5 = n"
    unfolding opts by (rule bit_word_eqI) (auto simp: bit_simps bit_flag_at dest: b)
  with n show "unat (link_status_options c AND LINK_STATUS_COUNT_MASK) = length (lsc_entries c)"
    by (simp add: link_status_consts masks)
  have "bit (link_status_options c) 5 = lsc_first_frame c"
    "bit (link_status_options c) 6 = lsc_last_frame c"
    unfolding opts by (simp_all add: bit_simps bit_flag_at)
  then show "(link_status_options c AND LINK_STATUS_FIRST_FRAME \<noteq> 0) = lsc_first_frame c"
    "(link_status_options c AND LINK_STATUS_LAST_FRAME \<noteq> 0) = lsc_last_frame c"
    by (simp_all add: link_status_consts u8_flags)
qed

lemma link_status_parse_bytes:
  assumes "length (lsc_entries c) \<le> MAX_LINK_STATUS_ENTRIES"
  shows "LinkStatusReport_parse (LinkStatusCommand_bytes c @ rest) = Some (LinkStatusReport_of c)"
    and "LinkStatusReport_iter (LinkStatusReport_of c) = map ls_masked (lsc_entries c)"
proof -
  have l: "length (lsc_entries c) \<le> 31" using assms by (simp add: MAX_LINK_STATUS_ENTRIES_def)
  show "LinkStatusReport_parse (LinkStatusCommand_bytes c @ rest) = Some (LinkStatusReport_of c)"
    using link_status_options_fields[OF l]
    by (simp add: LinkStatusReport_parse_def LinkStatusCommand_bytes_def LinkStatusReport_of_def)
  show "LinkStatusReport_iter (LinkStatusReport_of c) = map ls_masked (lsc_entries c)"
    by (simp add: LinkStatusReport_iter_def LinkStatusReport_of_def ls_entries_masked)
qed

section \<open>PAN identifier conflict report and update\<close>

definition NWK_REPORT_COUNT_MASK :: u8 where "NWK_REPORT_COUNT_MASK = 0x1F"
definition NWK_REPORT_ID_SHIFT :: nat where "NWK_REPORT_ID_SHIFT = 5"
definition NWK_REPORT_PAN_ID_CONFLICT :: u8 where "NWK_REPORT_PAN_ID_CONFLICT = 0x00"
definition NWK_UPDATE_PAN_ID_UPDATE :: u8 where "NWK_UPDATE_PAN_ID_UPDATE = 0x00"
definition MAX_PAN_ID_CONFLICT_REPORT :: nat where "MAX_PAN_ID_CONFLICT_REPORT = 8"

lemmas nwk_report_consts = NWK_REPORT_COUNT_MASK_def NWK_REPORT_ID_SHIFT_def
  NWK_REPORT_PAN_ID_CONFLICT_def NWK_UPDATE_PAN_ID_UPDATE_def MAX_PAN_ID_CONFLICT_REPORT_def

record PanIdConflictReport =
  pcr_epid :: IeeeAddress
  pcr_pan_ids :: "PanId list"

definition PanIdConflictReport_wire_size :: "PanIdConflictReport \<Rightarrow> nat" where
  "PanIdConflictReport_wire_size r = 9 + 2 * length (pcr_pan_ids r)"

definition pan_report_options :: "PanIdConflictReport \<Rightarrow> u8" where
  "pan_report_options r = (of_nat (length (pcr_pan_ids r)) AND NWK_REPORT_COUNT_MASK) OR
     push_bit NWK_REPORT_ID_SHIFT NWK_REPORT_PAN_ID_CONFLICT"

definition PanIdConflictReport_serialize :: "PanIdConflictReport \<Rightarrow> u8 list \<Rightarrow> (u8 list \<times> nat) option" where
  "PanIdConflictReport_serialize r buf =
     (let size' = PanIdConflictReport_wire_size r
      in if length buf < size' then None
         else do {
           (b, _) \<leftarrow> write_at ([pan_report_options r] @ pcr_epid r) (buf, 0) \<bind>
             write_each u16_to_le (pcr_pan_ids r);
           Some (b, size')
         })"

text \<open>\<^verbatim>\<open>for chunk in data[9..end].as_chunks::<2>().0 { let _ = pan_ids.push(..) }\<close>\<close>

fun push_pan_ids :: "u8 list \<Rightarrow> PanId list \<Rightarrow> PanId list" where
  "push_pan_ids (a # b # rest) acc =
     push_pan_ids rest (vec_push_ignore MAX_PAN_ID_CONFLICT_REPORT (u16_from_le a b) acc)"
| "push_pan_ids _ acc = acc"

definition PanIdConflictReport_parse :: "u8 list \<Rightarrow> PanIdConflictReport option" where
  "PanIdConflictReport_parse data =
     (if length data < 9 then None
      else let count = unat (data ! 0 AND NWK_REPORT_COUNT_MASK)
           in if drop_bit NWK_REPORT_ID_SHIFT (data ! 0) \<noteq> NWK_REPORT_PAN_ID_CONFLICT then None
              else let end' = 9 + 2 * count
                   in if length data < end' then None
                      else Some \<lparr>pcr_epid = drop 1 (take 9 data),
                        pcr_pan_ids = push_pan_ids (drop 9 (take end' data)) []\<rparr>)"

record PanIdUpdate =
  piu_epid :: IeeeAddress
  piu_update_id :: u8
  piu_new_pan_id :: PanId

definition PanIdUpdate_WIRE_SIZE :: nat where "PanIdUpdate_WIRE_SIZE = 12"

definition PanIdUpdate_bytes :: "PanIdUpdate \<Rightarrow> u8 list" where
  "PanIdUpdate_bytes u = [1 OR push_bit NWK_REPORT_ID_SHIFT NWK_UPDATE_PAN_ID_UPDATE] @ piu_epid u @
     [piu_update_id u] @ u16_to_le (piu_new_pan_id u)"

definition PanIdUpdate_serialize :: "PanIdUpdate \<Rightarrow> u8 list \<Rightarrow> (u8 list \<times> nat) option" where
  "PanIdUpdate_serialize u buf =
     (if length buf < PanIdUpdate_WIRE_SIZE then None
      else map_option (\<lambda>(b, _). (b, PanIdUpdate_WIRE_SIZE)) (write_at (PanIdUpdate_bytes u) (buf, 0)))"

definition PanIdUpdate_parse :: "u8 list \<Rightarrow> PanIdUpdate option" where
  "PanIdUpdate_parse data =
     (if length data < PanIdUpdate_WIRE_SIZE then None
      else if drop_bit NWK_REPORT_ID_SHIFT (data ! 0) \<noteq> NWK_UPDATE_PAN_ID_UPDATE \<or>
              data ! 0 AND NWK_REPORT_COUNT_MASK \<noteq> 1 then None
      else Some \<lparr>piu_epid = drop 1 (take 9 data), piu_update_id = data ! 9,
             piu_new_pan_id = u16_from_le (data ! 10) (data ! 11)\<rparr>)"

definition PanIdConflictReport_bytes :: "PanIdConflictReport \<Rightarrow> u8 list" where
  "PanIdConflictReport_bytes r =
     [pan_report_options r] @ pcr_epid r @ concat (map u16_to_le (pcr_pan_ids r))"

definition pcr_wf :: "PanIdConflictReport \<Rightarrow> bool" where
  "pcr_wf r \<longleftrightarrow> ieee_ok (pcr_epid r) \<and> length (pcr_pan_ids r) \<le> MAX_PAN_ID_CONFLICT_REPORT"

lemma PanIdConflictReport_serialize_eq:
  "ieee_ok (pcr_epid r) \<Longrightarrow>
     PanIdConflictReport_serialize r buf = write_at (PanIdConflictReport_bytes r) (buf, 0)"
  unfolding PanIdConflictReport_serialize_def Let_def write_each_then
  by (simp add: PanIdConflictReport_bytes_def PanIdConflictReport_wire_size_def write_at_start ieee_ok_def)

lemma push_pan_ids_append:
  "length acc + length ps \<le> MAX_PAN_ID_CONFLICT_REPORT \<Longrightarrow>
     push_pan_ids (concat (map u16_to_le ps)) acc = acc @ ps"
  by (induction ps arbitrary: acc) (simp_all add: u16_to_le_def vec_push_ignore_def)

lemma pan_report_options_fields:
  assumes "length (pcr_pan_ids r) \<le> 8"
  shows "unat (pan_report_options r AND NWK_REPORT_COUNT_MASK) = length (pcr_pan_ids r)"
    "drop_bit NWK_REPORT_ID_SHIFT (pan_report_options r) = NWK_REPORT_PAN_ID_CONFLICT"
proof -
  define n :: u8 where "n = of_nat (length (pcr_pan_ids r))"
  have n: "unat n = length (pcr_pan_ids r)" using assms by (simp add: unat_of_nat n_def)
  then have "n < 16" using assms by (simp add: word_less_nat_alt)
  then have b: "bit n m \<Longrightarrow> m < 4" for m using word_small_bits[of n 4] by simp
  have opts: "pan_report_options r = n AND mask 5"
    by (simp add: pan_report_options_def nwk_report_consts masks(4)[symmetric] n_def)
  have "pan_report_options r AND mask 5 = n" "drop_bit 5 (pan_report_options r) = 0"
    unfolding opts by (rule bit_word_eqI; auto simp: bit_simps dest: b)+
  with n show "unat (pan_report_options r AND NWK_REPORT_COUNT_MASK) = length (pcr_pan_ids r)"
    "drop_bit NWK_REPORT_ID_SHIFT (pan_report_options r) = NWK_REPORT_PAN_ID_CONFLICT"
    by (simp_all add: nwk_report_consts masks)
qed

interpretation pan_conflict_codec: wire_codec PanIdConflictReport_bytes PanIdConflictReport_parse pcr_wf
proof
  fix x :: PanIdConflictReport and rest
  assume wf: "pcr_wf x"
  then have l: "length (pcr_pan_ids x) \<le> 8" and e: "length (pcr_epid x) = 8"
    by (simp_all add: pcr_wf_def nwk_report_consts ieee_ok_def)
  have "push_pan_ids (concat (map u16_to_le (pcr_pan_ids x))) [] = pcr_pan_ids x"
    using push_pan_ids_append[of "[]" "pcr_pan_ids x"] l by (simp add: nwk_report_consts)
  with pan_report_options_fields[OF l] e
  show "PanIdConflictReport_parse (PanIdConflictReport_bytes x @ rest) = Some x"
    by (simp add: PanIdConflictReport_parse_def PanIdConflictReport_bytes_def Let_def drop_take)
qed

interpretation pan_update_codec: wire_codec PanIdUpdate_bytes PanIdUpdate_parse "\<lambda>u. ieee_ok (piu_epid u)"
proof
  fix x :: PanIdUpdate and rest
  assume wf: "ieee_ok (piu_epid x)"
  then obtain a b c d e f g h where "piu_epid x = [a, b, c, d, e, f, g, h]"
    by (auto simp: ieee_ok_def numeral_eq_Suc length_Suc_conv)
  then show "PanIdUpdate_parse (PanIdUpdate_bytes x @ rest) = Some x"
    by (cases x) (simp add: PanIdUpdate_parse_def PanIdUpdate_bytes_def u16_to_le_def
        nwk_report_consts PanIdUpdate_WIRE_SIZE_def)
qed

section \<open>End Device Timeout\<close>

definition ED_TIMEOUT_ENUM_MAX :: u8 where "ED_TIMEOUT_ENUM_MAX = 14"
definition ED_TIMEOUT_ENUM_DEFAULT :: u8 where "ED_TIMEOUT_ENUM_DEFAULT = 8"
definition ED_TIMEOUT_ENUM_REQUESTED :: u8 where "ED_TIMEOUT_ENUM_REQUESTED = ED_TIMEOUT_ENUM_MAX"
definition ED_TIMEOUT_STATUS_SUCCESS :: u8 where "ED_TIMEOUT_STATUS_SUCCESS = 0"
definition ED_TIMEOUT_STATUS_INCORRECT_VALUE :: u8 where "ED_TIMEOUT_STATUS_INCORRECT_VALUE = 1"
definition PARENT_INFO_MASK :: u8 where "PARENT_INFO_MASK = 0x01 OR 0x02"

definition ed_timeout_enum_to_seconds :: "u8 \<Rightarrow> u32 option" where
  "ed_timeout_enum_to_seconds timeout_enum =
     (if timeout_enum = 0 then Some 10
      else if 1 \<le> timeout_enum \<and> timeout_enum \<le> ED_TIMEOUT_ENUM_MAX
      then Some (push_bit (unat (timeout_enum - 1)) 120)
      else None)"

record EdTimeoutRequest =
  etq_requested_timeout :: u8
  etq_ed_config :: u8

definition EdTimeoutRequest_new :: "u8 \<Rightarrow> EdTimeoutRequest option" where
  "EdTimeoutRequest_new requested_timeout =
     (if requested_timeout > ED_TIMEOUT_ENUM_MAX then None
      else Some \<lparr>etq_requested_timeout = requested_timeout, etq_ed_config = 0\<rparr>)"

definition EdTimeoutRequest_max_timeout :: EdTimeoutRequest where
  "EdTimeoutRequest_max_timeout =
     \<lparr>etq_requested_timeout = ED_TIMEOUT_ENUM_REQUESTED, etq_ed_config = 0\<rparr>"

definition EdTimeoutRequest_timeout_seconds :: "EdTimeoutRequest \<Rightarrow> u32 option" where
  "EdTimeoutRequest_timeout_seconds r = ed_timeout_enum_to_seconds (etq_requested_timeout r)"

definition EdTimeoutRequest_serialize :: "EdTimeoutRequest \<Rightarrow> u8 list \<Rightarrow> (u8 list \<times> nat) option" where
  "EdTimeoutRequest_serialize r buf = write_at [etq_requested_timeout r, etq_ed_config r] (buf, 0)"

definition EdTimeoutRequest_parse :: "u8 list \<Rightarrow> EdTimeoutRequest option" where
  "EdTimeoutRequest_parse data =
     (if length data < 2 \<or> data ! 0 > ED_TIMEOUT_ENUM_MAX \<or> data ! 1 \<noteq> 0 then None
      else Some \<lparr>etq_requested_timeout = data ! 0, etq_ed_config = data ! 1\<rparr>)"

record EdTimeoutResponse =
  etr_status :: u8
  etr_parent_info :: u8

definition EdTimeoutResponse_serialize :: "EdTimeoutResponse \<Rightarrow> u8 list \<Rightarrow> (u8 list \<times> nat) option" where
  "EdTimeoutResponse_serialize r buf = write_at [etr_status r, etr_parent_info r] (buf, 0)"

definition EdTimeoutResponse_parse :: "u8 list \<Rightarrow> EdTimeoutResponse option" where
  "EdTimeoutResponse_parse data =
     (if length data < 2 then None
      else Some \<lparr>etr_status = data ! 0, etr_parent_info = data ! 1\<rparr>)"

interpretation ed_request_codec: wire_codec "\<lambda>r. [etq_requested_timeout r, etq_ed_config r]"
  EdTimeoutRequest_parse "\<lambda>r. EdTimeoutRequest_new (etq_requested_timeout r) = Some r"
proof
  fix x :: EdTimeoutRequest and rest
  assume "EdTimeoutRequest_new (etq_requested_timeout x) = Some x"
  then show "EdTimeoutRequest_parse ([etq_requested_timeout x, etq_ed_config x] @ rest) = Some x"
    by (cases x) (auto simp: EdTimeoutRequest_parse_def EdTimeoutRequest_new_def split: if_splits)
qed

interpretation ed_response_codec: wire_codec "\<lambda>r. [etr_status r, etr_parent_info r]"
  EdTimeoutResponse_parse "\<lambda>r. True"
  by unfold_locales (simp add: EdTimeoutResponse_parse_def)

lemma ed_timeout_cases:
  assumes "1 \<le> e" "e \<le> ED_TIMEOUT_ENUM_MAX"
  shows "e \<in> {1, 2, 3, 4, 5, 6, 7, 8, 9, 10, 11, 12, 13, 14}"
proof -
  have "1 \<le> unat e" "unat e \<le> 14"
    using assms by (simp_all add: word_le_nat_alt ED_TIMEOUT_ENUM_MAX_def)
  then have "unat e \<in> {1, 2, 3, 4, 5, 6, 7, 8, 9, 10, 11, 12, 13, 14}" by (simp, arith)
  then have "word_of_nat (unat e) \<in> (word_of_nat ` {1, 2, 3, 4, 5, 6, 7, 8, 9, 10, 11, 12, 13, 14} :: u8 set)"
    by (rule imageI)
  then show ?thesis by simp
qed

text \<open>
  The End Device Timeout arithmetic agrees with the table of the specification and never
  overflows its 32 bits: enumeration 0 is ten seconds, \<open>n\<close> up to 14 is \<open>120 * 2 ^ (n - 1)\<close>
  seconds, nothing above 14 is a timeout; and a parsed request is always one the
  constructor admits.
\<close>

theorem ed_timeout_table:
  "ed_timeout_enum_to_seconds 0 = Some 10 \<and>
   (\<forall>e. 0 < e \<and> e \<le> 14 \<longrightarrow>
      map_option unat (ed_timeout_enum_to_seconds e) = Some (120 * 2 ^ (unat e - 1))) \<and>
   (\<forall>e. 14 < e \<longrightarrow> ed_timeout_enum_to_seconds e = None) \<and>
   (\<forall>data r. EdTimeoutRequest_parse data = Some r \<longrightarrow>
      EdTimeoutRequest_new (etq_requested_timeout r) = Some r \<and> EdTimeoutRequest_timeout_seconds r \<noteq> None)"
proof (intro conjI allI impI)
  show "ed_timeout_enum_to_seconds 0 = Some 10" by (simp add: ed_timeout_enum_to_seconds_def)
next
  fix e :: u8
  assume e: "0 < e \<and> e \<le> 14"
  then have "1 \<le> e" by (simp add: word_le_nat_alt word_less_nat_alt)
  with e have "e \<in> {1, 2, 3, 4, 5, 6, 7, 8, 9, 10, 11, 12, 13, 14}"
    by (intro ed_timeout_cases) (simp_all add: ED_TIMEOUT_ENUM_MAX_def)
  then show "map_option unat (ed_timeout_enum_to_seconds e) = Some (120 * 2 ^ (unat e - 1))"
    by (elim insertE emptyE)
      (simp_all add: ed_timeout_enum_to_seconds_def ED_TIMEOUT_ENUM_MAX_def)
next
  fix e :: u8
  assume "14 < e"
  then show "ed_timeout_enum_to_seconds e = None"
    by (auto simp: ed_timeout_enum_to_seconds_def ED_TIMEOUT_ENUM_MAX_def)
next
  fix data r
  assume "EdTimeoutRequest_parse data = Some r"
  then show "EdTimeoutRequest_new (etq_requested_timeout r) = Some r"
    and "EdTimeoutRequest_timeout_seconds r \<noteq> None"
    by (auto simp: EdTimeoutRequest_parse_def EdTimeoutRequest_new_def EdTimeoutRequest_timeout_seconds_def
        ed_timeout_enum_to_seconds_def not_less word_le_nat_alt unat_gt_0 Suc_le_eq split: if_splits)
qed

theorem ed_timeout_table_witness:
  "map_option unat (ed_timeout_enum_to_seconds 14) = Some 983040 \<and> ed_timeout_enum_to_seconds 15 = None"
proof -
  note t = ed_timeout_table[THEN conjunct2]
  have "map_option unat (ed_timeout_enum_to_seconds 14) = Some (120 * 2 ^ (unat (14 :: u8) - 1))"
    by (rule t[THEN conjunct1, rule_format]) simp
  moreover have "ed_timeout_enum_to_seconds 15 = None"
    by (rule t[THEN conjunct2, THEN conjunct1, rule_format]) simp
  ultimately show ?thesis by simp
qed

text \<open>The routing and PAN-maintenance command payloads: the parser reads back what the serializer wrote into the buffer, whatever follows.\<close>

lemma written_bytes: "write_at bs (buf, 0) = Some (out, n) \<Longrightarrow> take n out = bs"
  by (auto simp: write_at_start split: if_splits)

lemma nwk_command_roundtrips:
  "RouteRequest_serialize rq buf = Some (out, n) \<Longrightarrow> rreq_wf rq \<Longrightarrow> RouteRequest_parse (take n out @ rest) = Some rq"
  "RouteReply_serialize rp buf = Some (out, n) \<Longrightarrow> rrep_wf rp \<Longrightarrow> RouteReply_parse (take n out @ rest) = Some rp"
  "NetworkStatusCommand_serialize ns buf = Some (out, n) \<Longrightarrow> NetworkStatusCommand_parse (take n out @ rest) = Some ns"
  "PanIdConflictReport_serialize pc buf = Some (out, n) \<Longrightarrow> pcr_wf pc \<Longrightarrow> PanIdConflictReport_parse (take n out @ rest) = Some pc"
  "PanIdUpdate_serialize pu buf = Some (out, n) \<Longrightarrow> ieee_ok (piu_epid pu) \<Longrightarrow> PanIdUpdate_parse (take n out @ rest) = Some pu"
proof -
  show "RouteRequest_serialize rq buf = Some (out, n) \<Longrightarrow> rreq_wf rq \<Longrightarrow> RouteRequest_parse (take n out @ rest) = Some rq"
    by (simp add: RouteRequest_serialize_eq written_bytes rreq_codec.dec_enc)
  show "RouteReply_serialize rp buf = Some (out, n) \<Longrightarrow> rrep_wf rp \<Longrightarrow> RouteReply_parse (take n out @ rest) = Some rp"
    by (simp add: RouteReply_serialize_eq written_bytes rrep_codec.dec_enc)
  show "PanIdConflictReport_serialize pc buf = Some (out, n) \<Longrightarrow> pcr_wf pc \<Longrightarrow> PanIdConflictReport_parse (take n out @ rest) = Some pc"
    by (simp add: PanIdConflictReport_serialize_eq written_bytes pan_conflict_codec.dec_enc pcr_wf_def)
  show "NetworkStatusCommand_parse (take n out @ rest) = Some ns" if "NetworkStatusCommand_serialize ns buf = Some (out, n)"
  proof -
    have "take n out = NetworkStatusCommand_bytes ns" using that
      by (auto simp: NetworkStatusCommand_serialize_def write_at_start NetworkStatusCommand_bytes_def u16_to_le_def split: if_splits)
    then show ?thesis by (simp add: ns_codec.dec_enc)
  qed
  show "PanIdUpdate_parse (take n out @ rest) = Some pu" if "PanIdUpdate_serialize pu buf = Some (out, n)" "ieee_ok (piu_epid pu)"
  proof -
    have "length (PanIdUpdate_bytes pu) = PanIdUpdate_WIRE_SIZE" using that(2)
      by (simp add: PanIdUpdate_bytes_def PanIdUpdate_WIRE_SIZE_def ieee_ok_def)
    then have "take n out = PanIdUpdate_bytes pu" using that(1) by (auto simp: PanIdUpdate_serialize_def write_at_start split: if_splits)
    then show ?thesis using that(2) by (simp add: pan_update_codec.dec_enc)
  qed
qed

end
