(* ===== verification/Neighbor_Table.thy ===== *)
theory Neighbor_Table
  imports Nwk_Frames "HOL-Library.Product_Lexorder"
begin

text \<open>
  \<^verbatim>\<open>zigbee-nwk/src/neighbor.rs\<close> (router build): the neighbor entry with its link costs and
  lifetimes, and the neighbor table of \<open>MAX_NEIGHBORS\<close> slots with its count of slots ever
  used.  The invariant is that both addresses identify at most one live entry; insertion
  merges entries that share either address and, in a full table, overwrites only entries
  outside a live parent or child relationship.
\<close>

section \<open>Entries\<close>

definition MAX_NEIGHBORS :: nat where "MAX_NEIGHBORS = 32"

datatype Relationship = Parent | Child | Sibling | PreviousChild | UnauthenticatedChild

datatype NeighborDeviceType = NdtCoordinator | NdtRouter | NdtEndDevice | NdtUnknown

definition LINK_STATUS_PERIOD_SECS :: u16 where "LINK_STATUS_PERIOD_SECS = 15"
definition ROUTER_AGE_LIMIT :: u8 where "ROUTER_AGE_LIMIT = 3"

record NeighborEntry =
  nb_ieee_address :: IeeeAddress
  nb_network_address :: ShortAddress
  nb_device_type :: NeighborDeviceType
  nb_rx_on_when_idle :: bool
  nb_security_capable :: bool
  nb_relationship :: Relationship
  nb_lqi :: u8
  nb_incoming_cost :: u8
  nb_outgoing_cost :: u8
  nb_link_status_age :: u8
  nb_depth :: u8
  nb_permit_joining :: bool
  nb_age :: u16
  nb_end_device_timeout :: u8
  nb_keepalive_remaining_secs :: u32
  nb_keepalive_confirmed :: bool
  nb_parent_annce_pending :: bool
  nb_awaiting_link_status :: bool
  nb_extended_pan_id :: IeeeAddress
  nb_active :: bool

definition link_cost_from_lqi :: "u8 \<Rightarrow> u8" where
  "link_cost_from_lqi lqi =
     (if lqi \<le> 50 then 7 else if lqi \<le> 100 then 5 else if lqi \<le> 150 then 3
      else if lqi \<le> 200 then 2 else 1)"

definition NeighborEntry_empty :: NeighborEntry where
  "NeighborEntry_empty =
     \<lparr>nb_ieee_address = replicate 8 0, nb_network_address = 0xFFFF, nb_device_type = NdtUnknown,
      nb_rx_on_when_idle = False, nb_security_capable = False, nb_relationship = Sibling,
      nb_lqi = 0, nb_incoming_cost = link_cost_from_lqi 0, nb_outgoing_cost = 0,
      nb_link_status_age = 0, nb_depth = 0, nb_permit_joining = False, nb_age = 0,
      nb_end_device_timeout = ED_TIMEOUT_ENUM_DEFAULT, nb_keepalive_remaining_secs = 0,
      nb_keepalive_confirmed = False, nb_parent_annce_pending = False,
      nb_awaiting_link_status = False, nb_extended_pan_id = replicate 8 0, nb_active = False\<rparr>"

definition NeighborEntry_new_from_annce :: "ShortAddress \<Rightarrow> IeeeAddress \<Rightarrow> NeighborEntry" where
  "NeighborEntry_new_from_annce nwk_addr ieee_addr =
     NeighborEntry_empty\<lparr>nb_network_address := nwk_addr, nb_ieee_address := ieee_addr, nb_active := True\<rparr>"

definition update_incoming_cost_from_lqi :: "NeighborEntry \<Rightarrow> NeighborEntry" where
  "update_incoming_cost_from_lqi e = e\<lparr>nb_incoming_cost := link_cost_from_lqi (nb_lqi e)\<rparr>"

definition observe_frame :: "NeighborEntry \<Rightarrow> u8 \<Rightarrow> NeighborEntry" where
  "observe_frame e lqi =
     update_incoming_cost_from_lqi
       (e\<lparr>nb_lqi := (if nb_lqi e = 0 then lqi
                     else ucast ((ucast (nb_lqi e) * 3 + ucast lqi :: u16) div 4))\<rparr>)"

definition is_router :: "NeighborEntry \<Rightarrow> bool" where
  "is_router e \<longleftrightarrow> nb_device_type e = NdtRouter \<or> nb_device_type e = NdtCoordinator"

definition is_confirmed_direct_hop :: "NeighborEntry \<Rightarrow> bool" where
  "is_confirmed_direct_hop e =
     (let bidirectional = 1 \<le> nb_outgoing_cost e \<and> nb_outgoing_cost e < 7 \<and>
            1 \<le> nb_incoming_cost e \<and> nb_incoming_cost e < 7
      in if nb_relationship e = Child \<or> nb_relationship e = UnauthenticatedChild
         then if \<not> is_router e then True
              else bidirectional \<or> nb_awaiting_link_status e \<and> nb_link_status_age e \<le> ROUTER_AGE_LIMIT
         else bidirectional)"

definition is_stale_router_child :: "NeighborEntry \<Rightarrow> bool" where
  "is_stale_router_child e \<longleftrightarrow>
     nb_relationship e = Child \<and> is_router e \<and> nb_link_status_age e > ROUTER_AGE_LIMIT"

definition is_evictable :: "NeighborEntry \<Rightarrow> bool" where
  "is_evictable e =
     (if is_stale_router_child e then True
      else \<not> (nb_relationship e = Parent \<or> nb_relationship e = Child \<or>
             nb_relationship e = UnauthenticatedChild))"

definition eviction_rank :: "NeighborEntry \<Rightarrow> bool \<times> u16" where
  "eviction_rank e = (nb_relationship e \<noteq> Child, nb_age e)"

definition refresh_end_device_timeout :: "NeighborEntry \<Rightarrow> NeighborEntry" where
  "refresh_end_device_timeout e =
     e\<lparr>nb_keepalive_remaining_secs :=
        (case (case ed_timeout_enum_to_seconds (nb_end_device_timeout e) of
                 Some s \<Rightarrow> Some s
               | None \<Rightarrow> ed_timeout_enum_to_seconds ED_TIMEOUT_ENUM_DEFAULT) of
           Some s \<Rightarrow> s | None \<Rightarrow> 1)\<rparr>"

section \<open>The table\<close>

record NeighborTable =
  nt_entries :: "NeighborEntry list"
  nt_count :: nat

definition NeighborTable_new :: NeighborTable where
  "NeighborTable_new = \<lparr>nt_entries = replicate MAX_NEIGHBORS NeighborEntry_empty, nt_count = 0\<rparr>"

abbreviation nt_used :: "NeighborTable \<Rightarrow> NeighborEntry list" where
  "nt_used t \<equiv> take (nt_count t) (nt_entries t)"

definition find_by_short :: "NeighborTable \<Rightarrow> ShortAddress \<Rightarrow> NeighborEntry option" where
  "find_by_short t addr = find (\<lambda>e. nb_active e \<and> nb_network_address e = addr) (nt_used t)"

definition find_by_ieee :: "NeighborTable \<Rightarrow> IeeeAddress \<Rightarrow> NeighborEntry option" where
  "find_by_ieee t addr = find (\<lambda>e. nb_active e \<and> nb_ieee_address e = addr) (nt_used t)"

text \<open>A write through \<^verbatim>\<open>find_by_ieee_mut\<close> or \<^verbatim>\<open>find_by_short_mut\<close>.\<close>

definition update_by_ieee :: "NeighborTable \<Rightarrow> IeeeAddress \<Rightarrow> (NeighborEntry \<Rightarrow> NeighborEntry) \<Rightarrow> NeighborTable" where
  "update_by_ieee t addr f =
     t\<lparr>nt_entries := update_first (\<lambda>e. nb_active e \<and> nb_ieee_address e = addr) f (nt_used t) @
         drop (nt_count t) (nt_entries t)\<rparr>"

definition update_by_short :: "NeighborTable \<Rightarrow> ShortAddress \<Rightarrow> (NeighborEntry \<Rightarrow> NeighborEntry) \<Rightarrow> NeighborTable" where
  "update_by_short t addr f =
     t\<lparr>nt_entries := update_first (\<lambda>e. nb_active e \<and> nb_network_address e = addr) f (nt_used t) @
         drop (nt_count t) (nt_entries t)\<rparr>"

definition NeighborTable_parent :: "NeighborTable \<Rightarrow> NeighborEntry option" where
  "NeighborTable_parent t = find (\<lambda>e. nb_active e \<and> nb_relationship e = Parent) (nt_used t)"

definition NeighborTable_children :: "NeighborTable \<Rightarrow> NeighborEntry list" where
  "NeighborTable_children t =
     filter (\<lambda>e. nb_active e \<and> (nb_relationship e = Child \<or> nb_relationship e = UnauthenticatedChild))
       (nt_used t)"

definition has_child_slot :: "NeighborTable \<Rightarrow> bool" where
  "has_child_slot t \<longleftrightarrow> list_ex (\<lambda>e. \<not> nb_active e) (nt_entries t) \<or>
     list_ex (\<lambda>e. nb_active e \<and> is_evictable e) (nt_entries t)"

abbreviation nb_same :: "NeighborEntry \<Rightarrow> NeighborEntry \<Rightarrow> bool" where
  "nb_same e x \<equiv> nb_active x \<and>
     (nb_network_address x = nb_network_address e \<or> nb_ieee_address x = nb_ieee_address e)"

text \<open>
  The merge loop of \<^verbatim>\<open>add_or_update\<close>: the first match is remembered, every later one is
  deactivated.
\<close>

fun merge_scan :: "('a \<Rightarrow> bool) \<Rightarrow> ('a \<Rightarrow> 'a) \<Rightarrow> nat \<Rightarrow> nat option \<Rightarrow> 'a list \<Rightarrow> nat option \<times> 'a list" where
  "merge_scan P retire index existing [] = (existing, [])"
| "merge_scan P retire index existing (e # es) =
     (if P e
      then if existing = None
           then map_prod id ((#) e) (merge_scan P retire (index + 1) (Some index) es)
           else map_prod id ((#) (retire e)) (merge_scan P retire (index + 1) existing es)
      else map_prod id ((#) e) (merge_scan P retire (index + 1) existing es))"

definition add_or_update :: "NeighborTable \<Rightarrow> NeighborEntry \<Rightarrow> NeighborTable option" where
  "add_or_update t entry =
     (let (existing, merged) = merge_scan (nb_same entry) (\<lambda>e. e\<lparr>nb_active := False\<rparr>) 0 None (nt_used t);
          entries = merged @ drop (nt_count t) (nt_entries t)
      in case existing of
           Some index \<Rightarrow> Some (t\<lparr>nt_entries := entries[index := entry\<lparr>nb_active := True\<rparr>]\<rparr>)
         | None \<Rightarrow>
             (case position (\<lambda>e. \<not> nb_active e) entries of
                Some slot \<Rightarrow>
                  Some \<lparr>nt_entries = entries[slot := entry\<lparr>nb_active := True\<rparr>],
                        nt_count = (if nt_count t < MAX_NEIGHBORS then nt_count t + 1 else nt_count t)\<rparr>
              | None \<Rightarrow>
                  (case max_idx_by (\<lambda>e. nb_active e \<and> is_evictable e) eviction_rank entries of
                     Some victim \<Rightarrow> Some (t\<lparr>nt_entries := entries[victim := entry\<lparr>nb_active := True\<rparr>]\<rparr>)
                   | None \<Rightarrow> None)))"

definition NeighborTable_remove :: "NeighborTable \<Rightarrow> ShortAddress \<Rightarrow> NeighborTable" where
  "NeighborTable_remove t addr =
     t\<lparr>nt_entries := update_first (\<lambda>e. nb_active e \<and> nb_network_address e = addr)
         (\<lambda>e. e\<lparr>nb_active := False\<rparr>) (nt_entries t)\<rparr>"

definition age_tick :: "NeighborTable \<Rightarrow> NeighborTable" where
  "age_tick t =
     t\<lparr>nt_entries := map_if nb_active (\<lambda>e. e\<lparr>nb_age := sat_add (nb_age e) 1\<rparr>) (nt_entries t)\<rparr>"

definition age_link_status_entry :: "NeighborEntry \<Rightarrow> NeighborEntry" where
  "age_link_status_entry e =
     (let e' = e\<lparr>nb_link_status_age := min (sat_add (nb_link_status_age e) 1) (sat_add ROUTER_AGE_LIMIT 1)\<rparr>
      in if nb_link_status_age e' > ROUTER_AGE_LIMIT \<and> nb_outgoing_cost e' \<noteq> 0
         then e'\<lparr>nb_outgoing_cost := 0\<rparr> else e')"

definition age_router_link_status :: "NeighborTable \<Rightarrow> NeighborTable" where
  "age_router_link_status t =
     t\<lparr>nt_entries := map_if (\<lambda>e. nb_active e \<and> is_router e) age_link_status_entry (nt_entries t)\<rparr>"

definition NeighborTable_iter :: "NeighborTable \<Rightarrow> NeighborEntry list" where
  "NeighborTable_iter t = filter nb_active (nt_entries t)"

text \<open>\<^verbatim>\<open>while index > position { entries.swap(index, index - 1); index -= 1 }\<close>\<close>

fun sink_to :: "nat \<Rightarrow> nat \<Rightarrow> 'a list \<Rightarrow> 'a list" where
  "sink_to pos 0 xs = xs"
| "sink_to pos (Suc index) xs =
     (if Suc index > pos
      then sink_to pos index (xs[Suc index := xs ! index, index := xs ! Suc index])
      else xs)"

definition clamp_cost :: "u8 \<Rightarrow> u8" where
  "clamp_cost c = (if c < 1 then 1 else if c > 7 then 7 else c)"

definition link_status_entry_of :: "NeighborEntry \<Rightarrow> LinkStatusEntry" where
  "link_status_entry_of n =
     \<lparr>ls_address = nb_network_address n, ls_incoming_cost = clamp_cost (nb_incoming_cost n),
      ls_outgoing_cost = nb_outgoing_cost n\<rparr>"

definition insert_link_status :: "LinkStatusEntry \<Rightarrow> LinkStatusEntry list \<Rightarrow> LinkStatusEntry list option" where
  "insert_link_status entry entries =
     (let pos = (case position (\<lambda>x. ls_address x > ls_address entry) entries of
                   Some p \<Rightarrow> p | None \<Rightarrow> length entries)
      in map_option (\<lambda>es. sink_to pos (length es - 1) es) (vec_push MAX_NEIGHBORS entry entries))"

fun collect_link_status :: "NeighborEntry list \<Rightarrow> LinkStatusEntry list \<Rightarrow> LinkStatusEntry list" where
  "collect_link_status [] entries = entries"
| "collect_link_status (n # ns) entries =
     (case insert_link_status (link_status_entry_of n) entries of
        None \<Rightarrow> entries
      | Some entries' \<Rightarrow> collect_link_status ns entries')"

definition router_link_status_entries :: "NeighborTable \<Rightarrow> LinkStatusEntry list" where
  "router_link_status_entries t =
     collect_link_status (filter (\<lambda>n. is_router n \<and> nb_network_address n < 0xFFF8) (NeighborTable_iter t)) []"

fun expire_scan :: "u16 \<Rightarrow> NeighborEntry list \<Rightarrow> ShortAddress list \<Rightarrow> ShortAddress list \<times> NeighborEntry list" where
  "expire_scan max_age [] expired = (expired, [])"
| "expire_scan max_age (e # es) expired =
     (if nb_active e \<and> nb_relationship e = UnauthenticatedChild \<and> nb_age e \<ge> max_age
      then map_prod id ((#) (e\<lparr>nb_active := False\<rparr>))
             (expire_scan max_age es (vec_push_ignore MAX_NEIGHBORS (nb_network_address e) expired))
      else map_prod id ((#) e) (expire_scan max_age es expired))"

definition expire_unauthenticated :: "NeighborTable \<Rightarrow> u16 \<Rightarrow> ShortAddress list \<times> NeighborTable" where
  "expire_unauthenticated t max_age =
     (let (expired, es) = expire_scan max_age (nt_entries t) [] in (expired, t\<lparr>nt_entries := es\<rparr>))"

definition NeighborTable_len :: "NeighborTable \<Rightarrow> nat" where
  "NeighborTable_len t = length (filter nb_active (nt_entries t))"

definition NeighborTable_is_empty :: "NeighborTable \<Rightarrow> bool" where
  "NeighborTable_is_empty t \<longleftrightarrow> NeighborTable_len t = 0"

definition nt_wf :: "NeighborTable \<Rightarrow> bool" where
  "nt_wf t \<longleftrightarrow> length (nt_entries t) = MAX_NEIGHBORS \<and> nt_count t \<le> MAX_NEIGHBORS \<and>
     (\<forall>i<MAX_NEIGHBORS. nb_active (nt_entries t ! i) \<longrightarrow> i < nt_count t) \<and>
     slot_uniq nb_active nb_network_address (nt_entries t) \<and>
     slot_uniq nb_active nb_ieee_address (nt_entries t)"

section \<open>Insertion\<close>

interpretation nt_short: slot_array nb_active nb_network_address "\<lambda>e. e\<lparr>nb_active := False\<rparr>"
  by unfold_locales simp

interpretation nt_ieee: slot_array nb_active nb_ieee_address "\<lambda>e. e\<lparr>nb_active := False\<rparr>"
  by unfold_locales simp

lemma merge_scan_Some: "merge_scan P r i (Some k) es = (Some k, map_if P r es)"
  by (induction es arbitrary: i) (simp_all add: map_if_def)

lemma merge_scan_None:
  "merge_scan P r i None es =
     (case position P es of
        None \<Rightarrow> (None, es)
      | Some k \<Rightarrow> (Some (i + k), take (Suc k) es @ map_if P r (drop (Suc k) es)))"
  by (induction es arbitrary: i) (auto simp: merge_scan_Some split: option.splits)

text \<open>Slot by slot, what the merge loop leaves once an entry matched at \<open>k\<close>.\<close>

lemma merged_nth:
  assumes "position P (take c es) = Some k" "j < length es" "j \<noteq> k"
  shows "((take (Suc k) (take c es) @ map_if P r (drop (Suc k) (take c es))) @ drop c es) ! j =
    (if k < j \<and> j < c \<and> P (es ! j) then r (es ! j) else es ! j)"
proof -
  have k: "k < c" "k < length es" using position_SomeD[OF assms(1)] by auto
  consider "j < k" | "k < j" "j < c" | "c \<le> j" using assms(3) by linarith
  then show ?thesis
  proof cases
    case 1
    with k assms(2) show ?thesis by (simp add: nth_append)
  next
    case 2
    then have "Suc k + (j - Suc k) = j" by simp
    with 2 k assms(2) show ?thesis
      by (auto simp: nth_append map_if_def min_def)
  next
    case 3
    with k assms(2) show ?thesis by (auto simp: nth_append min_def)
  qed
qed

definition added_at :: "NeighborTable \<Rightarrow> NeighborEntry \<Rightarrow> NeighborTable \<Rightarrow> nat \<Rightarrow> bool" where
  "added_at t e t' k \<longleftrightarrow> k < MAX_NEIGHBORS \<and> length (nt_entries t') = MAX_NEIGHBORS \<and>
     nt_entries t' ! k = e\<lparr>nb_active := True\<rparr> \<and>
     (\<forall>j<MAX_NEIGHBORS. j \<noteq> k \<longrightarrow>
        nt_entries t' ! j = (if nb_same e (nt_entries t ! j) then (nt_entries t ! j)\<lparr>nb_active := False\<rparr>
                             else nt_entries t ! j)) \<and>
     k < nt_count t' \<and> nt_count t \<le> nt_count t' \<and> nt_count t' \<le> MAX_NEIGHBORS"

definition add_slot :: "NeighborTable \<Rightarrow> NeighborEntry \<Rightarrow> nat \<Rightarrow> bool" where
  "add_slot t e k \<longleftrightarrow> nb_same e (nt_entries t ! k) \<or>
     (\<forall>x\<in>set (nt_entries t). \<not> nb_same e x) \<and>
       (\<not> nb_active (nt_entries t ! k) \<or>
        (\<forall>x\<in>set (nt_entries t). nb_active x) \<and> is_evictable (nt_entries t ! k) \<and>
        (\<forall>x\<in>set (nt_entries t). is_evictable x \<longrightarrow> eviction_rank x \<le> eviction_rank (nt_entries t ! k)))"

lemma nt_wfD:
  assumes "nt_wf t"
  shows "length (nt_entries t) = MAX_NEIGHBORS" "nt_count t \<le> MAX_NEIGHBORS"
    "\<And>i. i < MAX_NEIGHBORS \<Longrightarrow> nb_active (nt_entries t ! i) \<Longrightarrow> i < nt_count t"
    "slot_uniq nb_active nb_network_address (nt_entries t)"
    "slot_uniq nb_active nb_ieee_address (nt_entries t)"
  using assms by (auto simp: nt_wf_def)

lemma nt_inactive_beyond: "nt_wf t \<Longrightarrow> x \<in> set (drop (nt_count t) (nt_entries t)) \<Longrightarrow> \<not> nb_active x"
proof
  assume wf: "nt_wf t" and x: "x \<in> set (drop (nt_count t) (nt_entries t))" and a: "nb_active x"
  then obtain j where "j < length (nt_entries t) - nt_count t" "x = nt_entries t ! (nt_count t + j)"
    by (auto simp: in_set_conv_nth)
  with a nt_wfD(1)[OF wf] have "nt_count t + j < nt_count t" by (intro nt_wfD(3)[OF wf]) auto
  then show False by simp
qed

lemma nt_no_match:
  assumes "nt_wf t" "position (nb_same e) (nt_used t) = None"
  shows "\<forall>x\<in>set (nt_entries t). \<not> nb_same e x"
proof -
  have "\<forall>x\<in>set (nt_used t). \<not> nb_same e x" using assms(2) unfolding position_None_iff .
  moreover have "set (nt_entries t) = set (nt_used t) \<union> set (drop (nt_count t) (nt_entries t))"
    by (metis append_take_drop_id set_append)
  ultimately show ?thesis using nt_inactive_beyond[OF assms(1)] by auto
qed

lemma add_at_same:
  assumes wf: "nt_wf t" and k: "position (nb_same e) (nt_used t) = Some k"
  obtains t' where "add_or_update t e = Some t'" "added_at t e t' k" "add_slot t e k"
proof -
  let ?r = "\<lambda>e. e\<lparr>nb_active := False\<rparr>" and ?es = "nt_entries t"
  define es where "es = (take (Suc k) (nt_used t) @ map_if (nb_same e) ?r (drop (Suc k) (nt_used t))) @
    drop (nt_count t) ?es"
  let ?t = "t\<lparr>nt_entries := es[k := e\<lparr>nb_active := True\<rparr>]\<rparr>"
  have len: "length ?es = MAX_NEIGHBORS" "nt_count t \<le> MAX_NEIGHBORS" using wf by (simp_all add: nt_wf_def)
  have kc: "k < nt_count t" "nb_same e (?es ! k)" "\<forall>j<k. \<not> nb_same e (?es ! j)"
    using position_SomeD[OF k] by auto
  have les: "length es = MAX_NEIGHBORS" using len kc(1) by (auto simp: es_def min_def)
  have "es ! j = (if nb_same e (?es ! j) then ?r (?es ! j) else ?es ! j)"
    if "j < MAX_NEIGHBORS" "j \<noteq> k" for j
  proof -
    have m: "k < j \<and> j < nt_count t" if "nb_same e (?es ! j)"
      using that nt_wfD(3)[OF wf \<open>j < MAX_NEIGHBORS\<close>] kc(3) \<open>j \<noteq> k\<close> by (auto intro: ccontr)
    have "es ! j = (if k < j \<and> j < nt_count t \<and> nb_same e (?es ! j) then ?r (?es ! j) else ?es ! j)"
      unfolding es_def by (rule merged_nth[OF k]) (use that len in simp_all)
    with m show ?thesis by (cases "nb_same e (?es ! j)") simp_all
  qed
  with kc len les have "added_at t e ?t k" by (simp add: added_at_def)
  moreover have "add_or_update t e = Some ?t"
    using k by (simp add: add_or_update_def merge_scan_None es_def)
  ultimately show ?thesis using that kc(2) by (simp add: add_slot_def)
qed

lemma added_at_update:
  assumes wf: "nt_wf t" and nm: "\<forall>x\<in>set (nt_entries t). \<not> nb_same e x"
    and i: "i < MAX_NEIGHBORS" "i < c" "nt_count t \<le> c" "c \<le> MAX_NEIGHBORS"
  shows "added_at t e \<lparr>nt_entries = (nt_entries t)[i := e\<lparr>nb_active := True\<rparr>], nt_count = c\<rparr> i"
proof -
  have len: "length (nt_entries t) = MAX_NEIGHBORS" by (rule nt_wfD(1)[OF wf])
  have "\<not> nb_same e (nt_entries t ! j)" if "j < MAX_NEIGHBORS" for j
    using nm len that nth_mem[of j "nt_entries t"] by simp
  with len i show ?thesis by (simp add: added_at_def)
qed

lemma first_free_le_count:
  assumes wf: "nt_wf t" and i: "position (\<lambda>e. \<not> nb_active e) (nt_entries t) = Some i"
  shows "i \<le> nt_count t"
proof (rule ccontr)
  assume "\<not> i \<le> nt_count t"
  then have "nt_count t < MAX_NEIGHBORS" "nb_active (nt_entries t ! nt_count t)"
    using position_SomeD[OF i] nt_wfD(1)[OF wf] by auto
  from nt_wfD(3)[OF wf this] show False by simp
qed

lemma add_at_new:
  assumes wf: "nt_wf t" and n: "position (nb_same e) (nt_used t) = None" and h: "has_child_slot t"
  obtains k t' where "add_or_update t e = Some t'" "added_at t e t' k" "add_slot t e k"
proof (cases "position (\<lambda>e. \<not> nb_active e) (nt_entries t)")
  case (Some i)
  let ?t = "\<lparr>nt_entries = (nt_entries t)[i := e\<lparr>nb_active := True\<rparr>],
    nt_count = (if nt_count t < MAX_NEIGHBORS then nt_count t + 1 else nt_count t)\<rparr>"
  have nm: "\<forall>x\<in>set (nt_entries t). \<not> nb_same e x" by (rule nt_no_match[OF wf n])
  have i: "i < MAX_NEIGHBORS" "\<not> nb_active (nt_entries t ! i)"
    using position_SomeD[OF Some] nt_wfD(1)[OF wf] by simp_all
  have "added_at t e ?t i"
    by (rule added_at_update[OF wf nm i(1)]) (use first_free_le_count[OF wf Some] i nt_wfD(2)[OF wf] in auto)
  moreover have "add_or_update t e = Some ?t"
    using n Some by (simp add: add_or_update_def merge_scan_None)
  moreover have "add_slot t e i" unfolding add_slot_def using nm i(2) by (intro disjI2 conjI disjI1) simp_all
  ultimately show ?thesis using that[of ?t i] by simp
next
  case None
  have nm: "\<forall>x\<in>set (nt_entries t). \<not> nb_same e x" by (rule nt_no_match[OF wf n])
  have act: "\<forall>x\<in>set (nt_entries t). nb_active x" using None by (simp add: position_None_iff)
  have "max_idx_by (\<lambda>e. nb_active e \<and> is_evictable e) eviction_rank (nt_entries t) \<noteq> None"
    using h act by (auto simp: has_child_slot_def max_idx_by_None_iff list_ex_iff)
  then obtain i where
    m: "max_idx_by (\<lambda>e. nb_active e \<and> is_evictable e) eviction_rank (nt_entries t) = Some i" by blast
  note mx = max_idx_by_SomeD[OF m]
  let ?t = "t\<lparr>nt_entries := (nt_entries t)[i := e\<lparr>nb_active := True\<rparr>]\<rparr>"
  have i: "i < MAX_NEIGHBORS" "i < nt_count t"
    using mx(1,2) nt_wfD(1,3)[OF wf] by simp_all
  have "added_at t e ?t i"
    using added_at_update[OF wf nm i(1) i(2) order.refl nt_wfD(2)[OF wf]] by (simp add: added_at_def)
  moreover have "add_or_update t e = Some ?t"
    using n None m by (simp add: add_or_update_def merge_scan_None)
  moreover have "add_slot t e i"
    unfolding add_slot_def using nm act mx(2) mx(3) by (intro disjI2 conjI ballI impI) simp_all
  ultimately show ?thesis using that[of ?t i] by simp
qed

lemma add_refused:
  assumes wf: "nt_wf t" and n: "position (nb_same e) (nt_used t) = None" and h: "\<not> has_child_slot t"
  shows "add_or_update t e = None"
proof -
  have "position (\<lambda>e. \<not> nb_active e) (nt_entries t) = None"
    "max_idx_by (\<lambda>e. nb_active e \<and> is_evictable e) eviction_rank (nt_entries t) = None"
    using h by (auto simp: has_child_slot_def list_ex_iff position_None_iff max_idx_by_None_iff)
  with n show ?thesis by (simp add: add_or_update_def merge_scan_None)
qed

text \<open>Refused exactly when nothing matches and no slot is free or evictable.\<close>

lemma add_or_update_None_iff:
  assumes "nt_wf t"
  shows "add_or_update t e = None \<longleftrightarrow>
    (\<forall>x\<in>set (nt_entries t). \<not> nb_same e x) \<and> \<not> has_child_slot t"
proof (cases "position (nb_same e) (nt_used t)")
  case (Some k)
  then have "\<exists>x\<in>set (nt_entries t). nb_same e x"
    using position_SomeD[OF Some] by (intro bexI[of _ "nt_entries t ! k"]) auto
  moreover have "add_or_update t e \<noteq> None" by (rule add_at_same[OF assms Some]) simp
  ultimately show ?thesis by blast
next
  case None
  note nm = nt_no_match[OF assms None]
  show ?thesis
  proof (cases "has_child_slot t")
    case True
    have "add_or_update t e \<noteq> None" by (rule add_at_new[OF assms None True]) simp
    with True show ?thesis by simp
  next
    case False
    with add_refused[OF assms None False] nm show ?thesis by blast
  qed
qed

lemma add_or_update_cases:
  assumes "nt_wf t" "add_or_update t e = Some t'"
  obtains k where "added_at t e t' k" "add_slot t e k"
proof (cases "position (nb_same e) (nt_used t)")
  case (Some k)
  then show ?thesis by (rule add_at_same[OF assms(1)]) (use assms(2) that in auto)
next
  case None
  have h: "has_child_slot t" using add_refused[OF assms(1) None] assms(2) by fastforce
  show ?thesis by (rule add_at_new[OF assms(1) None h]) (use assms(2) that in auto)
qed

section \<open>The invariant\<close>

lemma nt_wf_new [wf_intros]: "nt_wf NeighborTable_new"
  by (simp add: nt_wf_def NeighborTable_new_def NeighborEntry_empty_def slot_uniq_def)

lemma added_at_nth:
  "added_at t e t' k \<Longrightarrow> j < MAX_NEIGHBORS \<Longrightarrow> j \<noteq> k \<Longrightarrow>
     nt_entries t' ! j = (if nb_same e (nt_entries t ! j) then (nt_entries t ! j)\<lparr>nb_active := False\<rparr>
                          else nt_entries t ! j)"
  unfolding added_at_def by blast

lemma added_at_other:
  assumes "added_at t e t' k" "m < MAX_NEIGHBORS" "m \<noteq> k" "nb_active (nt_entries t' ! m)"
  shows "nt_entries t' ! m = nt_entries t ! m \<and> \<not> nb_same e (nt_entries t ! m)"
  using added_at_nth[OF assms(1-3)] assms(4) by (cases "nb_same e (nt_entries t ! m)") simp_all

lemma added_at_uniq:
  assumes add: "added_at t e t' k" and u: "slot_uniq nb_active key (nt_entries t)"
    and len: "length (nt_entries t) = MAX_NEIGHBORS"
    and key: "\<And>x. nb_active x \<Longrightarrow> key x = key (e\<lparr>nb_active := True\<rparr>) \<Longrightarrow> nb_same e x"
  shows "slot_uniq nb_active key (nt_entries t')"
  unfolding slot_uniq_def
proof (intro allI impI)
  fix i j
  assume "i < length (nt_entries t')" "j < length (nt_entries t')"
    and eq: "nb_active (nt_entries t' ! i) \<and> nb_active (nt_entries t' ! j) \<and>
      key (nt_entries t' ! i) = key (nt_entries t' ! j)"
  then have ij: "i < MAX_NEIGHBORS" "j < MAX_NEIGHBORS" using add by (simp_all add: added_at_def)
  have other: "nt_entries t' ! m = nt_entries t ! m \<and> \<not> nb_same e (nt_entries t ! m)"
    if "m < MAX_NEIGHBORS" "m \<noteq> k" "nb_active (nt_entries t' ! m)" for m
    by (rule added_at_other[OF add that])
  have new: "nt_entries t' ! k = e\<lparr>nb_active := True\<rparr>" using add by (simp add: added_at_def)
  have clash: "m = k" if "m < MAX_NEIGHBORS" "nb_active (nt_entries t' ! m)"
    "key (nt_entries t' ! m) = key (e\<lparr>nb_active := True\<rparr>)" for m
  proof (rule ccontr)
    assume "m \<noteq> k"
    from other[OF that(1) this that(2)] key[OF that(2,3)] show False by simp
  qed
  show "i = j"
  proof (cases "i = k \<or> j = k")
    case True
    then show ?thesis using clash[OF ij(1)] clash[OF ij(2)] eq new by auto
  next
    case False
    then have "nt_entries t' ! i = nt_entries t ! i" "nt_entries t' ! j = nt_entries t ! j"
      using other ij eq by blast+
    with u eq ij len show ?thesis by (simp add: slot_uniq_def)
  qed
qed

lemma nt_wf_add [wf_intros]:
  assumes wf: "nt_wf t" and add: "add_or_update t e = Some t'"
  shows "nt_wf t'"
proof -
  from wf add obtain k where k: "added_at t e t' k" by (rule add_or_update_cases)
  have "i < nt_count t'" if "i < MAX_NEIGHBORS" "nb_active (nt_entries t' ! i)" for i
  proof (cases "i = k")
    case True
    with k show ?thesis by (simp add: added_at_def)
  next
    case False
    with added_at_other[OF k that(1) False that(2)] that(2) have "nb_active (nt_entries t ! i)" by simp
    from nt_wfD(3)[OF wf that(1) this] k show ?thesis by (simp add: added_at_def)
  qed
  moreover have "slot_uniq nb_active nb_network_address (nt_entries t')"
    by (rule added_at_uniq[OF k nt_wfD(4)[OF wf] nt_wfD(1)[OF wf]]) simp
  moreover have "slot_uniq nb_active nb_ieee_address (nt_entries t')"
    by (rule added_at_uniq[OF k nt_wfD(5)[OF wf] nt_wfD(1)[OF wf]]) simp
  ultimately show ?thesis using k by (simp add: nt_wf_def added_at_def)
qed

text \<open>Operations that change entries in place: no address changes, nothing comes alive.\<close>

lemma nt_wf_map:
  assumes wf: "nt_wf t" and f: "\<And>e. nb_active (f e) \<Longrightarrow> nb_active e"
    "\<And>e. nb_network_address (f e) = nb_network_address e" "\<And>e. nb_ieee_address (f e) = nb_ieee_address e"
  shows "nt_wf (t\<lparr>nt_entries := map f (nt_entries t)\<rparr>)"
proof -
  have "slot_uniq nb_active nb_network_address (map f (nt_entries t))"
    "slot_uniq nb_active nb_ieee_address (map f (nt_entries t))"
    using nt_short.uniq_map[of "nt_entries t" f] nt_ieee.uniq_map[of "nt_entries t" f] wf f
    by (simp_all add: nt_wf_def)
  with wf f(1) show ?thesis by (auto simp: nt_wf_def)
qed

lemma nt_wf_map_if:
  assumes "nt_wf t" "\<And>e. nb_active (f e) \<Longrightarrow> nb_active e"
    "\<And>e. nb_network_address (f e) = nb_network_address e" "\<And>e. nb_ieee_address (f e) = nb_ieee_address e"
  shows "nt_wf (t\<lparr>nt_entries := map_if P f (nt_entries t)\<rparr>)"
  unfolding map_if_def by (rule nt_wf_map[OF assms(1)]) (auto simp: assms(3,4) split: if_splits dest: assms(2))

lemma nt_wf_update_at:
  assumes wf: "nt_wf t" and f: "\<And>e. nb_active (f e) \<Longrightarrow> nb_active e"
    "\<And>e. nb_network_address (f e) = nb_network_address e" "\<And>e. nb_ieee_address (f e) = nb_ieee_address e"
  shows "nt_wf (t\<lparr>nt_entries := (nt_entries t)[i := f (nt_entries t ! i)]\<rparr>)"
proof (cases "i < length (nt_entries t)")
  case True
  let ?e = "f (nt_entries t ! i)"
  have "slot_uniq nb_active nb_network_address ((nt_entries t)[i := ?e])"
    by (rule nt_short.uniq_update[OF nt_wfD(4)[OF wf]])
      (use nt_wfD(4)[OF wf] True f(1)[of "nt_entries t ! i"] in \<open>auto simp: slot_uniq_def f\<close>)
  moreover have "slot_uniq nb_active nb_ieee_address ((nt_entries t)[i := ?e])"
    by (rule nt_ieee.uniq_update[OF nt_wfD(5)[OF wf]])
      (use nt_wfD(5)[OF wf] True f(1)[of "nt_entries t ! i"] in \<open>auto simp: slot_uniq_def f\<close>)
  moreover have "j < nt_count t" if "j < MAX_NEIGHBORS" "nb_active ((nt_entries t)[i := ?e] ! j)" for j
    by (rule nt_wfD(3)[OF wf that(1)], cases "j = i")
      (use that(2) True f(1)[of "nt_entries t ! i"] in simp_all)
  ultimately show ?thesis using nt_wfD(1,2)[OF wf] by (simp add: nt_wf_def)
next
  case False
  then have "t\<lparr>nt_entries := (nt_entries t)[i := f (nt_entries t ! i)]\<rparr> = t"
    by (simp add: list_update_beyond)
  with wf show ?thesis by simp
qed

lemma update_first_take:
  "update_first P f (take c xs) @ drop c xs =
     (case position P (take c xs) of None \<Rightarrow> xs | Some i \<Rightarrow> xs[i := f (xs ! i)])"
proof (cases "position P (take c xs)")
  case None
  then show ?thesis by (simp add: update_first_position)
next
  case (Some i)
  then have "i < length xs" "i < c" using position_SomeD[OF Some] by auto
  with Some show ?thesis
    by (simp add: update_first_position take_update_swap flip: list_update_append1)
qed

lemma nt_wf_update_by [wf_intros]:
  assumes wf: "nt_wf t" and f: "\<And>e. nb_active (f e) \<Longrightarrow> nb_active e"
    "\<And>e. nb_network_address (f e) = nb_network_address e" "\<And>e. nb_ieee_address (f e) = nb_ieee_address e"
  shows "nt_wf (update_by_short t a f)" "nt_wf (update_by_ieee t b f)"
  unfolding update_by_short_def update_by_ieee_def update_first_take
  using wf nt_wf_update_at[OF wf f] by (auto split: option.splits)

lemma nt_wf_remove [wf_intros]: "nt_wf t \<Longrightarrow> nt_wf (NeighborTable_remove t a)"
  unfolding NeighborTable_remove_def update_first_position
  using nt_wf_update_at[of t "\<lambda>e. e\<lparr>nb_active := False\<rparr>"] by (auto split: option.splits)

lemma nt_wf_age_tick [wf_intros]: "nt_wf t \<Longrightarrow> nt_wf (age_tick t)"
  unfolding age_tick_def by (rule nt_wf_map_if) simp_all

lemma nt_wf_age_router [wf_intros]: "nt_wf t \<Longrightarrow> nt_wf (age_router_link_status t)"
  unfolding age_router_link_status_def 
  by (rule nt_wf_map_if) (auto simp: age_link_status_entry_def Let_def split: if_splits)

lemma expire_scan_entries:
  "snd (expire_scan m es acc) =
     map_if (\<lambda>e. nb_active e \<and> nb_relationship e = UnauthenticatedChild \<and> nb_age e \<ge> m)
       (\<lambda>e. e\<lparr>nb_active := False\<rparr>) es"
  by (induction es arbitrary: acc) (simp_all add: map_if_def)

lemma nt_wf_expire [wf_intros]: "nt_wf t \<Longrightarrow> nt_wf (snd (expire_unauthenticated t m))"
  using nt_wf_map_if[of t "\<lambda>e. e\<lparr>nb_active := False\<rparr>"]
  by (simp add: expire_unauthenticated_def split_def expire_scan_entries)

section \<open>Lookups\<close>

lemma find_take_all: "(\<forall>x\<in>set (drop c xs). \<not> P x) \<Longrightarrow> find P (take c xs) = find P xs"
  by (metis append_take_drop_id find_None_iff find_append option.case_eq_if option.collapse)

lemma nt_find_slot:
  assumes "nt_wf t"
  shows "find_by_short t a = slot_lookup nb_active nb_network_address a (nt_entries t)"
    and "find_by_ieee t i = slot_lookup nb_active nb_ieee_address i (nt_entries t)"
  unfolding find_by_short_def find_by_ieee_def slot_lookup_def
  using nt_inactive_beyond[OF assms] by (intro find_take_all; blast)+

lemma nt_find_iff:
  assumes "nt_wf t"
  shows "find_by_short t a = Some x \<longleftrightarrow> x \<in> set (nt_entries t) \<and> nb_active x \<and> nb_network_address x = a"
    and "find_by_ieee t i = Some x \<longleftrightarrow> x \<in> set (nt_entries t) \<and> nb_active x \<and> nb_ieee_address x = i"
  using nt_short.lookup_iff nt_ieee.lookup_iff nt_wfD(4,5)[OF assms] nt_find_slot[OF assms] by simp_all

lemma add_keeps:
  assumes wf: "nt_wf t" and add: "added_at t e t' k" and slot: "add_slot t e k"
    and x: "x \<in> set (nt_entries t)" "nb_active x" "\<not> nb_same e x"
  shows "x \<in> set (nt_entries t') \<or>
    (\<forall>y\<in>set (nt_entries t). nb_active y \<and> \<not> nb_same e y) \<and> is_evictable x \<and>
    (\<forall>y\<in>set (nt_entries t). is_evictable y \<longrightarrow> eviction_rank y \<le> eviction_rank x)"
proof -
  from x(1) nt_wfD(1)[OF wf] obtain j where j: "j < MAX_NEIGHBORS" "x = nt_entries t ! j"
    by (metis in_set_conv_nth)
  show ?thesis
  proof (cases "j = k")
    case True
    with slot j x(2,3) show ?thesis by (auto simp: add_slot_def)
  next
    case False
    from added_at_nth[OF add j(1) False] j x(3) have "nt_entries t' ! j = x" by simp
    moreover have "j < length (nt_entries t')" using add j by (simp add: added_at_def)
    ultimately show ?thesis by (metis nth_mem)
  qed
qed

text \<open>
  C21: adding a neighbor to a well-formed table is refused exactly when the entry matches
  nothing and no slot is free or evictable; otherwise the new table is well formed, both
  address lookups return the new entry, every entry that shares neither address stays, with
  one exception: in a full table one evictable entry of highest eviction rank goes.  In
  particular a parent, an unauthenticated child or a child that is not a stale router is
  never displaced.
\<close>

theorem neighbor_add_spec:
  assumes "nt_wf t"
  shows "(add_or_update t e = None \<longleftrightarrow>
       (\<forall>x\<in>set (nt_entries t). \<not> nb_same e x) \<and> \<not> has_child_slot t) \<and>
    (\<forall>t'. add_or_update t e = Some t' \<longrightarrow> nt_wf t' \<and>
       find_by_short t' (nb_network_address e) = Some (e\<lparr>nb_active := True\<rparr>) \<and>
       find_by_ieee t' (nb_ieee_address e) = Some (e\<lparr>nb_active := True\<rparr>) \<and>
       (\<forall>x\<in>set (nt_entries t). nb_active x \<and> \<not> nb_same e x \<longrightarrow>
          find_by_short t' (nb_network_address x) = Some x \<or>
          (\<forall>y\<in>set (nt_entries t). nb_active y \<and> \<not> nb_same e y) \<and> is_evictable x \<and>
          (\<forall>y\<in>set (nt_entries t). is_evictable y \<longrightarrow> eviction_rank y \<le> eviction_rank x)))"
proof (intro conjI allI impI)
  show "add_or_update t e = None \<longleftrightarrow> (\<forall>x\<in>set (nt_entries t). \<not> nb_same e x) \<and> \<not> has_child_slot t"
    by (rule add_or_update_None_iff[OF assms])
next
  fix t'
  assume add: "add_or_update t e = Some t'"
  show wf': "nt_wf t'" by (rule nt_wf_add[OF assms add])
  from assms add obtain k where k: "added_at t e t' k" "add_slot t e k" by (rule add_or_update_cases)
  then have "e\<lparr>nb_active := True\<rparr> \<in> set (nt_entries t')"
    unfolding added_at_def by (metis nth_mem)
  then show "find_by_short t' (nb_network_address e) = Some (e\<lparr>nb_active := True\<rparr>)"
    and "find_by_ieee t' (nb_ieee_address e) = Some (e\<lparr>nb_active := True\<rparr>)"
    by (simp_all add: nt_find_iff[OF wf'])
  show "\<forall>x\<in>set (nt_entries t). nb_active x \<and> \<not> nb_same e x \<longrightarrow>
      find_by_short t' (nb_network_address x) = Some x \<or>
      (\<forall>y\<in>set (nt_entries t). nb_active y \<and> \<not> nb_same e y) \<and> is_evictable x \<and>
      (\<forall>y\<in>set (nt_entries t). is_evictable y \<longrightarrow> eviction_rank y \<le> eviction_rank x)"
  proof (intro ballI impI)
    fix x
    assume "x \<in> set (nt_entries t)" "nb_active x \<and> \<not> nb_same e x"
    with add_keeps[OF assms k] show "find_by_short t' (nb_network_address x) = Some x \<or>
      (\<forall>y\<in>set (nt_entries t). nb_active y \<and> \<not> nb_same e y) \<and> is_evictable x \<and>
      (\<forall>y\<in>set (nt_entries t). is_evictable y \<longrightarrow> eviction_rank y \<le> eviction_rank x)"
      unfolding nt_find_iff[OF wf'] by blast
  qed
qed

theorem neighbor_add_spec_witness:
  "add_or_update NeighborTable_new (NeighborEntry_new_from_annce 5 (replicate 8 1)) \<noteq> None"
proof -
  have "has_child_slot NeighborTable_new"
    by (simp add: has_child_slot_def NeighborTable_new_def MAX_NEIGHBORS_def NeighborEntry_empty_def
        list_ex_iff)
  with neighbor_add_spec[OF nt_wf_new, of "NeighborEntry_new_from_annce 5 (replicate 8 1)"]
  show ?thesis by blast
qed

text \<open>
  Tables reachable from the empty one through the operations of the module and through edits in place that keep an entry's
  addresses.  The network layer also rewrites addresses in place; \<open>update_neighbor_address\<close> below is such a write.
\<close>

inductive nt_reachable :: "NeighborTable \<Rightarrow> bool" where
  reach_new: "nt_reachable NeighborTable_new"
| reach_add: "nt_reachable t \<Longrightarrow> add_or_update t e = Some t' \<Longrightarrow> nt_reachable t'"
| reach_remove: "nt_reachable t \<Longrightarrow> nt_reachable (NeighborTable_remove t a)"
| reach_age: "nt_reachable t \<Longrightarrow> nt_reachable (age_tick t)"
| reach_age_router: "nt_reachable t \<Longrightarrow> nt_reachable (age_router_link_status t)"
| reach_expire: "nt_reachable t \<Longrightarrow> nt_reachable (snd (expire_unauthenticated t m))"
| reach_observe: "nt_reachable t \<Longrightarrow> nt_reachable (update_by_short t a (\<lambda>e. observe_frame e lqi))"
| reach_keepalive: "nt_reachable t \<Longrightarrow> nt_reachable (update_by_ieee t i refresh_end_device_timeout)"

lemma nt_reachable_wf: "nt_reachable t \<Longrightarrow> nt_wf t"
  by (induction rule: nt_reachable.induct)
    (auto intro: wf_intros simp: observe_frame_def update_incoming_cost_from_lqi_def
      refresh_end_device_timeout_def)

text \<open>
  In such a table the short-address and the IEEE lookups never disagree: an entry found under its short address is the
  one found under its IEEE address and conversely, and every lookup sees every live entry although it searches only the
  slots below the table's count.
\<close>

lemma neighbor_lookups_agree:
  assumes "nt_reachable t"
  shows "(find_by_short t a = Some x \<longrightarrow> find_by_ieee t (nb_ieee_address x) = Some x) \<and>
    (find_by_ieee t i = Some x \<longrightarrow> find_by_short t (nb_network_address x) = Some x) \<and>
    (\<forall>e\<in>set (NeighborTable_iter t). find_by_short t (nb_network_address e) = Some e)"
  using nt_find_iff[OF nt_reachable_wf[OF assms]] by (auto simp: NeighborTable_iter_def)

text \<open>
  \<^verbatim>\<open>NwkLayer::update_neighbor_address\<close>: the first live entry that has either address gets both.
\<close>

definition update_neighbor_address :: "NeighborTable \<Rightarrow> ShortAddress \<Rightarrow> IeeeAddress \<Rightarrow> NeighborTable" where
  "update_neighbor_address t nwk_addr ieee_addr =
     (let hit = (\<lambda>e. nb_active e \<and> (nb_network_address e = nwk_addr \<or> nb_ieee_address e = ieee_addr))
      in if list_ex hit (nt_entries t)
         then t\<lparr>nt_entries := update_first hit (\<lambda>e. e\<lparr>nb_network_address := nwk_addr, nb_ieee_address := ieee_addr\<rparr>) (nt_entries t)\<rparr>
         else case add_or_update t ((NeighborEntry_new_from_annce nwk_addr ieee_addr)\<lparr>nb_active := True\<rparr>) of
                Some t' \<Rightarrow> t'
              | None \<Rightarrow> t)"

text \<open>
  Another entry that has the other address stays: of two neighbors, the second one announced under the address of the first
  is afterwards in the table twice, and the lookups disagree about it.
\<close>

lemma neighbor_rewrite_duplicates:
  "let t = update_neighbor_address (update_neighbor_address NeighborTable_new 5 (replicate 8 1)) 7 (replicate 8 2);
       t' = update_neighbor_address t 5 (replicate 8 2)
   in map_option nb_ieee_address (find_by_short t' 7) = Some (replicate 8 2) \<and>
      map_option nb_network_address (find_by_ieee t' (replicate 8 2)) = Some 5"
  by code_simp

section \<open>Link costs\<close>

text \<open>
  The first frame observed sets the average (an average of zero stands for none yet); every later one moves it a quarter of the
  way to the new sample (computed exactly: the 16-bit intermediate never overflows).  It gives an incoming cost between 1 and 7, and leaves the neighbor-reported
  outgoing cost and both addresses alone.
\<close>

lemma observe_frame_spec:
  "unat (nb_lqi (observe_frame e q)) =
     (if nb_lqi e = 0 then unat q else (3 * unat (nb_lqi e) + unat q) div 4) \<and>
   nb_incoming_cost (observe_frame e q) = link_cost_from_lqi (nb_lqi (observe_frame e q)) \<and>
   1 \<le> nb_incoming_cost (observe_frame e q) \<and> nb_incoming_cost (observe_frame e q) \<le> 7 \<and>
   nb_outgoing_cost (observe_frame e q) = nb_outgoing_cost e \<and>
   nb_network_address (observe_frame e q) = nb_network_address e \<and>
   nb_ieee_address (observe_frame e q) = nb_ieee_address e"
proof -
  have "unat (ucast ((ucast a * 3 + ucast b :: u16) div 4) :: u8) = (3 * unat a + unat b) div 4"
    for a b :: u8
  proof -
    have ab: "unat a < 256" "unat b < 256" by (rule unat_bounds)+
    then have "unat (ucast a * 3 + ucast b :: u16) = 3 * unat a + unat b"
      by (simp add: unat_word_ariths)
    then have "unat ((ucast a * 3 + ucast b :: u16) div 4) = (3 * unat a + unat b) div 4"
      by (simp add: unat_div)
    moreover have "(3 * unat a + unat b) div 4 < 256" using ab by linarith
    ultimately show ?thesis by (simp add: unsigned_ucast_eq take_bit_nat_eq_self_iff)
  qed
  then show ?thesis
    by (simp add: observe_frame_def update_incoming_cost_from_lqi_def link_cost_from_lqi_def)
qed

section \<open>The link status list\<close>

lemma sink_to_split:
  "length as = pos \<Longrightarrow> sink_to pos (pos + length bs) (as @ bs @ [x] @ cs) = as @ [x] @ bs @ cs"
proof (induction bs arbitrary: cs rule: rev_induct)
  case Nil
  then show ?case by (cases pos) simp_all
next
  case (snoc b bs)
  let ?xs = "as @ (bs @ [b]) @ [x] @ cs"
  let ?i = "pos + length bs"
  have "?xs ! ?i = b" "?xs ! Suc ?i = x" using snoc.prems by (simp_all add: nth_append)
  moreover have "?xs[Suc ?i := b, ?i := x] = as @ bs @ [x] @ (b # cs)"
    using snoc.prems by (simp add: list_update_append)
  ultimately show ?case using snoc.IH[of "b # cs"] snoc.prems by simp
qed

lemma sink_to_insert:
  "pos \<le> length ys \<Longrightarrow> sink_to pos (length ys) (ys @ [x]) = take pos ys @ [x] @ drop pos ys"
proof -
  assume p: "pos \<le> length ys"
  have eq: "take pos ys @ drop pos ys @ [x] @ [] = ys @ [x]"
    by (metis append.assoc append_take_drop_id append_Nil2)
  show ?thesis
    using sink_to_split[of "take pos ys" pos "drop pos ys" x "[]"] p unfolding eq by simp
qed

lemma insert_link_status_sorted:
  assumes "sorted (map ls_address es)" "length es < MAX_NEIGHBORS"
  obtains es' where "insert_link_status e es = Some es'" "sorted (map ls_address es')"
    "mset es' = add_mset e (mset es)"
proof -
  define pos where "pos = (case position (\<lambda>x. ls_address x > ls_address e) es of
    Some p \<Rightarrow> p | None \<Rightarrow> length es)"
  have pos: "pos \<le> length es" "\<forall>x\<in>set (take pos es). ls_address x \<le> ls_address e"
    "\<forall>x\<in>set (drop pos es). ls_address e \<le> ls_address x"
  proof -
    show "pos \<le> length es" by (auto simp: pos_def split: option.splits dest: position_SomeD)
    show "\<forall>x\<in>set (take pos es). ls_address x \<le> ls_address e"
    proof (cases "position (\<lambda>x. ls_address x > ls_address e) es")
      case None
      then have "\<forall>x\<in>set es. \<not> ls_address e < ls_address x" unfolding position_None_iff .
      with None show ?thesis by (simp add: pos_def not_less)
    next
      case (Some p)
      with position_SomeD[OF Some] show ?thesis by (auto simp: pos_def in_set_conv_nth not_less)
    qed
    show "\<forall>x\<in>set (drop pos es). ls_address e \<le> ls_address x"
    proof (cases "position (\<lambda>x. ls_address x > ls_address e) es")
      case None
      then show ?thesis by (simp add: pos_def)
    next
      case (Some p)
      then have p: "p < length es" "ls_address e < ls_address (es ! p)" using position_SomeD[OF Some] by auto
      have "ls_address (es ! p) \<le> ls_address x" if "x \<in> set (drop p es)" for x
      proof -
        from that obtain j where "j < length es - p" "x = es ! (p + j)" by (auto simp: in_set_conv_nth)
        with assms(1) show ?thesis using sorted_nth_mono[of "map ls_address es" p "p + j"] by simp
      qed
      with p(2) Some show ?thesis by (fastforce simp: pos_def)
    qed
  qed
  let ?es = "take pos es @ [e] @ drop pos es"
  have "insert_link_status e es = Some ?es"
    using assms(2) sink_to_insert[OF pos(1), of e]
    by (simp add: insert_link_status_def vec_push_def flip: pos_def)
  moreover have "sorted (map ls_address (take pos es))" "sorted (map ls_address (drop pos es))"
    using assms(1) by (metis take_map sorted_wrt_take, metis drop_map sorted_wrt_drop)
  then have "sorted (map ls_address ?es)"
    using pos(2,3) by (fastforce simp: sorted_append intro: order.trans)
  moreover have "mset ?es = add_mset e (mset es)"
    by (metis add_mset_add_single append_take_drop_id mset.simps(1,2) mset_append union_assoc union_commute)
  ultimately show ?thesis by (rule that)
qed

lemma collect_link_status_sorted:
  "sorted (map ls_address es) \<Longrightarrow> length es + length ns \<le> MAX_NEIGHBORS \<Longrightarrow>
     sorted (map ls_address (collect_link_status ns es)) \<and>
     mset (collect_link_status ns es) = mset es + mset (map link_status_entry_of ns)"
proof (induction ns arbitrary: es)
  case Nil
  then show ?case by simp
next
  case (Cons n ns)
  have "length es < MAX_NEIGHBORS" using Cons.prems(2) by simp
  with Cons.prems(1) obtain es' where es': "insert_link_status (link_status_entry_of n) es = Some es'"
    "sorted (map ls_address es')" "mset es' = add_mset (link_status_entry_of n) (mset es)"
    by (rule insert_link_status_sorted)
  have "length es' = Suc (length es)" using arg_cong[OF es'(3), of size] by simp
  with Cons.IH[OF es'(2)] Cons.prems(2) es' show ?case by simp
qed

lemma router_link_status_entries_sorted:
  assumes "length (nt_entries t) = MAX_NEIGHBORS"
  shows "sorted (map ls_address (router_link_status_entries t))"
    and "mset (router_link_status_entries t) = mset (map link_status_entry_of
      (filter (\<lambda>n. is_router n \<and> nb_network_address n < 0xFFF8) (NeighborTable_iter t)))"
proof -
  let ?ns = "filter (\<lambda>n. is_router n \<and> nb_network_address n < 0xFFF8) (NeighborTable_iter t)"
  have "length ?ns \<le> MAX_NEIGHBORS"
    using assms unfolding NeighborTable_iter_def
    by (metis filter_filter length_filter_le)
  with collect_link_status_sorted[of "[]" ?ns]
  show "sorted (map ls_address (router_link_status_entries t))"
    and "mset (router_link_status_entries t) = mset (map link_status_entry_of ?ns)"
    by (simp_all add: router_link_status_entries_def)
qed

end
