(* ===== verification/Link_Status.thy ===== *)
theory Link_Status
  imports Neighbor_Table
begin

text \<open>
  The Link Status exchange: the sender's fragmentation loop
  (\<^verbatim>\<open>send_link_status\<close> of \<^verbatim>\<open>zigbee-nwk/src/nwk_commands.rs\<close>) over the neighbor table's sorted
  router list, and the receiver's handler (\<^verbatim>\<open>handle_link_status\<close> of
  \<^verbatim>\<open>zigbee-nwk/src/nlde.rs\<close>).  The transmission of one command frame is a parameter of the loop:
  a failed transmission ends it with an error.  The theory proves the protocol end to end: a
  receiver that hears all fragments holds, as its outgoing cost to the sender, exactly the
  sender's estimate of the reverse link.
\<close>

datatype LinkStatusError = LsFrameTooLong | LsTxFailed

definition link_status_frame :: "LinkStatusEntry list \<Rightarrow> nat \<Rightarrow> LinkStatusCommand" where
  "link_status_frame entries first_entry =
     (let es = fold (vec_push_ignore LINK_STATUS_ENTRIES_PER_FRAME)
                 (take LINK_STATUS_ENTRIES_PER_FRAME (drop first_entry entries)) []
      in \<lparr>lsc_first_frame = (first_entry = 0),
          lsc_last_frame = (first_entry + length es \<ge> length entries), lsc_entries = es\<rparr>)"

lemma fold_push_ignore_all: "length xs \<le> cap \<Longrightarrow> fold (vec_push_ignore cap) xs [] = xs"
proof -
  have "length acc + length xs \<le> cap \<Longrightarrow> fold (vec_push_ignore cap) xs acc = acc @ xs" for acc
    by (induction xs arbitrary: acc) (auto simp: vec_push_ignore_def)
  from this[of "[]"] show "length xs \<le> cap \<Longrightarrow> fold (vec_push_ignore cap) xs [] = xs" by simp
qed

lemma link_status_frame_entries:
  "lsc_entries (link_status_frame entries f) = take LINK_STATUS_ENTRIES_PER_FRAME (drop f entries)"
  by (simp add: link_status_frame_def fold_push_ignore_all)

text \<open>The loop: each fragment is sent, and the next one starts at this one's last entry.\<close>

function send_link_status_loop ::
    "(u8 list \<Rightarrow> bool) \<Rightarrow> LinkStatusEntry list \<Rightarrow> nat \<Rightarrow> LinkStatusError option \<times> u8 list list" where
  "send_link_status_loop tx entries first_entry =
     (let frame = link_status_frame entries first_entry;
          next_entry = first_entry + length (lsc_entries frame)
      in case LinkStatusCommand_serialize frame (replicate (1 + 3 * LINK_STATUS_ENTRIES_PER_FRAME) 0) of
           None \<Rightarrow> (Some LsFrameTooLong, [])
         | Some (payload, len) \<Rightarrow>
             if \<not> tx (take len payload) then (Some LsTxFailed, [take len payload])
             else if lsc_last_frame frame then (None, [take len payload])
             else map_prod id ((#) (take len payload))
                    (send_link_status_loop tx entries (max (next_entry - 1) (first_entry + 1))))"
  by pat_completeness auto

termination send_link_status_loop
proof (relation "measure (\<lambda>(_, entries, f). length entries - f)")
  fix tx :: "u8 list \<Rightarrow> bool" and entries :: "LinkStatusEntry list" and f frame n and x :: "u8 list \<times> nat"
    and payload :: "u8 list" and len :: nat
  assume "frame = link_status_frame entries f" "\<not> lsc_last_frame frame"
  then have "f < length entries" by (simp add: link_status_frame_def Let_def)
  then show "((tx, entries, max (n - 1) (f + 1)), tx, entries, f) \<in> measure (\<lambda>(_, entries, f). length entries - f)"
    by (simp add: less_diff_conv)
qed simp

definition send_link_status ::
    "(u8 list \<Rightarrow> bool) \<Rightarrow> bool \<Rightarrow> NeighborTable \<Rightarrow> LinkStatusError option \<times> u8 list list" where
  "send_link_status tx end_device t =
     (if end_device then (None, []) else send_link_status_loop tx (router_link_status_entries t) 0)"

text \<open>The handler's writes to the sender's entry.\<close>

definition link_status_update :: "ShortAddress \<Rightarrow> ShortAddress \<Rightarrow> LinkStatusReport \<Rightarrow> NeighborEntry \<Rightarrow> NeighborEntry" where
  "link_status_update our_addr src report n =
     (let n1 = (if nb_device_type n = NdtUnknown
                then n\<lparr>nb_device_type := (if src = 0x0000 then NdtCoordinator else NdtRouter)\<rparr> else n);
          n2 = n1\<lparr>nb_link_status_age := 0, nb_age := 0\<rparr>
      in if \<not> LinkStatusReport_covers report our_addr then n2
         else n2\<lparr>nb_outgoing_cost :=
                   (case LinkStatusReport_incoming_cost_for report our_addr of
                      Some c \<Rightarrow> c | None \<Rightarrow> 0) AND 0x07,
                 nb_awaiting_link_status := False\<rparr>)"

definition handle_link_status ::
    "bool \<Rightarrow> ShortAddress \<Rightarrow> ShortAddress \<Rightarrow> u8 list \<Rightarrow> NeighborTable \<Rightarrow> NeighborTable" where
  "handle_link_status can_route our_addr src payload t =
     (if \<not> can_route then t
      else case LinkStatusReport_parse payload of
             None \<Rightarrow> t
           | Some report \<Rightarrow>
               if find_by_short t src = None then t
               else update_by_short t src (link_status_update our_addr src report))"

section \<open>Fragments\<close>

definition fragment :: "LinkStatusEntry list \<Rightarrow> nat \<Rightarrow> LinkStatusEntry list" where
  "fragment es f = take LINK_STATUS_ENTRIES_PER_FRAME (drop f es)"

abbreviation fragment_report :: "LinkStatusEntry list \<Rightarrow> nat \<Rightarrow> LinkStatusReport" where
  "fragment_report es f \<equiv> LinkStatusReport_of (link_status_frame es f)"

lemma fragment_length: "length (fragment es f) = min (length es - f) 16"
  by (simp add: fragment_def LINK_STATUS_ENTRIES_PER_FRAME_def)

lemma fragment_Nil: "fragment es f = [] \<longleftrightarrow> length es \<le> f"
  by (simp add: fragment_def LINK_STATUS_ENTRIES_PER_FRAME_def)

lemma fragment_nth: "i < length (fragment es f) \<Longrightarrow> fragment es f ! i = es ! (f + i)"
  by (auto simp: fragment_def)

lemma fragment_subset: "set (fragment es f) \<subseteq> set es"
  unfolding fragment_def using set_take_subset set_drop_subset by (metis order.trans)

lemma link_status_frame_simps [simp]:
  "lsc_first_frame (link_status_frame es f) = (f = 0)"
  "lsc_entries (link_status_frame es f) = fragment es f"
  "lsc_last_frame (link_status_frame es f) = (length es \<le> f + length (fragment es f))"
  by (simp_all add: link_status_frame_def Let_def fold_push_ignore_all fragment_def)

lemma fragment_report_parse:
  "LinkStatusReport_parse (LinkStatusCommand_bytes (link_status_frame es f)) = Some (fragment_report es f)"
  "LinkStatusReport_iter (fragment_report es f) = map ls_masked (fragment es f)"
  using link_status_parse_bytes[of "link_status_frame es f"] link_status_parse_bytes(1)[of "link_status_frame es f" "[]"]
  by (simp_all add: MAX_LINK_STATUS_ENTRIES_def fragment_length)

lemma fragment_serialize:
  "LinkStatusCommand_serialize (link_status_frame es f) (replicate (1 + 3 * LINK_STATUS_ENTRIES_PER_FRAME) 0) =
     Some (LinkStatusCommand_bytes (link_status_frame es f) @
       replicate (1 + 3 * LINK_STATUS_ENTRIES_PER_FRAME - length (LinkStatusCommand_bytes (link_status_frame es f))) 0,
       length (LinkStatusCommand_bytes (link_status_frame es f)))"
  by (simp add: LinkStatusCommand_serialize_eq write_at_start LinkStatusCommand_bytes_def
      LINK_STATUS_ENTRIES_PER_FRAME_def fragment_length)

declare send_link_status_loop.simps [simp del]

lemma send_link_status_step:
  "send_link_status_loop (\<lambda>_. True) es f =
     map_prod id ((#) (LinkStatusCommand_bytes (link_status_frame es f)))
       (if length es \<le> f + length (fragment es f) then (None, [])
        else send_link_status_loop (\<lambda>_. True) es (max (f + length (fragment es f) - 1) (f + 1)))"
  by (subst send_link_status_loop.simps)
    (simp only: Let_def fragment_serialize link_status_frame_simps, auto)

text \<open>The cost the list holds for an address, as it travels in its three-bit field.\<close>

definition listed_cost :: "LinkStatusEntry list \<Rightarrow> ShortAddress \<Rightarrow> u8" where
  "listed_cost es b =
     (case find (\<lambda>e. ls_address e = b) es of Some e \<Rightarrow> ls_incoming_cost e AND 0x07 | None \<Rightarrow> 0)"

abbreviation strictly_sorted :: "LinkStatusEntry list \<Rightarrow> bool" where
  "strictly_sorted es \<equiv> sorted_wrt (<) (map ls_address es)"

lemma strict_nth: "strictly_sorted es \<Longrightarrow> i < length es \<Longrightarrow> j < length es \<Longrightarrow>
    ls_address (es ! i) \<le> ls_address (es ! j) \<Longrightarrow> i \<le> j"
  using sorted_wrt_nth_less[of "(<)" "map ls_address es" j i] by (force simp: not_le[symmetric])

lemma strict_find: "strictly_sorted es \<Longrightarrow> x \<in> set es \<Longrightarrow> find (\<lambda>e. ls_address e = ls_address x) es = Some x"
  by (induction es) (auto simp: less_le)

lemma fragment_report_flags:
  "lsr_first_frame (fragment_report es f) = (f = 0)"
  "lsr_last_frame (fragment_report es f) = (length es \<le> f + length (fragment es f))"
  by (simp_all add: LinkStatusReport_of_def)

lemma fragment_covers:
  "LinkStatusReport_covers (fragment_report es f) b \<longleftrightarrow>
     (if fragment es f = [] then f = 0 \<and> es = []
      else (f = 0 \<or> ls_address (es ! f) \<le> b) \<and>
           (length es \<le> f + length (fragment es f) \<or>
            b \<le> ls_address (es ! (f + (length (fragment es f) - 1)))))"
proof (cases "fragment es f")
  case Nil
  then have "length es \<le> f" by (simp add: fragment_Nil)
  with Nil show ?thesis
    unfolding LinkStatusReport_covers_def fragment_report_parse(2) fragment_report_flags by auto
next
  case (Cons x xs)
  let ?n = "length (fragment es f)"
  have n: "0 < ?n" using Cons by simp
  have x: "x = es ! f" using fragment_nth[OF n] Cons by simp
  have last: "(if xs = [] then x else last xs) = es ! (f + (?n - 1))"
  proof -
    have "(if xs = [] then x else last xs) = last (fragment es f)" using Cons by simp
    also have "\<dots> = fragment es f ! (?n - 1)" using n by (intro last_conv_nth) auto
    also have "\<dots> = es ! (f + (?n - 1))" using n by (intro fragment_nth) simp
    finally show ?thesis .
  qed
  have addr: "ls_address (if map ls_masked xs = [] then ls_masked x else last (map ls_masked xs)) =
      ls_address (es ! (f + (?n - 1)))"
    unfolding last[symmetric] by (simp add: last_map ls_masked_def)
  have "(0xFFFF :: u16) = - 1" by simp
  then have top: "b \<le> 0xFFFF" by (metis word_order.extremum)
  have first: "ls_address (ls_masked x) = ls_address (es ! f)" using x by (simp add: ls_masked_def)
  have "LinkStatusReport_covers (fragment_report es f) b \<longleftrightarrow>
      (if f = 0 then 0 else ls_address (ls_masked x)) \<le> b \<and>
      b \<le> (if length es \<le> f + ?n then 0xFFFF
           else ls_address (if map ls_masked xs = [] then ls_masked x else last (map ls_masked xs)))"
    unfolding LinkStatusReport_covers_def fragment_report_parse(2) fragment_report_flags Let_def
    unfolding Cons by simp
  then show ?thesis unfolding addr first using top Cons by auto
qed

lemma fragment_strict: "strictly_sorted es \<Longrightarrow> strictly_sorted (fragment es f)"
  unfolding fragment_def
  by (simp add: sorted_wrt_take sorted_wrt_drop flip: take_map drop_map)

lemma find_masked:
  "map_option ls_incoming_cost (find (\<lambda>e. ls_address e = b) (map ls_masked xs)) =
     map_option (\<lambda>e. ls_incoming_cost e AND 7) (find (\<lambda>e. ls_address e = b) xs)"
  by (induction xs) (simp_all add: ls_masked_def)

text \<open>A fragment that covers an address says about it what the whole list says.\<close>

lemma fragment_cost:
  assumes "strictly_sorted es" "LinkStatusReport_covers (fragment_report es f) b"
  shows "(case LinkStatusReport_incoming_cost_for (fragment_report es f) b of Some c \<Rightarrow> c | None \<Rightarrow> 0) AND 0x07
    = listed_cost es b"
proof -
  let ?S = "fragment es f" and ?n = "length (fragment es f)"
  have idem: "(x AND 7) AND 7 = x AND (7 :: u8)" for x by simp
  have find: "LinkStatusReport_incoming_cost_for (fragment_report es f) b =
      map_option (\<lambda>e. ls_incoming_cost e AND 7) (find (\<lambda>e. ls_address e = b) ?S)"
    unfolding LinkStatusReport_incoming_cost_for_def fragment_report_parse(2) by (rule find_masked)
  have sub: "set ?S \<subseteq> set es" by (rule fragment_subset)
  have "find (\<lambda>e. ls_address e = b) ?S = find (\<lambda>e. ls_address e = b) es"
  proof (cases "find (\<lambda>e. ls_address e = b) es")
    case None
    then have "find (\<lambda>e. ls_address e = b) ?S = None" using sub by (auto simp: find_None_iff)
    with None show ?thesis by simp
  next
    case (Some e)
    then have e: "e \<in> set es" "ls_address e = b" using find_SomeD[OF Some] by simp_all
    then obtain m where m: "m < length es" "e = es ! m" "ls_address (es ! m) = b"
      by (auto simp: in_set_conv_nth)
    have "f \<le> m \<and> m < f + ?n"
    proof (cases "?S = []")
      case True
      with assms(2) m(1) show ?thesis by (auto simp: fragment_covers)
    next
      case False
      have n: "0 < ?n" using False by simp
      have "f < length es" using False by (simp add: fragment_Nil)
      then have "f \<le> m"
        using assms False m strict_nth[OF assms(1), of f m] by (auto simp: fragment_covers)
      moreover have "m < f + ?n"
      proof (cases "length es \<le> f + ?n")
        case True
        with m(1) show ?thesis by simp
      next
        case 2: False
        with assms(2) False m(3) have "ls_address (es ! m) \<le> ls_address (es ! (f + (?n - 1)))"
          by (simp add: fragment_covers)
        with strict_nth[OF assms(1) m(1), of "f + (?n - 1)"] 2 n show ?thesis by linarith
      qed
      ultimately show ?thesis by simp
    qed
    then have i: "m - f < ?n" "f + (m - f) = m" by auto
    then have "fragment es f ! (m - f) = e" using m(2) fragment_nth[OF i(1)] by simp
    with nth_mem[OF i(1)] have "e \<in> set ?S" by simp
    from strict_find[OF fragment_strict[OF assms(1)] this] e(2) Some show ?thesis by simp
  qed
  then show ?thesis
    unfolding find listed_cost_def by (cases "find (\<lambda>e. ls_address e = b) es") simp_all
qed

text \<open>If a fragment stops short of an address, the next one starts at or below it.\<close>

lemma fragment_gap_free:
  assumes "f = 0 \<or> f < length es \<and> ls_address (es ! f) \<le> b"
    "\<not> LinkStatusReport_covers (fragment_report es f) b"
  shows "\<not> length es \<le> f + length (fragment es f)"
    and "max (f + length (fragment es f) - 1) (f + 1) < length es \<and>
      ls_address (es ! max (f + length (fragment es f) - 1) (f + 1)) \<le> b"
proof -
  let ?n = "length (fragment es f)"
  have ne: "fragment es f \<noteq> []"
  proof
    assume e: "fragment es f = []"
    then have "length es \<le> f" by (simp add: fragment_Nil)
    with assms e show False by (auto simp: fragment_covers)
  qed
  with assms show part: "\<not> length es \<le> f + ?n" by (auto simp: fragment_covers)
  then have n: "?n = 16" by (simp add: fragment_length min_def split: if_splits)
  then have m: "max (f + ?n - 1) (f + 1) = f + (?n - 1)" by simp
  from assms ne part have "ls_address (es ! (f + (?n - 1))) < b" by (auto simp: fragment_covers)
  with part n show "max (f + ?n - 1) (f + 1) < length es \<and>
      ls_address (es ! max (f + ?n - 1) (f + 1)) \<le> b"
    unfolding m by auto
qed

section \<open>The exchange\<close>

text \<open>The sender's entry in the receiver's table, over the fragments it hears.\<close>

definition hear_fragment :: "ShortAddress \<Rightarrow> ShortAddress \<Rightarrow> u8 list \<Rightarrow> NeighborEntry \<Rightarrow> NeighborEntry" where
  "hear_fragment b a payload n =
     (case LinkStatusReport_parse payload of None \<Rightarrow> n | Some r \<Rightarrow> link_status_update b a r n)"

definition link_known :: "u8 \<Rightarrow> NeighborEntry \<Rightarrow> bool" where
  "link_known c n \<longleftrightarrow> nb_outgoing_cost n = c \<and> \<not> nb_awaiting_link_status n \<and>
     nb_link_status_age n = 0 \<and> nb_age n = 0 \<and> nb_device_type n \<noteq> NdtUnknown"

lemma link_status_update_known:
  assumes "strictly_sorted es"
  shows "LinkStatusReport_covers (fragment_report es f) b \<Longrightarrow>
      link_known (listed_cost es b) (link_status_update b a (fragment_report es f) n)"
    and "link_known (listed_cost es b) n \<Longrightarrow>
      link_known (listed_cost es b) (link_status_update b a (fragment_report es f) n)"
  using fragment_cost[OF assms] by (auto simp: link_status_update_def Let_def link_known_def)

lemma hear_this_fragment:
  "hear_fragment b a (LinkStatusCommand_bytes (link_status_frame es f)) n =
     link_status_update b a (fragment_report es f) n"
  by (simp add: hear_fragment_def fragment_report_parse)

abbreviation sent_from :: "LinkStatusEntry list \<Rightarrow> nat \<Rightarrow> u8 list list" where
  "sent_from es f \<equiv> snd (send_link_status_loop (\<lambda>_. True) es f)"

lemma sent_from_step:
  "sent_from es f = LinkStatusCommand_bytes (link_status_frame es f) #
     (if length es \<le> f + length (fragment es f) then []
      else sent_from es (max (f + length (fragment es f) - 1) (f + 1)))"
  by (subst send_link_status_step) simp

lemma hear_later_fragments:
  assumes "strictly_sorted es"
  shows "link_known (listed_cost es b) n \<Longrightarrow>
    link_known (listed_cost es b) (fold (hear_fragment b a) (sent_from es f) n)"
proof (induction "length es - f" arbitrary: f n rule: less_induct)
  case less
  note k = link_status_update_known(2)[OF assms less.prems, of a f]
  show ?case
  proof (cases "length es \<le> f + length (fragment es f)")
    case True
    with k show ?thesis by (subst sent_from_step) (simp add: hear_this_fragment)
  next
    case False
    then have "length es - max (f + length (fragment es f) - 1) (f + 1) < length es - f" by simp
    from less.hyps[OF this k] False show ?thesis
      by (subst sent_from_step) (simp add: hear_this_fragment)
  qed
qed

lemma hear_all_fragments:
  assumes "strictly_sorted es"
  shows "f = 0 \<or> f < length es \<and> ls_address (es ! f) \<le> b \<Longrightarrow>
    link_known (listed_cost es b) (fold (hear_fragment b a) (sent_from es f) n)"
proof (induction "length es - f" arbitrary: f n rule: less_induct)
  case less
  show ?case
  proof (cases "LinkStatusReport_covers (fragment_report es f) b")
    case True
    note k = link_status_update_known(1)[OF assms True, of a n]
    then show ?thesis
      using hear_later_fragments[OF assms k]
      by (subst sent_from_step) (simp add: hear_this_fragment)
  next
    case False
    note g = fragment_gap_free[OF less.prems False]
    from g(1) have "length es - max (f + length (fragment es f) - 1) (f + 1) < length es - f" by simp
    from less.hyps[OF this disjI2[OF g(2)]] g(1) show ?thesis
      by (subst sent_from_step) (simp add: hear_this_fragment)
  qed
qed

text \<open>The handler on the whole table is \<open>hear_fragment\<close> on the sender's entry.\<close>

lemma find_update_first:
  assumes "\<And>x. P x \<Longrightarrow> P (f x)" "\<And>x. P x \<Longrightarrow> Q (f x) = Q x"
  shows "find P (update_first P f xs) = map_option f (find P xs)"
    and "(\<And>x. P x \<Longrightarrow> \<not> Q x) \<Longrightarrow> find Q (update_first P f xs) = find Q xs"
  by (induction xs) (auto simp: assms)

lemma update_by_short_lookup:
  assumes "nt_wf t" "\<And>e. nb_active (f e) = nb_active e" "\<And>e. nb_network_address (f e) = nb_network_address e"
  shows "find_by_short (update_by_short t a f) a = map_option f (find_by_short t a)"
    and "c \<noteq> a \<Longrightarrow> find_by_short (update_by_short t a f) c = find_by_short t c"
proof -
  let ?P = "\<lambda>c e. nb_active e \<and> nb_network_address e = c"
  have u: "nt_used (update_by_short t a f) = update_first (?P a) f (nt_used t)"
    using nt_wfD(1,2)[OF assms(1)] by (simp add: update_by_short_def)
  show "find_by_short (update_by_short t a f) a = map_option f (find_by_short t a)"
    unfolding find_by_short_def u by (rule find_update_first(1)) (simp_all add: assms)
  show "find_by_short (update_by_short t a f) c = find_by_short t c" if "c \<noteq> a"
    unfolding find_by_short_def u by (rule find_update_first(2)) (use that in \<open>simp_all add: assms\<close>)
qed

lemma link_status_update_fields:
  "nb_active (link_status_update b a r n) = nb_active n"
  "nb_network_address (link_status_update b a r n) = nb_network_address n"
  "nb_ieee_address (link_status_update b a r n) = nb_ieee_address n"
  by (simp_all add: link_status_update_def Let_def)

lemma handle_link_status_hears:
  assumes "nt_wf t"
  shows "nt_wf (handle_link_status True b a p t)"
    and "find_by_short (handle_link_status True b a p t) a = map_option (hear_fragment b a p) (find_by_short t a)"
    and "c \<noteq> a \<Longrightarrow> find_by_short (handle_link_status True b a p t) c = find_by_short t c"
proof -
  show "nt_wf (handle_link_status True b a p t)"
    using assms by (auto simp: handle_link_status_def link_status_update_fields
        intro!: nt_wf_update_by split: option.splits)
  show "find_by_short (handle_link_status True b a p t) a = map_option (hear_fragment b a p) (find_by_short t a)"
    using update_by_short_lookup(1)[OF assms link_status_update_fields(1,2)]
    by (cases "find_by_short t a")
      (auto simp: handle_link_status_def hear_fragment_def split: option.splits)
  show "find_by_short (handle_link_status True b a p t) c = find_by_short t c" if "c \<noteq> a"
    using update_by_short_lookup(2)[OF assms link_status_update_fields(1,2) that]
    by (auto simp: handle_link_status_def split: option.splits)
qed

lemma handle_link_status_hears_all:
  "nt_wf t \<Longrightarrow> nt_wf (fold (handle_link_status True b a) ps t) \<and>
     find_by_short (fold (handle_link_status True b a) ps t) a =
       map_option (fold (hear_fragment b a) ps) (find_by_short t a) \<and>
     (c \<noteq> a \<longrightarrow> find_by_short (fold (handle_link_status True b a) ps t) c = find_by_short t c)"
  by (induction ps arbitrary: t)
    (simp_all add: handle_link_status_hears option.map_comp comp_def option.map_id)

text \<open>The list a sender builds from a well-formed table.\<close>

lemma slot_uniq_distinct: "slot_uniq live key es \<Longrightarrow> distinct (map key (filter live es))"
proof (induction es)
  case Nil
  then show ?case by simp
next
  case (Cons e es)
  have tl: "slot_uniq live key es"
    unfolding slot_uniq_def
  proof (intro allI impI)
    fix i j
    assume "i < length es" "j < length es" "live (es ! i) \<and> live (es ! j) \<and> key (es ! i) = key (es ! j)"
    with Cons.prems[unfolded slot_uniq_def, rule_format, of "Suc i" "Suc j"] show "i = j" by simp
  qed
  have "key e \<noteq> key x" if "live e" "x \<in> set es" "live x" for x
  proof
    assume eq: "key e = key x"
    from that(2) obtain j where "j < length es" "x = es ! j" by (auto simp: in_set_conv_nth)
    with Cons.prems[unfolded slot_uniq_def, rule_format, of 0 "Suc j"] that eq show False by simp
  qed
  with Cons.IH[OF tl] show ?case by auto
qed

lemma router_list_strict:
  assumes "nt_wf t"
  shows "strictly_sorted (router_link_status_entries t)"
proof -
  let ?P = "\<lambda>n. is_router n \<and> nb_network_address n < 0xFFF8"
  let ?ns = "filter ?P (NeighborTable_iter t)"
  note srt = router_link_status_entries_sorted[OF nt_wfD(1)[OF assms]]
  have "distinct (map nb_network_address ?ns)"
    unfolding NeighborTable_iter_def using slot_uniq_distinct[OF nt_wfD(4)[OF assms]]
    by (rule distinct_map_filter)
  moreover have "mset (map ls_address (router_link_status_entries t)) = mset (map nb_network_address ?ns)"
    using arg_cong[OF srt(2), of "image_mset ls_address"]
    by (simp add: link_status_entry_of_def image_mset.compositionality comp_def)
  ultimately have "distinct (map ls_address (router_link_status_entries t))"
    using mset_eq_imp_distinct_iff by blast
  with srt(1) show ?thesis by (simp add: strict_sorted_iff)
qed

text \<open>The cost of the link from \<open>b\<close>, as the sender's table estimates it; 0 is unknown.\<close>

definition reverse_cost :: "NeighborTable \<Rightarrow> ShortAddress \<Rightarrow> u8" where
  "reverse_cost t b =
     (case find_by_short t b of
        Some n \<Rightarrow> if is_router n \<and> b < 0xFFF8 then clamp_cost (nb_incoming_cost n) else 0
      | None \<Rightarrow> 0)"

lemma clamp_cost_fits: "clamp_cost c AND 7 = clamp_cost c"
proof -
  have "clamp_cost c < 2 ^ 3" by (auto simp: clamp_cost_def word_less_nat_alt)
  then show ?thesis by (simp add: masks(3) less_mask_eq del: power_numeral)
qed

lemma listed_cost_table:
  assumes "nt_wf t"
  shows "listed_cost (router_link_status_entries t) b = reverse_cost t b"
proof -
  let ?P = "\<lambda>n. is_router n \<and> nb_network_address n < 0xFFF8"
  let ?es = "router_link_status_entries t"
  have set: "set ?es = link_status_entry_of ` {n \<in> set (nt_entries t). nb_active n \<and> ?P n}"
    using arg_cong[OF router_link_status_entries_sorted(2)[OF nt_wfD(1)[OF assms]], of set_mset]
    by (auto simp: NeighborTable_iter_def)
  show ?thesis
  proof (cases "\<exists>n. find_by_short t b = Some n \<and> ?P n")
    case True
    then obtain n where n: "find_by_short t b = Some n" "?P n" by blast
    then have nt: "n \<in> set (nt_entries t)" "nb_active n" "nb_network_address n = b"
      by (simp_all add: nt_find_iff[OF assms])
    then have "link_status_entry_of n \<in> set ?es" using n(2) by (auto simp: set)
    from strict_find[OF router_list_strict[OF assms] this] nt n show ?thesis
      by (simp add: listed_cost_def reverse_cost_def link_status_entry_of_def clamp_cost_fits)
  next
    case False
    have "\<forall>e\<in>set ?es. ls_address e \<noteq> b"
    proof
      fix e
      assume "e \<in> set ?es"
      then obtain n where "n \<in> set (nt_entries t)" "nb_active n" "?P n" "e = link_status_entry_of n"
        by (auto simp: set)
      with False show "ls_address e \<noteq> b"
        using nt_find_iff(1)[OF assms, of b n] by (auto simp: link_status_entry_of_def)
    qed
    then have "find (\<lambda>e. ls_address e = b) ?es = None" by (auto simp: find_None_iff)
    moreover have "reverse_cost t b = 0"
      using False nt_find_iff(1)[OF assms] by (auto simp: reverse_cost_def split: option.splits)
    ultimately show ?thesis by (simp add: listed_cost_def)
  qed
qed

lemma send_link_status_ok: "fst (send_link_status_loop (\<lambda>_. True) es f) = None"
proof (induction "length es - f" arbitrary: f rule: less_induct)
  case less
  show ?case
  proof (cases "length es \<le> f + length (fragment es f)")
    case True
    then show ?thesis by (subst send_link_status_step) simp
  next
    case False
    then have "length es - max (f + length (fragment es f) - 1) (f + 1) < length es - f" by simp
    from less.hyps[OF this] False show ?thesis by (subst send_link_status_step) simp
  qed
qed

text \<open>
  C20: the Link Status protocol transfers link costs exactly.  When a router sends its link
  status, in however many fragments, and a router that knows the sender hears them, the
  receiver's outgoing cost for the sender becomes the sender's clamped estimate of the link
  from the receiver, or 0 when the sender's table holds no such router neighbor; the
  sender's entry is confirmed and no longer ages; no other entry changes.
\<close>

theorem link_status_exchange:
  assumes "nt_wf ta" "nt_wf tb" "find_by_short tb a \<noteq> None"
  shows "fst (send_link_status (\<lambda>_. True) False ta) = None \<and>
    (\<exists>n. find_by_short (fold (handle_link_status True b a) (snd (send_link_status (\<lambda>_. True) False ta)) tb) a = Some n \<and>
       nb_outgoing_cost n = reverse_cost ta b \<and> \<not> nb_awaiting_link_status n \<and>
       nb_link_status_age n = 0 \<and> nb_device_type n \<noteq> NdtUnknown) \<and>
    (\<forall>c. c \<noteq> a \<longrightarrow>
       find_by_short (fold (handle_link_status True b a) (snd (send_link_status (\<lambda>_. True) False ta)) tb) c =
       find_by_short tb c)"
proof -
  let ?es = "router_link_status_entries ta"
  have ps: "send_link_status (\<lambda>_. True) False ta = send_link_status_loop (\<lambda>_. True) ?es 0"
    by (simp add: send_link_status_def)
  from assms(3) obtain n where n: "find_by_short tb a = Some n" by blast
  have "link_known (reverse_cost ta b) (fold (hear_fragment b a) (sent_from ?es 0) n)"
    using hear_all_fragments[OF router_list_strict[OF assms(1)], of 0 b a n] listed_cost_table[OF assms(1)]
    by simp
  with handle_link_status_hears_all[OF assms(2), of b a "sent_from ?es 0"] n send_link_status_ok[of ?es 0]
  show ?thesis by (simp add: ps link_known_def)
qed

theorem link_status_exchange_witness:
  "\<exists>tb n. find_by_short (fold (handle_link_status True 7 5) (snd (send_link_status (\<lambda>_. True) False NeighborTable_new)) tb) 5
     = Some n \<and> nb_outgoing_cost n = 0"
proof -
  let ?e = "NeighborEntry_new_from_annce 5 (replicate 8 1)"
  have "has_child_slot NeighborTable_new"
    by (simp add: has_child_slot_def NeighborTable_new_def MAX_NEIGHBORS_def NeighborEntry_empty_def list_ex_iff)
  then obtain t where t: "add_or_update NeighborTable_new ?e = Some t"
    using add_or_update_None_iff[OF nt_wf_new, of ?e] by blast
  have wf: "nt_wf t" by (rule nt_wf_add[OF nt_wf_new t])
  from nt_wf_new t obtain k where "added_at NeighborTable_new ?e t k" by (rule add_or_update_cases)
  then have "?e\<lparr>nb_active := True\<rparr> \<in> set (nt_entries t)" unfolding added_at_def by (metis nth_mem)
  then have s: "find_by_short t 5 = Some (?e\<lparr>nb_active := True\<rparr>)"
    by (simp add: nt_find_iff[OF wf] NeighborEntry_new_from_annce_def)
  moreover have "reverse_cost NeighborTable_new 7 = 0"
    by (simp add: reverse_cost_def find_by_short_def NeighborTable_new_def)
  ultimately show ?thesis using link_status_exchange[OF nt_wf_new wf, of 5 7] by fastforce
qed

text \<open>
  The link status list of a well-formed table is strictly ascending by address, as the
  specification requires, and holds exactly the router neighbors with unicast addresses,
  each with its clamped incoming cost and its outgoing cost.
\<close>

theorem link_status_list_exact:
  assumes "nt_wf t"
  shows "sorted_wrt (<) (map ls_address (router_link_status_entries t)) \<and>
    mset (router_link_status_entries t) = mset (map link_status_entry_of
      (filter (\<lambda>n. is_router n \<and> nb_network_address n < 0xFFF8) (NeighborTable_iter t)))"
  using router_list_strict[OF assms] router_link_status_entries_sorted(2)[OF nt_wfD(1)[OF assms]] by simp

theorem link_status_list_exact_witness: "router_link_status_entries NeighborTable_new = []"
  using link_status_list_exact[OF nt_wf_new]
  by (simp add: NeighborTable_iter_def NeighborTable_new_def NeighborEntry_empty_def)

end
