(* ===== verification/Address_Map.thy ===== *)
theory Address_Map
  imports Zb_Types Table_Interfaces
begin

text \<open>
  \<^verbatim>\<open>zigbee-nwk/src/address_map.rs\<close> (router build): the cache of IEEE and network address
  pairs, a vector in least-recently-updated order.  Both addresses identify a pair, so an
  update drops every pair that names either one.
\<close>

definition MAX_ADDRESS_MAP_ENTRIES :: nat where "MAX_ADDRESS_MAP_ENTRIES = 32"

record AddressMapEntry =
  am_network_address :: ShortAddress
  am_ieee_address :: IeeeAddress

type_synonym AddressMap = "AddressMapEntry list"

definition AddressMap_new :: AddressMap where "AddressMap_new = []"

definition AddressMap_ieee_of :: "AddressMap \<Rightarrow> ShortAddress \<Rightarrow> IeeeAddress option" where
  "AddressMap_ieee_of m short = map_option am_ieee_address (find (\<lambda>e. am_network_address e = short) m)"

definition AddressMap_short_of :: "AddressMap \<Rightarrow> IeeeAddress \<Rightarrow> ShortAddress option" where
  "AddressMap_short_of m ieee = map_option am_network_address (find (\<lambda>e. am_ieee_address e = ieee) m)"

definition AddressMap_update :: "AddressMap \<Rightarrow> ShortAddress \<Rightarrow> IeeeAddress \<Rightarrow> AddressMap" where
  "AddressMap_update m short ieee =
     (let kept = filter (\<lambda>e. am_network_address e \<noteq> short \<and> am_ieee_address e \<noteq> ieee) m;
          room = (if length kept = MAX_ADDRESS_MAP_ENTRIES then vec_remove 0 kept else kept)
      in vec_push_ignore MAX_ADDRESS_MAP_ENTRIES
           \<lparr>am_network_address = short, am_ieee_address = ieee\<rparr> room)"

definition AddressMap_remove :: "AddressMap \<Rightarrow> ShortAddress \<Rightarrow> AddressMap" where
  "AddressMap_remove m short = filter (\<lambda>e. am_network_address e \<noteq> short) m"

definition AddressMap_clear :: "AddressMap \<Rightarrow> AddressMap" where "AddressMap_clear m = []"

definition AddressMap_iter :: "AddressMap \<Rightarrow> AddressMapEntry list" where "AddressMap_iter m = m"

definition AddressMap_len :: "AddressMap \<Rightarrow> nat" where "AddressMap_len m = length m"

definition AddressMap_is_empty :: "AddressMap \<Rightarrow> bool" where "AddressMap_is_empty m \<longleftrightarrow> m = []"

definition am_wf :: "AddressMap \<Rightarrow> bool" where
  "am_wf m \<longleftrightarrow> length m \<le> MAX_ADDRESS_MAP_ENTRIES \<and> distinct (map am_network_address m) \<and>
     distinct (map am_ieee_address m)"

abbreviation am_pair :: "ShortAddress \<Rightarrow> IeeeAddress \<Rightarrow> AddressMapEntry" where
  "am_pair s i \<equiv> \<lparr>am_network_address = s, am_ieee_address = i\<rparr>"

section \<open>Lemmas\<close>

lemma find_key_iff:
  "distinct (map key xs) \<Longrightarrow> find (\<lambda>e. key e = k) xs = Some x \<longleftrightarrow> x \<in> set xs \<and> key x = k"
proof (induction xs)
  case (Cons y ys)
  then show ?case by (cases "key y = k") (auto simp: image_iff)
qed simp

lemma am_lookup_iff:
  assumes "am_wf m"
  shows "AddressMap_ieee_of m s = Some i \<longleftrightarrow> am_pair s i \<in> set m"
    and "AddressMap_short_of m i = Some s \<longleftrightarrow> am_pair s i \<in> set m"
proof -
  have ex: "(\<exists>z. (z \<in> set m \<and> am_network_address z = s) \<and> am_ieee_address z = i) \<longleftrightarrow> am_pair s i \<in> set m"
    by (metis AddressMapEntry.surjective AddressMapEntry.select_convs old.unit.exhaust)
  have d: "distinct (map am_network_address m)" "distinct (map am_ieee_address m)"
    using assms by (simp_all add: am_wf_def)
  show "AddressMap_ieee_of m s = Some i \<longleftrightarrow> am_pair s i \<in> set m"
    unfolding AddressMap_ieee_of_def map_option_eq_Some find_key_iff[OF d(1)] by (rule ex)
  show "AddressMap_short_of m i = Some s \<longleftrightarrow> am_pair s i \<in> set m"
    unfolding AddressMap_short_of_def map_option_eq_Some find_key_iff[OF d(2)] using ex by blast
qed

text \<open>What an update keeps: the tail from the first pair on, or from the second in a full map.\<close>

lemma am_update_eq:
  assumes "length m \<le> MAX_ADDRESS_MAP_ENTRIES"
  shows "AddressMap_update m s i =
    (let kept = filter (\<lambda>e. am_network_address e \<noteq> s \<and> am_ieee_address e \<noteq> i) m
     in drop (if length kept = MAX_ADDRESS_MAP_ENTRIES then 1 else 0) kept @ [am_pair s i])"
proof -
  have "length (filter (\<lambda>e. am_network_address e \<noteq> s \<and> am_ieee_address e \<noteq> i) m) \<le> MAX_ADDRESS_MAP_ENTRIES"
    using assms by (rule le_trans[OF length_filter_le])
  then show ?thesis
    by (auto simp: AddressMap_update_def Let_def vec_push_ignore_def vec_remove_def MAX_ADDRESS_MAP_ENTRIES_def)
qed

lemma am_wf_update [wf_intros]:
  assumes "am_wf m"
  shows "am_wf (AddressMap_update m s i)"
proof -
  let ?kept = "filter (\<lambda>e. am_network_address e \<noteq> s \<and> am_ieee_address e \<noteq> i) m"
  let ?k = "if length ?kept = MAX_ADDRESS_MAP_ENTRIES then 1 else 0"
  have l: "length m \<le> MAX_ADDRESS_MAP_ENTRIES" and d: "distinct (map am_network_address m)"
    "distinct (map am_ieee_address m)" using assms by (simp_all add: am_wf_def)
  have "length ?kept \<le> MAX_ADDRESS_MAP_ENTRIES" using l by (rule le_trans[OF length_filter_le])
  moreover have "distinct (map am_network_address (drop ?k ?kept))" "distinct (map am_ieee_address (drop ?k ?kept))"
    using distinct_map_filter[OF d(1)] distinct_map_filter[OF d(2)]
    by (simp_all add: distinct_drop flip: drop_map)
  moreover have "set (drop ?k ?kept) \<subseteq> set ?kept" by (rule set_drop_subset)
  ultimately show ?thesis
    unfolding am_wf_def am_update_eq[OF l] Let_def
    by (auto simp: MAX_ADDRESS_MAP_ENTRIES_def)
qed

lemma am_wf_new [wf_intros]: "am_wf AddressMap_new"
  by (simp add: am_wf_def AddressMap_new_def)

lemma am_wf_remove [wf_intros]: "am_wf m \<Longrightarrow> am_wf (AddressMap_remove m s)"
  by (auto simp: am_wf_def AddressMap_remove_def distinct_map_filter intro: le_trans[OF length_filter_le])

lemma am_update_set:
  assumes "am_wf m"
  shows "am_pair s i \<in> set (AddressMap_update m s i)"
    and "e \<in> set (AddressMap_update m s i) \<Longrightarrow> e = am_pair s i \<or>
      e \<in> set m \<and> am_network_address e \<noteq> s \<and> am_ieee_address e \<noteq> i"
    and "e \<in> set m \<Longrightarrow> am_network_address e \<noteq> s \<Longrightarrow> am_ieee_address e \<noteq> i \<Longrightarrow>
      e \<in> set (AddressMap_update m s i) \<or> length m = MAX_ADDRESS_MAP_ENTRIES \<and> e = hd m"
proof -
  let ?P = "\<lambda>e. am_network_address e \<noteq> s \<and> am_ieee_address e \<noteq> i"
  let ?k = "if length (filter ?P m) = MAX_ADDRESS_MAP_ENTRIES then 1 else 0"
  have l: "length m \<le> MAX_ADDRESS_MAP_ENTRIES" using assms by (simp add: am_wf_def)
  have eq: "AddressMap_update m s i = drop ?k (filter ?P m) @ [am_pair s i]"
    using am_update_eq[OF l] by (simp add: Let_def)
  show "am_pair s i \<in> set (AddressMap_update m s i)" by (simp add: eq)
  show "e = am_pair s i \<or> e \<in> set m \<and> am_network_address e \<noteq> s \<and> am_ieee_address e \<noteq> i"
    if "e \<in> set (AddressMap_update m s i)"
    using that set_drop_subset[of ?k "filter ?P m"] unfolding eq by auto
  assume e: "e \<in> set m" "am_network_address e \<noteq> s" "am_ieee_address e \<noteq> i"
  show "e \<in> set (AddressMap_update m s i) \<or> length m = MAX_ADDRESS_MAP_ENTRIES \<and> e = hd m"
  proof (cases "length (filter ?P m) = MAX_ADDRESS_MAP_ENTRIES")
    case True
    have all: "filter ?P m = m"
    proof (rule filter_True, rule ccontr)
      assume "\<not> (\<forall>x\<in>set m. ?P x)"
      then obtain x where "x \<in> set m" "\<not> ?P x" by blast
      then have "length (filter ?P m) < length m" by (rule length_filter_less[of x m ?P])
      with True l show False by simp
    qed
    with True have m: "length m = MAX_ADDRESS_MAP_ENTRIES" by simp
    then obtain x xs where x: "m = x # xs" by (cases m) (simp_all add: MAX_ADDRESS_MAP_ENTRIES_def)
    have "AddressMap_update m s i = xs @ [am_pair s i]"
      unfolding eq all using m x by simp
    with e(1) m x show ?thesis by auto
  next
    case False
    then have "AddressMap_update m s i = filter ?P m @ [am_pair s i]" unfolding eq by simp
    with e show ?thesis by simp
  qed
qed

interpretation am_cache: bounded_cache AddressMap_new AddressMap_ieee_of
  "\<lambda>s i m. AddressMap_update m s i" "\<lambda>s m. AddressMap_remove m s" id am_wf
proof
  fix m :: AddressMap and s s' :: ShortAddress and i :: IeeeAddress
  show "am_wf AddressMap_new" by (rule am_wf_new)
  show "am_wf m \<Longrightarrow> am_wf (AddressMap_update m s i)" by (rule am_wf_update)
  show "am_wf m \<Longrightarrow> am_wf (AddressMap_remove m s)" by (rule am_wf_remove)
  show "AddressMap_ieee_of AddressMap_new s = None"
    by (simp add: AddressMap_ieee_of_def AddressMap_new_def)
  show "AddressMap_ieee_of (AddressMap_update m s i) s \<in> {None, Some (id i)}" if "am_wf m"
    using am_lookup_iff(1)[OF am_wf_update[OF that, of s i], of s i] am_update_set(1)[OF that] by simp
  show "AddressMap_ieee_of (AddressMap_update m s i) s' \<in> {None, AddressMap_ieee_of m s'}"
    if wf: "am_wf m" and "s' \<noteq> s"
  proof (cases "AddressMap_ieee_of (AddressMap_update m s i) s'")
    case (Some i')
    then have "am_pair s' i' \<in> set (AddressMap_update m s i)"
      by (simp add: am_lookup_iff(1)[OF am_wf_update[OF wf]])
    from am_update_set(2)[OF wf this] \<open>s' \<noteq> s\<close> have "AddressMap_ieee_of m s' = Some i'"
      by (simp add: am_lookup_iff(1)[OF wf])
    with Some show ?thesis by simp
  qed simp
  show "am_wf m \<Longrightarrow> AddressMap_ieee_of (AddressMap_remove m s) s = None"
    by (auto simp: AddressMap_ieee_of_def AddressMap_remove_def find_filter_None)
  show "am_wf m \<Longrightarrow> s' \<noteq> s \<Longrightarrow>
      AddressMap_ieee_of (AddressMap_remove m s) s' \<in> {None, AddressMap_ieee_of m s'}"
    by (simp add: AddressMap_ieee_of_def AddressMap_remove_def find_filter_same)
qed

text \<open>
  C30: over any sequence of updates and removals the address map resolves a network address
  only to the IEEE address last recorded for it (or to nothing), and its two lookups are
  exact inverses of each other at every moment.
\<close>

theorem address_map_consistent:
  "AddressMap_ieee_of (cache_run (\<lambda>s i m. AddressMap_update m s i) (\<lambda>s m. AddressMap_remove m s)
       ops AddressMap_new) \<subseteq>\<^sub>m ideal_run id ops Map.empty \<and>
   (AddressMap_ieee_of (cache_run (\<lambda>s i m. AddressMap_update m s i) (\<lambda>s m. AddressMap_remove m s)
       ops AddressMap_new) short = Some ieee \<longleftrightarrow>
    AddressMap_short_of (cache_run (\<lambda>s i m. AddressMap_update m s i) (\<lambda>s m. AddressMap_remove m s)
       ops AddressMap_new) ieee = Some short)"
  using am_cache.run_refines am_lookup_iff[OF am_cache.invar_run[OF am_wf_new]] by simp

text \<open>
  Updating a pairing makes both lookups return it, forgets every older pairing of
  either address, and otherwise loses at most the least recently updated pair of a full map.
\<close>

theorem address_map_update_spec:
  assumes "am_wf m"
  shows "AddressMap_ieee_of (AddressMap_update m s i) s = Some i \<and>
    AddressMap_short_of (AddressMap_update m s i) i = Some s \<and>
    (\<forall>s' i'. s' \<noteq> s \<and> i' \<noteq> i \<and> AddressMap_ieee_of m s' = Some i' \<longrightarrow>
       AddressMap_ieee_of (AddressMap_update m s i) s' = Some i' \<or>
       length m = MAX_ADDRESS_MAP_ENTRIES \<and> am_pair s' i' = hd m) \<and>
    (\<forall>s' i'. AddressMap_ieee_of (AddressMap_update m s i) s' = Some i' \<longrightarrow> (s' = s \<longleftrightarrow> i' = i))"
proof -
  note look = am_lookup_iff[OF am_wf_update[OF assms, of s i]] am_lookup_iff(1)[OF assms]
  show ?thesis
    unfolding look using am_update_set(1)[OF assms, of s i] am_update_set(2)[OF assms, of _ s i]
      am_update_set(3)[OF assms, of _ s i] by fastforce
qed

theorem address_map_update_spec_witness:
  "AddressMap_short_of (AddressMap_update AddressMap_new 5 [1, 2, 3, 4, 5, 6, 7, 8]) [1, 2, 3, 4, 5, 6, 7, 8] = Some 5"
  using address_map_update_spec[OF am_wf_new] by blast

end
