(* ===== verification/Indirect_Queue.thy ===== *)
theory Indirect_Queue
  imports Zb_Types Table_Interfaces
begin

text \<open>
  \<^verbatim>\<open>zigbee-nwk/src/indirect.rs\<close> (router build): frames held for sleeping children until they
  poll.  The queue is an array of slots; arrival order is a wrapping 32-bit stamp, and the
  oldest frame of a child is the one whose stamp is furthest behind the next stamp.  The
  theory gives the queue's specification, a plain list in arrival order, and proves that the
  slot array implements it as long as fewer than \<open>2 ^ 32\<close> frames are enqueued.
\<close>

section \<open>The queue\<close>

definition MAX_INDIRECT :: nat where "MAX_INDIRECT = 8"
definition MAX_FRAME_SIZE :: nat where "MAX_FRAME_SIZE = 128"

datatype IndirectFrameKind = IfkData | NetworkKeyUpdate u8 | ChildUpdate | IfkRejoinResponse | IfkLeave

record IndirectEntry =
  ie_dst_addr :: ShortAddress
  ie_frame :: "u8 list"
  ie_len :: nat
  ie_kind :: IndirectFrameKind
  ie_ttl :: u8
  ie_order :: u32
  ie_active :: bool

definition IndirectEntry_empty :: IndirectEntry where
  "IndirectEntry_empty = \<lparr>ie_dst_addr = 0xFFFF, ie_frame = replicate MAX_FRAME_SIZE 0, ie_len = 0,
     ie_kind = IfkData, ie_ttl = 0, ie_order = 0, ie_active = False\<rparr>"

record IndirectQueue =
  iq_entries :: "IndirectEntry list"
  iq_next_order :: u32

record PendingIndirectFrame =
  pif_frame :: "u8 list"
  pif_len :: nat
  pif_kind :: IndirectFrameKind

definition PendingIndirectFrame_as_slice :: "PendingIndirectFrame \<Rightarrow> u8 list" where
  "PendingIndirectFrame_as_slice p = take (pif_len p) (pif_frame p)"

definition IndirectQueue_new :: IndirectQueue where
  "IndirectQueue_new = \<lparr>iq_entries = replicate MAX_INDIRECT IndirectEntry_empty, iq_next_order = 0\<rparr>"

definition enqueue_tagged_with_slot ::
    "IndirectQueue \<Rightarrow> ShortAddress \<Rightarrow> u8 list \<Rightarrow> IndirectFrameKind \<Rightarrow> nat option \<times> IndirectQueue" where
  "enqueue_tagged_with_slot q dst frame kind =
     (if length frame > MAX_FRAME_SIZE then (None, q)
      else case position (\<lambda>e. \<not> ie_active e) (iq_entries q) of
             None \<Rightarrow> (None, q)
           | Some index \<Rightarrow>
               (Some index,
                \<lparr>iq_entries = (iq_entries q)[index := (iq_entries q ! index)
                   \<lparr>ie_dst_addr := dst,
                    ie_frame := frame @ drop (length frame) (ie_frame (iq_entries q ! index)),
                    ie_len := length frame, ie_kind := kind, ie_ttl := 8,
                    ie_order := iq_next_order q, ie_active := True\<rparr>],
                 iq_next_order = iq_next_order q + 1\<rparr>))"

definition enqueue_with_slot :: "IndirectQueue \<Rightarrow> ShortAddress \<Rightarrow> u8 list \<Rightarrow> nat option \<times> IndirectQueue" where
  "enqueue_with_slot q dst frame = enqueue_tagged_with_slot q dst frame IfkData"

definition IndirectQueue_enqueue :: "IndirectQueue \<Rightarrow> ShortAddress \<Rightarrow> u8 list \<Rightarrow> bool \<times> IndirectQueue" where
  "IndirectQueue_enqueue q dst frame =
     (let (slot, q') = enqueue_with_slot q dst frame in (slot \<noteq> None, q'))"

abbreviation ie_for :: "ShortAddress \<Rightarrow> IndirectEntry \<Rightarrow> bool" where
  "ie_for child e \<equiv> ie_active e \<and> ie_dst_addr e = child"

definition oldest_index :: "IndirectQueue \<Rightarrow> ShortAddress \<Rightarrow> nat option" where
  "oldest_index q child =
     max_idx_by (ie_for child) (\<lambda>e. iq_next_order q - ie_order e) (iq_entries q)"

abbreviation ie_retire :: "IndirectEntry \<Rightarrow> IndirectEntry" where
  "ie_retire e \<equiv> e\<lparr>ie_active := False\<rparr>"

definition remove_slot :: "IndirectQueue \<Rightarrow> nat \<Rightarrow> IndirectQueue" where
  "remove_slot q index =
     (if index < length (iq_entries q)
      then q\<lparr>iq_entries := (iq_entries q)[index := ie_retire (iq_entries q ! index)]\<rparr> else q)"

definition has_pending :: "IndirectQueue \<Rightarrow> ShortAddress \<Rightarrow> bool" where
  "has_pending q child = list_ex (ie_for child) (iq_entries q)"

definition IndirectQueue_dequeue ::
    "IndirectQueue \<Rightarrow> ShortAddress \<Rightarrow> (u8 list \<times> bool) option \<times> IndirectQueue" where
  "IndirectQueue_dequeue q child =
     (case oldest_index q child of
        None \<Rightarrow> (None, q)
      | Some idx \<Rightarrow>
          let q' = q\<lparr>iq_entries := (iq_entries q)[idx := ie_retire (iq_entries q ! idx)]\<rparr>
          in (Some (take (ie_len (iq_entries q ! idx)) (ie_frame (iq_entries q ! idx)),
                    list_ex (ie_for child) (iq_entries q')), q'))"

definition IndirectQueue_peek :: "IndirectQueue \<Rightarrow> ShortAddress \<Rightarrow> PendingIndirectFrame option" where
  "IndirectQueue_peek q child =
     map_option (\<lambda>i. let e = iq_entries q ! i
        in \<lparr>pif_frame = take (ie_len e) (ie_frame e) @ replicate (MAX_FRAME_SIZE - ie_len e) 0,
            pif_len = ie_len e, pif_kind = ie_kind e\<rparr>) (oldest_index q child)"

definition complete_one :: "IndirectQueue \<Rightarrow> ShortAddress \<Rightarrow> bool option \<times> IndirectQueue" where
  "complete_one q child =
     (case oldest_index q child of
        None \<Rightarrow> (None, q)
      | Some index \<Rightarrow>
          let q' = q\<lparr>iq_entries := (iq_entries q)[index := ie_retire (iq_entries q ! index)]\<rparr>
          in (Some (has_pending q' child), q'))"

definition has_pending_kind :: "IndirectQueue \<Rightarrow> ShortAddress \<Rightarrow> IndirectFrameKind \<Rightarrow> bool" where
  "has_pending_kind q child kind = list_ex (\<lambda>e. ie_for child e \<and> ie_kind e = kind) (iq_entries q)"

definition pending_count :: "IndirectQueue \<Rightarrow> ShortAddress \<Rightarrow> nat" where
  "pending_count q child = length (filter (ie_for child) (iq_entries q))"

definition remove_all :: "IndirectQueue \<Rightarrow> ShortAddress \<Rightarrow> IndirectQueue" where
  "remove_all q child = q\<lparr>iq_entries := map_if (ie_for child) ie_retire (iq_entries q)\<rparr>"

definition remove_kind :: "IndirectQueue \<Rightarrow> ShortAddress \<Rightarrow> IndirectFrameKind \<Rightarrow> bool \<times> IndirectQueue" where
  "remove_kind q child kind =
     (list_ex (\<lambda>e. ie_for child e \<and> ie_kind e = kind) (iq_entries q),
      q\<lparr>iq_entries := map_if (\<lambda>e. ie_for child e \<and> ie_kind e = kind) ie_retire (iq_entries q)\<rparr>)"

definition pending_children :: "IndirectQueue \<Rightarrow> ShortAddress list" where
  "pending_children q = map ie_dst_addr (filter ie_active (iq_entries q))"

definition ie_tick :: "IndirectEntry \<Rightarrow> IndirectEntry" where
  "ie_tick e =
     (if ie_active e
      then let e' = e\<lparr>ie_ttl := sat_sub (ie_ttl e) 1\<rparr>
           in if ie_ttl e' = 0 then ie_retire e' else e'
      else e)"

fun age_expired :: "IndirectEntry list \<Rightarrow> ShortAddress list \<Rightarrow> ShortAddress list" where
  "age_expired [] acc = acc"
| "age_expired (e # es) acc =
     age_expired es
       (if ie_active e \<and> sat_sub (ie_ttl e) 1 = 0 \<and> ie_dst_addr e \<notin> set acc
        then vec_push_ignore MAX_INDIRECT (ie_dst_addr e) acc else acc)"

definition IndirectQueue_age :: "IndirectQueue \<Rightarrow> ShortAddress list \<times> IndirectQueue" where
  "IndirectQueue_age q =
     (age_expired (iq_entries q) [], q\<lparr>iq_entries := map ie_tick (iq_entries q)\<rparr>)"

section \<open>The specification: a list in arrival order\<close>

record Item =
  it_dst :: ShortAddress
  it_bytes :: "u8 list"
  it_kind :: IndirectFrameKind
  it_ttl :: nat

fun remove_first :: "('a \<Rightarrow> bool) \<Rightarrow> 'a list \<Rightarrow> 'a list" where
  "remove_first P [] = []"
| "remove_first P (x # xs) = (if P x then xs else x # remove_first P xs)"

datatype iq_op =
    Enqueue ShortAddress "u8 list" IndirectFrameKind
  | Peek ShortAddress
  | CompleteOne ShortAddress
  | Dequeue ShortAddress
  | RemoveAll ShortAddress
  | RemoveKind ShortAddress IndirectFrameKind
  | Second

datatype iq_out =
    Queued bool
  | Peeked "(u8 list \<times> IndirectFrameKind) option"
  | Completed "bool option"
  | Dequeued "(u8 list \<times> bool) option"
  | Removed bool
  | Expired "ShortAddress set"

fun iq_exec :: "iq_op \<Rightarrow> IndirectQueue \<Rightarrow> iq_out \<times> IndirectQueue" where
  "iq_exec (Enqueue dst frame kind) q =
     (let (s, q') = enqueue_tagged_with_slot q dst frame kind in (Queued (s \<noteq> None), q'))"
| "iq_exec (Peek child) q =
     (Peeked (map_option (\<lambda>p. (PendingIndirectFrame_as_slice p, pif_kind p)) (IndirectQueue_peek q child)), q)"
| "iq_exec (CompleteOne child) q = map_prod Completed id (complete_one q child)"
| "iq_exec (Dequeue child) q = map_prod Dequeued id (IndirectQueue_dequeue q child)"
| "iq_exec (RemoveAll child) q = (Removed True, remove_all q child)"
| "iq_exec (RemoveKind child kind) q = map_prod Removed id (remove_kind q child kind)"
| "iq_exec Second q = map_prod (Expired \<circ> set) id (IndirectQueue_age q)"

fun aq_exec :: "iq_op \<Rightarrow> Item list \<Rightarrow> iq_out \<times> Item list" where
  "aq_exec (Enqueue dst frame kind) xs =
     (if length frame \<le> MAX_FRAME_SIZE \<and> length xs < MAX_INDIRECT
      then (Queued True, xs @ [\<lparr>it_dst = dst, it_bytes = frame, it_kind = kind, it_ttl = 8\<rparr>])
      else (Queued False, xs))"
| "aq_exec (Peek child) xs =
     (Peeked (map_option (\<lambda>x. (it_bytes x, it_kind x)) (find (\<lambda>x. it_dst x = child) xs)), xs)"
| "aq_exec (CompleteOne child) xs =
     (let xs' = remove_first (\<lambda>x. it_dst x = child) xs
      in if list_ex (\<lambda>x. it_dst x = child) xs
         then (Completed (Some (list_ex (\<lambda>x. it_dst x = child) xs')), xs') else (Completed None, xs))"
| "aq_exec (Dequeue child) xs =
     (let xs' = remove_first (\<lambda>x. it_dst x = child) xs
      in case find (\<lambda>x. it_dst x = child) xs of
           None \<Rightarrow> (Dequeued None, xs)
         | Some x \<Rightarrow> (Dequeued (Some (it_bytes x, list_ex (\<lambda>x. it_dst x = child) xs')), xs'))"
| "aq_exec (RemoveAll child) xs = (Removed True, filter (\<lambda>x. it_dst x \<noteq> child) xs)"
| "aq_exec (RemoveKind child kind) xs =
     (Removed (list_ex (\<lambda>x. it_dst x = child \<and> it_kind x = kind) xs),
      filter (\<lambda>x. \<not> (it_dst x = child \<and> it_kind x = kind)) xs)"
| "aq_exec Second xs =
     (Expired (it_dst ` {x \<in> set xs. it_ttl x \<le> 1}),
      map (\<lambda>x. x\<lparr>it_ttl := it_ttl x - 1\<rparr>) (filter (\<lambda>x. 1 < it_ttl x) xs))"

text \<open>Outputs over a sequence of operations.\<close>

fun outputs :: "('op \<Rightarrow> 's \<Rightarrow> 'o \<times> 's) \<Rightarrow> 'op list \<Rightarrow> 's \<Rightarrow> 'o list" where
  "outputs exec [] s = []"
| "outputs exec (op # ops) s = (let (out, s') = exec op s in out # outputs exec ops s')"

definition enqueues :: "iq_op list \<Rightarrow> nat" where
  "enqueues ops = length (filter (\<lambda>op. case op of Enqueue _ _ _ \<Rightarrow> True | _ \<Rightarrow> False) ops)"

section \<open>The simulation\<close>

definition view :: "IndirectEntry \<Rightarrow> Item" where
  "view e = \<lparr>it_dst = ie_dst_addr e, it_bytes = take (ie_len e) (ie_frame e), it_kind = ie_kind e,
     it_ttl = unat (ie_ttl e)\<rparr>"

definition stamp :: "IndirectQueue \<Rightarrow> nat \<Rightarrow> nat" where
  "stamp q i = unat (iq_next_order q - ie_order (iq_entries q ! i))"

text \<open>
  \<open>is\<close> lists the live slots, oldest first; the stamps are at most the number of frames
  enqueued so far.
\<close>

definition iq_rel :: "nat \<Rightarrow> IndirectQueue \<Rightarrow> nat list \<Rightarrow> bool" where
  "iq_rel n q is \<longleftrightarrow> length (iq_entries q) = MAX_INDIRECT \<and>
     (\<forall>e\<in>set (iq_entries q). length (ie_frame e) = MAX_FRAME_SIZE \<and> ie_len e \<le> MAX_FRAME_SIZE \<and>
        (ie_active e \<longrightarrow> ie_ttl e \<noteq> 0)) \<and>
     set is = {i. i < MAX_INDIRECT \<and> ie_active (iq_entries q ! i)} \<and>
     sorted_wrt (\<lambda>i j. stamp q j < stamp q i) is \<and>
     (\<forall>i\<in>set is. 1 \<le> stamp q i \<and> stamp q i \<le> n)"

abbreviation views :: "IndirectQueue \<Rightarrow> nat list \<Rightarrow> Item list" where
  "views q is \<equiv> map (\<lambda>i. view (iq_entries q ! i)) is"

lemma iq_relD:
  assumes "iq_rel n q is"
  shows "length (iq_entries q) = MAX_INDIRECT"
    "i < MAX_INDIRECT \<Longrightarrow> length (ie_frame (iq_entries q ! i)) = MAX_FRAME_SIZE \<and>
       ie_len (iq_entries q ! i) \<le> MAX_FRAME_SIZE \<and>
       (ie_active (iq_entries q ! i) \<longrightarrow> ie_ttl (iq_entries q ! i) \<noteq> 0)"
    "set is = {i. i < MAX_INDIRECT \<and> ie_active (iq_entries q ! i)}"
    "sorted_wrt (\<lambda>i j. stamp q j < stamp q i) is"
    "\<forall>i\<in>set is. 1 \<le> stamp q i \<and> stamp q i \<le> n"
  using assms nth_mem[of i "iq_entries q"] unfolding iq_rel_def by auto

lemma strict_desc_distinct: "sorted_wrt (\<lambda>i j. f j < (f i :: nat)) is \<Longrightarrow> distinct is"
  by (induction "is") auto

lemma iq_rel_distinct: "iq_rel n q is \<Longrightarrow> distinct is"
  by (rule strict_desc_distinct[of "stamp q"]) (rule iq_relD(4))

lemma iq_rel_mono: "iq_rel n q is \<Longrightarrow> n \<le> m \<Longrightarrow> iq_rel m q is"
  unfolding iq_rel_def by fastforce

lemma iq_rel_new: "iq_rel 0 IndirectQueue_new []"
  by (auto simp: iq_rel_def IndirectQueue_new_def IndirectEntry_empty_def MAX_INDIRECT_def)

lemma iq_rel_length: "iq_rel n q is \<Longrightarrow> length is = length (filter ie_active (iq_entries q))"
proof -
  assume r: "iq_rel n q is"
  have "length is = card (set is)" using iq_rel_distinct[OF r] by (simp add: distinct_card)
  also have "\<dots> = length (filter ie_active (iq_entries q))"
    unfolding iq_relD(3)[OF r] using iq_relD(1)[OF r] by (simp add: length_filter_conv_card)
  finally show ?thesis .
qed

text \<open>Changing live entries in place, or retiring them, without touching the stamps.\<close>

lemma iq_rel_map:
  assumes r: "iq_rel n q is"
    and f: "\<And>e. ie_order (f e) = ie_order e" "\<And>e. length (ie_frame (f e)) = length (ie_frame e)"
      "\<And>e. ie_len (f e) = ie_len e" "\<And>e. ie_active (f e) \<Longrightarrow> ie_active e"
      "\<And>e. ie_active (f e) \<Longrightarrow> ie_ttl e \<noteq> 0 \<Longrightarrow> ie_ttl (f e) \<noteq> 0"
    and g: "\<And>e. ie_active e \<Longrightarrow> ie_ttl e \<noteq> 0 \<Longrightarrow> ie_active (f e) = P (view e)"
      "\<And>e. ie_active e \<Longrightarrow> ie_ttl e \<noteq> 0 \<Longrightarrow> P (view e) \<Longrightarrow> view (f e) = g (view e)"
  defines "q' \<equiv> q\<lparr>iq_entries := map f (iq_entries q)\<rparr>"
  shows "\<exists>is'. iq_rel n q' is' \<and> views q' is' = map g (filter P (views q is))"
proof -
  let ?is = "filter (\<lambda>i. ie_active (f (iq_entries q ! i))) is"
  note d = iq_relD[OF r]
  have ent: "iq_entries q' ! i = f (iq_entries q ! i)" if "i < MAX_INDIRECT" for i
    using that d(1) by (simp add: q'_def)
  have live: "i < MAX_INDIRECT" "ie_active (iq_entries q ! i)" "ie_ttl (iq_entries q ! i) \<noteq> 0"
    if "i \<in> set is" for i using that d(2)[of i] d(3) by auto
  have st: "stamp q' i = stamp q i" if "i \<in> set is" for i
    using ent[OF live(1)[OF that]] by (simp add: stamp_def q'_def f(1))
  have "iq_rel n q' ?is"
    unfolding iq_rel_def
  proof (intro conjI)
    show "length (iq_entries q') = MAX_INDIRECT" using d(1) by (simp add: q'_def)
    show "\<forall>e\<in>set (iq_entries q'). length (ie_frame e) = MAX_FRAME_SIZE \<and> ie_len e \<le> MAX_FRAME_SIZE \<and>
        (ie_active e \<longrightarrow> ie_ttl e \<noteq> 0)"
      using r f(2-5) by (auto simp: iq_rel_def q'_def)
    show "set ?is = {i. i < MAX_INDIRECT \<and> ie_active (iq_entries q' ! i)}"
      using d(3) ent f(4) by auto
    show "sorted_wrt (\<lambda>i j. stamp q' j < stamp q' i) ?is"
      using sorted_wrt_filter[OF d(4)] by (rule sorted_wrt_mono_rel[rotated]) (auto simp: st)
    show "\<forall>i\<in>set ?is. 1 \<le> stamp q' i \<and> stamp q' i \<le> n" using d(5) st by auto
  qed
  moreover have "views q' ?is = map g (filter P (views q is))"
  proof -
    have "\<forall>i\<in>set is. ie_active (f (iq_entries q ! i)) = P (view (iq_entries q ! i))"
      using g(1) live by blast
    then have "?is = filter (\<lambda>i. P (view (iq_entries q ! i))) is" by (metis (mono_tags, lifting) filter_cong)
    moreover have "view (iq_entries q' ! i) = g (view (iq_entries q ! i))"
      if "i \<in> set is" "P (view (iq_entries q ! i))" for i
      using ent[OF live(1)[OF that(1)]] g(2)[OF live(2,3)[OF that(1)] that(2)] by simp
    ultimately show ?thesis by (simp add: filter_map comp_def)
  qed
  ultimately show ?thesis by blast
qed

text \<open>The oldest frame of a child is the first one of the list.\<close>

lemma oldest_index_find:
  assumes "iq_rel n q is"
  shows "oldest_index q child = find (\<lambda>i. ie_dst_addr (iq_entries q ! i) = child) is"
proof -
  note d = iq_relD[OF assms]
  let ?P = "\<lambda>i. ie_dst_addr (iq_entries q ! i) = child"
  show ?thesis
  proof (cases "oldest_index q child")
    case None
    then have "\<forall>e\<in>set (iq_entries q). \<not> ie_for child e" by (simp add: oldest_index_def max_idx_by_None_iff)
    then have "\<forall>i\<in>set is. \<not> ?P i" using d(1,3) nth_mem[of _ "iq_entries q"] by auto
    then have "find ?P is = None" by (auto simp: find_None_iff)
    with None show ?thesis by simp
  next
    case (Some m)
    note mx = max_idx_by_SomeD[OF Some[unfolded oldest_index_def]]
    have m: "m \<in> set is" "?P m" using mx(1,2) d(1,3) by auto
    then have "find ?P is \<noteq> None" by (auto simp: find_None_iff)
    then obtain k where k: "find ?P is = Some k" by blast
    from find_split[OF this] obtain as bs where split: "is = as @ k # bs" "\<forall>i\<in>set as. \<not> ?P i" "?P k"
      by blast
    have "stamp q k \<le> stamp q m"
    proof -
      have "k < MAX_INDIRECT" "ie_active (iq_entries q ! k)" using split(1) d(3) by auto
      then have "iq_next_order q - ie_order (iq_entries q ! k) \<le> iq_next_order q - ie_order (iq_entries q ! m)"
        using mx(3)[of "iq_entries q ! k"] split(3) d(1) by simp
      then show ?thesis by (simp add: stamp_def word_le_nat_alt)
    qed
    moreover have "m \<in> set (k # bs)" using m split by auto
    ultimately have "m = k" using d(4) unfolding split(1) by (auto simp: sorted_wrt_append)
    with k Some show ?thesis by simp
  qed
qed

lemma remove_first_find: "distinct xs \<Longrightarrow> find P xs = Some k \<Longrightarrow> filter (\<lambda>x. x \<noteq> k) xs = remove_first P xs"
  by (induction xs) (auto simp: filter_id_conv split: if_splits dest: find_SomeD)

lemma remove_first_map: "remove_first P (map f xs) = map f (remove_first (\<lambda>x. P (f x)) xs)"
  by (induction xs) auto

lemma find_map_comp: "find P (map f xs) = map_option f (find (\<lambda>x. P (f x)) xs)"
  by (induction xs) auto

text \<open>Retiring the oldest frame of a child removes the first one of the list.\<close>

lemma iq_rel_retire:
  assumes r: "iq_rel n q is" and k: "oldest_index q child = Some k"
  defines "q' \<equiv> q\<lparr>iq_entries := (iq_entries q)[k := ie_retire (iq_entries q ! k)]\<rparr>"
  shows "\<exists>is'. iq_rel n q' is' \<and> views q' is' = remove_first (\<lambda>x. it_dst x = child) (views q is)"
proof -
  note d = iq_relD[OF r]
  let ?is = "filter (\<lambda>i. i \<noteq> k) is"
  have find: "find (\<lambda>i. ie_dst_addr (iq_entries q ! i) = child) is = Some k"
    using k oldest_index_find[OF r] by simp
  then have kis: "k \<in> set is" by (rule find_SomeD[THEN conjunct1])
  have ent: "iq_entries q' ! i = iq_entries q ! i" if "i \<noteq> k" for i
    using that by (simp add: q'_def)
  have kk: "\<not> ie_active (iq_entries q' ! k)" using kis d(1,3) by (simp add: q'_def)
  have st: "stamp q' i = stamp q i" if "i \<noteq> k" for i
    using ent[OF that] by (simp add: stamp_def q'_def)
  have "iq_rel n q' ?is"
    unfolding iq_rel_def
  proof (intro conjI)
    show "length (iq_entries q') = MAX_INDIRECT" using d(1) by (simp add: q'_def)
    show "\<forall>e\<in>set (iq_entries q'). length (ie_frame e) = MAX_FRAME_SIZE \<and> ie_len e \<le> MAX_FRAME_SIZE \<and>
        (ie_active e \<longrightarrow> ie_ttl e \<noteq> 0)"
    proof
      fix e
      let ?r = "ie_retire (iq_entries q ! k)"
      assume "e \<in> set (iq_entries q')"
      then have "e = ?r \<or> e \<in> set (iq_entries q)"
        using set_update_subset_insert[of "iq_entries q" k ?r] by (auto simp: q'_def)
      moreover have "iq_entries q ! k \<in> set (iq_entries q)" using kis d(1,3) by simp
      ultimately show "length (ie_frame e) = MAX_FRAME_SIZE \<and> ie_len e \<le> MAX_FRAME_SIZE \<and>
        (ie_active e \<longrightarrow> ie_ttl e \<noteq> 0)" using r by (auto simp: iq_rel_def)
    qed
    show "set ?is = {i. i < MAX_INDIRECT \<and> ie_active (iq_entries q' ! i)}"
    proof (rule set_eqI)
      fix x
      show "x \<in> set ?is \<longleftrightarrow> x \<in> {i. i < MAX_INDIRECT \<and> ie_active (iq_entries q' ! i)}"
        by (cases "x = k") (simp_all add: kk d(3) ent)
    qed
    show "sorted_wrt (\<lambda>i j. stamp q' j < stamp q' i) ?is"
      using sorted_wrt_filter[OF d(4)] by (rule sorted_wrt_mono_rel[rotated]) (auto simp: st)
    show "\<forall>i\<in>set ?is. 1 \<le> stamp q' i \<and> stamp q' i \<le> n" using d(5) st by auto
  qed
  moreover have "views q' ?is = views q ?is" by (rule map_cong) (simp_all add: ent)
  then have "views q' ?is = remove_first (\<lambda>x. it_dst x = child) (views q is)"
    using remove_first_find[OF iq_rel_distinct[OF r] find] by (simp add: remove_first_map view_def)
  ultimately show ?thesis by blast
qed

lemma views_has: "iq_rel n q is \<Longrightarrow> list_ex (\<lambda>x. Q x) (views q is) \<longleftrightarrow> (\<exists>e\<in>set (iq_entries q). ie_active e \<and> Q (view e))"
proof -
  assume r: "iq_rel n q is"
  have "list_ex Q (views q is) \<longleftrightarrow> (\<exists>i<MAX_INDIRECT. ie_active (iq_entries q ! i) \<and> Q (view (iq_entries q ! i)))"
    using iq_relD(3)[OF r] by (auto simp: list_ex_iff)
  then show ?thesis using iq_relD(1)[OF r] by (metis in_set_conv_nth)
qed

lemma iq_rel_enqueue:
  fixes dst :: ShortAddress and kind :: IndirectFrameKind
  assumes r: "iq_rel n q is" and n: "n < 2 ^ 32 - 1" and len: "length frame \<le> MAX_FRAME_SIZE"
    and i: "position (\<lambda>e. \<not> ie_active e) (iq_entries q) = Some i"
  defines "q' \<equiv> snd (enqueue_tagged_with_slot q dst frame kind)"
  shows "iq_rel (n + 1) q' (is @ [i])"
    and "views q' (is @ [i]) = views q is @ [\<lparr>it_dst = dst, it_bytes = frame, it_kind = kind, it_ttl = 8\<rparr>]"
proof -
  note d = iq_relD[OF r]
  let ?e = "(iq_entries q ! i)\<lparr>ie_dst_addr := dst,
    ie_frame := frame @ drop (length frame) (ie_frame (iq_entries q ! i)),
    ie_len := length frame, ie_kind := kind, ie_ttl := 8,
    ie_order := iq_next_order q, ie_active := True\<rparr>"
  have q': "q' = \<lparr>iq_entries = (iq_entries q)[i := ?e], iq_next_order = iq_next_order q + 1\<rparr>"
    using i len by (simp add: q'_def enqueue_tagged_with_slot_def)
  have i8: "i < MAX_INDIRECT" "\<not> ie_active (iq_entries q ! i)" using position_SomeD[OF i] d(1) by simp_all
  then have nis: "i \<notin> set is" using d(3) by simp
  have fl: "length (ie_frame ?e) = MAX_FRAME_SIZE" using d(2)[OF i8(1)] len by simp
  have ent: "iq_entries q' ! j = (if j = i then ?e else iq_entries q ! j)" if "j < MAX_INDIRECT" for j
    using that d(1) by (simp add: q' nth_list_update)
  have st: "stamp q' j = stamp q j + 1" if "j \<in> set is" for j
  proof -
    have j: "j < MAX_INDIRECT" "j \<noteq> i" using that d(3) nis by auto
    let ?w = "iq_next_order q - ie_order (iq_entries q ! j)"
    have "unat ?w < 2 ^ 32 - 1" using d(5) that n by (force simp: stamp_def)
    then have "unat (?w + 1) = unat ?w + 1" by (simp add: unat_word_ariths)
    moreover have "iq_next_order q' - ie_order (iq_entries q' ! j) = ?w + 1"
      using ent[OF j(1)] j(2) by (simp add: q')
    ultimately show ?thesis by (simp add: stamp_def)
  qed
  have sti: "stamp q' i = 1" using i8(1) d(1) by (simp add: stamp_def q')
  show "iq_rel (n + 1) q' (is @ [i])"
    unfolding iq_rel_def
  proof (intro conjI)
    show "length (iq_entries q') = MAX_INDIRECT" using d(1) by (simp add: q')
    show "\<forall>e\<in>set (iq_entries q'). length (ie_frame e) = MAX_FRAME_SIZE \<and> ie_len e \<le> MAX_FRAME_SIZE \<and>
        (ie_active e \<longrightarrow> ie_ttl e \<noteq> 0)"
    proof
      fix e
      assume "e \<in> set (iq_entries q')"
      then have "e = ?e \<or> e \<in> set (iq_entries q)"
        using set_update_subset_insert[of "iq_entries q" i ?e] by (auto simp: q')
      then show "length (ie_frame e) = MAX_FRAME_SIZE \<and> ie_len e \<le> MAX_FRAME_SIZE \<and>
        (ie_active e \<longrightarrow> ie_ttl e \<noteq> 0)" using r fl len by (auto simp: iq_rel_def)
    qed
    show "set (is @ [i]) = {i. i < MAX_INDIRECT \<and> ie_active (iq_entries q' ! i)}"
      using d(3) ent i8(1) by (auto split: if_splits)
    have "sorted_wrt (\<lambda>i j. stamp q' j < stamp q' i) is"
      using d(4) by (rule sorted_wrt_mono_rel[rotated]) (simp add: st)
    then show "sorted_wrt (\<lambda>i j. stamp q' j < stamp q' i) (is @ [i])"
      using d(5) by (auto simp: sorted_wrt_append st sti)
    show "\<forall>j\<in>set (is @ [i]). 1 \<le> stamp q' j \<and> stamp q' j \<le> n + 1" using d(5) st sti by auto
  qed
  have "view (iq_entries q' ! j) = view (iq_entries q ! j)" if "j \<in> set is" for j
    using that ent[of j] d(3) nis by auto
  then show "views q' (is @ [i]) = views q is @ [\<lparr>it_dst = dst, it_bytes = frame, it_kind = kind, it_ttl = 8\<rparr>]"
    using ent[OF i8(1)] by (simp add: view_def)
qed

section \<open>Refinement\<close>

text \<open>One operation on related states: equal outputs, related results.\<close>

definition iq_sim :: "nat \<Rightarrow> iq_op \<Rightarrow> IndirectQueue \<Rightarrow> nat list \<Rightarrow> bool" where
  "iq_sim m op q is \<longleftrightarrow> fst (iq_exec op q) = fst (aq_exec op (views q is)) \<and>
     (\<exists>is'. iq_rel m (snd (iq_exec op q)) is' \<and> views (snd (iq_exec op q)) is' = snd (aq_exec op (views q is)))"

lemma iq_sim_enqueue:
  assumes r: "iq_rel n q is" and n: "n < 2 ^ 32 - 1"
  shows "iq_sim (n + 1) (Enqueue dst frame kind) q is"
proof (cases "length frame \<le> MAX_FRAME_SIZE")
  case False
  then have "iq_exec (Enqueue dst frame kind) q = (Queued False, q)"
    by (simp add: enqueue_tagged_with_slot_def)
  with False iq_rel_mono[OF r, of "n + 1"] show ?thesis by (auto simp: iq_sim_def)
next
  case True
  have len: "length is = length (filter ie_active (iq_entries q))" by (rule iq_rel_length[OF r])
  show ?thesis
  proof (cases "position (\<lambda>e. \<not> ie_active e) (iq_entries q)")
    case None
    then have "\<forall>e\<in>set (iq_entries q). ie_active e" by (simp add: position_None_iff)
    then have "length is = MAX_INDIRECT" using len iq_relD(1)[OF r] by (simp add: filter_id_conv)
    moreover have "iq_exec (Enqueue dst frame kind) q = (Queued False, q)"
      using True None by (simp add: enqueue_tagged_with_slot_def)
    ultimately show ?thesis using iq_rel_mono[OF r, of "n + 1"] by (auto simp: iq_sim_def)
  next
    case (Some i)
    then have i: "i < length (iq_entries q)" "\<not> ie_active (iq_entries q ! i)" using position_SomeD[OF Some] by auto
    then have "length is < MAX_INDIRECT"
      using len length_filter_less[OF nth_mem[OF i(1)], of ie_active] iq_relD(1)[OF r] by simp
    moreover have "fst (iq_exec (Enqueue dst frame kind) q) = Queued True"
      "snd (iq_exec (Enqueue dst frame kind) q) = snd (enqueue_tagged_with_slot q dst frame kind)"
      using True Some by (simp_all add: enqueue_tagged_with_slot_def)
    ultimately show ?thesis
      using True iq_rel_enqueue[OF r n True Some, of dst kind] by (auto simp: iq_sim_def)
  qed
qed

lemma views_find:
  "iq_rel n q is \<Longrightarrow> find (\<lambda>x. it_dst x = child) (views q is) =
     map_option (\<lambda>i. view (iq_entries q ! i)) (oldest_index q child)"
  by (simp add: find_map_comp oldest_index_find view_def)

lemma iq_sim_peek:
  assumes r: "iq_rel n q is"
  shows "iq_sim n (Peek child) q is"
proof -
  have "IndirectQueue_peek q child \<bind> (\<lambda>p. Some (PendingIndirectFrame_as_slice p, pif_kind p)) =
      map_option (\<lambda>i. (it_bytes (view (iq_entries q ! i)), it_kind (view (iq_entries q ! i)))) (oldest_index q child)"
  proof (cases "oldest_index q child")
    case (Some i)
    then have "i < MAX_INDIRECT"
      using max_idx_by_SomeD(1)[OF Some[unfolded oldest_index_def]] iq_relD(1)[OF r] by simp
    then have "ie_len (iq_entries q ! i) \<le> length (ie_frame (iq_entries q ! i))" using iq_relD(2)[OF r] by simp
    with Some show ?thesis
      by (simp add: IndirectQueue_peek_def PendingIndirectFrame_as_slice_def Let_def view_def)
  qed (simp add: IndirectQueue_peek_def)
  then have "fst (iq_exec (Peek child) q) = fst (aq_exec (Peek child) (views q is))"
    by (cases "oldest_index q child")
      (simp_all add: views_find[OF r] IndirectQueue_peek_def)
  with r show ?thesis by (auto simp: iq_sim_def)
qed

lemma has_pending_views: "iq_rel n q is \<Longrightarrow> has_pending q child = list_ex (\<lambda>x. it_dst x = child) (views q is)"
  unfolding has_pending_def list_ex_iff[of "ie_for child"] by (subst views_has) (auto simp: view_def)

lemma iq_sim_take:
  assumes r: "iq_rel n q is"
  shows "iq_sim n (CompleteOne child) q is" and "iq_sim n (Dequeue child) q is"
proof -
  let ?P = "\<lambda>x. it_dst x = child"
  have pend: "list_ex ?P (views q is) \<longleftrightarrow> oldest_index q child \<noteq> None"
    using views_find[OF r, of child] by (metis (no_types, lifting) find_None_iff list_ex_iff option.map_disc_iff)
  have "iq_sim n (CompleteOne child) q is \<and> iq_sim n (Dequeue child) q is"
  proof (cases "oldest_index q child")
    case None
    with pend r views_find[OF r, of child] show ?thesis
      by (auto simp: iq_sim_def complete_one_def IndirectQueue_dequeue_def)
  next
    case (Some k)
    let ?q = "q\<lparr>iq_entries := (iq_entries q)[k := ie_retire (iq_entries q ! k)]\<rparr>"
    from iq_rel_retire[OF r Some] obtain is' where is':
      "iq_rel n ?q is'" "views ?q is' = remove_first ?P (views q is)" by blast
    have more: "has_pending ?q child = list_ex ?P (remove_first ?P (views q is))"
      unfolding has_pending_views[OF is'(1)] is'(2) ..
    have c: "iq_exec (CompleteOne child) q = (Completed (Some (has_pending ?q child)), ?q)"
      using Some by (simp add: complete_one_def Let_def)
    have e: "iq_exec (Dequeue child) q = (Dequeued (Some (it_bytes (view (iq_entries q ! k)), has_pending ?q child)), ?q)"
      using Some by (simp add: IndirectQueue_dequeue_def has_pending_def view_def Let_def)
    show ?thesis
      unfolding iq_sim_def c e using is' more pend Some views_find[OF r, of child]
      by (auto simp: Let_def simp del: map_map)
  qed
  then show "iq_sim n (CompleteOne child) q is" and "iq_sim n (Dequeue child) q is" by blast+
qed

lemma iq_sim_remove:
  assumes r: "iq_rel n q is"
  shows "iq_sim n (RemoveAll child) q is" and "iq_sim n (RemoveKind child kind) q is"
proof -
  have "\<exists>is'. iq_rel n (remove_all q child) is' \<and>
      views (remove_all q child) is' = map id (filter (\<lambda>x. it_dst x \<noteq> child) (views q is))"
    unfolding remove_all_def map_if_def
    by (rule iq_rel_map[OF r]) (auto simp: view_def split: if_splits)
  then show "iq_sim n (RemoveAll child) q is" by (simp add: iq_sim_def)
  have "\<exists>is'. iq_rel n (snd (remove_kind q child kind)) is' \<and> views (snd (remove_kind q child kind)) is' =
      map id (filter (\<lambda>x. \<not> (it_dst x = child \<and> it_kind x = kind)) (views q is))"
    unfolding remove_kind_def map_if_def snd_conv
    by (rule iq_rel_map[OF r]) (auto simp: view_def split: if_splits)
  moreover have "fst (remove_kind q child kind) = list_ex (\<lambda>x. it_dst x = child \<and> it_kind x = kind) (views q is)"
    unfolding views_has[OF r] by (auto simp: remove_kind_def list_ex_iff view_def)
  ultimately show "iq_sim n (RemoveKind child kind) q is" by (simp add: iq_sim_def)
qed

lemma age_expired_set:
  "length es + length acc \<le> MAX_INDIRECT \<Longrightarrow>
     set (age_expired es acc) = set acc \<union> ie_dst_addr ` {e \<in> set es. ie_active e \<and> sat_sub (ie_ttl e) 1 = 0}"
  by (induction es arbitrary: acc) (auto simp: vec_push_ignore_def)

lemma iq_sim_second:
  assumes r: "iq_rel n q is"
  shows "iq_sim n Second q is"
proof -
  have ttl: "sat_sub t 1 = 0 \<longleftrightarrow> unat t \<le> 1" for t :: u8
    unfolding unat_eq_0[symmetric] unat_sat_sub by simp
  have tick: "ie_active (ie_tick e) = (ie_active e \<and> 1 < unat (ie_ttl e))"
    "ie_active e \<Longrightarrow> view (ie_tick e) = (view e)\<lparr>it_ttl := it_ttl (view e) - 1\<rparr>"
    "ie_active e \<Longrightarrow> ie_ttl (ie_tick e) = sat_sub (ie_ttl e) 1"
    "ie_order (ie_tick e) = ie_order e" "ie_frame (ie_tick e) = ie_frame e" "ie_len (ie_tick e) = ie_len e" for e
    using ttl[of "ie_ttl e"] by (auto simp: ie_tick_def Let_def view_def unat_sat_sub)
  have "\<exists>is'. iq_rel n (snd (IndirectQueue_age q)) is' \<and> views (snd (IndirectQueue_age q)) is' =
      map (\<lambda>x. x\<lparr>it_ttl := it_ttl x - 1\<rparr>) (filter (\<lambda>x. 1 < it_ttl x) (views q is))"
    unfolding IndirectQueue_age_def snd_conv
    by (rule iq_rel_map[OF r]) (simp_all add: tick ttl not_le, simp add: view_def)
  moreover have "set (fst (IndirectQueue_age q)) = it_dst ` {x \<in> set (views q is). it_ttl x \<le> 1}"
  proof -
    have vs: "set (views q is) = view ` {e \<in> set (iq_entries q). ie_active e}"
      using iq_relD(1,3)[OF r] by (auto simp: in_set_conv_nth)
    have "it_dst ` {x \<in> set (views q is). it_ttl x \<le> 1} =
        (\<lambda>e. it_dst (view e)) ` {e \<in> set (iq_entries q). ie_active e \<and> it_ttl (view e) \<le> 1}"
      unfolding vs by blast
    then have "it_dst ` {x \<in> set (views q is). it_ttl x \<le> 1} =
        ie_dst_addr ` {e \<in> set (iq_entries q). ie_active e \<and> unat (ie_ttl e) \<le> 1}"
      by (simp add: view_def)
    then show ?thesis
      using age_expired_set[of "iq_entries q" "[]"] iq_relD(1)[OF r] by (simp add: IndirectQueue_age_def ttl)
  qed
  ultimately show ?thesis by (simp add: iq_sim_def)
qed

lemma iq_sim_op:
  assumes "iq_rel n q is" "n + enqueues [op] < 2 ^ 32"
  shows "iq_sim (n + enqueues [op]) op q is"
  using assms iq_sim_enqueue iq_sim_peek iq_sim_take iq_sim_remove iq_sim_second
  by (cases op) (auto simp: enqueues_def)

lemma iq_refines_from:
  "iq_rel n q is \<Longrightarrow> n + enqueues ops < 2 ^ 32 \<Longrightarrow> outputs iq_exec ops q = outputs aq_exec ops (views q is)"
proof (induction ops arbitrary: n q "is")
  case Nil
  then show ?case by simp
next
  case (Cons op ops)
  have e: "enqueues (op # ops) = enqueues [op] + enqueues ops" by (simp add: enqueues_def)
  from iq_sim_op[OF Cons.prems(1)] Cons.prems(2) e have "iq_sim (n + enqueues [op]) op q is" by simp
  then obtain is' where "fst (iq_exec op q) = fst (aq_exec op (views q is))"
    "iq_rel (n + enqueues [op]) (snd (iq_exec op q)) is'"
    "views (snd (iq_exec op q)) is' = snd (aq_exec op (views q is))"
    unfolding iq_sim_def by blast
  with Cons.IH[of "n + enqueues [op]" "snd (iq_exec op q)" is'] Cons.prems(2) e
  show ?case by (simp add: split_def Let_def)
qed

text \<open>
  C19: the indirect queue is a bounded FIFO list.  Over any sequence of enqueues, polls,
  completions, removals and seconds with fewer than \<open>2 ^ 32\<close> enqueues, every answer of the slot
  array (acceptance, the frame a polling child is given, whether more is pending, which
  children expired) is the answer of a list in arrival order with eight places and an
  eight-second lifetime: a child gets its frames in order, whatever slots they sit in.
\<close>

theorem indirect_queue_refines:
  assumes "enqueues ops < 2 ^ 32"
  shows "outputs iq_exec ops IndirectQueue_new = outputs aq_exec ops []"
  using iq_refines_from[OF iq_rel_new] assms by simp

theorem indirect_queue_refines_witness:
  "outputs iq_exec [Enqueue 1 [7] IfkData, Enqueue 1 [8] IfkLeave, Dequeue 1, Peek 1] IndirectQueue_new =
     [Queued True, Queued True, Dequeued (Some ([7], True)), Peeked (Some ([8], IfkLeave))]"
  by (subst indirect_queue_refines)
    (simp_all add: enqueues_def MAX_FRAME_SIZE_def MAX_INDIRECT_def)

interpretation ie_countdown: countdown_slot ie_active ie_ttl ie_tick
  by unfold_locales (simp_all add: ie_tick_def Let_def)

lemma frame_lifetime: "ie_active e \<Longrightarrow> ie_ttl e = 8 \<Longrightarrow> ie_active ((ie_tick ^^ n) e) \<longleftrightarrow> n < 8"
  using ie_countdown.live_after[of e n] by simp

end
