(* ===== verification/Ccm_Star.thy ===== *)
theory Ccm_Star
  imports Rust_Prelude
begin

text \<open>
  \<^verbatim>\<open>zigbee-crypto/src/lib.rs\<close>: AES-CCM* with a four-byte MIC, the AES-MMO hash, and install
  codes with their CRC.  The AES block permutation is the \<^verbatim>\<open>aes\<close> crate's or a hardware accelerator's: it is
  the argument \<open>cipher\<close> (\<^verbatim>\<open>Aes128Forward::encrypt_block\<close> of an already keyed cipher) or
  \<open>provider\<close> (\<^verbatim>\<open>ForwardAesProvider::forward_cipher\<close> applied to a key), a function from a block to an error or
  a block, and the theorems hold for every such function.  What they use of it is that a block
  is 16 bytes long (\<open>block_cipher\<close>, the type \<^verbatim>\<open>[u8; 16]\<close>).
\<close>

section \<open>The CCM* mode\<close>

type_synonym AesKey = "u8 list"
type_synonym 'e cipher = "u8 list \<Rightarrow> 'e + u8 list"

text \<open>The operator \<^verbatim>\<open>?\<close> on a \<^verbatim>\<open>Result\<close>.\<close>

fun and_then :: "'e + 'a \<Rightarrow> ('a \<Rightarrow> 'e + 'b) \<Rightarrow> 'e + 'b" where
  "and_then (Inl e) f = Inl e"
| "and_then (Inr x) f = f x"

definition key_fingerprint :: "AesKey \<Rightarrow> u32" where
  "key_fingerprint key = fold (\<lambda>byte hash. (hash XOR ucast byte) * 0x01000193) key 0x811C9DC5"

definition CCM_STAR_NONCE_LEN :: nat where "CCM_STAR_NONCE_LEN = 13"
definition CCM_STAR_MIC_LEN :: nat where "CCM_STAR_MIC_LEN = 4"
definition CCM_STAR_MAX_AAD_LEN :: nat where "CCM_STAR_MAX_AAD_LEN = 0xFEFF"
definition CCM_STAR_MAX_PLAINTEXT_LEN :: nat where "CCM_STAR_MAX_PLAINTEXT_LEN = 124"
definition CCM_STAR_BUFFER_CAPACITY :: nat where
  "CCM_STAR_BUFFER_CAPACITY = CCM_STAR_MAX_PLAINTEXT_LEN + CCM_STAR_MIC_LEN"

definition CCM_B0_FLAGS_ADATA :: u8 where "CCM_B0_FLAGS_ADATA = 0x49"
definition CCM_B0_FLAGS_NO_ADATA :: u8 where "CCM_B0_FLAGS_NO_ADATA = 0x09"
definition CCM_AI_FLAGS :: u8 where "CCM_AI_FLAGS = 0x01"

definition xor_bytes :: "u8 list \<Rightarrow> u8 list \<Rightarrow> u8 list" where
  "xor_bytes xs ys = map2 (XOR) xs ys"

text \<open>\<^verbatim>\<open>let mut block = [0u8; 16]; block[..n].copy_from_slice(chunk)\<close>\<close>

definition block_of :: "u8 list \<Rightarrow> u8 list" where
  "block_of chunk = chunk @ replicate (16 - length chunk) 0"

definition be16 :: "u16 \<Rightarrow> u8 list" where
  "be16 w = [ucast (drop_bit 8 w), ucast w]"

definition build_ai :: "u8 list \<Rightarrow> u16 \<Rightarrow> u8 list" where
  "build_ai nonce counter = [CCM_AI_FLAGS] @ nonce @ be16 counter"

definition mac_fold :: "'e cipher \<Rightarrow> u8 list \<Rightarrow> u8 list \<Rightarrow> 'e + u8 list" where
  "mac_fold cipher tag block = cipher (xor_bytes tag block)"

text \<open>The two \<^verbatim>\<open>while offset < len\<close> loops of \<^verbatim>\<open>ccm_mac\<close>, over what is left of the slice.\<close>

function (sequential) mac_blocks :: "'e cipher \<Rightarrow> u8 list \<Rightarrow> u8 list \<Rightarrow> 'e + u8 list" where
  "mac_blocks cipher tag [] = Inr tag"
| "mac_blocks cipher tag data =
     and_then (mac_fold cipher tag (block_of (take 16 data))) (\<lambda>tag. mac_blocks cipher tag (drop 16 data))"
  by pat_completeness auto
termination by (relation "measure (\<lambda>(_, _, data). length data)") auto

definition ccm_mac :: "'e cipher \<Rightarrow> u8 list \<Rightarrow> u8 list \<Rightarrow> u8 list \<Rightarrow> 'e + u8 list" where
  "ccm_mac cipher nonce aad payload =
     and_then (cipher ([if aad = [] then CCM_B0_FLAGS_NO_ADATA else CCM_B0_FLAGS_ADATA] @ nonce @
                 be16 (of_nat (length payload)))) (\<lambda>tag.
     and_then (if aad = [] then Inr tag
               else and_then (mac_fold cipher tag (block_of (be16 (of_nat (length aad)) @ take 14 aad))) (\<lambda>tag.
                    mac_blocks cipher tag (drop 14 aad))) (\<lambda>tag.
     mac_blocks cipher tag payload))"

function (sequential) ctr_loop :: "'e cipher \<Rightarrow> u8 list \<Rightarrow> u16 \<Rightarrow> u8 list \<Rightarrow> 'e + u8 list" where
  "ctr_loop cipher nonce counter [] = Inr []"
| "ctr_loop cipher nonce counter data =
     and_then (cipher (build_ai nonce counter)) (\<lambda>key_stream.
     and_then (ctr_loop cipher nonce (counter + 1) (drop 16 data)) (\<lambda>rest.
     Inr (xor_bytes (take 16 data) key_stream @ rest)))"
  by pat_completeness auto
termination by (relation "measure (\<lambda>(_, _, _, data). length data)") auto

definition ccm_ctr_xor :: "'e cipher \<Rightarrow> u8 list \<Rightarrow> u8 list \<Rightarrow> 'e + u8 list" where
  "ccm_ctr_xor cipher nonce data = ctr_loop cipher nonce 1 data"

definition ccm_mic :: "u8 list \<Rightarrow> u8 list \<Rightarrow> u8 list" where
  "ccm_mic tag s0 = xor_bytes (take CCM_STAR_MIC_LEN tag) (take CCM_STAR_MIC_LEN s0)"

definition extend_from_slice :: "nat \<Rightarrow> 'a list \<Rightarrow> 'a list \<Rightarrow> 'a list option" where
  "extend_from_slice cap xs v = (if length v + length xs \<le> cap then Some (v @ xs) else None)"

definition ccm_star_encrypt_with ::
    "'e cipher \<Rightarrow> u8 list \<Rightarrow> u8 list \<Rightarrow> u8 list \<Rightarrow> 'e + u8 list option" where
  "ccm_star_encrypt_with cipher nonce aad plaintext =
     (if length plaintext > CCM_STAR_MAX_PLAINTEXT_LEN \<or> length aad > CCM_STAR_MAX_AAD_LEN then Inr None
      else and_then (ccm_mac cipher nonce aad plaintext) (\<lambda>tag.
           and_then (cipher (build_ai nonce 0)) (\<lambda>s0.
           and_then (ccm_ctr_xor cipher nonce plaintext) (\<lambda>buffer.
           Inr (extend_from_slice CCM_STAR_BUFFER_CAPACITY buffer [] \<bind>
                extend_from_slice CCM_STAR_BUFFER_CAPACITY (ccm_mic tag s0))))))"

text \<open>\<^verbatim>\<open>difference |= expected[i] ^ actual[i]\<close> over the four bytes.\<close>

definition constant_time_mic_eq :: "u8 list \<Rightarrow> u8 list \<Rightarrow> bool" where
  "constant_time_mic_eq expected actual \<longleftrightarrow>
     fold (\<lambda>i difference. difference OR (expected ! i XOR actual ! i)) [0..<CCM_STAR_MIC_LEN] 0 = 0"

definition ccm_star_decrypt_with ::
    "'e cipher \<Rightarrow> u8 list \<Rightarrow> u8 list \<Rightarrow> u8 list \<Rightarrow> 'e + u8 list option" where
  "ccm_star_decrypt_with cipher nonce aad ciphertext_and_mic =
     (if length ciphertext_and_mic < CCM_STAR_MIC_LEN \<or> length aad > CCM_STAR_MAX_AAD_LEN then Inr None
      else let ciphertext_len = length ciphertext_and_mic - CCM_STAR_MIC_LEN
           in if ciphertext_len > CCM_STAR_MAX_PLAINTEXT_LEN then Inr None
              else and_then (ccm_ctr_xor cipher nonce (take ciphertext_len ciphertext_and_mic)) (\<lambda>buffer.
                   and_then (ccm_mac cipher nonce aad buffer) (\<lambda>tag.
                   and_then (cipher (build_ai nonce 0)) (\<lambda>s0.
                   if \<not> constant_time_mic_eq (ccm_mic tag s0)
                          (take CCM_STAR_MIC_LEN (drop ciphertext_len ciphertext_and_mic))
                   then Inr None
                   else Inr (extend_from_slice CCM_STAR_BUFFER_CAPACITY buffer [])))))"

section \<open>Hash and install codes\<close>

type_synonym 'e provider = "AesKey \<Rightarrow> 'e cipher"

datatype AesMmoError = InputTooLong | CipherFailure
datatype InstallCodeError = InvalidLength | InvalidCrc | InstallCipherFailure

fun map_err :: "('e \<Rightarrow> 'f) \<Rightarrow> 'e + 'a \<Rightarrow> 'f + 'a" where
  "map_err f (Inl e) = Inl (f e)"
| "map_err f (Inr x) = Inr x"

definition aes_mmo_compress :: "'e provider \<Rightarrow> AesKey \<Rightarrow> u8 list \<Rightarrow> AesMmoError + AesKey" where
  "aes_mmo_compress provider hash message =
     and_then (map_err (\<lambda>_. CipherFailure) (provider hash message)) (\<lambda>encrypted.
     Inr (xor_bytes encrypted message))"

text \<open>\<^verbatim>\<open>for chunk in data.chunks_exact(16)\<close>, with the remainder it leaves.\<close>

function (sequential) mmo_chunks :: "'e provider \<Rightarrow> AesKey \<Rightarrow> u8 list \<Rightarrow> AesMmoError + AesKey \<times> u8 list" where
  "mmo_chunks provider hash data =
     (if length data < 16 then Inr (hash, data)
      else and_then (aes_mmo_compress provider hash (take 16 data)) (\<lambda>hash.
           mmo_chunks provider hash (drop 16 data)))"
  by pat_completeness auto
termination by (relation "measure (\<lambda>(_, _, data). length data)") auto
declare mmo_chunks.simps [simp del]

definition aes_mmo_hash_with :: "'e provider \<Rightarrow> u8 list \<Rightarrow> AesMmoError + AesKey" where
  "aes_mmo_hash_with provider data =
     (if length data * 8 < 2 ^ 16
      then let bit_len = of_nat (length data * 8) :: u16
           in and_then (mmo_chunks provider (replicate 16 0) data) (\<lambda>(hash, remainder).
              let final_block = (block_of remainder)[length remainder := 0x80]
              in and_then (if length remainder > 13
                           then and_then (aes_mmo_compress provider hash final_block) (\<lambda>hash.
                                Inr (hash, replicate 16 0))
                           else Inr (hash, final_block)) (\<lambda>(hash, final_block).
                 aes_mmo_compress provider hash (take 14 final_block @ be16 bit_len)))
      else Inl InputTooLong)"

fun crc_shift :: "u16 \<Rightarrow> u16" where
  "crc_shift crc = (if crc AND 1 \<noteq> 0 then drop_bit 1 crc XOR 0x8408 else drop_bit 1 crc)"
declare crc_shift.simps [simp del]

definition crc_byte :: "u8 \<Rightarrow> u16 \<Rightarrow> u16" where
  "crc_byte byte crc = (crc_shift ^^ 8) (crc XOR ucast byte)"

definition install_code_crc :: "u8 list \<Rightarrow> u16" where
  "install_code_crc data = NOT (fold crc_byte data 0xFFFF)"

definition derive_install_code_key_with :: "'e provider \<Rightarrow> u8 list \<Rightarrow> InstallCodeError + AesKey" where
  "derive_install_code_key_with provider code =
     (if length code \<notin> {8, 10, 14, 18} then Inl InvalidLength
      else let data_len = length code - 2;
               expected_crc = u16_from_le (code ! data_len) (code ! (data_len + 1))
           in if install_code_crc (take data_len code) \<noteq> expected_crc then Inl InvalidCrc
              else map_err (\<lambda>_. InstallCipherFailure) (aes_mmo_hash_with provider code))"

section \<open>Encryption and decryption are inverse\<close>

definition block_cipher :: "'e cipher \<Rightarrow> bool" where
  "block_cipher cipher \<longleftrightarrow> (\<forall>b x. cipher b = Inr x \<longrightarrow> length x = 16)"

lemma and_then_Inr: "and_then r f = Inr y \<longleftrightarrow> (\<exists>x. r = Inr x \<and> f x = Inr y)"
  by (cases r) auto

lemma length_xor_bytes [simp]: "length (xor_bytes xs ys) = min (length xs) (length ys)"
  by (simp add: xor_bytes_def)

lemma xor_bytes_twice: "length xs \<le> length ys \<Longrightarrow> xor_bytes (xor_bytes xs ys) ys = xs"
  unfolding xor_bytes_def by (induction xs ys rule: list_induct2') (auto simp: xor.assoc)

lemma ctr_step:
  assumes "length ks = 16" "data \<noteq> []" "length rest = length (drop 16 data)"
  defines "ys \<equiv> xor_bytes (take 16 data) ks @ rest"
  shows "take 16 ys = xor_bytes (take 16 data) ks" "drop 16 ys = rest" "ys \<noteq> []" "length ys = length data"
    "xor_bytes (xor_bytes (take 16 data) ks) ks = take 16 data"
proof -
  have l: "length (xor_bytes (take 16 data) ks) = min (length data) 16" using assms(1) by simp
  show "take 16 ys = xor_bytes (take 16 data) ks" "drop 16 ys = rest" "length ys = length data"
    using assms(3) l unfolding ys_def by (auto simp: min_def)
  then show "ys \<noteq> []" using assms(2) by auto
  show "xor_bytes (xor_bytes (take 16 data) ks) ks = take 16 data" using assms(1) by (simp add: xor_bytes_twice)
qed

lemma ctr_loop_cons:
  "data \<noteq> [] \<Longrightarrow> ctr_loop cipher nonce n data = Inr ys \<longleftrightarrow>
     (\<exists>ks rest. cipher (build_ai nonce n) = Inr ks \<and> ctr_loop cipher nonce (n + 1) (drop 16 data) = Inr rest \<and>
        ys = xor_bytes (take 16 data) ks @ rest)"
  by (cases data) (auto simp only: ctr_loop.simps and_then_Inr sum.inject list.distinct simp_thms)

lemma ctr_loop_involutive:
  assumes bc: "block_cipher cipher"
  shows "ctr_loop cipher nonce n xs = Inr ys \<Longrightarrow> ctr_loop cipher nonce n ys = Inr xs \<and> length ys = length xs"
proof (induction xs arbitrary: n ys rule: length_induct)
  case (1 xs)
  show ?case
  proof (cases "xs = []")
    case True
    with 1(2) show ?thesis by simp
  next
    case False
    with 1(2) obtain ks rest where k: "cipher (build_ai nonce n) = Inr ks"
      "ctr_loop cipher nonce (n + 1) (drop 16 xs) = Inr rest" "ys = xor_bytes (take 16 xs) ks @ rest"
      unfolding ctr_loop_cons[OF False] by blast
    from bc k(1) have l: "length ks = 16" by (simp add: block_cipher_def)
    have "length (drop 16 xs) < length xs" using False by simp
    with 1(1) k(2) have ih: "ctr_loop cipher nonce (n + 1) rest = Inr (drop 16 xs)"
      "length rest = length (drop 16 xs)" by blast+
    note st = ctr_step[OF l False ih(2), folded k(3)]
    have "ctr_loop cipher nonce n ys = Inr (take 16 xs @ drop 16 xs)"
      unfolding ctr_loop_cons[OF st(3)] st(1,2) using k(1) ih(1) st(5) by metis
    with st(4) show ?thesis by simp
  qed
qed

lemma ctr_involutive:
  assumes "block_cipher cipher" "ccm_ctr_xor cipher nonce xs = Inr ys"
  shows "ccm_ctr_xor cipher nonce ys = Inr xs" "length ys = length xs"
  using ctr_loop_involutive[OF assms(1) assms(2)[unfolded ccm_ctr_xor_def]] by (simp_all add: ccm_ctr_xor_def)

lemma constant_time_mic_eq_iff:
  assumes "length xs = CCM_STAR_MIC_LEN" "length ys = CCM_STAR_MIC_LEN"
  shows "constant_time_mic_eq xs ys \<longleftrightarrow> xs = ys"
proof -
  have z: "a OR b = 0 \<longleftrightarrow> a = 0 \<and> b = 0" for a b :: u8 by (metis or.right_neutral or_eq_0_iff)
  have x: "a XOR b = 0 \<longleftrightarrow> a = b" for a b :: u8 by (metis xor.right_neutral xor_self_eq xor.assoc)
  have "[0..<CCM_STAR_MIC_LEN] = [0, 1, 2, 3]" by (simp add: CCM_STAR_MIC_LEN_def upt_rec)
  with assms show ?thesis
    unfolding constant_time_mic_eq_def
    by (auto simp: z x list_eq_iff_nth_eq CCM_STAR_MIC_LEN_def less_Suc_eq numeral_eq_Suc)
qed

lemma mac_blocks_length: "block_cipher cipher \<Longrightarrow> mac_blocks cipher t xs = Inr u \<Longrightarrow> length t = 16 \<Longrightarrow> length u = 16"
  by (induction cipher t xs rule: mac_blocks.induct) (auto simp: and_then_Inr mac_fold_def block_cipher_def)

lemma ccm_mac_length:
  assumes bc: "block_cipher cipher" and "ccm_mac cipher nonce aad p = Inr t"
  shows "length t = 16"
proof -
  have b: "length x = 16" if "cipher y = Inr x" for x y using bc that by (simp add: block_cipher_def)
  from assms(2) have "\<exists>u. length u = 16 \<and> mac_blocks cipher u p = Inr t"
    by (cases "aad = []") (auto simp: ccm_mac_def and_then_Inr mac_fold_def dest: b mac_blocks_length[OF bc])
  then show ?thesis using mac_blocks_length[OF bc] by blast
qed

lemma ccm_star_inverse:
  assumes "block_cipher cipher"
  shows "ccm_star_decrypt_with cipher nonce aad ct = Inr (Some pt) \<longleftrightarrow>
    ccm_star_encrypt_with cipher nonce aad pt = Inr (Some ct)"
proof
  let ?n = "length ct - CCM_STAR_MIC_LEN"
  assume "ccm_star_decrypt_with cipher nonce aad ct = Inr (Some pt)"
  then obtain tag s0 where d: "CCM_STAR_MIC_LEN \<le> length ct" "length aad \<le> CCM_STAR_MAX_AAD_LEN"
    "?n \<le> CCM_STAR_MAX_PLAINTEXT_LEN" "ccm_ctr_xor cipher nonce (take ?n ct) = Inr pt"
    "ccm_mac cipher nonce aad pt = Inr tag" "cipher (build_ai nonce 0) = Inr s0"
    "constant_time_mic_eq (ccm_mic tag s0) (take CCM_STAR_MIC_LEN (drop ?n ct))"
    by (auto simp: ccm_star_decrypt_with_def and_then_Inr Let_def extend_from_slice_def not_less
        split: if_splits)
  note c = ctr_involutive[OF assms d(4)]
  have l: "length tag = 16" "length s0 = 16" using ccm_mac_length[OF assms d(5)] assms d(6) by (auto simp: block_cipher_def)
  have m: "length (ccm_mic tag s0) = CCM_STAR_MIC_LEN" using l by (simp add: ccm_mic_def CCM_STAR_MIC_LEN_def)
  moreover have "length (take CCM_STAR_MIC_LEN (drop ?n ct)) = CCM_STAR_MIC_LEN" using d(1) by simp
  ultimately have "ccm_mic tag s0 = take CCM_STAR_MIC_LEN (drop ?n ct)"
    using d(7) constant_time_mic_eq_iff by blast
  then have "take ?n ct @ ccm_mic tag s0 = ct" using d(1) by simp
  moreover have "length pt \<le> CCM_STAR_MAX_PLAINTEXT_LEN" using c(2) d(1,3) by simp
  ultimately show "ccm_star_encrypt_with cipher nonce aad pt = Inr (Some ct)"
    using d c m by (auto simp: ccm_star_encrypt_with_def and_then_Inr extend_from_slice_def not_less
        CCM_STAR_BUFFER_CAPACITY_def)
next
  assume "ccm_star_encrypt_with cipher nonce aad pt = Inr (Some ct)"
  then obtain tag s0 c where e: "length pt \<le> CCM_STAR_MAX_PLAINTEXT_LEN" "length aad \<le> CCM_STAR_MAX_AAD_LEN"
    "ccm_mac cipher nonce aad pt = Inr tag" "cipher (build_ai nonce 0) = Inr s0"
    "ccm_ctr_xor cipher nonce pt = Inr c" "ct = c @ ccm_mic tag s0"
    by (auto simp: ccm_star_encrypt_with_def and_then_Inr extend_from_slice_def not_less split: if_splits)
  note c = ctr_involutive[OF assms e(5)]
  have l: "length tag = 16" "length s0 = 16" using ccm_mac_length[OF assms e(3)] assms e(4) by (auto simp: block_cipher_def)
  have m: "length (ccm_mic tag s0) = CCM_STAR_MIC_LEN" using l by (simp add: ccm_mic_def CCM_STAR_MIC_LEN_def)
  then have "length ct - CCM_STAR_MIC_LEN = length pt" using e(6) c(2) by simp
  then show "ccm_star_decrypt_with cipher nonce aad ct = Inr (Some pt)"
    using e c m constant_time_mic_eq_iff[OF m m]
    by (simp add: ccm_star_decrypt_with_def Let_def extend_from_slice_def CCM_STAR_BUFFER_CAPACITY_def)
qed

text \<open>A cipher that never fails, such as the software one, encrypts every input in range.\<close>

definition total_cipher :: "'e cipher \<Rightarrow> bool" where
  "total_cipher cipher \<longleftrightarrow> (\<forall>b. \<exists>x. cipher b = Inr x)"

lemma mac_blocks_total: "total_cipher cipher \<Longrightarrow> \<exists>t'. mac_blocks cipher t xs = Inr t'"
proof (induction cipher t xs rule: mac_blocks.induct)
  case (2 cipher t v vs)
  from 2(2) obtain u where u: "mac_fold cipher t (block_of (take 16 (v # vs))) = Inr u"
    unfolding mac_fold_def total_cipher_def by blast
  from 2(1)[OF 2(2)] obtain w where "mac_blocks cipher u (drop 16 (v # vs)) = Inr w" by blast
  with u show ?case unfolding mac_blocks.simps by simp
qed simp

lemma ctr_loop_total: "total_cipher cipher \<Longrightarrow> \<exists>ys. ctr_loop cipher nonce n xs = Inr ys"
proof (induction cipher nonce n xs rule: ctr_loop.induct)
  case (2 cipher nonce n v vs)
  from 2(2) obtain u where u: "cipher (build_ai nonce n) = Inr u" unfolding total_cipher_def by blast
  from 2(1)[OF 2(2)] obtain w where "ctr_loop cipher nonce (n + 1) (drop 16 (v # vs)) = Inr w" by blast
  with u show ?case unfolding ctr_loop.simps by simp
qed simp

lemma ccm_mac_total:
  assumes t: "total_cipher cipher"
  shows "\<exists>tag. ccm_mac cipher nonce aad p = Inr tag"
proof -
  obtain t0 where 0: "cipher ([if aad = [] then CCM_B0_FLAGS_NO_ADATA else CCM_B0_FLAGS_ADATA] @ nonce @
      be16 (of_nat (length p))) = Inr t0" using t unfolding total_cipher_def by blast
  obtain t1 where 1: "mac_fold cipher t0 (block_of (be16 (of_nat (length aad)) @ take 14 aad)) = Inr t1"
    using t unfolding mac_fold_def total_cipher_def by blast
  obtain t2 where 2: "mac_blocks cipher t1 (drop 14 aad) = Inr t2" using mac_blocks_total[OF t] by blast
  from 0 1 2 mac_blocks_total[OF t] show ?thesis by (simp add: ccm_mac_def)
qed

lemma ccm_star_encrypt_total:
  assumes t: "total_cipher cipher" "block_cipher cipher"
    and l: "length p \<le> CCM_STAR_MAX_PLAINTEXT_LEN" "length aad \<le> CCM_STAR_MAX_AAD_LEN"
  shows "\<exists>ct. ccm_star_encrypt_with cipher nonce aad p = Inr (Some ct) \<and> length ct = length p + CCM_STAR_MIC_LEN"
proof -
  from ccm_mac_total[OF t(1)] obtain tag where tag: "ccm_mac cipher nonce aad p = Inr tag" by blast
  from t(1) obtain s0 where s0: "cipher (build_ai nonce 0) = Inr s0" unfolding total_cipher_def by blast
  from ctr_loop_total[OF t(1)] obtain c where c: "ccm_ctr_xor cipher nonce p = Inr c" unfolding ccm_ctr_xor_def by blast
  have "length tag = 16" "length s0 = 16" using ccm_mac_length[OF t(2) tag] t(2) s0 by (auto simp: block_cipher_def)
  then have "length (ccm_mic tag s0) = CCM_STAR_MIC_LEN" by (simp add: ccm_mic_def CCM_STAR_MIC_LEN_def)
  with l tag s0 c ctr_involutive(2)[OF t(2) c] show ?thesis
    by (simp add: ccm_star_encrypt_with_def extend_from_slice_def CCM_STAR_BUFFER_CAPACITY_def not_less[symmetric])
qed

text \<open>
  C14: CCM* authenticates exactly what it encrypts.  Whatever the block cipher, the nonce and the associated data,
  decryption accepts a byte string and returns a plaintext if and only if that byte string is the encryption
  of that plaintext under the same nonce and associated data: decryption inverts encryption, and no other byte string,
  not one with a single bit of ciphertext or MIC changed, decrypts to the same plaintext.
\<close>

theorem ccm_star_decrypt_iff_encrypt:
  assumes "block_cipher cipher"
  shows "ccm_star_decrypt_with cipher nonce aad ct = Inr (Some pt) \<longleftrightarrow>
    ccm_star_encrypt_with cipher nonce aad pt = Inr (Some ct)"
  by (rule ccm_star_inverse[OF assms])

theorem ccm_star_decrypt_iff_encrypt_witness:
  "ccm_star_decrypt_with (\<lambda>_. Inr (replicate 16 5) :: unit + u8 list) (replicate 13 7) [9] [4, 7, 6, 0, 0, 0, 0]
     = Inr (Some [1, 2, 3])"
proof -
  have "block_cipher (\<lambda>_. Inr (replicate 16 5) :: unit + u8 list)" by (simp add: block_cipher_def)
  moreover have "ccm_star_encrypt_with (\<lambda>_. Inr (replicate 16 5) :: unit + u8 list) (replicate 13 7) [9] [1, 2, 3]
      = Inr (Some [4, 7, 6, 0, 0, 0, 0])" by code_simp
  ultimately show ?thesis using ccm_star_decrypt_iff_encrypt by blast
qed

section \<open>Padding\<close>

text \<open>The Merkle-Damgard view of the hash: padded message, one compression per block.\<close>

definition mmo_pad :: "u8 list \<Rightarrow> u8 list" where
  "mmo_pad data = data @ [0x80] @ replicate ((29 - length data mod 16) mod 16) 0 @ be16 (of_nat (length data * 8))"

function (sequential) md_hash :: "'e provider \<Rightarrow> AesKey \<Rightarrow> u8 list \<Rightarrow> AesMmoError + AesKey" where
  "md_hash provider hash [] = Inr hash"
| "md_hash provider hash data =
     and_then (aes_mmo_compress provider hash (take 16 data)) (\<lambda>hash. md_hash provider hash (drop 16 data))"
  by pat_completeness auto
termination by (relation "measure (\<lambda>(_, _, data). length data)") auto

lemma md_hash_cons: "data \<noteq> [] \<Longrightarrow> md_hash provider hash data =
    and_then (aes_mmo_compress provider hash (take 16 data)) (\<lambda>hash. md_hash provider hash (drop 16 data))"
  by (cases data) (simp_all only: md_hash.simps list.distinct simp_thms)

lemma mmo_chunks_rest: "mmo_chunks provider hash data = Inr (h, r) \<Longrightarrow> length r = length data mod 16"
proof (induction data arbitrary: hash rule: length_induct)
  case (1 data)
  show ?case
  proof (cases "length data < 16")
    case True
    with 1(2) show ?thesis by (simp add: mmo_chunks.simps)
  next
    case False
    with 1(2) obtain h' where "mmo_chunks provider h' (drop 16 data) = Inr (h, r)"
      by (subst (asm) mmo_chunks.simps) (auto simp: and_then_Inr)
    with 1(1) False have "length r = length (drop 16 data) mod 16" by force
    with False show ?thesis by (simp add: le_mod_geq not_less)
  qed
qed

lemma and_then_assoc: "and_then (and_then r f) g = and_then r (\<lambda>x. and_then (f x) g)"
  by (cases r) auto

lemma md_hash_chunks:
  "md_hash provider hash (data @ rest) =
     and_then (mmo_chunks provider hash data) (\<lambda>(h, r). md_hash provider h (r @ rest))"
proof (induction data arbitrary: hash rule: length_induct)
  case (1 data)
  show ?case
  proof (cases "length data < 16")
    case True
    then show ?thesis by (simp add: mmo_chunks.simps)
  next
    case False
    then have "data @ rest \<noteq> []" "take 16 (data @ rest) = take 16 data" "drop 16 (data @ rest) = drop 16 data @ rest"
      by auto
    moreover have "md_hash provider h (drop 16 data @ rest) =
        and_then (mmo_chunks provider h (drop 16 data)) (\<lambda>(h, r). md_hash provider h (r @ rest))" for h
      using 1 False by simp
    ultimately show ?thesis using False
      by (subst md_hash_cons, simp, subst mmo_chunks.simps) (simp add: and_then_assoc)
  qed
qed

lemma final_block:
  assumes "length r < 16"
  shows "(block_of r)[length r := 0x80] = r @ [0x80] @ replicate (15 - length r) 0"
proof -
  obtain k where "16 - length r = Suc k" "15 - length r = k"
    using assms by (cases "16 - length r") auto
  then show ?thesis by (simp add: block_of_def list_update_append)
qed

lemma md_hash_block: "length b = 16 \<Longrightarrow> md_hash provider h (b @ rest) =
    and_then (aes_mmo_compress provider h b) (\<lambda>h. md_hash provider h rest)"
  by (subst md_hash_cons) auto

lemma md_hash_one: "length b = 16 \<Longrightarrow> md_hash provider h b = aes_mmo_compress provider h b"
  using md_hash_block[of b provider h "[]"] by (cases "aes_mmo_compress provider h b") simp_all

lemma length_be16 [simp]: "length (be16 w) = 2"
  by (simp add: be16_def)

lemma pad_zeros:
  "m \<le> 13 \<Longrightarrow> (29 - m) mod 16 = (13 - m :: nat)" "13 < m \<Longrightarrow> m < 16 \<Longrightarrow> (29 - m) mod 16 = (29 - m :: nat)"
proof -
  assume "m \<le> 13"
  then have "29 - m = 16 + (13 - m)" by simp
  then have "(29 - m) mod 16 = (13 - m) mod 16" by (metis mod_add_self1)
  then show "(29 - m) mod 16 = 13 - m" using mod_less[of "13 - m" 16] by simp
qed simp

lemma mmo_final:
  assumes r: "length r = length data mod 16"
  defines "l \<equiv> be16 (of_nat (length data * 8))"
  shows "md_hash provider h (r @ [0x80] @ replicate ((29 - length data mod 16) mod 16) 0 @ l) =
      (let final_block = (block_of r)[length r := 0x80]
       in and_then (if length r > 13 then and_then (aes_mmo_compress provider h final_block) (\<lambda>hash. Inr (hash, replicate 16 0))
                    else Inr (h, final_block)) (\<lambda>(hash, final_block).
          aes_mmo_compress provider hash (take 14 final_block @ l)))"
proof (cases "length r > 13")
  case False
  have "length (r @ [0x80] @ replicate (13 - length r) 0 @ l) = 16" using False by (simp add: l_def)
  moreover have "take 14 (r @ [0x80] @ replicate (15 - length r) 0) = r @ [0x80] @ replicate (13 - length r) 0"
    using False by (cases "14 - length r") (auto simp: min_def)
  moreover have "(29 - length data mod 16) mod 16 = 13 - length r" using False r pad_zeros(1)[of "length r"] by simp
  moreover have "length r < 16" using False by simp
  ultimately show ?thesis using False unfolding Let_def final_block[OF \<open>length r < 16\<close>] by (simp add: md_hash_one)
next
  case True
  have r16: "length r < 16" using r by simp
  have "29 - length r = (15 - length r) + 14" using r16 by simp
  then have "replicate (29 - length r) (0 :: u8) = replicate (15 - length r) 0 @ replicate 14 0"
    by (simp only: replicate_add)
  then have z: "r @ [0x80] @ replicate ((29 - length data mod 16) mod 16) 0 @ l =
      (r @ [0x80] @ replicate (15 - length r) 0) @ (replicate 14 0 @ l)"
    using r pad_zeros(2)[of "length r"] True r16 by simp
  have b1: "length (r @ [0x80] @ replicate (15 - length r) 0) = 16" using r16 by simp
  have b2: "length (replicate 14 0 @ l) = 16" by (simp add: l_def)
  have "md_hash provider h (r @ [0x80] @ replicate ((29 - length data mod 16) mod 16) 0 @ l) =
      and_then (aes_mmo_compress provider h (r @ [0x80] @ replicate (15 - length r) 0))
        (\<lambda>h. aes_mmo_compress provider h (replicate 14 0 @ l))"
    unfolding z md_hash_block[OF b1] md_hash_one[OF b2] ..
  with True r16 show ?thesis by (simp add: final_block Let_def and_then_assoc)
qed

lemma mmo_pad_blocks: "length (mmo_pad data) mod 16 = 0"
proof (cases "length data mod 16 \<le> 13")
  case True
  define m k where "m = length data mod 16" and "k = length data div 16 * 16"
  have "m + k = length data" "m \<le> 13" using True by (simp_all only: m_def k_def mod_div_mult_eq)
  then have "length (mmo_pad data) = 16 + k"
    unfolding mmo_pad_def m_def[symmetric] by (simp add: pad_zeros(1))
  then have "length (mmo_pad data) = 16 + length data div 16 * 16" by (simp only: k_def)
  then show ?thesis by (metis mod_add_self1 mod_mult_self2_is_0)
next
  case False
  define m k where "m = length data mod 16" and "k = length data div 16 * 16"
  have "m + k = length data" "13 < m" "m < 16" using False by (simp_all add: m_def k_def)
  then have "length (mmo_pad data) = 16 * 2 + k"
    unfolding mmo_pad_def m_def[symmetric] by (simp add: pad_zeros(2))
  then have "length (mmo_pad data) = 16 * 2 + length data div 16 * 16" by (simp only: k_def)
  then show ?thesis by (metis mod_mult_self1_is_0 mod_mult_self3 mult.commute add.commute)
qed

lemma be16_inject: "be16 v = be16 w \<Longrightarrow> v = w"
proof (rule bit_word_eqI)
  fix n :: nat
  assume b: "be16 v = be16 w" and n: "n < LENGTH(16)"
  then have 1: "ucast v = (ucast w :: u8)" and 2: "ucast (drop_bit 8 v) = (ucast (drop_bit 8 w) :: u8)"
    by (simp_all add: be16_def)
  show "bit v n = bit w n"
  proof (cases "n < 8")
    case True
    with 1 have "bit (ucast v :: u8) n = bit (ucast w :: u8) n" by simp
    with True show ?thesis by (simp add: bit_simps)
  next
    case False
    with 2 have "bit (ucast (drop_bit 8 v) :: u8) (n - 8) = bit (ucast (drop_bit 8 w) :: u8) (n - 8)" by simp
    moreover have "n - 8 < 8" using n by simp
    ultimately show ?thesis using False by (simp add: bit_simps)
  qed
qed

lemma mmo_pad_inj: "inj_on mmo_pad {d. length d < 8192}"
proof (rule inj_onI)
  fix x y
  assume "x \<in> {d. length d < 8192}" "y \<in> {d. length d < 8192}" and eq: "mmo_pad x = mmo_pad y"
  then have l: "length x * 8 < 2 ^ 16" "length y * 8 < 2 ^ 16" by simp_all
  have "be16 (of_nat (length x * 8)) = be16 (of_nat (length y * 8))"
    using eq unfolding mmo_pad_def append.assoc[symmetric] by (subst (asm) append_eq_append_conv) simp_all
  then have "(of_nat (length x * 8) :: u16) = of_nat (length y * 8)" by (rule be16_inject)
  then have "unat (of_nat (length x * 8) :: u16) = unat (of_nat (length y * 8) :: u16)" by (rule arg_cong)
  with l have "length x * 8 = length y * 8" unfolding unat_of_nat by simp
  then have "length x = length y" by simp
  with eq show "x = y" by (simp add: mmo_pad_def)
qed

text \<open>
  C33: the AES-MMO hash is the Merkle-Damgard construction of its specification: for every block cipher, inputs of
  less than 8192 bytes hash to the chained compression of the padded message (the
  message, \<open>0x80\<close>, zeros and the 16-bit bit length, in whole blocks, so that different messages are
  padded differently), in one or two final blocks alike, and a longer input is refused.
\<close>

theorem aes_mmo_hash_is_md:
  "(if length data < 8192 then aes_mmo_hash_with provider data = md_hash provider (replicate 16 0) (mmo_pad data)
    else aes_mmo_hash_with provider data = Inl InputTooLong) \<and>
   length (mmo_pad data) mod 16 = 0 \<and> inj_on mmo_pad {d. length d < 8192}"
proof -
  have "aes_mmo_hash_with provider data = md_hash provider (replicate 16 0) (mmo_pad data)" if "length data < 8192"
  proof (cases "mmo_chunks provider (replicate 16 0) data")
    case (Inr p)
    obtain h r where p: "p = (h, r)" by force
    note f = mmo_final[OF mmo_chunks_rest[OF Inr[unfolded p]], of provider h]
    have "md_hash provider (replicate 16 0) (mmo_pad data) =
        md_hash provider h (r @ [0x80] @ replicate ((29 - length data mod 16) mod 16) 0 @ be16 (of_nat (length data * 8)))"
      unfolding mmo_pad_def by (subst md_hash_chunks) (simp add: Inr p)
    with that show ?thesis unfolding f aes_mmo_hash_with_def by (simp add: Inr p Let_def)
  next
    case (Inl e)
    have "md_hash provider (replicate 16 0) (mmo_pad data) = Inl e"
      unfolding mmo_pad_def by (subst md_hash_chunks) (simp add: Inl)
    with that Inl show ?thesis by (simp add: aes_mmo_hash_with_def Let_def)
  qed
  moreover have "aes_mmo_hash_with provider data = Inl InputTooLong" if "\<not> length data < 8192"
    using that by (simp add: aes_mmo_hash_with_def)
  ultimately show ?thesis using mmo_pad_blocks mmo_pad_inj by simp
qed

section \<open>Install codes\<close>

lemma crc_shift_bit15: "bit (crc_shift x) 15 = bit x 0"
  using bit_imp_le_length[of x 16]
  by (auto simp: crc_shift.simps bit_simps and_one_eq odd_iff_mod_2_eq_one bit_0)

lemma word_drop_bit_inject:
  fixes x y :: "'a::len word"
  assumes "drop_bit 1 x = drop_bit 1 y" "bit x 0 = bit y 0"
  shows "x = y"
proof (rule bit_eqI)
  fix n
  show "bit x n = bit y n"
  proof (cases n)
    case (Suc m)
    have "bit (drop_bit 1 x) m = bit (drop_bit 1 y) m" using assms(1) by simp
    with Suc show ?thesis by (simp add: bit_drop_bit_eq)
  qed (use assms(2) in simp)
qed

lemma xor_left_inject: "a XOR b = a XOR c \<Longrightarrow> b = c" for a b c :: "'a::len word"
  by (metis xor.assoc xor.left_neutral xor_self_eq)

lemma xor_right_inject: "b XOR a = c XOR a \<Longrightarrow> b = c" for a b c :: "'a::len word"
  unfolding xor.commute[of _ a] by (rule xor_left_inject)

lemma crc_shift_inject: "crc_shift x = crc_shift y \<Longrightarrow> x = y"
proof -
  assume eq: "crc_shift x = crc_shift y"
  then have b: "bit x 0 = bit y 0" using crc_shift_bit15[of x] crc_shift_bit15[of y] by simp
  then have "(x AND 1 \<noteq> 0) = (y AND 1 \<noteq> 0)" by (simp add: and_one_eq odd_iff_mod_2_eq_one bit_0)
  with eq have "drop_bit 1 x = drop_bit 1 y"
    unfolding crc_shift.simps using xor_right_inject[of "drop_bit 1 x" "0x8408" "drop_bit 1 y"]
    by (cases "x AND 1 = 0"; cases "y AND 1 = 0") auto
  then show "x = y" using b by (rule word_drop_bit_inject)
qed

lemma crc_shifts_inject: "(crc_shift ^^ n) x = (crc_shift ^^ n) y \<Longrightarrow> x = y"
  by (induction n arbitrary: x y) (auto dest: crc_shift_inject)

lemma crc_byte_inject: "crc_byte b x = crc_byte b y \<Longrightarrow> x = y" "crc_byte b x = crc_byte c x \<Longrightarrow> b = c"
proof -
  assume "crc_byte b x = crc_byte b y"
  from crc_shifts_inject[OF this[unfolded crc_byte_def]] show "x = y"
    by (metis xor.commute xor_left_inject)
next
  assume "crc_byte b x = crc_byte c x"
  from xor_left_inject[OF crc_shifts_inject[OF this[unfolded crc_byte_def]]]
  have "unat (ucast b :: u16) = unat (ucast c :: u16)" by simp
  then show "b = c" by (simp add: word_unat_eq_iff)
qed

lemma crc_fold_inject: "fold crc_byte data x = fold crc_byte data y \<Longrightarrow> x = y"
  by (induction data arbitrary: x y) (auto dest: crc_byte_inject(1))

lemma crc_detects_byte:
  assumes "a \<noteq> b"
  shows "install_code_crc (xs @ a # ys) \<noteq> install_code_crc (xs @ b # ys)"
proof
  assume "install_code_crc (xs @ a # ys) = install_code_crc (xs @ b # ys)"
  then have "fold crc_byte (xs @ a # ys) 0xFFFF = fold crc_byte (xs @ b # ys) 0xFFFF"
    unfolding install_code_crc_def by (metis bit.double_compl)
  then have "crc_byte a (fold crc_byte xs 0xFFFF) = crc_byte b (fold crc_byte xs 0xFFFF)"
    by (auto dest: crc_fold_inject)
  with assms crc_byte_inject(2) show False by blast
qed

lemma derive_install_code:
  assumes "length data \<in> {6, 8, 12, 16}" "length crc = 2"
  shows "derive_install_code_key_with provider (data @ crc) =
      (if crc = u16_to_le (install_code_crc data)
       then map_err (\<lambda>_. InstallCipherFailure) (aes_mmo_hash_with provider (data @ crc)) else Inl InvalidCrc)"
proof -
  from assms(2) obtain lo hi where c: "crc = [lo, hi]" by (auto simp: numeral_eq_Suc length_Suc_conv)
  have l: "length (data @ crc) \<in> {8, 10, 14, 18}" "length (data @ crc) - 2 = length data" using assms by auto
  have "(install_code_crc data \<noteq> u16_from_le lo hi) = (crc \<noteq> u16_to_le (install_code_crc data))"
    unfolding c using u16_to_le_from_le[of lo hi] u16_le_roundtrip[of "install_code_crc data"]
    by (metis nth_Cons_0 nth_Cons_Suc One_nat_def)
  with l show ?thesis
    unfolding derive_install_code_key_with_def l(2) by (simp add: c nth_append Let_def)
qed

lemma install_code_parts:
  assumes "length code \<in> {8, 10, 14, 18}"
  obtains data crc where "code = data @ crc" "length data \<in> {6, 8, 12, 16}" "length crc = 2"
  by (rule that[of "take (length code - 2) code" "drop (length code - 2) code"]) (use assms in auto)

lemma derive_invalid_length: "derive_install_code_key_with provider code = Inl InvalidLength \<longleftrightarrow> length code \<notin> {8, 10, 14, 18}"
proof (cases "length code \<in> {8, 10, 14, 18}")
  case True
  then show ?thesis
    by (cases "aes_mmo_hash_with provider code") (simp_all add: derive_install_code_key_with_def Let_def)
qed (simp add: derive_install_code_key_with_def)

lemma install_code_byte_error:
  assumes "length data \<in> {6, 8, 12, 16}" "length crc = 2" "crc = u16_to_le (install_code_crc data)"
    and s: "data @ crc = xs @ a # ys" "a \<noteq> b"
  shows "derive_install_code_key_with provider (xs @ b # ys) = Inl InvalidCrc"
proof (cases "length xs < length data")
  case True
  define ds where "ds = take (length data - Suc (length xs)) ys"
  have "take (length data) (data @ crc) = take (length data) (xs @ a # ys)"
    "drop (length data) (data @ crc) = drop (length data) (xs @ a # ys)" using s(1) by simp_all
  with True have d: "data = xs @ a # ds" "ys = ds @ crc"
    by (simp_all add: ds_def take_Cons' drop_Cons' append_eq_conv_conj)
  have "crc \<noteq> u16_to_le (install_code_crc (xs @ b # ds))"
    using crc_detects_byte[OF s(2)] assms(3) d(1) by (metis u16_le_roundtrip)
  moreover have "length (xs @ b # ds) \<in> {6, 8, 12, 16}" using assms(1) d(1) by simp
  ultimately show ?thesis using derive_install_code[of "xs @ b # ds" crc] assms(2) d(2) by simp
next
  case False
  then obtain cs where c: "xs = data @ cs" "crc = cs @ a # ys"
    using s(1) by (auto simp: append_eq_append_conv2 append_eq_Cons_conv)
  have "length (cs @ b # ys) = 2" "cs @ b # ys \<noteq> crc" using assms(2) c(2) s(2) by auto
  with derive_install_code[OF assms(1), of "cs @ b # ys"] assms(3) show ?thesis by (simp add: c(1))
qed

text \<open>
  C34: install codes.  Of all byte strings exactly those are accepted that consist of 6, 8, 12 or 16 data bytes and their
  CRC-16/X-25 in little-endian order, and the key is then the hash of the whole code; every other length, and no code of a
  right length, is reported as a length error; and every single-byte error in an accepted code, whether in the data or in the CRC, is
  reported as a CRC error.
\<close>

theorem install_code_check:
  "(derive_install_code_key_with provider code = Inr key \<longleftrightarrow>
      (\<exists>data. length data \<in> {6, 8, 12, 16} \<and> code = data @ u16_to_le (install_code_crc data)) \<and> aes_mmo_hash_with provider code = Inr key) \<and>
   (derive_install_code_key_with provider code = Inl InvalidLength \<longleftrightarrow> length code \<notin> {8, 10, 14, 18}) \<and>
   (\<forall>xs a b ys. derive_install_code_key_with provider code = Inr key \<longrightarrow> code = xs @ a # ys \<longrightarrow> a \<noteq> b \<longrightarrow>
      derive_install_code_key_with provider (xs @ b # ys) = Inl InvalidCrc)"
proof -
  have acc: "derive_install_code_key_with provider code = Inr key \<longleftrightarrow>
      (\<exists>data. length data \<in> {6, 8, 12, 16} \<and> code = data @ u16_to_le (install_code_crc data)) \<and> aes_mmo_hash_with provider code = Inr key"
    (is "?L \<longleftrightarrow> ?R")
  proof
    assume L: ?L
    then have "length code \<in> {8, 10, 14, 18}" using derive_invalid_length[of provider code] by auto
    then obtain data crc where d: "code = data @ crc" "length data \<in> {6, 8, 12, 16}" "length crc = 2" by (rule install_code_parts)
    have h: "(if crc = u16_to_le (install_code_crc data)
       then map_err (\<lambda>_. InstallCipherFailure) (aes_mmo_hash_with provider code) else Inl InvalidCrc) = Inr key"
      using L derive_install_code[OF d(2,3), of provider] unfolding d(1) by simp
    have c: "crc = u16_to_le (install_code_crc data)"
    proof (rule ccontr)
      assume "crc \<noteq> u16_to_le (install_code_crc data)"
      with h show False by simp
    qed
    have "aes_mmo_hash_with provider code = Inr key" using h unfolding c by (cases "aes_mmo_hash_with provider code") simp_all
    with d(1,2) c show ?R by blast
  next
    assume ?R
    then obtain data where d: "length data \<in> {6, 8, 12, 16}" "code = data @ u16_to_le (install_code_crc data)"
      "aes_mmo_hash_with provider code = Inr key" by blast
    then show ?L using derive_install_code[OF d(1), of "u16_to_le (install_code_crc data)" provider] by (simp add: u16_to_le_def)
  qed
  moreover have "derive_install_code_key_with provider (xs @ b # ys) = Inl InvalidCrc"
    if "derive_install_code_key_with provider code = Inr key" "code = xs @ a # ys" "a \<noteq> b" for xs a b ys
  proof -
    from acc that(1) obtain data where d: "length data \<in> {6, 8, 12, 16}" "code = data @ u16_to_le (install_code_crc data)" by blast
    show ?thesis by (rule install_code_byte_error[OF d(1) _ refl _ that(3)]) (use d(2) that(2) in \<open>simp_all add: u16_to_le_def\<close>)
  qed
  ultimately show ?thesis using derive_invalid_length by blast
qed

lemma funpow_8: "(f ^^ 8) x = f (f (f (f (f (f (f (f x)))))))"
  by (simp add: eval_nat_numeral)

theorem install_code_check_witness:
  "\<exists>key. aes_mmo_hash_with (\<lambda>k b. Inr b :: unit + u8 list) [0x83, 0xFE, 0xD3, 0x40, 0x7A, 0x93, 0x2B, 0x70] = Inr key \<and>
     derive_install_code_key_with (\<lambda>k b. Inr b :: unit + u8 list) [0x83, 0xFE, 0xD3, 0x40, 0x7A, 0x93, 0x2B, 0x70] = Inr key \<and>
     derive_install_code_key_with (\<lambda>k b. Inr b :: unit + u8 list) [0x83, 0xFE, 0xD3, 0x41, 0x7A, 0x93, 0x2B, 0x70] = Inl InvalidCrc"
proof -
  let ?p = "\<lambda>k b. Inr b :: unit + u8 list" and ?d = "[0x83, 0xFE, 0xD3, 0x40, 0x7A, 0x93] :: u8 list"
  let ?code = "[0x83, 0xFE, 0xD3, 0x40, 0x7A, 0x93, 0x2B, 0x70] :: u8 list"
  have "install_code_crc ?d = 0x702B"
    by (simp add: install_code_crc_def crc_byte_def funpow_8 crc_shift.simps)
  then have c: "length ?d \<in> {6, 8, 12, 16} \<and> ?code = ?d @ u16_to_le (install_code_crc ?d)" by (simp add: u16_to_le_def)
  have "case aes_mmo_hash_with ?p ?code of Inl _ \<Rightarrow> False | Inr _ \<Rightarrow> True" by code_simp
  then obtain key where h: "aes_mmo_hash_with ?p ?code = Inr key" by (auto split: sum.splits)
  note t = install_code_check[of ?p ?code key]
  have k: "derive_install_code_key_with ?p ?code = Inr key" using t c h by blast
  have "?code = [0x83, 0xFE, 0xD3] @ 0x40 # [0x7A, 0x93, 0x2B, 0x70]" "(0x40 :: u8) \<noteq> 0x41" by simp_all
  then have "derive_install_code_key_with ?p ([0x83, 0xFE, 0xD3] @ 0x41 # [0x7A, 0x93, 0x2B, 0x70]) = Inl InvalidCrc" using t k by blast
  with h k show ?thesis by simp
qed

end
