(* ===== verification/Nwk_Security.thy ===== *)
theory Nwk_Security
  imports Neighbor_Table Ccm_Star
begin

text \<open>
  \<^verbatim>\<open>zigbee-nwk/src/security.rs\<close>: the auxiliary header, the two network-key slots with their
  staging rules, and the table of incoming frame-counter floors that rejects replays in the router build
  (the end-device build's table is in \<open>Leaf_Replay\<close>); with the admission glue of
  \<^verbatim>\<open>zigbee-nwk/src/nlde.rs\<close> that names the protected sources from the neighbor table.  The CCM*
  transformation itself is in \<open>Ccm_Star\<close>.
\<close>

section \<open>Auxiliary header\<close>

definition NWK_AUX_HEADER_LEN :: nat where "NWK_AUX_HEADER_LEN = 14"

record NwkSecurityHeader =
  sh_security_control :: u8
  sh_frame_counter :: u32
  sh_source_address :: IeeeAddress
  sh_key_seq_number :: u8

definition ZIGBEE_DEFAULT :: u8 where
  "ZIGBEE_DEFAULT = 0x05 OR push_bit 3 0x01 OR push_bit 5 1"

definition uses_network_key_with_extended_nonce :: "NwkSecurityHeader \<Rightarrow> bool" where
  "uses_network_key_with_extended_nonce h \<longleftrightarrow>
     sh_security_control h AND NOT 0x07 = ZIGBEE_DEFAULT AND NOT 0x07"

definition NwkSecurityHeader_parse :: "u8 list \<Rightarrow> (NwkSecurityHeader \<times> nat) option" where
  "NwkSecurityHeader_parse data =
     (if length data < NWK_AUX_HEADER_LEN then None
      else Some (\<lparr>sh_security_control = data ! 0,
        sh_frame_counter = u32_from_le (data ! 1) (data ! 2) (data ! 3) (data ! 4),
        sh_source_address = take 8 (drop 5 data), sh_key_seq_number = data ! 13\<rparr>, NWK_AUX_HEADER_LEN))"

definition NwkSecurityHeader_bytes :: "NwkSecurityHeader \<Rightarrow> u8 list" where
  "NwkSecurityHeader_bytes h = [sh_security_control h] @ u32_to_le (sh_frame_counter h) @
     sh_source_address h @ [sh_key_seq_number h]"

definition NwkSecurityHeader_serialize :: "NwkSecurityHeader \<Rightarrow> u8 list \<Rightarrow> (u8 list \<times> nat) option" where
  "NwkSecurityHeader_serialize h buf =
     map_option (\<lambda>(b, _). (b, NWK_AUX_HEADER_LEN)) (write_at (NwkSecurityHeader_bytes h) (buf, 0))"

definition build_nonce :: "NwkSecurityHeader \<Rightarrow> u8 list" where
  "build_nonce h = sh_source_address h @ u32_to_le (sh_frame_counter h) @
     [(sh_security_control h AND NOT 0x07) OR 0x05]"

interpretation aux_codec: wire_codec NwkSecurityHeader_bytes
  "\<lambda>d. map_option fst (NwkSecurityHeader_parse d)" "\<lambda>h. ieee_ok (sh_source_address h)"
proof
  fix x :: NwkSecurityHeader and rest
  assume "ieee_ok (sh_source_address x)"
  then obtain a b c d e f g h where "sh_source_address x = [a, b, c, d, e, f, g, h]"
    by (auto simp: ieee_ok_def numeral_eq_Suc length_Suc_conv)
  then show "map_option fst (NwkSecurityHeader_parse (NwkSecurityHeader_bytes x @ rest)) = Some x"
    by (cases x) (simp add: NwkSecurityHeader_parse_def NwkSecurityHeader_bytes_def u32_to_le_def
        NWK_AUX_HEADER_LEN_def)
qed

section \<open>State\<close>

definition MAX_FRAME_COUNTER_ENTRIES :: nat where "MAX_FRAME_COUNTER_ENTRIES = 64"
definition DEFAULT_REPLAY_STALE_SECS :: u16 where "DEFAULT_REPLAY_STALE_SECS = 3600"

datatype ReplayAdmission = Fresh | Replay | TableFull

record NetworkKeyEntry =
  nk_key :: AesKey
  nk_seq_number :: u8
  nk_active :: bool

record NwkReplayCounter =
  rc_source :: IeeeAddress
  rc_key_sequence :: u8
  rc_key_fingerprint :: u32
  rc_counter :: u32

definition NwkReplayCounter_from_verified :: "IeeeAddress \<Rightarrow> u8 \<Rightarrow> AesKey \<Rightarrow> u32 \<Rightarrow> NwkReplayCounter" where
  "NwkReplayCounter_from_verified source key_sequence key counter =
     \<lparr>rc_source = source, rc_key_sequence = key_sequence, rc_key_fingerprint = key_fingerprint key,
      rc_counter = counter\<rparr>"

record FrameCounterEntry =
  fc_source :: IeeeAddress
  fc_key_sequence :: u8
  fc_counter :: u32
  fc_silent_secs :: u16

text \<open>\<^verbatim>\<open>keys: [Option<NetworkKeyEntry>; 2]\<close> is the pair of its two slots.\<close>

record NwkSecurity =
  ns_key0 :: "NetworkKeyEntry option"
  ns_key1 :: "NetworkKeyEntry option"
  ns_staged :: "u8 option"
  ns_activation_pending :: bool
  ns_counters :: "FrameCounterEntry list"
  ns_sealed :: bool
  ns_stale_secs :: u16

definition NwkSecurity_new :: NwkSecurity where
  "NwkSecurity_new = \<lparr>ns_key0 = None, ns_key1 = None, ns_staged = None, ns_activation_pending = False,
     ns_counters = [], ns_sealed = False, ns_stale_secs = DEFAULT_REPLAY_STALE_SECS\<rparr>"

definition unseal_previous_key :: "NwkSecurity \<Rightarrow> NwkSecurity" where
  "unseal_previous_key s = s\<lparr>ns_sealed := False\<rparr>"

definition set_replay_stale_timeout_secs :: "NwkSecurity \<Rightarrow> u16 \<Rightarrow> NwkSecurity" where
  "set_replay_stale_timeout_secs s secs = s\<lparr>ns_stale_secs := secs\<rparr>"

definition age_replay_floors :: "NwkSecurity \<Rightarrow> u16 \<Rightarrow> NwkSecurity" where
  "age_replay_floors s elapsed_secs =
     s\<lparr>ns_counters := map (\<lambda>e. e\<lparr>fc_silent_secs := sat_add (fc_silent_secs e) elapsed_secs\<rparr>) (ns_counters s)\<rparr>"

definition clear_network_keys :: "NwkSecurity \<Rightarrow> NwkSecurity" where
  "clear_network_keys s =
     unseal_previous_key (s\<lparr>ns_key0 := None, ns_key1 := None, ns_staged := None,
       ns_activation_pending := False, ns_counters := []\<rparr>)"

section \<open>Keys\<close>

definition active_key :: "NwkSecurity \<Rightarrow> NetworkKeyEntry option" where
  "active_key s = (case ns_key0 s of Some k \<Rightarrow> if nk_active k then Some k else None | None \<Rightarrow> None)"

definition key_by_seq :: "NwkSecurity \<Rightarrow> u8 \<Rightarrow> NetworkKeyEntry option" where
  "key_by_seq s seqn =
     find (\<lambda>k. nk_seq_number k = seqn)
       ((case ns_key0 s of Some k \<Rightarrow> [k] | None \<Rightarrow> []) @ (case ns_key1 s of Some k \<Rightarrow> [k] | None \<Rightarrow> []))"

definition clear_frame_counters_for_key :: "NwkSecurity \<Rightarrow> u8 \<Rightarrow> NwkSecurity" where
  "clear_frame_counters_for_key s key_sequence =
     s\<lparr>ns_counters := filter (\<lambda>e. fc_key_sequence e \<noteq> key_sequence) (ns_counters s)\<rparr>"

definition retain_frame_counters_for_installed_keys :: "NwkSecurity \<Rightarrow> NwkSecurity" where
  "retain_frame_counters_for_installed_keys s =
     (let s = unseal_previous_key s;
          active_sequence = map_option nk_seq_number (ns_key0 s);
          alternate_sequence = map_option nk_seq_number (ns_key1 s)
      in s\<lparr>ns_counters := filter (\<lambda>e. Some (fc_key_sequence e) = active_sequence \<or>
             Some (fc_key_sequence e) = alternate_sequence) (ns_counters s)\<rparr>)"

definition clear_frame_counters_for_source :: "NwkSecurity \<Rightarrow> IeeeAddress \<Rightarrow> NwkSecurity" where
  "clear_frame_counters_for_source s source =
     s\<lparr>ns_counters := filter (\<lambda>e. fc_source e \<noteq> source) (ns_counters s)\<rparr>"

definition key_sequence_is_newer :: "u8 \<Rightarrow> u8 \<Rightarrow> bool" where
  "key_sequence_is_newer candidate active =
     (let delta = candidate - active in delta \<noteq> 0 \<and> delta < 0x80)"

text \<open>\<^verbatim>\<open>keys.swap(0, 1)\<close> followed by the two flag writes.\<close>

definition swap_keys :: "NwkSecurity \<Rightarrow> NwkSecurity" where
  "swap_keys s =
     s\<lparr>ns_key0 := map_option (\<lambda>k. k\<lparr>nk_active := True\<rparr>) (ns_key1 s),
       ns_key1 := map_option (\<lambda>k. k\<lparr>nk_active := False\<rparr>) (ns_key0 s)\<rparr>"

definition has_key :: "NetworkKeyEntry option \<Rightarrow> AesKey \<Rightarrow> u8 \<Rightarrow> bool" where
  "has_key slot key seqn = (case slot of Some k \<Rightarrow> nk_seq_number k = seqn \<and> nk_key k = key | None \<Rightarrow> False)"

definition has_seq :: "NetworkKeyEntry option \<Rightarrow> u8 \<Rightarrow> bool" where
  "has_seq slot seqn = (case slot of Some k \<Rightarrow> nk_seq_number k = seqn | None \<Rightarrow> False)"

definition install_network_key :: "NwkSecurity \<Rightarrow> AesKey \<Rightarrow> u8 \<Rightarrow> NwkSecurity" where
  "install_network_key s key seqn =
     (let s = clear_frame_counters_for_key s seqn;
          previous = map_option (\<lambda>k. k\<lparr>nk_active := False\<rparr>) (ns_key0 s)
      in retain_frame_counters_for_installed_keys
           (s\<lparr>ns_key0 := Some \<lparr>nk_key = key, nk_seq_number = seqn, nk_active = True\<rparr>,
              ns_key1 := (case previous of Some k \<Rightarrow> if nk_seq_number k \<noteq> seqn then Some k else None | None \<Rightarrow> None),
              ns_staged := None\<rparr>))"

definition set_network_key :: "NwkSecurity \<Rightarrow> AesKey \<Rightarrow> u8 \<Rightarrow> NwkSecurity" where
  "set_network_key s key seqn =
     (case ns_key0 s of
        Some k \<Rightarrow>
          if nk_seq_number k = seqn
          then let s' = s\<lparr>ns_key0 := Some (k\<lparr>nk_key := key, nk_active := True\<rparr>), ns_staged := None\<rparr>
               in if nk_key k \<noteq> key then clear_frame_counters_for_key s' seqn else s'
          else if has_key (ns_key1 s) key seqn
          then unseal_previous_key ((swap_keys s)\<lparr>ns_staged := None\<rparr>)
          else install_network_key s key seqn
      | None \<Rightarrow>
          if has_key (ns_key1 s) key seqn
          then unseal_previous_key ((swap_keys s)\<lparr>ns_staged := None\<rparr>)
          else install_network_key s key seqn)"

definition stage_network_key :: "NwkSecurity \<Rightarrow> AesKey \<Rightarrow> u8 \<Rightarrow> bool \<times> NwkSecurity" where
  "stage_network_key s key seqn =
     (case ns_key0 s of
        None \<Rightarrow> (True, set_network_key s key seqn)
      | Some active \<Rightarrow>
          if nk_seq_number active = seqn then (nk_key active = key, s)
          else let newer = key_sequence_is_newer seqn (nk_seq_number active)
               in if has_key (ns_key1 s) key seqn
                  then (True, if newer then s\<lparr>ns_staged := Some seqn\<rparr> else s)
                  else if \<not> newer then (False, s)
                  else (True, retain_frame_counters_for_installed_keys
                    ((clear_frame_counters_for_key s seqn)
                     \<lparr>ns_key1 := Some \<lparr>nk_key = key, nk_seq_number = seqn, nk_active = False\<rparr>,
                      ns_staged := Some seqn\<rparr>)))"

definition staged_key :: "NwkSecurity \<Rightarrow> NetworkKeyEntry option" where
  "staged_key s = ns_staged s \<bind> key_by_seq s"

definition secondary_key :: "NwkSecurity \<Rightarrow> NetworkKeyEntry option" where
  "secondary_key s = ns_key1 s"

definition key_fingerprint_is_live :: "NwkSecurity \<Rightarrow> u32 \<Rightarrow> bool" where
  "key_fingerprint_is_live s fp \<longleftrightarrow>
     (case ns_key0 s of Some k \<Rightarrow> key_fingerprint (nk_key k) = fp | None \<Rightarrow> False) \<or>
     (case ns_key1 s of Some k \<Rightarrow> key_fingerprint (nk_key k) = fp | None \<Rightarrow> False)"

definition replay_counter_key_is_live :: "NwkSecurity \<Rightarrow> NwkReplayCounter \<Rightarrow> bool" where
  "replay_counter_key_is_live s replay =
     (case key_by_seq s (rc_key_sequence replay) of
        Some k \<Rightarrow> key_fingerprint (nk_key k) = rc_key_fingerprint replay | None \<Rightarrow> False)"

definition restore_previous_network_key :: "NwkSecurity \<Rightarrow> AesKey \<Rightarrow> u8 \<Rightarrow> bool \<times> NwkSecurity" where
  "restore_previous_network_key s key seqn =
     (case ns_key0 s of
        None \<Rightarrow> (False, s)
      | Some active \<Rightarrow>
          if nk_seq_number active = seqn then (nk_key active = key, s)
          else (True, retain_frame_counters_for_installed_keys
            ((clear_frame_counters_for_key s seqn)
             \<lparr>ns_key1 := Some \<lparr>nk_key = key, nk_seq_number = seqn, nk_active = False\<rparr>,
              ns_staged := None\<rparr>)))"

definition activate_network_key :: "NwkSecurity \<Rightarrow> u8 \<Rightarrow> bool \<times> NwkSecurity" where
  "activate_network_key s seqn =
     (if has_seq (ns_key0 s) seqn
      then (True, s\<lparr>ns_key0 := map_option (\<lambda>k. k\<lparr>nk_active := True\<rparr>) (ns_key0 s),
                    ns_key1 := map_option (\<lambda>k. k\<lparr>nk_active := False\<rparr>) (ns_key1 s)\<rparr>)
      else if ns_staged s \<noteq> Some seqn \<or>
           \<not> (case active_key s of Some a \<Rightarrow> key_sequence_is_newer seqn (nk_seq_number a) | None \<Rightarrow> False)
      then (False, s)
      else if has_seq (ns_key1 s) seqn
      then (True, unseal_previous_key ((swap_keys s)\<lparr>ns_staged := None\<rparr>))
      else (False, s))"

definition activate_received_key :: "NwkSecurity \<Rightarrow> u8 \<Rightarrow> bool \<times> NwkSecurity" where
  "activate_received_key s seqn =
     (if ns_staged s = Some seqn then activate_network_key s seqn else (False, s))"

definition retire_previous_network_key :: "NwkSecurity \<Rightarrow> NetworkKeyEntry option \<times> NwkSecurity" where
  "retire_previous_network_key s =
     (if ns_staged s \<noteq> None then (None, s)
      else case ns_key1 s of
             None \<Rightarrow> (None, s)
           | Some retired \<Rightarrow> (Some retired, retain_frame_counters_for_installed_keys (s\<lparr>ns_key1 := None\<rparr>)))"

section \<open>Replay floors, router build\<close>

abbreviation fc_for :: "IeeeAddress \<Rightarrow> u8 \<Rightarrow> FrameCounterEntry \<Rightarrow> bool" where
  "fc_for source key_sequence e \<equiv> fc_source e = source \<and> fc_key_sequence e = key_sequence"

definition reclaimable_key_sequence :: "NwkSecurity \<Rightarrow> u8 \<Rightarrow> u8 option option" where
  "reclaimable_key_sequence s key_sequence =
     (let previous = (case map_option nk_seq_number (ns_key1 s) of
                        Some q \<Rightarrow> if ns_staged s \<noteq> Some q then Some q else None | None \<Rightarrow> None)
      in if previous = Some key_sequence then (if \<not> ns_sealed s then Some None else None)
         else Some previous)"

definition check_frame_counter_reserving ::
    "NwkSecurity \<Rightarrow> IeeeAddress \<Rightarrow> u8 \<Rightarrow> u32 \<Rightarrow> nat \<Rightarrow> (IeeeAddress \<Rightarrow> bool) \<Rightarrow> ReplayAdmission" where
  "check_frame_counter_reserving s source key_sequence counter reserved protect =
     (case find (fc_for source key_sequence) (ns_counters s) of
        Some e \<Rightarrow> if counter > fc_counter e then Fresh else Replay
      | None \<Rightarrow>
          (case reclaimable_key_sequence s key_sequence of
             None \<Rightarrow> TableFull
           | Some reclaim_from \<Rightarrow>
               let reclaimable = (case reclaim_from of
                     None \<Rightarrow> 0
                   | Some previous \<Rightarrow> length (filter (\<lambda>e. fc_key_sequence e = previous) (ns_counters s)));
                   available = MAX_FRAME_COUNTER_ENTRIES - length (ns_counters s) + reclaimable
               in if available > reserved then Fresh
                  else let stale = length (take (reserved + 1 - available)
                             (filter (\<lambda>e. Some (fc_key_sequence e) \<noteq> reclaim_from \<and>
                                fc_silent_secs e \<ge> ns_stale_secs s \<and> \<not> protect (fc_source e)) (ns_counters s)))
                       in if available + stale > reserved then Fresh else TableFull))"

definition check_frame_counter_for_key :: "NwkSecurity \<Rightarrow> IeeeAddress \<Rightarrow> u8 \<Rightarrow> u32 \<Rightarrow> bool" where
  "check_frame_counter_for_key s source key_sequence counter \<longleftrightarrow>
     check_frame_counter_reserving s source key_sequence counter 0 (\<lambda>_. True) = Fresh"

definition check_frame_counter :: "NwkSecurity \<Rightarrow> IeeeAddress \<Rightarrow> u32 \<Rightarrow> bool" where
  "check_frame_counter s source counter =
     check_frame_counter_for_key s source
       (case active_key s of Some k \<Rightarrow> nk_seq_number k | None \<Rightarrow> 0) counter"

definition commit_frame_counter_for_key_protecting ::
    "NwkSecurity \<Rightarrow> IeeeAddress \<Rightarrow> u8 \<Rightarrow> u32 \<Rightarrow> (IeeeAddress \<Rightarrow> bool) \<Rightarrow> bool \<times> NwkSecurity" where
  "commit_frame_counter_for_key_protecting s source key_sequence counter protect =
     (if list_ex (fc_for source key_sequence) (ns_counters s)
      then (True, s\<lparr>ns_counters := update_first (fc_for source key_sequence)
              (\<lambda>e. e\<lparr>fc_counter := max (fc_counter e) counter, fc_silent_secs := 0\<rparr>) (ns_counters s)\<rparr>)
      else case reclaimable_key_sequence s key_sequence of
             None \<Rightarrow> (False, s)
           | Some reclaim_from \<Rightarrow>
               let entry = \<lparr>fc_source = source, fc_key_sequence = key_sequence, fc_counter = counter,
                     fc_silent_secs = 0\<rparr>
               in case vec_push MAX_FRAME_COUNTER_ENTRIES entry (ns_counters s) of
                    Some t \<Rightarrow> (True, s\<lparr>ns_counters := t\<rparr>)
                  | None \<Rightarrow>
                      (case (case reclaim_from of None \<Rightarrow> None
                             | Some previous \<Rightarrow> position (\<lambda>e. fc_key_sequence e = previous) (ns_counters s)) of
                         Some i \<Rightarrow> (True, s\<lparr>ns_counters := (ns_counters s)[i := entry], ns_sealed := True\<rparr>)
                       | None \<Rightarrow>
                           (case max_idx_by (\<lambda>e. fc_silent_secs e \<ge> ns_stale_secs s \<and> \<not> protect (fc_source e))
                                   fc_silent_secs (ns_counters s) of
                              None \<Rightarrow> (False, s)
                            | Some i \<Rightarrow> (True, s\<lparr>ns_counters := (ns_counters s)[i := entry]\<rparr>))))"

definition commit_frame_counter_for_key :: "NwkSecurity \<Rightarrow> IeeeAddress \<Rightarrow> u8 \<Rightarrow> u32 \<Rightarrow> bool \<times> NwkSecurity" where
  "commit_frame_counter_for_key s source key_sequence counter =
     commit_frame_counter_for_key_protecting s source key_sequence counter (\<lambda>_. True)"

definition commit_frame_counter :: "NwkSecurity \<Rightarrow> IeeeAddress \<Rightarrow> u32 \<Rightarrow> bool \<times> NwkSecurity" where
  "commit_frame_counter s source counter =
     commit_frame_counter_for_key s source
       (case active_key s of Some k \<Rightarrow> nk_seq_number k | None \<Rightarrow> 0) counter"

definition has_frame_counter_for_key :: "NwkSecurity \<Rightarrow> IeeeAddress \<Rightarrow> u8 \<Rightarrow> bool" where
  "has_frame_counter_for_key s source key_sequence = list_ex (fc_for source key_sequence) (ns_counters s)"

definition restore_replay_counter :: "NwkSecurity \<Rightarrow> NwkReplayCounter \<Rightarrow> bool \<times> NwkSecurity" where
  "restore_replay_counter s replay =
     (case key_by_seq s (rc_key_sequence replay) of
        None \<Rightarrow> (False, s)
      | Some key \<Rightarrow>
          if key_fingerprint (nk_key key) \<noteq> rc_key_fingerprint replay then (False, s)
          else commit_frame_counter_for_key s (rc_source replay) (rc_key_sequence replay) (rc_counter replay))"

text \<open>
  The receive path's use of it (\<^verbatim>\<open>incoming_replay_admission\<close>, \<^verbatim>\<open>commit_replay_floor\<close>): the sources
  protected from eviction are the parent and the authenticated children, and a stranger
  must leave room for those of them that have no floor yet.
\<close>

definition is_replay_protected_neighbor :: "NeighborEntry \<Rightarrow> bool" where
  "is_replay_protected_neighbor e \<longleftrightarrow> nb_relationship e = Parent \<or> nb_relationship e = Child"

definition replay_protected :: "NeighborTable \<Rightarrow> IeeeAddress \<Rightarrow> bool" where
  "replay_protected neighbors source =
     (case find_by_ieee neighbors source of Some e \<Rightarrow> is_replay_protected_neighbor e | None \<Rightarrow> False)"

definition replay_slots_reserved_for :: "NeighborTable \<Rightarrow> NwkSecurity \<Rightarrow> IeeeAddress \<Rightarrow> u8 \<Rightarrow> nat" where
  "replay_slots_reserved_for neighbors s source key_sequence =
     (if replay_protected neighbors source then 0
      else length (filter (\<lambda>e. is_replay_protected_neighbor e \<and>
             \<not> has_frame_counter_for_key s (nb_ieee_address e) key_sequence) (NeighborTable_iter neighbors)))"

definition incoming_replay_admission ::
    "NeighborTable \<Rightarrow> NwkSecurity \<Rightarrow> IeeeAddress \<Rightarrow> u8 \<Rightarrow> u32 \<Rightarrow> IeeeAddress option \<Rightarrow> ReplayAdmission" where
  "incoming_replay_admission neighbors s source key_sequence counter rejoin_parent =
     check_frame_counter_reserving s source key_sequence counter
       (if rejoin_parent = None then replay_slots_reserved_for neighbors s source key_sequence else 0)
       (replay_protected neighbors)"

definition commit_replay_floor :: "NeighborTable \<Rightarrow> NwkSecurity \<Rightarrow> NwkReplayCounter \<Rightarrow> bool \<times> NwkSecurity" where
  "commit_replay_floor neighbors s replay =
     commit_frame_counter_for_key_protecting s (rc_source replay) (rc_key_sequence replay)
       (rc_counter replay) (replay_protected neighbors)"

text \<open>
  A secured frame whose MIC verifies: admission, then the recording of its floor at once.  The durable hook the runtime may
  install and the deferral of the commit to the end of the reception are not part of it; a commit made later is a step of
  its own (\<open>reach_commit\<close> below).
\<close>

definition receive_verified ::
    "NeighborTable \<Rightarrow> NwkSecurity \<Rightarrow> NwkReplayCounter \<Rightarrow> bool \<times> NwkSecurity" where
  "receive_verified neighbors s replay =
     (case incoming_replay_admission neighbors s (rc_source replay) (rc_key_sequence replay)
             (rc_counter replay) None of
        Fresh \<Rightarrow> commit_replay_floor neighbors s replay
      | _ \<Rightarrow> (False, s))"

subsection \<open>What a commit does\<close>

abbreviation fc_key :: "FrameCounterEntry \<Rightarrow> IeeeAddress \<times> u8" where
  "fc_key e \<equiv> (fc_source e, fc_key_sequence e)"

definition fct_wf :: "NwkSecurity \<Rightarrow> bool" where
  "fct_wf s \<longleftrightarrow> length (ns_counters s) \<le> MAX_FRAME_COUNTER_ENTRIES \<and> distinct (map fc_key (ns_counters s))"

text \<open>The previous key, when it is retained and not staged.\<close>

definition previous_seq :: "NwkSecurity \<Rightarrow> u8 option" where
  "previous_seq s = (case ns_key1 s of
     Some k \<Rightarrow> if ns_staged s \<noteq> Some (nk_seq_number k) then Some (nk_seq_number k) else None | None \<Rightarrow> None)"

lemma reclaimable_eq:
  "reclaimable_key_sequence s q =
     (if previous_seq s = Some q then (if ns_sealed s then None else Some None) else Some (previous_seq s))"
  by (auto simp: reclaimable_key_sequence_def previous_seq_def Let_def split: option.splits)

abbreviation floor_entry :: "IeeeAddress \<Rightarrow> u8 \<Rightarrow> u32 \<Rightarrow> FrameCounterEntry" where
  "floor_entry src q c \<equiv> \<lparr>fc_source = src, fc_key_sequence = q, fc_counter = c, fc_silent_secs = 0\<rparr>"

lemma commit_cases:
  assumes wf: "fct_wf s"
  obtains (refused) "commit_frame_counter_for_key_protecting s src q c protect = (False, s)"
    | (known) i where "i < length (ns_counters s)" "fc_for src q (ns_counters s ! i)"
        "commit_frame_counter_for_key_protecting s src q c protect =
          (True, s\<lparr>ns_counters := (ns_counters s)[i := (ns_counters s ! i)
            \<lparr>fc_counter := max (fc_counter (ns_counters s ! i)) c, fc_silent_secs := 0\<rparr>]\<rparr>)"
    | (pushed) "\<forall>e\<in>set (ns_counters s). fc_key e \<noteq> (src, q)"
        "\<not> (previous_seq s = Some q \<and> ns_sealed s)"
        "length (ns_counters s) < MAX_FRAME_COUNTER_ENTRIES"
        "commit_frame_counter_for_key_protecting s src q c protect =
          (True, s\<lparr>ns_counters := ns_counters s @ [floor_entry src q c]\<rparr>)"
    | (reclaimed) i p where "\<forall>e\<in>set (ns_counters s). fc_key e \<noteq> (src, q)" "previous_seq s = Some p" "p \<noteq> q"
        "i < length (ns_counters s)" "fc_key_sequence (ns_counters s ! i) = p"
        "commit_frame_counter_for_key_protecting s src q c protect =
          (True, s\<lparr>ns_counters := (ns_counters s)[i := floor_entry src q c], ns_sealed := True\<rparr>)"
    | (evicted) i where "\<forall>e\<in>set (ns_counters s). fc_key e \<noteq> (src, q)"
        "\<not> (previous_seq s = Some q \<and> ns_sealed s)"
        "i < length (ns_counters s)" "\<not> protect (fc_source (ns_counters s ! i))"
        "fc_silent_secs (ns_counters s ! i) \<ge> ns_stale_secs s"
        "commit_frame_counter_for_key_protecting s src q c protect =
          (True, s\<lparr>ns_counters := (ns_counters s)[i := floor_entry src q c]\<rparr>)"
proof (cases "position (fc_for src q) (ns_counters s)")
  case (Some i)
  then have i: "i < length (ns_counters s)" "fc_for src q (ns_counters s ! i)" using position_SomeD[OF Some] by auto
  then have "list_ex (fc_for src q) (ns_counters s)" using nth_mem[OF i(1)] by (auto simp: list_ex_iff)
  with Some i show ?thesis
    by (intro known[of i])
      (simp_all add: commit_frame_counter_for_key_protecting_def update_first_position)
next
  case None
  then have "\<forall>e\<in>set (ns_counters s). \<not> fc_for src q e" unfolding position_None_iff .
  then have n: "\<forall>e\<in>set (ns_counters s). fc_key e \<noteq> (src, q)" and
    nl: "\<not> list_ex (fc_for src q) (ns_counters s)" by (auto simp: list_ex_iff)
  show ?thesis
  proof (cases "previous_seq s = Some q \<and> ns_sealed s")
    case True
    with nl show ?thesis
      by (intro refused) (simp add: commit_frame_counter_for_key_protecting_def reclaimable_eq)
  next
    case ns: False
    define rf where "rf = (if previous_seq s = Some q then None else previous_seq s)"
    have rec: "reclaimable_key_sequence s q = Some rf" using ns by (auto simp: reclaimable_eq rf_def)
    note un = commit_frame_counter_for_key_protecting_def Let_def vec_push_def
    show ?thesis
    proof (cases "length (ns_counters s) < MAX_FRAME_COUNTER_ENTRIES")
      case True
      with nl rec n ns show ?thesis by (intro pushed) (simp_all add: un)
    next
      case full: False
      show ?thesis
      proof (cases "case rf of None \<Rightarrow> None | Some previous \<Rightarrow>
          position (\<lambda>e. fc_key_sequence e = previous) (ns_counters s)")
        case (Some i)
        then obtain p where p: "rf = Some p" "position (\<lambda>e. fc_key_sequence e = p) (ns_counters s) = Some i"
          by (cases rf) auto
        then have "previous_seq s = Some p" "p \<noteq> q" by (auto simp: rf_def split: if_splits)
        with p nl rec n full position_SomeD[OF p(2)] show ?thesis
          by (intro reclaimed[of p i]) (simp_all add: un)
      next
        case none: None
        show ?thesis
        proof (cases "max_idx_by (\<lambda>e. fc_silent_secs e \<ge> ns_stale_secs s \<and> \<not> protect (fc_source e))
            fc_silent_secs (ns_counters s)")
          case None
          with none nl rec full show ?thesis by (intro refused) (simp add: un)
        next
          case (Some i)
          note mx = max_idx_by_SomeD(1,2)[OF Some]
          from Some none nl rec full n ns mx show ?thesis by (intro evicted[of i]) (simp_all add: un)
        qed
      qed
    qed
  qed
qed

lemma distinct_key_update:
  assumes "distinct (map k xs)" "\<forall>x\<in>set xs. k x \<noteq> k y"
  shows "distinct (map k (xs[i := y]))"
proof (cases "i < length xs")
  case True
  have "k y \<notin> set (map k xs)" using assms(2) by auto
  with assms(1) show ?thesis by (simp add: map_update distinct_list_update)
next
  case False
  with assms(1) show ?thesis by (simp add: list_update_beyond)
qed

lemma fct_wf_commit [wf_intros]:
  assumes wf: "fct_wf s"
  shows "fct_wf (snd (commit_frame_counter_for_key_protecting s src q c protect))"
  using wf
proof (cases rule: commit_cases[of _ src q c protect])
  case refused
  with wf show ?thesis by simp
next
  case (known i)
  then have "map fc_key ((ns_counters s)[i := (ns_counters s ! i)
      \<lparr>fc_counter := max (fc_counter (ns_counters s ! i)) c, fc_silent_secs := 0\<rparr>]) = map fc_key (ns_counters s)"
    by (simp add: map_update list_update_same_conv)
  with known wf show ?thesis unfolding fct_wf_def by simp
next
  case pushed
  with wf show ?thesis by (auto simp: fct_wf_def)
next
  case (reclaimed i p)
  with wf distinct_key_update[of fc_key "ns_counters s" "floor_entry src q c" i] show ?thesis
    by (simp add: fct_wf_def)
next
  case (evicted i)
  with wf distinct_key_update[of fc_key "ns_counters s" "floor_entry src q c" i] show ?thesis
    by (simp add: fct_wf_def)
qed

lemma find_fc:
  "fct_wf s \<Longrightarrow> e \<in> set (ns_counters s) \<Longrightarrow> fc_key e = (src, q) \<Longrightarrow> find (fc_for src q) (ns_counters s) = Some e"
proof -
  assume wf: "fct_wf s" and e: "e \<in> set (ns_counters s)" "fc_key e = (src, q)"
  then have "find (fc_for src q) (ns_counters s) \<noteq> None" by (auto simp: find_None_iff)
  then obtain x where x: "find (fc_for src q) (ns_counters s) = Some x" by blast
  from find_SomeD[OF x] e wf have "x = e"
    unfolding fct_wf_def by (auto dest: inj_onD simp: distinct_map)
  with x show ?thesis by simp
qed

text \<open>
  A floor is held for a domain: an entry at least as high, or the domain has no entry and its
  key is the sealed previous one, so that the domain is closed.
\<close>

definition floor_held :: "NwkSecurity \<Rightarrow> IeeeAddress \<Rightarrow> u8 \<Rightarrow> u32 \<Rightarrow> bool" where
  "floor_held s src q c \<longleftrightarrow>
     (\<exists>e\<in>set (ns_counters s). fc_key e = (src, q) \<and> c \<le> fc_counter e) \<or>
     (\<forall>e\<in>set (ns_counters s). fc_key e \<noteq> (src, q)) \<and> previous_seq s = Some q \<and> ns_sealed s"

lemma previous_seq_update [simp]:
  "previous_seq (s\<lparr>ns_counters := t\<rparr>) = previous_seq s"
  "previous_seq (s\<lparr>ns_counters := t, ns_sealed := b\<rparr>) = previous_seq s"
  by (auto simp: previous_seq_def split: option.splits)

lemma bex_list_update:
  assumes "\<exists>e\<in>set xs. P e" "i < length xs" "P (xs ! i) \<Longrightarrow> P y"
  shows "\<exists>e\<in>set (xs[i := y]). P e"
proof -
  from assms(1) obtain j where j: "j < length xs" "P (xs ! j)" by (auto simp: in_set_conv_nth)
  have "xs[i := y] ! j \<in> set (xs[i := y])" using j(1) by (intro nth_mem) simp
  moreover have "P (xs[i := y] ! j)" using j assms(2,3) by (cases "i = j") auto
  ultimately show ?thesis by blast
qed

abbreviation has_floor :: "IeeeAddress \<Rightarrow> u8 \<Rightarrow> u32 \<Rightarrow> FrameCounterEntry \<Rightarrow> bool" where
  "has_floor src q c e \<equiv> fc_key e = (src, q) \<and> c \<le> fc_counter e"

lemma floor_heldI:
  "\<exists>e\<in>set (ns_counters s). has_floor src q c e \<Longrightarrow> floor_held s src q c"
  "\<forall>e\<in>set (ns_counters s). fc_key e \<noteq> (src, q) \<Longrightarrow> previous_seq s = Some q \<Longrightarrow> ns_sealed s \<Longrightarrow>
    floor_held s src q c"
  by (auto simp: floor_held_def)

lemma no_key_update:
  "\<forall>e\<in>set xs. k e \<noteq> z \<Longrightarrow> k y \<noteq> z \<Longrightarrow> \<forall>e\<in>set (xs[i := y]). k e \<noteq> z"
  using set_update_subset_insert[of xs i y] by blast

lemma in_set_update_cases: "e \<in> set (xs[i := y]) \<Longrightarrow> e \<in> set xs \<or> e = y"
  using set_update_subset_insert[of xs i y] by blast

lemma floor_held_commit_closed:
  assumes wf: "fct_wf s" and ex: "\<forall>e\<in>set (ns_counters s). fc_key e \<noteq> (src, q)"
    and pq: "previous_seq s = Some q" "ns_sealed s"
  shows "floor_held (snd (commit_frame_counter_for_key_protecting s src' q' c' protect)) src q c"
  using wf
proof (cases rule: commit_cases[of _ src' q' c' protect])
  case refused
  with ex pq show ?thesis by (simp add: floor_heldI)
next
  case (known i)
  then have "fc_key (ns_counters s ! i) \<noteq> (src, q)" using ex nth_mem[OF known(1)] by blast
  then have "\<forall>e\<in>set ((ns_counters s)[i := (ns_counters s ! i)
      \<lparr>fc_counter := max (fc_counter (ns_counters s ! i)) c', fc_silent_secs := 0\<rparr>]). fc_key e \<noteq> (src, q)"
    by (intro no_key_update[OF ex]) simp
  with known(3) pq show ?thesis by (intro floor_heldI(2)) simp_all
next
  case pushed
  with ex pq show ?thesis by (intro floor_heldI(2)) auto
next
  case (reclaimed i p)
  with no_key_update[OF ex, of "floor_entry src' q' c'" i] pq show ?thesis
    by (intro floor_heldI(2)) simp_all
next
  case (evicted i)
  with no_key_update[OF ex, of "floor_entry src' q' c'" i] pq show ?thesis
    by (intro floor_heldI(2)) auto
qed

lemma floor_held_reclaimed:
  assumes wf: "fct_wf s" and ex: "\<exists>e\<in>set (ns_counters s). has_floor src q c e"
    and r: "previous_seq s = Some p" "p \<noteq> q'" "i < length (ns_counters s)" "fc_key_sequence (ns_counters s ! i) = p"
  shows "floor_held (s\<lparr>ns_counters := (ns_counters s)[i := floor_entry src' q' c'], ns_sealed := True\<rparr>) src q c"
proof (cases "fc_key (ns_counters s ! i) = (src, q)")
  case True
  from wf have d: "distinct (map fc_key (ns_counters s))" by (simp add: fct_wf_def)
  have "fc_key e \<noteq> (src, q)" if "e \<in> set ((ns_counters s)[i := floor_entry src' q' c'])" for e
  proof -
    from that obtain j where j: "j < length (ns_counters s)" "e = (ns_counters s)[i := floor_entry src' q' c'] ! j"
      by (auto simp: in_set_conv_nth)
    show ?thesis
    proof (cases "j = i")
      case True
      with j r(2,3) \<open>fc_key (ns_counters s ! i) = (src, q)\<close> r(4) show ?thesis by auto
    next
      case False
      with d j(1) r(3) have "map fc_key (ns_counters s) ! j \<noteq> map fc_key (ns_counters s) ! i"
        by (simp add: distinct_conv_nth)
      with False j r(3) True show ?thesis by simp
    qed
  qed
  with True r show ?thesis by (intro floor_heldI(2)) auto
next
  case False
  then have "has_floor src q c (ns_counters s ! i) \<Longrightarrow> has_floor src q c (floor_entry src' q' c')" by simp
  from bex_list_update[OF ex r(3) this] show ?thesis by (intro floor_heldI(1)) simp
qed

lemma floor_held_commit:
  assumes wf: "fct_wf s" and held: "floor_held s src q c" and prot: "protect src"
  shows "floor_held (snd (commit_frame_counter_for_key_protecting s src' q' c' protect)) src q c"
proof (cases "\<exists>e\<in>set (ns_counters s). has_floor src q c e")
  case False
  with held have "\<forall>e\<in>set (ns_counters s). fc_key e \<noteq> (src, q)" "previous_seq s = Some q" "ns_sealed s"
    by (auto simp: floor_held_def)
  then show ?thesis by (rule floor_held_commit_closed[OF wf])
next
  case ex: True
  from wf show ?thesis
  proof (cases rule: commit_cases[of _ src' q' c' protect])
    case refused
    with held show ?thesis by simp
  next
    case (known i)
    let ?y = "(ns_counters s ! i)\<lparr>fc_counter := max (fc_counter (ns_counters s ! i)) c', fc_silent_secs := 0\<rparr>"
    have "has_floor src q c (ns_counters s ! i) \<Longrightarrow> has_floor src q c ?y"
      by (auto intro: order.trans[OF _ max.cobounded1])
    from bex_list_update[OF ex known(1) this] known(3) show ?thesis by (intro floor_heldI(1)) simp
  next
    case pushed
    with ex show ?thesis by (intro floor_heldI(1)) auto
  next
    case (reclaimed i p)
    with floor_held_reclaimed[OF wf ex] show ?thesis by simp
  next
    case (evicted i)
    with prot have "has_floor src q c (ns_counters s ! i) \<Longrightarrow> has_floor src q c (floor_entry src' q' c')" by auto
    from bex_list_update[OF ex evicted(3) this] evicted(6) show ?thesis by (intro floor_heldI(1)) simp
  qed
qed

lemma floor_held_age: "floor_held (age_replay_floors s n) src q c = floor_held s src q c"
  by (auto simp: floor_held_def age_replay_floors_def)

lemma fct_wf_age [wf_intros]: "fct_wf s \<Longrightarrow> fct_wf (age_replay_floors s n)"
  by (simp add: fct_wf_def age_replay_floors_def comp_def)

lemma activate_keeps:
  "ns_counters (snd (activate_network_key s seqn)) = ns_counters s"
  "previous_seq s = Some q \<Longrightarrow>
    previous_seq (snd (activate_network_key s seqn)) = Some q \<and>
    ns_sealed (snd (activate_network_key s seqn)) = ns_sealed s"
  by (auto simp: activate_network_key_def swap_keys_def unseal_previous_key_def previous_seq_def has_seq_def
      split: option.splits if_splits)

lemma floor_held_activate: "floor_held s src q c \<Longrightarrow> floor_held (snd (activate_network_key s seqn)) src q c"
  unfolding floor_held_def activate_keeps(1) using activate_keeps(2)[of s q seqn] by blast

lemma fct_wf_activate [wf_intros]: "fct_wf s \<Longrightarrow> fct_wf (snd (activate_network_key s seqn))"
  by (simp add: fct_wf_def activate_keeps)

lemma fresh_above_floor:
  assumes "fct_wf s" "floor_held s src q c"
    "check_frame_counter_reserving s src q c' reserved protect = Fresh"
  shows "c < c'"
proof (cases "\<exists>e\<in>set (ns_counters s). has_floor src q c e")
  case True
  then obtain e where e: "e \<in> set (ns_counters s)" "fc_key e = (src, q)" "c \<le> fc_counter e" by blast
  from find_fc[OF assms(1) e(1,2)] assms(3) have "fc_counter e < c'"
    by (simp add: check_frame_counter_reserving_def split: if_splits)
  with e(3) show ?thesis by simp
next
  case False
  with assms(2) have n: "\<forall>e\<in>set (ns_counters s). fc_key e \<noteq> (src, q)" "previous_seq s = Some q" "ns_sealed s"
    by (auto simp: floor_held_def)
  then have "find (fc_for src q) (ns_counters s) = None" by (auto simp: find_None_iff)
  with n assms(3) show ?thesis by (simp add: check_frame_counter_reserving_def reclaimable_eq)
qed

lemma commit_records_floor:
  assumes "fct_wf s" "fst (commit_frame_counter_for_key_protecting s src q c protect)"
  shows "floor_held (snd (commit_frame_counter_for_key_protecting s src q c protect)) src q c"
  using assms(1)
proof (cases rule: commit_cases[of _ src q c protect])
  case refused
  with assms(2) show ?thesis by simp
next
  case (known i)
  then show ?thesis
    by (intro floor_heldI(1)) (auto intro!: bexI[OF _ set_update_memI[OF known(1)]])
next
  case (reclaimed i p)
  then show ?thesis by (intro floor_heldI(1)) (auto intro!: bexI[OF _ set_update_memI[OF reclaimed(4)]])
next
  case (evicted i)
  then show ?thesis by (intro floor_heldI(1)) (auto intro!: bexI[OF _ set_update_memI[OF evicted(3)]])
qed (intro floor_heldI(1), simp)

lemma admitted_commits:
  assumes fr: "check_frame_counter_reserving s src q c reserved protect = Fresh"
  shows "fst (commit_frame_counter_for_key_protecting s src q c protect)"
proof (cases "list_ex (fc_for src q) (ns_counters s)")
  case True
  then show ?thesis by (simp add: commit_frame_counter_for_key_protecting_def)
next
  case nl: False
  then have fn: "find (fc_for src q) (ns_counters s) = None" by (auto simp: find_None_iff list_ex_iff)
  with fr obtain rf where rf: "reclaimable_key_sequence s q = Some rf"
    by (auto simp: check_frame_counter_reserving_def split: option.splits)
  let ?stale = "\<lambda>e. fc_silent_secs e \<ge> ns_stale_secs s \<and> \<not> protect (fc_source e)"
  consider "length (ns_counters s) < MAX_FRAME_COUNTER_ENTRIES"
    | "\<exists>p. rf = Some p \<and> (\<exists>e\<in>set (ns_counters s). fc_key_sequence e = p)"
    | "\<exists>e\<in>set (ns_counters s). ?stale e"
  proof (rule ccontr)
    assume "\<not> thesis"
    with that have n: "\<not> length (ns_counters s) < MAX_FRAME_COUNTER_ENTRIES"
      "\<nexists>p. rf = Some p \<and> (\<exists>e\<in>set (ns_counters s). fc_key_sequence e = p)"
      "\<forall>e\<in>set (ns_counters s). \<not> ?stale e" by blast+
    have r0: "(case rf of None \<Rightarrow> 0 | Some p \<Rightarrow> length (filter (\<lambda>e. fc_key_sequence e = p) (ns_counters s))) = 0"
      using n(2) by (auto split: option.splits simp: filter_empty_conv)
    have "filter (\<lambda>e. Some (fc_key_sequence e) \<noteq> rf \<and> ?stale e) (ns_counters s) = []"
      using n(3) unfolding filter_empty_conv by blast
    with fr fn rf r0 n(1) show False
      by (auto simp: check_frame_counter_reserving_def Let_def split: if_splits)
  qed
  then show ?thesis
  proof cases
    case 1
    with nl rf show ?thesis by (simp add: commit_frame_counter_for_key_protecting_def vec_push_def)
  next
    case 2
    then obtain p e where "rf = Some p" "e \<in> set (ns_counters s)" "fc_key_sequence e = p" by blast
    moreover from this obtain i where "position (\<lambda>e. fc_key_sequence e = p) (ns_counters s) = Some i"
      using position_Some_exists[of e "ns_counters s" "\<lambda>e. fc_key_sequence e = p"] by blast
    ultimately have "rf = Some p" "position (\<lambda>e. fc_key_sequence e = p) (ns_counters s) = Some i" by simp_all
    with nl rf show ?thesis
      by (simp add: commit_frame_counter_for_key_protecting_def Let_def split: option.splits)
  next
    case 3
    then have "max_idx_by ?stale fc_silent_secs (ns_counters s) \<noteq> None" unfolding max_idx_by_None_iff by blast
    then obtain i where "max_idx_by ?stale fc_silent_secs (ns_counters s) = Some i" by blast
    with nl rf show ?thesis
      by (simp add: commit_frame_counter_for_key_protecting_def Let_def split: option.splits)
  qed
qed

subsection \<open>Histories of the receive path\<close>

datatype ReplayEvent = VerifiedFrame NeighborTable NwkReplayCounter | TimePasses u16 | KeySwitch u8

fun replay_event :: "ReplayEvent \<Rightarrow> NwkSecurity \<Rightarrow> bool \<times> NwkSecurity" where
  "replay_event (VerifiedFrame neighbors replay) s = receive_verified neighbors s replay"
| "replay_event (TimePasses secs) s = (False, age_replay_floors s secs)"
| "replay_event (KeySwitch seqn) s = (False, snd (activate_network_key s seqn))"

fun event_frame :: "ReplayEvent \<Rightarrow> ((IeeeAddress \<times> u8) \<times> u32) option" where
  "event_frame (VerifiedFrame neighbors r) = Some ((rc_source r, rc_key_sequence r), rc_counter r)"
| "event_frame _ = None"

fun event_protects :: "IeeeAddress \<Rightarrow> ReplayEvent \<Rightarrow> bool" where
  "event_protects src (VerifiedFrame neighbors replay) = replay_protected neighbors src"
| "event_protects src _ = True"

abbreviation replay_step :: "ReplayEvent \<Rightarrow> NwkSecurity \<Rightarrow> NwkSecurity" where
  "replay_step e s \<equiv> snd (replay_event e s)"

lemma receive_verified_eq:
  "receive_verified nb s r =
     (if incoming_replay_admission nb s (rc_source r) (rc_key_sequence r) (rc_counter r) None = Fresh
      then commit_replay_floor nb s r else (False, s))"
  by (simp add: receive_verified_def split: ReplayAdmission.splits)

lemma receive_verified_floor:
  assumes "fct_wf s" "fst (receive_verified nb s r)"
  shows "fct_wf (snd (receive_verified nb s r))"
    "floor_held (snd (receive_verified nb s r)) (rc_source r) (rc_key_sequence r) (rc_counter r)"
  using assms commit_records_floor[of s "rc_source r" "rc_key_sequence r" "rc_counter r"]
  by (simp_all add: receive_verified_eq commit_replay_floor_def wf_intros split: if_splits)

interpretation router_guard: replay_guard replay_event event_frame "\<lambda>d. event_protects (fst d)" fct_wf
  "\<lambda>s d. floor_held s (fst d) (snd d)"
proof
  fix s e
  assume "fct_wf s"
  then show "fct_wf (snd (replay_event e s))"
    by (cases e) (simp_all add: receive_verified_eq commit_replay_floor_def wf_intros)
next
  fix s e c and d :: "IeeeAddress \<times> u8"
  assume "fct_wf s" "event_protects (fst d) e" "floor_held s (fst d) (snd d) c"
  then show "floor_held (snd (replay_event e s)) (fst d) (snd d) c"
    by (cases e) (simp_all add: receive_verified_eq commit_replay_floor_def floor_held_commit
        floor_held_age floor_held_activate)
next
  fix s e c and d :: "IeeeAddress \<times> u8"
  assume "fct_wf s" "event_frame e = Some (d, c)" "fst (replay_event e s)"
  then show "floor_held (snd (replay_event e s)) (fst d) (snd d) c"
    by (cases e) (auto dest: receive_verified_floor)
next
  fix s e c c' and d :: "IeeeAddress \<times> u8"
  assume a: "fct_wf s" "floor_held s (fst d) (snd d) c" "event_frame e = Some (d, c')" "fst (replay_event e s)"
  then show "c < c'"
    by (cases e) (auto simp: receive_verified_eq incoming_replay_admission_def
        dest: fresh_above_floor split: if_splits)
qed

text \<open>
  C1: no replay is ever accepted from a protected source (the parent or a child).  Once a
  verified frame is accepted, and through any later traffic from any sources, any
  passage of time and any key switch, during which the source stays protected, the next
  accepted frame of that source under the same key sequence has a strictly larger counter,
  even when the table was full and the source's floor of the previous key was given up.
\<close>

theorem replay_rejected_for_protected:
  assumes "fct_wf s" "fst (receive_verified nb s r)"
    "list_all (event_protects (rc_source r)) evs"
    "rc_source r' = rc_source r" "rc_key_sequence r' = rc_key_sequence r"
    "fst (receive_verified nb' (fold replay_step evs (snd (receive_verified nb s r))) r')"
  shows "rc_counter r < rc_counter r'"
  using router_guard.no_replay[OF assms(1), of "VerifiedFrame nb r" "(rc_source r, rc_key_sequence r)" "rc_counter r"
      evs "VerifiedFrame nb' r'" "rc_counter r'"] assms(2-6)
  by (simp add: router_guard.run_def)

theorem replay_rejected_for_protected_witness:
  "\<exists>nb s r evs. list_all (event_protects (rc_source r)) evs \<and> fst (receive_verified nb s r) \<and>
     fst (receive_verified nb (fold replay_step evs (snd (receive_verified nb s r))) (r\<lparr>rc_counter := 8\<rparr>)) \<and>
     rc_counter r < (8 :: u32)"
proof -
  let ?p = "(NeighborEntry_new_from_annce 0 (replicate 8 1))\<lparr>nb_relationship := Parent, nb_active := True\<rparr>"
  define nb where "nb = \<lparr>nt_entries = [?p], nt_count = 1\<rparr>"
  define r where "r = \<lparr>rc_source = replicate 8 1, rc_key_sequence = 3, rc_key_fingerprint = 0, rc_counter = 7\<rparr>"
  define evs where "evs = [VerifiedFrame nb (r\<lparr>rc_source := replicate 8 2\<rparr>), TimePasses 4000, KeySwitch 3]"
  note ev = receive_verified_def incoming_replay_admission_def check_frame_counter_reserving_def
    replay_slots_reserved_for_def replay_protected_def is_replay_protected_neighbor_def find_by_ieee_def
    reclaimable_key_sequence_def commit_replay_floor_def commit_frame_counter_for_key_protecting_def
    NwkSecurity_new_def MAX_FRAME_COUNTER_ENTRIES_def nb_def r_def NeighborEntry_new_from_annce_def
    NeighborTable_iter_def has_frame_counter_for_key_def vec_push_def Let_def
  have wf: "fct_wf NwkSecurity_new" by (simp add: fct_wf_def NwkSecurity_new_def)
  have 1: "receive_verified nb NwkSecurity_new r =
      (True, NwkSecurity_new\<lparr>ns_counters := [floor_entry (replicate 8 1) 3 7]\<rparr>)"
    by (simp add: ev)
  have p: "list_all (event_protects (rc_source r)) evs"
    by (simp add: evs_def replay_protected_def is_replay_protected_neighbor_def find_by_ieee_def nb_def r_def
        NeighborEntry_new_from_annce_def)
  have 2: "fst (receive_verified nb (fold replay_step evs (snd (receive_verified nb NwkSecurity_new r)))
      (r\<lparr>rc_counter := 8\<rparr>))"
    unfolding 1 evs_def by (simp add: ev age_replay_floors_def activate_network_key_def has_seq_def)
  have "rc_counter r < rc_counter (r\<lparr>rc_counter := 8\<rparr>)"
    by (rule replay_rejected_for_protected[OF wf _ p _ _ 2]) (simp_all add: 1)
  with 1 2 p show ?thesis
    by (intro exI[of _ nb] exI[of _ NwkSecurity_new] exI[of _ r] exI[of _ evs]) simp
qed

text \<open>
  Admission and recording agree.  A frame the receive path admits as fresh is always
  recorded, its floor is then at least its counter, and the table keeps its bound and
  one entry per source and key sequence; a frame it does not admit changes nothing.
\<close>

theorem admitted_frame_recorded:
  assumes "fct_wf s"
  shows "(case receive_verified nb s r of (ok, s') \<Rightarrow>
      (ok \<longleftrightarrow> incoming_replay_admission nb s (rc_source r) (rc_key_sequence r) (rc_counter r) None = Fresh) \<and>
      (if ok then floor_held s' (rc_source r) (rc_key_sequence r) (rc_counter r) else s' = s) \<and>
      fct_wf s')"
proof -
  have eq: "fst (receive_verified nb s r) \<longleftrightarrow>
      incoming_replay_admission nb s (rc_source r) (rc_key_sequence r) (rc_counter r) None = Fresh"
    using admitted_commits unfolding receive_verified_eq incoming_replay_admission_def commit_replay_floor_def
    by (auto split: if_splits)
  moreover have "snd (receive_verified nb s r) = s" if "\<not> fst (receive_verified nb s r)"
    using that eq by (simp add: receive_verified_eq)
  moreover have "fct_wf (snd (receive_verified nb s r))"
    using assms by (simp add: receive_verified_eq commit_replay_floor_def wf_intros)
  ultimately show ?thesis using receive_verified_floor(2)[OF assms, of nb r]
    by (cases "receive_verified nb s r") auto
qed

theorem admitted_frame_recorded_witness:
  "fst (receive_verified NeighborTable_new NwkSecurity_new
     \<lparr>rc_source = replicate 8 1, rc_key_sequence = 0, rc_key_fingerprint = 0, rc_counter = 5\<rparr>)"
proof -
  have wf: "fct_wf NwkSecurity_new" by (simp add: fct_wf_def NwkSecurity_new_def)
  have "incoming_replay_admission NeighborTable_new NwkSecurity_new (replicate 8 1) 0 5 None = Fresh"
    by (simp add: incoming_replay_admission_def check_frame_counter_reserving_def NwkSecurity_new_def
        reclaimable_key_sequence_def replay_slots_reserved_for_def replay_protected_def find_by_ieee_def
        NeighborTable_new_def NeighborTable_iter_def MAX_FRAME_COUNTER_ENTRIES_def NeighborEntry_empty_def)
  with admitted_frame_recorded[OF wf, of NeighborTable_new
      "\<lparr>rc_source = replicate 8 1, rc_key_sequence = 0, rc_key_fingerprint = 0, rc_counter = 5\<rparr>"]
  show ?thesis by (auto split: prod.splits)
qed

section \<open>The two key slots\<close>

text \<open>
  What every reachable key state satisfies: slot 0 holds the active key and slot 1 an inactive
  one with another sequence number, nothing is alternate without an active key, a staged
  sequence names slot 1 and is newer than the active key, and floors exist for
  installed keys only.
\<close>

definition keys_ok :: "NwkSecurity \<Rightarrow> bool" where
  "keys_ok s \<longleftrightarrow>
     (case ns_key0 s of
        None \<Rightarrow> ns_key1 s = None \<and> ns_staged s = None \<and> ns_counters s = []
      | Some a \<Rightarrow> nk_active a \<and>
          (case ns_key1 s of
             None \<Rightarrow> ns_staged s = None \<and> list_all (\<lambda>e. fc_key_sequence e = nk_seq_number a) (ns_counters s)
           | Some b \<Rightarrow> \<not> nk_active b \<and> nk_seq_number b \<noteq> nk_seq_number a \<and>
               (ns_staged s = None \<or> ns_staged s = Some (nk_seq_number b) \<and>
                  key_sequence_is_newer (nk_seq_number b) (nk_seq_number a)) \<and>
               list_all (\<lambda>e. fc_key_sequence e = nk_seq_number a \<or> fc_key_sequence e = nk_seq_number b)
                 (ns_counters s)))"

text \<open>The part of it that concerns the two slots alone.\<close>

definition slots_ok :: "NwkSecurity \<Rightarrow> bool" where
  "slots_ok s \<longleftrightarrow>
     (case ns_key0 s of
        None \<Rightarrow> ns_key1 s = None \<and> ns_staged s = None
      | Some a \<Rightarrow> nk_active a \<and>
          (case ns_key1 s of
             None \<Rightarrow> ns_staged s = None
           | Some b \<Rightarrow> \<not> nk_active b \<and> nk_seq_number b \<noteq> nk_seq_number a \<and>
               (ns_staged s = None \<or> ns_staged s = Some (nk_seq_number b) \<and>
                  key_sequence_is_newer (nk_seq_number b) (nk_seq_number a))))"

lemmas key_op_defs = set_network_key_def install_network_key_def stage_network_key_def
  restore_previous_network_key_def activate_network_key_def retire_previous_network_key_def
  clear_network_keys_def swap_keys_def unseal_previous_key_def clear_frame_counters_for_key_def
  retain_frame_counters_for_installed_keys_def has_key_def has_seq_def active_key_def

named_theorems key_invs

lemma keys_ok_new [key_invs]: "keys_ok NwkSecurity_new"
  by (simp add: keys_ok_def NwkSecurity_new_def)

lemma keys_ok_clear [key_invs]: "keys_ok (clear_network_keys s)"
  by (simp add: keys_ok_def key_op_defs)

lemma keys_ok_set [key_invs]: "keys_ok s \<Longrightarrow> keys_ok (set_network_key s key seqn)"
  by (cases "ns_key0 s"; cases "ns_key1 s")
    (auto simp: keys_ok_def key_op_defs Let_def list_all_iff)

lemma keys_ok_stage [key_invs]: "keys_ok s \<Longrightarrow> keys_ok (snd (stage_network_key s key seqn))"
proof (cases "ns_key0 s")
  case None
  then show "keys_ok s \<Longrightarrow> keys_ok (snd (stage_network_key s key seqn))"
    by (simp add: stage_network_key_def keys_ok_set)
next
  case (Some a)
  then show "keys_ok s \<Longrightarrow> keys_ok (snd (stage_network_key s key seqn))"
    by (cases "ns_key1 s") (auto simp: keys_ok_def key_op_defs Let_def list_all_iff)
qed

lemma keys_ok_restore [key_invs]: "keys_ok s \<Longrightarrow> keys_ok (snd (restore_previous_network_key s key seqn))"
  by (cases "ns_key0 s"; cases "ns_key1 s") (auto simp: keys_ok_def key_op_defs Let_def list_all_iff)

lemma keys_ok_activate [key_invs]: "keys_ok s \<Longrightarrow> keys_ok (snd (activate_network_key s seqn))"
  by (cases "ns_key0 s"; cases "ns_key1 s") (auto simp: keys_ok_def key_op_defs list_all_iff)

lemma keys_ok_received [key_invs]: "keys_ok s \<Longrightarrow> keys_ok (snd (activate_received_key s seqn))"
  by (simp add: activate_received_key_def keys_ok_activate)

lemma keys_ok_retire [key_invs]: "keys_ok s \<Longrightarrow> keys_ok (snd (retire_previous_network_key s))"
  by (cases "ns_key0 s"; cases "ns_key1 s") (auto simp: keys_ok_def key_op_defs Let_def list_all_iff)

lemma keys_ok_age [key_invs]: "keys_ok s \<Longrightarrow> keys_ok (age_replay_floors s n)"
  by (cases "ns_key0 s"; cases "ns_key1 s") (auto simp: keys_ok_def age_replay_floors_def list_all_iff)

lemma keys_ok_forget [key_invs]: "keys_ok s \<Longrightarrow> keys_ok (clear_frame_counters_for_source s a)"
  by (cases "ns_key0 s"; cases "ns_key1 s") (auto simp: keys_ok_def clear_frame_counters_for_source_def list_all_iff)

lemma keys_ok_timeout: "keys_ok s \<Longrightarrow> keys_ok (set_replay_stale_timeout_secs s n)"
  by (cases "ns_key0 s"; cases "ns_key1 s") (auto simp: keys_ok_def set_replay_stale_timeout_secs_def)

lemma key_by_seq_installed: "keys_ok s \<Longrightarrow> key_by_seq s q \<noteq> None \<longleftrightarrow> has_seq (ns_key0 s) q \<or> has_seq (ns_key1 s) q"
  by (auto simp: key_by_seq_def has_seq_def split: option.splits)

lemma keys_ok_counters:
  assumes "keys_ok s" "has_seq (ns_key0 s) q \<or> has_seq (ns_key1 s) q"
    "\<forall>e\<in>set t. e \<in> set (ns_counters s) \<or> fc_key_sequence e \<in> fc_key_sequence ` set (ns_counters s) \<or> fc_key_sequence e = q"
  shows "keys_ok (s\<lparr>ns_counters := t\<rparr>)" "keys_ok (s\<lparr>ns_counters := t, ns_sealed := b\<rparr>)"
  using assms by (cases "ns_key0 s"; cases "ns_key1 s"; force simp: keys_ok_def has_seq_def list_all_iff)+

lemma keys_ok_commit [key_invs]:
  assumes ok: "keys_ok s" and wf: "fct_wf s" and q: "has_seq (ns_key0 s) q \<or> has_seq (ns_key1 s) q"
  shows "keys_ok (snd (commit_frame_counter_for_key_protecting s src q c protect))"
  using wf
proof (cases rule: commit_cases[of _ src q c protect])
  case refused
  with ok show ?thesis by simp
next
  case (known i)
  then show ?thesis by (auto intro!: keys_ok_counters(1)[OF ok q] dest!: in_set_update_cases)
next
  case pushed
  then show ?thesis by (auto intro!: keys_ok_counters(1)[OF ok q])
next
  case (reclaimed i p)
  then show ?thesis by (auto intro!: keys_ok_counters(2)[OF ok q] dest!: in_set_update_cases)
next
  case (evicted i)
  then show ?thesis by (auto intro!: keys_ok_counters(1)[OF ok q] dest!: in_set_update_cases)
qed

text \<open>The key operations keep the slots in order whatever floors there are; the others do not touch them.\<close>

lemma slots_ok_key_ops:
  assumes "slots_ok s"
  shows "slots_ok (clear_network_keys s)" "slots_ok (set_network_key s key seqn)" "slots_ok (snd (stage_network_key s key seqn))"
    "slots_ok (snd (restore_previous_network_key s key seqn))" "slots_ok (snd (activate_network_key s seqn))"
    "slots_ok (snd (activate_received_key s seqn))" "slots_ok (snd (retire_previous_network_key s))"
proof -
  show "slots_ok (clear_network_keys s)" by (simp add: slots_ok_def key_op_defs)
  show set: "slots_ok (set_network_key s key seqn)"
    using assms by (cases "ns_key0 s"; cases "ns_key1 s") (auto simp: slots_ok_def key_op_defs Let_def)
  show "slots_ok (snd (stage_network_key s key seqn))"
    using assms set by (cases "ns_key0 s"; cases "ns_key1 s") (auto simp: stage_network_key_def slots_ok_def key_op_defs Let_def)
  show "slots_ok (snd (restore_previous_network_key s key seqn))" "slots_ok (snd (retire_previous_network_key s))"
    using assms by (cases "ns_key0 s"; cases "ns_key1 s"; auto simp: slots_ok_def key_op_defs Let_def)+
  show act: "slots_ok (snd (activate_network_key s seqn))"
    using assms by (cases "ns_key0 s"; cases "ns_key1 s") (auto simp: slots_ok_def key_op_defs)
  then show "slots_ok (snd (activate_received_key s seqn))" using assms by (simp add: activate_received_key_def)
qed

lemma slots_ok_floors:
  assumes "ns_key0 s' = ns_key0 s" "ns_key1 s' = ns_key1 s" "ns_staged s' = ns_staged s"
  shows "slots_ok s' = slots_ok s"
  by (simp add: slots_ok_def assms cong: option.case_cong)

lemma commit_slots:
  assumes "s' = snd (commit_frame_counter_for_key_protecting s src q c protect)"
  shows "ns_key0 s' = ns_key0 s" "ns_key1 s' = ns_key1 s" "ns_staged s' = ns_staged s"
  unfolding assms by (auto simp: commit_frame_counter_for_key_protecting_def Let_def split: option.splits)

lemma commit_slots_ok [simp]: "slots_ok (snd (commit_frame_counter_for_key_protecting s src q c protect)) = slots_ok s"
  by (rule slots_ok_floors; rule commit_slots[OF refl])

lemma floor_ops_slots_ok [simp]:
  "slots_ok (age_replay_floors s n) = slots_ok s" "slots_ok (clear_frame_counters_for_source s a) = slots_ok s"
  "slots_ok (set_replay_stale_timeout_secs s n) = slots_ok s" "slots_ok (snd (receive_verified nb s r)) = slots_ok s"
  "slots_ok (snd (restore_replay_counter s r)) = slots_ok s"
proof -
  show "slots_ok (age_replay_floors s n) = slots_ok s" "slots_ok (clear_frame_counters_for_source s a) = slots_ok s"
    "slots_ok (set_replay_stale_timeout_secs s n) = slots_ok s"
    by (rule slots_ok_floors; simp add: age_replay_floors_def clear_frame_counters_for_source_def set_replay_stale_timeout_secs_def)+
  show "slots_ok (snd (receive_verified nb s r)) = slots_ok s" "slots_ok (snd (restore_replay_counter s r)) = slots_ok s"
    by (simp_all add: receive_verified_eq commit_replay_floor_def restore_replay_counter_def commit_frame_counter_for_key_def split: option.split)
qed

text \<open>
  The states of the component: every key operation, every commit of a floor, and the receive path, which looks the key
  of a frame up before it consults the floors.  The commits are public and take any key sequence, and a deferred commit may
  run after the key of its frame is gone; \<open>checked\<close> says that they were all made under an installed key.
\<close>

inductive key_reach :: "bool \<Rightarrow> NwkSecurity \<Rightarrow> bool" for checked :: bool where
  reach_new: "key_reach checked NwkSecurity_new"
| reach_clear: "key_reach checked s \<Longrightarrow> key_reach checked (clear_network_keys s)"
| reach_set: "key_reach checked s \<Longrightarrow> key_reach checked (set_network_key s key seqn)"
| reach_stage: "key_reach checked s \<Longrightarrow> key_reach checked (snd (stage_network_key s key seqn))"
| reach_restore: "key_reach checked s \<Longrightarrow> key_reach checked (snd (restore_previous_network_key s key seqn))"
| reach_activate: "key_reach checked s \<Longrightarrow> key_reach checked (snd (activate_network_key s seqn))"
| reach_received: "key_reach checked s \<Longrightarrow> key_reach checked (snd (activate_received_key s seqn))"
| reach_retire: "key_reach checked s \<Longrightarrow> key_reach checked (snd (retire_previous_network_key s))"
| reach_age: "key_reach checked s \<Longrightarrow> key_reach checked (age_replay_floors s n)"
| reach_forget: "key_reach checked s \<Longrightarrow> key_reach checked (clear_frame_counters_for_source s a)"
| reach_timeout: "key_reach checked s \<Longrightarrow> key_reach checked (set_replay_stale_timeout_secs s n)"
| reach_receive: "key_reach checked s \<Longrightarrow> key_by_seq s (rc_key_sequence r) \<noteq> None \<Longrightarrow>
    key_reach checked (snd (receive_verified nb s r))"
| reach_restore_floor: "key_reach checked s \<Longrightarrow> key_reach checked (snd (restore_replay_counter s r))"
| reach_commit: "key_reach checked s \<Longrightarrow> (checked \<longrightarrow> key_by_seq s q \<noteq> None) \<Longrightarrow>
    key_reach checked (snd (commit_frame_counter_for_key_protecting s src q c protect))"
| reach_commit_for_key: "key_reach checked s \<Longrightarrow> (checked \<longrightarrow> key_by_seq s q \<noteq> None) \<Longrightarrow>
    key_reach checked (snd (commit_frame_counter_for_key s src q c))"
| reach_commit_active: "key_reach checked s \<Longrightarrow> (checked \<longrightarrow> active_key s \<noteq> None) \<Longrightarrow>
    key_reach checked (snd (commit_frame_counter s src c))"

lemma keys_ok_receive:
  assumes "keys_ok s" "fct_wf s" "key_by_seq s (rc_key_sequence r) \<noteq> None"
  shows "keys_ok (snd (receive_verified nb s r))"
  using assms key_by_seq_installed[OF assms(1)]
  by (simp add: receive_verified_eq commit_replay_floor_def keys_ok_commit)

lemma keys_ok_restore_floor:
  assumes "keys_ok s" "fct_wf s"
  shows "keys_ok (snd (restore_replay_counter s r))" "fct_wf (snd (restore_replay_counter s r))"
  using assms key_by_seq_installed[OF assms(1), of "rc_key_sequence r"]
  by (auto simp: restore_replay_counter_def commit_frame_counter_for_key_def split: option.splits
      intro!: keys_ok_commit fct_wf_commit)

lemma length_filter_bound: "length xs \<le> n \<Longrightarrow> length (filter P xs) \<le> n"
  using order.trans[OF length_filter_le] .

lemmas fct_wf_filter = fct_wf_def length_filter_bound distinct_map_filter

lemma fct_wf_key_ops [wf_intros]:
  assumes wf: "fct_wf s"
  shows "fct_wf (clear_network_keys s)" "fct_wf (set_network_key s key seqn)"
    "fct_wf (snd (stage_network_key s key seqn))" "fct_wf (snd (restore_previous_network_key s key seqn))"
    "fct_wf (snd (activate_received_key s seqn))" "fct_wf (snd (retire_previous_network_key s))"
    "fct_wf (clear_frame_counters_for_source s a)" "fct_wf (set_replay_stale_timeout_secs s n)"
proof -
  show set: "fct_wf (set_network_key s key seqn)"
    using wf by (simp add: fct_wf_filter key_op_defs Let_def split: option.splits)
  show "fct_wf (snd (stage_network_key s key seqn))"
    using wf set by (cases "ns_key0 s")
      (simp_all add: stage_network_key_def fct_wf_filter key_op_defs Let_def split: option.splits)
  show "fct_wf (snd (activate_received_key s seqn))"
    using wf by (simp add: activate_received_key_def wf_intros)
qed (use wf in \<open>simp_all add: fct_wf_filter key_op_defs Let_def clear_frame_counters_for_source_def
    set_replay_stale_timeout_secs_def split: option.splits\<close>)

lemma active_key_installed: "active_key s = Some k \<Longrightarrow> has_seq (ns_key0 s) (nk_seq_number k) \<or> has_seq (ns_key1 s) (nk_seq_number k)"
  by (auto simp: active_key_def has_seq_def split: option.splits if_splits)

lemma key_reach_ok: "key_reach checked s \<Longrightarrow> slots_ok s \<and> fct_wf s \<and> (checked \<longrightarrow> keys_ok s)"
proof (induction rule: key_reach.induct)
  case reach_new
  have "slots_ok NwkSecurity_new" "fct_wf NwkSecurity_new" by (simp_all add: fct_wf_def slots_ok_def NwkSecurity_new_def)
  with keys_ok_new show ?case by blast
next
  case (reach_receive s r nb)
  then have "checked \<longrightarrow> keys_ok (snd (receive_verified nb s r))" by (blast intro: keys_ok_receive)
  with reach_receive show ?case
    by (simp add: receive_verified_eq commit_replay_floor_def wf_intros split: if_splits)
next
  case (reach_restore_floor s r)
  then show ?case using keys_ok_restore_floor(1)
    by (auto simp: restore_replay_counter_def commit_frame_counter_for_key_def wf_intros split: option.splits)
next
  case (reach_commit s q src c protect)
  then show ?case using key_by_seq_installed by (auto intro!: keys_ok_commit simp: wf_intros)
next
  case (reach_commit_for_key s q src c)
  then show ?case using key_by_seq_installed by (auto intro!: keys_ok_commit simp: wf_intros commit_frame_counter_for_key_def)
next
  case (reach_commit_active s src c)
  then have "checked \<longrightarrow> keys_ok (snd (commit_frame_counter s src c))" using active_key_installed keys_ok_commit
    unfolding commit_frame_counter_def commit_frame_counter_for_key_def by (metis option.case_eq_if option.collapse)
  with reach_commit_active show ?case by (simp add: wf_intros commit_frame_counter_def commit_frame_counter_for_key_def)
next
  case (reach_timeout s n)
  then show ?case by (simp add: wf_intros keys_ok_timeout)
qed (simp_all add: key_invs wf_intros slots_ok_key_ops)

text \<open>
  C24: the key-slot invariant.  In every state reachable through the operations of the security component slot 0 holds the active
  key, slot 1 at most one inactive key of another sequence number, a staged
  sequence always names slot 1 and is newer than the active key, and there are at most 64 replay floors, one per source
  and key.  As long as every floor was committed under a key then installed, as the receive path does, floors exist for
  the installed keys only: no key operation leaves a floor of a removed key behind.
\<close>

theorem key_slots_invariant:
  assumes "key_reach checked s"
  shows "slots_ok s \<and> fct_wf s \<and> (checked \<longrightarrow> keys_ok s)"
  using key_reach_ok[OF assms] .

theorem key_slots_invariant_witness:
  "keys_ok (snd (stage_network_key (snd (commit_frame_counter (set_network_key NwkSecurity_new (replicate 16 1) 255) (replicate 8 1) 5)) (replicate 16 2) 0)) \<and>
   slots_ok (snd (commit_frame_counter_for_key (set_network_key NwkSecurity_new (replicate 16 1) 1) (replicate 8 1) 2 5))"
proof -
  have "active_key (set_network_key NwkSecurity_new (replicate 16 1) 255) \<noteq> None" by (simp add: key_op_defs NwkSecurity_new_def)
  then have "key_reach True (snd (stage_network_key (snd (commit_frame_counter (set_network_key NwkSecurity_new (replicate 16 1) 255) (replicate 8 1) 5)) (replicate 16 2) 0))"
    by (intro reach_stage reach_commit_active reach_set reach_new) simp
  moreover have "key_reach False (snd (commit_frame_counter_for_key (set_network_key NwkSecurity_new (replicate 16 1) 1) (replicate 8 1) 2 5))"
    by (intro reach_commit_for_key reach_set reach_new) simp
  ultimately show ?thesis using key_slots_invariant by blast
qed

lemma key_sequence_newer_asym: "key_sequence_is_newer a b \<Longrightarrow> \<not> key_sequence_is_newer b a"
proof -
  have "a - b = 0 - (b - a)" by simp
  moreover have "\<not> 0 - x < 0x80 \<or> \<not> x < 0x80 \<or> x = 0" for x :: u8
    using unat_sub_if'[of 0 x] unsigned_greater_eq[of x]
    by (auto simp: word_less_nat_alt unat_eq_zero not_less size_word_def split: if_splits)
  ultimately show "key_sequence_is_newer a b \<Longrightarrow> \<not> key_sequence_is_newer b a"
    unfolding key_sequence_is_newer_def Let_def by metis
qed

text \<open>
  C25: keys only move forward.  In a reachable state \<^verbatim>\<open>activate_network_key\<close> succeeds exactly for the
  active sequence, which changes nothing, and for the staged one; the latter is
  newer than the active key, never older, becomes active with its staged material, leaves the old key
  retained in slot 1 and loses no replay floor.
\<close>

theorem activation_only_forward:
  assumes "key_reach checked s" "active_key s = Some a" "activate_network_key s q = (ok, s')"
  shows "(ok \<longleftrightarrow> q = nk_seq_number a \<or> ns_staged s = Some q) \<and>
    ns_counters s' = ns_counters s \<and>
    (if ns_staged s = Some q
     then \<exists>b. staged_key s = Some b \<and> active_key s' = Some (b\<lparr>nk_active := True\<rparr>) \<and> nk_seq_number b = q \<and>
       ns_key1 s' = Some (a\<lparr>nk_active := False\<rparr>) \<and> ns_staged s' = None \<and>
       key_sequence_is_newer q (nk_seq_number a) \<and> \<not> key_sequence_is_newer (nk_seq_number a) q
     else s' = s)"
proof -
  from key_reach_ok[OF assms(1)] have ok: "slots_ok s" by simp
  from assms(2) have k0: "ns_key0 s = Some a" "nk_active a" by (auto simp: active_key_def split: option.splits if_splits)
  show ?thesis
  proof (cases "ns_staged s = Some q")
    case True
    with ok k0 obtain b where b: "ns_key1 s = Some b" "nk_seq_number b = q" "nk_seq_number b \<noteq> nk_seq_number a"
      "key_sequence_is_newer q (nk_seq_number a)"
      by (auto simp: slots_ok_def split: option.splits)
    with True k0 assms(3) key_sequence_newer_asym[OF b(4)] show ?thesis
      by (auto simp: activate_network_key_def has_seq_def active_key_def swap_keys_def unseal_previous_key_def
          staged_key_def key_by_seq_def)
  next
    case False
    have "map_option (\<lambda>k. k\<lparr>nk_active := False\<rparr>) (ns_key1 s) = ns_key1 s"
      using ok k0 by (auto simp: slots_ok_def split: option.splits)
    with False k0 assms(3) show ?thesis
      by (auto simp: activate_network_key_def has_seq_def split: if_splits)
  qed
qed

theorem activation_only_forward_witness:
  "fst (activate_network_key
     (snd (stage_network_key (set_network_key NwkSecurity_new (replicate 16 1) 255) (replicate 16 2) 0)) 0)"
proof -
  let ?s = "snd (stage_network_key (set_network_key NwkSecurity_new (replicate 16 1) 255) (replicate 16 2) 0)"
  have "key_reach True ?s" by (intro reach_stage reach_set reach_new)
  moreover have "active_key ?s = Some \<lparr>nk_key = replicate 16 1, nk_seq_number = 255, nk_active = True\<rparr>"
    and "ns_staged ?s = Some 0"
    by (simp_all add: key_op_defs NwkSecurity_new_def key_sequence_is_newer_def)
  ultimately show ?thesis
    using activation_only_forward[of True ?s _ 0 "fst (activate_network_key ?s 0)" "snd (activate_network_key ?s 0)"]
    by simp
qed

abbreviation key_id :: "NetworkKeyEntry \<Rightarrow> AesKey \<times> u8" where
  "key_id k \<equiv> (nk_key k, nk_seq_number k)"

text \<open>
  C26: key rollover.  Staging a newer key, switching to it and retiring the old one, in that order, from any
  reachable state: each step succeeds; the old key stays active until the switch and usable
  for reception until it is retired; its replay floors survive until then and are gone with it;
  the floors of the new key start empty.
\<close>

theorem key_rollover:
  assumes "key_reach checked s" "active_key s = Some a" "key_sequence_is_newer q (nk_seq_number a)"
    "\<not> has_key (ns_key1 s) key q"
    "stage_network_key s key q = (ok1, s1)" "activate_network_key s1 q = (ok2, s2)"
    "retire_previous_network_key s2 = (old, s3)"
  shows "ok1 \<and> active_key s1 = Some a \<and> map_option key_id (key_by_seq s1 q) = Some (key, q) \<and>
    ok2 \<and> map_option key_id (active_key s2) = Some (key, q) \<and>
    map_option key_id (key_by_seq s2 (nk_seq_number a)) = Some (key_id a) \<and>
    ns_counters s2 = filter (\<lambda>e. fc_key_sequence e = nk_seq_number a) (ns_counters s) \<and>
    map_option key_id old = Some (key_id a) \<and> active_key s3 = active_key s2 \<and>
    key_by_seq s3 (nk_seq_number a) = None \<and> ns_counters s3 = []"
proof -
  from assms(2) have k0: "ns_key0 s = Some a" "nk_active a" by (auto simp: active_key_def split: option.splits if_splits)
  have ne: "q \<noteq> nk_seq_number a" using assms(3) by (auto simp: key_sequence_is_newer_def)
  let ?c = "filter (\<lambda>e. fc_key_sequence e = nk_seq_number a) (ns_counters s)"
  have c: "filter (\<lambda>e. fc_key_sequence e \<noteq> q \<and> (fc_key_sequence e = nk_seq_number a \<or> fc_key_sequence e = q))
      (ns_counters s) = ?c" using ne by (intro filter_cong) auto
  have s1: "ok1" "s1 = s\<lparr>ns_key1 := Some \<lparr>nk_key = key, nk_seq_number = q, nk_active = False\<rparr>,
      ns_staged := Some q, ns_sealed := False, ns_counters := ?c\<rparr>"
    using assms(3-5) k0 ne c
    by (auto simp: stage_network_key_def Let_def retain_frame_counters_for_installed_keys_def
        clear_frame_counters_for_key_def unseal_previous_key_def conj_commute)
  have s2: "ok2" "s2 = s1\<lparr>ns_key0 := Some \<lparr>nk_key = key, nk_seq_number = q, nk_active = True\<rparr>,
      ns_key1 := Some (a\<lparr>nk_active := False\<rparr>), ns_staged := None, ns_sealed := False\<rparr>"
    using assms(3,6) k0 ne unfolding s1(2)
    by (auto simp: activate_network_key_def has_seq_def active_key_def swap_keys_def unseal_previous_key_def)
  have s3: "old = Some (a\<lparr>nk_active := False\<rparr>)" "s3 = s2\<lparr>ns_key1 := None, ns_counters := []\<rparr>"
    using assms(7) ne unfolding s2(2) s1(2)
    by (auto simp: retire_previous_network_key_def retain_frame_counters_for_installed_keys_def
        unseal_previous_key_def Let_def filter_empty_conv)
  show ?thesis using s1(1) s2(1) k0 ne unfolding s3 s2(2) s1(2)
    by (simp add: active_key_def key_by_seq_def)
qed

theorem key_rollover_witness:
  "\<exists>s2. activate_network_key (snd (stage_network_key
     (set_network_key NwkSecurity_new (replicate 16 1) 255) (replicate 16 2) 0)) 0 = (True, s2) \<and>
     map_option key_id (active_key s2) = Some (replicate 16 2, 0)"
proof -
  let ?s = "set_network_key NwkSecurity_new (replicate 16 1) 255"
  let ?s1 = "snd (stage_network_key ?s (replicate 16 2) 0)"
  let ?s2 = "snd (activate_network_key ?s1 0)"
  have "active_key ?s = Some \<lparr>nk_key = replicate 16 1, nk_seq_number = 255, nk_active = True\<rparr>"
    "\<not> has_key (ns_key1 ?s) (replicate 16 2) 0"
    by (simp_all add: key_op_defs NwkSecurity_new_def)
  from key_rollover[OF reach_set[OF reach_new[of True]] this(1) _ this(2), of "fst (stage_network_key ?s (replicate 16 2) 0)"
      ?s1 "fst (activate_network_key ?s1 0)" ?s2 "fst (retire_previous_network_key ?s2)"
      "snd (retire_previous_network_key ?s2)"]
  show ?thesis by (intro exI[of _ ?s2]) (simp add: key_sequence_is_newer_def prod_eq_iff)
qed

text \<open>
  C32: the seal of the previous key can be lifted without a change of the installed keys.
  When the retained previous key is newer than the active one (the active key having
  been set back to an older sequence), an identical second delivery of it stages
  it, and a domain under it, which the seal refused to admit at any counter, is admitted
  again wherever there is room.
\<close>

theorem restaging_lifts_seal:
  assumes "keys_ok s" "ns_key0 s = Some a" "ns_key1 s = Some p" "ns_staged s = None" "ns_sealed s"
    "key_sequence_is_newer (nk_seq_number p) (nk_seq_number a)"
    "\<not> has_frame_counter_for_key s src (nk_seq_number p)"
    "length (ns_counters s) < MAX_FRAME_COUNTER_ENTRIES"
    "stage_network_key s (nk_key p) (nk_seq_number p) = (ok, s')"
  shows "check_frame_counter_reserving s src (nk_seq_number p) c 0 protect = TableFull \<and>
    ok \<and> ns_key0 s' = ns_key0 s \<and> ns_key1 s' = ns_key1 s \<and>
    check_frame_counter_reserving s' src (nk_seq_number p) c 0 protect = Fresh"
proof -
  have n: "find (fc_for src (nk_seq_number p)) (ns_counters s) = None"
    using assms(7) by (auto simp: has_frame_counter_for_key_def find_None_iff list_ex_iff)
  have ne: "nk_seq_number a \<noteq> nk_seq_number p" using assms(6) by (auto simp: key_sequence_is_newer_def)
  have s': "ok" "s' = s\<lparr>ns_staged := Some (nk_seq_number p)\<rparr>"
    using assms(2,3,6,9) ne by (simp_all add: stage_network_key_def has_key_def)
  show ?thesis
    using n assms(3-5,8) s'(1) unfolding s'(2)
    by (simp add: check_frame_counter_reserving_def reclaimable_key_sequence_def Let_def)
qed

theorem restaging_lifts_seal_witness:
  "\<exists>s s'. ns_sealed s \<and> stage_network_key s (replicate 16 5) 5 = (True, s') \<and>
     check_frame_counter_reserving s (replicate 8 1) 5 0 0 (\<lambda>_. False) = TableFull \<and>
     check_frame_counter_reserving s' (replicate 8 1) 5 0 0 (\<lambda>_. False) = Fresh"
proof -
  define a where "a = \<lparr>nk_key = replicate 16 3, nk_seq_number = (3 :: u8), nk_active = True\<rparr>"
  define p where "p = \<lparr>nk_key = replicate 16 5, nk_seq_number = (5 :: u8), nk_active = False\<rparr>"
  define s where "s = NwkSecurity_new\<lparr>ns_key0 := Some a, ns_key1 := Some p, ns_sealed := True\<rparr>"
  note d = s_def a_def p_def NwkSecurity_new_def
  have h: "keys_ok s" "ns_key0 s = Some a" "ns_key1 s = Some p" "ns_staged s = None" "ns_sealed s"
    "key_sequence_is_newer (nk_seq_number p) (nk_seq_number a)"
    "\<not> has_frame_counter_for_key s (replicate 8 1) (nk_seq_number p)"
    "length (ns_counters s) < MAX_FRAME_COUNTER_ENTRIES"
    by (simp_all add: d keys_ok_def key_sequence_is_newer_def has_frame_counter_for_key_def
        MAX_FRAME_COUNTER_ENTRIES_def)
  obtain ok s' where st: "stage_network_key s (nk_key p) (nk_seq_number p) = (ok, s')" by fastforce
  from restaging_lifts_seal[OF h st, of 0 "\<lambda>_. False"] h(5) st show ?thesis
    by (intro exI[of _ s] exI[of _ s']) (simp add: p_def)
qed

end
