(* ===== verification/Leaf_Replay.thy ===== *)
theory Leaf_Replay
  imports Nwk_Security
begin

text \<open>
  The replay table of the end-device build (\<^verbatim>\<open>zigbee-nwk/src/security.rs\<close> without the \<^verbatim>\<open>router\<close> feature, and its branches of
  \<^verbatim>\<open>incoming_replay_admission\<close> and \<^verbatim>\<open>commit_replay_floor\<close> in \<^verbatim>\<open>nlde.rs\<close>): sixteen floors in the order of admission, of which one is
  kept for the parent.  The table is the list of its entries; an entry of this build has no silence timer.
\<close>

section \<open>Operations\<close>

definition LEAF_MAX_FRAME_COUNTER_ENTRIES :: nat where "LEAF_MAX_FRAME_COUNTER_ENTRIES = 16"

record LeafCounterEntry =
  lc_source :: IeeeAddress
  lc_key_sequence :: u8
  lc_counter :: u32

abbreviation lc_for :: "IeeeAddress \<Rightarrow> u8 \<Rightarrow> LeafCounterEntry \<Rightarrow> bool" where
  "lc_for source key_sequence e \<equiv> lc_source e = source \<and> lc_key_sequence e = key_sequence"

definition leaf_admits_new_domain :: "LeafCounterEntry list \<Rightarrow> IeeeAddress \<Rightarrow> u8 \<Rightarrow> IeeeAddress option \<Rightarrow> bool" where
  "leaf_admits_new_domain table source key_sequence parent =
     (let free = LEAF_MAX_FRAME_COUNTER_ENTRIES - length table
      in case parent of
           Some p \<Rightarrow>
             if p = source then free > 0 \<or> list_ex (\<lambda>e. lc_source e \<noteq> p) table
             else free > (if \<not> list_ex (lc_for p key_sequence) table then 1 else 0)
         | None \<Rightarrow> free > 0)"

definition replay_admission :: "LeafCounterEntry list \<Rightarrow> IeeeAddress \<Rightarrow> u8 \<Rightarrow> u32 \<Rightarrow> IeeeAddress option \<Rightarrow> ReplayAdmission" where
  "replay_admission table source key_sequence counter parent =
     (case find (lc_for source key_sequence) table of
        Some e \<Rightarrow> if counter > lc_counter e then Fresh else Replay
      | None \<Rightarrow> if leaf_admits_new_domain table source key_sequence parent then Fresh else TableFull)"

definition commit_frame_counter_for_key_with_parent ::
    "LeafCounterEntry list \<Rightarrow> IeeeAddress \<Rightarrow> u8 \<Rightarrow> u32 \<Rightarrow> IeeeAddress option \<Rightarrow> bool \<times> LeafCounterEntry list" where
  "commit_frame_counter_for_key_with_parent table source key_sequence counter parent =
     (if list_ex (lc_for source key_sequence) table
      then (True, update_first (lc_for source key_sequence) (\<lambda>e. e\<lparr>lc_counter := max (lc_counter e) counter\<rparr>) table)
      else if \<not> leaf_admits_new_domain table source key_sequence parent then (False, table)
      else let table = (if length table = LEAF_MAX_FRAME_COUNTER_ENTRIES
                        then (case position (\<lambda>e. lc_source e \<noteq> source) table of
                                Some index \<Rightarrow> vec_remove index table | None \<Rightarrow> table)
                        else table)
           in case vec_push LEAF_MAX_FRAME_COUNTER_ENTRIES
                     \<lparr>lc_source = source, lc_key_sequence = key_sequence, lc_counter = counter\<rparr> table of
                Some t \<Rightarrow> (True, t) | None \<Rightarrow> (False, table))"

text \<open>The glue: the parent is the one named by a rejoin, or else the one in the neighbor table.\<close>

definition leaf_parent :: "NeighborTable \<Rightarrow> IeeeAddress option \<Rightarrow> IeeeAddress option" where
  "leaf_parent neighbors rejoin_parent =
     (case rejoin_parent of Some p \<Rightarrow> Some p | None \<Rightarrow> map_option nb_ieee_address (NeighborTable_parent neighbors))"

definition leaf_incoming_replay_admission ::
    "NeighborTable \<Rightarrow> LeafCounterEntry list \<Rightarrow> IeeeAddress \<Rightarrow> u8 \<Rightarrow> u32 \<Rightarrow> IeeeAddress option \<Rightarrow> ReplayAdmission" where
  "leaf_incoming_replay_admission neighbors table source key_sequence counter rejoin_parent =
     replay_admission table source key_sequence counter (leaf_parent neighbors rejoin_parent)"

definition leaf_commit_replay_floor ::
    "NeighborTable \<Rightarrow> LeafCounterEntry list \<Rightarrow> NwkReplayCounter \<Rightarrow> IeeeAddress option \<Rightarrow> bool \<times> LeafCounterEntry list" where
  "leaf_commit_replay_floor neighbors table replay rejoin_parent =
     commit_frame_counter_for_key_with_parent table (rc_source replay) (rc_key_sequence replay) (rc_counter replay)
       (leaf_parent neighbors rejoin_parent)"

section \<open>The table as a replay guard\<close>

text \<open>A verified frame: admission, then the recording of its floor, with the same parent.\<close>

definition leaf_receive ::
    "NeighborTable \<times> IeeeAddress option \<times> NwkReplayCounter \<Rightarrow> LeafCounterEntry list \<Rightarrow> bool \<times> LeafCounterEntry list" where
  "leaf_receive ev table = (case ev of (neighbors, rejoin_parent, r) \<Rightarrow>
     if leaf_incoming_replay_admission neighbors table (rc_source r) (rc_key_sequence r) (rc_counter r) rejoin_parent = Fresh
     then leaf_commit_replay_floor neighbors table r rejoin_parent else (False, table))"

definition leaf_frame :: "NeighborTable \<times> IeeeAddress option \<times> NwkReplayCounter \<Rightarrow> ((IeeeAddress \<times> u8) \<times> u32) option" where
  "leaf_frame ev = (case ev of (_, _, r) \<Rightarrow> Some ((rc_source r, rc_key_sequence r), rc_counter r))"

definition leaf_parent_is :: "IeeeAddress \<Rightarrow> NeighborTable \<times> IeeeAddress option \<times> NwkReplayCounter \<Rightarrow> bool" where
  "leaf_parent_is p ev = (case ev of (neighbors, rejoin_parent, _) \<Rightarrow> leaf_parent neighbors rejoin_parent = Some p)"

abbreviation lc_key :: "LeafCounterEntry \<Rightarrow> IeeeAddress \<times> u8" where
  "lc_key e \<equiv> (lc_source e, lc_key_sequence e)"

definition leaf_wf :: "LeafCounterEntry list \<Rightarrow> bool" where
  "leaf_wf t \<longleftrightarrow> length t \<le> LEAF_MAX_FRAME_COUNTER_ENTRIES \<and> distinct (map lc_key t)"

definition leaf_held :: "LeafCounterEntry list \<Rightarrow> IeeeAddress \<times> u8 \<Rightarrow> u32 \<Rightarrow> bool" where
  "leaf_held t d c \<longleftrightarrow> (\<exists>e\<in>set t. lc_key e = d \<and> c \<le> lc_counter e)"

abbreviation leaf_entry :: "IeeeAddress \<Rightarrow> u8 \<Rightarrow> u32 \<Rightarrow> LeafCounterEntry" where
  "leaf_entry src q c \<equiv> \<lparr>lc_source = src, lc_key_sequence = q, lc_counter = c\<rparr>"

lemma leaf_commit_cases:
  assumes wf: "leaf_wf t"
  obtains (refused) "commit_frame_counter_for_key_with_parent t src q c parent = (False, t)"
      "\<not> list_ex (lc_for src q) t" "\<not> leaf_admits_new_domain t src q parent"
    | (known) i where "i < length t" "lc_key (t ! i) = (src, q)"
        "commit_frame_counter_for_key_with_parent t src q c parent =
          (True, t[i := (t ! i)\<lparr>lc_counter := max (lc_counter (t ! i)) c\<rparr>])"
    | (pushed) "\<not> list_ex (lc_for src q) t" "length t < LEAF_MAX_FRAME_COUNTER_ENTRIES"
        "commit_frame_counter_for_key_with_parent t src q c parent = (True, t @ [leaf_entry src q c])"
    | (replaced) i where "\<not> list_ex (lc_for src q) t" "parent = Some src" "i < length t" "lc_source (t ! i) \<noteq> src"
        "length t = LEAF_MAX_FRAME_COUNTER_ENTRIES"
        "commit_frame_counter_for_key_with_parent t src q c parent = (True, vec_remove i t @ [leaf_entry src q c])"
proof (cases "list_ex (lc_for src q) t")
  case True
  then obtain i where i: "position (lc_for src q) t = Some i"
    using position_Some_exists[of _ t "lc_for src q"] by (auto simp: list_ex_iff)
  from position_SomeD[OF i] i True show ?thesis
    by (intro known[of i]) (simp_all add: commit_frame_counter_for_key_with_parent_def update_first_position)
next
  case nl: False
  show ?thesis
  proof (cases "leaf_admits_new_domain t src q parent")
    case False
    with nl show ?thesis by (intro refused) (simp_all add: commit_frame_counter_for_key_with_parent_def)
  next
    case True
    show ?thesis
    proof (cases "length t = LEAF_MAX_FRAME_COUNTER_ENTRIES")
      case False
      with wf have l: "length t < LEAF_MAX_FRAME_COUNTER_ENTRIES" by (simp add: leaf_wf_def)
      with nl True False show ?thesis
        by (intro pushed) (simp_all add: commit_frame_counter_for_key_with_parent_def vec_push_def)
    next
      case full: True
      with True have p: "parent = Some src" "list_ex (\<lambda>e. lc_source e \<noteq> src) t"
        by (auto simp: leaf_admits_new_domain_def Let_def split: option.splits if_splits)
      then obtain i where i: "position (\<lambda>e. lc_source e \<noteq> src) t = Some i"
        using position_Some_exists[of _ t "\<lambda>e. lc_source e \<noteq> src"] by (auto simp: list_ex_iff)
      have il: "i < length t" "lc_source (t ! i) \<noteq> src" using position_SomeD[OF i] by auto
      have "length (vec_remove i t) < LEAF_MAX_FRAME_COUNTER_ENTRIES" using il full by (simp add: vec_remove_def)
      with nl True full i il p show ?thesis
        by (intro replaced[of i]) (simp_all add: commit_frame_counter_for_key_with_parent_def vec_push_def)
    qed
  qed
qed

lemma set_vec_remove: "set (vec_remove i t) \<subseteq> set t" "e \<in> set t \<Longrightarrow> e \<noteq> t ! i \<Longrightarrow> e \<in> set (vec_remove i t)"
proof -
  show "set (vec_remove i t) \<subseteq> set t" by (auto simp: vec_remove_def dest: in_set_takeD in_set_dropD)
  assume e: "e \<in> set t" "e \<noteq> t ! i"
  show "e \<in> set (vec_remove i t)"
  proof (cases "i < length t")
    case True
    then show ?thesis using e id_take_nth_drop[OF True] unfolding vec_remove_def by (metis Un_iff set_ConsD set_append)
  qed (use e in \<open>simp add: vec_remove_def\<close>)
qed

lemma distinct_vec_remove:
  assumes "distinct (map k t)"
  shows "distinct (map k (vec_remove i t))"
proof (cases "i < length t")
  case True
  have "distinct (map k (take i t @ t ! i # drop (Suc i) t))"
    using assms unfolding id_take_nth_drop[OF True, symmetric] .
  then show ?thesis by (simp add: vec_remove_def)
qed (use assms in \<open>simp add: vec_remove_def\<close>)

lemma leaf_wf_commit:
  assumes wf: "leaf_wf t"
  shows "leaf_wf (snd (commit_frame_counter_for_key_with_parent t src q c parent))"
  using wf
proof (cases rule: leaf_commit_cases[of _ src q c parent])
  case (known i)
  then have "map lc_key (t[i := (t ! i)\<lparr>lc_counter := max (lc_counter (t ! i)) c\<rparr>]) = map lc_key t"
    by (simp add: map_update list_update_same_conv)
  with known wf show ?thesis unfolding leaf_wf_def by simp
next
  case pushed
  with wf show ?thesis by (auto simp: leaf_wf_def list_ex_iff)
next
  case (replaced i)
  have "(src, q) \<notin> lc_key ` set (vec_remove i t)" using replaced(1) set_vec_remove(1)[of i t] by (auto simp: list_ex_iff)
  with replaced wf distinct_vec_remove[of lc_key t i] show ?thesis
    by (auto simp: leaf_wf_def vec_remove_def)
qed (use wf in simp)

lemma leaf_held_commit:
  assumes wf: "leaf_wf t" and held: "leaf_held t (p, q) c"
  shows "leaf_held (snd (commit_frame_counter_for_key_with_parent t src' q' c' (Some p))) (p, q) c"
  using wf
proof (cases rule: leaf_commit_cases[of _ src' q' c' "Some p"])
  case (known i)
  have "lc_key (t ! i) = (p, q) \<and> c \<le> lc_counter (t ! i) \<Longrightarrow>
      lc_key ((t ! i)\<lparr>lc_counter := max (lc_counter (t ! i)) c'\<rparr>) = (p, q) \<and>
      c \<le> lc_counter ((t ! i)\<lparr>lc_counter := max (lc_counter (t ! i)) c'\<rparr>)"
    by (auto intro: order.trans[OF _ max.cobounded1])
  from bex_list_update[where P = "\<lambda>e. lc_key e = (p, q) \<and> c \<le> lc_counter e", OF _ known(1) this] held known(3)
  show ?thesis by (simp add: leaf_held_def)
next
  case (replaced i)
  from held obtain e where e: "e \<in> set t" "lc_key e = (p, q)" "c \<le> lc_counter e" unfolding leaf_held_def by blast
  with replaced(2,4) have "e \<noteq> t ! i" by auto
  with e set_vec_remove(2)[of e t i] replaced(6) show ?thesis by (auto simp: leaf_held_def)
qed (use held in \<open>auto simp: leaf_held_def\<close>)

lemma leaf_find:
  assumes "leaf_wf t" "e \<in> set t" "lc_key e = (src, q)"
  shows "find (lc_for src q) t = Some e"
proof -
  have "find (lc_for src q) t \<noteq> None" using assms by (auto simp: find_None_iff)
  then obtain x where x: "find (lc_for src q) t = Some x" by blast
  from find_SomeD[OF x] assms have "x = e" unfolding leaf_wf_def by (auto dest: inj_onD simp: distinct_map)
  with x show ?thesis by simp
qed

lemma leaf_records:
  assumes "leaf_wf t" "fst (commit_frame_counter_for_key_with_parent t src q c parent)"
  shows "leaf_held (snd (commit_frame_counter_for_key_with_parent t src q c parent)) (src, q) c"
  using assms(1)
proof (cases rule: leaf_commit_cases[of _ src q c parent])
  case (known i)
  then show ?thesis unfolding leaf_held_def by (auto intro!: bexI[OF _ set_update_memI[OF known(1)]])
qed (use assms(2) in \<open>auto simp: leaf_held_def\<close>)

interpretation leaf_guard: replay_guard leaf_receive leaf_frame "\<lambda>d. leaf_parent_is (fst d)" leaf_wf leaf_held
proof
  fix t ev
  assume "leaf_wf t"
  then show "leaf_wf (snd (leaf_receive ev t))"
    by (auto simp: leaf_receive_def leaf_commit_replay_floor_def leaf_wf_commit split: prod.splits)
next
  fix t ev d c
  assume "leaf_wf t" "leaf_parent_is (fst d) ev" "leaf_held t d c"
  then show "leaf_held (snd (leaf_receive ev t)) d c"
    by (cases d) (auto simp: leaf_receive_def leaf_commit_replay_floor_def leaf_parent_is_def leaf_held_commit split: prod.splits)
next
  fix t ev d c
  assume "leaf_wf t" "leaf_frame ev = Some (d, c)" "fst (leaf_receive ev t)"
  then show "leaf_held (snd (leaf_receive ev t)) d c"
    by (auto simp: leaf_receive_def leaf_frame_def leaf_commit_replay_floor_def leaf_records split: prod.splits if_splits)
next
  fix t ev d c c'
  assume a: "leaf_wf t" "leaf_held t d c" "leaf_frame ev = Some (d, c')" "fst (leaf_receive ev t)"
  then obtain e where e: "e \<in> set t" "lc_key e = d" "c \<le> lc_counter e" unfolding leaf_held_def by blast
  from leaf_find[OF a(1) e(1)] e(2) a(3,4) have "lc_counter e < c'"
    by (auto simp: leaf_receive_def leaf_frame_def leaf_incoming_replay_admission_def replay_admission_def
        split: prod.splits if_splits)
  with e(3) show "c < c'" by simp
qed

text \<open>
  C15: the end device's replay table serves its parent.  Admission and recording agree; while a device keeps the same parent, no interleaving of other
  traffic makes it accept a frame of the parent a second time; and the parent is refused for lack of
  room only when all sixteen floors are the parent's own.
\<close>

theorem leaf_parent_protected:
  assumes "leaf_wf t"
  shows "(fst (leaf_receive (nb, rj, r) t) \<longleftrightarrow>
      leaf_incoming_replay_admission nb t (rc_source r) (rc_key_sequence r) (rc_counter r) rj = Fresh) \<and>
    (leaf_parent nb rj = Some (rc_source r) \<and>
     leaf_incoming_replay_admission nb t (rc_source r) (rc_key_sequence r) (rc_counter r) rj = TableFull \<longrightarrow>
       length t = LEAF_MAX_FRAME_COUNTER_ENTRIES \<and> (\<forall>e\<in>set t. lc_source e = rc_source r)) \<and>
    (fst (leaf_receive (nb, rj, r) t) \<and> list_all (leaf_parent_is (rc_source r)) evs \<and>
     rc_source r' = rc_source r \<and> rc_key_sequence r' = rc_key_sequence r \<and>
     fst (leaf_receive (nb', rj', r') (fold (\<lambda>ev t. snd (leaf_receive ev t)) evs (snd (leaf_receive (nb, rj, r) t)))) \<longrightarrow>
       rc_counter r < rc_counter r')"
proof (intro conjI impI)
  let ?src = "rc_source r" and ?q = "rc_key_sequence r" and ?c = "rc_counter r"
  show "fst (leaf_receive (nb, rj, r) t) \<longleftrightarrow> leaf_incoming_replay_admission nb t ?src ?q ?c rj = Fresh"
    using assms
  proof (cases rule: leaf_commit_cases[of _ ?src ?q ?c "leaf_parent nb rj"])
    case refused
    then have "find (lc_for ?src ?q) t = None" by (auto simp: find_None_iff list_ex_iff)
    with refused show ?thesis
      by (simp add: leaf_receive_def leaf_commit_replay_floor_def leaf_incoming_replay_admission_def replay_admission_def)
  qed (simp_all add: leaf_receive_def leaf_commit_replay_floor_def)
next
  assume "leaf_parent nb rj = Some (rc_source r) \<and>
     leaf_incoming_replay_admission nb t (rc_source r) (rc_key_sequence r) (rc_counter r) rj = TableFull"
  then have "\<not> leaf_admits_new_domain t (rc_source r) (rc_key_sequence r) (Some (rc_source r))"
    by (auto simp: leaf_incoming_replay_admission_def replay_admission_def split: option.splits if_splits)
  with assms show "length t = LEAF_MAX_FRAME_COUNTER_ENTRIES" "\<forall>e\<in>set t. lc_source e = rc_source r"
    by (auto simp: leaf_admits_new_domain_def leaf_wf_def list_ex_iff Let_def)
next
  assume "fst (leaf_receive (nb, rj, r) t) \<and> list_all (leaf_parent_is (rc_source r)) evs \<and>
     rc_source r' = rc_source r \<and> rc_key_sequence r' = rc_key_sequence r \<and>
     fst (leaf_receive (nb', rj', r') (fold (\<lambda>ev t. snd (leaf_receive ev t)) evs (snd (leaf_receive (nb, rj, r) t))))"
  then show "rc_counter r < rc_counter r'"
    using leaf_guard.no_replay[OF assms, of "(nb, rj, r)" "(rc_source r, rc_key_sequence r)" "rc_counter r" evs
        "(nb', rj', r')" "rc_counter r'"]
    by (simp add: leaf_frame_def leaf_guard.run_def)
qed

theorem leaf_parent_protected_witness:
  "\<exists>r. fst (leaf_receive (NeighborTable_new, Some (replicate 8 1), r) [])"
proof -
  let ?r = "\<lparr>rc_source = replicate 8 1, rc_key_sequence = 0, rc_key_fingerprint = 0, rc_counter = 5\<rparr>"
  have "leaf_wf []" by (simp add: leaf_wf_def)
  moreover have "leaf_incoming_replay_admission NeighborTable_new [] (replicate 8 1) 0 5 (Some (replicate 8 1)) = Fresh"
    by (simp add: leaf_incoming_replay_admission_def replay_admission_def leaf_admits_new_domain_def leaf_parent_def
        LEAF_MAX_FRAME_COUNTER_ENTRIES_def)
  ultimately show ?thesis
    using leaf_parent_protected[of "[]" NeighborTable_new "Some (replicate 8 1)" ?r] by (intro exI[of _ ?r]) auto
qed

end
