(* ===== verification/Secured_Frames.thy ===== *)
theory Secured_Frames
  imports Nwk_Security
begin

text \<open>
  The life of a secured NWK frame (\<^verbatim>\<open>zigbee-nwk/src/nlde.rs\<close>, \<^verbatim>\<open>security.rs\<close>, \<^verbatim>\<open>nib.rs\<close>): the outgoing frame
  counter and its durable reservation, \<^verbatim>\<open>build_nwk_frame\<close>, which serializes, encrypts and masks the security
  level of a frame, and \<^verbatim>\<open>authenticate_incoming\<close>, which parses, admits, rebuilds the
  authenticated data, verifies and decrypts.  The AES provider (\<^verbatim>\<open>self.mac\<close>) is the argument \<open>provider\<close>.
\<close>

section \<open>Outgoing counters\<close>

record NwkRxSecurityStats =
  st_secured_frames :: u32
  st_security_header_parse_failures :: u32
  st_missing_keys :: u32
  st_replay_rejections :: u32
  st_replay_table_full :: u32
  st_decrypt_successes :: u32
  st_decrypt_failures :: u32

datatype NwkStatus =
    NwkSuccess | InvalidParameter | InvalidRequest | NotPermitted | StartupFailure | AlreadyPresent | SyncFailure
  | NeighborTableFull | UnknownDevice | UnsupportedAttribute | NoNetworks | MaxFrmCounterReached | NoKey
  | BadCcmOutput | RouteDiscoveryFailed | RouteError | BtTableFull | FrameNotBuffered | FrameTooLong

text \<open>The fields of \<^verbatim>\<open>NwkLayer\<close> and its \<^verbatim>\<open>nib\<close> that securing and authenticating a frame use.\<close>

record NwkLayer =
  nl_ieee_address :: IeeeAddress
  nl_outgoing_frame_counter :: u32
  nl_outgoing_frame_counter_limit :: u32
  nl_active_key_seq_number :: u8
  nl_security :: NwkSecurity
  nl_neighbors :: NeighborTable
  nl_lifecycle_persistence_enabled :: bool
  nl_stats :: NwkRxSecurityStats

definition MAX_NWK_FRAME :: nat where "MAX_NWK_FRAME = 128"
definition MAX_NWK_AAD :: nat where "MAX_NWK_AAD = 80"

definition next_frame_counter :: "NwkLayer \<Rightarrow> u32 option \<times> NwkLayer" where
  "next_frame_counter l =
     (if nl_outgoing_frame_counter l \<ge> nl_outgoing_frame_counter_limit l then (None, l)
      else (Some (nl_outgoing_frame_counter l), l\<lparr>nl_outgoing_frame_counter := nl_outgoing_frame_counter l + 1\<rparr>))"

definition set_frame_counter_reservation :: "NwkLayer \<Rightarrow> u32 \<Rightarrow> u32 \<Rightarrow> bool \<times> NwkLayer" where
  "set_frame_counter_reservation l current limit =
     (if current > limit then (False, l)
      else (True, l\<lparr>nl_outgoing_frame_counter := current, nl_outgoing_frame_counter_limit := limit\<rparr>))"

section \<open>Building a frame\<close>

definition NwkSecurity_encrypt_with ::
    "'e provider \<Rightarrow> u8 list \<Rightarrow> u8 list \<Rightarrow> AesKey \<Rightarrow> NwkSecurityHeader \<Rightarrow> u8 list option" where
  "NwkSecurity_encrypt_with provider nwk_header payload key security_header =
     (case ccm_star_encrypt_with (provider key) (build_nonce security_header) nwk_header payload of
        Inr result \<Rightarrow> result | Inl hardware_error \<Rightarrow> None)"

definition NwkSecurity_decrypt_with ::
    "'e provider \<Rightarrow> u8 list \<Rightarrow> u8 list \<Rightarrow> AesKey \<Rightarrow> NwkSecurityHeader \<Rightarrow> u8 list option" where
  "NwkSecurity_decrypt_with provider nwk_header ciphertext key security_header =
     (case ccm_star_decrypt_with (provider key) (build_nonce security_header) nwk_header ciphertext of
        Inr result \<Rightarrow> result | Inl hardware_error \<Rightarrow> None)"

definition active_tx_key :: "NwkLayer \<Rightarrow> (AesKey \<times> u8) option" where
  "active_tx_key l = map_option (\<lambda>k. (nk_key k, nk_seq_number k)) (active_key (nl_security l))"

definition tx_security_header :: "NwkLayer \<Rightarrow> u32 \<Rightarrow> u8 \<Rightarrow> NwkSecurityHeader" where
  "tx_security_header l fc key_seq =
     \<lparr>sh_security_control = ZIGBEE_DEFAULT, sh_frame_counter = fc, sh_source_address = nl_ieee_address l,
      sh_key_seq_number = key_seq\<rparr>"

text \<open>\<^term>\<open>None\<close> is a panic (a serializer writing past the buffer).\<close>

definition build_nwk_frame ::
    "'e provider \<Rightarrow> NwkLayer \<Rightarrow> NwkHeader \<Rightarrow> u8 list \<Rightarrow> u8 list \<Rightarrow> ((NwkStatus + u8 list \<times> nat) \<times> NwkLayer) option" where
  "build_nwk_frame provider l header payload buf =
     (case NwkHeader_serialize header buf of
        None \<Rightarrow> None
      | Some (buf, hdr_len) \<Rightarrow>
          if \<not> fc_security (nh_frame_control header)
          then let end_off = hdr_len + length payload
               in if end_off > length buf then Some (Inl FrameTooLong, l)
                  else map_option (\<lambda>buf. (Inr (buf, end_off), l)) (put hdr_len payload buf)
          else if ns_activation_pending (nl_security l) then Some (Inl NotPermitted, l)
          else case active_tx_key l of
                 None \<Rightarrow> Some (Inl NoKey, l)
               | Some (key, key_seq_number) \<Rightarrow>
                   (case next_frame_counter l of
                      (None, l) \<Rightarrow> Some (Inl MaxFrmCounterReached, l)
                    | (Some fc, l) \<Rightarrow>
                        let sec_hdr = tx_security_header l fc key_seq_number
                        in if hdr_len + NWK_AUX_HEADER_LEN > length buf then Some (Inl FrameTooLong, l)
                           else case NwkSecurityHeader_serialize sec_hdr (drop hdr_len buf) of
                                  None \<Rightarrow> None
                                | Some (tail, aux_len) \<Rightarrow>
                                    let buf = take hdr_len buf @ tail; aad_len = hdr_len + aux_len
                                    in case NwkSecurity_encrypt_with provider (take aad_len buf) payload key sec_hdr of
                                         None \<Rightarrow> Some (Inl BadCcmOutput, l)
                                       | Some encrypted \<Rightarrow>
                                           let end_off = aad_len + length encrypted
                                           in if end_off > length buf then Some (Inl FrameTooLong, l)
                                              else map_option (\<lambda>buf. (Inr (buf[hdr_len := buf ! hdr_len AND NOT 0x07], end_off), l))
                                                     (put aad_len encrypted buf)))"

section \<open>Authenticating a frame\<close>

record AuthenticatedNwkPayload =
  au_payload :: "u8 list"
  au_security_source :: IeeeAddress
  au_replay :: NwkReplayCounter

definition bump :: "((u32 \<Rightarrow> u32) \<Rightarrow> NwkRxSecurityStats \<Rightarrow> NwkRxSecurityStats) \<Rightarrow> NwkLayer \<Rightarrow> NwkLayer" where
  "bump upd l = l\<lparr>nl_stats := upd (\<lambda>n. n + 1) (nl_stats l)\<rparr>"

definition authenticate_incoming ::
    "'e provider \<Rightarrow> NwkLayer \<Rightarrow> u8 list \<Rightarrow> nat \<Rightarrow> AuthenticatedNwkPayload option \<times> NwkLayer" where
  "authenticate_incoming provider l mac_payload header_len =
     (let l = bump st_secured_frames_update l
      in if header_len > length mac_payload then (None, l)
         else let after_header = drop header_len mac_payload
              in case NwkSecurityHeader_parse after_header of
                   None \<Rightarrow> (None, bump st_security_header_parse_failures_update l)
                 | Some (sec_hdr, sec_consumed) \<Rightarrow>
                     if \<not> uses_network_key_with_extended_nonce sec_hdr
                     then (None, bump st_security_header_parse_failures_update l)
                     else case key_by_seq (nl_security l) (sh_key_seq_number sec_hdr) of
                            None \<Rightarrow> (None, bump st_missing_keys_update l)
                          | Some entry \<Rightarrow>
                              (case incoming_replay_admission (nl_neighbors l) (nl_security l)
                                      (sh_source_address sec_hdr) (sh_key_seq_number sec_hdr) (sh_frame_counter sec_hdr) None of
                                 Replay \<Rightarrow> (None, bump st_replay_rejections_update l)
                               | TableFull \<Rightarrow> (None, bump st_replay_table_full_update l)
                               | Fresh \<Rightarrow>
                                   let aad_len = header_len + sec_consumed
                                   in if aad_len > MAX_NWK_AAD
                                      then (None, bump st_security_header_parse_failures_update l)
                                      else let aad = take aad_len mac_payload;
                                               aad = aad[header_len := (aad ! header_len AND NOT 0x07) OR 0x05]
                                           in case NwkSecurity_decrypt_with provider aad (drop sec_consumed after_header)
                                                     (nk_key entry) sec_hdr of
                                                None \<Rightarrow> (None, bump st_decrypt_failures_update l)
                                              | Some plaintext \<Rightarrow>
                                                  (Some \<lparr>au_payload = plaintext, au_security_source = sh_source_address sec_hdr,
                                                     au_replay = \<lparr>rc_source = sh_source_address sec_hdr,
                                                       rc_key_sequence = sh_key_seq_number sec_hdr,
                                                       rc_key_fingerprint = key_fingerprint (nk_key entry),
                                                       rc_counter = sh_frame_counter sec_hdr\<rparr>\<rparr>,
                                                   bump st_decrypt_successes_update l)))"

definition activate_received_network_key :: "NwkLayer \<Rightarrow> u8 \<Rightarrow> NwkLayer" where
  "activate_received_network_key l sequence =
     (case activate_received_key (nl_security l) sequence of
        (True, s) \<Rightarrow> l\<lparr>nl_active_key_seq_number := sequence,
            nl_security := s\<lparr>ns_activation_pending := ns_activation_pending s \<or> nl_lifecycle_persistence_enabled l\<rparr>\<rparr>
      | (False, s) \<Rightarrow> l\<lparr>nl_security := s\<rparr>)"

text \<open>The durable hook \<^verbatim>\<open>replay_commit\<close> is the argument \<open>hook\<close>.\<close>

definition commit_incoming_replay :: "(NwkReplayCounter \<Rightarrow> bool) \<Rightarrow> NwkLayer \<Rightarrow> NwkReplayCounter \<Rightarrow> bool \<times> NwkLayer" where
  "commit_incoming_replay hook l replay =
     (if \<not> hook replay then (False, l)
      else let (ok, s) = commit_replay_floor (nl_neighbors l) (nl_security l) replay;
               l = l\<lparr>nl_security := s\<rparr>
           in (ok, if ok then l else bump st_replay_table_full_update l))"

section \<open>What goes on air\<close>

definition masked :: "NwkSecurityHeader \<Rightarrow> NwkSecurityHeader" where
  "masked sh = sh\<lparr>sh_security_control := sh_security_control sh AND NOT 0x07\<rparr>"

lemma aux_bytes_length: "ieee_ok (sh_source_address sh) \<Longrightarrow> length (NwkSecurityHeader_bytes sh) = NWK_AUX_HEADER_LEN"
  by (simp add: NwkSecurityHeader_bytes_def NWK_AUX_HEADER_LEN_def ieee_ok_def)

lemma masked_length: "ieee_ok (sh_source_address sh) \<Longrightarrow> length (NwkSecurityHeader_bytes (masked sh)) = NWK_AUX_HEADER_LEN"
  by (rule aux_bytes_length) (simp add: masked_def)

lemma mask_on_air:
  "(h @ NwkSecurityHeader_bytes sh @ r)[length h := (h @ NwkSecurityHeader_bytes sh @ r) ! length h AND NOT 0x07]
     = h @ NwkSecurityHeader_bytes (masked sh) @ r"
  by (simp add: list_update_append nth_append NwkSecurityHeader_bytes_def masked_def)

text \<open>A build that gets as far as the cipher, in terms of the bytes it has written.\<close>

lemma build_secured_eq:
  assumes k: "active_tx_key l = Some (key, q)" "\<not> ns_activation_pending (nl_security l)"
    and fc: "nl_outgoing_frame_counter l < nl_outgoing_frame_counter_limit l"
    and sec: "fc_security (nh_frame_control header)" and ad: "ieee_ok (nl_ieee_address l)"
    and fits: "length (NwkHeader_bytes header) + NWK_AUX_HEADER_LEN \<le> length buf"
  defines "H \<equiv> NwkHeader_bytes header" and "sh \<equiv> tx_security_header l (nl_outgoing_frame_counter l) q"
    and "l1 \<equiv> l\<lparr>nl_outgoing_frame_counter := nl_outgoing_frame_counter l + 1\<rparr>"
  shows "build_nwk_frame provider l header payload buf =
      (case NwkSecurity_encrypt_with provider (H @ NwkSecurityHeader_bytes sh) payload key sh of
         None \<Rightarrow> Some (Inl BadCcmOutput, l1)
       | Some enc \<Rightarrow>
           if length H + NWK_AUX_HEADER_LEN + length enc > length buf then Some (Inl FrameTooLong, l1)
           else Some (Inr (H @ NwkSecurityHeader_bytes (masked sh) @ enc @
                  drop (length H + NWK_AUX_HEADER_LEN + length enc) buf, length H + NWK_AUX_HEADER_LEN + length enc), l1))"
proof -
  let ?A = "NwkSecurityHeader_bytes sh" and ?rest = "drop (length H + NWK_AUX_HEADER_LEN) buf"
  have ieee: "ieee_ok (sh_source_address sh)" using ad by (simp add: sh_def tx_security_header_def)
  note lA = aux_bytes_length[OF ieee]
  have s1: "NwkHeader_serialize header buf = Some (H @ drop (length H) buf, length H)"
    using fits by (simp add: NwkHeader_serialize_eq write_at_start H_def)
  have nfc: "next_frame_counter l = (Some (nl_outgoing_frame_counter l), l1)"
    using fc by (simp add: next_frame_counter_def l1_def not_le[symmetric])
  have sh: "tx_security_header l1 (nl_outgoing_frame_counter l) q = sh"
    by (simp add: tx_security_header_def sh_def l1_def)
  have s2: "NwkSecurityHeader_serialize sh (drop (length H) buf) = Some (?A @ ?rest, NWK_AUX_HEADER_LEN)"
    using fits lA by (simp add: NwkSecurityHeader_serialize_def write_at_start H_def add.commute)
  have p: "put (length H + NWK_AUX_HEADER_LEN) enc (H @ ?A @ ?rest) =
      Some (H @ ?A @ enc @ drop (length H + NWK_AUX_HEADER_LEN + length enc) buf)"
    if "length H + NWK_AUX_HEADER_LEN + length enc \<le> length buf" for enc
    using that lA by (simp add: put_def add.commute add.left_commute)
  have e: "length (take (length H) (H @ drop (length H) buf) @ ?A @ ?rest) = length buf"
    using fits lA by (simp add: H_def)
  have "build_nwk_frame provider l header payload buf =
      (case NwkSecurity_encrypt_with provider (H @ ?A) payload key sh of
         None \<Rightarrow> Some (Inl BadCcmOutput, l1)
       | Some enc \<Rightarrow>
           if length H + NWK_AUX_HEADER_LEN + length enc > length buf then Some (Inl FrameTooLong, l1)
           else map_option (\<lambda>buf. (Inr (buf[length H := buf ! length H AND NOT 0x07],
                  length H + NWK_AUX_HEADER_LEN + length enc), l1))
                (put (length H + NWK_AUX_HEADER_LEN) enc (H @ ?A @ ?rest)))"
    unfolding build_nwk_frame_def s1 option.case prod.case k nfc Let_def sh using sec k fits lA e s2
    by (simp add: H_def[symmetric] split: option.split)
  then show ?thesis
    using mask_on_air[of H sh] by (simp add: p not_less split: option.split)
qed

lemma build_securedD:
  assumes b: "build_nwk_frame provider l header payload buf = Some (Inr (out, n), l')"
    and sec: "fc_security (nh_frame_control header)" and ad: "ieee_ok (nl_ieee_address l)"
  obtains key q enc where "active_tx_key l = Some (key, q)" "\<not> ns_activation_pending (nl_security l)"
    "nl_outgoing_frame_counter l < nl_outgoing_frame_counter_limit l"
    "l' = l\<lparr>nl_outgoing_frame_counter := nl_outgoing_frame_counter l + 1\<rparr>"
    "NwkSecurity_encrypt_with provider
       (NwkHeader_bytes header @ NwkSecurityHeader_bytes (tx_security_header l (nl_outgoing_frame_counter l) q))
       payload key (tx_security_header l (nl_outgoing_frame_counter l) q) = Some enc"
    "take n out = NwkHeader_bytes header @
       NwkSecurityHeader_bytes (masked (tx_security_header l (nl_outgoing_frame_counter l) q)) @ enc"
    "n \<le> length buf"
proof -
  let ?H = "NwkHeader_bytes header"
  have s1: "length ?H \<le> length buf" using b
    by (auto simp: build_nwk_frame_def NwkHeader_serialize_eq write_at_start split: option.splits if_splits)
  then have ser: "NwkHeader_serialize header buf = Some (?H @ drop (length ?H) buf, length ?H)"
    by (simp add: NwkHeader_serialize_eq write_at_start)
  from b sec obtain key q where k: "active_tx_key l = Some (key, q)" "\<not> ns_activation_pending (nl_security l)"
    by (auto simp: build_nwk_frame_def ser split: option.splits if_splits)
  from b sec k s1 have fc: "nl_outgoing_frame_counter l < nl_outgoing_frame_counter_limit l"
    and fits: "length ?H + NWK_AUX_HEADER_LEN \<le> length buf"
    by (auto simp: build_nwk_frame_def ser next_frame_counter_def Let_def not_le split: if_splits option.splits)
  let ?sh = "tx_security_header l (nl_outgoing_frame_counter l) q"
  have lA: "length (NwkSecurityHeader_bytes (masked ?sh)) = NWK_AUX_HEADER_LEN"
    using masked_length[of ?sh] ad by (simp add: tx_security_header_def)
  from b obtain enc where e: "NwkSecurity_encrypt_with provider (?H @ NwkSecurityHeader_bytes ?sh) payload key ?sh = Some enc"
    "length ?H + NWK_AUX_HEADER_LEN + length enc \<le> length buf" "n = length ?H + NWK_AUX_HEADER_LEN + length enc"
    "out = ?H @ NwkSecurityHeader_bytes (masked ?sh) @ enc @ drop n buf"
    "l' = l\<lparr>nl_outgoing_frame_counter := nl_outgoing_frame_counter l + 1\<rparr>"
    unfolding build_secured_eq[OF k fc sec ad fits] by (auto split: option.splits if_splits)
  have "take n out = ?H @ NwkSecurityHeader_bytes (masked ?sh) @ enc" unfolding e(3,4) by (simp add: lA)
  with that[OF k fc e(5,1)] e(2,3) show thesis by simp
qed

section \<open>What a receiver makes of it\<close>

lemma masked_control: "(ZIGBEE_DEFAULT AND NOT 0x07) AND NOT 0x07 = ZIGBEE_DEFAULT AND NOT (0x07 :: u8)"
  "((ZIGBEE_DEFAULT AND NOT 0x07) AND NOT 0x07) OR 0x05 = ZIGBEE_DEFAULT"
  "((ZIGBEE_DEFAULT AND NOT 0x07) OR 0x05 :: u8) = ZIGBEE_DEFAULT"
  by (simp_all add: ZIGBEE_DEFAULT_def)

lemma masked_nonce: "build_nonce (masked (tx_security_header l fc q)) = build_nonce (tx_security_header l fc q)"
  by (simp add: build_nonce_def masked_def tx_security_header_def ZIGBEE_DEFAULT_def)

lemma aux_parse:
  assumes "ieee_ok (sh_source_address sh)"
  shows "NwkSecurityHeader_parse (NwkSecurityHeader_bytes sh @ rest) = Some (sh, NWK_AUX_HEADER_LEN)"
proof -
  from aux_codec.dec_enc[OF assms, of rest] obtain p where
    "NwkSecurityHeader_parse (NwkSecurityHeader_bytes sh @ rest) = Some p" "fst p = sh" by auto
  then show ?thesis by (cases p) (auto simp: NwkSecurityHeader_parse_def split: if_splits)
qed

lemma decrypt_iff_encrypt:
  "block_cipher (provider key) \<Longrightarrow> build_nonce sh = build_nonce sh' \<Longrightarrow>
    NwkSecurity_decrypt_with provider aad ct key sh = Some pt \<longleftrightarrow> NwkSecurity_encrypt_with provider aad pt key sh' = Some ct"
  using ccm_star_inverse[of "provider key" "build_nonce sh" aad ct pt]
  by (auto simp: NwkSecurity_decrypt_with_def NwkSecurity_encrypt_with_def split: sum.splits)

lemma header_bytes_length: "nwk_header_wf h \<Longrightarrow> length (NwkHeader_bytes h) \<le> 59"
  by (auto simp: nwk_header_wf_def NwkHeader_bytes_def nwk_header_fixed_def opt_bytes_def ieee_ok_def sr_wf_def
      SourceRoute_bytes_def length_concat comp_def sum_list_triv split: option.splits)

lemma aad_rebuilt:
  assumes "sh_security_control sh = ZIGBEE_DEFAULT"
  shows "(h @ NwkSecurityHeader_bytes (masked sh))
     [length h := ((h @ NwkSecurityHeader_bytes (masked sh)) ! length h AND NOT 0x07) OR 0x05] = h @ NwkSecurityHeader_bytes sh"
  using assms by (simp add: list_update_append nth_append NwkSecurityHeader_bytes_def masked_def ZIGBEE_DEFAULT_def)

lemma authenticate_genuine:
  assumes bc: "block_cipher (provider (nk_key entry))"
    and sh: "sh_security_control sh = ZIGBEE_DEFAULT" "ieee_ok (sh_source_address sh)"
    and key: "key_by_seq (nl_security l) (sh_key_seq_number sh) = Some entry"
    and fresh: "incoming_replay_admission (nl_neighbors l) (nl_security l) (sh_source_address sh)
      (sh_key_seq_number sh) (sh_frame_counter sh) None = Fresh"
    and len: "length h + NWK_AUX_HEADER_LEN \<le> MAX_NWK_AAD"
    and enc: "NwkSecurity_encrypt_with provider (h @ NwkSecurityHeader_bytes sh) payload (nk_key entry) sh = Some ct"
  shows "authenticate_incoming provider l (h @ NwkSecurityHeader_bytes (masked sh) @ ct) (length h) =
    (Some \<lparr>au_payload = payload, au_security_source = sh_source_address sh,
       au_replay = \<lparr>rc_source = sh_source_address sh, rc_key_sequence = sh_key_seq_number sh,
         rc_key_fingerprint = key_fingerprint (nk_key entry), rc_counter = sh_frame_counter sh\<rparr>\<rparr>,
     bump st_decrypt_successes_update (bump st_secured_frames_update l))"
proof -
  have ma: "ieee_ok (sh_source_address (masked sh))" using sh(2) by (simp add: masked_def)
  have uses: "uses_network_key_with_extended_nonce (masked sh)"
    using sh(1) by (simp add: uses_network_key_with_extended_nonce_def masked_def ZIGBEE_DEFAULT_def)
  have nonce: "build_nonce (masked sh) = build_nonce sh"
    using sh(1) by (simp add: build_nonce_def masked_def ZIGBEE_DEFAULT_def)
  note ml = masked_length[OF sh(2)]
  have mf: "sh_source_address (masked sh) = sh_source_address sh" "sh_key_seq_number (masked sh) = sh_key_seq_number sh"
    "sh_frame_counter (masked sh) = sh_frame_counter sh" by (simp_all add: masked_def)
  have dec: "NwkSecurity_decrypt_with provider (h @ NwkSecurityHeader_bytes sh) ct (nk_key entry) (masked sh) = Some payload"
    using decrypt_iff_encrypt[of provider "nk_key entry", OF bc nonce] enc by blast
  have b: "nl_security (bump u l) = nl_security l" "nl_neighbors (bump u l) = nl_neighbors l" for u
    by (simp_all add: bump_def)
  show ?thesis
    unfolding authenticate_incoming_def Let_def
    using key fresh len ml dec
    by (simp add: aux_parse[OF ma] uses b mf aad_rebuilt[OF sh(1), simplified])
qed

text \<open>
  C12: a secured frame arrives.  Whatever the AES block cipher, the frame that \<^verbatim>\<open>build_nwk_frame\<close> puts in the buffer is parsed
  back to the sender's header by a receiver, and a receiver that holds the same key under the same sequence number and has not
  seen the counter authenticates it and gets exactly the sender's payload, address
  and frame counter, although the security level is masked on air and restored on both sides.
\<close>

theorem secured_frame_arrives:
  assumes "block_cipher (provider key)"
    and "build_nwk_frame provider tx header payload buf = Some (Inr (out, n), tx')"
    and "fc_security (nh_frame_control header)" "nwk_header_wf header" "ieee_ok (nl_ieee_address tx)"
    and "active_tx_key tx = Some (key, q)"
    and "key_by_seq (nl_security rx) q = Some entry" "nk_key entry = key"
    and "incoming_replay_admission (nl_neighbors rx) (nl_security rx) (nl_ieee_address tx) q
      (nl_outgoing_frame_counter tx) None = Fresh"
  shows "\<exists>h a rx'. NwkHeader_parse (take n out) = Some (header, h) \<and>
    authenticate_incoming provider rx (take n out) h = (Some a, rx') \<and>
    au_payload a = payload \<and> au_security_source a = nl_ieee_address tx \<and>
    rc_key_sequence (au_replay a) = q \<and> rc_counter (au_replay a) = nl_outgoing_frame_counter tx"
proof -
  let ?sh = "tx_security_header tx (nl_outgoing_frame_counter tx) q"
  from build_securedD[OF assms(2,3,5)] assms(6) obtain enc where
    e: "NwkSecurity_encrypt_with provider (NwkHeader_bytes header @ NwkSecurityHeader_bytes ?sh) payload key ?sh = Some enc"
    "take n out = NwkHeader_bytes header @ NwkSecurityHeader_bytes (masked ?sh) @ enc" by auto
  have "length (NwkHeader_bytes header) + NWK_AUX_HEADER_LEN \<le> MAX_NWK_AAD"
    using header_bytes_length[OF assms(4)] by (simp add: NWK_AUX_HEADER_LEN_def MAX_NWK_AAD_def)
  from authenticate_genuine[of provider entry ?sh rx "NwkHeader_bytes header" payload enc, OF _ _ _ _ _ this]
    assms(1,5,7-9) e(1)
  have "authenticate_incoming provider rx (take n out) (length (NwkHeader_bytes header)) =
    (Some \<lparr>au_payload = payload, au_security_source = nl_ieee_address tx,
       au_replay = \<lparr>rc_source = nl_ieee_address tx, rc_key_sequence = q,
         rc_key_fingerprint = key_fingerprint key, rc_counter = nl_outgoing_frame_counter tx\<rparr>\<rparr>,
     bump st_decrypt_successes_update (bump st_secured_frames_update rx))"
    by (simp add: e(2) tx_security_header_def)
  moreover have "NwkHeader_parse (take n out) = Some (header, length (NwkHeader_bytes header))"
    unfolding e(2) by (rule nwk_header_roundtrip_aux[OF assms(4)])
  ultimately show ?thesis by simp
qed

lemma parse_consumed: "NwkSecurityHeader_parse d = Some (sh, k) \<Longrightarrow> k = NWK_AUX_HEADER_LEN \<and> NWK_AUX_HEADER_LEN \<le> length d"
  by (auto simp: NwkSecurityHeader_parse_def split: if_splits)

lemma authenticateD:
  assumes "authenticate_incoming provider rx frame hl = (Some a, rx')"
  obtains sh entry where "NwkSecurityHeader_parse (drop hl frame) = Some (sh, NWK_AUX_HEADER_LEN)"
    "uses_network_key_with_extended_nonce sh" "key_by_seq (nl_security rx) (sh_key_seq_number sh) = Some entry"
    "incoming_replay_admission (nl_neighbors rx) (nl_security rx) (sh_source_address sh) (sh_key_seq_number sh)
        (sh_frame_counter sh) None = Fresh" "hl \<le> length frame"
    "NwkSecurity_decrypt_with provider ((take (hl + NWK_AUX_HEADER_LEN) frame)
        [hl := (take (hl + NWK_AUX_HEADER_LEN) frame ! hl AND NOT 0x07) OR 0x05])
        (drop (hl + NWK_AUX_HEADER_LEN) frame) (nk_key entry) sh = Some (au_payload a)"
    "au_security_source a = sh_source_address sh" "rc_counter (au_replay a) = sh_frame_counter sh"
    "rx' = bump st_decrypt_successes_update (bump st_secured_frames_update rx)"
proof -
  let ?l = "bump st_secured_frames_update rx"
  have b: "nl_security ?l = nl_security rx" "nl_neighbors ?l = nl_neighbors rx" by (simp_all add: bump_def)
  from assms obtain sh k where p: "NwkSecurityHeader_parse (drop hl frame) = Some (sh, k)" "hl \<le> length frame"
    "uses_network_key_with_extended_nonce sh"
    by (auto simp: authenticate_incoming_def Let_def not_less split: option.splits if_splits)
  from parse_consumed[OF p(1)] have k: "k = NWK_AUX_HEADER_LEN" by simp
  from assms p obtain entry where e: "key_by_seq (nl_security rx) (sh_key_seq_number sh) = Some entry"
    by (auto simp: authenticate_incoming_def Let_def b split: option.splits if_splits)
  from assms p e have f: "incoming_replay_admission (nl_neighbors rx) (nl_security rx) (sh_source_address sh)
      (sh_key_seq_number sh) (sh_frame_counter sh) None = Fresh"
    by (auto simp: authenticate_incoming_def Let_def b split: ReplayAdmission.splits)
  show thesis
    using assms p e f that[OF p(1)[unfolded k] p(3) e f p(2)]
    by (auto simp: authenticate_incoming_def Let_def b k add.commute[of NWK_AUX_HEADER_LEN] split: option.splits if_splits)
qed

text \<open>
  C4: only genuine frames are authenticated.  When a receiver authenticates a frame, the frame is the encryption, under a key installed at
  the receiver and with the received header and auxiliary header as associated data, of exactly the payload it
  delivers; its counter was admitted as fresh; and authenticating it
  has consumed nothing: keys, replay floors and neighbors are unchanged.
\<close>

theorem authenticated_is_genuine:
  assumes "\<And>key. block_cipher (provider key)"
    and "authenticate_incoming provider rx frame hl = (Some a, rx')"
  shows "nl_security rx' = nl_security rx \<and> nl_neighbors rx' = nl_neighbors rx \<and>
    (\<exists>sh entry. NwkSecurityHeader_parse (drop hl frame) = Some (sh, NWK_AUX_HEADER_LEN) \<and>
      uses_network_key_with_extended_nonce sh \<and>
      key_by_seq (nl_security rx) (sh_key_seq_number sh) = Some entry \<and>
      incoming_replay_admission (nl_neighbors rx) (nl_security rx) (sh_source_address sh) (sh_key_seq_number sh)
        (sh_frame_counter sh) None = Fresh \<and>
      NwkSecurity_encrypt_with provider
        ((take (hl + NWK_AUX_HEADER_LEN) frame)[hl := (frame ! hl AND NOT 0x07) OR 0x05])
        (au_payload a) (nk_key entry) sh = Some (drop (hl + NWK_AUX_HEADER_LEN) frame) \<and>
      au_security_source a = sh_source_address sh \<and> rc_counter (au_replay a) = sh_frame_counter sh)"
  using assms(2)
proof (cases rule: authenticateD)
  case (1 sh entry)
  have "take (hl + NWK_AUX_HEADER_LEN) frame ! hl = frame ! hl" by (simp add: NWK_AUX_HEADER_LEN_def)
  with 1 decrypt_iff_encrypt[of provider "nk_key entry" sh sh _ "drop (hl + NWK_AUX_HEADER_LEN) frame" "au_payload a",
      OF assms(1) refl]
  show ?thesis by (auto simp: bump_def)
qed

section \<open>Nonces\<close>

text \<open>
  The sender's history: a list of frames it is asked to build, and the auxiliary headers of the secured frames
  that reached the buffer, in order.
\<close>

fun sent_headers :: "'e provider \<Rightarrow> NwkLayer \<Rightarrow> (NwkHeader \<times> u8 list) list \<Rightarrow> NwkSecurityHeader list" where
  "sent_headers provider l [] = []"
| "sent_headers provider l ((header, payload) # reqs) =
     (case build_nwk_frame provider l header payload (replicate MAX_NWK_FRAME 0) of
        None \<Rightarrow> []
      | Some (Inl e, l') \<Rightarrow> sent_headers provider l' reqs
      | Some (Inr (out, n), l') \<Rightarrow>
          (if fc_security (nh_frame_control header)
           then (case NwkSecurityHeader_parse (drop (length (NwkHeader_bytes header)) (take n out)) of
                   Some (sh, _) \<Rightarrow> [sh] | None \<Rightarrow> [])
           else []) @ sent_headers provider l' reqs)"

lemma unat_succ_less: "a < b \<Longrightarrow> unat (a + 1) = unat a + 1" for a b :: "'a::len word"
proof -
  assume "a < b"
  then have "unat a < unat b" by (simp add: word_less_nat_alt)
  moreover have "unat b < 2 ^ LENGTH('a)" by (rule unsigned_less)
  ultimately have "unat a + 1 < 2 ^ LENGTH('a)" by linarith
  then show "unat (a + 1) = unat a + 1" by (simp add: unat_word_ariths)
qed

lemma build_layer:
  assumes "build_nwk_frame provider l header payload buf = Some (r, l')"
  shows "nl_ieee_address l' = nl_ieee_address l" "nl_outgoing_frame_counter_limit l' = nl_outgoing_frame_counter_limit l"
    "nl_outgoing_frame_counter l \<le> nl_outgoing_frame_counter l'"
proof -
  have l': "l' = l \<or> nl_outgoing_frame_counter l < nl_outgoing_frame_counter_limit l \<and>
      l' = l\<lparr>nl_outgoing_frame_counter := nl_outgoing_frame_counter l + 1\<rparr>"
    using assms by (auto simp: build_nwk_frame_def next_frame_counter_def Let_def not_le
        split: option.splits if_splits prod.splits)
  then show "nl_ieee_address l' = nl_ieee_address l"
    "nl_outgoing_frame_counter_limit l' = nl_outgoing_frame_counter_limit l" by auto
  from l' show "nl_outgoing_frame_counter l \<le> nl_outgoing_frame_counter l'"
    by (auto simp: word_le_nat_alt unat_succ_less)
qed

lemma sent_headers_sorted:
  "ieee_ok (nl_ieee_address l) \<Longrightarrow>
    sorted_wrt (<) (map sh_frame_counter (sent_headers provider l reqs)) \<and>
    (\<forall>sh\<in>set (sent_headers provider l reqs). sh_source_address sh = nl_ieee_address l \<and>
       nl_outgoing_frame_counter l \<le> sh_frame_counter sh \<and> sh_frame_counter sh < nl_outgoing_frame_counter_limit l)"
proof (induction provider l reqs rule: sent_headers.induct)
  case (2 provider l header payload reqs)
  let ?b = "build_nwk_frame provider l header payload (replicate MAX_NWK_FRAME 0)"
  show ?case
  proof (cases ?b)
    case None
    then show ?thesis by simp
  next
    case (Some p)
    then obtain r l' where b: "?b = Some (r, l')" by (cases p) auto
    note bl = build_layer[OF b]
    show ?thesis
    proof (cases r)
      case (Inl e)
      with 2 b bl show ?thesis by (force intro: order.trans)
    next
      case (Inr on)
      then obtain out n where r: "r = Inr (out, n)" by (cases on) auto
      have ih: "sorted_wrt (<) (map sh_frame_counter (sent_headers provider l' reqs)) \<and>
        (\<forall>sh\<in>set (sent_headers provider l' reqs). sh_source_address sh = nl_ieee_address l' \<and>
          nl_outgoing_frame_counter l' \<le> sh_frame_counter sh \<and> sh_frame_counter sh < nl_outgoing_frame_counter_limit l')"
        using 2 b r bl(1) by simp
      show ?thesis
      proof (cases "fc_security (nh_frame_control header)")
        case False
        with b r ih bl show ?thesis by (force intro: order.trans)
      next
        case True
        from build_securedD[OF b[unfolded r] True 2(3)] obtain q enc where
          s: "nl_outgoing_frame_counter l < nl_outgoing_frame_counter_limit l"
          "l' = l\<lparr>nl_outgoing_frame_counter := nl_outgoing_frame_counter l + 1\<rparr>"
          "take n out = NwkHeader_bytes header @
             NwkSecurityHeader_bytes (masked (tx_security_header l (nl_outgoing_frame_counter l) q)) @ enc" by metis
        let ?sh = "masked (tx_security_header l (nl_outgoing_frame_counter l) q)"
        have f: "sh_source_address ?sh = nl_ieee_address l" "sh_frame_counter ?sh = nl_outgoing_frame_counter l"
          by (simp_all add: masked_def tx_security_header_def)
        have hd: "sent_headers provider l ((header, payload) # reqs) = ?sh # sent_headers provider l' reqs"
          using aux_parse[of ?sh enc] f(1) 2(3) True by (simp add: b r s(3))
        have "nl_outgoing_frame_counter l < nl_outgoing_frame_counter l'"
          using s(1) by (simp add: s(2) word_less_nat_alt[where b = "_ + 1"] unat_succ_less[OF s(1)])
        with ih bl f s(1) show ?thesis unfolding hd by (auto intro: order.strict_trans1 order.trans)
      qed
    qed
  qed
qed simp

lemma u32_to_le_inject: "u32_to_le v = u32_to_le w \<Longrightarrow> v = w"
proof -
  assume eq: "u32_to_le v = u32_to_le w"
  then have "u32_from_le (ucast v) (ucast (drop_bit 8 v)) (ucast (drop_bit 16 v)) (ucast (drop_bit 24 v)) =
      u32_from_le (ucast w) (ucast (drop_bit 8 w)) (ucast (drop_bit 16 w)) (ucast (drop_bit 24 w))"
    by (simp add: u32_to_le_def)
  then show "v = w" by simp
qed

text \<open>
  C5: no CCM* nonce is used twice.  Whatever frames a node is asked to send, secured or not, successful or failing at any step, the secured
  frames it emits from one counter reservation carry strictly increasing
  frame counters inside that reservation and pairwise different CCM* nonces.
\<close>

theorem nonces_never_repeat:
  assumes "ieee_ok (nl_ieee_address l)"
  shows "distinct (map build_nonce (sent_headers provider l reqs)) \<and>
    sorted_wrt (<) (map sh_frame_counter (sent_headers provider l reqs)) \<and>
    (\<forall>sh\<in>set (sent_headers provider l reqs).
       nl_outgoing_frame_counter l \<le> sh_frame_counter sh \<and> sh_frame_counter sh < nl_outgoing_frame_counter_limit l)"
proof -
  let ?hs = "sent_headers provider l reqs"
  note s = sent_headers_sorted[OF assms, of provider reqs]
  have "inj_on build_nonce (set ?hs)" if "distinct (map sh_frame_counter ?hs)"
  proof (rule inj_onI)
    fix x y
    assume xy: "x \<in> set ?hs" "y \<in> set ?hs" "build_nonce x = build_nonce y"
    with s assms have "length (sh_source_address x) = length (sh_source_address y)" by simp
    with xy(3) have "u32_to_le (sh_frame_counter x) = u32_to_le (sh_frame_counter y)" by (simp add: build_nonce_def)
    then have "sh_frame_counter x = sh_frame_counter y" by (rule u32_to_le_inject)
    with xy that show "x = y" by (simp add: distinct_map inj_on_def)
  qed
  moreover have "distinct (map sh_frame_counter ?hs)" using s strict_sorted_iff by blast
  ultimately show ?thesis using s by (auto simp: distinct_map)
qed

definition example_layer :: NwkLayer where
  "example_layer = \<lparr>nl_ieee_address = replicate 8 7, nl_outgoing_frame_counter = 5, nl_outgoing_frame_counter_limit = 9,
     nl_active_key_seq_number = 1, nl_security = set_network_key NwkSecurity_new (replicate 16 3) 1,
     nl_neighbors = NeighborTable_new, nl_lifecycle_persistence_enabled = False,
     nl_stats = \<lparr>st_secured_frames = 0, st_security_header_parse_failures = 0, st_missing_keys = 0,
       st_replay_rejections = 0, st_replay_table_full = 0, st_decrypt_successes = 0, st_decrypt_failures = 0\<rparr>\<rparr>"

definition example_secured_header :: NwkHeader where
  "example_secured_header = \<lparr>nh_frame_control = NwkFrameControl_parse 0x0208, nh_dst_addr = 0x0201,
     nh_src_addr = 0x0403, nh_radius = 5, nh_seq_number = 6, nh_dst_ieee = None, nh_src_ieee = None,
     nh_multicast_control = None, nh_source_route = None\<rparr>"

definition example_provider :: "unit provider" where
  "example_provider key block = Inr (replicate 16 5)"

lemma example_ok:
  "nwk_header_wf example_secured_header" "fc_security (nh_frame_control example_secured_header)"
  "ieee_ok (nl_ieee_address example_layer)" "active_tx_key example_layer = Some (replicate 16 3, 1)"
  "key_by_seq (nl_security example_layer) 1 = Some \<lparr>nk_key = replicate 16 3, nk_seq_number = 1, nk_active = True\<rparr>"
  "incoming_replay_admission (nl_neighbors example_layer) (nl_security example_layer) (replicate 8 7) 1 5 None = Fresh"
  "\<not> ns_activation_pending (nl_security example_layer)"
  "length (NwkHeader_bytes example_secured_header) = 8"
proof -
  show "nwk_header_wf example_secured_header" "fc_security (nh_frame_control example_secured_header)"
    "length (NwkHeader_bytes example_secured_header) = 8"
    by (simp_all add: nwk_header_wf_def example_secured_header_def NwkFrameControl_parse_def fc_wf_def
        NWKC_PROTOCOL_VERSION_def NwkHeader_bytes_def nwk_header_fixed_def opt_bytes_def)
  show "ieee_ok (nl_ieee_address example_layer)" by (simp add: example_layer_def ieee_ok_def)
  show "active_tx_key example_layer = Some (replicate 16 3, 1)"
    "\<not> ns_activation_pending (nl_security example_layer)"
    "key_by_seq (nl_security example_layer) 1 = Some \<lparr>nk_key = replicate 16 3, nk_seq_number = 1, nk_active = True\<rparr>"
    by (simp_all add: example_layer_def active_tx_key_def key_op_defs NwkSecurity_new_def key_by_seq_def Let_def)
  show "incoming_replay_admission (nl_neighbors example_layer) (nl_security example_layer) (replicate 8 7) 1 5 None = Fresh"
    by (simp add: example_layer_def incoming_replay_admission_def check_frame_counter_reserving_def NwkSecurity_new_def
        reclaimable_key_sequence_def replay_slots_reserved_for_def replay_protected_def find_by_ieee_def
        NeighborTable_new_def NeighborTable_iter_def MAX_FRAME_COUNTER_ENTRIES_def NeighborEntry_empty_def
        key_op_defs Let_def)
qed

lemma example_cipher: "block_cipher (example_provider key)" "total_cipher (example_provider key)"
  by (simp_all add: block_cipher_def total_cipher_def example_provider_def)

lemma example_builds:
  "\<exists>out n. build_nwk_frame example_provider example_layer example_secured_header [1, 2] (replicate MAX_NWK_FRAME 0) =
     Some (Inr (out, n), example_layer\<lparr>nl_outgoing_frame_counter := 6\<rparr>)"
proof -
  let ?sh = "tx_security_header example_layer 5 1"
  have a: "length (NwkHeader_bytes example_secured_header @ NwkSecurityHeader_bytes ?sh) = 22"
    using aux_bytes_length[of ?sh] example_ok(3,8) by (simp add: tx_security_header_def NWK_AUX_HEADER_LEN_def)
  from ccm_star_encrypt_total[of "example_provider (replicate 16 3)" "[1, 2]"
      "NwkHeader_bytes example_secured_header @ NwkSecurityHeader_bytes ?sh" "build_nonce ?sh"]
  obtain ct where "NwkSecurity_encrypt_with example_provider (NwkHeader_bytes example_secured_header @
      NwkSecurityHeader_bytes ?sh) [1, 2] (replicate 16 3) ?sh = Some ct" "length ct = 6"
    using a example_cipher
    by (auto simp: NwkSecurity_encrypt_with_def CCM_STAR_MAX_PLAINTEXT_LEN_def CCM_STAR_MAX_AAD_LEN_def CCM_STAR_MIC_LEN_def)
  then show ?thesis
    using build_secured_eq[OF example_ok(4,7) _ example_ok(2,3), of "replicate MAX_NWK_FRAME 0" example_provider "[1, 2]"]
      example_ok(8)
    by (simp add: example_layer_def MAX_NWK_FRAME_def NWK_AUX_HEADER_LEN_def)
qed

theorem secured_frame_arrives_witness:
  "\<exists>out n a rx'. authenticate_incoming example_provider example_layer (take n out) 8 = (Some a, rx') \<and> au_payload a = [1, 2]"
proof -
  obtain out n where b: "build_nwk_frame example_provider example_layer example_secured_header [1, 2]
      (replicate MAX_NWK_FRAME 0) = Some (Inr (out, n), example_layer\<lparr>nl_outgoing_frame_counter := 6\<rparr>)"
    using example_builds by blast
  from secured_frame_arrives[OF example_cipher(1) b example_ok(2,1,3,4,5)] example_ok(6)
  obtain h a rx' where "NwkHeader_parse (take n out) = Some (example_secured_header, h)"
    "authenticate_incoming example_provider example_layer (take n out) h = (Some a, rx')" "au_payload a = [1, 2]"
    by (auto simp: example_layer_def)
  moreover from build_securedD[OF b example_ok(2,3)] nwk_header_roundtrip_aux[OF example_ok(1)] example_ok(8)
  have "\<exists>k. NwkHeader_parse (take n out) = Some (example_secured_header, 8)" by metis
  ultimately show ?thesis by auto
qed

theorem authenticated_is_genuine_witness:
  "\<exists>frame a rx' sh. authenticate_incoming example_provider example_layer frame 8 = (Some a, rx') \<and>
     NwkSecurityHeader_parse (drop 8 frame) = Some (sh, NWK_AUX_HEADER_LEN) \<and> nl_security rx' = nl_security example_layer"
proof -
  let ?sh = "tx_security_header example_layer 5 1"
  obtain out n where b: "build_nwk_frame example_provider example_layer example_secured_header [1, 2]
      (replicate MAX_NWK_FRAME 0) = Some (Inr (out, n), example_layer\<lparr>nl_outgoing_frame_counter := 6\<rparr>)"
    using example_builds by blast
  obtain enc where e: "NwkSecurity_encrypt_with example_provider (NwkHeader_bytes example_secured_header @
      NwkSecurityHeader_bytes ?sh) [1, 2] (replicate 16 3) ?sh = Some enc"
    using build_securedD[OF b example_ok(2,3)] example_ok(4) by (auto simp: example_layer_def)
  from authenticate_genuine[of example_provider "\<lparr>nk_key = replicate 16 3, nk_seq_number = 1, nk_active = True\<rparr>" ?sh
      example_layer "NwkHeader_bytes example_secured_header" "[1, 2]" enc] example_cipher(1) example_ok(3,5,6,8) e
  obtain a rx' where "authenticate_incoming example_provider example_layer
      (NwkHeader_bytes example_secured_header @ NwkSecurityHeader_bytes (masked ?sh) @ enc) 8 = (Some a, rx')"
    by (auto simp: tx_security_header_def MAX_NWK_AAD_def NWK_AUX_HEADER_LEN_def example_layer_def)
  from authenticated_is_genuine[OF example_cipher(1) this] this show ?thesis by blast
qed

theorem nonces_never_repeat_witness:
  "distinct (map build_nonce (sent_headers example_provider example_layer
     [(example_secured_header, [1, 2]), (example_secured_header, [3])]))"
  using nonces_never_repeat[OF example_ok(3)] by blast

end
