(* ===== verification/Aps_Frames.thy ===== *)
theory Aps_Frames
  imports Nwk_Frames
begin

text \<open>
  \<^verbatim>\<open>zigbee-aps/src/frames.rs\<close>: the APS header.  Which fields a header has depends on its frame type,
  delivery mode and acknowledgement format; the parser follows the source field by field with explicit offsets, the
  serializer writes through the cursor of the prelude (\<^term>\<open>None\<close> is the panic of a write out of range).
\<close>

section \<open>Identifiers\<close>

datatype ApsFrameType = AftData | AftCommand | AftAck | AftInterPan

fun ApsFrameType_to_u8 :: "ApsFrameType \<Rightarrow> u8" where
  "ApsFrameType_to_u8 AftData = 0x00"
| "ApsFrameType_to_u8 AftCommand = 0x01"
| "ApsFrameType_to_u8 AftAck = 0x02"
| "ApsFrameType_to_u8 AftInterPan = 0x03"

definition ApsFrameType_from_u8 :: "u8 \<Rightarrow> ApsFrameType option" where
  "ApsFrameType_from_u8 v =
     (if v = 0x00 then Some AftData else if v = 0x01 then Some AftCommand
      else if v = 0x02 then Some AftAck else if v = 0x03 then Some AftInterPan else None)"

datatype ApsDeliveryMode = AdmUnicast | AdmIndirect | AdmBroadcast | AdmGroup

fun ApsDeliveryMode_to_u8 :: "ApsDeliveryMode \<Rightarrow> u8" where
  "ApsDeliveryMode_to_u8 AdmUnicast = 0x00"
| "ApsDeliveryMode_to_u8 AdmIndirect = 0x01"
| "ApsDeliveryMode_to_u8 AdmBroadcast = 0x02"
| "ApsDeliveryMode_to_u8 AdmGroup = 0x03"

definition ApsDeliveryMode_from_u8 :: "u8 \<Rightarrow> ApsDeliveryMode option" where
  "ApsDeliveryMode_from_u8 v =
     (if v = 0x00 then Some AdmUnicast else if v = 0x01 then Some AdmIndirect
      else if v = 0x02 then Some AdmBroadcast else if v = 0x03 then Some AdmGroup else None)"

datatype ApsCommandId = AcTransportKey | AcUpdateDevice | AcRemoveDevice | AcRequestKey | AcSwitchKey
  | AcTunnel | AcVerifyKey | AcConfirmKey

fun ApsCommandId_to_u8 :: "ApsCommandId \<Rightarrow> u8" where
  "ApsCommandId_to_u8 AcTransportKey = 0x05"
| "ApsCommandId_to_u8 AcUpdateDevice = 0x06"
| "ApsCommandId_to_u8 AcRemoveDevice = 0x07"
| "ApsCommandId_to_u8 AcRequestKey = 0x08"
| "ApsCommandId_to_u8 AcSwitchKey = 0x09"
| "ApsCommandId_to_u8 AcTunnel = 0x0E"
| "ApsCommandId_to_u8 AcVerifyKey = 0x0F"
| "ApsCommandId_to_u8 AcConfirmKey = 0x10"

definition ApsCommandId_from_u8 :: "u8 \<Rightarrow> ApsCommandId option" where
  "ApsCommandId_from_u8 v =
     (if v = 0x05 then Some AcTransportKey else if v = 0x06 then Some AcUpdateDevice
      else if v = 0x07 then Some AcRemoveDevice else if v = 0x08 then Some AcRequestKey
      else if v = 0x09 then Some AcSwitchKey else if v = 0x0E then Some AcTunnel
      else if v = 0x0F then Some AcVerifyKey else if v = 0x10 then Some AcConfirmKey else None)"

definition FRAG_NONE :: u8 where "FRAG_NONE = 0"
definition FRAG_FIRST :: u8 where "FRAG_FIRST = 1"
definition FRAG_SUBSEQUENT :: u8 where "FRAG_SUBSEQUENT = 2"
definition FRAG_RESERVED :: u8 where "FRAG_RESERVED = 3"

section \<open>Frame control\<close>

record ApsFrameControl =
  ac_frame_type :: u8
  ac_delivery_mode :: u8
  ac_ack_format :: bool
  ac_security :: bool
  ac_ack_request :: bool
  ac_extended_header :: bool

definition ApsFrameControl_parse :: "u8 \<Rightarrow> ApsFrameControl" where
  "ApsFrameControl_parse raw = \<lparr>ac_frame_type = raw AND 0x03, ac_delivery_mode = drop_bit 2 raw AND 0x03,
     ac_ack_format = (drop_bit 4 raw AND 1 \<noteq> 0), ac_security = (drop_bit 5 raw AND 1 \<noteq> 0),
     ac_ack_request = (drop_bit 6 raw AND 1 \<noteq> 0), ac_extended_header = (drop_bit 7 raw AND 1 \<noteq> 0)\<rparr>"

definition ApsFrameControl_serialize :: "ApsFrameControl \<Rightarrow> u8" where
  "ApsFrameControl_serialize fc =
     (ac_frame_type fc AND 0x03) OR push_bit 2 (ac_delivery_mode fc AND 0x03) OR flag_at 4 (ac_ack_format fc) OR
     flag_at 5 (ac_security fc) OR flag_at 6 (ac_ack_request fc) OR flag_at 7 (ac_extended_header fc)"

section \<open>The header\<close>

record ApsExtendedHeader =
  ex_fragmentation :: u8
  ex_block_number :: u8
  ex_ack_bitfield :: "u8 option"

record ApsHeader =
  ah_frame_control :: ApsFrameControl
  ah_dst_endpoint :: "u8 option"
  ah_group_address :: "u16 option"
  ah_cluster_id :: "u16 option"
  ah_profile_id :: "u16 option"
  ah_src_endpoint :: "u8 option"
  ah_aps_counter :: u8
  ah_extended_header :: "ApsExtendedHeader option"

definition aps_addressed :: "ApsFrameType \<Rightarrow> ApsFrameControl \<Rightarrow> bool" where
  "aps_addressed frame_type fc =
     (case frame_type of AftData \<Rightarrow> True | AftAck \<Rightarrow> \<not> ac_ack_format fc | _ \<Rightarrow> False)"

definition read_u16_if :: "bool \<Rightarrow> u8 list \<Rightarrow> nat \<Rightarrow> (u16 option \<times> nat) option" where
  "read_u16_if flag data offset =
     (if flag then if length data < offset + 2 then None
        else Some (Some (u16_from_le (data ! offset) (data ! (offset + 1))), offset + 2)
      else Some (None, offset))"

definition ApsExtendedHeader_parse :: "ApsFrameType \<Rightarrow> u8 list \<Rightarrow> nat \<Rightarrow> (ApsExtendedHeader \<times> nat) option" where
  "ApsExtendedHeader_parse frame_type data offset =
     (if length data \<le> offset then None
      else let fragmentation = data ! offset AND 0x03; offset = offset + 1
           in if fragmentation = FRAG_RESERVED then None
              else if fragmentation \<noteq> FRAG_NONE
              then if length data \<le> offset then None
                   else let bn = data ! offset; offset = offset + 1
                        in do {
                          (abf, offset) \<leftarrow> read_byte_if (frame_type = AftAck) data offset;
                          Some (\<lparr>ex_fragmentation = fragmentation, ex_block_number = bn, ex_ack_bitfield = abf\<rparr>, offset)
                        }
              else Some (\<lparr>ex_fragmentation = fragmentation, ex_block_number = 0, ex_ack_bitfield = None\<rparr>, offset))"

definition ApsHeader_parse :: "u8 list \<Rightarrow> (ApsHeader \<times> nat) option" where
  "ApsHeader_parse data =
     (if data = [] then None
      else let fc = ApsFrameControl_parse (data ! 0)
           in do {
             frame_type \<leftarrow> ApsFrameType_from_u8 (ac_frame_type fc);
             delivery_mode \<leftarrow> ApsDeliveryMode_from_u8 (ac_delivery_mode fc);
             let addressed = aps_addressed frame_type fc;
             (dst_endpoint, offset) \<leftarrow>
               read_byte_if (addressed \<and> (delivery_mode = AdmUnicast \<or> delivery_mode = AdmBroadcast)) data 1;
             (group_address, offset) \<leftarrow> read_u16_if (delivery_mode = AdmGroup) data offset;
             (cluster_id, offset) \<leftarrow> read_u16_if addressed data offset;
             (profile_id, offset) \<leftarrow> read_u16_if addressed data offset;
             (src_endpoint, offset) \<leftarrow> read_byte_if addressed data offset;
             if length data \<le> offset then None
             else do {
               let aps_counter = data ! offset;
               (extended_header, offset) \<leftarrow>
                 (if ac_extended_header fc
                  then map_option (\<lambda>(e, o'). (Some e, o')) (ApsExtendedHeader_parse frame_type data (offset + 1))
                  else Some (None, offset + 1));
               Some (\<lparr>ah_frame_control = fc, ah_dst_endpoint = dst_endpoint, ah_group_address = group_address,
                 ah_cluster_id = cluster_id, ah_profile_id = profile_id, ah_src_endpoint = src_endpoint,
                 ah_aps_counter = aps_counter, ah_extended_header = extended_header\<rparr>, offset)
             }
           })"

definition ApsExtendedHeader_bytes :: "u8 \<Rightarrow> ApsExtendedHeader \<Rightarrow> u8 list" where
  "ApsExtendedHeader_bytes frame_type e =
     (ex_fragmentation e AND 0x03) #
     (if ex_fragmentation e \<noteq> FRAG_NONE
      then ex_block_number e #
        (if frame_type = ApsFrameType_to_u8 AftAck then [case ex_ack_bitfield e of Some b \<Rightarrow> b | None \<Rightarrow> 0] else [])
      else [])"

definition ApsHeader_serialize :: "ApsHeader \<Rightarrow> u8 list \<Rightarrow> (u8 list \<times> nat) option" where
  "ApsHeader_serialize h buf =
     write_at [ApsFrameControl_serialize (ah_frame_control h)] (buf, 0) \<bind>
     write_opt (\<lambda>ep. [ep]) (ah_dst_endpoint h) \<bind> write_opt u16_to_le (ah_group_address h) \<bind>
     write_opt u16_to_le (ah_cluster_id h) \<bind> write_opt u16_to_le (ah_profile_id h) \<bind>
     write_opt (\<lambda>ep. [ep]) (ah_src_endpoint h) \<bind> write_at [ah_aps_counter h] \<bind>
     write_opt (ApsExtendedHeader_bytes (ac_frame_type (ah_frame_control h))) (ah_extended_header h)"

definition ApsHeader_bytes :: "ApsHeader \<Rightarrow> u8 list" where
  "ApsHeader_bytes h = ApsFrameControl_serialize (ah_frame_control h) #
     opt_bytes (\<lambda>ep. [ep]) (ah_dst_endpoint h) @ opt_bytes u16_to_le (ah_group_address h) @
     opt_bytes u16_to_le (ah_cluster_id h) @ opt_bytes u16_to_le (ah_profile_id h) @
     opt_bytes (\<lambda>ep. [ep]) (ah_src_endpoint h) @ ah_aps_counter h #
     opt_bytes (ApsExtendedHeader_bytes (ac_frame_type (ah_frame_control h))) (ah_extended_header h)"

lemma ApsHeader_serialize_eq: "ApsHeader_serialize h buf = write_at (ApsHeader_bytes h) (buf, 0)"
  unfolding ApsHeader_serialize_def ApsHeader_bytes_def opt_bytes_def
  by (simp add: write_opt_then write_at_append)

text \<open>A header whose fields are those its control byte announces.\<close>

definition ac_wf :: "ApsFrameControl \<Rightarrow> bool" where
  "ac_wf fc \<longleftrightarrow> ac_frame_type fc < 4 \<and> ac_delivery_mode fc < 4"

definition ac_addressed :: "ApsFrameControl \<Rightarrow> bool" where
  "ac_addressed fc \<longleftrightarrow> ac_frame_type fc = 0 \<or> ac_frame_type fc = 2 \<and> \<not> ac_ack_format fc"

definition ex_wf :: "u8 \<Rightarrow> ApsExtendedHeader \<Rightarrow> bool" where
  "ex_wf frame_type e \<longleftrightarrow> ex_fragmentation e < 3 \<and>
     (if ex_fragmentation e = 0 then ex_block_number e = 0 \<and> ex_ack_bitfield e = None
      else (ex_ack_bitfield e \<noteq> None) = (frame_type = 2))"

definition aps_header_wf :: "ApsHeader \<Rightarrow> bool" where
  "aps_header_wf h \<longleftrightarrow>
     (let fc = ah_frame_control h in
      ac_wf fc \<and> (ah_dst_endpoint h \<noteq> None) = (ac_addressed fc \<and> (ac_delivery_mode fc = 0 \<or> ac_delivery_mode fc = 2)) \<and>
      (ah_group_address h \<noteq> None) = (ac_delivery_mode fc = 3) \<and>
      (ah_cluster_id h \<noteq> None) = ac_addressed fc \<and> (ah_profile_id h \<noteq> None) = ac_addressed fc \<and>
      (ah_src_endpoint h \<noteq> None) = ac_addressed fc \<and>
      (ah_extended_header h \<noteq> None) = ac_extended_header fc \<and> pred_option (ex_wf (ac_frame_type fc)) (ah_extended_header h))"

section \<open>Control bytes\<close>

lemma ac_wf_bits:
  assumes "ac_wf fc"
  shows "bit (ac_frame_type fc) m \<Longrightarrow> m < 2" "bit (ac_delivery_mode fc) m \<Longrightarrow> m < 2"
  using assms word_small_bits[of "ac_frame_type fc" 2] word_small_bits[of "ac_delivery_mode fc" 2] by (auto simp: ac_wf_def)

lemma ac_parse_serialize:
  assumes "ac_wf fc"
  shows "ApsFrameControl_parse (ApsFrameControl_serialize fc) = fc"
proof -
  have "ApsFrameControl_serialize fc AND 3 = ac_frame_type fc"
    by (rule bit_word_eqI) (auto simp: ApsFrameControl_serialize_def masks bit_simps bit_flag_at dest: ac_wf_bits[OF assms])
  moreover have "drop_bit 2 (ApsFrameControl_serialize fc) AND 3 = ac_delivery_mode fc"
    by (rule bit_word_eqI) (auto simp: ApsFrameControl_serialize_def masks bit_simps bit_flag_at dest: ac_wf_bits[OF assms])
  ultimately show ?thesis
    unfolding ApsFrameControl_parse_def flag_bit
    by (simp add: ApsFrameControl_serialize_def masks bit_simps bit_flag_at)
qed

lemma small4: "(v :: u8) < 4 \<Longrightarrow> v \<in> {0, 1, 2, 3}"
proof -
  assume "v < 4"
  then have "unat v = 0 \<or> unat v = 1 \<or> unat v = 2 \<or> unat v = 3" by (auto simp: word_less_nat_alt)
  then show ?thesis by (auto simp: word_unat_eq_iff)
qed

lemma and3_cases: "(w :: u8) AND 3 \<in> {0, 1, 2, 3}"
  by (rule small4) (use and_mask_less'[of 2 w] in \<open>simp add: masks\<close>)

lemma ac_wf_parse: "ac_wf (ApsFrameControl_parse raw)"
  using and3_cases[of raw] and3_cases[of "drop_bit 2 raw"] by (auto simp: ac_wf_def ApsFrameControl_parse_def)

lemma ac_serialize_parse: "ApsFrameControl_serialize (ApsFrameControl_parse raw) = raw"
proof (rule bit_word_eqI)
  fix n
  assume "n < LENGTH(8)"
  then have "n \<in> {0,1,2,3,4,5,6,7}" by (simp, arith)
  then show "bit (ApsFrameControl_serialize (ApsFrameControl_parse raw)) n = bit raw n"
    unfolding ApsFrameControl_serialize_def ApsFrameControl_parse_def flag_bit masks
    by (elim insertE emptyE) (simp_all add: bit_simps bit_flag_at)
qed

text \<open>The identifiers as the control byte has them.\<close>

lemma aps_types:
  assumes "ac_wf fc"
  obtains ft dm where "ApsFrameType_from_u8 (ac_frame_type fc) = Some ft" "ApsDeliveryMode_from_u8 (ac_delivery_mode fc) = Some dm"
    "aps_addressed ft fc = ac_addressed fc" "(ft = AftAck) = (ac_frame_type fc = 2)"
    "(dm = AdmUnicast \<or> dm = AdmBroadcast) = (ac_delivery_mode fc = 0 \<or> ac_delivery_mode fc = 2)"
    "(dm = AdmGroup) = (ac_delivery_mode fc = 3)"
proof -
  from assms have "ac_frame_type fc \<in> {0, 1, 2, 3}" "ac_delivery_mode fc \<in> {0, 1, 2, 3}" by (auto simp: ac_wf_def dest!: small4)
  then show thesis
    by (elim insertE emptyE; intro that[of "the (ApsFrameType_from_u8 (ac_frame_type fc))" "the (ApsDeliveryMode_from_u8 (ac_delivery_mode fc))"])
      (simp_all add: ApsFrameType_from_u8_def ApsDeliveryMode_from_u8_def aps_addressed_def ac_addressed_def)
qed

lemma aps_command_id_exact: "ApsCommandId_from_u8 b = Some c \<longleftrightarrow> b = ApsCommandId_to_u8 c"
  by (cases c) (auto simp: ApsCommandId_from_u8_def split: if_splits)

section \<open>Reading back what was written\<close>

lemma read_u16_if_append:
  assumes "drop offset data = opt_bytes u16_to_le x @ rest" "flag = (x \<noteq> None)" "offset \<le> length data"
  shows "read_u16_if flag data offset = Some (x, offset + length (opt_bytes u16_to_le x))"
    and "drop (offset + length (opt_bytes u16_to_le x)) data = rest"
proof -
  show "drop (offset + length (opt_bytes u16_to_le x)) data = rest" unfolding drop_plus assms(1) by simp
  show "read_u16_if flag data offset = Some (x, offset + length (opt_bytes u16_to_le x))"
  proof (cases x)
    case (Some w)
    with assms(1) have d: "drop offset data = ucast (w AND 0xFF) # ucast (drop_bit 8 w AND 0xFF) # rest"
      by (simp add: opt_bytes_def u16_to_le_def)
    have "offset + 2 \<le> length data" using arg_cong[OF d, of length] assms(3) by simp
    with Some assms(2) nth_of_drop[OF d, of 0] nth_of_drop[OF d, of 1] show ?thesis
      by (simp add: read_u16_if_def opt_bytes_def)
  qed (use assms in \<open>simp add: read_u16_if_def opt_bytes_def\<close>)
qed

lemma read_u16_if_SomeD:
  assumes "read_u16_if flag data offset = Some (x, o')" "offset \<le> length data"
  shows "flag = (x \<noteq> None)" "o' = offset + length (opt_bytes u16_to_le x)" "o' \<le> length data"
    "drop offset data = opt_bytes u16_to_le x @ drop o' data"
  using assms drop_two[of offset data] by (auto simp: read_u16_if_def opt_bytes_def split: if_splits)

lemma ext_parse_append:
  assumes d: "drop offset data = ApsExtendedHeader_bytes t e @ rest" and wf: "ex_wf t e" and t: "(ft = AftAck) = (t = 2)"
    and l: "offset \<le> length data"
  shows "ApsExtendedHeader_parse ft data offset = Some (e, offset + length (ApsExtendedHeader_bytes t e))"
proof -
  let ?f = "ex_fragmentation e"
  have "?f < 4" using wf by (simp add: ex_wf_def word_less_nat_alt)
  then have f: "?f AND 3 = ?f" using small4[of ?f] by auto
  show ?thesis
  proof (cases "?f = 0")
    case True
    with d f have d0: "drop offset data = [0] @ rest" by (simp add: ApsExtendedHeader_bytes_def FRAG_NONE_def)
    have "offset < length data" "data ! offset = 0"
      using arg_cong[OF d0, of length] nth_of_drop[OF d0, of 0] l by simp_all
    with True wf show ?thesis
      by (cases e) (simp add: ApsExtendedHeader_parse_def ApsExtendedHeader_bytes_def ex_wf_def FRAG_NONE_def FRAG_RESERVED_def)
  next
    case False
    have b: "ApsExtendedHeader_bytes t e = [?f, ex_block_number e] @ opt_bytes (\<lambda>b. [b]) (ex_ack_bitfield e)"
      using False f wf by (auto simp: ApsExtendedHeader_bytes_def ex_wf_def FRAG_NONE_def opt_bytes_def)
    have d0: "drop offset data = ?f # ex_block_number e # opt_bytes (\<lambda>b. [b]) (ex_ack_bitfield e) @ rest"
      using d unfolding b by simp
    have a: "data ! offset = ?f" "data ! Suc offset = ex_block_number e" "offset + 2 \<le> length data"
      using nth_of_drop[OF d0, of 0] nth_of_drop[OF d0, of 1] arg_cong[OF d0, of length] l by simp_all
    have "drop (offset + 2) data = opt_bytes (\<lambda>b. [b]) (ex_ack_bitfield e) @ rest" unfolding drop_plus d0 by simp
    from read_byte_if_append(1)[OF this _ a(3), of "ft = AftAck"] False wf t
    have "read_byte_if (ft = AftAck) data (offset + 2) = Some (ex_ack_bitfield e, offset + 2 + length (opt_bytes (\<lambda>b. [b]) (ex_ack_bitfield e)))"
      by (simp add: ex_wf_def)
    moreover have "?f \<noteq> 3" using wf by (auto simp: ex_wf_def)
    ultimately show ?thesis using a f False
      by (simp add: ApsExtendedHeader_parse_def Let_def FRAG_NONE_def FRAG_RESERVED_def b)
  qed
qed

lemma aps_header_parse_bytes:
  assumes wf: "aps_header_wf h"
  shows "ApsHeader_parse (ApsHeader_bytes h @ rest) = Some (h, length (ApsHeader_bytes h))"
proof -
  define D where "D = ApsHeader_bytes h @ rest"
  let ?fc = "ah_frame_control h"
  let ?b1 = "opt_bytes (\<lambda>ep. [ep]) (ah_dst_endpoint h)" and ?b2 = "opt_bytes u16_to_le (ah_group_address h)"
  let ?b3 = "opt_bytes u16_to_le (ah_cluster_id h)" and ?b4 = "opt_bytes u16_to_le (ah_profile_id h)"
  let ?b5 = "opt_bytes (\<lambda>ep. [ep]) (ah_src_endpoint h)"
  let ?b6 = "opt_bytes (ApsExtendedHeader_bytes (ac_frame_type ?fc)) (ah_extended_header h)"
  have w: "ac_wf ?fc" using wf by (simp add: aps_header_wf_def Let_def)
  from aps_types[OF w] obtain ft dm where t: "ApsFrameType_from_u8 (ac_frame_type ?fc) = Some ft"
    "ApsDeliveryMode_from_u8 (ac_delivery_mode ?fc) = Some dm" "aps_addressed ft ?fc = ac_addressed ?fc"
    "(ft = AftAck) = (ac_frame_type ?fc = 2)"
    "(dm = AdmUnicast \<or> dm = AdmBroadcast) = (ac_delivery_mode ?fc = 0 \<or> ac_delivery_mode ?fc = 2)"
    "(dm = AdmGroup) = (ac_delivery_mode ?fc = 3)" by blast
  have f: "(ac_addressed ?fc \<and> (dm = AdmUnicast \<or> dm = AdmBroadcast)) = (ah_dst_endpoint h \<noteq> None)"
    "(dm = AdmGroup) = (ah_group_address h \<noteq> None)" "ac_addressed ?fc = (ah_cluster_id h \<noteq> None)"
    "ac_addressed ?fc = (ah_profile_id h \<noteq> None)" "ac_addressed ?fc = (ah_src_endpoint h \<noteq> None)"
    "ac_extended_header ?fc = (ah_extended_header h \<noteq> None)" "pred_option (ex_wf (ac_frame_type ?fc)) (ah_extended_header h)"
    using wf t(5,6) by (simp_all add: aps_header_wf_def Let_def)
  have d: "D = [ApsFrameControl_serialize ?fc] @ ?b1 @ ?b2 @ ?b3 @ ?b4 @ ?b5 @ [ah_aps_counter h] @ ?b6 @ rest"
    by (simp add: D_def ApsHeader_bytes_def)
  have len: "length D = 1 + length ?b1 + length ?b2 + length ?b3 + length ?b4 + length ?b5 + 1 + length ?b6 + length rest"
    unfolding d by simp
  have d0: "drop 1 D = ?b1 @ ?b2 @ ?b3 @ ?b4 @ ?b5 @ [ah_aps_counter h] @ ?b6 @ rest" unfolding d by simp
  note r1 = read_byte_if_append[OF d0 f(1)]
  note r2 = read_u16_if_append[OF r1(2) f(2)]
  note r3 = read_u16_if_append[OF r2(2) f(3)]
  note r4 = read_u16_if_append[OF r3(2) f(4)]
  note r5 = read_byte_if_append[OF r4(2) f(5)]
  let ?o5 = "1 + length ?b1 + length ?b2 + length ?b3 + length ?b4 + length ?b5"
  have d5: "drop ?o5 D = ah_aps_counter h # ?b6 @ rest" using r5(2) len by simp
  have c: "D ! ?o5 = ah_aps_counter h" using nth_of_drop[OF d5, of 0] by simp
  have d6: "drop (?o5 + 1) D = ?b6 @ rest" using d5 by (subst drop_plus) simp
  have r6: "(if ac_extended_header ?fc then map_option (\<lambda>(e, o'). (Some e, o')) (ApsExtendedHeader_parse ft D (?o5 + 1))
      else Some (None, ?o5 + 1)) = Some (ah_extended_header h, ?o5 + 1 + length ?b6)"
  proof (cases "ah_extended_header h")
    case (Some e)
    then have "ApsExtendedHeader_parse ft D (?o5 + 1) = Some (e, ?o5 + 1 + length ?b6)"
      using ext_parse_append[OF _ _ t(4), of "?o5 + 1" D e rest] d6 f(7) len by (simp add: opt_bytes_def)
    with Some f(6) show ?thesis by simp
  qed (use f(6) in \<open>simp add: opt_bytes_def\<close>)
  have "D \<noteq> []" "D ! 0 = ApsFrameControl_serialize ?fc" "length (ApsHeader_bytes h) = ?o5 + 1 + length ?b6"
    by (simp_all add: D_def ApsHeader_bytes_def)
  with r1(1) r2(1) r3(1) r4(1) r5(1) r6 c t(1,2,3) len ac_parse_serialize[OF w] show ?thesis
    by (cases "ac_extended_header ?fc") (auto simp: ApsHeader_parse_def Let_def simp flip: D_def)
qed

interpretation aps_header_codec: wire_codec ApsHeader_bytes "\<lambda>d. map_option fst (ApsHeader_parse d)" aps_header_wf
  by unfold_locales (simp add: aps_header_parse_bytes)

section \<open>What a successful parse has read\<close>

lemma ext_parse_SomeD:
  assumes p: "ApsExtendedHeader_parse ft data offset = Some (e, o')" and t: "(ft = AftAck) = (t = 2)"
  shows "ex_wf t e \<and> o' = offset + length (ApsExtendedHeader_bytes t e) \<and> o' \<le> length data"
proof -
  let ?f = "data ! offset AND 3"
  have f: "?f \<in> {0, 1, 2}" "offset < length data"
    using p and3_cases[of "data ! offset"] by (auto simp: ApsExtendedHeader_parse_def Let_def FRAG_RESERVED_def split: if_splits)
  have ff: "?f AND 3 = ?f" by (simp add: and.assoc)
  show ?thesis
  proof (cases "?f = 0")
    case True
    with p have "e = \<lparr>ex_fragmentation = ?f, ex_block_number = 0, ex_ack_bitfield = None\<rparr>" "o' = offset + 1"
      by (auto simp: ApsExtendedHeader_parse_def Let_def FRAG_NONE_def FRAG_RESERVED_def split: if_splits)
    with True f show ?thesis by (simp add: ex_wf_def ApsExtendedHeader_bytes_def FRAG_NONE_def)
  next
    case False
    with p f obtain abf where a: "read_byte_if (ft = AftAck) data (offset + 2) = Some (abf, o')" "offset + 2 \<le> length data"
      and e: "e = \<lparr>ex_fragmentation = ?f, ex_block_number = data ! (offset + 1), ex_ack_bitfield = abf\<rparr>"
      by (auto simp: ApsExtendedHeader_parse_def Let_def FRAG_NONE_def FRAG_RESERVED_def bind_eq_Some_conv not_le split: if_splits)
    from read_byte_if_SomeD(1-3)[OF a] False f t e ff show ?thesis
      by (auto simp: ex_wf_def ApsExtendedHeader_bytes_def FRAG_NONE_def opt_bytes_def)
  qed
qed

lemma aps_header_parse_wf:
  assumes p: "ApsHeader_parse data = Some (h, n)"
  shows "aps_header_wf h" "n = length (ApsHeader_bytes h)" "n \<le> length data" "data ! 0 = ApsFrameControl_serialize (ah_frame_control h)"
proof -
  let ?fc = "ApsFrameControl_parse (data ! 0)"
  from aps_types[OF ac_wf_parse, of "data ! 0"] obtain ft dm where t: "ApsFrameType_from_u8 (ac_frame_type ?fc) = Some ft"
    "ApsDeliveryMode_from_u8 (ac_delivery_mode ?fc) = Some dm" "aps_addressed ft ?fc = ac_addressed ?fc"
    "(ft = AftAck) = (ac_frame_type ?fc = 2)"
    "(dm = AdmUnicast \<or> dm = AdmBroadcast) = (ac_delivery_mode ?fc = 0 \<or> ac_delivery_mode ?fc = 2)"
    "(dm = AdmGroup) = (ac_delivery_mode ?fc = 3)" by blast
  let ?a = "ac_addressed ?fc"
  from p t(1,2,3) obtain x1 o1 x2 o2 x3 o3 x4 o4 x5 o5 x6 where
    r1: "read_byte_if (?a \<and> (dm = AdmUnicast \<or> dm = AdmBroadcast)) data 1 = Some (x1, o1)" and
    r2: "read_u16_if (dm = AdmGroup) data o1 = Some (x2, o2)" and
    r3: "read_u16_if ?a data o2 = Some (x3, o3)" and r4: "read_u16_if ?a data o3 = Some (x4, o4)" and
    r5: "read_byte_if ?a data o4 = Some (x5, o5)" and l: "o5 < length data" "data \<noteq> []" and
    r6: "(if ac_extended_header ?fc then map_option (\<lambda>(e, o'). (Some e, o')) (ApsExtendedHeader_parse ft data (o5 + 1))
      else Some (None, o5 + 1)) = Some (x6, n)" and
    h: "h = \<lparr>ah_frame_control = ?fc, ah_dst_endpoint = x1, ah_group_address = x2, ah_cluster_id = x3, ah_profile_id = x4,
      ah_src_endpoint = x5, ah_aps_counter = data ! o5, ah_extended_header = x6\<rparr>"
    unfolding ApsHeader_parse_def Let_def
    by (auto simp del: option.map_disc_iff simp: bind_eq_Some_conv not_le split: if_split_asm prod.splits)
  have l1: "1 \<le> length data" using l(2) by (cases data) simp_all
  note s1 = read_byte_if_SomeD(1-3)[OF r1 l1]
  note s2 = read_u16_if_SomeD(1-3)[OF r2 s1(3)]
  note s3 = read_u16_if_SomeD(1-3)[OF r3 s2(3)]
  note s4 = read_u16_if_SomeD(1-3)[OF r4 s3(3)]
  note s5 = read_byte_if_SomeD(1-3)[OF r5 s4(3)]
  have s6: "ac_extended_header ?fc = (x6 \<noteq> None)" "pred_option (ex_wf (ac_frame_type ?fc)) x6"
    "n = o5 + 1 + length (opt_bytes (ApsExtendedHeader_bytes (ac_frame_type ?fc)) x6)" "n \<le> length data"
    using r6 l(1) ext_parse_SomeD[OF _ t(4), of data "o5 + 1"] by (auto simp: opt_bytes_def split: if_splits)
  show "aps_header_wf h" using s1(1) s2(1) s3(1) s4(1) s5(1) s6(1,2) t(5,6) ac_wf_parse
    unfolding aps_header_wf_def Let_def h by simp
  show "n = length (ApsHeader_bytes h)" using s1(2) s2(2) s3(2) s4(2) s5(2) s6(3) unfolding h ApsHeader_bytes_def by simp
  show "n \<le> length data" by (rule s6(4))
  show "data ! 0 = ApsFrameControl_serialize (ah_frame_control h)" unfolding h by (simp add: ac_serialize_parse)
qed

text \<open>
  C36: the APS header codec is lossless and unambiguous.  A header whose fields are those its control byte announces is read back exactly
  from its serialization, whatever follows it; the serializer writes those bytes when they fit and panics otherwise; and
  whatever the parser accepts is such a header, of which it consumed the number of bytes its serialization has.
\<close>

theorem aps_header_codec_exact:
  "(aps_header_wf h \<longrightarrow> ApsHeader_parse (ApsHeader_bytes h @ rest) = Some (h, length (ApsHeader_bytes h))) \<and>
   (ApsHeader_serialize h buf =
     (if length (ApsHeader_bytes h) \<le> length buf
      then Some (ApsHeader_bytes h @ drop (length (ApsHeader_bytes h)) buf, length (ApsHeader_bytes h)) else None)) \<and>
   (ApsHeader_parse data = Some (h', n) \<longrightarrow>
     aps_header_wf h' \<and> n = length (ApsHeader_bytes h') \<and> n \<le> length data)"
  using aps_header_parse_bytes aps_header_parse_wf[of data h' n] by (simp add: ApsHeader_serialize_eq write_at_start)

definition example_aps_header :: ApsHeader where
  "example_aps_header = \<lparr>ah_frame_control = \<lparr>ac_frame_type = 0, ac_delivery_mode = 0, ac_ack_format = False, ac_security = False,
     ac_ack_request = True, ac_extended_header = True\<rparr>, ah_dst_endpoint = Some 1, ah_group_address = None,
     ah_cluster_id = Some 6, ah_profile_id = Some 0x104, ah_src_endpoint = Some 1, ah_aps_counter = 9,
     ah_extended_header = Some \<lparr>ex_fragmentation = 1, ex_block_number = 3, ex_ack_bitfield = None\<rparr>\<rparr>"

theorem aps_header_codec_exact_witness:
  "ApsHeader_parse (ApsHeader_bytes example_aps_header @ [1, 2]) = Some (example_aps_header, 10) \<and>
   ApsHeader_bytes example_aps_header = [0xC0, 1, 6, 0, 4, 1, 1, 9, 1, 3]"
proof -
  have b: "ApsHeader_bytes example_aps_header = [0xC0, 1, 6, 0, 4, 1, 1, 9, 1, 3]"
    by (simp add: ApsHeader_bytes_def example_aps_header_def ApsFrameControl_serialize_def opt_bytes_def u16_to_le_def
        ApsExtendedHeader_bytes_def FRAG_NONE_def flag_at_def)
  have "aps_header_wf example_aps_header"
    by (simp add: aps_header_wf_def example_aps_header_def ac_wf_def ac_addressed_def ex_wf_def)
  with aps_header_codec_exact[of example_aps_header "[1, 2]" "[]" "[]" example_aps_header 0] b show ?thesis by simp
qed

end
