(* ===== verification/Aps_Security.thy ===== *)
theory Aps_Security
  imports Aps_Frames Ccm_Star
begin

text \<open>
  \<^verbatim>\<open>zigbee-aps/src/security.rs\<close>: the APS auxiliary header, the table of link keys with their outgoing
  and incoming frame counters, the replay floors of the two global commissioning keys, the keys derived from a link key,
  and the CCM* transformation of an APS payload.  The capacity of the key table depends on the build: the operations
  that can fill it take the feature flag.
\<close>

section \<open>Auxiliary header\<close>

definition SEC_LEVEL_ENC_MIC_32 :: u8 where "SEC_LEVEL_ENC_MIC_32 = 0x05"
definition KEY_ID_DATA_KEY :: u8 where "KEY_ID_DATA_KEY = 0x00"
definition KEY_ID_NETWORK_KEY :: u8 where "KEY_ID_NETWORK_KEY = 0x01"
definition KEY_ID_KEY_TRANSPORT :: u8 where "KEY_ID_KEY_TRANSPORT = 0x02"
definition KEY_ID_KEY_LOAD :: u8 where "KEY_ID_KEY_LOAD = 0x03"

record ApsSecurityHeader =
  ax_security_control :: u8
  ax_frame_counter :: u32
  ax_source_address :: "IeeeAddress option"
  ax_key_seq_number :: "u8 option"

definition APS_DEFAULT_EXT_NONCE :: u8 where
  "APS_DEFAULT_EXT_NONCE = SEC_LEVEL_ENC_MIC_32 OR push_bit 3 KEY_ID_DATA_KEY OR push_bit 5 1"

definition key_identifier :: "u8 \<Rightarrow> u8" where
  "key_identifier sc = drop_bit 3 sc AND 0x03"

definition extended_nonce :: "u8 \<Rightarrow> bool" where
  "extended_nonce sc \<longleftrightarrow> drop_bit 5 sc AND 1 \<noteq> 0"

definition ApsSecurityHeader_parse :: "u8 list \<Rightarrow> (ApsSecurityHeader \<times> nat) option" where
  "ApsSecurityHeader_parse data =
     (if length data < 5 then None
      else let security_control = data ! 0;
               frame_counter = u32_from_le (data ! 1) (data ! 2) (data ! 3) (data ! 4)
           in do {
             (source_address, offset) \<leftarrow> read_ieee_if (extended_nonce security_control) data 5;
             (key_seq_number, offset) \<leftarrow>
               read_byte_if (key_identifier security_control = KEY_ID_NETWORK_KEY) data offset;
             Some (\<lparr>ax_security_control = security_control, ax_frame_counter = frame_counter,
               ax_source_address = source_address, ax_key_seq_number = key_seq_number\<rparr>, offset)
           })"

definition ApsSecurityHeader_bytes :: "ApsSecurityHeader \<Rightarrow> u8 list" where
  "ApsSecurityHeader_bytes h = [ax_security_control h] @ u32_to_le (ax_frame_counter h) @
     opt_bytes id (ax_source_address h) @ opt_bytes (\<lambda>b. [b]) (ax_key_seq_number h)"

definition ApsSecurityHeader_serialize :: "ApsSecurityHeader \<Rightarrow> u8 list \<Rightarrow> (u8 list \<times> nat) option" where
  "ApsSecurityHeader_serialize h buf =
     write_at ([ax_security_control h] @ u32_to_le (ax_frame_counter h)) (buf, 0) \<bind>
     write_opt id (ax_source_address h) \<bind> write_opt (\<lambda>seq. [seq]) (ax_key_seq_number h)"

section \<open>Link keys\<close>

datatype ApsKeyType = TrustCenterMasterKey | TrustCenterLinkKey | NetworkKey | ApplicationLinkKey

definition ApsKeyType_from_u8 :: "u8 \<Rightarrow> ApsKeyType option" where
  "ApsKeyType_from_u8 v =
     (if v = 0x00 then Some TrustCenterMasterKey else if v = 0x01 then Some TrustCenterLinkKey
      else if v = 0x02 then Some NetworkKey else if v = 0x03 then Some ApplicationLinkKey else None)"

definition MAX_KEY_TABLE_ENTRIES :: "bool \<Rightarrow> nat" where
  "MAX_KEY_TABLE_ENTRIES trust_center = (if trust_center then 32 else 16)"
definition MAX_KEY_PAIRS_PER_PARTNER :: nat where "MAX_KEY_PAIRS_PER_PARTNER = 2"
definition MAX_ACTIVE_GLOBAL_REPLAY_DOMAINS :: nat where "MAX_ACTIVE_GLOBAL_REPLAY_DOMAINS = 2"

definition DEFAULT_TC_LINK_KEY :: AesKey where
  "DEFAULT_TC_LINK_KEY = [0x5A, 0x69, 0x67, 0x42, 0x65, 0x65, 0x41, 0x6C,
     0x6C, 0x69, 0x61, 0x6E, 0x63, 0x65, 0x30, 0x39]"

datatype ApsKeyOrigin = KeyPair IeeeAddress ApsKeyType | PreconfiguredGlobal | DistributedGlobal

datatype ApsReplayOrigin = RKeyPair IeeeAddress ApsKeyType | RPreconfiguredGlobal IeeeAddress
  | RDistributedGlobal IeeeAddress

text \<open>\<^verbatim>\<open>impl PartialEq for ApsReplayOrigin\<close>: the global domains aggregate their senders.\<close>

fun replay_origin_eq :: "ApsReplayOrigin \<Rightarrow> ApsReplayOrigin \<Rightarrow> bool" where
  "replay_origin_eq (RKeyPair p t) (RKeyPair p' t') = (p = p' \<and> t = t')"
| "replay_origin_eq (RPreconfiguredGlobal _) (RPreconfiguredGlobal _) = True"
| "replay_origin_eq (RDistributedGlobal _) (RDistributedGlobal _) = True"
| "replay_origin_eq _ _ = False"

record ApsReplayCounter =
  ar_origin :: ApsReplayOrigin
  ar_key_fingerprint :: u32
  ar_counter :: u32

definition ApsReplayCounter_from_verified :: "ApsKeyOrigin \<Rightarrow> IeeeAddress \<Rightarrow> AesKey \<Rightarrow> u32 \<Rightarrow> ApsReplayCounter" where
  "ApsReplayCounter_from_verified origin source key counter =
     \<lparr>ar_origin = (case origin of KeyPair partner key_type \<Rightarrow> RKeyPair partner key_type
        | PreconfiguredGlobal \<Rightarrow> RPreconfiguredGlobal source | DistributedGlobal \<Rightarrow> RDistributedGlobal source),
      ar_key_fingerprint = key_fingerprint key, ar_counter = counter\<rparr>"

record ApsLinkKeyEntry =
  lk_partner_address :: IeeeAddress
  lk_key :: AesKey
  lk_key_type :: ApsKeyType
  lk_outgoing_frame_counter :: u32
  lk_outgoing_frame_counter_limit :: u32
  lk_incoming_frame_counter :: u32
  lk_incoming_frame_counter_valid :: bool

record ApsSecurity =
  as_key_table :: "ApsLinkKeyEntry list"
  as_default_tc_link_key :: AesKey
  as_distributed_security_link_key :: "AesKey option"
  as_global_replay_table :: "ApsReplayCounter list"
  as_stale_incoming_floors :: "(IeeeAddress \<times> ApsKeyType) list"

definition ApsSecurity_new :: ApsSecurity where
  "ApsSecurity_new = \<lparr>as_key_table = [], as_default_tc_link_key = DEFAULT_TC_LINK_KEY,
     as_distributed_security_link_key = None, as_global_replay_table = [], as_stale_incoming_floors = []\<rparr>"

abbreviation lk_pair :: "ApsLinkKeyEntry \<Rightarrow> IeeeAddress \<times> ApsKeyType" where
  "lk_pair e \<equiv> (lk_partner_address e, lk_key_type e)"

section \<open>The key table\<close>

definition key_index :: "ApsSecurity \<Rightarrow> IeeeAddress \<Rightarrow> ApsKeyType \<Rightarrow> nat option" where
  "key_index s partner key_type =
     position (\<lambda>e. lk_partner_address e = partner \<and> lk_key_type e = key_type) (as_key_table s)"

definition find_key :: "ApsSecurity \<Rightarrow> IeeeAddress \<Rightarrow> ApsKeyType \<Rightarrow> ApsLinkKeyEntry option" where
  "find_key s partner key_type = map_option (\<lambda>i. as_key_table s ! i) (key_index s partner key_type)"

text \<open>A write through \<^verbatim>\<open>find_key_mut\<close>.\<close>

definition update_key :: "ApsSecurity \<Rightarrow> IeeeAddress \<Rightarrow> ApsKeyType \<Rightarrow> (ApsLinkKeyEntry \<Rightarrow> ApsLinkKeyEntry) \<Rightarrow> ApsSecurity" where
  "update_key s partner key_type f =
     (case key_index s partner key_type of None \<Rightarrow> s
      | Some i \<Rightarrow> s\<lparr>as_key_table := (as_key_table s)[i := f (as_key_table s ! i)]\<rparr>)"

definition stale_floor_index :: "ApsSecurity \<Rightarrow> IeeeAddress \<Rightarrow> ApsKeyType \<Rightarrow> nat option" where
  "stale_floor_index s partner key_type =
     position (\<lambda>(address, kind). address = partner \<and> kind = key_type) (as_stale_incoming_floors s)"

definition incoming_floor_predates_key :: "ApsSecurity \<Rightarrow> IeeeAddress \<Rightarrow> ApsKeyType \<Rightarrow> bool" where
  "incoming_floor_predates_key s partner key_type \<longleftrightarrow> stale_floor_index s partner key_type \<noteq> None"

definition set_stale_incoming_floor :: "bool \<Rightarrow> ApsSecurity \<Rightarrow> IeeeAddress \<Rightarrow> ApsKeyType \<Rightarrow> bool \<Rightarrow> ApsSecurity" where
  "set_stale_incoming_floor tc s partner key_type stale =
     (case (stale_floor_index s partner key_type, stale) of
        (None, True) \<Rightarrow> s\<lparr>as_stale_incoming_floors :=
          vec_push_ignore (MAX_KEY_TABLE_ENTRIES tc) (partner, key_type) (as_stale_incoming_floors s)\<rparr>
      | (Some index, False) \<Rightarrow> s\<lparr>as_stale_incoming_floors := swap_remove index (as_stale_incoming_floors s)\<rparr>
      | _ \<Rightarrow> s)"

definition reset_stale_incoming_floor :: "bool \<Rightarrow> ApsSecurity \<Rightarrow> IeeeAddress \<Rightarrow> ApsKeyType \<Rightarrow> bool \<times> ApsSecurity" where
  "reset_stale_incoming_floor tc s partner key_type =
     (if \<not> incoming_floor_predates_key s partner key_type then (False, s)
      else let s = set_stale_incoming_floor tc s partner key_type False
           in if find_key s partner key_type = None then (False, s)
              else (True, update_key s partner key_type
                (\<lambda>e. e\<lparr>lk_incoming_frame_counter := 0, lk_incoming_frame_counter_valid := False\<rparr>)))"

fun is_preconfigured_global :: "ApsReplayOrigin \<Rightarrow> bool" where
  "is_preconfigured_global (RPreconfiguredGlobal _) = True"
| "is_preconfigured_global _ = False"

fun is_distributed_global :: "ApsReplayOrigin \<Rightarrow> bool" where
  "is_distributed_global (RDistributedGlobal _) = True"
| "is_distributed_global _ = False"

definition set_default_tc_link_key :: "ApsSecurity \<Rightarrow> AesKey \<Rightarrow> ApsSecurity" where
  "set_default_tc_link_key s key =
     (let s = (if as_default_tc_link_key s \<noteq> key
               then s\<lparr>as_global_replay_table := filter (\<lambda>e. \<not> is_preconfigured_global (ar_origin e)) (as_global_replay_table s)\<rparr>
               else s)
      in s\<lparr>as_default_tc_link_key := key\<rparr>)"

definition set_distributed_security_link_key :: "ApsSecurity \<Rightarrow> AesKey \<Rightarrow> ApsSecurity" where
  "set_distributed_security_link_key s key =
     (let s = (if as_distributed_security_link_key s \<noteq> Some key
               then s\<lparr>as_global_replay_table := filter (\<lambda>e. \<not> is_distributed_global (ar_origin e)) (as_global_replay_table s)\<rparr>
               else s)
      in s\<lparr>as_distributed_security_link_key := Some key\<rparr>)"

definition clear_distributed_security_link_key :: "ApsSecurity \<Rightarrow> ApsSecurity" where
  "clear_distributed_security_link_key s =
     s\<lparr>as_distributed_security_link_key := None,
       as_global_replay_table := filter (\<lambda>e. \<not> is_distributed_global (ar_origin e)) (as_global_replay_table s)\<rparr>"

definition aps_key_fingerprint_is_live :: "ApsSecurity \<Rightarrow> u32 \<Rightarrow> bool" where
  "aps_key_fingerprint_is_live s fingerprint \<longleftrightarrow>
     key_fingerprint (as_default_tc_link_key s) = fingerprint \<or>
     (case as_distributed_security_link_key s of None \<Rightarrow> False | Some key \<Rightarrow> key_fingerprint key = fingerprint) \<or>
     list_ex (\<lambda>e. key_fingerprint (lk_key e) = fingerprint) (as_key_table s)"

definition replay_origin_key :: "ApsSecurity \<Rightarrow> ApsReplayOrigin \<Rightarrow> AesKey option" where
  "replay_origin_key s origin =
     (case origin of RKeyPair partner key_type \<Rightarrow> map_option lk_key (find_key s partner key_type)
      | RPreconfiguredGlobal _ \<Rightarrow> Some (as_default_tc_link_key s)
      | RDistributedGlobal _ \<Rightarrow> as_distributed_security_link_key s)"

definition aps_replay_counter_key_is_live :: "ApsSecurity \<Rightarrow> ApsReplayCounter \<Rightarrow> bool" where
  "aps_replay_counter_key_is_live s replay \<longleftrightarrow>
     (case replay_origin_key s (ar_origin replay) of None \<Rightarrow> False
      | Some key \<Rightarrow> key_fingerprint key = ar_key_fingerprint replay)"

definition overwrite_key :: "ApsLinkKeyEntry \<Rightarrow> ApsLinkKeyEntry \<Rightarrow> ApsLinkKeyEntry" where
  "overwrite_key entry e = e\<lparr>lk_key := lk_key entry, lk_outgoing_frame_counter := lk_outgoing_frame_counter entry,
     lk_outgoing_frame_counter_limit := lk_outgoing_frame_counter_limit entry,
     lk_incoming_frame_counter := lk_incoming_frame_counter entry,
     lk_incoming_frame_counter_valid := lk_incoming_frame_counter_valid entry\<rparr>"

definition add_key :: "bool \<Rightarrow> ApsSecurity \<Rightarrow> ApsLinkKeyEntry \<Rightarrow> (ApsLinkKeyEntry + unit) \<times> ApsSecurity" where
  "add_key tc s entry =
     (case find_key s (lk_partner_address entry) (lk_key_type entry) of
        Some existing \<Rightarrow>
          let key_changed = lk_key existing \<noteq> lk_key entry;
              s = update_key s (lk_partner_address entry) (lk_key_type entry) (overwrite_key entry)
          in (Inr (), if key_changed
                then set_stale_incoming_floor tc s (lk_partner_address entry) (lk_key_type entry)
                       (lk_incoming_frame_counter_valid entry)
                else s)
      | None \<Rightarrow>
          (case vec_push (MAX_KEY_TABLE_ENTRIES tc) entry (as_key_table s) of
             Some t \<Rightarrow> (Inr (), s\<lparr>as_key_table := t\<rparr>)
           | None \<Rightarrow> (Inl entry, s)))"

text \<open>
  The removed entry is swapped to the end, wiped there and popped: the table loses it and the last entry takes its
  place.
\<close>

definition wipe_and_remove_key_slot :: "nat \<Rightarrow> ApsLinkKeyEntry list \<Rightarrow> ApsLinkKeyEntry list" where
  "wipe_and_remove_key_slot index table = swap_remove index table"

definition remove_key :: "bool \<Rightarrow> ApsSecurity \<Rightarrow> IeeeAddress \<Rightarrow> ApsKeyType \<Rightarrow> bool \<times> ApsSecurity" where
  "remove_key tc s partner key_type =
     (case key_index s partner key_type of
        None \<Rightarrow> (False, s)
      | Some idx \<Rightarrow> (True, set_stale_incoming_floor tc
          (s\<lparr>as_key_table := wipe_and_remove_key_slot idx (as_key_table s)\<rparr>) partner key_type False))"

definition clear_keys :: "ApsSecurity \<Rightarrow> ApsSecurity" where
  "clear_keys s = s\<lparr>as_key_table := [], as_global_replay_table := [], as_stale_incoming_floors := []\<rparr>"

function (sequential) remove_application_keys :: "nat \<Rightarrow> ApsLinkKeyEntry list \<Rightarrow> ApsLinkKeyEntry list" where
  "remove_application_keys index table =
     (if index < length table
      then if lk_key_type (table ! index) = ApplicationLinkKey
           then remove_application_keys index (wipe_and_remove_key_slot index table)
           else remove_application_keys (index + 1) table
      else table)"
  by pat_completeness auto
termination by (relation "measure (\<lambda>(index, table). length table - index)") (auto simp: wipe_and_remove_key_slot_def)

declare remove_application_keys.simps [simp del]

definition clear_application_link_keys :: "ApsSecurity \<Rightarrow> ApsSecurity" where
  "clear_application_link_keys s =
     s\<lparr>as_key_table := remove_application_keys 0 (as_key_table s),
       as_stale_incoming_floors := filter (\<lambda>(_, kind). kind \<noteq> ApplicationLinkKey) (as_stale_incoming_floors s)\<rparr>"

definition find_any_key :: "ApsSecurity \<Rightarrow> IeeeAddress \<Rightarrow> ApsLinkKeyEntry option" where
  "find_any_key s partner =
     (case find_key s partner TrustCenterLinkKey of Some e \<Rightarrow> Some e
      | None \<Rightarrow> find_key s partner ApplicationLinkKey)"

definition key_pairs_for :: "ApsSecurity \<Rightarrow> IeeeAddress \<Rightarrow> (ApsKeyType \<times> AesKey) list" where
  "key_pairs_for s partner =
     fold (\<lambda>key_type pairs. case find_key s partner key_type of
         Some entry \<Rightarrow> vec_push_ignore MAX_KEY_PAIRS_PER_PARTNER (key_type, lk_key entry) pairs
       | None \<Rightarrow> pairs) [TrustCenterLinkKey, ApplicationLinkKey] []"

definition key_for_origin :: "ApsSecurity \<Rightarrow> ApsKeyOrigin \<Rightarrow> AesKey option" where
  "key_for_origin s origin =
     (case origin of KeyPair partner key_type \<Rightarrow> map_option lk_key (find_key s partner key_type)
      | PreconfiguredGlobal \<Rightarrow> Some (as_default_tc_link_key s)
      | DistributedGlobal \<Rightarrow> as_distributed_security_link_key s)"

section \<open>Frame counters\<close>

definition aps_check_frame_counter :: "ApsSecurity \<Rightarrow> IeeeAddress \<Rightarrow> ApsKeyType \<Rightarrow> u32 \<Rightarrow> bool" where
  "aps_check_frame_counter s partner key_type counter \<longleftrightarrow>
     (case find_key s partner key_type of
        Some e \<Rightarrow> \<not> lk_incoming_frame_counter_valid e \<or> counter > lk_incoming_frame_counter e
      | None \<Rightarrow> True)"

definition aps_commit_frame_counter :: "bool \<Rightarrow> ApsSecurity \<Rightarrow> IeeeAddress \<Rightarrow> ApsKeyType \<Rightarrow> u32 \<Rightarrow> ApsSecurity" where
  "aps_commit_frame_counter tc s partner key_type counter =
     (case find_key s partner key_type of
        None \<Rightarrow> s
      | Some e \<Rightarrow>
          if \<not> lk_incoming_frame_counter_valid e \<or> counter > lk_incoming_frame_counter e
          then set_stale_incoming_floor tc
                 (update_key s partner key_type
                   (\<lambda>e. e\<lparr>lk_incoming_frame_counter := counter, lk_incoming_frame_counter_valid := True\<rparr>))
                 partner key_type False
          else s)"

definition check_frame_counter_for :: "ApsSecurity \<Rightarrow> ApsKeyOrigin \<Rightarrow> u32 \<Rightarrow> bool" where
  "check_frame_counter_for s origin counter =
     (case origin of KeyPair partner key_type \<Rightarrow> aps_check_frame_counter s partner key_type counter | _ \<Rightarrow> True)"

definition commit_frame_counter_for :: "bool \<Rightarrow> ApsSecurity \<Rightarrow> ApsKeyOrigin \<Rightarrow> u32 \<Rightarrow> ApsSecurity" where
  "commit_frame_counter_for tc s origin counter =
     (case origin of KeyPair partner key_type \<Rightarrow> aps_commit_frame_counter tc s partner key_type counter | _ \<Rightarrow> s)"

definition check_replay_counter :: "ApsSecurity \<Rightarrow> ApsReplayCounter \<Rightarrow> bool" where
  "check_replay_counter s replay =
     (case ar_origin replay of
        RKeyPair partner key_type \<Rightarrow> aps_check_frame_counter s partner key_type (ar_counter replay)
      | _ \<Rightarrow>
          (case find (\<lambda>e. replay_origin_eq (ar_origin e) (ar_origin replay)) (as_global_replay_table s) of
             Some e \<Rightarrow> ar_counter replay > ar_counter e
           | None \<Rightarrow> length (as_global_replay_table s) \<noteq> MAX_ACTIVE_GLOBAL_REPLAY_DOMAINS))"

definition commit_replay_counter :: "bool \<Rightarrow> ApsSecurity \<Rightarrow> ApsReplayCounter \<Rightarrow> ApsSecurity" where
  "commit_replay_counter tc s replay =
     (case ar_origin replay of
        RKeyPair partner key_type \<Rightarrow> aps_commit_frame_counter tc s partner key_type (ar_counter replay)
      | _ \<Rightarrow>
          s\<lparr>as_global_replay_table :=
            (if list_ex (\<lambda>e. replay_origin_eq (ar_origin e) (ar_origin replay)) (as_global_replay_table s)
             then update_first (\<lambda>e. replay_origin_eq (ar_origin e) (ar_origin replay))
                    (\<lambda>e. if ar_counter replay > ar_counter e then replay else e) (as_global_replay_table s)
             else vec_push_ignore MAX_ACTIVE_GLOBAL_REPLAY_DOMAINS replay (as_global_replay_table s))\<rparr>)"

definition aps_restore_replay_counter :: "bool \<Rightarrow> ApsSecurity \<Rightarrow> ApsReplayCounter \<Rightarrow> bool \<times> ApsSecurity" where
  "aps_restore_replay_counter tc s replay =
     (case replay_origin_key s (ar_origin replay) of
        None \<Rightarrow> (False, s)
      | Some key \<Rightarrow> if key_fingerprint key \<noteq> ar_key_fingerprint replay then (False, s)
                    else (True, commit_replay_counter tc s replay))"

definition aps_next_frame_counter :: "ApsSecurity \<Rightarrow> IeeeAddress \<Rightarrow> ApsKeyType \<Rightarrow> u32 option \<times> ApsSecurity" where
  "aps_next_frame_counter s partner key_type =
     (case find_key s partner key_type of
        None \<Rightarrow> (None, s)
      | Some e \<Rightarrow>
          if lk_outgoing_frame_counter e \<ge> lk_outgoing_frame_counter_limit e then (None, s)
          else (Some (lk_outgoing_frame_counter e),
                update_key s partner key_type (\<lambda>e. e\<lparr>lk_outgoing_frame_counter := lk_outgoing_frame_counter e + 1\<rparr>)))"

section \<open>Keys and payloads\<close>

definition aps_build_nonce :: "ApsSecurityHeader \<Rightarrow> u8 list" where
  "aps_build_nonce h = (case ax_source_address h of Some a \<Rightarrow> a | None \<Rightarrow> replicate 8 0) @
     u32_to_le (ax_frame_counter h) @ [(ax_security_control h AND NOT 0x07) OR SEC_LEVEL_ENC_MIC_32]"

definition aps_encrypt_with :: "'e provider \<Rightarrow> u8 list \<Rightarrow> u8 list \<Rightarrow> AesKey \<Rightarrow> ApsSecurityHeader \<Rightarrow> u8 list option" where
  "aps_encrypt_with provider aps_header payload key security_header =
     (case ccm_star_encrypt_with (provider key) (aps_build_nonce security_header) aps_header payload of
        Inr result \<Rightarrow> result | Inl _ \<Rightarrow> None)"

definition aps_decrypt_with :: "'e provider \<Rightarrow> u8 list \<Rightarrow> u8 list \<Rightarrow> AesKey \<Rightarrow> ApsSecurityHeader \<Rightarrow> u8 list option" where
  "aps_decrypt_with provider aps_header ciphertext key security_header =
     (if length ciphertext < 4 then None
      else case ccm_star_decrypt_with (provider key) (aps_build_nonce security_header) aps_header ciphertext of
             Inr result \<Rightarrow> result | Inl _ \<Rightarrow> None)"

definition hmac_mmo_with :: "'e provider \<Rightarrow> AesKey \<Rightarrow> u8 list \<Rightarrow> AesKey option" where
  "hmac_mmo_with provider key message =
     (case aes_mmo_hash_with provider (xor_bytes (replicate 16 0x36) key @ message) of
        Inl _ \<Rightarrow> None
      | Inr inner_hash \<Rightarrow>
          (case aes_mmo_hash_with provider (xor_bytes (replicate 16 0x5C) key @ inner_hash) of
             Inl _ \<Rightarrow> None | Inr result \<Rightarrow> Some result))"

definition derive_key_transport_key_with :: "'e provider \<Rightarrow> AesKey \<Rightarrow> AesKey option" where
  "derive_key_transport_key_with provider link_key = hmac_mmo_with provider link_key [0x00]"

definition derive_key_load_key_with :: "'e provider \<Rightarrow> AesKey \<Rightarrow> AesKey option" where
  "derive_key_load_key_with provider link_key = hmac_mmo_with provider link_key [0x02]"

definition derive_verify_key_hash_with :: "'e provider \<Rightarrow> AesKey \<Rightarrow> AesKey option" where
  "derive_verify_key_hash_with provider link_key = hmac_mmo_with provider link_key [0x03]"

section \<open>Well-formed security state\<close>

text \<open>
  One entry per partner and key type; the floors marked stale belong to entries; the global replay table has at most one
  record per global key.  So neither the list of stale floors nor the replay table ever overflows.
\<close>

definition aps_wf :: "bool \<Rightarrow> ApsSecurity \<Rightarrow> bool" where
  "aps_wf tc s \<longleftrightarrow> distinct (map lk_pair (as_key_table s)) \<and> length (as_key_table s) \<le> MAX_KEY_TABLE_ENTRIES tc \<and>
     distinct (as_stale_incoming_floors s) \<and> set (as_stale_incoming_floors s) \<subseteq> lk_pair ` set (as_key_table s) \<and>
     list_all (\<lambda>g. is_preconfigured_global (ar_origin g) \<or> is_distributed_global (ar_origin g)) (as_global_replay_table s) \<and>
     length (filter (\<lambda>g. is_preconfigured_global (ar_origin g)) (as_global_replay_table s)) \<le> 1 \<and>
     length (filter (\<lambda>g. is_distributed_global (ar_origin g)) (as_global_replay_table s)) \<le> 1"

lemma position_map_cong: "map P xs = map Q ys \<Longrightarrow> position P xs = position Q ys"
proof (induction xs arbitrary: ys)
  case (Cons x xs)
  then show ?case by (cases ys) auto
qed simp

lemma key_index_SomeD:
  "key_index s p t = Some i \<Longrightarrow> i < length (as_key_table s) \<and> lk_pair (as_key_table s ! i) = (p, t)"
  unfolding key_index_def by (auto dest: position_SomeD)

lemma find_key_SomeD: "find_key s p t = Some e \<Longrightarrow> e \<in> set (as_key_table s) \<and> lk_pair e = (p, t)"
  by (auto simp: find_key_def dest!: key_index_SomeD)

lemma find_key_None: "find_key s p t = None \<longleftrightarrow> (p, t) \<notin> lk_pair ` set (as_key_table s)"
  by (auto simp: find_key_def key_index_def position_None_iff)

lemma distinct_map_eq: "distinct (map f xs) \<Longrightarrow> x \<in> set xs \<Longrightarrow> y \<in> set xs \<Longrightarrow> f x = f y \<Longrightarrow> x = y"
  by (metis distinct_map inj_on_eq_iff)

lemma aps_find_key_iff:
  assumes "distinct (map lk_pair (as_key_table s))"
  shows "find_key s p t = Some e \<longleftrightarrow> e \<in> set (as_key_table s) \<and> lk_pair e = (p, t)"
proof
  assume e: "e \<in> set (as_key_table s) \<and> lk_pair e = (p, t)"
  then have "find_key s p t \<noteq> None" unfolding find_key_None by (auto intro: rev_image_eqI)
  then obtain e' where e': "find_key s p t = Some e'" by blast
  with e find_key_SomeD[OF e'] distinct_map_eq[OF assms, of e e'] show "find_key s p t = Some e" by simp
qed (rule find_key_SomeD)

lemma update_key_other [simp]:
  "as_default_tc_link_key (update_key s p t f) = as_default_tc_link_key s"
  "as_distributed_security_link_key (update_key s p t f) = as_distributed_security_link_key s"
  "as_global_replay_table (update_key s p t f) = as_global_replay_table s"
  "as_stale_incoming_floors (update_key s p t f) = as_stale_incoming_floors s"
  "length (as_key_table (update_key s p t f)) = length (as_key_table s)"
  by (simp_all add: update_key_def split: option.splits)

lemma update_key_pairs:
  assumes "\<And>e. lk_pair (f e) = lk_pair e"
  shows "map lk_pair (as_key_table (update_key s p t f)) = map lk_pair (as_key_table s)"
proof (cases "key_index s p t")
  case (Some i)
  from key_index_SomeD[OF Some] have i: "i < length (as_key_table s)" by simp
  have "map lk_pair ((as_key_table s)[i := f (as_key_table s ! i)]) = map lk_pair (as_key_table s)"
    using i assms by (intro nth_equalityI) (auto simp: nth_list_update)
  with Some show ?thesis by (simp add: update_key_def)
qed (simp add: update_key_def)

lemma find_key_update_key:
  assumes "\<And>e. lk_pair (f e) = lk_pair e"
  shows "find_key (update_key s p t f) p' t' =
    (if (p', t') = (p, t) then map_option f (find_key s p t) else find_key s p' t')"
proof -
  let ?P = "\<lambda>e. lk_partner_address e = p' \<and> lk_key_type e = t'"
  have "map ?P (as_key_table (update_key s p t f)) = map ?P (as_key_table s)"
    using arg_cong[OF update_key_pairs[of f s p t, OF assms], of "map (\<lambda>x. x = (p', t'))"] by (simp add: comp_def)
  then have k: "key_index (update_key s p t f) p' t' = key_index s p' t'"
    unfolding key_index_def by (rule position_map_cong)
  show ?thesis
  proof (cases "key_index s p t")
    case None
    then show ?thesis by (auto simp: find_key_def update_key_def)
  next
    case (Some i)
    from key_index_SomeD[OF Some] have i: "i < length (as_key_table s)" "lk_pair (as_key_table s ! i) = (p, t)" by auto
    show ?thesis
    proof (cases "key_index s p' t'")
      case None
      with Some k show ?thesis by (auto simp: find_key_def)
    next
      case s': (Some j)
      from key_index_SomeD[OF s'] i have "i = j \<longrightarrow> (p', t') = (p, t)" by auto
      with Some s' k i show ?thesis by (auto simp: find_key_def update_key_def nth_list_update)
    qed
  qed
qed

lemma stale_index: "(stale_floor_index s p t = None) = ((p, t) \<notin> set (as_stale_incoming_floors s))"
  by (auto simp: stale_floor_index_def position_None_iff)

lemma stale_index_SomeD:
  "stale_floor_index s p t = Some i \<Longrightarrow> i < length (as_stale_incoming_floors s) \<and> as_stale_incoming_floors s ! i = (p, t)"
  by (auto simp: stale_floor_index_def dest!: position_SomeD)

lemma set_stale_other [simp]:
  "as_key_table (set_stale_incoming_floor tc s p t b) = as_key_table s"
  "as_default_tc_link_key (set_stale_incoming_floor tc s p t b) = as_default_tc_link_key s"
  "as_distributed_security_link_key (set_stale_incoming_floor tc s p t b) = as_distributed_security_link_key s"
  "as_global_replay_table (set_stale_incoming_floor tc s p t b) = as_global_replay_table s"
  by (simp_all add: set_stale_incoming_floor_def split: option.splits bool.splits)

lemma find_key_set_stale [simp]: "find_key (set_stale_incoming_floor tc s p t b) p' t' = find_key s p' t'"
  by (simp add: find_key_def key_index_def)

lemma stale_removed:
  assumes "distinct (as_stale_incoming_floors s)"
  shows "set (as_stale_incoming_floors (set_stale_incoming_floor tc s p t False)) = set (as_stale_incoming_floors s) - {(p, t)}"
    "distinct (as_stale_incoming_floors (set_stale_incoming_floor tc s p t False))"
proof -
  have "set (as_stale_incoming_floors (set_stale_incoming_floor tc s p t False)) = set (as_stale_incoming_floors s) - {(p, t)} \<and>
    distinct (as_stale_incoming_floors (set_stale_incoming_floor tc s p t False))"
  proof (cases "stale_floor_index s p t")
    case None
    then have "(p, t) \<notin> set (as_stale_incoming_floors s)" by (simp flip: stale_index)
    with assms None show ?thesis by (simp add: set_stale_incoming_floor_def)
  next
    case (Some i)
    with set_swap_remove_distinct[OF _ assms, of i] stale_index_SomeD[OF Some] show ?thesis
      by (simp add: set_stale_incoming_floor_def)
  qed
  then show "set (as_stale_incoming_floors (set_stale_incoming_floor tc s p t False)) = set (as_stale_incoming_floors s) - {(p, t)}"
    "distinct (as_stale_incoming_floors (set_stale_incoming_floor tc s p t False))" by simp_all
qed

text \<open>The comment in the source: the list of stale floors cannot overflow.\<close>

lemma stale_added:
  assumes wf: "aps_wf tc s" and k: "(p, t) \<in> lk_pair ` set (as_key_table s)"
  shows "set (as_stale_incoming_floors (set_stale_incoming_floor tc s p t True)) = insert (p, t) (set (as_stale_incoming_floors s))"
    "distinct (as_stale_incoming_floors (set_stale_incoming_floor tc s p t True))"
proof -
  let ?l = "as_stale_incoming_floors s"
  have d: "distinct ?l" "set ?l \<subseteq> lk_pair ` set (as_key_table s)" "length (as_key_table s) \<le> MAX_KEY_TABLE_ENTRIES tc"
    using wf by (auto simp: aps_wf_def)
  have room: "length ?l < MAX_KEY_TABLE_ENTRIES tc" if "(p, t) \<notin> set ?l"
  proof -
    have "insert (p, t) (set ?l) \<subseteq> lk_pair ` set (as_key_table s)" using k d(2) by blast
    then have "card (insert (p, t) (set ?l)) \<le> card (lk_pair ` set (as_key_table s))" by (intro card_mono) simp_all
    also have "\<dots> \<le> length (as_key_table s)" by (metis card_image_le card_length finite_set le_trans)
    finally show ?thesis using that d(1,3) by (simp add: distinct_card)
  qed
  then show "set (as_stale_incoming_floors (set_stale_incoming_floor tc s p t True)) = insert (p, t) (set ?l)"
    "distinct (as_stale_incoming_floors (set_stale_incoming_floor tc s p t True))"
    using d(1) stale_index[of s p t] by (auto simp: set_stale_incoming_floor_def vec_push_ignore_def split: option.splits)
qed

lemma wf_set_stale: "aps_wf tc s \<Longrightarrow> (b \<Longrightarrow> (p, t) \<in> lk_pair ` set (as_key_table s)) \<Longrightarrow> aps_wf tc (set_stale_incoming_floor tc s p t b)"
  using stale_added[of tc s p t] stale_removed[of s tc p t] by (cases b) (auto simp: aps_wf_def)

lemma wf_update_key:
  assumes wf: "aps_wf tc s" and f: "\<And>e. lk_pair (f e) = lk_pair e"
  shows "aps_wf tc (update_key s p t f)"
proof -
  have "lk_pair ` set (as_key_table (update_key s p t f)) = lk_pair ` set (as_key_table s)"
    using arg_cong[OF update_key_pairs[of f s p t, OF f], of set] by simp
  with wf update_key_pairs[of f s p t, OF f] show ?thesis unfolding aps_wf_def by simp
qed

text \<open>Removal of all application keys: the entries of the other types stay, in some order.\<close>

lemma take_swap_remove: "i < length xs \<Longrightarrow> take i (swap_remove i xs) = take i xs"
  by (simp add: swap_remove_def butlast_conv_take)

lemma mset_drop_swap_remove:
  assumes "i < length xs"
  shows "mset (drop i (swap_remove i xs)) = mset (drop (Suc i) xs)"
proof -
  have "mset (take i xs) + mset (drop i (swap_remove i xs)) = mset (swap_remove i xs)"
    using take_swap_remove[OF assms] by (metis append_take_drop_id mset_append)
  moreover have "mset xs = mset (take i xs) + add_mset (xs ! i) (mset (drop (Suc i) xs))"
    using assms by (metis id_take_nth_drop mset.simps(2) mset_append)
  ultimately have "add_mset (xs ! i) (mset (take i xs) + mset (drop i (swap_remove i xs))) =
      add_mset (xs ! i) (mset (take i xs) + mset (drop (Suc i) xs))"
    using mset_swap_remove[OF assms] by simp
  then show ?thesis by simp
qed

lemma remove_application_keys_mset:
  "mset (remove_application_keys i t) =
     mset (take i t) + filter_mset (\<lambda>e. lk_key_type e \<noteq> ApplicationLinkKey) (mset (drop i t))"
proof (induction i t rule: remove_application_keys.induct)
  case (1 i t)
  let ?F = "filter_mset (\<lambda>e. lk_key_type e \<noteq> ApplicationLinkKey)"
  show ?case
  proof (cases "i < length t")
    case True
    then have d: "drop i t = t ! i # drop (Suc i) t" by (simp add: Cons_nth_drop_Suc)
    show ?thesis
    proof (cases "lk_key_type (t ! i) = ApplicationLinkKey")
      case app: True
      have "mset (remove_application_keys i t) = mset (remove_application_keys i (swap_remove i t))"
        using True app by (subst remove_application_keys.simps) (simp add: wipe_and_remove_key_slot_def)
      also have "\<dots> = mset (take i (swap_remove i t)) + ?F (mset (drop i (swap_remove i t)))"
        using 1(1)[OF True app] by (simp add: wipe_and_remove_key_slot_def)
      finally show ?thesis using take_swap_remove[OF True] mset_drop_swap_remove[OF True] d app by simp
    next
      case False
      have "mset (remove_application_keys i t) = mset (remove_application_keys (i + 1) t)"
        using True False by (subst remove_application_keys.simps) simp
      also have "\<dots> = mset (take (Suc i) t) + ?F (mset (drop (Suc i) t))" using 1(2)[OF True False] by simp
      finally show ?thesis using True False d by (simp add: take_Suc_conv_app_nth)
    qed
  next
    case False
    then show ?thesis by (subst remove_application_keys.simps) simp
  qed
qed

lemma remove_application_keys_set:
  "set (remove_application_keys 0 t) = {e \<in> set t. lk_key_type e \<noteq> ApplicationLinkKey}"
  "length (remove_application_keys 0 t) \<le> length t"
  "distinct (map lk_pair t) \<Longrightarrow> distinct (map lk_pair (remove_application_keys 0 t))"
proof -
  have m: "mset (remove_application_keys 0 t) = mset (filter (\<lambda>e. lk_key_type e \<noteq> ApplicationLinkKey) t)"
    using remove_application_keys_mset[of 0 t] by simp
  from mset_eq_setD[OF m] show "set (remove_application_keys 0 t) = {e \<in> set t. lk_key_type e \<noteq> ApplicationLinkKey}" by simp
  from mset_eq_length[OF m] show "length (remove_application_keys 0 t) \<le> length t" by simp
  assume "distinct (map lk_pair t)"
  then have "distinct (map lk_pair (filter (\<lambda>e. lk_key_type e \<noteq> ApplicationLinkKey) t))" by (rule distinct_map_filter)
  moreover have "mset (map lk_pair (remove_application_keys 0 t)) = mset (map lk_pair (filter (\<lambda>e. lk_key_type e \<noteq> ApplicationLinkKey) t))"
    using m by simp
  ultimately show "distinct (map lk_pair (remove_application_keys 0 t))" using mset_eq_imp_distinct_iff by blast
qed

section \<open>Every operation keeps the state well-formed\<close>

datatype ApsOp = OpAddKey ApsLinkKeyEntry | OpRemoveKey IeeeAddress ApsKeyType | OpClearKeys | OpClearApplicationKeys
  | OpResetStaleFloor IeeeAddress ApsKeyType | OpSetDefaultKey AesKey | OpSetDistributedKey AesKey | OpClearDistributedKey
  | OpCommitReplay ApsReplayCounter | OpRestoreReplay ApsReplayCounter | OpNextCounter IeeeAddress ApsKeyType

fun aps_apply :: "bool \<Rightarrow> ApsOp \<Rightarrow> ApsSecurity \<Rightarrow> ApsSecurity" where
  "aps_apply tc (OpAddKey e) s = snd (add_key tc s e)"
| "aps_apply tc (OpRemoveKey p t) s = snd (remove_key tc s p t)"
| "aps_apply tc OpClearKeys s = clear_keys s"
| "aps_apply tc OpClearApplicationKeys s = clear_application_link_keys s"
| "aps_apply tc (OpResetStaleFloor p t) s = snd (reset_stale_incoming_floor tc s p t)"
| "aps_apply tc (OpSetDefaultKey k) s = set_default_tc_link_key s k"
| "aps_apply tc (OpSetDistributedKey k) s = set_distributed_security_link_key s k"
| "aps_apply tc OpClearDistributedKey s = clear_distributed_security_link_key s"
| "aps_apply tc (OpCommitReplay r) s = commit_replay_counter tc s r"
| "aps_apply tc (OpRestoreReplay r) s = snd (aps_restore_replay_counter tc s r)"
| "aps_apply tc (OpNextCounter p t) s = snd (aps_next_frame_counter s p t)"

lemma map_update_first: "(\<And>x. Q x \<Longrightarrow> g (f x) = g x) \<Longrightarrow> map g (update_first Q f xs) = map g xs"
  by (induction xs) auto

lemma update_first_if:
  "x \<in> set (update_first Q (\<lambda>e. if C e then r else e) xs) \<Longrightarrow> x \<in> set xs \<or> x = r"
  by (induction xs) (auto split: if_splits)

lemma length_filter_cong: "map P xs = map P ys \<Longrightarrow> length (filter P xs) = length (filter P ys)"
proof (induction xs arbitrary: ys)
  case (Cons x xs)
  then show ?case by (cases ys) auto
qed simp

lemma origin_kinds:
  "replay_origin_eq a b \<Longrightarrow> is_preconfigured_global a = is_preconfigured_global b \<and> is_distributed_global a = is_distributed_global b"
  by (induction a b rule: replay_origin_eq.induct) auto

lemma origin_same_kind:
  "is_preconfigured_global a \<and> is_preconfigured_global b \<or> is_distributed_global a \<and> is_distributed_global b \<Longrightarrow> replay_origin_eq a b"
  by (cases a; cases b) auto

lemma kinds_disjoint: "is_preconfigured_global a \<Longrightarrow> \<not> is_distributed_global a"
  by (cases a) auto

lemma wf_global:
  assumes "aps_wf tc s"
    "list_all (\<lambda>g. is_preconfigured_global (ar_origin g) \<or> is_distributed_global (ar_origin g)) gs"
    "length (filter (\<lambda>g. is_preconfigured_global (ar_origin g)) gs) \<le> 1"
    "length (filter (\<lambda>g. is_distributed_global (ar_origin g)) gs) \<le> 1"
  shows "aps_wf tc (s\<lparr>as_global_replay_table := gs\<rparr>)"
  using assms by (simp add: aps_wf_def)

lemma wf_commit_key: "aps_wf tc s \<Longrightarrow> aps_wf tc (aps_commit_frame_counter tc s p t c)"
  by (auto simp: aps_commit_frame_counter_def intro!: wf_set_stale wf_update_key split: option.splits)

lemma commit_global_eq:
  assumes g: "is_preconfigured_global (ar_origin r) \<or> is_distributed_global (ar_origin r)"
  shows "commit_replay_counter tc s r = s\<lparr>as_global_replay_table :=
      (if list_ex (\<lambda>e. replay_origin_eq (ar_origin e) (ar_origin r)) (as_global_replay_table s)
       then update_first (\<lambda>e. replay_origin_eq (ar_origin e) (ar_origin r))
              (\<lambda>e. if ar_counter r > ar_counter e then r else e) (as_global_replay_table s)
       else vec_push_ignore MAX_ACTIVE_GLOBAL_REPLAY_DOMAINS r (as_global_replay_table s))\<rparr>"
  using g by (cases "ar_origin r") (simp_all add: commit_replay_counter_def)

lemma wf_commit_replay:
  assumes wf: "aps_wf tc s"
  shows "aps_wf tc (commit_replay_counter tc s r)"
proof (cases "is_preconfigured_global (ar_origin r) \<or> is_distributed_global (ar_origin r)")
  case False
  then obtain p t where "ar_origin r = RKeyPair p t" by (cases "ar_origin r") auto
  with wf show ?thesis by (simp add: commit_replay_counter_def wf_commit_key)
next
  case True
  let ?gs = "as_global_replay_table s" and ?Q = "\<lambda>e. replay_origin_eq (ar_origin e) (ar_origin r)"
  have w: "list_all (\<lambda>g. is_preconfigured_global (ar_origin g) \<or> is_distributed_global (ar_origin g)) ?gs"
    "length (filter (\<lambda>g. is_preconfigured_global (ar_origin g)) ?gs) \<le> 1"
    "length (filter (\<lambda>g. is_distributed_global (ar_origin g)) ?gs) \<le> 1" using wf by (simp_all add: aps_wf_def)
  show ?thesis
  proof (cases "list_ex ?Q ?gs")
    case ex: True
    let ?us = "update_first ?Q (\<lambda>e. if ar_counter r > ar_counter e then r else e) ?gs"
    have m: "map (\<lambda>g. is_preconfigured_global (ar_origin g)) ?us = map (\<lambda>g. is_preconfigured_global (ar_origin g)) ?gs"
      "map (\<lambda>g. is_distributed_global (ar_origin g)) ?us = map (\<lambda>g. is_distributed_global (ar_origin g)) ?gs"
      by (rule map_update_first, use origin_kinds in simp)+
    have "list_all (\<lambda>g. is_preconfigured_global (ar_origin g) \<or> is_distributed_global (ar_origin g)) ?us"
      unfolding list_all_iff
    proof
      fix x
      assume "x \<in> set ?us"
      from update_first_if[OF this] w(1) True
      show "is_preconfigured_global (ar_origin x) \<or> is_distributed_global (ar_origin x)" by (auto simp: list_all_iff)
    qed
    moreover have "length (filter (\<lambda>g. is_preconfigured_global (ar_origin g)) ?us) \<le> 1"
      "length (filter (\<lambda>g. is_distributed_global (ar_origin g)) ?us) \<le> 1"
      using w(2,3) length_filter_cong[OF m(1)] length_filter_cong[OF m(2)] by simp_all
    ultimately show ?thesis using ex unfolding commit_global_eq[OF True] by (simp add: wf_global[OF wf])
  next
    case False
    have none: "\<not> ?Q e" if "e \<in> set ?gs" for e using that False by (simp add: list_ex_iff)
    have "filter (\<lambda>g. is_preconfigured_global (ar_origin g)) ?gs = []" if "is_preconfigured_global (ar_origin r)"
      using none that origin_same_kind by (auto simp: filter_empty_conv)
    moreover have "filter (\<lambda>g. is_distributed_global (ar_origin g)) ?gs = []" if "is_distributed_global (ar_origin r)"
      using none that origin_same_kind by (auto simp: filter_empty_conv)
    ultimately have "list_all (\<lambda>g. is_preconfigured_global (ar_origin g) \<or> is_distributed_global (ar_origin g)) (?gs @ [r])"
      "length (filter (\<lambda>g. is_preconfigured_global (ar_origin g)) (?gs @ [r])) \<le> 1"
      "length (filter (\<lambda>g. is_distributed_global (ar_origin g)) (?gs @ [r])) \<le> 1"
      using True w by simp_all
    from wf_global[OF wf this] wf False show ?thesis
      unfolding commit_global_eq[OF True] by (simp add: vec_push_ignore_def)
  qed
qed

lemma map_swap_remove: "xs \<noteq> [] \<Longrightarrow> map f (swap_remove i xs) = swap_remove i (map f xs)"
  by (simp add: swap_remove_def map_butlast map_update last_map)

lemma remove_key_table:
  assumes wf: "aps_wf tc s" and i: "key_index s p t = Some i"
  defines "t' \<equiv> wipe_and_remove_key_slot i (as_key_table s)"
  shows "lk_pair ` set t' = lk_pair ` set (as_key_table s) - {(p, t)}" "distinct (map lk_pair t')"
    "length t' \<le> MAX_KEY_TABLE_ENTRIES tc" "set t' \<subseteq> set (as_key_table s)"
proof -
  let ?T = "as_key_table s"
  from key_index_SomeD[OF i] have i': "i < length ?T" "map lk_pair ?T ! i = (p, t)" by simp_all
  have d: "distinct (map lk_pair ?T)" "length ?T \<le> MAX_KEY_TABLE_ENTRIES tc" using wf by (simp_all add: aps_wf_def)
  have "?T \<noteq> []" using i'(1) by auto
  then have m: "map lk_pair t' = swap_remove i (map lk_pair ?T)" by (simp add: t'_def wipe_and_remove_key_slot_def map_swap_remove)
  have il: "i < length (map lk_pair ?T)" using i'(1) by simp
  from arg_cong[OF m, of set] set_swap_remove_distinct(1)[OF il d(1)] i'(2)
  show "lk_pair ` set t' = lk_pair ` set ?T - {(p, t)}" by simp
  from m set_swap_remove_distinct(2)[OF il d(1)] show "distinct (map lk_pair t')" by simp
  show "length t' \<le> MAX_KEY_TABLE_ENTRIES tc" using d(2) by (simp add: t'_def wipe_and_remove_key_slot_def)
  show "set t' \<subseteq> set ?T" using set_swap_remove[OF i'(1)] by (simp add: t'_def wipe_and_remove_key_slot_def)
qed

lemma wf_remove_key: "aps_wf tc s \<Longrightarrow> aps_wf tc (snd (remove_key tc s p t))"
proof (cases "key_index s p t")
  case (Some i)
  assume wf: "aps_wf tc s"
  let ?s = "s\<lparr>as_key_table := wipe_and_remove_key_slot i (as_key_table s)\<rparr>"
  have st: "distinct (as_stale_incoming_floors ?s)" using wf by (simp add: aps_wf_def)
  note r = remove_key_table[OF wf Some] stale_removed[OF st, of tc p t]
  have "set (as_stale_incoming_floors (set_stale_incoming_floor tc ?s p t False)) \<subseteq>
      lk_pair ` set (wipe_and_remove_key_slot i (as_key_table s))"
    unfolding r(5) r(1) using wf by (auto simp: aps_wf_def)
  with r(2,3,6) wf Some show ?thesis by (simp add: remove_key_def aps_wf_def)
qed (simp add: remove_key_def)

lemma overwrite_key_pair [simp]: "lk_partner_address (overwrite_key e y) = lk_partner_address y" "lk_key_type (overwrite_key e y) = lk_key_type y"
  by (simp_all add: overwrite_key_def)

lemma wf_add_key: "aps_wf tc s \<Longrightarrow> aps_wf tc (snd (add_key tc s e))"
proof (cases "find_key s (lk_partner_address e) (lk_key_type e)")
  case (Some x)
  assume wf: "aps_wf tc s"
  let ?u = "update_key s (lk_partner_address e) (lk_key_type e) (overwrite_key e)"
  from wf_update_key[OF wf] have u: "aps_wf tc ?u" by simp
  have "lk_pair e \<in> lk_pair ` set (as_key_table ?u)"
    using find_key_None[of s "lk_partner_address e" "lk_key_type e"] Some
      arg_cong[OF update_key_pairs[of "overwrite_key e" s "lk_partner_address e" "lk_key_type e"], of set] by simp
  with wf_set_stale[OF u] u Some show ?thesis by (simp add: add_key_def Let_def)
next
  case None
  assume "aps_wf tc s"
  with None find_key_None[of s "lk_partner_address e" "lk_key_type e"] show ?thesis
    by (auto simp: add_key_def vec_push_def aps_wf_def)
qed

lemma wf_clear_application: "aps_wf tc s \<Longrightarrow> aps_wf tc (clear_application_link_keys s)"
  using remove_application_keys_set[of "as_key_table s"] by (auto simp: clear_application_link_keys_def aps_wf_def)

lemma wf_drop_global:
  assumes "aps_wf tc s"
  shows "aps_wf tc (s\<lparr>as_global_replay_table := filter P (as_global_replay_table s)\<rparr>)"
proof (rule wf_global[OF assms])
  have l: "length (filter Q (filter P gs)) \<le> length (filter Q gs)" for Q and gs :: "ApsReplayCounter list"
    by (induction gs) auto
  show "list_all (\<lambda>g. is_preconfigured_global (ar_origin g) \<or> is_distributed_global (ar_origin g)) (filter P (as_global_replay_table s))"
    using assms by (auto simp: aps_wf_def list_all_iff)
  show "length (filter (\<lambda>g. is_preconfigured_global (ar_origin g)) (filter P (as_global_replay_table s))) \<le> 1"
    "length (filter (\<lambda>g. is_distributed_global (ar_origin g)) (filter P (as_global_replay_table s))) \<le> 1"
    using assms l[of "\<lambda>g. is_preconfigured_global (ar_origin g)" "as_global_replay_table s"]
      l[of "\<lambda>g. is_distributed_global (ar_origin g)" "as_global_replay_table s"]
    by (simp_all only: aps_wf_def) linarith+
qed

lemma wf_keys_only:
  "aps_wf tc (s\<lparr>as_default_tc_link_key := k\<rparr>) = aps_wf tc s"
  "aps_wf tc (s\<lparr>as_distributed_security_link_key := d\<rparr>) = aps_wf tc s"
  by (simp_all add: aps_wf_def)

lemma wf_apply: "aps_wf tc s \<Longrightarrow> aps_wf tc (aps_apply tc op s)"
proof (induction op)
  case (OpResetStaleFloor p t)
  then show ?case
    by (simp add: reset_stale_incoming_floor_def Let_def wf_set_stale wf_update_key)
next
  case (OpClearKeys)
  then show ?case by (simp add: clear_keys_def aps_wf_def)
next
  case (OpSetDefaultKey k)
  then show ?case by (simp add: set_default_tc_link_key_def Let_def wf_keys_only wf_drop_global)
next
  case (OpSetDistributedKey k)
  then show ?case by (simp add: set_distributed_security_link_key_def Let_def wf_keys_only wf_drop_global)
next
  case OpClearDistributedKey
  from wf_drop_global[of tc "s\<lparr>as_distributed_security_link_key := None\<rparr>"] OpClearDistributedKey
  show ?case by (simp add: clear_distributed_security_link_key_def wf_keys_only)
next
  case (OpRestoreReplay r)
  then show ?case by (simp add: aps_restore_replay_counter_def wf_commit_replay split: option.splits)
next
  case (OpNextCounter p t)
  then show ?case by (simp add: aps_next_frame_counter_def wf_update_key split: option.splits)
qed (simp_all add: wf_add_key wf_remove_key wf_clear_application wf_commit_replay)

section \<open>Replay protection\<close>

text \<open>
  What the receive path does with a frame whose integrity code verified under the key of \<open>origin\<close>: the replay record is
  checked and, unless it is a duplicate, committed.
\<close>

definition aps_receive_verified :: "bool \<Rightarrow> ApsKeyOrigin \<Rightarrow> IeeeAddress \<Rightarrow> u32 \<Rightarrow> ApsSecurity \<Rightarrow> bool \<times> ApsSecurity" where
  "aps_receive_verified tc origin source counter s =
     (case key_for_origin s origin of
        None \<Rightarrow> (False, s)
      | Some key \<Rightarrow>
          let replay = ApsReplayCounter_from_verified origin source key counter
          in if check_replay_counter s replay then (True, commit_replay_counter tc s replay) else (False, s))"

datatype ApsEvent = ApsFrame ApsKeyOrigin IeeeAddress u32 | ApsStateChange ApsOp

fun aps_event :: "bool \<Rightarrow> ApsEvent \<Rightarrow> ApsSecurity \<Rightarrow> bool \<times> ApsSecurity" where
  "aps_event tc (ApsFrame origin source counter) s = aps_receive_verified tc origin source counter s"
| "aps_event tc (ApsStateChange op) s = (False, aps_apply tc op s)"

fun aps_event_frame :: "ApsEvent \<Rightarrow> (ApsKeyOrigin \<times> u32) option" where
  "aps_event_frame (ApsFrame origin source counter) = Some (origin, counter)"
| "aps_event_frame _ = None"

text \<open>The state changes that leave the key of a domain in place.\<close>

fun aps_keeps_key :: "ApsKeyOrigin \<Rightarrow> ApsEvent \<Rightarrow> bool" where
  "aps_keeps_key d (ApsStateChange (OpAddKey e)) = (d \<noteq> KeyPair (lk_partner_address e) (lk_key_type e))"
| "aps_keeps_key d (ApsStateChange (OpRemoveKey p t)) = (d \<noteq> KeyPair p t)"
| "aps_keeps_key d (ApsStateChange OpClearKeys) = False"
| "aps_keeps_key d (ApsStateChange OpClearApplicationKeys) = (\<forall>p. d \<noteq> KeyPair p ApplicationLinkKey)"
| "aps_keeps_key d (ApsStateChange (OpSetDefaultKey k)) = (d \<noteq> PreconfiguredGlobal)"
| "aps_keeps_key d (ApsStateChange (OpSetDistributedKey k)) = (d \<noteq> DistributedGlobal)"
| "aps_keeps_key d (ApsStateChange OpClearDistributedKey) = (d \<noteq> DistributedGlobal)"
| "aps_keeps_key d _ = True"

fun aps_held :: "ApsSecurity \<Rightarrow> ApsKeyOrigin \<Rightarrow> u32 \<Rightarrow> bool" where
  "aps_held s (KeyPair p t) c = (\<exists>e. find_key s p t = Some e \<and> lk_incoming_frame_counter_valid e \<and>
     c \<le> lk_incoming_frame_counter e \<and> (p, t) \<notin> set (as_stale_incoming_floors s))"
| "aps_held s PreconfiguredGlobal c = (\<exists>g\<in>set (as_global_replay_table s). is_preconfigured_global (ar_origin g) \<and> c \<le> ar_counter g)"
| "aps_held s DistributedGlobal c = (\<exists>g\<in>set (as_global_replay_table s). is_distributed_global (ar_origin g) \<and> c \<le> ar_counter g)"

lemma aps_held_cong:
  assumes "\<And>p t. d = KeyPair p t \<Longrightarrow> find_key s' p t = find_key s p t \<and>
      ((p, t) \<in> set (as_stale_incoming_floors s') \<longrightarrow> (p, t) \<in> set (as_stale_incoming_floors s))"
    "\<And>g. d = PreconfiguredGlobal \<and> is_preconfigured_global (ar_origin g) \<or> d = DistributedGlobal \<and> is_distributed_global (ar_origin g) \<Longrightarrow>
      g \<in> set (as_global_replay_table s) \<Longrightarrow> g \<in> set (as_global_replay_table s')"
    "aps_held s d c"
  shows "aps_held s' d c"
  using assms by (cases d) auto

lemma wf_stale: "aps_wf tc s \<Longrightarrow> distinct (as_stale_incoming_floors s)"
  by (simp add: aps_wf_def)

lemma find_key_global [simp]: "find_key (s\<lparr>as_global_replay_table := g\<rparr>) p t = find_key s p t"
  by (simp add: find_key_def key_index_def)

lemma held_commit_key:
  assumes wf: "aps_wf tc s" and h: "aps_held s d c"
  shows "aps_held (aps_commit_frame_counter tc s p t n) d c"
proof (cases "find_key s p t")
  case None
  with h show ?thesis by (simp add: aps_commit_frame_counter_def)
next
  case (Some e)
  define f where "f y = y\<lparr>lk_incoming_frame_counter := n, lk_incoming_frame_counter_valid := True\<rparr>" for y :: ApsLinkKeyEntry
  have fp: "lk_pair (f y) = lk_pair y" for y by (simp add: f_def)
  let ?u = "update_key s p t f"
  have st: "set (as_stale_incoming_floors (set_stale_incoming_floor tc ?u p t False)) = set (as_stale_incoming_floors s) - {(p, t)}"
    using stale_removed(1)[of ?u tc p t] wf_stale[OF wf] by simp
  show ?thesis
  proof (cases "\<not> lk_incoming_frame_counter_valid e \<or> n > lk_incoming_frame_counter e")
    case True
    then have c: "aps_commit_frame_counter tc s p t n = set_stale_incoming_floor tc ?u p t False"
      using Some by (simp add: aps_commit_frame_counter_def f_def[abs_def])
    show ?thesis
    proof (cases d)
      case (KeyPair p' t')
      then show ?thesis using h Some True unfolding c
        by (auto simp: st find_key_update_key[of f s, OF fp]) (auto simp: f_def)
    qed (use h in \<open>simp_all add: c\<close>)
  qed (use h Some in \<open>simp add: aps_commit_frame_counter_def\<close>)
qed

lemma update_first_inflates:
  "x \<in> set xs \<Longrightarrow> \<exists>y\<in>set (update_first Q f xs). y = x \<or> Q x \<and> y = f x"
  by (induction xs) auto

lemma held_commit_replay:
  assumes wf: "aps_wf tc s" and h: "aps_held s d c"
  shows "aps_held (commit_replay_counter tc s r) d c"
proof (cases "is_preconfigured_global (ar_origin r) \<or> is_distributed_global (ar_origin r)")
  case False
  then obtain p t where "ar_origin r = RKeyPair p t" by (cases "ar_origin r") auto
  with held_commit_key[OF wf h] show ?thesis by (simp add: commit_replay_counter_def)
next
  case True
  let ?Q = "\<lambda>e. replay_origin_eq (ar_origin e) (ar_origin r)" and ?gs = "as_global_replay_table s"
  let ?f = "\<lambda>e. if ar_counter r > ar_counter e then r else e"
  have k: "\<exists>y\<in>set (as_global_replay_table (commit_replay_counter tc s r)).
      is_preconfigured_global (ar_origin y) = is_preconfigured_global (ar_origin x) \<and>
      is_distributed_global (ar_origin y) = is_distributed_global (ar_origin x) \<and> ar_counter x \<le> ar_counter y"
    if x: "x \<in> set ?gs" for x
  proof (cases "list_ex ?Q ?gs")
    case ex: True
    from update_first_inflates[OF x, of ?Q ?f] obtain y where y: "y \<in> set (update_first ?Q ?f ?gs)" "y = x \<or> ?Q x \<and> y = ?f x" by blast
    from y(2) have "is_preconfigured_global (ar_origin y) = is_preconfigured_global (ar_origin x) \<and>
      is_distributed_global (ar_origin y) = is_distributed_global (ar_origin x) \<and> ar_counter x \<le> ar_counter y"
      using origin_kinds[of "ar_origin x" "ar_origin r"] by (cases "ar_counter r > ar_counter x") auto
    with y(1) ex show ?thesis unfolding commit_global_eq[OF True] by auto
  next
    case False
    with x show ?thesis unfolding commit_global_eq[OF True] by (auto simp: vec_push_ignore_def)
  qed
  show ?thesis
  proof (cases d)
    case (KeyPair p t)
    with h show ?thesis unfolding commit_global_eq[OF True] by simp
  next
    case PreconfiguredGlobal
    with h obtain g where g: "g \<in> set ?gs" "is_preconfigured_global (ar_origin g)" "c \<le> ar_counter g" by auto
    from k[OF g(1)] g(2,3) PreconfiguredGlobal show ?thesis using order.trans by (simp, blast)
  next
    case DistributedGlobal
    with h obtain g where g: "g \<in> set ?gs" "is_distributed_global (ar_origin g)" "c \<le> ar_counter g" by auto
    from k[OF g(1)] g(2,3) DistributedGlobal show ?thesis using order.trans by (simp, blast)
  qed
qed

lemma find_key_cong: "as_key_table s' = as_key_table s \<Longrightarrow> find_key s' p t = find_key s p t"
  by (simp add: find_key_def key_index_def)

lemma find_key_swap:
  assumes wf: "aps_wf tc s" and i: "key_index s p t = Some i" and n: "(p', t') \<noteq> (p, t)"
  shows "find_key (s\<lparr>as_key_table := wipe_and_remove_key_slot i (as_key_table s)\<rparr>) p' t' = find_key s p' t'"
proof -
  let ?s = "s\<lparr>as_key_table := wipe_and_remove_key_slot i (as_key_table s)\<rparr>"
  note r = remove_key_table[OF wf i]
  have d: "distinct (map lk_pair (as_key_table s))" using wf by (simp add: aps_wf_def)
  show ?thesis
  proof (cases "find_key s p' t'")
    case None
    then have "find_key ?s p' t' = None" using r(1) unfolding find_key_None by auto
    with None show ?thesis by simp
  next
    case (Some e)
    from find_key_SomeD[OF Some] have e: "e \<in> set (as_key_table s)" "lk_pair e = (p', t')" by auto
    then have "lk_pair e \<in> lk_pair ` set (as_key_table ?s)" using r(1) n by auto
    then obtain e' where "e' \<in> set (as_key_table ?s)" "lk_pair e' = lk_pair e" by auto
    with distinct_map_eq[OF d, of e' e] r(4) e have "e \<in> set (as_key_table ?s)" by auto
    with aps_find_key_iff[of ?s p' t' e] r(2) e Some show ?thesis by simp
  qed
qed

lemma find_key_clear_app:
  assumes wf: "aps_wf tc s" and t: "t \<noteq> ApplicationLinkKey"
  shows "find_key (clear_application_link_keys s) p t = find_key s p t"
proof -
  have d: "distinct (map lk_pair (as_key_table s))" using wf by (simp add: aps_wf_def)
  note r = remove_application_keys_set[of "as_key_table s"]
  have "find_key (clear_application_link_keys s) p t = Some e \<longleftrightarrow> find_key s p t = Some e" for e
    using aps_find_key_iff[OF d, of p t e] aps_find_key_iff[of "clear_application_link_keys s" p t e] r(1,3) d t
    by (auto simp: clear_application_link_keys_def)
  then show ?thesis by (metis option.exhaust)
qed

lemma position_append: "position P xs = Some i \<Longrightarrow> position P (xs @ ys) = Some i"
  by (induction xs arbitrary: i) (auto split: if_splits)

lemma held_add_key:
  assumes wf: "aps_wf tc s" and k: "d \<noteq> KeyPair (lk_partner_address e) (lk_key_type e)" and h: "aps_held s d c"
  shows "aps_held (snd (add_key tc s e)) d c"
proof (cases "find_key s (lk_partner_address e) (lk_key_type e)")
  case None
  show ?thesis
  proof (rule aps_held_cong[OF _ _ h])
    fix p t
    assume "d = KeyPair p t"
    with h obtain i where i: "key_index s p t = Some i" by (auto simp: find_key_def)
    then have "key_index (s\<lparr>as_key_table := as_key_table s @ [e]\<rparr>) p t = Some i"
      using position_append by (simp add: key_index_def)
    with i key_index_SomeD[OF i] have "find_key (s\<lparr>as_key_table := as_key_table s @ [e]\<rparr>) p t = find_key s p t"
      by (simp add: find_key_def nth_append)
    with None show "find_key (snd (add_key tc s e)) p t = find_key s p t \<and>
        ((p, t) \<in> set (as_stale_incoming_floors (snd (add_key tc s e))) \<longrightarrow> (p, t) \<in> set (as_stale_incoming_floors s))"
      by (simp add: add_key_def vec_push_def)
  qed (use None in \<open>auto simp: add_key_def vec_push_def\<close>)
next
  case (Some x)
  let ?p = "lk_partner_address e" and ?t = "lk_key_type e"
  let ?u = "update_key s ?p ?t (overwrite_key e)"
  have stale: "set (as_stale_incoming_floors (set_stale_incoming_floor tc ?u ?p ?t b)) \<subseteq> insert (?p, ?t) (set (as_stale_incoming_floors s))" for b
    using stale_removed(1)[of ?u tc ?p ?t] wf_stale[OF wf]
    by (cases b) (auto simp: set_stale_incoming_floor_def vec_push_ignore_def split: option.splits if_splits)
  show ?thesis
  proof (rule aps_held_cong[OF _ _ h])
    fix p t
    assume "d = KeyPair p t"
    with k have n: "(p, t) \<noteq> (?p, ?t)" by auto
    then have "find_key (snd (add_key tc s e)) p t = find_key s p t"
      using Some by (auto simp: add_key_def Let_def find_key_update_key)
    moreover have "set (as_stale_incoming_floors (snd (add_key tc s e))) \<subseteq> insert (?p, ?t) (set (as_stale_incoming_floors s))"
      using Some stale by (auto simp: add_key_def Let_def)
    ultimately show "find_key (snd (add_key tc s e)) p t = find_key s p t \<and>
        ((p, t) \<in> set (as_stale_incoming_floors (snd (add_key tc s e))) \<longrightarrow> (p, t) \<in> set (as_stale_incoming_floors s))"
      using n by auto
  qed (use Some in \<open>auto simp: add_key_def Let_def\<close>)
qed

lemma held_apply:
  assumes wf: "aps_wf tc s" and k: "aps_keeps_key d (ApsStateChange op)" and h: "aps_held s d c"
  shows "aps_held (aps_apply tc op s) d c"
proof (cases op)
  case (OpAddKey e)
  with held_add_key[OF wf _ h, of e] k show ?thesis by simp
next
  case (OpRemoveKey p t)
  show ?thesis
  proof (cases "key_index s p t")
    case None
    with h OpRemoveKey show ?thesis by (simp add: remove_key_def)
  next
    case (Some i)
    let ?s = "s\<lparr>as_key_table := wipe_and_remove_key_slot i (as_key_table s)\<rparr>"
    have st: "set (as_stale_incoming_floors (set_stale_incoming_floor tc ?s p t False)) \<subseteq> set (as_stale_incoming_floors s)"
      using stale_removed(1)[of ?s tc p t] wf_stale[OF wf] by auto
    show ?thesis
      by (rule aps_held_cong[OF _ _ h]) (use Some OpRemoveKey k st find_key_swap[OF wf Some] in \<open>auto simp: remove_key_def\<close>)
  qed
next
  case OpClearApplicationKeys
  show ?thesis
    by (rule aps_held_cong[OF _ _ h])
      (use OpClearApplicationKeys k find_key_clear_app[OF wf] in \<open>auto simp: clear_application_link_keys_def\<close>)
next
  case (OpResetStaleFloor p t)
  have st: "set (as_stale_incoming_floors (set_stale_incoming_floor tc s p t False)) \<subseteq> set (as_stale_incoming_floors s)"
    using stale_removed(1)[OF wf_stale[OF wf], of tc p t] by auto
  show ?thesis
  proof (cases "incoming_floor_predates_key s p t")
    case True
    then have "(p, t) \<in> set (as_stale_incoming_floors s)" by (simp add: incoming_floor_predates_key_def stale_index)
    then have "d \<noteq> KeyPair p t" using h by auto
    with True OpResetStaleFloor st show ?thesis
      by (intro aps_held_cong[OF _ _ h])
        (auto simp: reset_stale_incoming_floor_def Let_def find_key_update_key)
  qed (use OpResetStaleFloor h in \<open>simp add: reset_stale_incoming_floor_def\<close>)
next
  case (OpNextCounter p t)
  define f where "f y = y\<lparr>lk_outgoing_frame_counter := lk_outgoing_frame_counter y + 1\<rparr>" for y :: ApsLinkKeyEntry
  have f: "lk_pair (f y) = lk_pair y" "lk_incoming_frame_counter (f y) = lk_incoming_frame_counter y"
    "lk_incoming_frame_counter_valid (f y) = lk_incoming_frame_counter_valid y" for y by (simp_all add: f_def)
  have "aps_held (update_key s p t f) d c"
    using h f by (cases d) (auto simp: find_key_update_key[of f s, OF f(1)])
  with h OpNextCounter show ?thesis
    by (auto simp: aps_next_frame_counter_def f_def[abs_def] split: option.splits)
next
  case (OpRestoreReplay r)
  with h held_commit_replay[OF wf h, of r] show ?thesis by (simp add: aps_restore_replay_counter_def split: option.splits)
next
  case (OpSetDefaultKey key)
  with k h show ?thesis
    by (intro aps_held_cong[OF _ _ h]) (auto simp: set_default_tc_link_key_def Let_def dest: kinds_disjoint intro: find_key_cong)
next
  case (OpSetDistributedKey key)
  with k h show ?thesis
    by (intro aps_held_cong[OF _ _ h]) (auto simp: set_distributed_security_link_key_def Let_def dest: kinds_disjoint intro: find_key_cong)
next
  case OpClearDistributedKey
  with k h show ?thesis
    by (intro aps_held_cong[OF _ _ h]) (auto simp: clear_distributed_security_link_key_def dest: kinds_disjoint intro: find_key_cong)
qed (use k h held_commit_replay[OF wf h] in simp_all)

lemma short_filter_unique: "length (filter P xs) \<le> 1 \<Longrightarrow> x \<in> set xs \<Longrightarrow> y \<in> set xs \<Longrightarrow> P x \<Longrightarrow> P y \<Longrightarrow> x = y"
proof -
  assume a: "length (filter P xs) \<le> 1" "x \<in> set xs" "y \<in> set xs" "P x" "P y"
  then have "x \<in> set (filter P xs)" "y \<in> set (filter P xs)" by simp_all
  with a(1) show ?thesis by (cases "filter P xs") auto
qed

lemma global_room:
  assumes "aps_wf tc s"
  shows "length (as_global_replay_table s) \<le> 2"
proof -
  let ?gs = "as_global_replay_table s"
  have "list_all (\<lambda>g. is_preconfigured_global (ar_origin g) \<or> is_distributed_global (ar_origin g)) gs \<Longrightarrow>
    length gs \<le> length (filter (\<lambda>g. is_preconfigured_global (ar_origin g)) gs) + length (filter (\<lambda>g. is_distributed_global (ar_origin g)) gs)"
    for gs :: "ApsReplayCounter list" by (induction gs) auto
  from this[of ?gs] assms show ?thesis by (simp add: aps_wf_def)
qed

lemma check_global_eq:
  assumes "is_preconfigured_global (ar_origin r) \<or> is_distributed_global (ar_origin r)"
  shows "check_replay_counter s r =
    (case find (\<lambda>e. replay_origin_eq (ar_origin e) (ar_origin r)) (as_global_replay_table s) of
       Some e \<Rightarrow> ar_counter r > ar_counter e | None \<Rightarrow> length (as_global_replay_table s) \<noteq> MAX_ACTIVE_GLOBAL_REPLAY_DOMAINS)"
  using assms by (cases "ar_origin r") (simp_all add: check_replay_counter_def)

text \<open>With one record per global key, a full replay table has a record for the key at hand.\<close>

lemma global_unrecorded:
  assumes wf: "aps_wf tc s" and g: "is_preconfigured_global (ar_origin r) \<or> is_distributed_global (ar_origin r)"
    and n: "find (\<lambda>e. replay_origin_eq (ar_origin e) (ar_origin r)) (as_global_replay_table s) = None"
  shows "length (as_global_replay_table s) < 2"
proof -
  let ?gs = "as_global_replay_table s"
  have none: "\<not> replay_origin_eq (ar_origin e) (ar_origin r)" if "e \<in> set ?gs" for e using n that by (simp add: find_None_iff)
  have w: "list_all (\<lambda>g. is_preconfigured_global (ar_origin g) \<or> is_distributed_global (ar_origin g)) ?gs"
    "length (filter (\<lambda>g. is_preconfigured_global (ar_origin g)) ?gs) \<le> 1"
    "length (filter (\<lambda>g. is_distributed_global (ar_origin g)) ?gs) \<le> 1" using wf by (simp_all add: aps_wf_def)
  show ?thesis
  proof (cases "is_preconfigured_global (ar_origin r)")
    case True
    then have "filter (\<lambda>g. is_distributed_global (ar_origin g)) ?gs = ?gs"
      using none w(1) origin_same_kind by (auto simp: filter_id_conv list_all_iff)
    with w(3) show ?thesis by simp
  next
    case False
    with g have "filter (\<lambda>g. is_preconfigured_global (ar_origin g)) ?gs = ?gs"
      using none w(1) origin_same_kind by (auto simp: filter_id_conv list_all_iff)
    with w(2) show ?thesis by simp
  qed
qed

lemma receive_records_global:
  assumes wf: "aps_wf tc s" and g: "is_preconfigured_global (ar_origin r) \<or> is_distributed_global (ar_origin r)"
    and ok: "check_replay_counter s r"
  shows "r \<in> set (as_global_replay_table (commit_replay_counter tc s r))"
proof (cases "find (\<lambda>e. replay_origin_eq (ar_origin e) (ar_origin r)) (as_global_replay_table s)")
  case None
  then have "\<not> list_ex (\<lambda>e. replay_origin_eq (ar_origin e) (ar_origin r)) (as_global_replay_table s)"
    by (simp add: find_None_iff list_ex_iff)
  with global_unrecorded[OF wf g None] show ?thesis
    unfolding commit_global_eq[OF g] by (simp add: vec_push_ignore_def MAX_ACTIVE_GLOBAL_REPLAY_DOMAINS_def)
next
  case (Some e)
  have u: "find Q gs = Some e \<Longrightarrow> C e \<Longrightarrow> r \<in> set (update_first Q (\<lambda>e. if C e then r else e) gs)" for Q C gs
    by (induction gs) (auto split: if_splits)
  from Some have "list_ex (\<lambda>e. replay_origin_eq (ar_origin e) (ar_origin r)) (as_global_replay_table s)"
    by (auto simp: list_ex_iff dest: find_SomeD)
  with u[OF Some, of "\<lambda>e. ar_counter r > ar_counter e"] ok Some show ?thesis
    unfolding commit_global_eq[OF g] check_global_eq[OF g] by simp
qed

lemma receive_records:
  assumes wf: "aps_wf tc s" and ok: "fst (aps_receive_verified tc origin source c s)"
  shows "aps_held (snd (aps_receive_verified tc origin source c s)) origin c"
proof -
  from ok obtain key where k: "key_for_origin s origin = Some key"
    and ck: "check_replay_counter s (ApsReplayCounter_from_verified origin source key c)"
    by (auto simp: aps_receive_verified_def Let_def split: option.splits if_splits)
  let ?r = "ApsReplayCounter_from_verified origin source key c"
  have sn: "snd (aps_receive_verified tc origin source c s) = commit_replay_counter tc s ?r"
    using k ck by (simp add: aps_receive_verified_def)
  show ?thesis
  proof (cases origin)
    case (KeyPair p t)
    define f where "f y = y\<lparr>lk_incoming_frame_counter := c, lk_incoming_frame_counter_valid := True\<rparr>" for y :: ApsLinkKeyEntry
    have fp: "lk_pair (f y) = lk_pair y" for y by (simp add: f_def)
    from k KeyPair obtain e where e: "find_key s p t = Some e" by (auto simp: key_for_origin_def)
    have "commit_replay_counter tc s ?r = set_stale_incoming_floor tc (update_key s p t f) p t False"
      using ck e KeyPair by (simp add: commit_replay_counter_def check_replay_counter_def ApsReplayCounter_from_verified_def
          aps_commit_frame_counter_def aps_check_frame_counter_def f_def[abs_def])
    moreover have "(p, t) \<notin> set (as_stale_incoming_floors (set_stale_incoming_floor tc (update_key s p t f) p t False))"
      using stale_removed(1)[of "update_key s p t f" tc p t] wf_stale[OF wf] by simp
    ultimately have "aps_held (commit_replay_counter tc s ?r) (KeyPair p t) c"
      using e by (simp add: find_key_update_key[of f s, OF fp] f_def)
    then show ?thesis unfolding sn by (simp add: KeyPair)
  next
    case PreconfiguredGlobal
    with receive_records_global[OF wf _ ck] show ?thesis unfolding sn by (auto simp: ApsReplayCounter_from_verified_def intro!: bexI)
  next
    case DistributedGlobal
    with receive_records_global[OF wf _ ck] show ?thesis unfolding sn by (auto simp: ApsReplayCounter_from_verified_def intro!: bexI)
  qed
qed

lemma global_above:
  assumes wf: "aps_wf tc s" and r: "is_preconfigured_global (ar_origin r) \<and> is_preconfigured_global (ar_origin g) \<or>
      is_distributed_global (ar_origin r) \<and> is_distributed_global (ar_origin g)"
    and g: "g \<in> set (as_global_replay_table s)" and ok: "check_replay_counter s r"
  shows "ar_counter g < ar_counter r"
proof -
  have k: "is_preconfigured_global (ar_origin r) \<or> is_distributed_global (ar_origin r)" using r by auto
  have eq: "replay_origin_eq (ar_origin g) (ar_origin r)" using r by (intro origin_same_kind) auto
  with g obtain e where e: "find (\<lambda>e. replay_origin_eq (ar_origin e) (ar_origin r)) (as_global_replay_table s) = Some e"
    by (metis (mono_tags, lifting) find_None_iff option.exhaust)
  from find_SomeD[OF e] origin_kinds have "e = g"
    using short_filter_unique[of "\<lambda>g. is_preconfigured_global (ar_origin g)" "as_global_replay_table s" e g]
      short_filter_unique[of "\<lambda>g. is_distributed_global (ar_origin g)" "as_global_replay_table s" e g] g r wf
    by (auto simp: aps_wf_def)
  with ok e show ?thesis unfolding check_global_eq[OF k] by simp
qed

lemma receive_above:
  assumes wf: "aps_wf tc s" and h: "aps_held s origin c" and ok: "fst (aps_receive_verified tc origin source c' s)"
  shows "c < c'"
proof -
  from ok obtain key where ck: "check_replay_counter s (ApsReplayCounter_from_verified origin source key c')"
    by (auto simp: aps_receive_verified_def Let_def split: option.splits if_splits)
  show ?thesis
  proof (cases origin)
    case (KeyPair p t)
    with h ck show ?thesis
      by (auto simp: check_replay_counter_def ApsReplayCounter_from_verified_def aps_check_frame_counter_def)
  next
    case PreconfiguredGlobal
    with h obtain g where "g \<in> set (as_global_replay_table s)" "is_preconfigured_global (ar_origin g)" "c \<le> ar_counter g" by auto
    with global_above[OF wf _ this(1) ck] PreconfiguredGlobal show ?thesis by (auto simp: ApsReplayCounter_from_verified_def)
  next
    case DistributedGlobal
    with h obtain g where "g \<in> set (as_global_replay_table s)" "is_distributed_global (ar_origin g)" "c \<le> ar_counter g" by auto
    with global_above[OF wf _ this(1) ck] DistributedGlobal show ?thesis by (auto simp: ApsReplayCounter_from_verified_def)
  qed
qed

lemma wf_event: "aps_wf tc s \<Longrightarrow> aps_wf tc (snd (aps_event tc e s))"
  by (cases e) (simp_all add: wf_apply aps_receive_verified_def Let_def wf_commit_replay split: option.splits)

lemma held_event: "aps_wf tc s \<Longrightarrow> aps_keeps_key d e \<Longrightarrow> aps_held s d c \<Longrightarrow> aps_held (snd (aps_event tc e s)) d c"
  by (cases e) (simp_all add: held_apply aps_receive_verified_def Let_def held_commit_replay split: option.splits)

interpretation aps_guard: replay_guard "aps_event tc" aps_event_frame aps_keeps_key "aps_wf tc" aps_held for tc
proof
  fix s :: ApsSecurity and e d c c'
  assume wf: "aps_wf tc s"
  show "aps_wf tc (snd (aps_event tc e s))" by (rule wf_event[OF wf])
  show "aps_keeps_key d e \<Longrightarrow> aps_held s d c \<Longrightarrow> aps_held (snd (aps_event tc e s)) d c" by (rule held_event[OF wf])
  show "aps_event_frame e = Some (d, c) \<Longrightarrow> fst (aps_event tc e s) \<Longrightarrow> aps_held (snd (aps_event tc e s)) d c"
    by (cases e) (auto simp: receive_records[OF wf])
  show "aps_held s d c \<Longrightarrow> aps_event_frame e = Some (d, c') \<Longrightarrow> fst (aps_event tc e s) \<Longrightarrow> c < c'"
    by (cases e) (auto dest: receive_above[OF wf])
qed

lemma wf_new: "aps_wf tc ApsSecurity_new"
  by (simp add: aps_wf_def ApsSecurity_new_def)

lemma wf_run: "aps_wf tc s \<Longrightarrow> aps_wf tc (fold (aps_apply tc) ops s)"
  by (induction ops arbitrary: s) (simp_all add: wf_apply)

text \<open>
  C7: APS replay protection.  Once a frame secured under a link key or a global commissioning key has been accepted, no
  history of further frames, key installations, removals, resets and counter restorations that leaves this key in place
  makes a frame under the same key with the same or an older frame counter acceptable, whoever sends it.
\<close>

theorem aps_replay_rejected:
  assumes "aps_wf tc s" "fst (aps_receive_verified tc origin source counter s)" "list_all (aps_keeps_key origin) evs"
    and "fst (aps_receive_verified tc origin source' counter'
      (fold (\<lambda>e s. snd (aps_event tc e s)) evs (snd (aps_receive_verified tc origin source counter s))))"
  shows "counter < counter'"
  using aps_guard.no_replay[OF assms(1), of "ApsFrame origin source counter" origin counter evs
      "ApsFrame origin source' counter'" counter'] assms(2-4)
  by (simp add: aps_guard.run_def)

theorem aps_replay_rejected_witness:
  "fst (aps_receive_verified True PreconfiguredGlobal [1,2,3,4,5,6,7,8] 7 ApsSecurity_new) \<and>
   \<not> fst (aps_receive_verified True PreconfiguredGlobal [8,7,6,5,4,3,2,1] 7
      (fold (\<lambda>e s. snd (aps_event True e s)) [ApsStateChange (OpSetDistributedKey (replicate 16 1))]
        (snd (aps_receive_verified True PreconfiguredGlobal [1,2,3,4,5,6,7,8] 7 ApsSecurity_new))))"
proof -
  have a: "fst (aps_receive_verified True PreconfiguredGlobal [1,2,3,4,5,6,7,8] 7 ApsSecurity_new)"
    by (simp add: aps_receive_verified_def key_for_origin_def ApsSecurity_new_def check_replay_counter_def
        ApsReplayCounter_from_verified_def MAX_ACTIVE_GLOBAL_REPLAY_DOMAINS_def)
  with aps_replay_rejected[OF wf_new a, of "[ApsStateChange (OpSetDistributedKey (replicate 16 1))]" "[8,7,6,5,4,3,2,1]" 7]
  show ?thesis by auto
qed

text \<open>
  C35: the APS key state stays consistent.  After any sequence of operations there is one entry per partner and key type, within the
  capacity of the build; a floor marked as established under an earlier key belongs to an installed key; replacing a key
  that carries a committed floor always marks it, so the list of such marks never overflows; and a
  frame under a global key that has no replay record yet is never refused for lack of room.
\<close>

theorem aps_state_consistent:
  assumes "s = fold (aps_apply tc) ops ApsSecurity_new"
  shows "distinct (map lk_pair (as_key_table s)) \<and> length (as_key_table s) \<le> MAX_KEY_TABLE_ENTRIES tc \<and>
    (\<forall>p t. incoming_floor_predates_key s p t \<longrightarrow> find_key s p t \<noteq> None) \<and>
    (\<forall>e x. find_key s (lk_partner_address e) (lk_key_type e) = Some x \<and> lk_key x \<noteq> lk_key e \<and> lk_incoming_frame_counter_valid e \<longrightarrow>
       incoming_floor_predates_key (snd (add_key tc s e)) (lk_partner_address e) (lk_key_type e)) \<and>
    (\<forall>r. (is_preconfigured_global (ar_origin r) \<or> is_distributed_global (ar_origin r)) \<and>
       find (\<lambda>g. replay_origin_eq (ar_origin g) (ar_origin r)) (as_global_replay_table s) = None \<longrightarrow> check_replay_counter s r)"
proof -
  have wf: "aps_wf tc s" using wf_run[OF wf_new] assms by simp
  have "incoming_floor_predates_key (snd (add_key tc s e)) (lk_partner_address e) (lk_key_type e)"
    if e: "find_key s (lk_partner_address e) (lk_key_type e) = Some x" "lk_key x \<noteq> lk_key e" "lk_incoming_frame_counter_valid e" for e x
  proof -
    let ?u = "update_key s (lk_partner_address e) (lk_key_type e) (overwrite_key e)"
    have u: "aps_wf tc ?u" by (rule wf_update_key[OF wf]) simp
    have "lk_pair e \<in> lk_pair ` set (as_key_table ?u)"
      using find_key_None[of s "lk_partner_address e" "lk_key_type e"] e(1)
        arg_cong[OF update_key_pairs[of "overwrite_key e" s "lk_partner_address e" "lk_key_type e"], of set] by simp
    from stale_added(1)[OF u this] e show ?thesis by (simp add: add_key_def Let_def incoming_floor_predates_key_def stale_index)
  qed
  moreover have "check_replay_counter s r" if "is_preconfigured_global (ar_origin r) \<or> is_distributed_global (ar_origin r)"
    "find (\<lambda>g. replay_origin_eq (ar_origin g) (ar_origin r)) (as_global_replay_table s) = None" for r
    using check_global_eq[OF that(1), of s] global_unrecorded[OF wf that] that(2) by (simp add: MAX_ACTIVE_GLOBAL_REPLAY_DOMAINS_def)
  moreover have "find_key s p t \<noteq> None" if "incoming_floor_predates_key s p t" for p t
    using that wf by (auto simp: incoming_floor_predates_key_def stale_index find_key_None aps_wf_def)
  ultimately show ?thesis using wf by (auto simp: aps_wf_def)
qed

theorem aps_state_consistent_witness:
  "check_replay_counter (fold (aps_apply False) [OpSetDistributedKey (replicate 16 1)] ApsSecurity_new)
     \<lparr>ar_origin = RDistributedGlobal (replicate 8 2), ar_key_fingerprint = 0, ar_counter = 0\<rparr>"
  using aps_state_consistent[of "fold (aps_apply False) [OpSetDistributedKey (replicate 16 1)] ApsSecurity_new" False
      "[OpSetDistributedKey (replicate 16 1)]"]
  by (simp add: set_distributed_security_link_key_def ApsSecurity_new_def)

end
