(* ===== verification/Aps_Secured_Frames.thy ===== *)
theory Aps_Secured_Frames
  imports Secured_Frames Aps_Security
begin

text \<open>
  The APS security phases of \<^verbatim>\<open>zigbee-aps/src/apsde.rs\<close>: which key and which frame counter secure an outgoing frame, the
  assembly of a secured frame (data, acknowledgement, retransmission and Trust Center command), and the verification
  of an incoming one: the candidate keys of its source, the ladder of CCM* variants, the replay check and the single
  commit after a verified integrity code.  \<^term>\<open>None\<close> of the outer option is a panic (an index or a copy out of range).
\<close>

section \<open>State\<close>

record ApsLayer =
  al_nwk :: NwkLayer
  al_security :: ApsSecurity
  al_trust_center_address :: IeeeAddress

record OutgoingApsSecurity =
  os_key :: AesKey
  os_frame_counter :: u32
  os_origin :: ApsKeyOrigin

record ApsFrameBuffer =
  fb_data :: "u8 list"
  fb_len :: nat

definition APS_FRAME_BUFFER_LEN :: nat where "APS_FRAME_BUFFER_LEN = 256"
definition ApsFrameBuffer_new :: ApsFrameBuffer where
  "ApsFrameBuffer_new = \<lparr>fb_data = replicate APS_FRAME_BUFFER_LEN 0, fb_len = 0\<rparr>"
definition ApsFrameBuffer_payload :: "ApsFrameBuffer \<Rightarrow> u8 list" where
  "ApsFrameBuffer_payload b = take (fb_len b) (fb_data b)"

definition WIRE_KEY_TYPE_NETWORK :: u8 where "WIRE_KEY_TYPE_NETWORK = 0x01"
definition WIRE_KEY_TYPE_APPLICATION_LINK :: u8 where "WIRE_KEY_TYPE_APPLICATION_LINK = 0x03"
definition BROADCAST_IEEE :: IeeeAddress where "BROADCAST_IEEE = replicate 8 0xFF"

definition nonzero_ieee :: "IeeeAddress \<Rightarrow> IeeeAddress option" where
  "nonzero_ieee address = (if address \<noteq> replicate 8 0 then Some address else None)"

definition centralized_trust_center :: "IeeeAddress \<Rightarrow> IeeeAddress option" where
  "centralized_trust_center address =
     (case nonzero_ieee address of Some a \<Rightarrow> if a \<noteq> BROADCAST_IEEE then Some a else None | None \<Rightarrow> None)"

section \<open>Keys and counters of outgoing frames\<close>

definition next_default_tc_link_key_frame_counter :: "ApsLayer \<Rightarrow> u32 option \<times> ApsLayer" where
  "next_default_tc_link_key_frame_counter l =
     (case next_frame_counter (al_nwk l) of (fc, n) \<Rightarrow> (fc, l\<lparr>al_nwk := n\<rparr>))"

definition next_frame_counter_for :: "ApsLayer \<Rightarrow> ApsKeyOrigin \<Rightarrow> u32 option \<times> ApsLayer" where
  "next_frame_counter_for l origin =
     (case origin of
        KeyPair partner key_type \<Rightarrow>
          (case aps_next_frame_counter (al_security l) partner key_type of (fc, s) \<Rightarrow> (fc, l\<lparr>al_security := s\<rparr>))
      | _ \<Rightarrow> next_default_tc_link_key_frame_counter l)"

definition aps_data_key_origin :: "ApsLayer \<Rightarrow> IeeeAddress option \<Rightarrow> ShortAddress \<Rightarrow> ApsKeyOrigin option" where
  "aps_data_key_origin l destination nwk_destination =
     (let trust_center = centralized_trust_center (al_trust_center_address l);
          resolved = (case destination of Some d \<Rightarrow> Some d
                      | None \<Rightarrow> if nwk_destination = 0x0000 then trust_center else None)
      in case (case resolved of Some d \<Rightarrow> map_option (\<lambda>e. (d, e)) (find_any_key (al_security l) d) | None \<Rightarrow> None) of
           Some (d, entry) \<Rightarrow>
             Some (if lk_key entry = as_default_tc_link_key (al_security l) then PreconfiguredGlobal
                   else if as_distributed_security_link_key (al_security l) = Some (lk_key entry) then DistributedGlobal
                   else KeyPair d (lk_key_type entry))
         | None \<Rightarrow> if trust_center \<noteq> None \<and> resolved = trust_center then Some PreconfiguredGlobal else None)"

definition next_aps_link_key_material ::
    "ApsLayer \<Rightarrow> IeeeAddress option \<Rightarrow> ShortAddress \<Rightarrow> OutgoingApsSecurity option \<times> ApsLayer" where
  "next_aps_link_key_material l destination nwk_destination =
     (case aps_data_key_origin l destination nwk_destination of
        None \<Rightarrow> (None, l)
      | Some origin \<Rightarrow>
          (case key_for_origin (al_security l) origin of
             None \<Rightarrow> (None, l)
           | Some key \<Rightarrow>
               (case next_frame_counter_for l origin of
                  (None, l) \<Rightarrow> (None, l)
                | (Some fc, l) \<Rightarrow> (Some \<lparr>os_key = key, os_frame_counter = fc, os_origin = origin\<rparr>, l))))"

definition next_key_pair_material :: "ApsLayer \<Rightarrow> IeeeAddress \<Rightarrow> ApsKeyType \<Rightarrow> OutgoingApsSecurity option \<times> ApsLayer" where
  "next_key_pair_material l partner key_type =
     (case find_key (al_security l) partner key_type of
        None \<Rightarrow> (None, l)
      | Some entry \<Rightarrow>
          let key = lk_key entry;
              origin = (if key = as_default_tc_link_key (al_security l) then PreconfiguredGlobal
                        else if as_distributed_security_link_key (al_security l) = Some key then DistributedGlobal
                        else KeyPair partner key_type)
          in case next_frame_counter_for l origin of
               (None, l) \<Rightarrow> (None, l)
             | (Some fc, l) \<Rightarrow> (Some \<lparr>os_key = key, os_frame_counter = fc, os_origin = origin\<rparr>, l))"

definition next_link_key_material_for :: "ApsLayer \<Rightarrow> IeeeAddress \<Rightarrow> OutgoingApsSecurity option \<times> ApsLayer" where
  "next_link_key_material_for l partner =
     (if find_key (al_security l) partner TrustCenterLinkKey \<noteq> None
      then next_key_pair_material l partner TrustCenterLinkKey
      else case next_default_tc_link_key_frame_counter l of
             (None, l) \<Rightarrow> (None, l)
           | (Some fc, l) \<Rightarrow> (Some \<lparr>os_key = as_default_tc_link_key (al_security l), os_frame_counter = fc,
               os_origin = PreconfiguredGlobal\<rparr>, l))"

definition next_current_tc_link_key_material :: "ApsLayer \<Rightarrow> OutgoingApsSecurity option \<times> ApsLayer" where
  "next_current_tc_link_key_material l =
     (case (case nonzero_ieee (al_trust_center_address l) of
              Some a \<Rightarrow> if find_key (al_security l) a TrustCenterLinkKey \<noteq> None then Some a else None
            | None \<Rightarrow> None) of
        Some tc_ieee \<Rightarrow> next_key_pair_material l tc_ieee TrustCenterLinkKey
      | None \<Rightarrow>
          (case next_default_tc_link_key_frame_counter l of
             (None, l) \<Rightarrow> (None, l)
           | (Some fc, l) \<Rightarrow> (Some \<lparr>os_key = as_default_tc_link_key (al_security l), os_frame_counter = fc,
               os_origin = PreconfiguredGlobal\<rparr>, l)))"

definition next_installed_tc_link_key_material :: "ApsLayer \<Rightarrow> IeeeAddress \<Rightarrow> OutgoingApsSecurity option \<times> ApsLayer" where
  "next_installed_tc_link_key_material l partner = next_key_pair_material l partner TrustCenterLinkKey"

section \<open>Assembling a secured frame\<close>

definition assemble_secured_frame ::
    "'e provider \<Rightarrow> u8 list \<Rightarrow> u8 list \<Rightarrow> AesKey \<Rightarrow> ApsSecurityHeader \<Rightarrow> u8 list option option" where
  "assemble_secured_frame provider aps_header payload key sec_hdr =
     (if length aps_header \<ge> 128 then Some None
      else case ApsSecurityHeader_serialize sec_hdr (replicate (128 - length aps_header) 0) of
             None \<Rightarrow> None
           | Some (tail, sec_hdr_len) \<Rightarrow>
               let frame = aps_header @ tail; aad_len = length aps_header + sec_hdr_len
               in if aad_len > 64 then None
                  else let aad = take aad_len frame;
                           aad = aad[length aps_header := (aad ! length aps_header AND NOT 0x07) OR SEC_LEVEL_ENC_MIC_32]
                       in case aps_encrypt_with provider aad payload key sec_hdr of
                            None \<Rightarrow> Some None
                          | Some encrypted \<Rightarrow>
                              if aad_len + length encrypted > length frame then Some None
                              else Some (Some (take aad_len frame @ encrypted)))"

definition secure_with_origin ::
    "'e provider \<Rightarrow> ApsLayer \<Rightarrow> ApsKeyOrigin \<Rightarrow> IeeeAddress \<Rightarrow> u8 list \<Rightarrow> u8 list \<Rightarrow> (u8 list option \<times> ApsLayer) option" where
  "secure_with_origin provider l origin src_ieee header payload =
     (case key_for_origin (al_security l) origin of
        None \<Rightarrow> Some (None, l)
      | Some key \<Rightarrow>
          (case next_frame_counter_for l origin of
             (None, l) \<Rightarrow> Some (None, l)
           | (Some fc, l) \<Rightarrow>
               map_option (\<lambda>frame. (frame, l)) (assemble_secured_frame provider header payload key
                 \<lparr>ax_security_control = APS_DEFAULT_EXT_NONCE, ax_frame_counter = fc, ax_source_address = Some src_ieee,
                  ax_key_seq_number = None\<rparr>)))"

record PendingApsSecurity =
  ps_origin :: ApsKeyOrigin
  ps_src_ieee :: IeeeAddress
  ps_header_len :: u8

definition resecure_retransmission ::
    "'e provider \<Rightarrow> ApsLayer \<Rightarrow> PendingApsSecurity \<Rightarrow> u8 list \<Rightarrow> (u8 list option \<times> ApsLayer) option" where
  "resecure_retransmission provider l security plaintext_frame =
     (let header_len = unat (ps_header_len security)
      in if header_len > length plaintext_frame then Some (None, l)
         else secure_with_origin provider l (ps_origin security) (ps_src_ieee security)
                (take header_len plaintext_frame) (drop header_len plaintext_frame))"

definition build_tc_secured_command_frame_with ::
    "'e provider \<Rightarrow> AesKey \<Rightarrow> IeeeAddress \<Rightarrow> u8 \<Rightarrow> u32 \<Rightarrow> u8 \<Rightarrow> bool \<Rightarrow> u8 list \<Rightarrow> u8 list \<Rightarrow> (nat option \<times> u8 list) option" where
  "build_tc_secured_command_frame_with provider link_key src_ieee aps_counter frame_counter key_ident ack_request command frame =
     (if length frame < 15 then Some (None, frame)
      else let header = \<lparr>ah_frame_control = \<lparr>ac_frame_type = ApsFrameType_to_u8 AftCommand,
                   ac_delivery_mode = ApsDeliveryMode_to_u8 AdmUnicast, ac_ack_format = False, ac_security = True,
                   ac_ack_request = ack_request, ac_extended_header = False\<rparr>,
                 ah_dst_endpoint = None, ah_group_address = None, ah_cluster_id = None, ah_profile_id = None,
                 ah_src_endpoint = None, ah_aps_counter = aps_counter, ah_extended_header = None\<rparr>;
               security_header = \<lparr>ax_security_control = push_bit 3 key_ident OR push_bit 5 1, ax_frame_counter = frame_counter,
                 ax_source_address = Some src_ieee, ax_key_seq_number = None\<rparr>
           in case ApsHeader_serialize header frame of
                None \<Rightarrow> None
              | Some (frame, header_len) \<Rightarrow>
                  (case ApsSecurityHeader_serialize security_header (drop header_len frame) of
                     None \<Rightarrow> None
                   | Some (tail, security_header_len) \<Rightarrow>
                       let frame = take header_len frame @ tail; aad_len = header_len + security_header_len
                       in if aad_len > 16 then None
                          else let aad = take aad_len frame;
                                   aad = aad[header_len := aad ! header_len OR SEC_LEVEL_ENC_MIC_32]
                               in case aps_encrypt_with provider aad command link_key security_header of
                                    None \<Rightarrow> Some (None, frame)
                                  | Some encrypted \<Rightarrow>
                                      if aad_len + length encrypted > length frame then Some (None, frame)
                                      else map_option (\<lambda>frame. (Some (aad_len + length encrypted), frame))
                                             (put aad_len encrypted frame)))"

section \<open>Verifying an incoming frame\<close>

definition decrypt_into ::
    "'e provider \<Rightarrow> u8 list \<Rightarrow> u8 list \<Rightarrow> AesKey \<Rightarrow> ApsSecurityHeader \<Rightarrow> ApsFrameBuffer \<Rightarrow> bool \<times> ApsFrameBuffer" where
  "decrypt_into provider aad ciphertext key security_header buf =
     (case aps_decrypt_with provider aad ciphertext key security_header of
        None \<Rightarrow> (False, buf)
      | Some plaintext \<Rightarrow>
          let pt_len = min (length plaintext) (length (fb_data buf))
          in (True, \<lparr>fb_data = take pt_len plaintext @ drop pt_len (fb_data buf), fb_len = pt_len\<rparr>))"

definition decrypt_with_link_key ::
    "'e provider \<Rightarrow> u8 \<Rightarrow> AesKey \<Rightarrow> bool \<Rightarrow> bool \<Rightarrow> u8 list \<Rightarrow> u8 list \<Rightarrow> u8 list \<Rightarrow> ApsSecurityHeader \<Rightarrow> ApsFrameBuffer \<Rightarrow>
       bool \<times> ApsFrameBuffer" where
  "decrypt_with_link_key provider key_ident base_link_key uses_global_link_key nwk_has_active_key aad aad_raw ciphertext sec_hdr buf =
     (case (if key_ident = KEY_ID_KEY_TRANSPORT then derive_key_transport_key_with provider base_link_key
            else if key_ident = KEY_ID_KEY_LOAD then derive_key_load_key_with provider base_link_key
            else Some base_link_key) of
        None \<Rightarrow> (False, buf)
      | Some key \<Rightarrow>
          (case decrypt_into provider aad ciphertext key sec_hdr buf of
             (True, buf) \<Rightarrow> (True, buf)
           | (False, buf) \<Rightarrow>
               (case decrypt_into provider aad_raw ciphertext key sec_hdr buf of
                  (True, buf) \<Rightarrow> (True, buf)
                | (False, buf) \<Rightarrow>
                    if key_ident = KEY_ID_KEY_TRANSPORT \<and> uses_global_link_key \<and> \<not> nwk_has_active_key
                    then (case decrypt_into provider aad ciphertext base_link_key sec_hdr buf of
                            (True, buf) \<Rightarrow> (True, buf)
                          | (False, buf) \<Rightarrow> decrypt_into provider aad_raw ciphertext base_link_key sec_hdr buf)
                    else (False, buf))))"

record ApsDecryptOutcome =
  do_aps_security_source :: "IeeeAddress option"
  do_aps_key_identifier :: "u8 option"
  do_aps_used_default_link_key :: bool
  do_aps_used_distributed_link_key :: bool
  do_deferred_application_key_replay :: "ApsReplayCounter option"
  do_deferred_network_key_replay :: "ApsReplayCounter option"
  do_deferred_data_replay :: "ApsReplayCounter option"
  do_deferred_security_indication_replay :: "ApsReplayCounter option"
  do_replay_duplicate :: bool
  do_key_origin :: ApsKeyOrigin

definition aps_candidates :: "ApsSecurity \<Rightarrow> IeeeAddress option \<Rightarrow> (ApsKeyOrigin \<times> AesKey) list" where
  "aps_candidates security source =
     (let pairs = (case source of None \<Rightarrow> []
                   | Some address \<Rightarrow> map (\<lambda>(key_type, key). (KeyPair address key_type, key)) (key_pairs_for security address))
      in if pairs = []
         then (PreconfiguredGlobal, as_default_tc_link_key security) #
              (case as_distributed_security_link_key security of None \<Rightarrow> [] | Some key \<Rightarrow> [(DistributedGlobal, key)])
         else pairs)"

text \<open>The loop over the candidates: the first whose key verifies the integrity code wins.\<close>

fun try_candidates ::
    "'e provider \<Rightarrow> ApsSecurity \<Rightarrow> IeeeAddress \<Rightarrow> bool \<Rightarrow> u8 list \<Rightarrow> u8 list \<Rightarrow> u8 list \<Rightarrow> ApsSecurityHeader \<Rightarrow>
       (ApsKeyOrigin \<times> AesKey) list \<Rightarrow> ApsFrameBuffer \<Rightarrow>
       (ApsReplayCounter \<times> bool \<times> bool \<times> ApsKeyOrigin) option \<times> ApsFrameBuffer" where
  "try_candidates provider security source active aad aad_raw ciphertext sec_hdr [] buf = (None, buf)"
| "try_candidates provider security source active aad aad_raw ciphertext sec_hdr ((origin, key) # candidates) buf =
     (let replay = ApsReplayCounter_from_verified origin source key (ax_frame_counter sec_hdr);
          replay_duplicate = (\<not> check_replay_counter security replay);
          uses_global = (origin = PreconfiguredGlobal \<or> origin = DistributedGlobal);
          uses_default = (origin = PreconfiguredGlobal \<or>
            (case origin of KeyPair _ _ \<Rightarrow> key = as_default_tc_link_key security | _ \<Rightarrow> False))
      in case decrypt_with_link_key provider (key_identifier (ax_security_control sec_hdr)) key uses_global active
                aad aad_raw ciphertext sec_hdr buf of
           (True, buf) \<Rightarrow> (Some (replay, uses_default, replay_duplicate, origin), buf)
         | (False, buf) \<Rightarrow> try_candidates provider security source active aad aad_raw ciphertext sec_hdr candidates buf)"

text \<open>A frame without an extended nonce takes its source from the NWK layer or the Trust Center address.\<close>

definition resolve_security_source :: "IeeeAddress option \<Rightarrow> IeeeAddress \<Rightarrow> ApsSecurityHeader \<Rightarrow> ApsSecurityHeader" where
  "resolve_security_source nwk_src_ieee tc_address sec_hdr =
     (if ax_source_address sec_hdr = None
      then sec_hdr\<lparr>ax_source_address := (case nwk_src_ieee \<bind> nonzero_ieee of
             Some a \<Rightarrow> Some a | None \<Rightarrow> nonzero_ieee tc_address)\<rparr>
      else sec_hdr)"

text \<open>The authenticated data with the security level the sender used; \<^term>\<open>None\<close> is the panic of the patch.\<close>

definition patched_aad :: "u8 list \<Rightarrow> nat \<Rightarrow> nat \<Rightarrow> u8 list option" where
  "patched_aad nwk_payload consumed aad_end =
     (let aad_len = min aad_end 64;
          aad_buf = take aad_len nwk_payload @ replicate (64 - aad_len) 0
      in if consumed \<ge> 64 then None
         else Some (take aad_len (aad_buf[consumed := (aad_buf ! consumed AND NOT 0x07) OR SEC_LEVEL_ENC_MIC_32])))"

text \<open>
  What follows a verified integrity code: the replay record is deferred to the transaction that will make the
  frame's effect durable, or committed here once the durable hook agrees.
\<close>

definition settle_replay ::
    "bool \<Rightarrow> bool \<Rightarrow> ApsSecurity \<Rightarrow> ApsFrameBuffer \<Rightarrow> bool \<Rightarrow> bool \<Rightarrow> bool \<Rightarrow> bool \<Rightarrow> (ApsReplayCounter \<Rightarrow> bool) \<Rightarrow>
       ApsSecurityHeader \<Rightarrow> ApsReplayCounter \<times> bool \<times> bool \<times> ApsKeyOrigin \<Rightarrow> ApsDecryptOutcome option \<times> ApsSecurity" where
  "settle_replay tc router security buf defer_application_key_replay defer_network_key_replay
     defer_security_indication_replay defer_data_replay replay_commit sec_hdr accepted =
     (case accepted of (replay, uses_default, replay_duplicate, key_origin) \<Rightarrow>
        let deferred = (\<lambda>c. if \<not> replay_duplicate \<and> c then Some replay else None);
            b0 = fb_data buf ! 0; b1 = fb_data buf ! 1;
            app = deferred (defer_application_key_replay \<and> fb_len buf \<ge> 2 \<and>
              b0 = ApsCommandId_to_u8 AcTransportKey \<and> b1 = WIRE_KEY_TYPE_APPLICATION_LINK);
            net = deferred (defer_network_key_replay \<and> fb_len buf \<ge> 2 \<and>
              b0 = ApsCommandId_to_u8 AcTransportKey \<and> (b1 = WIRE_KEY_TYPE_NETWORK \<or> b1 = 0x05));
            ind = deferred (router \<and> defer_security_indication_replay \<and> fb_len buf \<noteq> 0 \<and>
              ApsCommandId_from_u8 b0 \<in> {Some AcUpdateDevice, Some AcRemoveDevice, Some AcRequestKey, Some AcVerifyKey});
            dat = deferred defer_data_replay;
            outcome = \<lparr>do_aps_security_source = ax_source_address sec_hdr,
              do_aps_key_identifier = Some (key_identifier (ax_security_control sec_hdr)),
              do_aps_used_default_link_key = uses_default,
              do_aps_used_distributed_link_key = is_distributed_global (ar_origin replay),
              do_deferred_application_key_replay = app, do_deferred_network_key_replay = net,
              do_deferred_data_replay = dat, do_deferred_security_indication_replay = ind,
              do_replay_duplicate = replay_duplicate, do_key_origin = key_origin\<rparr>
        in if \<not> replay_duplicate \<and> app = None \<and> net = None \<and> ind = None \<and> dat = None
           then if \<not> replay_commit replay then (None, security)
                else (Some outcome, commit_replay_counter tc security replay)
           else (Some outcome, security))"

definition aps_decrypt_incoming ::
    "bool \<Rightarrow> bool \<Rightarrow> 'e provider \<Rightarrow> ApsSecurity \<Rightarrow> IeeeAddress option \<Rightarrow> bool \<Rightarrow> IeeeAddress \<Rightarrow> u8 list \<Rightarrow> nat \<Rightarrow> ApsFrameBuffer \<Rightarrow>
       bool \<Rightarrow> bool \<Rightarrow> bool \<Rightarrow> bool \<Rightarrow> (ApsReplayCounter \<Rightarrow> bool) \<Rightarrow>
       ((ApsDecryptOutcome option \<times> ApsSecurity) \<times> ApsFrameBuffer) option" where
  "aps_decrypt_incoming tc router provider security nwk_src_ieee nwk_has_active_key tc_address nwk_payload consumed buf
     defer_application_key_replay defer_network_key_replay defer_security_indication_replay defer_data_replay replay_commit =
     (if consumed > length nwk_payload then None
      else let after_header = drop consumed nwk_payload
           in case ApsSecurityHeader_parse after_header of
                None \<Rightarrow> Some ((None, security), buf)
              | Some (parsed_hdr, sec_consumed) \<Rightarrow>
                  (let sec_hdr = resolve_security_source nwk_src_ieee tc_address parsed_hdr;
                       ciphertext = drop sec_consumed after_header;
                       aad_end = consumed + sec_consumed;
                       aad_raw = take (min aad_end (length nwk_payload)) nwk_payload;
                       key_ident = key_identifier (ax_security_control sec_hdr)
                   in case patched_aad nwk_payload consumed aad_end of
                        None \<Rightarrow> None
                      | Some aad \<Rightarrow>
                          (if key_ident \<noteq> KEY_ID_DATA_KEY \<and> key_ident \<noteq> KEY_ID_KEY_TRANSPORT \<and> key_ident \<noteq> KEY_ID_KEY_LOAD
                           then Some ((None, security), buf)
                           else case ax_source_address sec_hdr of
                                  None \<Rightarrow> Some ((None, security), buf)
                                | Some replay_source \<Rightarrow>
                                    (case try_candidates provider security replay_source nwk_has_active_key aad aad_raw
                                            ciphertext sec_hdr (aps_candidates security (ax_source_address sec_hdr)) buf of
                                       (None, buf) \<Rightarrow> Some ((None, security), buf)
                                     | (Some accepted, buf) \<Rightarrow>
                                         Some (settle_replay tc router security buf defer_application_key_replay
                                           defer_network_key_replay defer_security_indication_replay defer_data_replay
                                           replay_commit sec_hdr accepted, buf)))))"

section \<open>What an accepted frame proves\<close>

lemma aps_decrypt_iff_encrypt:
  assumes "block_cipher (provider key)"
  shows "aps_decrypt_with provider aad ct key sh = Some pt \<longleftrightarrow> aps_encrypt_with provider aad pt key sh = Some ct"
proof -
  let ?n = "aps_build_nonce sh"
  have "aps_decrypt_with provider aad ct key sh = Some pt \<longleftrightarrow> ccm_star_decrypt_with (provider key) ?n aad ct = Inr (Some pt)"
    by (auto simp: aps_decrypt_with_def ccm_star_decrypt_with_def CCM_STAR_MIC_LEN_def split: sum.splits if_splits)
  also have "\<dots> \<longleftrightarrow> ccm_star_encrypt_with (provider key) ?n aad pt = Inr (Some ct)" by (rule ccm_star_inverse[OF assms])
  finally show ?thesis by (auto simp: aps_encrypt_with_def split: sum.splits)
qed

text \<open>
  The keys that may secure a frame of a candidate: as its key identifier says, and the underived global key for key transport to a
  node that has no network key yet.
\<close>

definition link_key_variant :: "'e provider \<Rightarrow> u8 \<Rightarrow> bool \<Rightarrow> ApsKeyOrigin \<Rightarrow> AesKey \<Rightarrow> AesKey \<Rightarrow> bool" where
  "link_key_variant provider kid active origin key k' \<longleftrightarrow>
     (if kid = KEY_ID_KEY_TRANSPORT
      then derive_key_transport_key_with provider key = Some k' \<or>
           (origin = PreconfiguredGlobal \<or> origin = DistributedGlobal) \<and> \<not> active \<and> k' = key
      else if kid = KEY_ID_KEY_LOAD then derive_key_load_key_with provider key = Some k' else k' = key)"

definition holds_payload :: "ApsFrameBuffer \<Rightarrow> u8 list \<Rightarrow> bool" where
  "holds_payload b pt \<longleftrightarrow> length (fb_data b) = 256 \<and> ApsFrameBuffer_payload b = take 256 pt \<and> fb_len b = min (length pt) 256"

lemma decrypt_intoD:
  assumes "decrypt_into provider aad ct key sh buf = (ok, buf')" "length (fb_data buf) = 256"
  shows "if ok then \<exists>pt. aps_decrypt_with provider aad ct key sh = Some pt \<and> holds_payload buf' pt
    else buf' = buf \<and> aps_decrypt_with provider aad ct key sh = None"
  using assms by (auto simp: decrypt_into_def Let_def holds_payload_def ApsFrameBuffer_payload_def min_def split: option.splits)

lemma decrypt_with_link_keyD:
  assumes d: "decrypt_with_link_key provider kid key (origin = PreconfiguredGlobal \<or> origin = DistributedGlobal) active aad raw ct sh buf = (ok, buf')"
    and l: "length (fb_data buf) = 256"
  shows "if ok then \<exists>k' a pt. link_key_variant provider kid active origin key k' \<and> a \<in> {aad, raw} \<and>
      aps_decrypt_with provider a ct k' sh = Some pt \<and> holds_payload buf' pt else buf' = buf"
proof -
  let ?k = "if kid = KEY_ID_KEY_TRANSPORT then derive_key_transport_key_with provider key
    else if kid = KEY_ID_KEY_LOAD then derive_key_load_key_with provider key else Some key"
  show ?thesis
  proof (cases ?k)
    case None
    with d show ?thesis by (simp add: decrypt_with_link_key_def)
  next
    case (Some k)
    then have v: "link_key_variant provider kid active origin key k" by (auto simp: link_key_variant_def split: if_splits)
    obtain ok1 b1 where d1: "decrypt_into provider aad ct k sh buf = (ok1, b1)" by force
    obtain ok2 b2 where d2: "decrypt_into provider raw ct k sh buf = (ok2, b2)" by force
    obtain ok3 b3 where d3: "decrypt_into provider aad ct key sh buf = (ok3, b3)" by force
    obtain ok4 b4 where d4: "decrypt_into provider raw ct key sh buf = (ok4, b4)" by force
    note e = decrypt_intoD[OF d1 l] decrypt_intoD[OF d2 l] decrypt_intoD[OF d3 l] decrypt_intoD[OF d4 l]
    have n: "b1 = buf" if "\<not> ok1" using e(1) that by simp
    have n2: "b2 = buf" if "\<not> ok2" using e(2) that by simp
    have n3: "b3 = buf" if "\<not> ok3" using e(3) that by simp
    consider "ok1" "ok" "buf' = b1" | "\<not> ok1" "ok2" "ok" "buf' = b2"
      | "\<not> ok1" "\<not> ok2" "kid = KEY_ID_KEY_TRANSPORT" "origin = PreconfiguredGlobal \<or> origin = DistributedGlobal" "\<not> active" "ok3" "ok" "buf' = b3"
      | "\<not> ok1" "\<not> ok2" "kid = KEY_ID_KEY_TRANSPORT" "origin = PreconfiguredGlobal \<or> origin = DistributedGlobal" "\<not> active" "\<not> ok3" "ok = ok4" "buf' = b4"
      | "\<not> ok" "buf' = buf"
      using d d1 d2 d3 d4 n n2 n3 Some unfolding decrypt_with_link_key_def
      by (cases ok1; cases ok2; cases ok3) (auto split: if_splits)
    then show ?thesis
    proof cases
      case 1
      with e(1) v show ?thesis by auto
    next
      case 2
      with e(2) v show ?thesis by auto
    next
      case 3
      then have "link_key_variant provider kid active origin key key" by (simp add: link_key_variant_def)
      with e(3) 3 show ?thesis by auto
    next
      case 4
      then have "link_key_variant provider kid active origin key key" by (simp add: link_key_variant_def)
      moreover have "a \<in> {b, a}" for a b :: "u8 list" by simp
      ultimately show ?thesis using e(4) 4(7,8) by (cases ok4) (simp, blast, simp)
    qed simp
  qed
qed

lemma try_candidatesD:
  assumes "try_candidates provider s source active aad raw ct sh cs buf = (Some (replay, ud, dup, origin), buf')"
    and "length (fb_data buf) = 256"
  shows "\<exists>key k' a pt. (origin, key) \<in> set cs \<and> replay = ApsReplayCounter_from_verified origin source key (ax_frame_counter sh) \<and>
    dup = (\<not> check_replay_counter s replay) \<and>
    link_key_variant provider (key_identifier (ax_security_control sh)) active origin key k' \<and> a \<in> {aad, raw} \<and>
    aps_decrypt_with provider a ct k' sh = Some pt \<and> holds_payload buf' pt"
  using assms
proof (induction cs arbitrary: buf)
  case (Cons c cs)
  obtain og key where c: "c = (og, key)" by force
  let ?kid = "key_identifier (ax_security_control sh)" and ?g = "og = PreconfiguredGlobal \<or> og = DistributedGlobal"
  obtain ok b where d: "decrypt_with_link_key provider ?kid key ?g active aad raw ct sh buf = (ok, b)" by force
  note dd = decrypt_with_link_keyD[OF d Cons.prems(2)]
  show ?case
  proof (cases ok)
    case True
    with Cons.prems(1) d c have "origin = og" "buf' = b" "replay = ApsReplayCounter_from_verified og source key (ax_frame_counter sh)"
      "dup = (\<not> check_replay_counter s replay)" by (auto simp: Let_def)
    with dd True c show ?thesis by auto
  next
    case False
    with dd have "b = buf" by simp
    with Cons.prems(1) d c False have "try_candidates provider s source active aad raw ct sh cs buf = (Some (replay, ud, dup, origin), buf')"
      by (simp add: Let_def)
    from Cons.IH[OF this Cons.prems(2)] show ?thesis by auto
  qed
qed simp

lemma settle_replayD:
  assumes "settle_replay tc router s buf d1 d2 d3 d4 hook sh (replay, ud, dup, origin) = (Some outcome, s')"
  shows "do_aps_security_source outcome = ax_source_address sh" "do_key_origin outcome = origin" "do_replay_duplicate outcome = dup"
    "s' = s \<or> \<not> dup \<and> hook replay \<and> s' = commit_replay_counter tc s replay"
    "dup \<or> s' = commit_replay_counter tc s replay \<or> do_deferred_application_key_replay outcome = Some replay \<or>
     do_deferred_network_key_replay outcome = Some replay \<or> do_deferred_security_indication_replay outcome = Some replay \<or>
     do_deferred_data_replay outcome = Some replay"
proof -
  define c1 where "c1 \<longleftrightarrow> d1 \<and> fb_len buf \<ge> 2 \<and> fb_data buf ! 0 = ApsCommandId_to_u8 AcTransportKey \<and>
    fb_data buf ! 1 = WIRE_KEY_TYPE_APPLICATION_LINK"
  define c2 where "c2 \<longleftrightarrow> d2 \<and> fb_len buf \<ge> 2 \<and> fb_data buf ! 0 = ApsCommandId_to_u8 AcTransportKey \<and>
    (fb_data buf ! 1 = WIRE_KEY_TYPE_NETWORK \<or> fb_data buf ! 1 = 0x05)"
  define c3 where "c3 \<longleftrightarrow> router \<and> d3 \<and> fb_len buf \<noteq> 0 \<and>
    ApsCommandId_from_u8 (fb_data buf ! 0) \<in> {Some AcUpdateDevice, Some AcRemoveDevice, Some AcRequestKey, Some AcVerifyKey}"
  note r = assms[unfolded settle_replay_def Let_def prod.case, folded c1_def c2_def c3_def]
  show "do_aps_security_source outcome = ax_source_address sh" "do_key_origin outcome = origin" "do_replay_duplicate outcome = dup"
    "s' = s \<or> \<not> dup \<and> hook replay \<and> s' = commit_replay_counter tc s replay"
    "dup \<or> s' = commit_replay_counter tc s replay \<or> do_deferred_application_key_replay outcome = Some replay \<or>
     do_deferred_network_key_replay outcome = Some replay \<or> do_deferred_security_indication_replay outcome = Some replay \<or>
     do_deferred_data_replay outcome = Some replay"
    using r by (cases dup; cases c1; cases c2; cases c3; cases d4; cases "hook replay"; auto)+
qed

lemma aps_decrypt_incomingD:
  assumes "aps_decrypt_incoming tc router provider s nwk_src active tc_addr frame n buf d1 d2 d3 d4 hook = Some ((Some outcome, s'), buf')"
  obtains h m source aad accepted where "n \<le> length frame" "ApsSecurityHeader_parse (drop n frame) = Some (h, m)"
    "patched_aad frame n (n + m) = Some aad" "ax_source_address (resolve_security_source nwk_src tc_addr h) = Some source"
    "try_candidates provider s source active aad (take (min (n + m) (length frame)) frame) (drop m (drop n frame))
       (resolve_security_source nwk_src tc_addr h) (aps_candidates s (Some source)) buf = (Some accepted, buf')"
    "settle_replay tc router s buf' d1 d2 d3 d4 hook (resolve_security_source nwk_src tc_addr h) accepted = (Some outcome, s')"
proof -
  have nl: "n \<le> length frame" using assms by (auto simp: aps_decrypt_incoming_def split: if_split_asm)
  obtain h m where p: "ApsSecurityHeader_parse (drop n frame) = Some (h, m)"
    using assms nl by (cases "ApsSecurityHeader_parse (drop n frame)") (auto simp: aps_decrypt_incoming_def)
  define sh where "sh = resolve_security_source nwk_src tc_addr h"
  obtain aad where aad: "patched_aad frame n (n + m) = Some aad"
    using assms nl p by (cases "patched_aad frame n (n + m)") (auto simp: aps_decrypt_incoming_def Let_def)
  have k: "\<not> (key_identifier (ax_security_control sh) \<noteq> KEY_ID_DATA_KEY \<and>
      key_identifier (ax_security_control sh) \<noteq> KEY_ID_KEY_TRANSPORT \<and> key_identifier (ax_security_control sh) \<noteq> KEY_ID_KEY_LOAD)"
    using assms nl p aad unfolding aps_decrypt_incoming_def by (auto simp: Let_def sh_def split: if_splits)
  obtain source where src: "ax_source_address sh = Some source"
    using assms nl p aad k by (cases "ax_source_address sh") (simp_all add: aps_decrypt_incoming_def Let_def flip: sh_def)
  obtain acc b where t: "try_candidates provider s source active aad (take (min (n + m) (length frame)) frame)
      (drop m (drop n frame)) sh (aps_candidates s (Some source)) buf = (acc, b)" by force
  have "(case acc of None \<Rightarrow> Some ((None, s), b) | Some accepted \<Rightarrow> Some (settle_replay tc router s b d1 d2 d3 d4 hook sh accepted, b)) =
      Some ((Some outcome, s'), buf')"
    using assms nl k unfolding aps_decrypt_incoming_def p aad option.case prod.case Let_def sh_def[symmetric] src t by simp
  then obtain accepted where "acc = Some accepted" "b = buf'" "settle_replay tc router s buf' d1 d2 d3 d4 hook sh accepted = (Some outcome, s')"
    by (cases acc) auto
  with that[OF nl p aad] src t show thesis by (simp add: sh_def)
qed

text \<open>
  C6: an accepted APS frame is genuine.  When the receive path accepts a secured frame, its bytes after the auxiliary header are
  the CCM* encryption of the delivered payload under the nonce of its source and frame counter, with the received headers as
  authenticated data, either with the security level patched in or as they came.  The key is that of one of the source's key-table
  entries, or a global key if it has none: the key itself for data, the key-transport or key-load key derived from it as the
  key identifier says, and, for a key-transport frame under a global key on a node without an active network key, also the global
  key underived, which the code accepts for stacks that do not derive it; the key-table entry reported is that one; the frame is flagged a duplicate exactly when
  its counter is not above the floor of this key; and the replay floor is committed only for a non-duplicate and only after the
  durable hook agreed, or else handed on for a later commit.
\<close>

theorem aps_accepted_is_genuine:
  assumes "\<And>k. block_cipher (provider k)" "length (fb_data buf) = 256"
    and "aps_decrypt_incoming tc router provider s nwk_src active tc_addr frame n buf d1 d2 d3 d4 hook = Some ((Some outcome, s'), buf')"
  shows "\<exists>h m source key k' aad pt replay. let sh = resolve_security_source nwk_src tc_addr h in
    ApsSecurityHeader_parse (drop n frame) = Some (h, m) \<and> ax_source_address sh = Some source \<and>
    do_aps_security_source outcome = Some source \<and> (do_key_origin outcome, key) \<in> set (aps_candidates s (Some source)) \<and>
    link_key_variant provider (key_identifier (ax_security_control sh)) active (do_key_origin outcome) key k' \<and>
    (Some aad = patched_aad frame n (n + m) \<or> aad = take (n + m) frame) \<and>
    aps_encrypt_with provider aad pt k' sh = Some (drop (n + m) frame) \<and> holds_payload buf' pt \<and>
    replay = ApsReplayCounter_from_verified (do_key_origin outcome) source key (ax_frame_counter sh) \<and>
    do_replay_duplicate outcome = (\<not> check_replay_counter s replay) \<and>
    (s' = s \<or> check_replay_counter s replay \<and> hook replay \<and> s' = commit_replay_counter tc s replay) \<and>
    (do_replay_duplicate outcome \<or> s' = commit_replay_counter tc s replay \<or>
     Some replay \<in> {do_deferred_application_key_replay outcome, do_deferred_network_key_replay outcome,
       do_deferred_security_indication_replay outcome, do_deferred_data_replay outcome})"
proof -
  from aps_decrypt_incomingD[OF assms(3)] obtain h m source aad accepted where
    p: "ApsSecurityHeader_parse (drop n frame) = Some (h, m)" and aad: "patched_aad frame n (n + m) = Some aad" and
    src: "ax_source_address (resolve_security_source nwk_src tc_addr h) = Some source" and
    t: "try_candidates provider s source active aad (take (min (n + m) (length frame)) frame) (drop m (drop n frame))
      (resolve_security_source nwk_src tc_addr h) (aps_candidates s (Some source)) buf = (Some accepted, buf')" and
    st: "settle_replay tc router s buf' d1 d2 d3 d4 hook (resolve_security_source nwk_src tc_addr h) accepted = (Some outcome, s')" .
  define sh where "sh = resolve_security_source nwk_src tc_addr h"
  obtain replay ud dup origin where acc: "accepted = (replay, ud, dup, origin)" by (metis prod_cases4)
  from try_candidatesD[OF t[unfolded acc] assms(2), folded sh_def] obtain key k' a pt where c:
    "(origin, key) \<in> set (aps_candidates s (Some source))"
    "replay = ApsReplayCounter_from_verified origin source key (ax_frame_counter sh)" "dup = (\<not> check_replay_counter s replay)"
    "link_key_variant provider (key_identifier (ax_security_control sh)) active origin key k'"
    "a \<in> {aad, take (min (n + m) (length frame)) frame}"
    "aps_decrypt_with provider a (drop m (drop n frame)) k' sh = Some pt" "holds_payload buf' pt"
    by (elim exE conjE) (rule that)
  from c(6) have e: "aps_encrypt_with provider a pt k' sh = Some (drop (n + m) frame)"
    using aps_decrypt_iff_encrypt[of provider k' a "drop (n + m) frame" sh pt, OF assms(1)] by (simp add: add.commute)
  have r: "Some a = patched_aad frame n (n + m) \<or> a = take (n + m) frame"
  proof -
    from c(5) consider "a = aad" | "a = take (min (n + m) (length frame)) frame" by blast
    then show ?thesis
    proof cases
      case 2
      then show ?thesis by (simp add: min_def)
    qed (simp add: aad)
  qed
  note s = settle_replayD[OF st[unfolded acc], folded sh_def]
  have og: "do_key_origin outcome = origin" by (rule s(2))
  have s4: "s' = s \<or> check_replay_counter s replay \<and> hook replay \<and> s' = commit_replay_counter tc s replay" using s(4) c(3) by blast
  have s5: "do_replay_duplicate outcome \<or> s' = commit_replay_counter tc s replay \<or>
     Some replay \<in> {do_deferred_application_key_replay outcome, do_deferred_network_key_replay outcome,
       do_deferred_security_indication_replay outcome, do_deferred_data_replay outcome}"
    using s(5) unfolding s(3) by (elim disjE) simp_all
  have s1: "do_aps_security_source outcome = Some source" using s(1) src by (simp add: sh_def)
  show ?thesis unfolding Let_def
    by (rule exI[of _ h], rule exI[of _ m], rule exI[of _ source], rule exI[of _ key], rule exI[of _ k'], rule exI[of _ a],
        rule exI[of _ pt], rule exI[of _ replay])
      (intro conjI p src s1 c(1)[folded og] c(2)[folded og, unfolded sh_def] c(4)[folded og, unfolded sh_def] c(7)
        e[unfolded sh_def] r s(3)[unfolded c(3)] s4 s5)
qed

section \<open>A secured frame arrives\<close>

definition ax_wf :: "ApsSecurityHeader \<Rightarrow> bool" where
  "ax_wf h \<longleftrightarrow> extended_nonce (ax_security_control h) = (ax_source_address h \<noteq> None) \<and> pred_option ieee_ok (ax_source_address h) \<and>
     (key_identifier (ax_security_control h) = KEY_ID_NETWORK_KEY) = (ax_key_seq_number h \<noteq> None)"

lemma sec_header_parse_bytes:
  assumes wf: "ax_wf h"
  shows "ApsSecurityHeader_parse (ApsSecurityHeader_bytes h @ rest) = Some (h, length (ApsSecurityHeader_bytes h))"
proof -
  let ?b1 = "opt_bytes id (ax_source_address h)" and ?b2 = "opt_bytes (\<lambda>b. [b]) (ax_key_seq_number h)"
  define D where "D = ApsSecurityHeader_bytes h @ rest"
  let ?c = "ax_frame_counter h"
  have d: "D = [ax_security_control h, ucast ?c, ucast (drop_bit 8 ?c), ucast (drop_bit 16 ?c), ucast (drop_bit 24 ?c)] @ ?b1 @ ?b2 @ rest"
    by (simp add: D_def ApsSecurityHeader_bytes_def u32_to_le_def)
  have d0: "drop 5 D = ?b1 @ ?b2 @ rest" and l: "length D = 5 + length ?b1 + length ?b2 + length rest" unfolding d by simp_all
  have f: "extended_nonce (ax_security_control h) = (ax_source_address h \<noteq> None)" "pred_option ieee_ok (ax_source_address h)"
    "(key_identifier (ax_security_control h) = KEY_ID_NETWORK_KEY) = (ax_key_seq_number h \<noteq> None)" using wf by (simp_all add: ax_wf_def)
  note r1 = read_ieee_if_append[OF d0 f(1,2)]
  note r2 = read_byte_if_append[OF r1(2) f(3)]
  have "D ! 0 = ax_security_control h" "u32_from_le (D ! 1) (D ! 2) (D ! 3) (D ! 4) = ?c" unfolding d by simp_all
  moreover have "length (ApsSecurityHeader_bytes h) = 5 + length ?b1 + length ?b2" by (simp add: ApsSecurityHeader_bytes_def)
  ultimately show ?thesis using r1(1) r2(1) l by (simp add: ApsSecurityHeader_parse_def Let_def flip: D_def)
qed

interpretation aps_aux_codec: wire_codec ApsSecurityHeader_bytes "\<lambda>d. map_option fst (ApsSecurityHeader_parse d)" ax_wf
  by unfold_locales (simp add: sec_header_parse_bytes)

lemma sec_header_serialize_eq: "ApsSecurityHeader_serialize h buf = write_at (ApsSecurityHeader_bytes h) (buf, 0)"
  unfolding ApsSecurityHeader_serialize_def ApsSecurityHeader_bytes_def opt_bytes_def
  by (simp add: write_opt_then write_at_append)

definition data_aux_header :: "IeeeAddress \<Rightarrow> u32 \<Rightarrow> ApsSecurityHeader" where
  "data_aux_header src fc = \<lparr>ax_security_control = APS_DEFAULT_EXT_NONCE, ax_frame_counter = fc, ax_source_address = Some src,
     ax_key_seq_number = None\<rparr>"

lemma ext_nonce_control: "APS_DEFAULT_EXT_NONCE = 0x25"
  by (simp add: APS_DEFAULT_EXT_NONCE_def SEC_LEVEL_ENC_MIC_32_def KEY_ID_DATA_KEY_def)

lemma data_aux:
  assumes "ieee_ok src"
  shows "ax_wf (data_aux_header src fc)" "length (ApsSecurityHeader_bytes (data_aux_header src fc)) = 13"
    "ApsSecurityHeader_bytes (data_aux_header src fc) ! 0 = 0x25" "key_identifier (ax_security_control (data_aux_header src fc)) = KEY_ID_DATA_KEY"
  using assms
  by (simp_all add: ax_wf_def data_aux_header_def ext_nonce_control extended_nonce_def key_identifier_def KEY_ID_NETWORK_KEY_def
      KEY_ID_DATA_KEY_def ApsSecurityHeader_bytes_def opt_bytes_def ieee_ok_def)

lemma level_patch: "((0x25 :: u8) AND NOT 0x07) OR SEC_LEVEL_ENC_MIC_32 = 0x25"
  by (simp add: SEC_LEVEL_ENC_MIC_32_def)

lemma assemble_unfold:
  fixes fc :: u32
  assumes a: "ieee_ok src" and hl: "length header \<le> 115"
  defines "A \<equiv> header @ ApsSecurityHeader_bytes (data_aux_header src fc)"
  shows "assemble_secured_frame provider header payload key (data_aux_header src fc) =
      (if length A > 64 then None
       else case aps_encrypt_with provider A payload key (data_aux_header src fc) of
              None \<Rightarrow> Some None
            | Some enc \<Rightarrow> if length A + length enc > 128 then Some None else Some (Some (A @ enc)))"
proof -
  let ?b = "ApsSecurityHeader_bytes (data_aux_header src fc)"
  have lb: "length ?b = 13" by (rule data_aux(2)[OF a])
  let ?F = "header @ ?b @ replicate (128 - length header - 13) (0 :: u8)"
  have ser: "ApsSecurityHeader_serialize (data_aux_header src fc) (replicate (128 - length header) 0) =
      Some (?b @ replicate (128 - length header - 13) 0, 13)"
    using hl lb by (simp add: sec_header_serialize_eq write_at_start)
  have t: "take (length header + 13) ?F = A" using lb by (simp add: A_def)
  have at: "A ! length header = 0x25" using data_aux(3)[OF a] lb by (simp add: A_def nth_append)
  have p: "A[length header := (A ! length header AND NOT 0x07) OR SEC_LEVEL_ENC_MIC_32] = A"
    unfolding at level_patch by (simp flip: at)
  have l: "length header + 13 = length A" "length ?F = 128" using lb hl by (simp_all add: A_def)
  have nh: "\<not> 128 \<le> length header" using hl by simp
  show ?thesis using nh unfolding assemble_secured_frame_def ser option.case prod.case Let_def t p unfolding l by simp
qed

lemma assemble_eq:
  assumes a: "ieee_ok src" and r: "assemble_secured_frame provider header payload key (data_aux_header src fc) = Some (Some frame)"
  defines "A \<equiv> header @ ApsSecurityHeader_bytes (data_aux_header src fc)"
  shows "length A \<le> 64" "\<exists>enc. aps_encrypt_with provider A payload key (data_aux_header src fc) = Some enc \<and> frame = A @ enc"
proof -
  have "length header < 128" using r by (auto simp: assemble_secured_frame_def split: if_splits)
  then have "length header \<le> 115"
    using r data_aux(2)[OF a, of fc] by (auto simp: assemble_secured_frame_def sec_header_serialize_eq write_at_start split: if_splits)
  note eq = assemble_unfold[OF a this, of provider payload key fc, folded A_def]
  show "length A \<le> 64" using r unfolding eq by (auto split: if_splits)
  show "\<exists>enc. aps_encrypt_with provider A payload key (data_aux_header src fc) = Some enc \<and> frame = A @ enc"
    using r unfolding eq by (auto split: if_splits option.splits)
qed

lemma single_candidate:
  assumes "key_pairs_for s src = [(kt, key)]"
  shows "aps_candidates s (Some src) = [(KeyPair src kt, key)]"
  using assms by (simp add: aps_candidates_def)

lemma patched_aad_same:
  assumes "n < length A" "length A \<le> 64" "A ! n = 0x25"
  shows "patched_aad (A @ enc) n (length A) = Some A"
proof -
  have "A[n := A ! n] = A" by simp
  with assms show ?thesis
    using level_patch by (simp add: patched_aad_def Let_def min_def nth_append list_update_append)
qed

lemma secured_frame_delivered:
  assumes bc: "\<And>k. block_cipher (provider k)" and src: "ieee_ok src"
    and sec: "secure_with_origin provider l origin src header payload = Some (Some frame, l')"
    and key: "key_for_origin (al_security l) origin = Some key" and peer: "key_pairs_for s src = [(kt, key)]"
    and buf: "length (fb_data buf) = 256"
  shows "\<exists>fc outcome s' buf'. fst (next_frame_counter_for l origin) = Some fc \<and>
    aps_decrypt_incoming tc router provider s nwk_src active tc_addr frame (length header) buf False False False False (\<lambda>_. True) =
      Some ((Some outcome, s'), buf') \<and>
    holds_payload buf' payload \<and> do_key_origin outcome = KeyPair src kt \<and>
    do_replay_duplicate outcome = (\<not> aps_check_frame_counter s src kt fc) \<and>
    s' = (if aps_check_frame_counter s src kt fc then aps_commit_frame_counter tc s src kt fc else s)"
proof -
  obtain ofc l1 where nf: "next_frame_counter_for l origin = (ofc, l1)" by force
  obtain fc where fc: "ofc = Some fc" using sec key nf by (cases ofc) (auto simp: secure_with_origin_def)
  let ?sh = "data_aux_header src fc"
  let ?A = "header @ ApsSecurityHeader_bytes ?sh"
  have asm: "assemble_secured_frame provider header payload key ?sh = Some (Some frame)"
    using sec key nf fc by (auto simp: secure_with_origin_def data_aux_header_def)
  from assemble_eq[OF src asm] obtain enc where e: "aps_encrypt_with provider ?A payload key ?sh = Some enc" "frame = ?A @ enc"
    and l64: "length ?A \<le> 64" by blast
  note da = data_aux[OF src, of fc]
  have at: "?A ! length header = 0x25" using da(2,3) by (simp add: nth_append)
  have pa: "patched_aad frame (length header) (length header + 13) = Some ?A"
    using patched_aad_same[OF _ l64 at, of enc] da(2) e(2) by simp
  have ps: "ApsSecurityHeader_parse (drop (length header) frame) = Some (?sh, 13)"
    using sec_header_parse_bytes[OF da(1), of enc] da(2) e(2) by simp
  have rs: "resolve_security_source nwk_src tc_addr ?sh = ?sh" by (simp add: resolve_security_source_def data_aux_header_def)
  have dec: "aps_decrypt_with provider ?A enc key ?sh = Some payload" 
    using aps_decrypt_iff_encrypt[of provider key ?A enc ?sh payload, OF bc] e(1) by simp
  obtain buf' where bf: "decrypt_into provider ?A enc key ?sh buf = (True, buf')" "holds_payload buf' payload"
  proof -
    obtain ok b where d: "decrypt_into provider ?A enc key ?sh buf = (ok, b)" by force
    from decrypt_intoD[OF d buf] dec d that show ?thesis by (cases ok) auto
  qed
  let ?r = "ApsReplayCounter_from_verified (KeyPair src kt) src key fc"
  have kid: "KEY_ID_DATA_KEY \<noteq> KEY_ID_KEY_TRANSPORT" "KEY_ID_DATA_KEY \<noteq> KEY_ID_KEY_LOAD"
    by (simp_all add: KEY_ID_DATA_KEY_def KEY_ID_KEY_TRANSPORT_def KEY_ID_KEY_LOAD_def)
  have sa: "ax_source_address ?sh = Some src" "ax_frame_counter ?sh = fc" by (simp_all add: data_aux_header_def)
  have tr: "\<exists>ud. try_candidates provider s src active ?A raw enc ?sh [(KeyPair src kt, key)] buf =
      (Some (?r, ud, \<not> check_replay_counter s ?r, KeyPair src kt), buf')" for raw
    using bf(1) da(4) kid by (simp add: Let_def decrypt_with_link_key_def sa)
  have ck: "check_replay_counter s ?r = aps_check_frame_counter s src kt fc"
    "commit_replay_counter tc s ?r = aps_commit_frame_counter tc s src kt fc"
    by (simp_all add: check_replay_counter_def commit_replay_counter_def ApsReplayCounter_from_verified_def)
  have dr: "drop 13 (drop (length header) frame) = enc" using da(2) e(2) by simp
  from tr[of "take (min (length header + 13) (length frame)) frame"] obtain ud where
    tr': "try_candidates provider s src active ?A (take (min (length header + 13) (length frame)) frame) enc ?sh [(KeyPair src kt, key)] buf =
      (Some (?r, ud, \<not> check_replay_counter s ?r, KeyPair src kt), buf')" by blast
  have "\<not> length header > length frame" using e(2) by simp
  then have "aps_decrypt_incoming tc router provider s nwk_src active tc_addr frame (length header) buf False False False False (\<lambda>_. True) =
      Some (settle_replay tc router s buf' False False False False (\<lambda>_. True) ?sh (?r, ud, \<not> check_replay_counter s ?r, KeyPair src kt), buf')"
    using ps pa rs tr' dr da(4) kid single_candidate[OF peer] unfolding aps_decrypt_incoming_def
    by (simp add: Let_def sa del: try_candidates.simps)
  moreover obtain outcome where "settle_replay tc router s buf' False False False False (\<lambda>_. True) ?sh
      (?r, ud, \<not> check_replay_counter s ?r, KeyPair src kt) =
      (Some outcome, if aps_check_frame_counter s src kt fc then aps_commit_frame_counter tc s src kt fc else s)"
    "do_key_origin outcome = KeyPair src kt" "do_replay_duplicate outcome = (\<not> aps_check_frame_counter s src kt fc)"
    using ck by (cases "aps_check_frame_counter s src kt fc") (simp_all add: settle_replay_def Let_def)
  ultimately show ?thesis using nf fc bf(2) by auto
qed

text \<open>
  C13: a secured APS frame reaches its peer.  A frame secured with the key of \<open>origin\<close> and the next frame counter of that
  key, received by a device whose key table has this key as the only key of the sender, is accepted and its payload
  delivered; it is a duplicate exactly when the receiver's floor for that key is not below its
  counter, and otherwise the floor is advanced to it.
\<close>

theorem aps_secured_frame_arrives:
  assumes bc: "\<And>k. block_cipher (provider k)" and src: "ieee_ok src"
    and sec: "secure_with_origin provider l origin src header payload = Some (Some frame, l')"
    and key: "key_for_origin (al_security l) origin = Some key" and peer: "key_pairs_for s src = [(kt, key)]"
    and buf: "length (fb_data buf) = 256"
  shows "\<exists>fc outcome s' buf'. fst (next_frame_counter_for l origin) = Some fc \<and>
    aps_decrypt_incoming tc router provider s nwk_src active tc_addr frame (length header) buf False False False False (\<lambda>_. True) =
      Some ((Some outcome, s'), buf') \<and>
    holds_payload buf' payload \<and> do_key_origin outcome = KeyPair src kt \<and>
    do_replay_duplicate outcome = (\<not> aps_check_frame_counter s src kt fc) \<and>
    s' = (if aps_check_frame_counter s src kt fc then aps_commit_frame_counter tc s src kt fc else s)"
  by (rule secured_frame_delivered[OF assms])

definition example_key_entry :: "IeeeAddress \<Rightarrow> ApsLinkKeyEntry" where
  "example_key_entry partner = \<lparr>lk_partner_address = partner, lk_key = replicate 16 1, lk_key_type = ApplicationLinkKey,
     lk_outgoing_frame_counter = 5, lk_outgoing_frame_counter_limit = 100, lk_incoming_frame_counter = 4,
     lk_incoming_frame_counter_valid = True\<rparr>"

definition example_security :: "IeeeAddress \<Rightarrow> ApsSecurity" where
  "example_security partner = ApsSecurity_new\<lparr>as_key_table := [example_key_entry partner]\<rparr>"

definition example_aps_layer :: ApsLayer where
  "example_aps_layer = \<lparr>al_nwk = example_layer, al_security = example_security (replicate 8 2), al_trust_center_address = replicate 8 0\<rparr>"

lemma example_secures:
  "\<exists>frame l'. secure_with_origin example_provider example_aps_layer (KeyPair (replicate 8 2) ApplicationLinkKey) (replicate 8 1)
     [0x20, 0x09] [1, 2, 3] = Some (Some frame, l')"
proof -
  have src: "ieee_ok (replicate 8 1)" by (simp add: ieee_ok_def)
  let ?A = "[0x20, 0x09] @ ApsSecurityHeader_bytes (data_aux_header (replicate 8 1) 5)"
  have l: "length ?A = 15" using data_aux(2)[OF src] by simp
  from ccm_star_encrypt_total[OF example_cipher(2,1)[of "replicate 16 1"], of "[1, 2, 3]" ?A "aps_build_nonce (data_aux_header (replicate 8 1) 5)"]
  obtain ct where ct: "aps_encrypt_with example_provider ?A [1, 2, 3] (replicate 16 1) (data_aux_header (replicate 8 1) 5) = Some ct" "length ct = 7"
    using l by (auto simp: aps_encrypt_with_def CCM_STAR_MAX_PLAINTEXT_LEN_def CCM_STAR_MAX_AAD_LEN_def CCM_STAR_MIC_LEN_def)
  have asm: "assemble_secured_frame example_provider [0x20, 0x09] [1, 2, 3] (replicate 16 1) (data_aux_header (replicate 8 1) 5) = Some (Some (?A @ ct))"
    using assemble_unfold[OF src, of "[0x20, 0x09]" example_provider "[1, 2, 3]" "replicate 16 1" 5] ct l by simp
  have fk: "find_key (example_security (replicate 8 2)) (replicate 8 2) ApplicationLinkKey = Some (example_key_entry (replicate 8 2))"
    by (simp add: find_key_def key_index_def example_security_def example_key_entry_def ApsSecurity_new_def)
  obtain l1 where nf: "next_frame_counter_for example_aps_layer (KeyPair (replicate 8 2) ApplicationLinkKey) = (Some 5, l1)"
    using fk by (simp add: next_frame_counter_for_def aps_next_frame_counter_def example_aps_layer_def example_key_entry_def)
  have "key_for_origin (al_security example_aps_layer) (KeyPair (replicate 8 2) ApplicationLinkKey) = Some (replicate 16 1)"
    using fk by (simp add: key_for_origin_def example_aps_layer_def example_key_entry_def)
  with nf asm show ?thesis by (simp add: secure_with_origin_def data_aux_header_def)
qed

lemma example_pairs: "key_pairs_for (example_security (replicate 8 1)) (replicate 8 1) = [(ApplicationLinkKey, replicate 16 1)]"
  by (simp add: key_pairs_for_def find_key_def key_index_def example_security_def example_key_entry_def ApsSecurity_new_def
      vec_push_ignore_def MAX_KEY_PAIRS_PER_PARTNER_def)

lemma example_sender_key:
  "key_for_origin (al_security example_aps_layer) (KeyPair (replicate 8 2) ApplicationLinkKey) = Some (replicate 16 1)"
  by (simp add: key_for_origin_def find_key_def key_index_def example_aps_layer_def example_security_def example_key_entry_def
      ApsSecurity_new_def)

theorem aps_secured_frame_arrives_witness:
  "\<exists>frame l' outcome s' buf'. secure_with_origin example_provider example_aps_layer (KeyPair (replicate 8 2) ApplicationLinkKey)
     (replicate 8 1) [0x20, 0x09] [1, 2, 3] = Some (Some frame, l') \<and>
   aps_decrypt_incoming False True example_provider (example_security (replicate 8 1)) None True (replicate 8 0) frame 2
     ApsFrameBuffer_new False False False False (\<lambda>_. True) = Some ((Some outcome, s'), buf') \<and> holds_payload buf' [1, 2, 3]"
proof -
  from example_secures obtain frame l' where f: "secure_with_origin example_provider example_aps_layer
    (KeyPair (replicate 8 2) ApplicationLinkKey) (replicate 8 1) [0x20, 0x09] [1, 2, 3] = Some (Some frame, l')" by blast
  have two: "length [0x20, 0x09 :: u8] = 2" by simp
  have "ieee_ok (replicate 8 1)" "length (fb_data ApsFrameBuffer_new) = 256"
    by (simp_all add: ieee_ok_def ApsFrameBuffer_new_def APS_FRAME_BUFFER_LEN_def)
  from aps_secured_frame_arrives[OF example_cipher(1) this(1) f example_sender_key example_pairs this(2), of False True None True "replicate 8 0",
      unfolded two]
  have "\<exists>outcome s' buf'. aps_decrypt_incoming False True example_provider (example_security (replicate 8 1)) None True (replicate 8 0) frame 2
     ApsFrameBuffer_new False False False False (\<lambda>_. True) = Some ((Some outcome, s'), buf') \<and> holds_payload buf' [1, 2, 3]" by blast
  with f show ?thesis by blast
qed

theorem aps_accepted_is_genuine_witness:
  "\<exists>frame outcome s' buf' h m source key k' aad pt.
     aps_decrypt_incoming False True example_provider (example_security (replicate 8 1)) None True (replicate 8 0) frame 2
       ApsFrameBuffer_new False False False False (\<lambda>_. True) = Some ((Some outcome, s'), buf') \<and>
     do_key_origin outcome = KeyPair (replicate 8 1) ApplicationLinkKey \<and> ApsSecurityHeader_parse (drop 2 frame) = Some (h, m) \<and>
     (KeyPair (replicate 8 1) ApplicationLinkKey, key) \<in> set (aps_candidates (example_security (replicate 8 1)) (Some source)) \<and>
     link_key_variant example_provider (key_identifier (ax_security_control (resolve_security_source None (replicate 8 0) h))) True
       (KeyPair (replicate 8 1) ApplicationLinkKey) key k' \<and>
     aps_encrypt_with example_provider aad pt k' (resolve_security_source None (replicate 8 0) h) = Some (drop (2 + m) frame) \<and>
     holds_payload buf' pt"
proof -
  from example_secures obtain frame l' where f: "secure_with_origin example_provider example_aps_layer
    (KeyPair (replicate 8 2) ApplicationLinkKey) (replicate 8 1) [0x20, 0x09] [1, 2, 3] = Some (Some frame, l')" by blast
  have two: "length [0x20, 0x09 :: u8] = 2" by simp
  have src: "ieee_ok (replicate 8 1)" and b: "length (fb_data ApsFrameBuffer_new) = 256"
    by (simp_all add: ieee_ok_def ApsFrameBuffer_new_def APS_FRAME_BUFFER_LEN_def)
  from secured_frame_delivered[OF example_cipher(1) src f example_sender_key example_pairs b, of False True None True "replicate 8 0",
      unfolded two]
  obtain outcome s' buf' where d: "aps_decrypt_incoming False True example_provider (example_security (replicate 8 1)) None True (replicate 8 0)
      frame 2 ApsFrameBuffer_new False False False False (\<lambda>_. True) = Some ((Some outcome, s'), buf')"
    "do_key_origin outcome = KeyPair (replicate 8 1) ApplicationLinkKey" by blast
  from aps_accepted_is_genuine[OF example_cipher(1) b d(1)] obtain h m source key k' aad pt where g:
    "ApsSecurityHeader_parse (drop 2 frame) = Some (h, m)"
    "(do_key_origin outcome, key) \<in> set (aps_candidates (example_security (replicate 8 1)) (Some source))"
    "link_key_variant example_provider (key_identifier (ax_security_control (resolve_security_source None (replicate 8 0) h))) True
       (do_key_origin outcome) key k'"
    "aps_encrypt_with example_provider aad pt k' (resolve_security_source None (replicate 8 0) h) = Some (drop (2 + m) frame)"
    "holds_payload buf' pt"
    unfolding Let_def by blast
  from d g(1) g(2-4)[unfolded d(2)] g(5) show ?thesis by blast
qed

end
