(* ===== verification/Fragment_Reassembly.thy ===== *)
theory Fragment_Reassembly
  imports Aps_Frames
begin

text \<open>
  \<^verbatim>\<open>zigbee-aps/src/fragment.rs\<close>: the receive side of APS fragmentation.  A session stores the blocks of one transaction in
  arrival order in a byte buffer with an offset and a length per block number, tracks them in a bit set and a
  receive window, and reads them out in block order.  Builds differ in the number of sessions (four, one or
  none), which is the length of the list of entries; \<^term>\<open>None\<close> of the read-out is a panic.
\<close>

section \<open>Data\<close>

definition APS_MAX_FRAGMENTED_ASDU :: nat where "APS_MAX_FRAGMENTED_ASDU = 256"
definition APS_MAX_FRAGMENT_BLOCKS :: u8 where "APS_MAX_FRAGMENT_BLOCKS = 16"
definition APS_MAX_WINDOW_SIZE :: u8 where "APS_MAX_WINDOW_SIZE = 8"
definition APSC_MAX_FRAME_RETRIES :: u8 where "APSC_MAX_FRAME_RETRIES = 3"
definition APS_ACK_WAIT_DURATION_US :: u32 where "APS_ACK_WAIT_DURATION_US = 1500000"
definition APS_FRAGMENT_RX_TIMEOUT_US :: u32 where
  "APS_FRAGMENT_RX_TIMEOUT_US = APS_ACK_WAIT_DURATION_US * (1 + ucast APSC_MAX_FRAME_RETRIES)"
definition MAX_BLOCKS :: nat where "MAX_BLOCKS = unat APS_MAX_FRAGMENT_BLOCKS"

definition clamp_window_size :: "u8 \<Rightarrow> u8" where
  "clamp_window_size window_size =
     (if window_size = 0 then 1 else if window_size > APS_MAX_WINDOW_SIZE then APS_MAX_WINDOW_SIZE else window_size)"

record FragmentAck =
  fa_fragmentation :: u8
  fa_window_start :: u8
  fa_bitfield :: u8

datatype FragmentOutcome = Pending "FragmentAck option" bool | Complete FragmentAck | Rejected

record ReassemblyEntry =
  re_active :: bool
  re_delivered :: bool
  re_src_addr :: u16
  re_src_ieee :: "IeeeAddress option"
  re_aps_counter :: u8
  re_total_blocks :: u8
  re_received :: u16
  re_window_start :: u8
  re_block_offset :: "u16 list"
  re_block_len :: "u8 list"
  re_data :: "u8 list"
  re_data_len :: u16
  re_last_progress_us :: u32

section \<open>Sessions\<close>

definition ReassemblyEntry_empty :: ReassemblyEntry where
  "ReassemblyEntry_empty = \<lparr>re_active = False, re_delivered = False, re_src_addr = 0, re_src_ieee = None, re_aps_counter = 0,
     re_total_blocks = 0, re_received = 0, re_window_start = 0, re_block_offset = replicate MAX_BLOCKS 0,
     re_block_len = replicate MAX_BLOCKS 0, re_data = replicate APS_MAX_FRAGMENTED_ASDU 0, re_data_len = 0,
     re_last_progress_us = 0\<rparr>"

definition re_matches :: "ReassemblyEntry \<Rightarrow> u16 \<Rightarrow> IeeeAddress option \<Rightarrow> u8 \<Rightarrow> bool" where
  "re_matches e src_addr src_ieee aps_counter \<longleftrightarrow>
     re_active e \<and> re_src_addr e = src_addr \<and> re_aps_counter e = aps_counter \<and>
     (case (re_src_ieee e, src_ieee) of (Some known, Some offered) \<Rightarrow> known = offered | _ \<Rightarrow> True)"

definition re_has :: "ReassemblyEntry \<Rightarrow> u8 \<Rightarrow> bool" where
  "re_has e block \<longleftrightarrow> unat block < MAX_BLOCKS \<and> re_received e AND push_bit (unat block) 1 \<noteq> 0"

definition window_end :: "ReassemblyEntry \<Rightarrow> u8 \<Rightarrow> u8" where
  "window_end e window_size =
     (let end_off = sat_add (re_window_start e) window_size
      in if re_total_blocks e \<noteq> 0 then min end_off (re_total_blocks e) else min end_off APS_MAX_FRAGMENT_BLOCKS)"

text \<open>\<^verbatim>\<open>(a..b).all(P)\<close> over byte values.\<close>

definition range_all :: "u8 \<Rightarrow> u8 \<Rightarrow> (u8 \<Rightarrow> bool) \<Rightarrow> bool" where
  "range_all a b P = list_all (\<lambda>n. P (of_nat n)) [unat a..<unat b]"

definition window_complete :: "ReassemblyEntry \<Rightarrow> u8 \<Rightarrow> bool" where
  "window_complete e window_size \<longleftrightarrow>
     re_total_blocks e \<noteq> 0 \<and> range_all (re_window_start e) (window_end e window_size) (re_has e)"

definition is_complete :: "ReassemblyEntry \<Rightarrow> bool" where
  "is_complete e \<longleftrightarrow> re_total_blocks e \<noteq> 0 \<and> range_all 0 (re_total_blocks e) (re_has e)"

definition re_ack :: "ReassemblyEntry \<Rightarrow> u8 \<Rightarrow> u8 \<Rightarrow> FragmentAck" where
  "re_ack e fragmentation window_size =
     \<lparr>fa_fragmentation = fragmentation, fa_window_start = re_window_start e,
      fa_bitfield = fold (\<lambda>bit bitfield.
        let block = ucast (re_window_start e) + of_nat bit :: u16
        in if of_nat bit \<ge> window_size \<or> re_total_blocks e \<noteq> 0 \<and> block \<ge> ucast (re_total_blocks e) \<or>
              block < of_nat MAX_BLOCKS \<and> re_has e (ucast block)
           then bitfield OR push_bit bit 1 else bitfield) [0..<unat APS_MAX_WINDOW_SIZE] 0\<rparr>"

definition re_reset :: "ReassemblyEntry \<Rightarrow> ReassemblyEntry" where
  "re_reset e = e\<lparr>re_active := False, re_delivered := False, re_received := 0, re_total_blocks := 0,
     re_window_start := 0, re_data_len := 0, re_data := replicate (length (re_data e)) 0\<rparr>"

section \<open>Offering a block\<close>

type_synonym FragmentReassembly = "ReassemblyEntry list"

definition FragmentReassembly_new :: "nat \<Rightarrow> FragmentReassembly" where
  "FragmentReassembly_new sessions = replicate sessions ReassemblyEntry_empty"

definition active_sessions :: "FragmentReassembly \<Rightarrow> nat" where
  "active_sessions es = length (filter re_active es)"

text \<open>The storing of a block that lies in the receive window, and the outcome.\<close>

definition store_block :: "u32 \<Rightarrow> u8 \<Rightarrow> u8 \<Rightarrow> u8 \<Rightarrow> u8 list \<Rightarrow> ReassemblyEntry \<Rightarrow> FragmentOutcome \<times> ReassemblyEntry" where
  "store_block now_us window_size fragmentation block payload e =
     (let offset = unat (re_data_len e); end_off = offset + length payload
      in if \<not> re_has e block \<and> end_off > length (re_data e) then (Rejected, re_reset e)
         else let stored = \<not> re_has e block;
                  e = (if stored
                       then e\<lparr>re_data := take offset (re_data e) @ payload @ drop end_off (re_data e),
                              re_block_offset := (re_block_offset e)[unat block := of_nat offset],
                              re_block_len := (re_block_len e)[unat block := of_nat (length payload)],
                              re_data_len := of_nat end_off,
                              re_received := re_received e OR push_bit (unat block) 1,
                              re_last_progress_us := now_us\<rparr>
                       else e)
              in if is_complete e then (Complete (re_ack e fragmentation window_size), e)
                 else (Pending (if range_all (sat_add block 1) (window_end e window_size) (re_has e)
                                then Some (re_ack e fragmentation window_size) else None) stored, e))"

definition window_block :: "u32 \<Rightarrow> u8 \<Rightarrow> u8 \<Rightarrow> u8 \<Rightarrow> u8 list \<Rightarrow> ReassemblyEntry \<Rightarrow> FragmentOutcome \<times> ReassemblyEntry" where
  "window_block now_us window_size fragmentation block payload e =
     (if block < re_window_start e then (Pending None False, e)
      else if unat block \<ge> unat (re_window_start e) + unat window_size
      then if \<not> window_complete e window_size then (Pending None False, e)
           else let next_start = sat_add (re_window_start e) window_size
                in if unat block \<ge> unat next_start + unat window_size then (Pending None False, e)
                   else store_block now_us window_size fragmentation block payload
                          (e\<lparr>re_window_start := next_start, re_last_progress_us := now_us\<rparr>)
      else store_block now_us window_size fragmentation block payload e)"

text \<open>What happens to the session once it is found or opened.\<close>

definition session_block ::
    "u32 \<Rightarrow> u8 \<Rightarrow> IeeeAddress option \<Rightarrow> u8 \<Rightarrow> u8 \<Rightarrow> u8 option \<Rightarrow> u8 list \<Rightarrow> ReassemblyEntry \<Rightarrow> FragmentOutcome \<times> ReassemblyEntry" where
  "session_block now_us window_size src_ieee fragmentation block tot payload e =
     (if re_delivered e then (Pending None False, e)
      else let e = (if re_src_ieee e = None then e\<lparr>re_src_ieee := src_ieee\<rparr> else e);
               checked = (case tot of
                  None \<Rightarrow> Inr e
                | Some t \<Rightarrow>
                    if re_total_blocks e = 0
                    then if drop_bit (unat t) (ucast (re_received e) :: u32) \<noteq> 0 then Inl (re_reset e)
                         else Inr (e\<lparr>re_total_blocks := t\<rparr>)
                    else if re_total_blocks e \<noteq> t then Inl e else Inr e)
           in case checked of
                Inl e \<Rightarrow> (Rejected, e)
              | Inr e \<Rightarrow>
                  if re_total_blocks e \<noteq> 0 \<and> block \<ge> re_total_blocks e then (Rejected, e)
                  else window_block now_us window_size fragmentation block payload e)"

definition open_session :: "u32 \<Rightarrow> u16 \<Rightarrow> IeeeAddress option \<Rightarrow> u8 \<Rightarrow> ReassemblyEntry \<Rightarrow> ReassemblyEntry" where
  "open_session now_us src_addr src_ieee aps_counter e =
     (re_reset e)\<lparr>re_active := True, re_src_addr := src_addr, re_src_ieee := src_ieee,
       re_aps_counter := aps_counter, re_last_progress_us := now_us\<rparr>"

definition insert_block_inner ::
    "FragmentReassembly \<Rightarrow> u32 \<Rightarrow> u8 \<Rightarrow> u16 \<Rightarrow> IeeeAddress option \<Rightarrow> u8 \<Rightarrow> u8 \<Rightarrow> u8 \<Rightarrow> u8 list \<Rightarrow> FragmentOutcome \<times> FragmentReassembly" where
  "insert_block_inner es now_us window_size src_addr src_ieee aps_counter fragmentation block_field payload =
     (if es = [] then (Rejected, es)
      else let window_size = clamp_window_size window_size;
               kind = (if fragmentation = FRAG_FIRST then Some (0, Some block_field)
                       else if fragmentation = FRAG_SUBSEQUENT then Some (block_field, None) else None)
           in case kind of
                None \<Rightarrow> (Rejected, es)
              | Some (block, tot) \<Rightarrow>
                  if tot = Some 0 \<or> (case tot of Some t \<Rightarrow> t > APS_MAX_FRAGMENT_BLOCKS | None \<Rightarrow> False)
                  then (Rejected, es)
                  else if fragmentation = FRAG_SUBSEQUENT \<and> block = 0 \<or> block \<ge> APS_MAX_FRAGMENT_BLOCKS
                  then (Rejected, es)
                  else if length payload > 255 then (Rejected, es)
                  else case position (\<lambda>e. re_matches e src_addr src_ieee aps_counter) es of
                         Some idx \<Rightarrow>
                           (case session_block now_us window_size src_ieee fragmentation block tot payload (es ! idx) of
                              (r, e) \<Rightarrow> (r, es[idx := e]))
                       | None \<Rightarrow>
                           (case position (\<lambda>e. \<not> re_active e) es of
                              None \<Rightarrow> (Rejected, es)
                            | Some idx \<Rightarrow>
                                (case session_block now_us window_size src_ieee fragmentation block tot payload
                                        (open_session now_us src_addr src_ieee aps_counter (es ! idx)) of
                                   (r, e) \<Rightarrow> (r, es[idx := e]))))"

definition insert_block ::
    "FragmentReassembly \<Rightarrow> u32 \<Rightarrow> u8 \<Rightarrow> u16 \<Rightarrow> IeeeAddress option \<Rightarrow> u8 \<Rightarrow> u8 \<Rightarrow> u8 \<Rightarrow> u8 list \<Rightarrow> FragmentOutcome \<times> FragmentReassembly" where
  "insert_block es now_us window_size src_addr src_ieee aps_counter fragmentation block_field payload =
     (case insert_block_inner es now_us window_size src_addr src_ieee aps_counter fragmentation block_field payload of
        (outcome, es) \<Rightarrow>
          (outcome, if outcome = Rejected then map_if (\<lambda>e. re_active e \<and> re_received e = 0) re_reset es else es))"

section \<open>Reading out and housekeeping\<close>

fun copy_blocks :: "ReassemblyEntry \<Rightarrow> nat list \<Rightarrow> u8 list \<times> nat \<Rightarrow> (u8 list \<times> nat) option" where
  "copy_blocks e [] c = Some c"
| "copy_blocks e (b # bs) c =
     (slice (unat (re_block_offset e ! b)) (unat (re_block_len e ! b)) (re_data e) \<bind> (\<lambda>s. write_at s c))
       \<bind> copy_blocks e bs"

definition take_reassembled ::
    "FragmentReassembly \<Rightarrow> u16 \<Rightarrow> IeeeAddress option \<Rightarrow> u8 \<Rightarrow> u8 list \<Rightarrow> ((u8 list \<times> nat) option \<times> FragmentReassembly) option" where
  "take_reassembled es src_addr src_ieee aps_counter out =
     (case position (\<lambda>e. re_matches e src_addr src_ieee aps_counter \<and> \<not> re_delivered e) es of
        None \<Rightarrow> Some (None, es)
      | Some idx \<Rightarrow>
          let e = es ! idx
          in if \<not> is_complete e \<or> unat (re_data_len e) > length out then Some (None, es)
             else map_option (\<lambda>c. (Some c, es[idx := e\<lparr>re_delivered := True\<rparr>]))
                    (copy_blocks e [0..<unat (re_total_blocks e)] (out, 0)))"

definition finalize_delivered :: "FragmentReassembly \<Rightarrow> FragmentReassembly" where
  "finalize_delivered es = map_if (\<lambda>e. re_active e \<and> re_delivered e) re_reset es"

definition rollback_entry :: "u8 \<Rightarrow> ReassemblyEntry \<Rightarrow> ReassemblyEntry" where
  "rollback_entry block e =
     (let e = e\<lparr>re_delivered := False\<rparr>;
          e = (if re_has e block
               then let e = e\<lparr>re_received := re_received e AND NOT (push_bit (unat block) 1)\<rparr>;
                        offset = re_block_offset e ! unat block;
                        len = ucast (re_block_len e ! unat block)
                    in if offset + len = re_data_len e then e\<lparr>re_data_len := offset\<rparr> else e
               else e)
      in if re_received e = 0 then re_reset e else e)"

definition rollback_block :: "FragmentReassembly \<Rightarrow> u16 \<Rightarrow> u8 \<Rightarrow> u8 \<Rightarrow> FragmentReassembly" where
  "rollback_block es src_addr aps_counter block =
     (if unat block \<ge> MAX_BLOCKS then es
      else update_first (\<lambda>e. re_active e \<and> re_src_addr e = src_addr \<and> re_aps_counter e = aps_counter)
             (rollback_entry block) es)"

definition complete_entry :: "FragmentReassembly \<Rightarrow> u16 \<Rightarrow> u8 \<Rightarrow> FragmentReassembly" where
  "complete_entry es src_addr aps_counter =
     update_first (\<lambda>e. re_active e \<and> re_src_addr e = src_addr \<and> re_aps_counter e = aps_counter) re_reset es"

definition FragmentReassembly_expire :: "FragmentReassembly \<Rightarrow> u32 \<Rightarrow> FragmentReassembly" where
  "FragmentReassembly_expire es now_us =
     map_if (\<lambda>e. re_active e \<and> \<not> re_delivered e \<and> now_us - re_last_progress_us e \<ge> APS_FRAGMENT_RX_TIMEOUT_US) re_reset es"

section \<open>Blocks of a session\<close>

abbreviation got :: "ReassemblyEntry \<Rightarrow> nat \<Rightarrow> bool" where
  "got e b \<equiv> bit (re_received e) b"

abbreviation off :: "ReassemblyEntry \<Rightarrow> nat \<Rightarrow> nat" where
  "off e b \<equiv> unat (re_block_offset e ! b)"

abbreviation len :: "ReassemblyEntry \<Rightarrow> nat \<Rightarrow> nat" where
  "len e b \<equiv> unat (re_block_len e ! b)"

definition re_block :: "ReassemblyEntry \<Rightarrow> nat \<Rightarrow> u8 list" where
  "re_block e b = take (len e b) (drop (off e b) (re_data e))"

text \<open>
  The storage invariant: every stored block lies in the buffer, non-empty ones below the fill mark and apart from
  each other, and together they are no longer than what is filled.
\<close>

definition re_wf :: "ReassemblyEntry \<Rightarrow> bool" where
  "re_wf e \<longleftrightarrow> length (re_data e) = 256 \<and> length (re_block_offset e) = 16 \<and> length (re_block_len e) = 16 \<and>
     unat (re_data_len e) \<le> 256 \<and>
     (\<forall>b. got e b \<longrightarrow> off e b + len e b \<le> 256 \<and> (len e b > 0 \<longrightarrow> off e b + len e b \<le> unat (re_data_len e))) \<and>
     (\<forall>a b. got e a \<longrightarrow> got e b \<longrightarrow> a \<noteq> b \<longrightarrow> len e a > 0 \<longrightarrow> len e b > 0 \<longrightarrow>
        off e a + len e a \<le> off e b \<or> off e b + len e b \<le> off e a) \<and>
     (\<Sum>b | b < 16 \<and> got e b. len e b) \<le> unat (re_data_len e)"

lemma re_has_got: "re_has e block \<longleftrightarrow> got e (unat block)"
proof -
  have "got e n \<Longrightarrow> n < 16" for n using bit_imp_le_length[of "re_received e" n] by simp
  moreover have "(re_received e AND push_bit n 1 \<noteq> 0) = got e n" for n
    by (simp add: and_exp_eq_0_iff_not_bit push_bit_eq_mult)
  ultimately show ?thesis unfolding re_has_def MAX_BLOCKS_def APS_MAX_FRAGMENT_BLOCKS_def by auto
qed

lemma got_bound: "got e b \<Longrightarrow> b < 16"
  using bit_imp_le_length[of "re_received e" b] by simp

lemma range_all_iff: "range_all a b P \<longleftrightarrow> (\<forall>n. unat a \<le> n \<and> n < unat b \<longrightarrow> P (of_nat n))"
  by (auto simp: range_all_def list_all_iff)

lemma unat_of_nat_u8: "n < 256 \<Longrightarrow> unat (of_nat n :: u8) = n"
  by (simp add: unat_of_nat)

lemma is_complete_iff: "is_complete e \<longleftrightarrow> re_total_blocks e \<noteq> 0 \<and> (\<forall>b < unat (re_total_blocks e). got e b)"
  using unat_bounds(1)[of "re_total_blocks e"]
  by (auto simp: is_complete_def range_all_iff re_has_got unat_of_nat_u8)

text \<open>Storing a new block.\<close>

definition stored :: "ReassemblyEntry \<Rightarrow> u32 \<Rightarrow> nat \<Rightarrow> u8 list \<Rightarrow> ReassemblyEntry" where
  "stored e now b payload =
     (let offset = unat (re_data_len e); end_off = offset + length payload
      in e\<lparr>re_data := take offset (re_data e) @ payload @ drop end_off (re_data e),
           re_block_offset := (re_block_offset e)[b := of_nat offset],
           re_block_len := (re_block_len e)[b := of_nat (length payload)],
           re_data_len := of_nat end_off,
           re_received := re_received e OR push_bit b 1,
           re_last_progress_us := now\<rparr>)"

lemma got_stored: "b < 16 \<Longrightarrow> got (stored e now b payload) c \<longleftrightarrow> got e c \<or> c = b"
  by (auto simp: stored_def Let_def bit_simps)

lemma stored_fields:
  assumes wf: "re_wf e" and b: "b < 16" and fits: "unat (re_data_len e) + length payload \<le> 256" "length payload < 256"
  shows "off (stored e now b payload) c = (if c = b then unat (re_data_len e) else off e c)"
    "len (stored e now b payload) c = (if c = b then length payload else len e c)"
    "unat (re_data_len (stored e now b payload)) = unat (re_data_len e) + length payload"
    "re_data (stored e now b payload) =
      take (unat (re_data_len e)) (re_data e) @ payload @ drop (unat (re_data_len e) + length payload) (re_data e)"
proof -
  have "unat (of_nat (unat (re_data_len e) + length payload) :: u16) = unat (re_data_len e) + length payload"
    using fits unfolding unat_of_nat by simp
  then show "unat (re_data_len (stored e now b payload)) = unat (re_data_len e) + length payload"
    by (simp add: stored_def Let_def del: of_nat_add)
qed (use assms in \<open>auto simp: stored_def Let_def re_wf_def nth_list_update unat_of_nat\<close>)

lemma re_wfD:
  assumes "re_wf e"
  shows "got e b \<Longrightarrow> off e b + len e b \<le> 256" "got e b \<Longrightarrow> len e b > 0 \<Longrightarrow> off e b + len e b \<le> unat (re_data_len e)"
    "got e a \<Longrightarrow> got e b \<Longrightarrow> a \<noteq> b \<Longrightarrow> len e a > 0 \<Longrightarrow> len e b > 0 \<Longrightarrow>
      off e a + len e a \<le> off e b \<or> off e b + len e b \<le> off e a"
    "length (re_data e) = 256" "unat (re_data_len e) \<le> 256" "(\<Sum>b | b < 16 \<and> got e b. len e b) \<le> unat (re_data_len e)"
  using assms unfolding re_wf_def by blast+

lemma stored_block:
  assumes wf: "re_wf e" and b: "b < 16" "\<not> got e b" and fits: "unat (re_data_len e) + length payload \<le> 256" "length payload < 256"
  shows "re_block (stored e now b payload) b = payload"
    "got e c \<Longrightarrow> re_block (stored e now b payload) c = re_block e c"
proof -
  note f = stored_fields[OF wf b(1) fits]
  have ld: "length (re_data e) = 256" using wf by (simp add: re_wf_def)
  show "re_block (stored e now b payload) b = payload"
    unfolding re_block_def f using fits ld by simp
  assume c: "got e c"
  show "re_block (stored e now b payload) c = re_block e c"
  proof (cases "len e c > 0")
    case True
    with wf c have le: "off e c + len e c \<le> unat (re_data_len e)" by (simp add: re_wf_def)
    from c b(2) have "c \<noteq> b" by auto
    with le fits ld show ?thesis unfolding re_block_def f by (simp add: take_drop min_def)
  next
    case False
    from c b(2) have "c \<noteq> b" by auto
    with False show ?thesis unfolding re_block_def f by simp
  qed
qed

lemma stored_wf:
  assumes wf: "re_wf e" and b: "b < 16" "\<not> got e b" and fits: "unat (re_data_len e) + length payload \<le> 256" "length payload < 256"
  shows "re_wf (stored e now b payload)"
proof -
  let ?s = "stored e now b payload"
  note f = stored_fields[OF wf b(1) fits] and g = got_stored[OF b(1)]
  have "{c. c < 16 \<and> got ?s c} = insert b {c. c < 16 \<and> got e c}" using b(1) by (auto simp: g)
  moreover have "finite {c. c < 16 \<and> got e c}" by simp
  ultimately have "(\<Sum>c | c < 16 \<and> got ?s c. len ?s c) = length payload + (\<Sum>c | c < 16 \<and> got e c. len ?s c)"
    using b(2) by (simp add: f(2))
  also have "(\<Sum>c | c < 16 \<and> got e c. len ?s c) = (\<Sum>c | c < 16 \<and> got e c. len e c)"
    using b(2) by (intro sum.cong) (auto simp: f(2))
  finally have "(\<Sum>c | c < 16 \<and> got ?s c. len ?s c) = length payload + (\<Sum>c | c < 16 \<and> got e c. len e c)" .
  then have sm: "(\<Sum>c | c < 16 \<and> got ?s c. len ?s c) \<le> unat (re_data_len ?s)"
    using wf f(3) by (simp add: re_wf_def)
  have l: "length (re_data ?s) = 256" "length (re_block_offset ?s) = 16" "length (re_block_len ?s) = 16"
    "unat (re_data_len ?s) \<le> 256"
    using wf fits f(3) by (simp_all add: f(4)) (simp_all add: re_wf_def stored_def Let_def)
  have i: "off ?s c + len ?s c \<le> 256 \<and> (len ?s c > 0 \<longrightarrow> off ?s c + len ?s c \<le> unat (re_data_len ?s))"
    if "got ?s c" for c
    using that wf fits b(2) unfolding g f by (auto simp: re_wf_def)
  have d: "off ?s a + len ?s a \<le> off ?s c \<or> off ?s c + len ?s c \<le> off ?s a"
    if h: "got ?s a" "got ?s c" "a \<noteq> c" "len ?s a > 0" "len ?s c > 0" for a c
  proof -
    consider "a = b" "got e c" "c \<noteq> b" | "c = b" "got e a" "a \<noteq> b" | "got e a" "got e c" "a \<noteq> b" "c \<noteq> b"
      using h unfolding g by auto
    then show ?thesis
    proof cases
      case 1
      with h re_wfD(2)[OF wf, of c] show ?thesis unfolding f by simp
    next
      case 2
      with h re_wfD(2)[OF wf, of a] show ?thesis unfolding f by simp
    next
      case 3
      with h re_wfD(3)[OF wf, of a c] show ?thesis unfolding f by simp
    qed
  qed
  from sm l i d show ?thesis unfolding re_wf_def by blast
qed

lemma reset_fields [simp]:
  "got (re_reset e) b = False" "re_received (re_reset e) = 0" "re_total_blocks (re_reset e) = 0"
  "re_active (re_reset e) = False" "re_delivered (re_reset e) = False"
  by (simp_all add: re_reset_def)

lemma reset_wf: "re_wf e \<Longrightarrow> re_wf (re_reset e)"
  by (simp add: re_wf_def re_reset_def)

lemma empty_wf: "re_wf ReassemblyEntry_empty"
  by (simp add: re_wf_def ReassemblyEntry_empty_def APS_MAX_FRAGMENTED_ASDU_def MAX_BLOCKS_def APS_MAX_FRAGMENT_BLOCKS_def)

text \<open>Changes that leave the storage alone.\<close>

definition same_storage :: "ReassemblyEntry \<Rightarrow> ReassemblyEntry \<Rightarrow> bool" where
  "same_storage e e' \<longleftrightarrow> re_received e' = re_received e \<and> re_block_offset e' = re_block_offset e \<and>
     re_block_len e' = re_block_len e \<and> re_data e' = re_data e \<and> re_data_len e' = re_data_len e"

lemma same_storageD: "same_storage e e' \<Longrightarrow> re_wf e' = re_wf e" "same_storage e e' \<Longrightarrow> re_block e' b = re_block e b"
  "same_storage e e' \<Longrightarrow> got e' b = got e b"
  by (simp_all add: same_storage_def re_wf_def re_block_def)

text \<open>Rolling a block back.\<close>

definition forget_block :: "nat \<Rightarrow> ReassemblyEntry \<Rightarrow> ReassemblyEntry" where
  "forget_block b e =
     (let e = e\<lparr>re_received := re_received e AND NOT (push_bit b 1)\<rparr>
      in if re_block_offset e ! b + ucast (re_block_len e ! b) = re_data_len e
         then e\<lparr>re_data_len := re_block_offset e ! b\<rparr> else e)"

lemma got_forget: "got (forget_block b e) c \<longleftrightarrow> got e c \<and> c \<noteq> b"
  by (auto simp: forget_block_def Let_def bit_simps dest: bit_imp_le_length)

lemma forget_fields [simp]:
  "re_block_offset (forget_block b e) = re_block_offset e" "re_block_len (forget_block b e) = re_block_len e"
  "re_data (forget_block b e) = re_data e"
  by (simp_all add: forget_block_def Let_def)

lemma forget_block_wf:
  assumes wf: "re_wf e" and b: "got e b"
  shows "re_wf (forget_block b e)"
proof -
  let ?f = "forget_block b e"
  have "unat (re_block_offset e ! b + ucast (re_block_len e ! b)) = off e b + len e b"
    using re_wfD(1)[OF wf b] by (simp add: unat_word_ariths)
  then have eq: "re_block_offset e ! b + ucast (re_block_len e ! b) = re_data_len e \<longleftrightarrow>
      off e b + len e b = unat (re_data_len e)" by (metis word_unat_eq_iff)
  then have dl: "unat (re_data_len ?f) = (if off e b + len e b = unat (re_data_len e) then off e b else unat (re_data_len e))"
    by (simp add: forget_block_def Let_def)
  have "{c. c < 16 \<and> got e c} = insert b {c. c < 16 \<and> got ?f c}" using b got_bound[OF b] by (auto simp: got_forget)
  then have s: "(\<Sum>c | c < 16 \<and> got e c. len e c) = len e b + (\<Sum>c | c < 16 \<and> got ?f c. len e c)"
    by (simp add: got_forget)
  have sm: "(\<Sum>c | c < 16 \<and> got ?f c. len ?f c) \<le> unat (re_data_len ?f)"
    using re_wfD(6)[OF wf] s dl by simp
  have i: "off e c + len e c \<le> unat (re_data_len ?f)" if c: "got ?f c" "len e c > 0" for c
  proof -
    from c have gc: "got e c" "c \<noteq> b" by (simp_all add: got_forget)
    show ?thesis
      using re_wfD(2)[OF wf gc(1) c(2)] re_wfD(3)[OF wf gc(1) b gc(2) c(2)] c(2) dl
      by (cases "len e b > 0") auto
  qed
  have r: "re_wf x \<longleftrightarrow> length (re_data x) = 256 \<and> length (re_block_offset x) = 16 \<and> length (re_block_len x) = 16 \<and>
      unat (re_data_len x) \<le> 256 \<and> (\<forall>c. got x c \<longrightarrow> off x c + len x c \<le> 256) \<and>
      (\<forall>c. got x c \<longrightarrow> len x c > 0 \<longrightarrow> off x c + len x c \<le> unat (re_data_len x)) \<and>
      (\<forall>a c. got x a \<longrightarrow> got x c \<longrightarrow> a \<noteq> c \<longrightarrow> len x a > 0 \<longrightarrow> len x c > 0 \<longrightarrow>
        off x a + len x a \<le> off x c \<or> off x c + len x c \<le> off x a) \<and>
      (\<Sum>c | c < 16 \<and> got x c. len x c) \<le> unat (re_data_len x)" for x
    unfolding re_wf_def by blast
  from wf have l: "length (re_data ?f) = 256" "length (re_block_offset ?f) = 16" "length (re_block_len ?f) = 16"
    by (simp_all add: re_wf_def)
  have "unat (re_data_len ?f) \<le> 256" using dl re_wfD(1)[OF wf b] re_wfD(5)[OF wf] by simp
  with l sm i re_wfD(1,3)[OF wf] show ?thesis unfolding r by (simp add: got_forget)
qed

lemma rollback_eq:
  "rollback_entry block e =
     (let e = e\<lparr>re_delivered := False\<rparr>; e = (if got e (unat block) then forget_block (unat block) e else e)
      in if re_received e = 0 then re_reset e else e)"
  unfolding rollback_entry_def Let_def re_has_got by (simp add: forget_block_def Let_def)

lemma rollback_storage:
  assumes wf: "re_wf e"
  shows "re_wf (rollback_entry block e)"
    "got (rollback_entry block e) c \<Longrightarrow> got e c \<and> re_block (rollback_entry block e) c = re_block e c"
proof -
  let ?e0 = "e\<lparr>re_delivered := False\<rparr>"
  have s: "same_storage e ?e0" by (simp add: same_storage_def)
  note wf0 = same_storageD(1)[OF s] and d = same_storageD(2,3)[OF s]
  define x where "x = (if got ?e0 (unat block) then forget_block (unat block) ?e0 else ?e0)"
  have x: "re_wf x" "got x c \<Longrightarrow> got e c \<and> re_block x c = re_block e c" for c
    using wf wf0 forget_block_wf[of ?e0 "unat block"] d
    by (cases "got e (unat block)"; auto simp: x_def got_forget re_block_def)+
  have r: "rollback_entry block e = (if re_received x = 0 then re_reset x else x)"
    unfolding rollback_eq Let_def x_def ..
  show "re_wf (rollback_entry block e)" unfolding r using x(1) reset_wf by simp
  show "got (rollback_entry block e) c \<Longrightarrow> got e c \<and> re_block (rollback_entry block e) c = re_block e c"
    unfolding r using x(2) by (auto split: if_splits)
qed

section \<open>A session of one message\<close>

text \<open>A session that holds blocks of the message \<open>ps\<close> only.\<close>

definition carries :: "u8 list list \<Rightarrow> ReassemblyEntry \<Rightarrow> bool" where
  "carries ps e \<longleftrightarrow> re_wf e \<and> (\<forall>b. got e b \<longrightarrow> b < length ps \<and> re_block e b = ps ! b) \<and>
     (re_total_blocks e = 0 \<or> unat (re_total_blocks e) = length ps)"

lemma carries_reset: "re_wf e \<Longrightarrow> carries ps (re_reset e)"
  by (simp add: carries_def reset_wf)

lemma carries_same: "carries ps e \<Longrightarrow> same_storage e e' \<Longrightarrow> re_total_blocks e' = re_total_blocks e \<Longrightarrow> carries ps e'"
  by (simp add: carries_def same_storageD)

lemma carries_stored:
  assumes "carries ps e" "b < 16" "\<not> got e b" "b < length ps"
    "unat (re_data_len e) + length (ps ! b) \<le> 256" "length (ps ! b) < 256"
  shows "carries ps (stored e now b (ps ! b))"
proof -
  from assms(1) have wf: "re_wf e" by (simp add: carries_def)
  note s = stored_wf[OF wf assms(2,3,5,6)] stored_block[OF wf assms(2,3,5,6)]
  have "re_total_blocks (stored e now b (ps ! b)) = re_total_blocks e" by (simp add: stored_def Let_def)
  then show ?thesis using assms(1,4) s by (auto simp: carries_def got_stored[OF assms(2)])
qed

lemma store_block_eq:
  assumes "re_wf e" "unat block < 16"
  shows "store_block now ws fragmentation block payload e =
    (if \<not> got e (unat block) \<and> unat (re_data_len e) + length payload > 256 then (Rejected, re_reset e)
     else let e' = (if got e (unat block) then e else stored e now (unat block) payload)
          in if is_complete e' then (Complete (re_ack e' fragmentation ws), e')
             else (Pending (if range_all (sat_add block 1) (window_end e' ws) (re_has e')
                            then Some (re_ack e' fragmentation ws) else None) (\<not> got e (unat block)), e'))"
  using re_wfD(4)[OF assms(1)] unfolding store_block_def stored_def Let_def re_has_got by simp

text \<open>A session step keeps whose session it is, and drops it only by a reset.\<close>

definition same_session :: "ReassemblyEntry \<Rightarrow> ReassemblyEntry \<Rightarrow> bool" where
  "same_session e e' \<longleftrightarrow> (re_active e' \<longrightarrow> re_active e) \<and> re_src_addr e' = re_src_addr e \<and> re_aps_counter e' = re_aps_counter e"

lemma store_block_wf:
  assumes "re_wf e" "unat block < 16" "length payload < 256" "store_block now ws fragmentation block payload e = (r, e')"
  shows "re_wf e' \<and> same_session e e' \<and> re_src_ieee e' = re_src_ieee e"
  using assms(4) stored_wf[OF assms(1,2) _ _ assms(3)] reset_wf[OF assms(1)] assms(1)
  unfolding store_block_eq[OF assms(1,2)] Let_def
  by (auto split: if_splits simp: same_session_def stored_def Let_def re_reset_def)

lemma store_block_carries:
  assumes "carries ps e" "unat block < 16" "unat block < length ps" "length (ps ! unat block) < 256"
    "store_block now ws fragmentation block (ps ! unat block) e = (r, e')"
  shows "carries ps e' \<and> (r = Rejected \<longrightarrow> \<not> re_active e') \<and> (\<forall>ack. r = Complete ack \<longrightarrow> is_complete e')"
proof -
  from assms(1) have wf: "re_wf e" by (simp add: carries_def)
  show ?thesis
    using assms(5) carries_stored[OF assms(1,2) _ assms(3) _ assms(4)] carries_reset[OF wf] assms(1)
    unfolding store_block_eq[OF wf assms(2)] Let_def
    by (auto split: if_splits)
qed

text \<open>What a session may have become before a block is stored in it.\<close>

definition prepared :: "IeeeAddress option \<Rightarrow> u8 option \<Rightarrow> ReassemblyEntry \<Rightarrow> ReassemblyEntry \<Rightarrow> bool" where
  "prepared src_ieee tot e e0 \<longleftrightarrow> same_storage e e0 \<and> re_active e0 = re_active e \<and> re_src_addr e0 = re_src_addr e \<and>
     re_aps_counter e0 = re_aps_counter e \<and> re_delivered e0 = re_delivered e \<and>
     (re_src_ieee e0 = re_src_ieee e \<or> re_src_ieee e0 = src_ieee) \<and>
     (re_total_blocks e0 = re_total_blocks e \<or> re_total_blocks e = 0 \<and> tot = Some (re_total_blocks e0))"

lemma prepared_refl: "prepared i tot e e"
  by (simp add: prepared_def same_storage_def)

lemma prepared_trans: "prepared i tot e e0 \<Longrightarrow> prepared i None e0 e1 \<Longrightarrow> prepared i tot e e1"
  unfolding prepared_def same_storage_def by auto

lemma window_block_cases:
  "window_block now ws fragmentation block payload e = (Pending None False, e) \<or>
   (\<exists>e1. prepared i None e e1 \<and>
      window_block now ws fragmentation block payload e = store_block now ws fragmentation block payload e1)"
proof -
  let ?e1 = "e\<lparr>re_window_start := sat_add (re_window_start e) ws, re_last_progress_us := now\<rparr>"
  have "window_block now ws fragmentation block payload e \<in> {(Pending None False, e),
      store_block now ws fragmentation block payload ?e1, store_block now ws fragmentation block payload e}"
    by (simp add: window_block_def Let_def)
  moreover have "prepared i None e ?e1" by (simp add: prepared_def same_storage_def)
  ultimately show ?thesis using prepared_refl[of i None e] by blast
qed

lemma session_block_cases:
  "session_block now ws i fragmentation block tot payload e = (Pending None False, e) \<or>
   (\<exists>e0. prepared i tot e e0 \<and> session_block now ws i fragmentation block tot payload e = (Rejected, re_reset e0)) \<or>
   (\<exists>e0. prepared i tot e e0 \<and> session_block now ws i fragmentation block tot payload e = (Rejected, e0)) \<or>
   (\<exists>e0. prepared i tot e e0 \<and> \<not> re_delivered e0 \<and>
      session_block now ws i fragmentation block tot payload e = window_block now ws fragmentation block payload e0)"
proof (cases "re_delivered e")
  case True
  then show ?thesis by (simp add: session_block_def)
next
  case nd: False
  define e1 where "e1 = (if re_src_ieee e = None then e\<lparr>re_src_ieee := i\<rparr> else e)"
  have e1: "prepared i tot e e1" "re_total_blocks e1 = re_total_blocks e"
    by (simp_all add: e1_def prepared_def same_storage_def)
  have d: "\<not> re_delivered e1" using nd by (simp add: e1_def)
  define tail where "tail x = (if re_total_blocks x \<noteq> 0 \<and> block \<ge> re_total_blocks x then (Rejected, x)
    else window_block now ws fragmentation block payload x)" for x
  have s: "session_block now ws i fragmentation block tot payload e =
      (case tot of None \<Rightarrow> tail e1
       | Some t \<Rightarrow> if re_total_blocks e1 = 0
           then if drop_bit (unat t) (ucast (re_received e1) :: u32) \<noteq> 0 then (Rejected, re_reset e1)
                else tail (e1\<lparr>re_total_blocks := t\<rparr>)
           else if re_total_blocks e1 \<noteq> t then (Rejected, e1) else tail e1)"
    using nd by (simp add: session_block_def Let_def e1_def[symmetric] tail_def split: option.split)
  have e2: "prepared i tot e (e1\<lparr>re_total_blocks := t\<rparr>)" if "tot = Some t" "re_total_blocks e1 = 0" for t
    using e1 that by (simp add: prepared_def same_storage_def)
  have t: "tail x = (Rejected, x) \<or> tail x = window_block now ws fragmentation block payload x" for x
    by (simp add: tail_def)
  have d2: "\<not> re_delivered (e1\<lparr>re_total_blocks := t\<rparr>)" for t using d by simp
  let ?s = "session_block now ws i fragmentation block tot payload e"
  have "?s = (Rejected, re_reset e1) \<or> ?s = (Rejected, e1) \<or> ?s = tail e1 \<or>
      (\<exists>u. tot = Some u \<and> re_total_blocks e1 = 0 \<and> ?s = tail (e1\<lparr>re_total_blocks := u\<rparr>))"
    unfolding s by (simp split: option.split)
  then consider "?s = (Rejected, re_reset e1)" | "?s = (Rejected, e1)" | "?s = tail e1"
    | u where "tot = Some u" "re_total_blocks e1 = 0" "?s = tail (e1\<lparr>re_total_blocks := u\<rparr>)" by blast
  then show ?thesis
  proof cases
    case 3
    with t[of e1] e1 d show ?thesis by auto
  next
    case 4
    with t[of "e1\<lparr>re_total_blocks := u\<rparr>"] e2[OF 4(1,2)] d2[of u] show ?thesis by metis
  qed (use e1 in blast)+
qed

lemma prepared_wf: "prepared i tot e e0 \<Longrightarrow> re_wf e0 = re_wf e"
  by (simp add: prepared_def same_storageD)

lemma prepared_carries:
  assumes "prepared i tot e e0" "carries ps e" "\<And>t. tot = Some t \<Longrightarrow> unat t = length ps"
  shows "carries ps e0"
  using assms unfolding carries_def prepared_def by (auto simp: same_storageD)

text \<open>Effects on any session, whatever is offered.\<close>

lemma session_block_any:
  assumes wf: "re_wf e" and b: "unat block < 16" "length payload < 256"
    and s: "session_block now ws i fragmentation block tot payload e = (r, e')"
  shows "re_wf e' \<and> re_src_addr e' = re_src_addr e \<and> re_aps_counter e' = re_aps_counter e \<and>
    (re_active e' \<longrightarrow> re_active e) \<and> (re_src_ieee e' = re_src_ieee e \<or> re_src_ieee e' = i) \<and>
    (re_active e' \<longrightarrow> re_delivered e' = re_delivered e)"
proof -
  have p: "re_wf e0 \<and> re_src_addr e0 = re_src_addr e \<and> re_aps_counter e0 = re_aps_counter e \<and>
      re_active e0 = re_active e \<and> (re_src_ieee e0 = re_src_ieee e \<or> re_src_ieee e0 = i) \<and> re_delivered e0 = re_delivered e"
    if "prepared i tot e e0" for e0
    using that prepared_wf[OF that] wf by (simp add: prepared_def)
  have st: "?thesis" if pr: "prepared i tot e e0" and sb: "store_block now ws fragmentation block payload e0 = (r, e')" for e0
  proof -
    have "re_wf e'" using store_block_wf[OF _ b sb] p[OF pr] by simp
    moreover have "e' = re_reset e0 \<or> e' = e0 \<or> e' = stored e0 now (unat block) payload"
      using sb p[OF pr] unfolding store_block_eq[OF conjunct1[OF p[OF pr]] b(1)] Let_def by (auto split: if_splits)
    ultimately show ?thesis using p[OF pr] by (auto simp: re_reset_def stored_def Let_def)
  qed
  from session_block_cases[of now ws i fragmentation block tot payload e] consider
    "r = Pending None False" "e' = e"
    | e0 where "prepared i tot e e0" "e' = re_reset e0"
    | e0 where "prepared i tot e e0" "e' = e0"
    | e0 where "prepared i tot e e0" "window_block now ws fragmentation block payload e0 = (r, e')"
    unfolding s by auto
  then show ?thesis
  proof cases
    case 1
    with wf show ?thesis by simp
  next
    case (2 e0)
    with p[OF 2(1)] reset_wf[of e0] show ?thesis by (simp add: re_reset_def)
  next
    case (3 e0)
    with p[OF 3(1)] show ?thesis by simp
  next
    case (4 e0)
    from window_block_cases[of now ws fragmentation block payload e0 i] 4(2) consider
      "e' = e0" | e1 where "prepared i None e0 e1" "store_block now ws fragmentation block payload e1 = (r, e')" by auto
    then show ?thesis
    proof cases
      case 1
      with p[OF 4(1)] show ?thesis by simp
    next
      case (2 e1)
      from st[OF prepared_trans[OF 4(1) 2(1)] 2(2)] show ?thesis .
    qed
  qed
qed

text \<open>Effects of a genuine block on the session of its message.\<close>

lemma session_block_genuine:
  assumes c: "carries ps e" and b: "unat block < 16" "unat block < length ps" "length (ps ! unat block) < 256"
    and t: "\<And>t. tot = Some t \<Longrightarrow> unat t = length ps"
    and s: "session_block now ws i fragmentation block tot (ps ! unat block) e = (r, e')"
  shows "carries ps e' \<and> (\<forall>ack. r = Complete ack \<longrightarrow> is_complete e' \<and> \<not> re_delivered e' \<and> re_active e' = re_active e)"
proof -
  note pc = prepared_carries[OF _ c t]
  have wf: "re_wf x" if "carries ps x" for x using that by (simp add: carries_def)
  have st: ?thesis if pr: "prepared i tot e e0" "\<not> re_delivered e0" and
    sb: "store_block now ws fragmentation block (ps ! unat block) e0 = (r, e')" for e0
  proof -
    have w: "re_wf e0" by (rule wf[OF pc[OF pr(1)]])
    have "e' = re_reset e0 \<or> e' = e0 \<or> e' = stored e0 now (unat block) (ps ! unat block)"
      using sb unfolding store_block_eq[OF w b(1)] Let_def by (auto split: if_splits)
    then have "\<not> re_delivered e' \<and> (is_complete e' \<longrightarrow> re_active e' = re_active e)"
      using pr by (auto simp: re_reset_def stored_def Let_def is_complete_def prepared_def)
    with store_block_carries[OF pc[OF pr(1)] b sb] show ?thesis by simp
  qed
  from session_block_cases[of now ws i fragmentation block tot "ps ! unat block" e] consider
    "r = Pending None False" "e' = e"
    | e0 where "prepared i tot e e0" "e' = re_reset e0" "r = Rejected"
    | e0 where "prepared i tot e e0" "e' = e0" "r = Rejected"
    | e0 where "prepared i tot e e0" "\<not> re_delivered e0"
        "window_block now ws fragmentation block (ps ! unat block) e0 = (r, e')"
    unfolding s by auto
  then show ?thesis
  proof cases
    case 1
    with c show ?thesis by simp
  next
    case (2 e0)
    with carries_reset[OF wf[OF pc[OF 2(1)]]] show ?thesis by simp
  next
    case (3 e0)
    with pc[OF 3(1)] show ?thesis by simp
  next
    case (4 e0)
    from window_block_cases[of now ws fragmentation block "ps ! unat block" e0 i] 4(3) consider
      "e' = e0" "r = Pending None False"
      | e1 where "prepared i None e0 e1" "store_block now ws fragmentation block (ps ! unat block) e1 = (r, e')" by auto
    then show ?thesis
    proof cases
      case 1
      with pc[OF 4(1)] show ?thesis by simp
    next
      case (2 e1)
      moreover from 2(1) 4(2) have "\<not> re_delivered e1" by (simp add: prepared_def)
      ultimately show ?thesis using st[OF prepared_trans[OF 4(1) 2(1)]] by blast
    qed
  qed
qed

section \<open>The table\<close>

text \<open>
  The transaction \<open>(S, C)\<close> of a sender with IEEE address \<open>I\<close>, whose message is \<open>ps\<close>: it has at
  most one session, which holds blocks of \<open>ps\<close>.
\<close>

definition mine :: "u16 \<Rightarrow> u8 \<Rightarrow> ReassemblyEntry \<Rightarrow> bool" where
  "mine S C e \<longleftrightarrow> re_active e \<and> re_src_addr e = S \<and> re_aps_counter e = C"

definition table_inv :: "u16 \<Rightarrow> u8 \<Rightarrow> IeeeAddress option \<Rightarrow> u8 list list \<Rightarrow> FragmentReassembly \<Rightarrow> bool" where
  "table_inv S C I ps es \<longleftrightarrow>
     (\<forall>j<length es. re_wf (es ! j)) \<and>
     (\<forall>j<length es. mine S C (es ! j) \<longrightarrow> carries ps (es ! j) \<and> re_src_ieee (es ! j) = I) \<and>
     (\<forall>j<length es. \<forall>k<length es. mine S C (es ! j) \<longrightarrow> mine S C (es ! k) \<longrightarrow> j = k)"

lemma table_inv_update:
  assumes "table_inv S C I ps es" "j < length es" "re_wf e'"
    "mine S C e' \<Longrightarrow> carries ps e' \<and> re_src_ieee e' = I \<and> (\<forall>k<length es. mine S C (es ! k) \<longrightarrow> k = j)"
  shows "table_inv S C I ps (es[j := e'])"
  using assms unfolding table_inv_def by (auto simp: nth_list_update)

lemma table_inv_map_if:
  assumes "table_inv S C I ps es"
  shows "table_inv S C I ps (map_if P re_reset es)"
  using assms unfolding table_inv_def map_if_def by (auto simp: mine_def reset_wf)

lemma mine_matches:
  assumes "table_inv S C I ps es" "j < length es"
  shows "re_matches (es ! j) S I C \<longleftrightarrow> mine S C (es ! j)"
proof
  assume "mine S C (es ! j)"
  with assms show "re_matches (es ! j) S I C" by (auto simp: table_inv_def mine_def re_matches_def split: option.splits)
qed (auto simp: mine_def re_matches_def)

text \<open>The fragments of a message: the first carries the block count, the others their number.\<close>

definition genuine :: "u8 list list \<Rightarrow> u8 \<Rightarrow> u8 \<Rightarrow> u8 list \<Rightarrow> bool" where
  "genuine ps fragmentation block_field payload \<longleftrightarrow>
     fragmentation = FRAG_FIRST \<and> unat block_field = length ps \<and> payload = ps ! 0 \<or>
     fragmentation = FRAG_SUBSEQUENT \<and> unat block_field < length ps \<and> payload = ps ! unat block_field"

definition message_ok :: "u8 list list \<Rightarrow> bool" where
  "message_ok ps \<longleftrightarrow> ps \<noteq> [] \<and> length ps \<le> 16 \<and> (\<forall>p\<in>set ps. length p < 256)"

text \<open>An offer that passes the parameter checks reaches one session, found or opened.\<close>

definition offered :: "u8 \<Rightarrow> u8 \<Rightarrow> u8 \<Rightarrow> u8 option \<Rightarrow> bool" where
  "offered fragmentation bf block tot \<longleftrightarrow> unat block < 16 \<and>
     (fragmentation = FRAG_FIRST \<and> block = 0 \<and> tot = Some bf \<or> fragmentation = FRAG_SUBSEQUENT \<and> block = bf \<and> tot = None)"

definition reached :: "FragmentReassembly \<Rightarrow> u32 \<Rightarrow> u16 \<Rightarrow> IeeeAddress option \<Rightarrow> u8 \<Rightarrow> nat \<Rightarrow> ReassemblyEntry \<Rightarrow> bool" where
  "reached es now src i ctr idx e0 \<longleftrightarrow> idx < length es \<and>
     (re_matches (es ! idx) src i ctr \<and> e0 = es ! idx \<or>
      (\<forall>j<length es. \<not> re_matches (es ! j) src i ctr) \<and> \<not> re_active (es ! idx) \<and>
      e0 = open_session now src i ctr (es ! idx))"

lemma insert_inner_cases:
  obtains "insert_block_inner es now ws src i ctr fragmentation bf payload = (Rejected, es)"
    | idx block tot e0 r e' where "offered fragmentation bf block tot" "length payload < 256" "reached es now src i ctr idx e0"
      "session_block now (clamp_window_size ws) i fragmentation block tot payload e0 = (r, e')"
      "insert_block_inner es now ws src i ctr fragmentation bf payload = (r, es[idx := e'])"
proof -
  define fin where "fin block tot = (case position (\<lambda>e. re_matches e src i ctr) es of
      Some idx \<Rightarrow> (case session_block now (clamp_window_size ws) i fragmentation block tot payload (es ! idx) of (r, e) \<Rightarrow> (r, es[idx := e]))
    | None \<Rightarrow> (case position (\<lambda>e. \<not> re_active e) es of
        None \<Rightarrow> (Rejected, es)
      | Some idx \<Rightarrow> (case session_block now (clamp_window_size ws) i fragmentation block tot payload
            (open_session now src i ctr (es ! idx)) of (r, e) \<Rightarrow> (r, es[idx := e]))))" for block tot
  let ?r = "insert_block_inner es now ws src i ctr fragmentation bf payload"
  have lt: "unat b < 16 \<longleftrightarrow> \<not> b \<ge> APS_MAX_FRAGMENT_BLOCKS" for b
    by (simp add: APS_MAX_FRAGMENT_BLOCKS_def word_le_nat_alt not_le)
  have "?r = (Rejected, es) \<or> (\<exists>block tot. offered fragmentation bf block tot \<and> length payload < 256 \<and> ?r = fin block tot)"
  proof (cases "fragmentation = FRAG_FIRST")
    case True
    then show ?thesis
      by (auto simp: insert_block_inner_def Let_def fin_def offered_def not_less FRAG_FIRST_def FRAG_SUBSEQUENT_def)
  next
    case nf: False
    show ?thesis
    proof (cases "fragmentation = FRAG_SUBSEQUENT")
      case True
      with nf show ?thesis
        by (auto simp: insert_block_inner_def Let_def fin_def offered_def lt not_less)
    qed (use nf in \<open>simp add: insert_block_inner_def\<close>)
  qed
  then consider "?r = (Rejected, es)" | block tot where "offered fragmentation bf block tot" "length payload < 256" "?r = fin block tot"
    by blast
  then show thesis
  proof cases
    case 1
    with that(1) show thesis .
  next
    case (2 block tot)
    show thesis
    proof (cases "position (\<lambda>e. re_matches e src i ctr) es")
      case (Some idx)
      obtain r e' where s: "session_block now (clamp_window_size ws) i fragmentation block tot payload (es ! idx) = (r, e')" by force
      from position_SomeD[OF Some] have "reached es now src i ctr idx (es ! idx)" by (simp add: reached_def)
      with that(2)[OF 2(1,2) _ s, of idx] 2(3) Some s show thesis by (simp add: fin_def)
    next
      case None
      then have nm: "\<forall>j<length es. \<not> re_matches (es ! j) src i ctr" unfolding position_None_iff by simp
      show thesis
      proof (cases "position (\<lambda>e. \<not> re_active e) es")
        case none: None
        with None 2(3) that(1) show thesis by (simp add: fin_def)
      next
        case (Some idx)
        obtain r e' where s: "session_block now (clamp_window_size ws) i fragmentation block tot payload
            (open_session now src i ctr (es ! idx)) = (r, e')" by force
        from position_SomeD[OF Some] nm have "reached es now src i ctr idx (open_session now src i ctr (es ! idx))"
          by (simp add: reached_def)
        with that(2)[OF 2(1,2) _ s, of idx] 2(3) None Some s show thesis by (simp add: fin_def)
      qed
    qed
  qed
qed

lemma open_session_carries: "re_wf e \<Longrightarrow> carries ps (open_session now src i ctr e) \<and> re_wf (open_session now src i ctr e)"
proof -
  assume "re_wf e"
  moreover have "same_storage (re_reset e) (open_session now src i ctr e)"
    "re_total_blocks (open_session now src i ctr e) = re_total_blocks (re_reset e)"
    by (simp_all add: open_session_def same_storage_def)
  ultimately show ?thesis using carries_reset[of e ps] carries_same carries_def by blast
qed

text \<open>Frames of other transactions do not touch ours; frames of ours keep it.\<close>

lemma table_inv_insert_inner:
  assumes inv: "table_inv S C I ps es" and ok: "message_ok ps"
    and gen: "src = S \<and> ctr = C \<Longrightarrow> i = I \<and> genuine ps fragmentation bf payload"
    and r: "insert_block_inner es now ws src i ctr fragmentation bf payload = (r, es')"
  shows "table_inv S C I ps es' \<and> length es' = length es"
  using inv
proof (cases rule: insert_inner_cases[of es now ws src i ctr fragmentation bf payload])
  case 1
  with r inv show ?thesis by simp
next
  case (2 idx block tot e0 r0 e')
  have idx: "idx < length es" using 2(3) by (simp add: reached_def)
  have b: "unat block < 16" using 2(1) by (simp add: offered_def)
  have wfi: "re_wf (es ! idx)" using inv idx by (simp add: table_inv_def)
  have wf0: "re_wf e0" using 2(3) wfi open_session_carries by (auto simp: reached_def)
  note any = session_block_any[OF wf0 b 2(2) 2(4)]
  have k0: "re_src_addr e0 = src \<and> re_aps_counter e0 = ctr"
    using 2(3) by (auto simp: reached_def re_matches_def open_session_def)
  have "table_inv S C I ps (es[idx := e'])"
  proof (rule table_inv_update[OF inv idx])
    show "re_wf e'" using any by simp
    assume m: "mine S C e'"
    then have sc: "src = S" "ctr = C" using any k0 by (simp_all add: mine_def)
    with gen have g: "i = I" "genuine ps fragmentation bf payload" by simp_all
    have lp: "unat block < length ps" "payload = ps ! unat block" "\<And>t. tot = Some t \<Longrightarrow> unat t = length ps"
      using 2(1) g(2) ok by (auto simp: offered_def genuine_def message_ok_def FRAG_FIRST_def FRAG_SUBSEQUENT_def)
    have c0: "carries ps e0 \<and> re_src_ieee e0 = I \<and> (\<forall>k<length es. mine S C (es ! k) \<longrightarrow> k = idx)"
    proof (cases "re_matches (es ! idx) src i ctr")
      case True
      then have "mine S C (es ! idx)" "e0 = es ! idx" using 2(3) sc by (auto simp: re_matches_def mine_def reached_def)
      with inv idx show ?thesis unfolding table_inv_def by blast
    next
      case False
      then have "e0 = open_session now src i ctr (es ! idx)" "\<forall>j<length es. \<not> mine S C (es ! j)"
        using 2(3) mine_matches[OF inv] sc g(1) by (auto simp: reached_def)
      then show ?thesis using open_session_carries[OF wfi] g(1) by (simp add: open_session_def)
    qed
    have "length (ps ! unat block) < 256" using ok lp(1) by (simp add: message_ok_def)
    from session_block_genuine[OF _ b lp(1) this lp(3) 2(4)[unfolded lp(2)]] c0 any g(1)
    show "carries ps e' \<and> re_src_ieee e' = I \<and> (\<forall>k<length es. mine S C (es ! k) \<longrightarrow> k = idx)" by auto
  qed
  with 2(5) r show ?thesis by simp
qed

lemma copy_blocks_eq:
  "re_wf e \<Longrightarrow> \<forall>b\<in>set bs. got e b \<Longrightarrow> copy_blocks e bs c = write_each (re_block e) bs c"
proof (induction bs arbitrary: c)
  case (Cons b bs)
  then have "off e b + len e b \<le> length (re_data e)" using re_wfD(1,4)[of e] by auto
  then have s: "slice (off e b) (len e b) (re_data e) = Some (re_block e b)" by (simp add: slice_def re_block_def)
  have "write_at (re_block e b) c \<bind> copy_blocks e bs = write_at (re_block e b) c \<bind> write_each (re_block e) bs"
    using Cons by (cases "write_at (re_block e b) c") simp_all
  with s show ?case by simp
qed simp

lemma carried_message:
  assumes c: "carries ps e" and d: "is_complete e"
  shows "length (concat ps) \<le> unat (re_data_len e)"
    "unat (re_data_len e) \<le> length out \<Longrightarrow>
      copy_blocks e [0..<unat (re_total_blocks e)] (out, 0) =
        Some (concat ps @ drop (length (concat ps)) out, length (concat ps))"
proof -
  let ?n = "length ps"
  from c d have n: "unat (re_total_blocks e) = ?n" and wf: "re_wf e" by (auto simp: carries_def is_complete_iff)
  have g: "got e b \<longleftrightarrow> b < ?n" for b using c d n by (auto simp: carries_def is_complete_iff)
  have n16: "?n \<le> 16"
  proof (cases "?n = 0")
    case False
    then have "got e (?n - 1)" by (simp add: g)
    from got_bound[OF this] show ?thesis by simp
  qed simp
  have bl: "re_block e b = ps ! b" if "b < ?n" for b using c that by (simp add: carries_def g)
  have ln: "len e b = length (ps ! b)" if "b < ?n" for b
    using re_wfD(1)[OF wf, of b] re_wfD(4)[OF wf] that unfolding bl[OF that, symmetric] re_block_def by (simp add: g)
  have "length (concat ps) = (\<Sum>b<?n. length (ps ! b))"
    by (simp add: length_concat sum_list_sum_nth atLeast0LessThan)
  also have "\<dots> = (\<Sum>b<?n. len e b)" using ln by (intro sum.cong) simp_all
  also have "{..<?n} = {b. b < 16 \<and> got e b}" using n16 by (auto simp: g)
  finally have le: "length (concat ps) = (\<Sum>b | b < 16 \<and> got e b. len e b)" .
  then show l: "length (concat ps) \<le> unat (re_data_len e)" using re_wfD(6)[OF wf] by simp
  have m: "map (re_block e) [0..<?n] = ps" using bl by (intro nth_equalityI) simp_all
  assume "unat (re_data_len e) \<le> length out"
  with l have fits: "length (concat ps) \<le> length out" by simp
  have "copy_blocks e [0..<?n] (out, 0) = write_each (re_block e) [0..<?n] (out, 0)"
    by (rule copy_blocks_eq[OF wf]) (simp add: g)
  also have "\<dots> = write_at (concat (map (re_block e) [0..<?n])) (out, 0)"
    using write_each_then[of "[]" "(out, 0)" "re_block e" "[0..<?n]"] by (simp add: write_at_start)
  finally show "copy_blocks e [0..<unat (re_total_blocks e)] (out, 0) =
      Some (concat ps @ drop (length (concat ps)) out, length (concat ps))"
    using fits unfolding n m by (simp add: write_at_start)
qed

lemma take_reassembled_inv:
  assumes inv: "table_inv S C I ps es"
  shows "take_reassembled es S I C out = Some (None, es) \<or>
    (\<exists>es'. take_reassembled es S I C out = Some (Some (concat ps @ drop (length (concat ps)) out, length (concat ps)), es'))"
proof (cases "position (\<lambda>e. re_matches e S I C \<and> \<not> re_delivered e) es")
  case None
  then show ?thesis by (simp add: take_reassembled_def)
next
  case (Some idx)
  from position_SomeD[OF Some] have idx: "idx < length es" "re_matches (es ! idx) S I C" by auto
  with mine_matches[OF inv] inv have "carries ps (es ! idx)" by (auto simp: table_inv_def)
  from carried_message(2)[OF this] Some show ?thesis
    by (auto simp: take_reassembled_def Let_def not_less)
qed

section \<open>Histories\<close>

datatype FragEvent =
    Offer u32 u8 u16 "IeeeAddress option" u8 u8 u8 "u8 list"
  | TakeAsdu u16 "IeeeAddress option" u8 "u8 list"
  | FinalizeDelivered | Rollback u16 u8 u8 | CompleteEntry u16 u8 | Expire u32

fun frag_step :: "FragEvent \<Rightarrow> FragmentReassembly \<Rightarrow> FragmentReassembly" where
  "frag_step (Offer now ws src i ctr fragmentation bf payload) es = snd (insert_block es now ws src i ctr fragmentation bf payload)"
| "frag_step (TakeAsdu src i ctr out) es = (case take_reassembled es src i ctr out of Some (_, es') \<Rightarrow> es' | None \<Rightarrow> es)"
| "frag_step FinalizeDelivered es = finalize_delivered es"
| "frag_step (Rollback src ctr block) es = rollback_block es src ctr block"
| "frag_step (CompleteEntry src ctr) es = complete_entry es src ctr"
| "frag_step (Expire now) es = FragmentReassembly_expire es now"

fun fair_event :: "u16 \<Rightarrow> u8 \<Rightarrow> IeeeAddress option \<Rightarrow> u8 list list \<Rightarrow> FragEvent \<Rightarrow> bool" where
  "fair_event S C I ps (Offer now ws src i ctr fragmentation bf payload) =
     (src = S \<and> ctr = C \<longrightarrow> i = I \<and> genuine ps fragmentation bf payload)"
| "fair_event S C I ps _ = True"

lemma table_inv_update_first:
  assumes "table_inv S C I ps es" "\<And>e. re_wf e \<Longrightarrow> re_wf (f e)"
    "\<And>e. re_wf e \<Longrightarrow> mine S C (f e) \<Longrightarrow> mine S C e \<and> re_src_ieee (f e) = re_src_ieee e \<and> (carries ps e \<longrightarrow> carries ps (f e))"
  shows "table_inv S C I ps (update_first P f es)"
proof (cases "position P es")
  case None
  with assms(1) show ?thesis by (simp add: update_first_position)
next
  case (Some j)
  from position_SomeD[OF Some] have j: "j < length es" by simp
  have wf: "re_wf (es ! j)" using assms(1) j by (simp add: table_inv_def)
  have "table_inv S C I ps (es[j := f (es ! j)])"
  proof (rule table_inv_update[OF assms(1) j assms(2)[OF wf]])
    assume "mine S C (f (es ! j))"
    from assms(3)[OF wf this] assms(1) j
    show "carries ps (f (es ! j)) \<and> re_src_ieee (f (es ! j)) = I \<and> (\<forall>k<length es. mine S C (es ! k) \<longrightarrow> k = j)"
      unfolding table_inv_def by blast
  qed
  with Some show ?thesis by (simp add: update_first_position)
qed

lemma rollback_session:
  "re_src_addr (rollback_entry b e) = re_src_addr e" "re_aps_counter (rollback_entry b e) = re_aps_counter e"
  "re_src_ieee (rollback_entry b e) = re_src_ieee e" "re_active (rollback_entry b e) \<Longrightarrow> re_active e"
  "re_total_blocks (rollback_entry b e) = re_total_blocks e \<or> re_total_blocks (rollback_entry b e) = 0"
  by (auto simp: rollback_eq Let_def forget_block_def re_reset_def split: if_splits)

lemma rollback_carries: "carries ps e \<Longrightarrow> carries ps (rollback_entry b e)"
  using rollback_storage[of e b] rollback_session(5)[of b e] by (auto simp: carries_def)

lemma table_inv_step:
  assumes inv: "table_inv S C I ps es" and ok: "message_ok ps" and f: "fair_event S C I ps ev"
  shows "table_inv S C I ps (frag_step ev es)"
proof (cases ev)
  case (Offer now ws src i ctr fragmentation bf payload)
  obtain r es1 where r: "insert_block_inner es now ws src i ctr fragmentation bf payload = (r, es1)" by force
  with table_inv_insert_inner[OF inv ok _ r] f Offer have "table_inv S C I ps es1" by simp
  with r Offer show ?thesis by (simp add: insert_block_def table_inv_map_if)
next
  case (TakeAsdu src i ctr out)
  show ?thesis
  proof (cases "position (\<lambda>e. re_matches e src i ctr \<and> \<not> re_delivered e) es")
    case None
    with inv TakeAsdu show ?thesis by (simp add: take_reassembled_def)
  next
    case (Some idx)
    from position_SomeD[OF Some] have idx: "idx < length es" by simp
    let ?e = "(es ! idx)\<lparr>re_delivered := True\<rparr>"
    have s: "same_storage (es ! idx) ?e" by (simp add: same_storage_def)
    have "table_inv S C I ps (es[idx := ?e])"
    proof (rule table_inv_update[OF inv idx])
      show "re_wf ?e" using inv idx same_storageD(1)[OF s] by (simp add: table_inv_def)
      assume "mine S C ?e"
      then have "mine S C (es ! idx)" by (simp add: mine_def)
      with inv idx carries_same[OF _ s]
      show "carries ps ?e \<and> re_src_ieee ?e = I \<and> (\<forall>k<length es. mine S C (es ! k) \<longrightarrow> k = idx)"
        unfolding table_inv_def by simp
    qed
    with inv Some TakeAsdu show ?thesis
      by (auto simp: take_reassembled_def Let_def split: option.splits)
  qed
next
  case (Rollback src ctr block)
  have "table_inv S C I ps (update_first P (rollback_entry block) es)" for P
  proof (rule table_inv_update_first[OF inv])
    fix e
    assume "re_wf e"
    then show "re_wf (rollback_entry block e)" by (rule rollback_storage(1))
    assume "mine S C (rollback_entry block e)"
    then show "mine S C e \<and> re_src_ieee (rollback_entry block e) = re_src_ieee e \<and>
        (carries ps e \<longrightarrow> carries ps (rollback_entry block e))"
      using rollback_session[of block e] rollback_carries by (auto simp: mine_def)
  qed
  with inv Rollback show ?thesis by (simp add: rollback_block_def)
next
  case (CompleteEntry src ctr)
  have "table_inv S C I ps (update_first P re_reset es)" for P
    by (rule table_inv_update_first[OF inv]) (simp_all add: reset_wf mine_def)
  with CompleteEntry show ?thesis by (simp add: complete_entry_def)
qed (use inv in \<open>simp_all add: finalize_delivered_def FragmentReassembly_expire_def table_inv_map_if\<close>)

lemma table_inv_new: "table_inv S C I ps (FragmentReassembly_new n)"
  using empty_wf by (simp add: table_inv_def FragmentReassembly_new_def mine_def) (simp add: ReassemblyEntry_empty_def)

lemma table_inv_run:
  "message_ok ps \<Longrightarrow> list_all (fair_event S C I ps) evs \<Longrightarrow> table_inv S C I ps es \<Longrightarrow> table_inv S C I ps (fold frag_step evs es)"
  by (induction evs arbitrary: es) (simp_all add: table_inv_step)

lemma complete_offer:
  assumes inv: "table_inv S C I ps es" and ok: "message_ok ps" and gen: "genuine ps fragmentation bf payload"
    and r: "insert_block es now ws S I C fragmentation bf payload = (Complete ack, es')" and out: "256 \<le> length out"
  shows "\<exists>es''. take_reassembled es' S I C out = Some (Some (concat ps @ drop (length (concat ps)) out, length (concat ps)), es'')"
proof -
  from r have r1: "insert_block_inner es now ws S I C fragmentation bf payload = (Complete ack, es')"
    by (auto simp: insert_block_def split: prod.splits if_splits)
  have inv': "table_inv S C I ps es'" using table_inv_insert_inner[OF inv ok _ r1] gen by simp
  obtain idx block tot e0 e' where 2: "offered fragmentation bf block tot" "reached es now S I C idx e0"
    "session_block now (clamp_window_size ws) I fragmentation block tot payload e0 = (Complete ack, e')" "es' = es[idx := e']"
    using insert_inner_cases[of es now ws S I C fragmentation bf payload] r1 by (metis FragmentOutcome.distinct(5) fst_conv snd_conv)
  have idx: "idx < length es" using 2(2) by (simp add: reached_def)
  have wfi: "re_wf (es ! idx)" using inv idx by (simp add: table_inv_def)
  have c0: "carries ps e0" "re_active e0"
    using 2(2) mine_matches[OF inv idx] inv idx open_session_carries[OF wfi]
    by (auto simp: reached_def table_inv_def open_session_def re_matches_def)
  have lp: "unat block < 16" "unat block < length ps" "payload = ps ! unat block" "\<And>t. tot = Some t \<Longrightarrow> unat t = length ps"
    using 2(1) gen ok by (auto simp: offered_def genuine_def message_ok_def FRAG_FIRST_def FRAG_SUBSEQUENT_def)
  have "length (ps ! unat block) < 256" using ok lp(2) by (simp add: message_ok_def)
  from session_block_genuine[OF c0(1) lp(1,2) this lp(4) 2(3)[unfolded lp(3)]] c0(2)
  have e': "carries ps e'" "is_complete e'" "\<not> re_delivered e'" "re_active e'" by auto
  have "re_wf e0" using c0(1) by (simp add: carries_def)
  have l: "es' ! idx = e'" "idx < length es'" using idx 2(4) by simp_all
  have "mine S C e'"
  proof -
    have "length payload < 256" using \<open>length (ps ! unat block) < 256\<close> lp(3) by simp
    from session_block_any[OF \<open>re_wf e0\<close> lp(1) this 2(3)] 2(2) e'(4) show ?thesis
      by (auto simp: mine_def reached_def re_matches_def open_session_def)
  qed
  then have m: "re_matches (es' ! idx) S I C" using mine_matches[OF inv' l(2)] l(1) by simp
  have "\<exists>j. position (\<lambda>e. re_matches e S I C \<and> \<not> re_delivered e) es' = Some j"
    using position_Some_exists[of "es' ! idx" es'] m e'(3) l by (metis (mono_tags, lifting) nth_mem)
  then obtain j where j: "position (\<lambda>e. re_matches e S I C \<and> \<not> re_delivered e) es' = Some j" by blast
  from position_SomeD[OF j] mine_matches[OF inv'] m l inv' have "j = idx" unfolding table_inv_def by metis
  moreover have "unat (re_data_len e') \<le> length out" using e'(1) out re_wfD(5)[of e'] by (simp add: carries_def)
  ultimately show ?thesis using j l(1) e' carried_message(2)[OF e'(1,2), of out] by (simp add: take_reassembled_def)
qed

text \<open>
  C16: fragment reassembly delivers messages exactly.  Whatever the order, repetition and timing in which the fragments of a message
  arrive, with any window sizes, interleaved with fragments of any other transactions, with commits, rollbacks, aborts and
  timeouts, reading the transaction out yields either nothing or the whole message, blocks in order, and never
  panics; and right after an offer has been answered with \<^verbatim>\<open>Complete\<close> it yields the message.
\<close>

theorem fragments_reassemble:
  assumes "message_ok ps" "list_all (fair_event S C I ps) evs" "es = fold frag_step evs (FragmentReassembly_new n)"
  shows "(take_reassembled es S I C out = Some (None, es) \<or>
      (\<exists>es'. take_reassembled es S I C out = Some (Some (concat ps @ drop (length (concat ps)) out, length (concat ps)), es'))) \<and>
    (genuine ps fragmentation bf payload \<and> 256 \<le> length out \<and>
     insert_block es now ws S I C fragmentation bf payload = (Complete ack, es1) \<longrightarrow>
       (\<exists>es2. take_reassembled es1 S I C out = Some (Some (concat ps @ drop (length (concat ps)) out, length (concat ps)), es2)))"
proof -
  have inv: "table_inv S C I ps es" using table_inv_run[OF assms(1,2) table_inv_new] assms(3) by simp
  with take_reassembled_inv[OF inv, of out] complete_offer[OF inv assms(1), of fragmentation bf payload now ws ack es1 out]
  show ?thesis by blast
qed

section \<open>Progress\<close>

text \<open>The session after the first \<open>k\<close> blocks of a message have arrived in order, with window size \<open>w\<close>.\<close>

definition in_order :: "u16 \<Rightarrow> u8 \<Rightarrow> IeeeAddress option \<Rightarrow> u8 list list \<Rightarrow> u8 \<Rightarrow> nat \<Rightarrow> ReassemblyEntry \<Rightarrow> bool" where
  "in_order S C I ps w k e \<longleftrightarrow> re_wf e \<and> mine S C e \<and> re_src_ieee e = I \<and> \<not> re_delivered e \<and>
     (\<forall>b. got e b \<longleftrightarrow> b < k) \<and> unat (re_data_len e) = length (concat (take k ps)) \<and>
     (if k = 0 then re_total_blocks e = 0 \<and> re_window_start e = 0
      else unat (re_total_blocks e) = length ps \<and> unat (re_window_start e) < k \<and> k \<le> unat (re_window_start e) + unat w)"

definition frag_kind :: "nat \<Rightarrow> u8" where
  "frag_kind k = (if k = 0 then FRAG_FIRST else FRAG_SUBSEQUENT)"

definition frag_field :: "u8 list list \<Rightarrow> nat \<Rightarrow> u8" where
  "frag_field ps k = of_nat (if k = 0 then length ps else k)"

lemma take_Suc_concat: "k < length ps \<Longrightarrow> length (concat (take (Suc k) ps)) = length (concat (take k ps)) + length (ps ! k)"
  by (simp add: take_Suc_conv_app_nth)

lemma concat_take_le: "length (concat (take k ps)) \<le> length (concat ps)"
proof -
  have "length (concat ps) = length (concat (take k ps)) + length (concat (drop k ps))"
    unfolding length_append[symmetric] concat_append[symmetric] by simp
  then show ?thesis by simp
qed

lemma in_order_store:
  assumes ok: "message_ok ps" and k: "k < length ps" and sz: "length (concat ps) \<le> 256"
    and e: "re_wf e" "mine S C e" "re_src_ieee e = I" "\<not> re_delivered e" "\<And>b. got e b \<longleftrightarrow> b < k"
      "unat (re_data_len e) = length (concat (take k ps))" "unat (re_total_blocks e) = length ps"
      "unat (re_window_start e) \<le> k" "k < unat (re_window_start e) + unat w"
    and s: "store_block now w fragmentation (of_nat k) (ps ! k) e = (r, e')"
  shows "in_order S C I ps w (Suc k) e' \<and> re_last_progress_us e' = now \<and> (Suc k = length ps \<longrightarrow> (\<exists>ack. r = Complete ack)) \<and> r \<noteq> Rejected"
proof -
  have k16: "k < 16" using k ok by (simp add: message_ok_def)
  then have uk: "unat (of_nat k :: u8) = k" by (simp add: unat_of_nat_u8)
  have lk: "length (ps ! k) < 256" using ok k by (simp add: message_ok_def)
  have fit: "unat (re_data_len e) + length (ps ! k) \<le> 256"
    using concat_take_le[of "Suc k" ps] take_Suc_concat[OF k] e(6) sz by simp
  have ng: "\<not> got e k" using e(5) by simp
  let ?s = "stored e now k (ps ! k)"
  have e': "e' = ?s" "r = Complete (re_ack ?s fragmentation w) \<or> \<not> is_complete ?s" "r \<noteq> Rejected"
    using s ng fit store_block_eq[OF e(1), of "of_nat k" now w fragmentation "ps ! k"] k16
    by (auto simp: uk Let_def split: if_splits)
  note st = stored_wf[OF e(1) k16 ng fit lk] stored_fields(3)[OF e(1) k16 fit lk, of now] got_stored[OF k16, of e now "ps ! k"]
  have f: "re_total_blocks ?s = re_total_blocks e" "re_window_start ?s = re_window_start e" "re_src_ieee ?s = re_src_ieee e"
    "re_delivered ?s = re_delivered e" "mine S C ?s = mine S C e" "re_last_progress_us ?s = now" by (simp_all add: stored_def Let_def mine_def)
  have "in_order S C I ps w (Suc k) ?s"
    using st e f take_Suc_concat[OF k] by (auto simp: in_order_def less_Suc_eq)
  moreover have "is_complete ?s" if "Suc k = length ps"
    using that e(5,7) k f(1) st(3) unfolding is_complete_iff by (metis less_Suc_eq unat_0 not_less0)
  ultimately show ?thesis using e' f(6) by blast
qed

lemma in_order_start:
  assumes e: "in_order S C I ps w 0 e" and ok: "message_ok ps" and sz: "length (concat ps) \<le> 256" and w: "0 < unat w"
    and s: "session_block now w I FRAG_FIRST 0 (Some (of_nat (length ps))) (ps ! 0) e = (r, e')"
  shows "in_order S C I ps w (Suc 0) e' \<and> re_last_progress_us e' = now \<and> (Suc 0 = length ps \<longrightarrow> (\<exists>ack. r = Complete ack)) \<and> r \<noteq> Rejected"
proof -
  let ?t = "of_nat (length ps) :: u8"
  let ?e2 = "e\<lparr>re_total_blocks := ?t\<rparr>"
  have ps: "length ps \<le> 16" "0 < length ps" using ok by (auto simp: message_ok_def)
  have t: "unat ?t = length ps" using ps by (simp add: unat_of_nat_u8)
  have i: "(if re_src_ieee e = None then e\<lparr>re_src_ieee := I\<rparr> else e) = e" using e by (cases e) (auto simp: in_order_def)
  have d: "\<not> re_delivered e" "re_total_blocks e = 0" "re_window_start e = 0" using e by (simp_all add: in_order_def)
  have z: "re_received e = 0" using e by (intro bit_word_eqI) (simp add: in_order_def)
  have nz: "\<not> ?t \<le> 0" using t ps(2) by (auto simp: word_le_nat_alt)
  have "window_block now w FRAG_FIRST 0 (ps ! 0) ?e2 = (r, e')"
    using s d(1,2) z nz by (simp add: session_block_def i Let_def)
  then have sb: "store_block now w FRAG_FIRST (of_nat 0) (ps ! 0) ?e2 = (r, e')"
    using w d(3) by (simp add: window_block_def)
  have ss: "same_storage e ?e2" by (simp add: same_storage_def)
  have "re_wf ?e2" using same_storageD(1)[OF ss] e by (simp add: in_order_def)
  then show ?thesis
    by (rule in_order_store[OF ok ps(2) sz _ _ _ _ _ _ _ _ _ sb])
      (use e t w d(3) in \<open>simp_all add: in_order_def mine_def\<close>)
qed

lemma in_order_window:
  assumes e: "in_order S C I ps w k e" and k: "0 < k" "k < length ps" "length ps \<le> 16"
    and kw: "k = unat (re_window_start e) + unat w"
  shows "unat (sat_add (re_window_start e) w) = k" "window_complete e w"
proof -
  show ns: "unat (sat_add (re_window_start e) w) = k" using kw k by (simp add: unat_sat_add)
  have t: "unat (re_total_blocks e) = length ps" using e k(1) by (simp add: in_order_def)
  then have tb: "re_total_blocks e \<noteq> 0" using k by auto
  have we: "unat (window_end e w) = k"
    using ns tb t k(2) by (simp add: window_end_def Let_def min_def word_le_nat_alt)
  have "got e (unat (of_nat n :: u8))" if "n < k" for n
    using that e k by (simp add: in_order_def unat_of_nat_u8)
  with tb we show "window_complete e w" by (simp add: window_complete_def range_all_iff re_has_got)
qed

lemma in_order_next:
  assumes e: "in_order S C I ps w k e" and ok: "message_ok ps" and k: "0 < k" "k < length ps"
    and sz: "length (concat ps) \<le> 256" and w: "0 < unat w"
    and s: "session_block now w I FRAG_SUBSEQUENT (of_nat k) None (ps ! k) e = (r, e')"
  shows "in_order S C I ps w (Suc k) e' \<and> re_last_progress_us e' = now \<and> (Suc k = length ps \<longrightarrow> (\<exists>ack. r = Complete ack)) \<and> r \<noteq> Rejected"
proof -
  have ps: "length ps \<le> 16" using ok by (simp add: message_ok_def)
  have uk: "unat (of_nat k :: u8) = k" using k ps by (simp add: unat_of_nat_u8)
  have i: "(if re_src_ieee e = None then e\<lparr>re_src_ieee := I\<rparr> else e) = e" using e by (cases e) (auto simp: in_order_def)
  have d: "\<not> re_delivered e" "unat (re_total_blocks e) = length ps" "unat (re_window_start e) < k"
    "k \<le> unat (re_window_start e) + unat w" using e k(1) by (simp_all add: in_order_def)
  have "\<not> re_total_blocks e \<le> of_nat k" using d(2) k uk by (simp add: word_le_nat_alt)
  then have wb: "window_block now w FRAG_SUBSEQUENT (of_nat k) (ps ! k) e = (r, e')"
    using s d(1) by (simp add: session_block_def i)
  have nlt: "\<not> of_nat k < re_window_start e" using d(3) uk by (simp add: word_less_nat_alt)
  show ?thesis
  proof (cases "k < unat (re_window_start e) + unat w")
    case True
    then have sb: "store_block now w FRAG_SUBSEQUENT (of_nat k) (ps ! k) e = (r, e')"
      using wb nlt uk by (simp add: window_block_def)
    have "re_wf e" using e by (simp add: in_order_def)
    then show ?thesis
      by (rule in_order_store[OF ok k(2) sz _ _ _ _ _ _ _ _ _ sb])
        (use e d True k(1) in \<open>simp_all add: in_order_def\<close>)
  next
    case False
    with d(4) have kw: "k = unat (re_window_start e) + unat w" by simp
    note nw = in_order_window[OF e k ps kw]
    let ?e2 = "e\<lparr>re_window_start := sat_add (re_window_start e) w, re_last_progress_us := now\<rparr>"
    have sb: "store_block now w FRAG_SUBSEQUENT (of_nat k) (ps ! k) ?e2 = (r, e')"
      using wb nlt uk nw w False by (simp add: window_block_def Let_def)
    have ss: "same_storage e ?e2" by (simp add: same_storage_def)
    have "re_wf ?e2" using same_storageD(1)[OF ss] e by (simp add: in_order_def)
    then show ?thesis
      by (rule in_order_store[OF ok k(2) sz _ _ _ _ _ _ _ _ _ sb])
        (use e d(1,2) nw(1) w k(1) in \<open>simp_all add: in_order_def mine_def\<close>)
  qed
qed

text \<open>The session in the table: absent with room for it before the first block, in order at some place afterwards, with the time of its last block.\<close>

definition underway :: "u16 \<Rightarrow> u8 \<Rightarrow> IeeeAddress option \<Rightarrow> u8 list list \<Rightarrow> u8 \<Rightarrow> u32 \<Rightarrow> nat \<Rightarrow> FragmentReassembly \<Rightarrow> bool" where
  "underway S C I ps w progress k es \<longleftrightarrow> table_inv S C I ps es \<and>
     (if k = 0 then list_ex (\<lambda>e. \<not> re_active e) es \<and> list_all (\<lambda>e. \<not> mine S C e) es
      else list_ex (\<lambda>e. in_order S C I ps w k e \<and> re_last_progress_us e = progress) es)"

lemma clamp_pos: "0 < unat (clamp_window_size ws)"
  by (auto simp: clamp_window_size_def APS_MAX_WINDOW_SIZE_def unat_gt_0)

lemma opened_in_order:
  "re_wf e \<Longrightarrow> in_order S C I ps w 0 (open_session now S I C e)"
  using open_session_carries[of e ps now S I C]
  by (simp add: in_order_def carries_def) (simp add: open_session_def mine_def re_reset_def)

lemma frag_offer_inner:
  assumes k: "k < length ps" "length ps \<le> 16" and p: "length (ps ! k) < 256" and es: "es \<noteq> []"
  shows "insert_block_inner es now ws S I C (frag_kind k) (frag_field ps k) (ps ! k) =
    (case position (\<lambda>e. re_matches e S I C) es of
       Some idx \<Rightarrow> (case session_block now (clamp_window_size ws) I (frag_kind k) (of_nat k)
           (if k = 0 then Some (of_nat (length ps)) else None) (ps ! k) (es ! idx) of (r, e) \<Rightarrow> (r, es[idx := e]))
     | None \<Rightarrow> (case position (\<lambda>e. \<not> re_active e) es of
         None \<Rightarrow> (Rejected, es)
       | Some idx \<Rightarrow> (case session_block now (clamp_window_size ws) I (frag_kind k) (of_nat k)
             (if k = 0 then Some (of_nat (length ps)) else None) (ps ! k) (open_session now S I C (es ! idx)) of
           (r, e) \<Rightarrow> (r, es[idx := e]))))"
proof (cases "k = 0")
  case True
  have "(of_nat (length ps) :: u8) \<noteq> 0" "\<not> APS_MAX_FRAGMENT_BLOCKS < (of_nat (length ps) :: u8)"
    using k unat_of_nat_u8[of "length ps"] by (auto simp: word_less_nat_alt APS_MAX_FRAGMENT_BLOCKS_def)
  moreover have "\<not> APS_MAX_FRAGMENT_BLOCKS \<le> 0" by (simp add: APS_MAX_FRAGMENT_BLOCKS_def)
  ultimately show ?thesis using es p unfolding True
    by (simp add: insert_block_inner_def frag_kind_def frag_field_def FRAG_FIRST_def FRAG_SUBSEQUENT_def Let_def
        cong: option.case_cong)
next
  case False
  have "(of_nat k :: u8) \<noteq> 0" "\<not> APS_MAX_FRAGMENT_BLOCKS \<le> (of_nat k :: u8)"
    using k False unat_of_nat_u8[of k] by (auto simp: word_le_nat_alt APS_MAX_FRAGMENT_BLOCKS_def)
  with False es p show ?thesis
    by (simp add: insert_block_inner_def frag_kind_def frag_field_def FRAG_FIRST_def FRAG_SUBSEQUENT_def Let_def
        cong: option.case_cong)
qed

lemma in_order_offer:
  assumes ok: "message_ok ps" and k: "k < length ps" and sz: "length (concat ps) \<le> 256"
    and e: "in_order S C I ps (clamp_window_size ws) k e"
    and s: "session_block now (clamp_window_size ws) I (frag_kind k) (of_nat k)
      (if k = 0 then Some (of_nat (length ps)) else None) (ps ! k) e = (r, e')"
  shows "in_order S C I ps (clamp_window_size ws) (Suc k) e' \<and> re_last_progress_us e' = now \<and> (Suc k = length ps \<longrightarrow> (\<exists>ack. r = Complete ack)) \<and> r \<noteq> Rejected"
proof (cases "k = 0")
  case True
  with in_order_start[of S C I ps "clamp_window_size ws" e now r e'] ok sz e s clamp_pos show ?thesis
    by (simp add: frag_kind_def)
next
  case False
  with in_order_next[of S C I ps "clamp_window_size ws" k e now r e'] ok k sz e s clamp_pos show ?thesis
    by (simp add: frag_kind_def)
qed

lemma underway_offer:
  assumes u: "underway S C I ps (clamp_window_size ws) progress k es" and ok: "message_ok ps" and k: "k < length ps"
    and sz: "length (concat ps) \<le> 256"
    and r: "insert_block es now ws S I C (frag_kind k) (frag_field ps k) (ps ! k) = (r, es')"
  shows "underway S C I ps (clamp_window_size ws) now (Suc k) es' \<and> (Suc k = length ps \<longrightarrow> (\<exists>ack. r = Complete ack))"
proof -
  let ?w = "clamp_window_size ws" and ?t = "if k = 0 then Some (of_nat (length ps)) else None"
  have inv: "table_inv S C I ps es" using u by (simp add: underway_def)
  have ps: "length ps \<le> 16" "length (ps ! k) < 256" using ok k by (simp_all add: message_ok_def)
  have es: "es \<noteq> []" using u by (auto simp: underway_def split: if_splits)
  note fo = frag_offer_inner[OF k ps es, of now ws S I C]
  have "\<exists>idx e0 r1 e'. idx < length es \<and> in_order S C I ps ?w k e0 \<and>
      session_block now ?w I (frag_kind k) (of_nat k) ?t (ps ! k) e0 = (r1, e') \<and>
      insert_block_inner es now ws S I C (frag_kind k) (frag_field ps k) (ps ! k) = (r1, es[idx := e'])"
  proof (cases "k = 0")
    case True
    with u mine_matches[OF inv] have "position (\<lambda>e. re_matches e S I C) es = None"
      unfolding position_None_iff by (auto simp: underway_def list_all_length in_set_conv_nth)
    moreover obtain idx where idx: "position (\<lambda>e. \<not> re_active e) es = Some idx"
      using u True position_Some_exists[of _ es "\<lambda>e. \<not> re_active e"] by (auto simp: underway_def list_ex_iff)
    moreover have "idx < length es" using position_SomeD[OF idx] by simp
    moreover have "in_order S C I ps ?w 0 (open_session now S I C (es ! idx))"
      using inv \<open>idx < length es\<close> by (intro opened_in_order) (simp add: table_inv_def)
    ultimately show ?thesis using True unfolding fo by (simp split: prod.split) (metis surj_pair)
  next
    case False
    with u obtain i where i: "i < length es" "in_order S C I ps ?w k (es ! i)"
      by (auto simp: underway_def list_ex_length)
    then have m: "re_matches (es ! i) S I C" using mine_matches[OF inv i(1)] by (simp add: in_order_def)
    then obtain idx where idx: "position (\<lambda>e. re_matches e S I C) es = Some idx"
      using position_Some_exists[of "es ! i" es "\<lambda>e. re_matches e S I C"] i(1) by auto
    have "idx = i" using position_SomeD[OF idx] m i(1) mine_matches[OF inv] inv unfolding table_inv_def by metis
    with idx i show ?thesis unfolding fo by (simp split: prod.split) (metis surj_pair)
  qed
  then obtain idx e0 r1 e' where a: "idx < length es" "in_order S C I ps ?w k e0"
    "session_block now ?w I (frag_kind k) (of_nat k) ?t (ps ! k) e0 = (r1, e')"
    "insert_block_inner es now ws S I C (frag_kind k) (frag_field ps k) (ps ! k) = (r1, es[idx := e'])" by blast
  note o = in_order_offer[OF ok k sz a(2,3)]
  from o a(4) r have r1: "r1 = r" "es' = es[idx := e']" by (auto simp: insert_block_def)
  have "genuine ps (frag_kind k) (frag_field ps k) (ps ! k)"
    using k ps by (simp add: genuine_def frag_kind_def frag_field_def unat_of_nat_u8)
  with table_inv_insert_inner[OF inv ok _ a(4)] r1 have "table_inv S C I ps es'" by simp
  moreover have "list_ex (\<lambda>e. in_order S C I ps ?w (Suc k) e \<and> re_last_progress_us e = now) es'"
    using o a(1) r1 by (auto simp: list_ex_length intro!: exI[of _ idx])
  ultimately show ?thesis using o r1 by (simp add: underway_def)
qed

text \<open>
  What goes on for other transactions while ours waits for its next block, its last one having arrived at \<open>progress\<close>: fragments, readouts,
  rollbacks and releases of others, the clean-up at the start of a reception, and ageing before our session is six seconds old.
\<close>

fun foreign :: "u16 \<Rightarrow> u8 \<Rightarrow> u32 \<Rightarrow> FragEvent \<Rightarrow> bool" where
  "foreign S C progress (Offer now ws src i ctr fragmentation bf payload) = (src \<noteq> S \<or> ctr \<noteq> C)"
| "foreign S C progress (TakeAsdu src i ctr out) = (src \<noteq> S \<or> ctr \<noteq> C)"
| "foreign S C progress FinalizeDelivered = True"
| "foreign S C progress (Rollback src ctr block) = (src \<noteq> S \<or> ctr \<noteq> C)"
| "foreign S C progress (CompleteEntry src ctr) = (src \<noteq> S \<or> ctr \<noteq> C)"
| "foreign S C progress (Expire now) = (now - progress < APS_FRAGMENT_RX_TIMEOUT_US)"

lemma update_first_other:
  assumes "i < length es" "\<not> P (es ! i)"
  shows "i < length (update_first P f es) \<and> update_first P f es ! i = es ! i"
proof (cases "position P es")
  case (Some j)
  then have "j \<noteq> i" using position_SomeD[OF Some] assms(2) by auto
  with assms(1) Some show ?thesis by (simp add: update_first_position)
qed (use assms in \<open>simp add: update_first_position\<close>)

lemma underway_foreign:
  assumes u: "underway S C I ps w progress k es" and k: "0 < k" and ok: "message_ok ps" and f: "foreign S C progress ev"
  shows "underway S C I ps w progress k (frag_step ev es)"
proof -
  have inv: "table_inv S C I ps es" using u by (simp add: underway_def)
  obtain i where i: "i < length es" "in_order S C I ps w k (es ! i)" "re_last_progress_us (es ! i) = progress"
    using u k by (auto simp: underway_def list_ex_length)
  then have m: "mine S C (es ! i)" "\<not> re_delivered (es ! i)" "got (es ! i) 0" using k by (auto simp: in_order_def)
  have nz: "re_received (es ! i) \<noteq> 0" using m(3) by auto
  have "fair_event S C I ps ev" using f by (cases ev) auto
  from table_inv_step[OF inv ok this] have inv': "table_inv S C I ps (frag_step ev es)" .
  have "i < length (frag_step ev es) \<and> frag_step ev es ! i = es ! i"
  proof (cases ev)
    case (Offer now ws src ie ctr fragmentation bf payload)
    obtain r es1 where r: "insert_block_inner es now ws src ie ctr fragmentation bf payload = (r, es1)" by force
    have "length es1 = length es \<and> es1 ! i = es ! i"
    proof (cases rule: insert_inner_cases[of es now ws src ie ctr fragmentation bf payload])
      case 1
      with r show ?thesis by simp
    next
      case (2 idx block tot e0 r0 e')
      from 2(3) m(1) f Offer have "idx \<noteq> i" by (auto simp: reached_def mine_def re_matches_def)
      with 2(5) r show ?thesis by auto
    qed
    with r Offer i(1) nz show ?thesis by (simp add: insert_block_def map_if_def)
  next
    case (TakeAsdu src ie ctr out)
    show ?thesis
    proof (cases "position (\<lambda>e. re_matches e src ie ctr \<and> \<not> re_delivered e) es")
      case (Some idx)
      then have "idx \<noteq> i" using position_SomeD[OF Some] f m(1) TakeAsdu by (auto simp: mine_def re_matches_def)
      with Some TakeAsdu i(1) show ?thesis by (auto simp: take_reassembled_def Let_def split: option.splits if_splits)
    qed (use TakeAsdu i(1) in \<open>simp add: take_reassembled_def\<close>)
  next
    case (Rollback src ctr block)
    with f m(1) update_first_other[OF i(1), of "\<lambda>e. re_active e \<and> re_src_addr e = src \<and> re_aps_counter e = ctr"] i(1)
    show ?thesis by (auto simp: rollback_block_def mine_def)
  next
    case (CompleteEntry src ctr)
    with f m(1) update_first_other[OF i(1), of "\<lambda>e. re_active e \<and> re_src_addr e = src \<and> re_aps_counter e = ctr"]
    show ?thesis by (auto simp: complete_entry_def mine_def)
  next
    case (Expire now)
    then have "\<not> APS_FRAGMENT_RX_TIMEOUT_US \<le> now - progress" using f by (simp add: not_le)
    with Expire i(1,3) show ?thesis by (simp add: FragmentReassembly_expire_def map_if_def)
  qed (use f m i(1) in \<open>simp_all add: finalize_delivered_def map_if_def\<close>)
  with inv' i(2,3) k show ?thesis by (auto simp: underway_def list_ex_length)
qed

definition own_offer :: "u16 \<Rightarrow> u8 \<Rightarrow> IeeeAddress option \<Rightarrow> u8 list list \<Rightarrow> u8 \<Rightarrow> u32 \<Rightarrow> nat \<Rightarrow> FragEvent" where
  "own_offer S C I ps ws now k = Offer now ws S I C (frag_kind k) (frag_field ps k) (ps ! k)"

lemma underway_run:
  assumes ok: "message_ok ps" and sz: "length (concat ps) \<le> 256"
    and f: "\<And>j. list_all (foreign S C (now j)) (noise j)"
  shows "underway S C I ps (clamp_window_size ws) 0 0 es \<Longrightarrow> k \<le> length ps \<Longrightarrow>
    underway S C I ps (clamp_window_size ws) (if k = 0 then 0 else now (k - 1)) k
      (fold frag_step (concat (map (\<lambda>j. own_offer S C I ps ws (now j) j # noise j) [0..<k])) es)"
proof (induction k)
  case (Suc k)
  let ?w = "clamp_window_size ws"
  let ?es = "fold frag_step (concat (map (\<lambda>j. own_offer S C I ps ws (now j) j # noise j) [0..<k])) es"
  obtain r es' where r: "insert_block ?es (now k) ws S I C (frag_kind k) (frag_field ps k) (ps ! k) = (r, es')" by force
  from underway_offer[OF Suc.IH[OF Suc.prems(1)] ok _ sz r] Suc.prems(2) have u: "underway S C I ps ?w (now k) (Suc k) es'" by simp
  have "underway S C I ps ?w (now k) (Suc k) (fold frag_step evs es')" if "list_all (foreign S C (now k)) evs" for evs
    using that u by (induction evs arbitrary: es') (simp_all add: underway_foreign[OF _ _ ok])
  with f[of k] r show ?case by (simp add: own_offer_def)
qed simp

text \<open>
  C17: a fragmented message that arrives in order is completed.  On a table that has a free session and none of this
  transaction, the offers of all blocks of a message of at most 16 blocks and 256 bytes, in order, at any times and with any
  configured window size, are answered with \<^verbatim>\<open>Complete\<close> at the last block, whatever happens in between for other
  transactions: fragments, deliveries, rollbacks and releases, and ageing as long as the last block is not six seconds old.
\<close>

theorem in_order_message_completes:
  assumes "message_ok ps" "length (concat ps) \<le> 256"
    and "list_all (fair_event S C I ps) evs" "es = fold frag_step evs (FragmentReassembly_new n)"
    and "list_ex (\<lambda>e. \<not> re_active e) es" "list_all (\<lambda>e. \<not> mine S C e) es"
    and "\<And>j. list_all (foreign S C (now j)) (noise j)" "Suc k = length ps"
  shows "\<exists>ack es1. insert_block
      (fold frag_step (concat (map (\<lambda>j. own_offer S C I ps ws (now j) j # noise j) [0..<k])) es)
      (now k) ws S I C (frag_kind k) (frag_field ps k) (ps ! k) = (Complete ack, es1)"
proof -
  let ?w = "clamp_window_size ws"
  let ?es = "fold frag_step (concat (map (\<lambda>j. own_offer S C I ps ws (now j) j # noise j) [0..<k])) es"
  have "underway S C I ps ?w 0 0 es"
    using table_inv_run[OF assms(1,3) table_inv_new] assms(4-6) by (simp add: underway_def)
  from underway_run[where now = now and noise = noise, OF assms(1,2,7) this, of k] assms(8)
  have u: "underway S C I ps ?w (if k = 0 then 0 else now (k - 1)) k ?es" by simp
  obtain r es' where r: "insert_block ?es (now k) ws S I C (frag_kind k) (frag_field ps k) (ps ! k) = (r, es')" by force
  from underway_offer[OF u assms(1) _ assms(2) r] assms(8) r show ?thesis by auto
qed

definition example_message :: "u8 list list" where
  "example_message = [[1, 2, 3], [4, 5], [6]]"

lemma example_message_ok: "message_ok example_message"
  by (simp add: message_ok_def example_message_def)

text \<open>The noise of the example: a fragment of another device, its readout, the clean-up and an ageing one second later.\<close>

definition example_noise :: "nat \<Rightarrow> FragEvent list" where
  "example_noise j = [Offer 0 2 8 None 9 FRAG_FIRST 1 [42], TakeAsdu 8 None 9 (replicate 256 0), FinalizeDelivered, Expire (of_nat j + 1000000)]"

lemma example_noise_foreign: "list_all (foreign 7 9 (of_nat j)) (example_noise j)"
proof -
  have "(1000000 :: u32) < APS_FRAGMENT_RX_TIMEOUT_US" by code_simp
  then show ?thesis by (simp add: example_noise_def)
qed

lemma new_table_free:
  "0 < n \<Longrightarrow> list_ex (\<lambda>e. \<not> re_active e) (FragmentReassembly_new n)" "list_all (\<lambda>e. \<not> mine S C e) (FragmentReassembly_new n)"
  by (auto simp: FragmentReassembly_new_def ReassemblyEntry_empty_def mine_def list_ex_iff list_all_iff)

theorem in_order_message_completes_witness:
  "\<exists>ack es1. insert_block
      (fold frag_step (concat (map (\<lambda>j. own_offer 7 9 None example_message 2 (of_nat j) j # example_noise j) [0..<2]))
        (FragmentReassembly_new 2))
      (of_nat 2) 2 7 None 9 (frag_kind 2) (frag_field example_message 2) (example_message ! 2) = (Complete ack, es1)"
proof (rule in_order_message_completes[OF example_message_ok])
  show "length (concat example_message) \<le> 256" "Suc 2 = length example_message" by (simp_all add: example_message_def)
  show "list_all (fair_event 7 9 None example_message) []" "FragmentReassembly_new 2 = fold frag_step [] (FragmentReassembly_new 2)" by simp_all
qed (use example_noise_foreign new_table_free in auto)

theorem fragments_reassemble_witness:
  "take_reassembled (fold frag_step [Offer 0 2 7 None 9 FRAG_SUBSEQUENT 2 [6]] (FragmentReassembly_new 1)) 7 None 9 [] =
     Some (None, fold frag_step [Offer 0 2 7 None 9 FRAG_SUBSEQUENT 2 [6]] (FragmentReassembly_new 1)) \<or>
   (\<exists>es'. take_reassembled (fold frag_step [Offer 0 2 7 None 9 FRAG_SUBSEQUENT 2 [6]] (FragmentReassembly_new 1)) 7 None 9 [] =
     Some (Some (concat example_message @ drop (length (concat example_message)) [], length (concat example_message)), es'))"
proof -
  have "list_all (fair_event 7 9 None example_message) [Offer 0 2 7 None 9 FRAG_SUBSEQUENT 2 [6]]"
    by (simp add: genuine_def example_message_def)
  from fragments_reassemble[OF example_message_ok this refl, of 1 "[]"] show ?thesis by blast
qed

end
