(* ===== verification/Aps_Tracking.thy ===== *)
theory Aps_Tracking
  imports Aps_Secured_Frames Fragment_Reassembly
begin

text \<open>
  The delivery bookkeeping of \<^verbatim>\<open>zigbee-aps/src/lib.rs\<close>: the duplicate-rejection table of received frames, and the table of
  sent frames that wait for an acknowledgement, with its retries and the handles by which the upper layer learns of
  the delivery.  Readings of the monotonic microsecond clock are arguments; table sizes (16 and 8 on a router, 4 and 4
  on an end device) are the length of the array and the argument \<open>cap\<close>.
\<close>

section \<open>Types of the layer\<close>

datatype ApsStatus = ApsSuccess | AsduTooLong | DefragDeferred | DefragUnsupported | IllegalRequest | InvalidBinding
  | ApsInvalidParameter | NoAck | NoBoundDevice | NoShortAddress | TableFull | UnsecuredKey | ApsUnsupportedAttribute
  | SecurityFail | DecryptionError | InsufficientSpace | NotFound

datatype ApsAddressMode = AmIndirect | AmGroup | AmShort | AmExtended

datatype ApsAddress = AddrShort ShortAddress | AddrExtended IeeeAddress | AddrGroup u16

record ApsTxOptions =
  tx_security_enabled :: bool
  tx_use_nwk_key :: bool
  tx_ack_request :: bool
  tx_fragmentation_permitted :: bool
  tx_include_extended_nonce :: bool

record ApsAckHandle =
  ha_dst_addr :: u16
  ha_generation :: u16
  ha_aps_counter :: u8

datatype ApsAckStatus = AckPending | AckConfirmed

section \<open>Duplicate rejection\<close>

record ApsDuplicateEntry =
  de_src_addr :: u16
  de_aps_counter :: u8
  de_fragment_window :: "u8 option"
  de_accepted_at_us :: u32
  de_active :: bool

definition ApsDuplicateEntry_empty :: ApsDuplicateEntry where
  "ApsDuplicateEntry_empty = \<lparr>de_src_addr = 0, de_aps_counter = 0, de_fragment_window = None, de_accepted_at_us = 0, de_active = False\<rparr>"

type_synonym DupTable = "ApsDuplicateEntry list"

text \<open>\<^verbatim>\<open>u32::from(timeout).saturating_mul(1000)\<close>\<close>

definition duplicate_rejection_timeout_us :: "u16 \<Rightarrow> u32" where
  "duplicate_rejection_timeout_us aps_duplicate_rejection_timeout =
     (if unat aps_duplicate_rejection_timeout * 1000 < 2 ^ 32 then ucast aps_duplicate_rejection_timeout * 1000 else - 1)"

definition dup_entry_live :: "ApsDuplicateEntry \<Rightarrow> u32 \<Rightarrow> u32 \<Rightarrow> bool" where
  "dup_entry_live entry now timeout_us \<longleftrightarrow> de_active entry \<and> now - de_accepted_at_us entry < timeout_us"

definition find_duplicate :: "DupTable \<Rightarrow> u16 \<Rightarrow> u32 \<Rightarrow> u16 \<Rightarrow> u8 \<Rightarrow> bool \<Rightarrow> nat option" where
  "find_duplicate dups timeout_ms now src_addr aps_counter fragmented =
     (let timeout = duplicate_rejection_timeout_us timeout_ms
      in position (\<lambda>entry. dup_entry_live entry now timeout \<and> de_src_addr entry = src_addr \<and>
           de_aps_counter entry = aps_counter \<and> (de_fragment_window entry \<noteq> None) = fragmented) dups)"

text \<open>The slot scan of \<^verbatim>\<open>record_duplicate\<close>: the first slot that is not live ends it, otherwise the last of the oldest.\<close>

fun dup_scan :: "u32 \<Rightarrow> u32 \<Rightarrow> nat \<Rightarrow> (nat \<times> u32) option \<Rightarrow> DupTable \<Rightarrow> (nat \<times> u32) option" where
  "dup_scan now timeout i best [] = best"
| "dup_scan now timeout i best (entry # rest) =
     (if \<not> dup_entry_live entry now timeout then Some (i, - 1)
      else let waited = now - de_accepted_at_us entry
           in dup_scan now timeout (Suc i)
                (case best of None \<Rightarrow> Some (i, waited)
                 | Some (j, oldest) \<Rightarrow> if waited \<ge> oldest then Some (i, waited) else best) rest)"

definition record_duplicate :: "DupTable \<Rightarrow> u16 \<Rightarrow> u32 \<Rightarrow> u16 \<Rightarrow> u8 \<Rightarrow> u8 option \<Rightarrow> DupTable" where
  "record_duplicate dups timeout_ms now src_addr aps_counter fragment_window =
     (case dup_scan now (duplicate_rejection_timeout_us timeout_ms) 0 None dups of
        Some (idx, _) \<Rightarrow> dups[idx := \<lparr>de_src_addr = src_addr, de_aps_counter = aps_counter,
          de_fragment_window = fragment_window, de_accepted_at_us = now, de_active = True\<rparr>]
      | None \<Rightarrow> dups)"

definition is_aps_duplicate :: "DupTable \<Rightarrow> u16 \<Rightarrow> u32 \<Rightarrow> u16 \<Rightarrow> u8 \<Rightarrow> bool \<times> DupTable" where
  "is_aps_duplicate dups timeout_ms now src_addr aps_counter =
     (if find_duplicate dups timeout_ms now src_addr aps_counter False \<noteq> None then (True, dups)
      else (False, record_duplicate dups timeout_ms now src_addr aps_counter None))"

definition age_dups :: "DupTable \<Rightarrow> u16 \<Rightarrow> u32 \<Rightarrow> DupTable" where
  "age_dups dups timeout_ms now =
     map_if (\<lambda>entry. de_active entry \<and> \<not> dup_entry_live entry now (duplicate_rejection_timeout_us timeout_ms))
       (\<lambda>entry. entry\<lparr>de_active := False\<rparr>) dups"

definition age_dup_table :: "DupTable \<Rightarrow> FragmentReassembly \<Rightarrow> u16 \<Rightarrow> u32 \<Rightarrow> DupTable \<times> FragmentReassembly" where
  "age_dup_table dups fragment_rx timeout_ms now = (age_dups dups timeout_ms now, FragmentReassembly_expire fragment_rx now)"

datatype ApsRxRollback = RollDuplicate u16 u8 | RollFragmentBlock u16 u8 u8

text \<open>The reception state \<^verbatim>\<open>abort_data_persistence\<close> undoes when the upper layer cannot store the frame.\<close>

definition abort_rollback :: "ApsRxRollback option \<Rightarrow> DupTable \<Rightarrow> FragmentReassembly \<Rightarrow> DupTable \<times> FragmentReassembly" where
  "abort_rollback rollback dups fragment_rx =
     (case rollback of
        Some (RollDuplicate src_addr aps_counter) \<Rightarrow>
          (map_if (\<lambda>e. de_active e \<and> de_src_addr e = src_addr \<and> de_aps_counter e = aps_counter)
             (\<lambda>e. e\<lparr>de_active := False\<rparr>) dups, fragment_rx)
      | Some (RollFragmentBlock src_addr aps_counter block) \<Rightarrow>
          (map_if (\<lambda>e. de_active e \<and> de_fragment_window e \<noteq> None \<and> de_src_addr e = src_addr \<and> de_aps_counter e = aps_counter)
             (\<lambda>e. e\<lparr>de_active := False\<rparr>) dups, rollback_block fragment_rx src_addr aps_counter block)
      | None \<Rightarrow> (dups, fragment_rx))"

section \<open>Frames that wait for their acknowledgement\<close>

record PendingApsAckEntry =
  pe_active :: bool
  pe_generation :: u16
  pe_aps_counter :: u8
  pe_dst_addr :: u16
  pe_confirmed :: bool
  pe_retries :: u8
  pe_waiting_since_us :: u32
  pe_original_frame :: "u8 list"
  pe_security :: "PendingApsSecurity option"

record AckTracking =
  at_ack_table :: "PendingApsAckEntry list"
  at_ack_completions :: "ApsAckHandle list"
  at_next_ack_generation :: u16
  at_consecutive_ack_failures :: u8

definition AckTracking_new :: AckTracking where
  "AckTracking_new = \<lparr>at_ack_table = [], at_ack_completions = [], at_next_ack_generation = 1, at_consecutive_ack_failures = 0\<rparr>"

text \<open>The victim scan of a full table: the first of the entries that have waited longest.\<close>

fun victim_scan :: "u32 \<Rightarrow> nat \<Rightarrow> (nat \<times> u32) option \<Rightarrow> PendingApsAckEntry list \<Rightarrow> (nat \<times> u32) option" where
  "victim_scan now i victim [] = victim"
| "victim_scan now i victim (entry # rest) =
     (let waited = now - pe_waiting_since_us entry
      in victim_scan now (Suc i)
           (case victim of None \<Rightarrow> Some (i, waited)
            | Some (j, longest) \<Rightarrow> if waited > longest then Some (i, waited) else victim) rest)"

definition register_ack_pending_inner ::
    "nat \<Rightarrow> AckTracking \<Rightarrow> u32 \<Rightarrow> u8 \<Rightarrow> u16 \<Rightarrow> u8 list \<Rightarrow> PendingApsSecurity option \<Rightarrow> nat option \<times> AckTracking" where
  "register_ack_pending_inner cap t now aps_counter dst_addr frame_bytes security =
     (let generation = at_next_ack_generation t;
          next = generation + 1;
          t = t\<lparr>at_next_ack_generation := if next = 0 then 1 else next\<rparr>;
          entry = \<lparr>pe_active = True, pe_generation = generation, pe_aps_counter = aps_counter, pe_dst_addr = dst_addr,
            pe_confirmed = False, pe_retries = 3, pe_waiting_since_us = now,
            pe_original_frame = (if length frame_bytes \<le> 128 then frame_bytes else []), pe_security = security\<rparr>;
          table = at_ack_table t
      in case position (\<lambda>e. \<not> pe_active e) table of
           Some i \<Rightarrow> (Some i, t\<lparr>at_ack_table := table[i := entry]\<rparr>)
         | None \<Rightarrow>
             (case vec_push cap entry table of
                Some table' \<Rightarrow> (Some (length table), t\<lparr>at_ack_table := table'\<rparr>)
              | None \<Rightarrow>
                  (case victim_scan now 0 None table of
                     None \<Rightarrow> (None, t)
                   | Some (idx, waited) \<Rightarrow> (Some idx, t\<lparr>at_ack_table := table[idx := entry]\<rparr>))))"

definition register_ack_pending :: "nat \<Rightarrow> AckTracking \<Rightarrow> u32 \<Rightarrow> u8 \<Rightarrow> u16 \<Rightarrow> u8 list \<Rightarrow> nat option \<times> AckTracking" where
  "register_ack_pending cap t now aps_counter dst_addr frame_bytes =
     register_ack_pending_inner cap t now aps_counter dst_addr frame_bytes None"

definition register_secured_ack_pending ::
    "nat \<Rightarrow> AckTracking \<Rightarrow> u32 \<Rightarrow> u8 \<Rightarrow> u16 \<Rightarrow> u8 list \<Rightarrow> PendingApsSecurity \<Rightarrow> nat option \<times> AckTracking" where
  "register_secured_ack_pending cap t now aps_counter dst_addr plaintext_frame security =
     register_ack_pending_inner cap t now aps_counter dst_addr plaintext_frame (Some security)"

definition unicast_ack_pending :: "AckTracking \<Rightarrow> bool" where
  "unicast_ack_pending t = list_ex (\<lambda>entry. pe_active entry \<and> \<not> pe_confirmed entry) (at_ack_table t)"

definition confirm_ack_with_security :: "nat \<Rightarrow> AckTracking \<Rightarrow> u16 \<Rightarrow> u8 \<Rightarrow> bool \<Rightarrow> bool \<times> AckTracking" where
  "confirm_ack_with_security cap t src_addr aps_counter aps_secured_ack =
     (case position (\<lambda>e. pe_active e \<and> pe_aps_counter e = aps_counter \<and> pe_dst_addr e = src_addr \<and> \<not> pe_confirmed e)
        (at_ack_table t) of
        None \<Rightarrow> (False, t)
      | Some i \<Rightarrow>
          let entry = at_ack_table t ! i
          in if pe_security entry \<noteq> None \<and> \<not> aps_secured_ack then (False, t)
             else let handle = \<lparr>ha_dst_addr = src_addr, ha_generation = pe_generation entry, ha_aps_counter = aps_counter\<rparr>;
                      completions = at_ack_completions t
                  in (True, t\<lparr>at_ack_table := (at_ack_table t)[i := entry\<lparr>pe_confirmed := True\<rparr>],
                      at_consecutive_ack_failures := 0,
                      at_ack_completions := (if handle \<in> set completions then completions
                        else (if length completions = cap then vec_remove 0 completions else completions) @ [handle])\<rparr>))"

definition confirm_ack :: "nat \<Rightarrow> AckTracking \<Rightarrow> u16 \<Rightarrow> u8 \<Rightarrow> bool \<times> AckTracking" where
  "confirm_ack cap t src_addr aps_counter = confirm_ack_with_security cap t src_addr aps_counter False"

definition handle_matches :: "ApsAckHandle \<Rightarrow> PendingApsAckEntry \<Rightarrow> bool" where
  "handle_matches handle entry \<longleftrightarrow> pe_active entry \<and> pe_generation entry = ha_generation handle \<and>
     pe_aps_counter entry = ha_aps_counter handle \<and> pe_dst_addr entry = ha_dst_addr handle"

definition ack_status :: "AckTracking \<Rightarrow> ApsAckHandle \<Rightarrow> ApsAckStatus option" where
  "ack_status t handle =
     (if handle \<in> set (at_ack_completions t) then Some AckConfirmed
      else map_option (\<lambda>entry. if pe_confirmed entry then AckConfirmed else AckPending)
             (find (handle_matches handle) (at_ack_table t)))"

definition clear_ack_status :: "AckTracking \<Rightarrow> ApsAckHandle \<Rightarrow> AckTracking" where
  "clear_ack_status t handle =
     t\<lparr>at_ack_completions := (case position (\<lambda>completed. completed = handle) (at_ack_completions t) of
         Some index \<Rightarrow> swap_remove index (at_ack_completions t) | None \<Rightarrow> at_ack_completions t),
       at_ack_table := update_first (handle_matches handle)
         (\<lambda>entry. entry\<lparr>pe_active := False, pe_original_frame := []\<rparr>) (at_ack_table t)\<rparr>"

definition cancel_all_ack_tracking :: "AckTracking \<Rightarrow> AckTracking" where
  "cancel_all_ack_tracking t =
     t\<lparr>at_ack_table := map (\<lambda>entry. entry\<lparr>pe_active := False, pe_original_frame := []\<rparr>) (at_ack_table t),
       at_ack_completions := []\<rparr>"

definition take_ack_status :: "AckTracking \<Rightarrow> u8 \<Rightarrow> bool option \<times> AckTracking" where
  "take_ack_status t aps_counter =
     (let P = (\<lambda>entry. pe_active entry \<and> pe_aps_counter entry = aps_counter)
      in (map_option pe_confirmed (find P (at_ack_table t)),
          t\<lparr>at_ack_table := update_first P (\<lambda>entry. entry\<lparr>pe_active := False\<rparr>) (at_ack_table t)\<rparr>))"

definition clear_ack_failures :: "AckTracking \<Rightarrow> AckTracking" where
  "clear_ack_failures t = t\<lparr>at_consecutive_ack_failures := 0\<rparr>"

text \<open>
  The first pass of \<^verbatim>\<open>age_ack_table\<close>: the fate of one entry, whether its frame is due, and whether it has failed.
\<close>

definition age_entry :: "u32 \<Rightarrow> PendingApsAckEntry \<Rightarrow> PendingApsAckEntry \<times> bool \<times> bool" where
  "age_entry now entry =
     (if \<not> pe_active entry then (entry, False, False)
      else if pe_confirmed entry then (entry\<lparr>pe_active := False, pe_original_frame := []\<rparr>, False, False)
      else if now - pe_waiting_since_us entry < APS_ACK_WAIT_DURATION_US then (entry, False, False)
      else if pe_retries entry = 0 then (entry\<lparr>pe_active := False, pe_original_frame := []\<rparr>, False, True)
      else (entry\<lparr>pe_retries := sat_sub (pe_retries entry) 1, pe_waiting_since_us := now\<rparr>,
            pe_original_frame entry \<noteq> [], False))"

definition age_entries :: "u32 \<Rightarrow> AckTracking \<Rightarrow> nat list \<times> AckTracking" where
  "age_entries now t =
     (let aged = map (age_entry now) (at_ack_table t)
      in (filter (\<lambda>i. fst (snd (aged ! i))) [0..<length aged],
          t\<lparr>at_ack_table := map fst aged,
            at_consecutive_ack_failures := fold (\<lambda>(_, _, failed) n. if failed then sat_add n 1 else n) aged
              (at_consecutive_ack_failures t)\<rparr>))"

record ApsRetransmission =
  rt_dst_addr :: ShortAddress
  rt_frame :: "u8 list"

text \<open>The second pass: the frames of the due entries, each secured again under a fresh counter.\<close>

fun build_retransmissions ::
    "'e provider \<Rightarrow> nat list \<Rightarrow> AckTracking \<Rightarrow> ApsLayer \<Rightarrow> (ApsRetransmission list \<times> AckTracking \<times> ApsLayer) option" where
  "build_retransmissions provider [] t l = Some ([], t, l)"
| "build_retransmissions provider (i # due) t l =
     (let entry = at_ack_table t ! i
      in case pe_security entry of
           None \<Rightarrow> map_option (\<lambda>(rs, x). (\<lparr>rt_dst_addr = pe_dst_addr entry, rt_frame = pe_original_frame entry\<rparr> # rs, x))
                     (build_retransmissions provider due t l)
         | Some security \<Rightarrow>
             (case resecure_retransmission provider l security (pe_original_frame entry) of
                None \<Rightarrow> None
              | Some (Some frame, l) \<Rightarrow>
                  map_option (\<lambda>(rs, x). (\<lparr>rt_dst_addr = pe_dst_addr entry, rt_frame = frame\<rparr> # rs, x))
                    (build_retransmissions provider due t l)
              | Some (None, l) \<Rightarrow>
                  build_retransmissions provider due
                    (t\<lparr>at_ack_table := (at_ack_table t)[i := entry\<lparr>pe_active := False, pe_original_frame := []\<rparr>]\<rparr>) l))"

text \<open>
  \<^verbatim>\<open>age_ack_table\<close> up to its last part; \<open>age_ack_table\<close> of \<open>Fragment_Tx\<close> adds the fragment phase.
\<close>

definition age_pending_acks ::
    "'e provider \<Rightarrow> u32 \<Rightarrow> AckTracking \<Rightarrow> ApsLayer \<Rightarrow> (ApsRetransmission list \<times> AckTracking \<times> ApsLayer) option" where
  "age_pending_acks provider now t l =
     (case age_entries now t of (due, t) \<Rightarrow> build_retransmissions provider due t l)"


section \<open>Who may confirm a delivery\<close>

datatype AckEvent = Register u32 u8 u16 "u8 list" "PendingApsSecurity option" | AckFrame u16 u8 bool | AgeAcks u32
  | ClearAck ApsAckHandle | CancelAcks | TakeAck u8 | ClearFailures | OtherTraffic

inductive ack_step :: "'e provider \<Rightarrow> nat \<Rightarrow> AckTracking \<times> ApsLayer \<Rightarrow> AckEvent \<Rightarrow> AckTracking \<times> ApsLayer \<Rightarrow> bool"
  for provider cap where
  register: "ack_step provider cap (t, l) (Register now ctr dst frame sec) (snd (register_ack_pending_inner cap t now ctr dst frame sec), l)"
| ack: "ack_step provider cap (t, l) (AckFrame src ctr secured) (snd (confirm_ack_with_security cap t src ctr secured), l)"
| age: "age_pending_acks provider now t l = Some (rs, t', l') \<Longrightarrow> ack_step provider cap (t, l) (AgeAcks now) (t', l')"
| clear: "ack_step provider cap (t, l) (ClearAck h) (clear_ack_status t h, l)"
| cancel: "ack_step provider cap (t, l) CancelAcks (cancel_all_ack_tracking t, l)"
| take_status: "ack_step provider cap (t, l) (TakeAck ctr) (snd (take_ack_status t ctr), l)"
| failures: "ack_step provider cap (t, l) ClearFailures (clear_ack_failures t, l)"
| other: "ack_step provider cap (t, l) OtherTraffic (t, l')"

inductive ack_run :: "'e provider \<Rightarrow> nat \<Rightarrow> AckTracking \<times> ApsLayer \<Rightarrow> AckEvent list \<Rightarrow> AckTracking \<times> ApsLayer \<Rightarrow> bool"
  for provider cap s where
  start: "ack_run provider cap s [] s"
| extend: "ack_run provider cap s evs s1 \<Longrightarrow> ack_step provider cap s1 ev s2 \<Longrightarrow> ack_run provider cap s (evs @ [ev]) s2"

inductive_simps ack_step_simps:
  "ack_step provider cap (t, l) (Register now ctr dst frame sec) (t', l')"
  "ack_step provider cap (t, l) (AckFrame src ctr secured) (t', l')"
  "ack_step provider cap (t, l) (AgeAcks now) (t', l')"
  "ack_step provider cap (t, l) (ClearAck h) (t', l')"
  "ack_step provider cap (t, l) CancelAcks (t', l')"
  "ack_step provider cap (t, l) (TakeAck ctr) (t', l')"
  "ack_step provider cap (t, l) ClearFailures (t', l')"
  "ack_step provider cap (t, l) OtherTraffic (t', l')"

fun is_register :: "AckEvent \<Rightarrow> bool" where
  "is_register (Register _ _ _ _ _) = True"
| "is_register _ = False"

definition registrations :: "AckEvent list \<Rightarrow> nat" where
  "registrations evs = length (filter is_register evs)"

lemma registrations_simps [simp]:
  "registrations [] = 0" "registrations (evs @ [ev]) = registrations evs + (if is_register ev then 1 else 0)"
  by (simp_all add: registrations_def)

text \<open>A registration with the given identity stands in the history, followed by an acknowledgement that may confirm it.\<close>

definition registered_as :: "AckEvent list \<Rightarrow> u16 \<Rightarrow> u8 \<Rightarrow> u16 \<Rightarrow> PendingApsSecurity option \<Rightarrow> bool \<Rightarrow> bool" where
  "registered_as evs dst ctr gen sec acked \<longleftrightarrow>
     (\<exists>pre now frame post. evs = pre @ Register now ctr dst frame sec # post \<and> unat gen = Suc (registrations pre) \<and>
        (acked \<longrightarrow> (\<exists>secured. AckFrame dst ctr secured \<in> set post \<and> (sec \<noteq> None \<longrightarrow> secured))))"

lemma registered_as_append: "registered_as evs dst ctr gen sec acked \<Longrightarrow> registered_as (evs @ [ev]) dst ctr gen sec acked"
  unfolding registered_as_def by fastforce

lemma registered_as_ack:
  assumes "registered_as evs dst ctr gen sec acked" "sec \<noteq> None \<longrightarrow> secured"
  shows "registered_as (evs @ [AckFrame dst ctr secured]) dst ctr gen sec True"
proof -
  from assms(1) obtain pre now frame post where
    "evs = pre @ Register now ctr dst frame sec # post" "unat gen = Suc (registrations pre)"
    unfolding registered_as_def by blast
  then have "evs @ [AckFrame dst ctr secured] = pre @ Register now ctr dst frame sec # (post @ [AckFrame dst ctr secured])"
    by simp
  with \<open>unat gen = _\<close> assms(2) show ?thesis unfolding registered_as_def by fastforce
qed

definition entry_justified :: "AckEvent list \<Rightarrow> PendingApsAckEntry \<Rightarrow> bool" where
  "entry_justified evs e \<longleftrightarrow>
     registered_as evs (pe_dst_addr e) (pe_aps_counter e) (pe_generation e) (pe_security e) (pe_confirmed e)"

definition handle_justified :: "AckEvent list \<Rightarrow> ApsAckHandle \<Rightarrow> bool" where
  "handle_justified evs h \<longleftrightarrow> (\<exists>sec. registered_as evs (ha_dst_addr h) (ha_aps_counter h) (ha_generation h) sec True)"

definition tracking_inv :: "AckEvent list \<Rightarrow> AckTracking \<Rightarrow> bool" where
  "tracking_inv evs t \<longleftrightarrow> (\<forall>e\<in>set (at_ack_table t). entry_justified evs e) \<and>
     (\<forall>h\<in>set (at_ack_completions t). handle_justified evs h) \<and>
     unat (at_next_ack_generation t) = Suc (registrations evs)"

text \<open>Operations that neither confirm nor rename an entry.\<close>

definition same_identity :: "PendingApsAckEntry \<Rightarrow> PendingApsAckEntry \<Rightarrow> bool" where
  "same_identity e e' \<longleftrightarrow> pe_dst_addr e' = pe_dst_addr e \<and> pe_aps_counter e' = pe_aps_counter e \<and>
     pe_generation e' = pe_generation e \<and> pe_security e' = pe_security e \<and> pe_confirmed e' = pe_confirmed e"

definition only_ages :: "AckTracking \<Rightarrow> AckTracking \<Rightarrow> bool" where
  "only_ages t t' \<longleftrightarrow> (\<forall>e'\<in>set (at_ack_table t'). \<exists>e\<in>set (at_ack_table t). same_identity e e') \<and>
     set (at_ack_completions t') \<subseteq> set (at_ack_completions t) \<and> at_next_ack_generation t' = at_next_ack_generation t"

lemma same_identity_refl [simp]: "same_identity e e" by (simp add: same_identity_def)

lemma only_ages_refl: "only_ages t t" unfolding only_ages_def using same_identity_refl by blast

lemma only_ages_trans: "only_ages t t1 \<Longrightarrow> only_ages t1 t2 \<Longrightarrow> only_ages t t2"
  unfolding only_ages_def same_identity_def by (metis (no_types, lifting) subset_trans)

lemma tracking_inv_ages:
  assumes "tracking_inv evs t" "only_ages t t'" "\<not> is_register ev"
  shows "tracking_inv (evs @ [ev]) t'"
  using assms unfolding tracking_inv_def only_ages_def entry_justified_def handle_justified_def same_identity_def
  by (simp add: subset_iff) (metis registered_as_append)

lemma only_ages_update:
  assumes "i < length (at_ack_table t)" "same_identity (at_ack_table t ! i) e'"
  shows "only_ages t (t\<lparr>at_ack_table := (at_ack_table t)[i := e']\<rparr>)"
  using assms set_update_subset_insert[of "at_ack_table t" i e'] unfolding only_ages_def
  by simp (metis insertE nth_mem same_identity_refl subsetD)

lemma only_ages_first:
  assumes "\<And>e. same_identity e (f e)"
  shows "set c \<subseteq> set (at_ack_completions t) \<Longrightarrow>
    only_ages t (t\<lparr>at_ack_completions := c, at_ack_table := update_first P f (at_ack_table t)\<rparr>)"
proof -
  have "\<exists>e\<in>set (at_ack_table t). same_identity e e'" if "e' \<in> set (update_first P f (at_ack_table t))" for e'
  proof -
    from that set_update_first[of P f "at_ack_table t"] have "e' \<in> set (at_ack_table t) \<or> (\<exists>x\<in>set (at_ack_table t). e' = f x)"
      by blast
    with assms same_identity_refl show ?thesis by blast
  qed
  then show "set c \<subseteq> set (at_ack_completions t) \<Longrightarrow>
    only_ages t (t\<lparr>at_ack_completions := c, at_ack_table := update_first P f (at_ack_table t)\<rparr>)"
    by (simp add: only_ages_def)
qed

lemma set_swap_remove_subset: "i < length xs \<Longrightarrow> set (swap_remove i xs) \<subseteq> set xs"
  using mset_swap_remove[of i xs] by (metis set_mset_mset set_mset_add_mset_insert subset_insertI)

lemma only_ages_age_entries: "only_ages t (snd (age_entries now t))"
proof -
  have "same_identity e (fst (age_entry now e))" for e by (simp add: age_entry_def same_identity_def)
  then show ?thesis by (auto simp: age_entries_def only_ages_def Let_def)
qed

lemma only_ages_build:
  "build_retransmissions provider due t l = Some (rs, t', l') \<Longrightarrow> \<forall>i\<in>set due. i < length (at_ack_table t) \<Longrightarrow> only_ages t t'"
proof (induction due arbitrary: t l rs)
  case Nil
  then show ?case by (simp add: only_ages_refl)
next
  case (Cons i due)
  let ?t = "t\<lparr>at_ack_table := (at_ack_table t)[i := (at_ack_table t ! i)\<lparr>pe_active := False, pe_original_frame := []\<rparr>]\<rparr>"
  have u: "only_ages t ?t" using Cons.prems(2) by (intro only_ages_update) (simp_all add: same_identity_def)
  from Cons.prems(1) consider l1 rs1 where "build_retransmissions provider due t l1 = Some (rs1, t', l')"
    | l1 where "build_retransmissions provider due ?t l1 = Some (rs, t', l')"
    by (auto simp: Let_def split: option.splits)
  then show ?case
  proof cases
    case 1
    with Cons.IH[of t] Cons.prems(2) show ?thesis by simp
  next
    case 2
    with Cons.IH[of ?t] Cons.prems(2) have "only_ages ?t t'" by simp
    with u show ?thesis by (rule only_ages_trans)
  qed
qed

lemma only_ages_age:
  assumes "age_pending_acks provider now t l = Some (rs, t', l')"
  shows "only_ages t t'"
proof -
  have "\<forall>i\<in>set (fst (age_entries now t)). i < length (at_ack_table (snd (age_entries now t)))"
    by (simp add: age_entries_def Let_def)
  with assms only_ages_build only_ages_trans[OF only_ages_age_entries] show ?thesis
    unfolding age_pending_acks_def by (metis (no_types, lifting) case_prod_unfold)
qed

lemma tracking_register:
  assumes inv: "tracking_inv evs t" and few: "registrations evs < 65534"
  shows "tracking_inv (evs @ [Register now ctr dst frame sec]) (snd (register_ack_pending_inner cap t now ctr dst frame sec))"
proof -
  let ?ev = "Register now ctr dst frame sec" and ?r = "snd (register_ack_pending_inner cap t now ctr dst frame sec)"
  let ?g = "at_next_ack_generation t"
  define new where "new = \<lparr>pe_active = True, pe_generation = ?g, pe_aps_counter = ctr, pe_dst_addr = dst,
    pe_confirmed = False, pe_retries = 3, pe_waiting_since_us = now,
    pe_original_frame = (if length frame \<le> 128 then frame else []), pe_security = sec\<rparr>"
  have g: "unat ?g = Suc (registrations evs)" using inv by (simp add: tracking_inv_def)
  have "unat (?g + 1) = Suc (unat ?g)" using g few by (simp add: unat_word_ariths)
  then have g1: "unat (if ?g + 1 = 0 then 1 else ?g + 1) = Suc (Suc (registrations evs))" using g by auto
  have "entry_justified (evs @ [?ev]) new"
    unfolding entry_justified_def registered_as_def using g by (intro exI[of _ evs]) (simp add: new_def)
  moreover have "set (at_ack_table ?r) \<subseteq> insert new (set (at_ack_table t))"
    unfolding register_ack_pending_inner_def Let_def new_def
    by (auto simp: vec_push_def split: option.splits if_splits dest!: set_update_subset_insert[THEN subsetD])
  moreover have "at_ack_completions ?r = at_ack_completions t"
    "at_next_ack_generation ?r = (if ?g + 1 = 0 then 1 else ?g + 1)"
    by (simp_all add: register_ack_pending_inner_def Let_def split: option.splits)
  ultimately show ?thesis
    using inv g1 registered_as_append unfolding tracking_inv_def entry_justified_def handle_justified_def by fastforce
qed

lemma tracking_ack:
  assumes inv: "tracking_inv evs t"
  shows "tracking_inv (evs @ [AckFrame src ctr secured]) (snd (confirm_ack_with_security cap t src ctr secured))"
proof (cases "position (\<lambda>e. pe_active e \<and> pe_aps_counter e = ctr \<and> pe_dst_addr e = src \<and> \<not> pe_confirmed e) (at_ack_table t)")
  case None
  with tracking_inv_ages[OF inv only_ages_refl] show ?thesis by (simp add: confirm_ack_with_security_def)
next
  case (Some i)
  let ?e = "at_ack_table t ! i" and ?evs = "evs @ [AckFrame src ctr secured]"
  from position_SomeD[OF Some] have i: "i < length (at_ack_table t)" "pe_aps_counter ?e = ctr" "pe_dst_addr ?e = src" by auto
  show ?thesis
  proof (cases "pe_security ?e \<noteq> None \<and> \<not> secured")
    case True
    with Some tracking_inv_ages[OF inv only_ages_refl] show ?thesis by (simp add: confirm_ack_with_security_def)
  next
    case False
    let ?h = "\<lparr>ha_dst_addr = src, ha_generation = pe_generation ?e, ha_aps_counter = ctr\<rparr>"
    let ?r = "snd (confirm_ack_with_security cap t src ctr secured)"
    have "entry_justified evs ?e" using inv i(1) by (simp add: tracking_inv_def)
    then have r: "registered_as ?evs src ctr (pe_generation ?e) (pe_security ?e) True"
      using registered_as_ack False i unfolding entry_justified_def by blast
    have tb: "at_ack_table ?r = (at_ack_table t)[i := ?e\<lparr>pe_confirmed := True\<rparr>]"
      "set (at_ack_completions ?r) \<subseteq> insert ?h (set (at_ack_completions t))"
      "at_next_ack_generation ?r = at_next_ack_generation t"
      using Some False by (auto simp: confirm_ack_with_security_def Let_def vec_remove_def dest: in_set_dropD)
    have "handle_justified ?evs ?h" using r by (auto simp: handle_justified_def)
    moreover have "entry_justified ?evs (?e\<lparr>pe_confirmed := True\<rparr>)" using r i by (simp add: entry_justified_def)
    moreover have "set (at_ack_table ?r) \<subseteq> insert (?e\<lparr>pe_confirmed := True\<rparr>) (set (at_ack_table t))"
      unfolding tb(1) by (rule set_update_subset_insert)
    moreover have "x \<in> set (at_ack_table t) \<Longrightarrow> entry_justified ?evs x" for x
      using inv registered_as_append by (auto simp: tracking_inv_def entry_justified_def)
    moreover have "x \<in> set (at_ack_completions t) \<Longrightarrow> handle_justified ?evs x" for x
      using inv registered_as_append unfolding tracking_inv_def handle_justified_def by blast
    ultimately show ?thesis using tb(2,3) inv unfolding tracking_inv_def by auto
  qed
qed

lemma only_ages_clear: "only_ages t (clear_ack_status t h)"
proof -
  have "set (case position (\<lambda>completed. completed = h) (at_ack_completions t) of
      Some index \<Rightarrow> swap_remove index (at_ack_completions t) | None \<Rightarrow> at_ack_completions t) \<subseteq> set (at_ack_completions t)"
    using position_SomeD[of "\<lambda>c. c = h" "at_ack_completions t"] set_swap_remove_subset by (auto split: option.splits)
  then show ?thesis unfolding clear_ack_status_def by (intro only_ages_first) (simp_all add: same_identity_def)
qed

lemma only_ages_step:
  assumes "ack_step provider cap (t, l) ev (t', l')" "\<not> is_register ev" "\<And>src ctr secured. ev \<noteq> AckFrame src ctr secured"
  shows "only_ages t t'"
proof (cases ev)
  case CancelAcks
  with assms(1) show ?thesis by (auto simp: ack_step_simps only_ages_def cancel_all_ack_tracking_def same_identity_def)
next
  case (TakeAck ctr)
  with assms(1) only_ages_first[of "\<lambda>e. e\<lparr>pe_active := False\<rparr>" "at_ack_completions t" t] show ?thesis
    by (simp add: ack_step_simps take_ack_status_def Let_def same_identity_def)
next
  case ClearFailures
  with assms(1) only_ages_refl[of t] show ?thesis by (simp add: ack_step_simps only_ages_def clear_ack_failures_def)
qed (use assms only_ages_age only_ages_clear only_ages_refl in \<open>auto simp: ack_step_simps\<close>)

lemma tracking_step:
  assumes inv: "tracking_inv evs t" and step: "ack_step provider cap (t, l) ev (t', l')"
    and few: "registrations (evs @ [ev]) < 65535"
  shows "tracking_inv (evs @ [ev]) t'"
proof (cases "is_register ev \<or> (\<exists>src ctr secured. ev = AckFrame src ctr secured)")
  case False
  then show ?thesis using tracking_inv_ages[OF inv only_ages_step[OF step]] by blast
next
  case True
  then show ?thesis
    using few step tracking_register[OF inv] tracking_ack[OF inv] by (cases ev) (auto simp: ack_step_simps)
qed

lemma tracking_run:
  assumes "ack_run provider cap (AckTracking_new, l) evs (t, l')" "registrations evs < 65535"
  shows "tracking_inv evs t"
  using assms
proof (induction evs "(t, l')" arbitrary: t l' rule: ack_run.induct)
  case start
  then show ?case by (simp add: tracking_inv_def AckTracking_new_def)
next
  case (extend evs s1 ev)
  obtain t1 l1 where s1: "s1 = (t1, l1)" by force
  with extend have "tracking_inv evs t1" by (cases "is_register ev") auto
  with tracking_step extend s1 show ?case by blast
qed

text \<open>
  C9: no false delivery report.  In every history of a layer that registers fewer than 65535 acknowledged unicasts, with
  acknowledgements, retries, displacements, releases and cancellations in any order, a handle is reported as confirmed
  only if the frame it was issued for (the registration with that generation number, destination and APS counter)
  was followed by an acknowledgement with that APS counter from that destination, which was APS-secured if the
  frame was.
\<close>

theorem ack_confirmed_only_by_ack:
  assumes "ack_run provider cap (AckTracking_new, l) evs (t, l')" "registrations evs < 65535"
    and "ack_status t h = Some AckConfirmed"
  shows "\<exists>pre now frame sec post secured.
    evs = pre @ Register now (ha_aps_counter h) (ha_dst_addr h) frame sec # post \<and>
    unat (ha_generation h) = Suc (registrations pre) \<and>
    AckFrame (ha_dst_addr h) (ha_aps_counter h) secured \<in> set post \<and> (sec \<noteq> None \<longrightarrow> secured)"
proof -
  have inv: "tracking_inv evs t" using tracking_run[OF assms(1,2)] .
  have "handle_justified evs h"
  proof (cases "h \<in> set (at_ack_completions t)")
    case True
    with inv show ?thesis by (simp add: tracking_inv_def)
  next
    case False
    with assms(3) obtain e where e: "find (handle_matches h) (at_ack_table t) = Some e" "pe_confirmed e"
      by (auto simp: ack_status_def split: if_splits)
    from find_SomeD[OF e(1)] inv e(2)
    have "registered_as evs (ha_dst_addr h) (ha_aps_counter h) (ha_generation h) (pe_security e) True"
      by (auto simp: tracking_inv_def entry_justified_def handle_matches_def)
    then show ?thesis by (auto simp: handle_justified_def)
  qed
  then show ?thesis unfolding handle_justified_def registered_as_def by simp blast
qed

section \<open>Retries end\<close>

definition retries_left :: "AckTracking \<Rightarrow> nat" where
  "retries_left t = sum_list (map (\<lambda>e. if pe_active e then unat (pe_retries e) else 0) (at_ack_table t))"

lemma length_filter_indices: "length (filter (\<lambda>i. P (xs ! i)) [0..<length xs]) = length (filter P xs)"
proof -
  have "filter P xs = filter P (map ((!) xs) [0..<length xs])" by (simp add: map_nth)
  then show ?thesis by (simp add: filter_map comp_def)
qed

lemma age_entry_retries:
  "(if fst (snd (age_entry now e)) then 1 else 0) + (if pe_active (fst (age_entry now e)) then unat (pe_retries (fst (age_entry now e))) else 0)
    \<le> (if pe_active e then unat (pe_retries e) else 0)"
  by (auto simp: age_entry_def unat_sat_sub Suc_leI unat_gt_0)

lemma age_entries_retries: "length (fst (age_entries now t)) + retries_left (snd (age_entries now t)) \<le> retries_left t"
proof -
  have "length (filter (\<lambda>x. fst (snd x)) (map (age_entry now) es)) +
      sum_list (map (\<lambda>e. if pe_active e then unat (pe_retries e) else 0) (map fst (map (age_entry now) es)))
      \<le> sum_list (map (\<lambda>e. if pe_active e then unat (pe_retries e) else 0) es)" for es
  proof (induction es)
    case (Cons e es)
    with age_entry_retries[of now e] show ?case by (simp add: comp_def split: if_splits)
  qed simp
  then show ?thesis
    using length_filter_indices[of "\<lambda>x. fst (snd x)" "map (age_entry now) (at_ack_table t)"]
    by (simp add: age_entries_def retries_left_def Let_def)
qed

lemma retries_left_release:
  "retries_left (t\<lparr>at_ack_table := (at_ack_table t)[i := e\<lparr>pe_active := False, pe_original_frame := []\<rparr>]\<rparr>) \<le> retries_left t"
proof -
  have "sum_list (map f (es[i := x])) \<le> sum_list (map f es)" if "f x = (0::nat)" for f x and es :: "PendingApsAckEntry list"
    using that by (induction es arbitrary: i) (auto split: nat.split)
  then show ?thesis by (simp add: retries_left_def)
qed

lemma build_retries:
  "build_retransmissions provider due t l = Some (rs, t', l') \<Longrightarrow> length rs \<le> length due \<and> retries_left t' \<le> retries_left t"
proof (induction due arbitrary: t l rs)
  case (Cons i due)
  let ?t = "t\<lparr>at_ack_table := (at_ack_table t)[i := (at_ack_table t ! i)\<lparr>pe_active := False, pe_original_frame := []\<rparr>]\<rparr>"
  from Cons.prems consider l1 rs1 r where "build_retransmissions provider due t l1 = Some (rs1, t', l')" "rs = r # rs1"
    | l1 where "build_retransmissions provider due ?t l1 = Some (rs, t', l')"
    by (auto simp: Let_def split: option.splits)
  then show ?case
  proof cases
    case 1
    with Cons.IH[of t] show ?thesis by simp
  next
    case 2
    with Cons.IH[OF 2] have "length rs \<le> length due" "retries_left t' \<le> retries_left ?t" by simp_all
    with retries_left_release[of t i "at_ack_table t ! i"] show ?thesis by simp
  qed
qed simp

text \<open>Successive calls of the maintenance function.\<close>

fun age_calls ::
    "'e provider \<Rightarrow> u32 list \<Rightarrow> AckTracking \<Rightarrow> ApsLayer \<Rightarrow> (ApsRetransmission list \<times> AckTracking \<times> ApsLayer) option" where
  "age_calls provider [] t l = Some ([], t, l)"
| "age_calls provider (now # nows) t l =
     (case age_pending_acks provider now t l of
        None \<Rightarrow> None
      | Some (rs, t, l) \<Rightarrow> map_option (\<lambda>(rss, x). (rs @ rss, x)) (age_calls provider nows t l))"

lemma age_calls_retries:
  "age_calls provider nows t l = Some (rs, t', l') \<Longrightarrow> length rs + retries_left t' \<le> retries_left t"
proof (induction nows arbitrary: t l rs)
  case (Cons now nows)
  then obtain rs1 t1 l1 rs2 where a: "age_pending_acks provider now t l = Some (rs1, t1, l1)"
    "age_calls provider nows t1 l1 = Some (rs2, t', l')" "rs = rs1 @ rs2"
    by (auto split: option.splits)
  from a(1) obtain due t0 where d: "age_entries now t = (due, t0)" "build_retransmissions provider due t0 l = Some (rs1, t1, l1)"
    by (auto simp: age_pending_acks_def split: prod.splits)
  from build_retries[OF d(2)] age_entries_retries[of now t] Cons.IH[OF a(2)] d(1) a(3) show ?case by simp
qed simp

text \<open>All waiting entries have waited long enough by \<open>now\<close>, and none has more than \<open>n\<close> retries.\<close>

definition waits_by :: "u32 \<Rightarrow> nat \<Rightarrow> AckTracking \<Rightarrow> bool" where
  "waits_by now n t \<longleftrightarrow> (\<forall>e\<in>set (at_ack_table t). pe_active e \<longrightarrow>
     now - pe_waiting_since_us e \<ge> APS_ACK_WAIT_DURATION_US \<and> unat (pe_retries e) < n)"

definition waits_since :: "u32 \<Rightarrow> nat \<Rightarrow> AckTracking \<Rightarrow> bool" where
  "waits_since now n t \<longleftrightarrow> (\<forall>e\<in>set (at_ack_table t). pe_active e \<longrightarrow> pe_waiting_since_us e = now \<and> unat (pe_retries e) < n)"

fun spaced :: "u32 \<Rightarrow> u32 list \<Rightarrow> bool" where
  "spaced prev [] = True"
| "spaced prev (now # nows) = (now - prev \<ge> APS_ACK_WAIT_DURATION_US \<and> spaced now nows)"

lemma age_entry_waits:
  assumes "pe_active e \<longrightarrow> now - pe_waiting_since_us e \<ge> APS_ACK_WAIT_DURATION_US \<and> unat (pe_retries e) < Suc n"
    "pe_active (fst (age_entry now e))"
  shows "pe_waiting_since_us (fst (age_entry now e)) = now \<and> unat (pe_retries (fst (age_entry now e))) < n"
proof -
  have "unat (pe_retries e) - 1 < n" if "pe_retries e \<noteq> 0" "unat (pe_retries e) < Suc n"
    using that unat_gt_0[of "pe_retries e"] by linarith
  with assms show ?thesis by (auto simp: age_entry_def unat_sat_sub split: if_splits)
qed

lemma waits_age_entries: "waits_by now (Suc n) t \<Longrightarrow> waits_since now n (snd (age_entries now t))"
  using age_entry_waits unfolding waits_by_def waits_since_def age_entries_def by (auto simp: Let_def)

lemma waits_build:
  "build_retransmissions provider due t l = Some (rs, t', l') \<Longrightarrow> waits_since now n t \<Longrightarrow> waits_since now n t'"
proof (induction due arbitrary: t l rs)
  case (Cons i due)
  let ?t = "t\<lparr>at_ack_table := (at_ack_table t)[i := (at_ack_table t ! i)\<lparr>pe_active := False, pe_original_frame := []\<rparr>]\<rparr>"
  have "waits_since now n ?t" using Cons.prems(2) unfolding waits_since_def
    by (auto dest!: set_update_subset_insert[THEN subsetD])
  with Cons show ?case by (auto simp: Let_def split: option.splits)
qed simp

lemma age_calls_release:
  "age_calls provider nows t l = Some (rs, t', l') \<Longrightarrow> nows \<noteq> [] \<Longrightarrow> waits_by (hd nows) n t \<Longrightarrow> spaced (hd nows) (tl nows) \<Longrightarrow>
    length nows \<ge> n \<Longrightarrow> list_all (\<lambda>e. \<not> pe_active e) (at_ack_table t')"
proof (induction nows arbitrary: t l rs n)
  case (Cons now nows)
  then obtain rs1 t1 l1 rs2 where a: "age_pending_acks provider now t l = Some (rs1, t1, l1)"
    "age_calls provider nows t1 l1 = Some (rs2, t', l')"
    by (auto split: option.splits)
  obtain due t0 where d: "age_entries now t = (due, t0)" "build_retransmissions provider due t0 l = Some (rs1, t1, l1)"
    using a(1) by (auto simp: age_pending_acks_def split: prod.splits)
  have "waits_by now (Suc (n - 1)) t" using Cons.prems(3) by (auto simp: waits_by_def)
  from waits_age_entries[OF this] d(1) waits_build[OF d(2)] have w: "waits_since now (n - 1) t1" by simp
  show ?case
  proof (cases nows)
    case Nil
    with Cons.prems(5) have "n - 1 = 0" by simp
    with w Nil a(2) show ?thesis by (auto simp: waits_since_def list_all_iff)
  next
    case (Cons now2 rest)
    have "waits_by now2 (n - 1) t1" using w Cons.prems(4) Cons by (auto simp: waits_by_def waits_since_def)
    with Cons.IH[OF a(2)] Cons.prems(4,5) Cons show ?thesis by simp
  qed
qed simp

text \<open>
  C11: retransmission ends.  However often the maintenance function runs, the frames it hands out for retransmission are no
  more than three per entry of the table; and if it runs four times, each an acknowledgement wait or more after the
  one before (the first an acknowledgement wait after the youngest entry was sent), every entry has been released.
\<close>

theorem retransmission_ends:
  assumes "\<forall>e\<in>set (at_ack_table t). unat (pe_retries e) \<le> 3"
    and "age_calls provider nows t l = Some (rs, t', l')"
  shows "length rs \<le> 3 * length (at_ack_table t) \<and>
    (4 \<le> length nows \<and> spaced (hd nows) (tl nows) \<and>
       (\<forall>e\<in>set (at_ack_table t). pe_active e \<longrightarrow> hd nows - pe_waiting_since_us e \<ge> APS_ACK_WAIT_DURATION_US) \<longrightarrow>
     list_all (\<lambda>e. \<not> pe_active e) (at_ack_table t'))"
proof -
  have "sum_list (map (\<lambda>e. if pe_active e then unat (pe_retries e) else 0) es) \<le> 3 * length es"
    if "\<forall>e\<in>set es. unat (pe_retries e) \<le> 3" for es
    using that by (induction es) auto
  then have "retries_left t \<le> 3 * length (at_ack_table t)" using assms(1) by (simp add: retries_left_def)
  with age_calls_retries[OF assms(2)] have "length rs \<le> 3 * length (at_ack_table t)" by simp
  moreover have "list_all (\<lambda>e. \<not> pe_active e) (at_ack_table t')"
    if h: "4 \<le> length nows" "spaced (hd nows) (tl nows)"
      "\<forall>e\<in>set (at_ack_table t). pe_active e \<longrightarrow> hd nows - pe_waiting_since_us e \<ge> APS_ACK_WAIT_DURATION_US"
  proof -
    have "waits_by (hd nows) 4 t" using h(3) assms(1) by (auto simp: waits_by_def)
    with age_calls_release[OF assms(2) _ _ h(2)] h(1) show ?thesis by fastforce
  qed
  ultimately show ?thesis by blast
qed

section \<open>Duplicates are delivered once\<close>

lemma dup_scan_spec:
  "dup_scan now tmo i best ds = Some (k, w) \<Longrightarrow>
     i \<le> k \<and> k < i + length ds \<and> \<not> dup_entry_live (ds ! (k - i)) now tmo \<or>
     (\<forall>e\<in>set ds. dup_entry_live e now tmo \<and> now - de_accepted_at_us e \<le> w) \<and>
     (\<forall>j v. best = Some (j, v) \<longrightarrow> v \<le> w) \<and>
     (best = Some (k, w) \<or> i \<le> k \<and> k < i + length ds \<and> w = now - de_accepted_at_us (ds ! (k - i)))"
proof (induction ds arbitrary: i best)
  case Nil
  then show ?case by simp
next
  case (Cons e ds)
  show ?case
  proof (cases "dup_entry_live e now tmo")
    case False
    with Cons.prems show ?thesis by auto
  next
    case True
    let ?b = "case best of None \<Rightarrow> Some (i, now - de_accepted_at_us e)
      | Some (j, oldest) \<Rightarrow> if now - de_accepted_at_us e \<ge> oldest then Some (i, now - de_accepted_at_us e) else best"
    from True Cons.prems have "dup_scan now tmo (Suc i) ?b ds = Some (k, w)" by (simp add: Let_def)
    from Cons.IH[OF this] show ?thesis
    proof
      assume "Suc i \<le> k \<and> k < Suc i + length ds \<and> \<not> dup_entry_live (ds ! (k - Suc i)) now tmo"
      then show ?thesis by (auto simp: nth_Cons' Suc_le_eq)
    next
      assume a: "(\<forall>e\<in>set ds. dup_entry_live e now tmo \<and> now - de_accepted_at_us e \<le> w) \<and>
        (\<forall>j v. ?b = Some (j, v) \<longrightarrow> v \<le> w) \<and>
        (?b = Some (k, w) \<or> Suc i \<le> k \<and> k < Suc i + length ds \<and> w = now - de_accepted_at_us (ds ! (k - Suc i)))"
      have "now - de_accepted_at_us e \<le> w \<and> (\<forall>j v. best = Some (j, v) \<longrightarrow> v \<le> w)"
        using a by (auto split: option.splits if_splits)
      moreover have "best = Some (k, w) \<or> i \<le> k \<and> k < i + length (e # ds) \<and> w = now - de_accepted_at_us ((e # ds) ! (k - i))"
        using a by (auto split: option.splits if_splits simp: nth_Cons' Suc_le_eq)
      ultimately show ?thesis using a True by auto
    qed
  qed
qed

lemma dup_scan_some: "ds \<noteq> [] \<or> best \<noteq> None \<Longrightarrow> \<exists>k w. dup_scan now tmo i best ds = Some (k, w)"
  by (induction ds arbitrary: i best) (auto simp: Let_def split: option.split)

definition new_dup :: "u16 \<Rightarrow> u8 \<Rightarrow> u8 option \<Rightarrow> u32 \<Rightarrow> ApsDuplicateEntry" where
  "new_dup src ctr window now =
     \<lparr>de_src_addr = src, de_aps_counter = ctr, de_fragment_window = window, de_accepted_at_us = now, de_active = True\<rparr>"

lemma record_duplicate_cases:
  assumes "dups \<noteq> []"
  obtains k where "k < length dups" "record_duplicate dups tmo now src ctr window = dups[k := new_dup src ctr window now]"
    "\<not> dup_entry_live (dups ! k) now (duplicate_rejection_timeout_us tmo) \<or>
     (\<forall>e\<in>set dups. dup_entry_live e now (duplicate_rejection_timeout_us tmo) \<and>
        now - de_accepted_at_us e \<le> now - de_accepted_at_us (dups ! k))"
proof -
  obtain k w where k: "dup_scan now (duplicate_rejection_timeout_us tmo) 0 None dups = Some (k, w)"
    using dup_scan_some assms by blast
  then have "record_duplicate dups tmo now src ctr window = dups[k := new_dup src ctr window now]"
    by (simp add: record_duplicate_def new_dup_def)
  with dup_scan_spec[OF k] that[of k] show thesis by auto
qed

datatype DupEvent = DupFrame nat u16 u8 | DupFragment nat u16 u8 u8 | DupAge nat | DupAbort ApsRxRollback

fun dup_step :: "u16 \<Rightarrow> DupEvent \<Rightarrow> DupTable \<Rightarrow> DupTable" where
  "dup_step tmo (DupFrame T src ctr) dups = snd (is_aps_duplicate dups tmo (of_nat T) src ctr)"
| "dup_step tmo (DupFragment T src ctr window) dups = record_duplicate dups tmo (of_nat T) src ctr (Some window)"
| "dup_step tmo (DupAge T) dups = age_dups dups tmo (of_nat T)"
| "dup_step tmo (DupAbort r) dups = fst (abort_rollback (Some r) dups [])"

fun dup_records :: "DupEvent \<Rightarrow> bool" where
  "dup_records (DupFrame _ _ _) = True"
| "dup_records (DupFragment _ _ _ _) = True"
| "dup_records _ = False"

text \<open>The event happens within the rejection window of \<open>T0\<close> and does not abort the frame's own reception.\<close>

fun dup_within :: "nat \<Rightarrow> u16 \<Rightarrow> u16 \<Rightarrow> u8 \<Rightarrow> DupEvent \<Rightarrow> bool" where
  "dup_within T0 tmo src ctr (DupFrame T _ _) = (T0 \<le> T \<and> T < T0 + unat tmo * 1000)"
| "dup_within T0 tmo src ctr (DupFragment T _ _ _) = (T0 \<le> T \<and> T < T0 + unat tmo * 1000)"
| "dup_within T0 tmo src ctr (DupAge T) = (T0 \<le> T \<and> T < T0 + unat tmo * 1000)"
| "dup_within T0 tmo src ctr (DupAbort (RollDuplicate s c)) = (s \<noteq> src \<or> c \<noteq> ctr)"
| "dup_within T0 tmo src ctr (DupAbort _) = True"

lemma timeout_us: "unat (duplicate_rejection_timeout_us tmo) = unat tmo * 1000"
proof -
  have "unat tmo * 1000 < 2 ^ 32" using unat_bounds(2)[of tmo] by simp
  then show ?thesis by (simp add: duplicate_rejection_timeout_us_def unat_word_ariths)
qed

lemma elapsed:
  fixes tmo :: u16
  shows "T0 \<le> T \<Longrightarrow> T < T0 + unat tmo * 1000 \<Longrightarrow> unat (of_nat T - of_nat T0 :: u32) = T - T0"
proof -
  assume a: "T0 \<le> T" "T < T0 + unat tmo * 1000"
  have "(of_nat T - of_nat T0 :: u32) = of_nat (T - T0)" using a(1) by (simp add: of_nat_diff)
  moreover have "T - T0 < 2 ^ 32" using a unat_bounds(2)[of tmo] by simp
  ultimately show ?thesis by (simp add: unat_of_nat)
qed

lemma unat_add_no_wrap: "unat a + unat b < 2 ^ 32 \<Longrightarrow> unat (a + b) = unat a + unat b" for a b :: u32
  by (simp add: unat_word_ariths)

text \<open>An entry older than \<open>T0\<close> whose age does not run past the clock's range within the window.\<close>

definition dup_old :: "nat \<Rightarrow> u16 \<Rightarrow> ApsDuplicateEntry \<Rightarrow> bool" where
  "dup_old T0 tmo e \<longleftrightarrow> de_active e \<longrightarrow>
     0 < unat (of_nat T0 - de_accepted_at_us e) \<and> unat (of_nat T0 - de_accepted_at_us e) + unat tmo * 1000 \<le> 2 ^ 32"

lemma dup_old_waits:
  assumes "dup_old T0 tmo e" "de_active e" "T0 \<le> T" "T < T0 + unat tmo * 1000"
  shows "of_nat T - of_nat T0 < of_nat T - de_accepted_at_us e"
proof -
  let ?a = "of_nat T - of_nat T0 :: u32" and ?b = "of_nat T0 - de_accepted_at_us e"
  have "unat ?a + unat ?b < 2 ^ 32" using assms elapsed[OF assms(3,4)] by (auto simp: dup_old_def)
  then have "unat (?a + ?b) = unat ?a + unat ?b" by (rule unat_add_no_wrap)
  then have "unat (of_nat T - de_accepted_at_us e) = (T - T0) + unat ?b" using elapsed[OF assms(3,4)] by simp
  moreover have "0 < unat ?b" using assms(1,2) unfolding dup_old_def by blast
  ultimately show ?thesis unfolding word_less_nat_alt using elapsed[OF assms(3,4)] by linarith
qed

definition dup_kept :: "nat \<Rightarrow> u16 \<Rightarrow> u16 \<Rightarrow> u8 \<Rightarrow> nat \<Rightarrow> DupTable \<Rightarrow> bool" where
  "dup_kept T0 tmo src ctr k dups \<longleftrightarrow>
     (\<exists>i K. i < length dups \<and> dups ! i = new_dup src ctr None (of_nat T0) \<and> K \<subseteq> {..<length dups} - {i} \<and> card K \<le> k \<and>
        (\<forall>j<length dups. j \<noteq> i \<and> j \<notin> K \<longrightarrow> dup_old T0 tmo (dups ! j)))"

lemma dup_kept_record:
  assumes kept: "dup_kept T0 tmo src ctr k dups" and T: "T0 \<le> T" "T < T0 + unat tmo * 1000" and k: "Suc k < length dups"
  shows "dup_kept T0 tmo src ctr (Suc k) (record_duplicate dups tmo (of_nat T) s c window)"
proof -
  obtain i K where i: "i < length dups" "dups ! i = new_dup src ctr None (of_nat T0)" and K: "K \<subseteq> {..<length dups} - {i}" "card K \<le> k"
    and old: "\<forall>j<length dups. j \<noteq> i \<and> j \<notin> K \<longrightarrow> dup_old T0 tmo (dups ! j)" using kept unfolding dup_kept_def by blast
  have fin: "finite K" using K(1) finite_subset by blast
  have "dups \<noteq> []" using i by auto
  then obtain m where m: "m < length dups" "record_duplicate dups tmo (of_nat T) s c window = dups[m := new_dup s c window (of_nat T)]"
    "\<not> dup_entry_live (dups ! m) (of_nat T) (duplicate_rejection_timeout_us tmo) \<or>
     (\<forall>e\<in>set dups. dup_entry_live e (of_nat T) (duplicate_rejection_timeout_us tmo) \<and>
        of_nat T - de_accepted_at_us e \<le> of_nat T - de_accepted_at_us (dups ! m))"
    using record_duplicate_cases[of dups tmo "of_nat T" s c window] by metis
  have "m \<noteq> i"
  proof
    assume mi: "m = i"
    have "dup_entry_live (dups ! i) (of_nat T) (duplicate_rejection_timeout_us tmo)"
      using i(2) T elapsed[OF T] by (simp add: dup_entry_live_def new_dup_def word_less_nat_alt timeout_us)
    with m(3) mi have all: "\<forall>e\<in>set dups. de_active e \<and> of_nat T - de_accepted_at_us e \<le> of_nat T - of_nat T0"
      using i(2) by (auto simp: new_dup_def dup_entry_live_def)
    have "card (insert i K) < card {..<length dups}" using fin K(2) k by (simp add: card_insert_if)
    then have "\<not> {..<length dups} \<subseteq> insert i K" using fin by (metis card_mono finite_insert not_less)
    then obtain j where j: "j < length dups" "j \<noteq> i" "j \<notin> K" by auto
    with old all dup_old_waits[OF _ _ T, of "dups ! j"] show False by (simp add: leD)
  qed
  moreover have "card (insert m K) \<le> Suc k" using K(2) fin by (simp add: card_insert_if)
  ultimately show ?thesis unfolding m(2) dup_kept_def using i K(1) m(1) old
    by (intro exI[of _ i] exI[of _ "insert m K"]) auto
qed

lemma dup_kept_map:
  assumes "dup_kept T0 tmo src ctr k dups" "\<And>e. f e = e \<or> f e = e\<lparr>de_active := False\<rparr>"
    "f (new_dup src ctr None (of_nat T0)) = new_dup src ctr None (of_nat T0)"
  shows "dup_kept T0 tmo src ctr k (map f dups)"
proof -
  have old: "dup_old T0 tmo e \<Longrightarrow> dup_old T0 tmo (f e)" for e using assms(2)[of e] by (auto simp: dup_old_def)
  obtain i K where "i < length dups" "dups ! i = new_dup src ctr None (of_nat T0)" "K \<subseteq> {..<length dups} - {i}" "card K \<le> k"
    "\<forall>j<length dups. j \<noteq> i \<and> j \<notin> K \<longrightarrow> dup_old T0 tmo (dups ! j)" using assms(1) unfolding dup_kept_def by blast
  with assms(3) old show ?thesis unfolding dup_kept_def by (intro exI[of _ i] exI[of _ K]) simp
qed

lemma dup_kept_found:
  assumes "dup_kept T0 tmo src ctr k dups" "T0 \<le> T" "T < T0 + unat tmo * 1000"
  shows "fst (is_aps_duplicate dups tmo (of_nat T) src ctr)"
proof -
  obtain i where i: "i < length dups" "dups ! i = new_dup src ctr None (of_nat T0)"
    using assms(1) unfolding dup_kept_def by blast
  have "dup_entry_live (dups ! i) (of_nat T) (duplicate_rejection_timeout_us tmo)"
    using i(2) assms elapsed[OF assms(2,3)] by (simp add: dup_entry_live_def new_dup_def word_less_nat_alt timeout_us)
  moreover have "de_src_addr (dups ! i) = src" "de_aps_counter (dups ! i) = ctr" "de_fragment_window (dups ! i) = None"
    using i(2) by (simp_all add: new_dup_def)
  ultimately have "find_duplicate dups tmo (of_nat T) src ctr False \<noteq> None"
    unfolding find_duplicate_def Let_def position_None_iff using nth_mem[OF i(1)] by metis
  then show ?thesis by (simp add: is_aps_duplicate_def)
qed

lemma length_record [simp]: "length (record_duplicate dups tmo now s c w) = length dups"
  by (simp add: record_duplicate_def split: option.split)

lemma length_dup_step [simp]: "length (dup_step tmo ev dups) = length dups"
  by (cases ev) (auto simp: is_aps_duplicate_def age_dups_def abort_rollback_def map_if_def split: ApsRxRollback.splits)

lemma dup_kept_mono: "dup_kept T0 tmo src ctr k dups \<Longrightarrow> k \<le> k' \<Longrightarrow> dup_kept T0 tmo src ctr k' dups"
  unfolding dup_kept_def by (meson order_trans)

lemma dup_kept_step:
  assumes kept: "dup_kept T0 tmo src ctr k dups" and w: "dup_within T0 tmo src ctr ev"
    and k: "k + (if dup_records ev then 1 else 0) < length dups"
  shows "dup_kept T0 tmo src ctr (k + (if dup_records ev then 1 else 0)) (dup_step tmo ev dups)"
proof (cases ev)
  case (DupFrame T s c)
  with dup_kept_record[OF kept, of T s c None] w k dup_kept_mono[OF kept, of "Suc k"] show ?thesis by (simp add: is_aps_duplicate_def)
next
  case (DupFragment T s c window)
  with dup_kept_record[OF kept, of T s c "Some window"] w k show ?thesis by simp
next
  case (DupAge T)
  have "dup_entry_live (new_dup src ctr None (of_nat T0)) (of_nat T) (duplicate_rejection_timeout_us tmo)"
    using DupAge w elapsed[of T0 T tmo] by (auto simp: dup_entry_live_def new_dup_def word_less_nat_alt timeout_us)
  with dup_kept_map[OF kept] DupAge show ?thesis by (simp add: age_dups_def map_if_def)
next
  case (DupAbort r)
  show ?thesis
  proof (cases r)
    case (RollDuplicate s c)
    with DupAbort w dup_kept_map[OF kept] show ?thesis
      by (auto simp: abort_rollback_def map_if_def new_dup_def)
  next
    case (RollFragmentBlock s c b)
    with DupAbort dup_kept_map[OF kept] show ?thesis by (simp add: abort_rollback_def map_if_def new_dup_def)
  qed
qed

lemma dup_kept_run:
  "dup_kept T0 tmo src ctr k dups \<Longrightarrow> list_all (dup_within T0 tmo src ctr) evs \<Longrightarrow>
    k + length (filter dup_records evs) < length dups \<Longrightarrow>
    dup_kept T0 tmo src ctr (k + length (filter dup_records evs)) (fold (dup_step tmo) evs dups)"
proof (induction evs arbitrary: k dups)
  case (Cons ev evs)
  let ?k = "k + (if dup_records ev then 1 else 0)"
  have "dup_kept T0 tmo src ctr ?k (dup_step tmo ev dups)" using Cons.prems by (intro dup_kept_step) auto
  from Cons.IH[OF this] Cons.prems show ?case by (simp split: if_splits)
qed simp

text \<open>
  C10: a frame is delivered once.  After an unfragmented frame has been accepted, every later copy of it (same source, same APS
  counter) that arrives within the rejection timeout is recognised as a duplicate, whatever other frames, fragmented
  messages, maintenance calls and aborted receptions happen in between, as long as fewer other frames are recorded
  than the table has slots.  The clock may wrap around; the entries the table held before must be younger than its
  range less the timeout.
\<close>

theorem frame_delivered_once:
  assumes "is_aps_duplicate dups tmo (of_nat T0) src ctr = (False, dups0)" "\<forall>e\<in>set dups. dup_old T0 tmo e"
    and "list_all (dup_within T0 tmo src ctr) evs" "length (filter dup_records evs) < length dups"
    and "T0 \<le> T" "T < T0 + unat tmo * 1000"
  shows "fst (is_aps_duplicate (fold (dup_step tmo) evs dups0) tmo (of_nat T) src ctr)"
proof -
  have d0: "dups0 = record_duplicate dups tmo (of_nat T0) src ctr None"
    using assms(1) by (auto simp: is_aps_duplicate_def split: if_splits)
  have "dups \<noteq> []" using assms(4) by auto
  then obtain i where i: "i < length dups" "dups0 = dups[i := new_dup src ctr None (of_nat T0)]"
    unfolding d0 using record_duplicate_cases[of dups tmo "of_nat T0" src ctr None] by metis
  then have "dup_kept T0 tmo src ctr 0 dups0"
    unfolding dup_kept_def using assms(2) by (intro exI[of _ i] exI[of _ "{}"]) auto
  from dup_kept_run[OF this assms(3)] assms(4) i
  have "dup_kept T0 tmo src ctr (length (filter dup_records evs)) (fold (dup_step tmo) evs dups0)" by simp
  from dup_kept_found[OF this assms(5,6)] show ?thesis .
qed

text \<open>
  C37: the default rejection timeout is shorter than the retries of a sender of this stack.  A unicast that is sent at the
  time its receiver accepts it is handed out for retransmission 1.5 s and again 3 s later if no acknowledgement
  arrives; with \<^verbatim>\<open>apsDuplicateRejectionTimeout\<close> at its default of 3000 ms the second copy arrives when the
  entry has just expired, and a receiver with an otherwise empty table accepts it as a new frame.
\<close>

theorem late_retry_delivered_again:
  assumes "0 < n"
  shows "let entry = snd (register_ack_pending cap AckTracking_new now ctr dst frame);
             first = age_entries (now + 1500000) entry; second = age_entries (now + 3000000) (snd first);
             accepted = is_aps_duplicate (replicate n ApsDuplicateEntry_empty) 3000 now src ctr
         in (0 < cap \<and> frame \<noteq> [] \<and> length frame \<le> 128 \<longrightarrow> fst first = [0] \<and> fst second = [0]) \<and>
            \<not> fst accepted \<and> fst (is_aps_duplicate (snd accepted) 3000 (now + 1500000) src ctr) \<and>
            \<not> fst (is_aps_duplicate (snd accepted) 3000 (now + 3000000) src ctr)"
proof -
  obtain m where n: "n = Suc m" using assms gr0_implies_Suc by blast
  have t: "duplicate_rejection_timeout_us 3000 = 3000000" by (simp add: duplicate_rejection_timeout_us_def)
  have e: "\<not> dup_entry_live ApsDuplicateEntry_empty x y" for x y by (simp add: dup_entry_live_def ApsDuplicateEntry_empty_def)
  have a: "\<not> de_active ApsDuplicateEntry_empty" by (simp add: ApsDuplicateEntry_empty_def)
  have p: "position P (replicate m ApsDuplicateEntry_empty) = None" if "\<not> P ApsDuplicateEntry_empty" for P
    using that unfolding position_None_iff by simp
  have acc: "is_aps_duplicate (replicate n ApsDuplicateEntry_empty) 3000 now src ctr =
      (False, new_dup src ctr None now # replicate m ApsDuplicateEntry_empty)"
    using e p by (simp add: n is_aps_duplicate_def find_duplicate_def record_duplicate_def new_dup_def)
  have "fst (is_aps_duplicate (snd (False, new_dup src ctr None now # replicate m ApsDuplicateEntry_empty)) 3000 (now + 1500000) src ctr)"
    "\<not> fst (is_aps_duplicate (snd (False, new_dup src ctr None now # replicate m ApsDuplicateEntry_empty)) 3000 (now + 3000000) src ctr)"
    using a p by (simp_all add: is_aps_duplicate_def find_duplicate_def t new_dup_def dup_entry_live_def Let_def)
  moreover have "fst (age_entries (now + 1500000) (snd (register_ack_pending cap AckTracking_new now ctr dst frame))) = [0] \<and>
      fst (age_entries (now + 3000000) (snd (age_entries (now + 1500000) (snd (register_ack_pending cap AckTracking_new now ctr dst frame))))) = [0]"
    if "0 < cap" "frame \<noteq> []" "length frame \<le> 128"
    using that by (simp add: register_ack_pending_def register_ack_pending_inner_def AckTracking_new_def vec_push_def
        age_entries_def age_entry_def Let_def APS_ACK_WAIT_DURATION_US_def sat_sub_def)
  ultimately show ?thesis unfolding acc Let_def by simp
qed

section \<open>Witnesses\<close>

definition example_ack_history :: "AckEvent list" where
  "example_ack_history = [Register 0 7 0x1234 [1, 2] None, AckFrame 0x1234 7 False]"

theorem ack_confirmed_only_by_ack_witness:
  "\<exists>t. ack_run example_provider 4 (AckTracking_new, example_aps_layer) example_ack_history (t, example_aps_layer) \<and>
     registrations example_ack_history < 65535 \<and>
     ack_status t \<lparr>ha_dst_addr = 0x1234, ha_generation = 1, ha_aps_counter = 7\<rparr> = Some AckConfirmed \<and>
     (\<exists>pre now frame sec post secured. example_ack_history = pre @ Register now 7 0x1234 frame sec # post \<and>
        AckFrame 0x1234 7 secured \<in> set post \<and> (sec \<noteq> None \<longrightarrow> secured))"
proof -
  let ?l = example_aps_layer and ?h = "\<lparr>ha_dst_addr = 0x1234, ha_generation = 1, ha_aps_counter = 7\<rparr>"
  let ?t1 = "snd (register_ack_pending_inner 4 AckTracking_new 0 7 0x1234 [1, 2] None)"
  let ?t2 = "snd (confirm_ack_with_security 4 ?t1 0x1234 7 False)"
  have "ack_run example_provider 4 (AckTracking_new, ?l) ([] @ [Register 0 7 0x1234 [1, 2] None]) (?t1, ?l)"
    by (rule ack_run.extend[OF ack_run.start ack_step.register])
  from ack_run.extend[OF this ack_step.ack]
  have run: "ack_run example_provider 4 (AckTracking_new, ?l) example_ack_history (?t2, ?l)"
    by (simp add: example_ack_history_def)
  have few: "registrations example_ack_history < 65535" by (simp add: example_ack_history_def registrations_def)
  have st: "ack_status ?t2 ?h = Some AckConfirmed"
    by (simp add: register_ack_pending_inner_def AckTracking_new_def vec_push_def confirm_ack_with_security_def ack_status_def Let_def)
  obtain pre now frame sec post secured where "example_ack_history = pre @ Register now 7 0x1234 frame sec # post"
    "AckFrame 0x1234 7 secured \<in> set post" "sec \<noteq> None \<longrightarrow> secured"
    using ack_confirmed_only_by_ack[OF run few st] by (simp del: not_None_eq) blast
  with run few st show ?thesis by blast
qed

definition example_tracking :: AckTracking where
  "example_tracking = snd (register_ack_pending 4 AckTracking_new 0 7 0x1234 [1, 2])"

theorem retransmission_ends_witness:
  "\<exists>rs t' l'. age_calls example_provider [1500000, 3000000, 4500000, 6000000] example_tracking example_aps_layer = Some (rs, t', l') \<and>
     length rs = 3 \<and> list_all (\<lambda>e. \<not> pe_active e) (at_ack_table t')"
proof -
  note d = age_pending_acks_def age_entries_def age_entry_def APS_ACK_WAIT_DURATION_US_def sat_sub_def
  let ?nows = "[1500000, 3000000, 4500000, 6000000] :: u32 list"
  have e: "example_tracking = \<lparr>at_ack_table = [\<lparr>pe_active = True, pe_generation = 1, pe_aps_counter = 7, pe_dst_addr = 0x1234,
      pe_confirmed = False, pe_retries = 3, pe_waiting_since_us = 0, pe_original_frame = [1, 2], pe_security = None\<rparr>],
      at_ack_completions = [], at_next_ack_generation = 2, at_consecutive_ack_failures = 0\<rparr>"
    by (simp add: example_tracking_def register_ack_pending_def register_ack_pending_inner_def AckTracking_new_def vec_push_def)
  obtain rs t' l' where c: "age_calls example_provider ?nows example_tracking example_aps_layer = Some (rs, t', l')" "length rs = 3"
    by (simp add: e d Let_def)
  have "\<forall>x\<in>set (at_ack_table example_tracking). unat (pe_retries x) \<le> 3" by (simp add: e)
  from retransmission_ends[OF this c(1)] have "list_all (\<lambda>e. \<not> pe_active e) (at_ack_table t')"
    by (simp add: e APS_ACK_WAIT_DURATION_US_def)
  with c show ?thesis by blast
qed

theorem frame_delivered_once_witness:
  "fst (is_aps_duplicate (fold (dup_step 3000) [DupFrame 150 9 1, DupAge 200]
     (snd (is_aps_duplicate (replicate 4 ApsDuplicateEntry_empty) 3000 (of_nat 100) 5 7))) 3000 (of_nat 2000) 5 7)"
proof -
  let ?d = "replicate 4 ApsDuplicateEntry_empty" and ?evs = "[DupFrame 150 9 1, DupAge 200]"
  have "find_duplicate ?d 3000 (of_nat 100) 5 7 False = None"
    by (simp add: find_duplicate_def position_None_iff dup_entry_live_def ApsDuplicateEntry_empty_def)
  then have a: "is_aps_duplicate ?d 3000 (of_nat 100) 5 7 = (False, snd (is_aps_duplicate ?d 3000 (of_nat 100) 5 7))"
    by (simp add: is_aps_duplicate_def)
  have b: "\<forall>e\<in>set ?d. dup_old 100 3000 e" by (simp add: dup_old_def ApsDuplicateEntry_empty_def)
  show ?thesis by (rule frame_delivered_once[OF a b]) simp_all
qed

theorem late_retry_delivered_again_witness:
  "let accepted = is_aps_duplicate (replicate 4 ApsDuplicateEntry_empty) 3000 0 5 7
   in \<not> fst accepted \<and> \<not> fst (is_aps_duplicate (snd accepted) 3000 3000000 5 7)"
  using late_retry_delivered_again[of 4 8 0 7 5 "[1]" 5] by (simp add: Let_def)

end
