(* ===== verification/Fragment_Tx.thy ===== *)
theory Fragment_Tx
  imports Aps_Tracking
begin

text \<open>
  \<^verbatim>\<open>zigbee-aps/src/fragment_tx.rs\<close>: the transmit side of APS fragmentation.  One transaction is in flight at a time; its session
  holds the message, the acknowledged and the due blocks as bit sets, and the transmission window.  The NWK layer's data
  request is an argument (its answer and what it does to the layer below), clock readings are arguments, and
  \<^term>\<open>None\<close> of the outer option is a panic.
\<close>

section \<open>Data\<close>

definition APS_FRAGMENT_BLOCK_SIZE :: nat where "APS_FRAGMENT_BLOCK_SIZE = 64"
definition APS_SECURED_FRAGMENT_BLOCK_SIZE :: nat where "APS_SECURED_FRAGMENT_BLOCK_SIZE = 48"

record ApsdeDataConfirm =
  co_status :: ApsStatus
  co_dst_addr_mode :: ApsAddressMode
  co_dst_address :: ApsAddress
  co_dst_endpoint :: u8
  co_src_endpoint :: u8
  co_aps_counter :: u8

record ApsdeDataRequest =
  rq_dst_addr_mode :: ApsAddressMode
  rq_dst_address :: ApsAddress
  rq_dst_endpoint :: u8
  rq_profile_id :: u16
  rq_cluster_id :: u16
  rq_src_endpoint :: u8
  rq_payload :: "u8 list"
  rq_tx_options :: ApsTxOptions

record FragmentTxSecurity =
  fs_origin :: ApsKeyOrigin
  fs_src_ieee :: IeeeAddress

record FragmentTxSession =
  ft_dst :: ShortAddress
  ft_confirm :: ApsdeDataConfirm
  ft_dst_endpoint :: u8
  ft_src_endpoint :: u8
  ft_cluster_id :: u16
  ft_profile_id :: u16
  ft_radius :: u8
  ft_use_nwk_key :: bool
  ft_security :: "FragmentTxSecurity option"
  ft_payload :: "u8 list"
  ft_len :: u16
  ft_block_size :: u8
  ft_total :: u8
  ft_window_size :: u8
  ft_window_start :: u8
  ft_acked :: u16
  ft_due :: u16
  ft_retries :: u8
  ft_max_retries :: u8
  ft_waiting :: bool
  ft_waiting_since_us :: u32

section \<open>Sessions\<close>

definition tx_window_end :: "FragmentTxSession \<Rightarrow> u8" where
  "tx_window_end s = min (sat_add (ft_window_start s) (ft_window_size s)) (ft_total s)"

definition window_mask :: "FragmentTxSession \<Rightarrow> u16" where
  "window_mask s = fold (\<lambda>block m. m OR push_bit block 1) [unat (ft_window_start s)..<unat (tx_window_end s)] 0"

definition all_mask :: "FragmentTxSession \<Rightarrow> u16" where
  "all_mask s = (if ft_total s \<ge> 16 then - 1 else push_bit (unat (ft_total s)) 1 - 1)"

definition lowest_unacked_in_window :: "FragmentTxSession \<Rightarrow> u8 option" where
  "lowest_unacked_in_window s =
     map_option of_nat (find (\<lambda>block. ft_acked s AND push_bit block 1 = 0) [unat (ft_window_start s)..<unat (tx_window_end s)])"

definition tx_block :: "FragmentTxSession \<Rightarrow> u8 \<Rightarrow> u8 list option" where
  "tx_block s block =
     (let size = unat (ft_block_size s); start = unat block * size; end_off = min (start + size) (unat (ft_len s))
      in if start \<le> end_off then slice start (end_off - start) (ft_payload s) else None)"

definition tx_header :: "FragmentTxSession \<Rightarrow> u8 \<Rightarrow> ApsHeader" where
  "tx_header s block =
     \<lparr>ah_frame_control = \<lparr>ac_frame_type = ApsFrameType_to_u8 AftData, ac_delivery_mode = ApsDeliveryMode_to_u8 AdmUnicast,
        ac_ack_format = False, ac_security = (ft_security s \<noteq> None), ac_ack_request = True, ac_extended_header = True\<rparr>,
      ah_dst_endpoint = Some (ft_dst_endpoint s), ah_group_address = None, ah_cluster_id = Some (ft_cluster_id s),
      ah_profile_id = Some (ft_profile_id s), ah_src_endpoint = Some (ft_src_endpoint s),
      ah_aps_counter = co_aps_counter (ft_confirm s),
      ah_extended_header = Some \<lparr>ex_fragmentation = (if block = 0 then FRAG_FIRST else FRAG_SUBSEQUENT),
        ex_block_number = (if block = 0 then ft_total s else block), ex_ack_bitfield = None\<rparr>\<rparr>"

text \<open>The bits of the acknowledgement that acknowledge new blocks: the loop breaks at the end of the message.\<close>

fun newly_acked :: "FragmentTxSession \<Rightarrow> u8 \<Rightarrow> nat list \<Rightarrow> u16 \<Rightarrow> u16" where
  "newly_acked s bitfield [] newly = newly"
| "newly_acked s bitfield (b # bits) newly =
     (let block = sat_add (ft_window_start s) (of_nat b)
      in if block \<ge> ft_total s then newly
         else newly_acked s bitfield bits
                (if bitfield AND push_bit b 1 \<noteq> 0 \<and> ft_acked s AND push_bit (unat block) 1 = 0
                 then newly OR push_bit (unat block) 1 else newly))"

definition apply_ack :: "FragmentTxSession \<Rightarrow> u8 \<Rightarrow> u8 \<Rightarrow> bool \<times> FragmentTxSession" where
  "apply_ack s window_start bitfield =
     (if window_start \<noteq> ft_window_start s then (False, s)
      else let newly = newly_acked s bitfield [0..<unat (ft_window_size s)] 0
           in if newly = 0 then (False, s)
              else let acked = ft_acked s OR newly;
                       s = s\<lparr>ft_acked := acked, ft_due := ft_due s AND NOT acked, ft_retries := 0, ft_waiting := False\<rparr>;
                       window = window_mask s
                   in (True,
                       if ft_acked s AND window = window \<and> tx_window_end s < ft_total s
                       then let s = s\<lparr>ft_window_start := tx_window_end s\<rparr>
                            in s\<lparr>ft_due := ft_due s OR (window_mask s AND NOT (ft_acked s))\<rparr>
                       else case lowest_unacked_in_window s of
                              Some block \<Rightarrow> s\<lparr>ft_due := ft_due s OR push_bit (unat block) 1\<rparr>
                            | None \<Rightarrow> s))"

definition tx_complete :: "FragmentTxSession \<Rightarrow> bool" where
  "tx_complete s \<longleftrightarrow> ft_acked s = all_mask s"

section \<open>The layer\<close>

record FragmentSender =
  sn_layer :: ApsLayer
  sn_aps_counter :: u8
  sn_aps_max_window_size :: u8
  sn_aps_max_frame_retries :: u8
  sn_fragment_tx :: "FragmentTxSession option"
  sn_fragment_tx_confirm :: "ApsdeDataConfirm option"

definition drop_fragment_tx :: "FragmentSender \<Rightarrow> FragmentSender" where
  "drop_fragment_tx n = n\<lparr>sn_fragment_tx := None\<rparr>"

definition finish_fragment_tx :: "FragmentSender \<Rightarrow> ApsStatus \<Rightarrow> FragmentSender" where
  "finish_fragment_tx n status =
     drop_fragment_tx (case sn_fragment_tx n of
       Some session \<Rightarrow> n\<lparr>sn_fragment_tx_confirm := Some ((ft_confirm session)\<lparr>co_status := status\<rparr>)\<rparr>
     | None \<Rightarrow> n)"

text \<open>\<^verbatim>\<open>trailing_zeros\<close> of a word that is not zero.\<close>

definition trailing_zeros :: "u16 \<Rightarrow> nat" where
  "trailing_zeros w = (case find (\<lambda>i. bit w i) [0..<16] of Some i \<Rightarrow> i | None \<Rightarrow> 16)"

definition secure_fragment ::
    "'e provider \<Rightarrow> FragmentSender \<Rightarrow> u8 list \<Rightarrow> u8 list \<Rightarrow> FragmentTxSecurity \<Rightarrow> (u8 list option \<times> FragmentSender) option" where
  "secure_fragment provider n header chunk security =
     map_option (\<lambda>(frame, l). (frame, n\<lparr>sn_layer := l\<rparr>))
       (secure_with_origin provider (sn_layer n) (fs_origin security) (fs_src_ieee security) header chunk)"

type_synonym DueFragment = "ShortAddress \<times> bool \<times> u8 \<times> u8 list"

text \<open>The last part of \<^verbatim>\<open>next_due_fragment\<close>: the block is marked as sent.\<close>

definition mark_sent :: "FragmentSender \<Rightarrow> FragmentTxSession \<Rightarrow> nat \<Rightarrow> u32 \<Rightarrow> FragmentSender" where
  "mark_sent n session block now =
     (let due = ft_due session AND NOT (push_bit block 1)
      in n\<lparr>sn_fragment_tx := Some (if due = 0
           then session\<lparr>ft_due := due, ft_waiting := True, ft_waiting_since_us := now\<rparr>
           else session\<lparr>ft_due := due\<rparr>)\<rparr>)"

definition next_due_fragment ::
    "'e provider \<Rightarrow> u32 \<Rightarrow> FragmentSender \<Rightarrow> (DueFragment option \<times> FragmentSender) option" where
  "next_due_fragment provider now n =
     (case sn_fragment_tx n of
        None \<Rightarrow> Some (None, n)
      | Some session \<Rightarrow>
          if ft_due session = 0 then Some (None, n)
          else let block = trailing_zeros (ft_due session)
               in case ApsHeader_serialize (tx_header session (of_nat block)) (replicate 16 0) of
                    None \<Rightarrow> None
                  | Some (header_buf, header_len) \<Rightarrow>
                      (case tx_block session (of_nat block) of
                         None \<Rightarrow> None
                       | Some chunk \<Rightarrow>
                           (case ft_security session of
                              None \<Rightarrow>
                                if header_len + length chunk > 128 then Some (None, n)
                                else Some (Some (ft_dst session, ft_use_nwk_key session, ft_radius session,
                                             take header_len header_buf @ chunk), mark_sent n session block now)
                            | Some security \<Rightarrow>
                                if length chunk > APS_SECURED_FRAGMENT_BLOCK_SIZE then None
                                else (case secure_fragment provider n (take header_len header_buf) chunk security of
                                        None \<Rightarrow> None
                                      | Some (None, n) \<Rightarrow> Some (None, finish_fragment_tx n SecurityFail)
                                      | Some (Some frame, n) \<Rightarrow>
                                          Some (Some (ft_dst session, ft_use_nwk_key session, ft_radius session, frame),
                                                mark_sent n session block now)))))"

section \<open>Sending\<close>

definition nwk_status_to_aps :: "NwkStatus \<Rightarrow> ApsStatus" where
  "nwk_status_to_aps nwk_err =
     (case nwk_err of FrameTooLong \<Rightarrow> AsduTooLong | InvalidRequest \<Rightarrow> IllegalRequest
      | RouteError \<Rightarrow> NoShortAddress | RouteDiscoveryFailed \<Rightarrow> NoShortAddress | _ \<Rightarrow> NoAck)"

text \<open>\<^verbatim>\<open>nlde_data_request(dst, radius, payload, use_nwk_key, discover_route)\<close> of the layer below.\<close>

type_synonym nlde = "ShortAddress \<Rightarrow> u8 \<Rightarrow> u8 list \<Rightarrow> bool \<Rightarrow> bool \<Rightarrow> ApsLayer \<Rightarrow> (NwkStatus + unit) \<times> ApsLayer"

definition pending_due :: "FragmentSender \<Rightarrow> bool" where
  "pending_due n \<longleftrightarrow> (case sn_fragment_tx n of Some session \<Rightarrow> ft_due session \<noteq> 0 | None \<Rightarrow> False)"

definition due_blocks :: "FragmentSender \<Rightarrow> nat" where
  "due_blocks n = (case sn_fragment_tx n of Some session \<Rightarrow> card {i. bit (ft_due session) i} | None \<Rightarrow> 0)"

lemma trailing_zeros_bit: "w \<noteq> 0 \<Longrightarrow> bit w (trailing_zeros w) \<and> trailing_zeros w < 16"
proof -
  assume "w \<noteq> 0"
  then obtain i where i: "bit w i" by (auto simp: bit_eq_iff)
  then have "i < 16" using bit_imp_le_length[of w i] by simp
  with i have "find (bit w) [0..<16] \<noteq> None" by (auto simp: find_None_iff)
  then obtain j where j: "find (bit w) [0..<16] = Some j" by auto
  from find_SomeD[OF this] j show ?thesis by (simp add: trailing_zeros_def)
qed

lemma bit_bound: "bit w i \<Longrightarrow> i < 16" for w :: u16
  using bit_imp_le_length[of w i] by simp

lemma finite_bits: "finite {i. bit w i}" for w :: u16
  by (rule finite_subset[of _ "{..<16}"]) (auto dest: bit_bound)

lemma clear_bit: "bit (w AND NOT (2 ^ b)) i \<longleftrightarrow> bit w i \<and> i \<noteq> b" for w :: u16
  by (auto simp: bit_simps dest: bit_bound)

lemma mark_sent_due:
  assumes "bit (ft_due session) block"
  shows "due_blocks (mark_sent n session block now) < card {i. bit (ft_due session) i}"
proof -
  have "{i. bit (ft_due session AND NOT (2 ^ block)) i} \<subset> {i. bit (ft_due session) i}"
    using assms by (auto simp: clear_bit)
  moreover have "due_blocks (mark_sent n session block now) = card {i. bit (ft_due session AND NOT (2 ^ block)) i}"
    by (cases "ft_due session AND NOT (2 ^ block) = 0") (simp_all add: due_blocks_def mark_sent_def Let_def card_eq_0_iff Collect_empty_eq_bot)
  ultimately show ?thesis using psubset_card_mono[OF finite_bits] by metis
qed

lemma next_due_fragment_sent:
  assumes "next_due_fragment provider now n = Some (Some f, n')"
  obtains session n1 where "sn_fragment_tx n = Some session" "ft_due session \<noteq> 0"
    "n' = mark_sent n1 session (trailing_zeros (ft_due session)) now" "\<exists>l. n1 = n\<lparr>sn_layer := l\<rparr>"
proof -
  have "\<exists>session n1. sn_fragment_tx n = Some session \<and> ft_due session \<noteq> 0 \<and>
      n' = mark_sent n1 session (trailing_zeros (ft_due session)) now \<and> (\<exists>l. n1 = n\<lparr>sn_layer := l\<rparr>)"
  proof -
    have "\<exists>l. n = n\<lparr>sn_layer := l\<rparr>" by (rule exI[of _ "sn_layer n"]) simp
    with assms show ?thesis unfolding next_due_fragment_def secure_fragment_def Let_def
      by (auto split: option.splits if_splits prod.splits)
  qed
  with that show thesis by blast
qed

lemma next_due_decreases:
  assumes "next_due_fragment provider now n = Some (Some f, n')"
  shows "due_blocks n' < due_blocks n"
  using assms
proof (rule next_due_fragment_sent)
  fix session n1
  assume a: "sn_fragment_tx n = Some session" "ft_due session \<noteq> 0"
    "n' = mark_sent n1 session (trailing_zeros (ft_due session)) now"
  from mark_sent_due[OF conjunct1[OF trailing_zeros_bit[OF a(2)]]] a show ?thesis by (simp add: due_blocks_def)
qed

lemma due_blocks_layer [simp]: "due_blocks (n\<lparr>sn_layer := l\<rparr>) = due_blocks n"
  by (simp add: due_blocks_def)

text \<open>The sending loop; \<open>clock k\<close> is the reading of the clock in round \<open>k\<close>.  The blocks handed to the layer below are returned.\<close>

function send_due_fragments ::
    "'e provider \<Rightarrow> nlde \<Rightarrow> (nat \<Rightarrow> u32) \<Rightarrow> nat \<Rightarrow> FragmentSender \<Rightarrow> (DueFragment list \<times> FragmentSender) option" where
  "send_due_fragments provider nlde clock k n =
     (if \<not> pending_due n then Some ([], n)
      else case next_due_fragment provider (clock k) n of
             None \<Rightarrow> None
           | Some (None, n) \<Rightarrow> Some ([], n)
           | Some (Some (dst, use_nwk_key, radius, frame), n) \<Rightarrow>
               map_option (\<lambda>(fs, n). ((dst, use_nwk_key, radius, frame) # fs, n))
                 (send_due_fragments provider nlde clock (Suc k)
                    (n\<lparr>sn_layer := snd (nlde dst radius frame use_nwk_key True (sn_layer n))\<rparr>)))"
  by pat_completeness auto
termination
  by (relation "measure (\<lambda>(provider, nlde, clock, k, n). due_blocks n)") (auto dest!: next_due_decreases)


definition next_aps_counter :: "FragmentSender \<Rightarrow> u8 \<times> FragmentSender" where
  "next_aps_counter n = (sn_aps_counter n, n\<lparr>sn_aps_counter := sn_aps_counter n + 1\<rparr>)"

text \<open>The session \<^verbatim>\<open>start_fragmented_tx\<close> builds once the request is accepted.\<close>

definition new_session ::
    "ApsdeDataRequest \<Rightarrow> ShortAddress \<Rightarrow> u8 \<Rightarrow> FragmentTxSecurity option \<Rightarrow> nat \<Rightarrow> nat \<Rightarrow> u8 \<Rightarrow> FragmentSender \<Rightarrow> u32 \<Rightarrow> FragmentTxSession" where
  "new_session req nwk_dst radius security block_size tot aps_counter n now =
     (let session = \<lparr>ft_dst = nwk_dst,
            ft_confirm = \<lparr>co_status = ApsSuccess, co_dst_addr_mode = rq_dst_addr_mode req, co_dst_address = rq_dst_address req,
              co_dst_endpoint = rq_dst_endpoint req, co_src_endpoint = rq_src_endpoint req, co_aps_counter = aps_counter\<rparr>,
            ft_dst_endpoint = rq_dst_endpoint req, ft_src_endpoint = rq_src_endpoint req, ft_cluster_id = rq_cluster_id req,
            ft_profile_id = rq_profile_id req, ft_radius = radius, ft_use_nwk_key = tx_use_nwk_key (rq_tx_options req),
            ft_security = security,
            ft_payload = rq_payload req @ replicate (APS_MAX_FRAGMENTED_ASDU - length (rq_payload req)) 0,
            ft_len = of_nat (length (rq_payload req)), ft_block_size = of_nat block_size, ft_total = of_nat tot,
            ft_window_size = clamp_window_size (sn_aps_max_window_size n), ft_window_start = 0, ft_acked = 0, ft_due = 0,
            ft_retries = 0, ft_max_retries = sn_aps_max_frame_retries n, ft_waiting = False, ft_waiting_since_us = now\<rparr>
      in session\<lparr>ft_due := window_mask session\<rparr>)"

definition tx_security ::
    "(ShortAddress \<Rightarrow> IeeeAddress option) \<Rightarrow> FragmentSender \<Rightarrow> ApsdeDataRequest \<Rightarrow> ShortAddress \<Rightarrow> ApsStatus + FragmentTxSecurity option" where
  "tx_security find_ieee_by_short n req nwk_dst =
     (if tx_security_enabled (rq_tx_options req)
      then (case aps_data_key_origin (sn_layer n) (find_ieee_by_short nwk_dst) nwk_dst of
              None \<Rightarrow> Inl SecurityFail
            | Some origin \<Rightarrow> Inr (Some \<lparr>fs_origin = origin, fs_src_ieee = nl_ieee_address (al_nwk (sn_layer n))\<rparr>))
      else Inr None)"

text \<open>From the accepted request to the first window on the air.\<close>

definition launch_fragmented_tx ::
    "'e provider \<Rightarrow> nlde \<Rightarrow> (nat \<Rightarrow> u32) \<Rightarrow> FragmentSender \<Rightarrow> ApsdeDataRequest \<Rightarrow> ShortAddress \<Rightarrow> u8 \<Rightarrow>
       FragmentTxSecurity option \<Rightarrow> nat \<Rightarrow> nat \<Rightarrow> ((ApsStatus + ApsdeDataConfirm) \<times> DueFragment list \<times> FragmentSender) option" where
  "launch_fragmented_tx provider nlde clock n req nwk_dst radius security block_size tot =
     (case next_aps_counter n of (aps_counter, n) \<Rightarrow>
        let session = new_session req nwk_dst radius security block_size tot aps_counter n (clock 0);
            n = n\<lparr>sn_fragment_tx := Some session, sn_fragment_tx_confirm := None\<rparr>
        in case next_due_fragment provider (clock 1) n of
             None \<Rightarrow> None
           | Some (None, n) \<Rightarrow> Some (Inl SecurityFail, [], drop_fragment_tx n)
           | Some (Some (dst, use_nwk_key, radius, frame), n) \<Rightarrow>
               (case nlde dst radius frame use_nwk_key True (sn_layer n) of
                  (Inl err, l) \<Rightarrow>
                    Some (Inl (nwk_status_to_aps err), [(dst, use_nwk_key, radius, frame)], drop_fragment_tx (n\<lparr>sn_layer := l\<rparr>))
                | (Inr _, l) \<Rightarrow>
                    map_option (\<lambda>(fs, n). (Inr \<lparr>co_status = ApsSuccess, co_dst_addr_mode = rq_dst_addr_mode req,
                        co_dst_address = rq_dst_address req, co_dst_endpoint = rq_dst_endpoint req,
                        co_src_endpoint = rq_src_endpoint req, co_aps_counter = aps_counter\<rparr>,
                        (dst, use_nwk_key, radius, frame) # fs, n))
                      (send_due_fragments provider nlde clock 2 (n\<lparr>sn_layer := l\<rparr>))))"

definition start_fragmented_tx ::
    "'e provider \<Rightarrow> nlde \<Rightarrow> (ShortAddress \<Rightarrow> IeeeAddress option) \<Rightarrow> (nat \<Rightarrow> u32) \<Rightarrow> FragmentSender \<Rightarrow> ApsdeDataRequest \<Rightarrow>
       ShortAddress \<Rightarrow> ApsDeliveryMode \<Rightarrow> u8 \<Rightarrow> ((ApsStatus + ApsdeDataConfirm) \<times> DueFragment list \<times> FragmentSender) option" where
  "start_fragmented_tx provider nlde find_ieee_by_short clock n req nwk_dst delivery_mode radius =
     (if delivery_mode \<noteq> AdmUnicast \<or> \<not> tx_ack_request (rq_tx_options req) \<or> length (rq_payload req) > APS_MAX_FRAGMENTED_ASDU
      then Some (Inl AsduTooLong, [], n)
      else if sn_fragment_tx n \<noteq> None then Some (Inl InsufficientSpace, [], n)
      else case tx_security find_ieee_by_short n req nwk_dst of
             Inl err \<Rightarrow> Some (Inl err, [], n)
           | Inr security \<Rightarrow>
               let block_size = (if security \<noteq> None then APS_SECURED_FRAGMENT_BLOCK_SIZE else APS_FRAGMENT_BLOCK_SIZE);
                   tot = (length (rq_payload req) + block_size - 1) div block_size
               in if tot > unat APS_MAX_FRAGMENT_BLOCKS \<or> tot < 2 then Some (Inl AsduTooLong, [], n)
                  else launch_fragmented_tx provider nlde clock n req nwk_dst radius security block_size tot)"

section \<open>Timer and acknowledgements\<close>

definition poll_fragment_tx_timeout :: "u32 \<Rightarrow> FragmentSender \<Rightarrow> FragmentSender" where
  "poll_fragment_tx_timeout now n =
     (case sn_fragment_tx n of
        None \<Rightarrow> n
      | Some session \<Rightarrow>
          if \<not> ft_waiting session \<or> now - ft_waiting_since_us session < APS_ACK_WAIT_DURATION_US then n
          else if ft_retries session \<ge> ft_max_retries session then finish_fragment_tx n NoAck
          else let session = session\<lparr>ft_retries := ft_retries session + 1, ft_waiting := False\<rparr>
               in n\<lparr>sn_fragment_tx := Some (case lowest_unacked_in_window session of
                      Some block \<Rightarrow> session\<lparr>ft_due := ft_due session OR push_bit (unat block) 1\<rparr>
                    | None \<Rightarrow> session)\<rparr>)"

definition handle_fragment_ack :: "FragmentSender \<Rightarrow> ShortAddress \<Rightarrow> u8 \<Rightarrow> ApsExtendedHeader \<Rightarrow> bool \<Rightarrow> bool \<times> FragmentSender" where
  "handle_fragment_ack n src aps_counter ext aps_secured =
     (case sn_fragment_tx n of
        None \<Rightarrow> (False, n)
      | Some session \<Rightarrow>
          if ft_dst session \<noteq> src \<or> co_aps_counter (ft_confirm session) \<noteq> aps_counter then (False, n)
          else if ft_security session \<noteq> None \<and> \<not> aps_secured then (True, n)
          else case ex_ack_bitfield ext of
                 None \<Rightarrow> (True, n)
               | Some bitfield \<Rightarrow>
                   (case apply_ack session (ex_block_number ext) bitfield of
                      (newly, session) \<Rightarrow>
                        let n = n\<lparr>sn_fragment_tx := Some session\<rparr>
                        in (True, if newly \<and> tx_complete session then finish_fragment_tx n ApsSuccess else n)))"

definition service_fragment_tx ::
    "'e provider \<Rightarrow> nlde \<Rightarrow> (nat \<Rightarrow> u32) \<Rightarrow> FragmentSender \<Rightarrow> (DueFragment list \<times> FragmentSender) option" where
  "service_fragment_tx provider nlde clock n = send_due_fragments provider nlde clock 1 (poll_fragment_tx_timeout (clock 0) n)"

definition fragmented_tx_active :: "FragmentSender \<Rightarrow> bool" where
  "fragmented_tx_active n \<longleftrightarrow> sn_fragment_tx n \<noteq> None"

definition has_pending_ack :: "FragmentSender \<Rightarrow> AckTracking \<Rightarrow> bool" where
  "has_pending_ack n t \<longleftrightarrow> sn_fragment_tx n \<noteq> None \<or> unicast_ack_pending t"

definition awaits_unicast_ack_only :: "FragmentSender \<Rightarrow> AckTracking \<Rightarrow> bool" where
  "awaits_unicast_ack_only n t \<longleftrightarrow> sn_fragment_tx n = None \<and> unicast_ack_pending t"

definition take_fragmented_tx_confirm :: "FragmentSender \<Rightarrow> ApsdeDataConfirm option \<times> FragmentSender" where
  "take_fragmented_tx_confirm n = (sn_fragment_tx_confirm n, n\<lparr>sn_fragment_tx_confirm := None\<rparr>)"

text \<open>The blocks \<^verbatim>\<open>age_ack_table\<close> adds while the vector of retransmissions has room.\<close>

fun hand_out_fragments ::
    "'e provider \<Rightarrow> (nat \<Rightarrow> u32) \<Rightarrow> nat \<Rightarrow> FragmentSender \<Rightarrow> (ApsRetransmission list \<times> FragmentSender) option" where
  "hand_out_fragments provider clock 0 n = Some ([], n)"
| "hand_out_fragments provider clock (Suc room) n =
     (case next_due_fragment provider (clock room) n of
        None \<Rightarrow> None
      | Some (None, n) \<Rightarrow> Some ([], n)
      | Some (Some (dst_addr, _, _, frame), n) \<Rightarrow>
          map_option (\<lambda>(rs, n). (\<lparr>rt_dst_addr = dst_addr, rt_frame = frame\<rparr> # rs, n)) (hand_out_fragments provider clock room n))"

definition age_ack_table ::
    "'e provider \<Rightarrow> (nat \<Rightarrow> u32) \<Rightarrow> nat \<Rightarrow> u32 \<Rightarrow> u32 \<Rightarrow> AckTracking \<Rightarrow> FragmentSender \<Rightarrow>
       (ApsRetransmission list \<times> AckTracking \<times> FragmentSender) option" where
  "age_ack_table provider clock cap now poll_now t n =
     (case age_pending_acks provider now t (sn_layer n) of
        None \<Rightarrow> None
      | Some (rs, t, l) \<Rightarrow>
          map_option (\<lambda>(fs, n). (rs @ fs, t, n))
            (hand_out_fragments provider clock (cap - length rs) (poll_fragment_tx_timeout poll_now (n\<lparr>sn_layer := l\<rparr>))))"


section \<open>Windows and bit sets\<close>

abbreviation acked :: "FragmentTxSession \<Rightarrow> nat \<Rightarrow> bool" where "acked s b \<equiv> bit (ft_acked s) b"
abbreviation due :: "FragmentTxSession \<Rightarrow> nat \<Rightarrow> bool" where "due s b \<equiv> bit (ft_due s) b"
abbreviation win_start :: "FragmentTxSession \<Rightarrow> nat" where "win_start s \<equiv> unat (ft_window_start s)"
abbreviation win_end :: "FragmentTxSession \<Rightarrow> nat" where "win_end s \<equiv> unat (tx_window_end s)"
abbreviation blocks :: "FragmentTxSession \<Rightarrow> nat" where "blocks s \<equiv> unat (ft_total s)"

definition geometry :: "FragmentTxSession \<Rightarrow> bool" where
  "geometry s \<longleftrightarrow> 0 < blocks s \<and> blocks s \<le> 16 \<and> 0 < unat (ft_window_size s) \<and> unat (ft_window_size s) \<le> 8 \<and> win_start s < blocks s"

lemma win_end_eq: "geometry s \<Longrightarrow> win_end s = min (win_start s + unat (ft_window_size s)) (blocks s)"
  by (auto simp: tx_window_end_def geometry_def min_def word_le_nat_alt unat_sat_add)

lemma fold_or_bits: "bit (fold (\<lambda>b m. m OR 2 ^ b) bs (w :: u16)) i \<longleftrightarrow> bit w i \<or> i \<in> set bs \<and> i < 16"
  by (induction bs arbitrary: w) (auto simp: bit_simps)

lemma window_mask_bit: "geometry s \<Longrightarrow> bit (window_mask s) i \<longleftrightarrow> win_start s \<le> i \<and> i < win_end s"
  using win_end_eq[of s] by (auto simp: window_mask_def fold_or_bits geometry_def)

lemma all_mask_bit: "geometry s \<Longrightarrow> bit (all_mask s) i \<longleftrightarrow> i < blocks s"
proof (cases "ft_total s \<ge> 16")
  case True
  assume "geometry s"
  with True have "blocks s = 16" by (auto simp: geometry_def word_le_nat_alt)
  then show ?thesis using True by (auto simp: all_mask_def dest: bit_bound)
next
  case False
  then have "blocks s < 16" by (simp add: word_le_nat_alt)
  then show ?thesis using False
    by (auto simp: all_mask_def push_bit_eq_mult bit_mask_iff[where 'a = "16 word", unfolded mask_eq_exp_minus_1])
qed

lemma and_bit_zero: "w AND 2 ^ b = 0 \<longleftrightarrow> \<not> bit w b" for w :: "'a::len word"
  by (simp add: and_exp_eq_0_iff_not_bit)

lemma lowest_unacked_None:
  "lowest_unacked_in_window s = None \<longleftrightarrow> (\<forall>b. win_start s \<le> b \<and> b < win_end s \<longrightarrow> acked s b)"
  by (auto simp: lowest_unacked_in_window_def find_None_iff and_bit_zero)

lemma lowest_unacked_Some:
  assumes "geometry s" "lowest_unacked_in_window s = Some block"
  shows "win_start s \<le> unat block \<and> unat block < win_end s \<and> \<not> acked s (unat block)"
proof -
  obtain b where b: "find (\<lambda>block. ft_acked s AND push_bit block 1 = 0) [win_start s..<win_end s] = Some b" "block = of_nat b"
    using assms(2) by (auto simp: lowest_unacked_in_window_def)
  have "b < 256" using find_SomeD[OF b(1)] win_end_eq[OF assms(1)] assms(1) by (auto simp: geometry_def)
  with find_SomeD[OF b(1)] b(2) show ?thesis by (simp add: unat_of_nat_u8 and_bit_zero)
qed

lemma newly_acked_bits:
  assumes "geometry s" "w \<le> 8"
  shows "bit (newly_acked s bitfield [k..<w] m) i \<longleftrightarrow>
    bit m i \<or> (\<exists>b. k \<le> b \<and> b < w \<and> i = win_start s + b \<and> i < blocks s \<and> bit bitfield b \<and> \<not> acked s i)"
  using assms(2)
proof (induction "w - k" arbitrary: k m)
  case 0
  then show ?case by auto
next
  case (Suc d)
  then have k: "k < w" by simp
  have u: "unat (sat_add (ft_window_start s) (of_nat k)) = win_start s + k"
    using assms(1) k Suc.prems by (simp add: unat_sat_add geometry_def unat_of_nat_u8)
  have up: "[k..<w] = k # [Suc k..<w]" using k by (simp add: upt_conv_Cons)
  show ?case
  proof (cases "win_start s + k < blocks s")
    case False
    then show ?thesis unfolding up by (auto simp: Let_def word_le_nat_alt u)
  next
    case True
    let ?m = "if bitfield AND push_bit k 1 \<noteq> 0 \<and> ft_acked s AND push_bit (win_start s + k) 1 = 0
      then m OR push_bit (win_start s + k) 1 else m"
    have "newly_acked s bitfield [k..<w] m = newly_acked s bitfield [Suc k..<w] ?m"
      unfolding up using True by (simp add: Let_def word_le_nat_alt u)
    moreover have "bit ?m i \<longleftrightarrow> bit m i \<or> i = win_start s + k \<and> bit bitfield k \<and> \<not> acked s i"
      using True assms(1) by (auto simp: and_bit_zero bit_simps geometry_def)
    ultimately show ?thesis using Suc.hyps(1)[of "Suc k" ?m] Suc.hyps(2) Suc.prems True k
      by (simp add: Suc_le_eq) (metis le_neq_implies_less order_refl less_imp_le)
  qed
qed


section \<open>The session invariant\<close>

text \<open>The fields a session never changes, and the message in its buffer.\<close>

definition tx_message :: "FragmentTxSession \<Rightarrow> bool" where
  "tx_message s \<longleftrightarrow> length (ft_payload s) = 256 \<and> unat (ft_len s) \<le> 256 \<and> 0 < unat (ft_block_size s) \<and>
     unat (ft_block_size s) \<le> (if ft_security s = None then 64 else 48) \<and>
     (blocks s - 1) * unat (ft_block_size s) < unat (ft_len s) \<and> unat (ft_len s) \<le> blocks s * unat (ft_block_size s)"

text \<open>
  Everything before the window is acknowledged, nothing after it; the window has an unacknowledged block; blocks that
  are due lie in the window and are unacknowledged; and the session either has a block to send or waits for an
  acknowledgement, never both and never neither.
\<close>

definition tx_wf :: "FragmentTxSession \<Rightarrow> bool" where
  "tx_wf s \<longleftrightarrow> geometry s \<and> tx_message s \<and> (\<forall>b<win_start s. acked s b) \<and> (\<forall>b. acked s b \<longrightarrow> b < win_end s) \<and>
     (\<exists>b. win_start s \<le> b \<and> b < win_end s \<and> \<not> acked s b) \<and>
     (\<forall>b. due s b \<longrightarrow> win_start s \<le> b \<and> b < win_end s \<and> \<not> acked s b) \<and>
     ft_waiting s = (ft_due s = 0) \<and> ft_retries s \<le> ft_max_retries s"

lemma tx_wfI:
  assumes "geometry s" "tx_message s" "\<And>b. b < win_start s \<Longrightarrow> acked s b" "\<And>b. acked s b \<Longrightarrow> b < win_end s"
    "win_start s \<le> c" "c < win_end s" "\<not> acked s c"
    "\<And>b. due s b \<Longrightarrow> win_start s \<le> b \<and> b < win_end s \<and> \<not> acked s b"
    "ft_waiting s = (ft_due s = 0)" "ft_retries s \<le> ft_max_retries s"
  shows "tx_wf s"
  using assms unfolding tx_wf_def by blast

definition same_transaction :: "FragmentTxSession \<Rightarrow> FragmentTxSession \<Rightarrow> bool" where
  "same_transaction s s' \<longleftrightarrow> ft_dst s' = ft_dst s \<and> ft_confirm s' = ft_confirm s \<and> ft_dst_endpoint s' = ft_dst_endpoint s \<and>
     ft_src_endpoint s' = ft_src_endpoint s \<and> ft_cluster_id s' = ft_cluster_id s \<and> ft_profile_id s' = ft_profile_id s \<and>
     ft_radius s' = ft_radius s \<and> ft_use_nwk_key s' = ft_use_nwk_key s \<and> ft_security s' = ft_security s \<and>
     ft_payload s' = ft_payload s \<and> ft_len s' = ft_len s \<and> ft_block_size s' = ft_block_size s \<and> ft_total s' = ft_total s \<and>
     ft_window_size s' = ft_window_size s \<and> ft_max_retries s' = ft_max_retries s"

lemma same_transaction_refl [simp]: "same_transaction s s" by (simp add: same_transaction_def)

lemma same_transaction_trans: "same_transaction s s1 \<Longrightarrow> same_transaction s1 s2 \<Longrightarrow> same_transaction s s2"
  by (simp add: same_transaction_def)

lemma same_transaction_message: "same_transaction s s' \<Longrightarrow> tx_message s' = tx_message s"
  by (simp add: same_transaction_def tx_message_def)

lemma word_zero_iff: "w = 0 \<longleftrightarrow> (\<forall>b. \<not> bit w b)" for w :: u16
  by (auto simp: bit_eq_iff dest: bit_bound)

lemma mark_sent_wf:
  assumes wf: "tx_wf s" and b: "due s b"
    and s': "sn_fragment_tx (mark_sent n s b now) = Some s'"
  shows "tx_wf s' \<and> same_transaction s s' \<and> ft_acked s' = ft_acked s \<and> ft_retries s' = ft_retries s"
proof -
  have f: "ft_due s' = ft_due s AND NOT (2 ^ b)" "ft_waiting s' = (if ft_due s AND NOT (2 ^ b) = 0 then True else ft_waiting s)"
    "same_transaction s s'" "ft_acked s' = ft_acked s" "ft_window_start s' = ft_window_start s" "ft_retries s' = ft_retries s"
    using s' by (auto simp: mark_sent_def Let_def same_transaction_def split: if_splits)
  have "ft_due s \<noteq> 0" using b by auto
  with wf have "\<not> ft_waiting s" by (simp add: tx_wf_def)
  then have w: "ft_waiting s' = (ft_due s' = 0)" using f(1,2) by simp
  have g: "tx_window_end s' = tx_window_end s" "ft_total s' = ft_total s" "ft_window_size s' = ft_window_size s"
    "ft_max_retries s' = ft_max_retries s" using f(3,5) by (simp_all add: tx_window_end_def same_transaction_def)
  then have "geometry s' = geometry s" using f(5) by (simp add: geometry_def)
  with wf w f g same_transaction_message[OF f(3)] show ?thesis unfolding tx_wf_def by (simp add: clear_bit)
qed

lemma poll_session:
  assumes wf: "tx_wf s" and w: "ft_waiting s" and r: "ft_retries s < ft_max_retries s"
    and s1: "s1 = s\<lparr>ft_retries := ft_retries s + 1, ft_waiting := False\<rparr>"
    and s': "s' = (case lowest_unacked_in_window s1 of
       Some block \<Rightarrow> s1\<lparr>ft_due := ft_due s1 OR push_bit (unat block) 1\<rparr> | None \<Rightarrow> s1)"
  shows "tx_wf s' \<and> same_transaction s s' \<and> ft_acked s' = ft_acked s \<and> unat (ft_retries s') = Suc (unat (ft_retries s))"
proof -
  have g: "geometry s" and u: "\<exists>b. win_start s \<le> b \<and> b < win_end s \<and> \<not> acked s b" using wf by (simp_all add: tx_wf_def)
  have e: "win_start s1 = win_start s" "tx_window_end s1 = tx_window_end s" "ft_acked s1 = ft_acked s" "geometry s1"
    using g by (simp_all add: s1 tx_window_end_def geometry_def)
  have "lowest_unacked_in_window s1 \<noteq> None" using u unfolding lowest_unacked_None e by blast
  then obtain block where b: "lowest_unacked_in_window s1 = Some block" by auto
  note lb = lowest_unacked_Some[OF e(4) b, unfolded e]
  have f: "ft_due s' = ft_due s OR push_bit (unat block) 1" "ft_waiting s' = False" "ft_acked s' = ft_acked s"
    "ft_window_start s' = ft_window_start s" "same_transaction s s'" "ft_retries s' = ft_retries s + 1" "tx_window_end s' = tx_window_end s"
    using s' b by (simp_all add: s1 same_transaction_def tx_window_end_def)
  have r1: "unat (ft_retries s + 1) = Suc (unat (ft_retries s))"
    using r unat_bounds(1)[of "ft_max_retries s"] by (simp add: word_less_nat_alt unat_word_ariths)
  have l16: "unat block < 16" using lb win_end_eq[OF g] g by (simp add: geometry_def)
  have d: "due s' i \<longleftrightarrow> due s i \<or> i = unat block" for i using f(1) l16 by (auto simp: bit_simps)
  then have "ft_due s' \<noteq> 0" unfolding word_zero_iff by blast
  moreover have "geometry s'" using g f(4,5) by (simp add: geometry_def same_transaction_def)
  moreover have "ft_retries s' \<le> ft_max_retries s'" using f(5,6) r1 r by (simp add: same_transaction_def word_le_nat_alt word_less_nat_alt)
  ultimately show ?thesis using wf d lb f r1 same_transaction_message[OF f(5)] unfolding tx_wf_def by auto
qed


text \<open>The blocks an acknowledgement newly acknowledges.\<close>

definition acks_new :: "FragmentTxSession \<Rightarrow> u8 \<Rightarrow> nat \<Rightarrow> bool" where
  "acks_new s bitfield b \<longleftrightarrow> (\<exists>i. i < unat (ft_window_size s) \<and> b = win_start s + i \<and> b < blocks s \<and> bit bitfield i \<and> \<not> acked s b)"

lemma masked_all: "w AND m = m \<longleftrightarrow> (\<forall>b. bit m b \<longrightarrow> bit w b)" for w m :: u16
  by (auto simp: bit_eq_iff bit_simps dest: bit_bound)

lemma apply_ack_cases:
  assumes g: "geometry s" and r: "apply_ack s ws bitfield = (True, s')"
  obtains s1 where "ws = ft_window_start s"
    "s1 = s\<lparr>ft_acked := ft_acked s1, ft_due := ft_due s AND NOT (ft_acked s1), ft_retries := 0, ft_waiting := False\<rparr>"
    "\<And>b. acked s1 b \<longleftrightarrow> acked s b \<or> acks_new s bitfield b" "\<exists>b. acks_new s bitfield b"
    "s' = (if ft_acked s1 AND window_mask s1 = window_mask s1 \<and> tx_window_end s1 < ft_total s1
       then let s2 = s1\<lparr>ft_window_start := tx_window_end s1\<rparr> in s2\<lparr>ft_due := ft_due s2 OR (window_mask s2 AND NOT (ft_acked s2))\<rparr>
       else case lowest_unacked_in_window s1 of
              Some block \<Rightarrow> s1\<lparr>ft_due := ft_due s1 OR push_bit (unat block) 1\<rparr> | None \<Rightarrow> s1)"
proof -
  let ?newly = "newly_acked s bitfield [0..<unat (ft_window_size s)] 0"
  let ?s1 = "s\<lparr>ft_acked := ft_acked s OR ?newly, ft_due := ft_due s AND NOT (ft_acked s OR ?newly), ft_retries := 0, ft_waiting := False\<rparr>"
  have "unat (ft_window_size s) \<le> 8" using g by (simp add: geometry_def)
  from newly_acked_bits[OF g this, of bitfield 0 0]
  have nb: "bit ?newly b \<longleftrightarrow> acks_new s bitfield b" for b by (simp add: acks_new_def)
  have nz: "?newly \<noteq> 0" and ws: "ws = ft_window_start s"
    using r by (auto simp: apply_ack_def Let_def split: if_splits)
  show thesis
  proof (rule that[of ?s1])
    show "\<exists>b. acks_new s bitfield b" using nz nb unfolding word_zero_iff by blast
    show "s' = (if ft_acked ?s1 AND window_mask ?s1 = window_mask ?s1 \<and> tx_window_end ?s1 < ft_total ?s1
       then let s2 = ?s1\<lparr>ft_window_start := tx_window_end ?s1\<rparr> in s2\<lparr>ft_due := ft_due s2 OR (window_mask s2 AND NOT (ft_acked s2))\<rparr>
       else case lowest_unacked_in_window ?s1 of
              Some block \<Rightarrow> ?s1\<lparr>ft_due := ft_due ?s1 OR push_bit (unat block) 1\<rparr> | None \<Rightarrow> ?s1)"
      using r nz ws unfolding apply_ack_def Let_def by (simp del: push_bit_of_1)
  qed (simp_all add: ws bit_or_iff nb)
qed

lemma apply_ack_session:
  assumes wf: "tx_wf s" and r: "apply_ack s ws bitfield = (True, s')"
  shows "ws = ft_window_start s \<and> same_transaction s s' \<and> (\<forall>b. acked s' b \<longleftrightarrow> acked s b \<or> acks_new s bitfield b) \<and>
    (\<exists>b. acked s' b \<and> \<not> acked s b) \<and> ft_retries s' = 0 \<and> (tx_complete s' \<or> tx_wf s') \<and> geometry s'"
proof -
  have g: "geometry s" using wf by (simp add: tx_wf_def)
  obtain s1 where ws: "ws = ft_window_start s"
    and s1: "s1 = s\<lparr>ft_acked := ft_acked s1, ft_due := ft_due s AND NOT (ft_acked s1), ft_retries := 0, ft_waiting := False\<rparr>"
    and a1: "\<And>b. acked s1 b \<longleftrightarrow> acked s b \<or> acks_new s bitfield b" and new: "\<exists>b. acks_new s bitfield b"
    and s': "s' = (if ft_acked s1 AND window_mask s1 = window_mask s1 \<and> tx_window_end s1 < ft_total s1
       then let s2 = s1\<lparr>ft_window_start := tx_window_end s1\<rparr> in s2\<lparr>ft_due := ft_due s2 OR (window_mask s2 AND NOT (ft_acked s2))\<rparr>
       else case lowest_unacked_in_window s1 of
              Some block \<Rightarrow> s1\<lparr>ft_due := ft_due s1 OR push_bit (unat block) 1\<rparr> | None \<Rightarrow> s1)"
    using apply_ack_cases[OF g r] by metis
  have f1: "ft_window_start s1 = ft_window_start s" "ft_total s1 = ft_total s" "ft_window_size s1 = ft_window_size s"
    "ft_due s1 = ft_due s AND NOT (ft_acked s1)" "ft_retries s1 = 0" "\<not> ft_waiting s1" "same_transaction s s1"
    by (subst s1, simp add: same_transaction_def)+
  have e1: "tx_window_end s1 = tx_window_end s" "geometry s1" using g f1 by (simp_all add: tx_window_end_def geometry_def)
  have we: "win_end s = min (win_start s + unat (ft_window_size s)) (blocks s)" by (rule win_end_eq[OF g])
  have nw: "acks_new s bitfield b \<Longrightarrow> win_start s \<le> b \<and> b < win_end s" for b using we by (auto simp: acks_new_def)
  have low: "\<forall>b<win_start s. acked s1 b" and high: "\<forall>b. acked s1 b \<longrightarrow> b < win_end s"
    using wf a1 nw by (auto simp: tx_wf_def)
  have d1: "due s1 b \<longleftrightarrow> due s b \<and> \<not> acked s1 b" for b unfolding f1(4) by (auto simp: bit_simps dest: bit_bound)
  have msg: "tx_message s" using wf by (simp add: tx_wf_def)
  have wm: "ft_acked s1 AND window_mask s1 = window_mask s1 \<longleftrightarrow> (\<forall>b. win_start s \<le> b \<and> b < win_end s \<longrightarrow> acked s1 b)"
    unfolding masked_all window_mask_bit[OF e1(2)] f1 e1 by blast
  have ex: "\<exists>b. acked s1 b \<and> \<not> acked s b" using new a1 by (auto simp: acks_new_def)
  consider (advance) "\<forall>b. win_start s \<le> b \<and> b < win_end s \<longrightarrow> acked s1 b" "win_end s < blocks s"
    | (missing) block where "lowest_unacked_in_window s1 = Some block" "\<not> (\<forall>b. win_start s \<le> b \<and> b < win_end s \<longrightarrow> acked s1 b)"
    | (finished) "\<forall>b. win_start s \<le> b \<and> b < win_end s \<longrightarrow> acked s1 b" "\<not> win_end s < blocks s"
    using lowest_unacked_None[of s1] unfolding f1 e1 by (metis option.exhaust)
  then show ?thesis
  proof cases
    case advance
    let ?s2 = "s1\<lparr>ft_window_start := tx_window_end s1\<rparr>"
    have s2: "s' = ?s2\<lparr>ft_due := ft_due ?s2 OR (window_mask ?s2 AND NOT (ft_acked ?s2))\<rparr>"
      using advance e1 f1 unfolding s' wm Let_def by (simp add: word_less_nat_alt)
    have tr: "same_transaction s1 s'" unfolding s2 same_transaction_def by simp
    have raw: "ft_acked s' = ft_acked s1" "ft_window_start s' = tx_window_end s1" "ft_retries s' = ft_retries s1" "ft_waiting s' = ft_waiting s1"
      "ft_total s' = ft_total s1" "ft_window_size s' = ft_window_size s1" "ft_window_start ?s2 = ft_window_start s'"
      unfolding s2 by simp_all
    have f2: "ft_acked s' = ft_acked s1" "win_start s' = win_end s" "ft_retries s' = 0" "\<not> ft_waiting s'"
      "ft_total s' = ft_total s" "ft_window_size s' = ft_window_size s" "ft_window_start ?s2 = ft_window_start s'"
      using raw(1) raw(2)[unfolded e1(1)] raw(3)[unfolded f1(5)] raw(4) f1(6) raw(5)[unfolded f1(2)] raw(6)[unfolded f1(3)] raw(7)
      by simp_all
    have f2w: "tx_window_end ?s2 = tx_window_end s'" unfolding s2 tx_window_end_def by simp
    have f2d: "ft_due s' = ft_due s1 OR (window_mask ?s2 AND NOT (ft_acked s1))" unfolding s2 by simp
    have f2t: "same_transaction s s'" using same_transaction_trans[OF f1(7) tr] .
    have g2: "geometry s'" "geometry ?s2" using g advance(2) f2 raw(2) f1(2,3) e1(1) by (simp_all add: geometry_def)
    have we2: "win_end s < win_end s'" using win_end_eq[OF g2(1)] f2 advance(2) g by (simp add: geometry_def)
    have d2: "due s' b \<longleftrightarrow> due s1 b \<or> win_end s \<le> b \<and> b < win_end s' \<and> \<not> acked s1 b" for b
      using window_mask_bit[OF g2(2), of b] f2(2,7) f2w unfolding f2d by (auto simp: bit_simps dest: bit_bound)
    have "\<not> due s1 b" for b using wf advance(1) d1 by (auto simp: tx_wf_def)
    then have d3: "due s' b \<longleftrightarrow> win_end s \<le> b \<and> b < win_end s'" for b using d2 high by auto
    have "ft_due s' \<noteq> 0" unfolding word_zero_iff d3 using we2 by auto
    moreover have "\<forall>b<win_end s. acked s1 b" using low advance(1) by (meson not_less)
    ultimately have "tx_wf s'"
    proof (intro tx_wfI[where c = "win_end s"])
      show "geometry s'" by (rule g2(1))
      show "tx_message s'" using msg same_transaction_message[OF f2t] by simp
      show "b < win_end s'" if "acked s' b" for b using that high we2 f2(1) by fastforce
      show "\<not> acked s' (win_end s)" using high f2(1) by auto
      show "win_start s' \<le> b \<and> b < win_end s' \<and> \<not> acked s' b" if "due s' b" for b
        using that high d3 f2(1,2) by (auto simp: not_less)
    qed (use f2 we2 in auto)
    with ws f2 f2t a1 ex g2(1) show ?thesis by simp
  next
    case (missing block)
    have s2: "s' = s1\<lparr>ft_due := ft_due s1 OR push_bit (unat block) 1\<rparr>" using missing unfolding s' wm by auto
    note lb = lowest_unacked_Some[OF e1(2) missing(1), unfolded f1 e1]
    have b16: "unat block < 16" using lb we g by (simp add: geometry_def)
    have f2: "ft_acked s' = ft_acked s1" "win_start s' = win_start s" "ft_retries s' = 0" "\<not> ft_waiting s'" "same_transaction s s'"
      "ft_total s' = ft_total s" "ft_window_size s' = ft_window_size s" "win_end s' = win_end s"
      using f1(1-3,5-7) by (simp_all add: s2 same_transaction_def tx_window_end_def)
    have d2: "due s' b \<longleftrightarrow> due s b \<and> \<not> acked s1 b \<or> b = unat block" for b
      using b16 d1 by (auto simp: s2 bit_simps)
    then have "ft_due s' \<noteq> 0" unfolding word_zero_iff by blast
    moreover have g2: "geometry s'" using g f2 by (simp add: geometry_def)
    moreover have "due s' b \<longrightarrow> win_start s \<le> b \<and> b < win_end s \<and> \<not> acked s1 b" for b using wf d2 lb by (auto simp: tx_wf_def)
    ultimately have "tx_wf s'"
      using msg same_transaction_message[OF f2(5)] f2 lb low high unfolding tx_wf_def by auto
    with ws f2 a1 ex g2 show ?thesis by simp
  next
    case finished
    have "lowest_unacked_in_window s1 = None" using finished(1) unfolding lowest_unacked_None f1 e1 .
    moreover have "\<not> tx_window_end s1 < ft_total s1" using finished(2) e1(1) f1(2) by (simp add: word_less_nat_alt)
    ultimately have s2: "s' = s1" unfolding s' by simp
    have "win_end s = blocks s" using finished(2) we by simp
    then have "acked s1 b \<longleftrightarrow> b < blocks s1" for b using finished(1) low high f1 by (metis not_less)
    then have "tx_complete s1" unfolding tx_complete_def by (intro bit_word_eqI) (simp add: all_mask_bit[OF e1(2)])
    with ws s2 f1 a1 ex e1 show ?thesis by simp
  qed
qed


section \<open>Frames\<close>

text \<open>Block \<open>b\<close> of the message.\<close>

definition tx_chunk :: "FragmentTxSession \<Rightarrow> nat \<Rightarrow> u8 list" where
  "tx_chunk s b = take (unat (ft_block_size s)) (drop (b * unat (ft_block_size s)) (take (unat (ft_len s)) (ft_payload s)))"

lemma tx_block_eq:
  assumes "tx_message s" "b < blocks s" "blocks s \<le> 16"
  shows "tx_block s (of_nat b) = Some (tx_chunk s b)" "length (tx_chunk s b) \<le> unat (ft_block_size s)" "0 < length (tx_chunk s b)"
proof -
  let ?bs = "unat (ft_block_size s)" and ?l = "unat (ft_len s)"
  have m: "length (ft_payload s) = 256" "?l \<le> 256" "(blocks s - 1) * ?bs < ?l" "0 < ?bs" using assms(1) by (simp_all add: tx_message_def)
  have "b * ?bs \<le> (blocks s - 1) * ?bs" using assms(2) by (intro mult_le_mono1) simp
  with m(3) have lt: "b * ?bs < ?l" by linarith
  have ub: "unat (of_nat b :: u8) = b" using assms(2,3) by (simp add: unat_of_nat_u8)
  have "min (b * ?bs + ?bs) ?l - b * ?bs = min ?bs (?l - b * ?bs)" using lt by linarith
  then have "tx_chunk s b = take (min (b * ?bs + ?bs) ?l - b * ?bs) (drop (b * ?bs) (ft_payload s))"
    by (simp add: tx_chunk_def drop_take)
  then show "tx_block s (of_nat b) = Some (tx_chunk s b)"
    using m lt ub by (simp add: tx_block_def Let_def slice_def min_def)
  show "length (tx_chunk s b) \<le> ?bs" by (simp add: tx_chunk_def)
  show "0 < length (tx_chunk s b)" using lt m by (simp add: tx_chunk_def)
qed

lemma tx_header_bytes:
  "length (ApsHeader_bytes (tx_header s b)) = 10"
  "ApsHeader_serialize (tx_header s b) (replicate 16 0) = Some (ApsHeader_bytes (tx_header s b) @ replicate 6 0, 10)"
proof -
  show l: "length (ApsHeader_bytes (tx_header s b)) = 10"
    by (simp add: ApsHeader_bytes_def tx_header_def opt_bytes_def ApsExtendedHeader_bytes_def
        FRAG_FIRST_def FRAG_SUBSEQUENT_def FRAG_NONE_def)
  show "ApsHeader_serialize (tx_header s b) (replicate 16 0) = Some (ApsHeader_bytes (tx_header s b) @ replicate 6 0, 10)"
    unfolding ApsHeader_serialize_eq using l by (simp add: write_at_start)
qed

text \<open>The frame of an unsecured block.\<close>

definition tx_frame :: "FragmentTxSession \<Rightarrow> nat \<Rightarrow> u8 list" where
  "tx_frame s b = ApsHeader_bytes (tx_header s (of_nat b)) @ tx_chunk s b"

lemma next_due_unsecured:
  assumes wf: "tx_wf s" and s: "sn_fragment_tx n = Some s" "ft_security s = None" "ft_due s \<noteq> 0"
  shows "next_due_fragment provider now n = Some (Some (ft_dst s, ft_use_nwk_key s, ft_radius s, tx_frame s (trailing_zeros (ft_due s))),
    mark_sent n s (trailing_zeros (ft_due s)) now)"
proof -
  let ?b = "trailing_zeros (ft_due s)"
  have g: "geometry s" "tx_message s" using wf by (simp_all add: tx_wf_def)
  have "?b < win_end s" using wf trailing_zeros_bit[OF s(3)] by (simp add: tx_wf_def)
  then have b: "?b < blocks s" "blocks s \<le> 16" using win_end_eq[OF g(1)] g(1) by (simp_all add: geometry_def)
  note tb = tx_block_eq[OF g(2) b]
  have "length (tx_chunk s ?b) \<le> 64" using tb(2) g(2) s(2) by (simp add: tx_message_def)
  then show ?thesis using s tb(1) tx_header_bytes[of s "of_nat ?b"]
    by (simp add: next_due_fragment_def Let_def tx_frame_def)
qed

definition sources_ok :: "FragmentTxSession \<Rightarrow> bool" where
  "sources_ok s \<longleftrightarrow> (case ft_security s of None \<Rightarrow> True | Some security \<Rightarrow> ieee_ok (fs_src_ieee security))"

lemma secure_fragment_total:
  assumes "ieee_ok src" "length header \<le> 50"
  shows "\<exists>r l'. secure_with_origin provider l origin src header payload = Some (r, l')"
proof -
  have "assemble_secured_frame provider header payload key (data_aux_header src fc) \<noteq> None" for key fc
    using assemble_unfold[OF assms(1), of header provider payload key fc] assms(2) data_aux(2)[OF assms(1), of fc]
    by (auto split: option.splits)
  then show ?thesis by (auto simp: secure_with_origin_def data_aux_header_def split: option.splits prod.splits)
qed

lemma next_due_ok:
  assumes wf: "tx_wf s" and ok: "sources_ok s" and s: "sn_fragment_tx n = Some s"
  obtains "ft_due s = 0" "next_due_fragment provider now n = Some (None, n)"
    | l where "next_due_fragment provider now n = Some (None, finish_fragment_tx (n\<lparr>sn_layer := l\<rparr>) SecurityFail)"
    | f l where "ft_due s \<noteq> 0" "next_due_fragment provider now n = Some (Some f, mark_sent (n\<lparr>sn_layer := l\<rparr>) s (trailing_zeros (ft_due s)) now)"
proof (cases "ft_due s = 0")
  case True
  with that(1) s show thesis by (simp add: next_due_fragment_def)
next
  case nz: False
  show thesis
  proof (cases "ft_security s")
    case None
    with next_due_unsecured[OF wf s None nz, of provider now] that(3)[of _ "sn_layer n"] nz show thesis by simp
  next
    case (Some security)
    let ?b = "trailing_zeros (ft_due s)" and ?h = "ApsHeader_bytes (tx_header s (of_nat (trailing_zeros (ft_due s))))"
    have g: "geometry s" "tx_message s" using wf by (simp_all add: tx_wf_def)
    have "?b < win_end s" using wf trailing_zeros_bit[OF nz] by (simp add: tx_wf_def)
    then have b: "?b < blocks s" "blocks s \<le> 16" using win_end_eq[OF g(1)] g(1) by (simp_all add: geometry_def)
    note tb = tx_block_eq[OF g(2) b] and hb = tx_header_bytes[of s "of_nat ?b"]
    have "length (tx_chunk s ?b) \<le> 48" using tb(2) g(2) Some by (simp add: tx_message_def)
    moreover obtain r l where r: "secure_with_origin provider (sn_layer n) (fs_origin security) (fs_src_ieee security) ?h (tx_chunk s ?b) = Some (r, l)"
      using secure_fragment_total[of "fs_src_ieee security" ?h provider "sn_layer n" "fs_origin security" "tx_chunk s ?b"] ok Some hb(1)
      by (auto simp: sources_ok_def)
    ultimately have "next_due_fragment provider now n = (case r of
        None \<Rightarrow> Some (None, finish_fragment_tx (n\<lparr>sn_layer := l\<rparr>) SecurityFail)
      | Some frame \<Rightarrow> Some (Some (ft_dst s, ft_use_nwk_key s, ft_radius s, frame), mark_sent (n\<lparr>sn_layer := l\<rparr>) s ?b now))"
      using s nz Some tb(1) hb
      by (simp add: next_due_fragment_def Let_def secure_fragment_def APS_SECURED_FRAGMENT_BLOCK_SIZE_def split: option.split)
    with that(2)[of l] that(3)[of _ l] nz show thesis by (cases r) simp_all
  qed
qed

section \<open>Transactions end\<close>

datatype TxEvent = TxSend u32 | TxPoll u32 | TxAck ShortAddress u8 ApsExtendedHeader bool | TxLower ApsLayer

fun tx_step :: "'e provider \<Rightarrow> TxEvent \<Rightarrow> FragmentSender \<Rightarrow> FragmentSender option" where
  "tx_step provider (TxSend now) n = map_option snd (next_due_fragment provider now n)"
| "tx_step provider (TxPoll now) n = Some (poll_fragment_tx_timeout now n)"
| "tx_step provider (TxAck src ctr ext secured) n = Some (snd (handle_fragment_ack n src ctr ext secured))"
| "tx_step provider (TxLower l) n = Some (n\<lparr>sn_layer := l\<rparr>)"

fun tx_run :: "'e provider \<Rightarrow> TxEvent list \<Rightarrow> FragmentSender \<Rightarrow> FragmentSender option" where
  "tx_run provider [] n = Some n"
| "tx_run provider (ev # evs) n = tx_step provider ev n \<bind> tx_run provider evs"

text \<open>The timer polls that find the acknowledgement wait over.\<close>

fun expirations :: "'e provider \<Rightarrow> TxEvent list \<Rightarrow> FragmentSender \<Rightarrow> nat" where
  "expirations provider [] n = 0"
| "expirations provider (ev # evs) n =
     (case ev of TxPoll now \<Rightarrow> if poll_fragment_tx_timeout now n \<noteq> n then 1 else 0 | _ \<Rightarrow> 0) +
     (case tx_step provider ev n of Some n' \<Rightarrow> expirations provider evs n' | None \<Rightarrow> 0)"

definition sender_inv :: "FragmentSender \<Rightarrow> bool" where
  "sender_inv n \<longleftrightarrow> (case sn_fragment_tx n of None \<Rightarrow> True | Some s \<Rightarrow> tx_wf s \<and> sources_ok s)"

definition unacked :: "FragmentTxSession \<Rightarrow> nat" where
  "unacked s = card {b. b < blocks s \<and> \<not> acked s b}"

definition patience :: "FragmentSender \<Rightarrow> nat" where
  "patience n = (case sn_fragment_tx n of None \<Rightarrow> 0
     | Some s \<Rightarrow> Suc (unacked s * Suc (unat (ft_max_retries s)) + (unat (ft_max_retries s) - unat (ft_retries s))))"

lemma finish_none [simp]: "sn_fragment_tx (finish_fragment_tx n status) = None"
  by (simp add: finish_fragment_tx_def drop_fragment_tx_def)

lemma sources_same: "same_transaction s s' \<Longrightarrow> sources_ok s' = sources_ok s"
  by (simp add: same_transaction_def sources_ok_def)

lemma send_step:
  assumes inv: "sender_inv n"
  shows "\<exists>r n'. next_due_fragment provider now n = Some (r, n') \<and> sender_inv n' \<and> patience n' \<le> patience n"
proof (cases "sn_fragment_tx n")
  case None
  with inv show ?thesis by (simp add: next_due_fragment_def)
next
  case (Some s)
  with inv have wf: "tx_wf s" "sources_ok s" by (simp_all add: sender_inv_def)
  show ?thesis
  proof (cases rule: next_due_ok[OF wf Some, of provider now])
    case 1
    with inv show ?thesis by simp
  next
    case (2 l)
    then show ?thesis by (simp add: sender_inv_def patience_def)
  next
    case (3 f l)
    let ?n = "mark_sent (n\<lparr>sn_layer := l\<rparr>) s (trailing_zeros (ft_due s)) now"
    obtain s' where s': "sn_fragment_tx ?n = Some s'" by (simp add: mark_sent_def Let_def)
    from mark_sent_wf[OF wf(1) conjunct1[OF trailing_zeros_bit[OF 3(1)]] s'] sources_same[of s s'] wf(2) s' Some
    have "sender_inv ?n" "patience ?n = patience n"
      by (simp_all add: sender_inv_def patience_def unacked_def same_transaction_def)
    with 3(2) show ?thesis by simp
  qed
qed

lemma poll_step:
  assumes inv: "sender_inv n"
  shows "sender_inv (poll_fragment_tx_timeout now n) \<and>
    patience (poll_fragment_tx_timeout now n) + (if poll_fragment_tx_timeout now n \<noteq> n then 1 else 0) \<le> patience n"
proof (cases "sn_fragment_tx n")
  case None
  with inv show ?thesis by (simp add: poll_fragment_tx_timeout_def)
next
  case (Some s)
  with inv have wf: "tx_wf s" "sources_ok s" by (simp_all add: sender_inv_def)
  show ?thesis
  proof (cases "\<not> ft_waiting s \<or> now - ft_waiting_since_us s < APS_ACK_WAIT_DURATION_US")
    case True
    with Some inv show ?thesis by (simp add: poll_fragment_tx_timeout_def)
  next
    case w: False
    show ?thesis
    proof (cases "ft_retries s \<ge> ft_max_retries s")
      case True
      with Some w have "poll_fragment_tx_timeout now n = finish_fragment_tx n NoAck" by (simp add: poll_fragment_tx_timeout_def)
      then show ?thesis using Some by (simp add: sender_inv_def patience_def)
    next
      case False
      define s1 where "s1 = s\<lparr>ft_retries := ft_retries s + 1, ft_waiting := False\<rparr>"
      define s' where "s' = (case lowest_unacked_in_window s1 of
        Some block \<Rightarrow> s1\<lparr>ft_due := ft_due s1 OR push_bit (unat block) 1\<rparr> | None \<Rightarrow> s1)"
      have p: "poll_fragment_tx_timeout now n = n\<lparr>sn_fragment_tx := Some s'\<rparr>"
        using Some w False unfolding s'_def s1_def by (simp add: poll_fragment_tx_timeout_def Let_def)
      have "tx_wf s' \<and> same_transaction s s' \<and> ft_acked s' = ft_acked s \<and> unat (ft_retries s') = Suc (unat (ft_retries s))"
        using poll_session[OF wf(1) _ _ s1_def s'_def] w False by simp
      moreover from this have "unat (ft_retries s) < unat (ft_max_retries s)" using False by (simp add: word_le_nat_alt)
      ultimately have "sender_inv (n\<lparr>sn_fragment_tx := Some s'\<rparr>)" "patience (n\<lparr>sn_fragment_tx := Some s'\<rparr>) < patience n"
        using Some wf(2) sources_same[of s s'] by (auto simp: sender_inv_def patience_def unacked_def same_transaction_def)
      with p show ?thesis by simp
    qed
  qed
qed

lemma handle_ack_cases:
  assumes "sn_fragment_tx n = Some s"
  shows "snd (handle_fragment_ack n src ctr ext secured) = n \<or>
    (\<exists>bitfield newly s'. ex_ack_bitfield ext = Some bitfield \<and> apply_ack s (ex_block_number ext) bitfield = (newly, s') \<and>
       src = ft_dst s \<and> ctr = co_aps_counter (ft_confirm s) \<and>
       snd (handle_fragment_ack n src ctr ext secured) =
         (if newly \<and> tx_complete s' then finish_fragment_tx (n\<lparr>sn_fragment_tx := Some s'\<rparr>) ApsSuccess
          else n\<lparr>sn_fragment_tx := Some s'\<rparr>))"
  using assms by (auto simp: handle_fragment_ack_def Let_def split: option.splits prod.splits if_splits)

lemma ack_step_sender:
  assumes inv: "sender_inv n"
  shows "sender_inv (snd (handle_fragment_ack n src ctr ext secured)) \<and>
    patience (snd (handle_fragment_ack n src ctr ext secured)) \<le> patience n"
proof (cases "sn_fragment_tx n")
  case None
  with inv show ?thesis by (simp add: handle_fragment_ack_def)
next
  case (Some s)
  with inv have wf: "tx_wf s" "sources_ok s" by (simp_all add: sender_inv_def)
  from handle_ack_cases[OF Some, of src ctr ext secured]
  consider "snd (handle_fragment_ack n src ctr ext secured) = n"
    | bitfield newly s' where "ex_ack_bitfield ext = Some bitfield" "apply_ack s (ex_block_number ext) bitfield = (newly, s')"
      "snd (handle_fragment_ack n src ctr ext secured) =
         (if newly \<and> tx_complete s' then finish_fragment_tx (n\<lparr>sn_fragment_tx := Some s'\<rparr>) ApsSuccess else n\<lparr>sn_fragment_tx := Some s'\<rparr>)"
    by blast
  then show ?thesis
  proof cases
    case 1
    with inv show ?thesis by simp
  next
    case (2 bitfield newly s')
    show ?thesis
    proof (cases newly)
      case False
      with 2(2) have "s' = s" by (auto simp: apply_ack_def Let_def split: if_splits)
      with 2(3) False Some inv show ?thesis by (simp add: sender_inv_def patience_def)
    next
      case True
      with apply_ack_session[OF wf(1), of "ex_block_number ext" bitfield s'] 2(2)
      have a: "same_transaction s s'" "\<forall>b. acked s' b \<longleftrightarrow> acked s b \<or> acks_new s bitfield b" "\<exists>b. acked s' b \<and> \<not> acked s b"
        "ft_retries s' = 0" "tx_complete s' \<or> tx_wf s'" by auto
      show ?thesis
      proof (cases "tx_complete s'")
        case True
        with 2(3) \<open>newly\<close> show ?thesis by (simp add: sender_inv_def patience_def)
      next
        case False
        have "{b. b < blocks s' \<and> \<not> acked s' b} \<subset> {b. b < blocks s \<and> \<not> acked s b}"
          using a(1,2,3) by (auto simp: same_transaction_def acks_new_def)
        then have "unacked s' < unacked s" unfolding unacked_def by (rule psubset_card_mono[rotated]) simp
        then have "Suc (unacked s') * Suc (unat (ft_max_retries s)) \<le> unacked s * Suc (unat (ft_max_retries s))"
          by (intro mult_le_mono1) simp
        with a 2(3) False Some wf(2) sources_same[OF a(1)] show ?thesis
          by (simp add: sender_inv_def patience_def same_transaction_def)
      qed
    qed
  qed
qed

lemma tx_run_inv:
  assumes "sender_inv n"
  shows "\<exists>n'. tx_run provider evs n = Some n' \<and> sender_inv n' \<and> expirations provider evs n + patience n' \<le> patience n"
  using assms
proof (induction evs arbitrary: n)
  case (Cons ev evs)
  have "\<exists>n1. tx_step provider ev n = Some n1 \<and> sender_inv n1 \<and>
      (case ev of TxPoll now \<Rightarrow> if poll_fragment_tx_timeout now n \<noteq> n then 1 else 0 | _ \<Rightarrow> 0) + patience n1 \<le> patience n"
  proof (cases ev)
    case (TxSend now)
    with send_step[OF Cons.prems, of provider now] show ?thesis by auto
  next
    case (TxPoll now)
    with poll_step[OF Cons.prems, of now] show ?thesis by (simp add: add.commute)
  next
    case (TxAck src ctr ext secured)
    with ack_step_sender[OF Cons.prems] show ?thesis by simp
  next
    case (TxLower l)
    with Cons.prems show ?thesis by (simp add: sender_inv_def patience_def)
  qed
  then obtain n1 where n1: "tx_step provider ev n = Some n1" "sender_inv n1"
    "(case ev of TxPoll now \<Rightarrow> if poll_fragment_tx_timeout now n \<noteq> n then 1 else 0 | _ \<Rightarrow> 0) + patience n1 \<le> patience n" by blast
  from Cons.IH[OF n1(2)] n1 show ?case by fastforce
qed simp


lemma clamp_range: "0 < unat (clamp_window_size w)" "unat (clamp_window_size w) \<le> 8"
proof -
  show "0 < unat (clamp_window_size w)" by (rule clamp_pos)
  show "unat (clamp_window_size w) \<le> 8" by (auto simp: clamp_window_size_def APS_MAX_WINDOW_SIZE_def word_le_nat_alt not_less)
qed

lemma div_ceil_bounds:
  fixes L bs tot :: nat
  assumes "0 < bs" "tot = (L + bs - 1) div bs" "0 < tot"
  shows "(tot - 1) * bs < L" "L \<le> tot * bs"
proof -
  have q: "tot * bs + (L + bs - 1) mod bs = L + bs - 1" unfolding assms(2) by (rule div_mult_mod_eq)
  have m: "(L + bs - 1) mod bs < bs" using assms(1) by simp
  have t: "(tot - 1) * bs + bs = tot * bs" using assms(3) by (cases tot) simp_all
  have "bs \<le> tot * bs" using assms(3) by (cases tot) simp_all
  with q have "0 < L" using m t by linarith
  from q m this show "L \<le> tot * bs" using assms(1) by linarith
  from q t \<open>0 < L\<close> assms(1) show "(tot - 1) * bs < L" by linarith
qed

lemma new_session_wf:
  assumes L: "length (rq_payload req) \<le> 256" and bs: "bs = (if security = None then 64 else 48)"
    and tot: "tot = (length (rq_payload req) + bs - 1) div bs" "2 \<le> tot" "tot \<le> 16"
  shows "tx_wf (new_session req dst radius security bs tot ctr n now)"
proof -
  let ?s = "new_session req dst radius security bs tot ctr n now" and ?L = "length (rq_payload req)"
  have f: "win_start ?s = 0" "blocks ?s = tot" "unat (ft_window_size ?s) = unat (clamp_window_size (sn_aps_max_window_size n))"
    "ft_acked ?s = 0" "\<not> ft_waiting ?s" "ft_retries ?s = 0" "unat (ft_block_size ?s) = bs" "unat (ft_len ?s) = ?L"
    "length (ft_payload ?s) = 256" "ft_security ?s = security"
    using L bs tot by (auto simp: new_session_def Let_def unat_of_nat APS_MAX_FRAGMENTED_ASDU_def)
  have g: "geometry ?s" using f(1-3) tot clamp_range[of "sn_aps_max_window_size n"] by (simp add: geometry_def)
  have w: "0 < win_end ?s" using win_end_eq[OF g] f(1-3) tot clamp_pos by simp
  have "window_mask ?s = ft_due ?s" by (simp add: new_session_def Let_def window_mask_def tx_window_end_def)
  then have d: "due ?s b \<longleftrightarrow> b < win_end ?s" for b using window_mask_bit[OF g, of b] f(1) by simp
  have "ft_due ?s \<noteq> 0" unfolding word_zero_iff d using w by auto
  have bs0: "0 < bs" using bs by simp
  note dc = div_ceil_bounds[OF bs0 tot(1)]
  have m: "tx_message ?s" using f L bs bs0 dc tot(2) by (simp add: tx_message_def)
  show ?thesis
    by (rule tx_wfI[OF g m, of 0]) (use f w d \<open>ft_due ?s \<noteq> 0\<close> in auto)
qed

lemma send_due_inv:
  "sender_inv n \<Longrightarrow> \<exists>fs n'. send_due_fragments provider nlde clock k n = Some (fs, n') \<and> sender_inv n' \<and> patience n' \<le> patience n"
proof (induction provider nlde clock k n rule: send_due_fragments.induct)
  case (1 provider nlde clock k n)
  show ?case
  proof (cases "pending_due n")
    case False
    with 1(2) show ?thesis by (simp add: send_due_fragments.simps[of _ _ _ _ n])
  next
    case True
    obtain r n1 where r: "next_due_fragment provider (clock k) n = Some (r, n1)" "sender_inv n1" "patience n1 \<le> patience n"
      using send_step[OF 1(2)] by blast
    show ?thesis
    proof (cases r)
      case None
      with True r show ?thesis by (simp add: send_due_fragments.simps[of _ _ _ _ n])
    next
      case (Some f)
      obtain dst use_nwk_key radius frame where f: "f = (dst, use_nwk_key, radius, frame)" by (cases f)
      let ?n2 = "n1\<lparr>sn_layer := snd (nlde dst radius frame use_nwk_key True (sn_layer n1))\<rparr>"
      have "sender_inv ?n2" "patience ?n2 = patience n1" using r(2) by (simp_all add: sender_inv_def patience_def)
      then obtain fs n' where "send_due_fragments provider nlde clock (Suc k) ?n2 = Some (fs, n')" "sender_inv n'" "patience n' \<le> patience n"
        using 1(1)[OF _ r(1)] True Some f r(3) by fastforce
      then show ?thesis using True r(1) Some f by (simp add: send_due_fragments.simps[of _ _ _ _ n])
    qed
  qed
qed

lemma launched:
  assumes L: "length (rq_payload req) \<le> 256" and bs: "bs = (if security = None then 64 else 48)"
    and tot: "tot = (length (rq_payload req) + bs - 1) div bs" "2 \<le> tot" "tot \<le> 16"
    and ok: "\<And>sec. security = Some sec \<Longrightarrow> ieee_ok (fs_src_ieee sec)"
  shows "\<exists>result frames n0. launch_fragmented_tx provider nlde clock n req dst radius security bs tot = Some (result, frames, n0) \<and>
    (\<forall>confirm. result = Inr confirm \<longrightarrow> sender_inv n0 \<and> patience n0 \<le> 7 * Suc (unat (sn_aps_max_frame_retries n)))"
proof -
  let ?ctr = "sn_aps_counter n" and ?n1 = "n\<lparr>sn_aps_counter := sn_aps_counter n + 1\<rparr>"
  let ?s = "new_session req dst radius security bs tot ?ctr ?n1 (clock 0)"
  let ?n2 = "?n1\<lparr>sn_fragment_tx := Some ?s, sn_fragment_tx_confirm := None\<rparr>"
  have wf: "tx_wf ?s" by (rule new_session_wf[OF L bs tot])
  have "ft_security ?s = security" by (simp add: new_session_def Let_def)
  then have "sources_ok ?s" using ok by (simp add: sources_ok_def split: option.split)
  with wf have inv: "sender_inv ?n2" by (simp add: sender_inv_def)
  have "bs = 64 \<or> bs = 48" "0 < bs" using bs by auto
  then have t6: "tot \<le> 6" using div_ceil_bounds(1)[OF _ tot(1)] tot(2) L by auto
  have fields: "ft_max_retries ?s = sn_aps_max_frame_retries n" "ft_retries ?s = 0" "blocks ?s = tot"
    using tot by (simp_all add: new_session_def Let_def unat_of_nat_u8)
  have "unacked ?s \<le> card {..<tot}" unfolding unacked_def fields(3) by (rule card_mono) auto
  then have "unacked ?s * Suc (unat (sn_aps_max_frame_retries n)) \<le> 6 * Suc (unat (sn_aps_max_frame_retries n))"
    using t6 by (intro mult_le_mono1) simp
  then have pat: "patience ?n2 \<le> 7 * Suc (unat (sn_aps_max_frame_retries n))" using fields by (simp add: patience_def)
  obtain r n3 where r: "next_due_fragment provider (clock 1) ?n2 = Some (r, n3)" "sender_inv n3" "patience n3 \<le> patience ?n2"
    using send_step[OF inv] by blast
  show ?thesis
  proof (cases r)
    case None
    with r(1) show ?thesis by (simp add: launch_fragmented_tx_def next_aps_counter_def)
  next
    case (Some f)
    obtain d u ra fr where f: "f = (d, u, ra, fr)" by (cases f)
    obtain a l where nl: "nlde d ra fr u True (sn_layer n3) = (a, l)" by force
    have i3: "sender_inv (n3\<lparr>sn_layer := l\<rparr>)" "patience (n3\<lparr>sn_layer := l\<rparr>) = patience n3"
      using r(2) by (simp_all add: sender_inv_def patience_def)
    from send_due_inv[OF i3(1), of provider nlde clock 2] obtain fs n4 where
      "send_due_fragments provider nlde clock 2 (n3\<lparr>sn_layer := l\<rparr>) = Some (fs, n4)" "sender_inv n4" "patience n4 \<le> patience n3"
      unfolding i3(2) by blast
    with r(1,3) pat Some f nl show ?thesis by (cases a) (simp_all add: launch_fragmented_tx_def next_aps_counter_def)
  qed
qed

lemma started:
  assumes ok: "ieee_ok (nl_ieee_address (al_nwk (sn_layer n)))"
  shows "\<exists>result frames n0. start_fragmented_tx provider nlde find_ieee clock n req dst mode radius = Some (result, frames, n0) \<and>
    (\<forall>confirm. result = Inr confirm \<longrightarrow> sender_inv n0 \<and> patience n0 \<le> 7 * Suc (unat (sn_aps_max_frame_retries n)))"
proof (cases "mode \<noteq> AdmUnicast \<or> \<not> tx_ack_request (rq_tx_options req) \<or> length (rq_payload req) > APS_MAX_FRAGMENTED_ASDU \<or>
    sn_fragment_tx n \<noteq> None")
  case True
  then show ?thesis by (auto simp: start_fragmented_tx_def)
next
  case accepted: False
  show ?thesis
  proof (cases "tx_security find_ieee n req dst")
    case (Inl err)
    with accepted show ?thesis by (simp add: start_fragmented_tx_def)
  next
    case (Inr security)
    define bs where "bs = (if security \<noteq> None then APS_SECURED_FRAGMENT_BLOCK_SIZE else APS_FRAGMENT_BLOCK_SIZE)"
    define tot where "tot = (length (rq_payload req) + bs - 1) div bs"
    have eq: "start_fragmented_tx provider nlde find_ieee clock n req dst mode radius =
        (if tot > unat APS_MAX_FRAGMENT_BLOCKS \<or> tot < 2 then Some (Inl AsduTooLong, [], n)
         else launch_fragmented_tx provider nlde clock n req dst radius security bs tot)"
      using accepted Inr unfolding start_fragmented_tx_def tot_def bs_def Let_def by simp
    have bs: "bs = (if security = None then 64 else 48)"
      by (simp add: bs_def APS_SECURED_FRAGMENT_BLOCK_SIZE_def APS_FRAGMENT_BLOCK_SIZE_def)
    show ?thesis
    proof (cases "tot > unat APS_MAX_FRAGMENT_BLOCKS \<or> tot < 2")
      case True
      with eq show ?thesis by simp
    next
      case False
      have "security = Some sec \<Longrightarrow> ieee_ok (fs_src_ieee sec)" for sec
        using Inr ok by (auto simp: tx_security_def split: if_splits option.splits)
      moreover have "length (rq_payload req) \<le> 256" "2 \<le> tot" "tot \<le> 16"
        using accepted False by (simp_all add: APS_MAX_FRAGMENTED_ASDU_def APS_MAX_FRAGMENT_BLOCKS_def)
      ultimately show ?thesis using launched[OF _ bs tot_def] eq False by simp
    qed
  qed
qed

text \<open>
  C8: a fragmented transaction never hangs and always ends.  Starting one never panics; and once it is accepted, whatever
  sequence of transmissions, timer polls and acknowledgements follows, no step panics, a session that is still open has
  an unacknowledged block in its window and either a block to send or a running acknowledgement timer (never neither), and
  the timer expires at most seven times (retries + 1) before the transaction is over.
\<close>

theorem fragment_transaction_ends:
  assumes "ieee_ok (nl_ieee_address (al_nwk (sn_layer n)))"
  shows "\<exists>result frames n0. start_fragmented_tx provider nlde find_ieee clock n req dst mode radius = Some (result, frames, n0) \<and>
    (\<forall>confirm evs. result = Inr confirm \<longrightarrow>
       (\<exists>n'. tx_run provider evs n0 = Some n' \<and>
          (\<forall>s. sn_fragment_tx n' = Some s \<longrightarrow> ft_waiting s = (ft_due s = 0) \<and> lowest_unacked_in_window s \<noteq> None) \<and>
          expirations provider evs n0 \<le> 7 * Suc (unat (sn_aps_max_frame_retries n))))"
proof -
  obtain result frames n0 where st: "start_fragmented_tx provider nlde find_ieee clock n req dst mode radius = Some (result, frames, n0)"
    "\<And>confirm. result = Inr confirm \<Longrightarrow> sender_inv n0 \<and> patience n0 \<le> 7 * Suc (unat (sn_aps_max_frame_retries n))"
    using started[OF assms, of provider nlde find_ieee clock req dst mode radius] by blast
  have "\<exists>n'. tx_run provider evs n0 = Some n' \<and>
      (\<forall>s. sn_fragment_tx n' = Some s \<longrightarrow> ft_waiting s = (ft_due s = 0) \<and> lowest_unacked_in_window s \<noteq> None) \<and>
      expirations provider evs n0 \<le> 7 * Suc (unat (sn_aps_max_frame_retries n))" if c: "result = Inr confirm" for confirm evs
  proof -
    from tx_run_inv[of n0 provider evs] st(2)[OF c]
    obtain n' where n': "tx_run provider evs n0 = Some n'" "sender_inv n'" "expirations provider evs n0 \<le> 7 * Suc (unat (sn_aps_max_frame_retries n))"
      by auto
    have "ft_waiting s = (ft_due s = 0) \<and> lowest_unacked_in_window s \<noteq> None" if "sn_fragment_tx n' = Some s" for s
      using n'(2) that unfolding sender_inv_def lowest_unacked_None by (auto simp: tx_wf_def)
    with n' show ?thesis by blast
  qed
  with st(1) show ?thesis by blast
qed


text \<open>An unsecured request of two or more blocks is accepted when the layer below takes the first block.\<close>

lemma unsecured_accepted:
  assumes req: "tx_ack_request (rq_tx_options req)" "\<not> tx_security_enabled (rq_tx_options req)"
      "64 < length (rq_payload req)" "length (rq_payload req) \<le> 256"
    and idle: "sn_fragment_tx n = None" and nl: "\<And>d r f u t l. \<exists>l'. nlde d r f u t l = (Inr (), l')"
  shows "\<exists>confirm frames n0. start_fragmented_tx provider nlde find_ieee clock n req dst AdmUnicast radius = Some (Inr confirm, frames, n0)"
proof -
  define tot where "tot = (length (rq_payload req) + 64 - 1) div 64"
  have "2 \<le> tot" unfolding tot_def using req(3) div_le_mono[of 128 "length (rq_payload req) + 64 - 1" 64] by simp
  moreover have "tot \<le> 4" unfolding tot_def using req(4) div_le_mono[of "length (rq_payload req) + 64 - 1" 319 64] by simp
  ultimately have t: "2 \<le> tot" "tot \<le> 4" .
  let ?s = "new_session req dst radius None 64 tot (sn_aps_counter n) (n\<lparr>sn_aps_counter := sn_aps_counter n + 1\<rparr>) (clock 0)"
  let ?n2 = "n\<lparr>sn_aps_counter := sn_aps_counter n + 1, sn_fragment_tx := Some ?s, sn_fragment_tx_confirm := None\<rparr>"
  have wf: "tx_wf ?s" by (rule new_session_wf[OF req(4) _ tot_def]) (use t in simp_all)
  have sec: "ft_security ?s = None" by (simp add: new_session_def Let_def)
  have "ft_waiting ?s = False" by (simp add: new_session_def Let_def)
  then have nz: "ft_due ?s \<noteq> 0" using wf by (simp add: tx_wf_def)
  have "sn_fragment_tx ?n2 = Some ?s" by simp
  note nd = next_due_unsecured[OF wf this sec nz, of provider "clock 1"]
  obtain r n3 where r: "next_due_fragment provider (clock 1) ?n2 = Some (Some r, n3)" "sender_inv n3"
    using nd send_step[of ?n2 provider "clock 1"] wf sec by (auto simp: sender_inv_def sources_ok_def)
  obtain d u ra fr where f: "r = (d, u, ra, fr)" by (cases r)
  obtain l' where l': "nlde d ra fr u True (sn_layer n3) = (Inr (), l')" using nl by blast
  have "sender_inv (n3\<lparr>sn_layer := l'\<rparr>)" using r(2) by (simp add: sender_inv_def)
  from send_due_inv[OF this, of provider nlde clock 2] obtain fs n4
    where "send_due_fragments provider nlde clock 2 (n3\<lparr>sn_layer := l'\<rparr>) = Some (fs, n4)" by blast
  with r(1) f l' have la: "\<exists>confirm frames n0. launch_fragmented_tx provider nlde clock n req dst radius None 64 tot = Some (Inr confirm, frames, n0)"
    by (simp add: launch_fragmented_tx_def next_aps_counter_def)
  have "start_fragmented_tx provider nlde find_ieee clock n req dst AdmUnicast radius =
      launch_fragmented_tx provider nlde clock n req dst radius None 64 tot"
    using req idle t by (simp add: start_fragmented_tx_def tx_security_def tot_def APS_FRAGMENT_BLOCK_SIZE_def
        APS_MAX_FRAGMENTED_ASDU_def APS_MAX_FRAGMENT_BLOCKS_def)
  with la show ?thesis by simp
qed

definition example_sender :: FragmentSender where
  "example_sender = \<lparr>sn_layer = example_aps_layer, sn_aps_counter = 7, sn_aps_max_window_size = 8, sn_aps_max_frame_retries = 3,
     sn_fragment_tx = None, sn_fragment_tx_confirm = None\<rparr>"

definition example_request :: ApsdeDataRequest where
  "example_request = \<lparr>rq_dst_addr_mode = AmShort, rq_dst_address = AddrShort 0x1234, rq_dst_endpoint = 1, rq_profile_id = 0x104,
     rq_cluster_id = 6, rq_src_endpoint = 2, rq_payload = replicate 200 5,
     rq_tx_options = \<lparr>tx_security_enabled = False, tx_use_nwk_key = True, tx_ack_request = True, tx_fragmentation_permitted = True,
       tx_include_extended_nonce = False\<rparr>\<rparr>"

definition example_nlde :: nlde where
  "example_nlde dst radius frame use_nwk_key discover l = (Inr (), l)"

theorem fragment_transaction_ends_witness:
  "\<exists>confirm frames n0. start_fragmented_tx example_provider example_nlde (\<lambda>_. None) (\<lambda>_. 0) example_sender example_request 0x1234 AdmUnicast 30 =
       Some (Inr confirm, frames, n0) \<and>
     (\<exists>n'. tx_run example_provider [TxPoll 1500000] n0 = Some n' \<and> expirations example_provider [TxPoll 1500000] n0 \<le> 28)"
proof -
  have ok: "ieee_ok (nl_ieee_address (al_nwk (sn_layer example_sender)))"
    by (simp add: example_sender_def example_aps_layer_def example_layer_def ieee_ok_def)
  obtain confirm frames n0 where st: "start_fragmented_tx example_provider example_nlde (\<lambda>_. None) (\<lambda>_. 0) example_sender example_request 0x1234
      AdmUnicast 30 = Some (Inr confirm, frames, n0)"
  proof -
    have "tx_ack_request (rq_tx_options example_request)" "\<not> tx_security_enabled (rq_tx_options example_request)"
      "64 < length (rq_payload example_request)" "length (rq_payload example_request) \<le> 256" "sn_fragment_tx example_sender = None"
      "\<And>d r f u t l. \<exists>l'. example_nlde d r f u t l = (Inr (), l')"
      by (simp_all add: example_request_def example_sender_def example_nlde_def)
    from unsecured_accepted[where nlde = example_nlde, OF this] that show thesis by blast
  qed
  have "7 * Suc (unat (sn_aps_max_frame_retries example_sender)) = 28" by (simp add: example_sender_def)
  with fragment_transaction_ends[where n = example_sender and provider = example_provider and nlde = example_nlde and
      find_ieee = "\<lambda>_. None" and clock = "\<lambda>_. 0" and req = example_request and dst = "0x1234" and mode = AdmUnicast and radius = 30, OF ok]
  show ?thesis using st by auto
qed

end
