(* ===== verification/Fragment_Rx.thy ===== *)
theory Fragment_Rx
  imports Fragment_Tx
begin

text \<open>
  The receiving handler of fragments in \<^verbatim>\<open>zigbee-aps/src/apsde.rs\<close>: \<^verbatim>\<open>receive_fragment\<close>, the queueing of the windowed
  acknowledgement and its header, over the reassembly of \<open>Fragment_Reassembly\<close> and the duplicate table of
  \<open>Aps_Tracking\<close>.  The lemmas show that until a transaction is complete its session only gains blocks, and that every
  acknowledgement queued for it claims only blocks that are held.
\<close>

section \<open>The receiver\<close>

record PendingApsAck =
  pa_dst_addr :: ShortAddress
  pa_dst_endpoint :: u8
  pa_src_endpoint :: u8
  pa_cluster_id :: u16
  pa_profile_id :: u16
  pa_aps_counter :: u8
  pa_command :: bool
  pa_fragment :: "FragmentAck option"
  pa_aps_security :: "ApsKeyOrigin option"

definition build_aps_ack_header :: "PendingApsAck \<Rightarrow> bool \<Rightarrow> ApsHeader" where
  "build_aps_ack_header ack aps_secured =
     (let addressed = \<not> pa_command ack
      in \<lparr>ah_frame_control = \<lparr>ac_frame_type = ApsFrameType_to_u8 AftAck, ac_delivery_mode = ApsDeliveryMode_to_u8 AdmUnicast,
            ac_ack_format = pa_command ack, ac_security = aps_secured, ac_ack_request = False,
            ac_extended_header = (pa_fragment ack \<noteq> None)\<rparr>,
          ah_dst_endpoint = (if addressed then Some (pa_dst_endpoint ack) else None), ah_group_address = None,
          ah_cluster_id = (if addressed then Some (pa_cluster_id ack) else None),
          ah_profile_id = (if addressed then Some (pa_profile_id ack) else None),
          ah_src_endpoint = (if addressed then Some (pa_src_endpoint ack) else None),
          ah_aps_counter = pa_aps_counter ack,
          ah_extended_header = map_option (\<lambda>fragment. \<lparr>ex_fragmentation = fa_fragmentation fragment,
            ex_block_number = fa_window_start fragment, ex_ack_bitfield = Some (fa_bitfield fragment)\<rparr>) (pa_fragment ack)\<rparr>)"

record FragmentReceiver =
  rv_dup_table :: DupTable
  rv_dup_timeout :: u16
  rv_aps_max_window_size :: u8
  rv_fragment_rx :: FragmentReassembly
  rv_pending_rx_rollback :: "ApsRxRollback option"
  rv_pending_aps_ack :: "PendingApsAck option"

definition queue_data_ack_inner ::
    "FragmentReceiver \<Rightarrow> ApsHeader \<Rightarrow> ShortAddress \<Rightarrow> ApsKeyOrigin option \<Rightarrow> FragmentAck option \<Rightarrow> FragmentReceiver" where
  "queue_data_ack_inner r header nwk_src aps_security fragment =
     (if \<not> ac_ack_request (ah_frame_control header) \<or>
         ac_delivery_mode (ah_frame_control header) \<noteq> ApsDeliveryMode_to_u8 AdmUnicast then r
      else let or0 = (\<lambda>x. case x of Some v \<Rightarrow> v | None \<Rightarrow> 0)
           in r\<lparr>rv_pending_aps_ack := Some \<lparr>pa_dst_addr = nwk_src, pa_dst_endpoint = or0 (ah_src_endpoint header),
                pa_src_endpoint = or0 (ah_dst_endpoint header), pa_cluster_id = (case ah_cluster_id header of Some v \<Rightarrow> v | None \<Rightarrow> 0),
                pa_profile_id = (case ah_profile_id header of Some v \<Rightarrow> v | None \<Rightarrow> 0), pa_aps_counter = ah_aps_counter header,
                pa_command = False, pa_fragment = fragment, pa_aps_security = aps_security\<rparr>\<rparr>)"

definition ApsFrameBuffer_clear :: "ApsFrameBuffer \<Rightarrow> ApsFrameBuffer" where
  "ApsFrameBuffer_clear b = \<lparr>fb_data = replicate (length (fb_data b)) 0, fb_len = 0\<rparr>"

text \<open>The last part of \<^verbatim>\<open>receive_fragment\<close>: what follows from the outcome of the reassembly.\<close>

definition settle_fragment ::
    "u32 \<Rightarrow> FragmentReceiver \<Rightarrow> ApsHeader \<Rightarrow> ShortAddress \<Rightarrow> IeeeAddress option \<Rightarrow> ApsKeyOrigin option \<Rightarrow> u8 \<Rightarrow> FragmentOutcome \<Rightarrow>
       ApsFrameBuffer \<Rightarrow> (bool \<times> FragmentReceiver \<times> ApsFrameBuffer) option" where
  "settle_fragment now r header nwk_src src_ieee aps_security block outcome buf =
     (let rollback = RollFragmentBlock nwk_src (ah_aps_counter header) block
      in case outcome of
           Pending ack newly \<Rightarrow>
             let r = (if newly then r\<lparr>rv_pending_rx_rollback := Some rollback\<rparr> else r)
             in Some (False, if ack \<noteq> None then queue_data_ack_inner r header nwk_src aps_security ack else r, buf)
         | Complete ack \<Rightarrow>
             (case take_reassembled (rv_fragment_rx r) nwk_src src_ieee (ah_aps_counter header) (fb_data buf) of
                None \<Rightarrow> None
              | Some (None, rx) \<Rightarrow> Some (False, r\<lparr>rv_fragment_rx := rx\<rparr>, buf)
              | Some (Some (data, n), rx) \<Rightarrow>
                  let r = r\<lparr>rv_fragment_rx := rx,
                        rv_dup_table := record_duplicate (rv_dup_table r) (rv_dup_timeout r) now nwk_src (ah_aps_counter header)
                          (Some (fa_window_start ack)),
                        rv_pending_rx_rollback := Some rollback\<rparr>
                  in Some (True, queue_data_ack_inner r header nwk_src aps_security (Some ack), \<lparr>fb_data = data, fb_len = n\<rparr>))
         | Rejected \<Rightarrow> Some (False, r, buf))"

text \<open>
  \<^verbatim>\<open>receive_fragment\<close>: the flag says whether the transaction is complete and its ASDU in the buffer.  The readings of the
  clock are \<open>clock 0\<close> (duplicate search), \<open>clock 1\<close> (reassembly) and \<open>clock 2\<close> (duplicate record).
\<close>

definition receive_fragment ::
    "(ShortAddress \<Rightarrow> IeeeAddress option) \<Rightarrow> (nat \<Rightarrow> u32) \<Rightarrow> FragmentReceiver \<Rightarrow> ApsHeader \<Rightarrow> ShortAddress \<Rightarrow> bool \<Rightarrow> ApsKeyOrigin option \<Rightarrow>
       bool \<Rightarrow> u8 list \<Rightarrow> ApsFrameBuffer \<Rightarrow> (bool \<times> FragmentReceiver \<times> ApsFrameBuffer) option" where
  "receive_fragment find_ieee_by_short clock r header nwk_src replay_duplicate aps_security block_in_decrypted_buf after_header buf =
     (case ah_extended_header header of
        None \<Rightarrow> Some (False, r, buf)
      | Some ext \<Rightarrow>
          if \<not> ac_ack_request (ah_frame_control header) \<or>
             ac_delivery_mode (ah_frame_control header) \<noteq> ApsDeliveryMode_to_u8 AdmUnicast then Some (False, r, buf)
          else if replay_duplicate then Some (False, r, buf)
          else case find_duplicate (rv_dup_table r) (rv_dup_timeout r) (clock 0) nwk_src (ah_aps_counter header) True of
                 Some index \<Rightarrow>
                   Some (False, queue_data_ack_inner r header nwk_src aps_security
                     (Some \<lparr>fa_fragmentation = ex_fragmentation ext,
                            fa_window_start = (case de_fragment_window (rv_dup_table r ! index) of Some w \<Rightarrow> w | None \<Rightarrow> 0),
                            fa_bitfield = 0xFF\<rparr>), buf)
               | None \<Rightarrow>
                   let src_ieee = find_ieee_by_short nwk_src \<bind> nonzero_ieee;
                       block = (if ex_fragmentation ext = FRAG_FIRST then 0 else ex_block_number ext);
                       payload = (if block_in_decrypted_buf then ApsFrameBuffer_payload buf else after_header)
                   in case insert_block (rv_fragment_rx r) (clock 1) (rv_aps_max_window_size r) nwk_src src_ieee (ah_aps_counter header)
                             (ex_fragmentation ext) (ex_block_number ext) payload of
                        (outcome, rx) \<Rightarrow>
                          settle_fragment (clock 2) (r\<lparr>rv_fragment_rx := rx\<rparr>) header nwk_src src_ieee aps_security block outcome
                            (if block_in_decrypted_buf then ApsFrameBuffer_clear buf else buf))"

text \<open>
  What follows a reception: the upper layer has stored the frame (\<^verbatim>\<open>complete_data_persistence\<close>; the replay floor it commits is
  part of the security state), or it could not, and then the acknowledgement is dropped and what the frame left behind undone.
\<close>

definition complete_data_persistence :: "FragmentReceiver \<Rightarrow> FragmentReceiver" where
  "complete_data_persistence r = r\<lparr>rv_pending_rx_rollback := None\<rparr>"

definition abort_data_persistence :: "FragmentReceiver \<Rightarrow> FragmentReceiver" where
  "abort_data_persistence r =
     (case abort_rollback (rv_pending_rx_rollback r) (rv_dup_table r) (rv_fragment_rx r) of
        (dups, rx) \<Rightarrow> r\<lparr>rv_dup_table := dups, rv_fragment_rx := rx, rv_pending_rx_rollback := None\<rparr>)"

definition discard_pending_aps_ack :: "FragmentReceiver \<Rightarrow> FragmentReceiver" where
  "discard_pending_aps_ack r = r\<lparr>rv_pending_aps_ack := None\<rparr>"

section \<open>A session that keeps its blocks\<close>

text \<open>
  While a rollback only ever undoes the last block, the fill mark is exactly the sum of the stored blocks, so a message that
  fits never overflows.
\<close>

definition exact :: "ReassemblyEntry \<Rightarrow> bool" where
  "exact e \<longleftrightarrow> unat (re_data_len e) = (\<Sum>b | b < 16 \<and> got e b. len e b)"

definition filling :: "u8 list list \<Rightarrow> ReassemblyEntry \<Rightarrow> bool" where
  "filling ps e \<longleftrightarrow> carries ps e \<and> exact e \<and> (got e 0 \<longrightarrow> re_total_blocks e \<noteq> 0) \<and> \<not> re_delivered e \<and> \<not> is_complete e"

lemma carried_len: "carries ps e \<Longrightarrow> got e b \<Longrightarrow> len e b = length (ps ! b)"
proof -
  assume c: "carries ps e" and g: "got e b"
  then have "re_wf e" "re_block e b = ps ! b" by (simp_all add: carries_def)
  moreover have "length (re_block e b) = len e b"
    using re_wfD(1)[of e b] re_wfD(4)[of e] g \<open>re_wf e\<close> by (simp add: re_block_def)
  ultimately show ?thesis by simp
qed

lemma exact_same: "same_storage e e' \<Longrightarrow> exact e' = exact e"
  by (simp add: exact_def same_storage_def)

lemma stored_exact:
  assumes wf: "re_wf e" and b: "b < 16" "\<not> got e b" and fits: "unat (re_data_len e) + length payload \<le> 256" "length payload < 256"
    and ex: "exact e"
  shows "exact (stored e now b payload)"
proof -
  let ?s = "stored e now b payload"
  note f = stored_fields[OF wf b(1) fits] and g = got_stored[OF b(1)]
  have "{c. c < 16 \<and> got ?s c} = insert b {c. c < 16 \<and> got e c}" using b(1) by (auto simp: g)
  then have "(\<Sum>c | c < 16 \<and> got ?s c. len ?s c) = length payload + (\<Sum>c | c < 16 \<and> got e c. len ?s c)"
    using b(2) by (simp add: f(2))
  also have "(\<Sum>c | c < 16 \<and> got e c. len ?s c) = (\<Sum>c | c < 16 \<and> got e c. len e c)"
    using b(2) by (intro sum.cong) (auto simp: f(2))
  finally show ?thesis using ex f(3) by (simp add: exact_def)
qed

lemma exact_fits:
  assumes c: "carries ps e" and ex: "exact e" and b: "b < length ps" "\<not> got e b" and sz: "length ps \<le> 16" "length (concat ps) \<le> 256"
  shows "unat (re_data_len e) + length (ps ! b) \<le> 256"
proof -
  have g: "got e x \<Longrightarrow> x < length ps" for x using c by (simp add: carries_def)
  have "unat (re_data_len e) = (\<Sum>x | x < 16 \<and> got e x. length (ps ! x))"
    using ex carried_len[OF c] unfolding exact_def by (auto intro!: sum.cong)
  then have "unat (re_data_len e) + length (ps ! b) = (\<Sum>x \<in> insert b {x. x < 16 \<and> got e x}. length (ps ! x))"
    using b(2) by simp
  also have "\<dots> \<le> (\<Sum>x<length ps. length (ps ! x))"
    by (rule sum_mono2) (use g b(1) in auto)
  also have "\<dots> = length (concat ps)" by (simp add: length_concat sum_list_sum_nth atLeast0LessThan)
  finally show ?thesis using sz by simp
qed

text \<open>The bits of an acknowledgement.\<close>

lemma re_ack_bit:
  assumes "i < 8" "unat (re_window_start e) < 240"
  shows "bit (fa_bitfield (re_ack e fragmentation ws)) i \<longleftrightarrow>
    i \<ge> unat ws \<or> re_total_blocks e \<noteq> 0 \<and> unat (re_window_start e) + i \<ge> unat (re_total_blocks e) \<or> got e (unat (re_window_start e) + i)"
proof -
  define P where "P j \<longleftrightarrow> (of_nat j :: u8) \<ge> ws \<or> re_total_blocks e \<noteq> 0 \<and> (ucast (re_window_start e) + of_nat j :: u16) \<ge> ucast (re_total_blocks e) \<or>
    (ucast (re_window_start e) + of_nat j :: u16) < of_nat MAX_BLOCKS \<and> re_has e (ucast (ucast (re_window_start e) + of_nat j :: u16))" for j
  have fold: "bit (fold (\<lambda>j w. if P j then w OR push_bit j 1 else w) js (w0 :: u8)) i \<longleftrightarrow> bit w0 i \<or> i \<in> set js \<and> P i" for js w0
    using assms(1) by (induction js arbitrary: w0) (auto simp: bit_simps)
  have e: "fa_bitfield (re_ack e fragmentation ws) = fold (\<lambda>j w. if P j then w OR push_bit j 1 else w) [0..<unat APS_MAX_WINDOW_SIZE] 0"
    unfolding re_ack_def P_def Let_def by simp
  have u: "unat (ucast (re_window_start e) + of_nat i :: u16) = unat (re_window_start e) + i"
    using assms by (simp add: unat_word_ariths unat_of_nat)
  have ui: "unat (of_nat i :: u8) = i" using assms(1) by (simp add: unat_of_nat_u8)
  have uu: "unat (ucast (ucast (re_window_start e) + of_nat i :: u16) :: u8) = unat (re_window_start e) + i"
    unfolding unsigned_ucast_eq using u assms by (simp add: take_bit_nat_eq_self)
  have "P i \<longleftrightarrow> i \<ge> unat ws \<or> re_total_blocks e \<noteq> 0 \<and> unat (re_window_start e) + i \<ge> unat (re_total_blocks e) \<or>
      got e (unat (re_window_start e) + i)"
    unfolding P_def word_le_nat_alt word_less_nat_alt u ui re_has_got uu
    using got_bound[of e "unat (re_window_start e) + i"] by (auto simp: MAX_BLOCKS_def APS_MAX_FRAGMENT_BLOCKS_def)
  then show ?thesis unfolding e fold using assms(1) by (simp add: APS_MAX_WINDOW_SIZE_def)
qed


text \<open>What an acknowledgement claims, over the blocks below the window size \<open>W\<close> and the end of the message.\<close>

definition claims :: "nat \<Rightarrow> nat \<Rightarrow> FragmentAck \<Rightarrow> nat set" where
  "claims W total_blocks ack = {b. \<exists>i<W. b = unat (fa_window_start ack) + i \<and> b < total_blocks \<and> bit (fa_bitfield ack) i}"

lemma claims_got:
  assumes c: "carries ps e" and w: "unat ws \<le> 8" and ps: "length ps \<le> 16" and b: "b \<in> claims (unat ws) (length ps) (re_ack e fragmentation ws)"
  shows "got e b"
proof -
  from b obtain i where i: "i < unat ws" "b = unat (re_window_start e) + i" "b < length ps" "bit (fa_bitfield (re_ack e fragmentation ws)) i"
    by (auto simp: claims_def re_ack_def)
  have "unat (re_window_start e) < 240" "i < 8" using i ps w by simp_all
  with re_ack_bit[of i e fragmentation ws] i c show ?thesis by (auto simp: carries_def)
qed

lemma prepared_filling:
  assumes "filling ps e" "prepared i tot e e0" "\<And>t. tot = Some t \<Longrightarrow> unat t = length ps" "ps \<noteq> []"
  shows "carries ps e0 \<and> exact e0 \<and> (got e0 0 \<longrightarrow> re_total_blocks e0 \<noteq> 0) \<and> \<not> re_delivered e0 \<and> (\<forall>b. got e0 b = got e b)"
proof -
  have "same_storage e e0" using assms(2) by (simp add: prepared_def)
  moreover have "carries ps e0" by (rule prepared_carries[OF assms(2) _ assms(3)]) (use assms(1) in \<open>simp_all add: filling_def\<close>)
  moreover have "re_total_blocks e \<noteq> 0 \<longrightarrow> re_total_blocks e0 \<noteq> 0" using assms(2) by (auto simp: prepared_def)
  ultimately show ?thesis using assms(1,2) by (auto simp: filling_def exact_same same_storageD prepared_def)
qed

text \<open>A block of the message stored in a filling session.\<close>

lemma store_filling:
  assumes e: "carries ps e" "exact e" "got e 0 \<longrightarrow> re_total_blocks e \<noteq> 0" "\<not> re_delivered e"
    and b: "unat block < length ps" "block = 0 \<longrightarrow> re_total_blocks e \<noteq> 0" and ok: "message_ok ps" and sz: "length (concat ps) \<le> 256"
    and ws: "unat ws \<le> 8" and s: "store_block now ws fragmentation block (ps ! unat block) e = (r, e')"
  shows "(\<exists>ack. r = Complete ack) \<or> filling ps e' \<and> (\<forall>c. got e c \<longrightarrow> got e' c) \<and> r \<noteq> Rejected \<and> re_active e' = re_active e \<and>
    (\<forall>ack st. r = Pending (Some ack) st \<longrightarrow> (\<forall>c \<in> claims (unat ws) (length ps) ack. got e' c))"
proof -
  have wf: "re_wf e" using e(1) by (simp add: carries_def)
  have ps16: "length ps \<le> 16" and b16: "unat block < 16" and lb: "length (ps ! unat block) < 256"
    using ok b(1) by (simp_all add: message_ok_def)
  let ?st = "stored e now (unat block) (ps ! unat block)"
  define E where "E = (if got e (unat block) then e else ?st)"
  have fit: "\<not> got e (unat block) \<Longrightarrow> unat (re_data_len e) + length (ps ! unat block) \<le> 256"
    by (rule exact_fits[OF e(1,2) b(1) _ ps16 sz])
  have eq: "store_block now ws fragmentation block (ps ! unat block) e =
      (if is_complete E then (Complete (re_ack E fragmentation ws), E)
       else (Pending (if range_all (sat_add block 1) (window_end E ws) (re_has E) then Some (re_ack E fragmentation ws) else None)
               (\<not> got e (unat block)), E))"
    unfolding store_block_eq[OF wf b16] Let_def E_def using fit by (auto simp: not_less)
  have c: "carries ps E" using carries_stored[OF e(1) b16 _ b(1) fit lb] e(1) by (simp add: E_def)
  have x: "exact E" using stored_exact[OF wf b16 _ fit lb e(2)] e(2) by (simp add: E_def)
  have f: "re_total_blocks E = re_total_blocks e" "re_delivered E = re_delivered e" "re_active E = re_active e"
    by (simp_all add: E_def stored_def Let_def)
  have g: "got E c \<longleftrightarrow> got e c \<or> c = unat block" for c using got_stored[OF b16] by (auto simp: E_def)
  have z: "got E 0 \<longrightarrow> re_total_blocks E \<noteq> 0"
    unfolding g f using e(3) b(2) by (metis unat_eq_zero)
  show ?thesis
  proof (cases "is_complete E")
    case True
    with s eq show ?thesis by auto
  next
    case False
    have "filling ps E" using c x z f e(4) False by (simp add: filling_def)
    moreover have e': "e' = E" "r = Pending (if range_all (sat_add block 1) (window_end E ws) (re_has E) then Some (re_ack E fragmentation ws) else None)
        (\<not> got e (unat block))" using s eq False by (simp_all only: if_False) blast+
    moreover have "got E d" if "d \<in> claims (unat ws) (length ps) (re_ack E fragmentation ws)" for d
      by (rule claims_got[OF c ws ps16 that])
    ultimately show ?thesis using g f(3) by (auto split: if_splits)
  qed
qed


text \<open>A block that reaches its session is out of the window, or goes to the storage of a session prepared for it.\<close>

lemma session_store:
  assumes e: "filling ps e" and b: "unat block < length ps"
    and tot: "tot = (if block = 0 then Some (of_nat (length ps)) else None)" and ok: "message_ok ps"
    and s: "session_block now ws i fragmentation block tot payload e = (r, e')"
  obtains (outside) "r = Pending None False" "filling ps e'" "\<forall>c. got e' c = got e c" "re_active e' = re_active e"
    | (inside) e3 where "carries ps e3" "exact e3" "got e3 0 \<longrightarrow> re_total_blocks e3 \<noteq> 0" "\<not> re_delivered e3"
      "block = 0 \<longrightarrow> re_total_blocks e3 \<noteq> 0" "\<forall>c. got e3 c = got e c" "re_active e3 = re_active e" "re_src_addr e3 = re_src_addr e"
      "re_aps_counter e3 = re_aps_counter e" "\<not> is_complete e3" "store_block now ws fragmentation block payload e3 = (r, e')"
proof -
  have ps: "length ps \<le> 16" "ps \<noteq> []" using ok by (auto simp: message_ok_def)
  define e1 where "e1 = (if re_src_ieee e = None then e\<lparr>re_src_ieee := i\<rparr> else e)"
  define e2 where "e2 = (if block = 0 \<and> re_total_blocks e1 = 0 then e1\<lparr>re_total_blocks := of_nat (length ps)\<rparr> else e1)"
  have c: "carries ps e" "\<not> re_delivered e" using e by (simp_all add: filling_def)
  have f1: "same_storage e e1" "re_total_blocks e1 = re_total_blocks e" "re_received e1 = re_received e" "re_active e1 = re_active e"
    by (simp_all add: e1_def same_storage_def)
  have pr: "prepared i tot e e2" by (auto simp: e2_def e1_def prepared_def same_storage_def tot)
  have ul: "unat (of_nat (length ps) :: u8) = length ps" using ps by (simp add: unat_of_nat_u8)
  have tt: "re_total_blocks e = 0 \<or> re_total_blocks e = of_nat (length ps)"
    using c(1) ul by (metis carries_def word_unat_eq_iff)
  have dz: "drop_bit (length ps) (ucast (re_received e1) :: u32) = 0"
  proof (rule bit_word_eqI)
    fix k
    have "\<not> got e (length ps + k)" using c(1) by (auto simp: carries_def)
    then show "bit (drop_bit (length ps) (ucast (re_received e1) :: u32)) k = bit (0 :: u32) k"
      by (simp add: f1(3) bit_simps)
  qed
  have nge: "\<not> (re_total_blocks e2 \<noteq> 0 \<and> block \<ge> re_total_blocks e2)"
    using tt b ul f1(2) by (auto simp: e2_def word_le_nat_alt)
  have "session_block now ws i fragmentation block tot payload e = window_block now ws fragmentation block payload e2"
  proof (cases "block = 0")
    case True
    then show ?thesis using c(2) tt dz ul nge f1(2) tot unfolding session_block_def Let_def e1_def[symmetric]
      by (cases "re_total_blocks e1 = 0") (simp_all add: e2_def)
  next
    case False
    then show ?thesis using c(2) nge f1(2) tot unfolding session_block_def Let_def e1_def[symmetric] by (auto simp: e2_def)
  qed
  with s have wb: "window_block now ws fragmentation block payload e2 = (r, e')" by simp
  have tl: "tot = Some t \<Longrightarrow> unat t = length ps" for t using tot ul by (auto split: if_splits)
  note pf = prepared_filling[OF e pr tl ps(2)]
  have z: "block = 0 \<longrightarrow> re_total_blocks e2 \<noteq> 0" using ul ps(2) by (auto simp: e2_def)
  have nc: "\<not> is_complete e2"
  proof
    assume "is_complete e2"
    then have all: "\<forall>x<unat (re_total_blocks e2). got e x" "re_total_blocks e2 \<noteq> 0" using pf by (simp_all add: is_complete_iff)
    then have "got e 0" by (simp add: unat_gt_0)
    then have "re_total_blocks e \<noteq> 0" using e by (simp add: filling_def)
    then have "re_total_blocks e2 = re_total_blocks e" using f1(2) by (simp add: e2_def)
    with all have "is_complete e" by (simp add: is_complete_iff)
    with e show False by (simp add: filling_def)
  qed
  from window_block_cases[of now ws fragmentation block payload e2 i] wb
  consider "r = Pending None False" "e' = e2"
    | e3 where "prepared i None e2 e3" "store_block now ws fragmentation block payload e3 = (r, e')" by auto
  then show thesis
  proof cases
    case 1
    show thesis by (rule outside) (use 1 pf nc f1(4) in \<open>auto simp: filling_def e2_def\<close>)
  next
    case (2 e3)
    have s3: "same_storage e2 e3" "re_total_blocks e3 = re_total_blocks e2" "re_delivered e3 = re_delivered e2" "re_active e3 = re_active e2"
      "re_src_addr e3 = re_src_addr e2" "re_aps_counter e3 = re_aps_counter e2" using 2(1) by (auto simp: prepared_def)
    have g3: "got e3 x = got e x" for x using pf same_storageD(3)[OF s3(1)] by simp
    show thesis
    proof (rule inside[OF _ _ _ _ _ _ _ _ _ _ 2(2)])
      show "carries ps e3" using carries_same[OF _ s3(1,2)] pf by simp
      show "exact e3" using exact_same[OF s3(1)] pf by simp
      show "got e3 0 \<longrightarrow> re_total_blocks e3 \<noteq> 0" "\<not> re_delivered e3" using pf s3 g3 by auto
      show "block = 0 \<longrightarrow> re_total_blocks e3 \<noteq> 0" using z s3(2) by simp
      show "\<forall>c. got e3 c = got e c" using g3 by blast
      show "re_active e3 = re_active e" "re_src_addr e3 = re_src_addr e" "re_aps_counter e3 = re_aps_counter e"
        using s3(4-6) f1(4) by (simp_all add: e2_def e1_def)
      show "\<not> is_complete e3" using nc s3(2) g3 pf by (simp add: is_complete_iff)
    qed
  qed
qed

lemma session_filling:
  assumes e: "filling ps e" and b: "unat block < length ps"
    and tot: "tot = (if block = 0 then Some (of_nat (length ps)) else None)"
    and ok: "message_ok ps" and sz: "length (concat ps) \<le> 256" and ws: "unat ws \<le> 8"
    and s: "session_block now ws i fragmentation block tot (ps ! unat block) e = (r, e')"
  shows "(\<exists>ack. r = Complete ack) \<or> filling ps e' \<and> (\<forall>c. got e c \<longrightarrow> got e' c) \<and> r \<noteq> Rejected \<and> re_active e' = re_active e \<and>
    (\<forall>ack st. r = Pending (Some ack) st \<longrightarrow> (\<forall>c \<in> claims (unat ws) (length ps) ack. got e' c))"
  using e b tot ok s
proof (cases rule: session_store)
  case (inside e3)
  then show ?thesis using store_filling[OF inside(1-4) b inside(5) ok sz ws inside(11)] by simp
qed simp

text \<open>A block that was stored anew and is then rolled back leaves the session as it was.\<close>

lemma rollback_stored:
  assumes wf: "re_wf e" and b: "unat block < 16" "\<not> got e (unat block)"
    and fits: "unat (re_data_len e) + length payload \<le> 256" "length payload < 256"
    and x: "x = rollback_entry block ((stored e now (unat block) payload)\<lparr>re_delivered := d\<rparr>)"
  shows "re_received e = 0 \<Longrightarrow> \<not> re_active x"
    "re_received e \<noteq> 0 \<Longrightarrow> (\<forall>c. got x c = got e c) \<and> re_data_len x = re_data_len e \<and> (\<forall>c. c \<noteq> unat block \<longrightarrow> len x c = len e c) \<and>
       re_total_blocks x = re_total_blocks e \<and> \<not> re_delivered x \<and> re_active x = re_active e \<and> re_src_addr x = re_src_addr e \<and>
       re_aps_counter x = re_aps_counter e"
proof -
  let ?b = "unat block"
  let ?E = "stored e now ?b payload\<lparr>re_delivered := False\<rparr>"
  note f = stored_fields[OF wf b(1) fits] and g = got_stored[OF b(1), of e now payload]
  have o: "re_block_offset ?E ! ?b + ucast (re_block_len ?E ! ?b) = re_data_len ?E" "re_block_offset ?E ! ?b = re_data_len e"
  proof -
    have u: "unat (re_block_offset ?E ! ?b) = unat (re_data_len e)" "unat (re_block_len ?E ! ?b) = length payload"
      "unat (re_data_len ?E) = unat (re_data_len e) + length payload" using f(1-3)[of now] by simp_all
    show "re_block_offset ?E ! ?b = re_data_len e" using u(1) by (simp only: word_unat_eq_iff)
    have "unat (ucast (re_block_len ?E ! ?b) :: u16) = length payload" using u(2) fits(2) by (simp add: unsigned_ucast_eq take_bit_nat_eq_self)
    then show "re_block_offset ?E ! ?b + ucast (re_block_len ?E ! ?b) = re_data_len ?E"
      unfolding word_unat_eq_iff using u fits by (simp add: unat_word_ariths)
  qed
  have ge: "got ?E ?b" using g by simp
  have rc: "re_received (forget_block ?b ?E) = re_received e"
    by (rule bit_word_eqI) (use g b(2) in \<open>auto simp: got_forget\<close>)
  have fb: "forget_block ?b ?E = ?E\<lparr>re_received := re_received e, re_data_len := re_data_len e\<rparr>"
    using rc o by (simp add: forget_block_def Let_def)
  have xx: "x = (if re_received e = 0 then re_reset (forget_block ?b ?E) else forget_block ?b ?E)"
    unfolding x rollback_eq Let_def using ge rc by simp
  show "re_received e = 0 \<Longrightarrow> \<not> re_active x" unfolding xx by simp
  show "re_received e \<noteq> 0 \<Longrightarrow> (\<forall>c. got x c = got e c) \<and> re_data_len x = re_data_len e \<and> (\<forall>c. c \<noteq> ?b \<longrightarrow> len x c = len e c) \<and>
       re_total_blocks x = re_total_blocks e \<and> \<not> re_delivered x \<and> re_active x = re_active e \<and> re_src_addr x = re_src_addr e \<and>
       re_aps_counter x = re_aps_counter e"
    unfolding xx fb by (simp add: stored_def Let_def)
qed

lemma rollback_filling:
  assumes e: "carries ps e" "exact e" "got e 0 \<longrightarrow> re_total_blocks e \<noteq> 0" "\<not> is_complete e"
    and b: "unat block < 16" "\<not> got e (unat block)" "unat block < length ps"
    and fits: "unat (re_data_len e) + length (ps ! unat block) \<le> 256" "length (ps ! unat block) < 256"
    and x: "x = rollback_entry block ((stored e now (unat block) (ps ! unat block))\<lparr>re_delivered := d\<rparr>)"
  shows "(re_received e = 0 \<and> \<not> re_active x) \<or> filling ps x \<and> (\<forall>c. got x c = got e c) \<and> re_active x = re_active e \<and>
    re_src_addr x = re_src_addr e \<and> re_aps_counter x = re_aps_counter e"
proof (cases "re_received e = 0")
  case True
  have "re_wf e" using e(1) by (simp add: carries_def)
  then show ?thesis using rollback_stored(1)[OF _ b(1,2) fits x True] True by simp
next
  case False
  have wf: "re_wf e" using e(1) by (simp add: carries_def)
  note r = rollback_stored(2)[OF wf b(1,2) fits x False]
  have "carries ps (stored e now (unat block) (ps ! unat block))" by (rule carries_stored[OF e(1) b(1,2,3) fits])
  then have "carries ps ((stored e now (unat block) (ps ! unat block))\<lparr>re_delivered := d\<rparr>)"
    by (rule carries_same) (simp_all add: same_storage_def)
  then have "carries ps x" unfolding x by (rule rollback_carries)
  moreover have "exact x"
  proof -
    have "len x c = len e c" if "got e c" for c using r b(2) that by metis
    then have "(\<Sum>c | c < 16 \<and> got x c. len x c) = (\<Sum>c | c < 16 \<and> got e c. len e c)" using r by (intro sum.cong) auto
    then show ?thesis using e(2) r by (simp add: exact_def)
  qed
  moreover have "\<not> is_complete x" using e(4) r by (simp add: is_complete_iff)
  ultimately show ?thesis using r e(3) by (simp add: filling_def)
qed

section \<open>The receiver's table\<close>

definition held :: "u16 \<Rightarrow> u8 \<Rightarrow> FragmentReassembly \<Rightarrow> nat \<Rightarrow> bool" where
  "held S C es b \<longleftrightarrow> (\<exists>e\<in>set es. mine S C e \<and> got e b)"

definition rx_filling :: "u16 \<Rightarrow> u8 \<Rightarrow> IeeeAddress option \<Rightarrow> u8 list list \<Rightarrow> FragmentReassembly \<Rightarrow> bool" where
  "rx_filling S C I ps es \<longleftrightarrow> table_inv S C I ps es \<and> (\<forall>e\<in>set es. mine S C e \<longrightarrow> filling ps e)"

lemma opened_filling: "re_wf e \<Longrightarrow> filling ps (open_session now S I C e)"
  using open_session_carries[of e ps now S I C]
  by (auto simp: filling_def exact_def is_complete_def open_session_def re_reset_def)

lemma held_update:
  assumes "j < length es" "\<And>b. mine S C (es ! j) \<Longrightarrow> got (es ! j) b \<Longrightarrow> mine S C e' \<and> got e' b" "held S C es b"
  shows "held S C (es[j := e']) b"
proof -
  obtain e where e: "e \<in> set es" "mine S C e" "got e b" using assms(3) by (auto simp: held_def)
  then obtain k where k: "k < length es" "es ! k = e" by (auto simp: in_set_conv_nth)
  show ?thesis
  proof (cases "k = j")
    case True
    with assms(2) e k have "mine S C e' \<and> got e' b" by blast
    moreover have "e' \<in> set (es[j := e'])" using assms(1) by (simp add: set_update_memI)
    ultimately show ?thesis by (auto simp: held_def)
  next
    case False
    then have "es[j := e'] ! k = e" "k < length (es[j := e'])" using k by simp_all
    with e show ?thesis unfolding held_def by (metis nth_mem)
  qed
qed

lemma held_map_if:
  assumes "held S C es b" "\<And>e. mine S C e \<Longrightarrow> got e b \<Longrightarrow> \<not> P e"
  shows "held S C (map_if P f es) b"
  using assms unfolding held_def map_if_def by (fastforce intro: rev_image_eqI)

lemma rx_filling_map_if: "rx_filling S C I ps es \<Longrightarrow> rx_filling S C I ps (map_if P re_reset es)"
  using table_inv_map_if[of S C I ps es P] unfolding rx_filling_def by (auto simp: map_if_def mine_def)


text \<open>A genuine block of the transaction offered to the table.\<close>

definition genuine_kind :: "u8 \<Rightarrow> u8 \<Rightarrow> u8 list list \<Rightarrow> nat \<Rightarrow> bool" where
  "genuine_kind fragmentation bf ps b \<longleftrightarrow> b < length ps \<and>
     (if b = 0 then fragmentation = FRAG_FIRST \<and> bf = of_nat (length ps) else fragmentation = FRAG_SUBSEQUENT \<and> bf = of_nat b)"

lemma genuine_kindD: "genuine_kind fragmentation bf ps b \<Longrightarrow> length ps \<le> 16 \<Longrightarrow> genuine ps fragmentation bf (ps ! b)"
  by (auto simp: genuine_kind_def genuine_def unat_of_nat_u8 split: if_splits)

lemma own_offer_filling:
  assumes inv: "rx_filling S C I ps es" and ok: "message_ok ps" and sz: "length (concat ps) \<le> 256"
    and g: "genuine_kind fragmentation bf ps b"
    and r: "insert_block es now ws S I C fragmentation bf (ps ! b) = (r, es')"
  shows "(\<exists>ack. r = Complete ack) \<or> rx_filling S C I ps es' \<and> (\<forall>c. held S C es c \<longrightarrow> held S C es' c) \<and>
    (\<forall>ack st. r = Pending (Some ack) st \<longrightarrow> (\<forall>c \<in> claims (unat (clamp_window_size ws)) (length ps) ack. held S C es' c))"
proof -
  have ps: "length ps \<le> 16" using ok by (simp add: message_ok_def)
  have inv0: "table_inv S C I ps es" using inv by (simp add: rx_filling_def)
  note gen = genuine_kindD[OF g ps]
  obtain r1 es1 where r1: "insert_block_inner es now ws S I C fragmentation bf (ps ! b) = (r1, es1)" by force
  have rr: "r = r1" "es' = (if r1 = Rejected then map_if (\<lambda>e. re_active e \<and> re_received e = 0) re_reset es1 else es1)"
    using r r1 by (auto simp: insert_block_def)
  have inv1: "table_inv S C I ps es1" using table_inv_insert_inner[OF inv0 ok _ r1] gen by simp
  have main: "(\<exists>ack. r1 = Complete ack) \<or> rx_filling S C I ps es1 \<and> (\<forall>c. held S C es c \<longrightarrow> held S C es1 c) \<and>
    (\<forall>ack st. r1 = Pending (Some ack) st \<longrightarrow> (\<forall>c \<in> claims (unat (clamp_window_size ws)) (length ps) ack. held S C es1 c))"
  proof (cases rule: insert_inner_cases[of es now ws S I C fragmentation bf "ps ! b"])
    case 1
    with r1 inv show ?thesis by simp
  next
    case (2 idx block tot e0 r0 e')
    have ub: "unat (of_nat b :: u8) = b" using g ps by (simp add: genuine_kind_def unat_of_nat_u8)
    have bt: "unat block = b" "tot = (if block = 0 then Some (of_nat (length ps)) else None)"
      using 2(1) g ub by (auto simp: offered_def genuine_kind_def FRAG_FIRST_def FRAG_SUBSEQUENT_def split: if_splits)
    have idx: "idx < length es" using 2(3) by (simp add: reached_def)
    have wfi: "re_wf (es ! idx)" using inv0 idx by (simp add: table_inv_def)
    have m0: "mine S C e0" using 2(3) by (auto simp: reached_def mine_def re_matches_def open_session_def)
    have e0: "filling ps e0" using 2(3) inv idx opened_filling[OF wfi] by (auto simp: reached_def rx_filling_def re_matches_def mine_def)
    have old: "mine S C (es ! idx) \<Longrightarrow> e0 = es ! idx"
      using 2(3) mine_matches[OF inv0 idx] by (auto simp: reached_def mine_def)
    have bl: "unat block < length ps" using bt(1) g by (simp add: genuine_kind_def)
    from session_filling[OF e0 bl bt(2) ok sz clamp_range(2) 2(4)[folded bt(1)]]
    show ?thesis
    proof
      assume f: "filling ps e' \<and> (\<forall>c. got e0 c \<longrightarrow> got e' c) \<and> r0 \<noteq> Rejected \<and> re_active e' = re_active e0 \<and>
        (\<forall>ack st. r0 = Pending (Some ack) st \<longrightarrow> (\<forall>c \<in> claims (unat (clamp_window_size ws)) (length ps) ack. got e' c))"
      have "unat block < 16" "length (ps ! b) < 256" using bl ps ok bt(1) by (simp_all add: message_ok_def)
      moreover have "re_wf e0" using e0 by (simp add: filling_def carries_def)
      ultimately have m': "mine S C e'" using session_block_any[OF _ _ _ 2(4)] m0 f by (auto simp: mine_def)
      have es1: "es1 = es[idx := e']" "r1 = r0" using r1 2(5) by simp_all
      have fl: "\<forall>e\<in>set es1. mine S C e \<longrightarrow> filling ps e"
        using inv f es1(1) by (auto simp: rx_filling_def dest!: set_update_subset_insert[THEN subsetD])
      have "held S C es c \<Longrightarrow> held S C es1 c" for c
        unfolding es1 using held_update[OF idx, of S C e' c] old f m' by blast
      moreover have "got e' c \<Longrightarrow> held S C es1 c" for c
        unfolding es1 held_def using m' set_update_memI[OF idx] by blast
      ultimately show ?thesis using f es1 inv1 fl by (auto simp: rx_filling_def)
    qed (use r1 2(5) in auto)
  qed
  show ?thesis
  proof (cases "r1 = Rejected")
    case False
    with main rr show ?thesis by simp
  next
    case True
    have "held S C es1 c \<Longrightarrow> held S C es' c" for c
      unfolding rr(2) using True by (auto intro!: held_map_if)
    with main rr True rx_filling_map_if show ?thesis by auto
  qed
qed

text \<open>A block that was new and is rolled back, also after it completed the message and the message was read out.\<close>

lemma stored_anew:
  assumes nc: "\<not> is_complete e" and wf: "re_wf e" and b: "unat block < 16" and fit: "\<not> got e (unat block) \<longrightarrow> unat (re_data_len e) + length payload \<le> 256"
    and s: "store_block now ws fragmentation block payload e = (r, e')" and new: "(\<exists>ack. r = Complete ack) \<or> (\<exists>a. r = Pending a True)"
  shows "\<not> got e (unat block) \<and> e' = stored e now (unat block) payload"
proof -
  have "\<not> got e (unat block)"
  proof
    assume "got e (unat block)"
    then have "\<exists>a. r = Pending a False" using s nc unfolding store_block_eq[OF wf b] by (auto simp: Let_def)
    with new show False by auto
  qed
  then show ?thesis using s fit unfolding store_block_eq[OF wf b] by (auto simp: Let_def split: if_splits)
qed

lemma own_offer_aborted:
  assumes inv: "rx_filling S C I ps es" and ok: "message_ok ps" and sz: "length (concat ps) \<le> 256"
    and g: "genuine_kind fragmentation bf ps b"
    and r: "insert_block es now ws S I C fragmentation bf (ps ! b) = (r, es')"
    and new: "(\<exists>ack. r = Complete ack) \<or> (\<exists>a. r = Pending a True)"
    and inv2: "table_inv S C I ps es2"
    and upd: "es2 = es' \<or> (\<exists>j<length es'. mine S C (es' ! j) \<and> es2 = es'[j := (es' ! j)\<lparr>re_delivered := True\<rparr>])"
  shows "rx_filling S C I ps (rollback_block es2 S C (of_nat b)) \<and> (\<forall>c. held S C es c \<longrightarrow> held S C (rollback_block es2 S C (of_nat b)) c)"
proof -
  have ps: "length ps \<le> 16" using ok by (simp add: message_ok_def)
  have inv0: "table_inv S C I ps es" using inv by (simp add: rx_filling_def)
  have rn: "r \<noteq> Rejected" using new by auto
  have r1: "insert_block_inner es now ws S I C fragmentation bf (ps ! b) = (r, es')" using r rn by (auto simp: insert_block_def split: prod.splits if_splits)
  have ub: "unat (of_nat b :: u8) = b" using g ps by (simp add: genuine_kind_def unat_of_nat_u8)
  obtain idx block tot e0 e' where 2: "offered fragmentation bf block tot" "reached es now S I C idx e0"
    "session_block now (clamp_window_size ws) I fragmentation block tot (ps ! b) e0 = (r, e')" "es' = es[idx := e']"
  proof (cases rule: insert_inner_cases[of es now ws S I C fragmentation bf "ps ! b"])
    case 1
    with r1 rn show thesis by simp
  next
    case (2 idx block tot e0 r0 e')
    with r1 that show thesis by auto
  qed
  have bt: "unat block = b" "tot = (if block = 0 then Some (of_nat (length ps)) else None)"
    using 2(1) g ub by (auto simp: offered_def genuine_kind_def FRAG_FIRST_def FRAG_SUBSEQUENT_def split: if_splits)
  have blk: "(of_nat b :: u8) = block" using bt(1) ub by (simp only: word_unat_eq_iff)
  have idx: "idx < length es" using 2(2) by (simp add: reached_def)
  have wfi: "re_wf (es ! idx)" using inv0 idx by (simp add: table_inv_def)
  have m0: "mine S C e0" using 2(2) by (auto simp: reached_def mine_def re_matches_def open_session_def)
  have e0: "filling ps e0" using 2(2) inv idx opened_filling[OF wfi] by (auto simp: reached_def rx_filling_def re_matches_def mine_def)
  have old: "mine S C (es ! idx) \<Longrightarrow> e0 = es ! idx"
    using 2(2) mine_matches[OF inv0 idx] by (auto simp: reached_def mine_def)
  have bl: "unat block < length ps" "unat block < 16" "length (ps ! b) < 256" using bt(1) g ps ok by (simp_all add: genuine_kind_def message_ok_def)
  obtain e3 where e3: "carries ps e3" "exact e3" "got e3 0 \<longrightarrow> re_total_blocks e3 \<noteq> 0" "\<forall>c. got e3 c = got e0 c" "re_active e3 = re_active e0"
    "re_src_addr e3 = re_src_addr e0" "re_aps_counter e3 = re_aps_counter e0" "\<not> is_complete e3"
    "store_block now (clamp_window_size ws) fragmentation block (ps ! b) e3 = (r, e')"
    using e0 bl(1) bt(2) ok 2(3) by (cases rule: session_store) (use new in auto)
  have wf3: "re_wf e3" using e3(1) by (simp add: carries_def)
  have fit: "\<not> got e3 b \<longrightarrow> unat (re_data_len e3) + length (ps ! b) \<le> 256" using exact_fits[OF e3(1,2) _ _ ps sz, of b] bl(1) bt(1) by simp
  have ng: "\<not> got e3 b" and e': "e' = stored e3 now b (ps ! b)"
    using stored_anew[OF e3(8) wf3 bl(2) _ e3(9) new] fit unfolding bt(1) by auto
  have m': "mine S C e'" using m0 e3(5-7) by (simp add: e' mine_def stored_def Let_def)
  have only: "k = idx" if "k < length es" "mine S C (es' ! k)" for k
  proof -
    have "table_inv S C I ps es'" using table_inv_insert_inner[OF inv0 ok _ r1] genuine_kindD[OF g ps] by simp
    moreover have "mine S C (es' ! idx)" using m' idx 2(4) by simp
    ultimately show ?thesis using that idx 2(4) unfolding table_inv_def by (metis length_list_update)
  qed
  obtain d where es2: "es2 = es[idx := e'\<lparr>re_delivered := d\<rparr>]"
  proof -
    from upd consider "es2 = es'" | j where "j < length es'" "mine S C (es' ! j)" "es2 = es'[j := (es' ! j)\<lparr>re_delivered := True\<rparr>]" by blast
    then show thesis
    proof cases
      case 1
      then show thesis using that[of "re_delivered e'"] 2(4) by simp
    next
      case (2 j)
      have "j = idx" using only[of j] 2 \<open>es' = es[idx := e']\<close> by simp
      with 2(3) that[of True] \<open>es' = es[idx := e']\<close> idx show thesis by simp
    qed
  qed
  define x where "x = rollback_entry block (e'\<lparr>re_delivered := d\<rparr>)"
  have pos: "position (\<lambda>e. re_active e \<and> re_src_addr e = S \<and> re_aps_counter e = C) es2 = Some idx"
  proof -
    have "mine S C (es2 ! idx)" "es2 ! idx \<in> set es2" using m' idx es2 by (simp_all add: mine_def set_update_memI)
    then obtain k where k: "position (\<lambda>e. re_active e \<and> re_src_addr e = S \<and> re_aps_counter e = C) es2 = Some k"
      using position_Some_exists[of "es2 ! idx" es2 "\<lambda>e. re_active e \<and> re_src_addr e = S \<and> re_aps_counter e = C"]
      by (auto simp: mine_def)
    from position_SomeD[OF k] have kk: "k < length es" "mine S C (es2 ! k)" using es2 by (auto simp: mine_def)
    then have "mine S C (es' ! k)" using es2 2(4) m' idx by (cases "k = idx") simp_all
    with only[OF kk(1)] k show ?thesis by simp
  qed
  have rb: "rollback_block es2 S C (of_nat b) = es[idx := x]"
    using bl(2) pos idx unfolding rollback_block_def blk x_def
    by (simp add: MAX_BLOCKS_def APS_MAX_FRAGMENT_BLOCKS_def update_first_position es2)
  have ti: "table_inv S C I ps (es[idx := x])" using table_inv_step[OF inv2 ok, of "Rollback S C (of_nat b)"] by (simp add: rb)
  have rf: "(re_received e3 = 0 \<and> \<not> re_active x) \<or> filling ps x \<and> (\<forall>c. got x c = got e3 c) \<and> re_active x = re_active e3 \<and>
      re_src_addr x = re_src_addr e3 \<and> re_aps_counter x = re_aps_counter e3"
    by (rule rollback_filling[OF e3(1-3,8) bl(2), where now = now and d = d]) (use ng fit bl bt(1) x_def e' in auto)
  have fl: "\<forall>e\<in>set (es[idx := x]). mine S C e \<longrightarrow> filling ps e"
    using inv rf by (auto simp: rx_filling_def mine_def dest!: set_update_subset_insert[THEN subsetD])
  have hg: "got e0 c \<and> mine S C (es ! idx)" if h: "held S C es c" for c
  proof -
    obtain k where k: "k < length es" "mine S C (es ! k)" "got (es ! k) c" using h by (auto simp: held_def in_set_conv_nth)
    have "k = idx" using only[OF k(1)] k(2) 2(4) by (cases "k = idx") simp_all
    with k old show ?thesis by auto
  qed
  have "held S C (es[idx := x]) c" if h: "held S C es c" for c
  proof -
    have "got e3 c" using hg[OF h] e3(4) by simp
    then have "re_received e3 \<noteq> 0" by auto
    with rf \<open>got e3 c\<close> m0 e3(5-7) have "mine S C x \<and> got x c" by (simp add: mine_def)
    then show ?thesis using set_update_memI[OF idx] by (auto simp: held_def)
  qed
  with ti fl show ?thesis unfolding rb by (simp add: rx_filling_def)
qed

text \<open>Blocks of other transactions, and the housekeeping, leave it alone.\<close>

lemma foreign_offer_filling:
  assumes inv: "rx_filling S C I ps es" and ok: "message_ok ps" and f: "src \<noteq> S \<or> ctr \<noteq> C"
    and r: "insert_block es now ws src i ctr fragmentation bf payload = (r, es')"
  shows "rx_filling S C I ps es' \<and> (\<forall>c. held S C es c \<longrightarrow> held S C es' c)"
proof -
  obtain r1 es1 where r1: "insert_block_inner es now ws src i ctr fragmentation bf payload = (r1, es1)" by force
  have es': "es' = (if r1 = Rejected then map_if (\<lambda>e. re_active e \<and> re_received e = 0) re_reset es1 else es1)"
    using r r1 by (auto simp: insert_block_def)
  have inv0: "table_inv S C I ps es" using inv by (simp add: rx_filling_def)
  have inv1: "table_inv S C I ps es1" using table_inv_insert_inner[OF inv0 ok _ r1] f by blast
  have "(\<forall>e\<in>set es1. mine S C e \<longrightarrow> filling ps e) \<and> (\<forall>c. held S C es c \<longrightarrow> held S C es1 c)"
  proof (cases rule: insert_inner_cases[of es now ws src i ctr fragmentation bf payload])
    case 1
    with r1 inv show ?thesis by (simp add: rx_filling_def)
  next
    case (2 idx block tot e0 r0 e')
    have idx: "idx < length es" using 2(3) by (simp add: reached_def)
    have wf0: "re_wf e0" using 2(3) inv0 idx open_session_carries by (auto simp: reached_def table_inv_def)
    have b16: "unat block < 16" using 2(1) by (simp add: offered_def)
    have "re_src_addr e0 = src \<and> re_aps_counter e0 = ctr" using 2(3) by (auto simp: reached_def re_matches_def open_session_def)
    with session_block_any[OF wf0 b16 2(2) 2(4)] f have nm: "\<not> mine S C e'" by (auto simp: mine_def)
    have no: "\<not> mine S C (es ! idx)" using 2(3) f by (auto simp: reached_def re_matches_def mine_def)
    have "es1 = es[idx := e']" using r1 2(5) by simp
    with nm no inv idx held_update[OF idx, of S C e'] show ?thesis
      by (auto simp: rx_filling_def dest!: set_update_subset_insert[THEN subsetD])
  qed
  with inv1 have main: "rx_filling S C I ps es1" "\<forall>c. held S C es c \<longrightarrow> held S C es1 c" by (simp_all add: rx_filling_def)
  moreover have "held S C es1 c \<Longrightarrow> held S C (map_if (\<lambda>e. re_active e \<and> re_received e = 0) re_reset es1) c" for c
    by (auto intro!: held_map_if)
  ultimately show ?thesis using es' rx_filling_map_if by auto
qed

lemma finalize_filling:
  assumes "rx_filling S C I ps es"
  shows "rx_filling S C I ps (finalize_delivered es) \<and> (\<forall>c. held S C es c \<longrightarrow> held S C (finalize_delivered es) c)"
proof -
  have "held S C es c \<Longrightarrow> held S C (finalize_delivered es) c" for c
  proof -
    assume "held S C es c"
    then obtain e where e: "e \<in> set es" "mine S C e" "got e c" by (auto simp: held_def)
    with assms have "\<not> re_delivered e" by (auto simp: rx_filling_def filling_def)
    with e show ?thesis unfolding held_def finalize_delivered_def map_if_def by (auto intro!: rev_image_eqI)
  qed
  with rx_filling_map_if[OF assms] show ?thesis by (simp add: finalize_delivered_def)
qed

lemma expire_filling:
  assumes "rx_filling S C I ps es" "\<forall>e\<in>set es. mine S C e \<longrightarrow> now - re_last_progress_us e < APS_FRAGMENT_RX_TIMEOUT_US"
  shows "rx_filling S C I ps (FragmentReassembly_expire es now) \<and> (\<forall>c. held S C es c \<longrightarrow> held S C (FragmentReassembly_expire es now) c)"
proof -
  have "held S C es c \<Longrightarrow> held S C (FragmentReassembly_expire es now) c" for c
  proof -
    assume "held S C es c"
    then obtain e where e: "e \<in> set es" "mine S C e" "got e c" by (auto simp: held_def)
    with assms(2) have "\<not> APS_FRAGMENT_RX_TIMEOUT_US \<le> now - re_last_progress_us e" by (auto simp: not_le)
    with e show ?thesis unfolding held_def FragmentReassembly_expire_def map_if_def by (auto intro!: rev_image_eqI)
  qed
  with rx_filling_map_if[OF assms(1)] show ?thesis by (simp add: FragmentReassembly_expire_def)
qed


section \<open>The receiving handler\<close>

text \<open>No completed transaction of this source and counter is on record.\<close>

definition no_record :: "u16 \<Rightarrow> u8 \<Rightarrow> DupTable \<Rightarrow> bool" where
  "no_record S C dups \<longleftrightarrow> (\<forall>e\<in>set dups. de_active e \<and> de_src_addr e = S \<and> de_aps_counter e = C \<longrightarrow> de_fragment_window e = None)"

lemma no_record_find: "no_record S C dups \<Longrightarrow> find_duplicate dups tmo now S C True = None"
  unfolding find_duplicate_def Let_def position_None_iff by (auto simp: no_record_def dup_entry_live_def)

lemma no_record_new: "no_record S C dups \<Longrightarrow> src \<noteq> S \<or> ctr \<noteq> C \<or> window = None \<Longrightarrow> no_record S C (record_duplicate dups tmo now src ctr window)"
  unfolding no_record_def record_duplicate_def by (auto split: option.splits dest!: set_update_subset_insert[THEN subsetD])

lemma no_record_map: "no_record S C dups \<Longrightarrow> no_record S C (map_if P (\<lambda>e. e\<lparr>de_active := False\<rparr>) dups)"
  by (auto simp: no_record_def map_if_def)

definition ack_for :: "u16 \<Rightarrow> u8 \<Rightarrow> PendingApsAck \<Rightarrow> bool" where
  "ack_for S C ack \<longleftrightarrow> pa_dst_addr ack = S \<and> pa_aps_counter ack = C"

lemma insert_block_kind:
  assumes "insert_block es now ws src i ctr fragmentation bf payload = (r, es')"
  shows "(\<forall>ack st. r = Pending (Some ack) st \<longrightarrow> fa_fragmentation ack = fragmentation) \<and>
    (\<forall>ack. r = Complete ack \<longrightarrow> fa_fragmentation ack = fragmentation)"
proof -
  have st: "store_block now w fragmentation block payload e = (r, e') \<Longrightarrow>
      (\<forall>ack st. r = Pending (Some ack) st \<longrightarrow> fa_fragmentation ack = fragmentation) \<and>
      (\<forall>ack. r = Complete ack \<longrightarrow> fa_fragmentation ack = fragmentation)" for w block e e'
    by (auto simp: store_block_def re_ack_def Let_def split: if_splits)
  have wb: "window_block now w fragmentation block payload e = (r, e') \<Longrightarrow>
      (\<forall>ack st. r = Pending (Some ack) st \<longrightarrow> fa_fragmentation ack = fragmentation) \<and>
      (\<forall>ack. r = Complete ack \<longrightarrow> fa_fragmentation ack = fragmentation)" for w block e e'
    unfolding window_block_def Let_def using st by (auto split: if_splits)
  have sb: "session_block now w i fragmentation block tot payload e = (r, e') \<Longrightarrow>
      (\<forall>ack st. r = Pending (Some ack) st \<longrightarrow> fa_fragmentation ack = fragmentation) \<and>
      (\<forall>ack. r = Complete ack \<longrightarrow> fa_fragmentation ack = fragmentation)" for w block tot e e'
    unfolding session_block_def Let_def using wb by (auto split: if_splits sum.splits)
  obtain es1 where r1: "insert_block_inner es now ws src i ctr fragmentation bf payload = (r, es1)"
    using assms by (auto simp: insert_block_def split: prod.splits)
  from r1 sb show ?thesis
    by (cases rule: insert_inner_cases[of es now ws src i ctr fragmentation bf payload]) auto
qed

text \<open>A queued acknowledgement of the transaction claims only blocks that are held.\<close>

definition ack_true :: "nat \<Rightarrow> u16 \<Rightarrow> u8 \<Rightarrow> u8 list list \<Rightarrow> FragmentReassembly \<Rightarrow> PendingApsAck \<Rightarrow> bool" where
  "ack_true W S C ps es ack \<longleftrightarrow> (ack_for S C ack \<longrightarrow>
     (\<forall>fa. pa_fragment ack = Some fa \<longrightarrow> fa_fragmentation fa \<in> {FRAG_FIRST, FRAG_SUBSEQUENT} \<and>
        (\<forall>b\<in>claims W (length ps) fa. held S C es b)))"

definition pending_true :: "nat \<Rightarrow> u16 \<Rightarrow> u8 \<Rightarrow> u8 list list \<Rightarrow> FragmentReceiver \<Rightarrow> bool" where
  "pending_true W S C ps r \<longleftrightarrow> (\<forall>ack. rv_pending_aps_ack r = Some ack \<longrightarrow> ack_true W S C ps (rv_fragment_rx r) ack)"

definition unfinished :: "u16 \<Rightarrow> u8 \<Rightarrow> IeeeAddress option \<Rightarrow> u8 list list \<Rightarrow> FragmentReceiver \<Rightarrow> bool" where
  "unfinished S C I ps r \<longleftrightarrow> rx_filling S C I ps (rv_fragment_rx r) \<and> no_record S C (rv_dup_table r) \<and>
     pending_true (unat (clamp_window_size (rv_aps_max_window_size r))) S C ps r"

definition gains :: "u16 \<Rightarrow> u8 \<Rightarrow> FragmentReceiver \<Rightarrow> FragmentReceiver \<Rightarrow> bool" where
  "gains S C r r' \<longleftrightarrow> (\<forall>b. held S C (rv_fragment_rx r) b \<longrightarrow> held S C (rv_fragment_rx r') b) \<and>
     rv_aps_max_window_size r' = rv_aps_max_window_size r"

lemma gains_refl: "gains S C r r" and gains_trans: "gains S C r r1 \<Longrightarrow> gains S C r1 r2 \<Longrightarrow> gains S C r r2"
  by (simp_all add: gains_def)

lemma ack_true_mono: "ack_true W S C ps es ack \<Longrightarrow> (\<And>b. held S C es b \<Longrightarrow> held S C es' b) \<Longrightarrow> ack_true W S C ps es' ack"
  unfolding ack_true_def by blast

lemma queue_ack_fields [simp]:
  "rv_fragment_rx (queue_data_ack_inner r h src sec fr) = rv_fragment_rx r"
  "rv_dup_table (queue_data_ack_inner r h src sec fr) = rv_dup_table r"
  "rv_dup_timeout (queue_data_ack_inner r h src sec fr) = rv_dup_timeout r"
  "rv_aps_max_window_size (queue_data_ack_inner r h src sec fr) = rv_aps_max_window_size r"
  by (simp_all add: queue_data_ack_inner_def Let_def)

lemma queue_ack_pending:
  "rv_pending_aps_ack (queue_data_ack_inner r h src sec fr) = Some ack \<Longrightarrow>
     rv_pending_aps_ack r = Some ack \<or> pa_dst_addr ack = src \<and> pa_aps_counter ack = ah_aps_counter h \<and> pa_fragment ack = fr"
  by (auto simp: queue_data_ack_inner_def Let_def split: if_splits)

lemma receive_own:
  assumes un: "unfinished S C I ps r" and ok: "message_ok ps" and sz: "length (concat ps) \<le> 256"
    and h: "ah_extended_header h = Some ext" "ac_ack_request (ah_frame_control h)"
      "ac_delivery_mode (ah_frame_control h) = ApsDeliveryMode_to_u8 AdmUnicast" "ah_aps_counter h = C"
    and g: "genuine_kind (ex_fragmentation ext) (ex_block_number ext) ps b"
    and I: "find_ieee S \<bind> nonzero_ieee = I" and buf: "256 \<le> length (fb_data buf)"
    and rc: "receive_fragment find_ieee clock r h S False sec False (ps ! b) buf = Some (fin, r', buf')"
  shows "if fin then ApsFrameBuffer_payload buf' = concat ps else unfinished S C I ps r' \<and> gains S C r r'"
proof -
  let ?W = "unat (clamp_window_size (rv_aps_max_window_size r))"
  have inv: "rx_filling S C I ps (rv_fragment_rx r)" and nr: "no_record S C (rv_dup_table r)" and pt: "pending_true ?W S C ps r"
    using un by (simp_all add: unfinished_def)
  have inv0: "table_inv S C I ps (rv_fragment_rx r)" using inv by (simp add: rx_filling_def)
  obtain outcome rx where ins: "insert_block (rv_fragment_rx r) (clock 1) (rv_aps_max_window_size r) S I C
      (ex_fragmentation ext) (ex_block_number ext) (ps ! b) = (outcome, rx)" by force
  have ps: "length ps \<le> 16" using ok by (simp add: message_ok_def)
  note off = own_offer_filling[OF inv ok sz g ins]
  have rf: "settle_fragment (clock 2) (r\<lparr>rv_fragment_rx := rx\<rparr>) h S I sec (if ex_fragmentation ext = FRAG_FIRST then 0 else ex_block_number ext)
      outcome buf = Some (fin, r', buf')"
    using rc h I ins no_record_find[OF nr] by (simp add: receive_fragment_def Let_def)
  show ?thesis
  proof (cases outcome)
    case Rejected
    then have "fin = False" "r' = r\<lparr>rv_fragment_rx := rx\<rparr>" using rf by (auto simp: settle_fragment_def)
    with off Rejected nr pt show ?thesis
      by (auto simp: unfinished_def pending_true_def gains_def intro: ack_true_mono)
  next
    case (Pending a newly)
    let ?r1 = "r\<lparr>rv_fragment_rx := rx\<rparr>"
    let ?r2 = "if newly then ?r1\<lparr>rv_pending_rx_rollback := Some (RollFragmentBlock S C (if ex_fragmentation ext = FRAG_FIRST then 0 else ex_block_number ext))\<rparr> else ?r1"
    have r': "fin = False" "r' = (if a \<noteq> None then queue_data_ack_inner ?r2 h S sec a else ?r2)"
      using rf Pending h(4) by (auto simp: settle_fragment_def Let_def)
    have off': "rx_filling S C I ps rx" "\<And>c. held S C (rv_fragment_rx r) c \<Longrightarrow> held S C rx c"
      "\<And>fa c. a = Some fa \<Longrightarrow> c \<in> claims ?W (length ps) fa \<Longrightarrow> held S C rx c" using off Pending by auto
    have f2: "rv_fragment_rx ?r2 = rx" "rv_dup_table ?r2 = rv_dup_table r" "rv_aps_max_window_size ?r2 = rv_aps_max_window_size r"
      "rv_pending_aps_ack ?r2 = rv_pending_aps_ack r" by simp_all
    then have f': "rv_fragment_rx r' = rx" "rv_dup_table r' = rv_dup_table r" "rv_aps_max_window_size r' = rv_aps_max_window_size r"
      unfolding r'(2) by simp_all
    have "ack_true ?W S C ps rx ack" if "rv_pending_aps_ack r' = Some ack" for ack
    proof -
      from that queue_ack_pending[of ?r2 h S sec a ack] f2(4)
      consider "rv_pending_aps_ack r = Some ack" | "pa_fragment ack = a" unfolding r'(2) by (auto split: if_splits)
      then show ?thesis
      proof cases
        case 1
        with pt off'(2) show ?thesis unfolding pending_true_def using ack_true_mono by blast
      next
        case 2
        have "fa_fragmentation fa \<in> {FRAG_FIRST, FRAG_SUBSEQUENT}" if "a = Some fa" for fa
          using insert_block_kind[OF ins] g that Pending by (auto simp: genuine_kind_def split: if_splits)
        with 2 off'(3) show ?thesis by (auto simp: ack_true_def)
      qed
    qed
    with r'(1) f' off' nr show ?thesis by (simp add: unfinished_def pending_true_def gains_def)
  next
    case (Complete ack)
    obtain es'' where "take_reassembled rx S I C (fb_data buf) =
        Some (Some (concat ps @ drop (length (concat ps)) (fb_data buf), length (concat ps)), es'')"
      using complete_offer[OF inv0 ok genuine_kindD[OF g ps] ins[unfolded Complete] buf] by blast
    with rf Complete have "fin" "buf' = \<lparr>fb_data = concat ps @ drop (length (concat ps)) (fb_data buf), fb_len = length (concat ps)\<rparr>"
      using h(4) by (auto simp: settle_fragment_def Let_def)
    then show ?thesis by (simp add: ApsFrameBuffer_payload_def)
  qed
qed


text \<open>A block of the transaction whose reception is abandoned.\<close>

lemma take_own:
  assumes "take_reassembled es S I C out = Some (Some d, es')"
  shows "\<exists>j<length es. mine S C (es ! j) \<and> es' = es[j := (es ! j)\<lparr>re_delivered := True\<rparr>]"
proof (cases "position (\<lambda>e. re_matches e S I C \<and> \<not> re_delivered e) es")
  case (Some j)
  from position_SomeD[OF Some] have "j < length es" "mine S C (es ! j)" by (auto simp: re_matches_def mine_def)
  with assms Some show ?thesis by (auto simp: take_reassembled_def Let_def split: if_splits)
qed (use assms in \<open>simp add: take_reassembled_def\<close>)

lemma no_record_dropped: "no_record S C (map_if (\<lambda>e. de_active e \<and> de_fragment_window e \<noteq> None \<and> de_src_addr e = S \<and> de_aps_counter e = C)
     (\<lambda>e. e\<lparr>de_active := False\<rparr>) dups)"
  unfolding no_record_def map_if_def set_map by (intro ballI impI) (elim imageE, simp split: if_splits)

lemma abandoned_fields:
  "rv_pending_aps_ack (abort_data_persistence (discard_pending_aps_ack r)) = None"
  "rv_aps_max_window_size (abort_data_persistence (discard_pending_aps_ack r)) = rv_aps_max_window_size r"
  "rv_fragment_rx (abort_data_persistence (discard_pending_aps_ack r)) = snd (abort_rollback (rv_pending_rx_rollback r) (rv_dup_table r) (rv_fragment_rx r))"
  "rv_dup_table (abort_data_persistence (discard_pending_aps_ack r)) = fst (abort_rollback (rv_pending_rx_rollback r) (rv_dup_table r) (rv_fragment_rx r))"
  by (simp_all add: abort_data_persistence_def discard_pending_aps_ack_def split: prod.splits)

lemma queue_ack_rollback [simp]: "rv_pending_rx_rollback (queue_data_ack_inner r h src sec fr) = rv_pending_rx_rollback r"
  by (simp add: queue_data_ack_inner_def Let_def)

lemma receive_own_aborted:
  assumes un: "unfinished S C I ps r" and ok: "message_ok ps" and sz: "length (concat ps) \<le> 256"
    and h: "ah_extended_header h = Some ext" "ac_ack_request (ah_frame_control h)"
      "ac_delivery_mode (ah_frame_control h) = ApsDeliveryMode_to_u8 AdmUnicast" "ah_aps_counter h = C"
    and g: "genuine_kind (ex_fragmentation ext) (ex_block_number ext) ps b"
    and I: "find_ieee S \<bind> nonzero_ieee = I" and buf: "256 \<le> length (fb_data buf)" and clean: "rv_pending_rx_rollback r = None"
    and rc: "receive_fragment find_ieee clock r h S False sec False (ps ! b) buf = Some (fin, r', buf')"
  shows "unfinished S C I ps (abort_data_persistence (discard_pending_aps_ack r')) \<and> gains S C r (abort_data_persistence (discard_pending_aps_ack r'))"
proof -
  have inv: "rx_filling S C I ps (rv_fragment_rx r)" and nr: "no_record S C (rv_dup_table r)" using un by (simp_all add: unfinished_def)
  have inv0: "table_inv S C I ps (rv_fragment_rx r)" using inv by (simp add: rx_filling_def)
  obtain outcome rx where ins: "insert_block (rv_fragment_rx r) (clock 1) (rv_aps_max_window_size r) S I C
      (ex_fragmentation ext) (ex_block_number ext) (ps ! b) = (outcome, rx)" by force
  have ps: "length ps \<le> 16" using ok by (simp add: message_ok_def)
  note gen = genuine_kindD[OF g ps]
  note kept = own_offer_filling[OF inv ok sz g ins]
  let ?blk = "if ex_fragmentation ext = FRAG_FIRST then 0 else ex_block_number ext"
  have blk: "?blk = of_nat b" using g by (auto simp: genuine_kind_def FRAG_FIRST_def FRAG_SUBSEQUENT_def split: if_splits)
  have rf: "settle_fragment (clock 2) (r\<lparr>rv_fragment_rx := rx\<rparr>) h S I sec ?blk outcome buf = Some (fin, r', buf')"
    using rc h I ins no_record_find[OF nr] by (simp add: receive_fragment_def Let_def)
  have ti: "table_inv S C I ps rx" using table_inv_step[OF inv0 ok, of "Offer (clock 1) (rv_aps_max_window_size r) S I C
      (ex_fragmentation ext) (ex_block_number ext) (ps ! b)"] gen ins by simp
  have fin: "unfinished S C I ps (abort_data_persistence (discard_pending_aps_ack r')) \<and> gains S C r (abort_data_persistence (discard_pending_aps_ack r'))"
    if "rx_filling S C I ps (rv_fragment_rx (abort_data_persistence (discard_pending_aps_ack r')))"
      "no_record S C (rv_dup_table (abort_data_persistence (discard_pending_aps_ack r')))"
      "\<forall>c. held S C (rv_fragment_rx r) c \<longrightarrow> held S C (rv_fragment_rx (abort_data_persistence (discard_pending_aps_ack r'))) c"
      "rv_aps_max_window_size r' = rv_aps_max_window_size r"
    using that by (simp add: unfinished_def gains_def pending_true_def abandoned_fields(1,2))
  have plain: ?thesis if "rv_fragment_rx r' = rx" "rv_dup_table r' = rv_dup_table r" "rv_pending_rx_rollback r' = None"
      "rv_aps_max_window_size r' = rv_aps_max_window_size r" "\<not> (\<exists>ack. outcome = Complete ack)"
  proof -
    have ab: "abort_rollback (rv_pending_rx_rollback r') (rv_dup_table r') (rv_fragment_rx r') = (rv_dup_table r, rx)"
      using that(1-3) by (simp add: abort_rollback_def)
    from kept that(5) have "rx_filling S C I ps rx" "\<forall>c. held S C (rv_fragment_rx r) c \<longrightarrow> held S C rx c" by blast+
    then show ?thesis using nr by (intro fin) (simp_all only: abandoned_fields ab fst_conv snd_conv that(4))
  qed
  have rolled: ?thesis if "rv_fragment_rx r' = rx2" "rv_pending_rx_rollback r' = Some (RollFragmentBlock S C (of_nat b))"
      "rv_aps_max_window_size r' = rv_aps_max_window_size r" "table_inv S C I ps rx2" "(\<exists>ack. outcome = Complete ack) \<or> (\<exists>a. outcome = Pending a True)"
      "rx2 = rx \<or> (\<exists>j<length rx. mine S C (rx ! j) \<and> rx2 = rx[j := (rx ! j)\<lparr>re_delivered := True\<rparr>])" for rx2
  proof -
    have ab: "abort_rollback (rv_pending_rx_rollback r') (rv_dup_table r') (rv_fragment_rx r') =
        (map_if (\<lambda>e. de_active e \<and> de_fragment_window e \<noteq> None \<and> de_src_addr e = S \<and> de_aps_counter e = C) (\<lambda>e. e\<lparr>de_active := False\<rparr>) (rv_dup_table r'),
         rollback_block rx2 S C (of_nat b))"
      unfolding that(1,2) abort_rollback_def by simp
    note o = own_offer_aborted[OF inv ok sz g ins that(5,4,6)]
    show ?thesis using o[THEN conjunct1] o[THEN conjunct2] no_record_dropped
      by (intro fin) (simp_all only: abandoned_fields ab fst_conv snd_conv that(3))
  qed
  show ?thesis
  proof (cases outcome)
    case Rejected
    then have "r' = r\<lparr>rv_fragment_rx := rx\<rparr>" using rf by (auto simp: settle_fragment_def)
    with Rejected clean show ?thesis by (intro plain) simp_all
  next
    case (Pending a newly)
    show ?thesis
    proof (cases newly)
      case True
      then have "r' = (if a \<noteq> None then queue_data_ack_inner (r\<lparr>rv_fragment_rx := rx, rv_pending_rx_rollback := Some (RollFragmentBlock S C ?blk)\<rparr>) h S sec a
          else r\<lparr>rv_fragment_rx := rx, rv_pending_rx_rollback := Some (RollFragmentBlock S C ?blk)\<rparr>)"
        using rf Pending h(4) by (auto simp: settle_fragment_def Let_def)
      with Pending True ti show ?thesis by (intro rolled[of rx]) (simp_all add: blk)
    next
      case False
      then have "r' = (if a \<noteq> None then queue_data_ack_inner (r\<lparr>rv_fragment_rx := rx\<rparr>) h S sec a else r\<lparr>rv_fragment_rx := rx\<rparr>)"
        using rf Pending h(4) by (auto simp: settle_fragment_def Let_def)
      with Pending clean show ?thesis by (intro plain) simp_all
    qed
  next
    case (Complete ack)
    obtain es'' d where t: "take_reassembled rx S I C (fb_data buf) = Some (Some d, es'')"
      using complete_offer[OF inv0 ok gen ins[unfolded Complete] buf] by blast
    obtain n data where d: "d = (data, n)" by (cases d)
    have "r' = queue_data_ack_inner (r\<lparr>rv_fragment_rx := es'', rv_dup_table := record_duplicate (rv_dup_table r) (rv_dup_timeout r) (clock 2) S C
        (Some (fa_window_start ack)), rv_pending_rx_rollback := Some (RollFragmentBlock S C ?blk)\<rparr>) h S sec (Some ack)"
      using rf Complete t h(4) by (auto simp: settle_fragment_def Let_def d)
    moreover have "table_inv S C I ps es''" using table_inv_step[OF ti ok, of "TakeAsdu S I C (fb_data buf)"] t by simp
    ultimately show ?thesis using take_own[OF t] Complete by (intro rolled[of es'']) (simp_all add: blk)
  qed
qed

text \<open>Abandoning the reception of another frame leaves the transaction alone.\<close>

lemma rollback_foreign:
  assumes inv: "rx_filling S C I ps es" and ok: "message_ok ps" and f: "src \<noteq> S \<or> ctr \<noteq> C"
  shows "rx_filling S C I ps (rollback_block es src ctr block) \<and> (\<forall>c. held S C es c \<longrightarrow> held S C (rollback_block es src ctr block) c)"
proof (cases "MAX_BLOCKS \<le> unat block \<or> position (\<lambda>e. re_active e \<and> re_src_addr e = src \<and> re_aps_counter e = ctr) es = None")
  case True
  then show ?thesis using inv by (auto simp: rollback_block_def update_first_position)
next
  case False
  then obtain j where j: "position (\<lambda>e. re_active e \<and> re_src_addr e = src \<and> re_aps_counter e = ctr) es = Some j" by auto
  from position_SomeD[OF j] f have jj: "j < length es" "\<not> mine S C (es ! j)" by (auto simp: mine_def)
  have rb: "rollback_block es src ctr block = es[j := rollback_entry block (es ! j)]" using False j by (simp add: rollback_block_def update_first_position)
  have nm: "\<not> mine S C (rollback_entry block (es ! j))" using jj(2) rollback_session(1,2,4)[of block "es ! j"] by (auto simp: mine_def)
  have "table_inv S C I ps (rollback_block es src ctr block)" using table_inv_step[of S C I ps es "Rollback src ctr block"] inv ok by (simp add: rx_filling_def)
  moreover have "\<forall>e\<in>set (rollback_block es src ctr block). mine S C e \<longrightarrow> filling ps e"
    using inv nm by (auto simp: rb rx_filling_def dest!: set_update_subset_insert[THEN subsetD])
  ultimately show ?thesis using held_update[OF jj(1), of S C "rollback_entry block (es ! j)"] jj(2) by (auto simp: rx_filling_def rb)
qed

lemma abort_foreign:
  assumes un: "unfinished S C I ps r" and ok: "message_ok ps"
    and f: "\<And>src ctr b. rv_pending_rx_rollback r = Some (RollFragmentBlock src ctr b) \<Longrightarrow> src \<noteq> S \<or> ctr \<noteq> C"
  shows "unfinished S C I ps (abort_data_persistence (discard_pending_aps_ack r)) \<and> gains S C r (abort_data_persistence (discard_pending_aps_ack r))"
proof -
  have inv: "rx_filling S C I ps (rv_fragment_rx r)" and nr: "no_record S C (rv_dup_table r)" using un by (simp_all add: unfinished_def)
  have "rx_filling S C I ps (snd (abort_rollback (rv_pending_rx_rollback r) (rv_dup_table r) (rv_fragment_rx r))) \<and>
      no_record S C (fst (abort_rollback (rv_pending_rx_rollback r) (rv_dup_table r) (rv_fragment_rx r))) \<and>
      (\<forall>c. held S C (rv_fragment_rx r) c \<longrightarrow> held S C (snd (abort_rollback (rv_pending_rx_rollback r) (rv_dup_table r) (rv_fragment_rx r))) c)"
    using inv nr f rollback_foreign[OF inv ok] no_record_map
    by (auto simp: abort_rollback_def split: option.splits ApsRxRollback.splits)
  then show ?thesis by (simp add: unfinished_def gains_def pending_true_def abandoned_fields)
qed

lemma take_foreign:
  assumes f: "src \<noteq> S \<or> ctr \<noteq> C" and t: "take_reassembled es src i ctr out = Some (x, es')"
  shows "es' = es \<or> (\<exists>j<length es. \<not> mine S C (es ! j) \<and> es' = es[j := (es ! j)\<lparr>re_delivered := True\<rparr>])"
proof (cases "position (\<lambda>e. re_matches e src i ctr \<and> \<not> re_delivered e) es")
  case None
  with t show ?thesis by (simp add: take_reassembled_def)
next
  case (Some j)
  from position_SomeD[OF Some] f have "j < length es" "\<not> mine S C (es ! j)" by (auto simp: re_matches_def mine_def)
  with t Some show ?thesis by (auto simp: take_reassembled_def Let_def split: if_splits)
qed

lemma filling_foreign_update:
  assumes inv: "rx_filling S C I ps es" and j: "j < length es" "\<not> mine S C (es ! j)"
  shows "rx_filling S C I ps (es[j := (es ! j)\<lparr>re_delivered := True\<rparr>]) \<and>
    (\<forall>b. held S C es b \<longrightarrow> held S C (es[j := (es ! j)\<lparr>re_delivered := True\<rparr>]) b)"
proof -
  let ?e = "(es ! j)\<lparr>re_delivered := True\<rparr>"
  have nm: "\<not> mine S C ?e" using j(2) by (simp add: mine_def)
  have "same_storage (es ! j) ?e" by (simp add: same_storage_def)
  then have "re_wf ?e" using inv j(1) same_storageD(1) by (auto simp: rx_filling_def table_inv_def)
  then have "table_inv S C I ps (es[j := ?e])" using inv j(1) nm by (intro table_inv_update) (auto simp: rx_filling_def)
  moreover have "\<forall>e\<in>set (es[j := ?e]). mine S C e \<longrightarrow> filling ps e"
    using inv nm by (auto simp: rx_filling_def dest!: set_update_subset_insert[THEN subsetD])
  ultimately show ?thesis using held_update[OF j(1), of S C ?e] j(2) by (auto simp: rx_filling_def)
qed

lemma settle_foreign:
  assumes un: "unfinished S C I ps r" and f: "src \<noteq> S \<or> ah_aps_counter h \<noteq> C"
    and rc: "settle_fragment now r h src i sec block outcome buf = Some (fin, r', buf')"
  shows "unfinished S C I ps r' \<and> gains S C r r'"
proof -
  let ?W = "unat (clamp_window_size (rv_aps_max_window_size r))"
  have inv: "rx_filling S C I ps (rv_fragment_rx r)" and nr: "no_record S C (rv_dup_table r)" and pt: "pending_true ?W S C ps r"
    using un by (simp_all add: unfinished_def)
  have qa: "unfinished S C I ps (queue_data_ack_inner x h src sec fr)" if "unfinished S C I ps x" for x fr
    using that f queue_ack_pending[of x h src sec fr] unfolding unfinished_def pending_true_def
    by (auto simp: ack_true_def ack_for_def)
  show ?thesis
  proof (cases outcome)
    case (Pending a newly)
    let ?r2 = "if newly then r\<lparr>rv_pending_rx_rollback := Some (RollFragmentBlock src (ah_aps_counter h) block)\<rparr> else r"
    have r2: "unfinished S C I ps ?r2" "gains S C r ?r2" using un by (simp_all add: unfinished_def pending_true_def gains_def)
    have "r' = (if a \<noteq> None then queue_data_ack_inner ?r2 h src sec a else ?r2)" using rc Pending by (auto simp: settle_fragment_def Let_def)
    then show ?thesis using r2 qa[OF r2(1), of a] by (auto simp: gains_def)
  next
    case (Complete ack)
    have sc: "rx_filling S C I ps rx \<and> (\<forall>b. held S C (rv_fragment_rx r) b \<longrightarrow> held S C rx b)"
      if "take_reassembled (rv_fragment_rx r) src i (ah_aps_counter h) (fb_data buf) = Some (x, rx)" for x rx
      using take_foreign[OF f that] inv filling_foreign_update[OF inv] by auto
    consider rx where "take_reassembled (rv_fragment_rx r) src i (ah_aps_counter h) (fb_data buf) = Some (None, rx)" "r' = r\<lparr>rv_fragment_rx := rx\<rparr>"
      | d rx where "take_reassembled (rv_fragment_rx r) src i (ah_aps_counter h) (fb_data buf) = Some (Some d, rx)"
        "r' = queue_data_ack_inner (r\<lparr>rv_fragment_rx := rx, rv_dup_table := record_duplicate (rv_dup_table r) (rv_dup_timeout r) now src
            (ah_aps_counter h) (Some (fa_window_start ack)), rv_pending_rx_rollback := Some (RollFragmentBlock src (ah_aps_counter h) block)\<rparr>)
          h src sec (Some ack)"
      using rc Complete by (auto simp: settle_fragment_def Let_def split: option.splits)
    then show ?thesis
    proof cases
      case 1
      with sc[OF 1(1)] nr pt show ?thesis by (auto simp: unfinished_def pending_true_def gains_def intro: ack_true_mono)
    next
      case (2 d rx)
      let ?x = "r\<lparr>rv_fragment_rx := rx, rv_dup_table := record_duplicate (rv_dup_table r) (rv_dup_timeout r) now src
            (ah_aps_counter h) (Some (fa_window_start ack)), rv_pending_rx_rollback := Some (RollFragmentBlock src (ah_aps_counter h) block)\<rparr>"
      have "src \<noteq> S \<or> ah_aps_counter h \<noteq> C \<or> Some (fa_window_start ack) = None" using f by blast
      from no_record_new[OF nr this] have "no_record S C (rv_dup_table ?x)" by simp
      moreover have "pending_true ?W S C ps ?x" using pt sc[OF 2(1)] by (auto simp: pending_true_def intro: ack_true_mono)
      ultimately have "unfinished S C I ps ?x" using sc[OF 2(1)] by (simp add: unfinished_def)
      from qa[OF this, of "Some ack"] 2(2) sc[OF 2(1)] show ?thesis by (simp add: gains_def)
    qed
  qed (use rc un in \<open>auto simp: settle_fragment_def gains_refl\<close>)
qed

lemma receive_cases:
  assumes rc: "receive_fragment find_ieee clock r h src dup sec inbuf after buf = Some (fin, r', buf')"
  obtains (dropped) "r' = r"
    | (repeated) fr where "r' = queue_data_ack_inner r h src sec fr"
    | (offered) ext outcome rx b0 bf where "ah_extended_header h = Some ext"
      "insert_block (rv_fragment_rx r) (clock 1) (rv_aps_max_window_size r) src (find_ieee src \<bind> nonzero_ieee)
        (ah_aps_counter h) (ex_fragmentation ext) (ex_block_number ext) (if inbuf then ApsFrameBuffer_payload buf else after) = (outcome, rx)"
      "settle_fragment (clock 2) (r\<lparr>rv_fragment_rx := rx\<rparr>) h src (find_ieee src \<bind> nonzero_ieee) sec b0 outcome bf = Some (fin, r', buf')"
proof (cases "ah_extended_header h")
  case None
  with rc dropped show thesis by (simp add: receive_fragment_def)
next
  case (Some ext)
  let ?g = "\<not> ac_ack_request (ah_frame_control h) \<or> ac_delivery_mode (ah_frame_control h) \<noteq> ApsDeliveryMode_to_u8 AdmUnicast \<or> dup"
  show thesis
  proof (cases ?g)
    case True
    with rc Some dropped show thesis by (auto simp: receive_fragment_def split: if_splits)
  next
    case g: False
    show thesis
    proof (cases "find_duplicate (rv_dup_table r) (rv_dup_timeout r) (clock 0) src (ah_aps_counter h) True")
      case (Some index)
      let ?fr = "Some \<lparr>fa_fragmentation = ex_fragmentation ext,
          fa_window_start = (case de_fragment_window (rv_dup_table r ! index) of Some w \<Rightarrow> w | None \<Rightarrow> 0), fa_bitfield = 0xFF\<rparr>"
      from Some rc g \<open>ah_extended_header h = Some ext\<close> have "r' = queue_data_ack_inner r h src sec ?fr"
        by (simp add: receive_fragment_def)
      then show thesis by (rule repeated)
    next
      case None
      obtain outcome rx where ins: "insert_block (rv_fragment_rx r) (clock 1) (rv_aps_max_window_size r) src (find_ieee src \<bind> nonzero_ieee)
        (ah_aps_counter h) (ex_fragmentation ext) (ex_block_number ext) (if inbuf then ApsFrameBuffer_payload buf else after) = (outcome, rx)" by force
      show thesis
        by (rule offered[OF Some ins]) (use rc g None Some ins in \<open>simp add: receive_fragment_def Let_def\<close>)
    qed
  qed
qed

lemma receive_foreign:
  assumes un: "unfinished S C I ps r" and ok: "message_ok ps" and f: "src \<noteq> S \<or> ah_aps_counter h \<noteq> C"
    and rc: "receive_fragment find_ieee clock r h src dup sec inbuf after buf = Some (fin, r', buf')"
  shows "unfinished S C I ps r' \<and> gains S C r r'"
proof -
  have qa: "unfinished S C I ps (queue_data_ack_inner r h src sec fr) \<and> gains S C r (queue_data_ack_inner r h src sec fr)" for fr
    using un f queue_ack_pending[of r h src sec fr] unfolding unfinished_def pending_true_def gains_def
    by (auto simp: ack_true_def ack_for_def)
  show ?thesis using rc
  proof (cases rule: receive_cases)
    case (offered ext outcome rx b0 bf)
    have inv: "rx_filling S C I ps (rv_fragment_rx r)" using un by (simp add: unfinished_def)
    from foreign_offer_filling[OF inv ok f offered(2)] un
    have "unfinished S C I ps (r\<lparr>rv_fragment_rx := rx\<rparr>)" "gains S C r (r\<lparr>rv_fragment_rx := rx\<rparr>)"
      by (auto simp: unfinished_def pending_true_def gains_def intro: ack_true_mono)
    with settle_foreign[OF _ f offered(3)] gains_trans show ?thesis by blast
  qed (use un qa gains_refl in auto)
qed

text \<open>Whatever is received, the table stays well-formed and its session of the transaction genuine.\<close>

lemma settle_table_inv:
  assumes inv: "table_inv S C I ps (rv_fragment_rx r)" and ok: "message_ok ps"
    and rc: "settle_fragment now r h src i sec block outcome buf = Some (fin, r', buf')"
  shows "table_inv S C I ps (rv_fragment_rx r')"
proof -
  have "rv_fragment_rx r' = rv_fragment_rx r \<or>
      (\<exists>x. take_reassembled (rv_fragment_rx r) src i (ah_aps_counter h) (fb_data buf) = Some (x, rv_fragment_rx r'))"
    using rc by (cases outcome) (auto simp: settle_fragment_def Let_def split: option.splits if_splits)
  with inv table_inv_step[OF inv ok, of "TakeAsdu src i (ah_aps_counter h) (fb_data buf)"] show ?thesis by auto
qed

lemma receive_table_inv:
  assumes inv: "table_inv S C I ps (rv_fragment_rx r)" and ok: "message_ok ps"
    and gen: "\<And>ext. src = S \<Longrightarrow> ah_aps_counter h = C \<Longrightarrow> ah_extended_header h = Some ext \<Longrightarrow> find_ieee S \<bind> nonzero_ieee = I \<and> \<not> inbuf \<and>
      genuine ps (ex_fragmentation ext) (ex_block_number ext) after"
    and rc: "receive_fragment find_ieee clock r h src dup sec inbuf after buf = Some (fin, r', buf')"
  shows "table_inv S C I ps (rv_fragment_rx r')"
proof -
  show ?thesis using rc
  proof (cases rule: receive_cases)
    case (offered ext outcome rx b0 bf)
    let ?ev = "Offer (clock 1) (rv_aps_max_window_size r) src (find_ieee src \<bind> nonzero_ieee) (ah_aps_counter h) (ex_fragmentation ext)
        (ex_block_number ext) (if inbuf then ApsFrameBuffer_payload buf else after)"
    have "fair_event S C I ps ?ev" using gen[OF _ _ offered(1)] by auto
    from table_inv_step[OF inv ok this] offered(2) have "table_inv S C I ps (rv_fragment_rx (r\<lparr>rv_fragment_rx := rx\<rparr>))" by simp
    from settle_table_inv[OF this ok offered(3)] show ?thesis .
  qed (use inv in simp_all)
qed

end
