(* ===== verification/Fragment_Transfer.thy ===== *)
theory Fragment_Transfer
  imports Fragment_Rx
begin

text \<open>
  The two ends of a fragmented transaction together: the sender of \<open>Fragment_Tx\<close> and the receiver of \<open>Fragment_Rx\<close>
  (\<^verbatim>\<open>zigbee-aps/src/fragment_tx.rs\<close>, \<^verbatim>\<open>zigbee-aps/src/apsde.rs\<close>), connected by a network that may lose, duplicate, delay
  and reorder the frames of either direction, while both devices go on with other traffic.  The frames on the air are octets: each
  end serializes what it sends and parses what it receives.
\<close>

section \<open>The network\<close>

record Transfer =
  tr_sender :: FragmentSender
  tr_receiver :: FragmentReceiver
  tr_receiver_layer :: ApsLayer
  tr_air :: "u8 list list"
  tr_acks :: "u8 list list"
  tr_delivered :: "u8 list list"

text \<open>What reception starts with, whatever the frame.\<close>

definition begin_frame :: "FragmentReceiver \<Rightarrow> FragmentReceiver" where
  "begin_frame r = r\<lparr>rv_pending_rx_rollback := None, rv_fragment_rx := finalize_delivered (rv_fragment_rx r)\<rparr>"

text \<open>
  The branch for a data frame that is not fragmented; \<open>member\<close> says whether a group of the group table has a local endpoint.
\<close>

definition accept_unfragmented :: "(u16 \<Rightarrow> bool) \<Rightarrow> u32 \<Rightarrow> FragmentReceiver \<Rightarrow> ApsHeader \<Rightarrow> ShortAddress \<Rightarrow> bool \<Rightarrow> ApsKeyOrigin option \<Rightarrow> FragmentReceiver" where
  "accept_unfragmented member now r header nwk_src aps_replay_duplicate aps_key_origin =
     (if ac_delivery_mode (ah_frame_control header) = ApsDeliveryMode_to_u8 AdmGroup \<and>
         (case ah_group_address header of None \<Rightarrow> True | Some grp \<Rightarrow> \<not> member grp) then r
      else if aps_replay_duplicate then queue_data_ack_inner r header nwk_src aps_key_origin None
      else case is_aps_duplicate (rv_dup_table r) (rv_dup_timeout r) now nwk_src (ah_aps_counter header) of
        (duplicate, dups) \<Rightarrow>
          let r = r\<lparr>rv_dup_table := dups\<rparr>
          in queue_data_ack_inner
               (if duplicate then r else r\<lparr>rv_pending_rx_rollback := Some (RollDuplicate nwk_src (ah_aps_counter header))\<rparr>)
               header nwk_src aps_key_origin None)"

text \<open>\<^verbatim>\<open>send_pending_aps_ack\<close>; the octets handed to the layer below are returned, also when it reports an error.\<close>

definition send_pending_aps_ack ::
    "'e provider \<Rightarrow> nlde \<Rightarrow> u8 \<Rightarrow> ApsLayer \<Rightarrow> FragmentReceiver \<Rightarrow> ((ApsStatus + unit) \<times> u8 list option \<times> ApsLayer \<times> FragmentReceiver) option" where
  "send_pending_aps_ack provider nlde max_depth l r =
     (case rv_pending_aps_ack r of
        None \<Rightarrow> Some (Inr (), None, l, r)
      | Some ack_info \<Rightarrow>
          let aps_secured = pa_aps_security ack_info \<noteq> None \<and> \<not> pa_command ack_info
          in case ApsHeader_serialize (build_aps_ack_header ack_info aps_secured) (replicate 16 0) of
               None \<Rightarrow> None
             | Some (buf, hdr_len) \<Rightarrow>
                 (case (case pa_aps_security ack_info of
                          Some origin \<Rightarrow>
                            if aps_secured then secure_with_origin provider l origin (nl_ieee_address (al_nwk l)) (take hdr_len buf) []
                            else Some (Some (take hdr_len buf), l)
                        | None \<Rightarrow> Some (Some (take hdr_len buf), l)) of
                    None \<Rightarrow> None
                  | Some (None, l) \<Rightarrow> Some (Inl SecurityFail, None, l, r)
                  | Some (Some frame, l) \<Rightarrow>
                      (case nlde (pa_dst_addr ack_info) (sat_add max_depth max_depth) frame True False l of
                         (Inl err, l) \<Rightarrow> Some (Inl NoAck, Some frame, l, r)
                       | (Inr _, l) \<Rightarrow> Some (Inr (), Some frame, l, r\<lparr>rv_pending_aps_ack := None\<rparr>))))"

text \<open>How the runtime ends a reception: the frame is durable, or its acknowledgement and all it left behind are dropped.\<close>

definition conclude :: "bool \<Rightarrow> FragmentReceiver \<Rightarrow> FragmentReceiver" where
  "conclude durable r = (if durable then complete_data_persistence r else abort_data_persistence (discard_pending_aps_ack r))"

text \<open>
  The steps of the composed system.  The sender sends a block, lets its timer run, is busy with its other layers, hears the
  \<open>k\<close>-th acknowledgement the network has, or one of another transaction.  The receiver hears the \<open>k\<close>-th block the network
  has, a fragment of another transaction or a whole frame, each of which it may fail to store durably and then gives up;
  it ages its tables, sends or drops its queued acknowledgement.
\<close>

datatype NetEvent =
    NetSend u32
  | NetPoll u32
  | NetLower ApsLayer
  | NetAck nat
  | NetStrayAck ShortAddress u8 ApsExtendedHeader bool
  | NetReceive nat "nat \<Rightarrow> u32" ApsFrameBuffer bool
  | NetForeign ApsHeader ShortAddress bool "ApsKeyOrigin option" bool "u8 list" "nat \<Rightarrow> u32" ApsFrameBuffer bool
  | NetPlain "u16 \<Rightarrow> bool" u32 ApsHeader ShortAddress bool "ApsKeyOrigin option" bool
  | NetAge u32
  | NetRespond nlde u8
  | NetDiscard

fun net_step :: "'e provider \<Rightarrow> (ShortAddress \<Rightarrow> IeeeAddress option) \<Rightarrow> ShortAddress \<Rightarrow> ShortAddress \<Rightarrow> u8 \<Rightarrow> NetEvent \<Rightarrow> Transfer \<Rightarrow> Transfer option" where
  "net_step provider find_ieee A B C (NetSend now) t =
     (case next_due_fragment provider now (tr_sender t) of
        None \<Rightarrow> None
      | Some (None, n) \<Rightarrow> Some (t\<lparr>tr_sender := n\<rparr>)
      | Some (Some (dst, _, _, frame), n) \<Rightarrow> Some (t\<lparr>tr_sender := n, tr_air := (if dst = B then tr_air t @ [frame] else tr_air t)\<rparr>))"
| "net_step provider find_ieee A B C (NetPoll now) t = Some (t\<lparr>tr_sender := poll_fragment_tx_timeout now (tr_sender t)\<rparr>)"
| "net_step provider find_ieee A B C (NetLower l) t = Some (t\<lparr>tr_sender := (tr_sender t)\<lparr>sn_layer := l\<rparr>\<rparr>)"
| "net_step provider find_ieee A B C (NetAck k) t =
     (if k < length (tr_acks t)
      then case ApsHeader_parse (tr_acks t ! k) of
             Some (h, _) \<Rightarrow>
               (case ah_extended_header h of
                  Some ext \<Rightarrow>
                    if ex_fragmentation ext \<noteq> FRAG_NONE
                    then Some (t\<lparr>tr_sender := snd (handle_fragment_ack (tr_sender t) B (ah_aps_counter h) ext (ac_security (ah_frame_control h)))\<rparr>)
                    else Some t
                | None \<Rightarrow> Some t)
           | None \<Rightarrow> Some t
      else Some t)"
| "net_step provider find_ieee A B C (NetStrayAck src ctr ext secured) t =
     Some (t\<lparr>tr_sender := snd (handle_fragment_ack (tr_sender t) src ctr ext secured)\<rparr>)"
| "net_step provider find_ieee A B C (NetReceive k clock buf durable) t =
     (if k < length (tr_air t)
      then let r = begin_frame (tr_receiver t)
           in case ApsHeader_parse (tr_air t ! k) of
                None \<Rightarrow> Some (t\<lparr>tr_receiver := r\<rparr>)
              | Some (h, consumed) \<Rightarrow>
                  (case receive_fragment find_ieee clock r h A False None False (drop consumed (tr_air t ! k)) buf of
                     None \<Rightarrow> None
                   | Some (fin, r, buf) \<Rightarrow>
                       Some (t\<lparr>tr_receiver := conclude durable r,
                               tr_delivered := (if fin \<and> durable then tr_delivered t @ [ApsFrameBuffer_payload buf] else tr_delivered t)\<rparr>))
      else Some t)"
| "net_step provider find_ieee A B C (NetForeign h src replay sec inbuf after buf_clock buf durable) t =
     (case receive_fragment find_ieee buf_clock (begin_frame (tr_receiver t)) h src replay sec inbuf after buf of
        None \<Rightarrow> None
      | Some (fin, r, _) \<Rightarrow> Some (t\<lparr>tr_receiver := conclude durable r\<rparr>))"
| "net_step provider find_ieee A B C (NetPlain member now h src replay sec durable) t =
     Some (t\<lparr>tr_receiver := conclude durable (accept_unfragmented member now (begin_frame (tr_receiver t)) h src replay sec)\<rparr>)"
| "net_step provider find_ieee A B C (NetAge now) t =
     (let r = tr_receiver t
      in case age_dup_table (rv_dup_table r) (rv_fragment_rx r) (rv_dup_timeout r) now of
           (dups, rx) \<Rightarrow> Some (t\<lparr>tr_receiver := r\<lparr>rv_dup_table := dups, rv_fragment_rx := rx\<rparr>\<rparr>))"
| "net_step provider find_ieee A B C (NetRespond nlde max_depth) t =
     (case send_pending_aps_ack provider nlde max_depth (tr_receiver_layer t) (tr_receiver t) of
        None \<Rightarrow> None
      | Some (_, frame, l, r) \<Rightarrow>
          Some (t\<lparr>tr_receiver := r, tr_receiver_layer := l,
                  tr_acks := tr_acks t @ (case (rv_pending_aps_ack (tr_receiver t), frame) of
                    (Some ack, Some f) \<Rightarrow> if pa_dst_addr ack = A \<and> pa_aps_counter ack = C then [f] else []
                  | _ \<Rightarrow> [])\<rparr>))"
| "net_step provider find_ieee A B C NetDiscard t = Some (t\<lparr>tr_receiver := discard_pending_aps_ack (tr_receiver t)\<rparr>)"

text \<open>
  The environment: acknowledgements and fragments that are not of the transaction carry another address or counter; the
  buffer handed to reception holds a whole ASDU; and the receiver's session is not aged out while the transaction runs: ageing does not
  come six seconds after the last block that was new.
\<close>

fun net_fair :: "ShortAddress \<Rightarrow> ShortAddress \<Rightarrow> u8 \<Rightarrow> Transfer \<Rightarrow> NetEvent \<Rightarrow> bool" where
  "net_fair A B C t (NetStrayAck src ctr ext secured) = (src \<noteq> B \<or> ctr \<noteq> C)"
| "net_fair A B C t (NetReceive k clock buf durable) = (256 \<le> length (fb_data buf))"
| "net_fair A B C t (NetForeign h src replay sec inbuf after buf_clock buf durable) = (src \<noteq> A \<or> ah_aps_counter h \<noteq> C)"
| "net_fair A B C t (NetAge now) =
     list_all (\<lambda>e. re_active e \<and> re_src_addr e = A \<and> re_aps_counter e = C \<longrightarrow> now - re_last_progress_us e < APS_FRAGMENT_RX_TIMEOUT_US)
       (rv_fragment_rx (tr_receiver t))"
| "net_fair A B C t _ = True"

inductive net_reach :: "'e provider \<Rightarrow> (ShortAddress \<Rightarrow> IeeeAddress option) \<Rightarrow> ShortAddress \<Rightarrow> ShortAddress \<Rightarrow> u8 \<Rightarrow> Transfer \<Rightarrow> Transfer \<Rightarrow> bool"
  for provider find_ieee A B C t0 where
  start: "net_reach provider find_ieee A B C t0 t0"
| step: "net_reach provider find_ieee A B C t0 t \<Longrightarrow> net_fair A B C t ev \<Longrightarrow> net_step provider find_ieee A B C ev t = Some t' \<Longrightarrow>
    net_reach provider find_ieee A B C t0 t'"

section \<open>The message and its frames\<close>

definition tx_blocks :: "FragmentTxSession \<Rightarrow> u8 list list" where
  "tx_blocks s = map (tx_chunk s) [0..<blocks s]"

lemma concat_chunks: "concat (map (\<lambda>b. take n (drop (b * n) xs)) [0..<k]) = take (k * n) xs"
  by (induction k) (simp_all add: take_add add.commute[of n])

lemma tx_blocks_message:
  assumes "tx_message s" "0 < blocks s" "blocks s \<le> 16"
  shows "concat (tx_blocks s) = take (unat (ft_len s)) (ft_payload s)" "message_ok (tx_blocks s)" "length (concat (tx_blocks s)) \<le> 256"
    "length (tx_blocks s) = blocks s"
proof -
  have m: "unat (ft_len s) \<le> blocks s * unat (ft_block_size s)" "unat (ft_block_size s) \<le> 64" "unat (ft_len s) \<le> 256"
    using assms(1) by (auto simp: tx_message_def split: if_splits)
  show c: "concat (tx_blocks s) = take (unat (ft_len s)) (ft_payload s)"
    unfolding tx_blocks_def tx_chunk_def concat_chunks using m(1) by (simp add: min_absorb2)
  then show "length (concat (tx_blocks s)) \<le> 256" using m(3) by simp
  have "length (tx_chunk s b) < 256" for b using m(2) by (simp add: tx_chunk_def)
  then show "message_ok (tx_blocks s)" using assms(2,3) by (auto simp: message_ok_def tx_blocks_def)
qed (simp add: tx_blocks_def)

lemma tx_header_wf: "ft_security s = None \<Longrightarrow> aps_header_wf (tx_header s b)"
  by (simp add: aps_header_wf_def tx_header_def ac_wf_def ac_addressed_def ex_wf_def FRAG_FIRST_def FRAG_SUBSEQUENT_def)

lemma tx_frame_parse:
  assumes "ft_security s = None"
  shows "ApsHeader_parse (tx_frame s b) = Some (tx_header s (of_nat b), 10)" "drop 10 (tx_frame s b) = tx_chunk s b"
  using aps_header_parse_bytes[OF tx_header_wf[OF assms], of "of_nat b" "tx_chunk s b"] tx_header_bytes(1)[of s "of_nat b"]
  by (simp_all add: tx_frame_def)

lemma tx_frame_same: "same_transaction s s' \<Longrightarrow> tx_frame s' b = tx_frame s b"
  by (simp add: tx_frame_def tx_header_def tx_chunk_def same_transaction_def)

lemma tx_header_genuine:
  assumes "b < blocks s" "blocks s \<le> 16" "ah_extended_header (tx_header s (of_nat b)) = Some ext"
  shows "genuine_kind (ex_fragmentation ext) (ex_block_number ext) (tx_blocks s) b"
proof -
  have ub: "unat (of_nat b :: u8) = b" using assms(1,2) by (simp add: unat_of_nat_u8)
  have z: "(of_nat b :: u8) = 0 \<longleftrightarrow> b = 0" unfolding word_unat_eq_iff ub by simp
  have "ext = \<lparr>ex_fragmentation = (if b = 0 then FRAG_FIRST else FRAG_SUBSEQUENT),
      ex_block_number = (if b = 0 then ft_total s else of_nat b), ex_ack_bitfield = None\<rparr>"
    using assms(3) unfolding tx_header_def by (simp add: z)
  then show ?thesis using assms(1) by (simp add: genuine_kind_def tx_blocks_def)
qed

text \<open>The octets of an acknowledgement.\<close>

lemma ack_header_wf:
  assumes "\<And>fa. pa_fragment ack = Some fa \<Longrightarrow> fa_fragmentation fa \<in> {FRAG_FIRST, FRAG_SUBSEQUENT}"
  shows "aps_header_wf (build_aps_ack_header ack sec)"
proof (cases "pa_fragment ack")
  case None
  then show ?thesis
    by (simp add: aps_header_wf_def build_aps_ack_header_def ac_wf_def ac_addressed_def Let_def)
next
  case (Some fa)
  with assms[of fa] show ?thesis
    by (auto simp: aps_header_wf_def build_aps_ack_header_def ac_wf_def ac_addressed_def ex_wf_def FRAG_FIRST_def FRAG_SUBSEQUENT_def Let_def)
qed

lemma ack_header_length: "length (ApsHeader_bytes (build_aps_ack_header ack sec)) \<le> 16"
  by (simp add: ApsHeader_bytes_def build_aps_ack_header_def opt_bytes_def ApsExtendedHeader_bytes_def Let_def split: option.split)

lemma ack_header_fields [simp]:
  "ah_aps_counter (build_aps_ack_header ack sec) = pa_aps_counter ack"
  "ah_extended_header (build_aps_ack_header ack sec) = map_option (\<lambda>fa. \<lparr>ex_fragmentation = fa_fragmentation fa,
     ex_block_number = fa_window_start fa, ex_ack_bitfield = Some (fa_bitfield fa)\<rparr>) (pa_fragment ack)"
  by (simp_all add: build_aps_ack_header_def Let_def)

lemma assemble_prefix:
  assumes "assemble_secured_frame provider header payload key sh = Some (Some frame)"
  shows "\<exists>rest. frame = header @ rest"
  using assms by (auto simp: assemble_secured_frame_def Let_def split: if_splits option.splits prod.splits)

lemma secure_prefix:
  assumes "secure_with_origin provider l origin src header payload = Some (Some frame, l')"
  shows "\<exists>rest. frame = header @ rest"
  using assms assemble_prefix unfolding secure_with_origin_def by (auto split: option.splits prod.splits)

lemma send_ack_frame:
  assumes "send_pending_aps_ack provider nlde max_depth l r = Some (res, Some frame, l', r')" "rv_pending_aps_ack r = Some ack"
  shows "\<exists>sec rest. frame = ApsHeader_bytes (build_aps_ack_header ack sec) @ rest"
proof -
  define sec where "sec = (pa_aps_security ack \<noteq> None \<and> \<not> pa_command ack)"
  have "ApsHeader_serialize (build_aps_ack_header ack sec) (replicate 16 0) =
      Some (ApsHeader_bytes (build_aps_ack_header ack sec) @ replicate (16 - length (ApsHeader_bytes (build_aps_ack_header ack sec))) 0,
        length (ApsHeader_bytes (build_aps_ack_header ack sec)))"
    using ack_header_length[of ack sec] by (simp add: ApsHeader_serialize_eq write_at_start)
  then have ser: "ApsHeader_serialize (build_aps_ack_header ack sec) (replicate 16 0) = Some (buf, n) \<Longrightarrow>
      take n buf = ApsHeader_bytes (build_aps_ack_header ack sec)" for buf n by auto
  define out where "out header = (case pa_aps_security ack of
      Some origin \<Rightarrow> if sec then secure_with_origin provider l origin (nl_ieee_address (al_nwk l)) header [] else Some (Some header, l)
    | None \<Rightarrow> Some (Some header, l))" for header
  have pre: "out header = Some (Some f, l1) \<Longrightarrow> \<exists>rest. f = header @ rest" for header f l1
    using secure_prefix by (auto simp: out_def split: option.splits if_splits)
  obtain buf n l1 where "ApsHeader_serialize (build_aps_ack_header ack sec) (replicate 16 0) = Some (buf, n)" "out (take n buf) = Some (Some frame, l1)"
    using assms(1) unfolding send_pending_aps_ack_def assms(2) option.case sec_def[symmetric] Let_def out_def[symmetric]
    by (auto split: option.splits prod.splits sum.splits)
  with ser pre show ?thesis by metis
qed

lemma send_ack_receiver:
  assumes "send_pending_aps_ack provider nlde max_depth l r = Some (res, frame, l', r')"
  shows "(r' = r \<or> r' = r\<lparr>rv_pending_aps_ack := None\<rparr>) \<and> (rv_pending_aps_ack r = None \<longrightarrow> frame = None)"
  using assms unfolding send_pending_aps_ack_def Let_def by (auto split: option.splits prod.splits sum.splits if_splits)

section \<open>The invariant of the transfer\<close>

text \<open>The sender's session, if it still runs, is of the transaction \<open>s0\<close>.\<close>

definition sender_of :: "FragmentTxSession \<Rightarrow> FragmentSender \<Rightarrow> bool" where
  "sender_of s0 n \<longleftrightarrow> (\<forall>s. sn_fragment_tx n = Some s \<longrightarrow> tx_wf s \<and> same_transaction s0 s)"

text \<open>
  While nothing is delivered, every acknowledgement on the air claims blocks the receiver holds, and the blocks the sender
  counts as acknowledged are held.
\<close>

definition undelivered :: "ShortAddress \<Rightarrow> u8 \<Rightarrow> IeeeAddress option \<Rightarrow> FragmentTxSession \<Rightarrow> Transfer \<Rightarrow> bool" where
  "undelivered A C I s0 t \<longleftrightarrow>
     (let r = tr_receiver t; W = unat (clamp_window_size (rv_aps_max_window_size r)); ps = tx_blocks s0
      in unfinished A C I ps r \<and> unat (ft_window_size s0) \<le> W \<and>
         (\<forall>f\<in>set (tr_acks t). \<exists>ack sec rest. f = ApsHeader_bytes (build_aps_ack_header ack sec) @ rest \<and> ack_for A C ack \<and>
            ack_true W A C ps (rv_fragment_rx r) ack) \<and>
         (\<forall>s b. sn_fragment_tx (tr_sender t) = Some s \<longrightarrow> acked s b \<longrightarrow> held A C (rv_fragment_rx r) b))"

definition transfer_inv :: "ShortAddress \<Rightarrow> u8 \<Rightarrow> IeeeAddress option \<Rightarrow> FragmentTxSession \<Rightarrow> Transfer \<Rightarrow> bool" where
  "transfer_inv A C I s0 t \<longleftrightarrow> sender_of s0 (tr_sender t) \<and> (\<forall>f\<in>set (tr_air t). \<exists>b<blocks s0. f = tx_frame s0 b) \<and>
     table_inv A C I (tx_blocks s0) (rv_fragment_rx (tr_receiver t)) \<and> set (tr_delivered t) \<subseteq> {concat (tx_blocks s0)} \<and>
     (tr_delivered t = [] \<longrightarrow> undelivered A C I s0 t \<and>
        (\<forall>c. sn_fragment_tx_confirm (tr_sender t) = Some c \<longrightarrow> co_status c \<noteq> ApsSuccess))"

text \<open>A transaction whose message is fit for the frames.\<close>

definition transaction_ok :: "FragmentTxSession \<Rightarrow> bool" where
  "transaction_ok s0 \<longleftrightarrow> geometry s0 \<and> tx_message s0 \<and> ft_security s0 = None"

lemma transaction_okD:
  assumes "transaction_ok s0"
  shows "message_ok (tx_blocks s0)" "length (concat (tx_blocks s0)) \<le> 256" "length (tx_blocks s0) = blocks s0"
    "concat (tx_blocks s0) = take (unat (ft_len s0)) (ft_payload s0)" "0 < blocks s0" "blocks s0 \<le> 16"
  using assms tx_blocks_message[of s0] by (simp_all add: transaction_ok_def geometry_def)

text \<open>Not every block can be held by a session that is not complete.\<close>

lemma not_all_held:
  assumes inv: "rx_filling S C I ps es" and ps: "ps \<noteq> []"
  shows "\<exists>b<length ps. \<not> held S C es b"
proof (rule ccontr)
  assume "\<not> (\<exists>b<length ps. \<not> held S C es b)"
  then have all: "\<And>b. b < length ps \<Longrightarrow> held S C es b" by blast
  from all[of 0] ps obtain e where e: "e \<in> set es" "mine S C e" "got e 0" by (auto simp: held_def)
  have uniq: "e' = e" if "e' \<in> set es" "mine S C e'" for e'
    using inv e that unfolding rx_filling_def table_inv_def by (metis in_set_conv_nth)
  have f: "filling ps e" using inv e by (simp add: rx_filling_def)
  then have t: "re_total_blocks e \<noteq> 0" "unat (re_total_blocks e) = length ps" using e(3) by (auto simp: filling_def carries_def)
  have "got e b" if "b < length ps" for b using all[OF that] uniq by (auto simp: held_def)
  with t have "is_complete e" by (simp add: is_complete_iff)
  with f show False by (simp add: filling_def)
qed

text \<open>Nothing the sender does but counting acknowledgements matters to the receiver's side.\<close>

lemma undelivered_sender:
  assumes "undelivered A C I s0 t" "\<And>s b. sn_fragment_tx n = Some s \<Longrightarrow> acked s b \<Longrightarrow> held A C (rv_fragment_rx (tr_receiver t)) b"
  shows "undelivered A C I s0 (t\<lparr>tr_sender := n\<rparr>)" "undelivered A C I s0 (t\<lparr>tr_sender := n, tr_air := a\<rparr>)"
  using assms by (simp_all add: undelivered_def Let_def)

lemma undelivered_receiver:
  assumes u: "undelivered A C I s0 t" and un: "unfinished A C I (tx_blocks s0) r" and g: "gains A C (tr_receiver t) r"
  shows "undelivered A C I s0 (t\<lparr>tr_receiver := r\<rparr>)"
proof -
  have g': "\<And>b. held A C (rv_fragment_rx (tr_receiver t)) b \<Longrightarrow> held A C (rv_fragment_rx r) b"
    "rv_aps_max_window_size r = rv_aps_max_window_size (tr_receiver t)" using g by (simp_all add: gains_def)
  show ?thesis using u un g'(1) unfolding undelivered_def Let_def
    by (simp add: g'(2)) (meson ack_true_mono)
qed

lemma apply_ack_False: "apply_ack s ws bitfield = (False, s') \<Longrightarrow> s' = s"
  by (auto simp: apply_ack_def Let_def split: if_splits)

section \<open>The sender's steps\<close>

text \<open>A step of the sender that confirms nothing and counts no new block as acknowledged.\<close>

definition quiet :: "FragmentTxSession \<Rightarrow> FragmentSender \<Rightarrow> FragmentSender \<Rightarrow> bool" where
  "quiet s0 n n' \<longleftrightarrow> sender_of s0 n' \<and>
     (\<forall>s'. sn_fragment_tx n' = Some s' \<longrightarrow> (\<exists>s. sn_fragment_tx n = Some s \<and> ft_acked s' = ft_acked s)) \<and>
     (\<forall>c. sn_fragment_tx_confirm n' = Some c \<longrightarrow> co_status c = ApsSuccess \<longrightarrow> sn_fragment_tx_confirm n = Some c)"

lemma quiet_refl: "sender_of s0 n \<Longrightarrow> quiet s0 n n"
  by (simp add: quiet_def)

lemma quiet_trans: "quiet s0 n n1 \<Longrightarrow> quiet s0 n1 n2 \<Longrightarrow> quiet s0 n n2"
  unfolding quiet_def by (metis (no_types))

lemma quiet_layer: "quiet s0 n n1 \<Longrightarrow> quiet s0 n (n1\<lparr>sn_layer := l\<rparr>)"
  by (simp add: quiet_def sender_of_def)

lemma quiet_inv:
  assumes inv: "transfer_inv A C I s0 t" and q: "quiet s0 (tr_sender t) n"
    and a: "\<And>f. f \<in> set air \<Longrightarrow> f \<in> set (tr_air t) \<or> (\<exists>b<blocks s0. f = tx_frame s0 b)"
  shows "transfer_inv A C I s0 (t\<lparr>tr_sender := n, tr_air := air\<rparr>)"
proof -
  have "undelivered A C I s0 (t\<lparr>tr_sender := n, tr_air := air\<rparr>)" if u: "undelivered A C I s0 t"
  proof (rule undelivered_sender(2)[OF u])
    fix s b assume s: "sn_fragment_tx n = Some s" "acked s b"
    with q obtain s1 where "sn_fragment_tx (tr_sender t) = Some s1" "ft_acked s = ft_acked s1" by (auto simp: quiet_def)
    with u s(2) show "held A C (rv_fragment_rx (tr_receiver t)) b" by (simp add: undelivered_def Let_def)
  qed
  moreover have "\<exists>b<blocks s0. f = tx_frame s0 b" if "f \<in> set air" for f using a[OF that] inv by (auto simp: transfer_inv_def)
  moreover have "tr_delivered t = [] \<Longrightarrow> sn_fragment_tx_confirm n = Some c \<Longrightarrow> co_status c \<noteq> ApsSuccess" for c
  proof -
    assume d: "tr_delivered t = []" and c: "sn_fragment_tx_confirm n = Some c"
    from q c have "co_status c = ApsSuccess \<Longrightarrow> sn_fragment_tx_confirm (tr_sender t) = Some c" by (simp add: quiet_def)
    with inv d show ?thesis by (auto simp: transfer_inv_def)
  qed
  moreover have "sender_of s0 n" using q by (simp add: quiet_def)
  moreover have "table_inv A C I (tx_blocks s0) (rv_fragment_rx (tr_receiver t))" "set (tr_delivered t) \<subseteq> {concat (tx_blocks s0)}"
    "tr_delivered t = [] \<Longrightarrow> undelivered A C I s0 t" using inv by (simp_all add: transfer_inv_def)
  ultimately show ?thesis unfolding transfer_inv_def by simp
qed

lemma send_quiet:
  assumes s0: "transaction_ok s0" and so: "sender_of s0 n" and r: "next_due_fragment provider now n = Some (r, n')"
  shows "quiet s0 n n' \<and> (\<forall>dst u ra f. r = Some (dst, u, ra, f) \<longrightarrow> (\<exists>b<blocks s0. f = tx_frame s0 b))"
proof (cases "pending_due n")
  case False
  then have "r = None \<and> n' = n" using r by (auto simp: pending_due_def next_due_fragment_def split: option.splits)
  with so show ?thesis by (simp add: quiet_refl)
next
  case True
  then obtain s where s: "sn_fragment_tx n = Some s" "ft_due s \<noteq> 0" by (auto simp: pending_due_def split: option.splits)
  let ?b = "trailing_zeros (ft_due s)"
  have wf: "tx_wf s" "same_transaction s0 s" using so s by (simp_all add: sender_of_def)
  have sec: "ft_security s = None" using wf(2) s0 by (simp add: same_transaction_def transaction_ok_def)
  have nd: "r = Some (ft_dst s, ft_use_nwk_key s, ft_radius s, tx_frame s ?b)" "n' = mark_sent n s ?b now"
    using next_due_unsecured[OF wf(1) s(1) sec s(2), of provider now] r by simp_all
  have d: "due s ?b" using trailing_zeros_bit[OF s(2)] by simp
  have "?b < win_end s" using wf(1) d by (simp add: tx_wf_def)
  then have b: "?b < blocks s0" using win_end_eq[of s] wf by (simp add: tx_wf_def same_transaction_def)
  have cf: "sn_fragment_tx_confirm n' = sn_fragment_tx_confirm n" by (simp add: nd(2) mark_sent_def Let_def)
  have "tx_wf s' \<and> same_transaction s0 s' \<and> ft_acked s' = ft_acked s" if "sn_fragment_tx n' = Some s'" for s'
    using mark_sent_wf[OF wf(1) d that[unfolded nd(2)]] same_transaction_trans[OF wf(2)] by blast
  with s(1) cf have "quiet s0 n n'" by (simp add: quiet_def sender_of_def)
  with nd(1) b tx_frame_same[OF wf(2)] show ?thesis by auto
qed

lemma poll_quiet:
  assumes so: "sender_of s0 n"
  shows "quiet s0 n (poll_fragment_tx_timeout now n)"
proof (cases "sn_fragment_tx n")
  case None
  with so show ?thesis by (simp add: poll_fragment_tx_timeout_def quiet_refl)
next
  case (Some s)
  have wf: "tx_wf s" "same_transaction s0 s" using so Some by (simp_all add: sender_of_def)
  consider (idle) "\<not> ft_waiting s \<or> now - ft_waiting_since_us s < APS_ACK_WAIT_DURATION_US"
    | (over) "ft_waiting s" "\<not> now - ft_waiting_since_us s < APS_ACK_WAIT_DURATION_US" "ft_retries s \<ge> ft_max_retries s"
    | (again) "ft_waiting s" "ft_retries s < ft_max_retries s"
    using not_le by blast
  then show ?thesis
  proof cases
    case idle
    then have "poll_fragment_tx_timeout now n = n" using Some by (simp add: poll_fragment_tx_timeout_def)
    with so show ?thesis by (simp add: quiet_refl)
  next
    case over
    then have "poll_fragment_tx_timeout now n = finish_fragment_tx n NoAck" using Some by (simp add: poll_fragment_tx_timeout_def)
    then show ?thesis using Some by (auto simp: quiet_def sender_of_def finish_fragment_tx_def drop_fragment_tx_def)
  next
    case again
    define s1 where "s1 = s\<lparr>ft_retries := ft_retries s + 1, ft_waiting := False\<rparr>"
    define s' where "s' = (case lowest_unacked_in_window s1 of
       Some block \<Rightarrow> s1\<lparr>ft_due := ft_due s1 OR push_bit (unat block) 1\<rparr> | None \<Rightarrow> s1)"
    have eq: "poll_fragment_tx_timeout now n = (if now - ft_waiting_since_us s < APS_ACK_WAIT_DURATION_US then n else n\<lparr>sn_fragment_tx := Some s'\<rparr>)"
      using Some again unfolding poll_fragment_tx_timeout_def s'_def s1_def by (simp add: not_le Let_def)
    from poll_session[OF wf(1) again s1_def s'_def] same_transaction_trans[OF wf(2)]
    have "quiet s0 n (n\<lparr>sn_fragment_tx := Some s'\<rparr>)" using Some by (simp add: quiet_def sender_of_def)
    then show ?thesis unfolding eq using quiet_refl[OF so] by simp
  qed
qed

lemma foreign_ack_quiet:
  assumes so: "sender_of s0 n" and f: "src \<noteq> ft_dst s0 \<or> ctr \<noteq> co_aps_counter (ft_confirm s0)"
  shows "snd (handle_fragment_ack n src ctr ext secured) = n"
proof (cases "sn_fragment_tx n")
  case (Some s)
  then have "ft_dst s = ft_dst s0" "ft_confirm s = ft_confirm s0" using so by (auto simp: sender_of_def same_transaction_def)
  with f Some show ?thesis by (auto simp: handle_fragment_ack_def)
qed (simp add: handle_fragment_ack_def)

text \<open>An acknowledgement of the transaction.\<close>

lemma own_ack:
  assumes s0: "transaction_ok s0" and inv: "transfer_inv A C I s0 t" and n: "sn_fragment_tx (tr_sender t) = Some s"
    and bf: "ex_ack_bitfield ext = Some bitfield" and ap: "apply_ack s (ex_block_number ext) bitfield = (newly, s')"
    and held: "\<And>i. tr_delivered t = [] \<Longrightarrow> i < unat (ft_window_size s0) \<Longrightarrow> unat (ex_block_number ext) + i < blocks s0 \<Longrightarrow> bit bitfield i \<Longrightarrow>
       held A C (rv_fragment_rx (tr_receiver t)) (unat (ex_block_number ext) + i)"
    and n': "n' = (if newly \<and> tx_complete s' then finish_fragment_tx ((tr_sender t)\<lparr>sn_fragment_tx := Some s'\<rparr>) ApsSuccess
       else (tr_sender t)\<lparr>sn_fragment_tx := Some s'\<rparr>)"
  shows "transfer_inv A C I s0 (t\<lparr>tr_sender := n'\<rparr>)"
proof (cases newly)
  case False
  with ap apply_ack_False have "s' = s" by simp
  with n' False n have "n' = tr_sender t" by simp
  with inv show ?thesis by simp
next
  case True
  have wf: "tx_wf s" "same_transaction s0 s" using inv n by (simp_all add: transfer_inv_def sender_of_def)
  have ap': "apply_ack s (ex_block_number ext) bitfield = (True, s')" using ap True by simp
  from apply_ack_session[OF wf(1) ap']
  have a: "ex_block_number ext = ft_window_start s" "same_transaction s s'" "\<And>b. acked s' b \<longleftrightarrow> acked s b \<or> acks_new s bitfield b"
    "tx_complete s' \<or> tx_wf s'" "geometry s'" by auto
  have tr: "same_transaction s0 s'" using same_transaction_trans[OF wf(2) a(2)] .
  have hd: "held A C (rv_fragment_rx (tr_receiver t)) b" if d: "tr_delivered t = []" and b: "acked s' b" for b
  proof (cases "acked s b")
    case True
    with inv n d show ?thesis by (simp add: transfer_inv_def undelivered_def Let_def)
  next
    case False
    with a(3) b obtain i where "i < unat (ft_window_size s)" "b = win_start s + i" "b < blocks s" "bit bitfield i" by (auto simp: acks_new_def)
    with held[OF d, of i] a(1) wf(2) show ?thesis by (simp add: same_transaction_def)
  qed
  show ?thesis
  proof (cases "tx_complete s'")
    case False
    with n' have n1: "n' = (tr_sender t)\<lparr>sn_fragment_tx := Some s'\<rparr>" by simp
    have "undelivered A C I s0 (t\<lparr>tr_sender := n'\<rparr>)" if d: "tr_delivered t = []"
      by (rule undelivered_sender(1)) (use inv d hd n1 in \<open>auto simp: transfer_inv_def\<close>)
    moreover have "sender_of s0 n'" using n1 a(4) False tr by (simp add: sender_of_def)
    ultimately show ?thesis using inv by (auto simp: transfer_inv_def n1)
  next
    case c: True
    have nd: "tr_delivered t \<noteq> []"
    proof
      assume d: "tr_delivered t = []"
      have all: "acked s' b" if "b < blocks s'" for b using c that by (simp add: tx_complete_def all_mask_bit[OF a(5)])
      have "unfinished A C I (tx_blocks s0) (tr_receiver t)" using inv d by (simp add: transfer_inv_def undelivered_def Let_def)
      then have rf: "rx_filling A C I (tx_blocks s0) (rv_fragment_rx (tr_receiver t))" by (simp add: unfinished_def)
      have "tx_blocks s0 \<noteq> []" using transaction_okD(5)[OF s0] by (simp add: tx_blocks_def)
      from not_all_held[OF rf this] obtain b where "b < blocks s0" "\<not> held A C (rv_fragment_rx (tr_receiver t)) b"
        using transaction_okD(3)[OF s0] by auto
      with all hd[OF d] tr show False by (simp add: same_transaction_def)
    qed
    have "sn_fragment_tx n' = None" using n' True c by simp
    with inv nd show ?thesis by (simp add: transfer_inv_def sender_of_def)
  qed
qed

section \<open>The receiver's steps\<close>

lemma receiver_inv:
  assumes inv: "transfer_inv A C I s0 t" and ti: "table_inv A C I (tx_blocks s0) (rv_fragment_rx r)"
    and un: "tr_delivered t = [] \<Longrightarrow> unfinished A C I (tx_blocks s0) r \<and> gains A C (tr_receiver t) r"
  shows "transfer_inv A C I s0 (t\<lparr>tr_receiver := r\<rparr>)"
proof -
  have "tr_delivered t = [] \<Longrightarrow> undelivered A C I s0 (t\<lparr>tr_receiver := r\<rparr>)"
    using un inv undelivered_receiver by (simp add: transfer_inv_def)
  with inv ti show ?thesis unfolding transfer_inv_def by simp
qed

lemma unfinished_now:
  "transfer_inv A C I s0 t \<Longrightarrow> tr_delivered t = [] \<Longrightarrow> unfinished A C I (tx_blocks s0) (tr_receiver t)"
  by (simp add: transfer_inv_def undelivered_def Let_def)

lemma begin_unfinished:
  assumes "unfinished S C I ps r"
  shows "unfinished S C I ps (begin_frame r) \<and> gains S C r (begin_frame r)"
proof -
  have "rx_filling S C I ps (rv_fragment_rx r)" using assms by (simp add: unfinished_def)
  from finalize_filling[OF this] assms show ?thesis
    by (auto simp: begin_frame_def unfinished_def gains_def pending_true_def intro: ack_true_mono)
qed

lemma begin_table_inv: "table_inv S C I ps (rv_fragment_rx r) \<Longrightarrow> table_inv S C I ps (rv_fragment_rx (begin_frame r))"
  by (simp add: begin_frame_def finalize_delivered_def table_inv_map_if)

lemma begin_inv:
  assumes "transfer_inv A C I s0 t"
  shows "transfer_inv A C I s0 (t\<lparr>tr_receiver := begin_frame (tr_receiver t)\<rparr>)"
  by (rule receiver_inv[OF assms])
    (use assms begin_table_inv begin_unfinished unfinished_now[OF assms] in \<open>auto simp: transfer_inv_def\<close>)

lemma plain_rx:
  "rv_fragment_rx (accept_unfragmented member now r h src replay sec) = rv_fragment_rx r"
  "rv_aps_max_window_size (accept_unfragmented member now r h src replay sec) = rv_aps_max_window_size r"
  by (simp_all add: accept_unfragmented_def Let_def split: prod.splits)

lemma plain_unfinished:
  assumes "unfinished S C I ps r"
  shows "unfinished S C I ps (accept_unfragmented member now r h src replay sec)"
proof -
  let ?r = "accept_unfragmented member now r h src replay sec"
  have nr: "no_record S C (rv_dup_table r)" using assms by (simp add: unfinished_def)
  have "no_record S C (rv_dup_table ?r)"
    using nr no_record_new[OF nr, of src "ah_aps_counter h" None]
    by (auto simp: accept_unfragmented_def is_aps_duplicate_def Let_def)
  moreover have "pending_true W S C ps ?r" if "pending_true W S C ps r" for W
  proof -
    have "ack_true W S C ps (rv_fragment_rx r) ack" if p: "rv_pending_aps_ack ?r = Some ack" for ack
    proof -
      from p have "rv_pending_aps_ack r = Some ack \<or> pa_fragment ack = None"
        unfolding accept_unfragmented_def Let_def by (auto split: prod.splits if_splits dest!: queue_ack_pending)
      with \<open>pending_true W S C ps r\<close> show ?thesis by (auto simp: pending_true_def ack_true_def)
    qed
    then show ?thesis by (simp add: pending_true_def plain_rx)
  qed
  ultimately show ?thesis using assms by (simp add: unfinished_def plain_rx)
qed

lemma plain_rollback:
  "rv_pending_rx_rollback r = None \<Longrightarrow> rv_pending_rx_rollback (accept_unfragmented member now r h src replay sec) \<noteq> Some (RollFragmentBlock s c b)"
  by (simp add: accept_unfragmented_def Let_def split: prod.splits)

text \<open>The end of a reception.\<close>

lemma begin_clean [simp]: "rv_pending_rx_rollback (begin_frame r) = None"
  by (simp add: begin_frame_def)

lemma receive_rollback:
  assumes "receive_fragment find_ieee clock r h src dup sec inbuf after buf = Some (fin, r', buf')" "rv_pending_rx_rollback r = None"
    "rv_pending_rx_rollback r' = Some (RollFragmentBlock s c b)"
  shows "s = src \<and> c = ah_aps_counter h"
  using assms(1)
proof (cases rule: receive_cases)
  case (offered ext outcome rx b0 bf)
  then show ?thesis using assms(2,3)
    by (cases outcome) (auto simp: settle_fragment_def Let_def split: if_splits option.splits)
qed (use assms(2,3) in simp_all)

lemma conclude_table_inv:
  assumes "table_inv S C I ps (rv_fragment_rx r)" "message_ok ps"
  shows "table_inv S C I ps (rv_fragment_rx (conclude durable r))"
proof (cases durable)
  case True
  then show ?thesis using assms(1) by (simp add: conclude_def complete_data_persistence_def)
next
  case False
  have "table_inv S C I ps (snd (abort_rollback (rv_pending_rx_rollback r) (rv_dup_table r) (rv_fragment_rx r)))"
    using assms(1) table_inv_step[OF assms(1,2), of "Rollback s c b" for s c b]
    by (auto simp: abort_rollback_def split: option.split ApsRxRollback.split)
  then show ?thesis using False by (simp add: conclude_def abandoned_fields)
qed

lemma conclude_durable: "unfinished S C I ps (conclude True r) = unfinished S C I ps r" "gains S C r0 (conclude True r) = gains S C r0 r"
  by (simp_all add: conclude_def complete_data_persistence_def unfinished_def gains_def pending_true_def)

lemma conclude_unfinished:
  assumes "unfinished S C I ps r" "message_ok ps"
    "\<And>src ctr b. rv_pending_rx_rollback r = Some (RollFragmentBlock src ctr b) \<Longrightarrow> src \<noteq> S \<or> ctr \<noteq> C"
  shows "unfinished S C I ps (conclude durable r) \<and> gains S C r (conclude durable r)"
proof (cases durable)
  case True
  then show ?thesis using assms(1) by (simp add: conclude_durable gains_refl)
next
  case False
  then show ?thesis using abort_foreign[OF assms] by (simp add: conclude_def)
qed

lemma receive_delivers:
  assumes inv: "table_inv S C I ps (rv_fragment_rx r)" and ok: "message_ok ps" and h: "ah_extended_header h = Some ext" "ah_aps_counter h = C"
    and gen: "genuine ps (ex_fragmentation ext) (ex_block_number ext) after" and I: "find_ieee S \<bind> nonzero_ieee = I"
    and buf: "256 \<le> length (fb_data buf)"
    and rc: "receive_fragment find_ieee clock r h S dup sec False after buf = Some (True, r', buf')"
  shows "ApsFrameBuffer_payload buf' = concat ps"
proof -
  obtain outcome rx where ins: "insert_block (rv_fragment_rx r) (clock 1) (rv_aps_max_window_size r) S I C
      (ex_fragmentation ext) (ex_block_number ext) after = (outcome, rx)" by force
  obtain b0 where st: "settle_fragment (clock 2) (r\<lparr>rv_fragment_rx := rx\<rparr>) h S I sec b0 outcome buf = Some (True, r', buf')"
    using rc h I ins by (auto simp: receive_fragment_def Let_def split: if_splits option.splits)
  then obtain ack where c: "outcome = Complete ack" by (cases outcome) (auto simp: settle_fragment_def Let_def)
  from complete_offer[OF inv ok gen ins[unfolded c] buf] st c h(2)
  have "buf' = \<lparr>fb_data = concat ps @ drop (length (concat ps)) (fb_data buf), fb_len = length (concat ps)\<rparr>"
    by (auto simp: settle_fragment_def Let_def)
  then show ?thesis by (simp add: ApsFrameBuffer_payload_def)
qed

lemma block_received:
  assumes s0: "transaction_ok s0" and C: "C = co_aps_counter (ft_confirm s0)" and I: "find_ieee A \<bind> nonzero_ieee = I"
    and inv: "transfer_inv A C I s0 t" and b: "b < blocks s0" and buf: "256 \<le> length (fb_data buf)"
    and clean: "rv_pending_rx_rollback (tr_receiver t) = None"
    and rc: "receive_fragment find_ieee clock (tr_receiver t) (tx_header s0 (of_nat b)) A False None False (tx_chunk s0 b) buf =
      Some (fin, r', buf')"
  shows "transfer_inv A C I s0 (t\<lparr>tr_receiver := conclude durable r',
    tr_delivered := (if fin \<and> durable then tr_delivered t @ [ApsFrameBuffer_payload buf'] else tr_delivered t)\<rparr>)"
proof -
  let ?h = "tx_header s0 (of_nat b)" and ?ps = "tx_blocks s0"
  note ok = transaction_okD[OF s0]
  have h: "ac_ack_request (ah_frame_control ?h)" "ac_delivery_mode (ah_frame_control ?h) = ApsDeliveryMode_to_u8 AdmUnicast" "ah_aps_counter ?h = C"
    by (simp_all add: tx_header_def C)
  obtain ext where ext: "ah_extended_header ?h = Some ext" by (simp add: tx_header_def)
  note g = tx_header_genuine[OF b ok(6) ext]
  have pb: "tx_chunk s0 b = ?ps ! b" using b by (simp add: tx_blocks_def)
  have ps: "length ?ps \<le> 16" using ok(3,6) by simp
  note gen = genuine_kindD[OF g ps, folded pb]
  have ti: "table_inv A C I ?ps (rv_fragment_rx (tr_receiver t))" using inv by (simp add: transfer_inv_def)
  have ti': "table_inv A C I ?ps (rv_fragment_rx (conclude durable r'))"
    by (rule conclude_table_inv[OF receive_table_inv[OF ti ok(1) _ rc] ok(1)]) (use I gen ext in auto)
  have del: "ApsFrameBuffer_payload buf' = concat ?ps" if f: fin
  proof -
    have "receive_fragment find_ieee clock (tr_receiver t) ?h A False None False (tx_chunk s0 b) buf = Some (True, r', buf')"
      using rc f by simp
    with receive_delivers[where find_ieee = find_ieee, OF ti ok(1) ext h(3) gen I buf] show ?thesis by blast
  qed
  show ?thesis
  proof (cases "fin \<and> durable")
    case True
    with inv ti' del show ?thesis unfolding transfer_inv_def by simp
  next
    case False
    have "unfinished A C I ?ps (conclude durable r') \<and> gains A C (tr_receiver t) (conclude durable r')" if d: "tr_delivered t = []"
    proof (cases durable)
      case True
      then show ?thesis using receive_own[OF unfinished_now[OF inv d] ok(1,2) ext h g I buf rc[unfolded pb]] False
        by (simp add: conclude_durable)
    next
      case False
      then show ?thesis using receive_own_aborted[OF unfinished_now[OF inv d] ok(1,2) ext h g I buf clean rc[unfolded pb]]
        by (simp add: conclude_def)
    qed
    from receiver_inv[OF inv ti' this] False show ?thesis by auto
  qed
qed

lemma age_inv:
  assumes inv: "transfer_inv A C I s0 t" and s0: "transaction_ok s0" and fair: "net_fair A B C t (NetAge now)"
    and st: "net_step provider find_ieee A B C (NetAge now) t = Some t'"
  shows "transfer_inv A C I s0 t'"
proof -
  let ?r = "tr_receiver t"
  define r' where "r' = ?r\<lparr>rv_dup_table := age_dups (rv_dup_table ?r) (rv_dup_timeout ?r) now,
      rv_fragment_rx := FragmentReassembly_expire (rv_fragment_rx ?r) now\<rparr>"
  have t': "t' = t\<lparr>tr_receiver := r'\<rparr>" using st by (simp add: age_dup_table_def r'_def Let_def)
  have ti: "table_inv A C I (tx_blocks s0) (rv_fragment_rx ?r)" using inv by (simp add: transfer_inv_def)
  have ti': "table_inv A C I (tx_blocks s0) (rv_fragment_rx r')"
    using table_inv_step[OF ti transaction_okD(1)[OF s0], of "Expire now"] by (simp add: r'_def)
  have fr: "\<forall>e\<in>set (rv_fragment_rx ?r). mine A C e \<longrightarrow> now - re_last_progress_us e < APS_FRAGMENT_RX_TIMEOUT_US"
    using fair by (auto simp: mine_def list_all_iff)
  have "unfinished A C I (tx_blocks s0) r' \<and> gains A C ?r r'" if d: "tr_delivered t = []"
  proof -
    note un = unfinished_now[OF inv d]
    then have "rx_filling A C I (tx_blocks s0) (rv_fragment_rx ?r)" "no_record A C (rv_dup_table ?r)" by (simp_all add: unfinished_def)
    with un expire_filling[OF this(1) fr] show ?thesis
      by (auto simp: unfinished_def gains_def pending_true_def r'_def age_dups_def no_record_map intro: ack_true_mono)
  qed
  from receiver_inv[OF inv ti' this] t' show ?thesis by simp
qed

lemma respond_inv:
  assumes inv: "transfer_inv A C I s0 t" and st: "net_step provider find_ieee A B C (NetRespond nlde max_depth) t = Some t'"
  shows "transfer_inv A C I s0 t'"
proof -
  let ?r = "tr_receiver t"
  obtain res frame l r where sp: "send_pending_aps_ack provider nlde max_depth (tr_receiver_layer t) ?r = Some (res, frame, l, r)"
    using st by (auto split: option.splits)
  define new where "new = (case (rv_pending_aps_ack ?r, frame) of
      (Some ack, Some f) \<Rightarrow> if pa_dst_addr ack = A \<and> pa_aps_counter ack = C then [f] else [] | _ \<Rightarrow> [])"
  have t': "t' = t\<lparr>tr_receiver := r, tr_receiver_layer := l, tr_acks := tr_acks t @ new\<rparr>"
    using st sp by (simp add: new_def)
  have r: "r = ?r \<or> r = ?r\<lparr>rv_pending_aps_ack := None\<rparr>" using send_ack_receiver[OF sp] by blast
  then have f: "rv_fragment_rx r = rv_fragment_rx ?r" "rv_dup_table r = rv_dup_table ?r" "rv_aps_max_window_size r = rv_aps_max_window_size ?r"
    by auto
  have "undelivered A C I s0 t'" if u: "undelivered A C I s0 t"
  proof -
    let ?W = "unat (clamp_window_size (rv_aps_max_window_size ?r))"
    have un: "unfinished A C I (tx_blocks s0) ?r" using u by (simp add: undelivered_def Let_def)
    have "\<exists>ack sec rest. g = ApsHeader_bytes (build_aps_ack_header ack sec) @ rest \<and> ack_for A C ack \<and>
        ack_true ?W A C (tx_blocks s0) (rv_fragment_rx ?r) ack" if g: "g \<in> set new" for g
    proof -
      from g obtain ack where a: "rv_pending_aps_ack ?r = Some ack" "frame = Some g" "ack_for A C ack"
        by (auto simp: new_def ack_for_def split: option.splits if_splits intro: sym)
      moreover have "ack_true ?W A C (tx_blocks s0) (rv_fragment_rx ?r) ack" using un a(1) by (simp add: unfinished_def pending_true_def)
      ultimately show ?thesis using send_ack_frame[OF sp[unfolded a(2)] a(1)] by blast
    qed
    moreover have "unfinished A C I (tx_blocks s0) r" using un r by (auto simp: unfinished_def pending_true_def)
    ultimately show ?thesis using u unfolding t' undelivered_def Let_def by (auto simp: f)
  qed
  with inv show ?thesis by (simp add: transfer_inv_def t' f)
qed

lemma ack_inv:
  assumes s0: "transaction_ok s0" and inv: "transfer_inv A C I s0 t"
    and B: "B = ft_dst s0" and C: "C = co_aps_counter (ft_confirm s0)"
    and st: "net_step provider find_ieee A B C (NetAck k) t = Some t'"
  shows "transfer_inv A C I s0 t'"
proof -
  consider "t' = t" | h n ext where "k < length (tr_acks t)" "ApsHeader_parse (tr_acks t ! k) = Some (h, n)" "ah_extended_header h = Some ext"
    "t' = t\<lparr>tr_sender := snd (handle_fragment_ack (tr_sender t) B (ah_aps_counter h) ext (ac_security (ah_frame_control h)))\<rparr>"
    using st by (auto split: if_splits option.splits)
  then show ?thesis
  proof cases
    case 1
    with inv show ?thesis by simp
  next
    case (2 h n ext)
    let ?n' = "snd (handle_fragment_ack (tr_sender t) B (ah_aps_counter h) ext (ac_security (ah_frame_control h)))"
    show ?thesis
    proof (cases "sn_fragment_tx (tr_sender t)")
      case None
      then have "?n' = tr_sender t" by (simp add: handle_fragment_ack_def)
      with 2(4) inv show ?thesis by simp
    next
      case (Some s)
      consider "?n' = tr_sender t" | bitfield newly s' where "ex_ack_bitfield ext = Some bitfield"
        "apply_ack s (ex_block_number ext) bitfield = (newly, s')"
        "?n' = (if newly \<and> tx_complete s' then finish_fragment_tx ((tr_sender t)\<lparr>sn_fragment_tx := Some s'\<rparr>) ApsSuccess
          else (tr_sender t)\<lparr>sn_fragment_tx := Some s'\<rparr>)"
        using handle_ack_cases[OF Some, of B "ah_aps_counter h" ext "ac_security (ah_frame_control h)"] by blast
      then show ?thesis
      proof cases
        case 1
        with 2(4) inv show ?thesis by simp
      next
        case a: (2 bitfield newly s')
        have "held A C (rv_fragment_rx (tr_receiver t)) (unat (ex_block_number ext) + i)"
          if d: "tr_delivered t = []" and i: "i < unat (ft_window_size s0)" "unat (ex_block_number ext) + i < blocks s0" "bit bitfield i" for i
        proof -
          let ?W = "unat (clamp_window_size (rv_aps_max_window_size (tr_receiver t)))"
          have u: "undelivered A C I s0 t" using inv d by (simp add: transfer_inv_def)
          then obtain ack sec rest where ack: "tr_acks t ! k = ApsHeader_bytes (build_aps_ack_header ack sec) @ rest" "ack_for A C ack"
            "ack_true ?W A C (tx_blocks s0) (rv_fragment_rx (tr_receiver t)) ack"
            using nth_mem[OF 2(1)] unfolding undelivered_def Let_def by meson
          have W: "unat (ft_window_size s0) \<le> ?W" using u by (simp add: undelivered_def Let_def)
          have t: "fa_fragmentation fa \<in> {FRAG_FIRST, FRAG_SUBSEQUENT}" if "pa_fragment ack = Some fa" for fa
            using ack that by (auto simp: ack_true_def)
          have h: "h = build_aps_ack_header ack sec"
            using aps_header_parse_bytes[OF ack_header_wf[where sec = sec, OF t], where rest = rest] 2(2) ack(1) by simp
          with 2(3) a(1) obtain fa where fa: "pa_fragment ack = Some fa" "fa_window_start fa = ex_block_number ext" "fa_bitfield fa = bitfield"
            by auto
          have "unat (ex_block_number ext) + i \<in> claims ?W (length (tx_blocks s0)) fa"
            using i W fa transaction_okD(3)[OF s0] by (auto simp: claims_def)
          with ack(2,3) fa(1) show ?thesis by (auto simp: ack_true_def)
        qed
        from own_ack[OF s0 inv Some a(1,2) this a(3)] 2(4) show ?thesis by simp
      qed
    qed
  qed
qed

lemma net_step_inv:
  assumes s0: "transaction_ok s0" and inv: "transfer_inv A C I s0 t" and B: "B = ft_dst s0" and C: "C = co_aps_counter (ft_confirm s0)"
    and I: "find_ieee A \<bind> nonzero_ieee = I" and fair: "net_fair A B C t ev" and st: "net_step provider find_ieee A B C ev t = Some t'"
  shows "transfer_inv A C I s0 t'"
proof -
  note ok = transaction_okD(1)[OF s0]
  have so: "sender_of s0 (tr_sender t)" using inv by (simp add: transfer_inv_def)
  have sq: "transfer_inv A C I s0 (t\<lparr>tr_sender := n\<rparr>)" if "quiet s0 (tr_sender t) n" for n
    using quiet_inv[OF inv that, of "tr_air t"] by simp
  note binv = begin_inv[OF inv]
  show ?thesis
  proof (cases ev)
    case (NetSend now)
    then obtain r n where r: "next_due_fragment provider now (tr_sender t) = Some (r, n)" using st by (auto split: option.splits)
    note q = send_quiet[OF s0 so r]
    show ?thesis
    proof (cases r)
      case None
      then have "t' = t\<lparr>tr_sender := n\<rparr>" using st r NetSend by simp
      with q sq show ?thesis by blast
    next
      case (Some f)
      obtain dst u ra fr where f: "f = (dst, u, ra, fr)" by (cases f)
      have "transfer_inv A C I s0 (t\<lparr>tr_sender := n, tr_air := (if dst = B then tr_air t @ [fr] else tr_air t)\<rparr>)"
        by (rule quiet_inv[OF inv]) (use q Some f in \<open>auto split: if_splits\<close>)
      with st r NetSend Some f show ?thesis by simp
    qed
  next
    case (NetPoll now)
    with st sq[OF poll_quiet[OF so, of now]] show ?thesis by auto
  next
    case (NetLower l)
    with st sq[OF quiet_layer[OF quiet_refl[OF so], of l]] show ?thesis by auto
  next
    case (NetAck k)
    with ack_inv[OF s0 inv B C] st show ?thesis by blast
  next
    case (NetStrayAck src ctr ext secured)
    with st foreign_ack_quiet[OF so, of src ctr ext secured] fair B C inv show ?thesis by simp
  next
    case (NetReceive k clock buf durable)
    show ?thesis
    proof (cases "k < length (tr_air t)")
      case False
      with NetReceive st inv show ?thesis by simp
    next
      case True
      have "\<forall>f\<in>set (tr_air t). \<exists>b<blocks s0. f = tx_frame s0 b" using inv by (simp add: transfer_inv_def)
      with nth_mem[OF True] obtain b where b: "b < blocks s0" "tr_air t ! k = tx_frame s0 b" by blast
      have "ft_security s0 = None" using s0 by (simp add: transaction_ok_def)
      note p = tx_frame_parse[OF this, of b]
      obtain fin r' buf' where rc: "receive_fragment find_ieee clock (begin_frame (tr_receiver t)) (tx_header s0 (of_nat b)) A False None False
          (tx_chunk s0 b) buf = Some (fin, r', buf')"
        "t' = t\<lparr>tr_receiver := conclude durable r', tr_delivered := (if fin \<and> durable then tr_delivered t @ [ApsFrameBuffer_payload buf'] else tr_delivered t)\<rparr>"
        using st True unfolding NetReceive net_step.simps Let_def b(2) p by (auto simp: p split: option.splits)
      from block_received[where find_ieee = find_ieee, OF s0 C I binv b(1), of buf clock fin r' buf' durable] rc fair NetReceive show ?thesis
        by (cases fin; cases durable) simp_all
    qed
  next
    case (NetForeign h src replay sec inbuf after clock buf durable)
    obtain fin r' buf' where rc: "receive_fragment find_ieee clock (begin_frame (tr_receiver t)) h src replay sec inbuf after buf = Some (fin, r', buf')"
      "t' = t\<lparr>tr_receiver := conclude durable r'\<rparr>" using st NetForeign by (auto split: option.splits)
    have f: "src \<noteq> A \<or> ah_aps_counter h \<noteq> C" using fair NetForeign by simp
    have "table_inv A C I (tx_blocks s0) (rv_fragment_rx (begin_frame (tr_receiver t)))" using binv by (simp add: transfer_inv_def)
    from receive_table_inv[OF this ok _ rc(1)] f have ti: "table_inv A C I (tx_blocks s0) (rv_fragment_rx r')" by blast
    have "unfinished A C I (tx_blocks s0) (conclude durable r') \<and> gains A C (begin_frame (tr_receiver t)) (conclude durable r')" if d: "tr_delivered t = []"
    proof -
      have un: "unfinished A C I (tx_blocks s0) r'" "gains A C (begin_frame (tr_receiver t)) r'"
        using receive_foreign[OF _ ok f rc(1)] unfinished_now[OF binv] d by simp_all
      have "unfinished A C I (tx_blocks s0) (conclude durable r') \<and> gains A C r' (conclude durable r')"
        by (rule conclude_unfinished[OF un(1) ok]) (use receive_rollback[OF rc(1) begin_clean] f in blast)
      with un(2) gains_trans show ?thesis by blast
    qed
    with receiver_inv[OF binv conclude_table_inv[OF ti ok]] rc(2) show ?thesis by simp
  next
    case (NetPlain member now h src replay sec durable)
    let ?r = "begin_frame (tr_receiver t)"
    let ?p = "accept_unfragmented member now ?r h src replay sec"
    have "transfer_inv A C I s0 (t\<lparr>tr_receiver := ?r\<rparr>\<lparr>tr_receiver := conclude durable ?p\<rparr>)"
    proof (rule receiver_inv[OF binv])
      have "table_inv A C I (tx_blocks s0) (rv_fragment_rx ?p)" unfolding plain_rx using binv by (simp add: transfer_inv_def)
      then show "table_inv A C I (tx_blocks s0) (rv_fragment_rx (conclude durable ?p))" by (rule conclude_table_inv[OF _ ok])
      assume "tr_delivered (t\<lparr>tr_receiver := ?r\<rparr>) = []"
      then have un: "unfinished A C I (tx_blocks s0) ?p" "gains A C ?r ?p"
        using unfinished_now[OF binv] plain_unfinished by (simp_all add: gains_def plain_rx)
      have "unfinished A C I (tx_blocks s0) (conclude durable ?p) \<and> gains A C ?p (conclude durable ?p)"
        by (rule conclude_unfinished[OF un(1) ok]) (simp add: plain_rollback)
      with un(2) gains_trans show "unfinished A C I (tx_blocks s0) (conclude durable ?p) \<and>
          gains A C (tr_receiver (t\<lparr>tr_receiver := ?r\<rparr>)) (conclude durable ?p)" by simp
    qed
    with st NetPlain show ?thesis by simp
  next
    case (NetAge now)
    with age_inv[OF inv s0] fair st show ?thesis by blast
  next
    case (NetRespond nlde max_depth)
    with respond_inv[OF inv] st show ?thesis by blast
  next
    case NetDiscard
    have ti: "table_inv A C I (tx_blocks s0) (rv_fragment_rx (discard_pending_aps_ack (tr_receiver t)))"
      using inv by (simp add: transfer_inv_def discard_pending_aps_ack_def)
    have "unfinished A C I (tx_blocks s0) (discard_pending_aps_ack (tr_receiver t)) \<and> gains A C (tr_receiver t) (discard_pending_aps_ack (tr_receiver t))"
      if d: "tr_delivered t = []"
      using unfinished_now[OF inv d] by (simp add: unfinished_def pending_true_def gains_def discard_pending_aps_ack_def)
    with receiver_inv[OF inv ti] st NetDiscard show ?thesis by simp
  qed
qed

section \<open>Starting a transaction\<close>

lemma send_due_quiet:
  assumes s0: "transaction_ok s0"
  shows "sender_of s0 n \<Longrightarrow> send_due_fragments provider nlde clock k n = Some (fs, n') \<Longrightarrow>
    quiet s0 n n' \<and> (\<forall>dst u ra f. (dst, u, ra, f) \<in> set fs \<longrightarrow> (\<exists>b<blocks s0. f = tx_frame s0 b))"
proof (induction provider nlde clock k n arbitrary: fs n' rule: send_due_fragments.induct)
  case (1 provider nlde clock k n)
  note eq = send_due_fragments.simps[of provider nlde clock k n]
  show ?case
  proof (cases "pending_due n")
    case False
    with 1(2,3) show ?thesis unfolding eq by (simp add: quiet_refl)
  next
    case True
    obtain r n1 where r: "next_due_fragment provider (clock k) n = Some (r, n1)"
      using 1(3) True unfolding eq by (auto split: option.splits)
    note q = send_quiet[OF s0 1(2) r]
    show ?thesis
    proof (cases r)
      case None
      with 1(3) r True q show ?thesis unfolding eq by simp
    next
      case (Some x)
      obtain dst u ra f where x: "x = (dst, u, ra, f)" by (cases x)
      let ?n2 = "n1\<lparr>sn_layer := snd (nlde dst ra f u True (sn_layer n1))\<rparr>"
      obtain gs where gs: "send_due_fragments provider nlde clock (Suc k) ?n2 = Some (gs, n')" "fs = (dst, u, ra, f) # gs"
        using 1(3) r True Some x unfolding eq by auto
      have q2: "quiet s0 n ?n2" using q quiet_layer by blast
      then have "sender_of s0 ?n2" by (simp add: quiet_def)
      then have ih: "quiet s0 ?n2 n' \<and> (\<forall>dst u ra f. (dst, u, ra, f) \<in> set gs \<longrightarrow> (\<exists>b<blocks s0. f = tx_frame s0 b))"
        using 1(1)[OF _ r refl Some x[symmetric] refl refl _ gs(1)] True by blast
      have "\<exists>b<blocks s0. f = tx_frame s0 b" using q Some x by blast
      with ih quiet_trans[OF q2] gs(2) show ?thesis by auto
    qed
  qed
qed

lemma unsecured_start:
  assumes st: "start_fragmented_tx provider nlde find_ieee clock n req B mode radius = Some (Inr confirm, frames, n0)"
    and sec: "\<not> tx_security_enabled (rq_tx_options req)"
  obtains s0 where "transaction_ok s0" "ft_dst s0 = B" "co_aps_counter (ft_confirm s0) = co_aps_counter confirm"
    "ft_window_size s0 = clamp_window_size (sn_aps_max_window_size n)" "concat (tx_blocks s0) = rq_payload req" "sender_of s0 n0"
    "\<And>s b. sn_fragment_tx n0 = Some s \<Longrightarrow> \<not> acked s b" "\<And>c. sn_fragment_tx_confirm n0 = Some c \<Longrightarrow> co_status c \<noteq> ApsSuccess"
    "\<And>f. f \<in> set (map (\<lambda>(_, _, _, f). f) frames) \<Longrightarrow> \<exists>b<blocks s0. f = tx_frame s0 b"
proof -
  define tot where "tot = (length (rq_payload req) + 64 - 1) div 64"
  have g: "length (rq_payload req) \<le> 256" "2 \<le> tot" "tot \<le> 16"
    "launch_fragmented_tx provider nlde clock n req B radius None 64 tot = Some (Inr confirm, frames, n0)"
    using st sec by (auto simp: start_fragmented_tx_def tx_security_def tot_def Let_def APS_FRAGMENT_BLOCK_SIZE_def
        APS_MAX_FRAGMENTED_ASDU_def APS_MAX_FRAGMENT_BLOCKS_def split: if_splits)
  define n1 where "n1 = n\<lparr>sn_aps_counter := sn_aps_counter n + 1\<rparr>"
  define s0 where "s0 = new_session req B radius None 64 tot (sn_aps_counter n) n1 (clock 0)"
  define n2 where "n2 = n1\<lparr>sn_fragment_tx := Some s0, sn_fragment_tx_confirm := None\<rparr>"
  have wf: "tx_wf s0" unfolding s0_def by (rule new_session_wf[OF g(1) _ tot_def g(2,3)]) simp
  have f: "ft_dst s0 = B" "co_aps_counter (ft_confirm s0) = sn_aps_counter n" "ft_window_size s0 = clamp_window_size (sn_aps_max_window_size n)"
    "ft_security s0 = None" "ft_acked s0 = 0" "take (unat (ft_len s0)) (ft_payload s0) = rq_payload req"
    using g(1) by (simp_all add: s0_def n1_def new_session_def Let_def unat_of_nat)
  have ok: "transaction_ok s0" using wf f(4) by (simp add: transaction_ok_def tx_wf_def)
  have so: "sender_of s0 n2" using wf by (simp add: sender_of_def n2_def)
  obtain r n3 where nd: "next_due_fragment provider (clock 1) n2 = Some (r, n3)"
    using g(4) by (auto simp: launch_fragmented_tx_def next_aps_counter_def Let_def n1_def s0_def n2_def split: option.splits)
  note q = send_quiet[OF ok so nd]
  note L = g(4)[unfolded launch_fragmented_tx_def next_aps_counter_def prod.case Let_def n1_def[symmetric] s0_def[symmetric]
      n2_def[symmetric] nd option.case]
  obtain dst u ra fr l fs where x: "r = Some (dst, u, ra, fr)" "send_due_fragments provider nlde clock 2 (n3\<lparr>sn_layer := l\<rparr>) = Some (fs, n0)"
    "frames = (dst, u, ra, fr) # fs" "co_aps_counter confirm = sn_aps_counter n"
  proof (cases r)
    case None
    with L show thesis by simp
  next
    case (Some x)
    obtain dst u ra fr where x: "x = (dst, u, ra, fr)" by (cases x)
    obtain a l where nl: "nlde dst ra fr u True (sn_layer n3) = (a, l)" by force
    show thesis using L that unfolding Some x option.case prod.case nl by (cases a) auto
  qed
  have q3: "quiet s0 n2 (n3\<lparr>sn_layer := l\<rparr>)" using q quiet_layer by blast
  then have "sender_of s0 (n3\<lparr>sn_layer := l\<rparr>)" by (simp add: quiet_def)
  note q4 = send_due_quiet[OF ok this x(2)]
  have q0: "quiet s0 n2 n0" using quiet_trans[OF q3] q4 by blast
  show thesis
  proof (rule that[OF ok f(1)])
    show "co_aps_counter (ft_confirm s0) = co_aps_counter confirm" using f(2) x(4) by simp
    show "concat (tx_blocks s0) = rq_payload req" using transaction_okD(4)[OF ok] f(6) by simp
    show "\<exists>b<blocks s0. g = tx_frame s0 b" if "g \<in> set (map (\<lambda>(_, _, _, f). f) frames)" for g
      using that q q4 x(1,3) by auto
    show "\<not> acked s b" if "sn_fragment_tx n0 = Some s" for s b using q0 that f(5) by (auto simp: quiet_def n2_def)
    show "co_status c \<noteq> ApsSuccess" if "sn_fragment_tx_confirm n0 = Some c" for c using q0 that by (auto simp: quiet_def n2_def)
    show "sender_of s0 n0" using q0 by (simp add: quiet_def)
  qed (rule f(3))
qed

text \<open>The receiver knows nothing of the transaction yet.\<close>

definition ready_for :: "ShortAddress \<Rightarrow> u8 \<Rightarrow> FragmentReceiver \<Rightarrow> bool" where
  "ready_for A C r \<longleftrightarrow> (\<forall>e\<in>set (rv_fragment_rx r). re_wf e \<and> \<not> mine A C e) \<and> no_record A C (rv_dup_table r) \<and>
     (\<forall>ack. rv_pending_aps_ack r = Some ack \<longrightarrow> \<not> ack_for A C ack)"

definition transfer_start :: "FragmentSender \<Rightarrow> FragmentReceiver \<Rightarrow> ApsLayer \<Rightarrow> DueFragment list \<Rightarrow> Transfer" where
  "transfer_start n r l frames = \<lparr>tr_sender = n, tr_receiver = r, tr_receiver_layer = l, tr_air = map (\<lambda>(_, _, _, f). f) frames,
     tr_acks = [], tr_delivered = []\<rparr>"

lemma start_inv:
  assumes "transaction_ok s0" "unat (ft_window_size s0) \<le> unat (clamp_window_size (rv_aps_max_window_size r))" "sender_of s0 n"
    "\<And>s b. sn_fragment_tx n = Some s \<Longrightarrow> \<not> acked s b" "\<And>c. sn_fragment_tx_confirm n = Some c \<Longrightarrow> co_status c \<noteq> ApsSuccess"
    "\<And>f. f \<in> set (map (\<lambda>(_, _, _, f). f) frames) \<Longrightarrow> \<exists>b<blocks s0. f = tx_frame s0 b" "ready_for A C r"
  shows "transfer_inv A C I s0 (transfer_start n r l frames)"
proof -
  have ti: "table_inv A C I (tx_blocks s0) (rv_fragment_rx r)" using assms(7) by (simp add: ready_for_def table_inv_def)
  have "unfinished A C I (tx_blocks s0) r"
    using ti assms(7) by (auto simp: unfinished_def rx_filling_def ready_for_def pending_true_def ack_true_def)
  with assms(2,4) have "undelivered A C I s0 (transfer_start n r l frames)" by (simp add: undelivered_def transfer_start_def Let_def)
  with ti assms(3,5,6) show ?thesis by (simp add: transfer_inv_def transfer_start_def)
qed

lemma net_reach_inv:
  assumes "net_reach provider find_ieee A B C t0 t" "transfer_inv A C I s0 t0" "transaction_ok s0" "B = ft_dst s0"
    "C = co_aps_counter (ft_confirm s0)" "find_ieee A \<bind> nonzero_ieee = I"
  shows "transfer_inv A C I s0 t"
  using assms(1,2)
proof (induction rule: net_reach.induct)
  case (step t ev t')
  from net_step_inv[where find_ieee = find_ieee, OF assms(3) step.IH[OF step.prems] assms(4-6) step.hyps(2,3)] show ?case .
qed

text \<open>
  C3: a fragmented message confirmed as sent was delivered, and what is delivered is the message.  After a sender has started an
  unsecured fragmented transaction towards a device that knows nothing of it, whatever blocks and acknowledgements the
  network loses, repeats, delays or reorders, whatever else both devices send and receive meanwhile, and whatever frames the
  receiver cannot store durably and gives up: every ASDU the
  receiver durably hands up for the transaction is exactly the sender's payload, and when the sender confirms success the
  receiver has handed it up.  Two conditions are needed, and without either of them the sender can confirm a message that
  never arrived: the sender's window must not be larger than the receiver's, whose acknowledgements set
  the bits past its own window; and the receiver must not age its session out while the transaction runs, that is, not run its
  ageing six seconds after the last new block (a session that is aged out and opened again has forgotten blocks it has acknowledged).
\<close>

theorem fragment_success_means_delivered:
  assumes "start_fragmented_tx provider nlde find_A clock n req B mode radius = Some (Inr confirm, frames, n0)"
    and "\<not> tx_security_enabled (rq_tx_options req)"
    and "clamp_window_size (sn_aps_max_window_size n) \<le> clamp_window_size (rv_aps_max_window_size r)"
    and "ready_for A (co_aps_counter confirm) r"
    and "net_reach provider find_B A B (co_aps_counter confirm) (transfer_start n0 r l frames) t"
  shows "set (tr_delivered t) \<subseteq> {rq_payload req} \<and>
    (\<forall>c. sn_fragment_tx_confirm (tr_sender t) = Some c \<and> co_status c = ApsSuccess \<longrightarrow> rq_payload req \<in> set (tr_delivered t))"
proof -
  obtain s0 where s0: "transaction_ok s0" "ft_dst s0 = B" "co_aps_counter (ft_confirm s0) = co_aps_counter confirm"
    "ft_window_size s0 = clamp_window_size (sn_aps_max_window_size n)" "concat (tx_blocks s0) = rq_payload req" "sender_of s0 n0"
    "\<And>s b. sn_fragment_tx n0 = Some s \<Longrightarrow> \<not> acked s b" "\<And>c. sn_fragment_tx_confirm n0 = Some c \<Longrightarrow> co_status c \<noteq> ApsSuccess"
    "\<And>f. f \<in> set (map (\<lambda>(_, _, _, f). f) frames) \<Longrightarrow> \<exists>b<blocks s0. f = tx_frame s0 b"
    using unsecured_start[OF assms(1,2)] by metis
  have "unat (ft_window_size s0) \<le> unat (clamp_window_size (rv_aps_max_window_size r))"
    using assms(3) s0(4) by (simp add: word_le_nat_alt)
  from start_inv[OF s0(1) this s0(6-9) assms(4)]
  have i0: "transfer_inv A (co_aps_counter confirm) (find_B A \<bind> nonzero_ieee) s0 (transfer_start n0 r l frames)" .
  have "transfer_inv A (co_aps_counter confirm) (find_B A \<bind> nonzero_ieee) s0 t"
    by (rule net_reach_inv[OF assms(5) i0 s0(1)]) (use s0 in simp_all)
  then have d: "set (tr_delivered t) \<subseteq> {rq_payload req}"
    "tr_delivered t = [] \<Longrightarrow> sn_fragment_tx_confirm (tr_sender t) = Some c \<Longrightarrow> co_status c \<noteq> ApsSuccess" for c
    using s0(5) by (simp_all add: transfer_inv_def)
  then show ?thesis by (metis insert_absorb insert_subset list.set_intros(1) neq_Nil_conv singletonD subset_singletonD)
qed

fun net_run :: "'e provider \<Rightarrow> (ShortAddress \<Rightarrow> IeeeAddress option) \<Rightarrow> ShortAddress \<Rightarrow> ShortAddress \<Rightarrow> u8 \<Rightarrow> NetEvent list \<Rightarrow> Transfer \<Rightarrow> Transfer option" where
  "net_run provider find_ieee A B C [] t = Some t"
| "net_run provider find_ieee A B C (ev # evs) t =
     (if net_fair A B C t ev then net_step provider find_ieee A B C ev t \<bind> net_run provider find_ieee A B C evs else None)"

lemma net_run_reach:
  "net_reach provider find_ieee A B C t0 t \<Longrightarrow> net_run provider find_ieee A B C evs t = Some t' \<Longrightarrow> net_reach provider find_ieee A B C t0 t'"
  by (induction evs arbitrary: t) (auto split: if_splits bind_splits intro: net_reach.step)

text \<open>An execution: the two blocks of a message arrive in the wrong order, the acknowledgement is sent and heard.\<close>

lemma rejection_timeout_code [code]: "duplicate_rejection_timeout_us t = ucast t * 1000"
proof -
  have "unat t < 2 ^ 16" using unsigned_less[of t] by simp
  then show ?thesis by (simp add: duplicate_rejection_timeout_us_def)
qed

definition small_request :: ApsdeDataRequest where
  "small_request = example_request\<lparr>rq_payload := replicate 65 5\<rparr>"

definition small_receiver :: "u8 \<Rightarrow> FragmentReceiver" where
  "small_receiver window = \<lparr>rv_dup_table = replicate 2 ApsDuplicateEntry_empty, rv_dup_timeout = 3000, rv_aps_max_window_size = window,
     rv_fragment_rx = FragmentReassembly_new 1, rv_pending_rx_rollback = None, rv_pending_aps_ack = None\<rparr>"

definition empty_buffer :: ApsFrameBuffer where
  "empty_buffer = \<lparr>fb_data = replicate 256 0, fb_len = 0\<rparr>"

definition small_start :: "((ApsStatus + ApsdeDataConfirm) \<times> DueFragment list \<times> FragmentSender) option" where
  "small_start = start_fragmented_tx example_provider example_nlde (\<lambda>_. None) (\<lambda>_. 0) example_sender small_request 0x1234 AdmUnicast 30"

definition small_run :: "u8 \<Rightarrow> NetEvent list \<Rightarrow> (bool \<times> u8 list list) option" where
  "small_run window evs = (case small_start of
     Some (Inr confirm, frames, n0) \<Rightarrow>
       map_option (\<lambda>t. (map_option co_status (sn_fragment_tx_confirm (tr_sender t)) = Some ApsSuccess, tr_delivered t))
         (net_run example_provider (\<lambda>_. None) 0x55 0x1234 (co_aps_counter confirm) evs
           (transfer_start n0 (small_receiver window) example_aps_layer frames))
   | _ \<Rightarrow> None)"

lemma small_accepted: "case small_start of Some (Inr confirm, frames, n0) \<Rightarrow> True | _ \<Rightarrow> False"
  by code_simp

lemma small_confirmed:
  "map_option fst (small_run 8 [NetReceive 1 (\<lambda>_. 0) empty_buffer True, NetReceive 0 (\<lambda>_. 0) empty_buffer True, NetRespond example_nlde 15, NetAck 0]) = Some True"
  by code_simp

text \<open>
  With a receiver whose window is smaller than the sender's the claim fails: the acknowledgement of the first block has
  the bits past the receiver's window set, and the sender takes them for the blocks it has sent.
\<close>

lemma window_mismatch_false_success:
  "small_run 1 [NetReceive 0 (\<lambda>_. 0) empty_buffer True, NetRespond example_nlde 15, NetAck 0] = Some (True, [])"
  by code_simp

text \<open>
  When the receiver's session is aged out in the middle the claim fails as well, with equal windows of three: the receiver hears
  the last two of three blocks and acknowledges them, ages its tables six seconds later, and then hears the first block and the
  last one again.  Its acknowledgement of these completes the sender's window; the second block is missing for ever.
\<close>

fun net_steps :: "'e provider \<Rightarrow> (ShortAddress \<Rightarrow> IeeeAddress option) \<Rightarrow> ShortAddress \<Rightarrow> ShortAddress \<Rightarrow> u8 \<Rightarrow> NetEvent list \<Rightarrow> Transfer \<Rightarrow> Transfer option" where
  "net_steps provider find_ieee A B C [] t = Some t"
| "net_steps provider find_ieee A B C (ev # evs) t = net_step provider find_ieee A B C ev t \<bind> net_steps provider find_ieee A B C evs"

definition three_block_run :: "NetEvent list \<Rightarrow> (bool \<times> u8 list list) option" where
  "three_block_run evs =
     (case start_fragmented_tx example_provider example_nlde (\<lambda>_. None) (\<lambda>_. 0) (example_sender\<lparr>sn_aps_max_window_size := 3\<rparr>)
             (small_request\<lparr>rq_payload := replicate 130 5\<rparr>) 0x1234 AdmUnicast 30 of
        Some (Inr confirm, frames, n0) \<Rightarrow>
          map_option (\<lambda>t. (map_option co_status (sn_fragment_tx_confirm (tr_sender t)) = Some ApsSuccess, tr_delivered t))
            (net_steps example_provider (\<lambda>_. None) 0x55 0x1234 (co_aps_counter confirm) evs
              (transfer_start n0 (small_receiver 3) example_aps_layer frames))
      | _ \<Rightarrow> None)"

lemma session_expiry_false_success:
  "three_block_run [NetReceive 2 (\<lambda>_. 0) empty_buffer True, NetReceive 1 (\<lambda>_. 0) empty_buffer True, NetRespond example_nlde 15, NetAck 0,
     NetAge 6000000, NetReceive 0 (\<lambda>_. 6000000) empty_buffer True, NetReceive 2 (\<lambda>_. 6000000) empty_buffer True,
     NetRespond example_nlde 15, NetAck 1] = Some (True, [])"
  by code_simp

lemma small_ready: "ready_for A C (small_receiver window)"
  using empty_wf
  by (simp add: ready_for_def small_receiver_def FragmentReassembly_new_def no_record_def ApsDuplicateEntry_empty_def mine_def)
    (simp add: ReassemblyEntry_empty_def)

theorem fragment_success_means_delivered_witness:
  "\<exists>confirm frames n0 t c. small_start = Some (Inr confirm, frames, n0) \<and>
     net_reach example_provider (\<lambda>_. None) 0x55 0x1234 (co_aps_counter confirm) (transfer_start n0 (small_receiver 8) example_aps_layer frames) t \<and>
     sn_fragment_tx_confirm (tr_sender t) = Some c \<and> co_status c = ApsSuccess \<and> replicate 65 5 \<in> set (tr_delivered t)"
proof -
  let ?evs = "[NetReceive 1 (\<lambda>_. 0) empty_buffer True, NetReceive 0 (\<lambda>_. 0) empty_buffer True, NetRespond example_nlde 15, NetAck 0]"
  obtain confirm frames n0 where st: "small_start = Some (Inr confirm, frames, n0)"
    using small_accepted by (metis (no_types, lifting) option.exhaust option.simps(4,5) prod.exhaust old.prod.case sum.case(1) sum.exhaust)
  let ?t0 = "transfer_start n0 (small_receiver 8) example_aps_layer frames"
  obtain t c where t: "net_run example_provider (\<lambda>_. None) 0x55 0x1234 (co_aps_counter confirm) ?evs ?t0 = Some t"
    "sn_fragment_tx_confirm (tr_sender t) = Some c" "co_status c = ApsSuccess"
    using small_confirmed unfolding small_run_def st option.case sum.case prod.case by (auto simp del: net_run.simps)
  have reach: "net_reach example_provider (\<lambda>_. None) 0x55 0x1234 (co_aps_counter confirm) ?t0 t"
    by (rule net_run_reach[OF net_reach.start t(1)])
  have "\<not> tx_security_enabled (rq_tx_options small_request)" by (simp add: small_request_def example_request_def)
  moreover have "clamp_window_size (sn_aps_max_window_size example_sender) \<le> clamp_window_size (rv_aps_max_window_size (small_receiver 8))"
    by (simp add: example_sender_def small_receiver_def)
  ultimately have "rq_payload small_request \<in> set (tr_delivered t)"
    using fragment_success_means_delivered[OF st[unfolded small_start_def] _ _ small_ready reach] t(2,3) by blast
  then have "replicate 65 5 \<in> set (tr_delivered t)" by (simp add: small_request_def)
  with st reach t(2,3) show ?thesis by blast
qed

end
