(* ===== verification/Security_State.thy ===== *)
theory Security_State
  imports Aps_Security Nwk_Security
begin

text \<open>
  The durable security state of \<^verbatim>\<open>zigbee-runtime/src/security_store.rs\<close>: the record of everything a secured rejoin needs,
  its validity rules, its encoding and the decoders of all eight formats, the durable replay floors, and the store held in
  memory, which says what a store has to do.
\<close>

section \<open>Data\<close>

datatype SecurityStoreError = StoreNotFound | StoreCorrupt | StoreFull | StoreHardware | CounterExhausted | GenerationExhausted

datatype NodeJoinLinkKeyType = DefaultGlobalTrustCenterLinkKey | DistributedSecurityGlobalLinkKey
  | InstallCodeDerivedPreconfiguredLinkKey | TouchlinkPreconfiguredLinkKey

definition NodeJoinLinkKeyType_to_u8 :: "NodeJoinLinkKeyType \<Rightarrow> u8" where
  "NodeJoinLinkKeyType_to_u8 t =
     (case t of DefaultGlobalTrustCenterLinkKey \<Rightarrow> 0 | DistributedSecurityGlobalLinkKey \<Rightarrow> 1
      | InstallCodeDerivedPreconfiguredLinkKey \<Rightarrow> 2 | TouchlinkPreconfiguredLinkKey \<Rightarrow> 3)"

definition NodeJoinLinkKeyType_from_u8 :: "u8 \<Rightarrow> NodeJoinLinkKeyType option" where
  "NodeJoinLinkKeyType_from_u8 value =
     (if value = 0 then Some DefaultGlobalTrustCenterLinkKey else if value = 1 then Some DistributedSecurityGlobalLinkKey
      else if value = 2 then Some InstallCodeDerivedPreconfiguredLinkKey
      else if value = 3 then Some TouchlinkPreconfiguredLinkKey else None)"

definition is_distributed :: "NodeJoinLinkKeyType \<Rightarrow> bool" where
  "is_distributed t \<longleftrightarrow> t = DistributedSecurityGlobalLinkKey \<or> t = TouchlinkPreconfiguredLinkKey"

record PersistentSecurityState =
  ss_commissioned :: bool
  ss_extended_pan_id :: IeeeAddress
  ss_pan_id :: u16
  ss_short_address :: u16
  ss_ieee_address :: IeeeAddress
  ss_channel :: u8
  ss_depth :: u8
  ss_parent_address :: u16
  ss_update_id :: u8
  ss_update_id_valid :: bool
  ss_network_key :: AesKey
  ss_key_sequence :: u8
  ss_staged_network_key_present :: bool
  ss_staged_network_key :: AesKey
  ss_staged_key_sequence :: u8
  ss_secondary_network_key_is_previous :: bool
  ss_network_key_forwarding_pending :: bool
  ss_global_counter_limit :: u32
  ss_tclk_present :: bool
  ss_legacy_default_tclk :: bool
  ss_trust_center_address :: IeeeAddress
  ss_trust_center_link_key :: AesKey
  ss_tclk_counter_limit :: u32
  ss_tclk_incoming_counter :: u32
  ss_tclk_incoming_counter_valid :: bool
  ss_rejoin_pending :: bool
  ss_parent_information :: u8
  ss_parent_information_valid :: bool
  ss_end_device_timeout :: u8
  ss_node_join_link_key_type :: NodeJoinLinkKeyType
  ss_pending_pan_id :: "u16 option"
  ss_pending_pan_id_broadcast :: bool
  ss_device_announce_pending :: bool
  ss_parent_link_provisional :: bool

definition PersistentSecurityState_empty :: PersistentSecurityState where
  "PersistentSecurityState_empty =
     \<lparr>ss_commissioned = False, ss_extended_pan_id = replicate 8 0, ss_pan_id = 0, ss_short_address = 0,
      ss_ieee_address = replicate 8 0, ss_channel = 0, ss_depth = 0, ss_parent_address = 0, ss_update_id = 0,
      ss_update_id_valid = False, ss_network_key = replicate 16 0, ss_key_sequence = 0,
      ss_staged_network_key_present = False, ss_staged_network_key = replicate 16 0, ss_staged_key_sequence = 0,
      ss_secondary_network_key_is_previous = False, ss_network_key_forwarding_pending = False,
      ss_global_counter_limit = 0, ss_tclk_present = False, ss_legacy_default_tclk = False,
      ss_trust_center_address = replicate 8 0, ss_trust_center_link_key = replicate 16 0, ss_tclk_counter_limit = 0,
      ss_tclk_incoming_counter = 0, ss_tclk_incoming_counter_valid = False, ss_rejoin_pending = False,
      ss_parent_information = 0, ss_parent_information_valid = False, ss_end_device_timeout = ED_TIMEOUT_ENUM_DEFAULT,
      ss_node_join_link_key_type = DefaultGlobalTrustCenterLinkKey, ss_pending_pan_id = None,
      ss_pending_pan_id_broadcast = False, ss_device_announce_pending = False, ss_parent_link_provisional = False\<rparr>"

definition is_formed_network :: "PersistentSecurityState \<Rightarrow> bool" where
  "is_formed_network s \<longleftrightarrow> ss_short_address s = 0x0000 \<and> ss_depth s = 0 \<and> ss_parent_address s = 0xFFFF"

definition is_coordinator_network :: "PersistentSecurityState \<Rightarrow> bool" where
  "is_coordinator_network s \<longleftrightarrow> is_formed_network s \<and> \<not> is_distributed (ss_node_join_link_key_type s)"

definition is_distributed_network_owner :: "PersistentSecurityState \<Rightarrow> bool" where
  "is_distributed_network_owner s \<longleftrightarrow> is_formed_network s \<and> is_distributed (ss_node_join_link_key_type s)"

section \<open>Validity\<close>

definition validate :: "PersistentSecurityState \<Rightarrow> SecurityStoreError + unit" where
  "validate s =
     (let formed_network = is_formed_network s; distributed = is_distributed (ss_node_join_link_key_type s)
      in if ss_commissioned s \<and>
            (\<not> (11 \<le> ss_channel s \<and> ss_channel s \<le> 26) \<or> ss_pan_id s = 0xFFFF \<or> ss_short_address s = 0xFFFF \<or>
             ss_ieee_address s = replicate 8 0 \<or> ss_global_counter_limit s = 0 \<or>
             \<not> (formed_network \<or> distributed \<or> ss_tclk_present s \<or> ss_legacy_default_tclk s)) then Inl StoreCorrupt
         else if formed_network \<and> \<not> distributed \<and>
            (ss_tclk_present s \<or> ss_legacy_default_tclk s \<or> ss_trust_center_address s \<noteq> replicate 8 0 \<or>
             ss_trust_center_link_key s \<noteq> replicate 16 0 \<or> ss_tclk_incoming_counter s \<noteq> 0 \<or> ss_tclk_incoming_counter_valid s \<or>
             ss_rejoin_pending s \<or> ss_parent_information s \<noteq> 0 \<or> ss_parent_information_valid s \<or>
             ss_end_device_timeout s \<noteq> ED_TIMEOUT_ENUM_DEFAULT) then Inl StoreCorrupt
         else if distributed \<and>
            (ss_trust_center_address s \<noteq> replicate 8 0xFF \<or> ss_tclk_present s \<or> ss_legacy_default_tclk s \<or>
             ss_trust_center_link_key s \<noteq> replicate 16 0 \<or> ss_tclk_counter_limit s \<noteq> 0 \<or> ss_tclk_incoming_counter s \<noteq> 0 \<or>
             ss_tclk_incoming_counter_valid s) then Inl StoreCorrupt
         else if \<not> distributed \<and> ss_trust_center_address s = replicate 8 0xFF then Inl StoreCorrupt
         else if ss_legacy_default_tclk s \<and>
            (\<not> ss_commissioned s \<or> ss_tclk_present s \<or> ss_trust_center_address s \<noteq> replicate 8 0 \<or>
             ss_trust_center_link_key s \<noteq> replicate 16 0 \<or> ss_tclk_counter_limit s = 0 \<or> ss_tclk_incoming_counter s \<noteq> 0 \<or>
             ss_tclk_incoming_counter_valid s) then Inl StoreCorrupt
         else if (if ss_staged_network_key_present s
                  then \<not> ss_commissioned s \<or> ss_staged_key_sequence s = ss_key_sequence s \<or>
                       ss_secondary_network_key_is_previous s \<and> ss_staged_key_sequence s \<noteq> ss_key_sequence s - 1
                  else ss_staged_key_sequence s \<noteq> 0 \<or> ss_staged_network_key s \<noteq> replicate 16 0 \<or>
                       ss_secondary_network_key_is_previous s) then Inl StoreCorrupt
         else if ss_network_key_forwarding_pending s \<and>
            (\<not> ss_commissioned s \<or> distributed \<or> \<not> ss_staged_network_key_present s) then Inl StoreCorrupt
         else if ss_tclk_present s \<and> (ss_trust_center_address s = replicate 8 0 \<or> ss_tclk_counter_limit s = 0) then Inl StoreCorrupt
         else if ss_rejoin_pending s \<and> \<not> ss_commissioned s then Inl StoreCorrupt
         else if ss_end_device_timeout s > ED_TIMEOUT_ENUM_MAX \<or> ss_parent_information s AND NOT PARENT_INFO_MASK \<noteq> 0 \<or>
            \<not> ss_parent_information_valid s \<and> ss_parent_information s \<noteq> 0 then Inl StoreCorrupt
         else if \<not> ss_update_id_valid s \<and> ss_update_id s \<noteq> 0 then Inl StoreCorrupt
         else if (case ss_pending_pan_id s of
                    Some pending_pan_id \<Rightarrow> \<not> ss_commissioned s \<or> \<not> ss_update_id_valid s \<or> pending_pan_id = 0 \<or>
                      pending_pan_id = 0xFFFF \<or> pending_pan_id = ss_pan_id s
                  | None \<Rightarrow> ss_pending_pan_id_broadcast s) then Inl StoreCorrupt
         else if ss_device_announce_pending s \<and> (\<not> ss_commissioned s \<or> formed_network) then Inl StoreCorrupt
         else if ss_parent_link_provisional s \<and> (\<not> ss_commissioned s \<or> formed_network \<or> distributed) then Inl StoreCorrupt
         else Inr ())"

section \<open>The encoding\<close>

datatype StateFormat = V1 | V2 | V3 | V4 | V5 | V6 | V7 | V8

definition ENCODED_SECURITY_STATE_LEN :: nat where "ENCODED_SECURITY_STATE_LEN = 103"
definition V6_ENCODED_SECURITY_STATE_LEN :: nat where "V6_ENCODED_SECURITY_STATE_LEN = 100"
definition V5_ENCODED_SECURITY_STATE_LEN :: nat where "V5_ENCODED_SECURITY_STATE_LEN = 99"
definition V4_ENCODED_SECURITY_STATE_LEN :: nat where "V4_ENCODED_SECURITY_STATE_LEN = 98"
definition V2_ENCODED_SECURITY_STATE_LEN :: nat where "V2_ENCODED_SECURITY_STATE_LEN = 97"
definition LEGACY_ENCODED_SECURITY_STATE_LEN :: nat where "LEGACY_ENCODED_SECURITY_STATE_LEN = 80"

definition flag :: "bool \<Rightarrow> nat \<Rightarrow> u8" where
  "flag b n = (if b then push_bit n 1 else 0)"

definition allowed_flags :: "StateFormat \<Rightarrow> u8" where
  "allowed_flags format =
     (let common = push_bit 0 1 OR push_bit 1 1 OR push_bit 2 1 OR push_bit 3 1 OR push_bit 4 1
      in case format of
           V1 \<Rightarrow> common
         | V2 \<Rightarrow> common OR push_bit 5 1
         | V3 \<Rightarrow> common OR push_bit 5 1 OR push_bit 6 1
         | _ \<Rightarrow> common OR push_bit 5 1 OR push_bit 6 1 OR push_bit 7 1)"

definition has_staged_key :: "StateFormat \<Rightarrow> bool" where "has_staged_key format \<longleftrightarrow> format \<noteq> V1"
definition has_end_device_timeout :: "StateFormat \<Rightarrow> bool" where "has_end_device_timeout format \<longleftrightarrow> format \<in> {V3, V4, V5, V6, V7, V8}"
definition has_update_id_valid :: "StateFormat \<Rightarrow> bool" where "has_update_id_valid format \<longleftrightarrow> format \<in> {V4, V5, V6, V7, V8}"
definition has_node_join_link_key_type :: "StateFormat \<Rightarrow> bool" where
  "has_node_join_link_key_type format \<longleftrightarrow> format \<in> {V5, V6, V7, V8}"
definition has_secondary_key_role :: "StateFormat \<Rightarrow> bool" where "has_secondary_key_role format \<longleftrightarrow> format \<in> {V6, V7, V8}"
definition has_nwk_lifecycle :: "StateFormat \<Rightarrow> bool" where "has_nwk_lifecycle format \<longleftrightarrow> format \<in> {V7, V8}"

definition state_flags :: "PersistentSecurityState \<Rightarrow> u8" where
  "state_flags s = flag (ss_commissioned s) 0 OR flag (ss_tclk_present s) 1 OR flag (ss_tclk_incoming_counter_valid s) 2 OR
     flag (ss_rejoin_pending s) 3 OR flag (ss_legacy_default_tclk s) 4 OR flag (ss_staged_network_key_present s) 5 OR
     flag (ss_parent_information_valid s) 6 OR flag (ss_update_id_valid s) 7"

definition lifecycle_flags :: "PersistentSecurityState \<Rightarrow> u8" where
  "lifecycle_flags s = flag (ss_pending_pan_id s \<noteq> None) 0 OR flag (ss_pending_pan_id_broadcast s) 1 OR
     flag (ss_device_announce_pending s) 2 OR flag (ss_parent_link_provisional s) 3 OR flag (ss_network_key_forwarding_pending s) 4"

text \<open>The fields lie side by side, in the order of their offsets.\<close>

definition encode :: "PersistentSecurityState \<Rightarrow> u8 list" where
  "encode s =
     [state_flags s, ss_channel s, ss_depth s, ss_update_id s] @ u16_to_le (ss_pan_id s) @ u16_to_le (ss_short_address s) @
     u16_to_le (ss_parent_address s) @ [ss_key_sequence s, ss_parent_information s] @ u32_to_le (ss_global_counter_limit s) @
     ss_extended_pan_id s @ ss_ieee_address s @ ss_network_key s @ ss_trust_center_address s @ ss_trust_center_link_key s @
     u32_to_le (ss_tclk_counter_limit s) @ u32_to_le (ss_tclk_incoming_counter s) @ [ss_staged_key_sequence s] @
     ss_staged_network_key s @ [ss_end_device_timeout s, NodeJoinLinkKeyType_to_u8 (ss_node_join_link_key_type s),
       (if ss_secondary_network_key_is_previous s then 1 else 0), lifecycle_flags s] @
     u16_to_le (case ss_pending_pan_id s of Some p \<Rightarrow> p | None \<Rightarrow> 0)"

abbreviation span :: "u8 list \<Rightarrow> nat \<Rightarrow> nat \<Rightarrow> u8 list" where "span input k n \<equiv> take n (drop k input)"

definition le16_at :: "u8 list \<Rightarrow> nat \<Rightarrow> u16" where "le16_at input k = u16_from_le (input ! k) (input ! Suc k)"
definition le32_at :: "u8 list \<Rightarrow> nat \<Rightarrow> u32" where
  "le32_at input k = u32_from_le (input ! k) (input ! (k + 1)) (input ! (k + 2)) (input ! (k + 3))"

text \<open>The fields every format has; what a format predates keeps the value of the empty state.\<close>

definition decode_common :: "u8 list \<Rightarrow> StateFormat \<Rightarrow> PersistentSecurityState" where
  "decode_common input format =
     (let flags = input ! 0
      in PersistentSecurityState_empty\<lparr>ss_commissioned := bit flags 0, ss_tclk_present := bit flags 1,
           ss_tclk_incoming_counter_valid := bit flags 2, ss_rejoin_pending := bit flags 3, ss_legacy_default_tclk := bit flags 4,
           ss_channel := input ! 1, ss_depth := input ! 2, ss_update_id := input ! 3,
           ss_update_id_valid := (if has_update_id_valid format then bit flags 7 else True),
           ss_pan_id := le16_at input 4, ss_short_address := le16_at input 6, ss_parent_address := le16_at input 8,
           ss_key_sequence := input ! 10, ss_global_counter_limit := le32_at input 12,
           ss_extended_pan_id := span input 16 8, ss_ieee_address := span input 24 8, ss_network_key := span input 32 16,
           ss_trust_center_address := span input 48 8, ss_trust_center_link_key := span input 56 16,
           ss_tclk_counter_limit := le32_at input 72, ss_tclk_incoming_counter := le32_at input 76\<rparr>)"

definition decode_staged_key :: "u8 list \<Rightarrow> StateFormat \<Rightarrow> PersistentSecurityState \<Rightarrow> PersistentSecurityState" where
  "decode_staged_key input format s =
     (if has_staged_key format
      then s\<lparr>ss_staged_network_key_present := bit (input ! 0) 5, ss_staged_key_sequence := input ! 80,
             ss_staged_network_key := span input 81 16\<rparr>
      else s)"

definition decode_end_device_timeout :: "u8 list \<Rightarrow> StateFormat \<Rightarrow> PersistentSecurityState \<Rightarrow> PersistentSecurityState" where
  "decode_end_device_timeout input format s =
     (if has_end_device_timeout format
      then s\<lparr>ss_parent_information_valid := bit (input ! 0) 6, ss_parent_information := input ! 11, ss_end_device_timeout := input ! 97\<rparr>
      else s)"

definition decode_join_type :: "u8 list \<Rightarrow> StateFormat \<Rightarrow> PersistentSecurityState \<Rightarrow> SecurityStoreError + PersistentSecurityState" where
  "decode_join_type input format s =
     (if has_node_join_link_key_type format
      then (case NodeJoinLinkKeyType_from_u8 (input ! 98) of
              None \<Rightarrow> Inl StoreCorrupt | Some t \<Rightarrow> Inr (s\<lparr>ss_node_join_link_key_type := t\<rparr>))
      else Inr (s\<lparr>ss_node_join_link_key_type := (if ss_trust_center_address s = replicate 8 0xFF
                  then DistributedSecurityGlobalLinkKey else DefaultGlobalTrustCenterLinkKey)\<rparr>))"

definition decode_key_role :: "u8 list \<Rightarrow> StateFormat \<Rightarrow> PersistentSecurityState \<Rightarrow> SecurityStoreError + PersistentSecurityState" where
  "decode_key_role input format s =
     (if has_secondary_key_role format
      then if input ! 99 = 0 then Inr (s\<lparr>ss_secondary_network_key_is_previous := False\<rparr>)
           else if input ! 99 = 1 then Inr (s\<lparr>ss_secondary_network_key_is_previous := True\<rparr>) else Inl StoreCorrupt
      else Inr (s\<lparr>ss_secondary_network_key_is_previous := False\<rparr>))"

definition decode_lifecycle :: "u8 list \<Rightarrow> StateFormat \<Rightarrow> PersistentSecurityState \<Rightarrow> SecurityStoreError + PersistentSecurityState" where
  "decode_lifecycle input format s =
     (if has_nwk_lifecycle format
      then let lifecycle = input ! 100;
               allowed = push_bit 0 1 OR push_bit 1 1 OR push_bit 2 1 OR push_bit 3 1 OR (if format = V8 then push_bit 4 1 else 0)
           in if lifecycle AND NOT allowed \<noteq> 0 then Inl StoreCorrupt
              else Inr (s\<lparr>ss_pending_pan_id := (if bit lifecycle 0 then Some (le16_at input 101) else None),
                         ss_pending_pan_id_broadcast := bit lifecycle 1, ss_device_announce_pending := bit lifecycle 2,
                         ss_parent_link_provisional := bit lifecycle 3, ss_network_key_forwarding_pending := bit lifecycle 4\<rparr>)
      else Inr s)"

definition decode_bytes :: "u8 list \<Rightarrow> StateFormat \<Rightarrow> SecurityStoreError + PersistentSecurityState" where
  "decode_bytes input format =
     (if input ! 0 AND NOT (allowed_flags format) \<noteq> 0 then Inl StoreCorrupt
      else case decode_join_type input format (decode_end_device_timeout input format (decode_staged_key input format
                  (decode_common input format))) of
             Inl e \<Rightarrow> Inl e
           | Inr s \<Rightarrow>
               (case decode_key_role input format s of
                  Inl e \<Rightarrow> Inl e
                | Inr s \<Rightarrow>
                    (case decode_lifecycle input format s of
                       Inl e \<Rightarrow> Inl e
                     | Inr s \<Rightarrow> (case validate s of Inl e \<Rightarrow> Inl e | Inr _ \<Rightarrow> Inr s))))"

definition decode :: "u8 list \<Rightarrow> SecurityStoreError + PersistentSecurityState" where
  "decode input = decode_bytes input V8"

text \<open>\<^verbatim>\<open>impl PartialEq for PersistentSecurityState\<close>\<close>

definition state_eq :: "PersistentSecurityState \<Rightarrow> PersistentSecurityState \<Rightarrow> bool" where
  "state_eq s s' \<longleftrightarrow> encode s = encode s'"

section \<open>The decoders read what the encoder wrote\<close>

text \<open>The array fields have the sizes of their types.\<close>

definition ss_sized :: "PersistentSecurityState \<Rightarrow> bool" where
  "ss_sized s \<longleftrightarrow> length (ss_extended_pan_id s) = 8 \<and> length (ss_ieee_address s) = 8 \<and> length (ss_network_key s) = 16 \<and>
     length (ss_staged_network_key s) = 16 \<and> length (ss_trust_center_address s) = 8 \<and> length (ss_trust_center_link_key s) = 16"

lemma length_u32_le [simp]: "length (u32_to_le w) = 4"
  by (simp add: u32_to_le_def)

lemma encode_length: "ss_sized s \<Longrightarrow> length (encode s) = 103"
  by (simp add: encode_def ss_sized_def)

lemma encode_bytes:
  assumes "ss_sized s"
  shows "encode s ! 0 = state_flags s" "encode s ! 1 = ss_channel s" "encode s ! 2 = ss_depth s" "encode s ! 3 = ss_update_id s"
    "encode s ! 10 = ss_key_sequence s" "encode s ! 11 = ss_parent_information s" "encode s ! 80 = ss_staged_key_sequence s"
    "encode s ! 97 = ss_end_device_timeout s" "encode s ! 98 = NodeJoinLinkKeyType_to_u8 (ss_node_join_link_key_type s)"
    "encode s ! 99 = (if ss_secondary_network_key_is_previous s then 1 else 0)" "encode s ! 100 = lifecycle_flags s"
  using assms by (simp_all add: encode_def ss_sized_def nth_append nth_Cons')

lemma encode_spans:
  assumes "ss_sized s"
  shows "span (encode s) 16 8 = ss_extended_pan_id s" "span (encode s) 24 8 = ss_ieee_address s" "span (encode s) 32 16 = ss_network_key s"
    "span (encode s) 48 8 = ss_trust_center_address s" "span (encode s) 56 16 = ss_trust_center_link_key s"
    "span (encode s) 81 16 = ss_staged_network_key s"
  using assms by (simp_all add: encode_def ss_sized_def)

lemma encode_words:
  assumes "ss_sized s"
  shows "le16_at (encode s) 4 = ss_pan_id s" "le16_at (encode s) 6 = ss_short_address s" "le16_at (encode s) 8 = ss_parent_address s"
    "le32_at (encode s) 12 = ss_global_counter_limit s" "le32_at (encode s) 72 = ss_tclk_counter_limit s"
    "le32_at (encode s) 76 = ss_tclk_incoming_counter s"
    "le16_at (encode s) 101 = (case ss_pending_pan_id s of Some p \<Rightarrow> p | None \<Rightarrow> 0)"
  using assms
  by (simp_all add: le16_at_def le32_at_def encode_def ss_sized_def nth_append nth_Cons' u16_to_le_def u32_to_le_def)

text \<open>
  How a format writes a state: its own length, and only the flags it knows.  A format can represent the states in which
  everything it predates has the value its decoder supplies.
\<close>

definition format_len :: "StateFormat \<Rightarrow> nat" where
  "format_len format = (case format of V1 \<Rightarrow> LEGACY_ENCODED_SECURITY_STATE_LEN | V2 \<Rightarrow> V2_ENCODED_SECURITY_STATE_LEN
     | V3 \<Rightarrow> V4_ENCODED_SECURITY_STATE_LEN | V4 \<Rightarrow> V4_ENCODED_SECURITY_STATE_LEN | V5 \<Rightarrow> V5_ENCODED_SECURITY_STATE_LEN
     | V6 \<Rightarrow> V6_ENCODED_SECURITY_STATE_LEN | V7 \<Rightarrow> ENCODED_SECURITY_STATE_LEN | V8 \<Rightarrow> ENCODED_SECURITY_STATE_LEN)"

definition encode_as :: "StateFormat \<Rightarrow> PersistentSecurityState \<Rightarrow> u8 list" where
  "encode_as format s = (take (format_len format) (encode s))[0 := state_flags s AND allowed_flags format]"

definition representable :: "StateFormat \<Rightarrow> PersistentSecurityState \<Rightarrow> bool" where
  "representable format s \<longleftrightarrow>
     (has_staged_key format \<or> \<not> ss_staged_network_key_present s) \<and>
     (has_end_device_timeout format \<or> \<not> ss_parent_information_valid s \<and> ss_end_device_timeout s = ED_TIMEOUT_ENUM_DEFAULT) \<and>
     (has_update_id_valid format \<or> ss_update_id_valid s) \<and>
     (has_node_join_link_key_type format \<or> ss_node_join_link_key_type s =
        (if ss_trust_center_address s = replicate 8 0xFF then DistributedSecurityGlobalLinkKey else DefaultGlobalTrustCenterLinkKey)) \<and>
     (has_secondary_key_role format \<or> \<not> ss_secondary_network_key_is_previous s) \<and>
     (has_nwk_lifecycle format \<or> ss_pending_pan_id s = None \<and> \<not> ss_pending_pan_id_broadcast s \<and> \<not> ss_device_announce_pending s \<and>
        \<not> ss_parent_link_provisional s) \<and>
     (format = V8 \<or> \<not> ss_network_key_forwarding_pending s)"

lemma state_flag_bit: "bit (flag b n) i \<longleftrightarrow> b \<and> i = n \<and> i < 8"
  by (auto simp: flag_def bit_simps)

lemma state_flag_bits:
  "bit (state_flags s) 0 = ss_commissioned s" "bit (state_flags s) 1 = ss_tclk_present s" "bit (state_flags s) 2 = ss_tclk_incoming_counter_valid s"
  "bit (state_flags s) 3 = ss_rejoin_pending s" "bit (state_flags s) 4 = ss_legacy_default_tclk s"
  "bit (state_flags s) 5 = ss_staged_network_key_present s" "bit (state_flags s) 6 = ss_parent_information_valid s"
  "bit (state_flags s) 7 = ss_update_id_valid s"
  by (simp_all add: state_flags_def bit_or_iff state_flag_bit)

lemma lifecycle_flag_bits:
  "bit (lifecycle_flags s) 0 = (ss_pending_pan_id s \<noteq> None)" "bit (lifecycle_flags s) 1 = ss_pending_pan_id_broadcast s"
  "bit (lifecycle_flags s) 2 = ss_device_announce_pending s" "bit (lifecycle_flags s) 3 = ss_parent_link_provisional s"
  "bit (lifecycle_flags s) 4 = ss_network_key_forwarding_pending s" "5 \<le> i \<Longrightarrow> \<not> bit (lifecycle_flags s) i"
  by (auto simp: lifecycle_flags_def bit_or_iff state_flag_bit)

lemma allowed_bits:
  "i < 5 \<Longrightarrow> bit (allowed_flags f) i" "bit (allowed_flags f) 5 = has_staged_key f" "bit (allowed_flags f) 6 = has_end_device_timeout f"
  "bit (allowed_flags f) 7 = has_update_id_valid f"
proof -
  have e: "i < 5 \<Longrightarrow> i = 0 \<or> i = 1 \<or> i = 2 \<or> i = 3 \<or> i = 4" by arith
  show "i < 5 \<Longrightarrow> bit (allowed_flags f) i" using e by (cases f) (auto simp: allowed_flags_def Let_def)
  show "bit (allowed_flags f) 5 = has_staged_key f" by (cases f) (simp_all add: allowed_flags_def has_staged_key_def Let_def)
  show "bit (allowed_flags f) 6 = has_end_device_timeout f" by (cases f) (simp_all add: allowed_flags_def has_end_device_timeout_def Let_def)
  show "bit (allowed_flags f) 7 = has_update_id_valid f" by (cases f) (simp_all add: allowed_flags_def has_update_id_valid_def Let_def)
qed

lemma join_type_roundtrip [simp]: "NodeJoinLinkKeyType_from_u8 (NodeJoinLinkKeyType_to_u8 t) = Some t"
  by (cases t) (simp_all add: NodeJoinLinkKeyType_from_u8_def NodeJoinLinkKeyType_to_u8_def)

lemma validate_defaults:
  assumes "validate s = Inr ()"
  shows "\<not> ss_staged_network_key_present s \<Longrightarrow> ss_staged_key_sequence s = 0 \<and> ss_staged_network_key s = replicate 16 0"
    "\<not> ss_parent_information_valid s \<Longrightarrow> ss_parent_information s = 0"
  using assms unfolding validate_def Let_def by (auto split: if_splits)

lemma format_lens:
  "80 \<le> format_len f" "format_len f \<le> 103" "has_staged_key f \<Longrightarrow> 97 \<le> format_len f" "has_end_device_timeout f \<Longrightarrow> 98 \<le> format_len f"
  "has_node_join_link_key_type f \<Longrightarrow> 99 \<le> format_len f" "has_secondary_key_role f \<Longrightarrow> 100 \<le> format_len f"
  "has_nwk_lifecycle f \<Longrightarrow> format_len f = 103"
  by (cases f; simp add: format_len_def has_staged_key_def has_end_device_timeout_def has_node_join_link_key_type_def has_secondary_key_role_def
      has_nwk_lifecycle_def LEGACY_ENCODED_SECURITY_STATE_LEN_def V2_ENCODED_SECURITY_STATE_LEN_def V4_ENCODED_SECURITY_STATE_LEN_def
      V5_ENCODED_SECURITY_STATE_LEN_def V6_ENCODED_SECURITY_STATE_LEN_def ENCODED_SECURITY_STATE_LEN_def)+

lemma encode_as_bytes:
  assumes "ss_sized s"
  shows "encode_as f s ! 0 = state_flags s AND allowed_flags f" "0 < i \<Longrightarrow> i < format_len f \<Longrightarrow> encode_as f s ! i = encode s ! i"
    "0 < k \<Longrightarrow> k + n \<le> format_len f \<Longrightarrow> span (encode_as f s) k n = span (encode s) k n" "length (encode_as f s) = format_len f"
proof -
  have l: "length (encode s) = 103" "80 \<le> format_len f" "format_len f \<le> 103" using encode_length[OF assms] format_lens[of f] by simp_all
  then show "encode_as f s ! 0 = state_flags s AND allowed_flags f" by (simp add: encode_as_def)
  show "encode_as f s ! i = encode s ! i" if "0 < i" "i < format_len f" using that l by (simp add: encode_as_def)
  show "span (encode_as f s) k n = span (encode s) k n" if "0 < k" "k + n \<le> format_len f"
    using that l by (simp add: encode_as_def drop_update_swap drop_take min_def)
  show "length (encode_as f s) = format_len f" using l by (simp add: encode_as_def)
qed

text \<open>The words of an older layout, where it has them.\<close>

lemma encode_as_words:
  assumes "ss_sized s"
  shows "0 < k \<Longrightarrow> k + 2 \<le> format_len f \<Longrightarrow> le16_at (encode_as f s) k = le16_at (encode s) k"
    "0 < k \<Longrightarrow> k + 4 \<le> format_len f \<Longrightarrow> le32_at (encode_as f s) k = le32_at (encode s) k"
  using encode_as_bytes(2)[OF assms] by (simp_all add: le16_at_def le32_at_def)

lemma state_eqI:
  fixes r s :: PersistentSecurityState
  assumes "ss_commissioned r = ss_commissioned s" "ss_extended_pan_id r = ss_extended_pan_id s" "ss_pan_id r = ss_pan_id s"
    "ss_short_address r = ss_short_address s" "ss_ieee_address r = ss_ieee_address s" "ss_channel r = ss_channel s" "ss_depth r = ss_depth s"
    "ss_parent_address r = ss_parent_address s" "ss_update_id r = ss_update_id s" "ss_update_id_valid r = ss_update_id_valid s"
    "ss_network_key r = ss_network_key s" "ss_key_sequence r = ss_key_sequence s"
    "ss_staged_network_key_present r = ss_staged_network_key_present s" "ss_staged_network_key r = ss_staged_network_key s"
    "ss_staged_key_sequence r = ss_staged_key_sequence s" "ss_secondary_network_key_is_previous r = ss_secondary_network_key_is_previous s"
    "ss_network_key_forwarding_pending r = ss_network_key_forwarding_pending s" "ss_global_counter_limit r = ss_global_counter_limit s"
    "ss_tclk_present r = ss_tclk_present s" "ss_legacy_default_tclk r = ss_legacy_default_tclk s"
    "ss_trust_center_address r = ss_trust_center_address s" "ss_trust_center_link_key r = ss_trust_center_link_key s"
    "ss_tclk_counter_limit r = ss_tclk_counter_limit s" "ss_tclk_incoming_counter r = ss_tclk_incoming_counter s"
    "ss_tclk_incoming_counter_valid r = ss_tclk_incoming_counter_valid s" "ss_rejoin_pending r = ss_rejoin_pending s"
    "ss_parent_information r = ss_parent_information s" "ss_parent_information_valid r = ss_parent_information_valid s"
    "ss_end_device_timeout r = ss_end_device_timeout s" "ss_node_join_link_key_type r = ss_node_join_link_key_type s"
    "ss_pending_pan_id r = ss_pending_pan_id s" "ss_pending_pan_id_broadcast r = ss_pending_pan_id_broadcast s"
    "ss_device_announce_pending r = ss_device_announce_pending s" "ss_parent_link_provisional r = ss_parent_link_provisional s"
  shows "r = s"
  using assms by (intro PersistentSecurityState.equality) simp_all

lemma decode_fixed_fields:
  fixes f :: StateFormat
  assumes sz: "ss_sized s"
  defines "c \<equiv> decode_common (encode_as f s) f"
  shows "ss_commissioned c = ss_commissioned s" "ss_extended_pan_id c = ss_extended_pan_id s" "ss_pan_id c = ss_pan_id s"
    "ss_short_address c = ss_short_address s" "ss_ieee_address c = ss_ieee_address s" "ss_channel c = ss_channel s" "ss_depth c = ss_depth s"
    "ss_parent_address c = ss_parent_address s" "ss_update_id c = ss_update_id s"
    "ss_network_key c = ss_network_key s" "ss_key_sequence c = ss_key_sequence s"
    "ss_global_counter_limit c = ss_global_counter_limit s"
    "ss_tclk_present c = ss_tclk_present s" "ss_legacy_default_tclk c = ss_legacy_default_tclk s"
    "ss_trust_center_address c = ss_trust_center_address s" "ss_trust_center_link_key c = ss_trust_center_link_key s"
    "ss_tclk_counter_limit c = ss_tclk_counter_limit s" "ss_tclk_incoming_counter c = ss_tclk_incoming_counter s"
    "ss_tclk_incoming_counter_valid c = ss_tclk_incoming_counter_valid s" "ss_rejoin_pending c = ss_rejoin_pending s"
    "ss_update_id_valid c = (has_update_id_valid f \<longrightarrow> ss_update_id_valid s)"
proof -
  have l: "80 \<le> format_len f" by (rule format_lens(1))
  note b = encode_as_bytes(1)[OF sz, of f] encode_as_bytes(2)[OF sz, of _ f] encode_as_bytes(3)[OF sz, of _ _ f]
    encode_as_words[OF sz, of _ f] encode_bytes[OF sz] encode_spans[OF sz] encode_words[OF sz] state_flag_bits allowed_bits encode_bytes(2)[OF sz, unfolded One_nat_def] state_flag_bits(2)[unfolded One_nat_def]
  show "ss_commissioned c = ss_commissioned s" "ss_extended_pan_id c = ss_extended_pan_id s" "ss_pan_id c = ss_pan_id s"
    "ss_short_address c = ss_short_address s" "ss_ieee_address c = ss_ieee_address s" "ss_channel c = ss_channel s" "ss_depth c = ss_depth s"
    "ss_parent_address c = ss_parent_address s" "ss_update_id c = ss_update_id s"
    "ss_network_key c = ss_network_key s" "ss_key_sequence c = ss_key_sequence s"
    "ss_global_counter_limit c = ss_global_counter_limit s"
    "ss_tclk_present c = ss_tclk_present s" "ss_legacy_default_tclk c = ss_legacy_default_tclk s"
    "ss_trust_center_address c = ss_trust_center_address s" "ss_trust_center_link_key c = ss_trust_center_link_key s"
    "ss_tclk_counter_limit c = ss_tclk_counter_limit s" "ss_tclk_incoming_counter c = ss_tclk_incoming_counter s"
    "ss_tclk_incoming_counter_valid c = ss_tclk_incoming_counter_valid s" "ss_rejoin_pending c = ss_rejoin_pending s"
    "ss_update_id_valid c = (has_update_id_valid f \<longrightarrow> ss_update_id_valid s)"
    using l by (simp_all add: c_def decode_common_def b bit_and_iff Let_def)
qed


lemma decode_staged_key_of:
  fixes f :: StateFormat
  assumes sz: "ss_sized s" and v: "validate s = Inr ()" and r: "representable f s"
    and c: "ss_staged_network_key_present c = False" "ss_staged_key_sequence c = 0" "ss_staged_network_key c = replicate 16 0"
  shows "decode_staged_key (encode_as f s) f c = c\<lparr>ss_staged_network_key_present := ss_staged_network_key_present s,
     ss_staged_key_sequence := ss_staged_key_sequence s, ss_staged_network_key := ss_staged_network_key s\<rparr>"
proof (cases "has_staged_key f")
  case True
  then have l: "97 \<le> format_len f" by (rule format_lens(3))
  have b: "bit (encode_as f s ! 0) 5 = ss_staged_network_key_present s"
    using True by (simp add: encode_as_bytes(1)[OF sz] bit_and_iff state_flag_bits allowed_bits)
  have k: "encode_as f s ! 80 = ss_staged_key_sequence s" "span (encode_as f s) 81 16 = ss_staged_network_key s"
    using encode_as_bytes(2)[OF sz, of 80 f] encode_as_bytes(3)[OF sz, of 81 16 f] encode_bytes(7)[OF sz] encode_spans(6)[OF sz] l by simp_all
  show ?thesis unfolding decode_staged_key_def b k using True by simp
next
  case False
  then have n: "ss_staged_key_sequence s = 0" "ss_staged_network_key s = replicate 16 0" "ss_staged_network_key_present s = False"
    using r validate_defaults(1)[OF v] by (simp_all add: representable_def)
  have "c\<lparr>ss_staged_network_key_present := False, ss_staged_key_sequence := 0, ss_staged_network_key := replicate 16 0\<rparr> = c"
    using c by (intro state_eqI) simp_all
  then show ?thesis using False by (simp add: decode_staged_key_def n)
qed

lemma decode_timeout_of:
  fixes f :: StateFormat
  assumes sz: "ss_sized s" and v: "validate s = Inr ()" and r: "representable f s"
    and c: "ss_parent_information_valid c = False" "ss_parent_information c = 0" "ss_end_device_timeout c = ED_TIMEOUT_ENUM_DEFAULT"
  shows "decode_end_device_timeout (encode_as f s) f c = c\<lparr>ss_parent_information_valid := ss_parent_information_valid s,
     ss_parent_information := ss_parent_information s, ss_end_device_timeout := ss_end_device_timeout s\<rparr>"
proof (cases "has_end_device_timeout f")
  case True
  then have l: "98 \<le> format_len f" by (rule format_lens(4))
  have b: "bit (encode_as f s ! 0) 6 = ss_parent_information_valid s"
    using True by (simp add: encode_as_bytes(1)[OF sz] bit_and_iff state_flag_bits allowed_bits)
  have k: "encode_as f s ! 11 = ss_parent_information s" "encode_as f s ! 97 = ss_end_device_timeout s"
    using encode_as_bytes(2)[OF sz, of 11 f] encode_as_bytes(2)[OF sz, of 97 f] encode_bytes(6,8)[OF sz] l by simp_all
  show ?thesis unfolding decode_end_device_timeout_def b k using True by simp
next
  case False
  then have n: "ss_parent_information s = 0" "ss_end_device_timeout s = ED_TIMEOUT_ENUM_DEFAULT" "ss_parent_information_valid s = False"
    using r validate_defaults(2)[OF v] by (simp_all add: representable_def)
  have "c\<lparr>ss_parent_information_valid := False, ss_parent_information := 0, ss_end_device_timeout := ED_TIMEOUT_ENUM_DEFAULT\<rparr> = c"
    using c by (intro state_eqI) simp_all
  then show ?thesis using False by (simp add: decode_end_device_timeout_def n)
qed

lemma decode_join_type_of:
  assumes sz: "ss_sized s" and r: "representable f s" and c: "ss_trust_center_address c = ss_trust_center_address s"
  shows "decode_join_type (encode_as f s) f c = Inr (c\<lparr>ss_node_join_link_key_type := ss_node_join_link_key_type s\<rparr>)"
  using r c format_lens(5)[of f] encode_as_bytes(2)[OF sz, of 98 f] encode_bytes(9)[OF sz]
  by (auto simp: decode_join_type_def representable_def)

lemma decode_key_role_of:
  assumes sz: "ss_sized s" and r: "representable f s"
  shows "decode_key_role (encode_as f s) f c = Inr (c\<lparr>ss_secondary_network_key_is_previous := ss_secondary_network_key_is_previous s\<rparr>)"
proof (cases "has_secondary_key_role f")
  case True
  then have b: "encode_as f s ! 99 = (if ss_secondary_network_key_is_previous s then 1 else 0)"
    using format_lens(6)[of f] encode_as_bytes(2)[OF sz, of 99 f] encode_bytes(10)[OF sz] by simp
  show ?thesis unfolding decode_key_role_def b using True by (cases "ss_secondary_network_key_is_previous s") simp_all
next
  case False
  then have "ss_secondary_network_key_is_previous s = False" using r by (simp add: representable_def)
  then show ?thesis using False by (simp add: decode_key_role_def)
qed

lemma lifecycle_allowed:
  assumes "f = V8 \<or> \<not> ss_network_key_forwarding_pending s"
  shows "lifecycle_flags s AND NOT (push_bit 0 1 OR push_bit 1 1 OR push_bit 2 1 OR push_bit 3 1 OR (if f = V8 then push_bit 4 1 else 0)) = 0"
proof (rule bit_eqI)
  fix i assume "possible_bit TYPE(8 word) i"
  then have i: "i < 8" by simp
  have "i = 0 \<or> i = 1 \<or> i = 2 \<or> i = 3 \<or> i = 4 \<or> 5 \<le> i" by arith
  then show "bit (lifecycle_flags s AND NOT (push_bit 0 1 OR push_bit 1 1 OR push_bit 2 1 OR push_bit 3 1 OR (if f = V8 then push_bit 4 1 else 0))) i
    = bit (0 :: 8 word) i"
    using assms i by (auto simp: bit_simps lifecycle_flag_bits)
qed

lemma decode_lifecycle_of:
  assumes sz: "ss_sized s" and r: "representable f s" and c: "has_nwk_lifecycle f \<or> ss_pending_pan_id c = None \<and> \<not> ss_pending_pan_id_broadcast c \<and>
      \<not> ss_device_announce_pending c \<and> \<not> ss_parent_link_provisional c \<and> \<not> ss_network_key_forwarding_pending c"
  shows "decode_lifecycle (encode_as f s) f c = Inr (c\<lparr>ss_pending_pan_id := ss_pending_pan_id s,
     ss_pending_pan_id_broadcast := ss_pending_pan_id_broadcast s, ss_device_announce_pending := ss_device_announce_pending s,
     ss_parent_link_provisional := ss_parent_link_provisional s, ss_network_key_forwarding_pending := ss_network_key_forwarding_pending s\<rparr>)"
proof (cases "has_nwk_lifecycle f")
  case True
  then have l: "format_len f = 103" by (rule format_lens(7))
  have b: "encode_as f s ! 100 = lifecycle_flags s" using encode_as_bytes(2)[OF sz, of 100 f] encode_bytes(11)[OF sz] l by simp
  have w: "le16_at (encode_as f s) 101 = (case ss_pending_pan_id s of Some p \<Rightarrow> p | None \<Rightarrow> 0)"
    using encode_as_words(1)[OF sz, of 101 f] encode_words(7)[OF sz] l by simp
  have p: "(if ss_pending_pan_id s \<noteq> None then Some (case ss_pending_pan_id s of Some p \<Rightarrow> p | None \<Rightarrow> 0) else None) = ss_pending_pan_id s"
    by (cases "ss_pending_pan_id s") simp_all
  have a: "f = V8 \<or> \<not> ss_network_key_forwarding_pending s" using r by (simp add: representable_def)
  show ?thesis unfolding decode_lifecycle_def Let_def b w lifecycle_allowed[OF a] lifecycle_flag_bits p using True by simp
next
  case False
  then have n: "ss_pending_pan_id s = None" "ss_pending_pan_id_broadcast s = False" "ss_device_announce_pending s = False"
      "ss_parent_link_provisional s = False" "ss_network_key_forwarding_pending s = False"
    using r unfolding representable_def has_nwk_lifecycle_def by auto
  have "c\<lparr>ss_pending_pan_id := None, ss_pending_pan_id_broadcast := False, ss_device_announce_pending := False,
     ss_parent_link_provisional := False, ss_network_key_forwarding_pending := False\<rparr> = c"
    using c False by (intro state_eqI) simp_all
  then show ?thesis using False by (simp add: decode_lifecycle_def n)
qed

lemma encode_as_flags_allowed:
  assumes "ss_sized s"
  shows "encode_as f s ! 0 AND NOT (allowed_flags f) = 0"
  unfolding encode_as_bytes(1)[OF assms] by (simp add: and.assoc)

lemma decode_encode_as:
  assumes "ss_sized s" and "validate s = Inr ()" and "representable f s"
  shows "decode_bytes (encode_as f s) f = Inr s"
proof -
  define b where "b = encode_as f s"
  define c where "c = decode_common b f"
  define d where "d = c\<lparr>ss_staged_network_key_present := ss_staged_network_key_present s,
     ss_staged_key_sequence := ss_staged_key_sequence s, ss_staged_network_key := ss_staged_network_key s\<rparr>"
  define e where "e = d\<lparr>ss_parent_information_valid := ss_parent_information_valid s,
     ss_parent_information := ss_parent_information s, ss_end_device_timeout := ss_end_device_timeout s\<rparr>"
  define g where "g = e\<lparr>ss_node_join_link_key_type := ss_node_join_link_key_type s\<rparr>"
  define h where "h = g\<lparr>ss_secondary_network_key_is_previous := ss_secondary_network_key_is_previous s\<rparr>"
  have c0: "ss_staged_network_key_present c = False" "ss_staged_key_sequence c = 0" "ss_staged_network_key c = replicate 16 0"
    "ss_parent_information_valid c = False" "ss_parent_information c = 0" "ss_end_device_timeout c = ED_TIMEOUT_ENUM_DEFAULT"
    "ss_pending_pan_id c = None" "\<not> ss_pending_pan_id_broadcast c" "\<not> ss_device_announce_pending c" "\<not> ss_parent_link_provisional c"
    "\<not> ss_network_key_forwarding_pending c"
    by (simp_all add: c_def decode_common_def PersistentSecurityState_empty_def Let_def)
  note cf = decode_fixed_fields[OF assms(1), of f, folded b_def c_def]
  have uv: "ss_update_id_valid c = ss_update_id_valid s" using cf(21) assms(3) unfolding representable_def by blast
  have d1: "decode_staged_key b f c = d" unfolding b_def d_def by (rule decode_staged_key_of[OF assms c0(1,2,3)])
  have dt: "ss_parent_information_valid d = False" "ss_parent_information d = 0" "ss_end_device_timeout d = ED_TIMEOUT_ENUM_DEFAULT"
    using c0 by (simp_all add: d_def)
  have e1: "decode_end_device_timeout b f d = e" unfolding b_def e_def by (rule decode_timeout_of[OF assms dt])
  have tc: "ss_trust_center_address e = ss_trust_center_address s" using cf(15) by (simp add: e_def d_def)
  have g1: "decode_join_type b f e = Inr g" unfolding b_def g_def by (rule decode_join_type_of[OF assms(1,3) tc])
  have h1: "decode_key_role b f g = Inr h" unfolding b_def h_def by (rule decode_key_role_of[OF assms(1,3)])
  have h0: "has_nwk_lifecycle f \<or> ss_pending_pan_id h = None \<and> \<not> ss_pending_pan_id_broadcast h \<and>
      \<not> ss_device_announce_pending h \<and> \<not> ss_parent_link_provisional h \<and> \<not> ss_network_key_forwarding_pending h"
    using c0 by (simp add: h_def g_def e_def d_def)
  have "h\<lparr>ss_pending_pan_id := ss_pending_pan_id s,
     ss_pending_pan_id_broadcast := ss_pending_pan_id_broadcast s, ss_device_announce_pending := ss_device_announce_pending s,
     ss_parent_link_provisional := ss_parent_link_provisional s, ss_network_key_forwarding_pending := ss_network_key_forwarding_pending s\<rparr> = s"
    by (rule state_eqI) (use cf uv in \<open>simp_all add: h_def g_def e_def d_def\<close>)
  then have l1: "decode_lifecycle b f h = Inr s" unfolding b_def using decode_lifecycle_of[OF assms(1,3) h0] by simp
  have "b ! 0 AND NOT (allowed_flags f) = 0" unfolding b_def by (rule encode_as_flags_allowed[OF assms(1)])
  then show ?thesis
    unfolding b_def[symmetric] decode_bytes_def c_def[symmetric] d1 e1 using g1 h1 l1 assms(2) by simp
qed


lemma encode_as_V8: "encode_as V8 s = encode s" if "ss_sized s"
proof -
  have a: "allowed_flags V8 = - 1" by (simp add: allowed_flags_def Let_def)
  have "(encode s)[0 := state_flags s] = encode s" using encode_bytes(1)[OF that] list_update_id[of "encode s" 0] by simp
  then show ?thesis using encode_length[OF that] by (simp add: encode_as_def a format_len_def ENCODED_SECURITY_STATE_LEN_def)
qed

lemma decode_encode: "decode (encode s) = Inr s" if "ss_sized s" "validate s = Inr ()"
proof -
  have "representable V8 s"
    by (simp add: representable_def has_staged_key_def has_end_device_timeout_def has_update_id_valid_def has_node_join_link_key_type_def
        has_secondary_key_role_def has_nwk_lifecycle_def)
  then show ?thesis using decode_encode_as[OF that, of V8] encode_as_V8[OF that(1)] by (simp add: decode_def)
qed

text \<open>On valid states the comparison of encodings is equality.\<close>

lemma state_eq_valid:
  assumes "state_eq s s'" "ss_sized s" "validate s = Inr ()" "ss_sized s'" "validate s' = Inr ()"
  shows "s = s'"
proof -
  have e: "encode s = encode s'" using assms(1) unfolding state_eq_def .
  have "Inr s = decode (encode s)" by (rule decode_encode[OF assms(2,3), symmetric])
  also have "\<dots> = Inr s'" unfolding e by (rule decode_encode[OF assms(4,5)])
  finally show ?thesis by (rule Inr_inject)
qed

lemma decode_bytes_sound:
  assumes "decode_bytes input format = Inr s" and l: "length input = format_len format"
  shows "ss_sized s" "validate s = Inr ()"
proof -
  obtain g h where c: "decode_join_type input format (decode_end_device_timeout input format (decode_staged_key input format
      (decode_common input format))) = Inr g" "decode_key_role input format g = Inr h" "decode_lifecycle input format h = Inr s"
    and v: "validate s = Inr ()"
    using assms(1) unfolding decode_bytes_def by (auto split: if_splits sum.splits)
  show "validate s = Inr ()" by (rule v)
  have "ss_sized (decode_common input format)"
    using l format_lens(1)[of format] by (simp add: decode_common_def ss_sized_def PersistentSecurityState_empty_def Let_def)
  then have "ss_sized (decode_staged_key input format (decode_common input format))"
    using l format_lens(3)[of format] by (cases "has_staged_key format") (simp_all add: decode_staged_key_def ss_sized_def)
  then have "ss_sized (decode_end_device_timeout input format (decode_staged_key input format (decode_common input format)))"
    by (simp add: decode_end_device_timeout_def ss_sized_def)
  then have "ss_sized g" using c(1) by (auto simp: decode_join_type_def ss_sized_def split: if_splits option.splits)
  then have "ss_sized h" using c(2) by (auto simp: decode_key_role_def ss_sized_def split: if_splits)
  then show "ss_sized s" using c(3) by (auto simp: decode_lifecycle_def ss_sized_def Let_def split: if_splits)
qed

text \<open>Whatever format wrote a valid state that it can represent, its decoder gives back exactly that state.\<close>

lemma security_state_roundtrip:
  assumes "ss_sized s" and "validate s = Inr ()" and "representable f s"
  shows "decode_bytes (encode_as f s) f = Inr s"
  by (rule decode_encode_as[OF assms])

text \<open>A device in the middle of a key switch on a centralized network.\<close>

definition example_state :: PersistentSecurityState where
  "example_state = PersistentSecurityState_empty\<lparr>ss_commissioned := True, ss_extended_pan_id := [1, 2, 3, 4, 5, 6, 7, 8], ss_pan_id := 0x1A62,
     ss_short_address := 0x4455, ss_ieee_address := [8, 7, 6, 5, 4, 3, 2, 1], ss_channel := 15, ss_depth := 1, ss_update_id := 3,
     ss_update_id_valid := True, ss_network_key := replicate 16 0xA5, ss_key_sequence := 7, ss_staged_network_key_present := True,
     ss_staged_network_key := replicate 16 0x5A, ss_staged_key_sequence := 8, ss_global_counter_limit := 0x1400, ss_tclk_present := True,
     ss_trust_center_address := [9, 9, 9, 9, 9, 9, 9, 9], ss_trust_center_link_key := replicate 16 0x11, ss_tclk_counter_limit := 0x800\<rparr>"

lemma example_state_facts:
  "ss_sized example_state" "validate example_state = Inr ()" "representable V4 example_state" "representable V2 example_state"
  by code_simp+

lemma security_state_roundtrip_witness:
  "ss_sized example_state \<and> validate example_state = Inr () \<and> representable V4 example_state \<and>
   decode_bytes (encode_as V4 example_state) V4 = Inr example_state"
  using security_state_roundtrip[OF example_state_facts(1,2,3)] example_state_facts by simp



section \<open>Replay floors\<close>

datatype PersistentReplayCounter = NwkFloor NwkReplayCounter | ApsFloor ApsReplayCounter

definition MAX_GLOBAL_REPLAY_ENTRIES :: nat where "MAX_GLOBAL_REPLAY_ENTRIES = 16"

definition MAX_PERSISTENT_REPLAY_COUNTERS :: "bool \<Rightarrow> nat" where
  "MAX_PERSISTENT_REPLAY_COUNTERS trust_center = MAX_FRAME_COUNTER_ENTRIES + MAX_KEY_TABLE_ENTRIES trust_center + MAX_GLOBAL_REPLAY_ENTRIES"

fun same_domain :: "PersistentReplayCounter \<Rightarrow> PersistentReplayCounter \<Rightarrow> bool" where
  "same_domain (NwkFloor left) (NwkFloor right) = (rc_source left = rc_source right \<and> rc_key_sequence left = rc_key_sequence right \<and>
     rc_key_fingerprint left = rc_key_fingerprint right)"
| "same_domain (ApsFloor left) (ApsFloor right) = (replay_origin_eq (ar_origin left) (ar_origin right) \<and>
     ar_key_fingerprint left = ar_key_fingerprint right)"
| "same_domain _ _ = False"

text \<open>The derived \<^verbatim>\<open>PartialEq\<close>, over that of the origins.\<close>

fun replay_eq :: "PersistentReplayCounter \<Rightarrow> PersistentReplayCounter \<Rightarrow> bool" where
  "replay_eq (NwkFloor left) (NwkFloor right) = (left = right)"
| "replay_eq (ApsFloor left) (ApsFloor right) = (replay_origin_eq (ar_origin left) (ar_origin right) \<and>
     ar_key_fingerprint left = ar_key_fingerprint right \<and> ar_counter left = ar_counter right)"
| "replay_eq _ _ = False"

fun floor_counter :: "PersistentReplayCounter \<Rightarrow> u32" where
  "floor_counter (NwkFloor replay) = rc_counter replay"
| "floor_counter (ApsFloor replay) = ar_counter replay"

datatype ReplayCounterTombstone = TombDevice IeeeAddress | TombKeyFingerprint u32 | TombReplayDomain PersistentReplayCounter

fun matches_tombstone :: "PersistentReplayCounter \<Rightarrow> ReplayCounterTombstone \<Rightarrow> bool" where
  "matches_tombstone (NwkFloor replay) (TombDevice address) = (rc_source replay = address)"
| "matches_tombstone (ApsFloor replay) (TombDevice address) =
     (case ar_origin replay of RKeyPair partner _ \<Rightarrow> partner = address | RPreconfiguredGlobal _ \<Rightarrow> False | RDistributedGlobal _ \<Rightarrow> False)"
| "matches_tombstone (NwkFloor replay) (TombKeyFingerprint fp) = (rc_key_fingerprint replay = fp)"
| "matches_tombstone (ApsFloor replay) (TombKeyFingerprint fp) = (ar_key_fingerprint replay = fp)"
| "matches_tombstone replay (TombReplayDomain other) = same_domain replay other"

lemma replay_origin_eq_refl [simp]: "replay_origin_eq x x"
  by (cases x) simp_all

lemma replay_origin_eq_sym: "replay_origin_eq x y \<Longrightarrow> replay_origin_eq y x"
  by (cases x; cases y) simp_all

lemma replay_origin_eq_trans: "replay_origin_eq x y \<Longrightarrow> replay_origin_eq y z \<Longrightarrow> replay_origin_eq x z"
  by (cases x; cases y; cases z) simp_all

lemma same_domain_refl [simp]: "same_domain x x"
  by (cases x) simp_all

lemma same_domain_sym: "same_domain x y \<Longrightarrow> same_domain y x"
  by (cases x; cases y) (auto intro: replay_origin_eq_sym)

lemma same_domain_trans: "same_domain x y \<Longrightarrow> same_domain y z \<Longrightarrow> same_domain x z"
  by (cases x; cases y; cases z) (auto intro: replay_origin_eq_trans)

lemma replay_eq_domain: "replay_eq x y \<Longrightarrow> same_domain x y \<and> floor_counter x = floor_counter y"
  by (cases x; cases y) auto

section \<open>The store held in memory\<close>

record RamSecurityStateStore =
  ram_state :: "PersistentSecurityState option"
  ram_replay :: "PersistentReplayCounter list"

definition RamSecurityStateStore_new :: RamSecurityStateStore where
  "RamSecurityStateStore_new = \<lparr>ram_state = None, ram_replay = []\<rparr>"

definition preserves_replay :: "PersistentSecurityState \<Rightarrow> PersistentSecurityState \<Rightarrow> bool" where
  "preserves_replay current state \<longleftrightarrow> ss_commissioned current \<and> ss_commissioned state \<and>
     ss_extended_pan_id current = ss_extended_pan_id state \<and> ss_ieee_address current = ss_ieee_address state"

definition ram_load :: "RamSecurityStateStore \<Rightarrow> RamSecurityStateStore \<times> (SecurityStoreError + PersistentSecurityState option)" where
  "ram_load r = (r, Inr (ram_state r))"

definition ram_store :: "RamSecurityStateStore \<Rightarrow> PersistentSecurityState \<Rightarrow> RamSecurityStateStore \<times> (SecurityStoreError + unit)" where
  "ram_store r state =
     (let preserve_replay = (case ram_state r of None \<Rightarrow> False | Some current \<Rightarrow> preserves_replay current state);
          r = (if preserve_replay then r else r\<lparr>ram_replay := []\<rparr>)
      in (r\<lparr>ram_state := Some state\<rparr>, Inr ()))"

text \<open>\<^verbatim>\<open>iter_mut().find\<close>: the first floor of the same domain is raised, or the floor is appended.\<close>

fun raise_first :: "PersistentReplayCounter \<Rightarrow> PersistentReplayCounter list \<Rightarrow> PersistentReplayCounter list option" where
  "raise_first update [] = None"
| "raise_first update (stored # rest) =
     (if same_domain stored update then Some ((if floor_counter update > floor_counter stored then update else stored) # rest)
      else map_option (\<lambda>rest. stored # rest) (raise_first update rest))"

definition merge_replay :: "bool \<Rightarrow> PersistentReplayCounter list \<Rightarrow> PersistentReplayCounter \<Rightarrow>
    PersistentReplayCounter list \<times> (SecurityStoreError + unit)" where
  "merge_replay tc replay update =
     (case raise_first update replay of
        Some replay' \<Rightarrow> (replay', Inr ())
      | None \<Rightarrow> if length replay < MAX_PERSISTENT_REPLAY_COUNTERS tc then (replay @ [update], Inr ()) else (replay, Inl StoreFull))"

definition ram_commit_replay_counter :: "bool \<Rightarrow> RamSecurityStateStore \<Rightarrow> PersistentReplayCounter \<Rightarrow>
    RamSecurityStateStore \<times> (SecurityStoreError + unit)" where
  "ram_commit_replay_counter tc r replay =
     (if \<not> (case ram_state r of None \<Rightarrow> False | Some state \<Rightarrow> ss_commissioned state) then (r, Inl StoreCorrupt)
      else let (replay', res) = merge_replay tc (ram_replay r) replay in (r\<lparr>ram_replay := replay'\<rparr>, res))"

definition ram_tombstone_replay_counters :: "RamSecurityStateStore \<Rightarrow> ReplayCounterTombstone \<Rightarrow>
    RamSecurityStateStore \<times> (SecurityStoreError + unit)" where
  "ram_tombstone_replay_counters r tombstone =
     (r\<lparr>ram_replay := filter (\<lambda>replay. \<not> matches_tombstone replay tombstone) (ram_replay r)\<rparr>, Inr ())"

definition ram_retain_replay_counters :: "RamSecurityStateStore \<Rightarrow> (PersistentReplayCounter \<Rightarrow> bool) \<Rightarrow>
    RamSecurityStateStore \<times> (SecurityStoreError + nat)" where
  "ram_retain_replay_counters r retain =
     (let replay' = filter retain (ram_replay r) in (r\<lparr>ram_replay := replay'\<rparr>, Inr (length (ram_replay r) - length replay')))"

text \<open>A list covers a floor when one of its entries has the same domain and at least its counter.\<close>

definition covers :: "PersistentReplayCounter list \<Rightarrow> PersistentReplayCounter \<Rightarrow> bool" where
  "covers replay r \<longleftrightarrow> (\<exists>x\<in>set replay. same_domain x r \<and> floor_counter r \<le> floor_counter x)"

lemma covers_member: "x \<in> set xs \<Longrightarrow> covers xs x"
  unfolding covers_def by (rule bexI[of _ x]) simp_all

lemma covers_trans: "covers ys r \<Longrightarrow> (\<And>y. y \<in> set ys \<Longrightarrow> covers zs y) \<Longrightarrow> covers zs r"
  unfolding covers_def by (meson order_trans same_domain_trans)

lemma covers_mono: "covers ys r \<Longrightarrow> set ys \<subseteq> set zs \<Longrightarrow> covers zs r"
  unfolding covers_def by blast

lemma raise_first_covers:
  assumes "raise_first update xs = Some ys"
  shows "covers ys update \<and> (\<forall>x\<in>set xs. covers ys x)"
  using assms
proof (induction xs arbitrary: ys)
  case (Cons a xs)
  show ?case
  proof (cases "same_domain a update")
    case True
    define b where "b = (if floor_counter update > floor_counter a then update else a)"
    have ys: "ys = b # xs" using Cons.prems True by (simp add: b_def)
    have "same_domain b update" "same_domain b a" "floor_counter update \<le> floor_counter b" "floor_counter a \<le> floor_counter b"
      using True same_domain_sym by (auto simp: b_def)
    then have "covers ys update" "covers ys a" unfolding covers_def ys by (simp_all add: bexI[of _ b])
    moreover have "covers ys x" if "x \<in> set xs" for x by (rule covers_member) (simp add: ys that)
    ultimately show ?thesis by simp
  next
    case False
    then obtain zs where z: "raise_first update xs = Some zs" "ys = a # zs" using Cons.prems by auto
    have "covers zs r \<Longrightarrow> covers ys r" for r by (rule covers_mono) (auto simp: z(2))
    then show ?thesis using Cons.IH[OF z(1)] covers_member[of a ys] z(2) by simp
  qed
qed simp

lemma merge_replay_covers:
  assumes "merge_replay tc xs update = (ys, Inr ())"
  shows "covers ys update" "x \<in> set xs \<Longrightarrow> covers ys x"
proof -
  have "raise_first update xs = Some ys \<or> ys = xs @ [update]"
    using assms by (auto simp: merge_replay_def split: option.splits if_splits)
  then show "covers ys update" "x \<in> set xs \<Longrightarrow> covers ys x"
    using raise_first_covers[of update xs ys] covers_member[of update ys] covers_member[of x ys] by auto
qed

end
