(* ===== verification/Security_Journal.thy ===== *)
theory Security_Journal
  imports Security_State
begin

text \<open>
  The two-sector flash journal of \<^verbatim>\<open>zigbee-runtime/src/security_journal.rs\<close>.  The flash is code outside the repository (the
  \<^verbatim>\<open>NorFlash\<close> trait of \<^verbatim>\<open>embedded-storage\<close>): its operations are fields of a record that every operation takes, together with the
  sector size of the journal's type and the Trust Center build option.  Each operation takes the journal and returns it
  with a result; a failed flash operation is the early return of the source, and the flash is left as the failed operation
  left it, which is also what a power loss at that point leaves.  Addresses are 32-bit words and \<^verbatim>\<open>usize\<close> is that of the
  32-bit targets.
\<close>

section \<open>Data\<close>

record 'f NorFlash =
  nf_read :: "'f \<Rightarrow> u32 \<Rightarrow> nat \<Rightarrow> 'f \<times> u8 list option"
  nf_write :: "'f \<Rightarrow> u32 \<Rightarrow> u8 list \<Rightarrow> 'f \<times> bool"
  nf_erase :: "'f \<Rightarrow> u32 \<Rightarrow> u32 \<Rightarrow> 'f \<times> bool"
  nf_capacity :: "'f \<Rightarrow> nat"
  nf_READ_SIZE :: nat
  nf_WRITE_SIZE :: nat
  nf_ERASE_SIZE :: nat

record 'f JournalType =
  jt_flash :: "'f NorFlash"
  jt_sector_size :: nat
  jt_trust_center :: bool

record LocatedState =
  lc_generation :: u32
  lc_sector :: nat
  lc_state :: PersistentSecurityState
  lc_tag :: u16

record 'f SecurityStateJournal =
  sj_storage :: 'f
  sj_sectors :: "u32 list"
  sj_cached :: "LocatedState option"
  sj_cached_replay :: "PersistentReplayCounter list"
  sj_replay_generation :: "u32 option"
  sj_scanned :: bool
  sj_product_tag :: "u16 option"

definition SECURITY_JOURNAL_SLOT_SIZE :: nat where "SECURITY_JOURNAL_SLOT_SIZE = 128"
definition SECURITY_JOURNAL_UNTAGGED :: u16 where "SECURITY_JOURNAL_UNTAGGED = 0xFFFF"
definition RECORD_MAGIC :: "u8 list" where "RECORD_MAGIC = [0x5A, 0x42, 0x53, 0x53]"
definition RECORD_COMMIT :: "u8 list" where "RECORD_COMMIT = [0x43, 0x4D, 0x49, 0x54]"
definition RECORD_VERSION :: u8 where "RECORD_VERSION = 8"
definition LEGACY_RECORD_CRC_OFFSET :: nat where "LEGACY_RECORD_CRC_OFFSET = 92"
definition V6_RECORD_CRC_OFFSET :: nat where "V6_RECORD_CRC_OFFSET = 112"
definition RECORD_CRC_OFFSET :: nat where "RECORD_CRC_OFFSET = 116"
definition RECORD_PREFIX_LEN :: nat where "RECORD_PREFIX_LEN = 120"
definition RECORD_COMMIT_OFFSET :: nat where "RECORD_COMMIT_OFFSET = 124"
definition REPLAY_RECORD_MAGIC :: "u8 list" where "REPLAY_RECORD_MAGIC = [0x5A, 0x42, 0x53, 0x52]"
definition REPLAY_RECORD_VERSION :: u8 where "REPLAY_RECORD_VERSION = 1"
definition REPLAY_HEADER_LEN :: nat where "REPLAY_HEADER_LEN = 16"
definition REPLAY_ENTRY_LEN :: nat where "REPLAY_ENTRY_LEN = 28"
definition REPLAY_ENTRY_PREFIX_LEN :: nat where "REPLAY_ENTRY_PREFIX_LEN = 24"
definition REPLAY_ENTRY_COMMIT_OFFSET :: nat where "REPLAY_ENTRY_COMMIT_OFFSET = 24"
definition REPLAY_ENTRY_COMMIT :: "u8 list" where "REPLAY_ENTRY_COMMIT = [0x52, 0x43, 0x4D, 0x54]"
definition REPLAY_ENTRIES_PER_SLOT :: nat where "REPLAY_ENTRIES_PER_SLOT = 4"

lemmas journal_consts = SECURITY_JOURNAL_SLOT_SIZE_def RECORD_CRC_OFFSET_def RECORD_PREFIX_LEN_def RECORD_COMMIT_OFFSET_def
  REPLAY_HEADER_LEN_def REPLAY_ENTRY_LEN_def REPLAY_ENTRY_PREFIX_LEN_def REPLAY_ENTRY_COMMIT_OFFSET_def REPLAY_ENTRIES_PER_SLOT_def
  ENCODED_SECURITY_STATE_LEN_def

definition SLOTS_PER_SECTOR :: "'f JournalType \<Rightarrow> nat" where
  "SLOTS_PER_SECTOR T = jt_sector_size T div SECURITY_JOURNAL_SLOT_SIZE"

definition journal_new :: "'f \<Rightarrow> u32 \<Rightarrow> u32 \<Rightarrow> 'f SecurityStateJournal" where
  "journal_new storage first_sector second_sector =
     \<lparr>sj_storage = storage, sj_sectors = [first_sector, second_sector], sj_cached = None, sj_cached_replay = [],
      sj_replay_generation = None, sj_scanned = False, sj_product_tag = None\<rparr>"

definition crc32_bit :: "u32 \<Rightarrow> u32" where
  "crc32_bit crc = (let mask = 0 - (crc AND 1) in drop_bit 1 crc XOR (0xEDB88320 AND mask))"

definition crc32_byte :: "u32 \<Rightarrow> u8 \<Rightarrow> u32" where
  "crc32_byte crc byte = (crc32_bit ^^ 8) (crc XOR ucast byte)"

definition crc32 :: "u8 list \<Rightarrow> u32" where
  "crc32 data = NOT (foldl crc32_byte 0xFFFFFFFF data)"

section \<open>Records\<close>

definition record_tag :: "u8 list \<Rightarrow> u16" where
  "record_tag record = le16_at record 6"

definition record_format :: "u8 list \<Rightarrow> (nat \<times> StateFormat) option" where
  "record_format record =
     (let version = record ! 4; len = unat (record ! 5)
      in if version = RECORD_VERSION \<and> len = ENCODED_SECURITY_STATE_LEN then Some (RECORD_CRC_OFFSET, V8)
         else if version = 7 \<and> len = ENCODED_SECURITY_STATE_LEN then Some (RECORD_CRC_OFFSET, V7)
         else if version = 6 \<and> len = V6_ENCODED_SECURITY_STATE_LEN then Some (V6_RECORD_CRC_OFFSET, V6)
         else if version = 5 \<and> len = V5_ENCODED_SECURITY_STATE_LEN then Some (V6_RECORD_CRC_OFFSET, V5)
         else if version = 4 \<and> len = V4_ENCODED_SECURITY_STATE_LEN then Some (V6_RECORD_CRC_OFFSET, V4)
         else if version = 3 \<and> len = V4_ENCODED_SECURITY_STATE_LEN then Some (V6_RECORD_CRC_OFFSET, V3)
         else if version = 2 \<and> len = V2_ENCODED_SECURITY_STATE_LEN then Some (V6_RECORD_CRC_OFFSET, V2)
         else if version = 1 \<and> len = LEGACY_ENCODED_SECURITY_STATE_LEN then Some (LEGACY_RECORD_CRC_OFFSET, V1)
         else None)"

definition decode_record :: "u8 list \<Rightarrow> (u32 \<times> PersistentSecurityState) option" where
  "decode_record record =
     (if span record RECORD_COMMIT_OFFSET 4 \<noteq> RECORD_COMMIT \<or> take 4 record \<noteq> RECORD_MAGIC then None
      else case record_format record of
             None \<Rightarrow> None
           | Some (crc_offset, format) \<Rightarrow>
               if crc32 (take crc_offset record) \<noteq> le32_at record crc_offset then None
               else case decode_bytes (span record 12 (format_len format)) format of
                      Inl _ \<Rightarrow> None
                    | Inr state \<Rightarrow> Some (le32_at record 8, state))"

definition resolve_duplicate_generation :: "LocatedState \<Rightarrow> LocatedState \<Rightarrow> LocatedState" where
  "resolve_duplicate_generation first second =
     (let s1 = lc_state first; s2 = lc_state second
      in if state_eq s1 s2 then first
         else let global_limit = max (ss_global_counter_limit s1) (ss_global_counter_limit s2);
                  same_tclk = (ss_tclk_present s1 \<and> ss_tclk_present s2 \<and> ss_trust_center_address s1 = ss_trust_center_address s2 \<and>
                               ss_trust_center_link_key s1 = ss_trust_center_link_key s2);
                  tclk_limit = max (ss_tclk_counter_limit s1) (ss_tclk_counter_limit s2);
                  later = (ss_global_counter_limit s1 < ss_global_counter_limit s2 \<or>
                           ss_global_counter_limit s1 = ss_global_counter_limit s2 \<and> ss_tclk_counter_limit s1 \<le> ss_tclk_counter_limit s2);
                  first = (if later then second else first);
                  state = (lc_state first)\<lparr>ss_global_counter_limit := global_limit\<rparr>;
                  state = (if same_tclk then state\<lparr>ss_tclk_counter_limit := tclk_limit\<rparr> else state)
              in first\<lparr>lc_state := state\<rparr>)"

definition newest_step :: "LocatedState option \<Rightarrow> LocatedState \<Rightarrow> LocatedState option" where
  "newest_step newest candidate =
     (case newest of
        None \<Rightarrow> Some candidate
      | Some current \<Rightarrow>
          if lc_generation candidate > lc_generation current then Some candidate
          else if lc_generation candidate = lc_generation current then Some (resolve_duplicate_generation current candidate)
          else Some current)"

definition replay_header_generation :: "u8 list \<Rightarrow> u32 option" where
  "replay_header_generation record =
     (if take 4 record \<noteq> REPLAY_RECORD_MAGIC \<or> record ! 4 \<noteq> REPLAY_RECORD_VERSION \<or> unat (record ! 5) \<noteq> REPLAY_ENTRY_LEN \<or>
         unat (record ! 6) \<noteq> REPLAY_ENTRIES_PER_SLOT \<or> record ! 7 \<noteq> 0 then None
      else if crc32 (take 12 record) \<noteq> le32_at record 12 then None
      else Some (le32_at record 8))"

definition replay_entry_at :: "u8 list \<Rightarrow> nat \<Rightarrow> u8 list" where
  "replay_entry_at record index = span record (REPLAY_HEADER_LEN + index * REPLAY_ENTRY_LEN) REPLAY_ENTRY_LEN"

definition replay_entry_is_erased :: "u8 list \<Rightarrow> bool" where
  "replay_entry_is_erased entry \<longleftrightarrow> list_all (\<lambda>byte. byte = 0xFF) entry"

definition decode_replay_entry :: "u8 list \<Rightarrow> PersistentReplayCounter option" where
  "decode_replay_entry entry =
     (if length entry \<noteq> REPLAY_ENTRY_LEN \<or> drop REPLAY_ENTRY_COMMIT_OFFSET entry \<noteq> REPLAY_ENTRY_COMMIT then None
      else if crc32 (take 20 entry) \<noteq> le32_at entry 20 \<or> span entry 18 2 \<noteq> [0, 0] then None
      else let source = take 8 entry
           in if source = replicate 8 0 \<or> source = replicate 8 0xFF then None
              else let counter = le32_at entry 8; key_fingerprint = le32_at entry 12;
                       aps = (\<lambda>origin. ApsFloor \<lparr>ar_origin = origin, ar_key_fingerprint = key_fingerprint, ar_counter = counter\<rparr>)
                   in if entry ! 16 = 0
                      then Some (NwkFloor \<lparr>rc_source = source, rc_key_sequence = entry ! 17, rc_key_fingerprint = key_fingerprint,
                                           rc_counter = counter\<rparr>)
                      else if entry ! 16 = 1
                      then (case ApsKeyType_from_u8 (entry ! 17) of
                              None \<Rightarrow> None
                            | Some key_type \<Rightarrow> if key_type = TrustCenterLinkKey \<or> key_type = ApplicationLinkKey
                                               then Some (aps (RKeyPair source key_type)) else None)
                      else if entry ! 16 = 2 \<and> entry ! 17 = 0 then Some (aps (RPreconfiguredGlobal source))
                      else if entry ! 16 = 3 \<and> entry ! 17 = 0 then Some (aps (RDistributedGlobal source))
                      else None)"

definition ApsKeyType_to_u8 :: "ApsKeyType \<Rightarrow> u8" where
  "ApsKeyType_to_u8 t = (case t of TrustCenterMasterKey \<Rightarrow> 0 | TrustCenterLinkKey \<Rightarrow> 1 | NetworkKey \<Rightarrow> 2 | ApplicationLinkKey \<Rightarrow> 3)"

definition encode_replay_entry :: "PersistentReplayCounter \<Rightarrow> u8 list" where
  "encode_replay_entry replay =
     (let (source, counter, key_fingerprint, kind, selector) =
            (case replay of
               NwkFloor r \<Rightarrow> (rc_source r, rc_counter r, rc_key_fingerprint r, 0, rc_key_sequence r)
             | ApsFloor r \<Rightarrow>
                 (case ar_origin r of
                    RKeyPair partner key_type \<Rightarrow> (partner, ar_counter r, ar_key_fingerprint r, 1, ApsKeyType_to_u8 key_type)
                  | RPreconfiguredGlobal source \<Rightarrow> (source, ar_counter r, ar_key_fingerprint r, 2, 0)
                  | RDistributedGlobal source \<Rightarrow> (source, ar_counter r, ar_key_fingerprint r, 3, 0)));
          head = source @ u32_to_le counter @ u32_to_le key_fingerprint @ [kind, selector, 0, 0]
      in head @ u32_to_le (crc32 head) @ [0xFF, 0xFF, 0xFF, 0xFF])"

section \<open>Reading the flash\<close>

definition slot_address :: "'f SecurityStateJournal \<Rightarrow> nat \<Rightarrow> nat \<Rightarrow> nat \<Rightarrow> u32" where
  "slot_address j sector slot offset = sj_sectors j ! sector + of_nat (slot * SECURITY_JOURNAL_SLOT_SIZE + offset)"

definition read_slot :: "'f JournalType \<Rightarrow> 'f SecurityStateJournal \<Rightarrow> nat \<Rightarrow> nat \<Rightarrow> 'f SecurityStateJournal \<times> (SecurityStoreError + u8 list)" where
  "read_slot T j sector slot =
     (let (storage, r) = nf_read (jt_flash T) (sj_storage j) (slot_address j sector slot 0) SECURITY_JOURNAL_SLOT_SIZE
      in (j\<lparr>sj_storage := storage\<rparr>, case r of None \<Rightarrow> Inl StoreHardware | Some record \<Rightarrow> Inr record))"

definition flash_write :: "'f JournalType \<Rightarrow> 'f SecurityStateJournal \<Rightarrow> u32 \<Rightarrow> u8 list \<Rightarrow> 'f SecurityStateJournal \<times> (SecurityStoreError + unit)" where
  "flash_write T j address data =
     (let (storage, ok) = nf_write (jt_flash T) (sj_storage j) address data
      in (j\<lparr>sj_storage := storage\<rparr>, if ok then Inr () else Inl StoreHardware))"

definition flash_erase :: "'f JournalType \<Rightarrow> 'f SecurityStateJournal \<Rightarrow> u32 \<Rightarrow> u32 \<Rightarrow> 'f SecurityStateJournal \<times> (SecurityStoreError + unit)" where
  "flash_erase T j from_addr to_addr =
     (let (storage, ok) = nf_erase (jt_flash T) (sj_storage j) from_addr to_addr
      in (j\<lparr>sj_storage := storage\<rparr>, if ok then Inr () else Inl StoreHardware))"

fun newest_loop :: "'f JournalType \<Rightarrow> 'f SecurityStateJournal \<Rightarrow> (nat \<times> nat) list \<Rightarrow> LocatedState option \<Rightarrow>
    'f SecurityStateJournal \<times> (SecurityStoreError + LocatedState option)" where
  "newest_loop T j [] newest = (j, Inr newest)"
| "newest_loop T j ((sector, slot) # rest) newest =
     (case read_slot T j sector slot of
        (j, Inl e) \<Rightarrow> (j, Inl e)
      | (j, Inr record) \<Rightarrow>
          newest_loop T j rest
            (case decode_record record of
               None \<Rightarrow> newest
             | Some (generation, state) \<Rightarrow>
                 newest_step newest \<lparr>lc_generation = generation, lc_sector = sector, lc_state = state, lc_tag = record_tag record\<rparr>))"

definition journal_newest :: "'f JournalType \<Rightarrow> 'f SecurityStateJournal \<Rightarrow> 'f SecurityStateJournal \<times> (SecurityStoreError + LocatedState option)" where
  "journal_newest T j = newest_loop T j (List.product [0, 1] [0..<SLOTS_PER_SECTOR T]) None"

definition abs_diff :: "u32 \<Rightarrow> u32 \<Rightarrow> u32" where
  "abs_diff a b = (if a \<le> b then b - a else a - b)"

definition geometry_invalid :: "'f JournalType \<Rightarrow> 'f SecurityStateJournal \<Rightarrow> bool" where
  "geometry_invalid T j \<longleftrightarrow>
     (let F = jt_flash T; SECTOR_SIZE = jt_sector_size T; s0 = sj_sectors j ! 0; s1 = sj_sectors j ! 1
      in s0 = s1 \<or> SECTOR_SIZE < SECURITY_JOURNAL_SLOT_SIZE \<or> \<not> SECURITY_JOURNAL_SLOT_SIZE dvd SECTOR_SIZE \<or>
         int SECTOR_SIZE > 4294967295 \<or> abs_diff s0 s1 < of_nat SECTOR_SIZE \<or>
         nf_READ_SIZE F = 0 \<or> nf_WRITE_SIZE F = 0 \<or> nf_ERASE_SIZE F = 0 \<or>
         \<not> nf_READ_SIZE F dvd SECURITY_JOURNAL_SLOT_SIZE \<or> \<not> nf_WRITE_SIZE F dvd SECURITY_JOURNAL_SLOT_SIZE \<or>
         \<not> nf_ERASE_SIZE F dvd SECTOR_SIZE \<or> \<not> nf_WRITE_SIZE F dvd RECORD_PREFIX_LEN \<or> \<not> nf_WRITE_SIZE F dvd RECORD_COMMIT_OFFSET \<or>
         \<not> nf_WRITE_SIZE F dvd length RECORD_COMMIT \<or> \<not> nf_WRITE_SIZE F dvd REPLAY_HEADER_LEN \<or>
         \<not> nf_WRITE_SIZE F dvd REPLAY_ENTRY_PREFIX_LEN \<or> \<not> nf_WRITE_SIZE F dvd REPLAY_ENTRY_COMMIT_OFFSET \<or>
         \<not> nf_WRITE_SIZE F dvd length REPLAY_ENTRY_COMMIT \<or> \<not> nf_ERASE_SIZE F dvd unat s0 \<or> \<not> nf_ERASE_SIZE F dvd unat s1 \<or>
         list_ex (\<lambda>sector. int (unat sector + SECTOR_SIZE) > 4294967295 \<or> unat sector + SECTOR_SIZE > nf_capacity F (sj_storage j)) [s0, s1])"

definition journal_current :: "'f JournalType \<Rightarrow> 'f SecurityStateJournal \<Rightarrow> 'f SecurityStateJournal \<times> (SecurityStoreError + LocatedState option)" where
  "journal_current T j =
     (if geometry_invalid T j then (j, Inl StoreHardware)
      else if sj_scanned j then (j, Inr (sj_cached j))
      else case journal_newest T j of
             (j, Inl e) \<Rightarrow> (j, Inl e)
           | (j, Inr newest) \<Rightarrow> (j\<lparr>sj_cached := newest, sj_scanned := True\<rparr>, Inr newest))"

text \<open>The entries of one slot: the loop stops at the first erased or undecodable entry and skips network-layer floors.\<close>

fun scan_entries :: "bool \<Rightarrow> u8 list \<Rightarrow> nat list \<Rightarrow> PersistentReplayCounter list \<Rightarrow> PersistentReplayCounter list \<times> (SecurityStoreError + unit)" where
  "scan_entries tc record [] cache = (cache, Inr ())"
| "scan_entries tc record (index # rest) cache =
     (let entry = replay_entry_at record index
      in if replay_entry_is_erased entry then (cache, Inr ())
         else case decode_replay_entry entry of
                None \<Rightarrow> (cache, Inr ())
              | Some (NwkFloor _) \<Rightarrow> scan_entries tc record rest cache
              | Some (ApsFloor r) \<Rightarrow>
                  (case merge_replay tc cache (ApsFloor r) of
                     (cache, Inl e) \<Rightarrow> (cache, Inl e)
                   | (cache, Inr _) \<Rightarrow> scan_entries tc record rest cache))"

fun scan_replay_loop :: "'f JournalType \<Rightarrow> 'f SecurityStateJournal \<Rightarrow> nat \<Rightarrow> u32 \<Rightarrow> nat list \<Rightarrow> 'f SecurityStateJournal \<times> (SecurityStoreError + unit)" where
  "scan_replay_loop T j sector generation [] = (j, Inr ())"
| "scan_replay_loop T j sector generation (slot # rest) =
     (case read_slot T j sector slot of
        (j, Inl e) \<Rightarrow> (j, Inl e)
      | (j, Inr record) \<Rightarrow>
          if replay_header_generation record \<noteq> Some generation then scan_replay_loop T j sector generation rest
          else case scan_entries (jt_trust_center T) record [0..<REPLAY_ENTRIES_PER_SLOT] (sj_cached_replay j) of
                 (cache, Inl e) \<Rightarrow> (j\<lparr>sj_cached_replay := cache\<rparr>, Inl e)
               | (cache, Inr _) \<Rightarrow> scan_replay_loop T (j\<lparr>sj_cached_replay := cache\<rparr>) sector generation rest)"

definition scan_replay_into_cache :: "'f JournalType \<Rightarrow> 'f SecurityStateJournal \<Rightarrow> nat \<Rightarrow> u32 \<Rightarrow>
    'f SecurityStateJournal \<times> (SecurityStoreError + unit)" where
  "scan_replay_into_cache T j sector generation =
     scan_replay_loop T (j\<lparr>sj_cached_replay := []\<rparr>) sector generation [0..<SLOTS_PER_SECTOR T]"

definition ensure_replay_cache :: "'f JournalType \<Rightarrow> 'f SecurityStateJournal \<Rightarrow> LocatedState \<Rightarrow> 'f SecurityStateJournal \<times> (SecurityStoreError + unit)" where
  "ensure_replay_cache T j located =
     (if sj_replay_generation j \<noteq> Some (lc_generation located)
      then case scan_replay_into_cache T (j\<lparr>sj_replay_generation := None\<rparr>) (lc_sector located) (lc_generation located) of
             (j, Inl e) \<Rightarrow> (j\<lparr>sj_cached_replay := []\<rparr>, Inl e)
           | (j, Inr _) \<Rightarrow> (j\<lparr>sj_replay_generation := Some (lc_generation located)\<rparr>, Inr ())
      else (j, Inr ()))"

definition journal_invalidate :: "'f SecurityStateJournal \<Rightarrow> 'f SecurityStateJournal" where
  "journal_invalidate j = j\<lparr>sj_cached := None, sj_cached_replay := [], sj_replay_generation := None, sj_scanned := False\<rparr>"

definition slot_is_erased :: "'f JournalType \<Rightarrow> 'f SecurityStateJournal \<Rightarrow> nat \<Rightarrow> nat \<Rightarrow> 'f SecurityStateJournal \<times> (SecurityStoreError + bool)" where
  "slot_is_erased T j sector slot =
     (case read_slot T j sector slot of
        (j, Inl e) \<Rightarrow> (j, Inl e)
      | (j, Inr record) \<Rightarrow> (j, Inr (list_all (\<lambda>byte. byte = 0xFF) record)))"

fun run_is_erased :: "'f JournalType \<Rightarrow> 'f SecurityStateJournal \<Rightarrow> nat \<Rightarrow> nat list \<Rightarrow> 'f SecurityStateJournal \<times> (SecurityStoreError + bool)" where
  "run_is_erased T j sector [] = (j, Inr True)"
| "run_is_erased T j sector (slot # rest) =
     (case slot_is_erased T j sector slot of
        (j, Inl e) \<Rightarrow> (j, Inl e)
      | (j, Inr erased) \<Rightarrow> if erased then run_is_erased T j sector rest else (j, Inr False))"

fun find_run_loop :: "'f JournalType \<Rightarrow> 'f SecurityStateJournal \<Rightarrow> nat \<Rightarrow> nat \<Rightarrow> nat list \<Rightarrow> 'f SecurityStateJournal \<times> (SecurityStoreError + nat option)" where
  "find_run_loop T j sector needed [] = (j, Inr None)"
| "find_run_loop T j sector needed (start # rest) =
     (case run_is_erased T j sector [start..<start + needed] of
        (j, Inl e) \<Rightarrow> (j, Inl e)
      | (j, Inr erased) \<Rightarrow> if erased then (j, Inr (Some start)) else find_run_loop T j sector needed rest)"

definition find_erased_run :: "'f JournalType \<Rightarrow> 'f SecurityStateJournal \<Rightarrow> nat \<Rightarrow> nat \<Rightarrow> 'f SecurityStateJournal \<times> (SecurityStoreError + nat option)" where
  "find_erased_run T j sector needed =
     (if needed = 0 \<or> needed > SLOTS_PER_SECTOR T then (j, Inr None)
      else find_run_loop T j sector needed [0..<Suc (SLOTS_PER_SECTOR T - needed)])"

section \<open>Writing the flash\<close>

definition replay_header :: "u32 \<Rightarrow> u8 list" where
  "replay_header generation =
     (let head = REPLAY_RECORD_MAGIC @ [REPLAY_RECORD_VERSION, of_nat REPLAY_ENTRY_LEN, of_nat REPLAY_ENTRIES_PER_SLOT, 0] @ u32_to_le generation
      in head @ u32_to_le (crc32 head))"

definition write_replay_header :: "'f JournalType \<Rightarrow> 'f SecurityStateJournal \<Rightarrow> nat \<Rightarrow> nat \<Rightarrow> u32 \<Rightarrow> 'f SecurityStateJournal \<times> (SecurityStoreError + unit)" where
  "write_replay_header T j sector slot generation =
     (case flash_write T j (slot_address j sector slot 0) (replay_header generation) of
        (j, Inl e) \<Rightarrow> (j, Inl e)
      | (j, Inr _) \<Rightarrow>
          (case read_slot T j sector slot of
             (j, Inl e) \<Rightarrow> (j, Inl e)
           | (j, Inr verify) \<Rightarrow>
               (j, if replay_header_generation verify = Some generation then Inr () else Inl StoreHardware)))"

definition write_replay_entry :: "'f JournalType \<Rightarrow> 'f SecurityStateJournal \<Rightarrow> nat \<Rightarrow> nat \<Rightarrow> nat \<Rightarrow> PersistentReplayCounter \<Rightarrow>
    'f SecurityStateJournal \<times> (SecurityStoreError + unit)" where
  "write_replay_entry T j sector slot index replay =
     (let entry = encode_replay_entry replay;
          address = slot_address j sector slot (REPLAY_HEADER_LEN + index * REPLAY_ENTRY_LEN)
      in case flash_write T j address (take REPLAY_ENTRY_PREFIX_LEN entry) of
           (j, Inl e) \<Rightarrow> (j, Inl e)
         | (j, Inr _) \<Rightarrow>
             (case flash_write T j (address + of_nat REPLAY_ENTRY_COMMIT_OFFSET) REPLAY_ENTRY_COMMIT of
                (j, Inl e) \<Rightarrow> (j, Inl e)
              | (j, Inr _) \<Rightarrow>
                  (case read_slot T j sector slot of
                     (j, Inl e) \<Rightarrow> (j, Inl e)
                   | (j, Inr verify) \<Rightarrow>
                       (j, case decode_replay_entry (replay_entry_at verify index) of
                             None \<Rightarrow> Inl StoreHardware
                           | Some stored \<Rightarrow> if replay_eq stored replay then Inr () else Inl StoreHardware))))"

definition replay_snapshot_slots :: "nat \<Rightarrow> nat" where
  "replay_snapshot_slots replay_count = (replay_count + REPLAY_ENTRIES_PER_SLOT - 1) div REPLAY_ENTRIES_PER_SLOT"

fun write_replay_snapshot_loop :: "'f JournalType \<Rightarrow> 'f SecurityStateJournal \<Rightarrow> nat \<Rightarrow> nat \<Rightarrow> u32 \<Rightarrow> nat list \<Rightarrow>
    'f SecurityStateJournal \<times> (SecurityStoreError + unit)" where
  "write_replay_snapshot_loop T j sector first_slot generation [] = (j, Inr ())"
| "write_replay_snapshot_loop T j sector first_slot generation (pos # rest) =
     (let slot = first_slot + pos div REPLAY_ENTRIES_PER_SLOT; index = pos mod REPLAY_ENTRIES_PER_SLOT
      in case (if index = 0 then write_replay_header T j sector slot generation else (j, Inr ())) of
           (j, Inl e) \<Rightarrow> (j, Inl e)
         | (j, Inr _) \<Rightarrow>
             (case write_replay_entry T j sector slot index (sj_cached_replay j ! pos) of
                (j, Inl e) \<Rightarrow> (j, Inl e)
              | (j, Inr _) \<Rightarrow> write_replay_snapshot_loop T j sector first_slot generation rest))"

definition write_replay_snapshot :: "'f JournalType \<Rightarrow> 'f SecurityStateJournal \<Rightarrow> nat \<Rightarrow> nat \<Rightarrow> u32 \<Rightarrow>
    'f SecurityStateJournal \<times> (SecurityStoreError + unit)" where
  "write_replay_snapshot T j sector first_slot generation =
     write_replay_snapshot_loop T j sector first_slot generation [0..<length (sj_cached_replay j)]"

definition record_prefix :: "u32 \<Rightarrow> PersistentSecurityState \<Rightarrow> u16 \<Rightarrow> u8 list" where
  "record_prefix generation state tag =
     (let head = RECORD_MAGIC @ [RECORD_VERSION, of_nat ENCODED_SECURITY_STATE_LEN] @ u16_to_le tag @ u32_to_le generation @ encode state @ [0xFF]
      in head @ u32_to_le (crc32 head))"

definition write_record :: "'f JournalType \<Rightarrow> 'f SecurityStateJournal \<Rightarrow> nat \<Rightarrow> nat \<Rightarrow> u32 \<Rightarrow> PersistentSecurityState \<Rightarrow> u16 \<Rightarrow>
    'f SecurityStateJournal \<times> (SecurityStoreError + unit)" where
  "write_record T j sector slot generation state tag =
     (case validate state of
        Inl e \<Rightarrow> (j, Inl e)
      | Inr _ \<Rightarrow>
          (let address = slot_address j sector slot 0
           in case flash_write T j address (record_prefix generation state tag) of
                (j, Inl e) \<Rightarrow> (j, Inl e)
              | (j, Inr _) \<Rightarrow>
                  (case flash_write T j (address + of_nat RECORD_COMMIT_OFFSET) RECORD_COMMIT of
                     (j, Inl e) \<Rightarrow> (j, Inl e)
                   | (j, Inr _) \<Rightarrow>
                       (case read_slot T j sector slot of
                          (j, Inl e) \<Rightarrow> (j, Inl e)
                        | (j, Inr verify) \<Rightarrow>
                            (j, case decode_record verify of
                                  None \<Rightarrow> Inl StoreHardware
                                | Some (stored_generation, stored_state) \<Rightarrow>
                                    if stored_generation = generation \<and> state_eq stored_state state \<and> record_tag verify = tag
                                    then Inr () else Inl StoreHardware)))))"

definition activate_generation :: "'f JournalType \<Rightarrow> 'f SecurityStateJournal \<Rightarrow> nat \<Rightarrow> nat \<Rightarrow> u32 \<Rightarrow> PersistentSecurityState \<Rightarrow> u16 \<Rightarrow>
    'f SecurityStateJournal \<times> (SecurityStoreError + unit)" where
  "activate_generation T j sector state_slot generation state tag =
     (case write_replay_snapshot T j sector (state_slot + 1) generation of
        (j, Inl e) \<Rightarrow> (j, Inl e)
      | (j, Inr _) \<Rightarrow> write_record T j sector state_slot generation state tag)"

text \<open>Where a generation goes: target sector, first slot, and whether the sector is erased first.\<close>

definition place_generation :: "'f JournalType \<Rightarrow> 'f SecurityStateJournal \<Rightarrow> nat option \<Rightarrow> bool \<Rightarrow> nat \<Rightarrow>
    'f SecurityStateJournal \<times> (SecurityStoreError + nat \<times> nat \<times> bool)" where
  "place_generation T j current_sector rollover needed =
     (case current_sector of
        Some sector \<Rightarrow>
          (case (if rollover then (j, Inr None) else find_erased_run T j sector needed) of
             (j, Inl e) \<Rightarrow> (j, Inl e)
           | (j, Inr (Some slot)) \<Rightarrow> (j, Inr (sector, slot, False))
           | (j, Inr None) \<Rightarrow> (j, Inr (1 - sector, 0, True)))
      | None \<Rightarrow> (j, Inr (0, 0, True)))"

definition write_generation :: "'f JournalType \<Rightarrow> 'f SecurityStateJournal \<Rightarrow> nat option \<Rightarrow> bool \<Rightarrow> u32 \<Rightarrow> PersistentSecurityState \<Rightarrow> u16 \<Rightarrow>
    'f SecurityStateJournal \<times> (SecurityStoreError + nat)" where
  "write_generation T j current_sector rollover generation state tag =
     (let needed = 1 + replay_snapshot_slots (length (sj_cached_replay j))
      in if needed > SLOTS_PER_SECTOR T then (j, Inl StoreFull)
         else case place_generation T j current_sector rollover needed of
                (j, Inl e) \<Rightarrow> (j, Inl e)
              | (j, Inr (target, state_slot, erase)) \<Rightarrow>
                  (let sector = sj_sectors j ! target
                   in case (if erase then flash_erase T j sector (sector + of_nat (jt_sector_size T)) else (j, Inr ())) of
                        (j, Inl e) \<Rightarrow> (j, Inl e)
                      | (j, Inr _) \<Rightarrow>
                          (case activate_generation T j target state_slot generation state tag of
                             (j, Inl e) \<Rightarrow> (j, Inl e)
                           | (j, Inr _) \<Rightarrow> (j, Inr target))))"

definition tag_for_commit :: "'f SecurityStateJournal \<Rightarrow> u16" where
  "tag_for_commit j =
     (case sj_product_tag j of
        Some tag \<Rightarrow> tag
      | None \<Rightarrow> (case sj_cached j of Some located \<Rightarrow> lc_tag located | None \<Rightarrow> SECURITY_JOURNAL_UNTAGGED))"

definition commit_generation :: "'f JournalType \<Rightarrow> 'f SecurityStateJournal \<Rightarrow> nat option \<Rightarrow> bool \<Rightarrow> u32 \<Rightarrow> PersistentSecurityState \<Rightarrow>
    'f SecurityStateJournal \<times> (SecurityStoreError + unit)" where
  "commit_generation T j current_sector rollover generation state =
     (let tag = tag_for_commit j
      in case write_generation T j current_sector rollover generation state tag of
           (j, Inr target) \<Rightarrow>
             (j\<lparr>sj_cached := Some \<lparr>lc_generation = generation, lc_sector = target, lc_state = state, lc_tag = tag\<rparr>,
                sj_replay_generation := Some generation\<rparr>, Inr ())
         | (j, Inl e) \<Rightarrow> (journal_invalidate j, Inl e))"

fun append_index :: "u8 list \<Rightarrow> nat list \<Rightarrow> nat option" where
  "append_index record [] = None"
| "append_index record (index # rest) =
     (let entry = replay_entry_at record index
      in if replay_entry_is_erased entry then Some index
         else if decode_replay_entry entry = None then None else append_index record rest)"

fun find_append_loop :: "'f JournalType \<Rightarrow> 'f SecurityStateJournal \<Rightarrow> nat \<Rightarrow> u32 \<Rightarrow> nat list \<Rightarrow>
    'f SecurityStateJournal \<times> (SecurityStoreError + (nat \<times> nat \<times> bool) option)" where
  "find_append_loop T j sector generation [] = (j, Inr None)"
| "find_append_loop T j sector generation (slot # rest) =
     (case read_slot T j sector slot of
        (j, Inl e) \<Rightarrow> (j, Inl e)
      | (j, Inr record) \<Rightarrow>
          if list_all (\<lambda>byte. byte = 0xFF) record then (j, Inr (Some (slot, 0, True)))
          else if replay_header_generation record \<noteq> Some generation then find_append_loop T j sector generation rest
          else case append_index record [0..<REPLAY_ENTRIES_PER_SLOT] of
                 Some index \<Rightarrow> (j, Inr (Some (slot, index, False)))
               | None \<Rightarrow> find_append_loop T j sector generation rest)"

definition find_replay_append_position :: "'f JournalType \<Rightarrow> 'f SecurityStateJournal \<Rightarrow> nat \<Rightarrow> u32 \<Rightarrow>
    'f SecurityStateJournal \<times> (SecurityStoreError + (nat \<times> nat \<times> bool) option)" where
  "find_replay_append_position T j sector generation = find_append_loop T j sector generation [0..<SLOTS_PER_SECTOR T]"

section \<open>The operations of the store\<close>

definition u32_checked_inc :: "u32 \<Rightarrow> u32 option" where
  "u32_checked_inc g = (if g = - 1 then None else Some (g + 1))"

definition append_in_place :: "'f JournalType \<Rightarrow> 'f SecurityStateJournal \<Rightarrow> LocatedState \<Rightarrow> PersistentReplayCounter \<Rightarrow> nat \<times> nat \<times> bool \<Rightarrow>
    'f SecurityStateJournal \<times> (SecurityStoreError + unit)" where
  "append_in_place T j located replay pos =
     (case pos of
        (slot, index, initialize) \<Rightarrow>
          (case (if initialize then write_replay_header T j (lc_sector located) slot (lc_generation located) else (j, Inr ())) of
             (j, Inl e) \<Rightarrow> (j, Inl e)
           | (j, Inr _) \<Rightarrow> write_replay_entry T j (lc_sector located) slot index replay))"

definition append_durable_replay_counter :: "'f JournalType \<Rightarrow> 'f SecurityStateJournal \<Rightarrow> PersistentReplayCounter \<Rightarrow>
    'f SecurityStateJournal \<times> (SecurityStoreError + unit)" where
  "append_durable_replay_counter T j replay =
     (case journal_current T j of
        (j, Inl e) \<Rightarrow> (j, Inl e)
      | (j, Inr None) \<Rightarrow> (j, Inl StoreNotFound)
      | (j, Inr (Some located)) \<Rightarrow>
          if \<not> ss_commissioned (lc_state located) then (j, Inl StoreCorrupt)
          else case ensure_replay_cache T j located of
            (j, Inl e) \<Rightarrow> (j, Inl e)
          | (j, Inr _) \<Rightarrow>
              if (case find (\<lambda>stored. same_domain stored replay) (sj_cached_replay j) of
                    None \<Rightarrow> False | Some stored \<Rightarrow> floor_counter stored \<ge> floor_counter replay) then (j, Inr ())
              else case find_replay_append_position T j (lc_sector located) (lc_generation located) of
                (j, Inl e) \<Rightarrow> (j, Inl e)
              | (j, Inr (Some pos)) \<Rightarrow>
                  (case append_in_place T j located replay pos of
                     (j, Inr _) \<Rightarrow>
                       (case merge_replay (jt_trust_center T) (sj_cached_replay j) replay of
                          (cache, r) \<Rightarrow> (j\<lparr>sj_cached_replay := cache\<rparr>, r))
                   | (j, Inl e) \<Rightarrow> (j\<lparr>sj_cached_replay := [], sj_replay_generation := None\<rparr>, Inl e))
              | (j, Inr None) \<Rightarrow>
                  (case u32_checked_inc (lc_generation located) of
                     None \<Rightarrow> (j, Inl GenerationExhausted)
                   | Some generation \<Rightarrow>
                       (case merge_replay (jt_trust_center T) (sj_cached_replay j) replay of
                          (cache, Inl e) \<Rightarrow> (j\<lparr>sj_cached_replay := cache\<rparr>, Inl e)
                        | (cache, Inr _) \<Rightarrow>
                            commit_generation T (j\<lparr>sj_cached_replay := cache\<rparr>) (Some (lc_sector located)) True generation (lc_state located))))"

definition journal_load :: "'f JournalType \<Rightarrow> 'f SecurityStateJournal \<Rightarrow>
    'f SecurityStateJournal \<times> (SecurityStoreError + PersistentSecurityState option)" where
  "journal_load T j =
     (case journal_current T j of
        (j, Inl e) \<Rightarrow> (j, Inl e) | (j, Inr located) \<Rightarrow> (j, Inr (map_option lc_state located)))"

definition stage_replay :: "'f JournalType \<Rightarrow> 'f SecurityStateJournal \<Rightarrow> LocatedState option \<Rightarrow> PersistentSecurityState \<Rightarrow>
    'f SecurityStateJournal \<times> (SecurityStoreError + unit)" where
  "stage_replay T j current state =
     (if (case current of None \<Rightarrow> False | Some located \<Rightarrow> preserves_replay (lc_state located) state)
      then ensure_replay_cache T j (the current)
      else (j\<lparr>sj_cached_replay := [], sj_replay_generation := None\<rparr>, Inr ()))"

definition next_generation :: "LocatedState option \<Rightarrow> u32 option" where
  "next_generation current = (case current of Some located \<Rightarrow> u32_checked_inc (lc_generation located) | None \<Rightarrow> Some 0)"

definition journal_store :: "'f JournalType \<Rightarrow> 'f SecurityStateJournal \<Rightarrow> PersistentSecurityState \<Rightarrow>
    'f SecurityStateJournal \<times> (SecurityStoreError + unit)" where
  "journal_store T j state =
     (case journal_current T j of
        (j, Inl e) \<Rightarrow> (j, Inl e)
      | (j, Inr current) \<Rightarrow>
          (case next_generation current of
             None \<Rightarrow> (j, Inl GenerationExhausted)
           | Some generation \<Rightarrow>
               (case stage_replay T j current state of
                  (j, Inl e) \<Rightarrow> (j, Inl e)
                | (j, Inr _) \<Rightarrow> commit_generation T j (map_option lc_sector current) False generation state)))"

text \<open>The visitor sees the floors in the order of the cache: they are the result.\<close>

definition journal_visit_replay_counters :: "'f JournalType \<Rightarrow> 'f SecurityStateJournal \<Rightarrow>
    'f SecurityStateJournal \<times> (SecurityStoreError + PersistentReplayCounter list)" where
  "journal_visit_replay_counters T j =
     (case journal_current T j of
        (j, Inl e) \<Rightarrow> (j, Inl e)
      | (j, Inr None) \<Rightarrow> (j, Inr [])
      | (j, Inr (Some located)) \<Rightarrow>
          (case ensure_replay_cache T j located of (j, Inl e) \<Rightarrow> (j, Inl e) | (j, Inr _) \<Rightarrow> (j, Inr (sj_cached_replay j))))"

definition journal_commit_replay_counter :: "'f JournalType \<Rightarrow> 'f SecurityStateJournal \<Rightarrow> PersistentReplayCounter \<Rightarrow>
    'f SecurityStateJournal \<times> (SecurityStoreError + unit)" where
  "journal_commit_replay_counter T j replay =
     (case replay of NwkFloor _ \<Rightarrow> (j, Inr ()) | ApsFloor _ \<Rightarrow> append_durable_replay_counter T j replay)"

definition journal_retain_replay_counters :: "'f JournalType \<Rightarrow> 'f SecurityStateJournal \<Rightarrow> (PersistentReplayCounter \<Rightarrow> bool) \<Rightarrow>
    'f SecurityStateJournal \<times> (SecurityStoreError + nat)" where
  "journal_retain_replay_counters T j retain =
     (case journal_current T j of
        (j, Inl e) \<Rightarrow> (j, Inl e)
      | (j, Inr None) \<Rightarrow> (j, Inr 0)
      | (j, Inr (Some located)) \<Rightarrow>
          (case ensure_replay_cache T j located of
             (j, Inl e) \<Rightarrow> (j, Inl e)
           | (j, Inr _) \<Rightarrow>
               (let kept = filter retain (sj_cached_replay j); removed = length (sj_cached_replay j) - length kept; j = j\<lparr>sj_cached_replay := kept\<rparr>
                in if removed = 0 then (j, Inr 0)
                   else case u32_checked_inc (lc_generation located) of
                          None \<Rightarrow> (journal_invalidate j, Inl GenerationExhausted)
                        | Some generation \<Rightarrow>
                            (case commit_generation T j (Some (lc_sector located)) False generation (lc_state located) of
                               (j, Inl e) \<Rightarrow> (j, Inl e) | (j, Inr _) \<Rightarrow> (j, Inr removed)))))"

definition journal_tombstone_replay_counters :: "'f JournalType \<Rightarrow> 'f SecurityStateJournal \<Rightarrow> ReplayCounterTombstone \<Rightarrow>
    'f SecurityStateJournal \<times> (SecurityStoreError + unit)" where
  "journal_tombstone_replay_counters T j tombstone =
     (case journal_current T j of
        (j, Inl e) \<Rightarrow> (j, Inl e)
      | (j, Inr None) \<Rightarrow> (j, Inr ())
      | (j, Inr (Some located)) \<Rightarrow>
          (case ensure_replay_cache T j located of
             (j, Inl e) \<Rightarrow> (j, Inl e)
           | (j, Inr _) \<Rightarrow>
               (let kept = filter (\<lambda>replay. \<not> matches_tombstone replay tombstone) (sj_cached_replay j);
                    same = (length kept = length (sj_cached_replay j)); j = j\<lparr>sj_cached_replay := kept\<rparr>
                in if same then (j, Inr ())
                   else case u32_checked_inc (lc_generation located) of
                          None \<Rightarrow> (journal_invalidate j, Inl GenerationExhausted)
                        | Some generation \<Rightarrow> commit_generation T j (Some (lc_sector located)) False generation (lc_state located))))"

definition set_product_tag :: "'f SecurityStateJournal \<Rightarrow> u16 \<Rightarrow> 'f SecurityStateJournal" where
  "set_product_tag j tag = j\<lparr>sj_product_tag := Some tag\<rparr>"

definition journal_product_tag :: "'f JournalType \<Rightarrow> 'f SecurityStateJournal \<Rightarrow> 'f SecurityStateJournal \<times> (SecurityStoreError + u16 option)" where
  "journal_product_tag T j =
     (case journal_current T j of (j, Inl e) \<Rightarrow> (j, Inl e) | (j, Inr located) \<Rightarrow> (j, Inr (map_option lc_tag located)))"

definition select_role_tag :: "'f JournalType \<Rightarrow> 'f SecurityStateJournal \<Rightarrow> u16 \<Rightarrow> 'f SecurityStateJournal \<times> (SecurityStoreError + bool)" where
  "select_role_tag T j tag =
     (case journal_current T j of
        (j, Inl e) \<Rightarrow> (j, Inl e)
      | (j, Inr None) \<Rightarrow> (set_product_tag j tag, Inr False)
      | (j, Inr (Some located)) \<Rightarrow>
          (let j = set_product_tag j tag
           in if lc_tag located = tag then (j, Inr False)
              else let cleared = PersistentSecurityState_empty\<lparr>ss_global_counter_limit := ss_global_counter_limit (lc_state located),
                                   ss_tclk_counter_limit := ss_tclk_counter_limit (lc_state located)\<rparr>
                   in case journal_store T j cleared of (j, Inl e) \<Rightarrow> (j, Inl e) | (j, Inr _) \<Rightarrow> (j, Inr True)))"

end
