(* ===== verification/Journal_Flash.thy ===== *)
theory Journal_Flash
  imports Security_Journal
begin

text \<open>
  The flash under the journal of the security state: the contract of its driver as a locale, the slots of the two sectors,
  and what each write of the journal leaves in them, whether it succeeds, fails or loses power.
\<close>

section \<open>The contract of the flash\<close>

text \<open>
  \<^verbatim>\<open>embedded_storage::nor_flash\<close>: a read returns the contents and changes nothing; a write changes only the bytes it addresses, and
  when it succeeds on erased bytes they hold the data; an erase changes only its range, and sets it to ones when it
  succeeds.  What a failed or interrupted write or erase leaves in its range is undefined.
\<close>

locale nor_flash =
  fixes F :: "'f NorFlash" and mem :: "'f \<Rightarrow> nat \<Rightarrow> u8"
  assumes read_ok: "nf_read F f a n = (f', Some bs) \<Longrightarrow> bs = map (mem f) [unat a..<unat a + n]"
    and read_frame: "nf_read F f a n = (f', x) \<Longrightarrow> mem f' = mem f \<and> nf_capacity F f' = nf_capacity F f"
    and write_capacity: "nf_write F f a d = (f', ok) \<Longrightarrow> nf_capacity F f' = nf_capacity F f"
    and write_frame: "nf_write F f a d = (f', ok) \<Longrightarrow> i < unat a \<or> unat a + length d \<le> i \<Longrightarrow> mem f' i = mem f i"
    and write_ok: "nf_write F f a d = (f', True) \<Longrightarrow> \<forall>i<length d. mem f (unat a + i) = 0xFF \<Longrightarrow> i < length d \<Longrightarrow> mem f' (unat a + i) = d ! i"
    and erase_capacity: "nf_erase F f a b = (f', ok) \<Longrightarrow> nf_capacity F f' = nf_capacity F f"
    and erase_frame: "nf_erase F f a b = (f', ok) \<Longrightarrow> i < unat a \<or> unat b \<le> i \<Longrightarrow> mem f' i = mem f i"
    and erase_ok: "nf_erase F f a b = (f', True) \<Longrightarrow> unat a \<le> i \<Longrightarrow> i < unat b \<Longrightarrow> mem f' i = 0xFF"

text \<open>The bytes of a slot at an address.\<close>

definition bytes_at :: "(nat \<Rightarrow> u8) \<Rightarrow> nat \<Rightarrow> u8 list" where
  "bytes_at m a = map m [a..<a + SECURITY_JOURNAL_SLOT_SIZE]"

text \<open>
  The undefined contents of an interrupted erase are the one thing that could look like a record nobody wrote: the check
  of the record has to reject the slots that such an erase changed.
\<close>

locale journal_flash = nor_flash "jt_flash T" mem
  for T :: "'f JournalType" and mem :: "'f \<Rightarrow> nat \<Rightarrow> u8" +
  assumes torn_erase_detected: "nf_erase (jt_flash T) f a b = (f', False) \<Longrightarrow> unat a \<le> i \<Longrightarrow> i + SECURITY_JOURNAL_SLOT_SIZE \<le> unat b \<Longrightarrow>
      bytes_at (mem f') i \<noteq> bytes_at (mem f) i \<Longrightarrow> decode_record (bytes_at (mem f') i) = None"

section \<open>A flash in memory\<close>

text \<open>
  The flash of the journal's tests (\<^verbatim>\<open>MockFlash\<close>), with the sector size as a parameter: an array of bytes, programming that can
  only clear bits, and a number of programs after which every program fails.
\<close>

record MockFlash =
  mf_data :: "u8 list"
  mf_programs_before_failure :: "nat option"

definition mock_read :: "MockFlash \<Rightarrow> u32 \<Rightarrow> nat \<Rightarrow> MockFlash \<times> u8 list option" where
  "mock_read f address len =
     (f, if unat address < length (mf_data f) \<and> unat address + len \<le> length (mf_data f) then Some (span (mf_data f) (unat address) len) else None)"

fun program_bytes :: "u8 list \<Rightarrow> u8 list \<Rightarrow> u8 list \<times> bool" where
  "program_bytes old [] = (old, True)"
| "program_bytes [] (n # ns) = ([], True)"
| "program_bytes (b # bs) (n # ns) =
     (if b AND n \<noteq> n then (b # bs, False) else let (rest, ok) = program_bytes bs ns in ((b AND n) # rest, ok))"

definition mock_program :: "MockFlash \<Rightarrow> u32 \<Rightarrow> u8 list \<Rightarrow> MockFlash \<times> bool" where
  "mock_program f address data =
     (let start = unat address
      in if start < length (mf_data f) \<and> start + length data \<le> length (mf_data f)
         then let (rest, ok) = program_bytes (drop start (mf_data f)) data
              in (f\<lparr>mf_data := take start (mf_data f) @ rest\<rparr>, ok)
         else (f, False))"

definition mock_write :: "MockFlash \<Rightarrow> u32 \<Rightarrow> u8 list \<Rightarrow> MockFlash \<times> bool" where
  "mock_write f address data =
     (case mf_programs_before_failure f of
        Some 0 \<Rightarrow> (f, False)
      | Some (Suc remaining) \<Rightarrow> mock_program (f\<lparr>mf_programs_before_failure := Some remaining\<rparr>) address data
      | None \<Rightarrow> mock_program f address data)"

definition mock_erase :: "nat \<Rightarrow> MockFlash \<Rightarrow> u32 \<Rightarrow> u32 \<Rightarrow> MockFlash \<times> bool" where
  "mock_erase sector f from_addr to_addr =
     (let start = unat from_addr; end_addr = unat to_addr
      in if start < length (mf_data f) \<and> sector dvd start \<and> sector dvd end_addr \<and> start < end_addr \<and> end_addr \<le> length (mf_data f)
         then (f\<lparr>mf_data := take start (mf_data f) @ replicate (end_addr - start) 0xFF @ drop end_addr (mf_data f)\<rparr>, True)
         else (f, False))"

definition mock_flash :: "nat \<Rightarrow> MockFlash NorFlash" where
  "mock_flash sector = \<lparr>nf_read = mock_read, nf_write = mock_write, nf_erase = mock_erase sector, nf_capacity = (\<lambda>f. length (mf_data f)),
     nf_READ_SIZE = 1, nf_WRITE_SIZE = 1, nf_ERASE_SIZE = sector\<rparr>"

definition mock_type :: "nat \<Rightarrow> MockFlash JournalType" where
  "mock_type sector = \<lparr>jt_flash = mock_flash sector, jt_sector_size = sector, jt_trust_center = True\<rparr>"

definition mock_mem :: "MockFlash \<Rightarrow> nat \<Rightarrow> u8" where
  "mock_mem f i = (if i < length (mf_data f) then mf_data f ! i else 0xFF)"

lemma ff_and: "(0xFF :: 8 word) AND n = n"
proof -
  have "(0xFF :: 8 word) = - 1" by simp
  then show ?thesis by (simp only: and.left_neutral)
qed

lemma program_bytes_length: "program_bytes bs ns = (bs', ok) \<Longrightarrow> length bs' = length bs"
  by (induction bs ns arbitrary: bs' rule: program_bytes.induct) (auto simp: Let_def split: if_splits prod.splits)

lemma program_bytes_frame: "program_bytes bs ns = (bs', ok) \<Longrightarrow> length ns \<le> i \<Longrightarrow> bs' ! i = bs ! i"
proof (induction bs ns arbitrary: bs' i rule: program_bytes.induct)
  case (3 b bs n ns)
  then show ?case by (cases i) (auto simp: Let_def split: if_splits prod.splits)
qed auto

lemma program_bytes_ok:
  "program_bytes bs ns = (bs', True) \<Longrightarrow> length ns \<le> length bs \<Longrightarrow> \<forall>i<length ns. bs ! i = 0xFF \<Longrightarrow> i < length ns \<Longrightarrow> bs' ! i = ns ! i"
proof (induction bs ns arbitrary: bs' i rule: program_bytes.induct)
  case (3 b bs n ns)
  have b: "b = 0xFF" using 3(4) by (metis length_greater_0_conv list.discI nth_Cons_0)
  have r: "\<forall>i<length ns. bs ! i = 0xFF" using 3(4) by auto
  obtain rest where p: "program_bytes bs ns = (rest, True)" and bs': "bs' = (b AND n) # rest"
    using 3(2) by (auto simp: Let_def split: if_splits prod.splits)
  note m = ff_and[of n]
  show ?case using 3(1)[OF _ p] 3(2,3,5) p r bs' b m by (cases i) (auto split: if_splits)
qed auto

lemma program_bytes_erased: "length ns \<le> length bs \<Longrightarrow> \<forall>i<length ns. bs ! i = 0xFF \<Longrightarrow> snd (program_bytes bs ns)"
proof (induction bs ns rule: program_bytes.induct)
  case (3 b bs n ns)
  have b: "b = 0xFF" using 3(3) by (metis length_greater_0_conv list.discI nth_Cons_0)
  have r: "\<forall>i<length ns. bs ! i = 0xFF" using 3(3) by auto
  note m = ff_and[of n]
  show ?case using 3(1) 3(2) r b m by (auto simp: Let_def split: prod.splits)
qed auto

lemma mock_program_spec:
  assumes "mock_program f a d = (f', ok)"
  shows "length (mf_data f') = length (mf_data f)" "mf_programs_before_failure f' = mf_programs_before_failure f"
    "i < unat a \<or> unat a + length d \<le> i \<Longrightarrow> mock_mem f' i = mock_mem f i"
    "ok \<Longrightarrow> \<forall>i<length d. mock_mem f (unat a + i) = 0xFF \<Longrightarrow> i < length d \<Longrightarrow> mock_mem f' (unat a + i) = d ! i"
    "unat a + length d \<le> length (mf_data f) \<Longrightarrow> d \<noteq> [] \<Longrightarrow> \<forall>i<length d. mock_mem f (unat a + i) = 0xFF \<Longrightarrow> ok"
proof -
  let ?in = "unat a < length (mf_data f) \<and> unat a + length d \<le> length (mf_data f)"
  obtain bs o' where p: "program_bytes (drop (unat a) (mf_data f)) d = (bs, o')" by fastforce
  have f': "?in \<Longrightarrow> f' = f\<lparr>mf_data := take (unat a) (mf_data f) @ bs\<rparr> \<and> ok = o'" "\<not> ?in \<Longrightarrow> f' = f \<and> \<not> ok"
    using assms p by (auto simp: mock_program_def Let_def)
  have l: "length bs = length (mf_data f) - unat a" using program_bytes_length[OF p] by simp
  show "length (mf_data f') = length (mf_data f)" "mf_programs_before_failure f' = mf_programs_before_failure f"
    using f' l by (cases ?in; simp)+
  show "mock_mem f' i = mock_mem f i" if "i < unat a \<or> unat a + length d \<le> i"
  proof (cases ?in)
    case True
    have "bs ! (i - unat a) = mf_data f ! i" if "unat a + length d \<le> i" "i < length (mf_data f)"
      using program_bytes_frame[OF p, of "i - unat a"] that by simp
    then show ?thesis using f'(1)[OF True] l that True by (auto simp: mock_mem_def nth_append)
  qed (use f'(2) in simp)
  show "mock_mem f' (unat a + i) = d ! i" if ok: "ok" and e: "\<forall>i<length d. mock_mem f (unat a + i) = 0xFF" and i: "i < length d"
  proof -
    have t: ?in using f'(2) ok by blast
    have "\<forall>i<length d. drop (unat a) (mf_data f) ! i = 0xFF" using e t by (auto simp: mock_mem_def split: if_splits)
    then have "bs ! i = d ! i" using program_bytes_ok[of "drop (unat a) (mf_data f)" d bs i] p f'(1)[OF t] ok i t by auto
    then show ?thesis using f'(1)[OF t] l i t by (simp add: mock_mem_def nth_append)
  qed
  show "ok" if "unat a + length d \<le> length (mf_data f)" "d \<noteq> []" and e: "\<forall>i<length d. mock_mem f (unat a + i) = 0xFF"
  proof -
    have "0 < length d" using that(2) by simp
    then have t: ?in using that(1) by linarith
    have "\<forall>i<length d. drop (unat a) (mf_data f) ! i = 0xFF" using e t by (auto simp: mock_mem_def split: if_splits)
    moreover have "length d \<le> length (drop (unat a) (mf_data f))" unfolding length_drop using t by linarith
    ultimately show ?thesis using program_bytes_erased[of d "drop (unat a) (mf_data f)"] p f'(1)[OF t] by simp
  qed
qed

lemma mock_write_spec:
  assumes "mock_write f a d = (f', ok)"
  shows "length (mf_data f') = length (mf_data f)" "i < unat a \<or> unat a + length d \<le> i \<Longrightarrow> mock_mem f' i = mock_mem f i"
    "ok \<Longrightarrow> \<forall>i<length d. mock_mem f (unat a + i) = 0xFF \<Longrightarrow> i < length d \<Longrightarrow> mock_mem f' (unat a + i) = d ! i"
proof -
  have m: "mock_mem (g\<lparr>mf_programs_before_failure := x\<rparr>) = mock_mem g" for g x by (rule ext) (simp add: mock_mem_def)
  consider "f' = f" "\<not> ok" | x where "mock_program (f\<lparr>mf_programs_before_failure := x\<rparr>) a d = (f', ok)"
  proof (cases "mf_programs_before_failure f")
    case None
    then have e: "f\<lparr>mf_programs_before_failure := None\<rparr> = f" by (cases f) simp
    have "mock_program (f\<lparr>mf_programs_before_failure := None\<rparr>) a d = (f', ok)" unfolding e using assms None by (simp add: mock_write_def)
    then show thesis by (rule that(2))
  next
    case (Some n)
    then show thesis using assms that by (cases n) (auto simp: mock_write_def)
  qed
  then have "length (mf_data f') = length (mf_data f) \<and> (\<forall>i. i < unat a \<or> unat a + length d \<le> i \<longrightarrow> mock_mem f' i = mock_mem f i) \<and>
    (ok \<longrightarrow> (\<forall>i<length d. mock_mem f (unat a + i) = 0xFF) \<longrightarrow> (\<forall>i<length d. mock_mem f' (unat a + i) = d ! i))"
  proof cases
    case 2
    note s = mock_program_spec[OF 2, unfolded m]
    show ?thesis using s(1,3,4) by simp
  qed simp
  then show "length (mf_data f') = length (mf_data f)" "i < unat a \<or> unat a + length d \<le> i \<Longrightarrow> mock_mem f' i = mock_mem f i"
    "ok \<Longrightarrow> \<forall>i<length d. mock_mem f (unat a + i) = 0xFF \<Longrightarrow> i < length d \<Longrightarrow> mock_mem f' (unat a + i) = d ! i" by blast+
qed

lemma mock_erase_spec:
  assumes "mock_erase sector f a b = (f', ok)"
  shows "length (mf_data f') = length (mf_data f)" "mf_programs_before_failure f' = mf_programs_before_failure f"
    "i < unat a \<or> unat b \<le> i \<Longrightarrow> mock_mem f' i = mock_mem f i"
    "ok \<Longrightarrow> unat a \<le> i \<Longrightarrow> i < unat b \<Longrightarrow> mock_mem f' i = 0xFF" "\<not> ok \<Longrightarrow> f' = f"
    "ok = (unat a < length (mf_data f) \<and> sector dvd unat a \<and> sector dvd unat b \<and> unat a < unat b \<and> unat b \<le> length (mf_data f))"
  using assms by (auto simp: mock_erase_def Let_def mock_mem_def nth_append split: if_splits)

interpretation mock: journal_flash "mock_type sector" mock_mem
proof unfold_locales
  fix f f' :: MockFlash and a b :: u32 and n i :: nat and bs d :: "u8 list" and x :: "u8 list option" and ok :: bool
  show "bs = map (mock_mem f) [unat a..<unat a + n]" if "nf_read (jt_flash (mock_type sector)) f a n = (f', Some bs)"
    using that by (auto simp: mock_type_def mock_flash_def mock_read_def mock_mem_def split: if_splits intro!: nth_equalityI)
  show "mock_mem f' = mock_mem f \<and> nf_capacity (jt_flash (mock_type sector)) f' = nf_capacity (jt_flash (mock_type sector)) f"
    if "nf_read (jt_flash (mock_type sector)) f a n = (f', x)"
    using that by (simp add: mock_type_def mock_flash_def mock_read_def)
  show "nf_capacity (jt_flash (mock_type sector)) f' = nf_capacity (jt_flash (mock_type sector)) f" if "nf_write (jt_flash (mock_type sector)) f a d = (f', ok)"
    using that mock_write_spec(1)[of f a d f' ok] by (simp add: mock_type_def mock_flash_def)
  show "mock_mem f' i = mock_mem f i" if "nf_write (jt_flash (mock_type sector)) f a d = (f', ok)" "i < unat a \<or> unat a + length d \<le> i"
    using that mock_write_spec(2)[of f a d f' ok i] by (simp add: mock_type_def mock_flash_def)
  show "mock_mem f' (unat a + i) = d ! i"
    if "nf_write (jt_flash (mock_type sector)) f a d = (f', True)" "\<forall>i<length d. mock_mem f (unat a + i) = 0xFF" "i < length d"
    using that mock_write_spec(3)[of f a d f' True i] by (simp add: mock_type_def mock_flash_def)
  show "nf_capacity (jt_flash (mock_type sector)) f' = nf_capacity (jt_flash (mock_type sector)) f" if "nf_erase (jt_flash (mock_type sector)) f a b = (f', ok)"
    using that mock_erase_spec(1)[of sector f a b f' ok] by (simp add: mock_type_def mock_flash_def)
  show "mock_mem f' i = mock_mem f i" if "nf_erase (jt_flash (mock_type sector)) f a b = (f', ok)" "i < unat a \<or> unat b \<le> i"
    using that mock_erase_spec(3)[of sector f a b f' ok i] by (simp add: mock_type_def mock_flash_def)
  show "mock_mem f' i = 0xFF" if "nf_erase (jt_flash (mock_type sector)) f a b = (f', True)" "unat a \<le> i" "i < unat b"
    using that mock_erase_spec(4)[of sector f a b f' True i] by (simp add: mock_type_def mock_flash_def)
  show "decode_record (bytes_at (mock_mem f') i) = None" if "nf_erase (jt_flash (mock_type sector)) f a b = (f', False)"
      "bytes_at (mock_mem f') i \<noteq> bytes_at (mock_mem f) i"
    using that mock_erase_spec(5)[of sector f a b f' False] by (simp add: mock_type_def mock_flash_def)
qed

section \<open>Slots\<close>

definition sector_base :: "'f SecurityStateJournal \<Rightarrow> nat \<Rightarrow> nat" where
  "sector_base j s = unat (sj_sectors j ! s)"

definition slot_bytes :: "('f \<Rightarrow> nat \<Rightarrow> u8) \<Rightarrow> 'f SecurityStateJournal \<Rightarrow> nat \<Rightarrow> nat \<Rightarrow> u8 list" where
  "slot_bytes mem j s k = bytes_at (mem (sj_storage j)) (sector_base j s + k * SECURITY_JOURNAL_SLOT_SIZE)"

definition located_in :: "nat \<Rightarrow> u8 list \<Rightarrow> LocatedState option" where
  "located_in sector record =
     map_option (\<lambda>(generation, state). \<lparr>lc_generation = generation, lc_sector = sector, lc_state = state, lc_tag = record_tag record\<rparr>)
       (decode_record record)"

definition slot_record :: "('f \<Rightarrow> nat \<Rightarrow> u8) \<Rightarrow> 'f SecurityStateJournal \<Rightarrow> nat \<times> nat \<Rightarrow> LocatedState option" where
  "slot_record mem j p = located_in (fst p) (slot_bytes mem j (fst p) (snd p))"

definition positions :: "'f JournalType \<Rightarrow> (nat \<times> nat) list" where
  "positions T = List.product [0, 1] [0..<SLOTS_PER_SECTOR T]"

abbreviation two_sectors :: "'f SecurityStateJournal \<Rightarrow> bool" where
  "two_sectors j \<equiv> length (sj_sectors j) = 2"

lemma slot_size [simp]: "SECURITY_JOURNAL_SLOT_SIZE = 128"
  by (simp add: SECURITY_JOURNAL_SLOT_SIZE_def)

lemma length_slot_bytes [simp]: "length (slot_bytes mem j s k) = 128"
  by (simp add: slot_bytes_def bytes_at_def)

lemma slot_bytes_nth: "i < 128 \<Longrightarrow> slot_bytes mem j s k ! i = mem (sj_storage j) (sector_base j s + k * 128 + i)"
  by (simp add: slot_bytes_def bytes_at_def)

text \<open>What a valid geometry says about addresses.\<close>

lemma geometry:
  assumes "\<not> geometry_invalid T j"
  shows "SLOTS_PER_SECTOR T * 128 = jt_sector_size T" "0 < SLOTS_PER_SECTOR T"
    "s < 2 \<Longrightarrow> sector_base j s + jt_sector_size T < 2 ^ 32"
    "sector_base j 0 + jt_sector_size T \<le> sector_base j 1 \<or> sector_base j 1 + jt_sector_size T \<le> sector_base j 0"
proof -
  let ?s0 = "sj_sectors j ! 0" and ?s1 = "sj_sectors j ! 1"
  have g: "\<not> jt_sector_size T < 128" "128 dvd jt_sector_size T" "\<not> 4294967295 < int (jt_sector_size T)"
    "\<not> abs_diff ?s0 ?s1 < of_nat (jt_sector_size T)"
    "\<not> 4294967295 < int (unat ?s0 + jt_sector_size T)" "\<not> 4294967295 < int (unat ?s1 + jt_sector_size T)"
    using assms unfolding geometry_invalid_def Let_def slot_size by simp_all
  show "SLOTS_PER_SECTOR T * 128 = jt_sector_size T" "0 < SLOTS_PER_SECTOR T" using g by (auto simp: SLOTS_PER_SECTOR_def)
  have n: "m < 4294967296" if "\<not> 4294967295 < int m" for m using that by linarith
  show "sector_base j s + jt_sector_size T < 2 ^ 32" if "s < 2"
    using that n[OF g(5)] n[OF g(6)] by (cases "s = 0") (auto simp: sector_base_def less_2_cases_iff)
  have sz: "unat (of_nat (jt_sector_size T) :: u32) = jt_sector_size T" using n[OF g(3)] by (simp add: unat_of_nat)
  have "jt_sector_size T \<le> unat (abs_diff ?s0 ?s1)" using g(4) sz by (simp add: word_le_nat_alt not_less)
  then show "sector_base j 0 + jt_sector_size T \<le> sector_base j 1 \<or> sector_base j 1 + jt_sector_size T \<le> sector_base j 0"
    by (auto simp: abs_diff_def sector_base_def unat_sub word_le_nat_alt split: if_splits)
qed

lemma slot_address_unat:
  assumes "\<not> geometry_invalid T j" "s < 2" "k < SLOTS_PER_SECTOR T" "off \<le> 128"
  shows "unat (slot_address j s k off) = sector_base j s + k * 128 + off" "sector_base j s + k * 128 + 128 \<le> sector_base j s + jt_sector_size T"
proof -
  note g = geometry[OF assms(1)]
  have "Suc k * 128 \<le> SLOTS_PER_SECTOR T * 128" using assms(3) by (intro mult_le_mono1) simp
  then have l: "k * 128 + 128 \<le> jt_sector_size T" using g(1) by simp
  then show "sector_base j s + k * 128 + 128 \<le> sector_base j s + jt_sector_size T" by simp
  have b: "sector_base j s + jt_sector_size T < 2 ^ 32" by (rule g(3)[OF assms(2)])
  have u: "unat (of_nat m :: u32) = m" if "m < 2 ^ 32" for m using that by (simp add: unat_of_nat)
  have o: "unat (of_nat (k * 128 + off) :: u32) = k * 128 + off" by (rule u) (use b l assms(4) in linarith)
  have "unat (sj_sectors j ! s + of_nat (k * 128 + off)) = unat (sj_sectors j ! s) + unat (of_nat (k * 128 + off) :: u32)"
    using b l assms(4) o by (subst unat_plus_simple[symmetric]) (simp add: no_olen_add_nat sector_base_def)
  then show "unat (slot_address j s k off) = sector_base j s + k * 128 + off" using o by (simp add: slot_address_def sector_base_def)
qed

lemma slots_disjoint:
  assumes "\<not> geometry_invalid T j" "s < 2" "k < SLOTS_PER_SECTOR T" "s' < 2" "k' < SLOTS_PER_SECTOR T" "(s', k') \<noteq> (s, k)" "i < 128"
  shows "sector_base j s' + k' * 128 + i < sector_base j s + k * 128 \<or> sector_base j s + k * 128 + 128 \<le> sector_base j s' + k' * 128 + i"
proof (cases "s' = s")
  case True
  then have "k' < k \<or> k < k'" using assms(6) by auto
  then have "Suc k' * 128 \<le> k * 128 \<or> Suc k * 128 \<le> k' * 128" by (meson Suc_leI mult_le_mono1)
  then show ?thesis using True assms(7) by auto
next
  case False
  note e = slot_address_unat(2)[OF assms(1,2,3), of 0] slot_address_unat(2)[OF assms(1,4,5), of 0]
  have "(s = 0 \<and> s' = 1) \<or> (s = 1 \<and> s' = 0)" using False assms(2,4) by auto
  then show ?thesis using geometry(4)[OF assms(1)] e assms(7) by auto
qed


lemma slot_address_plus: "slot_address j s k off + of_nat n = slot_address j s k (off + n)"
  by (simp add: slot_address_def algebra_simps)

section \<open>Steps that only read, and steps that touch some slots\<close>

definition reads_only :: "('f \<Rightarrow> nat \<Rightarrow> u8) \<Rightarrow> 'f JournalType \<Rightarrow> 'f SecurityStateJournal \<Rightarrow> 'f SecurityStateJournal \<Rightarrow> bool" where
  "reads_only mem T j j' \<longleftrightarrow> (\<exists>f. j' = j\<lparr>sj_storage := f\<rparr> \<and> mem f = mem (sj_storage j) \<and>
     nf_capacity (jt_flash T) f = nf_capacity (jt_flash T) (sj_storage j))"

definition only_slots :: "('f \<Rightarrow> nat \<Rightarrow> u8) \<Rightarrow> 'f JournalType \<Rightarrow> 'f SecurityStateJournal \<Rightarrow> 'f SecurityStateJournal \<Rightarrow> (nat \<times> nat) set \<Rightarrow> bool" where
  "only_slots mem T j j' S \<longleftrightarrow>
     (\<exists>f. j' = j\<lparr>sj_storage := f\<rparr> \<and> nf_capacity (jt_flash T) f = nf_capacity (jt_flash T) (sj_storage j)) \<and>
     (\<forall>s k. s < 2 \<longrightarrow> k < SLOTS_PER_SECTOR T \<longrightarrow> (s, k) \<notin> S \<longrightarrow> slot_bytes mem j' s k = slot_bytes mem j s k)"

lemma reads_only_refl [simp]: "reads_only mem T j j"
  unfolding reads_only_def by (rule exI[of _ "sj_storage j"]) simp

lemma reads_only_trans: "reads_only mem T j j' \<Longrightarrow> reads_only mem T j' j'' \<Longrightarrow> reads_only mem T j j''"
  unfolding reads_only_def by auto

lemma reads_only_slots:
  assumes "reads_only mem T j j'"
  shows "slot_bytes mem j' s k = slot_bytes mem j s k" "slot_record mem j' p = slot_record mem j p"
    "geometry_invalid T j' = geometry_invalid T j" "only_slots mem T j j' S"
proof -
  obtain f where f: "j' = j\<lparr>sj_storage := f\<rparr>" "mem f = mem (sj_storage j)" "nf_capacity (jt_flash T) f = nf_capacity (jt_flash T) (sj_storage j)"
    using assms unfolding reads_only_def by blast
  show b: "slot_bytes mem j' s k = slot_bytes mem j s k" for s k using f by (simp add: slot_bytes_def sector_base_def)
  then show "slot_record mem j' p = slot_record mem j p" by (simp add: slot_record_def)
  show "geometry_invalid T j' = geometry_invalid T j" using f by (simp add: geometry_invalid_def Let_def)
  show "only_slots mem T j j' S" using f b by (auto simp: only_slots_def)
qed

lemma reads_only_fields:
  assumes "reads_only mem T j j'"
  shows "sj_sectors j' = sj_sectors j" "sj_cached j' = sj_cached j" "sj_cached_replay j' = sj_cached_replay j"
    "sj_replay_generation j' = sj_replay_generation j" "sj_scanned j' = sj_scanned j" "sj_product_tag j' = sj_product_tag j"
  using assms unfolding reads_only_def by auto

lemma only_slots_fields:
  assumes "only_slots mem T j j' S"
  shows "sj_sectors j' = sj_sectors j" "sj_cached j' = sj_cached j" "sj_cached_replay j' = sj_cached_replay j"
    "sj_replay_generation j' = sj_replay_generation j" "sj_scanned j' = sj_scanned j" "sj_product_tag j' = sj_product_tag j"
    "geometry_invalid T j' = geometry_invalid T j" "sector_base j' s = sector_base j s" "slot_address j' s k off = slot_address j s k off"
  using assms unfolding only_slots_def by (auto simp: geometry_invalid_def sector_base_def slot_address_def)

lemma only_slots_bytes:
  "only_slots mem T j j' S \<Longrightarrow> s < 2 \<Longrightarrow> k < SLOTS_PER_SECTOR T \<Longrightarrow> (s, k) \<notin> S \<Longrightarrow> slot_bytes mem j' s k = slot_bytes mem j s k"
  unfolding only_slots_def by blast

lemma only_slots_trans:
  assumes "only_slots mem T j j' S" "only_slots mem T j' j'' S'"
  shows "only_slots mem T j j'' (S \<union> S')"
  using assms unfolding only_slots_def by auto

lemma only_slots_mono: "only_slots mem T j j' S \<Longrightarrow> S \<subseteq> S' \<Longrightarrow> only_slots mem T j j' S'"
  unfolding only_slots_def by blast

lemma only_slots_step:
  assumes "only_slots mem T j j' S" "only_slots mem T j' j'' S"
  shows "only_slots mem T j j'' S"
  using only_slots_trans[OF assms] by simp

lemma no_commit_no_record:
  assumes "r ! 124 \<noteq> 0x43" "length r = 128"
  shows "decode_record r = None"
proof -
  have "span r 124 4 ! 0 = r ! 124" using assms(2) by simp
  moreover have "RECORD_COMMIT ! 0 = 0x43" by (simp add: RECORD_COMMIT_def)
  ultimately have "span r 124 4 \<noteq> RECORD_COMMIT" using assms(1) by metis
  then show ?thesis by (simp add: decode_record_def RECORD_COMMIT_OFFSET_def)
qed

lemma erased_no_record: "decode_record (replicate 128 0xFF) = None"
  by (rule no_commit_no_record) simp_all

lemma replay_no_record: "take 4 r = REPLAY_RECORD_MAGIC \<Longrightarrow> decode_record r = None"
  by (simp add: decode_record_def REPLAY_RECORD_MAGIC_def RECORD_MAGIC_def)

lemma replay_generation_magic: "replay_header_generation r = Some g \<Longrightarrow> take 4 r = REPLAY_RECORD_MAGIC"
  by (simp add: replay_header_generation_def split: if_splits)

context journal_flash
begin

lemma read_slot_spec:
  assumes "read_slot T j s k = (j', r)"
  shows "reads_only mem T j j'"
    "\<not> geometry_invalid T j \<Longrightarrow> s < 2 \<Longrightarrow> k < SLOTS_PER_SECTOR T \<Longrightarrow> r = Inr b \<Longrightarrow> b = slot_bytes mem j s k"
proof -
  obtain f x where fx: "nf_read (jt_flash T) (sj_storage j) (slot_address j s k 0) 128 = (f, x)" by fastforce
  then have j': "j' = j\<lparr>sj_storage := f\<rparr>" and r: "r = (case x of None \<Rightarrow> Inl StoreHardware | Some record \<Rightarrow> Inr record)"
    using assms by (auto simp: read_slot_def)
  show "reads_only mem T j j'" using read_frame[OF fx] j' unfolding reads_only_def by blast
  show "b = slot_bytes mem j s k" if g: "\<not> geometry_invalid T j" "s < 2" "k < SLOTS_PER_SECTOR T" and b: "r = Inr b"
  proof -
    have "x = Some b" using r b by (cases x) auto
    then have "b = map (mem (sj_storage j)) [unat (slot_address j s k 0)..<unat (slot_address j s k 0) + 128]" using read_ok fx by blast
    then show ?thesis using slot_address_unat(1)[OF g, of 0] by (simp add: slot_bytes_def bytes_at_def)
  qed
qed

lemma flash_write_spec:
  assumes w: "flash_write T j (slot_address j s k off) d = (j', r)" and g: "\<not> geometry_invalid T j" "s < 2" "k < SLOTS_PER_SECTOR T"
    and l: "off + length d \<le> 128"
  shows "only_slots mem T j j' {(s, k)}"
    "i < 128 \<Longrightarrow> i < off \<or> off + length d \<le> i \<Longrightarrow> slot_bytes mem j' s k ! i = slot_bytes mem j s k ! i"
    "r = Inr u \<Longrightarrow> (\<And>i. i < length d \<Longrightarrow> slot_bytes mem j s k ! (off + i) = 0xFF) \<Longrightarrow> i < length d \<Longrightarrow> slot_bytes mem j' s k ! (off + i) = d ! i"
proof -
  obtain f ok where f: "nf_write (jt_flash T) (sj_storage j) (slot_address j s k off) d = (f, ok)" by fastforce
  have j': "j' = j\<lparr>sj_storage := f\<rparr>" and r: "r = (if ok then Inr () else Inl StoreHardware)"
    using w f by (auto simp: flash_write_def)
  have a: "unat (slot_address j s k off) = sector_base j s + k * 128 + off" using l by (intro slot_address_unat(1)[OF g]) simp
  have b: "slot_bytes mem j' s' k' ! i = mem f (sector_base j s' + k' * 128 + i)" if "i < 128" for s' k' i
    using that j' by (simp add: slot_bytes_nth sector_base_def)
  have "slot_bytes mem j' s' k' = slot_bytes mem j s' k'" if p: "s' < 2" "k' < SLOTS_PER_SECTOR T" "(s', k') \<noteq> (s, k)" for s' k'
  proof (rule nth_equalityI)
    fix i assume i: "i < length (slot_bytes mem j' s' k')"
    then have i: "i < 128" by simp
    have "mem f (sector_base j s' + k' * 128 + i) = mem (sj_storage j) (sector_base j s' + k' * 128 + i)"
      using slots_disjoint[OF g p i] l a by (intro write_frame[OF f]) linarith
    then show "slot_bytes mem j' s' k' ! i = slot_bytes mem j s' k' ! i" using b[OF i] i by (simp add: slot_bytes_nth)
  qed simp
  then show "only_slots mem T j j' {(s, k)}" using j' write_capacity[OF f] unfolding only_slots_def by blast
  show "slot_bytes mem j' s k ! i = slot_bytes mem j s k ! i" if "i < 128" "i < off \<or> off + length d \<le> i"
    using that write_frame[OF f, of "sector_base j s + k * 128 + i"] a b by (auto simp: slot_bytes_nth)
  show "slot_bytes mem j' s k ! (off + i) = d ! i"
    if "r = Inr u" and e: "\<And>i. i < length d \<Longrightarrow> slot_bytes mem j s k ! (off + i) = 0xFF" and i: "i < length d"
  proof -
    have ok: "ok" using that(1) r by (auto split: if_splits)
    have "\<forall>i<length d. mem (sj_storage j) (unat (slot_address j s k off) + i) = 0xFF"
    proof (intro allI impI)
      fix i assume "i < length d"
      then show "mem (sj_storage j) (unat (slot_address j s k off) + i) = 0xFF" using e[of i] l a by (simp add: slot_bytes_nth add.assoc)
    qed
    then have "mem f (unat (slot_address j s k off) + i) = d ! i" using write_ok[of "sj_storage j" _ d f i] f ok i by simp
    then show ?thesis using b[of "off + i" s k] i l a by (simp add: add.assoc)
  qed
qed

lemma flash_erase_spec:
  assumes e: "flash_erase T j (sj_sectors j ! s) (sj_sectors j ! s + of_nat (jt_sector_size T)) = (j', r)"
    and g: "\<not> geometry_invalid T j" "s < 2"
  shows "only_slots mem T j j' {(s, k) | k. k < SLOTS_PER_SECTOR T}"
    "r = Inr u \<Longrightarrow> k < SLOTS_PER_SECTOR T \<Longrightarrow> slot_bytes mem j' s k = replicate 128 0xFF"
    "k < SLOTS_PER_SECTOR T \<Longrightarrow> slot_record mem j' (s, k) = None \<or> slot_record mem j' (s, k) = slot_record mem j (s, k)"
proof -
  let ?a = "sj_sectors j ! s" and ?b = "sj_sectors j ! s + of_nat (jt_sector_size T)"
  obtain f ok where f: "nf_erase (jt_flash T) (sj_storage j) ?a ?b = (f, ok)" by fastforce
  have j': "j' = j\<lparr>sj_storage := f\<rparr>" and r: "r = (if ok then Inr () else Inl StoreHardware)"
    using e f by (auto simp: flash_erase_def)
  have z: "SLOTS_PER_SECTOR T * 128 = jt_sector_size T" "0 < SLOTS_PER_SECTOR T" by (rule geometry(1,2)[OF g(1)])+
  have lt: "sector_base j s + jt_sector_size T < 2 ^ 32" by (rule geometry(3)[OF g])
  have sz: "unat (of_nat (jt_sector_size T) :: u32) = jt_sector_size T" using lt by (simp add: unat_of_nat)
  have b: "unat ?b = sector_base j s + jt_sector_size T"
    using lt sz by (subst unat_plus_simple[THEN iffD1]) (simp_all add: no_olen_add_nat sector_base_def)
  have n: "slot_bytes mem j' s' k' = bytes_at (mem f) (sector_base j s' + k' * 128)" for s' k'
    using j' by (simp add: slot_bytes_def sector_base_def)
  have o: "slot_bytes mem j s' k' = bytes_at (mem (sj_storage j)) (sector_base j s' + k' * 128)" for s' k'
    by (simp add: slot_bytes_def)
  have "slot_bytes mem j' s' k' = slot_bytes mem j s' k'"
    if p: "s' < 2" "k' < SLOTS_PER_SECTOR T" "(s', k') \<notin> {(s, k) | k. k < SLOTS_PER_SECTOR T}" for s' k'
  proof -
    have ss: "(s = 0 \<and> s' = 1) \<or> (s = 1 \<and> s' = 0)" using p g(2) by auto
    note q = slot_address_unat(2)[OF g(1) p(1,2), of 0]
    have "mem f i = mem (sj_storage j) i" if "i \<in> set [sector_base j s' + k' * 128..<sector_base j s' + k' * 128 + 128]" for i
      using that ss q geometry(4)[OF g(1)] erase_frame[OF f, of i] b by (auto simp: sector_base_def)
    then show ?thesis unfolding n o bytes_at_def by simp
  qed
  then show "only_slots mem T j j' {(s, k) | k. k < SLOTS_PER_SECTOR T}" using j' erase_capacity[OF f] unfolding only_slots_def by blast
  have in_range: "sector_base j s + k * 128 + 128 \<le> sector_base j s + jt_sector_size T" if "k < SLOTS_PER_SECTOR T" for k
    using slot_address_unat(2)[OF g(1,2) that, of 0] by simp
  have erased: "slot_bytes mem j' s k = replicate 128 0xFF" if "ok" "k < SLOTS_PER_SECTOR T" for k
  proof -
    have "mem f i = 0xFF" if i: "i \<in> set [sector_base j s + k * 128..<sector_base j s + k * 128 + 128]" for i
      using i \<open>ok\<close> in_range[OF \<open>k < SLOTS_PER_SECTOR T\<close>] f b by (intro erase_ok) (auto simp: sector_base_def)
    then have "map (mem f) [sector_base j s + k * 128..<sector_base j s + k * 128 + 128] = replicate 128 0xFF"
      by (intro replicate_eqI) auto
    then show ?thesis unfolding n bytes_at_def by simp
  qed
  then show "slot_bytes mem j' s k = replicate 128 0xFF" if "r = Inr u" "k < SLOTS_PER_SECTOR T" using that r by (auto split: if_splits)
  show "slot_record mem j' (s, k) = None \<or> slot_record mem j' (s, k) = slot_record mem j (s, k)" if k: "k < SLOTS_PER_SECTOR T"
  proof (cases ok)
    case True
    then show ?thesis using erased[OF _ k] by (simp add: slot_record_def located_in_def erased_no_record)
  next
    case False
    show ?thesis
    proof (cases "slot_bytes mem j' s k = slot_bytes mem j s k")
      case True
      then show ?thesis by (simp add: slot_record_def)
    next
      case ne: False
      have "decode_record (bytes_at (mem f) (sector_base j s + k * 128)) = None"
        by (rule torn_erase_detected[of "sj_storage j" ?a ?b])
          (use f False ne in_range[OF k] b n[of s k] o[of s k] in \<open>simp_all add: sector_base_def\<close>)
      then show ?thesis by (simp add: slot_record_def located_in_def n)
    qed
  qed
qed

end

section \<open>The newest record\<close>

definition newest_add :: "LocatedState option \<Rightarrow> LocatedState option \<Rightarrow> LocatedState option" where
  "newest_add newest candidate = (case candidate of None \<Rightarrow> newest | Some c \<Rightarrow> newest_step newest c)"

definition newest_of :: "('p \<Rightarrow> LocatedState option) \<Rightarrow> 'p list \<Rightarrow> LocatedState option" where
  "newest_of D ps = foldl newest_add None (map D ps)"

definition best_at :: "('p \<Rightarrow> LocatedState option) \<Rightarrow> 'p list \<Rightarrow> 'p \<Rightarrow> LocatedState \<Rightarrow> bool" where
  "best_at D ps p r \<longleftrightarrow> p \<in> set ps \<and> D p = Some r \<and>
     (\<forall>q\<in>set ps. q \<noteq> p \<longrightarrow> (\<forall>x. D q = Some x \<longrightarrow> lc_generation x < lc_generation r))"

definition unique_generations :: "('p \<Rightarrow> LocatedState option) \<Rightarrow> 'p list \<Rightarrow> bool" where
  "unique_generations D ps \<longleftrightarrow> (\<forall>p\<in>set ps. \<forall>q\<in>set ps. p \<noteq> q \<longrightarrow>
     (\<forall>x y. D p = Some x \<longrightarrow> D q = Some y \<longrightarrow> lc_generation x \<noteq> lc_generation y))"

lemma newest_add_keep: "newest_add (Some r) c = Some r" if "\<And>x. c = Some x \<Longrightarrow> lc_generation x < lc_generation r"
  using that by (cases c) (auto simp: newest_add_def newest_step_def)

lemma fold_newest_keep:
  "(\<And>x. Some x \<in> set cs \<Longrightarrow> lc_generation x < lc_generation r) \<Longrightarrow> foldl newest_add (Some r) cs = Some r"
  by (induction cs) (auto simp: newest_add_keep)

lemma fold_newest_none: "(\<And>c. c \<in> set cs \<Longrightarrow> c = None) \<Longrightarrow> foldl newest_add acc cs = acc"
proof (induction cs arbitrary: acc)
  case (Cons c cs)
  have "c = None" by (rule Cons.prems) simp
  then have "newest_add acc c = acc" by (simp add: newest_add_def)
  then show ?case using Cons.IH[of acc] Cons.prems by simp
qed simp

lemma fold_newest_small:
  assumes "\<And>x. acc = Some x \<Longrightarrow> lc_generation x < g" "\<And>x. Some x \<in> set cs \<Longrightarrow> lc_generation x < g"
    and "foldl newest_add acc cs = Some y"
  shows "lc_generation y < g"
  using assms
proof (induction cs arbitrary: acc)
  case (Cons c cs)
  have "lc_generation x < g" if "newest_add acc c = Some x" for x
    using that Cons.prems(1,2)
    by (cases c; cases acc)
      (auto simp: newest_add_def newest_step_def resolve_duplicate_generation_def Let_def split: if_splits)
  then show ?case using Cons.IH[of "newest_add acc c"] Cons.prems by auto
qed simp

lemma newest_best:
  assumes "distinct ps" "best_at D ps p r"
  shows "newest_of D ps = Some r"
proof -
  obtain us vs where ps: "ps = us @ p # vs" using assms(2) split_list unfolding best_at_def by metis
  have r: "D p = Some r" and lt: "\<And>q x. q \<in> set us \<union> set vs \<Longrightarrow> D q = Some x \<Longrightarrow> lc_generation x < lc_generation r"
    using assms ps unfolding best_at_def by auto
  define acc where "acc = foldl newest_add None (map D us)"
  have "lc_generation x < lc_generation r" if "acc = Some x" for x
  proof (rule fold_newest_small[of None _ "map D us"])
    show "foldl newest_add None (map D us) = Some x" using that acc_def by simp
    show "lc_generation y < lc_generation r" if "Some y \<in> set (map D us)" for y
    proof -
      obtain q where "q \<in> set us" "D q = Some y" using \<open>Some y \<in> set (map D us)\<close> by (auto simp: eq_commute[of "Some _"])
      then show ?thesis using lt[of q y] by simp
    qed
  qed simp
  then have "newest_add acc (Some r) = Some r" by (cases acc) (auto simp: newest_add_def newest_step_def)
  moreover have "foldl newest_add (Some r) (map D vs) = Some r"
  proof (rule fold_newest_keep)
    fix y assume "Some y \<in> set (map D vs)"
    then obtain q where "q \<in> set vs" "D q = Some y" by (auto simp: eq_commute[of "Some _"])
    then show "lc_generation y < lc_generation r" using lt[of q y] by simp
  qed
  ultimately show ?thesis by (simp add: newest_of_def ps r acc_def[symmetric])
qed

lemma newest_none: "(\<And>p. p \<in> set ps \<Longrightarrow> D p = None) \<Longrightarrow> newest_of D ps = None"
  unfolding newest_of_def by (rule fold_newest_none) auto

lemma newest_unique:
  assumes "distinct ps" "unique_generations D ps"
  obtains (none) "newest_of D ps = None" "\<And>p. p \<in> set ps \<Longrightarrow> D p = None"
  | (some) p r where "newest_of D ps = Some r" "best_at D ps p r"
proof (cases "\<forall>p\<in>set ps. D p = None")
  case True
  then have n: "\<And>p. p \<in> set ps \<Longrightarrow> D p = None" by simp
  show ?thesis by (rule none[OF newest_none[OF n] n])
next
  case False
  define S where "S = {p \<in> set ps. D p \<noteq> None}"
  define gen where "gen p = lc_generation (the (D p))" for p
  have S: "finite S" "S \<noteq> {}" using False by (auto simp: S_def)
  then have "Max (gen ` S) \<in> gen ` S" by (intro Max_in) auto
  then obtain p where p: "p \<in> S" "gen p = Max (gen ` S)" by auto
  then obtain r where r: "p \<in> set ps" "D p = Some r" by (auto simp: S_def)
  have "lc_generation x < lc_generation r" if q: "q \<in> set ps" "q \<noteq> p" "D q = Some x" for q x
  proof -
    have "gen q \<le> gen p" unfolding p(2) by (rule Max_ge) (use q S(1) in \<open>auto simp: S_def\<close>)
    moreover have "gen q \<noteq> gen p" using assms(2)[unfolded unique_generations_def, rule_format, OF q(1) r(1) q(2,3) r(2)] q r by (simp add: gen_def)
    ultimately show ?thesis using q r by (simp add: gen_def)
  qed
  then have b: "best_at D ps p r" unfolding best_at_def using r by simp
  show ?thesis by (rule some[OF newest_best[OF assms(1) b] b])
qed

text \<open>One record that tops all others, or one more than the previous ones.\<close>

lemma unique_add:
  assumes u: "unique_generations D ps" and p: "p \<in> set ps"
    and other: "\<And>q. q \<in> set ps \<Longrightarrow> q \<noteq> p \<Longrightarrow> D' q = None \<or> D' q = D q"
    and new: "\<And>x. D' p = Some x \<Longrightarrow> (\<And>q y. q \<in> set ps \<Longrightarrow> D q = Some y \<Longrightarrow> lc_generation y < lc_generation x)"
  shows "unique_generations D' ps"
  unfolding unique_generations_def
proof (intro ballI impI allI)
  fix q q' x y assume q: "q \<in> set ps" "q' \<in> set ps" "q \<noteq> q'" "D' q = Some x" "D' q' = Some y"
  have old: "D a = Some z" if "a \<in> set ps" "a \<noteq> p" "D' a = Some z" for a z using other[OF that(1,2)] that(3) by auto
  show "lc_generation x \<noteq> lc_generation y"
  proof (cases "q = p")
    case True
    then have "lc_generation y < lc_generation x" using new[of x q' y] old[of q' y] q by auto
    then show ?thesis by simp
  next
    case np: False
    show ?thesis
    proof (cases "q' = p")
      case True
      then have "lc_generation x < lc_generation y" using new[of y q x] old[of q x] q np by auto
      then show ?thesis by simp
    next
      case False
      then show ?thesis using old[of q x] old[of q' y] q np u unfolding unique_generations_def by metis
    qed
  qed
qed

lemma unique_sub:
  assumes "unique_generations D ps" and "\<And>q. q \<in> set ps \<Longrightarrow> D' q = None \<or> D' q = D q"
  shows "unique_generations D' ps"
  unfolding unique_generations_def
proof (intro ballI impI allI)
  fix q q' x y assume q: "q \<in> set ps" "q' \<in> set ps" "q \<noteq> q'" "D' q = Some x" "D' q' = Some y"
  then have "D q = Some x" "D q' = Some y" using assms(2)[of q] assms(2)[of q'] by auto
  then show "lc_generation x \<noteq> lc_generation y" using assms(1) q unfolding unique_generations_def by metis
qed

lemma distinct_positions: "distinct (positions T)"
  unfolding positions_def by (rule distinct_product) simp_all

lemma position_iff: "p \<in> set (positions T) \<longleftrightarrow> fst p < 2 \<and> snd p < SLOTS_PER_SECTOR T"
proof (cases p)
  case (Pair a b)
  have "p \<in> set (positions T) \<longleftrightarrow> a \<in> {0, 1} \<and> b < SLOTS_PER_SECTOR T" unfolding positions_def set_product Pair by simp
  then show ?thesis using Pair by (simp add: less_2_cases_iff)
qed

context journal_flash
begin

lemma newest_loop_spec:
  assumes "newest_loop T j ps acc = (j', r)" "\<not> geometry_invalid T j" "\<And>p. p \<in> set ps \<Longrightarrow> fst p < 2 \<and> snd p < SLOTS_PER_SECTOR T"
  shows "reads_only mem T j j' \<and> (\<forall>x. r = Inr x \<longrightarrow> x = foldl newest_add acc (map (slot_record mem j) ps))"
  using assms
proof (induction ps arbitrary: j acc)
  case (Cons p ps)
  obtain s k where p: "p = (s, k)" by fastforce
  obtain j1 r1 where r1: "read_slot T j s k = (j1, r1)" by fastforce
  note ro = read_slot_spec(1)[OF r1]
  show ?case
  proof (cases r1)
    case (Inl e)
    then show ?thesis using Cons.prems(1) p r1 ro by auto
  next
    case (Inr rec)
    have b: "rec = slot_bytes mem j s k" using read_slot_spec(2)[OF r1 Cons.prems(2) _ _ Inr] Cons.prems(3)[of p] p by simp
    have c: "(case decode_record rec of None \<Rightarrow> acc | Some (generation, state) \<Rightarrow>
         newest_step acc \<lparr>lc_generation = generation, lc_sector = s, lc_state = state, lc_tag = record_tag rec\<rparr>)
      = newest_add acc (slot_record mem j p)"
      by (simp add: b p newest_add_def slot_record_def located_in_def split: option.splits)
    have "newest_loop T j1 ps (newest_add acc (slot_record mem j p)) = (j', r)"
      using Cons.prems(1) unfolding p newest_loop.simps r1 Inr prod.case sum.case c[unfolded p] .
    then have "reads_only mem T j1 j' \<and> (\<forall>x. r = Inr x \<longrightarrow> x = foldl newest_add (newest_add acc (slot_record mem j p)) (map (slot_record mem j1) ps))"
      using Cons.IH[of j1] Cons.prems(2,3) reads_only_slots(3)[OF ro] by simp
    moreover have "map (slot_record mem j1) ps = map (slot_record mem j) ps" using reads_only_slots(2)[OF ro] by simp
    ultimately show ?thesis using reads_only_trans[OF ro] by simp
  qed
qed auto

lemma journal_newest_spec:
  assumes "journal_newest T j = (j', r)" "\<not> geometry_invalid T j"
  shows "reads_only mem T j j'" "r = Inr x \<Longrightarrow> x = newest_of (slot_record mem j) (positions T)"
proof -
  have "newest_loop T j (positions T) None = (j', r)" using assms(1) unfolding journal_newest_def positions_def .
  note * = newest_loop_spec[OF this assms(2) position_iff[THEN iffD1]]
  show "reads_only mem T j j'" "r = Inr x \<Longrightarrow> x = newest_of (slot_record mem j) (positions T)"
    using * unfolding newest_of_def by auto
qed

end

section \<open>What a written record decodes to\<close>

lemma le32_at_u32: "le32_at (u32_to_le w) 0 = w"
  by (simp add: le32_at_def u32_to_le_def)

lemma le32_at_append: "k + 4 \<le> length xs \<Longrightarrow> le32_at (xs @ ys) k = le32_at xs k" "le32_at (xs @ ys) (length xs + k) = le32_at ys k"
  by (simp_all add: le32_at_def nth_append)

lemma length_record_prefix: "ss_sized st \<Longrightarrow> length (record_prefix g st tag) = 120"
  by (simp add: record_prefix_def Let_def RECORD_MAGIC_def encode_length u16_to_le_def)

lemma decode_record_written:
  fixes g :: u32 and tag :: u16 and p c :: "u8 list"
  assumes sz: "ss_sized st" and v: "validate st = Inr ()" and c: "length c = 4" and p: "length p = 4"
  defines "r \<equiv> record_prefix g st tag @ p @ c"
  shows "decode_record r = (if c = RECORD_COMMIT then Some (g, st) else None)" "record_tag r = tag"
proof -
  define head where "head = RECORD_MAGIC @ [RECORD_VERSION, of_nat ENCODED_SECURITY_STATE_LEN] @ u16_to_le tag @ u32_to_le g @ encode st @ [0xFF]"
  have len: "length (encode st) = 103" "length (RECORD_MAGIC) = 4" "length (u16_to_le tag) = 2" "length head = 116"
    using encode_length[OF sz] by (simp_all add: RECORD_MAGIC_def u16_to_le_def head_def)
  have r: "r = head @ u32_to_le (crc32 head) @ p @ c" by (simp add: r_def record_prefix_def head_def Let_def)
  have "span r 124 4 = c" using len c p by (simp add: r)
  moreover have "take 4 r = RECORD_MAGIC" using len by (simp add: r head_def)
  moreover have "record_format r = Some (RECORD_CRC_OFFSET, V8)"
    using len by (simp add: record_format_def r head_def nth_append ENCODED_SECURITY_STATE_LEN_def RECORD_VERSION_def Let_def)
  moreover have "take RECORD_CRC_OFFSET r = head" using len by (simp add: r RECORD_CRC_OFFSET_def)
  moreover have "le32_at r RECORD_CRC_OFFSET = crc32 head"
    using le32_at_append(2)[of head _ 0] le32_at_append(1)[of 0 "u32_to_le (crc32 head)" "p @ c"] len
    by (simp add: r RECORD_CRC_OFFSET_def le32_at_u32)
  moreover have "span r 12 (format_len V8) = encode st"
    using len by (simp add: r head_def format_len_def ENCODED_SECURITY_STATE_LEN_def)
  moreover have "le32_at r 8 = g"
    using len by (simp add: r head_def le32_at_def nth_append u32_to_le_def RECORD_MAGIC_def u16_to_le_def)
  ultimately show "decode_record r = (if c = RECORD_COMMIT then Some (g, st) else None)"
    using decode_encode[OF sz v] by (simp add: decode_record_def RECORD_COMMIT_OFFSET_def decode_def)
  show "record_tag r = tag"
    by (simp add: record_tag_def r head_def le16_at_def nth_append RECORD_MAGIC_def u16_to_le_def)
qed

text \<open>A state that a record decodes to is well formed.\<close>

lemma record_format_len: "record_format r = Some (off, f) \<Longrightarrow> 12 + format_len f \<le> 128"
  using format_lens(2)[of f] by simp

lemma decode_record_valid:
  assumes "decode_record r = Some (g, st)" "length r = 128"
  shows "ss_sized st" "validate st = Inr ()"
proof -
  obtain off f where f: "record_format r = Some (off, f)" and d: "decode_bytes (span r 12 (format_len f)) f = Inr st"
    using assms(1) unfolding decode_record_def by (auto split: if_splits option.splits sum.splits)
  have "length (span r 12 (format_len f)) = format_len f" using record_format_len[OF f] assms(2) by simp
  then show "ss_sized st" "validate st = Inr ()" using decode_bytes_sound[OF d] by simp_all
qed

section \<open>Writing records and replay slots\<close>

abbreviation blank :: "('f \<Rightarrow> nat \<Rightarrow> u8) \<Rightarrow> 'f SecurityStateJournal \<Rightarrow> nat \<Rightarrow> nat \<Rightarrow> bool" where
  "blank mem j s k \<equiv> slot_bytes mem j s k = replicate 128 0xFF"

lemma blank_no_record: "blank mem j s k \<Longrightarrow> slot_record mem j (s, k) = None"
  by (simp add: slot_record_def located_in_def erased_no_record)

lemma slot_replay_no_record: "take 4 (slot_bytes mem j s k) = REPLAY_RECORD_MAGIC \<Longrightarrow> slot_record mem j (s, k) = None"
  by (simp add: slot_record_def located_in_def replay_no_record)

context journal_flash
begin

lemma write_record_spec:
  assumes w: "write_record T j s k g st tag = (j', r)" and geo: "\<not> geometry_invalid T j" "s < 2" "k < SLOTS_PER_SECTOR T"
    and e: "blank mem j s k" and sz: "ss_sized st"
  defines "new \<equiv> \<lparr>lc_generation = g, lc_sector = s, lc_state = st, lc_tag = tag\<rparr>"
  shows "only_slots mem T j j' {(s, k)}"
    "r = Inr u \<Longrightarrow> slot_record mem j' (s, k) = Some new"
    "slot_record mem j' (s, k) = None \<or> slot_record mem j' (s, k) = Some new"
proof -
  have "only_slots mem T j j' {(s, k)} \<and> (\<forall>u. r = Inr u \<longrightarrow> slot_record mem j' (s, k) = Some new) \<and>
    (slot_record mem j' (s, k) = None \<or> slot_record mem j' (s, k) = Some new)"
  proof (cases "validate st")
    case (Inl err)
    then show ?thesis using w e by (auto simp: write_record_def blank_no_record reads_only_slots(4))
  next
    case (Inr v)
    then have v: "validate st = Inr ()" by simp
    obtain j1 r1 where w1: "flash_write T j (slot_address j s k 0) (record_prefix g st tag) = (j1, r1)" by fastforce
    have l: "0 + length (record_prefix g st tag) \<le> 128" using length_record_prefix[OF sz] by simp
    note s1 = flash_write_spec[OF w1 geo l, unfolded length_record_prefix[OF sz] add_0]
    have n1: "slot_bytes mem j1 s k ! i = 0xFF" if "120 \<le> i" "i < 128" for i using s1(2)[of i] that e by simp
    show ?thesis
    proof (cases r1)
      case (Inl err)
      have "slot_record mem j1 (s, k) = None"
        using no_commit_no_record[of "slot_bytes mem j1 s k"] n1[of 124] by (simp add: slot_record_def located_in_def)
      then show ?thesis using w v Inl w1 s1(1) by (auto simp: write_record_def)
    next
      case i1: (Inr u1)
      have p1: "take 120 (slot_bytes mem j1 s k) = record_prefix g st tag"
        using s1(3)[OF i1] e by (intro nth_equalityI) (simp_all add: length_record_prefix[OF sz])
      obtain j2 r2 where w2: "flash_write T j1 (slot_address j1 s k 124) RECORD_COMMIT = (j2, r2)" by fastforce
      have geo1: "\<not> geometry_invalid T j1" using only_slots_fields(7)[OF s1(1)] geo(1) by simp
      have l2: "124 + length RECORD_COMMIT \<le> 128" by (simp add: RECORD_COMMIT_def)
      note s2 = flash_write_spec[OF w2 geo1 geo(2,3) l2]
      have o2: "only_slots mem T j j2 {(s, k)}" by (rule only_slots_step[OF s1(1) s2(1)])
      define p where "p = span (slot_bytes mem j2 s k) 120 4"
      define c where "c = drop 124 (slot_bytes mem j2 s k)"
      have "take 120 (slot_bytes mem j2 s k) = take 120 (slot_bytes mem j1 s k)"
        using s2(2) by (intro nth_equalityI) (simp_all add: RECORD_COMMIT_def)
      then have t: "take 120 (slot_bytes mem j2 s k) = record_prefix g st tag" using p1 by simp
      have "slot_bytes mem j2 s k = take 120 (slot_bytes mem j2 s k) @ take 4 (drop 120 (slot_bytes mem j2 s k)) @ drop 4 (drop 120 (slot_bytes mem j2 s k))"
        unfolding append_take_drop_id ..
      then have b: "slot_bytes mem j2 s k = record_prefix g st tag @ p @ c" unfolding t by (simp add: p_def c_def)
      have pc: "length p = 4" "length c = 4" by (simp_all add: p_def c_def)
      note d = decode_record_written[OF sz v pc(2,1), of g tag, folded b]
      have new: "slot_record mem j2 (s, k) = (if c = RECORD_COMMIT then Some new else None)"
        by (simp add: slot_record_def located_in_def d new_def)
      have f2: "flash_write T j1 (slot_address j s k 0 + of_nat RECORD_COMMIT_OFFSET) RECORD_COMMIT = (j2, r2)"
        using w2 slot_address_plus[of j s k 0 124] only_slots_fields(9)[OF s1(1)] by (simp add: RECORD_COMMIT_OFFSET_def)
      show ?thesis
      proof (cases r2)
        case (Inl err)
        then show ?thesis using w v i1 w1 f2 o2 new by (auto simp: write_record_def)
      next
        case i2: (Inr u2)
        obtain j3 r3 where w3: "read_slot T j2 s k = (j3, r3)" by fastforce
        have geo2: "\<not> geometry_invalid T j2" using only_slots_fields(7)[OF o2] geo(1) by simp
        note s3 = read_slot_spec[OF w3]
        have o3: "only_slots mem T j j3 {(s, k)}" by (rule only_slots_step[OF o2 reads_only_slots(4)[OF s3(1)]])
        have rec3: "slot_record mem j3 (s, k) = slot_record mem j2 (s, k)" by (rule reads_only_slots(2)[OF s3(1)])
        have j3: "j' = j3" using w v i1 i2 w1 f2 w3 by (auto simp: write_record_def Let_def split: sum.splits)
        have "c = RECORD_COMMIT" if ru: "r = Inr u" for u
        proof (rule ccontr)
          assume nc: "c \<noteq> RECORD_COMMIT"
          obtain b3 where b3: "r3 = Inr b3" using w v i1 i2 w1 f2 w3 ru by (cases r3) (auto simp: write_record_def)
          then have "b3 = slot_bytes mem j2 s k" using s3(2)[OF geo2 geo(2,3)] by simp
          then have "decode_record b3 = None" using d(1) nc by simp
          then show False using w v i1 i2 w1 f2 w3 b3 ru by (auto simp: write_record_def)
        qed
        then show ?thesis using o3 rec3 new j3 by auto
      qed
    qed
  qed
  then show "only_slots mem T j j' {(s, k)}" "r = Inr u \<Longrightarrow> slot_record mem j' (s, k) = Some new"
    "slot_record mem j' (s, k) = None \<or> slot_record mem j' (s, k) = Some new" by blast+
qed

lemma write_replay_header_spec:
  assumes w: "write_replay_header T j s k g = (j', r)" and geo: "\<not> geometry_invalid T j" "s < 2" "k < SLOTS_PER_SECTOR T"
    and e: "blank mem j s k"
  shows "only_slots mem T j j' {(s, k)}" "slot_record mem j' (s, k) = None"
    "16 \<le> i \<Longrightarrow> i < 128 \<Longrightarrow> slot_bytes mem j' s k ! i = 0xFF"
    "r = Inr u \<Longrightarrow> replay_header_generation (slot_bytes mem j' s k) = Some g"
proof -
  have l: "length (replay_header g) = 16" by (simp add: replay_header_def Let_def REPLAY_RECORD_MAGIC_def)
  obtain j1 r1 where w1: "flash_write T j (slot_address j s k 0) (replay_header g) = (j1, r1)" by fastforce
  have l0: "0 + length (replay_header g) \<le> 128" using l by simp
  note s1 = flash_write_spec[OF w1 geo l0, unfolded l add_0]
  have n1: "slot_bytes mem j1 s k ! i = 0xFF" if "16 \<le> i" "i < 128" for i using s1(2)[of i] that e by simp
  have no: "slot_record mem j1 (s, k) = None"
    using no_commit_no_record[of "slot_bytes mem j1 s k"] n1[of 124] by (simp add: slot_record_def located_in_def)
  have "(r1 = r \<and> j' = j1 \<and> isl r) \<or> (\<exists>r3. read_slot T j1 s k = (j', r3) \<and>
      (r = Inr u \<longrightarrow> (\<exists>b. r3 = Inr b \<and> replay_header_generation b = Some g)))" for u
    using w w1 by (cases r1) (auto simp: write_replay_header_def split: prod.splits sum.splits if_splits)
  then consider "j' = j1" "isl r" | r3 where "read_slot T j1 s k = (j', r3)"
      "\<And>u. r = Inr u \<Longrightarrow> \<exists>b. r3 = Inr b \<and> replay_header_generation b = Some g"
    by (metis (full_types) old.unit.exhaust)
  then have "only_slots mem T j j' {(s, k)} \<and> slot_record mem j' (s, k) = None \<and> slot_bytes mem j' s k = slot_bytes mem j1 s k \<and>
    (r = Inr u \<longrightarrow> replay_header_generation (slot_bytes mem j' s k) = Some g)"
  proof cases
    case 1
    then show ?thesis using s1(1) no by auto
  next
    case 2
    have geo1: "\<not> geometry_invalid T j1" using only_slots_fields(7)[OF s1(1)] geo(1) by simp
    note s3 = read_slot_spec[OF 2(1)]
    have "replay_header_generation (slot_bytes mem j' s k) = Some g" if "r = Inr u"
      using 2(2)[OF that] s3(2)[OF geo1 geo(2,3)] reads_only_slots(1)[OF s3(1)] by auto
    then show ?thesis
      using only_slots_step[OF s1(1) reads_only_slots(4)[OF s3(1)]] reads_only_slots(1,2)[OF s3(1)] no by simp
  qed
  then have o: "only_slots mem T j j' {(s, k)}" "slot_record mem j' (s, k) = None" and b: "slot_bytes mem j' s k = slot_bytes mem j1 s k"
    and g: "r = Inr u \<longrightarrow> replay_header_generation (slot_bytes mem j' s k) = Some g" by blast+
  show "only_slots mem T j j' {(s, k)}" "slot_record mem j' (s, k) = None" by (rule o)+
  show "16 \<le> i \<Longrightarrow> i < 128 \<Longrightarrow> slot_bytes mem j' s k ! i = 0xFF" unfolding b by (rule n1)
  show "r = Inr u \<Longrightarrow> replay_header_generation (slot_bytes mem j' s k) = Some g" using g by blast
qed

lemma write_replay_entry_spec:
  assumes w: "write_replay_entry T j s k idx x = (j', r)" and geo: "\<not> geometry_invalid T j" "s < 2" "k < SLOTS_PER_SECTOR T" and idx: "idx < 4"
  shows "only_slots mem T j j' {(s, k)}"
    "i < 128 \<Longrightarrow> i < 16 + idx * 28 \<or> 16 + idx * 28 + 28 \<le> i \<Longrightarrow> slot_bytes mem j' s k ! i = slot_bytes mem j s k ! i"
    "r = Inr u \<Longrightarrow> \<exists>y. decode_replay_entry (replay_entry_at (slot_bytes mem j' s k) idx) = Some y \<and> replay_eq y x"
proof -
  let ?o = "16 + idx * 28"
  obtain j1 r1 where w1: "flash_write T j (slot_address j s k ?o) (take 24 (encode_replay_entry x)) = (j1, r1)" by fastforce
  have l1: "?o + length (take 24 (encode_replay_entry x)) \<le> 128" using idx by simp
  note s1 = flash_write_spec[OF w1 geo l1]
  have f1: "slot_bytes mem j1 s k ! i = slot_bytes mem j s k ! i" if "i < 128" "i < ?o \<or> ?o + 28 \<le> i" for i
    using s1(2)[of i] that by auto
  have geo1: "\<not> geometry_invalid T j1" using only_slots_fields(7)[OF s1(1)] geo(1) by simp
  have "only_slots mem T j j' {(s, k)} \<and> (\<forall>i<128. i < ?o \<or> ?o + 28 \<le> i \<longrightarrow> slot_bytes mem j' s k ! i = slot_bytes mem j s k ! i) \<and>
    (\<forall>u. r = Inr u \<longrightarrow> (\<exists>y. decode_replay_entry (replay_entry_at (slot_bytes mem j' s k) idx) = Some y \<and> replay_eq y x))"
  proof (cases r1)
    case (Inl e)
    then have "j' = j1" "r = Inl e" using w w1 by (simp_all add: write_replay_entry_def journal_consts Let_def)
    then show ?thesis using s1(1) f1 by simp
  next
    case i1: (Inr u1)
    obtain j2 r2 where w2: "flash_write T j1 (slot_address j1 s k (?o + 24)) REPLAY_ENTRY_COMMIT = (j2, r2)" by fastforce
    have l2: "?o + 24 + length REPLAY_ENTRY_COMMIT \<le> 128" using idx by (simp add: REPLAY_ENTRY_COMMIT_def)
    note s2 = flash_write_spec[OF w2 geo1 geo(2,3) l2]
    have o2: "only_slots mem T j j2 {(s, k)}" by (rule only_slots_step[OF s1(1) s2(1)])
    have f2: "slot_bytes mem j2 s k ! i = slot_bytes mem j s k ! i" if "i < 128" "i < ?o \<or> ?o + 28 \<le> i" for i
      using s2(2)[of i] f1[of i] that by (auto simp: REPLAY_ENTRY_COMMIT_def)
    have w2': "flash_write T j1 (slot_address j s k ?o + of_nat 24) REPLAY_ENTRY_COMMIT = (j2, r2)"
      using w2 slot_address_plus[of j s k ?o 24] only_slots_fields(9)[OF s1(1)] by simp
    show ?thesis
    proof (cases r2)
      case (Inl e)
      then have "j' = j2" "r = Inl e" using w w1 w2' i1 unfolding write_replay_entry_def journal_consts Let_def by simp_all
      then show ?thesis using o2 f2 by simp
    next
      case i2: (Inr u2)
      obtain j3 r3 where w3: "read_slot T j2 s k = (j3, r3)" by fastforce
      note s3 = read_slot_spec[OF w3]
      have geo2: "\<not> geometry_invalid T j2" using only_slots_fields(7)[OF o2] geo(1) by simp
      have j': "j' = j3" and r: "r = (case r3 of Inl e \<Rightarrow> Inl e | Inr v \<Rightarrow> (case decode_replay_entry (replay_entry_at v idx) of
          None \<Rightarrow> Inl StoreHardware | Some y \<Rightarrow> if replay_eq y x then Inr () else Inl StoreHardware))"
        using w w1 w2' w3 i1 i2 unfolding write_replay_entry_def journal_consts Let_def by (auto split: sum.splits)
      have b: "slot_bytes mem j3 s k = slot_bytes mem j2 s k" by (rule reads_only_slots(1)[OF s3(1)])
      have "\<exists>y. decode_replay_entry (replay_entry_at (slot_bytes mem j3 s k) idx) = Some y \<and> replay_eq y x" if ru: "r = Inr u" for u
      proof -
        obtain v where v: "r3 = Inr v" using r ru by (cases r3) auto
        then have "v = slot_bytes mem j3 s k" using s3(2)[OF geo2 geo(2,3)] b by simp
        then show ?thesis using r ru v by (auto split: option.splits if_splits)
      qed
      then show ?thesis using only_slots_step[OF o2 reads_only_slots(4)[OF s3(1)]] f2 b j' by simp
    qed
  qed
  then show "only_slots mem T j j' {(s, k)}"
    "i < 128 \<Longrightarrow> i < 16 + idx * 28 \<or> 16 + idx * 28 + 28 \<le> i \<Longrightarrow> slot_bytes mem j' s k ! i = slot_bytes mem j s k ! i"
    "r = Inr u \<Longrightarrow> \<exists>y. decode_replay_entry (replay_entry_at (slot_bytes mem j' s k) idx) = Some y \<and> replay_eq y x" by blast+
qed

end

text \<open>The header of a replay slot is its first sixteen bytes, and an entry only its own bytes.\<close>

lemma header_generation_prefix:
  assumes "\<And>i. i < 16 \<Longrightarrow> a ! i = b ! i" "length a = 128" "length b = 128"
  shows "replay_header_generation a = replay_header_generation b"
proof -
  have t: "take n a = take n b" if "n \<le> 16" for n using assms that by (intro nth_equalityI) auto
  have w: "le32_at a n = le32_at b n" if "n + 3 < 16" for n using assms(1) that by (simp add: le32_at_def)
  show ?thesis unfolding replay_header_generation_def using t[of 4] t[of 12] w[of 8] w[of 12] assms(1)[of 4] assms(1)[of 5] assms(1)[of 6] assms(1)[of 7]
    by simp
qed

lemma entry_at_frame:
  assumes "\<And>i. i < 128 \<Longrightarrow> 16 + n * 28 \<le> i \<Longrightarrow> i < 16 + n * 28 + 28 \<Longrightarrow> a ! i = b ! i" "length a = 128" "length b = 128" "n < 4"
  shows "replay_entry_at a n = replay_entry_at b n"
  using assms by (intro nth_equalityI) (auto simp: replay_entry_at_def REPLAY_HEADER_LEN_def REPLAY_ENTRY_LEN_def)

text \<open>A floor that a slot of the generation holds.\<close>

definition holds_entry :: "('f \<Rightarrow> nat \<Rightarrow> u8) \<Rightarrow> 'f SecurityStateJournal \<Rightarrow> nat \<Rightarrow> u32 \<Rightarrow> nat \<Rightarrow> nat \<Rightarrow> PersistentReplayCounter \<Rightarrow> bool" where
  "holds_entry mem j s g k n x \<longleftrightarrow> replay_header_generation (slot_bytes mem j s k) = Some g \<and>
     (\<exists>y. decode_replay_entry (replay_entry_at (slot_bytes mem j s k) n) = Some y \<and> replay_eq y x)"

context journal_flash
begin

lemma snapshot_loop_spec:
  assumes "write_replay_snapshot_loop T j s first g [p..<n] = (j', r)" and "\<not> geometry_invalid T j" and "s < 2"
    and "first + (n + 3) div 4 \<le> SLOTS_PER_SECTOR T" and "sj_cached_replay j = xs" and "length xs = n"
    and "\<And>q. p \<le> 4 * q \<Longrightarrow> 4 * q < n \<Longrightarrow> blank mem j s (first + q)"
    and "p mod 4 \<noteq> 0 \<Longrightarrow> replay_header_generation (slot_bytes mem j s (first + p div 4)) = Some g"
    and "\<And>q. 4 * q < n \<Longrightarrow> slot_record mem j (s, first + q) = None"
    and "\<And>i. i < p \<Longrightarrow> i < n \<Longrightarrow> holds_entry mem j s g (first + i div 4) (i mod 4) (xs ! i)"
  shows "only_slots mem T j j' {(s, first + q) | q. 4 * q < n} \<and> (\<forall>q. 4 * q < n \<longrightarrow> slot_record mem j' (s, first + q) = None) \<and>
     (\<forall>u. r = Inr u \<longrightarrow> (\<forall>i<n. holds_entry mem j' s g (first + i div 4) (i mod 4) (xs ! i)))"
  using assms
proof (induction "n - p" arbitrary: p j)
  case 0
  then have "j' = j" "r = Inr ()" by simp_all
  then show ?case using 0 by (auto intro: reads_only_slots(4))
next
  case (Suc m)
  then have pn: "p < n" by simp
  let ?k = "first + p div 4" and ?i = "p mod 4" and ?S = "{(s, first + q) | q. 4 * q < n}"
  have d4: "4 * (p div 4) \<le> p" by simp
  then have q: "4 * (p div 4) < n" using pn by linarith
  have k: "?k < SLOTS_PER_SECTOR T" using Suc.prems(4) pn by linarith
  have loop: "[p..<n] = p # [Suc p..<n]" using pn by (simp add: upt_rec)
  obtain j1 r1 where w1: "(if ?i = 0 then write_replay_header T j s ?k g else (j, Inr ())) = (j1, r1)" by fastforce
  have h: "only_slots mem T j j1 {(s, ?k)} \<and> slot_record mem j1 (s, ?k) = None \<and>
      (\<forall>u. r1 = Inr u \<longrightarrow> replay_header_generation (slot_bytes mem j1 s ?k) = Some g) \<and> (?i \<noteq> 0 \<longrightarrow> j1 = j)"
  proof (cases "?i = 0")
    case True
    have "p \<le> 4 * (p div 4)" using True by presburger
    then have "blank mem j s ?k" by (rule Suc.prems(7)) (rule q)
    then show ?thesis using write_replay_header_spec[of j s ?k g j1 r1] w1 True Suc.prems(2,3) k by simp
  next
    case False
    then show ?thesis using w1 Suc.prems(8) Suc.prems(9)[OF q] reads_only_slots(4)[OF reads_only_refl] by auto
  qed
  note o1 = h[THEN conjunct1]
  have geo1: "\<not> geometry_invalid T j1" using only_slots_fields(7)[OF o1] Suc.prems(2) by simp
  have keep: "slot_record mem j'' (s, first + q') = None" if "only_slots mem T j j'' {(s, ?k)}" "slot_record mem j'' (s, ?k) = None" "4 * q' < n" for j'' q'
  proof (cases "q' = p div 4")
    case False
    have "first + q' < SLOTS_PER_SECTOR T" using that(3) Suc.prems(4) by linarith
    then have "slot_bytes mem j'' s (first + q') = slot_bytes mem j s (first + q')" using only_slots_bytes[OF that(1) Suc.prems(3)] False by simp
    then show ?thesis using Suc.prems(9)[OF that(3)] by (simp add: slot_record_def)
  qed (use that in simp)
  have sub: "{(s, ?k)} \<subseteq> ?S" using q by blast
  show ?case
  proof (cases r1)
    case (Inl e)
    then have "j' = j1" "r = Inl e" using Suc.prems(1) w1 unfolding loop write_replay_snapshot_loop.simps Let_def REPLAY_ENTRIES_PER_SLOT_def by auto
    then show ?thesis using only_slots_mono[OF o1 sub] keep[OF o1] h by simp
  next
    case i1: (Inr u1)
    have c1: "sj_cached_replay j1 = xs" using only_slots_fields(3)[OF o1] Suc.prems(5) by simp
    obtain j2 r2 where w2: "write_replay_entry T j1 s ?k ?i (xs ! p) = (j2, r2)" by fastforce
    have i4: "?i < 4" by simp
    note s2 = write_replay_entry_spec[OF w2 geo1 Suc.prems(3) k i4]
    have o2: "only_slots mem T j j2 {(s, ?k)}" by (rule only_slots_step[OF o1 s2(1)])
    have hg: "replay_header_generation (slot_bytes mem j2 s ?k) = Some g"
      using header_generation_prefix[of "slot_bytes mem j2 s ?k" "slot_bytes mem j1 s ?k"] s2(2) h i1 by simp
    have no: "slot_record mem j2 (s, ?k) = None" by (rule slot_replay_no_record[OF replay_generation_magic[OF hg]])
    show ?thesis
    proof (cases r2)
      case (Inl e)
      then have "j' = j2" "r = Inl e"
        using Suc.prems(1) w1 w2 i1 c1 unfolding loop write_replay_snapshot_loop.simps Let_def REPLAY_ENTRIES_PER_SLOT_def by auto
      then show ?thesis using only_slots_mono[OF o2 sub] keep[OF o2 no] by simp
    next
      case i2: (Inr u2)
      have rest: "write_replay_snapshot_loop T j2 s first g [Suc p..<n] = (j', r)"
        using Suc.prems(1) w1 w2 i1 i2 c1 unfolding loop write_replay_snapshot_loop.simps Let_def REPLAY_ENTRIES_PER_SLOT_def by auto
      have m: "m = n - Suc p" using Suc.hyps(2) by simp
      have geo2: "\<not> geometry_invalid T j2" using only_slots_fields(7)[OF o2] Suc.prems(2) by simp
      have c2: "sj_cached_replay j2 = xs" using only_slots_fields(3)[OF o2] Suc.prems(5) by simp
      have bl: "blank mem j2 s (first + q')" if "Suc p \<le> 4 * q'" "4 * q' < n" for q'
      proof -
        have ne: "q' \<noteq> p div 4" using that(1) d4 by linarith
        have "first + q' < SLOTS_PER_SECTOR T" using that(2) Suc.prems(4) by linarith
        then show ?thesis using only_slots_bytes[OF o2 Suc.prems(3), of "first + q'"] ne Suc.prems(7)[of q'] that by simp
      qed
      have hd: "replay_header_generation (slot_bytes mem j2 s (first + Suc p div 4)) = Some g" if "Suc p mod 4 \<noteq> 0"
      proof -
        have "Suc p div 4 = p div 4" using that by presburger
        then show ?thesis using hg by simp
      qed
      have st: "holds_entry mem j2 s g (first + i div 4) (i mod 4) (xs ! i)" if i: "i < Suc p" "i < n" for i
      proof -
        consider "i = p" | "i < p" "i div 4 = p div 4" | "i < p" "i div 4 \<noteq> p div 4" using i(1) by linarith
        then show ?thesis
        proof cases
          case 1
          then show ?thesis using hg s2(3)[OF i2] by (simp add: holds_entry_def)
        next
          case 2
          have "i mod 4 < ?i" using 2 mult_div_mod_eq[of 4 i] mult_div_mod_eq[of 4 p] by linarith
          then have z: "?i \<noteq> 0" "i mod 4 \<noteq> ?i" by simp_all
          then have j1: "j1 = j" using h by simp
          have "replay_entry_at (slot_bytes mem j2 s ?k) (i mod 4) = replay_entry_at (slot_bytes mem j1 s ?k) (i mod 4)"
          proof (rule entry_at_frame)
            fix b assume b: "b < 128" "16 + i mod 4 * 28 \<le> b" "b < 16 + i mod 4 * 28 + 28"
            have "i mod 4 < ?i \<or> ?i < i mod 4" using z(2) by linarith
            then have "b < 16 + ?i * 28 \<or> 16 + ?i * 28 + 28 \<le> b" using b by linarith
            then show "slot_bytes mem j2 s ?k ! b = slot_bytes mem j1 s ?k ! b" by (rule s2(2)[OF b(1)])
          qed simp_all
          then show ?thesis using Suc.prems(10)[of i] 2 i(2) hg j1 by (simp add: holds_entry_def)
        next
          case 3
          have "first + i div 4 < SLOTS_PER_SECTOR T" using i(2) Suc.prems(4) by linarith
          then have "slot_bytes mem j2 s (first + i div 4) = slot_bytes mem j s (first + i div 4)"
            using only_slots_bytes[OF o2 Suc.prems(3)] 3 by simp
          then show ?thesis using Suc.prems(10)[of i] 3 i(2) by (simp add: holds_entry_def)
        qed
      qed
      have "only_slots mem T j2 j' ?S \<and> (\<forall>q. 4 * q < n \<longrightarrow> slot_record mem j' (s, first + q) = None) \<and>
        (\<forall>u. r = Inr u \<longrightarrow> (\<forall>i<n. holds_entry mem j' s g (first + i div 4) (i mod 4) (xs ! i)))"
        by (rule Suc.hyps(1)[OF m rest geo2 Suc.prems(3,4) c2 Suc.prems(6) bl hd keep[OF o2 no] st])
      then show ?thesis using only_slots_step[OF only_slots_mono[OF o2 sub]] by blast
    qed
  qed
qed

lemma run_is_erased_spec:
  assumes "run_is_erased T j s ks = (j', r)" "\<not> geometry_invalid T j" "s < 2" "\<And>k. k \<in> set ks \<Longrightarrow> k < SLOTS_PER_SECTOR T"
  shows "reads_only mem T j j' \<and> (r = Inr True \<longrightarrow> (\<forall>k\<in>set ks. blank mem j s k))"
  using assms
proof (induction ks arbitrary: j)
  case (Cons k ks)
  obtain j1 r1 where w: "read_slot T j s k = (j1, r1)" by fastforce
  note ro = read_slot_spec[OF w]
  show ?case
  proof (cases r1)
    case (Inl e)
    then show ?thesis using Cons.prems(1) w ro(1) by (auto simp: slot_is_erased_def)
  next
    case (Inr b)
    have b: "b = slot_bytes mem j s k" using ro(2)[OF Cons.prems(2,3) _ Inr] Cons.prems(4)[of k] by simp
    show ?thesis
    proof (cases "list_all (\<lambda>byte. byte = 0xFF) b")
      case True
      have "blank mem j s k" using True b by (intro replicate_eqI) (auto simp: list_all_iff)
      moreover have "run_is_erased T j1 s ks = (j', r)" using Cons.prems(1) w Inr True by (simp add: slot_is_erased_def)
      then have "reads_only mem T j1 j' \<and> (r = Inr True \<longrightarrow> (\<forall>k\<in>set ks. blank mem j1 s k))"
        using Cons.IH[of j1] Cons.prems(2,3,4) reads_only_slots(3)[OF ro(1)] by simp
      ultimately show ?thesis using reads_only_trans[OF ro(1)] reads_only_slots(1)[OF ro(1)] by auto
    next
      case False
      then show ?thesis using Cons.prems(1) w Inr ro(1) by (auto simp: slot_is_erased_def)
    qed
  qed
qed auto

lemma find_run_loop_spec:
  assumes "find_run_loop T j s n ks = (j', r)" "\<not> geometry_invalid T j" "s < 2" "\<And>k. k \<in> set ks \<Longrightarrow> k + n \<le> SLOTS_PER_SECTOR T"
  shows "reads_only mem T j j' \<and> (\<forall>k. r = Inr (Some k) \<longrightarrow> k + n \<le> SLOTS_PER_SECTOR T \<and> (\<forall>i<n. blank mem j s (k + i)))"
  using assms
proof (induction ks arbitrary: j)
  case (Cons k ks)
  obtain j1 r1 where w: "run_is_erased T j s [k..<k + n] = (j1, r1)" by fastforce
  have "k' < SLOTS_PER_SECTOR T" if "k' \<in> set [k..<k + n]" for k' using Cons.prems(4)[of k] that by auto
  note e = run_is_erased_spec[OF w Cons.prems(2,3) this]
  have ro: "reads_only mem T j j1" using e by blast
  show ?case
  proof (cases "r1 = Inr False")
    case True
    then have "find_run_loop T j1 s n ks = (j', r)" using Cons.prems(1) w by simp
    then have "reads_only mem T j1 j' \<and> (\<forall>k. r = Inr (Some k) \<longrightarrow> k + n \<le> SLOTS_PER_SECTOR T \<and> (\<forall>i<n. blank mem j1 s (k + i)))"
      using Cons.IH[of j1] Cons.prems(2,3,4) reads_only_slots(3)[OF ro] by simp
    then show ?thesis using reads_only_trans[OF ro] reads_only_slots(1)[OF ro] by auto
  next
    case False
    then show ?thesis using Cons.prems(1) w e Cons.prems(4)[of k] by (cases r1) auto
  qed
qed auto

lemma place_generation_spec:
  assumes p: "place_generation T j cs ro n = (j', r)" and geo: "\<not> geometry_invalid T j" and cs: "\<forall>s. cs = Some s \<longrightarrow> s < 2"
    and n: "0 < n" "n \<le> SLOTS_PER_SECTOR T"
  shows "reads_only mem T j j'"
    "r = Inr (t, k, er) \<Longrightarrow> t < 2 \<and> k + n \<le> SLOTS_PER_SECTOR T \<and> (er \<longrightarrow> (\<forall>s. cs = Some s \<longrightarrow> t \<noteq> s)) \<and> (\<not> er \<longrightarrow> (\<forall>i<n. blank mem j t (k + i)))"
proof -
  have *: "reads_only mem T j j' \<and>
    (\<forall>t k er. r = Inr (t, k, er) \<longrightarrow> t < 2 \<and> k + n \<le> SLOTS_PER_SECTOR T \<and> (er \<longrightarrow> (\<forall>s. cs = Some s \<longrightarrow> t \<noteq> s)) \<and> (\<not> er \<longrightarrow> (\<forall>i<n. blank mem j t (k + i))))"
  proof (cases cs)
    case None
    then show ?thesis using p n by (auto simp: place_generation_def)
  next
    case (Some s)
    have s: "s < 2" using cs Some by simp
    then have s1: "Suc 0 - s \<noteq> s" "Suc 0 - s < 2" by (cases s; simp)+
    show ?thesis
    proof (cases ro)
      case True
      then show ?thesis using p n s s1 Some by (auto simp: place_generation_def)
    next
      case False
      obtain j1 r1 where w: "find_run_loop T j s n [0..<Suc (SLOTS_PER_SECTOR T - n)] = (j1, r1)" by fastforce
      have f: "find_erased_run T j s n = (j1, r1)" using w n by (simp add: find_erased_run_def)
      have "k + n \<le> SLOTS_PER_SECTOR T" if "k \<in> set [0..<Suc (SLOTS_PER_SECTOR T - n)]" for k using that n by auto
      note e = find_run_loop_spec[OF w geo s this]
      show ?thesis using p f e s s1 n unfolding place_generation_def Some
        by (cases r1) (auto simp: False split: option.splits)
    qed
  qed
  then show "reads_only mem T j j'" by blast
  show "r = Inr (t, k, er) \<Longrightarrow> t < 2 \<and> k + n \<le> SLOTS_PER_SECTOR T \<and> (er \<longrightarrow> (\<forall>s. cs = Some s \<longrightarrow> t \<noteq> s)) \<and> (\<not> er \<longrightarrow> (\<forall>i<n. blank mem j t (k + i)))"
    using * by blast
qed

lemma activate_generation_spec:
  assumes a: "activate_generation T j s k g st tag = (j', r)" and geo: "\<not> geometry_invalid T j" "s < 2"
    and fit: "k + (1 + (length (sj_cached_replay j) + 3) div 4) \<le> SLOTS_PER_SECTOR T"
    and e0: "\<forall>i < 1 + (length (sj_cached_replay j) + 3) div 4. blank mem j s (k + i)" and sz: "ss_sized st"
  defines "new \<equiv> \<lparr>lc_generation = g, lc_sector = s, lc_state = st, lc_tag = tag\<rparr>" and "xs \<equiv> sj_cached_replay j"
  shows "\<exists>S. only_slots mem T j j' S" "q \<in> set (positions T) \<Longrightarrow> q \<noteq> (s, k) \<Longrightarrow> slot_record mem j' q = slot_record mem j q"
    "slot_record mem j' (s, k) = None \<or> slot_record mem j' (s, k) = Some new"
    "r = Inr u \<Longrightarrow> slot_record mem j' (s, k) = Some new"
    "r = Inr u \<Longrightarrow> i < length xs \<Longrightarrow> holds_entry mem j' s g (k + 1 + i div 4) (i mod 4) (xs ! i) \<and> k + 1 + i div 4 < SLOTS_PER_SECTOR T"
proof -
  note e = e0[rule_format]
  let ?n = "length xs" and ?S = "{(s, k + 1 + q) | q. 4 * q < length xs}"
  obtain j1 r1 where w1: "write_replay_snapshot_loop T j s (k + 1) g [0..<?n] = (j1, r1)" by fastforce
  have fit': "k + 1 + (?n + 3) div 4 \<le> SLOTS_PER_SECTOR T" using fit by (simp add: xs_def)
  have bl: "blank mem j s (k + 1 + q)" if "4 * q < ?n" for q
    using e[of "1 + q"] that by (simp add: xs_def)
  have nr: "slot_record mem j (s, k + 1 + q) = None" if "4 * q < ?n" for q by (rule blank_no_record[OF bl[OF that]])
  have s1: "only_slots mem T j j1 ?S \<and> (\<forall>q. 4 * q < ?n \<longrightarrow> slot_record mem j1 (s, k + 1 + q) = None) \<and>
     (\<forall>u. r1 = Inr u \<longrightarrow> (\<forall>i<?n. holds_entry mem j1 s g (k + 1 + i div 4) (i mod 4) (xs ! i)))"
    by (rule snapshot_loop_spec[OF w1 geo fit' _ _ bl _ nr]) (simp_all add: xs_def)
  have k: "k < SLOTS_PER_SECTOR T" using fit by simp
  have k1: "slot_bytes mem j1 s k = slot_bytes mem j s k" using only_slots_bytes[OF s1[THEN conjunct1] geo(2) k] by auto
  have b1: "blank mem j1 s k" using e[of 0] k1 by simp
  have rec1: "slot_record mem j1 q = slot_record mem j q" if "q \<in> set (positions T)" for q
  proof (cases "q \<in> ?S")
    case True
    then obtain q' where "q = (s, k + 1 + q')" "4 * q' < ?n" by blast
    then show ?thesis using s1 nr by simp
  next
    case False
    then show ?thesis using only_slots_bytes[OF s1[THEN conjunct1], of "fst q" "snd q"] that position_iff[of q T] by (simp add: slot_record_def)
  qed
  have "(\<exists>S. only_slots mem T j j' S) \<and> (\<forall>q\<in>set (positions T). q \<noteq> (s, k) \<longrightarrow> slot_record mem j' q = slot_record mem j q) \<and>
    (slot_record mem j' (s, k) = None \<or> slot_record mem j' (s, k) = Some new) \<and>
    (\<forall>u. r = Inr u \<longrightarrow> slot_record mem j' (s, k) = Some new \<and>
       (\<forall>i<?n. holds_entry mem j' s g (k + 1 + i div 4) (i mod 4) (xs ! i)))"
  proof (cases r1)
    case (Inl err)
    then have "j' = j1" "r = Inl err" using a w1 by (simp_all add: activate_generation_def write_replay_snapshot_def xs_def)
    moreover have "slot_record mem j1 (s, k) = None" by (rule blank_no_record[OF b1])
    ultimately show ?thesis using s1[THEN conjunct1] rec1 by auto
  next
    case (Inr u1)
    then have w2: "write_record T j1 s k g st tag = (j', r)" using a w1 by (simp add: activate_generation_def write_replay_snapshot_def xs_def)
    have geo1: "\<not> geometry_invalid T j1" using only_slots_fields(7)[OF s1[THEN conjunct1]] geo(1) by simp
    note s2 = write_record_spec[OF w2 geo1 geo(2) k b1 sz, folded new_def]
    have o: "only_slots mem T j j' (?S \<union> {(s, k)})" by (rule only_slots_trans[OF s1[THEN conjunct1] s2(1)])
    have same: "slot_bytes mem j' s' k' = slot_bytes mem j1 s' k'" if "s' < 2" "k' < SLOTS_PER_SECTOR T" "(s', k') \<noteq> (s, k)" for s' k'
      using only_slots_bytes[OF s2(1) that(1,2)] that(3) by simp
    have "slot_record mem j' q = slot_record mem j q" if "q \<in> set (positions T)" "q \<noteq> (s, k)" for q
      using rec1[OF that(1)] same[of "fst q" "snd q"] that position_iff[of q T] by (simp add: slot_record_def)
    moreover have "holds_entry mem j' s g (k + 1 + i div 4) (i mod 4) (xs ! i)" if "i < ?n" for i
    proof -
      have "k + 1 + i div 4 < SLOTS_PER_SECTOR T" using that fit' by linarith
      then have "slot_bytes mem j' s (k + 1 + i div 4) = slot_bytes mem j1 s (k + 1 + i div 4)" using same[OF geo(2)] by simp
      then show ?thesis using s1 Inr that by (simp add: holds_entry_def)
    qed
    ultimately show ?thesis using o s2(2,3) by blast
  qed
  note A = this
  show "\<exists>S. only_slots mem T j j' S" "slot_record mem j' (s, k) = None \<or> slot_record mem j' (s, k) = Some new" using A by blast+
  show "q \<in> set (positions T) \<Longrightarrow> q \<noteq> (s, k) \<Longrightarrow> slot_record mem j' q = slot_record mem j q" using A by blast
  show "r = Inr u \<Longrightarrow> slot_record mem j' (s, k) = Some new" using A by blast
  show "holds_entry mem j' s g (k + 1 + i div 4) (i mod 4) (xs ! i) \<and> k + 1 + i div 4 < SLOTS_PER_SECTOR T" if "r = Inr u" "i < ?n"
  proof
    show "holds_entry mem j' s g (k + 1 + i div 4) (i mod 4) (xs ! i)" using A that by blast
    show "k + 1 + i div 4 < SLOTS_PER_SECTOR T" using that(2) fit' by linarith
  qed
qed

lemma slot_record_sector: "slot_record mem j p = Some x \<Longrightarrow> lc_sector x = fst p"
  by (auto simp: slot_record_def located_in_def)

end

text \<open>Records may vanish, but not those of the sector that holds the newest one.\<close>

definition keeps_current :: "(nat \<times> nat \<Rightarrow> LocatedState option) \<Rightarrow> (nat \<times> nat \<Rightarrow> LocatedState option) \<Rightarrow> (nat \<times> nat) list \<Rightarrow> bool" where
  "keeps_current D D' ps \<longleftrightarrow> (\<forall>q\<in>set ps. (D' q = None \<or> D' q = D q) \<and> (\<forall>x. newest_of D ps = Some x \<longrightarrow> fst q = lc_sector x \<longrightarrow> D' q = D q))"

lemma keeps_current_newest:
  assumes "distinct ps" "unique_generations D ps" "keeps_current D D' ps" "\<And>p x. D p = Some x \<Longrightarrow> lc_sector x = fst p"
  shows "newest_of D' ps = newest_of D ps"
  using assms(1,2)
proof (cases rule: newest_unique)
  case none
  have "newest_of D' ps = None" by (rule newest_none) (use assms(3) none(2) in \<open>auto simp: keeps_current_def\<close>)
  then show ?thesis using none(1) by simp
next
  case (some p r)
  have p: "p \<in> set ps" "D p = Some r" using some(2) by (auto simp: best_at_def)
  have "D' p = D p" using assms(3) p some(1) assms(4)[OF p(2)] unfolding keeps_current_def by simp
  moreover have "D' q = None \<or> D' q = D q" if "q \<in> set ps" for q using assms(3) that unfolding keeps_current_def by blast
  ultimately have "best_at D' ps p r" using some(2) unfolding best_at_def by (metis option.distinct(1))
  then show ?thesis using newest_best[OF assms(1)] some(1) by simp
qed

lemma newest_new:
  assumes ps: "distinct ps" "p \<in> set ps" and new: "D' p = Some r" and other: "\<And>q. q \<in> set ps \<Longrightarrow> q \<noteq> p \<Longrightarrow> D' q = None \<or> D' q = D q"
    and top: "\<And>q x. q \<in> set ps \<Longrightarrow> D q = Some x \<Longrightarrow> lc_generation x < lc_generation r"
  shows "newest_of D' ps = Some r"
proof -
  have "lc_generation x < lc_generation r" if "q \<in> set ps" "q \<noteq> p" "D' q = Some x" for q x
    using other[OF that(1,2)] top[OF that(1)] that(3) by auto
  then have "best_at D' ps p r" using ps new unfolding best_at_def by simp
  then show ?thesis by (rule newest_best[OF ps(1)])
qed

context journal_flash
begin

lemma write_generation_spec:
  fixes j :: "'f SecurityStateJournal" and st :: PersistentSecurityState
  defines "D \<equiv> slot_record mem j" and "ps \<equiv> positions T" and "xs \<equiv> sj_cached_replay j"
  assumes w: "write_generation T j cs ro g st tag = (j', r)" and geo: "\<not> geometry_invalid T j"
    and cs: "cs = map_option lc_sector (newest_of D ps)" and u: "unique_generations D ps"
    and top0: "\<forall>q x. q \<in> set ps \<longrightarrow> D q = Some x \<longrightarrow> lc_generation x < g" and sz: "ss_sized st"
  defines "new \<equiv> \<lambda>t. \<lparr>lc_generation = g, lc_sector = t, lc_state = st, lc_tag = tag\<rparr>" and "D' \<equiv> slot_record mem j'"
  shows "\<exists>S. only_slots mem T j j' S" "unique_generations D' ps"
    "newest_of D' ps = newest_of D ps \<or> (\<exists>t<2. newest_of D' ps = Some (new t))"
    "r = Inr t \<Longrightarrow> t < 2 \<and> newest_of D' ps = Some (new t) \<and>
       (\<exists>first. \<forall>i<length xs. holds_entry mem j' t g (first + i div 4) (i mod 4) (xs ! i) \<and> first + i div 4 < SLOTS_PER_SECTOR T)"
proof -
  note top = top0[rule_format]
  let ?n = "1 + (length xs + 3) div 4"
  have needed: "replay_snapshot_slots (length (sj_cached_replay j)) = (length xs + 3) div 4"
    by (simp add: replay_snapshot_slots_def REPLAY_ENTRIES_PER_SLOT_def xs_def add.commute)
  have dist: "distinct ps" unfolding ps_def by (rule distinct_positions)
  have sec: "\<And>p x. D p = Some x \<Longrightarrow> lc_sector x = fst p" unfolding D_def by (rule slot_record_sector)
  have refl: "\<exists>S. only_slots mem T j j S" using reads_only_slots(4)[OF reads_only_refl] by blast
  have cs2: "s < 2" if "cs = Some s" for s
    using dist u
  proof (cases rule: newest_unique)
    case (some p y)
    have "p \<in> set ps" "D p = Some y" using some(2) by (auto simp: best_at_def)
    then show ?thesis using that some(1) sec cs position_iff[of p T] unfolding ps_def by simp
  qed (use that cs in simp)
  have "(\<exists>S. only_slots mem T j j' S) \<and> unique_generations D' ps \<and> (newest_of D' ps = newest_of D ps \<or> (\<exists>t<2. newest_of D' ps = Some (new t))) \<and>
    (\<forall>t. r = Inr t \<longrightarrow> t < 2 \<and> newest_of D' ps = Some (new t) \<and>
       (\<exists>first. \<forall>i<length xs. holds_entry mem j' t g (first + i div 4) (i mod 4) (xs ! i) \<and> first + i div 4 < SLOTS_PER_SECTOR T))"
  proof (cases "SLOTS_PER_SECTOR T < ?n")
    case True
    then have "j' = j" "r = Inl StoreFull"
      using w unfolding write_generation_def needed Let_def by simp_all
    then show ?thesis using refl u unfolding D'_def D_def by auto
  next
    case False
    then have n: "0 < ?n" "?n \<le> SLOTS_PER_SECTOR T" by simp_all
    obtain j1 r1 where w1: "place_generation T j cs ro ?n = (j1, r1)" by fastforce
    have cs2': "\<forall>s. cs = Some s \<longrightarrow> s < 2" using cs2 by simp
    note s1 = place_generation_spec[OF w1 geo cs2' n]
    have rec1: "slot_record mem j1 = D" unfolding D_def using reads_only_slots(2)[OF s1(1)] by (intro ext)
    have geo1: "\<not> geometry_invalid T j1" using reads_only_slots(3)[OF s1(1)] geo by simp
    have xs1: "sj_cached_replay j1 = xs" using reads_only_fields(3)[OF s1(1)] by (simp add: xs_def)
    have wg: "write_generation T j cs ro g st tag = (case (j1, r1) of
         (j, Inl e) \<Rightarrow> (j, Inl e)
       | (j, Inr (target, state_slot, erase)) \<Rightarrow>
           (let sector = sj_sectors j ! target
            in case (if erase then flash_erase T j sector (sector + of_nat (jt_sector_size T)) else (j, Inr ())) of
                 (j, Inl e) \<Rightarrow> (j, Inl e)
               | (j, Inr _) \<Rightarrow>
                   (case activate_generation T j target state_slot g st tag of
                      (j, Inl e) \<Rightarrow> (j, Inl e) | (j, Inr _) \<Rightarrow> (j, Inr target))))"
      using False w1 unfolding write_generation_def needed Let_def by simp
    show ?thesis
    proof (cases r1)
      case (Inl e)
      then have "j' = j1" "r = Inl e" using w wg by simp_all
      then show ?thesis using reads_only_slots(4)[OF s1(1)] rec1 u unfolding D'_def by auto
    next
      case (Inr v)
      obtain t k er where v: "v = (t, k, er)" by (metis prod_cases3)
      note pl = s1(2)[OF Inr[unfolded v]]
      obtain j2 r2 where w2: "(if er then flash_erase T j1 (sj_sectors j1 ! t) (sj_sectors j1 ! t + of_nat (jt_sector_size T)) else (j1, Inr ())) = (j2, r2)"
        by fastforce
      have s2: "(\<exists>S. only_slots mem T j1 j2 S) \<and> keeps_current D (slot_record mem j2) ps \<and>
          (\<forall>u. r2 = Inr u \<longrightarrow> (\<forall>i<?n. blank mem j2 t (k + i)))"
      proof (cases er)
        case True
        have e: "flash_erase T j1 (sj_sectors j1 ! t) (sj_sectors j1 ! t + of_nat (jt_sector_size T)) = (j2, r2)" using w2 True by simp
        have t2: "t < 2" using pl by blast
        note s = flash_erase_spec[OF e geo1 t2]
        have other: "slot_record mem j2 q = D q" if "q \<in> set ps" "fst q \<noteq> t" for q
        proof -
          have "(fst q, snd q) \<notin> {(t, k) | k. k < SLOTS_PER_SECTOR T}" using that(2) by auto
          then have "slot_bytes mem j2 (fst q) (snd q) = slot_bytes mem j1 (fst q) (snd q)"
            using only_slots_bytes[OF s(1), of "fst q" "snd q"] that(1) position_iff[of q T] unfolding ps_def by blast
          then show ?thesis by (simp add: slot_record_def rec1[symmetric])
        qed
        have target: "slot_record mem j2 q = None \<or> slot_record mem j2 q = D q" if "q \<in> set ps" "fst q = t" for q
          using s(3)[of "snd q"] that position_iff[of q T] rec1 by (cases q) (auto simp: ps_def)
        have cur: "slot_record mem j2 q = D q" if "q \<in> set ps" "newest_of D ps = Some x" "fst q = lc_sector x" for q x
        proof -
          have "cs = Some (lc_sector x)" using cs that(2) by simp
          then have "fst q \<noteq> t" using pl True that(3) by metis
          then show ?thesis by (rule other[OF that(1)])
        qed
        have "slot_record mem j2 q = None \<or> slot_record mem j2 q = D q" if "q \<in> set ps" for q
          using target[OF that] other[OF that] by (cases "fst q = t") simp_all
        then have "keeps_current D (slot_record mem j2) ps" using cur unfolding keeps_current_def by simp
        moreover have "blank mem j2 t (k + i)" if "r2 = Inr u" "i < ?n" for u i
          using s(2)[OF that(1), of "k + i"] pl that(2) by simp
        ultimately show ?thesis using s(1) by blast
      next
        case False
        then have "j2 = j1" using w2 by simp
        moreover have "blank mem j1 t (k + i)" if "i < ?n" for i using pl False that reads_only_slots(1)[OF s1(1)] by simp
        moreover have "\<exists>S. only_slots mem T j1 j1 S" using reads_only_slots(4)[OF reads_only_refl] by blast
        ultimately show ?thesis using rec1 unfolding keeps_current_def by simp
      qed
      have keep2: "keeps_current D (slot_record mem j2) ps" using s2 by blast
      have sub2: "slot_record mem j2 q = None \<or> slot_record mem j2 q = D q" if "q \<in> set ps" for q
        using keep2 that unfolding keeps_current_def by blast
      have o2: "\<exists>S. only_slots mem T j j2 S" using s2 only_slots_trans[OF reads_only_slots(4)[OF s1(1)]] by blast
      have new2: "newest_of (slot_record mem j2) ps = newest_of D ps" by (rule keeps_current_newest[OF dist u keep2 sec])
      have u2: "unique_generations (slot_record mem j2) ps" by (rule unique_sub[OF u sub2])
      show ?thesis
      proof (cases r2)
        case i2: (Inl e)
        then have "j' = j2" "r = Inl e" using w wg Inr v w2 by (simp_all add: Let_def)
        then show ?thesis using o2 u2 new2 unfolding D'_def by simp
      next
        case i2: (Inr u2')
        obtain j3 r3 where w3: "activate_generation T j2 t k g st tag = (j3, r3)" by fastforce
        have jr: "j' = j3" "r = (case r3 of Inl e \<Rightarrow> Inl e | Inr _ \<Rightarrow> Inr t)"
          using w wg Inr v w2 i2 w3 by (auto simp: Let_def split: sum.splits)
        obtain S2 where S2: "only_slots mem T j j2 S2" using o2 by blast
        have xs2: "sj_cached_replay j2 = xs" using only_slots_fields(3)[OF S2] by (simp add: xs_def)
        have geo2: "\<not> geometry_invalid T j2" using only_slots_fields(7)[OF S2] geo by simp
        have t2: "t < 2" and fit: "k + ?n \<le> SLOTS_PER_SECTOR T" using pl by blast+
        have bl2': "\<forall>i<?n. blank mem j2 t (k + i)" using s2 i2 by blast
        note bl2 = bl2'[rule_format]
        note s3 = activate_generation_spec[OF w3 geo2 t2 fit[folded xs2] bl2'[folded xs2] sz, unfolded xs2, folded new_def ps_def]
        have p: "(t, k) \<in> set ps" using t2 fit position_iff[of "(t, k)" T] by (simp add: ps_def)
        have other: "D' q = None \<or> D' q = D q" if "q \<in> set ps" "q \<noteq> (t, k)" for q
          using s3(2)[OF that] sub2[OF that(1)] jr(1) by (simp add: D'_def)
        have o3: "\<exists>S. only_slots mem T j j' S" using s3(1) only_slots_trans[OF S2] jr(1) by blast
        have newest: "newest_of D' ps = Some (new t)" if "D' (t, k) = Some (new t)"
        proof (rule newest_new[where D = D, OF dist p])
          show "D' (t, k) = Some (new t)" by (rule that)
          show "D' q = None \<or> D' q = D q" if "q \<in> set ps" "q \<noteq> (t, k)" for q by (rule other[OF that])
          show "lc_generation x < lc_generation (new t)" if "q \<in> set ps" "D q = Some x" for q x using top[OF that] by (simp add: new_def)
        qed
        have old: "newest_of D' ps = newest_of D ps" if n: "D' (t, k) = None"
        proof -
          have "slot_record mem j2 (t, k) = None" using blank_no_record[OF bl2[of 0]] by simp
          then have "D' q = slot_record mem j2 q" if "q \<in> set ps" for q
            using s3(2)[OF that] n jr(1) by (cases "q = (t, k)") (simp_all add: D'_def)
          then have "newest_of D' ps = newest_of (slot_record mem j2) ps" unfolding newest_of_def by (metis map_eq_conv)
          then show ?thesis using new2 by simp
        qed
        have three: "D' (t, k) = None \<or> D' (t, k) = Some (new t)" using s3(3) jr(1) by (simp add: D'_def new_def)
        have u3: "unique_generations D' ps"
        proof (rule unique_add[where D = D, OF u p])
          show "D' q = None \<or> D' q = D q" if "q \<in> set ps" "q \<noteq> (t, k)" for q by (rule other[OF that])
          show "lc_generation y < lc_generation x" if "D' (t, k) = Some x" "q \<in> set ps" "D q = Some y" for x q y
            using three that(1) top[OF that(2,3)] by (auto simp: new_def)
        qed
        have fin: "t' < 2 \<and> newest_of D' ps = Some (new t') \<and>
           (\<exists>first. \<forall>i<length xs. holds_entry mem j' t' g (first + i div 4) (i mod 4) (xs ! i) \<and> first + i div 4 < SLOTS_PER_SECTOR T)"
          if rt: "r = Inr t'" for t'
        proof -
          obtain u3' where r3: "r3 = Inr u3'" and tt: "t' = t" using rt jr(2) by (cases r3) auto
          have "D' (t, k) = Some (new t)" using s3(4)[OF r3] jr(1) by (simp add: D'_def new_def)
          moreover have "\<forall>i<length xs. holds_entry mem j' t g (k + 1 + i div 4) (i mod 4) (xs ! i) \<and> k + 1 + i div 4 < SLOTS_PER_SECTOR T"
            using s3(5)[OF r3] jr(1) by blast
          ultimately show ?thesis using newest t2 tt by blast
        qed
        show ?thesis using o3 u3 three newest old t2 fin by blast
      qed
    qed
  qed
  then show "\<exists>S. only_slots mem T j j' S" "unique_generations D' ps"
    "newest_of D' ps = newest_of D ps \<or> (\<exists>t<2. newest_of D' ps = Some (new t))"
    "r = Inr t \<Longrightarrow> t < 2 \<and> newest_of D' ps = Some (new t) \<and>
       (\<exists>first. \<forall>i<length xs. holds_entry mem j' t g (first + i div 4) (i mod 4) (xs ! i) \<and> first + i div 4 < SLOTS_PER_SECTOR T)"
    by blast+
qed

end

end
