(* ===== verification/Journal_Recovery.thy ===== *)
theory Journal_Recovery
  imports Journal_Flash
begin

text \<open>
  The operations of the journal over any flash that keeps the contract of its driver: the invariant that ties the cached
  views to what the flash holds, and for each operation that it keeps the invariant and what it leaves as the newest record and
  as the durable replay floors.
\<close>

section \<open>Floors that a scan finds\<close>

definition is_aps :: "PersistentReplayCounter \<Rightarrow> bool" where
  "is_aps x = (case x of ApsFloor _ \<Rightarrow> True | NwkFloor _ \<Rightarrow> False)"

definition visible :: "u8 list \<Rightarrow> nat \<Rightarrow> PersistentReplayCounter \<Rightarrow> bool" where
  "visible r n y \<longleftrightarrow> (\<forall>m<n. decode_replay_entry (replay_entry_at r m) \<noteq> None) \<and> decode_replay_entry (replay_entry_at r n) = Some y"

definition durable :: "('f \<Rightarrow> nat \<Rightarrow> u8) \<Rightarrow> 'f JournalType \<Rightarrow> 'f SecurityStateJournal \<Rightarrow> nat \<Rightarrow> u32 \<Rightarrow> PersistentReplayCounter \<Rightarrow> bool" where
  "durable mem T j s g x \<longleftrightarrow> (\<exists>k<SLOTS_PER_SECTOR T. \<exists>n<4. \<exists>y. replay_header_generation (slot_bytes mem j s k) = Some g \<and>
     visible (slot_bytes mem j s k) n y \<and> is_aps y \<and> same_domain y x \<and> floor_counter x \<le> floor_counter y)"

lemma covers_weaken:
  assumes "covers xs y" "same_domain y x" "floor_counter x \<le> floor_counter y"
  shows "covers xs x"
proof -
  obtain z where z: "z \<in> set xs" "same_domain z y" "floor_counter y \<le> floor_counter z" using assms(1) unfolding covers_def by blast
  have "same_domain z x" "floor_counter x \<le> floor_counter z" using same_domain_trans[OF z(2) assms(2)] order_trans[OF assms(3) z(3)] .
  then show ?thesis using z(1) unfolding covers_def by blast
qed

lemma durable_weaken:
  assumes "durable mem T j s g y" "same_domain y x" "floor_counter x \<le> floor_counter y"
  shows "durable mem T j s g x"
  using assms unfolding durable_def by (meson order_trans same_domain_trans)

lemma replay_eq_aps: "replay_eq y x \<Longrightarrow> is_aps x \<Longrightarrow> is_aps y"
  by (cases x; cases y) (auto simp: is_aps_def)

lemma decoded_not_erased:
  assumes "decode_replay_entry e = Some y"
  shows "\<not> replay_entry_is_erased e"
proof
  assume a: "replay_entry_is_erased e"
  have l: "length e = 28" and c: "drop 24 e = REPLAY_ENTRY_COMMIT"
    using assms unfolding decode_replay_entry_def REPLAY_ENTRY_LEN_def REPLAY_ENTRY_COMMIT_OFFSET_def by (auto split: if_splits)
  have "drop 24 e ! 0 = e ! 24" using l by simp
  moreover have "e ! 24 = 0xFF" using a l by (simp add: replay_entry_is_erased_def list_all_length)
  ultimately show False using c by (simp add: REPLAY_ENTRY_COMMIT_def)
qed

lemma merge_replay_result:
  assumes "merge_replay tc xs u = (ys, r)" "is_aps u" "\<forall>x\<in>set xs. is_aps x"
  shows "\<forall>y\<in>set ys. is_aps y" "r = Inr v \<Longrightarrow> covers ys u" "x \<in> set xs \<Longrightarrow> covers ys x"
proof -
  have rf: "set zs \<subseteq> insert u (set xs)" if "raise_first u xs = Some zs" for zs xs
    using that by (induction xs arbitrary: zs) (auto split: if_splits)
  show "\<forall>y\<in>set ys. is_aps y" using assms rf[of xs ys] by (auto simp: merge_replay_def split: option.splits if_splits)
  show "covers ys u" if "r = Inr v" using merge_replay_covers(1)[of tc xs u ys] assms(1) that by simp
  have "r = Inr () \<or> ys = xs" using assms(1) by (auto simp: merge_replay_def split: option.splits if_splits)
  then show "covers ys x" if "x \<in> set xs" using merge_replay_covers(2)[of tc xs u ys x] assms(1) that covers_member by auto
qed

lemma scan_entries_spec:
  assumes "scan_entries tc r ns xs = (ys, res)" "\<forall>x\<in>set xs. is_aps x"
  shows "(\<forall>y\<in>set ys. is_aps y) \<and> (\<forall>x\<in>set xs. covers ys x) \<and>
     (res = Inr () \<longrightarrow> (\<forall>us n vs y. ns = us @ n # vs \<longrightarrow> (\<forall>m\<in>set us. decode_replay_entry (replay_entry_at r m) \<noteq> None) \<longrightarrow>
        decode_replay_entry (replay_entry_at r n) = Some y \<longrightarrow> is_aps y \<longrightarrow> covers ys y))"
  using assms
proof (induction ns arbitrary: xs)
  case Nil
  then show ?case using covers_member by simp
next
  case (Cons m ns)
  let ?e = "replay_entry_at r m"
  show ?case
  proof (cases "decode_replay_entry ?e")
    case None
    then have ys: "ys = xs" using Cons.prems(1) by (auto simp: Let_def split: if_splits)
    have "us = []" "n = m" if "m # ns = us @ n # vs" "\<forall>m\<in>set us. decode_replay_entry (replay_entry_at r m) \<noteq> None" for us n vs
      using that None by (cases us; auto)+
    then show ?thesis using ys Cons.prems(2) covers_member None by (metis option.distinct(1))
  next
    case (Some z)
    have ne: "\<not> replay_entry_is_erased ?e" by (rule decoded_not_erased[OF Some])
    have split: "(us = [] \<and> n = m) \<or> (\<exists>us'. us = m # us' \<and> ns = us' @ n # vs)" if "m # ns = us @ n # vs" for us n vs
      using that by (cases us) auto
    show ?thesis
    proof (cases z)
      case (NwkFloor w)
      then have "scan_entries tc r ns xs = (ys, res)" using Cons.prems(1) Some ne by (simp add: Let_def)
      note IH = Cons.IH[OF this Cons.prems(2)]
      have "covers ys y" if "res = Inr ()" "m # ns = us @ n # vs" "\<forall>m\<in>set us. decode_replay_entry (replay_entry_at r m) \<noteq> None"
        "decode_replay_entry (replay_entry_at r n) = Some y" "is_aps y" for us n vs y
      proof -
        from split[OF that(2)] show ?thesis
        proof
          assume "us = [] \<and> n = m"
          then have "y = z" using that(4) Some by simp
          then show ?thesis using that(5) NwkFloor by (simp add: is_aps_def)
        next
          assume "\<exists>us'. us = m # us' \<and> ns = us' @ n # vs"
          then obtain us' where us': "us = m # us'" "ns = us' @ n # vs" by blast
          have "\<forall>m\<in>set us'. decode_replay_entry (replay_entry_at r m) \<noteq> None" using that(3) us'(1) by simp
          then show ?thesis using IH that(1,4,5) us'(2) by blast
        qed
      qed
      then show ?thesis using IH by blast
    next
      case (ApsFloor w)
      obtain zs q where mr: "merge_replay tc xs z = (zs, q)" by fastforce
      have az: "is_aps z" using ApsFloor by (simp add: is_aps_def)
      note m = merge_replay_result[OF mr az Cons.prems(2)]
      show ?thesis
      proof (cases q)
        case (Inl e)
        then have "ys = zs" "res = Inl e" using Cons.prems(1) Some ne ApsFloor mr by (simp_all add: Let_def)
        then show ?thesis using m by simp
      next
        case (Inr v)
        then have "scan_entries tc r ns zs = (ys, res)" using Cons.prems(1) Some ne ApsFloor mr by (simp add: Let_def)
        note IH = Cons.IH[OF this m(1)]
        have up: "covers ys x" if "covers zs x" for x using covers_trans[OF that] IH by blast
        have "covers ys y" if "res = Inr ()" "m # ns = us @ n # vs" "\<forall>m\<in>set us. decode_replay_entry (replay_entry_at r m) \<noteq> None"
          "decode_replay_entry (replay_entry_at r n) = Some y" "is_aps y" for us n vs y
        proof -
          from split[OF that(2)] show ?thesis
          proof
            assume "us = [] \<and> n = m"
            then have "y = z" using that(4) Some by simp
            then show ?thesis using up[OF m(2)[OF Inr]] by simp
          next
            assume "\<exists>us'. us = m # us' \<and> ns = us' @ n # vs"
            then obtain us' where us': "us = m # us'" "ns = us' @ n # vs" by blast
            have "\<forall>m\<in>set us'. decode_replay_entry (replay_entry_at r m) \<noteq> None" using that(3) us'(1) by simp
            then show ?thesis using IH that(1,4,5) us'(2) by blast
          qed
        qed
        then show ?thesis using IH up[OF m(3)] by blast
      qed
    qed
  qed
qed

lemma scan_entries_visible:
  assumes "scan_entries tc r [0..<REPLAY_ENTRIES_PER_SLOT] xs = (ys, Inr u)" "\<forall>x\<in>set xs. is_aps x" "visible r n y" "n < 4" "is_aps y"
  shows "covers ys y"
proof -
  have "[0..<4] = [0..<n] @ n # [Suc n..<4]" using assms(4) by (metis upt_add_eq_append upt_conv_Cons le_add_diff_inverse less_imp_le_nat zero_le)
  moreover have "\<forall>m\<in>set [0..<n]. decode_replay_entry (replay_entry_at r m) \<noteq> None" and y: "decode_replay_entry (replay_entry_at r n) = Some y"
    using assms(3) unfolding visible_def by simp_all
  moreover have "(Inr u :: SecurityStoreError + unit) = Inr ()" by simp
  ultimately show ?thesis
    using scan_entries_spec[OF assms(1,2), THEN conjunct2, THEN conjunct2, rule_format] assms(5) unfolding REPLAY_ENTRIES_PER_SLOT_def by blast
qed

lemma raise_first_set: "raise_first u xs = Some zs \<Longrightarrow> set zs \<subseteq> insert u (set xs)"
  by (induction xs arbitrary: zs) (auto split: if_splits)

lemma merge_replay_set: "merge_replay tc xs u = (ys, r) \<Longrightarrow> set ys \<subseteq> insert u (set xs)"
  using raise_first_set[of u xs ys] by (auto simp: merge_replay_def split: option.splits if_splits)

text \<open>Nothing enters the cache but what a slot holds.\<close>

lemma scan_entries_origin:
  assumes "scan_entries tc r ns xs = (ys, res)" "y \<in> set ys"
  shows "y \<in> set xs \<or> is_aps y \<and> (\<exists>us n vs. ns = us @ n # vs \<and> (\<forall>m\<in>set us. decode_replay_entry (replay_entry_at r m) \<noteq> None) \<and>
     decode_replay_entry (replay_entry_at r n) = Some y)"
  using assms
proof (induction ns arbitrary: xs)
  case (Cons m ns)
  show ?case
  proof (cases "decode_replay_entry (replay_entry_at r m)")
    case None
    then show ?thesis using Cons.prems by (auto simp: Let_def split: if_splits)
  next
    case (Some z)
    have ne: "\<not> replay_entry_is_erased (replay_entry_at r m)" by (rule decoded_not_erased[OF Some])
    have ext: "\<exists>us n vs. m # ns = us @ n # vs \<and> (\<forall>m\<in>set us. decode_replay_entry (replay_entry_at r m) \<noteq> None) \<and>
       decode_replay_entry (replay_entry_at r n) = Some y"
      if ex: "\<exists>us n vs. ns = us @ n # vs \<and> (\<forall>m\<in>set us. decode_replay_entry (replay_entry_at r m) \<noteq> None) \<and> decode_replay_entry (replay_entry_at r n) = Some y"
    proof -
      obtain us n vs where u: "ns = us @ n # vs" "\<forall>m\<in>set us. decode_replay_entry (replay_entry_at r m) \<noteq> None"
        "decode_replay_entry (replay_entry_at r n) = Some y"
        using ex by blast
      then have "m # ns = (m # us) @ n # vs" "\<forall>m\<in>set (m # us). decode_replay_entry (replay_entry_at r m) \<noteq> None" using Some by simp_all
      then show ?thesis using u(3) by blast
    qed
    show ?thesis
    proof (cases z)
      case (NwkFloor w)
      then have "scan_entries tc r ns xs = (ys, res)" using Cons.prems(1) Some ne by (simp add: Let_def)
      then show ?thesis using Cons.IH Cons.prems(2) ext by blast
    next
      case (ApsFloor w)
      obtain zs q where mr: "merge_replay tc xs z = (zs, q)" by fastforce
      have sub: "set zs \<subseteq> insert z (set xs)" by (rule merge_replay_set[OF mr])
      have zz: "is_aps z \<and> (\<exists>us n vs. m # ns = us @ n # vs \<and> (\<forall>m\<in>set us. decode_replay_entry (replay_entry_at r m) \<noteq> None) \<and>
         decode_replay_entry (replay_entry_at r n) = Some z)"
        using Some ApsFloor by (auto simp: is_aps_def intro!: exI[of _ "[]"])
      have "y \<in> set zs \<or> is_aps y \<and> (\<exists>us n vs. ns = us @ n # vs \<and> (\<forall>m\<in>set us. decode_replay_entry (replay_entry_at r m) \<noteq> None) \<and>
         decode_replay_entry (replay_entry_at r n) = Some y)"
        using Cons.prems Some ne ApsFloor mr Cons.IH[of zs] by (cases q) (auto simp: Let_def)
      then show ?thesis using sub zz ext by blast
    qed
  qed
qed simp

lemma scan_entries_found:
  assumes "scan_entries tc r [0..<REPLAY_ENTRIES_PER_SLOT] xs = (ys, res)" "y \<in> set ys" "y \<notin> set xs"
  shows "is_aps y \<and> (\<exists>n<4. visible r n y)"
proof -
  obtain us n vs where u: "[0..<4] = us @ n # vs" "\<forall>m\<in>set us. decode_replay_entry (replay_entry_at r m) \<noteq> None"
      "decode_replay_entry (replay_entry_at r n) = Some y" "is_aps y"
    using scan_entries_origin[OF assms(1,2)] assms(3) unfolding REPLAY_ENTRIES_PER_SLOT_def by blast
  have l: "length us < 4" using arg_cong[OF u(1), of length] by simp
  then have "n = length us" using arg_cong[OF u(1), of "\<lambda>l. l ! length us"] by simp
  moreover have "us = [0..<length us]" using arg_cong[OF u(1), of "take (length us)"] l by (simp add: take_upt)
  then have "\<forall>m<length us. decode_replay_entry (replay_entry_at r m) \<noteq> None" using u(2) by (metis atLeastLessThan_iff le0 set_upt)
  ultimately show ?thesis using u(3,4) l unfolding visible_def by blast
qed

lemma reads_only_replay:
  assumes "reads_only mem T j j'"
  shows "reads_only mem T (j\<lparr>sj_cached_replay := c\<rparr>) (j'\<lparr>sj_cached_replay := c\<rparr>)"
proof -
  obtain f where f: "j' = j\<lparr>sj_storage := f\<rparr>" "mem f = mem (sj_storage j)" "nf_capacity (jt_flash T) f = nf_capacity (jt_flash T) (sj_storage j)"
    using assms unfolding reads_only_def by blast
  then have "j'\<lparr>sj_cached_replay := c\<rparr> = j\<lparr>sj_cached_replay := c\<rparr>\<lparr>sj_storage := f\<rparr>" by (cases j) simp
  then show ?thesis using f unfolding reads_only_def by (intro exI[of _ f]) simp
qed

context journal_flash
begin

lemma scan_replay_loop_spec:
  assumes "scan_replay_loop T j s g ks = (j', r)" "\<not> geometry_invalid T j" "s < 2" "\<forall>k\<in>set ks. k < SLOTS_PER_SECTOR T"
    "\<forall>x\<in>set (sj_cached_replay j). is_aps x"
  shows "(\<exists>c. reads_only mem T (j\<lparr>sj_cached_replay := c\<rparr>) j') \<and> (\<forall>x\<in>set (sj_cached_replay j'). is_aps x) \<and>
     (\<forall>x\<in>set (sj_cached_replay j). covers (sj_cached_replay j') x) \<and>
     (r = Inr () \<longrightarrow> (\<forall>k\<in>set ks. \<forall>n<4. \<forall>y. replay_header_generation (slot_bytes mem j s k) = Some g \<longrightarrow> visible (slot_bytes mem j s k) n y \<longrightarrow>
        is_aps y \<longrightarrow> covers (sj_cached_replay j') y))"
  using assms
proof (induction ks arbitrary: j)
  case Nil
  then have j': "j' = j" by simp
  have "reads_only mem T (j\<lparr>sj_cached_replay := sj_cached_replay j\<rparr>) j" by simp
  then have "\<exists>c. reads_only mem T (j\<lparr>sj_cached_replay := c\<rparr>) j" by blast
  then show ?case using Nil(5) covers_member j' by simp
next
  case (Cons k ks)
  obtain j1 r1 where w: "read_slot T j s k = (j1, r1)" by fastforce
  note ro = read_slot_spec[OF w]
  have c1: "sj_cached_replay j1 = sj_cached_replay j" by (rule reads_only_fields(3)[OF ro(1)])
  have sub: "\<exists>c. reads_only mem T (j\<lparr>sj_cached_replay := c\<rparr>) (j1\<lparr>sj_cached_replay := c'\<rparr>)" for c'
    using reads_only_replay[OF ro(1)] by blast
  have subj: "\<exists>c. reads_only mem T (j\<lparr>sj_cached_replay := c\<rparr>) j''" if "reads_only mem T (j1\<lparr>sj_cached_replay := c'\<rparr>) j''" for c' j''
    using reads_only_trans[OF reads_only_replay[OF ro(1)] that] by blast
  have bytes: "slot_bytes mem (j1\<lparr>sj_cached_replay := c\<rparr>) s k' = slot_bytes mem j s k'" for c k'
    using reads_only_slots(1)[OF ro(1)] by (simp add: slot_bytes_def sector_base_def)
  have geo: "geometry_invalid T (j1\<lparr>sj_cached_replay := c\<rparr>) = geometry_invalid T j" for c
    using reads_only_slots(3)[OF ro(1)] by (simp add: geometry_invalid_def)
  show ?case
  proof (cases r1)
    case (Inl e)
    then have "j' = j1" "r = Inl e" using Cons.prems(1) w by simp_all
    moreover have "\<exists>c. reads_only mem T (j\<lparr>sj_cached_replay := c\<rparr>) j1" using sub[of "sj_cached_replay j1"] by simp
    ultimately show ?thesis using c1 Cons.prems(5) covers_member by simp
  next
    case (Inr b)
    have b: "b = slot_bytes mem j s k" using ro(2)[OF Cons.prems(2,3) _ Inr] Cons.prems(4) by simp
    show ?thesis
    proof (cases "replay_header_generation b = Some g")
      case False
      then have "scan_replay_loop T j1 s g ks = (j', r)" using Cons.prems(1) w Inr by simp
      then have "(\<exists>c. reads_only mem T (j1\<lparr>sj_cached_replay := c\<rparr>) j') \<and> (\<forall>x\<in>set (sj_cached_replay j'). is_aps x) \<and>
         (\<forall>x\<in>set (sj_cached_replay j1). covers (sj_cached_replay j') x) \<and>
         (r = Inr () \<longrightarrow> (\<forall>k\<in>set ks. \<forall>n<4. \<forall>y. replay_header_generation (slot_bytes mem j1 s k) = Some g \<longrightarrow> visible (slot_bytes mem j1 s k) n y \<longrightarrow>
            is_aps y \<longrightarrow> covers (sj_cached_replay j') y))"
        using Cons.IH[of j1] Cons.prems(2-5) reads_only_slots(3)[OF ro(1)] c1 by simp
      then show ?thesis using subj c1 reads_only_slots(1)[OF ro(1)] False b by auto
    next
      case True
      obtain ys q where sc: "scan_entries (jt_trust_center T) b [0..<REPLAY_ENTRIES_PER_SLOT] (sj_cached_replay j1) = (ys, q)" by fastforce
      have aps1: "\<forall>x\<in>set (sj_cached_replay j1). is_aps x" using c1 Cons.prems(5) by simp
      note se = scan_entries_spec[OF sc aps1]
      show ?thesis
      proof (cases q)
        case (Inl e)
        then have "j' = j1\<lparr>sj_cached_replay := ys\<rparr>" "r = Inl e" using Cons.prems(1) w Inr True sc by simp_all
        then show ?thesis using sub[of ys] se c1 by auto
      next
        case q: (Inr v)
        then have "scan_replay_loop T (j1\<lparr>sj_cached_replay := ys\<rparr>) s g ks = (j', r)" using Cons.prems(1) w Inr True sc by simp
        then have IH: "(\<exists>c. reads_only mem T (j1\<lparr>sj_cached_replay := c\<rparr>) j') \<and> (\<forall>x\<in>set (sj_cached_replay j'). is_aps x) \<and>
           (\<forall>x\<in>set ys. covers (sj_cached_replay j') x) \<and>
           (r = Inr () \<longrightarrow> (\<forall>k\<in>set ks. \<forall>n<4. \<forall>y. replay_header_generation (slot_bytes mem j s k) = Some g \<longrightarrow> visible (slot_bytes mem j s k) n y \<longrightarrow>
              is_aps y \<longrightarrow> covers (sj_cached_replay j') y))"
          using Cons.IH[of "j1\<lparr>sj_cached_replay := ys\<rparr>"] Cons.prems(2-5) se by (simp add: geo bytes)
        have up: "covers (sj_cached_replay j') x" if "covers ys x" for x using covers_trans[OF that] IH by blast
        have "covers (sj_cached_replay j') y" if "visible b n y" "n < 4" "is_aps y" for n y
          using up scan_entries_visible[OF sc[unfolded q] aps1 that] by simp
        moreover have "covers (sj_cached_replay j') x" if "x \<in> set (sj_cached_replay j)" for x using up se c1 that by auto
        ultimately show ?thesis using IH subj b by auto
      qed
    qed
  qed
qed

lemma scan_replay_loop_found:
  assumes "scan_replay_loop T j s g ks = (j', r)" "\<not> geometry_invalid T j" "s < 2" "\<forall>k\<in>set ks. k < SLOTS_PER_SECTOR T"
    "x \<in> set (sj_cached_replay j')"
  shows "x \<in> set (sj_cached_replay j) \<or> (\<exists>k<SLOTS_PER_SECTOR T. \<exists>n<4. replay_header_generation (slot_bytes mem j s k) = Some g \<and>
     visible (slot_bytes mem j s k) n x \<and> is_aps x)"
  using assms
proof (induction ks arbitrary: j)
  case (Cons k ks)
  obtain j1 r1 where w: "read_slot T j s k = (j1, r1)" by fastforce
  note ro = read_slot_spec[OF w]
  have c1: "sj_cached_replay j1 = sj_cached_replay j" by (rule reads_only_fields(3)[OF ro(1)])
  have bytes: "slot_bytes mem (j1\<lparr>sj_cached_replay := c\<rparr>) s k' = slot_bytes mem j s k'" for c k'
    using reads_only_slots(1)[OF ro(1)] by (simp add: slot_bytes_def sector_base_def)
  have geo: "geometry_invalid T (j1\<lparr>sj_cached_replay := c\<rparr>) = geometry_invalid T j" for c
    using reads_only_slots(3)[OF ro(1)] by (simp add: geometry_invalid_def)
  show ?case
  proof (cases r1)
    case (Inl e)
    then show ?thesis using Cons.prems(1,5) w c1 by auto
  next
    case (Inr b)
    have b: "b = slot_bytes mem j s k" using ro(2)[OF Cons.prems(2,3) _ Inr] Cons.prems(4) by simp
    have k: "k < SLOTS_PER_SECTOR T" using Cons.prems(4) by simp
    show ?thesis
    proof (cases "replay_header_generation b = Some g")
      case False
      then have "scan_replay_loop T j1 s g ks = (j', r)" using Cons.prems(1) w Inr by simp
      then show ?thesis using Cons.IH[of j1] Cons.prems(2-5) reads_only_slots(1,3)[OF ro(1)] c1 by simp
    next
      case True
      obtain ys q where sc: "scan_entries (jt_trust_center T) b [0..<REPLAY_ENTRIES_PER_SLOT] (sj_cached_replay j1) = (ys, q)" by fastforce
      have ys: "x \<in> set (sj_cached_replay j) \<or> is_aps x \<and> (\<exists>n<4. visible b n x)" if "x \<in> set ys"
        using scan_entries_found[OF sc that] c1 by (cases "x \<in> set (sj_cached_replay j)") simp_all
      have "x \<in> set ys \<or> (\<exists>k<SLOTS_PER_SECTOR T. \<exists>n<4. replay_header_generation (slot_bytes mem j s k) = Some g \<and> visible (slot_bytes mem j s k) n x \<and> is_aps x)"
      proof (cases q)
        case (Inl e)
        then show ?thesis using Cons.prems(1,5) w Inr True sc by auto
      next
        case q: (Inr v)
        then have "scan_replay_loop T (j1\<lparr>sj_cached_replay := ys\<rparr>) s g ks = (j', r)" using Cons.prems(1) w Inr True sc by simp
        then show ?thesis using Cons.IH[of "j1\<lparr>sj_cached_replay := ys\<rparr>"] Cons.prems(2-5) by (simp add: geo bytes)
      qed
      then show ?thesis using ys True k b by blast
    qed
  qed
qed simp

end

section \<open>The invariant of the journal\<close>

abbreviation latest :: "('f \<Rightarrow> nat \<Rightarrow> u8) \<Rightarrow> 'f JournalType \<Rightarrow> 'f SecurityStateJournal \<Rightarrow> LocatedState option" where
  "latest mem T j \<equiv> newest_of (slot_record mem j) (positions T)"

definition quiet :: "('f \<Rightarrow> nat \<Rightarrow> u8) \<Rightarrow> 'f JournalType \<Rightarrow> 'f SecurityStateJournal \<Rightarrow> 'f SecurityStateJournal \<Rightarrow> bool" where
  "quiet mem T j j' \<longleftrightarrow> sj_sectors j' = sj_sectors j \<and> sj_product_tag j' = sj_product_tag j \<and> mem (sj_storage j') = mem (sj_storage j) \<and>
     nf_capacity (jt_flash T) (sj_storage j') = nf_capacity (jt_flash T) (sj_storage j)"

definition journal_ok :: "('f \<Rightarrow> nat \<Rightarrow> u8) \<Rightarrow> 'f JournalType \<Rightarrow> 'f SecurityStateJournal \<Rightarrow> bool" where
  "journal_ok mem T j \<longleftrightarrow>
     unique_generations (slot_record mem j) (positions T) \<and>
     (sj_scanned j \<longrightarrow> sj_cached j = newest_of (slot_record mem j) (positions T)) \<and>
     (\<not> sj_scanned j \<longrightarrow> sj_replay_generation j = None) \<and>
     (\<forall>g. sj_replay_generation j = Some g \<longrightarrow>
        (\<exists>loc. sj_cached j = Some loc \<and> lc_generation loc = g \<and> (\<forall>x\<in>set (sj_cached_replay j). durable mem T j (lc_sector loc) g x))) \<and>
     (\<forall>x\<in>set (sj_cached_replay j). is_aps x)"

lemma quiet_journal_refl [simp]: "quiet mem T j j"
  by (simp add: quiet_def)

lemma quiet_journal_trans: "quiet mem T j j' \<Longrightarrow> quiet mem T j' j'' \<Longrightarrow> quiet mem T j j''"
  by (simp add: quiet_def)

lemma reads_only_quiet: "reads_only mem T j j' \<Longrightarrow> quiet mem T j j'"
  unfolding reads_only_def quiet_def by auto

lemma quiet_slots:
  assumes "quiet mem T j j'"
  shows "slot_bytes mem j' s k = slot_bytes mem j s k" "slot_record mem j' = slot_record mem j" "geometry_invalid T j' = geometry_invalid T j"
    "durable mem T j' s g x = durable mem T j s g x"
proof -
  show b: "slot_bytes mem j' s k = slot_bytes mem j s k" for s k using assms by (simp add: quiet_def slot_bytes_def sector_base_def)
  then show "slot_record mem j' = slot_record mem j" "durable mem T j' s g x = durable mem T j s g x" by (auto simp: slot_record_def durable_def)
  show "geometry_invalid T j' = geometry_invalid T j" using assms by (simp add: quiet_def geometry_invalid_def)
qed

lemma newest_located:
  assumes "unique_generations (slot_record mem j) (positions T)" "newest_of (slot_record mem j) (positions T) = Some loc"
  shows "lc_sector loc < 2" "\<And>q x. q \<in> set (positions T) \<Longrightarrow> slot_record mem j q = Some x \<Longrightarrow> lc_generation x \<le> lc_generation loc"
    "ss_sized (lc_state loc)" "validate (lc_state loc) = Inr ()"
proof -
  obtain p where b: "best_at (slot_record mem j) (positions T) p loc"
    using newest_unique[OF distinct_positions assms(1)] assms(2) by (metis option.distinct(1) option.inject)
  then have p: "p \<in> set (positions T)" "slot_record mem j p = Some loc" by (auto simp: best_at_def)
  then show "lc_sector loc < 2" using position_iff[of p T] by (auto simp: slot_record_def located_in_def)
  show "lc_generation x \<le> lc_generation loc" if "q \<in> set (positions T)" "slot_record mem j q = Some x" for q x
    using b that p by (cases "q = p") (auto simp: best_at_def intro: less_imp_le)
  obtain g where "decode_record (slot_bytes mem j (fst p) (snd p)) = Some (g, lc_state loc)"
    using p(2) by (auto simp: slot_record_def located_in_def)
  then show "ss_sized (lc_state loc)" "validate (lc_state loc) = Inr ()" using decode_record_valid by auto
qed

context journal_flash
begin

lemma current_spec:
  assumes "journal_current T j = (j', r)" "journal_ok mem T j"
  shows "quiet mem T j j'" "journal_ok mem T j'" "sj_cached_replay j' = sj_cached_replay j"
    "r = Inr x \<Longrightarrow> x = newest_of (slot_record mem j) (positions T) \<and> sj_cached j' = x \<and> sj_scanned j' \<and> \<not> geometry_invalid T j"
    "sj_replay_generation j' = sj_replay_generation j"
proof -
  have *: "quiet mem T j j' \<and> journal_ok mem T j' \<and> sj_cached_replay j' = sj_cached_replay j \<and> sj_replay_generation j' = sj_replay_generation j \<and>
    (\<forall>x. r = Inr x \<longrightarrow> x = newest_of (slot_record mem j) (positions T) \<and> sj_cached j' = x \<and> sj_scanned j' \<and> \<not> geometry_invalid T j)"
  proof (cases "geometry_invalid T j \<or> sj_scanned j")
    case True
    then have "j' = j" "r = (if geometry_invalid T j then Inl StoreHardware else Inr (sj_cached j))"
      using assms(1) True unfolding journal_current_def by (cases "geometry_invalid T j"; simp)+
    then show ?thesis using assms(2) True by (auto simp: journal_ok_def)
  next
    case False
    then have geo: "\<not> geometry_invalid T j" by simp
    obtain j1 r1 where w: "journal_newest T j = (j1, r1)" by fastforce
    note n = journal_newest_spec[OF w geo]
    note f = reads_only_fields[OF n(1)] and q = reads_only_quiet[OF n(1)]
    show ?thesis
    proof (cases r1)
      case (Inl e)
      then have "j' = j1" "r = Inl e" using assms(1) False w by (simp_all add: journal_current_def)
      then show ?thesis using q f assms(2) quiet_slots[OF q] by (simp add: journal_ok_def)
    next
      case (Inr y)
      then have j': "j' = j1\<lparr>sj_cached := y, sj_scanned := True\<rparr>" "r = Inr y" using assms(1) False w by (simp_all add: journal_current_def)
      then have q': "quiet mem T j j'" using q by (simp add: quiet_def)
      have rg: "sj_replay_generation j = None" using assms(2) False by (simp add: journal_ok_def)
      have "journal_ok mem T j'"
        using assms(2) f rg j'(1) n(2)[OF Inr] unfolding journal_ok_def quiet_slots[OF q'] by simp
      then show ?thesis using q' j' f n(2)[OF Inr] geo by simp
    qed
  qed
  show "quiet mem T j j'" "journal_ok mem T j'" "sj_cached_replay j' = sj_cached_replay j" "sj_replay_generation j' = sj_replay_generation j" using * by blast+
  show "r = Inr x \<Longrightarrow> x = newest_of (slot_record mem j) (positions T) \<and> sj_cached j' = x \<and> sj_scanned j' \<and> \<not> geometry_invalid T j"
    using * by blast
qed

lemma ensure_spec:
  assumes w: "ensure_replay_cache T j loc = (j', r)" and ok: "journal_ok mem T j" and st: "sj_scanned j" "sj_cached j = Some loc"
    and geo: "\<not> geometry_invalid T j"
  shows "quiet mem T j j'" "journal_ok mem T j'" "sj_scanned j'" "sj_cached j' = Some loc"
    "r = Inr u \<Longrightarrow> sj_replay_generation j' = Some (lc_generation loc)"
    "r = Inr u \<Longrightarrow> sj_replay_generation j = None \<Longrightarrow> durable mem T j (lc_sector loc) (lc_generation loc) x \<Longrightarrow> covers (sj_cached_replay j') x"
proof -
  have nw: "newest_of (slot_record mem j) (positions T) = Some loc" and un: "unique_generations (slot_record mem j) (positions T)"
    using ok st by (simp_all add: journal_ok_def)
  note loc = newest_located[OF un nw]
  have *: "quiet mem T j j' \<and> journal_ok mem T j' \<and> sj_scanned j' \<and> sj_cached j' = Some loc \<and>
    (\<forall>u. r = Inr u \<longrightarrow> sj_replay_generation j' = Some (lc_generation loc)) \<and>
    (\<forall>u x. r = Inr u \<longrightarrow> sj_replay_generation j = None \<longrightarrow> durable mem T j (lc_sector loc) (lc_generation loc) x \<longrightarrow> covers (sj_cached_replay j') x)"
  proof (cases "sj_replay_generation j = Some (lc_generation loc)")
    case True
    then have "j' = j" "r = Inr ()" using w by (simp_all add: ensure_replay_cache_def)
    then show ?thesis using ok st True by simp
  next
    case False
    let ?j0 = "j\<lparr>sj_replay_generation := None, sj_cached_replay := []\<rparr>"
    obtain j1 r1 where l: "scan_replay_loop T ?j0 (lc_sector loc) (lc_generation loc) [0..<SLOTS_PER_SECTOR T] = (j1, r1)" by fastforce
    have sc: "scan_replay_into_cache T (j\<lparr>sj_replay_generation := None\<rparr>) (lc_sector loc) (lc_generation loc) = (j1, r1)"
      using l by (simp add: scan_replay_into_cache_def)
    have q0: "quiet mem T j ?j0" by (simp add: quiet_def)
    have geo0: "\<not> geometry_invalid T ?j0" using quiet_slots(3)[OF q0] geo by simp
    have ks: "\<forall>k\<in>set [0..<SLOTS_PER_SECTOR T]. k < SLOTS_PER_SECTOR T" by simp
    have s: "(\<exists>c. reads_only mem T (?j0\<lparr>sj_cached_replay := c\<rparr>) j1) \<and> (\<forall>x\<in>set (sj_cached_replay j1). is_aps x) \<and>
       (r1 = Inr () \<longrightarrow> (\<forall>k\<in>set [0..<SLOTS_PER_SECTOR T]. \<forall>n<4. \<forall>y. replay_header_generation (slot_bytes mem ?j0 (lc_sector loc) k) = Some (lc_generation loc) \<longrightarrow>
          visible (slot_bytes mem ?j0 (lc_sector loc) k) n y \<longrightarrow> is_aps y \<longrightarrow> covers (sj_cached_replay j1) y))"
      using scan_replay_loop_spec[OF l geo0 loc(1) ks] by simp
    obtain c where c: "reads_only mem T (?j0\<lparr>sj_cached_replay := c\<rparr>) j1" using s by blast
    have f: "sj_cached j1 = Some loc" "sj_scanned j1" "sj_replay_generation j1 = None" "sj_cached_replay j1 = c"
      using reads_only_fields[OF c] st by simp_all
    have q1: "quiet mem T j j1" using quiet_journal_trans[of mem T j "?j0\<lparr>sj_cached_replay := c\<rparr>" j1] reads_only_quiet[OF c] by (simp add: quiet_def)
    show ?thesis
    proof (cases r1)
      case (Inl e)
      then have j': "j' = j1\<lparr>sj_cached_replay := []\<rparr>" "r = Inl e" using w False sc by (simp_all add: ensure_replay_cache_def)
      then have q': "quiet mem T j j'" using q1 by (simp add: quiet_def)
      have "journal_ok mem T j'" using un nw f j'(1) unfolding journal_ok_def quiet_slots[OF q'] by simp
      then show ?thesis using q' f j' by simp
    next
      case (Inr v)
      then have j': "j' = j1\<lparr>sj_replay_generation := Some (lc_generation loc)\<rparr>" "r = Inr ()"
        using w False sc by (simp_all add: ensure_replay_cache_def)
      then have q': "quiet mem T j j'" using q1 by (simp add: quiet_def)
      have cr: "sj_cached_replay j' = sj_cached_replay j1" using j'(1) by simp
      have dur: "durable mem T j (lc_sector loc) (lc_generation loc) x" if "x \<in> set (sj_cached_replay j1)" for x
      proof -
        have "\<exists>k<SLOTS_PER_SECTOR T. \<exists>n<4. replay_header_generation (slot_bytes mem ?j0 (lc_sector loc) k) = Some (lc_generation loc) \<and>
            visible (slot_bytes mem ?j0 (lc_sector loc) k) n x \<and> is_aps x"
          using scan_replay_loop_found[OF l geo0 loc(1) ks that] by simp
        then show ?thesis unfolding durable_def quiet_slots(1)[OF q0] by (meson order_refl same_domain_refl)
      qed
      have "journal_ok mem T j'"
        using un nw f j'(1) s dur unfolding journal_ok_def quiet_slots[OF q'] by simp
      moreover have "covers (sj_cached_replay j') x" if dx: "durable mem T j (lc_sector loc) (lc_generation loc) x" for x
      proof -
        obtain k n y where k: "k < SLOTS_PER_SECTOR T" "n < 4" "replay_header_generation (slot_bytes mem j (lc_sector loc) k) = Some (lc_generation loc)"
          "visible (slot_bytes mem j (lc_sector loc) k) n y" "is_aps y" "same_domain y x" "floor_counter x \<le> floor_counter y"
          using dx unfolding durable_def by blast
        have "covers (sj_cached_replay j1) y" using s Inr k(1-5) quiet_slots(1)[OF q0] by simp
        then show ?thesis unfolding cr by (rule covers_weaken[OF _ k(6,7)])
      qed
      ultimately show ?thesis using q' f j' by simp
    qed
  qed
  show "quiet mem T j j'" "journal_ok mem T j'" "sj_scanned j'" "sj_cached j' = Some loc" using * by blast+
  show "r = Inr u \<Longrightarrow> sj_replay_generation j' = Some (lc_generation loc)" using * by blast
  show "r = Inr u \<Longrightarrow> sj_replay_generation j = None \<Longrightarrow> durable mem T j (lc_sector loc) (lc_generation loc) x \<Longrightarrow> covers (sj_cached_replay j') x"
    using * by blast
qed

lemma holds_durable:
  assumes h: "\<forall>i<length xs. holds_entry mem j s g (first + i div 4) (i mod 4) (xs ! i) \<and> first + i div 4 < SLOTS_PER_SECTOR T"
    and aps: "\<forall>x\<in>set xs. is_aps x" and x: "x \<in> set xs"
  shows "durable mem T j s g x"
proof -
  obtain i where i: "i < length xs" "xs ! i = x" using x by (auto simp: in_set_conv_nth)
  let ?k = "first + i div 4"
  obtain y where y: "replay_header_generation (slot_bytes mem j s ?k) = Some g" "decode_replay_entry (replay_entry_at (slot_bytes mem j s ?k) (i mod 4)) = Some y"
      "replay_eq y x"
    using h[rule_format, OF i(1)] i(2) unfolding holds_entry_def by blast
  have "decode_replay_entry (replay_entry_at (slot_bytes mem j s ?k) m) \<noteq> None" if m: "m < i mod 4" for m
  proof -
    define i' where "i' = 4 * (i div 4) + m"
    have m4: "m < 4" using m by (meson less_trans mod_less_divisor zero_less_numeral)
    have i': "i' div 4 = i div 4" "i' mod 4 = m" using m4 by (simp_all add: i'_def)
    have "i' < length xs" unfolding i'_def using m i(1) mult_div_mod_eq[of 4 i] by linarith
    then show ?thesis using h[rule_format, of i'] i' unfolding holds_entry_def by auto
  qed
  then have "visible (slot_bytes mem j s ?k) (i mod 4) y" using y(2) unfolding visible_def by blast
  moreover have "is_aps y" using replay_eq_aps[OF y(3)] aps x by blast
  moreover have "?k < SLOTS_PER_SECTOR T" using h i(1) by blast
  moreover have "same_domain y x" "floor_counter x \<le> floor_counter y" "i mod 4 < 4" using replay_eq_domain[OF y(3)] by simp_all
  ultimately show ?thesis using y(1) unfolding durable_def by blast
qed

lemma commit_generation_spec:
  fixes j :: "'f SecurityStateJournal" and st :: PersistentSecurityState
  assumes w: "commit_generation T j cs ro g st = (j', r)" and geo: "\<not> geometry_invalid T j"
    and un: "unique_generations (slot_record mem j) (positions T)"
    and sc: "sj_scanned j" "sj_cached j = newest_of (slot_record mem j) (positions T)" and cs: "cs = map_option lc_sector (sj_cached j)"
    and top: "\<forall>q x. q \<in> set (positions T) \<longrightarrow> slot_record mem j q = Some x \<longrightarrow> lc_generation x < g" and sz: "ss_sized st"
    and aps: "\<forall>x\<in>set (sj_cached_replay j). is_aps x"
  defines "fresh \<equiv> \<lambda>loc. lc_state loc = st \<and> lc_generation loc = g \<and> lc_tag loc = tag_for_commit j"
  shows "journal_ok mem T j'" "sj_sectors j' = sj_sectors j"
    "newest_of (slot_record mem j') (positions T) = newest_of (slot_record mem j) (positions T) \<or>
      (\<exists>loc. newest_of (slot_record mem j') (positions T) = Some loc \<and> fresh loc)"
    "r = Inr u \<Longrightarrow> \<exists>loc. newest_of (slot_record mem j') (positions T) = Some loc \<and> fresh loc \<and>
      (\<forall>x\<in>set (sj_cached_replay j). durable mem T j' (lc_sector loc) g x)"
proof -
  let ?ps = "positions T" and ?tag = "tag_for_commit j"
  obtain j1 r1 where w1: "write_generation T j cs ro g st ?tag = (j1, r1)" by fastforce
  have cs': "cs = map_option lc_sector (newest_of (slot_record mem j) ?ps)" using cs sc(2) by simp
  note s = write_generation_spec[OF w1 geo cs' un top sz]
  obtain S where S: "only_slots mem T j j1 S" using s(1) by blast
  note f = only_slots_fields[OF S]
  have *: "journal_ok mem T j' \<and> sj_sectors j' = sj_sectors j \<and>
    (newest_of (slot_record mem j') ?ps = newest_of (slot_record mem j) ?ps \<or> (\<exists>loc. newest_of (slot_record mem j') ?ps = Some loc \<and> fresh loc)) \<and>
    (\<forall>u. r = Inr u \<longrightarrow> (\<exists>loc. newest_of (slot_record mem j') ?ps = Some loc \<and> fresh loc \<and> (\<forall>x\<in>set (sj_cached_replay j). durable mem T j' (lc_sector loc) g x)))"
  proof (cases r1)
    case (Inl e)
    then have j': "j' = journal_invalidate j1" "r = Inl e" using w w1 by (simp_all add: commit_generation_def)
    then have q: "quiet mem T j1 j'" by (simp add: quiet_def journal_invalidate_def)
    have "journal_ok mem T j'" using s(2) unfolding journal_ok_def quiet_slots[OF q] by (simp add: j' journal_invalidate_def)
    moreover have "(newest_of (slot_record mem j1) ?ps = newest_of (slot_record mem j) ?ps \<or> (\<exists>loc. newest_of (slot_record mem j1) ?ps = Some loc \<and> fresh loc))"
      using s(3) unfolding fresh_def by auto
    ultimately show ?thesis using j' f(1) quiet_slots(2)[OF q] by (simp add: journal_invalidate_def)
  next
    case (Inr t)
    define loc where "loc = \<lparr>lc_generation = g, lc_sector = t, lc_state = st, lc_tag = ?tag\<rparr>"
    have j': "j' = j1\<lparr>sj_cached := Some loc, sj_replay_generation := Some g\<rparr>" "r = Inr ()"
      using w w1 Inr by (simp_all add: commit_generation_def loc_def)
    have q: "quiet mem T j1 j'" using j' by (simp add: quiet_def)
    note t = s(4)[OF Inr, folded loc_def]
    obtain first where h: "\<forall>i<length (sj_cached_replay j). holds_entry mem j1 t g (first + i div 4) (i mod 4) (sj_cached_replay j ! i) \<and>
        first + i div 4 < SLOTS_PER_SECTOR T"
      using t by blast
    have dur: "\<forall>x\<in>set (sj_cached_replay j). durable mem T j1 t g x" using holds_durable[OF h aps] by blast
    have "journal_ok mem T j'" using s(2) t dur f(3,5) sc(1) aps unfolding journal_ok_def quiet_slots[OF q] by (simp add: j'(1) loc_def)
    then show ?thesis using t dur f(1) j' quiet_slots[OF q] by (simp add: fresh_def loc_def)
  qed
  show "journal_ok mem T j'" "sj_sectors j' = sj_sectors j" using * by blast+
  show "newest_of (slot_record mem j') ?ps = newest_of (slot_record mem j) ?ps \<or> (\<exists>loc. newest_of (slot_record mem j') ?ps = Some loc \<and> fresh loc)" using * by blast
  show "r = Inr u \<Longrightarrow> \<exists>loc. newest_of (slot_record mem j') ?ps = Some loc \<and> fresh loc \<and> (\<forall>x\<in>set (sj_cached_replay j). durable mem T j' (lc_sector loc) g x)"
    using * by blast
qed

lemma next_generation_top:
  assumes "unique_generations (slot_record mem j) (positions T)" "next_generation (newest_of (slot_record mem j) (positions T)) = Some g"
    "q \<in> set (positions T)" "slot_record mem j q = Some x"
  shows "lc_generation x < g"
  using distinct_positions assms(1)
proof (cases rule: newest_unique)
  case none
  then show ?thesis using assms(3,4) by simp
next
  case (some p r)
  have g: "lc_generation r \<noteq> - 1" "g = lc_generation r + 1"
    using assms(2) some(1) by (auto simp: next_generation_def u32_checked_inc_def split: if_splits)
  have "lc_generation x \<le> lc_generation r" by (rule newest_located(2)[OF assms(1) some(1) assms(3,4)])
  moreover have "1 + lc_generation r \<noteq> 0" using g(1) by (simp add: add_eq_0_iff)
  then have "lc_generation r < lc_generation r + 1" using unatSuc[of "lc_generation r"] by (simp add: word_less_nat_alt add.commute)
  ultimately show ?thesis using g(2) by simp
qed

lemma ok_clear: "journal_ok mem T j \<Longrightarrow> journal_ok mem T (j\<lparr>sj_cached_replay := [], sj_replay_generation := None\<rparr>)"
proof -
  assume ok: "journal_ok mem T j"
  have q: "quiet mem T j (j\<lparr>sj_cached_replay := [], sj_replay_generation := None\<rparr>)" by (simp add: quiet_def)
  show ?thesis using ok unfolding journal_ok_def quiet_slots[OF q] by simp
qed

lemma ok_set_cache:
  assumes "journal_ok mem T j" "set c \<subseteq> set (sj_cached_replay j)"
  shows "journal_ok mem T (j\<lparr>sj_cached_replay := c\<rparr>)"
proof -
  have q: "quiet mem T j (j\<lparr>sj_cached_replay := c\<rparr>)" by (simp add: quiet_def)
  show ?thesis using assms(1) subsetD[OF assms(2)] unfolding journal_ok_def quiet_slots[OF q] by fastforce
qed

text \<open>Committing the next generation with a staged cache.\<close>

lemma commit_next_spec:
  assumes w: "commit_generation T (j\<lparr>sj_cached_replay := c\<rparr>) (map_option lc_sector (latest mem T j)) ro g st = (j', r)"
    and ok: "journal_ok mem T j" and sc: "sj_scanned j" and geo: "\<not> geometry_invalid T j"
    and g: "next_generation (latest mem T j) = Some g" and sz: "ss_sized st" and aps: "\<forall>x\<in>set c. is_aps x"
  shows "journal_ok mem T j'" "sj_sectors j' = sj_sectors j"
    "latest mem T j' = latest mem T j \<or> (\<exists>loc. latest mem T j' = Some loc \<and> lc_state loc = st)"
    "r = Inr u \<Longrightarrow> \<exists>loc. latest mem T j' = Some loc \<and> lc_state loc = st \<and> (\<forall>x\<in>set c. durable mem T j' (lc_sector loc) (lc_generation loc) x)"
proof -
  let ?j = "j\<lparr>sj_cached_replay := c\<rparr>"
  have q: "quiet mem T j ?j" by (simp add: quiet_def)
  note e = quiet_slots[OF q]
  have un: "unique_generations (slot_record mem ?j) (positions T)" and ca: "sj_cached ?j = latest mem T ?j"
    using ok sc unfolding journal_ok_def e(2) by simp_all
  have top: "\<forall>q x. q \<in> set (positions T) \<longrightarrow> slot_record mem ?j q = Some x \<longrightarrow> lc_generation x < g"
    using next_generation_top[of ?j g] un g unfolding e(2) by blast
  have cs: "map_option lc_sector (latest mem T j) = map_option lc_sector (sj_cached ?j)" using ca unfolding e(2) by simp
  have geo': "\<not> geometry_invalid T ?j" using geo e(3) by simp
  have sc': "sj_scanned ?j" using sc by simp
  have aps': "\<forall>x\<in>set (sj_cached_replay ?j). is_aps x" using aps by simp
  note s = commit_generation_spec[OF w geo' un sc' ca cs top sz aps', unfolded e(2)]
  show "journal_ok mem T j'" by (rule s(1))
  show "sj_sectors j' = sj_sectors j" using s(2) by simp
  show "latest mem T j' = latest mem T j \<or> (\<exists>loc. latest mem T j' = Some loc \<and> lc_state loc = st)" using s(3) by auto
  show "\<exists>loc. latest mem T j' = Some loc \<and> lc_state loc = st \<and> (\<forall>x\<in>set c. durable mem T j' (lc_sector loc) (lc_generation loc) x)" if "r = Inr u"
    using s(4)[OF that] by auto
qed

lemma store_spec:
  assumes w: "journal_store T j st = (j', r)" and ok: "journal_ok mem T j" and sz: "ss_sized st"
  shows "journal_ok mem T j'" "sj_sectors j' = sj_sectors j"
    "latest mem T j' = latest mem T j \<or> (\<exists>loc. latest mem T j' = Some loc \<and> lc_state loc = st)"
    "r = Inr u \<Longrightarrow> \<exists>loc. latest mem T j' = Some loc \<and> lc_state loc = st \<and>
       (\<forall>j0 l0 loc0. journal_visit_replay_counters T j = (j0, Inr l0) \<longrightarrow> latest mem T j = Some loc0 \<longrightarrow> preserves_replay (lc_state loc0) st \<longrightarrow>
          (\<forall>x\<in>set l0. durable mem T j' (lc_sector loc) (lc_generation loc) x))"
proof -
  obtain j1 r1 where w1: "journal_current T j = (j1, r1)" by fastforce
  note s1 = current_spec[OF w1 ok]
  have sec1: "sj_sectors j1 = sj_sectors j" using s1(1) by (simp add: quiet_def)
  have *: "journal_ok mem T j' \<and> sj_sectors j' = sj_sectors j \<and>
    (latest mem T j' = latest mem T j \<or> (\<exists>loc. latest mem T j' = Some loc \<and> lc_state loc = st)) \<and>
    (\<forall>u. r = Inr u \<longrightarrow> (\<exists>loc. latest mem T j' = Some loc \<and> lc_state loc = st \<and>
       (\<forall>j0 l0 loc0. journal_visit_replay_counters T j = (j0, Inr l0) \<longrightarrow> latest mem T j = Some loc0 \<longrightarrow> preserves_replay (lc_state loc0) st \<longrightarrow>
          (\<forall>x\<in>set l0. durable mem T j' (lc_sector loc) (lc_generation loc) x))))"
  proof (cases r1)
    case (Inl e)
    then have "j' = j1" "r = Inl e" using w w1 by (simp_all add: journal_store_def)
    then show ?thesis using s1(2) sec1 quiet_slots(2)[OF s1(1)] by simp
  next
    case (Inr cur)
    note c = s1(4)[OF Inr]
    have geo1: "\<not> geometry_invalid T j1" using c quiet_slots(3)[OF s1(1)] by simp
    show ?thesis
    proof (cases "next_generation cur")
      case None
      then have "j' = j1" "r = Inl GenerationExhausted" using w w1 Inr by (simp_all add: journal_store_def)
      then show ?thesis using s1(2) sec1 quiet_slots(2)[OF s1(1)] by simp
    next
      case (Some g)
      obtain j2 r2 where w2: "stage_replay T j1 cur st = (j2, r2)" by fastforce
      have st2: "quiet mem T j1 j2 \<and> journal_ok mem T j2 \<and> sj_scanned j2 \<and>
        (\<forall>j0 l0 loc0. r2 = Inr () \<longrightarrow> journal_visit_replay_counters T j = (j0, Inr l0) \<longrightarrow> cur = Some loc0 \<longrightarrow> preserves_replay (lc_state loc0) st \<longrightarrow>
           l0 = sj_cached_replay j2)"
      proof (cases "case cur of None \<Rightarrow> False | Some located \<Rightarrow> preserves_replay (lc_state located) st")
        case True
        then obtain loc where loc: "cur = Some loc" by (cases cur) auto
        have en: "ensure_replay_cache T j1 loc = (j2, r2)" using w2 True loc by (simp add: stage_replay_def)
        have ca: "sj_scanned j1" "sj_cached j1 = Some loc" using c loc by simp_all
        note e = ensure_spec[OF en s1(2) ca geo1]
        show ?thesis using e(1-3) en w1 Inr loc by (auto simp: journal_visit_replay_counters_def)
      next
        case False
        then have "j2 = j1\<lparr>sj_cached_replay := [], sj_replay_generation := None\<rparr>" using w2 by (auto simp: stage_replay_def)
        then show ?thesis using False ok_clear[OF s1(2)] c by (auto simp: quiet_def)
      qed
      have q2: "quiet mem T j j2" using quiet_journal_trans[OF s1(1)] st2 by blast
      have sec2: "sj_sectors j2 = sj_sectors j" using q2 by (simp add: quiet_def)
      have lt: "latest mem T j2 = cur" using quiet_slots(2)[OF q2] c by simp
      show ?thesis
      proof (cases r2)
        case i2: (Inl e)
        then have "j' = j2" "r = Inl e" using w w1 Inr Some w2 by (simp_all add: journal_store_def)
        then show ?thesis using st2 sec2 quiet_slots(2)[OF q2] by simp
      next
        case i2: (Inr v)
        have w3: "commit_generation T (j2\<lparr>sj_cached_replay := sj_cached_replay j2\<rparr>) (map_option lc_sector (latest mem T j2)) False g st = (j', r)"
          using w w1 Inr Some w2 i2 lt by (simp add: journal_store_def)
        have geo2: "\<not> geometry_invalid T j2" using c quiet_slots(3)[OF q2] by simp
        have g2: "next_generation (latest mem T j2) = Some g" using Some lt by simp
        have aps2: "\<forall>x\<in>set (sj_cached_replay j2). is_aps x" using st2 by (simp add: journal_ok_def)
        have ok2: "journal_ok mem T j2" "sj_scanned j2" using st2 by blast+
        note s3 = commit_next_spec[OF w3 ok2 geo2 g2 sz aps2]
        have fl: "l0 = sj_cached_replay j2" if "journal_visit_replay_counters T j = (j0, Inr l0)" "latest mem T j = Some loc0" "preserves_replay (lc_state loc0) st"
          for j0 l0 loc0 using st2 i2 that c by auto
        have "\<exists>loc. latest mem T j' = Some loc \<and> lc_state loc = st \<and>
           (\<forall>j0 l0 loc0. journal_visit_replay_counters T j = (j0, Inr l0) \<longrightarrow> latest mem T j = Some loc0 \<longrightarrow> preserves_replay (lc_state loc0) st \<longrightarrow>
              (\<forall>x\<in>set l0. durable mem T j' (lc_sector loc) (lc_generation loc) x))" if "r = Inr u" for u
          using s3(4)[OF that] fl by blast
        moreover have "latest mem T j' = latest mem T j \<or> (\<exists>loc. latest mem T j' = Some loc \<and> lc_state loc = st)"
          using s3(3) unfolding quiet_slots(2)[OF q2] .
        ultimately show ?thesis using s3(1,2) sec2 by simp
      qed
    qed
  qed
  show "journal_ok mem T j'" "sj_sectors j' = sj_sectors j"
    "latest mem T j' = latest mem T j \<or> (\<exists>loc. latest mem T j' = Some loc \<and> lc_state loc = st)" using * by blast+
  show "r = Inr u \<Longrightarrow> \<exists>loc. latest mem T j' = Some loc \<and> lc_state loc = st \<and>
       (\<forall>j0 l0 loc0. journal_visit_replay_counters T j = (j0, Inr l0) \<longrightarrow> latest mem T j = Some loc0 \<longrightarrow> preserves_replay (lc_state loc0) st \<longrightarrow>
          (\<forall>x\<in>set l0. durable mem T j' (lc_sector loc) (lc_generation loc) x))" using * by blast
qed

end

section \<open>Appending a floor\<close>

lemma append_index_spec:
  "append_index r [m..<4] = Some n \<Longrightarrow> m \<le> n \<and> n < 4 \<and> replay_entry_is_erased (replay_entry_at r n) \<and>
     (\<forall>i. m \<le> i \<longrightarrow> i < n \<longrightarrow> decode_replay_entry (replay_entry_at r i) \<noteq> None)"
proof (induction "4 - m" arbitrary: m)
  case (Suc d)
  then have l: "[m..<4] = m # [Suc m..<4]" by (simp add: upt_rec)
  show ?case
  proof (cases "replay_entry_is_erased (replay_entry_at r m)")
    case True
    then show ?thesis using Suc.prems Suc.hyps(2) unfolding l by (simp add: Let_def)
  next
    case False
    then have d: "decode_replay_entry (replay_entry_at r m) \<noteq> None" "append_index r [Suc m..<4] = Some n"
      using Suc.prems unfolding l by (auto simp: Let_def split: if_splits)
    have "Suc m \<le> n \<and> n < 4 \<and> replay_entry_is_erased (replay_entry_at r n) \<and>
       (\<forall>i. Suc m \<le> i \<longrightarrow> i < n \<longrightarrow> decode_replay_entry (replay_entry_at r i) \<noteq> None)"
      by (rule Suc.hyps(1)[OF _ d(2)]) (use Suc.hyps(2) in simp)
    moreover have "i = m \<or> Suc m \<le> i" if "m \<le> i" for i using that by arith
    ultimately show ?thesis using d(1) by (metis Suc_leD)
  qed
qed simp

text \<open>
  A step keeps the invariant and the sectors, and the newest state is the old one or one that the step was given.
\<close>

definition safe_step :: "('f \<Rightarrow> nat \<Rightarrow> u8) \<Rightarrow> 'f JournalType \<Rightarrow> 'f SecurityStateJournal \<Rightarrow> 'f SecurityStateJournal \<Rightarrow> PersistentSecurityState set \<Rightarrow> bool" where
  "safe_step mem T j j' sts \<longleftrightarrow> journal_ok mem T j' \<and> sj_sectors j' = sj_sectors j \<and>
     (map_option lc_state (latest mem T j') = map_option lc_state (latest mem T j) \<or> (\<exists>st\<in>sts. map_option lc_state (latest mem T j') = Some st))"

text \<open>A position where the next entry goes.\<close>

definition append_at :: "('f \<Rightarrow> nat \<Rightarrow> u8) \<Rightarrow> 'f JournalType \<Rightarrow> 'f SecurityStateJournal \<Rightarrow> nat \<Rightarrow> u32 \<Rightarrow> nat \<times> nat \<times> bool \<Rightarrow> bool" where
  "append_at mem T j s g p = (case p of (k, n, init) \<Rightarrow> k < SLOTS_PER_SECTOR T \<and> n < 4 \<and>
     (if init then n = 0 \<and> blank mem j s k
      else replay_header_generation (slot_bytes mem j s k) = Some g \<and> replay_entry_is_erased (replay_entry_at (slot_bytes mem j s k) n) \<and>
        (\<forall>m<n. decode_replay_entry (replay_entry_at (slot_bytes mem j s k) m) \<noteq> None)))"

lemma blank_no_header: "replay_header_generation (replicate 128 0xFF) = None"
  by (simp add: replay_header_generation_def REPLAY_RECORD_MAGIC_def)

lemma visible_before_erased:
  assumes "visible r n y" "replay_entry_is_erased (replay_entry_at r m)"
  shows "n < m"
proof (rule ccontr)
  assume "\<not> n < m"
  then have "m = n \<or> m < n" by arith
  then obtain z where "decode_replay_entry (replay_entry_at r m) = Some z" using assms(1) unfolding visible_def by blast
  then show False using decoded_not_erased assms(2) by blast
qed

context journal_flash
begin

lemma find_append_loop_spec:
  assumes "find_append_loop T j s g ks = (j', r)" "\<not> geometry_invalid T j" "s < 2" "\<forall>k\<in>set ks. k < SLOTS_PER_SECTOR T"
  shows "reads_only mem T j j' \<and> (\<forall>p. r = Inr (Some p) \<longrightarrow> append_at mem T j s g p)"
  using assms
proof (induction ks arbitrary: j)
  case (Cons k ks)
  obtain j1 r1 where w: "read_slot T j s k = (j1, r1)" by fastforce
  note ro = read_slot_spec[OF w]
  have k: "k < SLOTS_PER_SECTOR T" using Cons.prems(4) by simp
  have same: "append_at mem T j1 s g p = append_at mem T j s g p" for p using reads_only_slots(1)[OF ro(1)] by (simp add: append_at_def)
  have IH: "reads_only mem T j j' \<and> (\<forall>p. r = Inr (Some p) \<longrightarrow> append_at mem T j s g p)" if "find_append_loop T j1 s g ks = (j', r)"
    using Cons.IH[OF that] Cons.prems(2-4) reads_only_slots(3)[OF ro(1)] reads_only_trans[OF ro(1)] same by simp
  show ?case
  proof (cases r1)
    case (Inl e)
    then show ?thesis using Cons.prems(1) w ro(1) by auto
  next
    case (Inr b)
    have b: "b = slot_bytes mem j s k" by (rule ro(2)[OF Cons.prems(2,3) k Inr])
    show ?thesis
    proof (cases "list_all (\<lambda>byte. byte = 0xFF) b")
      case True
      then have "blank mem j s k" using b by (intro replicate_eqI) (auto simp: list_all_iff)
      then have "append_at mem T j s g (k, 0, True)" using k by (simp add: append_at_def)
      then show ?thesis using Cons.prems(1) w Inr True ro(1) by auto
    next
      case nb: False
      show ?thesis
      proof (cases "replay_header_generation b = Some g")
        case False
        then show ?thesis using IH Cons.prems(1) w Inr nb by simp
      next
        case True
        show ?thesis
        proof (cases "append_index b [0..<REPLAY_ENTRIES_PER_SLOT]")
          case None
          then show ?thesis using IH Cons.prems(1) w Inr nb True by simp
        next
          case (Some n)
          have "append_at mem T j s g (k, n, False)"
            using append_index_spec[of b 0 n] Some True k b by (simp add: append_at_def REPLAY_ENTRIES_PER_SLOT_def)
          then show ?thesis using Cons.prems(1) w Inr nb True Some ro(1) by auto
        qed
      qed
    qed
  qed
qed auto

lemma durable_frame:
  assumes o: "only_slots mem T j j' {(s, k)}" "s < 2"
    and k: "\<And>n y. replay_header_generation (slot_bytes mem j s k) = Some g \<Longrightarrow> visible (slot_bytes mem j s k) n y \<Longrightarrow>
       replay_header_generation (slot_bytes mem j' s k) = Some g \<and> visible (slot_bytes mem j' s k) n y"
    and d: "durable mem T j s g x"
  shows "durable mem T j' s g x"
proof -
  obtain k' n y where y: "k' < SLOTS_PER_SECTOR T" "n < 4" "replay_header_generation (slot_bytes mem j s k') = Some g" "visible (slot_bytes mem j s k') n y"
      "is_aps y" "same_domain y x" "floor_counter x \<le> floor_counter y"
    using d unfolding durable_def by blast
  have "replay_header_generation (slot_bytes mem j' s k') = Some g \<and> visible (slot_bytes mem j' s k') n y"
  proof (cases "k' = k")
    case True
    then show ?thesis using k[of n y] y(3,4) by blast
  next
    case False
    then have "slot_bytes mem j' s k' = slot_bytes mem j s k'" using only_slots_bytes[OF o y(1)] by simp
    then show ?thesis using y(3,4) by simp
  qed
  then show ?thesis using y unfolding durable_def by blast
qed

lemma append_in_place_spec:
  fixes loc :: LocatedState
  defines "s \<equiv> lc_sector loc" and "g \<equiv> lc_generation loc"
  assumes w: "append_in_place T j loc x (k, n, init) = (j', r)" and geo: "\<not> geometry_invalid T j" and s2: "s < 2"
    and at: "append_at mem T j s g (k, n, init)" and aps: "is_aps x"
  shows "only_slots mem T j j' {(s, k)}" "p \<in> set (positions T) \<Longrightarrow> slot_record mem j' p = slot_record mem j p"
    "durable mem T j s g y \<Longrightarrow> durable mem T j' s g y" "r = Inr u \<Longrightarrow> durable mem T j' s g x"
proof -
  have k: "k < SLOTS_PER_SECTOR T" and n: "n < 4" using at by (auto simp: append_at_def)
  obtain j1 r1 where w1: "(if init then write_replay_header T j s k g else (j, Inr ())) = (j1, r1)" by fastforce
  have no: "slot_record mem j (s, k) = None"
    using at blank_no_record slot_replay_no_record[OF replay_generation_magic] by (auto simp: append_at_def split: if_splits)
  have h: "only_slots mem T j j1 {(s, k)} \<and> slot_record mem j1 (s, k) = None \<and> (\<forall>y. durable mem T j s g y \<longrightarrow> durable mem T j1 s g y) \<and>
     (\<forall>u. r1 = Inr u \<longrightarrow> append_at mem T j1 s g (k, n, False))"
  proof (cases init)
    case True
    have b: "blank mem j s k" and n0: "n = 0" using at True by (simp_all add: append_at_def)
    have wh: "write_replay_header T j s k g = (j1, r1)" using w1 True by simp
    note hs = write_replay_header_spec[OF wh geo s2 k b]
    have "durable mem T j1 s g y" if "durable mem T j s g y" for y
      by (rule durable_frame[OF hs(1) s2 _ that]) (use b blank_no_header in auto)
    moreover have "replay_entry_is_erased (replay_entry_at (slot_bytes mem j1 s k) 0)"
      using hs(3) by (simp add: replay_entry_is_erased_def list_all_length replay_entry_at_def REPLAY_HEADER_LEN_def REPLAY_ENTRY_LEN_def)
    ultimately show ?thesis using hs(1,2,4) k n0 by (auto simp: append_at_def)
  next
    case False
    then show ?thesis using w1 at no reads_only_slots(4)[OF reads_only_refl] by (auto simp: append_at_def)
  qed
  note o1 = h[THEN conjunct1]
  have geo1: "\<not> geometry_invalid T j1" using only_slots_fields(7)[OF o1] geo by simp
  have ap: "append_in_place T j loc x (k, n, init) = (case (j1, r1) of (j, Inl e) \<Rightarrow> (j, Inl e) | (j, Inr _) \<Rightarrow> write_replay_entry T j s k n x)"
    unfolding append_in_place_def prod.case s_def[symmetric] g_def[symmetric] w1 ..
  have *: "only_slots mem T j j' {(s, k)} \<and> slot_record mem j' (s, k) = None \<and> (\<forall>y. durable mem T j s g y \<longrightarrow> durable mem T j' s g y) \<and>
     (\<forall>u. r = Inr u \<longrightarrow> durable mem T j' s g x)"
  proof (cases r1)
    case (Inl e)
    then show ?thesis using w ap h by auto
  next
    case (Inr v)
    have w2: "write_replay_entry T j1 s k n x = (j', r)" using w ap Inr by simp
    have at1: "append_at mem T j1 s g (k, n, False)" using h Inr by blast
    then have hd1: "replay_header_generation (slot_bytes mem j1 s k) = Some g" and er1: "replay_entry_is_erased (replay_entry_at (slot_bytes mem j1 s k) n)"
      and dc1: "\<forall>m<n. decode_replay_entry (replay_entry_at (slot_bytes mem j1 s k) m) \<noteq> None" by (simp_all add: append_at_def)
    note s2' = write_replay_entry_spec[OF w2 geo1 s2 k n]
    have hd: "replay_header_generation (slot_bytes mem j' s k) = Some g"
      using header_generation_prefix[of "slot_bytes mem j' s k" "slot_bytes mem j1 s k"] s2'(2) hd1 by simp
    have ent: "replay_entry_at (slot_bytes mem j' s k) m = replay_entry_at (slot_bytes mem j1 s k) m" if m: "m < n" for m
    proof (rule entry_at_frame)
      fix b assume b: "b < 128" "16 + m * 28 \<le> b" "b < 16 + m * 28 + 28"
      have "b < 16 + n * 28" using b m by linarith
      then show "slot_bytes mem j' s k ! b = slot_bytes mem j1 s k ! b" using s2'(2)[OF b(1)] by blast
    qed (use m n in simp_all)
    have keep: "replay_header_generation (slot_bytes mem j' s k) = Some g \<and> visible (slot_bytes mem j' s k) m y"
      if "visible (slot_bytes mem j1 s k) m y" for m y
    proof -
      have "m < n" by (rule visible_before_erased[OF that er1])
      then show ?thesis using hd that ent unfolding visible_def by auto
    qed
    have "durable mem T j' s g y" if "durable mem T j1 s g y" for y by (rule durable_frame[OF s2'(1) s2 _ that]) (rule keep)
    moreover have "durable mem T j' s g x" if ru: "r = Inr u" for u
    proof -
      obtain y where y: "decode_replay_entry (replay_entry_at (slot_bytes mem j' s k) n) = Some y" "replay_eq y x" using s2'(3)[OF ru] by blast
      have "visible (slot_bytes mem j' s k) n y" using y(1) dc1 ent unfolding visible_def by simp
      moreover have "same_domain y x" "floor_counter x \<le> floor_counter y" using replay_eq_domain[OF y(2)] by simp_all
      ultimately show ?thesis using hd k n replay_eq_aps[OF y(2) aps] unfolding durable_def by blast
    qed
    moreover have "slot_record mem j' (s, k) = None" by (rule slot_replay_no_record[OF replay_generation_magic[OF hd]])
    ultimately show ?thesis using only_slots_step[OF o1 s2'(1)] h by blast
  qed
  show "only_slots mem T j j' {(s, k)}" using * by blast
  show "slot_record mem j' p = slot_record mem j p" if "p \<in> set (positions T)"
  proof (cases "p = (s, k)")
    case False
    then have "slot_bytes mem j' (fst p) (snd p) = slot_bytes mem j (fst p) (snd p)"
      using only_slots_bytes[of mem T j j' "{(s, k)}" "fst p" "snd p"] * that position_iff[of p T] by auto
    then show ?thesis by (simp add: slot_record_def)
  qed (use * no in simp)
  show "durable mem T j s g y \<Longrightarrow> durable mem T j' s g y" "r = Inr u \<Longrightarrow> durable mem T j' s g x" using * by blast+
qed

lemma newest_cong: "(\<And>p. p \<in> set ps \<Longrightarrow> D' p = D p) \<Longrightarrow> newest_of D' ps = newest_of D ps"
  unfolding newest_of_def by (metis map_eq_conv)

lemma append_here_spec:
  assumes w: "(case append_in_place T j loc x p of
       (j, Inr _) \<Rightarrow> (case merge_replay (jt_trust_center T) (sj_cached_replay j) x of (cache, r) \<Rightarrow> (j\<lparr>sj_cached_replay := cache\<rparr>, r))
     | (j, Inl e) \<Rightarrow> (j\<lparr>sj_cached_replay := [], sj_replay_generation := None\<rparr>, Inl e)) = (j', r)"
    and ok: "journal_ok mem T j" and lt: "latest mem T j = Some loc" and sc: "sj_scanned j" and rg: "sj_replay_generation j = Some (lc_generation loc)"
    and geo: "\<not> geometry_invalid T j" and at: "append_at mem T j (lc_sector loc) (lc_generation loc) p" and aps: "is_aps x"
  shows "journal_ok mem T j'" "sj_sectors j' = sj_sectors j" "latest mem T j' = Some loc"
    "r = Inr u \<Longrightarrow> durable mem T j' (lc_sector loc) (lc_generation loc) x"
proof -
  obtain k n init where p: "p = (k, n, init)" by (metis prod_cases3)
  have un: "unique_generations (slot_record mem j) (positions T)" and ca: "sj_cached j = Some loc"
    and dur: "\<forall>y\<in>set (sj_cached_replay j). durable mem T j (lc_sector loc) (lc_generation loc) y" and apsj: "\<forall>y\<in>set (sj_cached_replay j). is_aps y"
    using ok lt sc rg by (auto simp: journal_ok_def)
  obtain j5 r5 where w5: "append_in_place T j loc x (k, n, init) = (j5, r5)" by fastforce
  note s5 = append_in_place_spec[OF w5 geo newest_located(1)[OF un lt] at[unfolded p] aps]
  note f5 = only_slots_fields[OF s5(1)]
  have lt5: "latest mem T j5 = Some loc" unfolding lt[symmetric] by (rule newest_cong) (rule s5(2))
  have un5: "unique_generations (slot_record mem j5) (positions T)" by (rule unique_sub[OF un]) (use s5(2) in blast)
  have *: "journal_ok mem T j' \<and> sj_sectors j' = sj_sectors j \<and> latest mem T j' = Some loc \<and> (\<forall>u. r = Inr u \<longrightarrow> durable mem T j' (lc_sector loc) (lc_generation loc) x)"
  proof (cases r5)
    case (Inl e)
    then have j': "j' = j5\<lparr>sj_cached_replay := [], sj_replay_generation := None\<rparr>" "r = Inl e" using w p w5 by simp_all
    have q: "quiet mem T j5 j'" using j' by (simp add: quiet_def)
    have "journal_ok mem T j'" using lt5 un5 f5 sc ca unfolding journal_ok_def quiet_slots[OF q] by (simp add: j'(1))
    then show ?thesis using j' f5(1) lt5 quiet_slots(2)[OF q] by simp
  next
    case i5: (Inr u5)
    obtain c r4 where mr: "merge_replay (jt_trust_center T) (sj_cached_replay j) x = (c, r4)" by fastforce
    have j': "j' = j5\<lparr>sj_cached_replay := c\<rparr>" "r = r4" using w p w5 i5 mr f5(3) by simp_all
    have q: "quiet mem T j5 j'" using j' by (simp add: quiet_def)
    have dx: "durable mem T j5 (lc_sector loc) (lc_generation loc) x" by (rule s5(4)[OF i5])
    have dc: "\<forall>y\<in>set c. durable mem T j5 (lc_sector loc) (lc_generation loc) y" using merge_replay_set[OF mr] dx dur s5(3) by blast
    have apsc: "\<forall>y\<in>set c. is_aps y" by (rule merge_replay_result(1)[OF mr aps apsj])
    have "journal_ok mem T j'" using lt5 un5 f5 sc ca dc apsc rg unfolding journal_ok_def quiet_slots[OF q] by (simp add: j'(1))
    then show ?thesis using j' f5(1) lt5 quiet_slots(2,4)[OF q] dx by simp
  qed
  show "journal_ok mem T j'" "sj_sectors j' = sj_sectors j" "latest mem T j' = Some loc" using * by blast+
  show "r = Inr u \<Longrightarrow> durable mem T j' (lc_sector loc) (lc_generation loc) x" using * by blast
qed

lemma append_rollover_spec:
  assumes w: "(case u32_checked_inc (lc_generation loc) of
       None \<Rightarrow> (j, Inl GenerationExhausted)
     | Some generation \<Rightarrow>
         (case merge_replay (jt_trust_center T) (sj_cached_replay j) x of
            (cache, Inl e) \<Rightarrow> (j\<lparr>sj_cached_replay := cache\<rparr>, Inl e)
          | (cache, Inr _) \<Rightarrow> commit_generation T (j\<lparr>sj_cached_replay := cache\<rparr>) (Some (lc_sector loc)) True generation (lc_state loc))) = (j', r)"
    and ok: "journal_ok mem T j" and lt: "latest mem T j = Some loc" and sc: "sj_scanned j" and geo: "\<not> geometry_invalid T j" and aps: "is_aps x"
  shows "journal_ok mem T j' \<and> sj_sectors j' = sj_sectors j \<and> map_option lc_state (latest mem T j') = Some (lc_state loc) \<and>
    (\<forall>u. r = Inr u \<longrightarrow> (\<exists>loc. latest mem T j' = Some loc \<and> durable mem T j' (lc_sector loc) (lc_generation loc) x))"
proof (cases "u32_checked_inc (lc_generation loc)")
  case None
  then show ?thesis using w ok lt by auto
next
  case (Some g)
  have apsj: "\<forall>y\<in>set (sj_cached_replay j). is_aps y" and un: "unique_generations (slot_record mem j) (positions T)" using ok by (auto simp: journal_ok_def)
  obtain c r4 where mr: "merge_replay (jt_trust_center T) (sj_cached_replay j) x = (c, r4)" by fastforce
  note m = merge_replay_result[OF mr aps apsj]
  show ?thesis
  proof (cases r4)
    case (Inl e)
    then have "c = sj_cached_replay j" using mr by (auto simp: merge_replay_def split: option.splits if_splits)
    then have "j' = j" "r = Inl e" using w Some mr Inl by simp_all
    then show ?thesis using ok lt by simp
  next
    case i4: (Inr u4)
    have w5: "commit_generation T (j\<lparr>sj_cached_replay := c\<rparr>) (map_option lc_sector (latest mem T j)) True g (lc_state loc) = (j', r)"
      using w Some mr i4 lt by simp
    have g5: "next_generation (latest mem T j) = Some g" using Some lt by (simp add: next_generation_def)
    note s5 = commit_next_spec[OF w5 ok sc geo g5 newest_located(3)[OF un lt] m(1)]
    have "\<exists>loc. latest mem T j' = Some loc \<and> durable mem T j' (lc_sector loc) (lc_generation loc) x" if ru: "r = Inr u" for u
    proof -
      obtain loc' where l': "latest mem T j' = Some loc'" "\<forall>y\<in>set c. durable mem T j' (lc_sector loc') (lc_generation loc') y"
        using s5(4)[OF ru] by blast
      obtain y where y: "y \<in> set c" "same_domain y x" "floor_counter x \<le> floor_counter y" using m(2)[OF i4] unfolding covers_def by blast
      show ?thesis using l'(1) durable_weaken[OF l'(2)[rule_format, OF y(1)] y(2,3)] by blast
    qed
    then show ?thesis using s5(1-3) lt by auto
  qed
qed

lemma append_spec:
  assumes w: "append_durable_replay_counter T j x = (j', r)" and ok: "journal_ok mem T j" and aps: "is_aps x"
  shows "journal_ok mem T j' \<and> sj_sectors j' = sj_sectors j \<and> map_option lc_state (latest mem T j') = map_option lc_state (latest mem T j) \<and>
    (\<forall>u. r = Inr u \<longrightarrow> (\<exists>loc. latest mem T j' = Some loc \<and> durable mem T j' (lc_sector loc) (lc_generation loc) x))"
proof -
  obtain j1 r1 where w1: "journal_current T j = (j1, r1)" by fastforce
  note s1 = current_spec[OF w1 ok]
  have sec1: "sj_sectors j1 = sj_sectors j" using s1(1) by (simp add: quiet_def)
  show ?thesis
  proof (cases "\<exists>loc. r1 = Inr (Some loc) \<and> ss_commissioned (lc_state loc)")
    case False
    then have "j' = j1 \<and> isl r" using w w1 by (cases r1) (auto simp: append_durable_replay_counter_def split: option.splits)
    then show ?thesis using s1(2) sec1 quiet_slots(2)[OF s1(1)] by auto
  next
    case True
    then obtain loc where loc: "r1 = Inr (Some loc)" "ss_commissioned (lc_state loc)" by blast
    note c = s1(4)[OF loc(1)]
    have geo1: "\<not> geometry_invalid T j1" using c quiet_slots(3)[OF s1(1)] by simp
    have ca: "sj_scanned j1" "sj_cached j1 = Some loc" using c by simp_all
    obtain j2 r2 where w2: "ensure_replay_cache T j1 loc = (j2, r2)" by fastforce
    note s2 = ensure_spec[OF w2 s1(2) ca geo1]
    have q2: "quiet mem T j j2" by (rule quiet_journal_trans[OF s1(1) s2(1)])
    have sec2: "sj_sectors j2 = sj_sectors j" using q2 by (simp add: quiet_def)
    have lt2: "latest mem T j2 = Some loc" "latest mem T j = Some loc" using quiet_slots(2)[OF q2] c by simp_all
    have un2: "unique_generations (slot_record mem j2) (positions T)" using s2(2) by (simp add: journal_ok_def)
    have geo2: "\<not> geometry_invalid T j2" using c quiet_slots(3)[OF q2] by simp
    show ?thesis
    proof (cases r2)
      case (Inl e)
      then have "j' = j2" "r = Inl e" using w w1 loc w2 by (simp_all add: append_durable_replay_counter_def)
      then show ?thesis using s2(2) sec2 lt2 by simp
    next
      case i2: (Inr v)
      have rg: "sj_replay_generation j2 = Some (lc_generation loc)" by (rule s2(5)[OF i2])
      let ?f = "find (\<lambda>stored. same_domain stored x) (sj_cached_replay j2)"
      show ?thesis
      proof (cases "case ?f of None \<Rightarrow> False | Some stored \<Rightarrow> floor_counter stored \<ge> floor_counter x")
        case True
        then have jr: "j' = j2" "r = Inr ()" using w w1 loc w2 i2 by (simp_all add: append_durable_replay_counter_def)
        obtain y where y: "?f = Some y" "floor_counter x \<le> floor_counter y" using True by (auto split: option.splits)
        have ym: "y \<in> set (sj_cached_replay j2)" "same_domain y x" using y(1) by (auto simp: find_Some_iff)
        have "durable mem T j2 (lc_sector loc) (lc_generation loc) y" using s2(2,4) rg ym(1) unfolding journal_ok_def by auto
        then show ?thesis using jr s2(2) sec2 lt2 durable_weaken[OF _ ym(2) y(2)] by simp
      next
        case False
        obtain j3 r3 where w3: "find_replay_append_position T j2 (lc_sector loc) (lc_generation loc) = (j3, r3)" by fastforce
        have s3: "reads_only mem T j2 j3" "\<And>p. r3 = Inr (Some p) \<Longrightarrow> append_at mem T j2 (lc_sector loc) (lc_generation loc) p"
          using find_append_loop_spec[OF w3[unfolded find_replay_append_position_def] geo2 newest_located(1)[OF un2 lt2(1)]] by simp_all
        note f3 = reads_only_fields[OF s3(1)] and q23 = reads_only_quiet[OF s3(1)]
        have ok3: "journal_ok mem T j3" using s2(2) f3 unfolding journal_ok_def quiet_slots[OF q23] by simp
        have sc3: "sj_scanned j3" "sj_replay_generation j3 = Some (lc_generation loc)" using f3 s2(3) rg by simp_all
        have sec3: "sj_sectors j3 = sj_sectors j" using f3(1) sec2 by simp
        have lt3: "latest mem T j3 = Some loc" using quiet_slots(2)[OF q23] lt2 by simp
        have geo3: "\<not> geometry_invalid T j3" using geo2 quiet_slots(3)[OF q23] by simp
        note ap = w[unfolded append_durable_replay_counter_def w1 loc(1) prod.case sum.case option.case w2 i2]
        consider e where "r3 = Inl e" | "r3 = Inr None" | p where "r3 = Inr (Some p)" by (metis obj_sumE option.exhaust)
        then show ?thesis
        proof cases
          case 1
          then have "j' = j3" "r = Inl e" using ap False w3 loc(2) by simp_all
          then show ?thesis using ok3 sec3 lt3 lt2 by simp
        next
          case 2
          show ?thesis using append_rollover_spec[OF _ ok3 lt3 sc3(1) geo3 aps, of j' r] ap False w3 loc(2) 2 sec3 lt2 by simp
        next
          case 3
          have at: "append_at mem T j3 (lc_sector loc) (lc_generation loc) p"
            using s3(2)[OF 3] unfolding append_at_def reads_only_slots(1)[OF s3(1)] .
          have w4: "(case append_in_place T j3 loc x p of
               (j, Inr _) \<Rightarrow> (case merge_replay (jt_trust_center T) (sj_cached_replay j) x of (cache, r) \<Rightarrow> (j\<lparr>sj_cached_replay := cache\<rparr>, r))
             | (j, Inl e) \<Rightarrow> (j\<lparr>sj_cached_replay := [], sj_replay_generation := None\<rparr>, Inl e)) = (j', r)"
            using ap False w3 loc(2) 3 by simp
          note s4 = append_here_spec[OF w4 ok3 lt3 sc3 geo3 at aps]
          show ?thesis using s4 sec3 lt2 by simp
        qed
      qed
    qed
  qed
qed

section \<open>The other operations\<close>

lemma safe_quiet: "quiet mem T j j' \<Longrightarrow> journal_ok mem T j' \<Longrightarrow> safe_step mem T j j' sts"
  using quiet_slots(2)[of mem T j j'] by (simp add: safe_step_def quiet_def)

lemma load_spec:
  assumes "journal_load T j = (j', r)" "journal_ok mem T j"
  shows "quiet mem T j j' \<and> journal_ok mem T j' \<and> (\<forall>x. r = Inr x \<longrightarrow> x = map_option lc_state (latest mem T j))"
  using current_spec[OF _ assms(2)] assms(1) by (auto simp: journal_load_def split: prod.splits sum.splits)

lemma visit_spec:
  assumes "journal_visit_replay_counters T j = (j', r)" "journal_ok mem T j"
  shows "quiet mem T j j'" "journal_ok mem T j'"
    "r = Inr l \<Longrightarrow> sj_replay_generation j = None \<Longrightarrow> latest mem T j = Some loc \<Longrightarrow>
       durable mem T j (lc_sector loc) (lc_generation loc) x \<Longrightarrow> covers l x"
proof -
  obtain j1 r1 where w1: "journal_current T j = (j1, r1)" by fastforce
  note s1 = current_spec[OF w1 assms(2)]
  have *: "quiet mem T j j' \<and> journal_ok mem T j' \<and> (\<forall>l loc x. r = Inr l \<longrightarrow> sj_replay_generation j = None \<longrightarrow> latest mem T j = Some loc \<longrightarrow>
       durable mem T j (lc_sector loc) (lc_generation loc) x \<longrightarrow> covers l x)"
  proof (cases "\<exists>loc. r1 = Inr (Some loc)")
    case False
    then show ?thesis using assms(1) w1 s1 by (cases r1) (auto simp: journal_visit_replay_counters_def split: option.splits)
  next
    case True
    then obtain loc where loc: "r1 = Inr (Some loc)" by blast
    note c = s1(4)[OF loc]
    obtain j2 r2 where w2: "ensure_replay_cache T j1 loc = (j2, r2)" by fastforce
    have ca: "sj_scanned j1" "sj_cached j1 = Some loc" "\<not> geometry_invalid T j1" using c quiet_slots(3)[OF s1(1)] by simp_all
    note s2 = ensure_spec[OF w2 s1(2) ca]
    have j': "j' = j2" "r = (case r2 of Inl e \<Rightarrow> Inl e | Inr _ \<Rightarrow> Inr (sj_cached_replay j2))"
      using assms(1) w1 loc w2 by (auto simp: journal_visit_replay_counters_def split: sum.splits)
    have "sj_replay_generation j1 = None" if "sj_replay_generation j = None"
      using s1(5) that by simp
    then have "covers l x" if "r = Inr l" "sj_replay_generation j = None" "durable mem T j (lc_sector loc) (lc_generation loc) x" for l x
      using s2(6) that j'(2) quiet_slots(4)[OF s1(1)] by (auto split: sum.splits)
    then show ?thesis using quiet_journal_trans[OF s1(1) s2(1)] s2(2) j' c by auto
  qed
  show "quiet mem T j j'" "journal_ok mem T j'" using * by blast+
  show "r = Inr l \<Longrightarrow> sj_replay_generation j = None \<Longrightarrow> latest mem T j = Some loc \<Longrightarrow>
       durable mem T j (lc_sector loc) (lc_generation loc) x \<Longrightarrow> covers l x" using * by blast
qed

text \<open>Dropping floors from the staged cache and committing the state again.\<close>

lemma recommit_spec:
  assumes w: "commit_generation T (j\<lparr>sj_cached_replay := c\<rparr>) (Some (lc_sector loc)) False g (lc_state loc) = (j', r)"
    and ok: "journal_ok mem T j" and st: "sj_scanned j" "sj_cached j = Some loc" and geo: "\<not> geometry_invalid T j"
    and g: "u32_checked_inc (lc_generation loc) = Some g" and c: "set c \<subseteq> set (sj_cached_replay j)"
  shows "safe_step mem T j j' {}"
proof -
  have lt: "latest mem T j = Some loc" using ok st by (simp add: journal_ok_def)
  have un: "unique_generations (slot_record mem j) (positions T)" using ok by (simp add: journal_ok_def)
  have g': "next_generation (latest mem T j) = Some g" using g lt by (simp add: next_generation_def)
  have aps: "\<forall>x\<in>set c. is_aps x" using ok c by (auto simp: journal_ok_def)
  have w': "commit_generation T (j\<lparr>sj_cached_replay := c\<rparr>) (map_option lc_sector (latest mem T j)) False g (lc_state loc) = (j', r)" using w lt by simp
  note s = commit_next_spec[OF w' ok st(1) geo g' newest_located(3)[OF un lt] aps]
  show ?thesis using s(1-3) lt by (auto simp: safe_step_def)
qed

lemma safe_after_quiet: "quiet mem T j j1 \<Longrightarrow> safe_step mem T j1 j' sts \<Longrightarrow> safe_step mem T j j' sts"
  using quiet_slots(2)[of mem T j j1] by (simp add: safe_step_def quiet_def)

lemma ok_invalidate: "journal_ok mem T j \<Longrightarrow> journal_ok mem T (journal_invalidate (j\<lparr>sj_cached_replay := c\<rparr>))"
proof -
  assume ok: "journal_ok mem T j"
  have q: "quiet mem T j (journal_invalidate (j\<lparr>sj_cached_replay := c\<rparr>))" by (simp add: quiet_def journal_invalidate_def)
  show ?thesis using ok unfolding journal_ok_def quiet_slots[OF q] by (simp add: journal_invalidate_def)
qed

lemma retain_like_spec:
  assumes w1: "journal_current T j = (j1, Inr (Some loc))" and w2: "ensure_replay_cache T j1 loc = (j2, r2)" and ok: "journal_ok mem T j"
  shows "safe_step mem T j j2 {}"
    "set c \<subseteq> set (sj_cached_replay j2) \<Longrightarrow> safe_step mem T j (j2\<lparr>sj_cached_replay := c\<rparr>) {}" "safe_step mem T j (journal_invalidate (j2\<lparr>sj_cached_replay := c\<rparr>)) {}"
    "set c \<subseteq> set (sj_cached_replay j2) \<Longrightarrow> u32_checked_inc (lc_generation loc) = Some g \<Longrightarrow>
       commit_generation T (j2\<lparr>sj_cached_replay := c\<rparr>) (Some (lc_sector loc)) False g (lc_state loc) = (j', r) \<Longrightarrow> safe_step mem T j j' {}"
proof -
  note s1 = current_spec[OF w1 ok]
  have c1: "sj_scanned j1" "sj_cached j1 = Some loc" "\<not> geometry_invalid T j1" using s1(4)[OF refl] quiet_slots(3)[OF s1(1)] by simp_all
  note s2 = ensure_spec[OF w2 s1(2) c1]
  have q: "quiet mem T j j2" by (rule quiet_journal_trans[OF s1(1) s2(1)])
  have geo2: "\<not> geometry_invalid T j2" using c1(3) quiet_slots(3)[OF s2(1)] by simp
  show "safe_step mem T j j2 {}" by (rule safe_quiet[OF q s2(2)])
  show "safe_step mem T j (j2\<lparr>sj_cached_replay := c\<rparr>) {}" if "set c \<subseteq> set (sj_cached_replay j2)"
    by (rule safe_quiet[OF _ ok_set_cache[OF s2(2) that]]) (use q in \<open>simp add: quiet_def\<close>)
  show "safe_step mem T j (journal_invalidate (j2\<lparr>sj_cached_replay := c\<rparr>)) {}"
    by (rule safe_quiet[OF _ ok_invalidate[OF s2(2)]]) (use q in \<open>simp add: quiet_def journal_invalidate_def\<close>)
  show "safe_step mem T j j' {}" if "set c \<subseteq> set (sj_cached_replay j2)" "u32_checked_inc (lc_generation loc) = Some g"
      "commit_generation T (j2\<lparr>sj_cached_replay := c\<rparr>) (Some (lc_sector loc)) False g (lc_state loc) = (j', r)"
    by (rule safe_after_quiet[OF q recommit_spec[OF that(3) s2(2,3,4) geo2 that(2,1)]])
qed

lemma retain_spec:
  assumes w: "journal_retain_replay_counters T j keep = (j', r)" and ok: "journal_ok mem T j"
  shows "safe_step mem T j j' {}"
proof -
  obtain j1 r1 where w1: "journal_current T j = (j1, r1)" by fastforce
  note s1 = current_spec[OF w1 ok]
  show ?thesis
  proof (cases "\<exists>loc. r1 = Inr (Some loc)")
    case False
    then have "j' = j1" using w w1 by (cases r1) (auto simp: journal_retain_replay_counters_def split: option.splits)
    then show ?thesis using safe_quiet[OF s1(1,2)] by simp
  next
    case True
    then obtain loc where w1': "journal_current T j = (j1, Inr (Some loc))" using w1 by blast
    obtain j2 r2 where w2: "ensure_replay_cache T j1 loc = (j2, r2)" by fastforce
    note b = retain_like_spec(1)[OF w1' w2 ok] retain_like_spec(2-4)[OF w1' w2 ok, where c = "filter keep (sj_cached_replay j2)"]
    have sub: "set (filter keep (sj_cached_replay j2)) \<subseteq> set (sj_cached_replay j2)" by simp
    show ?thesis
      using w b(1,3) b(2)[OF sub] b(4)[OF sub] w1' w2
      by (auto simp: journal_retain_replay_counters_def Let_def split: sum.splits if_splits option.splits prod.splits)
  qed
qed

lemma tombstone_spec:
  assumes w: "journal_tombstone_replay_counters T j t = (j', r)" and ok: "journal_ok mem T j"
  shows "safe_step mem T j j' {}"
proof -
  obtain j1 r1 where w1: "journal_current T j = (j1, r1)" by fastforce
  note s1 = current_spec[OF w1 ok]
  show ?thesis
  proof (cases "\<exists>loc. r1 = Inr (Some loc)")
    case False
    then have "j' = j1" using w w1 by (cases r1) (auto simp: journal_tombstone_replay_counters_def split: option.splits)
    then show ?thesis using safe_quiet[OF s1(1,2)] by simp
  next
    case True
    then obtain loc where w1': "journal_current T j = (j1, Inr (Some loc))" using w1 by blast
    obtain j2 r2 where w2: "ensure_replay_cache T j1 loc = (j2, r2)" by fastforce
    let ?c = "filter (\<lambda>replay. \<not> matches_tombstone replay t) (sj_cached_replay j2)"
    note b = retain_like_spec(1)[OF w1' w2 ok] retain_like_spec(2-4)[OF w1' w2 ok, where c = ?c]
    have sub: "set ?c \<subseteq> set (sj_cached_replay j2)" by simp
    show ?thesis
      using w b(1,3) b(2)[OF sub] b(4)[OF sub] w1' w2
      by (auto simp: journal_tombstone_replay_counters_def Let_def split: sum.splits if_splits option.splits prod.splits)
  qed
qed

lemma role_tag_spec:
  assumes w: "select_role_tag T j tag = (j', r)" and ok: "journal_ok mem T j"
  shows "journal_ok mem T j' \<and> sj_sectors j' = sj_sectors j"
proof -
  obtain j1 r1 where w1: "journal_current T j = (j1, r1)" by fastforce
  note s1 = current_spec[OF w1 ok]
  have sec1: "sj_sectors j1 = sj_sectors j" using s1(1) by (simp add: quiet_def)
  have b: "slot_bytes mem (set_product_tag j1 tag) s k = slot_bytes mem j1 s k" for s k
    by (simp add: set_product_tag_def slot_bytes_def sector_base_def)
  have rec: "slot_record mem (set_product_tag j1 tag) = slot_record mem j1" by (rule ext) (simp add: slot_record_def b)
  have ok2: "journal_ok mem T (set_product_tag j1 tag)" using s1(2) unfolding journal_ok_def rec durable_def b by (simp add: set_product_tag_def)
  have sz: "ss_sized (PersistentSecurityState_empty\<lparr>ss_global_counter_limit := x, ss_tclk_counter_limit := y\<rparr>)" for x y
    by (simp add: PersistentSecurityState_empty_def ss_sized_def)
  have "journal_ok mem T j'' \<and> sj_sectors j'' = sj_sectors j" if "journal_store T (set_product_tag j1 tag) (PersistentSecurityState_empty\<lparr>ss_global_counter_limit := x, ss_tclk_counter_limit := y\<rparr>) = (j'', r'')" for j'' r'' x y
    using store_spec(1,2)[OF that ok2 sz] sec1 by (simp add: set_product_tag_def)
  then show ?thesis using w w1 s1(2) ok2 sec1
    by (auto simp: select_role_tag_def Let_def set_product_tag_def split: sum.splits option.splits if_splits prod.splits)
qed

end

end
