(* ===== verification/Torn_Flash.thy ===== *)
theory Torn_Flash
  imports Journal_Flash
begin

text \<open>
  A flash that can be run: pages of 128 bytes, of which only the programmed ones are kept, and a script that says which programs
  fail: a program that fails has written some first part of its bytes, as a power loss in the middle of it would.  Together
  with the check sum computed bit by bit it lets whole runs of the journal be evaluated on real bytes.
\<close>

section \<open>The flash\<close>

record TornFlash =
  tf_pages :: "(nat \<times> u8 list) list"
  tf_faults :: "nat option list"

definition tf_capacity :: nat where "tf_capacity = 1024"

definition tf_page :: "TornFlash \<Rightarrow> nat \<Rightarrow> u8 list" where
  "tf_page f p = (case map_of (tf_pages f) p of Some bs \<Rightarrow> bs | None \<Rightarrow> replicate 128 0xFF)"

definition torn_mem :: "TornFlash \<Rightarrow> nat \<Rightarrow> u8" where
  "torn_mem f i = (if i mod 128 < length (tf_page f (i div 128)) then tf_page f (i div 128) ! (i mod 128) else 0xFF)"

definition torn_read :: "TornFlash \<Rightarrow> u32 \<Rightarrow> nat \<Rightarrow> TornFlash \<times> u8 list option" where
  "torn_read f a n =
     (let p = unat a div 128; off = unat a mod 128; bs = tf_page f p
      in (f, if off + n \<le> length bs \<and> length bs = 128 \<and> p < 8 then Some (take n (drop off bs)) else None))"

definition program_page :: "u8 list \<Rightarrow> nat \<Rightarrow> u8 list \<Rightarrow> u8 list" where
  "program_page bs off d = take off bs @ map2 (AND) (take (length d) (drop off bs)) d @ drop (off + length d) bs"

definition put_page :: "nat \<Rightarrow> u8 list \<Rightarrow> (nat \<times> u8 list) list \<Rightarrow> (nat \<times> u8 list) list" where
  "put_page p bs pages = (p, bs) # filter (\<lambda>(q, _). q \<noteq> p) pages"

definition torn_write :: "TornFlash \<Rightarrow> u32 \<Rightarrow> u8 list \<Rightarrow> TornFlash \<times> bool" where
  "torn_write f a d =
     (let p = unat a div 128; off = unat a mod 128; bs = tf_page f p
      in if off + length d \<le> length bs \<and> length bs = 128 \<and> p < 8
         then case tf_faults f of
                Some n # rest \<Rightarrow> (\<lparr>tf_pages = put_page p (program_page bs off (take n d)) (tf_pages f), tf_faults = rest\<rparr>, False)
              | None # rest \<Rightarrow> (\<lparr>tf_pages = put_page p (program_page bs off d) (tf_pages f), tf_faults = rest\<rparr>, True)
              | [] \<Rightarrow> (\<lparr>tf_pages = put_page p (program_page bs off d) (tf_pages f), tf_faults = []\<rparr>, True)
         else (f, False))"

definition torn_erase :: "TornFlash \<Rightarrow> u32 \<Rightarrow> u32 \<Rightarrow> TornFlash \<times> bool" where
  "torn_erase f a b =
     (if unat a mod 128 = 0 \<and> unat b mod 128 = 0 \<and> unat b div 128 \<le> 8
      then (f\<lparr>tf_pages := filter (\<lambda>(p, bs). p < unat a div 128 \<or> unat b div 128 \<le> p) (tf_pages f)\<rparr>, True)
      else (f, False))"

definition torn_flash :: "TornFlash NorFlash" where
  "torn_flash = \<lparr>nf_read = torn_read, nf_write = torn_write, nf_erase = torn_erase, nf_capacity = (\<lambda>f. tf_capacity),
     nf_READ_SIZE = 1, nf_WRITE_SIZE = 1, nf_ERASE_SIZE = 128\<rparr>"

definition torn_type :: "TornFlash JournalType" where
  "torn_type = \<lparr>jt_flash = torn_flash, jt_sector_size = 512, jt_trust_center = True\<rparr>"

lemma program_page_length: "off + length d \<le> length bs \<Longrightarrow> length (program_page bs off d) = length bs"
  by (simp add: program_page_def)

lemma program_page_nth:
  assumes "off + length d \<le> length bs" "i < length bs"
  shows "program_page bs off d ! i = (if off \<le> i \<and> i < off + length d then bs ! i AND d ! (i - off) else bs ! i)"
  using assms by (auto simp: program_page_def nth_append)

lemma tf_page_update:
  "tf_page \<lparr>tf_pages = put_page p bs (tf_pages f), tf_faults = fs\<rparr> q = (if q = p then bs else tf_page f q)"
proof -
  have "map_of (filter (\<lambda>(q, _). q \<noteq> p) xs) q = map_of xs q" if "q \<noteq> p" for xs :: "(nat \<times> u8 list) list" using that by (induction xs) auto
  then show ?thesis by (simp add: tf_page_def put_page_def)
qed

lemma torn_mem_update:
  assumes "off + length d \<le> length (tf_page f p)" "length (tf_page f p) = 128"
  shows "torn_mem \<lparr>tf_pages = put_page p (program_page (tf_page f p) off d) (tf_pages f), tf_faults = fs\<rparr> i =
    (if i div 128 = p \<and> off \<le> i mod 128 \<and> i mod 128 < off + length d then torn_mem f i AND d ! (i mod 128 - off) else torn_mem f i)"
proof -
  have m: "i mod 128 < 128" by simp
  show ?thesis
  proof (cases "i div 128 = p")
    case True
    then show ?thesis using assms m program_page_length[OF assms(1)] program_page_nth[OF assms(1), of "i mod 128"]
      by (auto simp: torn_mem_def tf_page_update)
  next
    case False
    then show ?thesis by (simp add: torn_mem_def tf_page_update)
  qed
qed

lemma in_page:
  fixes i a n :: nat
  assumes "a mod 128 + n \<le> 128"
  shows "(i div 128 = a div 128 \<and> a mod 128 \<le> i mod 128 \<and> i mod 128 < a mod 128 + n) = (a \<le> i \<and> i < a + n)"
proof
  assume h: "i div 128 = a div 128 \<and> a mod 128 \<le> i mod 128 \<and> i mod 128 < a mod 128 + n"
  have "i = 128 * (a div 128) + i mod 128" using mult_div_mod_eq[of 128 i] h by simp
  then show "a \<le> i \<and> i < a + n" using h mult_div_mod_eq[of 128 a] by linarith
next
  assume h: "a \<le> i \<and> i < a + n"
  have d: "i div 128 = a div 128"
  proof (rule div_nat_eqI)
    show "128 * (a div 128) \<le> i" using h mult_div_mod_eq[of 128 a] by linarith
    have "i < 128 * (a div 128) + 128" using h assms mult_div_mod_eq[of 128 a] by linarith
    then show "i < 128 * Suc (a div 128)" by simp
  qed
  then show "i div 128 = a div 128 \<and> a mod 128 \<le> i mod 128 \<and> i mod 128 < a mod 128 + n"
    using h mult_div_mod_eq[of 128 a] mult_div_mod_eq[of 128 i, unfolded d] by linarith
qed

lemma torn_write_spec:
  assumes "torn_write f a d = (f', ok)"
  shows "i < unat a \<or> unat a + length d \<le> i \<Longrightarrow> torn_mem f' i = torn_mem f i"
    "ok \<Longrightarrow> \<forall>i<length d. torn_mem f (unat a + i) = 0xFF \<Longrightarrow> i < length d \<Longrightarrow> torn_mem f' (unat a + i) = d ! i"
proof -
  let ?p = "unat a div 128" and ?off = "unat a mod 128"
  consider "f' = f" "\<not> ok"
    | e fs where "?off + length d \<le> length (tf_page f ?p)" "length (tf_page f ?p) = 128" "length e \<le> length d" "ok \<longrightarrow> e = d"
      "f' = \<lparr>tf_pages = put_page ?p (program_page (tf_page f ?p) ?off e) (tf_pages f), tf_faults = fs\<rparr>"
  proof (cases "?off + length d \<le> length (tf_page f ?p) \<and> length (tf_page f ?p) = 128 \<and> ?p < 8")
    case False
    then show thesis using assms that(1) unfolding torn_write_def Let_def by (simp only: if_False prod.inject simp_thms)
  next
    case True
    have w: "torn_write f a d =
      (case tf_faults f of
         Some n # rest \<Rightarrow> (\<lparr>tf_pages = put_page ?p (program_page (tf_page f ?p) ?off (take n d)) (tf_pages f), tf_faults = rest\<rparr>, False)
       | None # rest \<Rightarrow> (\<lparr>tf_pages = put_page ?p (program_page (tf_page f ?p) ?off d) (tf_pages f), tf_faults = rest\<rparr>, True)
       | [] \<Rightarrow> (\<lparr>tf_pages = put_page ?p (program_page (tf_page f ?p) ?off d) (tf_pages f), tf_faults = []\<rparr>, True))"
      unfolding torn_write_def Let_def by (rule if_P[OF True])
    show thesis
    proof (cases "tf_faults f")
      case Nil
      show thesis by (rule that(2)[of d "[]"]) (use w True assms Nil in auto)
    next
      case (Cons c fs)
      then show thesis using w True assms that(2)[of "take (the c) d" fs] that(2)[of d fs] by (cases c) auto
    qed
  qed
  then have "(\<forall>i. i < unat a \<or> unat a + length d \<le> i \<longrightarrow> torn_mem f' i = torn_mem f i) \<and>
    (ok \<longrightarrow> (\<forall>i<length d. torn_mem f (unat a + i) = 0xFF) \<longrightarrow> (\<forall>i<length d. torn_mem f' (unat a + i) = d ! i))"
  proof cases
    case 2
    have le: "?off + length e \<le> length (tf_page f ?p)" and l8: "?off + length e \<le> 128" using 2(1-3) by simp_all
    have m: "torn_mem f' i = (if unat a \<le> i \<and> i < unat a + length e then torn_mem f i AND e ! (i mod 128 - ?off) else torn_mem f i)" for i
      using torn_mem_update[OF le 2(2), of _ i] 2(5) in_page[OF l8, of i] by simp
    have "torn_mem f' (unat a + i) = d ! i" if "ok" "\<forall>i<length d. torn_mem f (unat a + i) = 0xFF" "i < length d" for i
    proof -
      have e: "e = d" using 2(4) that(1) by simp
      have q: "(unat a + i) div 128 = ?p \<and> ?off \<le> (unat a + i) mod 128 \<and> (unat a + i) mod 128 < ?off + length d"
        using in_page[OF l8[unfolded e], of "unat a + i"] that(3) by simp
      have "(unat a + i) mod 128 - ?off = i" using mult_div_mod_eq[of 128 "unat a + i"] mult_div_mod_eq[of 128 "unat a"] q by linarith
      then show ?thesis using m[of "unat a + i"] e that ff_and[of "d ! i"] by simp
    qed
    then show ?thesis using m 2(3) by auto
  qed simp
  then show "i < unat a \<or> unat a + length d \<le> i \<Longrightarrow> torn_mem f' i = torn_mem f i"
    "ok \<Longrightarrow> \<forall>i<length d. torn_mem f (unat a + i) = 0xFF \<Longrightarrow> i < length d \<Longrightarrow> torn_mem f' (unat a + i) = d ! i" by blast+
qed

lemma torn_erase_mem:
  assumes "torn_erase f a b = (f', ok)"
  shows "i < unat a \<or> unat b \<le> i \<Longrightarrow> torn_mem f' i = torn_mem f i" "ok \<Longrightarrow> unat a \<le> i \<Longrightarrow> i < unat b \<Longrightarrow> torn_mem f' i = 0xFF" "\<not> ok \<Longrightarrow> f' = f"
proof -
  let ?P = "\<lambda>p. p < unat a div 128 \<or> unat b div 128 \<le> p"
  have mp: "map_of (filter (\<lambda>(p, bs). ?P p) xs) p = (if ?P p then map_of xs p else None)" for xs :: "(nat \<times> u8 list) list" and p
    by (induction xs) auto
  show "\<not> ok \<Longrightarrow> f' = f" using assms by (auto simp: torn_erase_def split: if_splits)
  show "torn_mem f' i = torn_mem f i" if h: "i < unat a \<or> unat b \<le> i"
  proof (cases ok)
    case True
    then have al: "unat a mod 128 = 0" "unat b mod 128 = 0" and f': "f' = f\<lparr>tf_pages := filter (\<lambda>(p, bs). ?P p) (tf_pages f)\<rparr>"
      using assms by (auto simp: torn_erase_def split: if_splits)
    have "?P (i div 128)" using h al by (metis div_le_mono div_less_iff_less_mult dvd_div_mult_self mod_0_imp_dvd zero_less_numeral)
    then show ?thesis by (simp add: torn_mem_def tf_page_def f' mp)
  qed (use assms in \<open>auto simp: torn_erase_def split: if_splits\<close>)
  show "torn_mem f' i = 0xFF" if "ok" and h: "unat a \<le> i" "i < unat b"
  proof -
    have al: "unat a mod 128 = 0" "unat b mod 128 = 0" and f': "f' = f\<lparr>tf_pages := filter (\<lambda>(p, bs). ?P p) (tf_pages f)\<rparr>"
      using assms that(1) by (auto simp: torn_erase_def split: if_splits)
    have "unat a div 128 \<le> i div 128" "i div 128 < unat b div 128"
      using h al by (auto simp: div_le_mono less_mult_imp_div_less dest!: mod_0_imp_dvd)
    then have "tf_page f' (i div 128) = replicate 128 0xFF" by (simp add: tf_page_def f' mp)
    then show ?thesis by (simp add: torn_mem_def)
  qed
qed

interpretation torn: journal_flash torn_type torn_mem
proof unfold_locales
  fix f f' :: TornFlash and a b :: u32 and n i :: nat and bs d :: "u8 list" and x :: "u8 list option" and ok :: bool
  note m = torn_type_def torn_flash_def
  show "bs = map (torn_mem f) [unat a..<unat a + n]" if "nf_read (jt_flash torn_type) f a n = (f', Some bs)"
  proof -
    let ?p = "unat a div 128" and ?off = "unat a mod 128"
    have l: "?off + n \<le> 128" "length (tf_page f ?p) = 128" and b: "bs = take n (drop ?off (tf_page f ?p))"
      using that by (auto simp: m torn_read_def Let_def split: if_splits)
    have "tf_page f ?p ! (?off + i) = torn_mem f (unat a + i)" if i: "i < n" for i
    proof -
      have q: "(unat a + i) div 128 = ?p \<and> ?off \<le> (unat a + i) mod 128 \<and> (unat a + i) mod 128 < ?off + n"
        using in_page[OF l(1), of "unat a + i"] i by simp
      have "(unat a + i) mod 128 = ?off + i" using mult_div_mod_eq[of 128 "unat a + i"] mult_div_mod_eq[of 128 "unat a"] q by linarith
      then show ?thesis using q l by (simp add: torn_mem_def)
    qed
    then show ?thesis using b l by (intro nth_equalityI) auto
  qed
  show "torn_mem f' = torn_mem f \<and> nf_capacity (jt_flash torn_type) f' = nf_capacity (jt_flash torn_type) f"
    if "nf_read (jt_flash torn_type) f a n = (f', x)" using that by (simp add: m torn_read_def Let_def)
  show "nf_capacity (jt_flash torn_type) f' = nf_capacity (jt_flash torn_type) f" if "nf_write (jt_flash torn_type) f a d = (f', ok)"
    by (simp add: m)
  show "torn_mem f' i = torn_mem f i" if "nf_write (jt_flash torn_type) f a d = (f', ok)" "i < unat a \<or> unat a + length d \<le> i"
    using torn_write_spec(1)[of f a d f' ok i] that by (simp add: m)
  show "torn_mem f' (unat a + i) = d ! i"
    if "nf_write (jt_flash torn_type) f a d = (f', True)" "\<forall>i<length d. torn_mem f (unat a + i) = 0xFF" "i < length d"
    using torn_write_spec(2)[of f a d f' True i] that by (simp add: m)
  show "nf_capacity (jt_flash torn_type) f' = nf_capacity (jt_flash torn_type) f" if "nf_erase (jt_flash torn_type) f a b = (f', ok)"
    by (simp add: m)
  show "torn_mem f' i = torn_mem f i" if "nf_erase (jt_flash torn_type) f a b = (f', ok)" "i < unat a \<or> unat b \<le> i"
    using torn_erase_mem(1)[of f a b f' ok i] that by (simp add: m)
  show "torn_mem f' i = 0xFF" if "nf_erase (jt_flash torn_type) f a b = (f', True)" "unat a \<le> i" "i < unat b"
    using torn_erase_mem(2)[of f a b f' True i] that by (simp add: m)
  show "decode_record (bytes_at (torn_mem f') i) = None" if "nf_erase (jt_flash torn_type) f a b = (f', False)"
      "bytes_at (torn_mem f') i \<noteq> bytes_at (torn_mem f) i"
    using torn_erase_mem(3)[of f a b f' False] that by (simp add: m)
qed

section \<open>The check sum, bit by bit\<close>

fun num_to_bits :: "nat \<Rightarrow> num \<Rightarrow> bool list" where
  "num_to_bits 0 m = []"
| "num_to_bits (Suc n) num.One = True # replicate n False"
| "num_to_bits (Suc n) (num.Bit0 m) = False # num_to_bits n m"
| "num_to_bits (Suc n) (num.Bit1 m) = True # num_to_bits n m"

definition int_bits :: "nat \<Rightarrow> int \<Rightarrow> bool list" where
  "int_bits n k = map (bit k) [0..<n]"

fun bits_int :: "bool list \<Rightarrow> int" where
  "bits_int [] = 0"
| "bits_int (b # bs) = (if b then 1 else 0) + 2 * bits_int bs"

fun xor_bits :: "bool list \<Rightarrow> bool list \<Rightarrow> bool list" where
  "xor_bits [] bs = bs"
| "xor_bits as [] = as"
| "xor_bits (a # as) (b # bs) = (if a then \<not> b else b) # xor_bits as bs"

definition poly_bits :: "bool list" where
  "poly_bits = [False, False, False, False, False, True, False, False, True, True, False, False, False, False, False, True,
     False, False, False, True, True, True, False, True, True, False, True, True, False, True, True, True]"

fun step_bits :: "bool list \<Rightarrow> bool list" where
  "step_bits [] = []"
| "step_bits (c # cs) = (if c then xor_bits cs poly_bits else cs @ [False])"

definition byte_bits :: "bool list \<Rightarrow> u8 \<Rightarrow> bool list" where
  "byte_bits cs b = step_bits (step_bits (step_bits (step_bits (step_bits (step_bits (step_bits (step_bits (xor_bits (int_bits 8 (uint b)) cs))))))))"

lemma num_to_bits: "num_to_bits n m = map (bit (numeral m :: int)) [0..<n]"
proof (induction n m rule: num_to_bits.induct)
  case (2 n)
  show ?case by (rule nth_equalityI) (auto simp: nth_Cons bit_1_iff simp del: upt_Suc split: nat.splits)
next
  case (3 n m)
  show ?case by (rule nth_equalityI) (auto simp: 3 nth_Cons bit_Suc simp del: upt_Suc split: nat.splits)
next
  case (4 n m)
  show ?case by (rule nth_equalityI) (auto simp: 4 nth_Cons bit_Suc simp del: upt_Suc split: nat.splits)
qed simp

lemma int_bits_code [code]:
  "int_bits n 0 = replicate n False" "int_bits n (Int.Pos m) = num_to_bits n m" "int_bits n (Int.Neg m) = map (bit (Int.Neg m)) [0..<n]"
  by (rule nth_equalityI) (simp_all add: int_bits_def num_to_bits)

definition bits32 :: "u32 \<Rightarrow> bool list" where "bits32 w = map (bit w) [0..<32]"

lemma xor_bits_nth: "length as \<le> length bs \<Longrightarrow> i < length bs \<Longrightarrow> xor_bits as bs ! i = ((i < length as \<and> as ! i) \<noteq> bs ! i)"
  by (induction as bs arbitrary: i rule: xor_bits.induct) (auto simp: nth_Cons split: nat.splits)

lemma xor_bits_length: "length as \<le> length bs \<Longrightarrow> length (xor_bits as bs) = length bs"
  by (induction as bs rule: xor_bits.induct) auto

lemma poly_bits: "i < 32 \<Longrightarrow> poly_bits ! i = bit (0xEDB88320 :: u32) i"
proof -
  have "poly_bits = map (bit (0xEDB88320 :: u32)) [0..<32]" by code_simp
  then show "poly_bits ! i = bit (0xEDB88320 :: u32) i" if "i < 32" using that by (metis add_0 diff_zero length_upt nth_map nth_upt)
qed

lemma crc32_bit_bits: "bits32 (crc32_bit w) = step_bits (bits32 w)"
proof (rule nth_equalityI)
  have b: "bits32 w = bit w 0 # map (bit w) [1..<32]" by (simp add: bits32_def upt_conv_Cons)
  have lp: "length poly_bits = 32" by (simp add: poly_bits_def)
  show l: "length (bits32 (crc32_bit w)) = length (step_bits (bits32 w))"
    unfolding b using xor_bits_length[of "map (bit w) [1..<32]" poly_bits] lp by (simp add: bits32_def)
  fix i assume "i < length (bits32 (crc32_bit w))"
  then have i: "i < 32" by (simp add: bits32_def)
  have m: "0 - (w AND 1) = (if bit w 0 then - 1 else 0)" by (simp add: and_one_eq mod2_eq_if bit_0)
  have c: "bit (crc32_bit w) i = (bit w (Suc i) \<noteq> (bit (0xEDB88320 :: u32) i \<and> bit w 0))"
    unfolding crc32_bit_def m Let_def using i by (auto simp: bit_xor_iff bit_and_iff bit_drop_bit_eq)
  have s: "step_bits (bits32 w) ! i = ((i < 31 \<and> bit w (Suc i)) \<noteq> (bit (0xEDB88320 :: u32) i \<and> bit w 0))"
  proof (cases "bit w 0")
    case True
    have "step_bits (bits32 w) ! i = ((i < 31 \<and> map (bit w) [1..<32] ! i) \<noteq> poly_bits ! i)"
      unfolding b using xor_bits_nth[of "map (bit w) [1..<32]" poly_bits i] True i lp by simp
    then show ?thesis using True i poly_bits[OF i] by auto
  next
    case False
    then show ?thesis unfolding b using i by (auto simp: nth_append)
  qed
  have "bit w (Suc i) \<longrightarrow> i < 31" using i bit_imp_le_length[of w "Suc i"] by auto
  then show "bits32 (crc32_bit w) ! i = step_bits (bits32 w) ! i" using c s i by (auto simp: bits32_def)
qed

lemma byte_bits: "bits32 (crc32_byte w b) = byte_bits (bits32 w) b"
proof -
  have x: "bits32 (w XOR ucast b) = xor_bits (int_bits 8 (uint b)) (bits32 w)"
  proof (rule nth_equalityI)
    show "length (bits32 (w XOR ucast b)) = length (xor_bits (int_bits 8 (uint b)) (bits32 w))"
      using xor_bits_length[of "int_bits 8 (uint b)" "bits32 w"] by (simp add: bits32_def int_bits_def)
    fix i assume "i < length (bits32 (w XOR ucast b))"
    then have i: "i < 32" by (simp add: bits32_def)
    have u: "bit b i \<longrightarrow> i < 8" using bit_imp_le_length[of b i] by auto
    show "bits32 (w XOR ucast b) ! i = xor_bits (int_bits 8 (uint b)) (bits32 w) ! i"
      using xor_bits_nth[of "int_bits 8 (uint b)" "bits32 w" i] i u
      by (auto simp: bits32_def int_bits_def bit_xor_iff bit_ucast_iff bit_uint_iff)
  qed
  have e: "(crc32_bit ^^ 8) v = crc32_bit (crc32_bit (crc32_bit (crc32_bit (crc32_bit (crc32_bit (crc32_bit (crc32_bit v)))))))" for v
    by (simp add: numeral_eq_Suc)
  show ?thesis unfolding crc32_byte_def byte_bits_def e crc32_bit_bits x ..
qed

lemma bits32_word: "word_of_int (bits_int (bits32 w)) = w"
proof -
  have "bits_int bs = horner_sum of_bool 2 bs" for bs by (induction bs) simp_all
  moreover have "bits32 w = map (bit (uint w)) [0..<32]" unfolding bits32_def by (rule map_cong) (auto simp: bit_uint_iff)
  ultimately have "bits_int (bits32 w) = take_bit 32 (uint w)" using horner_sum_bit_eq_take_bit[of "uint w" 32] by simp
  also have "\<dots> = uint w" using unsigned_less[of w, where ?'a = int] by (simp add: take_bit_int_eq_self)
  finally show ?thesis by simp
qed

lemma crc32_code [code]: "crc32 data = NOT (word_of_int (bits_int (foldl byte_bits (replicate 32 True) data)))"
proof -
  have f: "bits32 (foldl crc32_byte w data) = foldl byte_bits (bits32 w) data" for w by (induction data arbitrary: w) (simp_all add: byte_bits)
  have "bits32 0xFFFFFFFF = replicate 32 True"
  proof -
    have "(0xFFFFFFFF :: u32) = - 1" by simp
    then show ?thesis unfolding bits32_def by (intro nth_equalityI) (simp_all only: length_map length_upt length_replicate nth_map nth_upt nth_replicate bit_minus_1_iff, simp_all)
  qed
  then show ?thesis using f[of "0xFFFFFFFF"] bits32_word[of "foldl crc32_byte 0xFFFFFFFF data"] by (simp add: crc32_def)
qed

end
