(* ===== verification/Journal_Runs.thy ===== *)
theory Journal_Runs
  imports Torn_Flash
begin

text \<open>
  A device's life, run on real bytes: it is commissioned, a replay floor is committed, a later store loses power between the
  snapshot of the floors and the record, and then either the store is tried again or the floor is retired.  Each step is
  evaluated once; the runs are where the guarantees of the journal are seen at work, and where its one gap shows.
\<close>

definition example_next :: PersistentSecurityState where
  "example_next = example_state\<lparr>ss_update_id := 4, ss_global_counter_limit := 0x1800\<rparr>"

definition example_floor :: ApsReplayCounter where
  "example_floor = \<lparr>ar_origin = RKeyPair [1, 2, 3, 4, 5, 6, 7, 8] TrustCenterLinkKey, ar_key_fingerprint = 0x1234, ar_counter = 77\<rparr>"

definition record_page :: "u32 \<Rightarrow> PersistentSecurityState \<Rightarrow> u8 list" where
  "record_page g s = record_prefix g s 0xFFFF @ replicate 4 0xFF @ RECORD_COMMIT"

definition replay_page :: "u32 \<Rightarrow> u8 list" where
  "replay_page g = replay_header g @ take 24 (encode_replay_entry (ApsFloor example_floor)) @ REPLAY_ENTRY_COMMIT @ replicate 84 0xFF"

definition located :: "u32 \<Rightarrow> nat \<Rightarrow> PersistentSecurityState \<Rightarrow> LocatedState" where
  "located g sector s = \<lparr>lc_generation = g, lc_sector = sector, lc_state = s, lc_tag = 0xFFFF\<rparr>"

definition rebooted :: "TornFlash SecurityStateJournal \<Rightarrow> TornFlash SecurityStateJournal" where
  "rebooted j = journal_new (sj_storage j) 0 512"

definition run0 :: "TornFlash SecurityStateJournal" where
  "run0 = journal_new \<lparr>tf_pages = [], tf_faults = replicate 8 None @ [Some 0]\<rparr> 0 512"

definition run1 :: "TornFlash SecurityStateJournal" where
  "run1 = \<lparr>sj_storage = \<lparr>tf_pages = [(0, record_page 0 example_state)], tf_faults = replicate 6 None @ [Some 0]\<rparr>, sj_sectors = [0, 512],
     sj_cached = Some (located 0 0 example_state), sj_cached_replay = [], sj_replay_generation = Some 0, sj_scanned = True, sj_product_tag = None\<rparr>"

definition run2 :: "TornFlash SecurityStateJournal" where
  "run2 = \<lparr>sj_storage = \<lparr>tf_pages = [(1, replay_page 0), (0, record_page 0 example_state)], tf_faults = replicate 3 None @ [Some 0]\<rparr>,
     sj_sectors = [0, 512], sj_cached = Some (located 0 0 example_state), sj_cached_replay = [ApsFloor example_floor],
     sj_replay_generation = Some 0, sj_scanned = True, sj_product_tag = None\<rparr>"

definition run3 :: "TornFlash SecurityStateJournal" where
  "run3 = \<lparr>sj_storage = \<lparr>tf_pages = [(2, replicate 128 0xFF), (3, replay_page 1), (1, replay_page 0), (0, record_page 0 example_state)], tf_faults = []\<rparr>,
     sj_sectors = [0, 512], sj_cached = None, sj_cached_replay = [], sj_replay_generation = None, sj_scanned = False, sj_product_tag = None\<rparr>"

definition run3v :: "TornFlash SecurityStateJournal" where
  "run3v = run3\<lparr>sj_cached := Some (located 0 0 example_state), sj_cached_replay := [ApsFloor example_floor], sj_replay_generation := Some 0,
     sj_scanned := True\<rparr>"

definition run4 :: "TornFlash SecurityStateJournal" where
  "run4 = \<lparr>sj_storage = \<lparr>tf_pages = [(4, record_page 1 example_next), (5, replay_page 1), (2, replicate 128 0xFF), (3, replay_page 1),
       (1, replay_page 0), (0, record_page 0 example_state)], tf_faults = []\<rparr>,
     sj_sectors = [0, 512], sj_cached = Some (located 1 1 example_next), sj_cached_replay = [ApsFloor example_floor],
     sj_replay_generation = Some 1, sj_scanned = True, sj_product_tag = None\<rparr>"

definition run5 :: "TornFlash SecurityStateJournal" where
  "run5 = \<lparr>sj_storage = \<lparr>tf_pages = [(2, record_page 1 example_state), (3, replay_page 1), (1, replay_page 0), (0, record_page 0 example_state)], tf_faults = []\<rparr>,
     sj_sectors = [0, 512], sj_cached = Some (located 1 0 example_state), sj_cached_replay = [], sj_replay_generation = Some 1,
     sj_scanned = True, sj_product_tag = None\<rparr>"

text \<open>What a journal that has scanned its sectors answers comes from its caches.\<close>

lemma torn_geometry: "sj_sectors j = [0, 512] \<Longrightarrow> \<not> geometry_invalid torn_type j"
proof -
  assume h: "sj_sectors j = [0, 512]"
  have "geometry_invalid torn_type j = geometry_invalid torn_type run0"
    by (simp add: geometry_invalid_def h run0_def journal_new_def torn_type_def torn_flash_def)
  moreover have "\<not> geometry_invalid torn_type run0" by code_simp
  ultimately show ?thesis by simp
qed

lemma torn_cached:
  assumes "sj_sectors j = [0, 512]" "sj_scanned j" "sj_cached j = Some loc"
  shows "journal_load torn_type j = (j, Inr (Some (lc_state loc)))"
    "sj_replay_generation j = Some (lc_generation loc) \<Longrightarrow> journal_visit_replay_counters torn_type j = (j, Inr (sj_cached_replay j))"
  using assms torn_geometry
  by (simp_all add: journal_load_def journal_visit_replay_counters_def journal_current_def ensure_replay_cache_def)

text \<open>The steps.\<close>

lemma run_store: "journal_store torn_type run0 example_state = (run1, Inr ())" by code_simp

lemma run_commit: "journal_commit_replay_counter torn_type run1 (ApsFloor example_floor) = (run2, Inr ())" by code_simp

lemma run_torn_store: "journal_store torn_type run2 example_next = (run3, Inl StoreHardware)" by code_simp

lemma run_load_before: "journal_load torn_type run2 = (run2, Inr (Some example_state))"
  using torn_cached(1)[of run2 "located 0 0 example_state"] by (simp add: run2_def located_def)

lemma run_reboot_torn: "rebooted run3 = run3" by (simp add: rebooted_def journal_new_def run3_def)

lemma run_load_torn: "snd (journal_load torn_type run3) = Inr (Some example_state)" by code_simp

lemma run_visit_torn: "journal_visit_replay_counters torn_type run3 = (run3v, Inr [ApsFloor example_floor])" by code_simp

lemma run_visited:
  "journal_load torn_type run3v = (run3v, Inr (Some example_state))"
  "journal_visit_replay_counters torn_type run3v = (run3v, Inr [ApsFloor example_floor])"
  using torn_cached[of run3v "located 0 0 example_state"] by (simp_all add: run3v_def run3_def located_def)

lemma run_store_again: "journal_store torn_type run3v example_next = (run4, Inr ())" by code_simp

lemma run_visit_again: "snd (journal_visit_replay_counters torn_type (rebooted run4)) = Inr [ApsFloor example_floor]" by code_simp

lemma run_tombstone: "journal_tombstone_replay_counters torn_type run3v (TombKeyFingerprint 0x1234) = (run5, Inr ())" by code_simp

lemma run_visit_tombstone: "snd (journal_visit_replay_counters torn_type run5) = Inr []"
  using torn_cached(2)[of run5 "located 1 0 example_state"] by (simp add: run5_def located_def)

lemma run_visit_resurrected: "snd (journal_visit_replay_counters torn_type (rebooted run5)) = Inr [ApsFloor example_floor]" by code_simp

end
