(* ===== verification/Journal_Guarantees.thy ===== *)
theory Journal_Guarantees
  imports Journal_Recovery Journal_Runs
begin

text \<open>
  What a device may rely on: runs of the journal with failures and reboots at any point, the crash safety of stores, the
  durability of replay floors, and that on a flash that works a device can always be commissioned and reset.
\<close>

section \<open>Runs of the journal\<close>

text \<open>
  A device starts with an erased flash; from then on it calls the operations of the store in any order, with any outcome, and
  reboots at any time: what a reboot finds is the flash as the last operation left it.
\<close>

inductive journal_reachable :: "('f \<Rightarrow> nat \<Rightarrow> u8) \<Rightarrow> 'f JournalType \<Rightarrow> u32 \<Rightarrow> u32 \<Rightarrow> 'f SecurityStateJournal \<Rightarrow> bool"
  for mem :: "'f \<Rightarrow> nat \<Rightarrow> u8" and T :: "'f JournalType" and a b :: u32 where
  first_boot: "(\<And>i. mem f i = 0xFF) \<Longrightarrow> journal_reachable mem T a b (journal_new f a b)"
| reboot: "journal_reachable mem T a b j \<Longrightarrow> journal_reachable mem T a b (journal_new (sj_storage j) a b)"
| load: "journal_reachable mem T a b j \<Longrightarrow> journal_load T j = (j', l) \<Longrightarrow> journal_reachable mem T a b j'"
| store: "journal_reachable mem T a b j \<Longrightarrow> ss_sized s \<Longrightarrow> journal_store T j s = (j', r) \<Longrightarrow> journal_reachable mem T a b j'"
| visit: "journal_reachable mem T a b j \<Longrightarrow> journal_visit_replay_counters T j = (j', v) \<Longrightarrow> journal_reachable mem T a b j'"
| commit: "journal_reachable mem T a b j \<Longrightarrow> journal_commit_replay_counter T j x = (j', r) \<Longrightarrow> journal_reachable mem T a b j'"
| tombstone: "journal_reachable mem T a b j \<Longrightarrow> journal_tombstone_replay_counters T j t = (j', r) \<Longrightarrow> journal_reachable mem T a b j'"
| retain: "journal_reachable mem T a b j \<Longrightarrow> journal_retain_replay_counters T j p = (j', n) \<Longrightarrow> journal_reachable mem T a b j'"
| tag: "journal_reachable mem T a b j \<Longrightarrow> journal_reachable mem T a b (set_product_tag j w)"
| role_tag: "journal_reachable mem T a b j \<Longrightarrow> select_role_tag T j w = (j', cleared) \<Longrightarrow> journal_reachable mem T a b j'"

context journal_flash
begin

lemma new_ok:
  assumes "unique_generations (slot_record mem j) (positions T)" "sj_sectors j = [a, b]"
  shows "journal_ok mem T (journal_new (sj_storage j) a b)" "slot_record mem (journal_new (sj_storage j) a b) = slot_record mem j"
    "durable mem T (journal_new (sj_storage j) a b) s g x = durable mem T j s g x"
proof -
  have bt: "slot_bytes mem (journal_new (sj_storage j) a b) s k = slot_bytes mem j s k" for s k
    using assms(2) by (simp add: journal_new_def slot_bytes_def sector_base_def)
  show rec: "slot_record mem (journal_new (sj_storage j) a b) = slot_record mem j" by (rule ext) (simp add: slot_record_def bt)
  show "journal_ok mem T (journal_new (sj_storage j) a b)" using assms(1) unfolding journal_ok_def rec by (simp add: journal_new_def)
  show "durable mem T (journal_new (sj_storage j) a b) s g x = durable mem T j s g x" unfolding durable_def bt ..
qed

lemma erased_slots: "(\<And>i. mem f i = 0xFF) \<Longrightarrow> slot_record mem (journal_new f a b) p = None"
proof -
  assume "\<And>i. mem f i = 0xFF"
  then have "slot_bytes mem (journal_new f a b) s k = replicate 128 0xFF" for s k
    by (intro replicate_eqI) (auto simp: slot_bytes_def bytes_at_def journal_new_def)
  then show ?thesis by (simp add: slot_record_def located_in_def erased_no_record)
qed

lemma reachable_ok:
  assumes "journal_reachable mem T a b j"
  shows "journal_ok mem T j \<and> sj_sectors j = [a, b]"
  using assms
proof (induction rule: journal_reachable.induct)
  case (first_boot f)
  have "slot_record mem (journal_new f a b) p = None" for p by (rule erased_slots) (rule first_boot)
  then have "unique_generations (slot_record mem (journal_new f a b)) (positions T)" unfolding unique_generations_def by simp
  then show ?case by (simp add: journal_ok_def journal_new_def)
next
  case (reboot j)
  then show ?case using new_ok(1)[of j a b] by (auto simp: journal_ok_def journal_new_def)
next
  case (load j j' l)
  then show ?case using load_spec[of j j' l] by (simp add: quiet_def)
next
  case (store j s j' r)
  then show ?case using store_spec(1,2)[of j s j' r] by simp
next
  case (visit j j' v)
  then show ?case using visit_spec(1,2)[of j j' v] by (simp add: quiet_def)
next
  case (commit j x j' r)
  then show ?case using append_spec[of j x j' r] by (cases x) (simp_all add: journal_commit_replay_counter_def is_aps_def)
next
  case (tombstone j t j' r)
  then show ?case using tombstone_spec[of j t j' r] by (simp add: safe_step_def)
next
  case (retain j p j' n)
  then show ?case using retain_spec[of j p j' n] by (simp add: safe_step_def)
next
  case (tag j w)
  have bt: "slot_bytes mem (set_product_tag j w) s k = slot_bytes mem j s k" for s k by (simp add: set_product_tag_def slot_bytes_def sector_base_def)
  have rec: "slot_record mem (set_product_tag j w) = slot_record mem j" by (rule ext) (simp add: slot_record_def bt)
  show ?case using tag unfolding journal_ok_def rec durable_def bt by (simp add: set_product_tag_def)
next
  case (role_tag j w j' o')
  then show ?case using role_tag_spec[of j w j' o'] by simp
qed

lemma load_reboot:
  assumes "journal_ok mem T j" "sj_sectors j = [a, b]" "journal_load T (journal_new (sj_storage j) a b) = (j', Inr x)"
  shows "x = map_option lc_state (latest mem T j)"
proof -
  have un: "unique_generations (slot_record mem j) (positions T)" using assms(1) by (simp add: journal_ok_def)
  show ?thesis using load_spec[OF assms(3) new_ok(1)[OF un assms(2)]] new_ok(2)[OF un assms(2)] by simp
qed

lemma visit_reboot:
  assumes "journal_ok mem T j" "sj_sectors j = [a, b]" "journal_visit_replay_counters T (journal_new (sj_storage j) a b) = (j', Inr l)"
    "latest mem T j = Some loc" "durable mem T j (lc_sector loc) (lc_generation loc) x"
  shows "covers l x"
proof -
  have un: "unique_generations (slot_record mem j) (positions T)" using assms(1) by (simp add: journal_ok_def)
  note n = new_ok[OF un assms(2)]
  show ?thesis
    by (rule visit_spec(3)[OF assms(3) n(1) refl]) (use assms(4,5) n(2,3) in \<open>simp_all add: journal_new_def\<close>)
qed

end

section \<open>A flash that works\<close>

text \<open>
  A flash whose hardware does not fail: within its capacity and its granularity it reads, programs erased bytes and erases.
\<close>

locale reliable_flash = journal_flash T mem
  for T :: "'f JournalType" and mem :: "'f \<Rightarrow> nat \<Rightarrow> u8" +
  fixes good :: "'f \<Rightarrow> bool"
  assumes sizes: "nf_READ_SIZE (jt_flash T) dvd nf_ERASE_SIZE (jt_flash T)" "nf_WRITE_SIZE (jt_flash T) dvd nf_ERASE_SIZE (jt_flash T)"
    and read_good: "good f \<Longrightarrow> nf_read (jt_flash T) f a n = (f', x) \<Longrightarrow> good f'"
    and write_good: "good f \<Longrightarrow> nf_write (jt_flash T) f a d = (f', ok) \<Longrightarrow> good f'"
    and erase_good: "good f \<Longrightarrow> nf_erase (jt_flash T) f a b = (f', ok) \<Longrightarrow> good f'"
    and read_total: "good f \<Longrightarrow> nf_READ_SIZE (jt_flash T) dvd unat a \<Longrightarrow> nf_READ_SIZE (jt_flash T) dvd n \<Longrightarrow> 0 < n \<Longrightarrow>
      unat a + n \<le> nf_capacity (jt_flash T) f \<Longrightarrow> nf_read (jt_flash T) f a n = (f', x) \<Longrightarrow> x \<noteq> None"
    and write_total: "good f \<Longrightarrow> nf_WRITE_SIZE (jt_flash T) dvd unat a \<Longrightarrow> nf_WRITE_SIZE (jt_flash T) dvd length d \<Longrightarrow> d \<noteq> [] \<Longrightarrow>
      unat a + length d \<le> nf_capacity (jt_flash T) f \<Longrightarrow> \<forall>i<length d. mem f (unat a + i) = 0xFF \<Longrightarrow> nf_write (jt_flash T) f a d = (f', ok) \<Longrightarrow> ok"
    and erase_total: "good f \<Longrightarrow> nf_ERASE_SIZE (jt_flash T) dvd unat a \<Longrightarrow> nf_ERASE_SIZE (jt_flash T) dvd unat b \<Longrightarrow> unat a < unat b \<Longrightarrow>
      unat b \<le> nf_capacity (jt_flash T) f \<Longrightarrow> nf_erase (jt_flash T) f a b = (f', ok) \<Longrightarrow> ok"
begin

lemma geometry_sizes:
  assumes "\<not> geometry_invalid T j"
  shows "s < 2 \<Longrightarrow> nf_ERASE_SIZE (jt_flash T) dvd sector_base j s" "nf_ERASE_SIZE (jt_flash T) dvd jt_sector_size T"
    "nf_READ_SIZE (jt_flash T) dvd 128" "nf_WRITE_SIZE (jt_flash T) dvd 128" "nf_WRITE_SIZE (jt_flash T) dvd 120"
    "nf_WRITE_SIZE (jt_flash T) dvd 124" "nf_WRITE_SIZE (jt_flash T) dvd 4"
    "s < 2 \<Longrightarrow> sector_base j s + jt_sector_size T \<le> nf_capacity (jt_flash T) (sj_storage j)"
proof -
  let ?F = "jt_flash T" and ?s0 = "sj_sectors j ! 0" and ?s1 = "sj_sectors j ! 1"
  have lc: "length RECORD_COMMIT = 4" by (simp add: RECORD_COMMIT_def)
  have g: "nf_READ_SIZE ?F dvd 128" "nf_WRITE_SIZE ?F dvd 128" "nf_ERASE_SIZE ?F dvd jt_sector_size T" "nf_WRITE_SIZE ?F dvd 120"
    "nf_WRITE_SIZE ?F dvd 124" "nf_WRITE_SIZE ?F dvd 4" "nf_ERASE_SIZE ?F dvd unat ?s0" "nf_ERASE_SIZE ?F dvd unat ?s1"
    "unat ?s0 + jt_sector_size T \<le> nf_capacity ?F (sj_storage j)" "unat ?s1 + jt_sector_size T \<le> nf_capacity ?F (sj_storage j)"
    using assms lc unfolding geometry_invalid_def Let_def slot_size journal_consts by simp_all
  show "nf_ERASE_SIZE ?F dvd sector_base j s" if "s < 2" using that g by (auto simp: sector_base_def less_2_cases_iff)
  show "sector_base j s + jt_sector_size T \<le> nf_capacity ?F (sj_storage j)" if "s < 2" using that g by (auto simp: sector_base_def less_2_cases_iff)
  show "nf_ERASE_SIZE ?F dvd jt_sector_size T" "nf_READ_SIZE ?F dvd 128" "nf_WRITE_SIZE ?F dvd 128" "nf_WRITE_SIZE ?F dvd 120"
    "nf_WRITE_SIZE ?F dvd 124" "nf_WRITE_SIZE ?F dvd 4" by (rule g)+
qed

lemma slot_aligned:
  assumes "\<not> geometry_invalid T j" "s < 2" "k < SLOTS_PER_SECTOR T" "off = 0 \<or> off = 124"
  shows "nf_WRITE_SIZE (jt_flash T) dvd unat (slot_address j s k off)" "nf_READ_SIZE (jt_flash T) dvd unat (slot_address j s k 0)"
    "unat (slot_address j s k 0) + 128 \<le> nf_capacity (jt_flash T) (sj_storage j)"
proof -
  note g = geometry_sizes[OF assms(1)] and a = slot_address_unat[OF assms(1-3)]
  have off: "off \<le> 128" "nf_WRITE_SIZE (jt_flash T) dvd off" using assms(4) g(6) by auto
  have "nf_WRITE_SIZE (jt_flash T) dvd sector_base j s" "nf_READ_SIZE (jt_flash T) dvd sector_base j s"
    using dvd_trans[OF sizes(2) g(1)[OF assms(2)]] dvd_trans[OF sizes(1) g(1)[OF assms(2)]] .
  then show "nf_WRITE_SIZE (jt_flash T) dvd unat (slot_address j s k off)" "nf_READ_SIZE (jt_flash T) dvd unat (slot_address j s k 0)"
    using a(1)[OF off(1)] a(1)[of 0] g(3,4) off(2) by simp_all
  show "unat (slot_address j s k 0) + 128 \<le> nf_capacity (jt_flash T) (sj_storage j)"
    using a(1)[of 0] a(2)[of 0] g(8)[OF assms(2)] by simp
qed

lemma read_slot_total:
  assumes "read_slot T j s k = (j', r)" "good (sj_storage j)" "\<not> geometry_invalid T j" "s < 2" "k < SLOTS_PER_SECTOR T"
  shows "r = Inr (slot_bytes mem j s k) \<and> good (sj_storage j')"
proof -
  note al = slot_aligned[OF assms(3-5), of 0]
  obtain f x where fx: "nf_read (jt_flash T) (sj_storage j) (slot_address j s k 0) 128 = (f, x)" by fastforce
  have "x \<noteq> None" by (rule read_total[OF assms(2) _ _ _ _ fx]) (use al geometry_sizes(3)[OF assms(3)] in simp_all)
  then obtain b where b: "x = Some b" by blast
  have r: "r = Inr b" "sj_storage j' = f" using assms(1) fx b by (auto simp: read_slot_def)
  show ?thesis using read_slot_spec(2)[OF assms(1,3-5) r(1)] r read_good[OF assms(2) fx] by simp
qed

lemma newest_loop_total:
  assumes "newest_loop T j ps acc = (j', r)" "good (sj_storage j)" "\<not> geometry_invalid T j" "\<forall>p\<in>set ps. fst p < 2 \<and> snd p < SLOTS_PER_SECTOR T"
  shows "(\<exists>x. r = Inr x) \<and> good (sj_storage j')"
  using assms
proof (induction ps arbitrary: j acc)
  case (Cons p ps)
  obtain s k where p: "p = (s, k)" by fastforce
  obtain j1 r1 where r1: "read_slot T j s k = (j1, r1)" by fastforce
  have b: "r1 = Inr (slot_bytes mem j s k)" "good (sj_storage j1)" using read_slot_total[OF r1 Cons.prems(2,3)] Cons.prems(4) p by simp_all
  have geo1: "\<not> geometry_invalid T j1" using Cons.prems(3) reads_only_slots(3)[OF read_slot_spec(1)[OF r1]] by simp
  show ?case using Cons.IH[OF _ b(2) geo1] Cons.prems(1,4) r1 b(1) p by auto
qed auto

lemma current_total:
  assumes "journal_current T j = (j', r)" "good (sj_storage j)" "\<not> geometry_invalid T j"
  shows "(\<exists>x. r = Inr x) \<and> good (sj_storage j')"
proof -
  have "(\<exists>x. r1 = Inr x) \<and> good (sj_storage j1)" if "journal_newest T j = (j1, r1)" for j1 r1
    by (rule newest_loop_total[OF that[unfolded journal_newest_def] assms(2,3)]) auto
  then show ?thesis using assms unfolding journal_current_def by (auto split: prod.splits sum.splits if_splits)
qed

lemma run_is_erased_total:
  assumes "run_is_erased T j s ks = (j', r)" "good (sj_storage j)" "\<not> geometry_invalid T j" "s < 2" "\<forall>k\<in>set ks. k < SLOTS_PER_SECTOR T"
  shows "(\<exists>x. r = Inr x) \<and> good (sj_storage j')"
  using assms
proof (induction ks arbitrary: j)
  case (Cons k ks)
  obtain j1 r1 where r1: "read_slot T j s k = (j1, r1)" by fastforce
  have b: "r1 = Inr (slot_bytes mem j s k)" "good (sj_storage j1)" using read_slot_total[OF r1 Cons.prems(2-4)] Cons.prems(5) by simp_all
  have geo1: "\<not> geometry_invalid T j1" using Cons.prems(3) reads_only_slots(3)[OF read_slot_spec(1)[OF r1]] by simp
  show ?case using Cons.IH[OF _ b(2) geo1] Cons.prems(1,4,5) r1 b by (auto simp: slot_is_erased_def split: if_splits)
qed auto

lemma find_run_loop_total:
  assumes "find_run_loop T j s n ks = (j', r)" "good (sj_storage j)" "\<not> geometry_invalid T j" "s < 2" "\<forall>k\<in>set ks. k + n \<le> SLOTS_PER_SECTOR T"
  shows "(\<exists>x. r = Inr x) \<and> good (sj_storage j')"
  using assms
proof (induction ks arbitrary: j)
  case (Cons k ks)
  obtain j1 r1 where r1: "run_is_erased T j s [k..<k + n] = (j1, r1)" by fastforce
  have ks: "\<forall>k'\<in>set [k..<k + n]. k' < SLOTS_PER_SECTOR T" using Cons.prems(5) by auto
  then have ks': "k' < SLOTS_PER_SECTOR T" if "k' \<in> set [k..<k + n]" for k' using that by blast
  obtain x where b: "r1 = Inr x" "good (sj_storage j1)" using run_is_erased_total[OF r1 Cons.prems(2-4) ks] by blast
  have "reads_only mem T j j1" using run_is_erased_spec[OF r1 Cons.prems(3,4) ks'] by blast
  then have geo1: "\<not> geometry_invalid T j1" using Cons.prems(3) reads_only_slots(3) by blast
  show ?case using Cons.IH[OF _ b(2) geo1] Cons.prems(1,4,5) r1 b by (auto split: if_splits)
qed auto

lemma place_generation_total:
  assumes "place_generation T j cs ro n = (j', r)" "good (sj_storage j)" "\<not> geometry_invalid T j" "\<forall>s. cs = Some s \<longrightarrow> s < 2"
    "0 < n" "n \<le> SLOTS_PER_SECTOR T"
  shows "(\<exists>x. r = Inr x) \<and> good (sj_storage j')"
proof -
  have f: "(\<exists>x. r1 = Inr x) \<and> good (sj_storage j1)" if "find_erased_run T j s n = (j1, r1)" "s < 2" for s j1 r1
  proof -
    have "find_run_loop T j s n [0..<Suc (SLOTS_PER_SECTOR T - n)] = (j1, r1)" using that(1) assms(5,6) by (simp add: find_erased_run_def)
    then show ?thesis by (rule find_run_loop_total[OF _ assms(2,3) that(2)]) (use assms(6) in auto)
  qed
  show ?thesis
  proof (cases "cs = None \<or> ro")
    case True
    then show ?thesis using assms(1,2) unfolding place_generation_def by (auto split: option.splits)
  next
    case False
    then obtain s where s: "cs = Some s" "s < 2" "\<not> ro" using assms(4) by auto
    obtain j1 r1 where w: "find_erased_run T j s n = (j1, r1)" by fastforce
    obtain x where "r1 = Inr x" "good (sj_storage j1)" using f[OF w s(2)] by blast
    then show ?thesis using assms(1) s w unfolding place_generation_def by (cases x) auto
  qed
qed

lemma flash_write_total:
  assumes "flash_write T j (slot_address j s k off) d = (j', r)" "good (sj_storage j)" "\<not> geometry_invalid T j" "s < 2" "k < SLOTS_PER_SECTOR T"
    "off = 0 \<or> off = 124" "off + length d \<le> 128" "d \<noteq> []" "nf_WRITE_SIZE (jt_flash T) dvd length d"
    and e: "\<And>i. i < length d \<Longrightarrow> slot_bytes mem j s k ! (off + i) = 0xFF"
  shows "r = Inr ()" "good (sj_storage j')"
proof -
  note al = slot_aligned[OF assms(3-6)]
  have a: "unat (slot_address j s k off) = sector_base j s + k * 128 + off" "unat (slot_address j s k 0) = sector_base j s + k * 128"
    using slot_address_unat(1)[OF assms(3-5)] assms(6) by auto
  obtain f ok where f: "nf_write (jt_flash T) (sj_storage j) (slot_address j s k off) d = (f, ok)" by fastforce
  have er: "\<forall>i<length d. mem (sj_storage j) (unat (slot_address j s k off) + i) = 0xFF"
  proof (intro allI impI)
    fix i assume i: "i < length d"
    then show "mem (sj_storage j) (unat (slot_address j s k off) + i) = 0xFF"
      using e[OF i] slot_bytes_nth[of "off + i" mem j s k] assms(7) a(1) by (simp add: add.assoc)
  qed
  have cap: "unat (slot_address j s k off) + length d \<le> nf_capacity (jt_flash T) (sj_storage j)" using al(3) a assms(7) by linarith
  have ok: "ok" by (rule write_total[OF assms(2) al(1) assms(9,8) cap er f])
  show "r = Inr ()" "good (sj_storage j')" using assms(1) f ok write_good[OF assms(2) f] by (auto simp: flash_write_def)
qed

lemma write_record_total:
  assumes w: "write_record T j s k g st tag = (j', r)" and gd: "good (sj_storage j)" and geo: "\<not> geometry_invalid T j" "s < 2" "k < SLOTS_PER_SECTOR T"
    and e: "blank mem j s k" and sz: "ss_sized st" and v: "validate st = Inr ()"
  shows "r = Inr ()"
proof -
  have lp: "length (record_prefix g st tag) = 120" by (rule length_record_prefix[OF sz])
  obtain j1 r1 where w1: "flash_write T j (slot_address j s k 0) (record_prefix g st tag) = (j1, r1)" by fastforce
  note s1 = flash_write_spec[OF w1 geo, unfolded lp add_0, simplified]
  have t1: "r1 = Inr ()" "good (sj_storage j1)"
    by (rule flash_write_total[OF w1 gd geo]; use lp geometry_sizes(5)[OF geo(1)] e in \<open>auto\<close>)+
  have geo1: "\<not> geometry_invalid T j1" using only_slots_fields(7)[OF s1(1)] geo(1) by simp
  have p1: "take 120 (slot_bytes mem j1 s k) = record_prefix g st tag"
    using s1(3)[OF t1(1)] e by (intro nth_equalityI) (simp_all add: lp)
  have rest: "slot_bytes mem j1 s k ! i = 0xFF" if "120 \<le> i" "i < 128" for i using s1(2)[of i] that e by simp
  obtain j2 r2 where w2: "flash_write T j1 (slot_address j1 s k 124) RECORD_COMMIT = (j2, r2)" by fastforce
  have lc: "length RECORD_COMMIT = 4" "RECORD_COMMIT \<noteq> []" by (simp_all add: RECORD_COMMIT_def)
  note s2 = flash_write_spec[OF w2 geo1 geo(2,3), unfolded lc, simplified]
  have t2: "r2 = Inr ()" "good (sj_storage j2)"
    by (rule flash_write_total[OF w2 t1(2) geo1 geo(2,3)]; use lc geometry_sizes(7)[OF geo(1)] rest in \<open>auto\<close>)+
  have f2: "flash_write T j1 (slot_address j s k 0 + of_nat RECORD_COMMIT_OFFSET) RECORD_COMMIT = (j2, r2)"
    using w2 slot_address_plus[of j s k 0 124] only_slots_fields(9)[OF s1(1)] by (simp add: RECORD_COMMIT_OFFSET_def)
  have "take 120 (slot_bytes mem j2 s k) = take 120 (slot_bytes mem j1 s k)" using s2(2) by (intro nth_equalityI) simp_all
  then have t: "take 120 (slot_bytes mem j2 s k) = record_prefix g st tag" using p1 by simp
  have c: "drop 124 (slot_bytes mem j2 s k) = RECORD_COMMIT" using s2(3)[OF t2(1)] rest by (intro nth_equalityI) (simp_all add: lc)
  have "slot_bytes mem j2 s k = take 120 (slot_bytes mem j2 s k) @ take 4 (drop 120 (slot_bytes mem j2 s k)) @ drop 4 (drop 120 (slot_bytes mem j2 s k))"
    unfolding append_take_drop_id ..
  then have b: "slot_bytes mem j2 s k = record_prefix g st tag @ take 4 (drop 120 (slot_bytes mem j2 s k)) @ RECORD_COMMIT" unfolding t using c by simp
  have l4: "length (take 4 (drop 120 (slot_bytes mem j2 s k))) = 4" by simp
  note d = decode_record_written[OF sz v lc(1) l4, of g tag, folded b]
  obtain j3 r3 where w3: "read_slot T j2 s k = (j3, r3)" by fastforce
  have geo2: "\<not> geometry_invalid T j2" using only_slots_fields(7)[OF s2(1)] geo1 by simp
  have r3: "r3 = Inr (slot_bytes mem j2 s k)" using read_slot_total[OF w3 t2(2) geo2 geo(2,3)] by blast
  show ?thesis using w w1 f2 w3 v d t1(1) t2(1) r3 by (simp add: write_record_def state_eq_def)
qed

lemma flash_erase_total:
  assumes "flash_erase T j (sj_sectors j ! s) (sj_sectors j ! s + of_nat (jt_sector_size T)) = (j', r)" "good (sj_storage j)"
    "\<not> geometry_invalid T j" "s < 2"
  shows "r = Inr ()" "good (sj_storage j')"
proof -
  let ?a = "sj_sectors j ! s" and ?b = "sj_sectors j ! s + of_nat (jt_sector_size T)"
  note g = geometry_sizes[OF assms(3)]
  have z: "0 < jt_sector_size T" using geometry(1,2)[OF assms(3)] by auto
  have lt: "sector_base j s + jt_sector_size T < 2 ^ 32" by (rule geometry(3)[OF assms(3,4)])
  have sz: "unat (of_nat (jt_sector_size T) :: u32) = jt_sector_size T" using lt by (simp add: unat_of_nat)
  have b: "unat ?b = sector_base j s + jt_sector_size T"
    using lt sz by (subst unat_plus_simple[THEN iffD1]) (simp_all add: no_olen_add_nat sector_base_def)
  have a: "unat ?a = sector_base j s" by (simp add: sector_base_def)
  obtain f ok where f: "nf_erase (jt_flash T) (sj_storage j) ?a ?b = (f, ok)" by fastforce
  have "ok" by (rule erase_total[OF assms(2) _ _ _ _ f]) (use a b g(1,8)[OF assms(4)] g(2) z in simp_all)
  then show "r = Inr ()" "good (sj_storage j')" using assms(1) f erase_good[OF assms(2) f] by (auto simp: flash_erase_def)
qed

lemma commit_empty_total:
  assumes w: "commit_generation T j cs ro g st = (j', r)" and gd: "good (sj_storage j)" and geo: "\<not> geometry_invalid T j"
    and cs: "\<forall>s. cs = Some s \<longrightarrow> s < 2" and e: "sj_cached_replay j = []" and sz: "ss_sized st" and v: "validate st = Inr ()"
  shows "r = Inr ()"
proof -
  have n: "(0::nat) < 1" "1 \<le> SLOTS_PER_SECTOR T" using geometry(2)[OF geo] by simp_all
  obtain j1 r1 where w1: "place_generation T j cs ro 1 = (j1, r1)" by fastforce
  obtain t k er where r1: "r1 = Inr (t, k, er)" and gd1: "good (sj_storage j1)" using place_generation_total[OF w1 gd geo cs n] by (metis prod_cases3)
  note pl = place_generation_spec[OF w1 geo cs n]
  have t: "t < 2" "k < SLOTS_PER_SECTOR T" using pl(2)[OF r1] by auto
  have geo1: "\<not> geometry_invalid T j1" using geo reads_only_slots(3)[OF pl(1)] by simp
  obtain j2 r2 where w2: "(if er then flash_erase T j1 (sj_sectors j1 ! t) (sj_sectors j1 ! t + of_nat (jt_sector_size T)) else (j1, Inr ())) = (j2, r2)"
    by fastforce
  have s2: "r2 = Inr () \<and> good (sj_storage j2) \<and> blank mem j2 t k \<and> (\<exists>S. only_slots mem T j1 j2 S)"
  proof (cases er)
    case True
    then have fe: "flash_erase T j1 (sj_sectors j1 ! t) (sj_sectors j1 ! t + of_nat (jt_sector_size T)) = (j2, r2)" using w2 by simp
    note x = flash_erase_total[OF fe gd1 geo1 t(1)] and y = flash_erase_spec[OF fe geo1 t(1)]
    show ?thesis using x y(1) y(2)[OF x(1) t(2)] by blast
  next
    case False
    have "blank mem j t k" using pl(2)[OF r1] False by simp
    then have "blank mem j1 t k" using reads_only_slots(1)[OF pl(1)] by simp
    moreover have "\<exists>S. only_slots mem T j1 j1 S" using reads_only_slots(4)[OF reads_only_refl] by blast
    ultimately show ?thesis using w2 False gd1 by auto
  qed
  then obtain S where S: "only_slots mem T j1 j2 S" by blast
  have geo2: "\<not> geometry_invalid T j2" using geo1 only_slots_fields(7)[OF S] by simp
  have e2: "sj_cached_replay j2 = []" using e reads_only_fields(3)[OF pl(1)] only_slots_fields(3)[OF S] by simp
  obtain j3 r3 where w3: "write_record T j2 t k g st (tag_for_commit j) = (j3, r3)" by fastforce
  have r3: "r3 = Inr ()" using write_record_total[OF w3 _ geo2 t _ sz v] s2 by blast
  have "activate_generation T j2 t k g st (tag_for_commit j) = (j3, Inr ())"
    using w3 r3 e2 by (simp add: activate_generation_def write_replay_snapshot_def)
  then have "write_generation T j cs ro g st (tag_for_commit j) = (j3, Inr t)"
    using w1 r1 w2 s2 e n unfolding write_generation_def Let_def replay_snapshot_slots_def by (simp add: REPLAY_ENTRIES_PER_SLOT_def)
  then show ?thesis using w by (simp add: commit_generation_def)
qed

lemma store_total:
  assumes w: "journal_store T j st = (j', r)" and ok: "journal_ok mem T j" and gd: "good (sj_storage j)" and geo: "\<not> geometry_invalid T j"
    and sz: "ss_sized st" and v: "validate st = Inr ()" and np: "\<forall>loc. latest mem T j = Some loc \<longrightarrow> \<not> preserves_replay (lc_state loc) st"
    and g: "next_generation (latest mem T j) = Some g"
  shows "r = Inr ()"
proof -
  obtain j1 r1 where w1: "journal_current T j = (j1, r1)" by fastforce
  note s1 = current_spec[OF w1 ok]
  obtain cur where cur: "r1 = Inr cur" and gd1: "good (sj_storage j1)" using current_total[OF w1 gd geo] by blast
  note c = s1(4)[OF cur]
  let ?j2 = "j1\<lparr>sj_cached_replay := [], sj_replay_generation := None\<rparr>"
  have st: "stage_replay T j1 cur st = (?j2, Inr ())" using np c by (auto simp: stage_replay_def split: option.splits)
  have w2: "commit_generation T ?j2 (map_option lc_sector cur) False g st = (j', r)" using w w1 cur g c st by (simp add: journal_store_def)
  have q: "quiet mem T j ?j2" using s1(1) by (simp add: quiet_def)
  have un: "unique_generations (slot_record mem j) (positions T)" using ok by (simp add: journal_ok_def)
  show ?thesis
    by (rule commit_empty_total[OF w2]) (use gd1 quiet_slots(3)[OF q] geo sz v c newest_located(1)[OF un] in auto)
qed

end

interpretation mock_works: reliable_flash "mock_type sector" mock_mem "\<lambda>f. mf_programs_before_failure f = None"
proof unfold_locales
  fix f f' :: MockFlash and a b :: u32 and n :: nat and d :: "u8 list" and x :: "u8 list option" and ok :: bool
  note m = mock_type_def mock_flash_def
  show "nf_READ_SIZE (jt_flash (mock_type sector)) dvd nf_ERASE_SIZE (jt_flash (mock_type sector))"
    "nf_WRITE_SIZE (jt_flash (mock_type sector)) dvd nf_ERASE_SIZE (jt_flash (mock_type sector))" by (simp_all add: m)
  assume f: "mf_programs_before_failure f = None"
  show "mf_programs_before_failure f' = None" if "nf_read (jt_flash (mock_type sector)) f a n = (f', x)"
    using that f by (simp add: m mock_read_def)
  have mw: "mock_program f a d = (f', ok)" if "nf_write (jt_flash (mock_type sector)) f a d = (f', ok)" using that f by (simp add: m mock_write_def)
  show "mf_programs_before_failure f' = None" if "nf_write (jt_flash (mock_type sector)) f a d = (f', ok)"
    using mock_program_spec(2)[OF mw[OF that]] f by simp
  show "mf_programs_before_failure f' = None" if "nf_erase (jt_flash (mock_type sector)) f a b = (f', ok)"
    using mock_erase_spec(2)[of sector f a b f' ok] that f by (simp add: m)
  show "x \<noteq> None" if "0 < n" "unat a + n \<le> nf_capacity (jt_flash (mock_type sector)) f" "nf_read (jt_flash (mock_type sector)) f a n = (f', x)"
    using that by (auto simp: m mock_read_def)
  show ok if "d \<noteq> []" "unat a + length d \<le> nf_capacity (jt_flash (mock_type sector)) f" "\<forall>i<length d. mock_mem f (unat a + i) = 0xFF"
      "nf_write (jt_flash (mock_type sector)) f a d = (f', ok)"
    using mock_program_spec(5)[OF mw[OF that(4)]] that by (simp add: m)
  show ok if "nf_ERASE_SIZE (jt_flash (mock_type sector)) dvd unat a" "nf_ERASE_SIZE (jt_flash (mock_type sector)) dvd unat b" "unat a < unat b"
      "unat b \<le> nf_capacity (jt_flash (mock_type sector)) f" "nf_erase (jt_flash (mock_type sector)) f a b = (f', ok)"
    using mock_erase_spec(6)[of sector f a b f' ok] that by (simp add: m)
qed

section \<open>The run of a device\<close>

lemma torn_erased: "torn_mem (sj_storage run0) i = 0xFF"
  by (simp add: run0_def journal_new_def torn_mem_def tf_page_def)

lemma example_sized: "ss_sized example_state" "ss_sized example_next"
  by code_simp+

lemma run_reachable:
  "journal_reachable torn_mem torn_type 0 512 run2" "journal_reachable torn_mem torn_type 0 512 run3"
  "journal_reachable torn_mem torn_type 0 512 run3v"
proof -
  have "journal_reachable torn_mem torn_type 0 512 (journal_new (sj_storage run0) 0 512)"
    by (rule journal_reachable.first_boot) (rule torn_erased)
  then have "journal_reachable torn_mem torn_type 0 512 run0" by (simp add: run0_def journal_new_def)
  from journal_reachable.store[OF this example_sized(1) run_store] have "journal_reachable torn_mem torn_type 0 512 run1" .
  from journal_reachable.commit[OF this run_commit] show 2: "journal_reachable torn_mem torn_type 0 512 run2" .
  from journal_reachable.store[OF 2 example_sized(2) run_torn_store] show 3: "journal_reachable torn_mem torn_type 0 512 run3" .
  from journal_reachable.visit[OF 3 run_visit_torn] show "journal_reachable torn_mem torn_type 0 512 run3v" .
qed

lemma snd_eqD: "snd p = x \<Longrightarrow> \<exists>y. p = (y, x)"
  by (cases p) simp

section \<open>What the journal promises\<close>

text \<open>
  C2: the journal is crash safe.  However a device got here, by whatever operations, failures and reboots, a stored state is
  what a reboot finds when the store reported success, and when it failed or lost power at any point a reboot finds the
  state from before or the new one, never another.  A loss of power is a program or an erase that fails part way: of a
  program only that it touches no other bytes is assumed, of an erase also that a slot it changed does not decode as a record.
\<close>

theorem journal_store_crash_safe:
  assumes "journal_flash T mem" and "journal_reachable mem T a b j" and "ss_sized s"
    and "journal_load T j = (j0, Inr before)" and "journal_store T j s = (j1, r)"
    and "journal_load T (journal_new (sj_storage j1) a b) = (j2, Inr found)"
  shows "if r = Inr () then found = Some s else found = before \<or> found = Some s"
proof -
  note ok = journal_flash.reachable_ok[OF assms(1,2)]
  note st = journal_flash.store_spec[OF assms(1,5) ok[THEN conjunct1] assms(3)]
  have found: "found = map_option lc_state (latest mem T j1)"
    by (rule journal_flash.load_reboot[OF assms(1) st(1) _ assms(6)]) (use st(2) ok in simp)
  have before: "before = map_option lc_state (latest mem T j)" using journal_flash.load_spec[OF assms(1,4)] ok by blast
  have "found = before \<or> found = Some s" using st(3) found before by auto
  moreover have "found = Some s" if "r = Inr ()" using st(4)[OF that] found by auto
  ultimately show ?thesis by simp
qed

text \<open>The store that loses power: the state from before is still there.\<close>

theorem journal_store_crash_safe_witness:
  "\<exists>j found. journal_store torn_type run2 example_next = (run3, Inl StoreHardware) \<and>
     journal_load torn_type (journal_new (sj_storage run3) 0 512) = (j, Inr found) \<and> (found = Some example_state \<or> found = Some example_next)"
proof -
  obtain j where j: "journal_load torn_type (journal_new (sj_storage run3) 0 512) = (j, Inr (Some example_state))"
    using snd_eqD[OF run_load_torn] run_reboot_torn by (auto simp: rebooted_def)
  from journal_store_crash_safe[OF torn.journal_flash_axioms run_reachable(1) example_sized(2) run_load_before run_torn_store j]
  show ?thesis using j run_torn_store by auto
qed

text \<open>
  A replay floor that was committed survives a reboot, and committing one never touches the state, whatever happens on
  the way.
\<close>

lemma journal_floor_durable:
  assumes "journal_flash T mem" and "journal_reachable mem T a b j" and "journal_load T j = (j0, Inr before)"
    and "journal_commit_replay_counter T j (ApsFloor x) = (j1, r)"
    and "journal_load T (journal_new (sj_storage j1) a b) = (j2, Inr found)"
    and "journal_visit_replay_counters T (journal_new (sj_storage j1) a b) = (j3, Inr floors)"
  shows "found = before \<and> (r = Inr () \<longrightarrow> covers floors (ApsFloor x))"
proof -
  note ok = journal_flash.reachable_ok[OF assms(1,2)]
  have w: "append_durable_replay_counter T j (ApsFloor x) = (j1, r)" using assms(4) by (simp add: journal_commit_replay_counter_def)
  have st: "journal_ok mem T j1 \<and> sj_sectors j1 = sj_sectors j \<and> map_option lc_state (latest mem T j1) = map_option lc_state (latest mem T j) \<and>
    (\<forall>u. r = Inr u \<longrightarrow> (\<exists>loc. latest mem T j1 = Some loc \<and> durable mem T j1 (lc_sector loc) (lc_generation loc) (ApsFloor x)))"
    by (rule journal_flash.append_spec[OF assms(1) w ok[THEN conjunct1]]) (simp add: is_aps_def)
  have ok1: "journal_ok mem T j1" "sj_sectors j1 = [a, b]" using st ok by simp_all
  have "before = map_option lc_state (latest mem T j)" using journal_flash.load_spec[OF assms(1,3)] ok by blast
  then have "found = before" using journal_flash.load_reboot[OF assms(1) ok1 assms(5)] st by simp
  moreover have "covers floors (ApsFloor x)" if "r = Inr ()" using st that journal_flash.visit_reboot[OF assms(1) ok1 assms(6)] by blast
  ultimately show ?thesis by simp
qed



text \<open>
  C39: on a flash that works a device can always be commissioned and always be reset: storing a valid state that starts a new
  set of replay floors succeeds, unless every generation number has been used up.
\<close>

theorem journal_store_succeeds:
  assumes "reliable_flash T mem good" and "journal_reachable mem T a b j" and "good (sj_storage j)" and "\<not> geometry_invalid T j"
    and "ss_sized s" and "validate s = Inr ()" and "journal_load T j = (j0, Inr before)"
    and "case before of None \<Rightarrow> True | Some old \<Rightarrow> \<not> preserves_replay old s" and "journal_store T j s = (j1, r)"
  shows "r = Inr () \<or> r = Inl GenerationExhausted \<and> (\<exists>j' loc. journal_current T j = (j', Inr (Some loc)) \<and> lc_generation loc = - 1)"
proof -
  have jf: "journal_flash T mem" using assms(1) unfolding reliable_flash_def by blast
  have ok: "journal_ok mem T j" using journal_flash.reachable_ok[OF jf assms(2)] by blast
  have bf: "before = map_option lc_state (latest mem T j)" using journal_flash.load_spec[OF jf assms(7) ok] by blast
  show ?thesis
  proof (cases "next_generation (latest mem T j)")
    case (Some g)
    have np: "\<forall>loc. latest mem T j = Some loc \<longrightarrow> \<not> preserves_replay (lc_state loc) s" using bf assms(8) by auto
    show ?thesis using reliable_flash.store_total[OF assms(1,9) ok assms(3,4,5,6) np Some] by blast
  next
    case None
    then obtain loc where loc: "latest mem T j = Some loc" "lc_generation loc = - 1"
      by (auto simp: next_generation_def u32_checked_inc_def split: option.splits if_splits)
    obtain j' rc where w: "journal_current T j = (j', rc)" by fastforce
    obtain x where x: "rc = Inr x" using reliable_flash.current_total[OF assms(1) w assms(3,4)] by blast
    have "x = Some loc" using journal_flash.current_spec(4)[OF jf w ok x] loc(1) by simp
    then show ?thesis using assms(9) w x None loc by (auto simp: journal_store_def)
  qed
qed

text \<open>A device that is commissioned for the first time.\<close>

definition fresh_mock :: MockFlash where
  "fresh_mock = \<lparr>mf_data = replicate 1024 0xFF, mf_programs_before_failure = None\<rparr>"

theorem journal_store_succeeds_witness:
  "\<exists>j. journal_store (mock_type 512) (journal_new fresh_mock 0 512) example_state = (j, Inr ())"
proof -
  let ?T = "mock_type 512" and ?j = "journal_new fresh_mock 0 512"
  have e: "mock_mem fresh_mock i = 0xFF" for i by (simp add: mock_mem_def fresh_mock_def)
  have r: "journal_reachable mock_mem ?T 0 512 ?j" by (rule journal_reachable.first_boot) (rule e)
  have g: "mf_programs_before_failure (sj_storage ?j) = None" by (simp add: journal_new_def fresh_mock_def)
  have geo: "\<not> geometry_invalid ?T ?j" by code_simp
  obtain j0 rc where c: "journal_current ?T ?j = (j0, rc)" by fastforce
  obtain x where x: "rc = Inr x" using mock_works.current_total[OF c g geo] by blast
  then have l: "journal_load ?T ?j = (j0, Inr (map_option lc_state x))" using c by (simp add: journal_load_def)
  have n: "x = None" using mock.current_spec(4)[OF c mock.reachable_ok[OF r, THEN conjunct1] x] newest_none[where D = "slot_record mock_mem ?j"]
      mock.erased_slots[OF e] by simp
  obtain j1 r' where st: "journal_store ?T ?j example_state = (j1, r')" by fastforce
  have v: "validate example_state = Inr ()" by code_simp
  have "r' = Inr () \<or> r' = Inl GenerationExhausted \<and> (\<exists>j' loc. journal_current ?T ?j = (j', Inr (Some loc)) \<and> lc_generation loc = - 1)"
    by (rule journal_store_succeeds[OF mock_works.reliable_flash_axioms r g geo example_sized(1) v l _ st]) (simp add: n)
  then show ?thesis using st c x n by auto
qed

section \<open>Retiring floors\<close>

text \<open>
  The gap in the promise: after a store that lost power between the snapshot of the floors and the record, a floor is
  retired with success, no floor is left, and after the next reboot it is there again.  The record that retires it is written with
  the generation number of the store that was lost, whose snapshot still lies in the slot beside it and is taken for its own.
\<close>

lemma tombstone_undone_by_reboot:
  "\<exists>j1 j2 j3. journal_store torn_type run2 example_next = (run3, Inl StoreHardware) \<and>
     journal_visit_replay_counters torn_type run3 = (run3v, Inr [ApsFloor example_floor]) \<and>
     journal_tombstone_replay_counters torn_type run3v (TombKeyFingerprint 0x1234) = (j1, Inr ()) \<and>
     journal_visit_replay_counters torn_type j1 = (j2, Inr []) \<and>
     journal_visit_replay_counters torn_type (journal_new (sj_storage j1) 0 512) = (j3, Inr [ApsFloor example_floor])"
  using run_torn_store run_visit_torn run_tombstone snd_eqD[OF run_visit_tombstone] snd_eqD[OF run_visit_resurrected]
  by (auto simp: rebooted_def)

end
