(* ===== verification/Spec2Isabelle.thy ===== *)
theory Spec2Isabelle
  imports Source_Routes Routing_Table Broadcast_Tables Nwk_Frames Link_Status Address_Map Indirect_Queue Nwk_Security Leaf_Replay Secured_Frames Fragment_Transfer Security_State Security_Journal Journal_Flash Journal_Recovery Torn_Flash Journal_Runs Journal_Guarantees
begin

text \<open>
  A verification library for the protocol core of \<^verbatim>\<open>zigbee-rs\<close>, a Zigbee PRO (R22) stack for
  microcontrollers written in Rust.

  \<^bold>\<open>The program.\<close>  The stack is a tower of crates: \<^verbatim>\<open>zigbee-types\<close> (addresses, channels), \<^verbatim>\<open>zigbee-crypto\<close>
  (AES-CCM*, AES-MMO), \<^verbatim>\<open>zigbee-mac\<close> (radio drivers), \<^verbatim>\<open>zigbee-nwk\<close> (network layer), \<^verbatim>\<open>zigbee-aps\<close> (application
  support layer), \<^verbatim>\<open>zigbee-zdo\<close>, \<^verbatim>\<open>zigbee-bdb\<close>, \<^verbatim>\<open>zigbee-zcl\<close>, and \<^verbatim>\<open>zigbee-runtime\<close> which drives them.  A received
  frame passes the NWK header parser, the NWK security gate (auxiliary header, key selection by sequence number,
  CCM*, replay floor of the source), the duplicate tables for broadcasts and route requests, then either the
  routing tables (to be relayed) or the APS layer (header parser, link-key security with its own replay floors,
  fragment reassembly).  A sent frame takes the same way down: the APS layer fragments and secures it, the NWK
  layer finds a next hop, writes the header, draws a frame counter and encrypts; frames for sleeping children wait
  in the indirect queue.  The library models these state machines and codecs operation by operation and proves what
  each promises, and then what they promise together.

  \<^bold>\<open>Conventions.\<close>  Definitions carry the names of the Rust functions (\<^verbatim>\<open>T::f\<close> is \<^verbatim>\<open>T_f\<close> where \<^verbatim>\<open>f\<close> alone would be
  ambiguous).  A struct is a \<^verbatim>\<open>record\<close> whose fields have the source's names behind a short prefix, an enum a
  \<^verbatim>\<open>datatype\<close>, a machine integer a word of its width, a fixed array or \<^verbatim>\<open>heapless::Vec\<close> a list with its capacity
  checked where the source checks it.  \<^verbatim>\<open>&mut self\<close> is state passing.  An \<^verbatim>\<open>Option\<close> or \<^verbatim>\<open>Result\<close> of the source is an
  \<^verbatim>\<open>option\<close> or a sum; where the source could panic (index out of range, slice too long) an outer \<^verbatim>\<open>option\<close> has \<open>None\<close>
  for the panic, and the theorems then say it does not happen.  Logging and the zeroising of dropped buffers have
  no counterpart.  Build-time choices (the \<^verbatim>\<open>router\<close> feature, table sizes) are list lengths or Boolean arguments; where a
  build has other code altogether the theory says which build it models.

  \<^bold>\<open>The theories.\<close>
    \<^item> \<^verbatim>\<open>Rust_Prelude\<close>: saturating arithmetic, \<^verbatim>\<open>position\<close>, \<^verbatim>\<open>max_by_key\<close>, \<^verbatim>\<open>swap_remove\<close>, buffer writes and
      little-endian conversions, with the lemmas the components share.
    \<^item> \<^verbatim>\<open>Table_Interfaces\<close>: the interfaces as locales, each with its client lemmas proved once: arrays of slots
      (\<open>slot_array\<close>), caches with a lookup law (\<open>bounded_cache\<close>), countdown entries and tables that never displace a
      live one (\<open>countdown_slot\<close>, \<open>no_evict_table\<close>), replay protection (\<open>replay_guard\<close>: a step that accepts or refuses
      and a floor that later steps keep) and codecs (\<open>wire_codec\<close>).  The components interpret them on their own operations.
    \<^item> \<^verbatim>\<open>Zb_Types\<close> (\<^verbatim>\<open>zigbee-types/src/lib.rs\<close>): addresses, channel numbers, the channel-mask iterator.
    \<^item> \<^verbatim>\<open>Source_Routes\<close>, \<^verbatim>\<open>Routing_Table\<close>, \<^verbatim>\<open>Broadcast_Tables\<close> (\<^verbatim>\<open>zigbee-nwk/src/routing.rs\<close>): the relay-path cache,
      the routing and route-discovery tables with tree routing, the broadcast transaction, route request and
      broadcast transmission records.
    \<^item> \<^verbatim>\<open>Nwk_Frames\<close> (\<^verbatim>\<open>frames.rs\<close>): the NWK header and command payloads, parsers and serialisers.
    \<^item> \<^verbatim>\<open>Neighbor_Table\<close>, \<^verbatim>\<open>Link_Status\<close> (\<^verbatim>\<open>neighbor.rs\<close>, \<^verbatim>\<open>nwk_commands.rs\<close>): the neighbor table, and the exchange of
      link costs between two routers over it.
    \<^item> \<^verbatim>\<open>Address_Map\<close>, \<^verbatim>\<open>Indirect_Queue\<close> (\<^verbatim>\<open>address_map.rs\<close>, \<^verbatim>\<open>indirect.rs\<close>).
    \<^item> \<^verbatim>\<open>Nwk_Security\<close>, \<^verbatim>\<open>Leaf_Replay\<close> (\<^verbatim>\<open>security.rs\<close>, and the admission functions of \<^verbatim>\<open>nlde.rs\<close>): the network key slots
      and the replay table of the router build, and of the end-device build.
    \<^item> \<^verbatim>\<open>Ccm_Star\<close> (\<^verbatim>\<open>zigbee-crypto/src/lib.rs\<close>): CCM*, the MMO hash and install codes over an abstract block cipher.
    \<^item> \<^verbatim>\<open>Secured_Frames\<close> (\<^verbatim>\<open>nlde.rs\<close>, \<^verbatim>\<open>nib.rs\<close>): building and authenticating secured NWK frames.
    \<^item> \<^verbatim>\<open>Aps_Frames\<close>, \<^verbatim>\<open>Aps_Security\<close>, \<^verbatim>\<open>Aps_Secured_Frames\<close> (\<^verbatim>\<open>zigbee-aps/src/frames.rs\<close>, \<^verbatim>\<open>security.rs\<close>, the security
      phases of \<^verbatim>\<open>apsde.rs\<close>): the APS header, the link-key table with its replay floors, and the life of an
      APS-secured frame.
    \<^item> \<^verbatim>\<open>Fragment_Reassembly\<close> (\<^verbatim>\<open>fragment.rs\<close>): the receive side of fragmentation.
    \<^item> \<^verbatim>\<open>Aps_Tracking\<close> (\<^verbatim>\<open>zigbee-aps/src/lib.rs\<close>): the duplicate rejection table and the acknowledgement table with its
      retransmissions.
    \<^item> \<^verbatim>\<open>Fragment_Tx\<close>, \<^verbatim>\<open>Fragment_Rx\<close>, \<^verbatim>\<open>Fragment_Transfer\<close> (\<^verbatim>\<open>fragment_tx.rs\<close>, \<^verbatim>\<open>apsde.rs\<close>): the sender of fragmented
      transactions, the receiver of fragments with its windowed acknowledgements, and the two of them over a network that loses,
      repeats and reorders frames (an executable step function, the reachable states as an inductive relation).
    \<^item> \<^verbatim>\<open>Security_State\<close>, \<^verbatim>\<open>Security_Journal\<close> (\<^verbatim>\<open>zigbee-runtime/src/security_store.rs\<close>, \<^verbatim>\<open>security_journal.rs\<close>): the persistent security state
      with its eight record formats, the replay floors, and the two-sector flash journal, operation by operation over an abstract
      NOR flash.  \<^verbatim>\<open>Journal_Flash\<close> states what is assumed of the flash (the locales \<open>nor_flash\<close> and \<open>journal_flash\<close>, interpreted on the
      flash of the journal's tests) and reads the journal's state off the bytes; \<^verbatim>\<open>Journal_Recovery\<close> has the specification of each operation
      under any failure; \<^verbatim>\<open>Torn_Flash\<close> and \<^verbatim>\<open>Journal_Runs\<close> run the journal on real bytes with interrupted programs;
      \<^verbatim>\<open>Journal_Guarantees\<close> has the reachable states and what the journal promises.

  \<^bold>\<open>What is proved.\<close>
    \<^item> Codecs: every parser is exact for its serialiser (a header that is serialised is parsed back, and a parsed
      header serialises to the bytes it was read from), for the NWK and APS headers and the NWK commands.
    \<^item> Tables: every operation keeps the table's invariant; lookups agree with an abstract map (refinements of the
      source route and indirect tables, and of the routing table under unicast updates); who is displaced when a table is full, and who never is.
    \<^item> Replay: after a frame is accepted no later frame of that key and source with the same or a lower counter is,
      whatever operations happen in between that keep the key; for the NWK layer of both builds and for the APS layer.
    \<^item> Cryptography: decryption inverts encryption and accepts nothing else, for every block cipher; accepted frames
      are genuine; genuine frames arrive; nonces never repeat.
    \<^item> Fragmentation: what is handed up is the concatenation of the blocks of one message, under loss, duplication
      and reordering, and blocks that arrive in order complete the message.
    \<^item> Delivery: an acknowledgement is reported only after the peer sent one, retransmission ends, a frame is delivered
      once within the rejection time; a fragmented transaction always ends, and when the sender confirms success the receiver
      has handed up exactly the payload.
    \<^item> Persistence: whatever fails and whenever the power goes, a reboot finds the state from before a store or the new one, and a
      store that reported success is found; storing a state of the same network lowers no replay floor; on a flash that works a
      store succeeds; every decoder yields a valid state that the current format represents.
    \<^item> Where the code falls short of what it says, a lemma shows the run: two routes for one destination, tree routing to the first child
      only, a seal lifted by a repeated key, a retried frame delivered twice, a fragmented message confirmed and never delivered
      after the receiver aged its session out, a neighbor listed twice, a retired replay floor that a reboot brings back.

  \<^bold>\<open>Bounds.\<close>  No function of the library runs on fuel: the loops are structural recursions over lists or have a
  termination proof (\<^verbatim>\<open>remove_application_keys\<close>, \<^verbatim>\<open>send_due_fragments\<close>, the CCM* block loops).  The size limits in the definitions are the
  constants of the source.

  \<^bold>\<open>Parameters.\<close>  The AES block cipher (the \<^verbatim>\<open>aes\<close> package, a hardware engine) is a function argument with the
  hypothesis that it returns sixteen bytes; nothing is assumed about its secrecy, so the theorems about genuine frames
  say which frame was computed from which plaintext and key, not that nobody else could compute it.  Clocks and
  random numbers are arguments.  The NOR flash (the \<^verbatim>\<open>embedded-storage\<close> traits) is a record of functions; the journal's theorems assume
  that a read returns the bytes, that a program or an erase touches nothing outside its range, that one that reports success did what it
  says, and that a slot an interrupted erase changed does not decode as a record.

  \<^bold>\<open>Not modelled.\<close>  The radio drivers and board support (register access), the asynchronous request loops around the
  modelled operations (\<^verbatim>\<open>nlde.rs\<close>'s transmission and joining, \<^verbatim>\<open>zigbee-runtime\<close>'s event loop), the ZDO, BDB and ZCL layers,
  except where a theory above names them, the sample applications and the tests.  These sequence the operations modelled
  here over hardware; their state is the state of the tables above.
\<close>


end
